(* ===== verification/Prelude.thy ===== *)
theory Prelude
  imports Main "HOL-Library.Word" "HOL-Library.Monad_Syntax"
begin

unbundle bit_operations_syntax

text \<open>
  Shared vocabulary of the development.

  \<^item> Machine integers. A Rust \<^verbatim>\<open>usize\<close> is a natural number below \<^verbatim>\<open>2^64\<close>. Both build
    profiles of the kernel set \<^verbatim>\<open>overflow-checks = true\<close> (src/Cargo.toml), so an addition,
    multiplication or subtraction that leaves the range panics; \<open>uadd\<close>, \<open>umul\<close> and \<open>usub\<close>
    return \<open>None\<close> there. Bit patterns (page table entries, stored memory words) are \<open>64 word\<close>.
  \<^item> Failure. A computation that may stop the kernel (\<^verbatim>\<open>panic!\<close>, \<^verbatim>\<open>assert!\<close>, \<^verbatim>\<open>expect\<close>, an
    index out of range, an arithmetic overflow, an access outside an array through a raw
    pointer, a loop that never ends) has a result of type \<open>'a outcome\<close>, and \<open>None\<close> is that stop.
    A Rust \<^verbatim>\<open>Result\<close> is the datatype \<open>result\<close>, a Rust \<^verbatim>\<open>Option\<close> is \<open>option\<close>.
  \<^item> Physical memory is a function from byte addresses to bytes with little-endian 64-bit
    accesses.
\<close>

section \<open>Results and checked arithmetic\<close>

type_synonym usize = nat
type_synonym 'a outcome = "'a option"

datatype ('a, 'e) result = Ok 'a | Err 'e

fun is_ok :: "('a, 'e) result \<Rightarrow> bool" where
  "is_ok (Ok _) = True"
| "is_ok (Err _) = False"

definition USIZE_LIMIT :: nat where
  [simp]: "USIZE_LIMIT = 2 ^ 64"

definition USIZE_MAX :: usize where
  [simp]: "USIZE_MAX = 2 ^ 64 - 1"

definition uadd :: "usize \<Rightarrow> usize \<Rightarrow> usize outcome" where
  "uadd a b = (if a + b < USIZE_LIMIT then Some (a + b) else None)"

definition umul :: "usize \<Rightarrow> usize \<Rightarrow> usize outcome" where
  "umul a b = (if a * b < USIZE_LIMIT then Some (a * b) else None)"

definition usub :: "usize \<Rightarrow> usize \<Rightarrow> usize outcome" where
  "usub a b = (if b \<le> a then Some (a - b) else None)"

text \<open>\<^verbatim>\<open>assert!\<close> and \<^verbatim>\<open>debug_assert!\<close>: stop when the condition is false.\<close>

definition require :: "bool \<Rightarrow> unit outcome" where
  "require c = (if c then Some () else None)"

definition div_ceil :: "nat \<Rightarrow> nat \<Rightarrow> nat" where
  "div_ceil a b = (a + b - 1) div b"

text \<open>\<^verbatim>\<open>usize::ilog2\<close> on positive arguments.\<close>

fun ilog2 :: "nat \<Rightarrow> nat" where
  "ilog2 n = (if n < 2 then 0 else Suc (ilog2 (n div 2)))"

declare ilog2.simps [simp del]

lemma ilog2_le: "0 < n \<Longrightarrow> 2 ^ ilog2 n \<le> n"
proof (induction n rule: ilog2.induct)
  case (1 n)
  show ?case
  proof (cases "n < 2")
    case False
    then have "2 ^ ilog2 (n div 2) \<le> n div 2" using 1 by simp
    then have "2 * 2 ^ ilog2 (n div 2) \<le> n" by simp
    with False show ?thesis by (simp add: ilog2.simps [of n])
  qed (use 1 in \<open>simp add: ilog2.simps [of n]\<close>)
qed

lemma ilog2_less: "n < 2 ^ Suc (ilog2 n)"
proof (induction n rule: ilog2.induct)
  case (1 n)
  show ?case
  proof (cases "n < 2")
    case False
    then have "n div 2 < 2 ^ Suc (ilog2 (n div 2))" using 1 by simp
    then have "n < 2 * 2 ^ Suc (ilog2 (n div 2))" by simp
    with False show ?thesis by (simp add: ilog2.simps [of n])
  qed (simp add: ilog2.simps [of n])
qed

text \<open>\<^verbatim>\<open>saturating_add\<close>, \<^verbatim>\<open>saturating_sub\<close> is subtraction on \<open>nat\<close>.\<close>

definition sat_add :: "usize \<Rightarrow> usize \<Rightarrow> usize" where
  "sat_add a b = min (a + b) USIZE_MAX"

named_theorems checked_simps "evaluation of checked arithmetic under its bounds"

lemma uadd_Some [checked_simps]: "a + b < USIZE_LIMIT \<Longrightarrow> uadd a b = Some (a + b)"
  by (simp add: uadd_def)

lemma umul_Some [checked_simps]: "a * b < USIZE_LIMIT \<Longrightarrow> umul a b = Some (a * b)"
  by (simp add: umul_def)

lemma usub_Some [checked_simps]: "b \<le> a \<Longrightarrow> usub a b = Some (a - b)"
  by (simp add: usub_def)

lemma require_True [simp]: "require True = Some ()"
  by (simp add: require_def)

lemma require_False [simp]: "require False = None"
  by (simp add: require_def)

lemma require_eq_Some [simp]: "require c = Some u \<longleftrightarrow> c"
  by (simp add: require_def)

lemma uadd_eq_Some: "uadd a b = Some c \<longleftrightarrow> c = a + b \<and> a + b < USIZE_LIMIT"
  by (auto simp: uadd_def)

lemma umul_eq_Some: "umul a b = Some c \<longleftrightarrow> c = a * b \<and> a * b < USIZE_LIMIT"
  by (auto simp: umul_def)

lemma usub_eq_Some: "usub a b = Some c \<longleftrightarrow> c = a - b \<and> b \<le> a"
  by (auto simp: usub_def)

text \<open>
  State-passing fallible code. A function that returns \<^verbatim>\<open>Result<a, e>\<close> and changes a state is a
  \<open>(('a, 'e) result \<times> 's) outcome\<close>. \<open>qmark\<close> is the question mark operator (an error returns at
  once with the state reached), \<open>expect_ok\<close> is \<^verbatim>\<open>.expect(..)\<close>, \<open>ok_or\<close> turns a \<^verbatim>\<open>None\<close> into an error.
\<close>

definition qmark ::
  "(('a, 'e) result \<times> 's) outcome \<Rightarrow> ('a \<Rightarrow> 's \<Rightarrow> (('b, 'e) result \<times> 's) outcome) \<Rightarrow>
   (('b, 'e) result \<times> 's) outcome" where
  "qmark r f = Option.bind r (\<lambda>(x, s). case x of Ok a \<Rightarrow> f a s | Err e \<Rightarrow> Some (Err e, s))"

definition expect_ok :: "(('a, 'e) result \<times> 's) outcome \<Rightarrow> ('a \<times> 's) outcome" where
  "expect_ok r = Option.bind r (\<lambda>(x, s). case x of Ok a \<Rightarrow> Some (a, s) | Err e \<Rightarrow> None)"

definition ok_or :: "'e \<Rightarrow> ('a option \<times> 's) outcome \<Rightarrow> (('a, 'e) result \<times> 's) outcome" where
  "ok_or e r = Option.bind r (\<lambda>(x, s). case x of Some a \<Rightarrow> Some (Ok a, s) | None \<Rightarrow> Some (Err e, s))"

lemma qmark_Ok [simp]: "qmark (Some (Ok a, s)) f = f a s"
  by (simp add: qmark_def)

lemma qmark_Err [simp]: "qmark (Some (Err e, s)) f = Some (Err e, s)"
  by (simp add: qmark_def)

lemma qmark_None [simp]: "qmark None f = None"
  by (simp add: qmark_def)

lemma qmark_weak_cong: "x = y \<Longrightarrow> qmark x f = qmark y f"
  by simp

lemma expect_ok_simps [simp]:
  "expect_ok (Some (Ok a, s)) = Some (a, s)" "expect_ok (Some (Err e, s)) = None" "expect_ok None = None"
  by (simp_all add: expect_ok_def)

lemma ok_or_simps [simp]:
  "ok_or e (Some (Some a, s)) = Some (Ok a, s)" "ok_or e (Some (None, s)) = Some (Err e, s)" "ok_or e None = None"
  by (simp_all add: ok_or_def)

lemma qmark_eq_Some:
  "qmark r f = Some y \<longleftrightarrow>
   (\<exists>a s. r = Some (Ok a, s) \<and> f a s = Some y) \<or> (\<exists>e s. r = Some (Err e, s) \<and> y = (Err e, s))"
proof (cases r)
  case (Some p)
  obtain x s where "p = (x, s)" by (cases p)
  with Some show ?thesis by (cases x) auto
qed simp

text \<open>Evaluate a computation before its continuation.\<close>

lemma bind_weak_cong: "x = y \<Longrightarrow> Option.bind x f = Option.bind y f"
  by simp

lemma div_ceil_mult_ge: "0 < b \<Longrightarrow> a \<le> div_ceil a b * b"
proof -
  assume b: "0 < b"
  have "a + b - 1 < (div_ceil a b + 1) * b"
    unfolding div_ceil_def using b
    by (metis Suc_eq_plus1 div_less_iff_less_mult lessI)
  with b show ?thesis by (simp add: algebra_simps)
qed

lemma div_ceil_least: "0 < b \<Longrightarrow> a \<le> k * b \<Longrightarrow> div_ceil a b \<le> k"
proof -
  assume b: "0 < b" and "a \<le> k * b"
  then have "a + b - 1 < (k + 1) * b" by (simp add: algebra_simps)
  then show ?thesis
    unfolding div_ceil_def using b by (metis Suc_eq_plus1 div_less_iff_less_mult less_Suc_eq_le)
qed

section \<open>Physical memory\<close>

type_synonym byte = "8 word"
type_synonym u64 = "64 word"
type_synonym mem = "nat \<Rightarrow> byte"

text \<open>Line ends for a terminal: a carriage return before every line feed.\<close>

definition crlf :: "byte list \<Rightarrow> byte list" where
  "crlf bs = concat (map (\<lambda>b. if b = 10 then [13, 10] else [b]) bs)"

text \<open>The \<open>n\<close> bytes at \<open>a\<close> as a little-endian number.\<close>

fun le_word :: "mem \<Rightarrow> nat \<Rightarrow> nat \<Rightarrow> u64" where
  "le_word m a 0 = 0"
| "le_word m a (Suc n) = ucast (m a) OR push_bit 8 (le_word m (Suc a) n)"

definition load64 :: "mem \<Rightarrow> nat \<Rightarrow> u64" where
  "load64 m a = le_word m a 8"

definition store64 :: "mem \<Rightarrow> nat \<Rightarrow> u64 \<Rightarrow> mem" where
  "store64 m a v = (\<lambda>x. if a \<le> x \<and> x < a + 8 then ucast (drop_bit (8 * (x - a)) v) else m x)"

lemma bit_le_word:
  "bit (le_word m a n) k \<longleftrightarrow> k < 8 * n \<and> k < 64 \<and> bit (m (a + k div 8)) (k mod 8)"
proof (induction n arbitrary: a k)
  case 0
  show ?case by simp
next
  case (Suc n)
  show ?case
  proof (cases "k < 8")
    case True
    then show ?thesis
      by (auto simp: bit_or_iff bit_push_bit_iff bit_ucast_iff)
  next
    case False
    then have k: "(k - 8) div 8 = k div 8 - 1" "(k - 8) mod 8 = k mod 8" "0 < k div 8"
      by (auto simp: le_div_geq le_mod_geq not_less)
    have hi: "\<not> bit (ucast (m a) :: u64) k"
      using False by (auto simp: bit_ucast_iff dest: bit_imp_le_length)
    have addr: "Suc a + (k - 8) div 8 = a + k div 8"
      using k by simp
    have "bit (le_word m a (Suc n)) k \<longleftrightarrow> k < 64 \<and> bit (le_word m (Suc a) n) (k - 8)"
      using False hi by (auto simp: bit_or_iff bit_push_bit_iff dest: bit_imp_le_length)
    also have "\<dots> \<longleftrightarrow> k < 64 \<and> k - 8 < 8 * n \<and> bit (m (a + k div 8)) (k mod 8)"
      unfolding Suc.IH addr k(2) by auto
    also have "\<dots> \<longleftrightarrow> k < 8 * Suc n \<and> k < 64 \<and> bit (m (a + k div 8)) (k mod 8)"
      using False by auto
    finally show ?thesis .
  qed
qed

lemma bit_load64: "bit (load64 m a) k \<longleftrightarrow> k < 64 \<and> bit (m (a + k div 8)) (k mod 8)"
  by (auto simp: load64_def bit_le_word)

lemma load64_store64_same [simp]: "load64 (store64 m a v) a = v"
proof (rule bit_word_eqI)
  fix k :: nat
  assume "k < LENGTH(64)"
  then have k: "k < 64" by simp
  define q r where "q = k div 8" and "r = k mod 8"
  then have qr: "k = 8 * q + r" "q < 8" "r < 8"
    using k less_mult_imp_div_less [of k 8 8] by simp_all
  have "store64 m a v (a + q) = ucast (drop_bit (8 * q) v)"
    using qr(2) by (simp add: store64_def)
  then have "bit (load64 (store64 m a v) a) k \<longleftrightarrow> bit (ucast (drop_bit (8 * q) v) :: byte) r"
    using k by (simp add: bit_load64 q_def r_def)
  also have "\<dots> \<longleftrightarrow> bit v k"
    using qr by (simp add: bit_ucast_iff bit_drop_bit_eq)
  finally show "bit (load64 (store64 m a v) a) k \<longleftrightarrow> bit v k" .
qed

lemma load64_cong: "(\<And>x. a \<le> x \<Longrightarrow> x < a + 8 \<Longrightarrow> m x = m' x) \<Longrightarrow> load64 m a = load64 m' a"
  by (rule bit_word_eqI) (simp add: bit_load64 less_mult_imp_div_less)

lemma load64_store64_other [simp]:
  "a + 8 \<le> b \<or> b + 8 \<le> a \<Longrightarrow> load64 (store64 m a v) b = load64 m b"
  by (rule load64_cong) (auto simp: store64_def)

lemma store64_other: "x < a \<or> a + 8 \<le> x \<Longrightarrow> store64 m a v x = m x"
  by (auto simp: store64_def)

lemma store64_0: "store64 m a 0 = (\<lambda>x. if a \<le> x \<and> x < a + 8 then 0 else m x)"
  by (simp add: store64_def fun_eq_iff)

lemma load64_zero: "(\<And>x. a \<le> x \<Longrightarrow> x < a + 8 \<Longrightarrow> m x = 0) \<Longrightarrow> load64 m a = 0"
  by (rule bit_word_eqI) (simp add: bit_load64 less_mult_imp_div_less)

lemma unat_of_nat_u64 [simp]: "v < USIZE_LIMIT \<Longrightarrow> unat (of_nat v :: u64) = v"
  by (simp add: unat_of_nat take_bit_nat_eq_self)

lemma unat_u64_less [simp]: "unat (w :: u64) < USIZE_LIMIT"
proof -
  have "unat w < 2 ^ LENGTH(64)" by (rule unsigned_less)
  then show ?thesis by simp
qed

section \<open>Powers of two and aligned blocks\<close>

lemma pow2_Suc: "\<exists>c. (2::nat) ^ k = Suc c"
  by (metis not0_implies_Suc power_not_zero zero_neq_numeral)

lemma pow2_dvd_pow2: "a \<le> b \<Longrightarrow> (2::nat) ^ a dvd 2 ^ b"
  by (rule le_imp_power_dvd)

lemma xor_one_nat: "(q :: nat) XOR 1 = (if even q then q + 1 else q - 1)"
  by (simp add: xor_Suc_0_eq)

lemma xor_pow2_nat:
  fixes i :: nat
  assumes "2 ^ k dvd i"
  shows "i XOR 2 ^ k = (if 2 ^ Suc k dvd i then i + 2 ^ k else i - 2 ^ k)"
proof -
  obtain q where i: "i = 2 ^ k * q" using assms by blast
  have "i XOR 2 ^ k = push_bit k q XOR push_bit k (1::nat)"
    by (simp add: i push_bit_eq_mult mult.commute)
  also have "\<dots> = push_bit k (q XOR 1)" by (simp add: push_bit_xor)
  also have "q XOR 1 = (if even q then q + 1 else q - 1)"
    by (rule xor_one_nat)
  finally have *: "i XOR 2 ^ k = 2 ^ k * (if even q then q + 1 else q - 1)"
    by (simp add: push_bit_eq_mult mult.commute)
  have "2 ^ Suc k dvd i \<longleftrightarrow> even q"
    by (simp add: i)
  then have "i XOR 2 ^ k = (if 2 ^ Suc k dvd i then 2 ^ k * (q + 1) else 2 ^ k * (q - 1))"
    using * by simp
  then show ?thesis by (simp add: i distrib_left diff_mult_distrib2)
qed

end
