(* ===== verification/Mem.thy ===== *)
theory Mem
  imports Prelude
begin

text \<open>
  Model of src/kernel/src/mem.rs, the buddy allocator for physical pages.

  The record \<open>mm\<close> holds physical memory, the page metadata array \<^verbatim>\<open>PAGE_META\<close> and the fields of
  \<^verbatim>\<open>BuddyAllocator\<close>. The free lists are intrusive: the first eight bytes of a free block hold
  the page index of the next free block of the same order, so the lists live in \<open>pmem\<close>.
  Every function returns an \<open>outcome\<close>; \<open>None\<close> stands for a failed \<^verbatim>\<open>assert!\<close> or
  \<^verbatim>\<open>debug_assert!\<close>, an arithmetic overflow, an access past the metadata array or a list walk
  that never ends. The lock \<^verbatim>\<open>with_allocator\<close> takes is not modelled: each function is one
  critical section.
\<close>

section \<open>State\<close>

definition PAGE_SIZE :: usize where
  [simp]: "PAGE_SIZE = 4096"

definition MAX_ORDER :: nat where
  [simp]: "MAX_ORDER = 12"

definition FREE_NONE :: usize where
  [simp]: "FREE_NONE = USIZE_MAX"

definition MAX_PAGES :: usize where
  [simp]: "MAX_PAGES = 128 * 1024 * 1024 div PAGE_SIZE"

record page_meta =
  pm_order :: nat
  pm_used :: bool

record mm =
  pmem :: mem
  ba_base :: usize
  ba_real_count :: usize
  ba_page_count :: usize
  ba_meta :: "nat \<Rightarrow> page_meta"
  ba_free_lists :: "nat \<Rightarrow> usize"

text \<open>The statics \<^verbatim>\<open>ALLOCATOR\<close> and \<^verbatim>\<open>PAGE_META\<close> at boot; \<open>m\<close> is what RAM holds then.\<close>

definition mm_static :: "mem \<Rightarrow> mm" where
  "mm_static m = \<lparr>pmem = m, ba_base = 0, ba_real_count = 0, ba_page_count = 0,
     ba_meta = (\<lambda>_. \<lparr>pm_order = 0, pm_used = False\<rparr>), ba_free_lists = (\<lambda>_. FREE_NONE)\<rparr>"

section \<open>Accessors\<close>

definition meta_at :: "mm \<Rightarrow> nat \<Rightarrow> page_meta outcome" where
  "meta_at s idx = (if idx < ba_page_count s then Some (ba_meta s idx) else None)"

definition meta_put :: "mm \<Rightarrow> nat \<Rightarrow> page_meta \<Rightarrow> mm outcome" where
  "meta_put s idx m =
     (if idx < ba_page_count s then Some (s\<lparr>ba_meta := (ba_meta s)(idx := m)\<rparr>) else None)"

definition fl_get :: "mm \<Rightarrow> nat \<Rightarrow> usize outcome" where
  "fl_get s order = (if order \<le> MAX_ORDER then Some (ba_free_lists s order) else None)"

definition fl_set :: "mm \<Rightarrow> nat \<Rightarrow> usize \<Rightarrow> mm outcome" where
  "fl_set s order v =
     (if order \<le> MAX_ORDER then Some (s\<lparr>ba_free_lists := (ba_free_lists s)(order := v)\<rparr>) else None)"

definition block_addr :: "mm \<Rightarrow> nat \<Rightarrow> usize outcome" where
  "block_addr s idx = do { off \<leftarrow> umul idx PAGE_SIZE; uadd (ba_base s) off }"

definition block_index :: "mm \<Rightarrow> usize \<Rightarrow> nat outcome" where
  "block_index s addr = do { d \<leftarrow> usub addr (ba_base s); Some (d div PAGE_SIZE) }"

text \<open>The first word of a block, read and written through a raw pointer.\<close>

definition read_next :: "mm \<Rightarrow> nat \<Rightarrow> usize outcome" where
  "read_next s idx = do { a \<leftarrow> block_addr s idx; Some (unat (load64 (pmem s) a)) }"

definition write_next :: "mm \<Rightarrow> nat \<Rightarrow> usize \<Rightarrow> mm outcome" where
  "write_next s idx v =
     do { a \<leftarrow> block_addr s idx; Some (s\<lparr>pmem := store64 (pmem s) a (of_nat v)\<rparr>) }"

section \<open>Free list operations\<close>

definition push :: "mm \<Rightarrow> nat \<Rightarrow> nat \<Rightarrow> mm outcome" where
  "push s idx order = do {
     require (order \<le> MAX_ORDER);
     require (idx + 2 ^ order \<le> ba_page_count s);
     nxt \<leftarrow> fl_get s order;
     s1 \<leftarrow> write_next s idx nxt;
     s2 \<leftarrow> fl_set s1 order idx;
     meta_put s2 idx \<lparr>pm_order = order, pm_used = False\<rparr>
   }"

definition pop :: "mm \<Rightarrow> nat \<Rightarrow> (nat option \<times> mm) outcome" where
  "pop s order = do {
     head \<leftarrow> fl_get s order;
     if head = FREE_NONE then Some (None, s)
     else do {
       require (head < ba_page_count s);
       nxt \<leftarrow> read_next s head;
       s1 \<leftarrow> fl_set s order nxt;
       Some (Some head, s1)
     }
   }"

partial_function (option) unlink_loop ::
  "mm \<Rightarrow> nat \<Rightarrow> nat \<Rightarrow> usize \<Rightarrow> usize \<Rightarrow> mm outcome" where
  "unlink_loop s target order prev cur =
     (if cur = FREE_NONE then Some s
      else if \<not> cur < ba_page_count s then None
      else if cur = target then do {
        nxt \<leftarrow> read_next s cur;
        if prev = FREE_NONE then fl_set s order nxt else write_next s prev nxt
      }
      else do {
        nxt \<leftarrow> read_next s cur;
        unlink_loop s target order cur nxt
      })"

definition unlink :: "mm \<Rightarrow> nat \<Rightarrow> nat \<Rightarrow> mm outcome" where
  "unlink s target order = do {
     cur \<leftarrow> fl_get s order;
     unlink_loop s target order FREE_NONE cur
   }"

section \<open>Initialisation\<close>

text \<open>
  The scan of the reserved ranges in \<^verbatim>\<open>carve\<close>: it stops at the first range that contains
  the block, with the overlap flag as the earlier ranges left it.
\<close>

fun carve_scan :: "nat \<Rightarrow> nat \<Rightarrow> (nat \<times> nat) list \<Rightarrow> bool \<Rightarrow> bool \<times> bool" where
  "carve_scan st e [] overlap = (False, overlap)"
| "carve_scan st e ((rs, re) # rest) overlap =
     (if rs \<le> st \<and> e \<le> re then (True, overlap)
      else carve_scan st e rest (overlap \<or> (rs < e \<and> st < re)))"

fun carve :: "mm \<Rightarrow> nat \<Rightarrow> nat \<Rightarrow> (nat \<times> nat) list \<Rightarrow> mm outcome" where
  "carve s idx order reserved =
     (let size = 2 ^ order; e = idx + size in
      if ba_real_count s \<le> idx then Some s
      else if ba_real_count s < e then
        (case order of
           0 \<Rightarrow> None
         | Suc o' \<Rightarrow> do {
             s1 \<leftarrow> carve s idx o' reserved;
             carve s1 (idx + size div 2) o' reserved })
      else
        (let (inside_any, overlap_any) = carve_scan idx e reserved False in
         if \<not> overlap_any then push s idx order
         else if inside_any then meta_put s idx \<lparr>pm_order = 255, pm_used = True\<rparr>
         else
           (case order of
              0 \<Rightarrow> None
            | Suc o' \<Rightarrow> do {
                s1 \<leftarrow> carve s idx o' reserved;
                carve s1 (idx + size div 2) o' reserved })))"

declare carve.simps [simp del]

function init_full :: "mm \<Rightarrow> nat \<Rightarrow> nat \<Rightarrow> (mm \<times> nat) outcome" where
  "init_full s idx count =
     (if idx + 2 ^ MAX_ORDER \<le> count then do {
        s1 \<leftarrow> push s idx MAX_ORDER;
        init_full s1 (idx + 2 ^ MAX_ORDER) count }
      else Some (s, idx))"
  by pat_completeness auto
termination
  by (relation "measure (\<lambda>(s, idx, count). count - idx)") auto

function init_tail :: "mm \<Rightarrow> nat \<Rightarrow> nat \<Rightarrow> mm outcome" where
  "init_tail s idx count =
     (if idx < count then
        (let order = min (ilog2 (count - idx)) MAX_ORDER in do {
           s1 \<leftarrow> push s idx order;
           init_tail s1 (idx + 2 ^ order) count })
      else Some s)"
  by pat_completeness auto
termination
  by (relation "measure (\<lambda>(s, idx, count). count - idx)") (auto intro: diff_less_mono2)

function init_carve :: "mm \<Rightarrow> nat \<Rightarrow> nat \<Rightarrow> (nat \<times> nat) list \<Rightarrow> mm outcome" where
  "init_carve s idx count reserved =
     (if idx < count then do {
        s1 \<leftarrow> carve s idx MAX_ORDER reserved;
        init_carve s1 (idx + 2 ^ MAX_ORDER) count reserved }
      else Some s)"
  by pat_completeness auto
termination
  by (relation "measure (\<lambda>(s, idx, count, r). count - idx)") auto

declare init_full.simps [simp del] init_tail.simps [simp del] init_carve.simps [simp del]

text \<open>
  \<^verbatim>\<open>BuddyAllocator::init\<close>. The two loops over the metadata array are written pointwise: pages
  below \<open>count\<close> become free singles, the padding pages are permanently used.
\<close>

definition init_meta :: "(nat \<Rightarrow> page_meta) \<Rightarrow> nat \<Rightarrow> nat \<Rightarrow> nat \<Rightarrow> page_meta" where
  "init_meta m count padded =
     (\<lambda>i. if i < count then \<lparr>pm_order = 0, pm_used = False\<rparr>
          else if i < padded then \<lparr>pm_order = MAX_ORDER, pm_used = True\<rparr>
          else m i)"

definition ba_init :: "mm \<Rightarrow> usize \<Rightarrow> nat \<Rightarrow> (nat \<times> nat) list \<Rightarrow> mm outcome" where
  "ba_init s base count reserved = do {
     require (count \<le> MAX_PAGES);
     let order_size = 2 ^ MAX_ORDER;
     let padded = div_ceil count order_size * order_size;
     require (padded \<le> MAX_PAGES);
     let s1 = s\<lparr>ba_base := base, ba_real_count := count, ba_page_count := padded,
                ba_meta := init_meta (ba_meta s) count padded\<rparr>;
     if reserved = [] then do {
       (s2, idx) \<leftarrow> init_full s1 0 count;
       init_tail s2 idx count
     }
     else init_carve s1 0 count reserved
   }"

section \<open>Allocation and release\<close>

function alloc_find :: "mm \<Rightarrow> nat \<Rightarrow> ((nat \<times> nat) option \<times> mm) outcome" where
  "alloc_find s ord =
     (if ord \<le> MAX_ORDER then do {
        (r, s1) \<leftarrow> pop s ord;
        (case r of
           Some idx \<Rightarrow> Some (Some (idx, ord), s1)
         | None \<Rightarrow> alloc_find s1 (Suc ord)) }
      else Some (None, s))"
  by pat_completeness auto
termination
  by (relation "measure (\<lambda>(s, ord). Suc MAX_ORDER - ord)") auto

function alloc_split :: "mm \<Rightarrow> nat \<Rightarrow> nat \<Rightarrow> nat \<Rightarrow> mm outcome" where
  "alloc_split s idx cur order =
     (if order < cur then do {
        s1 \<leftarrow> push s (idx + 2 ^ (cur - 1)) (cur - 1);
        alloc_split s1 idx (cur - 1) order }
      else Some s)"
  by pat_completeness auto
termination
  by (relation "measure (\<lambda>(s, idx, cur, order). cur)") auto

declare alloc_find.simps [simp del] alloc_split.simps [simp del]

definition alloc :: "mm \<Rightarrow> nat \<Rightarrow> (usize option \<times> mm) outcome" where
  "alloc s order =
     (if MAX_ORDER < order then Some (None, s)
      else do {
        (found, s1) \<leftarrow> alloc_find s order;
        (case found of
           None \<Rightarrow> Some (None, s1)
         | Some (idx, cur) \<Rightarrow> do {
             s2 \<leftarrow> alloc_split s1 idx cur order;
             s3 \<leftarrow> meta_put s2 idx \<lparr>pm_order = order, pm_used = True\<rparr>;
             a \<leftarrow> block_addr s3 idx;
             Some (Some a, s3) })
      })"

function free_merge :: "mm \<Rightarrow> nat \<Rightarrow> nat \<Rightarrow> (nat \<times> nat \<times> mm) outcome" where
  "free_merge s idx order =
     (if order < MAX_ORDER then
        (let buddy = idx XOR 2 ^ order; size = 2 ^ order in
         if ba_page_count s < buddy + size then Some (idx, order, s)
         else do {
           bm \<leftarrow> meta_at s buddy;
           if pm_used bm \<or> pm_order bm \<noteq> order then Some (idx, order, s)
           else do {
             s1 \<leftarrow> unlink s buddy order;
             free_merge s1 (min idx buddy) (Suc order) }
         })
      else Some (idx, order, s))"
  by pat_completeness auto
termination
  by (relation "measure (\<lambda>(s, idx, order). MAX_ORDER - order)") auto

declare free_merge.simps [simp del]

definition free :: "mm \<Rightarrow> usize \<Rightarrow> ((unit, unit) result \<times> mm) outcome" where
  "free s addr = do {
     len \<leftarrow> umul (ba_real_count s) PAGE_SIZE;
     e \<leftarrow> uadd (ba_base s) len;
     if addr < ba_base s \<or> e \<le> addr \<or> addr mod PAGE_SIZE \<noteq> 0 then Some (Err (), s)
     else do {
       idx \<leftarrow> block_index s addr;
       m \<leftarrow> meta_at s idx;
       let order = pm_order m;
       if MAX_ORDER < order \<or> \<not> pm_used m then Some (Err (), s)
       else if idx mod 2 ^ order \<noteq> 0 then Some (Err (), s)
       else do {
         (idx', order', s1) \<leftarrow> free_merge s idx order;
         s2 \<leftarrow> push s1 idx' order';
         Some (Ok (), s2)
       }
     }
   }"

section \<open>Public interface\<close>

definition page_in_range :: "mm \<Rightarrow> usize \<Rightarrow> bool outcome" where
  "page_in_range s paddr =
     (if ba_base s \<le> paddr then do {
        len \<leftarrow> umul (ba_real_count s) PAGE_SIZE;
        e \<leftarrow> uadd (ba_base s) len;
        Some (paddr < e) }
      else Some False)"

definition alloc_pages :: "mm \<Rightarrow> nat \<Rightarrow> (usize option \<times> mm) outcome" where
  "alloc_pages s order = alloc s order"

definition free_pages :: "mm \<Rightarrow> usize \<Rightarrow> ((unit, unit) result \<times> mm) outcome" where
  "free_pages s addr = free s addr"

fun zero_words :: "mem \<Rightarrow> nat \<Rightarrow> nat \<Rightarrow> mem" where
  "zero_words m a 0 = m"
| "zero_words m a (Suc n) = zero_words (store64 m a 0) (a + 8) n"

definition zero_page :: "mm \<Rightarrow> usize \<Rightarrow> mm outcome" where
  "zero_page s addr = do {
     require (addr mod PAGE_SIZE = 0);
     Some (s\<lparr>pmem := zero_words (pmem s) addr (PAGE_SIZE div 8)\<rparr>)
   }"

fun zero_pages :: "mm \<Rightarrow> usize \<Rightarrow> nat \<Rightarrow> mm outcome" where
  "zero_pages s p 0 = Some s"
| "zero_pages s p (Suc n) = do { s1 \<leftarrow> zero_page s p; zero_pages s1 (p + PAGE_SIZE) n }"

definition alloc_pages_zeroed :: "mm \<Rightarrow> nat \<Rightarrow> (usize option \<times> mm) outcome" where
  "alloc_pages_zeroed s order = do {
     (r, s1) \<leftarrow> alloc_pages s order;
     (case r of
        None \<Rightarrow> Some (None, s1)
      | Some block \<Rightarrow> do { s2 \<leftarrow> zero_pages s1 block (2 ^ order); Some (Some block, s2) })
   }"

text \<open>The walk of one free list in \<^verbatim>\<open>free_page_count\<close> and the sum over the orders.\<close>

partial_function (option) count_list :: "mm \<Rightarrow> nat \<Rightarrow> usize \<Rightarrow> nat \<Rightarrow> nat outcome" where
  "count_list s order cur n =
     (if cur = FREE_NONE then Some n
      else do {
        nxt \<leftarrow> read_next s cur;
        count_list s order nxt (n + 2 ^ order)
      })"

fun count_orders :: "mm \<Rightarrow> nat list \<Rightarrow> nat \<Rightarrow> nat outcome" where
  "count_orders s [] n = Some n"
| "count_orders s (ord # os) n = do {
     head \<leftarrow> fl_get s ord;
     n' \<leftarrow> count_list s ord head n;
     count_orders s os n'
   }"

definition free_page_count :: "mm \<Rightarrow> nat outcome" where
  "free_page_count s = count_orders s [0..<Suc MAX_ORDER] 0"

text \<open>
  \<^verbatim>\<open>mem::init\<close>: the linker symbol \<^verbatim>\<open>_alloc_start\<close>, the end of RAM and the reserved ranges of the
  board parameters are arguments. Only the first eight reserved ranges are considered.
\<close>

fun reserved_pairs :: "usize \<Rightarrow> usize \<Rightarrow> nat \<Rightarrow> (usize \<times> usize) list \<Rightarrow> (nat \<times> nat) list" where
  "reserved_pairs base ram_end count [] = []"
| "reserved_pairs base ram_end count ((r_addr, r_size) # rest) =
     (let rest' = reserved_pairs base ram_end count rest;
          r_start = r_addr div PAGE_SIZE * PAGE_SIZE;
          r_end_raw = (if r_addr + r_size < USIZE_LIMIT then r_addr + r_size else ram_end);
          r_end1 = div_ceil (min r_end_raw ram_end) PAGE_SIZE * PAGE_SIZE;
          r_end = (if r_end1 < USIZE_LIMIT then r_end1 else ram_end);
          idx_start = (r_start - base) div PAGE_SIZE;
          idx_end = div_ceil (r_end - base) PAGE_SIZE
      in if r_size = 0 then rest'
         else if r_end \<le> base \<or> ram_end \<le> r_start then rest'
         else if idx_start < idx_end then (min idx_start count, min idx_end count) # rest'
         else rest')"

definition mem_init ::
  "mm \<Rightarrow> usize \<Rightarrow> usize \<Rightarrow> (usize \<times> usize) list \<Rightarrow> mm outcome" where
  "mem_init s alloc_start ram_end reserved = do {
     max_block \<leftarrow> umul (2 ^ MAX_ORDER) PAGE_SIZE;
     base \<leftarrow> umul (div_ceil alloc_start max_block) max_block;
     require (base < ram_end);
     let count = (ram_end - base) div PAGE_SIZE;
     require (count \<le> MAX_PAGES);
     ba_init s base count (reserved_pairs base ram_end count (take 8 reserved))
   }"

end
