(* ===== verification/Mem_Inv.thy ===== *)
theory Mem_Inv
  imports Mem
begin

text \<open>
  The invariant of the buddy allocator and the effect of its internal steps.

  A block is a pair of a page index and an order. \<open>tiling\<close> says that a set of aligned blocks
  partitions the managed pages. \<open>core\<close> relates an allocator state to the contents \<open>fl\<close> of its
  thirteen free lists and to the set \<open>X\<close> of all blocks that are not free. Pushing, popping and
  unlinking a block, splitting a block and merging two buddies each preserve \<open>core\<close>.
\<close>

section \<open>Blocks and tilings\<close>

type_synonym block = "nat \<times> nat"

fun span :: "block \<Rightarrow> nat set" where
  "span (i, ord) = {i ..< i + 2 ^ ord}"

definition spans :: "block set \<Rightarrow> nat set" where
  "spans B = (\<Union>b\<in>B. span b)"

fun aligned_block :: "block \<Rightarrow> bool" where
  "aligned_block (i, ord) \<longleftrightarrow> ord \<le> MAX_ORDER \<and> 2 ^ ord dvd i"

definition tiling :: "nat \<Rightarrow> block set \<Rightarrow> bool" where
  "tiling N B \<longleftrightarrow>
     (\<forall>b\<in>B. aligned_block b) \<and>
     (\<forall>b\<in>B. \<forall>c\<in>B. b \<noteq> c \<longrightarrow> span b \<inter> span c = {}) \<and>
     spans B = {..<N}"

lemma span_head [simp]: "i \<in> span (i, ord)"
  by simp

lemma in_span_iff [simp]: "x \<in> span b \<longleftrightarrow> fst b \<le> x \<and> x < fst b + 2 ^ snd b"
  by (cases b) simp

declare span.simps [simp del]

lemma spans_insert [simp]: "spans (insert b B) = span b \<union> spans B"
  by (simp add: spans_def)

lemma spans_Un [simp]: "spans (B \<union> C) = spans B \<union> spans C"
  by (auto simp: spans_def)

lemma spans_empty [simp]: "spans {} = {}"
  by (simp add: spans_def)

lemma spansI: "b \<in> B \<Longrightarrow> x \<in> span b \<Longrightarrow> x \<in> spans B"
  by (auto simp: spans_def)

lemma spans_mono: "B \<subseteq> C \<Longrightarrow> spans B \<subseteq> spans C"
  unfolding spans_def by blast

lemma tilingD_aligned: "tiling N B \<Longrightarrow> b \<in> B \<Longrightarrow> aligned_block b"
  by (simp add: tiling_def)

lemma tilingD_disjoint:
  "tiling N B \<Longrightarrow> b \<in> B \<Longrightarrow> c \<in> B \<Longrightarrow> x \<in> span b \<Longrightarrow> x \<in> span c \<Longrightarrow> b = c"
  unfolding tiling_def by blast

lemma tilingD_spans: "tiling N B \<Longrightarrow> spans B = {..<N}"
  by (simp add: tiling_def)

lemma tilingD_cover: "tiling N B \<Longrightarrow> x < N \<Longrightarrow> \<exists>b\<in>B. x \<in> span b"
  using tilingD_spans [of N B] unfolding spans_def by blast

lemma tilingD_bound: "tiling N B \<Longrightarrow> (i, ord) \<in> B \<Longrightarrow> i + 2 ^ ord \<le> N"
proof -
  assume "tiling N B" "(i, ord) \<in> B"
  moreover have "i + 2 ^ ord - 1 \<in> span (i, ord)"
    using pow2_Suc [of ord] by auto
  ultimately have "i + 2 ^ ord - 1 < N"
    using tilingD_spans spansI by blast
  then show ?thesis by simp
qed

lemma tilingD_head_unique:
  "tiling N B \<Longrightarrow> (i, a) \<in> B \<Longrightarrow> (i, b) \<in> B \<Longrightarrow> a = b"
  using tilingD_disjoint [of N B "(i, a)" "(i, b)" i] by simp

lemma spans_Diff:
  assumes "tiling N B" "C \<subseteq> B"
  shows "spans (B - C) = spans B - spans C"
proof
  show "spans (B - C) \<subseteq> spans B - spans C"
    using assms tilingD_disjoint [OF assms(1)] unfolding spans_def by blast
  show "spans B - spans C \<subseteq> spans (B - C)"
    unfolding spans_def by blast
qed

text \<open>Replacing a set of tiles by another set that covers the same pages.\<close>

lemma tiling_replace:
  assumes t: "tiling N B" and "C \<subseteq> B" and same: "spans D = spans C"
    and al: "\<And>d. d \<in> D \<Longrightarrow> aligned_block d"
    and dis: "\<And>d e x. d \<in> D \<Longrightarrow> e \<in> D \<Longrightarrow> x \<in> span d \<Longrightarrow> x \<in> span e \<Longrightarrow> d = e"
  shows "tiling N (B - C \<union> D)"
  unfolding tiling_def
proof (intro conjI ballI impI)
  fix b assume "b \<in> B - C \<union> D"
  then show "aligned_block b" using tilingD_aligned [OF t] al by blast
next
  fix b c assume b: "b \<in> B - C \<union> D" and c: "c \<in> B - C \<union> D" and ne: "b \<noteq> c"
  have cross: "span u \<inter> span v = {}" if "u \<in> B - C" "v \<in> D" for u v
  proof -
    have "span v \<subseteq> spans C" using that(2) same spansI by blast
    moreover have "span u \<inter> spans C = {}"
      using that(1) \<open>C \<subseteq> B\<close> tilingD_disjoint [OF t] unfolding spans_def by blast
    ultimately show ?thesis by blast
  qed
  show "span b \<inter> span c = {}"
    using b c ne cross [of b c] cross [of c b] tilingD_disjoint [OF t, of b c] dis [of b c]
    by blast
next
  show "spans (B - C \<union> D) = {..<N}"
    using spans_Diff [OF t \<open>C \<subseteq> B\<close>] same tilingD_spans [OF t] spans_mono [OF \<open>C \<subseteq> B\<close>]
    unfolding spans_Un by blast
qed

lemma tiling_split:
  assumes t: "tiling N B" and b: "(i, Suc k) \<in> B"
  shows "tiling N (B - {(i, Suc k)} \<union> {(i, k), (i + 2 ^ k, k)})"
proof (rule tiling_replace [OF t])
  have al: "Suc k \<le> MAX_ORDER" "2 ^ Suc k dvd i"
    using tilingD_aligned [OF t b] by simp_all
  then have "2 ^ k dvd i"
    by (metis dvd_trans le_SucI order_refl pow2_dvd_pow2)
  then show "aligned_block d" if "d \<in> {(i, k), (i + 2 ^ k, k)}" for d
    using that al by auto
qed (use b in auto)

lemma tiling_merge:
  assumes t: "tiling N B" and "(i, k) \<in> B" "(j, k) \<in> B" and j: "j = i XOR 2 ^ k" and "k < MAX_ORDER"
  shows "tiling N (B - {(i, k), (j, k)} \<union> {(min i j, Suc k)})"
proof (rule tiling_replace [OF t])
  have d: "2 ^ k dvd i" using tilingD_aligned [OF t assms(2)] by simp
  have x: "j = (if 2 ^ Suc k dvd i then i + 2 ^ k else i - 2 ^ k)"
    unfolding j by (rule xor_pow2_nat [OF d])
  have lo: "2 ^ Suc k dvd i - 2 ^ k \<and> 2 ^ k \<le> i" if "\<not> 2 ^ Suc k dvd i"
  proof -
    obtain q where q: "i = 2 ^ k * q" using d by blast
    with that have "odd q" by auto
    then obtain r where "q = Suc (2 * r)" by (auto elim: oddE)
    then have "i = 2 ^ Suc k * r + 2 ^ k" by (simp add: q algebra_simps)
    then show ?thesis by simp
  qed
  show "aligned_block b" if "b \<in> {(min i j, Suc k)}" for b
    using that x lo \<open>k < MAX_ORDER\<close> by (auto split: if_splits)
  show "spans {(min i j, Suc k)} = spans {(i, k), (j, k)}"
    using x lo by (auto simp: min_def split: if_splits)
qed (use assms in auto)

text \<open>
  The heart of the merge step: the buddy of a tile starts a tile that is not larger. So the
  metadata of the buddy's first page describes the tile that starts there.
\<close>

lemma buddy_is_head:
  assumes t: "tiling N B" and b: "(i, k) \<in> B" and k: "k < MAX_ORDER" and N: "2 ^ MAX_ORDER dvd N"
  shows "(i XOR 2 ^ k) + 2 ^ k \<le> N \<and> (\<exists>p\<le>k. (i XOR 2 ^ k, p) \<in> B)"
proof -
  let ?j = "i XOR 2 ^ k"
  have d: "2 ^ k dvd i" using tilingD_aligned [OF t b] by simp
  have x: "?j = (if 2 ^ Suc k dvd i then i + 2 ^ k else i - 2 ^ k)"
    by (rule xor_pow2_nat [OF d])
  have jd: "2 ^ k dvd ?j" using d x by (auto simp: dvd_diff_nat)
  have iN: "i + 2 ^ k \<le> N" by (rule tilingD_bound [OF t b])
  have jN: "?j + 2 ^ k \<le> N"
  proof (cases "2 ^ Suc k dvd i")
    case True
    have "2 ^ Suc k dvd N"
      using N k by (meson dvd_trans pow2_dvd_pow2 Suc_leI)
    with True obtain a c where "i = 2 ^ Suc k * a" "N = 2 ^ Suc k * c" by (auto elim!: dvdE)
    moreover from this iN have "a < c"
      by (metis add_leD1 add_le_same_cancel1 le_antisym mult_le_mono2 not_less power_eq_0_iff
          le_zero_eq zero_neq_numeral)
    then have "2 ^ Suc k * Suc a \<le> 2 ^ Suc k * c" by (intro mult_le_mono2) simp
    ultimately show ?thesis using True x by (simp add: algebra_simps)
  next
    case False
    then show ?thesis using x iN by simp
  qed
  then have "?j < N"
    by (meson less_le_trans less_add_same_cancel1 zero_less_numeral zero_less_power)
  then obtain h p where hp: "(h, p) \<in> B" "?j \<in> span (h, p)"
    using tilingD_cover [OF t] by fastforce
  have hd: "2 ^ p dvd h" using tilingD_aligned [OF t hp(1)] by simp
  have "p \<le> k"
  proof (rule ccontr)
    assume "\<not> p \<le> k"
    then have sk: "2 ^ Suc k dvd (2::nat) ^ p" by (intro pow2_dvd_pow2) simp
    define m where "m = (if 2 ^ Suc k dvd i then i else ?j)"
    have m: "2 ^ Suc k dvd m" "m \<le> i" "i < m + 2 ^ Suc k" "m \<le> ?j" "?j < m + 2 ^ Suc k"
    proof -
      obtain q where q: "i = 2 ^ k * q" using d by blast
      have "2 ^ Suc k dvd i - 2 ^ k \<and> 2 ^ k \<le> i" if "\<not> 2 ^ Suc k dvd i"
      proof -
        from that q have "odd q" by auto
        then obtain r where "q = Suc (2 * r)" by (auto elim: oddE)
        then have "i = 2 ^ Suc k * r + 2 ^ k" by (simp add: q algebra_simps)
        then show ?thesis by simp
      qed
      then show "2 ^ Suc k dvd m" "m \<le> i" "i < m + 2 ^ Suc k" "m \<le> ?j" "?j < m + 2 ^ Suc k"
        using x pow2_Suc [of k] by (auto simp: m_def)
    qed
    obtain u where u: "m = 2 ^ Suc k * u" using m(1) by blast
    obtain v where v: "h = 2 ^ Suc k * v" using hd sk by (meson dvdE dvd_trans)
    obtain w where w: "(2::nat) ^ p = 2 ^ Suc k * w" using sk by blast
    have "2 ^ Suc k * v < 2 ^ Suc k * Suc u" "2 ^ Suc k * u < 2 ^ Suc k * (v + w)"
      using hp(2) m(4,5) by (simp_all add: u v w algebra_simps)
    then have "v \<le> u" "Suc u \<le> v + w" by (simp_all only: mult_less_cancel1) simp_all
    then have "2 ^ Suc k * v \<le> 2 ^ Suc k * u" "2 ^ Suc k * Suc u \<le> 2 ^ Suc k * (v + w)"
      by (blast intro: mult_le_mono2)+
    then have "h \<le> m" "m + 2 ^ Suc k \<le> h + 2 ^ p"
      unfolding u v w by (simp_all only: distrib_left mult_Suc_right add.commute)
    then have "i \<in> span (h, p)"
      using m(2,3) by simp
    then have "(i, k) = (h, p)"
      using tilingD_disjoint [OF t b hp(1), of i] by simp
    with \<open>\<not> p \<le> k\<close> show False by simp
  qed
  moreover have "h = ?j"
  proof -
    have "2 ^ p dvd ?j" using jd \<open>p \<le> k\<close> by (meson dvd_trans pow2_dvd_pow2)
    with hd obtain a c where ac: "?j = 2 ^ p * a" "h = 2 ^ p * c" by (auto elim!: dvdE)
    then have "2 ^ p * c \<le> 2 ^ p * a" "2 ^ p * a < 2 ^ p * Suc c" using hp(2) by simp_all
    then have "c \<le> a" "a < Suc c" by (simp_all only: mult_le_cancel1 mult_less_cancel1)
    then show ?thesis by (simp add: ac)
  qed
  ultimately show ?thesis using jN hp(1) by blast
qed

section \<open>Free lists in memory\<close>

definition page_addr :: "mm \<Rightarrow> nat \<Rightarrow> usize" where
  "page_addr s i = ba_base s + i * PAGE_SIZE"

fun chain :: "mm \<Rightarrow> usize \<Rightarrow> nat list \<Rightarrow> bool" where
  "chain s h [] \<longleftrightarrow> h = FREE_NONE"
| "chain s h (x # xs) \<longleftrightarrow>
     h = x \<and> x < ba_page_count s \<and> chain s (unat (load64 (pmem s) (page_addr s x))) xs"

definition geom :: "mm \<Rightarrow> bool" where
  "geom s \<longleftrightarrow>
     2 ^ MAX_ORDER * PAGE_SIZE dvd ba_base s \<and>
     ba_base s + ba_page_count s * PAGE_SIZE < USIZE_LIMIT \<and>
     ba_real_count s \<le> ba_page_count s \<and>
     2 ^ MAX_ORDER dvd ba_page_count s"

definition fblocks :: "(nat \<Rightarrow> nat list) \<Rightarrow> block set" where
  "fblocks fl = {(i, ord). ord \<le> MAX_ORDER \<and> i \<in> set (fl ord)}"

definition core :: "mm \<Rightarrow> (nat \<Rightarrow> nat list) \<Rightarrow> block set \<Rightarrow> bool" where
  "core s fl X \<longleftrightarrow>
     geom s \<and>
     (\<forall>ord\<le>MAX_ORDER. chain s (ba_free_lists s ord) (fl ord) \<and> distinct (fl ord)) \<and>
     tiling (ba_page_count s) (fblocks fl \<union> X) \<and>
     fblocks fl \<inter> X = {} \<and>
     (\<forall>(i, ord)\<in>fblocks fl.
        ba_meta s i = \<lparr>pm_order = ord, pm_used = False\<rparr> \<and> i + 2 ^ ord \<le> ba_real_count s)"

text \<open>Only the pages of \<open>P\<close> may differ between two states.\<close>

definition in_pages :: "mm \<Rightarrow> nat set \<Rightarrow> usize \<Rightarrow> bool" where
  "in_pages s P x \<longleftrightarrow> ba_base s \<le> x \<and> (x - ba_base s) div PAGE_SIZE \<in> P"

definition same_geom :: "mm \<Rightarrow> mm \<Rightarrow> bool" where
  "same_geom s s' \<longleftrightarrow>
     ba_base s' = ba_base s \<and> ba_real_count s' = ba_real_count s \<and> ba_page_count s' = ba_page_count s"

definition frame_pages :: "mm \<Rightarrow> mm \<Rightarrow> nat set \<Rightarrow> bool" where
  "frame_pages s s' P \<longleftrightarrow>
     same_geom s s' \<and> (\<forall>x. \<not> in_pages s P x \<longrightarrow> pmem s' x = pmem s x)"

lemma frame_pages_refl [simp]: "frame_pages s s P"
  by (simp add: frame_pages_def same_geom_def)

lemma frame_pages_trans [trans]:
  "frame_pages s s' P \<Longrightarrow> frame_pages s' s'' P \<Longrightarrow> frame_pages s s'' P"
  by (simp add: frame_pages_def same_geom_def in_pages_def)

lemma frame_pages_mono: "frame_pages s s' P \<Longrightarrow> P \<subseteq> Q \<Longrightarrow> frame_pages s s' Q"
  unfolding frame_pages_def in_pages_def by blast

lemma in_fblocks [simp]: "(i, ord) \<in> fblocks fl \<longleftrightarrow> ord \<le> MAX_ORDER \<and> i \<in> set (fl ord)"
  by (simp add: fblocks_def)

lemma coreD_geom: "core s fl X \<Longrightarrow> geom s" by (simp add: core_def)

lemma coreD_tiling: "core s fl X \<Longrightarrow> tiling (ba_page_count s) (fblocks fl \<union> X)"
  by (simp add: core_def)

lemma coreD_chain:
  "core s fl X \<Longrightarrow> ord \<le> MAX_ORDER \<Longrightarrow> chain s (ba_free_lists s ord) (fl ord)"
  by (simp add: core_def)

lemma coreD_distinct: "core s fl X \<Longrightarrow> ord \<le> MAX_ORDER \<Longrightarrow> distinct (fl ord)"
  by (simp add: core_def)

lemma coreD_disjoint: "core s fl X \<Longrightarrow> fblocks fl \<inter> X = {}"
  by (simp add: core_def)

lemma coreD_free:
  "core s fl X \<Longrightarrow> ord \<le> MAX_ORDER \<Longrightarrow> i \<in> set (fl ord) \<Longrightarrow>
   ba_meta s i = \<lparr>pm_order = ord, pm_used = False\<rparr> \<and> i + 2 ^ ord \<le> ba_real_count s"
  unfolding core_def by fastforce

lemma geom_addr_bound: "geom s \<Longrightarrow> i < ba_page_count s \<Longrightarrow> page_addr s i + PAGE_SIZE < USIZE_LIMIT"
proof -
  assume g: "geom s" and i: "i < ba_page_count s"
  have "(i + 1) * 4096 \<le> ba_page_count s * 4096" using i by (intro mult_le_mono1) simp
  then show ?thesis using g by (simp add: geom_def page_addr_def)
qed

lemma geom_index_bound: "geom s \<Longrightarrow> i < ba_page_count s \<Longrightarrow> i < FREE_NONE"
  using geom_addr_bound [of s i] by (simp add: page_addr_def)

lemma block_addr_eq:
  "geom s \<Longrightarrow> i < ba_page_count s \<Longrightarrow> block_addr s i = Some (page_addr s i)"
  using geom_addr_bound [of s i] by (simp add: block_addr_def page_addr_def checked_simps)

lemma page_addr_apart:
  "i \<noteq> j \<Longrightarrow> page_addr s i + 8 \<le> page_addr s j \<or> page_addr s j + 8 \<le> page_addr s i"
  by (auto simp: page_addr_def neq_iff)

lemma load64_page_other:
  "p \<noteq> y \<Longrightarrow> load64 (store64 m (page_addr s p) v) (page_addr s y) = load64 m (page_addr s y)"
  using page_addr_apart [of p y s] by simp

lemma in_pages_word:
  "page_addr s i \<le> x \<Longrightarrow> x < page_addr s i + 8 \<Longrightarrow> i \<in> P \<Longrightarrow> in_pages s P x"
proof -
  assume x: "page_addr s i \<le> x" "x < page_addr s i + 8" and "i \<in> P"
  then obtain d where "x = ba_base s + (i * 4096 + d)" "d < 8"
    by (metis add.assoc add_less_cancel_left le_Suc_ex page_addr_def PAGE_SIZE_def)
  then show ?thesis using \<open>i \<in> P\<close> by (simp add: in_pages_def)
qed

lemma chain_cong:
  assumes "ba_base s' = ba_base s" "ba_page_count s' = ba_page_count s"
    and "\<And>x. x \<in> set xs \<Longrightarrow> load64 (pmem s') (page_addr s x) = load64 (pmem s) (page_addr s x)"
  shows "chain s' h xs = chain s h xs"
  using assms(3)
proof (induction xs arbitrary: h)
  case Nil
  then show ?case by simp
next
  case (Cons x xs)
  have "page_addr s' x = page_addr s x" using assms(1) by (simp add: page_addr_def)
  then show ?case using Cons assms(2) by simp
qed

lemma chain_set_bound: "chain s h xs \<Longrightarrow> x \<in> set xs \<Longrightarrow> x < ba_page_count s"
  by (induction xs arbitrary: h) auto

section \<open>Push, pop and unlink\<close>

lemma chain_head_bound: "geom s \<Longrightarrow> chain s h xs \<Longrightarrow> h < USIZE_LIMIT"
  using geom_index_bound [of s h] by (cases xs) auto

lemma core_order: "core s fl X \<Longrightarrow> (i, ord) \<in> X \<Longrightarrow> ord \<le> MAX_ORDER"
  using tilingD_aligned [OF coreD_tiling] by fastforce

lemma core_index: "core s fl X \<Longrightarrow> (i, ord) \<in> X \<Longrightarrow> i + 2 ^ ord \<le> ba_page_count s"
  using tilingD_bound [OF coreD_tiling] by fastforce

lemma core_free_span:
  assumes c: "core s fl X" and "(i, ord) \<in> X" and "q \<le> MAX_ORDER" "y \<in> set (fl q)"
  shows "y < i \<or> i + 2 ^ ord \<le> y"
proof (rule ccontr)
  assume "\<not> ?thesis"
  then have "(i, ord) = (y, q)"
    using tilingD_disjoint [OF coreD_tiling [OF c], of "(i, ord)" "(y, q)" y] assms by simp
  then have "(y, q) \<in> fblocks fl \<inter> X" using assms by auto
  then show False using coreD_disjoint [OF c] by simp
qed

lemma core_free_neq:
  assumes "core s fl X" and "(i, ord) \<in> X" and "q \<le> MAX_ORDER" "y \<in> set (fl q)"
  shows "y \<noteq> i"
  using core_free_span [OF assms] by auto

lemma fblocks_cons:
  "ord \<le> MAX_ORDER \<Longrightarrow> fblocks (fl(ord := i # fl ord)) = insert (i, ord) (fblocks fl)"
  by (auto simp: fblocks_def split: if_splits)

lemma fblocks_remove:
  "ord \<le> MAX_ORDER \<Longrightarrow> distinct (fl ord) \<Longrightarrow>
   fblocks (fl(ord := remove1 i (fl ord))) = fblocks fl - {(i, ord)}"
  by (auto simp: fblocks_def split: if_splits)

lemma push_core:
  assumes c: "core s fl X" and x: "(i, ord) \<in> X" and r: "i + 2 ^ ord \<le> ba_real_count s"
  shows "\<exists>s'. push s i ord = Some s' \<and> core s' (fl(ord := i # fl ord)) (X - {(i, ord)}) \<and>
     frame_pages s s' {i} \<and> (\<forall>j. j \<noteq> i \<longrightarrow> ba_meta s' j = ba_meta s j)"
proof -
  note g = coreD_geom [OF c] and ordm = core_order [OF c x] and ib = core_index [OF c x]
  have i: "i < ba_page_count s" using ib by (meson less_le_trans less_add_same_cancel1 zero_less_numeral zero_less_power)
  let ?a = "page_addr s i"
  let ?s' = "s\<lparr>pmem := store64 (pmem s) ?a (of_nat (ba_free_lists s ord)),
      ba_free_lists := (ba_free_lists s)(ord := i),
      ba_meta := (ba_meta s)(i := \<lparr>pm_order = ord, pm_used = False\<rparr>)\<rparr>"
  have p: "push s i ord = Some ?s'"
    using i ib ordm block_addr_eq [OF g i]
    by (simp add: push_def write_next_def fl_get_def fl_set_def meta_put_def)
  have pa: "page_addr ?s' = page_addr s" by (simp add: page_addr_def fun_eq_iff)
  have hb: "ba_free_lists s ord < USIZE_LIMIT"
    using chain_head_bound [OF g coreD_chain [OF c ordm]] .
  have load: "load64 (pmem ?s') (page_addr s y) = load64 (pmem s) (page_addr s y)"
    if "q \<le> MAX_ORDER" "y \<in> set (fl q)" for q y
    using load64_page_other [of i y] core_free_neq [OF c x that] by auto
  have old: "chain ?s' h (fl q) = chain s h (fl q)" if "q \<le> MAX_ORDER" for h q
    by (rule chain_cong) (use load that in auto)
  have "core ?s' (fl(ord := i # fl ord)) (X - {(i, ord)})"
    unfolding core_def
  proof (intro conjI allI impI)
    show "geom ?s'" using g by (simp add: geom_def)
    fix q assume q: "q \<le> MAX_ORDER"
    show "chain ?s' (ba_free_lists ?s' q) ((fl(ord := i # fl ord)) q)"
      using old [OF q] old [OF ordm] coreD_chain [OF c q] coreD_chain [OF c ordm] i hb
      by (auto simp: pa)
    show "distinct ((fl(ord := i # fl ord)) q)"
      using coreD_distinct [OF c q] core_free_neq [OF c x ordm] by auto
  next
    have "fblocks fl \<union> X = fblocks (fl(ord := i # fl ord)) \<union> (X - {(i, ord)})"
      using x fblocks_cons [OF ordm] by auto
    then show "tiling (ba_page_count ?s') (fblocks (fl(ord := i # fl ord)) \<union> (X - {(i, ord)}))"
      using coreD_tiling [OF c] by simp
    show "fblocks (fl(ord := i # fl ord)) \<inter> (X - {(i, ord)}) = {}"
      using coreD_disjoint [OF c] fblocks_cons [OF ordm] by auto
    have "ba_meta ?s' y = \<lparr>pm_order = q, pm_used = False\<rparr> \<and> y + 2 ^ q \<le> ba_real_count ?s'"
      if "(y, q) = (i, ord) \<or> (y, q) \<in> fblocks fl" for y q
      using that r coreD_free [OF c] core_free_neq [OF c x] by auto
    then show "\<forall>(y, q)\<in>fblocks (fl(ord := i # fl ord)).
        ba_meta ?s' y = \<lparr>pm_order = q, pm_used = False\<rparr> \<and> y + 2 ^ q \<le> ba_real_count ?s'"
      unfolding fblocks_cons [OF ordm] by blast
  qed
  moreover have "frame_pages s ?s' {i}"
    unfolding frame_pages_def same_geom_def
    using in_pages_word [of s i _ "{i}"] by (auto simp: store64_def)
  ultimately show ?thesis using p by auto
qed

lemma pop_core_empty:
  "core s fl X \<Longrightarrow> ord \<le> MAX_ORDER \<Longrightarrow> fl ord = [] \<Longrightarrow> pop s ord = Some (None, s)"
  using coreD_chain [of s fl X ord] by (simp add: pop_def fl_get_def)

lemma core_unlist:
  assumes c: "core s fl X" and q: "ord \<le> MAX_ORDER" and x: "x \<in> set (fl ord)"
    and g: "same_geom s s'" and m: "ba_meta s' = ba_meta s"
    and ch: "\<And>q. q \<le> MAX_ORDER \<Longrightarrow> chain s' (ba_free_lists s' q) ((fl(ord := remove1 x (fl ord))) q)"
  shows "core s' (fl(ord := remove1 x (fl ord))) (insert (x, ord) X)"
  unfolding core_def
proof (intro conjI allI impI)
  show "geom s'" using coreD_geom [OF c] g by (simp add: geom_def same_geom_def)
  show "chain s' (ba_free_lists s' k) ((fl(ord := remove1 x (fl ord))) k)" if "k \<le> MAX_ORDER" for k
    by (rule ch [OF that])
  show "distinct ((fl(ord := remove1 x (fl ord))) k)" if "k \<le> MAX_ORDER" for k
    using coreD_distinct [OF c that] by (auto simp: distinct_remove1)
  note rm = fblocks_remove [where fl = fl and i = x, OF q coreD_distinct [OF c q]]
  have "(x, ord) \<in> fblocks fl" using q x by simp
  then have "fblocks (fl(ord := remove1 x (fl ord))) \<union> insert (x, ord) X = fblocks fl \<union> X"
    unfolding rm by blast
  then show "tiling (ba_page_count s') (fblocks (fl(ord := remove1 x (fl ord))) \<union> insert (x, ord) X)"
    using coreD_tiling [OF c] g by (simp add: same_geom_def)
  show "fblocks (fl(ord := remove1 x (fl ord))) \<inter> insert (x, ord) X = {}"
    unfolding rm using coreD_disjoint [OF c] by blast
  show "\<forall>(y, k)\<in>fblocks (fl(ord := remove1 x (fl ord))).
      ba_meta s' y = \<lparr>pm_order = k, pm_used = False\<rparr> \<and> y + 2 ^ k \<le> ba_real_count s'"
    unfolding rm using coreD_free [OF c] m g by (auto simp: same_geom_def)
qed

lemma pop_core:
  assumes c: "core s fl X" and q: "ord \<le> MAX_ORDER" and l: "fl ord = x # xs"
  shows "\<exists>s'. pop s ord = Some (Some x, s') \<and> core s' (fl(ord := xs)) (insert (x, ord) X) \<and>
     same_geom s s' \<and> pmem s' = pmem s \<and> ba_meta s' = ba_meta s"
proof -
  note g = coreD_geom [OF c] and ch = coreD_chain [OF c q]
  have h: "ba_free_lists s ord = x" "x < ba_page_count s" using ch l by auto
  let ?n = "unat (load64 (pmem s) (page_addr s x))"
  let ?s' = "s\<lparr>ba_free_lists := (ba_free_lists s)(ord := ?n)\<rparr>"
  have "pop s ord = Some (Some x, ?s')"
    using h q geom_index_bound [OF g h(2)] block_addr_eq [OF g h(2)]
    by (simp add: pop_def fl_get_def fl_set_def read_next_def)
  moreover have cc: "chain ?s' k (fl j) = chain s k (fl j)" for k j
    by (rule chain_cong) auto
  have "core ?s' (fl(ord := remove1 x (fl ord))) (insert (x, ord) X)"
  proof (rule core_unlist [OF c q])
    fix k assume k: "k \<le> MAX_ORDER"
    have "chain ?s' ?n xs = chain s ?n xs" by (rule chain_cong) auto
    then show "chain ?s' (ba_free_lists ?s' k) ((fl(ord := remove1 x (fl ord))) k)"
      using ch l cc coreD_chain [OF c k] by auto
  qed (use l in \<open>auto simp: same_geom_def\<close>)
  ultimately show ?thesis using l by (auto simp: same_geom_def)
qed

lemma unlink_loop_eq:
  assumes g: "geom s"
  shows "chain s cur (ys @ x # zs) \<Longrightarrow> x \<notin> set ys \<Longrightarrow>
    unlink_loop s x ord prev cur =
      (let n = unat (load64 (pmem s) (page_addr s x)) in
       if last (prev # ys) = FREE_NONE then fl_set s ord n else write_next s (last (prev # ys)) n)"
proof (induction ys arbitrary: cur prev)
  case Nil
  then have x: "cur = x" "x < ba_page_count s" by simp_all
  then show ?case
    using geom_index_bound [OF g x(2)] block_addr_eq [OF g x(2)]
    by (simp add: unlink_loop.simps [of s x] read_next_def)
next
  case (Cons y ys)
  then have y: "cur = y" "y < ba_page_count s" "y \<noteq> x" by auto
  have "unlink_loop s x ord prev cur
      = unlink_loop s x ord y (unat (load64 (pmem s) (page_addr s y)))"
    using y geom_index_bound [OF g y(2)] block_addr_eq [OF g y(2)]
    by (simp add: unlink_loop.simps [of s x ord prev] read_next_def)
  also have "\<dots> = (let n = unat (load64 (pmem s) (page_addr s x)) in
      if last (y # ys) = FREE_NONE then fl_set s ord n else write_next s (last (y # ys)) n)"
    using Cons by (intro Cons.IH) auto
  also have "last (y # ys) = last (prev # y # ys)" by simp
  finally show ?case .
qed

lemma chain_splice:
  assumes s': "s' = s\<lparr>pmem := store64 (pmem s) (page_addr s p) (load64 (pmem s) (page_addr s x))\<rparr>"
  shows "chain s h (ws @ p # x # zs) \<Longrightarrow> p \<notin> set ws \<Longrightarrow> p \<notin> set zs \<Longrightarrow> chain s' h (ws @ p # zs)"
proof (induction ws arbitrary: h)
  case Nil
  have "p \<noteq> y" if "y \<in> set zs" for y
    using that Nil.prems(3) by blast
  then have "chain s' k zs = chain s k zs" for k
    by (intro chain_cong) (simp_all add: s' load64_page_other)
  then show ?case using Nil by (simp add: s' page_addr_def)
next
  case (Cons w ws)
  have "load64 (pmem s') (page_addr s' w) = load64 (pmem s) (page_addr s w)"
    using Cons.prems page_addr_apart [of p w s] by (auto simp: s' page_addr_def)
  then show ?case using Cons by (simp add: s')
qed

lemma fl_disjoint:
  assumes "core s fl X" "q \<le> MAX_ORDER" "r \<le> MAX_ORDER" "x \<in> set (fl q)" "x \<in> set (fl r)"
  shows "q = r"
  using tilingD_head_unique [OF coreD_tiling [OF assms(1)], of x q r] assms by simp

lemma unlink_core:
  assumes c: "core s fl X" and q: "ord \<le> MAX_ORDER" and x: "x \<in> set (fl ord)"
  shows "\<exists>s'. unlink s x ord = Some s' \<and>
     core s' (fl(ord := remove1 x (fl ord))) (insert (x, ord) X) \<and>
     frame_pages s s' (set (fl ord)) \<and> ba_meta s' = ba_meta s"
proof -
  note g = coreD_geom [OF c] and ch = coreD_chain [OF c q] and dist = coreD_distinct [OF c q]
  obtain ys zs where l: "fl ord = ys @ x # zs" "x \<notin> set ys"
    using x by (meson split_list_first)
  then have rm: "remove1 x (fl ord) = ys @ zs" by (simp add: remove1_append)
  let ?n = "load64 (pmem s) (page_addr s x)"
  have u: "unlink s x ord = (if last (FREE_NONE # ys) = FREE_NONE
      then fl_set s ord (unat ?n) else write_next s (last (FREE_NONE # ys)) (unat ?n))"
    using unlink_loop_eq [OF g, of _ ys x zs] ch l q by (simp add: unlink_def fl_get_def)
  show ?thesis
  proof (cases ys rule: rev_cases)
    case Nil
    with l obtain xs where xs: "fl ord = x # xs" by auto
    have h: "ba_free_lists s ord = x" "x < ba_page_count s" using ch xs by auto
    from pop_core [OF c q xs] obtain s' where
      s': "pop s ord = Some (Some x, s')" "core s' (fl(ord := xs)) (insert (x, ord) X)"
        "same_geom s s'" "pmem s' = pmem s" "ba_meta s' = ba_meta s" by blast
    have "unlink s x ord = Some s'"
      using s'(1) h q geom_index_bound [OF g h(2)] block_addr_eq [OF g h(2)] u Nil
      by (auto simp: pop_def fl_get_def fl_set_def read_next_def)
    then show ?thesis using s' xs by (auto simp: frame_pages_def)
  next
    case (snoc ws p)
    let ?s' = "s\<lparr>pmem := store64 (pmem s) (page_addr s p) ?n\<rparr>"
    have pin: "p \<in> set (fl ord)" using l snoc by simp
    then have p: "p < ba_page_count s" using chain_set_bound [OF ch] by blast
    have us: "unlink s x ord = Some ?s'"
      using u snoc geom_index_bound [OF g p] block_addr_eq [OF g p]
      by (simp add: write_next_def)
    have "core ?s' (fl(ord := remove1 x (fl ord))) (insert (x, ord) X)"
    proof (rule core_unlist [OF c q x])
      fix k assume k: "k \<le> MAX_ORDER"
      show "chain ?s' (ba_free_lists ?s' k) ((fl(ord := remove1 x (fl ord))) k)"
      proof (cases "k = ord")
        case True
        then show ?thesis
          using chain_splice [OF refl, of s _ ws p x zs] ch l snoc dist rm by auto
      next
        case False
        then have "p \<notin> set (fl k)" using fl_disjoint [OF c q k pin] by blast
        then have "chain ?s' (ba_free_lists s k) (fl k) = chain s (ba_free_lists s k) (fl k)"
          by (intro chain_cong) (auto intro!: load64_page_other)
        then show ?thesis using False coreD_chain [OF c k] by simp
      qed
    qed (simp_all add: same_geom_def)
    moreover have "frame_pages s ?s' (set (fl ord))"
      unfolding frame_pages_def same_geom_def
      using in_pages_word [of s p _ "set (fl ord)"] pin by (auto simp: store64_def)
    ultimately show ?thesis using us by auto
  qed
qed

section \<open>Splitting and merging\<close>

lemma core_retile:
  assumes c: "core s fl X" and "C \<subseteq> X" and "tiling (ba_page_count s) ((fblocks fl \<union> X) - C \<union> D)"
    and "D \<inter> fblocks fl = {}"
  shows "core s fl (X - C \<union> D)"
proof -
  have "fblocks fl \<union> X - C \<union> D = fblocks fl \<union> (X - C \<union> D)"
    using assms coreD_disjoint [OF c] by blast
  then show ?thesis using assms unfolding core_def by auto
qed

lemma core_split:
  assumes c: "core s fl X" and b: "(i, Suc k) \<in> X"
  shows "core s fl (X - {(i, Suc k)} \<union> {(i, k), (i + 2 ^ k, k)})"
proof (rule core_retile [OF c])
  show "tiling (ba_page_count s) (fblocks fl \<union> X - {(i, Suc k)} \<union> {(i, k), (i + 2 ^ k, k)})"
    by (rule tiling_split [OF coreD_tiling [OF c]]) (use b in auto)
  have "y \<noteq> i \<and> y \<noteq> i + 2 ^ k" if "y \<in> set (fl q)" "q \<le> MAX_ORDER" for y q
    using core_free_span [OF c b that(2,1)] pow2_Suc [of k] by auto
  then show "{(i, k), (i + 2 ^ k, k)} \<inter> fblocks fl = {}" by (auto simp: fblocks_def)
qed (use b in auto)

lemma core_merge:
  assumes c: "core s fl X" and b: "(i, k) \<in> X" "(j, k) \<in> X" and j: "j = i XOR 2 ^ k"
    and k: "k < MAX_ORDER"
  shows "core s fl (X - {(i, k), (j, k)} \<union> {(min i j, Suc k)})"
proof (rule core_retile [OF c])
  show "tiling (ba_page_count s) (fblocks fl \<union> X - {(i, k), (j, k)} \<union> {(min i j, Suc k)})"
    by (rule tiling_merge [OF coreD_tiling [OF c]]) (use b j k in auto)
  have "min i j \<notin> set (fl q)" if "q \<le> MAX_ORDER" for q
    using core_free_neq [OF c b(1) that] core_free_neq [OF c b(2) that] by (auto simp: min_def)
  then show "{(min i j, Suc k)} \<inter> fblocks fl = {}" using k by auto
qed (use b in auto)

end
