(* ===== verification/Mem_Correct.thy ===== *)
theory Mem_Correct
  imports Mem_Inv
begin

text \<open>
  Allocation and release refine an abstract allocator whose state is a set \<open>F\<close> of free blocks,
  a set \<open>A\<close> of blocks handed out and a set \<open>R\<close> of permanently used blocks. \<open>buddy_rel\<close> is the
  refinement relation.
\<close>

section \<open>Searching and splitting\<close>

lemma alloc_find_none:
  assumes c: "core s fl X" and "\<And>q. ord \<le> q \<Longrightarrow> q \<le> MAX_ORDER \<Longrightarrow> fl q = []"
  shows "alloc_find s ord = Some (None, s)"
  using assms(2)
proof (induction "Suc MAX_ORDER - ord" arbitrary: ord)
  case 0
  then show ?case by (simp add: alloc_find.simps [of s ord])
next
  case (Suc n)
  then have "pop s ord = Some (None, s)"
    by (intro pop_core_empty [OF c]) auto
  moreover have "alloc_find s (Suc ord) = Some (None, s)"
    using Suc by (intro Suc.hyps(1)) auto
  ultimately show ?case by (simp add: alloc_find.simps [of s ord])
qed

lemma alloc_find_some:
  assumes c: "core s fl X" and k: "k \<le> MAX_ORDER" and p: "pop s k = Some (Some x, s')"
  shows "ord \<le> k \<Longrightarrow> (\<And>q. ord \<le> q \<Longrightarrow> q < k \<Longrightarrow> fl q = []) \<Longrightarrow>
    alloc_find s ord = Some (Some (x, k), s')"
proof (induction "k - ord" arbitrary: ord)
  case 0
  then show ?case using k p by (simp add: alloc_find.simps [of s ord])
next
  case (Suc n)
  then have "pop s ord = Some (None, s)"
    using k by (intro pop_core_empty [OF c]) auto
  moreover have "alloc_find s (Suc ord) = Some (Some (x, k), s')"
    using Suc by (intro Suc.hyps(1)) auto
  ultimately show ?case using k Suc by (simp add: alloc_find.simps [of s ord])
qed

lemma core_meta:
  assumes c: "core s fl X" and x: "(i, ord) \<in> X"
  shows "core (s\<lparr>ba_meta := (ba_meta s)(i := m)\<rparr>) fl X"
proof -
  let ?s = "s\<lparr>ba_meta := (ba_meta s)(i := m)\<rparr>"
  have ch: "chain ?s h xs = chain s h xs" for h xs
    by (rule chain_cong) simp_all
  have "ba_meta ?s y = \<lparr>pm_order = q, pm_used = False\<rparr> \<and> y + 2 ^ q \<le> ba_real_count ?s"
    if "q \<le> MAX_ORDER" "y \<in> set (fl q)" for y q
    using coreD_free [OF c that] core_free_neq [OF c x that] by simp
  then have "\<forall>(y, q)\<in>fblocks fl.
      ba_meta ?s y = \<lparr>pm_order = q, pm_used = False\<rparr> \<and> y + 2 ^ q \<le> ba_real_count ?s"
    by (simp add: fblocks_def)
  then show ?thesis using c ch unfolding core_def geom_def by simp
qed

lemma core_head_unique: "core s fl X \<Longrightarrow> (i, a) \<in> X \<Longrightarrow> (i, b) \<in> X \<Longrightarrow> a = b"
  using tilingD_head_unique [OF coreD_tiling] by blast

lemma core_span_unique:
  "core s fl X \<Longrightarrow> b \<in> X \<Longrightarrow> c \<in> X \<Longrightarrow> x \<in> span b \<Longrightarrow> x \<in> span c \<Longrightarrow> b = c"
  using tilingD_disjoint [OF coreD_tiling] by (metis UnCI)

lemma alloc_split_core:
  assumes "core s fl X" "(i, cur) \<in> X" "i + 2 ^ cur \<le> ba_real_count s" "order \<le> cur"
  shows "\<exists>s' fl'. alloc_split s i cur order = Some s' \<and>
     core s' fl' (X - {(i, cur)} \<union> {(i, order)}) \<and>
     fblocks fl' = fblocks fl \<union> {(i + 2 ^ c, c) | c. order \<le> c \<and> c < cur} \<and>
     frame_pages s s' (span (i, cur)) \<and>
     (\<forall>j. j \<notin> span (i, cur) \<longrightarrow> ba_meta s' j = ba_meta s j)"
  using assms
proof (induction cur arbitrary: s fl X)
  case 0
  then have "X - {(i, 0)} \<union> {(i, order)} = X" by auto
  with 0 show ?case by (auto simp: alloc_split.simps [of s])
next
  case (Suc k)
  show ?case
  proof (cases "order = Suc k")
    case True
    then have "X - {(i, Suc k)} \<union> {(i, order)} = X" using Suc.prems(2) by auto
    with True Suc.prems(1) show ?thesis by (auto simp: alloc_split.simps [of s])
  next
    case False
    then have ok: "order \<le> k" using Suc.prems by simp
    let ?h = "(i + 2 ^ k, k)"
    note c = Suc.prems(1) and b = Suc.prems(2)
    have kM: "k \<le> MAX_ORDER" using core_order [OF c b] by simp
    have nX: "?h \<notin> X" "(i, k) \<notin> X"
      using core_span_unique [OF c b, of ?h "i + 2 ^ k"] core_head_unique [OF c b, of k] by auto
    have hr: "i + 2 ^ k + 2 ^ k \<le> ba_real_count s" using Suc.prems(3) by simp
    obtain s1 where s1: "push s (i + 2 ^ k) k = Some s1"
      "core s1 (fl(k := (i + 2 ^ k) # fl k)) (X - {(i, Suc k)} \<union> {(i, k), ?h} - {?h})"
      "frame_pages s s1 {i + 2 ^ k}" "\<forall>j. j \<noteq> i + 2 ^ k \<longrightarrow> ba_meta s1 j = ba_meta s j"
      using push_core [OF core_split [OF c b] _ hr] by auto
    have X1: "X - {(i, Suc k)} \<union> {(i, k), ?h} - {?h} = X - {(i, Suc k)} \<union> {(i, k)}"
      using nX by auto
    have re: "ba_real_count s1 = ba_real_count s"
      using s1(3) by (simp add: frame_pages_def same_geom_def)
    obtain s' fl' where s': "alloc_split s1 i k order = Some s'"
      "core s' fl' (X - {(i, Suc k)} \<union> {(i, k)} - {(i, k)} \<union> {(i, order)})"
      "fblocks fl' = fblocks (fl(k := (i + 2 ^ k) # fl k)) \<union> {(i + 2 ^ c, c) | c. order \<le> c \<and> c < k}"
      "frame_pages s1 s' (span (i, k))" "\<forall>j. j \<notin> span (i, k) \<longrightarrow> ba_meta s' j = ba_meta s1 j"
    proof -
      have "(i, k) \<in> X - {(i, Suc k)} \<union> {(i, k)}" "i + 2 ^ k \<le> ba_real_count s1"
        using hr re by auto
      from Suc.IH [OF s1(2) [unfolded X1] this ok] that show thesis by blast
    qed
    have "X - {(i, Suc k)} \<union> {(i, k)} - {(i, k)} \<union> {(i, order)} = X - {(i, Suc k)} \<union> {(i, order)}"
      using nX by auto
    moreover have "fblocks fl' = fblocks fl \<union> {(i + 2 ^ c, c) | c. order \<le> c \<and> c < Suc k}"
      unfolding s'(3) fblocks_cons [OF kM] using ok by (auto simp: less_Suc_eq)
    moreover have "frame_pages s s' (span (i, Suc k))"
    proof (rule frame_pages_trans)
      show "frame_pages s s1 (span (i, Suc k))"
        by (rule frame_pages_mono [OF s1(3)]) auto
      show "frame_pages s1 s' (span (i, Suc k))"
        by (rule frame_pages_mono [OF s'(4)]) auto
    qed
    moreover have "alloc_split s i (Suc k) order = Some s'"
      using ok s1(1) s'(1) by (simp add: alloc_split.simps [of s])
    moreover have "\<forall>j. j \<notin> span (i, Suc k) \<longrightarrow> ba_meta s' j = ba_meta s j"
      using s'(5) s1(4) pow2_Suc [of k] by auto
    ultimately show ?thesis using s'(2) by auto
  qed
qed

text \<open>The largest part of the allocator's contract, over the free lists.\<close>

lemma alloc_core:
  assumes c: "core s fl X" and ord: "order \<le> MAX_ORDER"
    and ex: "\<exists>q. order \<le> q \<and> q \<le> MAX_ORDER \<and> fl q \<noteq> []"
  shows "\<exists>i cur s' fl'. alloc s order = Some (Some (page_addr s i), s') \<and>
     (i, cur) \<in> fblocks fl \<and> order \<le> cur \<and> (\<forall>q x. order \<le> q \<and> (x, q) \<in> fblocks fl \<longrightarrow> cur \<le> q) \<and>
     core s' fl' (insert (i, order) X) \<and>
     fblocks fl' = fblocks fl - {(i, cur)} \<union> {(i + 2 ^ c, c) | c. order \<le> c \<and> c < cur} \<and>
     ba_meta s' i = \<lparr>pm_order = order, pm_used = True\<rparr> \<and>
     (\<forall>j. j \<notin> span (i, cur) \<longrightarrow> ba_meta s' j = ba_meta s j) \<and>
     frame_pages s s' (span (i, cur))"
proof -
  define k where "k = (LEAST q. order \<le> q \<and> q \<le> MAX_ORDER \<and> fl q \<noteq> [])"
  have k: "order \<le> k" "k \<le> MAX_ORDER" "fl k \<noteq> []"
    unfolding k_def using LeastI_ex [OF ex] by auto
  have before: "fl q = []" if "order \<le> q" "q < k" for q
    using not_less_Least [of q "\<lambda>q. order \<le> q \<and> q \<le> MAX_ORDER \<and> fl q \<noteq> []"] that k(2)
    unfolding k_def [symmetric] by auto
  obtain i xs where l: "fl k = i # xs" using k(3) by (cases "fl k") auto
  from pop_core [OF c k(2) l] obtain s1 where
    s1: "pop s k = Some (Some i, s1)" "core s1 (fl(k := xs)) (insert (i, k) X)"
      "same_geom s s1" "pmem s1 = pmem s" "ba_meta s1 = ba_meta s" by blast
  have find: "alloc_find s order = Some (Some (i, k), s1)"
    by (rule alloc_find_some [OF c k(2) s1(1) k(1)]) (use before in auto)
  have iX: "(i, k) \<notin> X" using coreD_disjoint [OF c] l k(2) by (auto simp: fblocks_def)
  have ir: "i + 2 ^ k \<le> ba_real_count s1"
    using coreD_free [OF c k(2), of i] l s1(3) by (simp add: same_geom_def)
  obtain s2 fl2 where s2: "alloc_split s1 i k order = Some s2"
    "core s2 fl2 (insert (i, k) X - {(i, k)} \<union> {(i, order)})"
    "fblocks fl2 = fblocks (fl(k := xs)) \<union> {(i + 2 ^ c, c) | c. order \<le> c \<and> c < k}"
    "frame_pages s1 s2 (span (i, k))" "\<forall>j. j \<notin> span (i, k) \<longrightarrow> ba_meta s2 j = ba_meta s1 j"
    using alloc_split_core [OF s1(2) insertI1 ir k(1)] by blast
  have X2: "insert (i, k) X - {(i, k)} \<union> {(i, order)} = insert (i, order) X" using iX by auto
  let ?m = "\<lparr>pm_order = order, pm_used = True\<rparr>"
  let ?s3 = "s2\<lparr>ba_meta := (ba_meta s2)(i := ?m)\<rparr>"
  have c3: "core ?s3 fl2 (insert (i, order) X)"
    by (rule core_meta [OF s2(2) [unfolded X2]]) auto
  have sg: "same_geom s s2"
    using s1(3) s2(4) by (simp add: frame_pages_def same_geom_def)
  have i: "i < ba_page_count s2"
    using core_index [OF s2(2) [unfolded X2], of i order] pow2_Suc [of order] by auto
  have "block_addr ?s3 i = Some (page_addr s i)"
    using block_addr_eq [OF coreD_geom [OF c3]] i sg by (simp add: page_addr_def same_geom_def)
  then have a: "alloc s order = Some (Some (page_addr s i), ?s3)"
    using ord find s2(1) i by (simp add: alloc_def meta_put_def)
  have fb: "fblocks (fl(k := xs)) = fblocks fl - {(i, k)}"
    using fblocks_remove [where fl = fl and i = i, OF k(2) coreD_distinct [OF c k(2)]] l by simp
  have fr: "frame_pages s ?s3 (span (i, k))"
    using s1(3,4) s2(4) by (simp add: frame_pages_def same_geom_def in_pages_def)
  have "\<forall>j. j \<notin> span (i, k) \<longrightarrow> ba_meta ?s3 j = ba_meta s j"
    using s2(5) s1(5) by auto
  moreover have "(i, k) \<in> fblocks fl" using l k(2) by simp
  moreover have "fblocks fl2 = fblocks fl - {(i, k)} \<union> {(i + 2 ^ c, c) | c. order \<le> c \<and> c < k}"
    by (simp only: s2(3) fb)
  moreover have "\<forall>q x. order \<le> q \<and> (x, q) \<in> fblocks fl \<longrightarrow> k \<le> q"
    using before by (metis empty_iff empty_set in_fblocks not_le)
  moreover have "ba_meta ?s3 i = ?m" by simp
  ultimately show ?thesis using a c3 fr k(1) by blast
qed

section \<open>Merging on release\<close>

lemma xor_pow2_neq: "(i :: nat) XOR 2 ^ k \<noteq> i"
proof
  assume "i XOR 2 ^ k = i"
  then have "bit (i XOR 2 ^ k) k = bit i k" by simp
  then show False by (simp add: bit_xor_iff bit_exp_iff)
qed

lemma min_buddy_span:
  fixes i :: nat
  assumes "2 ^ k dvd i"
  shows "min i (i XOR 2 ^ k) + 2 ^ Suc k = max i (i XOR 2 ^ k) + 2 ^ k"
proof -
  have "2 ^ k \<le> i" if "\<not> 2 ^ Suc k dvd i"
    using assms that by (metis dvd_0_right dvd_imp_le gr0I)
  then show ?thesis using xor_pow2_nat [OF assms] by (auto simp: min_def max_def)
qed

lemma free_merge_core:
  assumes "core s fl X" "(i, k) \<in> X" "i + 2 ^ k \<le> ba_real_count s"
    and "\<And>j p. (j, p) \<in> X \<Longrightarrow> (j, p) \<noteq> (i, k) \<Longrightarrow> pm_used (ba_meta s j)"
  shows "\<exists>i' k' s' fl'. free_merge s i k = Some (i', k', s') \<and>
     core s' fl' (X - {(i, k)} \<union> {(i', k')}) \<and> i' + 2 ^ k' \<le> ba_real_count s \<and>
     fblocks fl' \<subseteq> fblocks fl \<and> (k' < MAX_ORDER \<longrightarrow> (i' XOR 2 ^ k', k') \<notin> fblocks fl') \<and>
     frame_pages s s' (spans (fblocks fl)) \<and> ba_meta s' = ba_meta s"
  using assms
proof (induction "MAX_ORDER - k" arbitrary: s fl X i k)
  case 0
  then have k: "k = MAX_ORDER" using core_order [OF 0(2,3)] by simp
  have "X - {(i, k)} \<union> {(i, k)} = X" using 0(3) by auto
  then show ?case using 0 k by (auto simp: free_merge.simps [of s])
next
  case (Suc n)
  note c = Suc.prems(1) and b = Suc.prems(2) and r = Suc.prems(3) and used = Suc.prems(4)
  have k: "k < MAX_ORDER" using Suc.hyps(2) by simp
  then have kM: "k \<le> MAX_ORDER" by simp
  define j where "j = i XOR 2 ^ k"
  have N: "2 ^ MAX_ORDER dvd ba_page_count s" using coreD_geom [OF c] by (simp add: geom_def)
  obtain p where jN: "j + 2 ^ k \<le> ba_page_count s" and p: "p \<le> k" "(j, p) \<in> fblocks fl \<union> X"
    using buddy_is_head [OF coreD_tiling [OF c] _ k N, of i] b j_def by auto
  have ji: "j \<noteq> i" unfolding j_def by (rule xor_pow2_neq)
  have jlt: "j < ba_page_count s" using jN pow2_Suc [of k] by auto
  have stay: ?case if "pm_used (ba_meta s j) \<or> pm_order (ba_meta s j) \<noteq> k"
  proof -
    have "free_merge s i k = Some (i, k, s)"
      using that k jN jlt by (simp add: free_merge.simps [of s] meta_at_def flip: j_def)
    moreover have "X - {(i, k)} \<union> {(i, k)} = X" using b by auto
    moreover have "(j, k) \<notin> fblocks fl"
      using that coreD_free [OF c kM, of j] by auto
    ultimately show ?thesis using c r by (auto simp: j_def)
  qed
  show ?case
  proof (cases "pm_used (ba_meta s j) \<or> pm_order (ba_meta s j) \<noteq> k")
    case True
    then show ?thesis by (rule stay)
  next
    case False
    have "(j, p) \<in> fblocks fl" using p(2) used [of j p] False ji by auto
    then have jl: "j \<in> set (fl k)"
      using coreD_free [OF c, of p j] False by auto
    obtain s1 where s1: "unlink s j k = Some s1"
      "core s1 (fl(k := remove1 j (fl k))) (insert (j, k) X)"
      "frame_pages s s1 (set (fl k))" "ba_meta s1 = ba_meta s"
      using unlink_core [OF c kM jl] by blast
    let ?m = "min i j" and ?fl1 = "fl(k := remove1 j (fl k))"
    let ?X1 = "X - {(i, k)} \<union> {(?m, Suc k)}"
    have jX: "(j, k) \<notin> X" using core_free_neq [OF c _ kM jl] by blast
    have mX: "(?m, Suc k) \<notin> X - {(i, k)}"
    proof
      assume a: "(?m, Suc k) \<in> X - {(i, k)}"
      have "i \<in> span (?m, Suc k)"
        using min_buddy_span [of k i] tilingD_aligned [OF coreD_tiling [OF c], of "(i, k)"] b
          pow2_Suc [of k] by (auto simp: j_def)
      then show False using core_span_unique [OF c b, of "(?m, Suc k)" i] a by auto
    qed
    have "insert (j, k) X - {(i, k), (j, k)} \<union> {(?m, Suc k)} = ?X1" using jX by auto
    then have c1: "core s1 ?fl1 ?X1"
      using core_merge [OF s1(2), of i k j] b k by (simp add: j_def)
    have rc: "ba_real_count s1 = ba_real_count s" "same_geom s s1"
      using s1(3) by (simp_all add: frame_pages_def same_geom_def)
    have mr: "?m + 2 ^ Suc k \<le> ba_real_count s1"
      using min_buddy_span [of k i] tilingD_aligned [OF coreD_tiling [OF c], of "(i, k)"] b r
        coreD_free [OF c kM jl] rc by (auto simp: j_def max_def split: if_splits)
    have "pm_used (ba_meta s1 y)" if "(y, q) \<in> ?X1" "(y, q) \<noteq> (?m, Suc k)" for y q
      using that used [of y q] s1(4) by auto
    then obtain i' k' s' fl' where IH: "free_merge s1 ?m (Suc k) = Some (i', k', s')"
      "core s' fl' (?X1 - {(?m, Suc k)} \<union> {(i', k')})" "i' + 2 ^ k' \<le> ba_real_count s1"
      "fblocks fl' \<subseteq> fblocks ?fl1" "k' < MAX_ORDER \<longrightarrow> (i' XOR 2 ^ k', k') \<notin> fblocks fl'"
      "frame_pages s1 s' (spans (fblocks ?fl1))" "ba_meta s' = ba_meta s1"
      using Suc.hyps(1) [OF _ c1 _ mr] Suc.hyps(2) by fastforce
    have "free_merge s i k = Some (i', k', s')"
      using False k jN jlt s1(1) IH(1) by (simp add: free_merge.simps [of s] meta_at_def flip: j_def)
    moreover have "?X1 - {(?m, Suc k)} \<union> {(i', k')} = X - {(i, k)} \<union> {(i', k')}"
      using mX by auto
    moreover have sub: "fblocks ?fl1 \<subseteq> fblocks fl"
      unfolding fblocks_remove [where fl = fl and i = j, OF kM coreD_distinct [OF c kM]] by blast
    moreover have "frame_pages s s' (spans (fblocks fl))"
    proof (rule frame_pages_trans)
      have "set (fl k) \<subseteq> spans (fblocks fl)"
      proof
        fix y assume "y \<in> set (fl k)"
        then show "y \<in> spans (fblocks fl)" using kM by (intro spansI [of "(y, k)"]) auto
      qed
      then show "frame_pages s s1 (spans (fblocks fl))" by (rule frame_pages_mono [OF s1(3)])
      show "frame_pages s1 s' (spans (fblocks fl))"
        by (rule frame_pages_mono [OF IH(6) spans_mono [OF sub]])
    qed
    ultimately show ?thesis using IH rc s1(4) by auto
  qed
qed

text \<open>The merged block overlaps no block that stays in use.\<close>

lemma merged_fresh:
  assumes c: "core s fl X" and b: "(i, k) \<in> X"
    and c1: "core s1 fl1 (X - {(i, k)} \<union> {(i', k')})" and sub: "fblocks fl1 \<subseteq> fblocks fl"
    and sg: "same_geom s s1" and t: "(y, q) \<in> X - {(i, k)}"
  shows "i' \<notin> span (y, q)"
proof
  assume "i' \<in> span (y, q)"
  then have yq: "(y, q) = (i', k')"
    using core_span_unique [OF c1, of "(y, q)" "(i', k')" i'] t by auto
  have "i < ba_page_count s" using core_index [OF c b] pow2_Suc [of k] by auto
  then have "i < ba_page_count s1" using sg by (simp add: same_geom_def)
  then obtain d where d: "d \<in> fblocks fl1 \<union> (X - {(i, k)} \<union> {(i', k')})" "i \<in> span d"
    using tilingD_cover [OF coreD_tiling [OF c1], of i] by blast
  have "d \<in> fblocks fl \<union> X" "d \<noteq> (i, k)"
    using d(1) sub t yq b coreD_disjoint [OF c] by auto
  then show False
    using tilingD_disjoint [OF coreD_tiling [OF c], of d "(i, k)" i] d(2) b by auto
qed

lemma free_core:
  assumes c: "core s fl X" and b: "(i, k) \<in> X" and r: "i + 2 ^ k \<le> ba_real_count s"
    and used: "\<And>j p. (j, p) \<in> X \<Longrightarrow> (j, p) \<noteq> (i, k) \<Longrightarrow> pm_used (ba_meta s j)"
  shows "\<exists>i' k' s1 s2 fl1. free_merge s i k = Some (i', k', s1) \<and> push s1 i' k' = Some s2 \<and>
     core s2 (fl1(k' := i' # fl1 k')) (X - {(i, k)}) \<and> k' \<le> MAX_ORDER \<and>
     fblocks fl1 \<subseteq> fblocks fl \<and> (k' < MAX_ORDER \<longrightarrow> (i' XOR 2 ^ k', k') \<notin> fblocks fl1) \<and>
     frame_pages s s2 (spans (fblocks fl) \<union> span (i, k)) \<and>
     (\<forall>(y, q)\<in>X - {(i, k)}. ba_meta s2 y = ba_meta s y)"
proof -
  obtain i' k' s1 fl1 where m: "free_merge s i k = Some (i', k', s1)"
    "core s1 fl1 (X - {(i, k)} \<union> {(i', k')})" "i' + 2 ^ k' \<le> ba_real_count s"
    "fblocks fl1 \<subseteq> fblocks fl" "k' < MAX_ORDER \<longrightarrow> (i' XOR 2 ^ k', k') \<notin> fblocks fl1"
    "frame_pages s s1 (spans (fblocks fl))" "ba_meta s1 = ba_meta s"
    using free_merge_core [OF c b r] used by blast
  have sg: "same_geom s s1" using m(6) by (simp add: frame_pages_def)
  note fresh = merged_fresh [OF c b m(2,4) sg]
  have X: "X - {(i, k)} \<union> {(i', k')} - {(i', k')} = X - {(i, k)}"
    using fresh [of i' k'] by auto
  obtain s2 where p: "push s1 i' k' = Some s2" "core s2 (fl1(k' := i' # fl1 k')) (X - {(i, k)})"
    "frame_pages s1 s2 {i'}" "\<forall>j. j \<noteq> i' \<longrightarrow> ba_meta s2 j = ba_meta s1 j"
    using push_core [OF m(2), of i' k'] m(3) sg X by (auto simp: same_geom_def)
  have "i' < ba_page_count s"
    using core_index [OF m(2), of i' k'] pow2_Suc [of k'] sg by (auto simp: same_geom_def)
  then have i': "i' \<in> spans (fblocks fl) \<union> span (i, k)"
    using tilingD_cover [OF coreD_tiling [OF c], of i'] fresh spansI
    by (metis DiffI UnCI UnE singletonD surj_pair)
  have "frame_pages s s2 (spans (fblocks fl) \<union> span (i, k))"
    by (rule frame_pages_trans [OF frame_pages_mono [OF m(6)] frame_pages_mono [OF p(3)]])
      (use i' in auto)
  moreover have "ba_meta s2 y = ba_meta s y" if "(y, q) \<in> X - {(i, k)}" for y q
    using fresh [OF that] p(4) m(7) by (metis span_head)
  moreover have "k' \<le> MAX_ORDER" using core_order [OF m(2), of i' k'] by simp
  ultimately show ?thesis using m(1,4,5) p(1,2) by blast
qed

lemma free_head_eq:
  assumes g: "geom s" and i: "i < ba_real_count s" and k: "k \<le> MAX_ORDER" "2 ^ k dvd i"
    and m: "ba_meta s i = \<lparr>pm_order = k, pm_used = True\<rparr>"
  shows "free s (page_addr s i) = do {
     (i', k', s1) \<leftarrow> free_merge s i k; s2 \<leftarrow> push s1 i' k'; Some (Ok (), s2) }"
proof -
  have b: "ba_base s + ba_real_count s * 4096 < 2 ^ 64"
    using g mult_le_mono1 [of "ba_real_count s" "ba_page_count s" 4096]
    by (simp add: geom_def)
  have e: "page_addr s i < ba_base s + ba_real_count s * 4096" "page_addr s i mod 4096 = 0"
    using i g by (auto simp: page_addr_def geom_def elim!: dvdE)
  have ip: "i < ba_page_count s" using i g by (auto simp: geom_def)
  have "i mod 2 ^ k = 0" using k by auto
  then show ?thesis
    using b e ip k m by (simp add: free_def checked_simps block_index_def meta_at_def page_addr_def)
qed

section \<open>The refinement relation\<close>

definition buddy_rel :: "mm \<Rightarrow> block set \<Rightarrow> block set \<Rightarrow> block set \<Rightarrow> bool" where
  "buddy_rel s F A R \<longleftrightarrow>
     (\<exists>fl. F = fblocks fl \<and> core s fl (A \<union> R)) \<and> A \<inter> R = {} \<and>
     (\<forall>(i, ord)\<in>A. ba_meta s i = \<lparr>pm_order = ord, pm_used = True\<rparr> \<and> i + 2 ^ ord \<le> ba_real_count s) \<and>
     (\<forall>(i, ord)\<in>R. pm_used (ba_meta s i) \<and> (i < ba_real_count s \<longrightarrow> MAX_ORDER < pm_order (ba_meta s i)))"

text \<open>No two buddies are both free: releases have merged everything that can be merged.\<close>

definition coalesced :: "block set \<Rightarrow> bool" where
  "coalesced F \<longleftrightarrow> (\<forall>(i, k)\<in>F. k < MAX_ORDER \<longrightarrow> (i XOR 2 ^ k, k) \<notin> F)"

lemma buddy_relI:
  assumes "core s fl (A \<union> R)" "F = fblocks fl" "A \<inter> R = {}"
    and "\<And>i ord. (i, ord) \<in> A \<Longrightarrow>
      ba_meta s i = \<lparr>pm_order = ord, pm_used = True\<rparr> \<and> i + 2 ^ ord \<le> ba_real_count s"
    and "\<And>i ord. (i, ord) \<in> R \<Longrightarrow>
      pm_used (ba_meta s i) \<and> (i < ba_real_count s \<longrightarrow> MAX_ORDER < pm_order (ba_meta s i))"
  shows "buddy_rel s F A R"
  using assms unfolding buddy_rel_def by blast

lemma buddy_relE:
  assumes "buddy_rel s F A R"
  obtains fl where "F = fblocks fl" "core s fl (A \<union> R)"
  using assms by (auto simp: buddy_rel_def)

lemma buddy_rel_disjoint_AR: "buddy_rel s F A R \<Longrightarrow> A \<inter> R = {}"
  by (simp add: buddy_rel_def)

lemma buddy_rel_A:
  "buddy_rel s F A R \<Longrightarrow> (i, ord) \<in> A \<Longrightarrow>
   ba_meta s i = \<lparr>pm_order = ord, pm_used = True\<rparr> \<and> i + 2 ^ ord \<le> ba_real_count s"
  unfolding buddy_rel_def by fastforce

lemma buddy_rel_R:
  "buddy_rel s F A R \<Longrightarrow> (i, ord) \<in> R \<Longrightarrow>
   pm_used (ba_meta s i) \<and> (i < ba_real_count s \<longrightarrow> MAX_ORDER < pm_order (ba_meta s i))"
  unfolding buddy_rel_def by fastforce

lemma buddy_rel_tiling: "buddy_rel s F A R \<Longrightarrow> tiling (ba_page_count s) (F \<union> A \<union> R)"
  by (metis buddy_relE coreD_tiling sup_assoc)

lemma buddy_rel_geom: "buddy_rel s F A R \<Longrightarrow> geom s"
  by (metis buddy_relE coreD_geom)

lemma buddy_rel_disjoint_F: "buddy_rel s F A R \<Longrightarrow> F \<inter> (A \<union> R) = {}"
  by (metis buddy_relE coreD_disjoint)

lemma buddy_rel_index:
  "buddy_rel s F A R \<Longrightarrow> (i, ord) \<in> A \<Longrightarrow> i < ba_page_count s \<and> ord \<le> MAX_ORDER"
  using tilingD_bound [OF buddy_rel_tiling, of s F A R i ord] pow2_Suc [of ord]
    tilingD_aligned [OF buddy_rel_tiling, of s F A R "(i, ord)"] by auto

lemma spans_free_disjoint:
  assumes t: "buddy_rel s F A R" and "b \<in> F" "x \<in> span b" "c \<in> A \<union> R"
  shows "x \<notin> span c"
  using tilingD_disjoint [OF buddy_rel_tiling [OF t], of b c x] buddy_rel_disjoint_F [OF t] assms
  by blast

lemma alloc_none_lists:
  assumes r: "buddy_rel s F A R" and ord: "order \<le> MAX_ORDER" and n: "\<And>i k. (i, k) \<in> F \<Longrightarrow> k < order"
  shows "alloc s order = Some (None, s)"
proof -
  obtain fl where fl: "F = fblocks fl" "core s fl (A \<union> R)" using r by (rule buddy_relE)
  have "fl q = []" if "order \<le> q" "q \<le> MAX_ORDER" for q
    using n [of "hd (fl q)" q] that fl(1) by (cases "fl q") auto
  then have "alloc_find s order = Some (None, s)" by (rule alloc_find_none [OF fl(2)])
  then show ?thesis using ord by (simp add: alloc_def)
qed

lemma alloc_some_rel:
  assumes r: "buddy_rel s F A R" and ord: "order \<le> MAX_ORDER" and ex: "(y, q) \<in> F" "order \<le> q"
  shows "\<exists>i cur s' F'. alloc s order = Some (Some (page_addr s i), s') \<and>
     (i, cur) \<in> F \<and> order \<le> cur \<and> (\<forall>q x. order \<le> q \<and> (x, q) \<in> F \<longrightarrow> cur \<le> q) \<and>
     buddy_rel s' F' (insert (i, order) A) R \<and> (i, order) \<notin> A \<and>
     F' = F - {(i, cur)} \<union> {(i + 2 ^ c, c) | c. order \<le> c \<and> c < cur} \<and>
     frame_pages s s' (span (i, cur))"
proof -
  obtain fl where fl: "F = fblocks fl" "core s fl (A \<union> R)" using r by (rule buddy_relE)
  have "\<exists>q. order \<le> q \<and> q \<le> MAX_ORDER \<and> fl q \<noteq> []" using ex fl(1) by auto
  from alloc_core [OF fl(2) ord this, folded fl(1)] obtain i cur s' fl' where
    al: "alloc s order = Some (Some (page_addr s i), s')" "(i, cur) \<in> F" "order \<le> cur"
      "core s' fl' (insert (i, order) (A \<union> R))"
      "fblocks fl' = F - {(i, cur)} \<union> {(i + 2 ^ c, c) | c. order \<le> c \<and> c < cur}"
      "ba_meta s' i = \<lparr>pm_order = order, pm_used = True\<rparr>"
      "\<forall>j. j \<notin> span (i, cur) \<longrightarrow> ba_meta s' j = ba_meta s j" "frame_pages s s' (span (i, cur))"
    and best: "\<forall>q x. order \<le> q \<and> (x, q) \<in> F \<longrightarrow> cur \<le> q"
    by (elim exE conjE) (rule that; assumption)
  have out: "i \<noteq> y \<and> ba_meta s' y = ba_meta s y" if "(y, k) \<in> A \<union> R" for y k
    using spans_free_disjoint [OF r al(2) _ that] al(7) by (metis in_span_iff span_head)
  have rc: "ba_real_count s' = ba_real_count s"
    using al(8) by (simp add: frame_pages_def same_geom_def)
  have ir: "i + 2 ^ order \<le> ba_real_count s"
  proof -
    have "i + 2 ^ cur \<le> ba_real_count s"
      using coreD_free [OF fl(2), of cur i] al(2) fl(1) by auto
    moreover have "(2::nat) ^ order \<le> 2 ^ cur" using al(3) by (simp add: power_increasing)
    ultimately show ?thesis by linarith
  qed
  have nA: "(i, order) \<notin> A \<union> R" using out by blast
  have "buddy_rel s' (fblocks fl') (insert (i, order) A) R"
  proof (rule buddy_relI)
    show "core s' fl' (insert (i, order) A \<union> R)" using al(4) by simp
    show "insert (i, order) A \<inter> R = {}" using nA buddy_rel_disjoint_AR [OF r] by auto
  next
    fix j k assume "(j, k) \<in> insert (i, order) A"
    then show "ba_meta s' j = \<lparr>pm_order = k, pm_used = True\<rparr> \<and> j + 2 ^ k \<le> ba_real_count s'"
      using buddy_rel_A [OF r, of j k] out [of j k] al(6) ir rc by auto
  next
    fix j k assume "(j, k) \<in> R"
    then show "pm_used (ba_meta s' j) \<and>
        (j < ba_real_count s' \<longrightarrow> MAX_ORDER < pm_order (ba_meta s' j))"
      using buddy_rel_R [OF r, of j k] out [of j k] rc by auto
  qed simp
  then show ?thesis using al(1-3,5,8) best nA by (intro exI conjI) auto
qed

lemma alloc_some_relE:
  assumes "buddy_rel s F A R" "order \<le> MAX_ORDER" "(y, q) \<in> F" "order \<le> q"
  obtains i cur s' F' where "alloc s order = Some (Some (page_addr s i), s')"
    "(i, cur) \<in> F" "order \<le> cur" "\<forall>q x. order \<le> q \<and> (x, q) \<in> F \<longrightarrow> cur \<le> q"
    "buddy_rel s' F' (insert (i, order) A) R" "(i, order) \<notin> A"
    "F' = F - {(i, cur)} \<union> {(i + 2 ^ c, c) | c. order \<le> c \<and> c < cur}"
    "frame_pages s s' (span (i, cur))"
  using alloc_some_rel [OF assms] by (elim exE conjE) (rule that; assumption)

lemma free_rel:
  assumes r: "buddy_rel s F A R" and b: "(i, k) \<in> A"
  shows "\<exists>s' F' i' k'. free s (page_addr s i) = Some (Ok (), s') \<and>
     buddy_rel s' (insert (i', k') F') (A - {(i, k)}) R \<and> F' \<subseteq> F \<and> k' \<le> MAX_ORDER \<and>
     (k' < MAX_ORDER \<longrightarrow> (i' XOR 2 ^ k', k') \<notin> F') \<and>
     frame_pages s s' (spans F \<union> span (i, k))"
proof -
  obtain fl where fl: "F = fblocks fl" "core s fl (A \<union> R)" using r by (rule buddy_relE)
  note A = buddy_rel_A [OF r b] and g = buddy_rel_geom [OF r] and ib = buddy_rel_index [OF r b]
  have "pm_used (ba_meta s y)" if "(y, q) \<in> A \<union> R" for y q
    using that buddy_rel_A [OF r, of y q] buddy_rel_R [OF r, of y q] by auto
  then obtain i' k' s1 s2 fl1 where m: "free_merge s i k = Some (i', k', s1)" "push s1 i' k' = Some s2"
    "core s2 (fl1(k' := i' # fl1 k')) (A \<union> R - {(i, k)})" "k' \<le> MAX_ORDER"
    "fblocks fl1 \<subseteq> fblocks fl" "k' < MAX_ORDER \<longrightarrow> (i' XOR 2 ^ k', k') \<notin> fblocks fl1"
    "frame_pages s s2 (spans (fblocks fl) \<union> span (i, k))"
    "\<forall>(y, q)\<in>A \<union> R - {(i, k)}. ba_meta s2 y = ba_meta s y"
    using free_core [OF fl(2), of i k] b A by auto
  have "free s (page_addr s i) = Some (Ok (), s2)"
    using free_head_eq [OF g _ _ _ conjunct1 [OF A]] A ib pow2_Suc [of k] m(1,2)
      tilingD_aligned [OF buddy_rel_tiling [OF r], of "(i, k)"] b by auto
  moreover have "buddy_rel s2 (insert (i', k') (fblocks fl1)) (A - {(i, k)}) R"
  proof (rule buddy_relI)
    have AR: "A \<union> R - {(i, k)} = A - {(i, k)} \<union> R"
      using buddy_rel_disjoint_AR [OF r] b by auto
    show "core s2 (fl1(k' := i' # fl1 k')) (A - {(i, k)} \<union> R)" using m(3) unfolding AR .
    show "insert (i', k') (fblocks fl1) = fblocks (fl1(k' := i' # fl1 k'))"
      by (rule fblocks_cons [OF m(4), symmetric])
    show "(A - {(i, k)}) \<inter> R = {}" using buddy_rel_disjoint_AR [OF r] by auto
    have rc: "ba_real_count s2 = ba_real_count s"
      using m(7) by (simp add: frame_pages_def same_geom_def)
    have meta: "ba_meta s2 j = ba_meta s j" if "(j, q) \<in> A - {(i, k)} \<union> R" for j q
      using m(8) that unfolding AR by blast
    show "ba_meta s2 j = \<lparr>pm_order = q, pm_used = True\<rparr> \<and> j + 2 ^ q \<le> ba_real_count s2"
      if "(j, q) \<in> A - {(i, k)}" for j q
      using buddy_rel_A [OF r, of j q] meta [of j q] rc that by simp
    show "pm_used (ba_meta s2 j) \<and> (j < ba_real_count s2 \<longrightarrow> MAX_ORDER < pm_order (ba_meta s2 j))"
      if "(j, q) \<in> R" for j q
      using buddy_rel_R [OF r, of j q] meta [of j q] rc that by simp
  qed
  ultimately show ?thesis using m(4-7) fl(1) by blast
qed

lemma free_relE:
  assumes "buddy_rel s F A R" "(i, k) \<in> A"
  obtains s' F' i' k' where "free s (page_addr s i) = Some (Ok (), s')"
    "buddy_rel s' (insert (i', k') F') (A - {(i, k)}) R" "F' \<subseteq> F" "k' \<le> MAX_ORDER"
    "k' < MAX_ORDER \<longrightarrow> (i' XOR 2 ^ k', k') \<notin> F'" "frame_pages s s' (spans F \<union> span (i, k))"
  using free_rel [OF assms] by (elim exE conjE) (rule that; assumption)

end
