(* ===== verification/Mem_Init.thy ===== *)
theory Mem_Init
  imports Mem_Correct
begin

text \<open>
  Initialisation of the buddy allocator: both construction paths of \<^verbatim>\<open>BuddyAllocator::init\<close>
  establish the refinement relation with nothing handed out. The blocks that \<^verbatim>\<open>carve\<close> withholds
  are characterised exactly; for disjoint reserved ranges there are none.
\<close>

section \<open>Carving\<close>

text \<open>Metadata of the pages outside a block is not touched.\<close>

definition meta_frame :: "mm \<Rightarrow> mm \<Rightarrow> nat set \<Rightarrow> bool" where
  "meta_frame s s' P \<longleftrightarrow> (\<forall>j. j \<notin> P \<longrightarrow> ba_meta s' j = ba_meta s j)"

definition withheld :: "mm \<Rightarrow> (nat \<times> nat) list \<Rightarrow> block \<Rightarrow> bool" where
  "withheld s res b \<longleftrightarrow>
     fst b < ba_real_count s \<and> carve_scan (fst b) (fst b + 2 ^ snd b) res False = (True, True) \<and>
     ba_meta s (fst b) = \<lparr>pm_order = 255, pm_used = True\<rparr>"

lemma carve_scan_page: "carve_scan i (Suc i) res ov = (b, ov') \<Longrightarrow> ov' = ov"
  by (induction i "Suc i" res ov rule: carve_scan.induct) (auto split: if_splits)

lemma carve_scan_disjoint:
  assumes "sorted_wrt (\<lambda>(a, b) (c, d). b \<le> c \<or> d \<le> a) res"
    and "carve_scan i e res ov = (True, ov')" "i < e"
  shows "ov' = ov"
  using assms
proof (induction i e res ov rule: carve_scan.induct)
  case (2 st e rs re rest ov)
  have inside: "\<exists>(a, b)\<in>set r. a \<le> st \<and> e \<le> b" if "carve_scan st e r o1 = (True, o2)" for r o1 o2
    using that by (induction st e r o1 rule: carve_scan.induct) (auto split: if_splits)
  show ?case
  proof (cases "rs \<le> st \<and> e \<le> re")
    case False
    with 2(3) have sc: "carve_scan st e rest (ov \<or> rs < e \<and> st < re) = (True, ov')" by auto
    obtain a b where ab: "(a, b) \<in> set rest" "a \<le> st" "e \<le> b" using inside [OF sc] by auto
    with 2(2) have "re \<le> a \<or> b \<le> rs" by auto
    then have "\<not> (rs < e \<and> st < re)" using ab by auto
    then show ?thesis using 2(1) [OF False _ sc \<open>st < e\<close>] 2(2) by auto
  qed (use 2 in auto)
qed simp

definition carve_post ::
  "mm \<Rightarrow> mm \<Rightarrow> (nat \<Rightarrow> nat list) \<Rightarrow> block set \<Rightarrow> block \<Rightarrow> (nat \<times> nat) list \<Rightarrow> block set \<Rightarrow> bool" where
  "carve_post s s' fl' X b res D \<longleftrightarrow>
     core s' fl' (X - {b} \<union> D) \<and> same_geom s s' \<and> meta_frame s s' (span b) \<and>
     spans D \<subseteq> span b \<and>
     (\<forall>d\<in>D. withheld s' res d \<or> ba_real_count s \<le> fst d \<and> ba_meta s' (fst d) = ba_meta s (fst d))"

lemma meta_frame_trans:
  "meta_frame s s1 P \<Longrightarrow> meta_frame s1 s2 P' \<Longrightarrow> P \<union> P' \<subseteq> Q \<Longrightarrow> meta_frame s s2 Q"
  unfolding meta_frame_def by (metis UnCI subsetD)

lemma span_halves: "span (i, Suc k) = span (i, k) \<union> span (i + 2 ^ k, k)"
  by auto

lemma carve_halves:
  assumes c: "core s fl X" and b: "(i, Suc k) \<in> X"
    and p1: "carve_post s s1 fl1 (X - {(i, Suc k)} \<union> {(i, k), (i + 2 ^ k, k)}) (i, k) res D1"
    and p2: "carve_post s1 s2 fl2
       (X - {(i, Suc k)} \<union> {(i, k), (i + 2 ^ k, k)} - {(i, k)} \<union> D1) (i + 2 ^ k, k) res D2"
  shows "carve_post s s2 fl2 X (i, Suc k) res (D1 \<union> D2)"
proof -
  let ?h = "(i + 2 ^ k, k)"
  have nX: "?h \<notin> X" "(i, k) \<notin> X"
    using core_span_unique [OF c b, of ?h "i + 2 ^ k"] core_head_unique [OF c b, of k] by auto
  have sub: "spans D1 \<subseteq> span (i, k)" using p1 by (simp add: carve_post_def)
  have hd1: "fst e \<in> span (i, k)" if "e \<in> D1" for e
    using sub spansI [OF that, of "fst e"] by (cases e) auto
  have dD1: "?h \<notin> D1" using hd1 [of ?h] by auto
  have out: "fst d \<notin> span ?h" if "d \<in> D1" for d using hd1 [OF that] by auto
  have "X - {(i, Suc k)} \<union> {(i, k), ?h} - {(i, k)} \<union> D1 - {?h} \<union> D2 = X - {(i, Suc k)} \<union> (D1 \<union> D2)"
    using nX dD1 by auto
  then have "core s2 fl2 (X - {(i, Suc k)} \<union> (D1 \<union> D2))"
    using p2 by (simp add: carve_post_def)
  moreover have sg: "same_geom s s1" "same_geom s1 s2" using p1 p2 by (simp_all add: carve_post_def)
  moreover have keep: "ba_meta s2 (fst d) = ba_meta s1 (fst d)" if "d \<in> D1" for d
    using p2 out [OF that] by (simp add: carve_post_def meta_frame_def)
  moreover have keep2: "ba_meta s1 (fst d) = ba_meta s (fst d)" if "d \<in> D2" for d
  proof -
    have "fst d \<in> span ?h"
      using p2 spansI [OF that, of "fst d"] by (cases d) (auto simp: carve_post_def)
    then show ?thesis using p1 by (auto simp: carve_post_def meta_frame_def)
  qed
  moreover have "meta_frame s s2 (span (i, Suc k))"
    by (rule meta_frame_trans [of s s1 "span (i, k)" s2 "span ?h"])
      (use p1 p2 in \<open>auto simp: carve_post_def\<close>)
  ultimately show ?thesis
    using p1 p2 by (auto simp: carve_post_def same_geom_def span_halves withheld_def)
qed

lemma carve_push:
  assumes c: "core s fl X" and b: "(i, k) \<in> X" and r: "i + 2 ^ k \<le> ba_real_count s"
  shows "\<exists>s' fl' D. push s i k = Some s' \<and> carve_post s s' fl' X (i, k) res D"
proof -
  obtain s' where s': "push s i k = Some s'" "core s' (fl(k := i # fl k)) (X - {(i, k)})"
    "frame_pages s s' {i}" "\<forall>j. j \<noteq> i \<longrightarrow> ba_meta s' j = ba_meta s j"
    using push_core [OF c b r] by auto
  then have "carve_post s s' (fl(k := i # fl k)) X (i, k) res {}"
    using pow2_Suc [of k] by (auto simp: carve_post_def frame_pages_def meta_frame_def)
  then show ?thesis using s'(1) by blast
qed

lemma carve_keep:
  assumes c: "core s fl X" and b: "(i, k) \<in> X" and r: "ba_real_count s \<le> i"
  shows "carve s i k res = Some s \<and> carve_post s s fl X (i, k) res {(i, k)}"
proof -
  have "X - {(i, k)} \<union> {(i, k)} = X" using b by auto
  then show ?thesis
    using c r by (simp add: carve.simps carve_post_def same_geom_def meta_frame_def)
qed

lemma carve_core:
  assumes "core s fl X" "(i, k) \<in> X"
  shows "\<exists>s' fl' D. carve s i k res = Some s' \<and> carve_post s s' fl' X (i, k) res D"
  using assms
proof (induction k arbitrary: s fl X i)
  case 0
  show ?case
  proof (cases "ba_real_count s \<le> i")
    case True
    then show ?thesis using carve_keep [OF 0] by blast
  next
    case False
    obtain ins where sc: "carve_scan i (Suc i) res False = (ins, False)"
      using carve_scan_page by (metis surj_pair)
    then have "carve s i 0 res = push s i 0" using False by (simp add: carve.simps)
    then show ?thesis using carve_push [OF 0] False by simp
  qed
next
  case (Suc k)
  note c = Suc.prems(1) and b = Suc.prems(2)
  have ib: "i + 2 ^ Suc k \<le> ba_page_count s" by (rule core_index [OF c b])
  have X: "X - {(i, Suc k)} \<union> {(i, Suc k)} = X" using b by auto
  let ?X1 = "X - {(i, Suc k)} \<union> {(i, k), (i + 2 ^ k, k)}"
  have halves: "\<exists>s' fl' D. do { s1 \<leftarrow> carve s i k res; carve s1 (i + 2 ^ k) k res } = Some s' \<and>
      carve_post s s' fl' X (i, Suc k) res D"
  proof -
    have c1: "core s fl ?X1" by (rule core_split [OF c b])
    obtain s1 fl1 D1 where r1: "carve s i k res = Some s1" "carve_post s s1 fl1 ?X1 (i, k) res D1"
      using Suc.IH [OF c1, of i] by blast
    have "core s1 fl1 (?X1 - {(i, k)} \<union> D1)" using r1(2) by (simp add: carve_post_def)
    moreover have "(i + 2 ^ k, k) \<in> ?X1 - {(i, k)} \<union> D1" by simp
    ultimately obtain s2 fl2 D2 where r2: "carve s1 (i + 2 ^ k) k res = Some s2"
      "carve_post s1 s2 fl2 (?X1 - {(i, k)} \<union> D1) (i + 2 ^ k, k) res D2"
      using Suc.IH by blast
    have "carve_post s s2 fl2 X (i, Suc k) res (D1 \<union> D2)"
      by (rule carve_halves [OF c b r1(2) r2(2)])
    then show ?thesis using r1(1) r2(1) by auto
  qed
  obtain ins ov where sc: "carve_scan i (i + 2 * 2 ^ k) res False = (ins, ov)" by (meson surj_pair)
  consider "ba_real_count s \<le> i" | "i < ba_real_count s" "ba_real_count s < i + 2 ^ Suc k"
    | "i + 2 ^ Suc k \<le> ba_real_count s" "\<not> ov" | "i + 2 ^ Suc k \<le> ba_real_count s" "ov" "ins"
    | "i + 2 ^ Suc k \<le> ba_real_count s" "ov" "\<not> ins"
    by linarith
  then show ?case
  proof cases
    case 1
    then show ?thesis using carve_keep [OF c b] by blast
  next
    case 2
    then show ?thesis using halves by (simp add: carve.simps [of s i "Suc k"])
  next
    case 3
    then have ca: "carve s i (Suc k) res = push s i (Suc k)"
      using sc pow2_Suc [of k] by (auto simp: carve.simps [of s i "Suc k"])
    then show ?thesis using carve_push [OF c b 3(1)] by simp
  next
    case 4
    let ?s' = "s\<lparr>ba_meta := (ba_meta s)(i := \<lparr>pm_order = 255, pm_used = True\<rparr>)\<rparr>"
    have ca: "carve s i (Suc k) res = Some ?s'"
      using 4 sc pow2_Suc [of k] ib by (auto simp: carve.simps [of s i "Suc k"] meta_put_def)
    have "carve_post s ?s' fl X (i, Suc k) res {(i, Suc k)}"
      using core_meta [OF c b] 4 sc X pow2_Suc [of k]
      by (auto simp: carve_post_def same_geom_def meta_frame_def withheld_def)
    then show ?thesis using ca by blast
  next
    case 5
    then have "carve s i (Suc k) res = do { s1 \<leftarrow> carve s i k res; carve s1 (i + 2 ^ k) k res }"
      using sc pow2_Suc [of k] by (auto simp: carve.simps [of s i "Suc k"])
    then show ?thesis using halves by simp
  qed
qed

section \<open>Building the free lists\<close>

definition top_blocks :: "nat \<Rightarrow> nat \<Rightarrow> block set" where
  "top_blocks lo n = {(i, MAX_ORDER) | i. 2 ^ MAX_ORDER dvd i \<and> lo \<le> i \<and> i < n}"

lemma top_blocks_step:
  assumes "2 ^ MAX_ORDER dvd lo" "lo < n"
  shows "top_blocks lo n = insert (lo, MAX_ORDER) (top_blocks (lo + 2 ^ MAX_ORDER) n)"
    and "(lo, MAX_ORDER) \<notin> top_blocks (lo + 2 ^ MAX_ORDER) n"
proof -
  have "i = lo \<or> lo + 4096 \<le> i" if d: "4096 dvd i" "lo \<le> i" for i
  proof -
    obtain a where "lo = 4096 * a" using assms(1) by (auto elim!: dvdE)
    moreover obtain b where "i = 4096 * b" using d(1) by (auto elim!: dvdE)
    ultimately show ?thesis using d(2) by (cases "a = b") auto
  qed
  then show "top_blocks lo n = insert (lo, MAX_ORDER) (top_blocks (lo + 2 ^ MAX_ORDER) n)"
    using assms by (auto simp: top_blocks_def)
qed (simp add: top_blocks_def)

lemma top_blocks_tiling:
  assumes n: "2 ^ MAX_ORDER dvd n"
  shows "tiling n (top_blocks 0 n)"
  unfolding tiling_def
proof (intro conjI ballI impI)
  fix b c assume b: "b \<in> top_blocks 0 n" and c: "c \<in> top_blocks 0 n" and ne: "b \<noteq> c"
  then obtain u v where uv: "b = (4096 * u, 12)" "c = (4096 * v, 12)" "u \<noteq> v"
    by (auto simp: top_blocks_def elim!: dvdE)
  then have "4096 * u + 4096 \<le> 4096 * v \<or> 4096 * v + 4096 \<le> 4096 * u" by auto
  then show "span b \<inter> span c = {}" by (auto simp: uv)
next
  have "\<exists>b\<in>top_blocks 0 n. x \<in> span b" if "x < n" for x
  proof (rule bexI [of _ "(x div 4096 * 4096, 12)"])
    show "(x div 4096 * 4096, 12) \<in> top_blocks 0 n"
      using that div_times_less_eq_dividend [of x 4096] by (auto simp: top_blocks_def)
    show "x \<in> span (x div 4096 * 4096, 12)"
      using div_mult_mod_eq [of x 4096] mod_less_divisor [of 4096 x] by simp
  qed
  moreover have "x < n" if bx: "b \<in> top_blocks 0 n" "x \<in> span b" for b x
  proof -
    obtain u v where "b = (4096 * u, 12)" "n = 4096 * v" "4096 * u < n"
      using bx(1) n by (auto simp: top_blocks_def elim!: dvdE)
    then show ?thesis using bx(2) by auto
  qed
  ultimately show "spans (top_blocks 0 n) = {..<n}" by (fastforce simp: spans_def)
qed (auto simp: top_blocks_def)

text \<open>What both construction loops maintain: the blocks not yet visited, and those left used.\<close>

definition building :: "mm \<Rightarrow> mm \<Rightarrow> nat \<Rightarrow> (nat \<times> nat) list \<Rightarrow> block set \<Rightarrow> bool" where
  "building s0 s idx res D \<longleftrightarrow>
     (\<exists>fl. core s fl (top_blocks idx (ba_page_count s) \<union> D)) \<and> same_geom s0 s \<and>
     (\<forall>j\<ge>idx. ba_meta s j = ba_meta s0 j) \<and> spans D \<subseteq> {..<idx} \<and>
     (\<forall>d\<in>D. withheld s res d \<or> ba_real_count s \<le> fst d \<and> ba_meta s (fst d) = ba_meta s0 (fst d))"

lemma building_step:
  assumes b: "building s0 s idx res D" and al: "2 ^ MAX_ORDER dvd idx" and lt: "idx < ba_page_count s"
    and post: "\<And>fl. core s fl (top_blocks idx (ba_page_count s) \<union> D) \<Longrightarrow>
      \<exists>s' fl' E. r = Some s' \<and>
        carve_post s s' fl' (top_blocks idx (ba_page_count s) \<union> D) (idx, MAX_ORDER) res E"
  shows "\<exists>s' D'. r = Some s' \<and> building s0 s' (idx + 2 ^ MAX_ORDER) res D'"
proof -
  let ?T = "top_blocks idx (ba_page_count s)"
  obtain fl where c: "core s fl (?T \<union> D)" using b by (auto simp: building_def)
  obtain s' fl' E where r: "r = Some s'" and p: "carve_post s s' fl' (?T \<union> D) (idx, MAX_ORDER) res E"
    using post [OF c] by blast
  have hD: "fst d < idx" if "d \<in> D" for d
    using b spansI [OF that, of "fst d"] by (cases d) (auto simp: building_def)
  have hE: "idx \<le> fst d \<and> fst d < idx + 4096" if "d \<in> E" for d
    using p spansI [OF that, of "fst d"] by (cases d) (auto simp: carve_post_def)
  have nD: "(idx, MAX_ORDER) \<notin> D" using hD by fastforce
  note st = top_blocks_step [OF al lt]
  have "?T \<union> D - {(idx, MAX_ORDER)} \<union> E = top_blocks (idx + 2 ^ MAX_ORDER) (ba_page_count s) \<union> (D \<union> E)"
    using st nD by auto
  then have "core s' fl' (top_blocks (idx + 2 ^ MAX_ORDER) (ba_page_count s') \<union> (D \<union> E))"
    using p by (simp add: carve_post_def same_geom_def)
  moreover have mf: "ba_meta s' j = ba_meta s j" if "j < idx \<or> idx + 4096 \<le> j" for j
    using p that by (auto simp: carve_post_def meta_frame_def)
  moreover have "withheld s' res d \<or> ba_real_count s' \<le> fst d \<and> ba_meta s' (fst d) = ba_meta s0 (fst d)"
    if "d \<in> D \<union> E" for d
  proof (cases "d \<in> D")
    case True
    then show ?thesis
      using b p mf [of "fst d"] hD [OF True]
      by (auto simp: building_def carve_post_def same_geom_def withheld_def)
  next
    case False
    then have "d \<in> E" using that by simp
    moreover have "ba_meta s (fst d) = ba_meta s0 (fst d)"
      using b hE [OF \<open>d \<in> E\<close>] by (simp add: building_def)
    ultimately show ?thesis using p by (auto simp: carve_post_def same_geom_def)
  qed
  moreover have "spans (D \<union> E) \<subseteq> {..<idx + 2 ^ MAX_ORDER}"
    using b p by (fastforce simp: building_def carve_post_def)
  moreover have "same_geom s0 s'" using b p by (auto simp: building_def carve_post_def same_geom_def)
  ultimately have "building s0 s' (idx + 2 ^ MAX_ORDER) res (D \<union> E)"
    using b by (auto simp: building_def)
  then show ?thesis using r by blast
qed

lemma building_carve:
  assumes b: "building s0 s idx res D" and al: "2 ^ MAX_ORDER dvd idx" and lt: "idx < ba_page_count s"
  shows "\<exists>s' D'. carve s idx MAX_ORDER res = Some s' \<and> building s0 s' (idx + 2 ^ MAX_ORDER) res D'"
proof (rule building_step [OF assms])
  fix fl assume "core s fl (top_blocks idx (ba_page_count s) \<union> D)"
  moreover have "(idx, MAX_ORDER) \<in> top_blocks idx (ba_page_count s) \<union> D"
    using top_blocks_step(1) [OF al lt] by simp
  ultimately show "\<exists>s' fl' E. carve s idx MAX_ORDER res = Some s' \<and>
      carve_post s s' fl' (top_blocks idx (ba_page_count s) \<union> D) (idx, MAX_ORDER) res E"
    by (rule carve_core)
qed

lemma building_push:
  assumes b: "building s0 s idx res D" and al: "2 ^ MAX_ORDER dvd idx" and lt: "idx < ba_page_count s"
    and r: "idx + 2 ^ MAX_ORDER \<le> ba_real_count s"
  shows "\<exists>s' D'. push s idx MAX_ORDER = Some s' \<and> building s0 s' (idx + 2 ^ MAX_ORDER) res D'"
proof (rule building_step [OF b al lt])
  fix fl assume "core s fl (top_blocks idx (ba_page_count s) \<union> D)"
  moreover have "(idx, MAX_ORDER) \<in> top_blocks idx (ba_page_count s) \<union> D"
    using top_blocks_step(1) [OF al lt] by simp
  ultimately show "\<exists>s' fl' E. push s idx MAX_ORDER = Some s' \<and>
      carve_post s s' fl' (top_blocks idx (ba_page_count s) \<union> D) (idx, MAX_ORDER) res E"
    by (rule carve_push) (rule r)
qed

lemma init_carve_building:
  assumes "building s0 s idx res D" "2 ^ MAX_ORDER dvd idx" "2 ^ MAX_ORDER dvd ba_page_count s"
    and "count \<le> ba_page_count s"
  shows "\<exists>s' idx' D'. init_carve s idx count res = Some s' \<and> building s0 s' idx' res D' \<and>
     count \<le> idx' \<and> 2 ^ MAX_ORDER dvd idx'"
  using assms
proof (induction s idx count res arbitrary: D rule: init_carve.induct)
  case (1 s idx count res)
  show ?case
  proof (cases "idx < count")
    case False
    then show ?thesis using 1 by (auto simp: init_carve.simps [of s])
  next
    case True
    have lt: "idx < ba_page_count s" using True 1(5) by simp
    obtain s1 D1 where s1: "carve s idx MAX_ORDER res = Some s1"
      "building s0 s1 (idx + 2 ^ MAX_ORDER) res D1"
      using building_carve [OF 1(2,3) lt] by blast
    have pc: "ba_page_count s1 = ba_page_count s"
      using 1(2) s1(2) by (simp add: building_def same_geom_def)
    then show ?thesis
      using 1(1) [OF True s1] 1(3-5) True s1(1) by (simp add: init_carve.simps [of s])
  qed
qed

lemma init_full_building:
  assumes "building s0 s idx [] D" "2 ^ MAX_ORDER dvd idx" "count = ba_real_count s"
    and "count \<le> ba_page_count s"
  shows "\<exists>s' idx' D'. init_full s idx count = Some (s', idx') \<and> building s0 s' idx' [] D' \<and>
     count < idx' + 2 ^ MAX_ORDER \<and> (idx \<le> count \<longrightarrow> idx' \<le> count) \<and> 2 ^ MAX_ORDER dvd idx'"
  using assms
proof (induction s idx count arbitrary: D rule: init_full.induct)
  case (1 s idx count)
  show ?case
  proof (cases "idx + 2 ^ MAX_ORDER \<le> count")
    case False
    then show ?thesis using 1 by (auto simp: init_full.simps [of s])
  next
    case True
    have lt: "idx < ba_page_count s" using True 1(5) by simp
    obtain s1 D1 where s1: "push s idx MAX_ORDER = Some s1"
      "building s0 s1 (idx + 2 ^ MAX_ORDER) [] D1"
      using building_push [OF 1(2,3) lt] True 1(4) by blast
    have pc: "ba_page_count s1 = ba_page_count s" "ba_real_count s1 = ba_real_count s"
      using 1(2) s1(2) by (simp_all add: building_def same_geom_def)
    then show ?thesis
      using 1(1) [OF True s1] 1(3-5) True s1(1) by (simp add: init_full.simps [of s])
  qed
qed

text \<open>
  The tail loop of the path without reserved ranges pushes the binary decomposition of the
  remaining pages, which is what carving the last block with no reserved range does.
\<close>

lemma ilog2_eqI: "2 ^ k \<le> n \<Longrightarrow> n < 2 ^ Suc k \<Longrightarrow> ilog2 n = k"
proof -
  assume n: "2 ^ k \<le> n" "n < 2 ^ Suc k"
  then have "0 < n" by (metis gr0I le_zero_eq power_not_zero zero_neq_numeral)
  then have "(2::nat) ^ ilog2 n < 2 ^ Suc k" "(2::nat) ^ k < 2 ^ Suc (ilog2 n)"
    using ilog2_le [of n] ilog2_less [of n] n by linarith+
  then have "ilog2 n < Suc k" "k < Suc (ilog2 n)"
    by (simp_all only: power_strict_increasing_iff [of 2] one_less_numeral_iff semiring_norm)
  then show ?thesis by simp
qed

lemma push_geom: "push s i k = Some s' \<Longrightarrow> same_geom s s'"
  by (auto simp: push_def write_next_def fl_get_def fl_set_def meta_put_def same_geom_def
      bind_eq_Some_conv split: if_splits)

lemma carve_geom: "carve s i k res = Some s' \<Longrightarrow> same_geom s s'"
proof (induction k arbitrary: s i s')
  case 0
  then show ?case
    by (auto simp: carve.simps [of s] Let_def meta_put_def same_geom_def dest: push_geom
        split: if_splits prod.splits)
next
  case (Suc k)
  have two: "same_geom s s'" if "carve s a k res = Some s1" "carve s1 b k res = Some s'" for a b s1
    using Suc.IH [OF that(1)] Suc.IH [OF that(2)] by (simp add: same_geom_def)
  show ?case using Suc.prems
    by (auto simp: carve.simps [of s i "Suc k" res] Let_def meta_put_def bind_eq_Some_conv
        dest: push_geom two split: if_splits prod.splits) (auto simp: same_geom_def)
qed

lemma init_tail_carve:
  assumes "k \<le> MAX_ORDER" "ba_real_count s = count" "idx < count" "count \<le> idx + 2 ^ k"
  shows "init_tail s idx count = carve s idx k []"
  using assms
proof (induction k arbitrary: s idx)
  case 0
  then have "count = Suc idx" by simp
  then show ?case using 0
    by (simp add: init_tail.simps [of s] carve.simps [of s] ilog2.simps [of "Suc 0"]
        init_tail.simps [of _ "Suc idx"])
next
  case (Suc k)
  consider "count = idx + 2 ^ Suc k" | "count \<le> idx + 2 ^ k" | "idx + 2 ^ k < count" "count < idx + 2 ^ Suc k"
    using Suc.prems by linarith
  then show ?case
  proof cases
    case 1
    then have "ilog2 (count - idx) = Suc k" by (intro ilog2_eqI) auto
    then have "init_tail s idx count = do { s1 \<leftarrow> push s idx (Suc k); init_tail s1 count count }"
      using 1 Suc.prems by (simp add: init_tail.simps [of s] min_def)
    also have "\<dots> = push s idx (Suc k)"
      by (simp add: init_tail.simps)
    also have "\<dots> = carve s idx (Suc k) []"
      using 1 Suc.prems pow2_Suc [of k] by (auto simp: carve.simps [of s])
    finally show ?thesis .
  next
    case 2
    have up: "carve s1 (idx + 2 ^ k) k [] = Some s1" if "carve s idx k [] = Some s1" for s1
      using 2 carve_geom [OF that] Suc.prems by (simp add: carve.simps [of s1] same_geom_def)
    have "carve s idx (Suc k) [] = do { s1 \<leftarrow> carve s idx k []; carve s1 (idx + 2 ^ k) k [] }"
      using 2 Suc.prems pow2_Suc [of k] by (auto simp: carve.simps [of s idx "Suc k"])
    also have "\<dots> = carve s idx k []" by (cases "carve s idx k []") (simp_all add: up)
    finally show ?thesis using Suc.IH [of s idx] Suc.prems 2 by simp
  next
    case 3
    then have "ilog2 (count - idx) = k" by (intro ilog2_eqI) auto
    then have "init_tail s idx count = do { s1 \<leftarrow> push s idx k; init_tail s1 (idx + 2 ^ k) count }"
      using Suc.prems by (simp add: init_tail.simps [of s] min_def)
    also have "\<dots> = do { s1 \<leftarrow> push s idx k; carve s1 (idx + 2 ^ k) k [] }"
      by (cases "push s idx k")
        (use 3 Suc.prems Suc.IH push_geom in \<open>auto simp: same_geom_def\<close>)
    also have "push s idx k = carve s idx k []"
      using 3 Suc.prems by (simp add: carve.simps [of s])
    also have "do { s1 \<leftarrow> carve s idx k []; carve s1 (idx + 2 ^ k) k [] } = carve s idx (Suc k) []"
      using 3 Suc.prems pow2_Suc [of k] by (auto simp: carve.simps [of s idx "Suc k"])
    finally show ?thesis .
  qed
qed

section \<open>The initial state\<close>

lemma padded_multiple:
  assumes "count \<le> idx" "2 ^ MAX_ORDER dvd idx"
  shows "div_ceil count (2 ^ MAX_ORDER) * 2 ^ MAX_ORDER \<le> idx"
proof -
  obtain q where q: "idx = 4096 * q" using assms(2) by (auto elim!: dvdE)
  have "div_ceil count 4096 \<le> q"
    by (rule div_ceil_least) (use assms q in simp_all)
  then show ?thesis by (simp add: q)
qed

lemma building_start:
  assumes fl: "\<And>ord. ord \<le> MAX_ORDER \<Longrightarrow> ba_free_lists s ord = FREE_NONE" and g: "geom s"
  shows "building s s 0 res {}"
proof -
  have "core s (\<lambda>_. []) (top_blocks 0 (ba_page_count s))"
    using fl g top_blocks_tiling [of "ba_page_count s"]
    by (simp add: core_def fblocks_def geom_def)
  then show ?thesis by (auto simp: building_def same_geom_def)
qed

lemma building_done:
  assumes b: "building s0 s idx res D" and "ba_page_count s \<le> idx"
    and m: "ba_meta s0 = init_meta mi (ba_real_count s) (ba_page_count s)"
  shows "\<exists>F. buddy_rel s F {} D \<and> spans F = {..<ba_real_count s} - spans {d \<in> D. withheld s res d} \<and>
     (\<forall>d\<in>D. withheld s res d \<or> ba_real_count s \<le> fst d)"
proof -
  have "top_blocks idx (ba_page_count s) = {}" using assms(2) by (auto simp: top_blocks_def)
  then obtain fl where c: "core s fl D" using b by (auto simp: building_def)
  have D: "withheld s res d \<or> ba_real_count s \<le> fst d \<and> ba_meta s (fst d) = ba_meta s0 (fst d)"
    if "d \<in> D" for d
    using b that by (auto simp: building_def)
  have rel: "buddy_rel s (fblocks fl) {} D"
  proof (rule buddy_relI)
    show "core s fl ({} \<union> D)" using c by simp
    fix i ord assume d: "(i, ord) \<in> D"
    have "i < ba_page_count s" using core_index [OF c d] pow2_Suc [of ord] by auto
    then show "pm_used (ba_meta s i) \<and> (i < ba_real_count s \<longrightarrow> MAX_ORDER < pm_order (ba_meta s i))"
      using D [OF d] m by (auto simp: withheld_def init_meta_def)
  qed auto
  have Fr: "spans (fblocks fl) \<subseteq> {..<ba_real_count s}"
    using coreD_free [OF c] by (fastforce simp: spans_def fblocks_def)
  have rp: "ba_real_count s \<le> ba_page_count s" using coreD_geom [OF c] by (simp add: geom_def)
  have cov: "spans (fblocks fl) \<union> spans D = {..<ba_page_count s}"
    using tilingD_spans [OF coreD_tiling [OF c]] by simp
  have dis: "spans (fblocks fl) \<inter> spans D = {}"
    using tilingD_disjoint [OF coreD_tiling [OF c]] coreD_disjoint [OF c] unfolding spans_def by blast
  have low: "spans D \<inter> {..<ba_real_count s} = spans {d \<in> D. withheld s res d} \<inter> {..<ba_real_count s}"
  proof -
    have "withheld s res d" if "d \<in> D" "x \<in> span d" "x < ba_real_count s" for d x
      using D [OF that(1)] that(2,3) by auto
    then show ?thesis unfolding spans_def by blast
  qed
  show ?thesis
  proof (intro exI conjI)
    show "buddy_rel s (fblocks fl) {} D" by (rule rel)
    show "spans (fblocks fl) = {..<ba_real_count s} - spans {d \<in> D. withheld s res d}"
      using Fr rp cov dis low unfolding set_eq_iff by (auto simp: subset_iff)
  qed (use D in blast)
qed

lemma ba_init_rel:
  assumes fl: "\<And>ord. ord \<le> MAX_ORDER \<Longrightarrow> ba_free_lists s ord = FREE_NONE"
    and base: "2 ^ MAX_ORDER * PAGE_SIZE dvd base"
    and lim: "count \<le> MAX_PAGES" "base + MAX_PAGES * PAGE_SIZE < USIZE_LIMIT"
  shows "\<exists>s' F R. ba_init s base count res = Some s' \<and> buddy_rel s' F {} R \<and>
     ba_base s' = base \<and> ba_real_count s' = count \<and>
     spans F = {..<count} - spans {d \<in> R. withheld s' res d} \<and>
     (\<forall>d\<in>R. withheld s' res d \<or> count \<le> fst d)"
proof -
  define padded where "padded = div_ceil count (2 ^ MAX_ORDER) * 2 ^ MAX_ORDER"
  have pc: "count \<le> padded" unfolding padded_def by (rule div_ceil_mult_ge) simp
  have pdvd: "4096 dvd padded" by (simp add: padded_def)
  have pm: "padded \<le> MAX_PAGES" unfolding padded_def by (rule padded_multiple) (use lim in simp_all)
  let ?s1 = "s\<lparr>ba_base := base, ba_real_count := count, ba_page_count := padded,
      ba_meta := init_meta (ba_meta s) count padded\<rparr>"
  have g: "geom ?s1" using base pc pm lim by (simp add: geom_def padded_def)
  have b1: "building ?s1 ?s1 0 res {}" for res
    by (rule building_start [OF _ g]) (use fl in simp)
  have finish: ?thesis if i: "ba_init s base count res = Some s'" and b: "building ?s1 s' idx' res D"
    "padded \<le> idx'" for s' idx' D
  proof -
    have sg: "same_geom ?s1 s'" using b by (simp add: building_def)
    have "\<exists>F. buddy_rel s' F {} D \<and> spans F = {..<ba_real_count s'} - spans {d \<in> D. withheld s' res d} \<and>
       (\<forall>d\<in>D. withheld s' res d \<or> ba_real_count s' \<le> fst d)"
      by (rule building_done [OF b(1), where mi = "ba_meta s"]) (use b(2) sg in \<open>simp_all add: same_geom_def\<close>)
    then show ?thesis using i sg by (auto simp: same_geom_def)
  qed
  have unf: "ba_init s base count res =
      (if res = [] then do { (s2, idx) \<leftarrow> init_full ?s1 0 count; init_tail s2 idx count }
       else init_carve ?s1 0 count res)"
    using lim(1) pm by (simp add: ba_init_def padded_def Let_def)
  show ?thesis
  proof (cases "res = []")
    case False
    obtain s' idx' D where r: "init_carve ?s1 0 count res = Some s'" "building ?s1 s' idx' res D"
      "count \<le> idx'" "2 ^ MAX_ORDER dvd idx'"
      using init_carve_building [OF b1 [of res], where count = count] pc pdvd by auto
    then show ?thesis
      using finish padded_multiple [OF r(3,4)] False unf by (simp add: padded_def)
  next
    case True
    obtain s2 idx D where r: "init_full ?s1 0 count = Some (s2, idx)" "building ?s1 s2 idx [] D"
      "count < idx + 2 ^ MAX_ORDER" "idx \<le> count" "2 ^ MAX_ORDER dvd idx"
      using init_full_building [OF b1 [of "[]"], where count = count] pc by auto
    have g2: "ba_page_count s2 = padded" "ba_real_count s2 = count"
      using r(2) by (simp_all add: building_def same_geom_def)
    show ?thesis
    proof (cases "idx = count")
      case True
      then show ?thesis
        using finish [of s2 idx D] r unf \<open>res = []\<close> padded_multiple [of count idx]
        by (simp add: padded_def init_tail.simps [of s2])
    next
      case False
      then have lt: "idx < ba_page_count s2" using r(4) pc g2 by simp
      obtain s3 D3 where s3: "carve s2 idx MAX_ORDER [] = Some s3"
        "building ?s1 s3 (idx + 2 ^ MAX_ORDER) [] D3"
        using building_carve [OF r(2,5) lt] by blast
      have "init_tail s2 idx count = Some s3"
        using init_tail_carve [of MAX_ORDER s2 count idx] s3(1) g2 r(3,4) False by simp
      then show ?thesis
        using finish [of s3 "idx + 2 ^ MAX_ORDER" D3] s3(2) r unf \<open>res = []\<close>
          padded_multiple [of count "idx + 2 ^ MAX_ORDER"] by (simp add: padded_def)
    qed
  qed
qed

end
