(* ===== verification/Alloc_Spec.thy ===== *)
theory Alloc_Spec
  imports Prelude
begin

text \<open>
  The contract of a physical page allocator as its clients (page tables, heap, shared pages)
  rely on it. \<open>inv s A\<close> says that the allocator is well-formed and that \<open>A\<close> is the set of blocks
  (address, order) handed out and not yet returned. \<open>contents\<close> is physical memory.
\<close>

fun region :: "nat \<times> nat \<Rightarrow> nat set" where
  "region (a, k) = {a ..< a + 4096 * 2 ^ k}"

locale page_allocator =
  fixes alloc :: "'s \<Rightarrow> nat \<Rightarrow> (nat option \<times> 's) outcome"
    and free :: "'s \<Rightarrow> nat \<Rightarrow> ((unit, unit) result \<times> 's) outcome"
    and inv :: "'s \<Rightarrow> (nat \<times> nat) set \<Rightarrow> bool"
    and contents :: "'s \<Rightarrow> mem"
    and store :: "mem \<Rightarrow> 's \<Rightarrow> 's"
  assumes alloc_ok:
      "inv s A \<Longrightarrow> k \<le> 12 \<Longrightarrow>
       \<exists>r s'. alloc s k = Some (r, s') \<and>
         (\<forall>b\<in>A. \<forall>x\<in>region b. contents s' x = contents s x) \<and>
         (case r of None \<Rightarrow> inv s' A | Some a \<Rightarrow> inv s' (insert (a, k) A) \<and> (a, k) \<notin> A)"
    and free_ok:
      "inv s A \<Longrightarrow> (a, k) \<in> A \<Longrightarrow>
       \<exists>s'. free s a = Some (Ok (), s') \<and> inv s' (A - {(a, k)}) \<and>
         (\<forall>b\<in>A - {(a, k)}. \<forall>x\<in>region b. contents s' x = contents s x)"
    and inv_disjoint: "inv s A \<Longrightarrow> b \<in> A \<Longrightarrow> c \<in> A \<Longrightarrow> b \<noteq> c \<Longrightarrow> region b \<inter> region c = {}"
    and inv_aligned: "inv s A \<Longrightarrow> (a, k) \<in> A \<Longrightarrow> k \<le> 12 \<and> 4096 * 2 ^ k dvd a"
    and inv_store:
      "inv s A \<Longrightarrow> (\<And>x. x \<notin> (\<Union>b\<in>A. region b) \<Longrightarrow> m x = contents s x) \<Longrightarrow> inv (store m s) A"
    and contents_store: "contents (store m s) = m"
begin

lemma alloc_fresh:
  assumes i: "inv s A" and k: "k \<le> 12" and a: "alloc s k = Some (Some a, s')"
  shows "inv s' (insert (a, k) A)" and "\<And>b. b \<in> A \<Longrightarrow> region b \<inter> region (a, k) = {}"
    and "\<And>b x. b \<in> A \<Longrightarrow> x \<in> region b \<Longrightarrow> contents s' x = contents s x"
proof -
  have *: "inv s' (insert (a, k) A)" "(a, k) \<notin> A"
    "\<forall>b\<in>A. \<forall>x\<in>region b. contents s' x = contents s x"
    using alloc_ok [OF i k] a by auto
  then show "inv s' (insert (a, k) A)" by simp
  show "region b \<inter> region (a, k) = {}" if "b \<in> A" for b
    by (rule inv_disjoint [OF *(1)]) (use that *(2) in auto)
  show "contents s' x = contents s x" if "b \<in> A" "x \<in> region b" for b x
    using *(3) that by blast
qed

text \<open>A client that fills a fresh block disturbs neither the allocator nor other clients.\<close>

lemma alloc_fill:
  assumes i: "inv s A" and k: "k \<le> 12" and a: "alloc s k = Some (Some a, s')"
    and m: "\<And>x. x \<notin> region (a, k) \<Longrightarrow> m x = contents s' x"
  shows "inv (store m s') (insert (a, k) A)"
    and "\<And>b x. b \<in> A \<Longrightarrow> x \<in> region b \<Longrightarrow> contents (store m s') x = contents s x"
proof -
  note f = alloc_fresh [OF i k a]
  show "inv (store m s') (insert (a, k) A)"
    by (rule inv_store [OF f(1)]) (use m in auto)
  fix b x assume b: "b \<in> A" "x \<in> region b"
  then have "x \<notin> region (a, k)" using f(2) by blast
  then show "contents (store m s') x = contents s x"
    using m f(3) [OF b] contents_store by simp
qed

text \<open>Allocating and returning a block restores the set of blocks handed out.\<close>

lemma alloc_free_roundtrip:
  assumes i: "inv s A" and k: "k \<le> 12" and a: "alloc s k = Some (Some a, s')"
  shows "\<exists>s''. free s' a = Some (Ok (), s'') \<and> inv s'' A \<and>
    (\<forall>b\<in>A. \<forall>x\<in>region b. contents s'' x = contents s x)"
proof -
  note f = alloc_fresh [OF i k a]
  have n: "(a, k) \<notin> A" using alloc_ok [OF i k] a by auto
  obtain s'' where s'': "free s' a = Some (Ok (), s'')" "inv s'' (insert (a, k) A - {(a, k)})"
    "\<forall>b\<in>insert (a, k) A - {(a, k)}. \<forall>x\<in>region b. contents s'' x = contents s' x"
    using free_ok [OF f(1), of a k] by blast
  have "insert (a, k) A - {(a, k)} = A" using n by auto
  then show ?thesis using s'' f(3) by auto
qed

end

end
