(* ===== verification/Mem_Props.thy ===== *)
theory Mem_Props
  imports Mem_Init Alloc_Spec
begin

text \<open>
  The buddy allocator implements the allocator contract of \<open>Alloc_Spec\<close>: page indices are
  translated to physical addresses and the laws are discharged from \<open>Mem_Correct\<close>.
\<close>

section \<open>Abstraction to addresses\<close>

definition block_region :: "mm \<Rightarrow> block \<Rightarrow> nat \<times> nat" where
  "block_region s b = (page_addr s (fst b), snd b)"

definition buddy_inv :: "mm \<Rightarrow> (nat \<times> nat) set \<Rightarrow> bool" where
  "buddy_inv s A \<longleftrightarrow> (\<exists>F B R. buddy_rel s F B R \<and> A = block_region s ` B)"

lemma page_addr_inj: "page_addr s i = page_addr s j \<longleftrightarrow> i = j"
  by (simp add: page_addr_def)

lemma block_region_inj: "block_region s b = block_region s c \<longleftrightarrow> b = c"
  by (auto simp: block_region_def page_addr_inj prod_eq_iff)

lemma inj_block_region: "inj (block_region s)"
  by (rule injI) (simp add: block_region_inj)

lemma in_region_page:
  assumes "x \<in> region (block_region s b)"
  shows "ba_base s \<le> x" "(x - ba_base s) div PAGE_SIZE \<in> span b"
proof -
  obtain i k where b: "b = (i, k)" by (cases b)
  with assms have x: "ba_base s + i * 4096 \<le> x" "x < ba_base s + i * 4096 + 4096 * 2 ^ k"
    by (auto simp: block_region_def page_addr_def)
  then show "ba_base s \<le> x" by simp
  have "i * 4096 \<le> x - ba_base s" "x - ba_base s < (i + 2 ^ k) * 4096"
    using x by (auto simp: algebra_simps)
  then show "(x - ba_base s) div PAGE_SIZE \<in> span b"
    by (simp add: b less_mult_imp_div_less less_eq_div_iff_mult_less_eq)
qed

lemma frame_region:
  assumes f: "frame_pages s s' P" and b: "span b \<inter> P = {}" and x: "x \<in> region (block_region s b)"
  shows "pmem s' x = pmem s x"
  using f b in_region_page [OF x] unfolding frame_pages_def in_pages_def by blast

lemma same_geom_region: "same_geom s s' \<Longrightarrow> block_region s' = block_region s"
  by (simp add: same_geom_def block_region_def page_addr_def fun_eq_iff)

lemma buddy_alloc_inv:
  assumes i: "buddy_inv s A" and k: "k \<le> 12"
  shows "\<exists>r s'. alloc s k = Some (r, s') \<and>
     (\<forall>b\<in>A. \<forall>x\<in>region b. pmem s' x = pmem s x) \<and>
     (case r of None \<Rightarrow> buddy_inv s' A | Some a \<Rightarrow> buddy_inv s' (insert (a, k) A) \<and> (a, k) \<notin> A)"
proof -
  obtain F B R where r: "buddy_rel s F B R" and A: "A = block_region s ` B"
    using i by (auto simp: buddy_inv_def)
  show ?thesis
  proof (cases "\<exists>y q. (y, q) \<in> F \<and> k \<le> q")
    case False
    then have "alloc s k = Some (None, s)"
      by (intro alloc_none_lists [OF r]) (use k in \<open>auto simp: not_le\<close>)
    then show ?thesis using i by auto
  next
    case True
    then obtain y q where yq: "(y, q) \<in> F" "k \<le> q" by blast
    have kM: "k \<le> MAX_ORDER" using k by simp
    obtain j cur s' F' where al: "alloc s k = Some (Some (page_addr s j), s')" "(j, cur) \<in> F"
      "buddy_rel s' F' (insert (j, k) B) R" "(j, k) \<notin> B" "frame_pages s s' (span (j, cur))"
      by (rule alloc_some_relE [OF r kM yq]) (rule that; assumption)
    have sg: "same_geom s s'" using al(5) by (simp add: frame_pages_def)
    have "pmem s' x = pmem s x" if "b \<in> B" "x \<in> region (block_region s b)" for b x
      by (rule frame_region [OF al(5) _ that(2)])
        (use spans_free_disjoint [OF r al(2)] that(1) in blast)
    moreover have "(page_addr s j, k) \<notin> A"
      using al(4) by (auto simp: A block_region_def page_addr_inj)
    moreover have "insert (page_addr s j, k) A = block_region s' ` insert (j, k) B"
      by (simp add: A same_geom_region [OF sg]) (simp add: block_region_def)
    ultimately show ?thesis using al(1,3) A by (auto simp: buddy_inv_def)
  qed
qed

lemma buddy_free_inv:
  assumes i: "buddy_inv s A" and a: "(a, k) \<in> A"
  shows "\<exists>s'. free s a = Some (Ok (), s') \<and> buddy_inv s' (A - {(a, k)}) \<and>
     (\<forall>b\<in>A - {(a, k)}. \<forall>x\<in>region b. pmem s' x = pmem s x)"
proof -
  obtain F B R where r: "buddy_rel s F B R" and A: "A = block_region s ` B"
    using i by (auto simp: buddy_inv_def)
  obtain j where j: "(j, k) \<in> B" "a = page_addr s j"
    using a A by (auto simp: block_region_def)
  obtain s' F' i' k' where f: "free s (page_addr s j) = Some (Ok (), s')"
    "buddy_rel s' (insert (i', k') F') (B - {(j, k)}) R" "frame_pages s s' (spans F \<union> span (j, k))"
    by (rule free_relE [OF r j(1)]) (rule that; assumption)
  have sg: "same_geom s s'" using f(3) by (simp add: frame_pages_def)
  have Am: "A - {(a, k)} = block_region s ` (B - {(j, k)})"
  proof -
    have "(a, k) = block_region s (j, k)" using j(2) by (simp add: block_region_def)
    then show ?thesis
      using image_set_diff [OF inj_block_region, of s B "{(j, k)}"] by (simp add: A)
  qed
  have "pmem s' x = pmem s x" if b: "b \<in> B - {(j, k)}" and x: "x \<in> region (block_region s b)" for b x
  proof (rule frame_region [OF f(3) _ x])
    have "span b \<inter> span (j, k) = {}"
      using tilingD_disjoint [OF buddy_rel_tiling [OF r], of b "(j, k)"] b j(1) by blast
    moreover have "span b \<inter> spans F = {}"
      using spans_free_disjoint [OF r] b unfolding spans_def by blast
    ultimately show "span b \<inter> (spans F \<union> span (j, k)) = {}" by blast
  qed
  then show ?thesis
    using f(1,2) j(2) Am same_geom_region [OF sg] by (auto simp: buddy_inv_def)
qed

lemma core_pmem:
  assumes c: "core s fl X" and m: "\<And>x. \<not> in_pages s (spans X) x \<Longrightarrow> m x = pmem s x"
  shows "core (s\<lparr>pmem := m\<rparr>) fl X"
proof -
  let ?s = "s\<lparr>pmem := m\<rparr>"
  have "chain ?s h (fl q) = chain s h (fl q)" if q: "q \<le> MAX_ORDER" for h q
  proof (rule chain_cong)
    fix y assume y: "y \<in> set (fl q)"
    have "y \<notin> spans X"
      using core_free_span [OF c _ q y] by (fastforce simp: spans_def)
    then have "\<not> in_pages s (spans X) x" if "page_addr s y \<le> x" "x < page_addr s y + 8" for x
      using in_pages_word [of s y x "{y}"] that by (auto simp: in_pages_def)
    then show "load64 (pmem ?s) (page_addr s y) = load64 (pmem s) (page_addr s y)"
      by (intro load64_cong) (use m in auto)
  qed simp_all
  then show ?thesis using c by (auto simp: core_def geom_def)
qed

lemma buddy_rel_store:
  assumes r: "buddy_rel s F B R"
    and m: "\<And>x. x \<notin> (\<Union>b\<in>block_region s ` B. region b) \<Longrightarrow> m x = pmem s x"
  shows "buddy_rel (s\<lparr>pmem := m\<rparr>) F B R"
proof -
  obtain fl where fl: "F = fblocks fl" "core s fl (B \<union> R)" using r by (rule buddy_relE)
  have "core (s\<lparr>pmem := m\<rparr>) fl (B \<union> R)"
  proof (rule core_pmem [OF fl(2)])
    fix x assume "\<not> in_pages s (spans (B \<union> R)) x"
    then have "x \<notin> region (block_region s b)" if "b \<in> B" for b
      using that in_region_page [of x s b] spansI [of b B] by (auto simp: in_pages_def)
    then show "m x = pmem s x" using m by blast
  qed
  then show ?thesis using r fl(1) unfolding buddy_rel_def by auto
qed

lemma buddy_store_inv:
  assumes i: "buddy_inv s A" and m: "\<And>x. x \<notin> (\<Union>b\<in>A. region b) \<Longrightarrow> m x = pmem s x"
  shows "buddy_inv (s\<lparr>pmem := m\<rparr>) A"
proof -
  obtain F B R where r: "buddy_rel s F B R" and A: "A = block_region s ` B"
    using i by (auto simp: buddy_inv_def)
  have "buddy_rel (s\<lparr>pmem := m\<rparr>) F B R" by (rule buddy_rel_store [OF r]) (use m A in blast)
  moreover have "A = block_region (s\<lparr>pmem := m\<rparr>) ` B"
    by (simp add: A block_region_def page_addr_def)
  ultimately show ?thesis unfolding buddy_inv_def by blast
qed

interpretation buddy: page_allocator alloc free buddy_inv pmem "\<lambda>m s. s\<lparr>pmem := m\<rparr>"
proof
  show "region b \<inter> region c = {}" if i: "buddy_inv s A" and bc: "b \<in> A" "c \<in> A" "b \<noteq> c" for s A b c
  proof -
    obtain F B R where r: "buddy_rel s F B R" and A: "A = block_region s ` B"
      using i by (auto simp: buddy_inv_def)
    then obtain b' c' where *: "b = block_region s b'" "c = block_region s c'" "b' \<in> B" "c' \<in> B" "b' \<noteq> c'"
      using bc by blast
    then have "span b' \<inter> span c' = {}"
      using tilingD_disjoint [OF buddy_rel_tiling [OF r], of b' c'] by blast
    then show ?thesis using in_region_page [of _ s] *(1,2) by blast
  qed
  show "k \<le> 12 \<and> 4096 * 2 ^ k dvd a" if i: "buddy_inv s A" and a: "(a, k) \<in> A" for s A a k
  proof -
    obtain F B R j where r: "buddy_rel s F B R" and j: "(j, k) \<in> B" "a = page_addr s j"
      using i a by (auto simp: buddy_inv_def block_region_def)
    have al: "k \<le> 12" "2 ^ k dvd j"
      using tilingD_aligned [OF buddy_rel_tiling [OF r], of "(j, k)"] j by auto
    have "(2::nat) ^ k * 4096 dvd 2 ^ 12 * 4096"
      by (intro mult_dvd_mono pow2_dvd_pow2 al dvd_refl)
    moreover have "2 ^ 12 * 4096 dvd ba_base s" using buddy_rel_geom [OF r] by (simp add: geom_def)
    ultimately have "2 ^ k * 4096 dvd ba_base s" by (rule dvd_trans)
    moreover have "2 ^ k * 4096 dvd j * 4096" using al(2) by (rule mult_dvd_mono) simp
    ultimately have "2 ^ k * 4096 dvd page_addr s j" by (simp add: page_addr_def)
    then show ?thesis using al(1) j(2) by (simp add: mult.commute)
  qed
qed (use buddy_alloc_inv buddy_free_inv buddy_store_inv in simp_all)

end
