(* ===== verification/Mem_Reach.thy ===== *)
theory Mem_Reach
  imports Mem_Props
begin

text \<open>
  Sequences of allocator operations by its clients. A configuration pairs the allocator state with
  the set of blocks handed out; clients allocate, release what they own and write to what they
  own. The theory shows that no operation creates a new pair of free buddies, so that releasing everything
  undoes all splitting, and derives what holds in every reachable configuration.
\<close>

section \<open>Coalescing\<close>

text \<open>The free blocks whose buddy is free, too.\<close>

definition twins :: "block set \<Rightarrow> block set" where
  "twins F = {(i, k). (i, k) \<in> F \<and> k < MAX_ORDER \<and> (i XOR 2 ^ k, k) \<in> F}"

lemma in_twins: "(i, k) \<in> twins F \<longleftrightarrow> (i, k) \<in> F \<and> k < MAX_ORDER \<and> (i XOR 2 ^ k, k) \<in> F"
  by (simp add: twins_def)

lemma coalesced_twins: "coalesced F \<longleftrightarrow> twins F = {}"
  by (auto simp: coalesced_def twins_def)

lemma alloc_twins:
  assumes r: "buddy_rel s F A R" and i: "(i, cur) \<in> F"
    and F': "F' = F - {(i, cur)} \<union> {(i + 2 ^ c, c) | c. k \<le> c \<and> c < cur}"
  shows "twins F' \<subseteq> twins F"
proof -
  note t = buddy_rel_tiling [OF r]
  have d: "2 ^ cur dvd i" using tilingD_aligned [OF t, of "(i, cur)"] i by auto
  have part: "(i + 2 ^ q) XOR 2 ^ q = i" if "q < cur" for q
  proof -
    have "(2::nat) ^ Suc q dvd i" by (rule dvd_trans [OF pow2_dvd_pow2 d]) (use that in simp)
    then have "i XOR 2 ^ q = i + 2 ^ q" using xor_pow2_nat [of q i] by (auto dest: dvd_mult_right)
    then show ?thesis by (metis xor.assoc xor.right_neutral xor_self_eq)
  qed
  have head: "(i, q) \<notin> F'" if "q < cur" for q
  proof
    assume "(i, q) \<in> F'"
    then have "(i, q) \<in> F" using F' pow2_Suc [of q] by auto
    then show False using tilingD_head_unique [OF t, of i q cur] i that by auto
  qed
  show ?thesis
  proof (clarify, unfold in_twins, intro conjI; elim conjE)
    fix x q assume x: "(x, q) \<in> F'" "q < MAX_ORDER" "(x XOR 2 ^ q, q) \<in> F'"
    have old: "(y, q) \<in> F" if "(y, q) \<in> F'" "(y XOR 2 ^ q, q) \<in> F'" for y
      using that F' part [of q] head [of q] by auto
    have "(x XOR 2 ^ q) XOR 2 ^ q = x" by (simp add: xor.assoc)
    then show "(x, q) \<in> F" "(x XOR 2 ^ q, q) \<in> F" using old [of x] old [of "x XOR 2 ^ q"] x by auto
  qed
qed

lemma free_twins:
  assumes s: "F' \<subseteq> F" and n: "k < MAX_ORDER \<longrightarrow> (i XOR 2 ^ k, k) \<notin> F'"
  shows "twins (insert (i, k) F') \<subseteq> twins F"
proof -
  have "(x XOR 2 ^ q) = i \<Longrightarrow> x = i XOR 2 ^ q" for x q
    by (metis xor.assoc xor.right_neutral xor_self_eq)
  then show ?thesis
    using s n xor_pow2_neq [of i k] unfolding twins_def by fastforce
qed

lemma free_coalesced:
  assumes c: "coalesced F" and s: "F' \<subseteq> F" and n: "k < MAX_ORDER \<longrightarrow> (i XOR 2 ^ k, k) \<notin> F'"
  shows "coalesced (insert (i, k) F')"
  using free_twins [OF s n] c by (simp add: coalesced_twins)

text \<open>Aligned blocks that meet are nested, and a block inside a larger one has its buddy there, too.\<close>

lemma in_span_div:
  assumes "2 ^ k dvd i"
  shows "x \<in> span (i, k) \<longleftrightarrow> x div 2 ^ k = i div 2 ^ k"
proof -
  obtain a where a: "i = 2 ^ k * a" using assms by (elim dvdE)
  have "x div 2 ^ k = a \<longleftrightarrow> a \<le> x div 2 ^ k \<and> x div 2 ^ k < Suc a" by auto
  also have "\<dots> \<longleftrightarrow> a * 2 ^ k \<le> x \<and> x < Suc a * 2 ^ k"
    by (simp only: less_eq_div_iff_mult_less_eq div_less_iff_less_mult zero_less_power zero_less_numeral)
  finally show ?thesis unfolding a by (simp add: mult.commute add.commute)
qed

lemma span_nested:
  assumes "2 ^ k dvd i" "2 ^ q dvd j" "q \<le> k" "x \<in> span (i, k)" "x \<in> span (j, q)"
  shows "span (j, q) \<subseteq> span (i, k)"
proof
  fix y assume y: "y \<in> span (j, q)"
  have e: "z div 2 ^ k = z div 2 ^ q div 2 ^ (k - q)" for z :: nat
    using assms(3) by (simp add: div_mult2_eq [symmetric] power_add [symmetric])
  have "y div 2 ^ q = x div 2 ^ q" using y assms(5) by (simp only: in_span_div [OF assms(2)])
  then have "y div 2 ^ k = x div 2 ^ k" unfolding e by simp
  then show "y \<in> span (i, k)" using assms(4) by (simp only: in_span_div [OF assms(1)])
qed

lemma buddy_in_span:
  assumes "2 ^ k dvd i" "q < k" "x \<in> span (i, k)"
  shows "x XOR 2 ^ q \<in> span (i, k)"
proof -
  have "(2::nat) ^ q div 2 ^ k = 0" using assms(2) by simp
  then have "(x XOR 2 ^ q) div 2 ^ k = x div 2 ^ k"
    by (simp only: drop_bit_eq_div [symmetric] drop_bit_xor) simp
  then show ?thesis using assms(3) by (simp only: in_span_div [OF assms(1)])
qed

text \<open>
  If the pages of a block are all free and no two free buddies lie inside it except blocks of a set of
  disjoint blocks it belongs to, a free block contains it.
\<close>

lemma merged_again:
  assumes r0: "buddy_rel s0 F0 {} R" and r: "buddy_rel s F {} R" and sp: "spans F = spans F0" and tw: "twins F \<subseteq> F0"
    and b: "b \<in> F0"
  shows "\<exists>c\<in>F. span b \<subseteq> span c"
proof (rule ccontr)
  assume none: "\<not> (\<exists>c\<in>F. span b \<subseteq> span c)"
  obtain i k where ik: "b = (i, k)" by (cases b)
  note t = buddy_rel_tiling [OF r] and t0 = buddy_rel_tiling [OF r0]
  have N: "2 ^ MAX_ORDER dvd ba_page_count s" using buddy_rel_geom [OF r] by (simp add: geom_def)
  have bd: "2 ^ k dvd i" "k \<le> MAX_ORDER" using tilingD_aligned [OF t0, of "(i, k)"] b ik by auto
  have al: "2 ^ q dvd x" if "(x, q) \<in> F" for x q using tilingD_aligned [OF t, of "(x, q)"] that by auto
  have small: "q < k \<and> span (x, q) \<subseteq> span b" if "(x, q) \<in> F" "y \<in> span (x, q)" "y \<in> span b" for x q y
  proof -
    have "q < k"
    proof (rule ccontr)
      assume "\<not> q < k"
      then have "span b \<subseteq> span (x, q)" unfolding ik by (intro span_nested [OF al [OF that(1)] bd(1)]) (use that ik in auto)
      then show False using none that(1) by blast
    qed
    then show ?thesis using span_nested [OF bd(1) al [OF that(1)]] that(2,3) ik by auto
  qed
  define P where "P q \<longleftrightarrow> (\<exists>x. (x, q) \<in> F \<and> span (x, q) \<subseteq> span b)" for q
  have "i \<in> spans F" unfolding sp using b ik by (auto intro: spansI)
  then obtain x0 q0 where "(x0, q0) \<in> F" "i \<in> span (x0, q0)" unfolding spans_def by auto
  then have "P q0" using small [of x0 q0 i] ik unfolding P_def by auto
  then have m: "P (LEAST q. P q)" by (rule LeastI)
  define q where "q = (LEAST q. P q)"
  obtain x where x: "(x, q) \<in> F" "span (x, q) \<subseteq> span b" using m unfolding q_def P_def by blast
  have xb: "x \<in> span b" using subsetD [OF x(2) span_head] .
  have qk: "q < k" using small [OF x(1) span_head xb] by simp
  let ?y = "x XOR 2 ^ q"
  have yb: "?y \<in> span b" using buddy_in_span [OF bd(1) qk, of x] xb ik by simp
  obtain p where p: "p \<le> q" "(?y, p) \<in> F \<union> ({} \<union> R)"
    using buddy_is_head [OF t _ _ N, of x q] x(1) qk bd(2) by auto
  have "?y \<in> spans F" unfolding sp using yb b by (auto intro: spansI)
  then obtain c where c: "c \<in> F" "?y \<in> span c" unfolding spans_def by auto
  have "(?y, p) = c" by (rule tilingD_disjoint [OF t, of _ _ ?y]) (use p(2) c in auto)
  then have yF: "(?y, p) \<in> F" using c(1) by simp
  then have "P p" using small [OF yF, of ?y] yb unfolding P_def by auto
  then have "q \<le> p" unfolding q_def by (rule Least_le)
  then have "(x, q) \<in> F0" using tw x(1) yF p(1) qk bd(2) by (auto simp: in_twins)
  then have "(x, q) = b" by (intro tilingD_disjoint [OF t0, of _ _ x]) (use b xb in auto)
  then show False using qk ik by simp
qed

text \<open>With nothing handed out and nothing reserved, a coalesced allocator has only top blocks.\<close>

lemma coalesced_top:
  assumes r: "buddy_rel s F {} {}" and c: "coalesced F" and b: "(i, k) \<in> F"
  shows "k = MAX_ORDER"
proof (rule ccontr)
  assume "k \<noteq> MAX_ORDER"
  note t = buddy_rel_tiling [OF r] and g = buddy_rel_geom [OF r]
  have N: "2 ^ MAX_ORDER dvd ba_page_count s" using g by (simp add: geom_def)
  define m where "m = (LEAST q. \<exists>x. (x, q) \<in> F)"
  have ex: "\<exists>q x. (x, q) \<in> F" using b by blast
  obtain x where x: "(x, m) \<in> F" using LeastI_ex [OF ex] by (auto simp: m_def)
  have "m \<le> k" unfolding m_def using b by (intro Least_le) blast
  moreover have "k \<le> MAX_ORDER" using tilingD_aligned [OF t, of "(i, k)"] b by auto
  ultimately have lt: "m < MAX_ORDER" using \<open>k \<noteq> MAX_ORDER\<close> by linarith
  obtain p where p: "p \<le> m" "(x XOR 2 ^ m, p) \<in> F"
    using buddy_is_head [OF t _ lt N, of x] x by auto
  have "m \<le> p" unfolding m_def using p(2) by (intro Least_le) blast
  then show False using c x p lt by (auto simp: coalesced_def)
qed

section \<open>Client steps\<close>

inductive mem_step :: "mm \<times> (nat \<times> nat) set \<Rightarrow> mm \<times> (nat \<times> nat) set \<Rightarrow> bool" where
  step_alloc: "alloc_pages s k = Some (Some a, s') \<Longrightarrow> mem_step (s, A) (s', insert (a, k) A)"
| step_nomem: "alloc_pages s k = Some (None, s') \<Longrightarrow> mem_step (s, A) (s', A)"
| step_free: "(a, k) \<in> A \<Longrightarrow> free_pages s a = Some (r, s') \<Longrightarrow> mem_step (s, A) (s', A - {(a, k)})"
| step_write: "(\<And>x. x \<notin> (\<Union>b\<in>A. region b) \<Longrightarrow> m x = pmem s x) \<Longrightarrow>
    mem_step (s, A) (s\<lparr>pmem := m\<rparr>, A)"

inductive_cases mem_stepE: "mem_step (s, A) (s', A')"

text \<open>
  The invariant of client sequences: the relation to the abstract allocator with the ghost
  reserved blocks fixed, and pairs of free buddies only among the blocks of \<open>Z\<close>.
\<close>

definition mem_inv :: "block set \<Rightarrow> mm \<Rightarrow> block set \<Rightarrow> mm \<times> (nat \<times> nat) set \<Rightarrow> bool" where
  "mem_inv Z s0 R c \<longleftrightarrow> same_geom s0 (fst c) \<and>
     (\<exists>F B. buddy_rel (fst c) F B R \<and> snd c = block_region (fst c) ` B \<and> twins F \<subseteq> Z)"

lemma mem_invE:
  assumes "mem_inv Z s0 R (s, A)"
  obtains F B where "same_geom s0 s" "buddy_rel s F B R" "A = block_region s ` B" "twins F \<subseteq> Z"
  using assms unfolding mem_inv_def by auto

lemma mem_invI:
  "same_geom s0 s \<Longrightarrow> buddy_rel s F B R \<Longrightarrow> A = block_region s ` B \<Longrightarrow> twins F \<subseteq> Z \<Longrightarrow>
   mem_inv Z s0 R (s, A)"
  unfolding mem_inv_def by auto

lemma mem_inv_buddy: "mem_inv Z s0 R (s, A) \<Longrightarrow> buddy_inv s A"
  unfolding mem_inv_def buddy_inv_def by auto

lemma mem_inv_alloc:
  assumes i: "mem_inv Z s0 R (s, A)" and a: "alloc s k = Some (r, s')"
  shows "mem_inv Z s0 R (s', case r of None \<Rightarrow> A | Some a \<Rightarrow> insert (a, k) A)"
proof (cases "k \<le> MAX_ORDER")
  case False
  then show ?thesis using i a by (simp add: alloc_def)
next
  case True
  obtain F B where r: "same_geom s0 s" "buddy_rel s F B R" "A = block_region s ` B" "twins F \<subseteq> Z"
    using i by (rule mem_invE)
  show ?thesis
  proof (cases "\<exists>y q. (y, q) \<in> F \<and> k \<le> q")
    case False
    then have "alloc s k = Some (None, s)"
      by (intro alloc_none_lists [OF r(2) True]) (auto simp: not_le)
    then show ?thesis using i a by simp
  next
    case ex: True
    then obtain y q where yq: "(y, q) \<in> F" "k \<le> q" by blast
    obtain j cur s2 F' where al: "alloc s k = Some (Some (page_addr s j), s2)" "(j, cur) \<in> F"
      "buddy_rel s2 F' (insert (j, k) B) R" "frame_pages s s2 (span (j, cur))"
      "F' = F - {(j, cur)} \<union> {(j + 2 ^ c, c) | c. k \<le> c \<and> c < cur}"
      by (rule alloc_some_relE [OF r(2) True yq]) (rule that; assumption)
    have sg: "same_geom s s2" using al(4) by (simp add: frame_pages_def)
    have "same_geom s0 s2" using r(1) sg by (simp add: same_geom_def)
    moreover have "insert (page_addr s j, k) A = block_region s2 ` insert (j, k) B"
      by (simp add: r(3) same_geom_region [OF sg]) (simp add: block_region_def)
    moreover have "twins F' \<subseteq> Z" using alloc_twins [OF r(2) al(2,5)] r(4) by blast
    ultimately have "mem_inv Z s0 R (s2, insert (page_addr s j, k) A)"
      by (intro mem_invI [OF _ al(3)])
    then show ?thesis using a al(1) by auto
  qed
qed

lemma mem_inv_free:
  assumes i: "mem_inv Z s0 R (s, A)" and a: "(a, k) \<in> A"
  shows "\<exists>s'. free s a = Some (Ok (), s') \<and> mem_inv Z s0 R (s', A - {(a, k)})"
proof -
  obtain F B where r: "same_geom s0 s" "buddy_rel s F B R" "A = block_region s ` B" "twins F \<subseteq> Z"
    using i by (rule mem_invE)
  obtain j where j: "(j, k) \<in> B" "a = page_addr s j"
    using a r(3) by (auto simp: block_region_def)
  obtain s' F' i' k' where f: "free s (page_addr s j) = Some (Ok (), s')"
    "buddy_rel s' (insert (i', k') F') (B - {(j, k)}) R" "F' \<subseteq> F"
    "k' < MAX_ORDER \<longrightarrow> (i' XOR 2 ^ k', k') \<notin> F'" "frame_pages s s' (spans F \<union> span (j, k))"
    by (rule free_relE [OF r(2) j(1)]) (rule that; assumption)
  have sg: "same_geom s s'" using f(5) by (simp add: frame_pages_def)
  have "(a, k) = block_region s (j, k)" using j(2) by (simp add: block_region_def)
  then have "A - {(a, k)} = block_region s' ` (B - {(j, k)})"
    using image_set_diff [OF inj_block_region, of s B "{(j, k)}"] r(3) same_geom_region [OF sg] by simp
  moreover have "same_geom s0 s'" using r(1) sg by (simp add: same_geom_def)
  moreover have "twins (insert (i', k') F') \<subseteq> Z" using free_twins [OF f(3,4)] r(4) by blast
  ultimately have "mem_inv Z s0 R (s', A - {(a, k)})" by (intro mem_invI [OF _ f(2)])
  then show ?thesis using f(1) j(2) by blast
qed

lemma mem_inv_write:
  assumes i: "mem_inv Z s0 R (s, A)" and m: "\<And>x. x \<notin> (\<Union>b\<in>A. region b) \<Longrightarrow> m x = pmem s x"
  shows "mem_inv Z s0 R (s\<lparr>pmem := m\<rparr>, A)"
proof -
  obtain F B where r: "same_geom s0 s" "buddy_rel s F B R" "A = block_region s ` B" "twins F \<subseteq> Z"
    using i by (rule mem_invE)
  have "buddy_rel (s\<lparr>pmem := m\<rparr>) F B R" by (rule buddy_rel_store [OF r(2)]) (use m r(3) in blast)
  moreover have "A = block_region (s\<lparr>pmem := m\<rparr>) ` B"
    by (simp add: r(3) block_region_def page_addr_def)
  ultimately show ?thesis using r by (intro mem_invI) (auto simp: same_geom_def)
qed

lemma mem_step_inv:
  assumes st: "mem_step (s, A) (s', A')" and i: "mem_inv Z s0 R (s, A)"
  shows "mem_inv Z s0 R (s', A')"
  using st
proof (cases)
  case (step_alloc k a)
  then show ?thesis using mem_inv_alloc [OF i, of k "Some a" s'] by (simp add: alloc_pages_def)
next
  case (step_nomem k)
  then show ?thesis using mem_inv_alloc [OF i, of k None s'] by (simp add: alloc_pages_def)
next
  case (step_free a k r)
  then show ?thesis using mem_inv_free [OF i, of a k] by (auto simp: free_pages_def)
next
  case (step_write m)
  then show ?thesis using mem_inv_write [OF i, of m] by simp
qed

lemma mem_reach_inv:
  "mem_step\<^sup>*\<^sup>* c c' \<Longrightarrow> mem_inv Z s0 R c \<Longrightarrow> mem_inv Z s0 R c'"
proof (induction rule: rtranclp_induct)
  case (step y z)
  then show ?case using mem_step_inv by (cases y; cases z) metis
qed

end
