(* ===== verification/Mem_Main.thy ===== *)
theory Mem_Main
  imports Mem_Reach
begin

text \<open>
  The properties of the physical page allocator: refinement of \<^verbatim>\<open>alloc\<close> and \<^verbatim>\<open>free\<close>,
  initialisation, safety of every sequence of client operations, coalescing, the page counter,
  zeroed allocation, and two defects (reserved ranges, double free).
\<close>

section \<open>A concrete allocator\<close>

text \<open>One free 16 MiB block at 0x81000000, used to exhibit the hypotheses of the properties.\<close>

definition demo_mm :: mm where
  "demo_mm = \<lparr>pmem = (\<lambda>_. - 1),
     ba_base = 0x81000000, ba_real_count = 4096, ba_page_count = 4096,
     ba_meta = (\<lambda>i. \<lparr>pm_order = (if i = 0 then 12 else 0), pm_used = False\<rparr>),
     ba_free_lists = (\<lambda>k. if k = 12 then 0 else FREE_NONE)\<rparr>"

lemma demo_load: "unat (load64 (\<lambda>_. - 1) a) = 2 ^ 64 - 1"
proof -
  have "load64 (\<lambda>_. - 1) a = - 1" by (rule bit_word_eqI) (simp add: bit_load64)
  then show ?thesis by (simp add: unsigned_minus_1_eq_mask mask_eq_exp_minus_1)
qed

lemma demo_rel: "buddy_rel demo_mm {(0, 12)} {} {}"
proof (rule buddy_relI)
  let ?fl = "\<lambda>k. if k = (12::nat) then [0] else []"
  have F: "fblocks ?fl = {(0, 12)}" by (auto simp: fblocks_def split: if_splits)
  then show "{(0, 12)} = fblocks ?fl" by simp
  have "chain demo_mm (ba_free_lists demo_mm k) (?fl k)" for k
    by (simp add: demo_mm_def page_addr_def demo_load)
  moreover have "geom demo_mm" by (simp add: geom_def demo_mm_def)
  moreover have "tiling (ba_page_count demo_mm) {(0, 12)}"
    by (simp add: tiling_def spans_def demo_mm_def lessThan_atLeast0 span.simps)
  ultimately show "core demo_mm ?fl ({} \<union> {})" unfolding core_def F by (simp add: demo_mm_def)
qed auto

lemma demo_page_addr [simp]: "page_addr demo_mm 0 = 0x81000000"
  by (simp add: page_addr_def demo_mm_def)

lemma demo_coalesced: "coalesced {(0, 12)}"
  by (simp add: coalesced_def)

section \<open>Refinement of the operations\<close>

text \<open>
  C1. Allocation. Whenever a free block of at least the requested order exists, \<^verbatim>\<open>alloc_pages\<close>
  returns the address of one of the smallest such order; the rest of that block goes back to the
  free lists as one block per lower order, the returned block was not handed out before, and
  only pages of the chosen block are written. Otherwise it returns None and changes nothing. It never panics.
\<close>

theorem alloc_pages_refines:
  assumes "buddy_rel s F A R" and "k \<le> MAX_ORDER"
  shows "if \<exists>i q. (i, q) \<in> F \<and> k \<le> q
    then \<exists>i cur s'. alloc_pages s k = Some (Some (page_addr s i), s') \<and>
      (i, cur) \<in> F \<and> k \<le> cur \<and> (\<forall>q x. k \<le> q \<and> (x, q) \<in> F \<longrightarrow> cur \<le> q) \<and>
      buddy_rel s' (F - {(i, cur)} \<union> {(i + 2 ^ c, c) | c. k \<le> c \<and> c < cur}) (insert (i, k) A) R \<and>
      (i, k) \<notin> A \<and> frame_pages s s' (span (i, cur))
    else alloc_pages s k = Some (None, s)"
proof (cases "\<exists>i q. (i, q) \<in> F \<and> k \<le> q")
  case True
  then obtain y q where yq: "(y, q) \<in> F" "k \<le> q" by blast
  show ?thesis using True alloc_some_rel [OF assms yq] unfolding alloc_pages_def by auto
next
  case False
  then show ?thesis
    using alloc_none_lists [OF assms] by (auto simp: alloc_pages_def not_le)
qed

theorem alloc_pages_refines_witness:
  "\<exists>s'. alloc_pages demo_mm 10 = Some (Some 0x81000000, s') \<and>
     buddy_rel s' {(1024, 10), (2048, 11)} {(0, 10)} {}"
proof -
  have c: "10 \<le> c \<and> c < 12 \<longleftrightarrow> c = 10 \<or> c = 11" for c :: nat by linarith
  have "{(2 ^ c, c) | c. 10 \<le> c \<and> c < 12} = {(1024 :: nat, 10), (2048, 11 :: nat)}"
    unfolding c by auto
  then show ?thesis using alloc_pages_refines [OF demo_rel, of 10] by auto
qed

lemma buddy_rel_spans:
  assumes r: "buddy_rel s F A R"
  shows "spans F = {..<ba_page_count s} - spans (A \<union> R)"
proof -
  have "spans F \<union> spans (A \<union> R) = {..<ba_page_count s}"
    using tilingD_spans [OF buddy_rel_tiling [OF r]] by (simp add: Un_assoc)
  moreover have "spans F \<inter> spans (A \<union> R) = {}"
    using spans_free_disjoint [OF r] unfolding spans_def by blast
  ultimately show ?thesis by blast
qed

lemma buddy_rel_spans_free:
  assumes r: "buddy_rel s F A R" and r': "buddy_rel s' F' (A - {(i, k)}) R" and b: "(i, k) \<in> A"
    and sg: "same_geom s s'"
  shows "spans F' = spans F \<union> span (i, k)"
proof -
  let ?N = "{..<ba_page_count s}"
  note t = buddy_rel_tiling [OF r]
  have "span (i, k) \<inter> spans (A - {(i, k)} \<union> R) = {}"
    using tilingD_disjoint [OF t, of "(i, k)"] b buddy_rel_disjoint_AR [OF r]
    unfolding spans_def by blast
  moreover have "spans (A \<union> R) = span (i, k) \<union> spans (A - {(i, k)} \<union> R)"
    using b unfolding spans_def by blast
  moreover have "span (i, k) \<subseteq> ?N"
    using tilingD_spans [OF t] b unfolding spans_def by blast
  moreover have "spans F' = ?N - spans (A - {(i, k)} \<union> R)"
    using buddy_rel_spans [OF r'] sg by (simp add: same_geom_def)
  ultimately show ?thesis using buddy_rel_spans [OF r] by blast
qed

text \<open>
  C2. Release. Freeing the address of a block handed out succeeds, returns exactly its pages to
  the free lists, leaves the other blocks handed out and the reserved blocks as they are, writes
  only to free pages and to the released block, and keeps the free lists free of unmerged
  buddies.
\<close>

theorem free_pages_refines:
  assumes r: "buddy_rel s F A R" and b: "(i, k) \<in> A"
  shows "\<exists>s' F'. free_pages s (page_addr s i) = Some (Ok (), s') \<and>
     buddy_rel s' F' (A - {(i, k)}) R \<and> spans F' = spans F \<union> span (i, k) \<and>
     (coalesced F \<longrightarrow> coalesced F') \<and> frame_pages s s' (spans F \<union> span (i, k))"
proof -
  obtain s' F' i' k' where f: "free s (page_addr s i) = Some (Ok (), s')"
    "buddy_rel s' (insert (i', k') F') (A - {(i, k)}) R" "F' \<subseteq> F"
    "k' < MAX_ORDER \<longrightarrow> (i' XOR 2 ^ k', k') \<notin> F'" "frame_pages s s' (spans F \<union> span (i, k))"
    by (rule free_relE [OF r b]) (rule that; assumption)
  have sg: "same_geom s s'" using f(5) by (simp add: frame_pages_def)
  show ?thesis
  proof (intro exI conjI impI)
    show "free_pages s (page_addr s i) = Some (Ok (), s')" using f(1) by (simp add: free_pages_def)
    show "spans (insert (i', k') F') = spans F \<union> span (i, k)"
      by (rule buddy_rel_spans_free [OF r f(2) b sg])
    show "coalesced F \<Longrightarrow> coalesced (insert (i', k') F')" by (rule free_coalesced [OF _ f(3,4)])
  qed (use f in blast)+
qed

lemma demo_allocated:
  "\<exists>s1. alloc demo_mm 12 = Some (Some 0x81000000, s1) \<and> buddy_rel s1 {} {(0, 12)} {} \<and> page_addr s1 0 = 0x81000000"
proof -
  obtain i cur s' F' where a: "alloc demo_mm 12 = Some (Some (page_addr demo_mm i), s')"
    "(i, cur) \<in> {(0, 12)}" "buddy_rel s' F' (insert (i, 12) {}) {}"
    "F' = {(0, 12)} - {(i, cur)} \<union> {(i + 2 ^ c, c) | c. 12 \<le> c \<and> c < cur}"
    "frame_pages demo_mm s' (span (i, cur))"
  proof (rule alloc_some_relE [OF demo_rel])
    show "12 \<le> MAX_ORDER" "(0, 12) \<in> {(0::nat, 12::nat)}" "12 \<le> (12::nat)" by simp_all
  qed (rule that; assumption)
  have "i = 0" "cur = 12" using a(2) by auto
  moreover have "page_addr s' 0 = page_addr demo_mm 0"
    using a(5) by (simp add: frame_pages_def same_geom_def page_addr_def)
  moreover have "F' = {}" using a(4) calculation by auto
  ultimately show ?thesis using a(1,3) by auto
qed

theorem free_pages_refines_witness:
  "\<exists>s1 s2 F. alloc demo_mm 12 = Some (Some 0x81000000, s1) \<and>
     free_pages s1 0x81000000 = Some (Ok (), s2) \<and> buddy_rel s2 F {} {} \<and> spans F = span (0, 12)"
proof -
  obtain s1 where s1: "alloc demo_mm 12 = Some (Some 0x81000000, s1)" "buddy_rel s1 {} {(0, 12)} {}"
    "page_addr s1 0 = 0x81000000" using demo_allocated by blast
  show ?thesis using free_pages_refines [OF s1(2), of 0 12] s1(1,3) by auto
qed

text \<open>
  C3. Rejection. An address outside the managed RAM, an address that is not page aligned, the
  head of a free block and the head of a reserved block are all refused by \<^verbatim>\<open>free_pages\<close>,
  without any change of state.
\<close>

theorem free_pages_rejects:
  assumes r: "buddy_rel s F A R"
    and a: "a < ba_base s \<or> ba_base s + ba_real_count s * PAGE_SIZE \<le> a \<or> a mod PAGE_SIZE \<noteq> 0 \<or>
      (\<exists>i k. a = page_addr s i \<and> (i, k) \<in> F \<union> R)"
  shows "free_pages s a = Some (Err (), s)"
proof -
  note g = buddy_rel_geom [OF r]
  obtain fl where fl: "F = fblocks fl" "core s fl (A \<union> R)" using r by (rule buddy_relE)
  have lim: "ba_base s + ba_real_count s * 4096 < 2 ^ 64" using g by (simp add: geom_def)
  have idx: "block_index s (page_addr s i) = Some i" for i
    by (simp add: block_index_def page_addr_def usub_def)
  show ?thesis
  proof (cases "a < ba_base s \<or> ba_base s + ba_real_count s * PAGE_SIZE \<le> a \<or> a mod PAGE_SIZE \<noteq> 0")
    case True
    then show ?thesis using lim by (auto simp: free_pages_def free_def checked_simps)
  next
    case False
    then obtain i k where i: "a = page_addr s i" "(i, k) \<in> F \<union> R" using a by blast
    have ir: "i < ba_real_count s" using False i(1) by (auto simp: page_addr_def)
    then have ip: "i < ba_page_count s" using g by (simp add: geom_def)
    have "MAX_ORDER < pm_order (ba_meta s i) \<or> \<not> pm_used (ba_meta s i)"
      using i(2) fl coreD_free [OF fl(2), of k i] buddy_rel_R [OF r, of i k] ir by auto
    then show ?thesis using lim ip idx [of i] False i(1)
      by (auto simp: free_pages_def free_def checked_simps meta_at_def)
  qed
qed

theorem free_pages_rejects_witness:
  "free_pages demo_mm 0x81000000 = Some (Err (), demo_mm) \<and>
   free_pages demo_mm 0x80000000 = Some (Err (), demo_mm) \<and>
   free_pages demo_mm 0x81000010 = Some (Err (), demo_mm)"
proof (intro conjI)
  show "free_pages demo_mm 0x81000000 = Some (Err (), demo_mm)"
    by (rule free_pages_rejects [OF demo_rel]) (auto intro!: exI [of _ 0] exI [of _ 12])
  show "free_pages demo_mm 0x80000000 = Some (Err (), demo_mm)"
    by (rule free_pages_rejects [OF demo_rel]) (simp add: demo_mm_def)
  show "free_pages demo_mm 0x81000010 = Some (Err (), demo_mm)"
    by (rule free_pages_rejects [OF demo_rel]) simp
qed

section \<open>Initialisation\<close>

abbreviation init_base :: "usize \<Rightarrow> usize" where
  "init_base alloc_start \<equiv> div_ceil alloc_start (2 ^ 24) * 2 ^ 24"

lemma mem_init_eq:
  assumes "alloc_start \<le> 2 ^ 63" "base = init_base alloc_start" "count = (ram_end - base) div PAGE_SIZE"
  shows "mem_init s alloc_start ram_end reserved =
    (if base < ram_end \<and> count \<le> MAX_PAGES
     then ba_init s base count (reserved_pairs base ram_end count (take 8 reserved)) else None)"
    and "base \<le> 2 ^ 63 + 2 ^ 24" and "alloc_start \<le> base"
proof -
  have "div_ceil alloc_start (2 ^ 24) \<le> 2 ^ 39 + 1"
    by (rule div_ceil_least) (use assms(1) in simp_all)
  then show b: "base \<le> 2 ^ 63 + 2 ^ 24" using assms(2) by simp
  show "alloc_start \<le> base" using div_ceil_mult_ge [of "2 ^ 24" alloc_start] assms(2) by simp
  show "mem_init s alloc_start ram_end reserved =
    (if base < ram_end \<and> count \<le> MAX_PAGES
     then ba_init s base count (reserved_pairs base ram_end count (take 8 reserved)) else None)"
    using b assms(2,3) by (simp add: mem_init_def umul_def Let_def require_def)
qed

lemma mem_init_rel:
  assumes a: "alloc_start \<le> 2 ^ 63" and i: "mem_init (mm_static m) alloc_start ram_end reserved = Some s0"
    and base: "base = init_base alloc_start" and count: "count = (ram_end - base) div PAGE_SIZE"
  shows "\<exists>F R. buddy_rel s0 F {} R \<and> ba_base s0 = base \<and> ba_real_count s0 = count \<and>
     spans F = {..<count} - spans {d \<in> R. withheld s0 (reserved_pairs base ram_end count (take 8 reserved)) d} \<and>
     (\<forall>d\<in>R. withheld s0 (reserved_pairs base ram_end count (take 8 reserved)) d \<or> count \<le> fst d)"
proof -
  note e = mem_init_eq [OF a base count]
  let ?res = "reserved_pairs base ram_end count (take 8 reserved)"
  have c: "count \<le> MAX_PAGES" and i': "ba_init (mm_static m) base count ?res = Some s0"
    using i unfolding e(1) [of _ reserved] by (auto split: if_splits)
  have "\<exists>s' F R. ba_init (mm_static m) base count ?res = Some s' \<and> buddy_rel s' F {} R \<and>
     ba_base s' = base \<and> ba_real_count s' = count \<and>
     spans F = {..<count} - spans {d \<in> R. withheld s' ?res d} \<and>
     (\<forall>d\<in>R. withheld s' ?res d \<or> count \<le> fst d)"
    by (rule ba_init_rel) (use base c e(2) in \<open>simp_all add: mm_static_def\<close>)
  then show ?thesis using i' by auto
qed

lemma mem_init_ok:
  assumes a: "alloc_start \<le> 2 ^ 63" and base: "base = init_base alloc_start"
    and ok: "base < ram_end" "(ram_end - base) div PAGE_SIZE \<le> MAX_PAGES"
  shows "\<exists>s0. mem_init (mm_static m) alloc_start ram_end reserved = Some s0"
proof -
  define count where "count = (ram_end - base) div PAGE_SIZE"
  note e = mem_init_eq [OF a base count_def]
  have "\<exists>s' F R. ba_init (mm_static m) base count (reserved_pairs base ram_end count (take 8 reserved)) = Some s' \<and>
      buddy_rel s' F {} R \<and> ba_base s' = base \<and> ba_real_count s' = count \<and>
      spans F = {..<count} - spans {d \<in> R. withheld s' (reserved_pairs base ram_end count (take 8 reserved)) d} \<and>
      (\<forall>d\<in>R. withheld s' (reserved_pairs base ram_end count (take 8 reserved)) d \<or> count \<le> fst d)"
    by (rule ba_init_rel) (use base ok e(2) in \<open>simp_all add: mm_static_def count_def\<close>)
  then show ?thesis using ok unfolding e(1) [of _ reserved] count_def by auto
qed

text \<open>
  Initialisation. \<^verbatim>\<open>mem::init\<close> stops the kernel exactly when no RAM is left above the kernel
  image or when the RAM exceeds the metadata array; otherwise it terminates without a panic in a
  well-formed allocator whose blocks tile the RAM between the 16 MiB boundary above the image
  and the end of RAM, with nothing handed out.
\<close>

theorem mem_init_establishes:
  assumes a: "alloc_start \<le> 2 ^ 63"
    and base: "base = div_ceil alloc_start (2 ^ 24) * 2 ^ 24" and count: "count = (ram_end - base) div PAGE_SIZE"
  shows "if base < ram_end \<and> count \<le> MAX_PAGES
    then \<exists>s0 F R. mem_init (mm_static m) alloc_start ram_end reserved = Some s0 \<and>
      buddy_rel s0 F {} R \<and> ba_base s0 = base \<and> ba_real_count s0 = count \<and> buddy_inv s0 {}
    else mem_init (mm_static m) alloc_start ram_end reserved = None"
proof (cases "base < ram_end \<and> count \<le> MAX_PAGES")
  case True
  then obtain s0 where s0: "mem_init (mm_static m) alloc_start ram_end reserved = Some s0"
    using mem_init_ok [OF a base] count by blast
  show ?thesis using True s0 mem_init_rel [OF a s0 base count] by (auto simp: buddy_inv_def)
next
  case False
  then show ?thesis using mem_init_eq(1) [OF a base count] by auto
qed

theorem mem_init_establishes_witness:
  "\<exists>s0 F R. mem_init (mm_static (\<lambda>_. 0)) 0x80400000 0x88000000 [(0x87e00000, 0x2000)] = Some s0 \<and>
     buddy_rel s0 F {} R \<and> ba_base s0 = 0x81000000 \<and> ba_real_count s0 = 0x7000"
  using mem_init_establishes
    [of "0x80400000" "0x81000000" "0x7000" "0x88000000" "\<lambda>_. 0" "[(0x87e00000, 0x2000)]"]
  by (auto simp: div_ceil_def)

text \<open>
  C5. Reserved ranges are not withheld. \<^verbatim>\<open>carve\<close> sets its overlap flag only for ranges that do not
  contain the block, so a block inside a reserved range is pushed to the free list unless some
  earlier range overlaps it as well. When the reserved ranges are pairwise disjoint (as the
  comment on \<^verbatim>\<open>carve\<close> requires) every page of RAM, the reserved ones included, is free after
  initialisation.
\<close>

theorem mem_init_frees_reserved:
  assumes a: "alloc_start \<le> 2 ^ 63" and i: "mem_init (mm_static m) alloc_start ram_end reserved = Some s0"
    and base: "base = div_ceil alloc_start (2 ^ 24) * 2 ^ 24" and count: "count = (ram_end - base) div PAGE_SIZE"
    and d: "sorted_wrt (\<lambda>(a, b) (c, d). b \<le> c \<or> d \<le> a) (reserved_pairs base ram_end count (take 8 reserved))"
  shows "\<exists>F R. buddy_rel s0 F {} R \<and> spans F = {..<count}"
proof -
  let ?res = "reserved_pairs base ram_end count (take 8 reserved)"
  have "\<not> withheld s0 ?res b" for b
    using carve_scan_disjoint [OF d, of "fst b" "fst b + 2 ^ snd b" False True] pow2_Suc [of "snd b"]
    by (auto simp: withheld_def)
  then show ?thesis using mem_init_rel [OF a i base count] by auto
qed

theorem mem_init_frees_reserved_witness:
  "\<exists>s0 F R. mem_init (mm_static (\<lambda>_. 0)) 0x80400000 0x82000000 [(0x81000000, 0x1000000)] = Some s0 \<and>
     buddy_rel s0 F {} R \<and> spans F = {..<0x1000}"
proof -
  obtain s0 where i: "mem_init (mm_static (\<lambda>_. 0)) 0x80400000 0x82000000 [(0x81000000, 0x1000000)] = Some s0"
    using mem_init_ok [of "0x80400000" "0x81000000" "0x82000000"] by (auto simp: div_ceil_def)
  have "\<exists>F R. buddy_rel s0 F {} R \<and> spans F = {..<0x1000}"
    by (rule mem_init_frees_reserved [OF _ i, of "0x81000000"]) (simp_all add: div_ceil_def Let_def)
  then show ?thesis using i by blast
qed

section \<open>Sequences of client operations\<close>

lemma mem_inv_init:
  assumes "alloc_start \<le> 2 ^ 63" "mem_init (mm_static m) alloc_start ram_end reserved = Some s0"
  shows "\<exists>R. mem_inv UNIV s0 R (s0, {})"
  using mem_init_rel [OF assms refl refl] unfolding mem_inv_def by (auto simp: same_geom_def)

lemma mem_init_geom:
  assumes "alloc_start \<le> 2 ^ 63" "mem_init (mm_static m) alloc_start ram_end reserved = Some s0"
  shows "alloc_start \<le> ba_base s0" "ba_base s0 + ba_real_count s0 * PAGE_SIZE \<le> ram_end"
proof -
  have g: "ba_base s0 = init_base alloc_start" "ba_real_count s0 = (ram_end - ba_base s0) div PAGE_SIZE"
    using mem_init_rel [OF assms refl refl] by auto
  then show "alloc_start \<le> ba_base s0" using mem_init_eq(3) [OF assms(1) refl refl] by simp
  have "ba_base s0 < ram_end"
    using assms(2) unfolding mem_init_eq(1) [OF assms(1) refl refl] g(1) by (auto split: if_splits)
  then show "ba_base s0 + ba_real_count s0 * PAGE_SIZE \<le> ram_end"
    unfolding g(2) using div_times_less_eq_dividend [of "ram_end - ba_base s0" PAGE_SIZE] by linarith
qed

lemma mem_inv_region:
  assumes i: "mem_inv Z s0 R (s, A)" and b: "(a, k) \<in> A"
  shows "region (a, k) \<subseteq> {ba_base s0 ..< ba_base s0 + ba_real_count s0 * PAGE_SIZE}"
proof -
  obtain F B where r: "same_geom s0 s" "buddy_rel s F B R" "A = block_region s ` B"
    using i by (rule mem_invE)
  obtain j where j: "(j, k) \<in> B" "a = page_addr s j" using b r(3) by (auto simp: block_region_def)
  have "(j + 2 ^ k) * 4096 \<le> ba_real_count s * 4096"
    using buddy_rel_A [OF r(2) j(1)] by (intro mult_le_mono1) simp
  then show ?thesis using r(1) j(2) by (auto simp: page_addr_def same_geom_def algebra_simps)
qed

text \<open>
  C6. Safety of every client sequence. From initialisation on, whatever blocks clients allocate,
  release and write to: the blocks handed out never overlap, are aligned to their size and lie
  between the kernel image and the end of RAM; no further allocation and no release of a block
  handed out panics, and the release succeeds.
\<close>

theorem mem_reach_safe:
  assumes a: "alloc_start \<le> 2 ^ 63" and i: "mem_init (mm_static m) alloc_start ram_end reserved = Some s0"
    and reach: "mem_step\<^sup>*\<^sup>* (s0, {}) (s, A)"
  shows "(\<forall>b\<in>A. \<forall>c\<in>A. b \<noteq> c \<longrightarrow> region b \<inter> region c = {}) \<and>
    (\<forall>(p, k)\<in>A. k \<le> MAX_ORDER \<and> 4096 * 2 ^ k dvd p \<and> region (p, k) \<subseteq> {alloc_start ..< ram_end}) \<and>
    (\<forall>k. \<exists>r s'. alloc_pages s k = Some (r, s')) \<and>
    (\<forall>(p, k)\<in>A. \<exists>s'. free_pages s p = Some (Ok (), s'))"
proof -
  obtain R where "mem_inv UNIV s0 R (s0, {})" using mem_inv_init [OF a i] by blast
  then have inv: "mem_inv UNIV s0 R (s, A)" by (rule mem_reach_inv [OF reach])
  note binv = mem_inv_buddy [OF inv]
  have "\<exists>r s'. alloc_pages s k = Some (r, s')" for k
    using buddy.alloc_ok [OF binv, of k] by (cases "k \<le> 12") (auto simp: alloc_pages_def alloc_def)
  moreover have "\<exists>s'. free_pages s p = Some (Ok (), s')" if "(p, k) \<in> A" for p k
    using buddy.free_ok [OF binv that] by (auto simp: free_pages_def)
  moreover have "region (p, k) \<subseteq> {alloc_start ..< ram_end}" if "(p, k) \<in> A" for p k
    using mem_inv_region [OF inv that] mem_init_geom [OF a i] by force
  ultimately show ?thesis
    using buddy.inv_disjoint [OF binv] buddy.inv_aligned [OF binv] by auto
qed

text \<open>The boot of a 16 MiB allocator region without reserved ranges, as a concrete start.\<close>

lemma demo_boot:
  "\<exists>s0. mem_init (mm_static m) 0x80400000 0x82000000 [] = Some s0"
  using mem_init_ok [of "0x80400000" "0x81000000" "0x82000000"] by (simp add: div_ceil_def)

theorem mem_reach_safe_witness:
  "\<exists>s0 s A. mem_init (mm_static (\<lambda>_. 0)) 0x80400000 0x82000000 [] = Some s0 \<and>
     mem_step\<^sup>*\<^sup>* (s0, {}) (s, A) \<and> A \<noteq> {} \<and>
     (\<forall>(p, k)\<in>A. \<exists>s'. free_pages s p = Some (Ok (), s'))"
proof -
  obtain s0 where s0: "mem_init (mm_static (\<lambda>_. 0)) 0x80400000 0x82000000 [] = Some s0"
    using demo_boot by blast
  define count :: nat where "count = (0x82000000 - init_base 0x80400000) div PAGE_SIZE"
  obtain F R where F: "buddy_rel s0 F {} R" "spans F = {..<count}"
    using mem_init_rel [OF _ s0 refl count_def] by (auto simp: withheld_def)
  have "(0::nat) \<in> spans F" unfolding F(2) count_def by (simp add: div_ceil_def)
  then obtain y q where yq: "(y, q) \<in> F" by (auto simp: spans_def)
  obtain i s' where "alloc s0 0 = Some (Some (page_addr s0 i), s')"
    using alloc_some_rel [OF F(1) _ yq, of 0] by auto
  then have st: "mem_step\<^sup>*\<^sup>* (s0, {}) (s', {(page_addr s0 i, 0)})"
    by (intro r_into_rtranclp) (auto intro: step_alloc simp: alloc_pages_def)
  show ?thesis using mem_reach_safe [OF _ s0 st] s0 st by auto
qed

text \<open>
  C7. No fragmentation is left behind. Start from what \<^verbatim>\<open>mem::init\<close> leaves, with any reserved ranges and
  any size of RAM. Once the clients have released all they allocated in between, exactly the pages that were
  free at the start are free, every block that was free at the start lies inside a free block, and two
  buddies are both free only if both were already free blocks, side by side, at the start. In particular,
  if no page is withheld and no two free buddies existed at the start, all free blocks are of the top order.
\<close>

theorem mem_reach_coalesces:
  assumes a: "alloc_start \<le> 2 ^ 63" and i: "mem_init (mm_static m) alloc_start ram_end reserved = Some s0"
    and reach: "mem_step\<^sup>*\<^sup>* (s0, {}) (s, {})"
  shows "\<exists>F0 F R. buddy_rel s0 F0 {} R \<and> buddy_rel s F {} R \<and> spans F = spans F0 \<and>
    (\<forall>b\<in>F0. \<exists>c\<in>F. span b \<subseteq> span c) \<and>
    (\<forall>(i, k)\<in>F. k < MAX_ORDER \<longrightarrow> (i XOR 2 ^ k, k) \<in> F \<longrightarrow> (i, k) \<in> F0 \<and> (i XOR 2 ^ k, k) \<in> F0) \<and>
    (R = {} \<and> coalesced F0 \<longrightarrow> (\<forall>(i, k)\<in>F. k = MAX_ORDER))"
proof -
  obtain F0 R where r: "buddy_rel s0 F0 {} R" using mem_init_rel [OF a i refl refl] by blast
  have "mem_inv (twins F0) s0 R (s0, {})"
    using r unfolding mem_inv_def by (auto simp: same_geom_def)
  then have "mem_inv (twins F0) s0 R (s, {})" by (rule mem_reach_inv [OF reach])
  then obtain F where F: "same_geom s0 s" "buddy_rel s F {} R" "twins F \<subseteq> twins F0"
    by (rule mem_invE) auto
  have sp: "spans F = spans F0"
    using buddy_rel_spans [OF F(2)] buddy_rel_spans [OF r] F(1) by (simp add: same_geom_def)
  have tw: "twins F \<subseteq> F0" using F(3) by (auto simp: in_twins)
  have "\<exists>c\<in>F. span b \<subseteq> span c" if "b \<in> F0" for b by (rule merged_again [OF r F(2) sp tw that])
  moreover have "(i, k) \<in> F0 \<and> (i XOR 2 ^ k, k) \<in> F0" if "(i, k) \<in> F" "k < MAX_ORDER" "(i XOR 2 ^ k, k) \<in> F" for i k
    using subsetD [OF F(3), of "(i, k)"] that by (simp add: in_twins)
  moreover have "k = MAX_ORDER" if "R = {}" "coalesced F0" "(i, k) \<in> F" for i k
    by (rule coalesced_top [of s F]) (use F that in \<open>auto simp: coalesced_twins\<close>)
  ultimately show ?thesis using r F(2) sp by (intro exI [of _ F0] exI [of _ F] exI [of _ R]) auto
qed

theorem mem_reach_coalesces_witness:
  "\<exists>s0 s F0 F R. mem_init (mm_static (\<lambda>_. 0)) 0x80400000 0x82800000 [] = Some s0 \<and>
     (\<exists>a s1. alloc_pages s0 0 = Some (Some a, s1) \<and> free_pages s1 a = Some (Ok (), s)) \<and>
     buddy_rel s0 F0 {} R \<and> buddy_rel s F {} R \<and> spans F = spans F0"
proof -
  obtain s0 where s0: "mem_init (mm_static (\<lambda>_. 0)) 0x80400000 0x82800000 [] = Some s0"
    using mem_init_ok [of "0x80400000" "0x81000000" "0x82800000"] by (auto simp: div_ceil_def)
  define count :: nat where "count = (0x82800000 - init_base 0x80400000) div PAGE_SIZE"
  obtain F R where F: "buddy_rel s0 F {} R" "spans F = {..<count}"
    using mem_init_rel [OF _ s0 refl count_def] by (auto simp: withheld_def)
  have "(0::nat) \<in> spans F" unfolding F(2) count_def by (simp add: div_ceil_def)
  then obtain y q where yq: "(y, q) \<in> F" by (auto simp: spans_def)
  obtain i s1 where al: "alloc s0 0 = Some (Some (page_addr s0 i), s1)"
    using alloc_some_rel [OF F(1) _ yq, of 0] by auto
  let ?a = "page_addr s0 i"
  have st1: "mem_step (s0, {}) (s1, {(?a, 0)})" using al by (intro step_alloc) (simp add: alloc_pages_def)
  have "mem_inv UNIV s0 R (s0, {})" using F(1) unfolding mem_inv_def by (auto simp: same_geom_def)
  then have "mem_inv UNIV s0 R (s1, {(?a, 0)})" by (rule mem_step_inv [OF st1])
  then obtain s where s: "free s1 ?a = Some (Ok (), s)" using mem_inv_free [of UNIV s0 R s1 _ ?a 0] by auto
  have "mem_step (s1, {(?a, 0)}) (s, {(?a, 0)} - {(?a, 0)})"
    by (rule step_free [of _ _ _ _ "Ok ()"]) (use s in \<open>simp_all add: free_pages_def\<close>)
  then have st: "mem_step\<^sup>*\<^sup>* (s0, {}) (s, {})"
    unfolding Diff_cancel by (rule rtranclp.rtrancl_into_rtrancl [OF r_into_rtranclp [of mem_step, OF st1]])
  obtain F0 F1 R1 where "buddy_rel s0 F0 {} R1" "buddy_rel s F1 {} R1" "spans F1 = spans F0"
    using mem_reach_coalesces [OF _ s0 st] by auto
  moreover have "alloc_pages s0 0 = Some (Some ?a, s1)" "free_pages s1 ?a = Some (Ok (), s)"
    using al s by (simp_all add: alloc_pages_def free_pages_def)
  ultimately show ?thesis using s0 by blast
qed

section \<open>Counting and zeroing\<close>

lemma count_list_chain:
  "chain s h xs \<Longrightarrow> geom s \<Longrightarrow> count_list s k h n = Some (n + length xs * 2 ^ k)"
proof (induction xs arbitrary: h n)
  case (Cons x xs)
  have x: "h = x" "x < ba_page_count s" "chain s (unat (load64 (pmem s) (page_addr s x))) xs"
    using Cons.prems(1) by auto
  have "x \<noteq> FREE_NONE" using geom_index_bound [OF Cons.prems(2) x(2)] by simp
  moreover have "read_next s x = Some (unat (load64 (pmem s) (page_addr s x)))"
    by (simp add: read_next_def block_addr_eq [OF Cons.prems(2) x(2)])
  ultimately show ?case
    using Cons.IH [OF x(3) Cons.prems(2)] x(1) by (subst count_list.simps) (simp add: algebra_simps)
qed (subst count_list.simps, simp)

lemma count_orders_core:
  assumes c: "core s fl X" and "\<forall>q\<in>set os. q \<le> MAX_ORDER"
  shows "count_orders s os n = Some (n + (\<Sum>q\<leftarrow>os. length (fl q) * 2 ^ q))"
  using assms(2)
proof (induction os arbitrary: n)
  case (Cons q os)
  then have q: "q \<le> MAX_ORDER" and h: "fl_get s q = Some (ba_free_lists s q)" by (simp_all add: fl_get_def)
  show ?case
    using Cons count_list_chain [OF coreD_chain [OF c q] coreD_geom [OF c], of q n] h by (simp add: add.assoc)
qed simp

lemma card_spans:
  assumes "finite B" "\<And>b c. b \<in> B \<Longrightarrow> c \<in> B \<Longrightarrow> b \<noteq> c \<Longrightarrow> span b \<inter> span c = {}"
  shows "card (spans B) = (\<Sum>b\<in>B. 2 ^ snd b)"
proof -
  have "card (spans B) = (\<Sum>b\<in>B. card (span b))"
    unfolding spans_def by (rule card_UN_disjoint) (use assms in \<open>auto simp: span.simps\<close>)
  also have "\<dots> = (\<Sum>b\<in>B. 2 ^ snd b)" by (rule sum.cong) (auto simp: span.simps)
  finally show ?thesis .
qed

lemma fblocks_Sigma: "fblocks fl = (\<lambda>(q, i). (i, q)) ` (SIGMA q:{..MAX_ORDER}. set (fl q))"
  by (auto simp: fblocks_def image_iff)

lemma core_free_sum:
  assumes c: "core s fl X"
  shows "card (spans (fblocks fl)) = (\<Sum>q\<leftarrow>[0..<Suc MAX_ORDER]. length (fl q) * 2 ^ q)"
proof -
  let ?S = "SIGMA q:{..MAX_ORDER}. set (fl q)"
  have inj: "inj_on (\<lambda>(q, i). (i, q)) ?S" by (auto simp: inj_on_def)
  have fin: "finite (fblocks fl)" unfolding fblocks_Sigma by (intro finite_imageI finite_SigmaI) auto
  have "card (spans (fblocks fl)) = (\<Sum>b\<in>fblocks fl. 2 ^ snd b)"
    by (rule card_spans [OF fin]) (use tilingD_disjoint [OF coreD_tiling [OF c]] in blast)
  also have "\<dots> = (\<Sum>(q, i)\<in>?S. 2 ^ q)"
    unfolding fblocks_Sigma sum.reindex [OF inj] by (rule sum.cong) auto
  also have "\<dots> = (\<Sum>q\<le>MAX_ORDER. \<Sum>i\<in>set (fl q). 2 ^ q)"
    by (subst sum.Sigma) auto
  also have "\<dots> = (\<Sum>q\<le>MAX_ORDER. length (fl q) * 2 ^ q)"
    by (rule sum.cong) (use coreD_distinct [OF c] in \<open>auto simp: distinct_card\<close>)
  also have "\<dots> = (\<Sum>q\<leftarrow>[0..<Suc MAX_ORDER]. length (fl q) * 2 ^ q)"
    unfolding interv_sum_list_conv_sum_set_nat
    by (rule sum.cong) (auto simp del: MAX_ORDER_def simp: atLeast0LessThan)
  finally show ?thesis .
qed

lemma free_page_count_spans:
  assumes r: "buddy_rel s F A R"
  shows "free_page_count s = Some (card (spans F))"
proof -
  obtain fl where fl: "F = fblocks fl" "core s fl (A \<union> R)" using r by (rule buddy_relE)
  have "free_page_count s = Some (0 + (\<Sum>q\<leftarrow>[0..<Suc MAX_ORDER]. length (fl q) * 2 ^ q))"
    unfolding free_page_count_def by (rule count_orders_core [OF fl(2)]) auto
  then show ?thesis using core_free_sum [OF fl(2)] fl(1) by simp
qed

text \<open>
  C8. Accounting. In a well-formed allocator \<^verbatim>\<open>free_page_count\<close> terminates and returns exactly the
  number of pages that belong neither to a block handed out nor to a reserved block.
\<close>

theorem free_page_count_exact:
  assumes r: "buddy_rel s F A R"
  shows "free_page_count s = Some (card ({..<ba_page_count s} - spans (A \<union> R)))"
  using free_page_count_spans [OF r] buddy_rel_spans [OF r] by simp

theorem free_page_count_exact_witness: "free_page_count demo_mm = Some 4096"
proof -
  have "ba_page_count demo_mm = 4096" by (simp add: demo_mm_def)
  then show ?thesis
    using free_page_count_exact [OF demo_rel] by (simp only: Un_empty_left spans_empty Diff_empty card_lessThan)
qed

lemma zero_words_eq: "zero_words m a n = (\<lambda>x. if a \<le> x \<and> x < a + 8 * n then 0 else m x)"
  by (induction n arbitrary: m a) (auto simp: store64_0 fun_eq_iff)

lemma zero_pages_eq:
  "4096 dvd p \<Longrightarrow> zero_pages s p n =
     Some (s\<lparr>pmem := (\<lambda>x. if p \<le> x \<and> x < p + 4096 * n then 0 else pmem s x)\<rparr>)"
proof (induction n arbitrary: s p)
  case 0
  have "(\<lambda>x. if p \<le> x \<and> x < p then 0 else pmem s x) = pmem s" by (rule ext) auto
  then show ?case by simp
next
  case (Suc n)
  have "zero_page s p = Some (s\<lparr>pmem := (\<lambda>x. if p \<le> x \<and> x < p + 4096 then 0 else pmem s x)\<rparr>)"
    using Suc.prems by (simp add: zero_page_def zero_words_eq mod_eq_0_iff_dvd)
  moreover have "4096 dvd p + 4096" using Suc.prems by simp
  ultimately show ?case using Suc.IH [of "p + 4096"] by (auto simp: fun_eq_iff intro!: arg_cong [where f = "\<lambda>m. s\<lparr>pmem := m\<rparr>"])
qed

text \<open>
  Zeroed allocation. A successful \<^verbatim>\<open>alloc_pages_zeroed\<close> hands out a block that overlaps no
  other block handed out, whose bytes are all zero, and leaves the contents of every other block
  handed out unchanged; it never panics.
\<close>

theorem alloc_pages_zeroed_zero:
  assumes i: "buddy_inv s A" and k: "k \<le> MAX_ORDER"
  shows "\<exists>r s'. alloc_pages_zeroed s k = Some (r, s') \<and>
    (case r of None \<Rightarrow> buddy_inv s' A
     | Some a \<Rightarrow> buddy_inv s' (insert (a, k) A) \<and> (\<forall>x\<in>region (a, k). pmem s' x = 0) \<and>
         (\<forall>b\<in>A. region b \<inter> region (a, k) = {} \<and> (\<forall>x\<in>region b. pmem s' x = pmem s x)))"
proof -
  have k12: "k \<le> 12" using k by simp
  obtain r s1 where al: "alloc s k = Some (r, s1)"
    "case r of None \<Rightarrow> buddy_inv s1 A | Some a \<Rightarrow> buddy_inv s1 (insert (a, k) A) \<and> (a, k) \<notin> A"
    using buddy.alloc_ok [OF i k12] by blast
  show ?thesis
  proof (cases r)
    case None
    then show ?thesis using al by (auto simp: alloc_pages_zeroed_def alloc_pages_def)
  next
    case (Some a)
    define m where "m = (\<lambda>x. if a \<le> x \<and> x < a + 4096 * 2 ^ k then 0 else pmem s1 x)"
    note a = al(1) [unfolded Some]
    have "4096 * 2 ^ k dvd a" using al(2) Some buddy.inv_aligned by auto
    then have "4096 dvd a" by (rule dvd_mult_left)
    then have z: "alloc_pages_zeroed s k = Some (Some a, s1\<lparr>pmem := m\<rparr>)"
      using a by (simp add: alloc_pages_zeroed_def alloc_pages_def zero_pages_eq m_def)
    have m: "m x = pmem s1 x" if "x \<notin> region (a, k)" for x using that by (auto simp: m_def)
    show ?thesis
      unfolding z using buddy.alloc_fill [OF i k12 a m] buddy.alloc_fresh(2) [OF i k12 a]
      by (auto simp: m_def)
  qed
qed

theorem alloc_pages_zeroed_zero_witness:
  "\<exists>a s'. alloc_pages_zeroed demo_mm 1 = Some (Some a, s') \<and> (\<forall>x\<in>region (a, 1). pmem s' x = 0)"
proof -
  have inv: "buddy_inv demo_mm {}" using demo_rel by (auto simp: buddy_inv_def)
  obtain a s1 where "alloc demo_mm 1 = Some (Some a, s1)"
    using alloc_some_rel [OF demo_rel, of 1 0 12] by auto
  then have "alloc_pages_zeroed demo_mm 1 \<noteq> Some (None, s)" for s
    by (auto simp: alloc_pages_zeroed_def alloc_pages_def split: Option.bind_splits)
  then show ?thesis
    using alloc_pages_zeroed_zero [OF inv, of 1] by (fastforce split: option.splits)
qed

section \<open>Double release\<close>

lemmas mem_run_simps =
  alloc_pages_def free_pages_def alloc_def free_def alloc_find.simps alloc_split.simps
  free_merge.simps push_def pop_def unlink_def unlink_loop.simps read_next_def write_next_def
  block_addr_def block_index_def fl_get_def fl_set_def meta_at_def meta_put_def
  uadd_def umul_def usub_def require_def Let_def

lemma demo_boot_state:
  "mem_init (mm_static m) 0x80400000 0x82000000 [] =
   Some \<lparr>pmem = store64 m 0x81000000 0xffffffffffffffff, ba_base = 0x81000000, ba_real_count = 4096, ba_page_count = 4096,
     ba_meta = (init_meta (\<lambda>_. \<lparr>pm_order = 0, pm_used = False\<rparr>) 4096 4096)(0 := \<lparr>pm_order = 12, pm_used = False\<rparr>),
     ba_free_lists = (\<lambda>_. FREE_NONE)(12 := 0)\<rparr>"
  by (simp add: mem_init_def ba_init_def mm_static_def div_ceil_def init_full.simps init_tail.simps
      mem_run_simps cong: bind_weak_cong)

text \<open>
  C10. A double release is accepted. \<^verbatim>\<open>free\<close> clears the \<^verbatim>\<open>used\<close> flag only of the head of the merged
  block; when the released block was the upper buddy its own metadata still says \<^verbatim>\<open>used\<close>, so
  releasing it a second time returns Ok. From boot with any RAM contents: two order-11 blocks
  are allocated and released, the upper one once more with success, and then the next order-11 and
  order-12 allocations return overlapping blocks.
\<close>

theorem free_pages_double_free:
  "(do {
      s0 \<leftarrow> mem_init (mm_static m) 0x80400000 0x82000000 [];
      (a, s1) \<leftarrow> alloc_pages s0 11;
      (b, s2) \<leftarrow> alloc_pages s1 11;
      (f1, s3) \<leftarrow> free_pages s2 0x81000000;
      (f2, s4) \<leftarrow> free_pages s3 0x81800000;
      (f3, s5) \<leftarrow> free_pages s4 0x81800000;
      (c, s6) \<leftarrow> alloc_pages s5 11;
      (d, s7) \<leftarrow> alloc_pages s6 12;
      Some ([a, b, c, d], [f1, f2, f3])
    }) = Some ([Some 0x81000000, Some 0x81800000, Some 0x81800000, Some 0x81000000], [Ok (), Ok (), Ok ()]) \<and>
   region (0x81800000, 11) \<subseteq> region (0x81000000, 12)"
  unfolding demo_boot_state
  by (simp add: mem_run_simps init_meta_def cong: bind_weak_cong)

end
