(* ===== verification/Mmu.thy ===== *)
theory Mmu
  imports Mem
begin

text \<open>
  Model of src/kernel/src/mmu.rs: Sv39 page tables in physical memory.

  A table is a 4 KiB page of 512 little-endian 64-bit entries; the code reads and writes them
  through identity-mapped pointers, so the tables live in \<open>pmem\<close>. The TLB flushes have no effect on
  the model. The linker symbols and the board values the kernel mapping reads are the fields of
  the record \<open>layout\<close>.
\<close>

section \<open>Entries\<close>

definition PTE_V :: u64 where "PTE_V = 0x1"
definition PTE_R :: u64 where "PTE_R = 0x2"
definition PTE_W :: u64 where "PTE_W = 0x4"
definition PTE_X :: u64 where "PTE_X = 0x8"
definition PTE_U :: u64 where "PTE_U = 0x10"
definition PTE_A :: u64 where "PTE_A = 0x40"
definition PTE_D :: u64 where "PTE_D = 0x80"
definition PTE_PPN_SHIFT :: nat where [simp]: "PTE_PPN_SHIFT = 10"
definition PTE_PPN_MASK :: u64 where "PTE_PPN_MASK = push_bit 44 1 - 1"
definition SUPER_PAGE :: usize where [simp]: "SUPER_PAGE = 2 * 1024 * 1024"
definition USER_VA_LIMIT :: usize where [simp]: "USER_VA_LIMIT = 2 ^ 38"
definition SATP_MODE_SV39 :: usize where "SATP_MODE_SV39 = 8 * 2 ^ 60"
definition PTE_LEAF_RW :: u64 where "PTE_LEAF_RW = PTE_V OR PTE_R OR PTE_W OR PTE_A OR PTE_D"
definition PTE_LEAF_RX :: u64 where "PTE_LEAF_RX = PTE_V OR PTE_R OR PTE_X OR PTE_A OR PTE_D"
definition PTE_LEAF_R :: u64 where "PTE_LEAF_R = PTE_V OR PTE_R OR PTE_A OR PTE_D"
definition TRAP_STRIDE :: usize where [simp]: "TRAP_STRIDE = 32 * 1024"
definition TRAP_GUARD :: usize where [simp]: "TRAP_GUARD = 16 * 1024"

definition ppn :: "usize \<Rightarrow> u64" where
  "ppn paddr = drop_bit 12 (of_nat paddr) AND PTE_PPN_MASK"

definition pte :: "usize \<Rightarrow> u64 \<Rightarrow> u64" where
  "pte paddr flags = push_bit PTE_PPN_SHIFT (ppn paddr) OR flags"

text \<open>The physical address an entry points to, an expression the code repeats inline.\<close>

definition pte_addr :: "u64 \<Rightarrow> usize" where
  "pte_addr e = unat (push_bit 12 (drop_bit PTE_PPN_SHIFT e AND PTE_PPN_MASK))"

definition pte_valid :: "u64 \<Rightarrow> bool" where
  "pte_valid e \<longleftrightarrow> e AND PTE_V \<noteq> 0"

definition pte_leaf :: "u64 \<Rightarrow> bool" where
  "pte_leaf e \<longleftrightarrow> e AND (PTE_R OR PTE_W OR PTE_X) \<noteq> 0"

definition pte_user :: "u64 \<Rightarrow> bool" where
  "pte_user e \<longleftrightarrow> e AND PTE_U \<noteq> 0"

definition pte_read :: "mm \<Rightarrow> usize \<Rightarrow> nat \<Rightarrow> u64" where
  "pte_read s table idx = load64 (pmem s) (table + 8 * idx)"

definition pte_write :: "mm \<Rightarrow> usize \<Rightarrow> nat \<Rightarrow> u64 \<Rightarrow> mm" where
  "pte_write s table idx v = s\<lparr>pmem := store64 (pmem s) (table + 8 * idx) v\<rparr>"

definition vpn2 :: "usize \<Rightarrow> nat" where "vpn2 vaddr = vaddr div 2 ^ 30 mod 512"
definition vpn1 :: "usize \<Rightarrow> nat" where "vpn1 vaddr = vaddr div 2 ^ 21 mod 512"
definition vpn0 :: "usize \<Rightarrow> nat" where "vpn0 vaddr = vaddr div 2 ^ 12 mod 512"

section \<open>Mapping\<close>

type_synonym 'a mm_result = "(('a, unit) result \<times> mm) outcome"

definition ensure_table :: "mm \<Rightarrow> usize \<Rightarrow> nat \<Rightarrow> usize mm_result" where
  "ensure_table s parent idx =
     (let entry = pte_read s parent idx in
      if pte_valid entry then
        (if pte_leaf entry then Some (Err (), s) else Some (Ok (pte_addr entry), s))
      else qmark (ok_or () (alloc_pages s 0)) (\<lambda>page s1. do {
        s2 \<leftarrow> zero_page s1 page;
        Some (Ok page, pte_write s2 parent idx (pte page PTE_V)) }))"

definition map_4k :: "mm \<Rightarrow> usize \<Rightarrow> usize \<Rightarrow> usize \<Rightarrow> u64 \<Rightarrow> unit mm_result" where
  "map_4k s root vaddr paddr flags =
     qmark (ensure_table s root (vpn2 vaddr)) (\<lambda>l1_t s1.
     qmark (ensure_table s1 l1_t (vpn1 vaddr)) (\<lambda>l0_t s2.
       Some (Ok (), pte_write s2 l0_t (vpn0 vaddr) (pte paddr flags))))"

definition ensure_table_user :: "mm \<Rightarrow> usize \<Rightarrow> nat \<Rightarrow> usize mm_result" where
  "ensure_table_user s parent idx =
     (let entry = pte_read s parent idx in
      if pte_valid entry then
        (if pte_leaf entry then Some (Err (), s) else Some (Ok (pte_addr entry), s))
      else qmark (ok_or () (alloc_pages_zeroed s 0)) (\<lambda>page s1.
        Some (Ok page, pte_write s1 parent idx (pte page PTE_V))))"

text \<open>The common tail of \<^verbatim>\<open>map_user_page\<close> and \<^verbatim>\<open>map_device_page\<close>: walk, refuse to overwrite, write.\<close>

definition map_user_leaf :: "mm \<Rightarrow> usize \<Rightarrow> usize \<Rightarrow> usize \<Rightarrow> u64 \<Rightarrow> unit mm_result" where
  "map_user_leaf s root vaddr paddr flags =
     qmark (ensure_table_user s root (vpn2 vaddr)) (\<lambda>l1_t s1.
     qmark (ensure_table_user s1 l1_t (vpn1 vaddr)) (\<lambda>l0_t s2.
       if pte_valid (pte_read s2 l0_t (vpn0 vaddr)) then Some (Err (), s2)
       else Some (Ok (), pte_write s2 l0_t (vpn0 vaddr) (pte paddr (flags OR PTE_U)))))"

definition map_user_page :: "mm \<Rightarrow> usize \<Rightarrow> usize \<Rightarrow> usize \<Rightarrow> u64 \<Rightarrow> unit mm_result" where
  "map_user_page s root vaddr paddr flags =
     (if USER_VA_LIMIT \<le> vaddr then Some (Err (), s)
      else if paddr mod 4096 \<noteq> 0 then Some (Err (), s)
      else do {
        inr \<leftarrow> page_in_range s paddr;
        if \<not> inr then Some (Err (), s) else map_user_leaf s root vaddr paddr flags })"

definition map_device_page :: "mm \<Rightarrow> usize \<Rightarrow> usize \<Rightarrow> usize \<Rightarrow> u64 \<Rightarrow> unit mm_result" where
  "map_device_page s root vaddr paddr flags =
     (if USER_VA_LIMIT \<le> vaddr \<or> paddr mod 4096 \<noteq> 0 then Some (Err (), s)
      else map_user_leaf s root vaddr paddr flags)"

definition map_super :: "mm \<Rightarrow> usize \<Rightarrow> usize \<Rightarrow> usize \<Rightarrow> u64 \<Rightarrow> unit mm_result" where
  "map_super s root vaddr paddr flags =
     qmark (ensure_table s root (vpn2 vaddr)) (\<lambda>l1_t s1.
       Some (Ok (), pte_write s1 l1_t (vpn1 vaddr) (pte paddr flags)))"

section \<open>Walking\<close>

definition leaf_pte :: "mm \<Rightarrow> usize \<Rightarrow> usize \<Rightarrow> u64" where
  "leaf_pte s root vaddr =
     (let e2 = pte_read s root (vpn2 vaddr) in
      if \<not> pte_valid e2 then 0
      else if pte_leaf e2 then e2
      else
        (let e1 = pte_read s (pte_addr e2) (vpn1 vaddr) in
         if \<not> pte_valid e1 then 0
         else if pte_leaf e1 then e1
         else
           (let e0 = pte_read s (pte_addr e1) (vpn0 vaddr) in
            if \<not> pte_valid e0 then 0 else e0)))"

definition is_mapped :: "mm \<Rightarrow> usize \<Rightarrow> usize \<Rightarrow> bool" where
  "is_mapped s root vaddr = pte_valid (leaf_pte s root vaddr)"

definition unmap_4k :: "mm \<Rightarrow> usize \<Rightarrow> usize \<Rightarrow> unit mm_result" where
  "unmap_4k s root vaddr =
     (if leaf_pte s root vaddr = 0 then Some (Ok (), s)
      else
        qmark (ensure_table s root (vpn2 vaddr)) (\<lambda>l1_t s1.
        qmark (ensure_table s1 l1_t (vpn1 vaddr)) (\<lambda>l0_t s2.
          Some (Ok (), pte_write s2 l0_t (vpn0 vaddr) 0))))"

section \<open>Splitting superpages\<close>

fun split_fill :: "mm \<Rightarrow> usize \<Rightarrow> usize \<Rightarrow> u64 \<Rightarrow> nat \<Rightarrow> nat \<Rightarrow> mm outcome" where
  "split_fill s sub base_pa flags i 0 = Some s"
| "split_fill s sub base_pa flags i (Suc n) = do {
     pa \<leftarrow> uadd base_pa (i * 4096);
     split_fill (pte_write s sub i (pte pa flags)) sub base_pa flags (Suc i) n }"

definition split_superpage :: "mm \<Rightarrow> usize \<Rightarrow> usize \<Rightarrow> unit mm_result" where
  "split_superpage s root vaddr =
     qmark (ensure_table s root (vpn2 vaddr)) (\<lambda>l1_t s1.
       let entry = pte_read s1 l1_t (vpn1 vaddr) in
       if \<not> pte_valid entry then Some (Err (), s1)
       else if \<not> pte_leaf entry then Some (Ok (), s1)
       else
         qmark (ok_or () (alloc_pages s1 0)) (\<lambda>sub s2. do {
           s3 \<leftarrow> zero_page s2 sub;
           let flags = entry AND NOT (push_bit PTE_PPN_SHIFT PTE_PPN_MASK);
           s4 \<leftarrow> split_fill s3 sub (pte_addr entry) flags 0 512;
           Some (Ok (), pte_write s4 l1_t (vpn1 vaddr) (pte sub PTE_V)) }))"

definition unmap_kernel_4k :: "mm \<Rightarrow> usize \<Rightarrow> usize \<Rightarrow> unit mm_result" where
  "unmap_kernel_4k s root vaddr =
     qmark (split_superpage s root vaddr) (\<lambda>_ s1. unmap_4k s1 root vaddr)"

definition map_kernel_4k :: "mm \<Rightarrow> usize \<Rightarrow> usize \<Rightarrow> usize \<Rightarrow> u64 \<Rightarrow> unit mm_result" where
  "map_kernel_4k s root vaddr paddr flags =
     qmark (split_superpage s root vaddr) (\<lambda>_ s1. map_4k s1 root vaddr paddr flags)"

definition remap_kernel_4k :: "mm \<Rightarrow> usize \<Rightarrow> usize \<Rightarrow> unit mm_result" where
  "remap_kernel_4k s root vaddr =
     qmark (map_kernel_4k s root vaddr vaddr PTE_LEAF_RW) (\<lambda>_ s1. Some (Ok (), s1))"

section \<open>The kernel's own mapping\<close>

record layout =
  ly_ram_start :: usize
  ly_ram_end :: usize
  ly_kernel_start :: usize
  ly_text_start :: usize
  ly_rodata_start :: usize
  ly_data_start :: usize
  ly_kernel_end :: usize
  ly_stack_guard :: usize
  ly_trap_base :: usize
  ly_trap_top :: usize
  ly_idle_base :: usize
  ly_idle_top :: usize
  ly_uart_base :: usize

function map_region_4k_from :: "mm \<Rightarrow> usize \<Rightarrow> usize \<Rightarrow> usize \<Rightarrow> u64 \<Rightarrow> mm outcome" where
  "map_region_4k_from s root vaddr e flags =
     (if vaddr < e then do {
        (_, s1) \<leftarrow> expect_ok (map_4k s root vaddr vaddr flags);
        v' \<leftarrow> uadd vaddr 4096;
        map_region_4k_from s1 root v' e flags }
      else Some s)"
  by pat_completeness auto
termination
  by (relation "measure (\<lambda>(s, root, vaddr, e, flags). e - vaddr)") (auto simp: uadd_eq_Some)

definition map_region_4k :: "mm \<Rightarrow> usize \<Rightarrow> usize \<Rightarrow> usize \<Rightarrow> u64 \<Rightarrow> mm outcome" where
  "map_region_4k s root start e flags = do {
     require (start mod 4096 = 0);
     require (e mod 4096 = 0);
     map_region_4k_from s root start e flags }"

function map_supers :: "mm \<Rightarrow> usize \<Rightarrow> usize \<Rightarrow> usize \<Rightarrow> u64 \<Rightarrow> mm outcome" where
  "map_supers s root vaddr e flags =
     (if vaddr < e then do {
        (_, s1) \<leftarrow> expect_ok (map_super s root vaddr vaddr flags);
        v' \<leftarrow> uadd vaddr SUPER_PAGE;
        map_supers s1 root v' e flags }
      else Some s)"
  by pat_completeness auto
termination
  by (relation "measure (\<lambda>(s, root, vaddr, e, flags). e - vaddr)") (auto simp: uadd_eq_Some)

function unmap_guard_slot :: "mm \<Rightarrow> usize \<Rightarrow> usize \<Rightarrow> usize \<Rightarrow> mm outcome" where
  "unmap_guard_slot s root page e =
     (if page < e then do {
        (_, s1) \<leftarrow> expect_ok (unmap_4k s root page);
        p' \<leftarrow> uadd page 4096;
        unmap_guard_slot s1 root p' e }
      else Some s)"
  by pat_completeness auto
termination
  by (relation "measure (\<lambda>(s, root, page, e). e - page)") (auto simp: uadd_eq_Some)

function unmap_guard_pages :: "mm \<Rightarrow> usize \<Rightarrow> usize \<Rightarrow> usize \<Rightarrow> mm outcome" where
  "unmap_guard_pages s root slot end_top =
     (if slot < end_top then do {
        e \<leftarrow> uadd slot TRAP_GUARD;
        s1 \<leftarrow> unmap_guard_slot s root slot e;
        slot' \<leftarrow> uadd slot TRAP_STRIDE;
        unmap_guard_pages s1 root slot' end_top }
      else Some s)"
  by pat_completeness auto
termination
  by (relation "measure (\<lambda>(s, root, slot, end_top). end_top - slot)") (auto simp: uadd_eq_Some)

declare map_region_4k_from.simps [simp del] map_supers.simps [simp del]
declare unmap_guard_slot.simps [simp del] unmap_guard_pages.simps [simp del]

definition map_kernel_region :: "layout \<Rightarrow> mm \<Rightarrow> usize \<Rightarrow> mm outcome" where
  "map_kernel_region ly s root = do {
     require (ly_ram_start ly mod SUPER_PAGE = 0);
     require (ly_ram_end ly mod SUPER_PAGE = 0);
     s \<leftarrow> map_supers s root (ly_ram_start ly) (ly_kernel_start ly) PTE_LEAF_R;
     s \<leftarrow> map_region_4k s root (ly_kernel_start ly) (ly_text_start ly) PTE_LEAF_RW;
     s \<leftarrow> map_region_4k s root (ly_text_start ly) (ly_rodata_start ly) PTE_LEAF_RX;
     s \<leftarrow> map_region_4k s root (ly_rodata_start ly) (ly_data_start ly) PTE_LEAF_R;
     s \<leftarrow> map_region_4k s root (ly_data_start ly) (ly_kernel_end ly) PTE_LEAF_RW;
     kernel_super_end \<leftarrow> umul (div_ceil (ly_kernel_end ly) SUPER_PAGE) SUPER_PAGE;
     s \<leftarrow> (if ly_kernel_end ly < kernel_super_end
           then map_region_4k s root (ly_kernel_end ly) kernel_super_end PTE_LEAF_RW else Some s);
     s \<leftarrow> map_supers s root kernel_super_end (ly_ram_end ly) PTE_LEAF_RW;
     (_, s) \<leftarrow> expect_ok (unmap_4k s root (ly_stack_guard ly));
     s \<leftarrow> unmap_guard_pages s root (ly_trap_base ly) (ly_trap_top ly);
     s \<leftarrow> unmap_guard_pages s root (ly_idle_base ly) (ly_idle_top ly);
     (_, s) \<leftarrow> expect_ok (map_4k s root (ly_uart_base ly) (ly_uart_base ly) PTE_LEAF_RW);
     Some s
   }"

text \<open>\<^verbatim>\<open>init\<close> returns the root it stores in \<^verbatim>\<open>KERNEL_ROOT\<close>; writing satp is \<open>enable\<close>.\<close>

definition satp_of :: "usize \<Rightarrow> usize" where
  "satp_of root = SATP_MODE_SV39 + root div 2 ^ 12"

definition mmu_init :: "layout \<Rightarrow> mm \<Rightarrow> (usize \<times> usize \<times> mm) outcome" where
  "mmu_init ly s = do {
     (root, s) \<leftarrow> expect_ok (ok_or () (alloc_pages s 0));
     s \<leftarrow> zero_page s root;
     s \<leftarrow> map_kernel_region ly s root;
     Some (root, satp_of root, s)
   }"

definition create_user_root :: "layout \<Rightarrow> mm \<Rightarrow> usize mm_result" where
  "create_user_root ly s =
     qmark (ok_or () (alloc_pages s 0)) (\<lambda>root s. do {
       s \<leftarrow> zero_page s root;
       s \<leftarrow> map_kernel_region ly s root;
       Some (Ok root, s) })"

definition switch_root :: "usize \<Rightarrow> usize \<Rightarrow> usize" where
  "switch_root satp root_paddr =
     (let target = satp_of root_paddr in if satp = target then satp else target)"

section \<open>Tearing an address space down\<close>

definition free_expect :: "mm \<Rightarrow> usize \<Rightarrow> mm outcome" where
  "free_expect s pa = do { (_, s1) \<leftarrow> expect_ok (free_pages s pa); Some s1 }"

fun destroy_l0 :: "mm \<Rightarrow> usize \<Rightarrow> nat list \<Rightarrow> mm outcome" where
  "destroy_l0 s l0_t [] = Some s"
| "destroy_l0 s l0_t (l0 # ls) =
     (let e0 = pte_read s l0_t l0 in
      if \<not> pte_valid e0 then destroy_l0 s l0_t ls
      else if pte_user e0 then do {
        inr \<leftarrow> page_in_range s (pte_addr e0);
        s1 \<leftarrow> (if inr then free_expect s (pte_addr e0) else Some s);
        destroy_l0 s1 l0_t ls }
      else destroy_l0 s l0_t ls)"

fun destroy_l1 :: "mm \<Rightarrow> usize \<Rightarrow> nat list \<Rightarrow> mm outcome" where
  "destroy_l1 s l1_t [] = Some s"
| "destroy_l1 s l1_t (l1 # ls) =
     (let e1 = pte_read s l1_t l1 in
      if \<not> pte_valid e1 then destroy_l1 s l1_t ls
      else if pte_leaf e1 then destroy_l1 s l1_t ls
      else do {
        s1 \<leftarrow> destroy_l0 s (pte_addr e1) [0..<512];
        s2 \<leftarrow> free_expect s1 (pte_addr e1);
        destroy_l1 s2 l1_t ls })"

fun destroy_l2 :: "mm \<Rightarrow> usize \<Rightarrow> nat list \<Rightarrow> mm outcome" where
  "destroy_l2 s root_t [] = Some s"
| "destroy_l2 s root_t (l2 # ls) =
     (let e2 = pte_read s root_t l2 in
      if \<not> pte_valid e2 then destroy_l2 s root_t ls
      else if pte_leaf e2 then destroy_l2 s root_t ls
      else do {
        s1 \<leftarrow> destroy_l1 s (pte_addr e2) [0..<512];
        s2 \<leftarrow> free_expect s1 (pte_addr e2);
        destroy_l2 s2 root_t ls })"

definition destroy_root :: "mm \<Rightarrow> usize \<Rightarrow> mm outcome" where
  "destroy_root s root = do { s1 \<leftarrow> destroy_l2 s root [0..<512]; free_expect s1 root }"

end
