(* ===== verification/Mmu_Inv.thy ===== *)
theory Mmu_Inv
  imports Mmu Mem_Main
begin

text \<open>
  Page tables as trees. \<open>node_at\<close> names the table pages of an address space by their position;
  \<open>pt_wf\<close> says that they are pairwise distinct pages handed out by the allocator. The theory shows
  how a write of one entry changes the tree and the leaves it translates to.
\<close>

section \<open>Entries\<close>

lemma bit_u64_of_nat: "bit (of_nat p :: u64) n \<longleftrightarrow> n < 64 \<and> bit p n"
  by (simp add: bit_of_nat_iff)

lemma PTE_PPN_MASK_eq: "PTE_PPN_MASK = mask 44"
  by (simp add: PTE_PPN_MASK_def mask_eq_exp_minus_1)

lemma bit_pte:
  "bit (pte p f) n \<longleftrightarrow> (10 \<le> n \<and> n < 54 \<and> bit p (n + 2)) \<or> bit f n"
  by (auto simp: pte_def ppn_def bit_or_iff bit_push_bit_iff bit_and_iff bit_drop_bit_eq
      PTE_PPN_MASK_eq bit_mask_iff bit_u64_of_nat dest: bit_imp_le_length)

lemma page_aligned_bits:
  fixes p :: nat
  assumes "p mod 4096 = 0" "bit p n"
  shows "12 \<le> n"
proof (rule ccontr)
  assume "\<not> 12 \<le> n"
  moreover have "take_bit 12 p = 0" using assms(1) by (simp add: take_bit_eq_mod)
  ultimately have "\<not> bit p n" by (metis bit_0_eq bit_take_bit_iff bot_apply bot_bool_def not_le)
  then show False using assms(2) by simp
qed

lemma small_bits:
  fixes p :: nat
  assumes "p < 2 ^ k" "bit p n"
  shows "n < k"
proof -
  have "take_bit k p = p" using assms(1) by (simp add: take_bit_nat_eq_self)
  then show ?thesis using assms(2) by (metis bit_take_bit_iff)
qed

lemma pte_addr_pte_gen:
  assumes "p mod 4096 = 0" "p < 2 ^ 56" and f: "\<And>n. bit f n \<Longrightarrow> n < 10 \<or> 54 \<le> n"
  shows "pte_addr (pte p f) = p"
proof -
  have "push_bit 12 (drop_bit 10 (pte p f) AND PTE_PPN_MASK) = (of_nat p :: u64)"
  proof (rule bit_word_eqI)
    fix n assume "n < LENGTH(64)"
    then show "bit (push_bit 12 (drop_bit 10 (pte p f) AND PTE_PPN_MASK)) n \<longleftrightarrow> bit (of_nat p :: u64) n"
      using page_aligned_bits [OF assms(1), of n] small_bits [OF assms(2), of n] f [of "n - 2"]
      by (auto simp: bit_push_bit_iff bit_and_iff bit_drop_bit_eq bit_pte PTE_PPN_MASK_eq bit_mask_iff
          bit_u64_of_nat)
  qed
  then show ?thesis using assms(2) by (simp add: pte_addr_def)
qed

lemma pte_addr_pte:
  assumes "p mod 4096 = 0" "p < 2 ^ 56" "take_bit 10 f = f"
  shows "pte_addr (pte p f) = p"
  by (rule pte_addr_pte_gen [OF assms(1,2)]) (use assms(3) in \<open>metis bit_take_bit_iff\<close>)

lemma pte_addr_less: "pte_addr e < 2 ^ 56"
proof -
  have "push_bit 12 (drop_bit 10 e AND PTE_PPN_MASK) = take_bit 56 (push_bit 12 (drop_bit 10 e AND PTE_PPN_MASK))"
    by (rule bit_word_eqI)
      (auto simp: bit_take_bit_iff bit_push_bit_iff bit_and_iff bit_drop_bit_eq PTE_PPN_MASK_eq bit_mask_iff)
  then have "pte_addr e = take_bit 56 (pte_addr e)"
    unfolding pte_addr_def by (metis PTE_PPN_SHIFT_def unsigned_take_bit_eq)
  then show ?thesis by (metis take_bit_nat_less_exp)
qed

lemma and_bit_test: "(e AND 2 ^ k :: u64) \<noteq> 0 \<longleftrightarrow> bit e k"
proof
  assume "e AND 2 ^ k \<noteq> 0"
  then obtain n where "bit (e AND 2 ^ k) n" using bit_eqI [of "e AND 2 ^ k" 0] by auto
  then show "bit e k" by (auto simp: bit_and_iff bit_exp_iff)
next
  assume "bit e k"
  moreover have "k < 64" using \<open>bit e k\<close> by (auto dest: bit_imp_le_length)
  ultimately have "bit (e AND 2 ^ k) k" by (simp add: bit_and_iff bit_exp_iff)
  then show "e AND 2 ^ k \<noteq> 0" by auto
qed

lemma pte_valid_bit: "pte_valid e \<longleftrightarrow> bit e 0"
  using and_bit_test [of e 0] by (simp add: pte_valid_def PTE_V_def)

lemma pte_user_bit: "pte_user e \<longleftrightarrow> bit e 4"
  using and_bit_test [of e 4] by (simp add: pte_user_def PTE_U_def)

lemma pte_leaf_bit: "pte_leaf e \<longleftrightarrow> bit e 1 \<or> bit e 2 \<or> bit e 3"
proof -
  have f: "PTE_R = 2 ^ 1" "PTE_W = 2 ^ 2" "PTE_X = 2 ^ 3"
    by (simp_all add: PTE_R_def PTE_W_def PTE_X_def)
  have "e AND (2 ^ 1 OR 2 ^ 2 OR 2 ^ 3) = 0 \<longleftrightarrow> e AND 2 ^ 1 = 0 \<and> e AND 2 ^ 2 = 0 \<and> e AND 2 ^ 3 = 0"
    by (simp only: bit.conj_disj_distrib or_eq_0_iff)
  then show ?thesis unfolding pte_leaf_def f using and_bit_test [of e] by metis
qed

lemma pte_flag_bits:
  "n < 10 \<Longrightarrow> bit (pte p f) n \<longleftrightarrow> bit f n"
  by (simp add: bit_pte)

lemma pte_table [simp]: "pte_valid (pte p PTE_V)" "\<not> pte_leaf (pte p PTE_V)"
  by (simp_all add: pte_valid_bit pte_leaf_bit pte_flag_bits PTE_V_def)

lemma take_bit_PTE_V [simp]: "take_bit 10 PTE_V = PTE_V"
  by (simp add: PTE_V_def)

lemma pte_valid_0 [simp]: "\<not> pte_valid 0"
  by (simp add: pte_valid_def)

section \<open>Table trees\<close>

text \<open>An entry and, if it points to a next-level table, the address of that table.\<close>

definition ent :: "mem \<Rightarrow> usize \<Rightarrow> nat \<Rightarrow> u64" where
  "ent m t i = load64 m (t + 8 * i)"

definition tbl :: "mem \<Rightarrow> usize \<Rightarrow> nat \<Rightarrow> usize option" where
  "tbl m t i = (if pte_valid (ent m t i) \<and> \<not> pte_leaf (ent m t i) then Some (pte_addr (ent m t i)) else None)"

datatype node = Root | N1 nat | N0 nat nat

fun node_at :: "mem \<Rightarrow> usize \<Rightarrow> node \<Rightarrow> usize option" where
  "node_at m root Root = Some root"
| "node_at m root (N1 i) = (if i < 512 then tbl m root i else None)"
| "node_at m root (N0 i j) =
     (if i < 512 \<and> j < 512 then Option.bind (tbl m root i) (\<lambda>t. tbl m t j) else None)"

definition pt_wf :: "mem \<Rightarrow> usize \<Rightarrow> (nat \<times> nat) set \<Rightarrow> bool" where
  "pt_wf m root A \<longleftrightarrow>
     (\<forall>x a. node_at m root x = Some a \<longrightarrow> (a, 0) \<in> A) \<and>
     (\<forall>x y a. node_at m root x = Some a \<longrightarrow> node_at m root y = Some a \<longrightarrow> x = y)"

text \<open>The leaf that translates the virtual page with indices \<open>i\<close>, \<open>j\<close>, \<open>k\<close> (0 if there is none).\<close>

definition pt_leaf :: "mem \<Rightarrow> usize \<Rightarrow> nat \<Rightarrow> nat \<Rightarrow> nat \<Rightarrow> u64" where
  "pt_leaf m root i j k =
     (let e2 = ent m root i in
      if \<not> pte_valid e2 then 0 else if pte_leaf e2 then e2
      else (let e1 = ent m (pte_addr e2) j in
        if \<not> pte_valid e1 then 0 else if pte_leaf e1 then e1
        else (let e0 = ent m (pte_addr e1) k in if \<not> pte_valid e0 then 0 else e0)))"

lemma pte_read_ent: "pte_read s t i = ent (pmem s) t i"
  by (simp add: pte_read_def ent_def)

lemma leaf_pte_pt_leaf: "leaf_pte s root v = pt_leaf (pmem s) root (vpn2 v) (vpn1 v) (vpn0 v)"
  by (simp add: leaf_pte_def pt_leaf_def pte_read_ent Let_def)

lemma vpn_bounds [simp]: "vpn2 v < 512" "vpn1 v < 512" "vpn0 v < 512"
  by (simp_all add: vpn2_def vpn1_def vpn0_def)

lemma vpn_eq_iff:
  assumes "v < 2 ^ 39" "w < 2 ^ 39"
  shows "vpn2 v = vpn2 w \<and> vpn1 v = vpn1 w \<and> vpn0 v = vpn0 w \<longleftrightarrow> v div 4096 = w div 4096"
proof -
  have split: "u div 4096 = vpn2 u * 2 ^ 18 + vpn1 u * 2 ^ 9 + vpn0 u" if u: "u < 2 ^ 39" for u
  proof -
    define q r where "q = u div 4096" and "r = q div 512"
    have i: "vpn2 u = r div 512 mod 512" "vpn1 u = r mod 512" "vpn0 u = q mod 512"
      by (simp_all add: vpn2_def vpn1_def vpn0_def r_def q_def div_mult2_eq [symmetric])
    have "r div 512 < 512" using u by (simp add: r_def q_def div_mult2_eq [symmetric] less_mult_imp_div_less)
    then have "r = vpn2 u * 512 + vpn1 u" by (simp add: i)
    moreover have "q = r * 512 + vpn0 u" by (simp add: i r_def)
    ultimately show ?thesis by (simp add: q_def algebra_simps)
  qed
  have idx: "vpn2 u = u div 4096 div 512 div 512 mod 512" "vpn1 u = u div 4096 div 512 mod 512"
    "vpn0 u = u div 4096 mod 512" for u
    by (simp_all add: vpn2_def vpn1_def vpn0_def div_mult2_eq [symmetric])
  show ?thesis
  proof
    assume "vpn2 v = vpn2 w \<and> vpn1 v = vpn1 w \<and> vpn0 v = vpn0 w"
    then show "v div 4096 = w div 4096" unfolding split [OF assms(1)] split [OF assms(2)] by simp
  next
    assume "v div 4096 = w div 4096"
    then show "vpn2 v = vpn2 w \<and> vpn1 v = vpn1 w \<and> vpn0 v = vpn0 w" unfolding idx by simp
  qed
qed

section \<open>Frames and single writes\<close>

definition apart :: "(nat \<times> nat) set \<Rightarrow> bool" where
  "apart A \<longleftrightarrow> (\<forall>b\<in>A. \<forall>c\<in>A. b \<noteq> c \<longrightarrow> region b \<inter> region c = {})"

lemma apartD: "apart A \<Longrightarrow> b \<in> A \<Longrightarrow> c \<in> A \<Longrightarrow> b \<noteq> c \<Longrightarrow> region b \<inter> region c = {}"
  by (simp add: apart_def)

lemma buddy_inv_apart: "buddy_inv s A \<Longrightarrow> apart A"
  using buddy.inv_disjoint by (auto simp: apart_def)

definition same_on :: "mem \<Rightarrow> mem \<Rightarrow> usize \<Rightarrow> bool" where
  "same_on m m' a \<longleftrightarrow> (\<forall>x\<in>region (a, 0). m' x = m x)"

lemma ent_same: "same_on m m' a \<Longrightarrow> i < 512 \<Longrightarrow> ent m' a i = ent m a i"
  unfolding ent_def same_on_def by (rule load64_cong) auto

lemma tbl_same: "same_on m m' a \<Longrightarrow> i < 512 \<Longrightarrow> tbl m' a i = tbl m a i"
  by (simp add: tbl_def ent_same)

lemma node_at_frame:
  assumes "\<And>x a. node_at m root x = Some a \<Longrightarrow> same_on m m' a"
  shows "node_at m' root y = node_at m root y"
proof -
  have r: "tbl m' root i = tbl m root i" if "i < 512" for i
    using tbl_same [OF assms [of Root root]] that by simp
  moreover have "tbl m' t j = tbl m t j" if "i < 512" "tbl m root i = Some t" "j < 512" for i j t
    using tbl_same [OF assms [of "N1 i" t]] that by simp
  ultimately show ?thesis by (cases y) (auto intro: Option.bind_cong)
qed

lemma pt_leaf_cases:
  "pt_leaf m root i j k =
     (case tbl m root i of
        Some t \<Rightarrow>
          (case tbl m t j of
             Some u \<Rightarrow> if pte_valid (ent m u k) then ent m u k else 0
           | None \<Rightarrow> if pte_valid (ent m t j) then ent m t j else 0)
      | None \<Rightarrow> if pte_valid (ent m root i) then ent m root i else 0)"
  by (simp add: pt_leaf_def tbl_def Let_def)

lemma pt_leaf_frame:
  assumes "\<And>x a. node_at m root x = Some a \<Longrightarrow> same_on m m' a" "i < 512" "j < 512" "k < 512"
  shows "pt_leaf m' root i j k = pt_leaf m root i j k"
proof -
  have r: "tbl m' root i = tbl m root i" "ent m' root i = ent m root i"
    using assms(1) [of Root root] assms(2) tbl_same ent_same by auto
  have t: "tbl m' t j = tbl m t j" "ent m' t j = ent m t j" if "tbl m root i = Some t" for t
    using assms(1) [of "N1 i" t] assms(2,3) that tbl_same ent_same by auto
  have u: "ent m' u k = ent m u k" if "tbl m root i = Some t" "tbl m t j = Some u" for t u
    using assms(1) [of "N0 i j" u] assms(2-4) that ent_same by auto
  show ?thesis unfolding pt_leaf_cases using r t u by (auto split: option.splits)
qed

lemma ent_store64:
  assumes "a = b \<or> region (a, 0) \<inter> region (b, 0) = {}" "i < 512" "k < 512"
  shows "ent (store64 m (a + 8 * i) v) b k = (if a = b \<and> i = k then v else ent m b k)"
proof (cases "a = b")
  case True
  have "i = k \<or> i + 1 \<le> k \<or> k + 1 \<le> i" by linarith
  then show ?thesis unfolding ent_def using True by (auto intro!: load64_store64_other)
next
  case False
  then have "\<not> (a \<le> b \<and> b < a + 4096)" "\<not> (b \<le> a \<and> a < b + 4096)"
    using assms(1) by (auto simp: disjoint_iff)
  then have "a + 4096 \<le> b \<or> b + 4096 \<le> a" by linarith
  then show ?thesis using False assms(2,3) unfolding ent_def by auto
qed

lemma tbl_store64:
  assumes "a = b \<or> region (a, 0) \<inter> region (b, 0) = {}" "i < 512" "k < 512" "\<not> (a = b \<and> i = k)"
  shows "tbl (store64 m (a + 8 * i) v) b k = tbl m b k"
  unfolding tbl_def ent_store64 [OF assms(1-3)] using assms(4) by auto

lemma tbl_store64_same:
  assumes "i < 512"
  shows "tbl (store64 m (a + 8 * i) v) a i = (if pte_valid v \<and> \<not> pte_leaf v then Some (pte_addr v) else None)"
  unfolding tbl_def using ent_store64 [of a a i i m v] assms by simp

lemma nodes_sep:
  assumes "pt_wf m root A" "apart A" "node_at m root x = Some a" "node_at m root y = Some b"
  shows "a = b \<or> region (a, 0) \<inter> region (b, 0) = {}"
  using assms apartD [of A "(a, 0)" "(b, 0)"] unfolding pt_wf_def by blast

lemma pt_wf_inj:
  "pt_wf m root A \<Longrightarrow> node_at m root x = Some a \<Longrightarrow> node_at m root y = Some a \<Longrightarrow> x = y"
  unfolding pt_wf_def by blast

lemma pt_wf_owned: "pt_wf m root A \<Longrightarrow> node_at m root x = Some a \<Longrightarrow> (a, 0) \<in> A"
  unfolding pt_wf_def by blast

text \<open>Writing a leaf table entry: the tree stays, one translation changes.\<close>

lemma store_leaf_node:
  assumes w: "pt_wf m root A" "apart A" and x: "node_at m root (N0 i j) = Some a" and k: "k < 512"
  shows "node_at (store64 m (a + 8 * k) v) root = node_at m root"
proof
  fix y
  let ?m = "store64 m (a + 8 * k) v"
  have *: "tbl ?m b l = tbl m b l" if "node_at m root z = Some b" "z \<noteq> N0 i j" "l < 512" for z b l
    using tbl_store64 [OF nodes_sep [OF w x that(1)] k that(3)] pt_wf_inj [OF w(1) x, of z] that by auto
  have r: "tbl ?m root l = tbl m root l" if "l < 512" for l using * [of Root root l] that by simp
  have "tbl ?m t l = tbl m t l" if "p < 512" "tbl m root p = Some t" "l < 512" for p t l
    using * [of "N1 p" t l] that by simp
  then show "node_at ?m root y = node_at m root y"
    using r by (cases y) (auto intro: Option.bind_cong)
qed

lemma store_leaf_pt_leaf:
  assumes w: "pt_wf m root A" "apart A" and x: "node_at m root (N0 i j) = Some a" and k: "k < 512"
    and b: "i' < 512" "j' < 512" "k' < 512"
  shows "pt_leaf (store64 m (a + 8 * k) v) root i' j' k' =
    (if i' = i \<and> j' = j \<and> k' = k then (if pte_valid v then v else 0) else pt_leaf m root i' j' k')"
proof -
  let ?m = "store64 m (a + 8 * k) v"
  have *: "ent ?m b l = ent m b l" if "node_at m root z = Some b" "z \<noteq> N0 i j" "l < 512" for z b l
    using ent_store64 [OF nodes_sep [OF w x that(1)] k that(3), of m v] pt_wf_inj [OF w(1) x, of z] that by auto
  have n: "node_at ?m root = node_at m root" by (rule store_leaf_node [OF w x k])
  have r: "tbl ?m root i' = tbl m root i'" "ent ?m root i' = ent m root i'"
    using n b * [of Root root i'] by (auto dest: fun_cong [of _ _ "N1 i'"])
  show ?thesis
  proof (cases "tbl m root i'")
    case None
    then have "i' \<noteq> i" using x by (auto split: if_splits)
    then show ?thesis unfolding pt_leaf_cases r None by simp
  next
    case t: (Some t)
    have e: "ent ?m t j' = ent m t j'" using * [of "N1 i'" t j'] t b by simp
    then have tb: "tbl ?m t j' = tbl m t j'" by (simp add: tbl_def)
    show ?thesis
    proof (cases "tbl m t j'")
      case None
      then have "\<not> (i' = i \<and> j' = j)" using x t by (auto split: if_splits)
      then show ?thesis unfolding pt_leaf_cases r t option.case e tb None by auto
    next
      case (Some u)
      have u: "node_at m root (N0 i' j') = Some u" using t Some b by simp
      have "ent ?m u k' = (if a = u \<and> k = k' then v else ent m u k')"
        by (rule ent_store64 [OF nodes_sep [OF w x u] k b(3)])
      moreover have "a = u \<longleftrightarrow> i' = i \<and> j' = j" using pt_wf_inj [OF w(1) x, of "N0 i' j'"] u x by auto
      ultimately show ?thesis unfolding pt_leaf_cases r t option.case tb Some by auto
    qed
  qed
qed

text \<open>Linking a fresh zeroed page as a new table: one node is added, no translation changes.\<close>

fun child :: "node \<Rightarrow> nat \<Rightarrow> node" where
  "child Root k = N1 k"
| "child (N1 i) k = N0 i k"
| "child (N0 i j) k = N0 i j"

lemma link_node:
  assumes w: "pt_wf m root A" "apart (insert (p, 0) A)" and x: "node_at m root x = Some a" "x = Root \<or> x = N1 i0"
    and k: "k < 512" "\<not> pte_valid (ent m a k)" and p: "(p, 0) \<notin> A" "\<And>j. j < 512 \<Longrightarrow> ent m p j = 0"
    and v: "pte_valid v" "\<not> pte_leaf v" "pte_addr v = p"
  shows "node_at (store64 m (a + 8 * k) v) root = (node_at m root)(child x k := Some p)" (is ?nodes)
    and "i < 512 \<Longrightarrow> j < 512 \<Longrightarrow> l < 512 \<Longrightarrow>
      pt_leaf (store64 m (a + 8 * k) v) root i j l = pt_leaf m root i j l"
proof -
  let ?m = "store64 m (a + 8 * k) v"
  have ap: "apart A" using w(2) unfolding apart_def by blast
  have e: "ent ?m b n = (if a = b \<and> k = n then v else ent m b n)"
    if "node_at m root z = Some b" "n < 512" for z b n
    by (rule ent_store64 [OF nodes_sep [OF w(1) ap x(1) that(1)] k(1) that(2)])
  have aA: "(a, 0) \<in> A" by (rule pt_wf_owned [OF w(1) x(1)])
  then have np: "a \<noteq> p" using p(1) by auto
  then have "region (a, 0) \<inter> region (p, 0) = {}" by (intro apartD [OF w(2)]) (use aA in auto)
  then have ep: "ent ?m p n = 0" if "n < 512" for n
    using ent_store64 [OF disjI2 k(1) that, of a p m v] p(2) [OF that] np by simp
  then have tp: "tbl ?m p n = None" if "n < 512" for n using that by (simp add: tbl_def)
  have t: "tbl ?m b n = (if a = b \<and> k = n then Some p else tbl m b n)"
    if "node_at m root z = Some b" "n < 512" for z b n
    unfolding tbl_def e [OF that] using v by auto
  have old: "tbl m a k = None" using k(2) by (simp add: tbl_def)
  show ?nodes
  proof
    fix y
    show "node_at ?m root y = ((node_at m root)(child x k := Some p)) y"
    proof (cases x)
      case Root
      then have a: "a = root" using x(1) by simp
      have r: "tbl ?m root n = (if n = k then Some p else tbl m root n)" if "n < 512" for n
        using t [of Root root n] that a by auto
      have "tbl ?m u n = tbl m u n" if "q < 512" "tbl m root q = Some u" "n < 512" for q u n
        using t [of "N1 q" u n] that pt_wf_inj [OF w(1) x(1), of "N1 q"] Root by auto
      then show ?thesis using r tp old k(1) a Root by (cases y) (auto intro: Option.bind_cong)
    next
      case (N1 i)
      then have a: "i < 512" "tbl m root i = Some a" using x(1) by (auto split: if_splits)
      have r: "tbl ?m root n = tbl m root n" if "n < 512" for n
        using t [of Root root n] that pt_wf_inj [OF w(1) x(1), of Root] N1 by auto
      have "tbl ?m u n = (if q = i \<and> n = k then Some p else tbl m u n)"
        if "q < 512" "tbl m root q = Some u" "n < 512" for q u n
        using t [of "N1 q" u n] that pt_wf_inj [OF w(1) x(1), of "N1 q"] N1 a by auto
      then show ?thesis using r k(1) a N1 by (cases y) (auto intro: Option.bind_cong)
    qed (use x(2) in auto)
  qed
  assume b: "i < 512" "j < 512" "l < 512"
  have u: "ent ?m u l = ent m u l" if "tbl m root i = Some q" "tbl m q j = Some u" for q u
    using e [of "N0 i j" u l] that b pt_wf_inj [OF w(1) x(1), of "N0 i j"] x(2) by auto
  show "pt_leaf ?m root i j l = pt_leaf m root i j l"
  proof (cases "tbl m root i")
    case None
    then show ?thesis
      unfolding pt_leaf_cases using t [of Root root i] e [of Root root i] b tp ep k(2) by auto
  next
    case (Some q)
    have "\<not> (a = root \<and> k = i)" using Some old by auto
    then have "tbl ?m root i = Some q" using t [of Root root i] b Some by auto
    then show ?thesis
      unfolding pt_leaf_cases using t [of "N1 i" q j] e [of "N1 i" q j] b Some tp ep k(2) u old
      by (auto split: option.splits)
  qed
qed

lemma link_wf:
  assumes w: "pt_wf m root A" and n: "node_at m' root = (node_at m root)(c := Some p)" and p: "(p, 0) \<notin> A"
  shows "pt_wf m' root (insert (p, 0) A)"
  using w p unfolding pt_wf_def n by (auto split: if_splits)

section \<open>Allocating table pages\<close>

lemma ensure_table_user_eq: "ensure_table_user s parent idx = ensure_table s parent idx"
proof -
  have z: "zero_pages s p (2 ^ 0) = zero_page s p" for s p
    by (cases "zero_page s p") auto
  have "qmark (ok_or () (alloc_pages_zeroed s 0)) f =
      qmark (ok_or () (alloc_pages s 0)) (\<lambda>p s1. do { s2 \<leftarrow> zero_page s1 p; f p s2 })" for f :: "usize \<Rightarrow> mm \<Rightarrow> usize mm_result"
  proof (cases "alloc_pages s 0")
    case (Some rs)
    obtain r s1 where rs: "rs = (r, s1)" by (cases rs)
    show ?thesis
    proof (cases r)
      case (Some p)
      then show ?thesis using \<open>alloc_pages s 0 = Some rs\<close> rs
        by (cases "zero_page s1 p") (auto simp: alloc_pages_zeroed_def z)
    qed (use \<open>alloc_pages s 0 = Some rs\<close> rs in \<open>simp add: alloc_pages_zeroed_def\<close>)
  qed (simp add: alloc_pages_zeroed_def)
  then show ?thesis by (simp add: ensure_table_user_def ensure_table_def Let_def)
qed

text \<open>One zeroed page: what the page tables use of the allocator.\<close>

lemma alloc_zero_page:
  assumes i: "buddy_inv s A" and a: "alloc_pages s 0 = Some (Some p, s1)"
  shows "\<exists>s2. zero_page s1 p = Some s2 \<and> buddy_inv s2 (insert (p, 0) A) \<and> (p, 0) \<notin> A \<and>
    (\<forall>b\<in>A. \<forall>x\<in>region b. pmem s2 x = pmem s x) \<and> (\<forall>j<512. ent (pmem s2) p j = 0)"
proof -
  note a = a [unfolded alloc_pages_def]
  have "buddy_inv s1 (insert (p, 0) A)" "(p, 0) \<notin> A" using buddy.alloc_ok [OF i, of 0] a by auto
  moreover from this have "4096 dvd p" using buddy.inv_aligned [of s1 _ p 0] by auto
  moreover define m where "m = (\<lambda>x. if p \<le> x \<and> x < p + 4096 then 0 else pmem s1 x)"
  ultimately have z: "zero_page s1 p = Some (s1\<lparr>pmem := m\<rparr>)"
    by (simp add: zero_page_def zero_words_eq m_def mod_eq_0_iff_dvd)
  have m: "m x = pmem s1 x" if "x \<notin> region (p, 0)" for x using that by (auto simp: m_def)
  have "ent m p j = 0" if "j < 512" for j
    unfolding ent_def by (rule load64_zero) (use that in \<open>auto simp: m_def\<close>)
  then show ?thesis
    using z \<open>(p, 0) \<notin> A\<close> buddy.alloc_fill [OF i _ a m] by auto
qed

end
