(* ===== verification/Mmu_Correct.thy ===== *)
theory Mmu_Correct
  imports Mmu_Inv
begin

text \<open>
  Functional correctness of the page table operations against the tree view of \<open>Mmu_Inv\<close>:
  mapping, refusing to overwrite, unmapping, splitting a superpage and tearing an address space
  down.
\<close>

section \<open>Geometry\<close>

definition phys_ok :: "mm \<Rightarrow> bool" where
  "phys_ok s \<longleftrightarrow> ba_base s + ba_real_count s * PAGE_SIZE \<le> 2 ^ 56"

lemma buddy_inv_mem_inv: "buddy_inv s A \<Longrightarrow> \<exists>R. mem_inv UNIV s R (s, A)"
  unfolding buddy_inv_def mem_inv_def by (auto simp: same_geom_def)

lemma alloc_geom:
  assumes "buddy_inv s A" "alloc s k = Some (r, s')"
  shows "same_geom s s'"
  using buddy_inv_mem_inv [OF assms(1)] mem_inv_alloc [OF _ assms(2)] unfolding mem_inv_def by fastforce

lemma free_geom:
  assumes "buddy_inv s A" "(a, k) \<in> A" "free s a = Some (r, s')"
  shows "same_geom s s'"
proof -
  obtain R where "mem_inv UNIV s R (s, A)" using buddy_inv_mem_inv [OF assms(1)] by blast
  then show ?thesis using mem_inv_free [OF _ assms(2)] assms(3) unfolding mem_inv_def by fastforce
qed

lemma buddy_inv_region:
  assumes "buddy_inv s A" "(a, k) \<in> A"
  shows "region (a, k) \<subseteq> {ba_base s ..< ba_base s + ba_real_count s * PAGE_SIZE}"
  using buddy_inv_mem_inv [OF assms(1)] mem_inv_region [OF _ assms(2)] by blast

lemma owned_page:
  assumes "buddy_inv s A" "(a, 0) \<in> A" "phys_ok s"
  shows "a mod 4096 = 0" "a < 2 ^ 56" "page_in_range s a = Some True"
proof -
  have r: "a \<in> region (a, 0)" by simp
  then have b: "ba_base s \<le> a" "a < ba_base s + ba_real_count s * 4096"
    using buddy_inv_region [OF assms(1,2)] by auto
  then show "a < 2 ^ 56" using assms(3) by (simp add: phys_ok_def)
  show "a mod 4096 = 0" using buddy.inv_aligned [OF assms(1,2)] by auto
  show "page_in_range s a = Some True"
    using b assms(3) by (simp add: page_in_range_def phys_ok_def umul_def uadd_def)
qed

lemma same_geom_phys: "same_geom s s' \<Longrightarrow> phys_ok s' = phys_ok s"
  by (simp add: same_geom_def phys_ok_def)

section \<open>Extending an address space\<close>

text \<open>
  \<open>pt_ext s A s' A' root\<close>: from \<open>s\<close> to \<open>s'\<close> the address space \<open>root\<close> may have got new table pages,
  but translates as before, and no page handed out other than its own tables has changed.
\<close>

definition pt_ext :: "mm \<Rightarrow> (nat \<times> nat) set \<Rightarrow> mm \<Rightarrow> (nat \<times> nat) set \<Rightarrow> usize \<Rightarrow> bool" where
  "pt_ext s A s' A' root \<longleftrightarrow>
     buddy_inv s' A' \<and> A \<subseteq> A' \<and> pt_wf (pmem s') root A' \<and> same_geom s s' \<and>
     (\<forall>i<512. \<forall>j<512. \<forall>k<512. pt_leaf (pmem s') root i j k = pt_leaf (pmem s) root i j k) \<and>
     (\<forall>x a. node_at (pmem s) root x = Some a \<longrightarrow> node_at (pmem s') root x = Some a) \<and>
     (\<forall>x a. node_at (pmem s') root x = Some a \<longrightarrow> node_at (pmem s) root x = Some a \<or> (a, 0) \<notin> A) \<and>
     (\<forall>b\<in>A. (\<forall>x. node_at (pmem s) root x \<noteq> Some (fst b)) \<longrightarrow> (\<forall>x\<in>region b. pmem s' x = pmem s x)) \<and>
     (\<forall>b\<in>A'. b \<in> A \<or> snd b = 0 \<and> (\<exists>x. node_at (pmem s') root x = Some (fst b)))"

lemma pt_ext_refl: "buddy_inv s A \<Longrightarrow> pt_wf (pmem s) root A \<Longrightarrow> pt_ext s A s A root"
  by (simp add: pt_ext_def same_geom_def)

lemma pt_extD:
  assumes "pt_ext s A s' A' root"
  shows "buddy_inv s' A'" "A \<subseteq> A'" "pt_wf (pmem s') root A'" "same_geom s s'"
    and "\<And>i j k. i < 512 \<Longrightarrow> j < 512 \<Longrightarrow> k < 512 \<Longrightarrow> pt_leaf (pmem s') root i j k = pt_leaf (pmem s) root i j k"
    and "\<And>x a. node_at (pmem s) root x = Some a \<Longrightarrow> node_at (pmem s') root x = Some a"
    and "\<And>x a. node_at (pmem s') root x = Some a \<Longrightarrow> (a, 0) \<in> A \<Longrightarrow> node_at (pmem s) root x = Some a"
    and "\<And>b x. b \<in> A \<Longrightarrow> (\<And>x. node_at (pmem s) root x \<noteq> Some (fst b)) \<Longrightarrow> x \<in> region b \<Longrightarrow> pmem s' x = pmem s x"
    and "\<And>b. b \<in> A' \<Longrightarrow> b \<in> A \<or> snd b = 0 \<and> (\<exists>x. node_at (pmem s') root x = Some (fst b))"
  using assms unfolding pt_ext_def by simp_all blast

lemma pt_extI:
  assumes "buddy_inv s' A'" "A \<subseteq> A'" "pt_wf (pmem s') root A'" "same_geom s s'"
    and "\<And>i j k. i < 512 \<Longrightarrow> j < 512 \<Longrightarrow> k < 512 \<Longrightarrow> pt_leaf (pmem s') root i j k = pt_leaf (pmem s) root i j k"
    and "\<And>x a. node_at (pmem s) root x = Some a \<Longrightarrow> node_at (pmem s') root x = Some a"
    and "\<And>x a. node_at (pmem s') root x = Some a \<Longrightarrow> (a, 0) \<in> A \<Longrightarrow> node_at (pmem s) root x = Some a"
    and "\<And>b x. b \<in> A \<Longrightarrow> (\<And>x. node_at (pmem s) root x \<noteq> Some (fst b)) \<Longrightarrow> x \<in> region b \<Longrightarrow> pmem s' x = pmem s x"
    and "\<And>b. b \<in> A' \<Longrightarrow> b \<in> A \<or> snd b = 0 \<and> (\<exists>x. node_at (pmem s') root x = Some (fst b))"
  shows "pt_ext s A s' A' root"
  unfolding pt_ext_def
proof (intro conjI allI impI ballI)
  show "node_at (pmem s) root x = Some a \<or> (a, 0) \<notin> A" if "node_at (pmem s') root x = Some a" for x a
    using assms(7) [OF that] by blast
qed (use assms in blast)+

lemma fresh_node_apart:
  assumes e: "pt_ext s A s' A' root" and b: "b \<in> A" "\<And>y. node_at (pmem s) root y \<noteq> Some (fst b)"
  shows "node_at (pmem s') root y \<noteq> Some (fst b)"
proof
  note d = pt_extD [OF e]
  assume y: "node_at (pmem s') root y = Some (fst b)"
  then have n: "(fst b, 0) \<notin> A" using d(7) b(2) by blast
  have in': "(fst b, 0) \<in> A'" "b \<in> A'" using pt_wf_owned [OF d(3) y] d(2) b(1) by auto
  have "b \<noteq> (fst b, 0)" using n b(1) by auto
  then have "region b \<inter> region (fst b, 0) = {}" by (rule apartD [OF buddy_inv_apart [OF d(1)] in'(2,1)])
  moreover have "fst b \<in> region b \<inter> region (fst b, 0)" by (cases b) simp
  ultimately show False by simp
qed

lemma pt_ext_trans:
  assumes e: "pt_ext s A s' A' root" and e': "pt_ext s' A' s'' A'' root"
  shows "pt_ext s A s'' A'' root"
proof -
  note d = pt_extD [OF e] and d' = pt_extD [OF e']
  show ?thesis
  proof (rule pt_extI)
    show "A \<subseteq> A''" using d(2) d'(2) by blast
    show "same_geom s s''" using d(4) d'(4) by (simp add: same_geom_def)
    show "pt_leaf (pmem s'') root i j k = pt_leaf (pmem s) root i j k" if "i < 512" "j < 512" "k < 512" for i j k
      using d(5) [OF that] d'(5) [OF that] by simp
    show "node_at (pmem s'') root x = Some a" if "node_at (pmem s) root x = Some a" for x a
      by (rule d'(6) [OF d(6) [OF that]])
    show "node_at (pmem s) root x = Some a" if x: "node_at (pmem s'') root x = Some a" and a: "(a, 0) \<in> A" for x a
      by (rule d(7) [OF d'(7) [OF x] a]) (use a d(2) in blast)
    show "pmem s'' x = pmem s x"
      if b: "b \<in> A" "\<And>y. node_at (pmem s) root y \<noteq> Some (fst b)" and x: "x \<in> region b" for b x
    proof -
      have "pmem s'' x = pmem s' x" by (rule d'(8)) (use d(2) b fresh_node_apart [OF e b] x in auto)
      then show ?thesis using d(8) [OF b x] by simp
    qed
    show "b \<in> A \<or> snd b = 0 \<and> (\<exists>x. node_at (pmem s'') root x = Some (fst b))" if "b \<in> A''" for b
      using d'(9) [OF that] d(9) [of b] d'(6) by blast
  qed (rule d')+
qed

lemma pt_ext_nomem:
  assumes i: "buddy_inv s A" and w: "pt_wf (pmem s) root A" and a: "alloc_pages s 0 = Some (None, s')"
  shows "pt_ext s A s' A root"
proof -
  have *: "buddy_inv s' A" "\<forall>b\<in>A. \<forall>x\<in>region b. pmem s' x = pmem s x"
    using buddy.alloc_ok [OF i, of 0] a by (auto simp: alloc_pages_def)
  have f: "same_on (pmem s) (pmem s') b" if "node_at (pmem s) root x = Some b" for x b
    using *(2) pt_wf_owned [OF w that] by (auto simp: same_on_def)
  have n: "node_at (pmem s') root x = node_at (pmem s) root x" for x by (rule node_at_frame [OF f])
  show ?thesis
    using * w n pt_leaf_frame [OF f] alloc_geom [OF i] a
    unfolding pt_ext_def pt_wf_def alloc_pages_def by simp
qed

lemma pte_write_pmem [simp]: "pmem (pte_write s t i v) = store64 (pmem s) (t + 8 * i) v"
  by (simp add: pte_write_def)

lemma pte_write_geom [simp]: "same_geom s (pte_write s' t i v) = same_geom s s'"
  by (simp add: pte_write_def same_geom_def)

text \<open>Writing inside a page that is handed out keeps the allocator well-formed.\<close>

lemma pte_write_inv:
  assumes i: "buddy_inv s A" and a: "(t, 0) \<in> A" and k: "k < 512"
  shows "buddy_inv (pte_write s t k v) A"
proof -
  have "buddy_inv (s\<lparr>pmem := store64 (pmem s) (t + 8 * k) v\<rparr>) A"
  proof (rule buddy.inv_store [OF i])
    fix x assume "x \<notin> (\<Union>b\<in>A. region b)"
    then have "x \<notin> region (t, 0)" using a by blast
    then show "store64 (pmem s) (t + 8 * k) v x = pmem s x" by (rule_tac store64_other) (use k in auto)
  qed
  then show ?thesis by (simp add: pte_write_def)
qed

lemma pte_write_frame:
  assumes ap: "apart A" and t: "(t, 0) \<in> A" and k: "k < 512" and b: "b \<in> A" "b \<noteq> (t, 0)" and x: "x \<in> region b"
  shows "store64 m (t + 8 * k) v x = m x"
proof -
  have "x \<notin> region (t, 0)" using apartD [OF ap b(1) t b(2)] x by blast
  then show ?thesis by (rule_tac store64_other) (use k in auto)
qed

lemma ensure_table_fresh:
  assumes i: "buddy_inv s A" "phys_ok s" and w: "pt_wf (pmem s) root A"
    and x: "node_at (pmem s) root x = Some t" "x = Root \<or> x = N1 i0" and k: "k < 512" "\<not> pte_valid (pte_read s t k)"
    and a: "alloc_pages s 0 = Some (Some p, s1)"
  shows "\<exists>s' A'. ensure_table s t k = Some (Ok p, s') \<and> pt_ext s A s' A' root \<and>
    node_at (pmem s') root (child x k) = Some p"
proof -
  obtain s2 where s2: "zero_page s1 p = Some s2" "buddy_inv s2 (insert (p, 0) A)" "(p, 0) \<notin> A"
    "\<forall>b\<in>A. \<forall>x\<in>region b. pmem s2 x = pmem s x" "\<forall>j<512. ent (pmem s2) p j = 0"
    using alloc_zero_page [OF i(1) a] by blast
  let ?s = "pte_write s2 t k (pte p PTE_V)"
  have f: "same_on (pmem s) (pmem s2) b" if "node_at (pmem s) root y = Some b" for y b
    using s2(4) pt_wf_owned [OF w that] by (auto simp: same_on_def)
  have n: "node_at (pmem s2) root = node_at (pmem s) root" by (rule ext) (rule node_at_frame [OF f])
  have w2: "pt_wf (pmem s2) root A" using w unfolding pt_wf_def n .
  have t: "(t, 0) \<in> A" by (rule pt_wf_owned [OF w x(1)])
  have e: "\<not> pte_valid (ent (pmem s2) t k)" using ent_same [OF f [OF x(1)] k(1)] k(2) by (simp add: pte_read_ent)
  have g: "same_geom s s2" using alloc_geom [OF i(1)] a s2(1)
    by (auto simp: alloc_pages_def zero_page_def same_geom_def bind_eq_Some_conv)
  have p: "pte_addr (pte p PTE_V) = p"
    using owned_page [OF s2(2), of p] i(2) same_geom_phys [OF g] by (intro pte_addr_pte) auto
  note ap = buddy_inv_apart [OF s2(2)]
  have link: "node_at (pmem ?s) root = (node_at (pmem s2) root)(child x k := Some p)"
    using link_node(1) [OF w2 ap _ x(2) k(1) e s2(3)] s2(5) p x(1) n by simp
  have leaf: "pt_leaf (pmem ?s) root i j l = pt_leaf (pmem s2) root i j l"
    if "i < 512" "j < 512" "l < 512" for i j l
    using link_node(2) [OF w2 ap _ x(2) k(1) e s2(3) _ _ _ _ that] s2(5) p x(1) n by simp
  have none: "node_at (pmem s) root (child x k) = None"
    using x k e n unfolding n [symmetric] by (auto simp: tbl_def split: if_splits)
  have "pt_ext s A ?s (insert (p, 0) A) root"
  proof (rule pt_extI)
    show "buddy_inv ?s (insert (p, 0) A)" by (rule pte_write_inv [OF s2(2) _ k(1)]) (use t in simp)
    show "pt_wf (pmem ?s) root (insert (p, 0) A)" by (rule link_wf [OF w2 link s2(3)])
    show "same_geom s ?s" using g by simp
    show "pt_leaf (pmem ?s) root i j l = pt_leaf (pmem s) root i j l" if "i < 512" "j < 512" "l < 512" for i j l
      using leaf [OF that] pt_leaf_frame [OF f that] by simp
    show "node_at (pmem ?s) root y = Some b" if "node_at (pmem s) root y = Some b" for y b
      using that none unfolding link n by auto
    show "node_at (pmem s) root y = Some b" if "node_at (pmem ?s) root y = Some b" "(b, 0) \<in> A" for y b
      using that s2(3) unfolding link n by (auto split: if_splits)
    show "pmem ?s y = pmem s y"
      if b: "b \<in> A" "\<And>y. node_at (pmem s) root y \<noteq> Some (fst b)" and y: "y \<in> region b" for b y
    proof -
      have "b \<noteq> (t, 0)" using b(2) [of x] x(1) by auto
      then have "pmem ?s y = pmem s2 y" using pte_write_frame [OF ap _ k(1) _ _ y] t b(1) by simp
      then show ?thesis using s2(4) b(1) y by simp
    qed
    show "b \<in> A \<or> snd b = 0 \<and> (\<exists>y. node_at (pmem ?s) root y = Some (fst b))" if "b \<in> insert (p, 0) A" for b
      using that unfolding link by auto
  qed auto
  moreover have "ensure_table s t k = Some (Ok p, ?s)"
    using k(2) a s2(1) by (simp add: ensure_table_def)
  moreover have "node_at (pmem ?s) root (child x k) = Some p" unfolding link by simp
  ultimately show ?thesis by blast
qed

lemma alloc_none_full:
  assumes i: "buddy_inv s A" and a: "alloc_pages s 0 = Some (None, s')"
  shows "free_page_count s' = Some 0"
proof -
  obtain F B R where r: "buddy_rel s F B R" using i by (auto simp: buddy_inv_def)
  have "F = {}"
  proof (rule ccontr)
    assume "F \<noteq> {}"
    then obtain y q where yq: "(y, q) \<in> F" by fastforce
    show False using alloc_some_rel [OF r _ yq, of 0] a by (auto simp: alloc_pages_def)
  qed
  moreover from this have "s' = s" using alloc_none_lists [OF r, of 0] a by (simp add: alloc_pages_def)
  ultimately show ?thesis using free_page_count_spans [OF r] by simp
qed

lemma ensure_table_ok:
  assumes i: "buddy_inv s A" "phys_ok s" and w: "pt_wf (pmem s) root A"
    and x: "node_at (pmem s) root x = Some t" "x = Root \<or> x = N1 i0" and k: "k < 512"
  obtains r s' A' where "ensure_table s t k = Some (r, s')" "pt_ext s A s' A' root"
    "\<And>u. r = Ok u \<Longrightarrow> node_at (pmem s') root (child x k) = Some u"
    "r = Err () \<Longrightarrow> pte_valid (ent (pmem s) t k) \<and> pte_leaf (ent (pmem s) t k) \<or> free_page_count s' = Some 0"
proof (cases "pte_valid (pte_read s t k)")
  case True
  show ?thesis
  proof (cases "pte_leaf (pte_read s t k)")
    case leaf: True
    show ?thesis
      by (rule that [of "Err ()" s A]) (use True leaf pt_ext_refl [OF i(1) w] in \<open>auto simp: ensure_table_def pte_read_ent\<close>)
  next
    case False
    have "node_at (pmem s) root (child x k) = Some (pte_addr (pte_read s t k))"
      using True False x k by (auto simp: tbl_def pte_read_ent split: if_splits)
    then show ?thesis
      by (intro that [of "Ok (pte_addr (pte_read s t k))" s A])
        (use True False pt_ext_refl [OF i(1) w] in \<open>auto simp: ensure_table_def\<close>)
  qed
next
  case False
  obtain r s1 where a: "alloc_pages s 0 = Some (r, s1)"
    using buddy.alloc_ok [OF i(1), of 0] by (auto simp: alloc_pages_def)
  show ?thesis
  proof (cases r)
    case None
    then show ?thesis using False a
      by (intro that [of "Err ()" s1 A] pt_ext_nomem [OF i(1) w])
        (auto simp: ensure_table_def intro!: alloc_none_full [OF i(1)])
  next
    case (Some p)
    then obtain s' A' where "ensure_table s t k = Some (Ok p, s')" "pt_ext s A s' A' root"
      "node_at (pmem s') root (child x k) = Some p"
      using ensure_table_fresh [OF i w x k False, of p s1] a by blast
    then show ?thesis by (intro that [of "Ok p" s' A']) auto
  qed
qed

section \<open>Mapping a user page\<close>

lemma valid_nonzero: "pte_valid e \<Longrightarrow> e \<noteq> 0"
  by auto

lemma pt_leaf_N0:
  assumes "node_at m root (N0 i j) = Some u"
  shows "pt_leaf m root i j k = (if pte_valid (ent m u k) then ent m u k else 0)"
  using assms by (auto simp: pt_leaf_cases split: if_splits option.splits)

lemma pt_leaf_on_path:
  assumes "node_at m root x = Some t" "x = Root \<and> n = i \<or> x = N1 i \<and> n = j" "pte_valid (ent m t n)" "pte_leaf (ent m t n)"
  shows "pt_leaf m root i j k = ent m t n"
  using assms by (auto simp: pt_leaf_cases tbl_def split: if_splits)

text \<open>The write of a leaf entry, as a change of the address space.\<close>

definition leaf_set :: "mm \<Rightarrow> (nat \<times> nat) set \<Rightarrow> mm \<Rightarrow> (nat \<times> nat) set \<Rightarrow> usize \<Rightarrow> usize \<Rightarrow> u64 \<Rightarrow> bool" where
  "leaf_set s A s' A' root vaddr e \<longleftrightarrow>
     buddy_inv s' A' \<and> A \<subseteq> A' \<and> pt_wf (pmem s') root A' \<and> same_geom s s' \<and>
     (\<forall>w<2 ^ 39. leaf_pte s' root w = (if w div 4096 = vaddr div 4096 then e else leaf_pte s root w)) \<and>
     (\<forall>b\<in>A. (\<forall>x. node_at (pmem s) root x \<noteq> Some (fst b)) \<longrightarrow>
        (\<forall>x\<in>region b. pmem s' x = pmem s x) \<and> (\<forall>x. node_at (pmem s') root x \<noteq> Some (fst b))) \<and>
     (\<forall>b\<in>A'. b \<in> A \<or> snd b = 0 \<and> (\<exists>x. node_at (pmem s') root x = Some (fst b))) \<and>
     (\<forall>x a. node_at (pmem s) root x = Some a \<longrightarrow> node_at (pmem s') root x = Some a) \<and>
     node_at (pmem s') root (N0 (vpn2 vaddr) (vpn1 vaddr)) \<noteq> None"

lemma leaf_setI:
  assumes e: "pt_ext s A s2 A2 root" and n: "node_at (pmem s2) root (N0 (vpn2 v) (vpn1 v)) = Some u"
    and v: "v < 2 ^ 39"
  shows "leaf_set s A (pte_write s2 u (vpn0 v) p) A2 root v (if pte_valid p then p else 0)"
proof -
  note d = pt_extD [OF e]
  note ap = buddy_inv_apart [OF d(1)]
  let ?s = "pte_write s2 u (vpn0 v) p"
  have u: "(u, 0) \<in> A2" by (rule pt_wf_owned [OF d(3) n])
  have wf: "pt_wf (pmem ?s) root A2"
    using d(3) unfolding pt_wf_def pte_write_pmem store_leaf_node [OF d(3) ap n vpn_bounds(3)] .
  have "leaf_pte ?s root w = (if w div 4096 = v div 4096 then if pte_valid p then p else 0 else leaf_pte s root w)"
    if "w < 2 ^ 39" for w
    unfolding leaf_pte_pt_leaf pte_write_pmem store_leaf_pt_leaf [OF d(3) ap n vpn_bounds(3) vpn_bounds] vpn_eq_iff [OF that v]
      d(5) [OF vpn_bounds] ..
  moreover have "pmem ?s x = pmem s x"
    if b: "b \<in> A" "\<forall>x. node_at (pmem s) root x \<noteq> Some (fst b)" and x: "x \<in> region b" for b x
  proof -
    have "b \<noteq> (u, 0)" using fresh_node_apart [OF e b(1), of "N0 (vpn2 v) (vpn1 v)"] b(2) n by auto
    then have "pmem ?s x = pmem s2 x" using pte_write_frame [OF ap u vpn_bounds(3) _ _ x] d(2) b(1) by auto
    then show ?thesis using d(8) [OF b(1) _ x] b(2) by simp
  qed
  moreover have "node_at (pmem ?s) root y \<noteq> Some (fst b)"
    if "b \<in> A" "\<forall>x. node_at (pmem s) root x \<noteq> Some (fst b)" for b y
    using fresh_node_apart [OF e that(1)] that(2) unfolding pte_write_pmem store_leaf_node [OF d(3) ap n vpn_bounds(3)] by blast
  moreover have nd: "node_at (pmem ?s) root = node_at (pmem s2) root"
    unfolding pte_write_pmem by (rule store_leaf_node [OF d(3) ap n vpn_bounds(3)])
  moreover have "b \<in> A \<or> snd b = 0 \<and> (\<exists>x. node_at (pmem s2) root x = Some (fst b))" if "b \<in> A2" for b
    by (rule d(9) [OF that])
  ultimately show ?thesis
    unfolding leaf_set_def using pte_write_inv [OF d(1) u vpn_bounds(3)] d(2,4,6) wf n
    by (simp del: pte_write_pmem node_at.simps)
qed

lemma map_user_leaf_ok:
  assumes i: "buddy_inv s A" "phys_ok s" and w: "pt_wf (pmem s) root A" and v: "v < 2 ^ 39"
  obtains (ok) s' A' where "map_user_leaf s root v p f = Some (Ok (), s')" "\<not> is_mapped s root v"
      "leaf_set s A s' A' root v (if pte_valid (pte p (f OR PTE_U)) then pte p (f OR PTE_U) else 0)"
    | (err) s' A' where "map_user_leaf s root v p f = Some (Err (), s')" "pt_ext s A s' A' root"
      "is_mapped s root v \<or> free_page_count s' = Some 0"
proof -
  have mapped: "is_mapped s root v" if "leaf_pte s root v = e" "pte_valid e" for e
    using that by (simp add: is_mapped_def)
  obtain r1 s1 A1 where e1: "ensure_table s root (vpn2 v) = Some (r1, s1)" "pt_ext s A s1 A1 root"
    "\<And>u. r1 = Ok u \<Longrightarrow> node_at (pmem s1) root (child Root (vpn2 v)) = Some u"
    "r1 = Err () \<Longrightarrow> pte_valid (ent (pmem s) root (vpn2 v)) \<and> pte_leaf (ent (pmem s) root (vpn2 v)) \<or> free_page_count s1 = Some 0"
    by (rule ensure_table_ok [OF i w, of Root root 0 "vpn2 v"]) auto
  show ?thesis
  proof (cases r1)
    case (Err e)
    then have "is_mapped s root v \<or> free_page_count s1 = Some 0"
      using e1(4) pt_leaf_on_path [of "pmem s" root Root root "vpn2 v" "vpn2 v"] mapped
      by (auto simp: leaf_pte_pt_leaf)
    then show ?thesis using Err e1(1,2) by (intro err) (auto simp: map_user_leaf_def ensure_table_user_eq)
  next
    case (Ok t)
    note d1 = pt_extD [OF e1(2)]
    have nt: "node_at (pmem s1) root (N1 (vpn2 v)) = Some t" using e1(3) Ok by simp
    have ph: "phys_ok s1" using i(2) same_geom_phys [OF d1(4)] by simp
    obtain r2 s2 A2 where e2: "ensure_table s1 t (vpn1 v) = Some (r2, s2)" "pt_ext s1 A1 s2 A2 root"
      "\<And>u. r2 = Ok u \<Longrightarrow> node_at (pmem s2) root (child (N1 (vpn2 v)) (vpn1 v)) = Some u"
      "r2 = Err () \<Longrightarrow> pte_valid (ent (pmem s1) t (vpn1 v)) \<and> pte_leaf (ent (pmem s1) t (vpn1 v)) \<or> free_page_count s2 = Some 0"
      by (rule ensure_table_ok [OF d1(1) ph d1(3) nt, of "vpn2 v" "vpn1 v"]) auto
    have x: "pt_ext s A s2 A2 root" by (rule pt_ext_trans [OF e1(2) e2(2)])
    show ?thesis
    proof (cases r2)
      case (Err e)
      then have "is_mapped s root v \<or> free_page_count s2 = Some 0"
        using e2(4) pt_leaf_on_path [OF nt, of "vpn1 v" "vpn2 v" "vpn1 v" "vpn0 v"] mapped d1(5) [of "vpn2 v" "vpn1 v" "vpn0 v"]
        by (auto simp: leaf_pte_pt_leaf)
      then show ?thesis using Err Ok e1(1) e2(1) x
        by (intro err) (auto simp: map_user_leaf_def ensure_table_user_eq)
    next
      case u: (Ok u)
      then have nu: "node_at (pmem s2) root (N0 (vpn2 v) (vpn1 v)) = Some u" using e2(3) by simp
      have lf: "leaf_pte s root v = (if pte_valid (ent (pmem s2) u (vpn0 v)) then ent (pmem s2) u (vpn0 v) else 0)"
        using pt_leaf_N0 [OF nu, of "vpn0 v"] pt_extD(5) [OF x, of "vpn2 v" "vpn1 v" "vpn0 v"]
        by (simp add: leaf_pte_pt_leaf)
      show ?thesis
      proof (cases "pte_valid (ent (pmem s2) u (vpn0 v))")
        case True
        then show ?thesis using Ok u e1(1) e2(1) x lf
          by (intro err [of s2 A2]) (auto simp: map_user_leaf_def ensure_table_user_eq pte_read_ent is_mapped_def)
      next
        case False
        then show ?thesis using Ok u e1(1) e2(1) lf leaf_setI [OF x nu v]
          by (intro ok [of "pte_write s2 u (vpn0 v) (pte p (f OR PTE_U))" A2])
            (auto simp: map_user_leaf_def ensure_table_user_eq pte_read_ent is_mapped_def)
      qed
    qed
  qed
qed

end
