(* ===== verification/Mmu_Destroy.thy ===== *)
theory Mmu_Destroy
  imports Mmu_Correct
begin

text \<open>
  What an address space owns: its table pages and the pages its user leaves map from the
  allocator. \<^verbatim>\<open>destroy_root\<close> returns exactly these to the allocator.
\<close>

declare upt_rec_numeral [simp del]

lemma Diff_Diff_insert: "A - B - {x} = A - insert x B"
  by blast

lemma set_512: "set [0..<512] = {..<512}"
  by (simp add: atLeast0LessThan)

section \<open>Ownership\<close>

datatype item = Node node | Leaf nat nat nat

definition in_ram :: "mm \<Rightarrow> usize \<Rightarrow> bool" where
  "in_ram s a \<longleftrightarrow> ba_base s \<le> a \<and> a < ba_base s + ba_real_count s * PAGE_SIZE"

lemma page_in_range_eq: "phys_ok s \<Longrightarrow> page_in_range s a = Some (in_ram s a)"
  by (simp add: page_in_range_def in_ram_def phys_ok_def umul_def uadd_def)

definition user_leaf :: "mm \<Rightarrow> usize \<Rightarrow> nat \<Rightarrow> usize option" where
  "user_leaf s u k =
     (let e = ent (pmem s) u k in
      if pte_valid e \<and> pte_user e \<and> in_ram s (pte_addr e) then Some (pte_addr e) else None)"

fun own_at :: "mm \<Rightarrow> usize \<Rightarrow> item \<Rightarrow> usize option" where
  "own_at s root (Node x) = node_at (pmem s) root x"
| "own_at s root (Leaf i j k) =
     (if k < 512 then Option.bind (node_at (pmem s) root (N0 i j)) (\<lambda>u. user_leaf s u k) else None)"

text \<open>Everything owned is a page handed out to this address space, and nothing is owned twice.\<close>

definition as_wf :: "mm \<Rightarrow> usize \<Rightarrow> (nat \<times> nat) set \<Rightarrow> bool" where
  "as_wf s root A \<longleftrightarrow>
     (\<forall>x a. own_at s root x = Some a \<longrightarrow> (a, 0) \<in> A) \<and>
     (\<forall>x y a. own_at s root x = Some a \<longrightarrow> own_at s root y = Some a \<longrightarrow> x = y)"

definition owned :: "mm \<Rightarrow> usize \<Rightarrow> (nat \<times> nat) set" where
  "owned s root = {(a, 0) | a x. own_at s root x = Some a}"

lemma as_wf_pt_wf: "as_wf s root A \<Longrightarrow> pt_wf (pmem s) root A"
  unfolding as_wf_def pt_wf_def by (metis item.inject(1) own_at.simps(1))

lemma as_wfD: "as_wf s root A \<Longrightarrow> own_at s root x = Some a \<Longrightarrow> (a, 0) \<in> A"
  "as_wf s root A \<Longrightarrow> own_at s root x = Some a \<Longrightarrow> own_at s root y = Some a \<Longrightarrow> x = y"
  unfolding as_wf_def by blast+

section \<open>Releasing pages one by one\<close>

text \<open>Reachable while tearing down: the pages still handed out are as they were in \<open>s0\<close>.\<close>

definition rest :: "mm \<Rightarrow> mm \<Rightarrow> (nat \<times> nat) set \<Rightarrow> bool" where
  "rest s0 s B \<longleftrightarrow> buddy_inv s B \<and> same_geom s0 s \<and> (\<forall>b\<in>B. \<forall>x\<in>region b. pmem s x = pmem s0 x)"

lemma free_expect_rest:
  assumes r: "rest s0 s B" and a: "(a, 0) \<in> B"
  shows "\<exists>s'. free_expect s a = Some s' \<and> rest s0 s' (B - {(a, 0)})"
proof -
  have i: "buddy_inv s B" using r by (simp add: rest_def)
  obtain s' where f: "free s a = Some (Ok (), s')" "buddy_inv s' (B - {(a, 0)})"
    "\<forall>b\<in>B - {(a, 0)}. \<forall>x\<in>region b. pmem s' x = pmem s x"
    using buddy.free_ok [OF i a] by blast
  have "same_geom s0 s'" using free_geom [OF i a f(1)] r by (simp add: rest_def same_geom_def)
  then have "rest s0 s' (B - {(a, 0)})" using f r by (auto simp: rest_def)
  then show ?thesis using f(1) by (auto simp: free_expect_def free_pages_def)
qed

lemma rest_ent:
  assumes "rest s0 s B" "(a, 0) \<in> B" "k < 512"
  shows "pte_read s a k = ent (pmem s0) a k"
  unfolding pte_read_ent by (rule ent_same) (use assms in \<open>auto simp: rest_def same_on_def\<close>)

lemma rest_in_range:
  assumes "rest s0 s B" "phys_ok s0"
  shows "page_in_range s a = Some (in_ram s0 a)"
proof -
  have g: "same_geom s0 s" using assms(1) by (simp add: rest_def)
  then have "phys_ok s" using assms(2) same_geom_phys by blast
  then show ?thesis using page_in_range_eq g by (simp add: in_ram_def same_geom_def)
qed

definition own0 :: "mm \<Rightarrow> usize \<Rightarrow> nat \<Rightarrow> (nat \<times> nat) set" where
  "own0 s u k = (case user_leaf s u k of Some a \<Rightarrow> {(a, 0)} | None \<Rightarrow> {})"

lemma destroy_l0_rest:
  assumes "rest s0 s B" "phys_ok s0" "(u, 0) \<in> B" "distinct ks" "\<forall>k\<in>set ks. k < 512"
    and "\<And>k. k \<in> set ks \<Longrightarrow> own0 s0 u k \<subseteq> B - {(u, 0)}"
    and "\<And>k l. k \<in> set ks \<Longrightarrow> l \<in> set ks \<Longrightarrow> k \<noteq> l \<Longrightarrow> own0 s0 u k \<inter> own0 s0 u l = {}"
  shows "\<exists>s'. destroy_l0 s u ks = Some s' \<and> rest s0 s' (B - (\<Union>k\<in>set ks. own0 s0 u k))"
  using assms
proof (induction ks arbitrary: s B)
  case (Cons k ks)
  let ?e = "ent (pmem s0) u k"
  have e: "pte_read s u k = ?e" by (rule rest_ent [OF Cons.prems(1,3)]) (use Cons.prems in auto)
  have "\<exists>s1. (if pte_valid ?e \<and> pte_user ?e \<and> in_ram s0 (pte_addr ?e) then free_expect s (pte_addr ?e) else Some s)
      = Some s1 \<and> rest s0 s1 (B - own0 s0 u k)"
  proof (cases "pte_valid ?e \<and> pte_user ?e \<and> in_ram s0 (pte_addr ?e)")
    case True
    then have o: "own0 s0 u k = {(pte_addr ?e, 0)}" by (simp add: own0_def user_leaf_def)
    then show ?thesis using True free_expect_rest [OF Cons.prems(1)] Cons.prems(6) [of k] by auto
  next
    case False
    then have "own0 s0 u k = {}" by (auto simp: own0_def user_leaf_def Let_def)
    then show ?thesis using False Cons.prems(1) by auto
  qed
  then obtain s1 where s1: "(if pte_valid ?e \<and> pte_user ?e \<and> in_ram s0 (pte_addr ?e)
      then free_expect s (pte_addr ?e) else Some s) = Some s1" "rest s0 s1 (B - own0 s0 u k)" by blast
  have step: "destroy_l0 s u (k # ks) = destroy_l0 s1 u ks"
    using s1(1) e rest_in_range [OF Cons.prems(1,2)] by (auto simp: Let_def split: if_splits)
  have "\<exists>s'. destroy_l0 s1 u ks = Some s' \<and> rest s0 s' (B - own0 s0 u k - (\<Union>l\<in>set ks. own0 s0 u l))"
  proof (rule Cons.IH [OF s1(2) Cons.prems(2)])
    show "(u, 0) \<in> B - own0 s0 u k" using Cons.prems(3,6) by auto
    show "own0 s0 u l \<subseteq> B - own0 s0 u k - {(u, 0)}" if "l \<in> set ks" for l
      using Cons.prems(6) [of l] Cons.prems(7) [of k l] Cons.prems(4) that by auto
  qed (use Cons.prems in auto)
  then show ?case unfolding step by (simp add: Diff_eq Int_assoc)
qed simp

definition own1 :: "mm \<Rightarrow> usize \<Rightarrow> nat \<Rightarrow> (nat \<times> nat) set" where
  "own1 s t j = (case tbl (pmem s) t j of Some u \<Rightarrow> insert (u, 0) (\<Union>k<512. own0 s u k) | None \<Rightarrow> {})"

definition sep0 :: "mm \<Rightarrow> usize \<Rightarrow> bool" where
  "sep0 s u \<longleftrightarrow> (\<forall>k<512. (u, 0) \<notin> own0 s u k) \<and>
     (\<forall>k<512. \<forall>l<512. k \<noteq> l \<longrightarrow> own0 s u k \<inter> own0 s u l = {})"

definition sep1 :: "mm \<Rightarrow> usize \<Rightarrow> bool" where
  "sep1 s t \<longleftrightarrow> (\<forall>j<512. (t, 0) \<notin> own1 s t j \<and> (\<forall>u. tbl (pmem s) t j = Some u \<longrightarrow> sep0 s u)) \<and>
     (\<forall>j<512. \<forall>l<512. j \<noteq> l \<longrightarrow> own1 s t j \<inter> own1 s t l = {})"

lemma destroy_l0_all:
  assumes "rest s0 s B" "phys_ok s0" "insert (u, 0) (\<Union>k<512. own0 s0 u k) \<subseteq> B" "sep0 s0 u"
  shows "\<exists>s1 s2. destroy_l0 s u [0..<512] = Some s1 \<and> free_expect s1 u = Some s2 \<and>
    rest s0 s2 (B - insert (u, 0) (\<Union>k<512. own0 s0 u k))"
proof -
  have "\<exists>s1. destroy_l0 s u [0..<512] = Some s1 \<and> rest s0 s1 (B - (\<Union>k\<in>set [0..<512]. own0 s0 u k))"
  proof (rule destroy_l0_rest [OF assms(1,2)])
    show "own0 s0 u k \<subseteq> B - {(u, 0)}" if "k \<in> set [0..<512]" for k
      using assms(3,4) that by (fastforce simp: sep0_def)
    show "own0 s0 u k \<inter> own0 s0 u l = {}" if "k \<in> set [0..<512]" "l \<in> set [0..<512]" "k \<noteq> l" for k l
      using assms(4) that unfolding sep0_def by simp
  qed (use assms(3) in simp_all)
  then obtain s1 where s1: "destroy_l0 s u [0..<512] = Some s1" "rest s0 s1 (B - (\<Union>k<512. own0 s0 u k))"
    unfolding set_512 by blast
  have "(u, 0) \<in> B - (\<Union>k<512. own0 s0 u k)" using assms(3,4) by (auto simp: sep0_def)
  then obtain s2 where "free_expect s1 u = Some s2" "rest s0 s2 (B - (\<Union>k<512. own0 s0 u k) - {(u, 0)})"
    using free_expect_rest [OF s1(2)] by blast
  then show ?thesis using s1(1) unfolding Diff_Diff_insert by blast
qed

lemma destroy_l1_rest:
  assumes "rest s0 s B" "phys_ok s0" "(t, 0) \<in> B" "distinct js" "\<forall>j\<in>set js. j < 512"
    and "\<And>j. j \<in> set js \<Longrightarrow> own1 s0 t j \<subseteq> B" "sep1 s0 t"
  shows "\<exists>s'. destroy_l1 s t js = Some s' \<and> rest s0 s' (B - (\<Union>j\<in>set js. own1 s0 t j))"
  using assms(1-6)
proof (induction js arbitrary: s B)
  case (Cons j js)
  let ?e = "ent (pmem s0) t j"
  have j: "j < 512" "j \<notin> set js" using Cons.prems by auto
  have e: "pte_read s t j = ?e" by (rule rest_ent [OF Cons.prems(1,3) j(1)])
  have "\<exists>s1. destroy_l1 s t (j # js) = destroy_l1 s1 t js \<and> rest s0 s1 (B - own1 s0 t j)"
  proof (cases "tbl (pmem s0) t j")
    case None
    then have "destroy_l1 s t (j # js) = destroy_l1 s t js" "own1 s0 t j = {}"
      using e by (auto simp: tbl_def own1_def Let_def split: if_splits)
    then show ?thesis using Cons.prems(1) by auto
  next
    case (Some u)
    then have u: "pte_valid ?e" "\<not> pte_leaf ?e" "pte_addr ?e = u" by (auto simp: tbl_def split: if_splits)
    have o: "own1 s0 t j = insert (u, 0) (\<Union>k<512. own0 s0 u k)" using Some by (simp add: own1_def)
    have sep: "sep0 s0 u" using assms(7) Some j(1) by (simp add: sep1_def)
    have sub: "insert (u, 0) (\<Union>k<512. own0 s0 u k) \<subseteq> B" using Cons.prems(6) [of j] unfolding o by simp
    obtain s1 s2 where "destroy_l0 s u [0..<512] = Some s1" "free_expect s1 u = Some s2"
      "rest s0 s2 (B - own1 s0 t j)"
      using destroy_l0_all [OF Cons.prems(1,2) sub sep] unfolding o by blast
    then show ?thesis using u e by (auto simp: Let_def)
  qed
  then obtain s1 where s1: "destroy_l1 s t (j # js) = destroy_l1 s1 t js" "rest s0 s1 (B - own1 s0 t j)" by blast
  have "\<exists>s'. destroy_l1 s1 t js = Some s' \<and> rest s0 s' (B - own1 s0 t j - (\<Union>l\<in>set js. own1 s0 t l))"
  proof (rule Cons.IH [OF s1(2) Cons.prems(2)])
    show "(t, 0) \<in> B - own1 s0 t j" using Cons.prems(3) assms(7) j(1) by (auto simp: sep1_def)
    show "own1 s0 t l \<subseteq> B - own1 s0 t j" if "l \<in> set js" for l
    proof -
      have "own1 s0 t j \<inter> own1 s0 t l = {}"
        using assms(7) j that Cons.prems(5) unfolding sep1_def by (metis list.set_intros(2))
      then show ?thesis using Cons.prems(6) [of l] that by auto
    qed
  qed (use Cons.prems in auto)
  then show ?case unfolding s1(1) by (simp add: Diff_eq Int_assoc)
qed simp

definition own2 :: "mm \<Rightarrow> usize \<Rightarrow> nat \<Rightarrow> (nat \<times> nat) set" where
  "own2 s root i = (case tbl (pmem s) root i of Some t \<Rightarrow> insert (t, 0) (\<Union>j<512. own1 s t j) | None \<Rightarrow> {})"

definition sep2 :: "mm \<Rightarrow> usize \<Rightarrow> bool" where
  "sep2 s root \<longleftrightarrow> (\<forall>i<512. (root, 0) \<notin> own2 s root i \<and> (\<forall>t. tbl (pmem s) root i = Some t \<longrightarrow> sep1 s t)) \<and>
     (\<forall>i<512. \<forall>l<512. i \<noteq> l \<longrightarrow> own2 s root i \<inter> own2 s root l = {})"

lemma destroy_l1_all:
  assumes "rest s0 s B" "phys_ok s0" "insert (t, 0) (\<Union>j<512. own1 s0 t j) \<subseteq> B" "sep1 s0 t"
  shows "\<exists>s1 s2. destroy_l1 s t [0..<512] = Some s1 \<and> free_expect s1 t = Some s2 \<and>
    rest s0 s2 (B - insert (t, 0) (\<Union>j<512. own1 s0 t j))"
proof -
  have "\<exists>s1. destroy_l1 s t [0..<512] = Some s1 \<and> rest s0 s1 (B - (\<Union>j\<in>set [0..<512]. own1 s0 t j))"
    by (rule destroy_l1_rest [OF assms(1,2)]) (use assms(3,4) in \<open>auto\<close>)
  then obtain s1 where s1: "destroy_l1 s t [0..<512] = Some s1" "rest s0 s1 (B - (\<Union>j<512. own1 s0 t j))"
    unfolding set_512 by blast
  have "(t, 0) \<in> B - (\<Union>j<512. own1 s0 t j)" using assms(3,4) by (auto simp: sep1_def)
  then obtain s2 where "free_expect s1 t = Some s2" "rest s0 s2 (B - (\<Union>j<512. own1 s0 t j) - {(t, 0)})"
    using free_expect_rest [OF s1(2)] by blast
  then show ?thesis using s1(1) unfolding Diff_Diff_insert by blast
qed

lemma destroy_l2_rest:
  assumes "rest s0 s B" "phys_ok s0" "(root, 0) \<in> B" "distinct is" "\<forall>i\<in>set is. i < 512"
    and "\<And>i. i \<in> set is \<Longrightarrow> own2 s0 root i \<subseteq> B" "sep2 s0 root"
  shows "\<exists>s'. destroy_l2 s root is = Some s' \<and> rest s0 s' (B - (\<Union>i\<in>set is. own2 s0 root i))"
  using assms(1-6)
proof (induction "is" arbitrary: s B)
  case (Cons i "is")
  let ?e = "ent (pmem s0) root i"
  have i: "i < 512" "i \<notin> set is" using Cons.prems by auto
  have e: "pte_read s root i = ?e" by (rule rest_ent [OF Cons.prems(1,3) i(1)])
  have "\<exists>s1. destroy_l2 s root (i # is) = destroy_l2 s1 root is \<and> rest s0 s1 (B - own2 s0 root i)"
  proof (cases "tbl (pmem s0) root i")
    case None
    then have "destroy_l2 s root (i # is) = destroy_l2 s root is" "own2 s0 root i = {}"
      using e by (auto simp: tbl_def own2_def Let_def split: if_splits)
    then show ?thesis using Cons.prems(1) by auto
  next
    case (Some t)
    then have t: "pte_valid ?e" "\<not> pte_leaf ?e" "pte_addr ?e = t" by (auto simp: tbl_def split: if_splits)
    have o: "own2 s0 root i = insert (t, 0) (\<Union>j<512. own1 s0 t j)" using Some by (simp add: own2_def)
    have sep: "sep1 s0 t" using assms(7) Some i(1) by (simp add: sep2_def)
    have sub: "insert (t, 0) (\<Union>j<512. own1 s0 t j) \<subseteq> B" using Cons.prems(6) [of i] unfolding o by simp
    obtain s1 s2 where "destroy_l1 s t [0..<512] = Some s1" "free_expect s1 t = Some s2"
      "rest s0 s2 (B - own2 s0 root i)"
      using destroy_l1_all [OF Cons.prems(1,2) sub sep] unfolding o by blast
    then show ?thesis using t e by (auto simp: Let_def)
  qed
  then obtain s1 where s1: "destroy_l2 s root (i # is) = destroy_l2 s1 root is" "rest s0 s1 (B - own2 s0 root i)" by blast
  have "\<exists>s'. destroy_l2 s1 root is = Some s' \<and> rest s0 s' (B - own2 s0 root i - (\<Union>l\<in>set is. own2 s0 root l))"
  proof (rule Cons.IH [OF s1(2) Cons.prems(2)])
    show "(root, 0) \<in> B - own2 s0 root i" using Cons.prems(3) assms(7) i(1) by (auto simp: sep2_def)
    show "own2 s0 root l \<subseteq> B - own2 s0 root i" if "l \<in> set is" for l
    proof -
      have "own2 s0 root i \<inter> own2 s0 root l = {}"
        using assms(7) i that Cons.prems(5) unfolding sep2_def by (metis list.set_intros(2))
      then show ?thesis using Cons.prems(6) [of l] that by auto
    qed
  qed (use Cons.prems in auto)
  then show ?case unfolding s1(1) by (simp add: Diff_eq Int_assoc)
qed simp

section \<open>From ownership to separation\<close>

lemma own0_own_at:
  assumes "node_at (pmem s) root (N0 i j) = Some u" "k < 512"
  shows "b \<in> own0 s u k \<longleftrightarrow> (\<exists>a. b = (a, 0) \<and> own_at s root (Leaf i j k) = Some a)"
  using assms by (auto simp: own0_def split: option.splits if_splits)

lemma own1_own_at:
  assumes "node_at (pmem s) root (N1 i) = Some t" "j < 512"
  shows "b \<in> own1 s t j \<longleftrightarrow>
    (\<exists>a. b = (a, 0) \<and> (own_at s root (Node (N0 i j)) = Some a \<or> (\<exists>k. own_at s root (Leaf i j k) = Some a)))"
proof (cases "tbl (pmem s) t j")
  case None
  then show ?thesis using assms by (auto simp: own1_def split: if_splits)
next
  case (Some u)
  then have n: "node_at (pmem s) root (N0 i j) = Some u" using assms by (auto split: if_splits)
  have "b \<in> own1 s t j \<longleftrightarrow> b = (u, 0) \<or> (\<exists>k<512. b \<in> own0 s u k)" using Some by (auto simp: own1_def)
  then show ?thesis using own0_own_at [OF n, of _ b] n
    by (auto simp del: node_at.simps split: if_splits)
qed

lemma own2_own_at:
  assumes "i < 512"
  shows "b \<in> own2 s root i \<longleftrightarrow> (\<exists>a. b = (a, 0) \<and> (own_at s root (Node (N1 i)) = Some a \<or>
    (\<exists>j. own_at s root (Node (N0 i j)) = Some a \<or> (\<exists>k. own_at s root (Leaf i j k) = Some a))))"
proof (cases "tbl (pmem s) root i")
  case None
  then show ?thesis using assms by (auto simp: own2_def split: if_splits)
next
  case (Some t)
  then have n: "node_at (pmem s) root (N1 i) = Some t" using assms by simp
  have "b \<in> own2 s root i \<longleftrightarrow> b = (t, 0) \<or> (\<exists>j<512. b \<in> own1 s t j)" using Some by (auto simp: own2_def)
  moreover have "j < 512" if "own_at s root (Node (N0 i j)) = Some a \<or> own_at s root (Leaf i j k) = Some a" for j k a
    using that by (auto split: if_splits)
  ultimately show ?thesis using own1_own_at [OF n, of _ b] n
    by (metis option.inject own_at.simps(1))
qed

lemma as_wf_sep:
  assumes w: "as_wf s root A"
  shows "sep2 s root"
proof -
  have inj: "x = y" if "own_at s root x = Some a" "own_at s root y = Some a" for x y a
    by (rule as_wfD(2) [OF w that])
  have s0: "sep0 s u" if n: "node_at (pmem s) root (N0 i j) = Some u" for i j u
  proof -
    have nn: "own_at s root (Node (N0 i j)) = Some u" using n by simp
    show ?thesis unfolding sep0_def disjoint_iff
      using own0_own_at [OF n] inj nn by (metis item.distinct(1) item.inject(2) prod.inject)
  qed
  have s1: "sep1 s t" if n: "node_at (pmem s) root (N1 i) = Some t" for i t
  proof -
    have nn: "own_at s root (Node (N1 i)) = Some t" and i: "i < 512" using n by (auto split: if_splits)
    have "sep0 s u" if "j < 512" "tbl (pmem s) t j = Some u" for j u
      by (rule s0 [of i j]) (use n that i in \<open>auto split: if_splits\<close>)
    moreover have "(t, 0) \<notin> own1 s t j" if "j < 512" for j
      unfolding own1_own_at [OF n that] using inj nn by blast
    moreover have "own1 s t j \<inter> own1 s t l = {}" if "j < 512" "l < 512" "j \<noteq> l" for j l
      unfolding disjoint_iff own1_own_at [OF n that(1)] own1_own_at [OF n that(2)] using inj that(3) by blast
    ultimately show ?thesis unfolding sep1_def by blast
  qed
  have r: "own_at s root (Node Root) = Some root" by simp
  have "(root, 0) \<notin> own2 s root i" if "i < 512" for i
    unfolding own2_own_at [OF that] using inj r by blast
  moreover have "own2 s root i \<inter> own2 s root l = {}" if "i < 512" "l < 512" "i \<noteq> l" for i l
    unfolding disjoint_iff own2_own_at [OF that(1)] own2_own_at [OF that(2)] using inj that(3) by blast
  moreover have "sep1 s t" if "i < 512" "tbl (pmem s) root i = Some t" for i t
    by (rule s1 [of i]) (use that in simp)
  ultimately show ?thesis unfolding sep2_def by blast
qed

lemma owned_own2: "owned s root = insert (root, 0) (\<Union>i<512. own2 s root i)"
proof -
  have "i < 512" if "own_at s root (Node (N1 i)) = Some a \<or> own_at s root (Node (N0 i j)) = Some a \<or>
    own_at s root (Leaf i j k) = Some a" for i j k a
    using that by (auto split: if_splits)
  moreover have "own_at s root (Node Root) = Some root" by simp
  ultimately have *: "(\<exists>x. own_at s root x = Some a) \<longleftrightarrow> a = root \<or> (\<exists>i<512. own_at s root (Node (N1 i)) = Some a \<or>
    (\<exists>j. own_at s root (Node (N0 i j)) = Some a \<or> (\<exists>k. own_at s root (Leaf i j k) = Some a)))" for a
    by (metis item.exhaust node.exhaust option.inject)
  show ?thesis unfolding owned_def
    by (auto simp: own2_own_at * simp del: own_at.simps)
qed

lemma destroy_root_ok:
  assumes i: "buddy_inv s A" "phys_ok s" and w: "as_wf s root A"
  shows "\<exists>s'. destroy_root s root = Some s' \<and> rest s s' (A - owned s root)"
proof -
  have sub: "owned s root \<subseteq> A" using as_wfD(1) [OF w] by (auto simp: owned_def)
  have r0: "rest s s A" using i by (simp add: rest_def same_geom_def)
  have "\<exists>s1. destroy_l2 s root [0..<512] = Some s1 \<and> rest s s1 (A - (\<Union>i\<in>set [0..<512]. own2 s root i))"
    by (rule destroy_l2_rest [OF r0 i(2)]) (use sub as_wf_sep [OF w] in \<open>auto simp: owned_own2\<close>)
  then obtain s1 where s1: "destroy_l2 s root [0..<512] = Some s1" "rest s s1 (A - (\<Union>i<512. own2 s root i))"
    unfolding set_512 by blast
  have "(root, 0) \<in> A - (\<Union>i<512. own2 s root i)"
    using sub as_wf_sep [OF w] by (auto simp: owned_own2 sep2_def)
  then obtain s2 where "free_expect s1 root = Some s2" "rest s s2 (A - (\<Union>i<512. own2 s root i) - {(root, 0)})"
    using free_expect_rest [OF s1(2)] by blast
  then show ?thesis using s1(1) unfolding Diff_Diff_insert owned_own2 by (simp add: destroy_root_def)
qed

end
