(* ===== verification/Mmu_Main.thy ===== *)
theory Mmu_Main
  imports Mmu_Destroy
begin

text \<open>
  The properties of the page table code: mapping a user page changes exactly one translation, the
  guards of \<^verbatim>\<open>map_user_page\<close>, unmapping, splitting a superpage without changing any translation,
  and the exact release of an address space.
\<close>

section \<open>A fresh address space\<close>

lemma fresh_root:
  assumes i: "buddy_inv s A" and a: "alloc_pages s 0 = Some (Some p, s1)"
  shows "\<exists>s2. zero_page s1 p = Some s2 \<and> buddy_inv s2 (insert (p, 0) A) \<and> (p, 0) \<notin> A \<and> same_geom s s2 \<and>
    as_wf s2 p (insert (p, 0) A) \<and> owned s2 p = {(p, 0)} \<and> (\<forall>v. leaf_pte s2 p v = 0) \<and>
    (\<forall>j<512. ent (pmem s2) p j = 0) \<and> (\<forall>b\<in>A. \<forall>x\<in>region b. pmem s2 x = pmem s x)"
proof -
  obtain s2 where s2: "zero_page s1 p = Some s2" "buddy_inv s2 (insert (p, 0) A)" "(p, 0) \<notin> A"
    "\<forall>b\<in>A. \<forall>x\<in>region b. pmem s2 x = pmem s x" "\<forall>j<512. ent (pmem s2) p j = 0"
    using alloc_zero_page [OF assms] by blast
  have t: "tbl (pmem s2) p j = None" if "j < 512" for j using s2(5) that by (simp add: tbl_def)
  have node: "node_at (pmem s2) p y = (if y = Root then Some p else None)" for y
    by (cases y) (auto simp: t)
  have own: "own_at s2 p x = (if x = Node Root then Some p else None)" for x
    by (cases x) (auto simp: node simp del: node_at.simps)
  have g: "same_geom s s2" using alloc_geom [OF i] a s2(1)
    by (auto simp: alloc_pages_def zero_page_def same_geom_def bind_eq_Some_conv)
  have "as_wf s2 p (insert (p, 0) A)" unfolding as_wf_def own by (auto split: if_splits)
  moreover have "owned s2 p = {(p, 0)}" unfolding owned_def own by auto
  moreover have "leaf_pte s2 p v = 0" for v
    using s2(5) by (simp add: leaf_pte_pt_leaf pt_leaf_def)
  ultimately show ?thesis using s2 g by blast
qed

text \<open>An address space and a page to map, on the concrete allocator.\<close>

lemma buddy_inv_more:
  assumes "buddy_rel s F B R" "(y, q) \<in> F" "A = block_region s ` B"
  obtains p s1 s2 where "alloc_pages s 0 = Some (Some p, s1)" "zero_page s1 p = Some s2"
    "buddy_inv s2 (insert (p, 0) A)" "(p, 0) \<notin> A" "same_geom s s2" "as_wf s2 p (insert (p, 0) A)"
    "owned s2 p = {(p, 0)}" "\<forall>v. leaf_pte s2 p v = 0" "\<forall>j<512. ent (pmem s2) p j = 0"
    "\<forall>b\<in>A. \<forall>x\<in>region b. pmem s2 x = pmem s x"
proof -
  have i: "buddy_inv s A" using assms by (auto simp: buddy_inv_def)
  obtain p s1 where a: "alloc_pages s 0 = Some (Some p, s1)"
    using alloc_some_rel [OF assms(1) _ assms(2), of 0] by (auto simp: alloc_pages_def)
  show ?thesis using fresh_root [OF i a] a by (elim exE conjE) (rule that; assumption)
qed

lemma demo_space:
  obtains s root p where "buddy_inv s {(p, 0), (root, 0)}" "phys_ok s" "as_wf s root {(p, 0), (root, 0)}"
    "owned s root = {(root, 0)}" "\<forall>v. leaf_pte s root v = 0" "p \<noteq> root"
    "\<forall>j<512. ent (pmem s) root j = 0" "\<forall>j<512. ent (pmem s) p j = 0"
proof -
  have d: "buddy_inv demo_mm {}" using demo_rel by (auto simp: buddy_inv_def)
  obtain i cur s1 F' where a: "alloc demo_mm 0 = Some (Some (page_addr demo_mm i), s1)" "(i, cur) \<in> {(0, 12)}"
    "buddy_rel s1 F' {(i, 0)} {}" "F' = {(0, 12)} - {(i, cur)} \<union> {(i + 2 ^ c, c) | c. 0 \<le> c \<and> c < cur}"
  proof (rule alloc_some_relE [OF demo_rel])
    show "0 \<le> MAX_ORDER" "(0, 12) \<in> {(0::nat, 12::nat)}" "0 \<le> (12::nat)" by simp_all
  qed (rule that; assumption)
  let ?p = "page_addr demo_mm i"
  have g: "same_geom demo_mm s1" by (rule alloc_geom [OF d a(1)])
  obtain s2 where s2: "zero_page s1 ?p = Some s2" "same_geom demo_mm s2" "\<forall>j<512. ent (pmem s2) ?p j = 0"
    using fresh_root [OF d, of ?p s1] a(1) by (auto simp: alloc_pages_def)
  have s1: "s2 = s1\<lparr>pmem := pmem s2\<rparr>" "pmem s2 x = pmem s1 x" if "x \<notin> region (?p, 0)" for x
    using s2(1) that by (auto simp: zero_page_def zero_words_eq bind_eq_Some_conv)
  have pm: "?p = page_addr s1 i" using g by (simp add: page_addr_def same_geom_def)
  have "buddy_rel (s1\<lparr>pmem := pmem s2\<rparr>) F' {(i, 0)} {}"
    by (rule buddy_rel_store [OF a(3)]) (use s1(2) pm in \<open>auto simp: block_region_def\<close>)
  moreover have eq: "s1\<lparr>pmem := pmem s2\<rparr> = s2"
    using s2(1) by (auto simp: zero_page_def bind_eq_Some_conv)
  ultimately have r2: "buddy_rel s2 F' {(i, 0)} {}" by simp
  have F: "(1, 0) \<in> F'" using a(2,4) by (auto intro!: exI [of _ "0::nat"])
  have A: "{(?p, 0)} = block_region s2 ` {(i, 0)}"
    using s2(2) by (simp add: block_region_def page_addr_def same_geom_def)
  obtain root s3 s4 where s4: "alloc_pages s2 0 = Some (Some root, s3)" "zero_page s3 root = Some s4"
    "buddy_inv s4 (insert (root, 0) {(?p, 0)})" "(root, 0::nat) \<notin> {(?p, 0)}" "same_geom s2 s4"
    "as_wf s4 root (insert (root, 0) {(?p, 0)})" "owned s4 root = {(root, 0)}" "\<forall>v. leaf_pte s4 root v = 0"
    "\<forall>j<512. ent (pmem s4) root j = 0" "\<forall>b\<in>{(?p, 0)}. \<forall>x\<in>region b. pmem s4 x = pmem s2 x"
    by (rule buddy_inv_more [OF r2 F A]) (rule that; assumption)
  have "phys_ok s4" using s2(2) s4(5) by (simp add: phys_ok_def same_geom_def demo_mm_def)
  moreover have "ent (pmem s4) ?p j = 0" if "j < 512" for j
    using ent_same [of "pmem s2" "pmem s4" ?p j] s4(10) s2(3) that by (simp add: same_on_def)
  ultimately show ?thesis using s4 by (intro that [of s4 ?p root]) (auto simp: insert_commute)
qed

section \<open>Mapping\<close>

text \<open>
  C11. Mapping a user page. On a well-formed address space \<^verbatim>\<open>map_user_page\<close> never panics. When it
  succeeds, exactly the virtual page of \<^verbatim>\<open>vaddr\<close> changes its translation, to the given physical
  page with the given flags and the U bit; the page was unmapped before; every page handed out
  that is not a table of this address space keeps its contents, and the table tree stays free of
  aliases. It fails only if the page was mapped, an argument is out of range, or RAM is exhausted,
  and then no translation changes.
\<close>

theorem map_user_page_spec:
  assumes i: "buddy_inv s A" "phys_ok s" and w: "pt_wf (pmem s) root A"
    and f: "take_bit 10 f = f" "pte_valid f"
  shows "\<exists>r s' A'. map_user_page s root v p f = Some (r, s') \<and> buddy_inv s' A' \<and> A \<subseteq> A' \<and>
     pt_wf (pmem s') root A' \<and>
     (r = Ok () \<longrightarrow> v < USER_VA_LIMIT \<and> in_ram s p \<and> \<not> is_mapped s root v \<and>
        (\<forall>w<2 ^ 39. leaf_pte s' root w = (if w div 4096 = v div 4096 then pte p (f OR PTE_U) else leaf_pte s root w)) \<and>
        pte_addr (leaf_pte s' root v) = p \<and> pte_user (leaf_pte s' root v)) \<and>
     (r = Err () \<longrightarrow> (\<forall>w<2 ^ 39. leaf_pte s' root w = leaf_pte s root w) \<and>
        (USER_VA_LIMIT \<le> v \<or> p mod 4096 \<noteq> 0 \<or> \<not> in_ram s p \<or> is_mapped s root v \<or> free_page_count s' = Some 0)) \<and>
     (\<forall>b\<in>A. (\<forall>x. node_at (pmem s) root x \<noteq> Some (fst b)) \<longrightarrow> (\<forall>x\<in>region b. pmem s' x = pmem s x))"
proof (cases "USER_VA_LIMIT \<le> v \<or> p mod 4096 \<noteq> 0 \<or> \<not> in_ram s p")
  case True
  then have "map_user_page s root v p f = Some (Err (), s)"
    by (auto simp: map_user_page_def page_in_range_eq [OF i(2)])
  then show ?thesis using True i w by auto
next
  case False
  then have v: "v < 2 ^ 38" "v < 2 ^ 39" and p: "p mod 4096 = 0" "in_ram s p" by auto
  have eq: "map_user_page s root v p f = map_user_leaf s root v p f"
    using False page_in_range_eq [OF i(2)] by (simp add: map_user_page_def)
  have p56: "p < 2 ^ 56" using p(2) i(2) by (auto simp: in_ram_def phys_ok_def)
  have fU: "take_bit 10 (f OR PTE_U) = f OR PTE_U" using f(1) by (simp add: take_bit_or PTE_U_def)
  have val: "pte_valid (pte p (f OR PTE_U))" "pte_user (pte p (f OR PTE_U))"
    using f(2) by (auto simp: pte_valid_bit pte_user_bit pte_flag_bits bit_or_iff PTE_U_def bit_numeral_rec)
  have addr: "pte_addr (pte p (f OR PTE_U)) = p" by (rule pte_addr_pte [OF p(1) p56 fU])
  show ?thesis
  proof (rule map_user_leaf_ok [OF i w v(2), of p f])
    fix s' A' assume m: "map_user_leaf s root v p f = Some (Ok (), s')" "\<not> is_mapped s root v"
      and l: "leaf_set s A s' A' root v (if pte_valid (pte p (f OR PTE_U)) then pte p (f OR PTE_U) else 0)"
    have "leaf_pte s' root v = pte p (f OR PTE_U)" using l v(2) val unfolding leaf_set_def by simp
    then show ?thesis using m l v p val addr unfolding eq leaf_set_def by auto
  next
    fix s' A' assume m: "map_user_leaf s root v p f = Some (Err (), s')" "pt_ext s A s' A' root"
      "is_mapped s root v \<or> free_page_count s' = Some 0"
    have "leaf_pte s' root w = leaf_pte s root w" for w
      unfolding leaf_pte_pt_leaf using pt_extD(5) [OF m(2)] by simp
    then show ?thesis using m pt_extD(1,2,3,8) [OF m(2)] unfolding eq by (intro exI [of _ "Err ()"] exI conjI) auto
  qed
qed

theorem map_user_page_spec_witness:
  "\<exists>s root p r s' A'. \<not> is_mapped s root 0x40000000 \<and> p \<noteq> root \<and>
     map_user_page s root 0x40000000 p 0xD7 = Some (r, s') \<and> buddy_inv s' A' \<and> pt_wf (pmem s') root A' \<and>
     (r = Ok () \<longrightarrow> pte_addr (leaf_pte s' root 0x40000000) = p)"
proof -
  obtain s root p where d: "buddy_inv s {(p, 0), (root, 0)}" "phys_ok s" "as_wf s root {(p, 0), (root, 0)}"
    "\<forall>v. leaf_pte s root v = 0" "p \<noteq> root" by (rule demo_space) (rule that; assumption)
  have "take_bit 10 (0xD7 :: u64) = 0xD7" "pte_valid 0xD7" by (simp_all add: pte_valid_def PTE_V_def)
  from map_user_page_spec [OF d(1,2) as_wf_pt_wf [OF d(3)] this, of "0x40000000" p]
  obtain r s' A' where "map_user_page s root 0x40000000 p 0xD7 = Some (r, s')" "buddy_inv s' A'"
    "pt_wf (pmem s') root A'" "r = Ok () \<longrightarrow> pte_addr (leaf_pte s' root 0x40000000) = p" by blast
  moreover have "\<not> is_mapped s root 0x40000000" using d(4) by (simp add: is_mapped_def)
  ultimately show ?thesis using d(5) by blast
qed

section \<open>Unmapping\<close>

lemma ensure_table_present:
  assumes "tbl (pmem s) t k = Some u"
  shows "ensure_table s t k = Some (Ok u, s)"
  using assms by (auto simp: ensure_table_def pte_read_ent tbl_def split: if_splits)

lemma ensure_table_superpage:
  assumes "pte_valid (ent (pmem s) t k)" "pte_leaf (ent (pmem s) t k)"
  shows "ensure_table s t k = Some (Err (), s)"
  using assms by (simp add: ensure_table_def pte_read_ent)

lemma unmap_4k_node:
  assumes i: "buddy_inv s A" and w: "pt_wf (pmem s) root A" and v: "v < 2 ^ 39" and l: "leaf_pte s root v \<noteq> 0"
    and n: "node_at (pmem s) root (N0 (vpn2 v) (vpn1 v)) = Some u"
  shows "\<exists>s'. unmap_4k s root v = Some (Ok (), s') \<and> leaf_set s A s' A root v 0"
proof -
  obtain t where t: "tbl (pmem s) root (vpn2 v) = Some t" "tbl (pmem s) t (vpn1 v) = Some u"
    using n by (auto simp: bind_eq_Some_conv)
  have "unmap_4k s root v = Some (Ok (), pte_write s u (vpn0 v) 0)"
    using l t by (simp add: unmap_4k_def ensure_table_present)
  then show ?thesis using leaf_setI [OF pt_ext_refl [OF i w] n v, of 0] by simp
qed

text \<open>
  Unmapping. \<^verbatim>\<open>unmap_4k\<close> never allocates and never panics. It either makes exactly the virtual
  page of \<^verbatim>\<open>vaddr\<close> untranslated, or reports an error because that page is translated by a
  superpage, and then changes nothing. An unmapped page is left as it is.
\<close>

theorem unmap_4k_spec:
  assumes i: "buddy_inv s A" and w: "pt_wf (pmem s) root A" and v: "v < 2 ^ 39"
  shows "\<exists>r s'. unmap_4k s root v = Some (r, s') \<and> buddy_inv s' A \<and> pt_wf (pmem s') root A \<and>
     (r = Ok () \<longrightarrow> (\<forall>w<2 ^ 39. leaf_pte s' root w = (if w div 4096 = v div 4096 then 0 else leaf_pte s root w))) \<and>
     (r = Err () \<longrightarrow> s' = s \<and> is_mapped s root v \<and> node_at (pmem s) root (N0 (vpn2 v) (vpn1 v)) = None) \<and>
     (leaf_pte s root v = 0 \<longrightarrow> s' = s)"
proof (cases "leaf_pte s root v = 0")
  case True
  have "leaf_pte s root w = 0" if "w < 2 ^ 39" "w div 4096 = v div 4096" for w
    using True vpn_eq_iff [OF that(1) v] that(2) by (simp add: leaf_pte_pt_leaf)
  then show ?thesis using True i w by (auto simp: unmap_4k_def)
next
  case False
  note m = False [unfolded leaf_pte_pt_leaf pt_leaf_cases]
  show ?thesis
  proof (cases "node_at (pmem s) root (N0 (vpn2 v) (vpn1 v))")
    case None
    have "unmap_4k s root v = Some (Err (), s)"
    proof (cases "tbl (pmem s) root (vpn2 v)")
      case None
      then have "pte_valid (ent (pmem s) root (vpn2 v))" "pte_leaf (ent (pmem s) root (vpn2 v))"
        using m by (auto simp: tbl_def split: if_splits)
      then show ?thesis using False by (simp add: unmap_4k_def ensure_table_superpage)
    next
      case (Some t)
      then have n: "tbl (pmem s) t (vpn1 v) = None" using None by simp
      then have "pte_valid (ent (pmem s) t (vpn1 v))" "pte_leaf (ent (pmem s) t (vpn1 v))"
        using m Some by (auto simp: tbl_def split: if_splits)
      then show ?thesis using False Some by (simp add: unmap_4k_def ensure_table_superpage ensure_table_present)
    qed
    moreover have "is_mapped s root v" using False
      by (auto simp: is_mapped_def leaf_pte_def Let_def split: if_splits)
    ultimately show ?thesis using None i w False by auto
  next
    case (Some u)
    then obtain s' where "unmap_4k s root v = Some (Ok (), s')" "leaf_set s A s' A root v 0"
      using unmap_4k_node [OF i w v False] by blast
    then show ?thesis using False unfolding leaf_set_def by simp
  qed
qed

theorem unmap_4k_spec_witness:
  "\<exists>s root A. buddy_inv s A \<and> pt_wf (pmem s) root A \<and> unmap_4k s root 0x40000000 = Some (Ok (), s)"
proof -
  obtain s root p where d: "buddy_inv s {(p, 0), (root, 0)}" "phys_ok s" "as_wf s root {(p, 0), (root, 0)}"
    "\<forall>v. leaf_pte s root v = 0" "p \<noteq> root" by (rule demo_space) (rule that; assumption)
  note w = as_wf_pt_wf [OF d(3)]
  have "\<not> is_mapped s root 0x40000000" using d(4) by (simp add: is_mapped_def)
  moreover obtain r s' where "unmap_4k s root 0x40000000 = Some (r, s')"
    "r = Err () \<longrightarrow> is_mapped s root 0x40000000" "leaf_pte s root 0x40000000 = 0 \<longrightarrow> s' = s"
    using unmap_4k_spec [OF d(1) w, of "0x40000000"] by auto
  moreover have "r = Ok () \<or> r = Err ()" by (cases r) auto
  ultimately show ?thesis using d(1,4) w by blast
qed

section \<open>Releasing an address space\<close>

text \<open>
  C13. Releasing an address space. If every table page and every page a user leaf maps from the
  allocator is handed out to this address space and owned once, \<^verbatim>\<open>destroy_root\<close> terminates without a
  panic, returns exactly these pages to the allocator, and every other page handed out keeps its
  contents (device pages outside RAM and kernel leaves are not touched).
\<close>

theorem destroy_root_exact:
  assumes i: "buddy_inv s A" "phys_ok s" and w: "as_wf s root A"
  shows "\<exists>s'. destroy_root s root = Some s' \<and> buddy_inv s' (A - owned s root) \<and>
    (\<forall>b\<in>A - owned s root. \<forall>x\<in>region b. pmem s' x = pmem s x)"
  using destroy_root_ok [OF assms] by (auto simp: rest_def)

theorem destroy_root_exact_witness:
  "\<exists>s root p s'. buddy_inv s {(p, 0), (root, 0)} \<and> destroy_root s root = Some s' \<and> buddy_inv s' {(p, 0)}"
proof -
  obtain s root p where d: "buddy_inv s {(p, 0), (root, 0)}" "phys_ok s" "as_wf s root {(p, 0), (root, 0)}"
    "owned s root = {(root, 0)}" "p \<noteq> root" by (rule demo_space) (rule that; assumption)
  have "{(p, 0), (root, 0)} - owned s root = {(p, 0)}" using d(4,5) by auto
  then show ?thesis using destroy_root_exact [OF d(1-3)] d(1) by auto
qed

section \<open>Splitting a superpage\<close>

text \<open>
  The hardware translation of a virtual address: the physical address and the permission bits, or
  None. A leaf in a higher table translates a larger page.
\<close>

definition translate :: "mm \<Rightarrow> usize \<Rightarrow> usize \<Rightarrow> (usize \<times> u64) option" where
  "translate s root v =
     (let e2 = ent (pmem s) root (vpn2 v) in
      if \<not> pte_valid e2 then None
      else if pte_leaf e2 then Some (pte_addr e2 + v mod 2 ^ 30, take_bit 10 e2)
      else (let e1 = ent (pmem s) (pte_addr e2) (vpn1 v) in
        if \<not> pte_valid e1 then None
        else if pte_leaf e1 then Some (pte_addr e1 + v mod 2 ^ 21, take_bit 10 e1)
        else (let e0 = ent (pmem s) (pte_addr e1) (vpn0 v) in
          if \<not> pte_valid e0 then None else Some (pte_addr e0 + v mod 2 ^ 12, take_bit 10 e0))))"

lemma translate_cases:
  "translate s root v =
     (case tbl (pmem s) root (vpn2 v) of
        Some t \<Rightarrow>
          (case tbl (pmem s) t (vpn1 v) of
             Some u \<Rightarrow> if pte_valid (ent (pmem s) u (vpn0 v))
               then Some (pte_addr (ent (pmem s) u (vpn0 v)) + v mod 2 ^ 12, take_bit 10 (ent (pmem s) u (vpn0 v))) else None
           | None \<Rightarrow> if pte_valid (ent (pmem s) t (vpn1 v))
               then Some (pte_addr (ent (pmem s) t (vpn1 v)) + v mod 2 ^ 21, take_bit 10 (ent (pmem s) t (vpn1 v))) else None)
      | None \<Rightarrow> if pte_valid (ent (pmem s) root (vpn2 v))
          then Some (pte_addr (ent (pmem s) root (vpn2 v)) + v mod 2 ^ 30, take_bit 10 (ent (pmem s) root (vpn2 v))) else None)"
  by (simp add: translate_def tbl_def Let_def)

lemma translate_frame:
  assumes "\<And>x a. node_at (pmem s) root x = Some a \<Longrightarrow> same_on (pmem s) (pmem s') a"
  shows "translate s' root v = translate s root v"
proof -
  have r: "tbl (pmem s') root (vpn2 v) = tbl (pmem s) root (vpn2 v)" "ent (pmem s') root (vpn2 v) = ent (pmem s) root (vpn2 v)"
    using assms [of Root root] tbl_same ent_same by auto
  have t: "tbl (pmem s') t (vpn1 v) = tbl (pmem s) t (vpn1 v)" "ent (pmem s') t (vpn1 v) = ent (pmem s) t (vpn1 v)"
    if "tbl (pmem s) root (vpn2 v) = Some t" for t
    using assms [of "N1 (vpn2 v)" t] that tbl_same ent_same by auto
  have u: "ent (pmem s') u (vpn0 v) = ent (pmem s) u (vpn0 v)"
    if "tbl (pmem s) root (vpn2 v) = Some t" "tbl (pmem s) t (vpn1 v) = Some u" for t u
    using assms [of "N0 (vpn2 v) (vpn1 v)" u] that ent_same by auto
  show ?thesis unfolding translate_cases using r t u by (auto split: option.splits)
qed

lemma split_fill_ok:
  assumes i: "buddy_inv s A" and u: "(u, 0) \<in> A" and b: "base + 512 * 4096 \<le> 2 ^ 57" and n: "i + n \<le> 512"
  shows "\<exists>s'. split_fill s u base f i n = Some s' \<and> buddy_inv s' A \<and> same_geom s s' \<and>
    (\<forall>k<512. ent (pmem s') u k = (if i \<le> k \<and> k < i + n then pte (base + k * 4096) f else ent (pmem s) u k)) \<and>
    (\<forall>b\<in>A. b \<noteq> (u, 0) \<longrightarrow> (\<forall>x\<in>region b. pmem s' x = pmem s x))"
  using i n
proof (induction n arbitrary: s i)
  case (Suc n)
  let ?s = "pte_write s u i (pte (base + i * 4096) f)"
  have i: "i < 512" using Suc.prems(2) by simp
  have add: "uadd base (i * 4096) = Some (base + i * 4096)" using b i by (simp add: uadd_def)
  have inv: "buddy_inv ?s A" by (rule pte_write_inv [OF Suc.prems(1) u i])
  obtain s' where s': "split_fill ?s u base f (Suc i) n = Some s'" "buddy_inv s' A" "same_geom ?s s'"
    "\<forall>k<512. ent (pmem s') u k = (if Suc i \<le> k \<and> k < Suc i + n then pte (base + k * 4096) f else ent (pmem ?s) u k)"
    "\<forall>b\<in>A. b \<noteq> (u, 0) \<longrightarrow> (\<forall>x\<in>region b. pmem s' x = pmem ?s x)"
    using Suc.IH [OF inv, of "Suc i"] Suc.prems(2) by auto
  have e: "ent (pmem ?s) u k = (if k = i then pte (base + i * 4096) f else ent (pmem s) u k)" if "k < 512" for k
    using ent_store64 [of u u i k] i that by auto
  have "pmem s' x = pmem s x" if "b \<in> A" "b \<noteq> (u, 0)" "x \<in> region b" for b x
    using s'(5) that pte_write_frame [OF buddy_inv_apart [OF Suc.prems(1)] u i that] by simp
  moreover have "same_geom s s'" using s'(3) by (simp add: same_geom_def pte_write_def)
  ultimately show ?case using s'(1,2,4) add e by (auto simp: le_less_Suc_eq not_less_eq_eq)
qed (auto simp: same_geom_def)

lemma link_leaf_table:
  assumes w: "pt_wf m root A" "apart (insert (p, 0) A)" and x: "node_at m root (N1 i) = Some t"
    and j: "j < 512" "tbl m t j = None" and p: "(p, 0) \<notin> A" and v: "pte_valid v" "\<not> pte_leaf v" "pte_addr v = p"
  shows "node_at (store64 m (t + 8 * j) v) root = (node_at m root)(N0 i j := Some p)"
    and "\<And>n. n < 512 \<Longrightarrow> ent (store64 m (t + 8 * j) v) p n = ent m p n"
    and "\<And>y b n. node_at m root y = Some b \<Longrightarrow> n < 512 \<Longrightarrow> \<not> (b = t \<and> n = j) \<Longrightarrow>
      ent (store64 m (t + 8 * j) v) b n = ent m b n"
proof -
  let ?m = "store64 m (t + 8 * j) v"
  have ap: "apart A" using w(2) unfolding apart_def by blast
  have i: "i < 512" "tbl m root i = Some t" using x by (auto split: if_splits)
  have e: "ent ?m b n = (if t = b \<and> j = n then v else ent m b n)" if "node_at m root z = Some b" "n < 512" for z b n
    by (rule ent_store64 [OF nodes_sep [OF w(1) ap x that(1)] j(1) that(2)])
  then show "ent ?m b n = ent m b n" if "node_at m root y = Some b" "n < 512" "\<not> (b = t \<and> n = j)" for y b n
    using that by auto
  have tA: "(t, 0) \<in> A" by (rule pt_wf_owned [OF w(1) x])
  then have np: "t \<noteq> p" using p by auto
  then have "region (t, 0) \<inter> region (p, 0) = {}" by (intro apartD [OF w(2)]) (use tA in auto)
  then show "ent ?m p n = ent m p n" if "n < 512" for n
    using ent_store64 [OF disjI2 j(1) that, of t p m v] np by simp
  have tb: "tbl ?m b n = (if t = b \<and> j = n then Some p else tbl m b n)" if "node_at m root z = Some b" "n < 512" for z b n
    unfolding tbl_def e [OF that] using v by auto
  have r: "tbl ?m root n = tbl m root n" if "n < 512" for n
    using tb [of Root root n] that pt_wf_inj [OF w(1) x, of Root] by auto
  have "tbl ?m u n = (if q = i \<and> n = j then Some p else tbl m u n)"
    if "q < 512" "tbl m root q = Some u" "n < 512" for q u n
    using tb [of "N1 q" u n] that pt_wf_inj [OF w(1) x, of "N1 q"] i by auto
  then show "node_at ?m root = (node_at m root)(N0 i j := Some p)"
    using r j(1) i by (intro ext, rename_tac y, case_tac y) (auto intro: Option.bind_cong)
qed

lemma split_flags:
  assumes "f = e AND NOT (push_bit 10 PTE_PPN_MASK)"
  shows "take_bit 10 (pte p f) = take_bit 10 e" and "bit f n \<Longrightarrow> n < 10 \<or> 54 \<le> n"
proof -
  have f: "bit f n \<longleftrightarrow> bit e n \<and> (n < 10 \<or> 54 \<le> n)" for n
    unfolding assms by (auto simp: bit_and_iff bit_not_iff bit_push_bit_iff PTE_PPN_MASK_eq bit_mask_iff
        dest: bit_imp_le_length)
  show "take_bit 10 (pte p f) = take_bit 10 e"
    by (rule bit_word_eqI) (auto simp: bit_take_bit_iff bit_pte f)
  show "bit f n \<Longrightarrow> n < 10 \<or> 54 \<le> n" using f by simp
qed

lemma mod_superpage: "w mod 2 ^ 21 = vpn0 w * 4096 + w mod 2 ^ 12"
  using mod_mult2_eq [of w 4096 512] by (simp add: vpn0_def mult.commute)

lemma split_leaf:
  assumes leaf: "pte_valid e" and al: "2 ^ 21 dvd pte_addr e" and f: "f = e AND NOT (push_bit 10 PTE_PPN_MASK)"
    and k: "k < 512"
  shows "pte_addr (pte (pte_addr e + k * 4096) f) = pte_addr e + k * 4096"
    and "pte_valid (pte (pte_addr e + k * 4096) f)" and "pte_addr e + 2 ^ 21 \<le> 2 ^ 56"
proof -
  obtain q where q: "pte_addr e = 2 ^ 21 * q" using al by blast
  then have "q < 2 ^ 35" using pte_addr_less [of e] by simp
  then show lim: "pte_addr e + 2 ^ 21 \<le> 2 ^ 56" unfolding q by simp
  show "pte_addr (pte (pte_addr e + k * 4096) f) = pte_addr e + k * 4096"
  proof (rule pte_addr_pte_gen)
    have "k * 4096 + 4096 \<le> 2 ^ 21" using k by simp
    then show "pte_addr e + k * 4096 < 2 ^ 56" using lim by linarith
    have "4096 dvd pte_addr e" unfolding q by simp
    then show "(pte_addr e + k * 4096) mod 4096 = 0" by (simp add: mod_eq_0_iff_dvd)
  qed (rule split_flags(2) [OF f])
  have "bit f 0" using leaf unfolding f pte_valid_bit by (simp add: bit_and_iff bit_not_iff bit_push_bit_iff)
  then show "pte_valid (pte (pte_addr e + k * 4096) f)" by (simp add: pte_valid_bit pte_flag_bits)
qed

text \<open>Replacing a 2 MiB leaf by a table of equal 4 KiB leaves changes no translation.\<close>

lemma relink_translate:
  assumes w: "pt_wf (pmem s) root A" and t: "node_at (pmem s) root (N1 i) = Some t"
    and e: "e = ent (pmem s) t j" "pte_valid e" "pte_leaf e" and al: "2 ^ 21 dvd pte_addr e"
    and f: "f = e AND NOT (push_bit 10 PTE_PPN_MASK)"
    and node: "node_at (pmem s') root (N0 i j) = Some p"
    and new: "\<And>k. k < 512 \<Longrightarrow> ent (pmem s') p k = pte (pte_addr e + k * 4096) f"
    and ent: "\<And>y b n. node_at (pmem s) root y = Some b \<Longrightarrow> n < 512 \<Longrightarrow> \<not> (b = t \<and> n = j) \<Longrightarrow>
      ent (pmem s') b n = ent (pmem s) b n"
  shows "translate s' root w = translate s root w"
proof (cases "vpn2 w = i \<and> vpn1 w = j")
  case True
  note sl = split_leaf [OF e(2) al f vpn_bounds(3) [of w]]
  have "translate s' root w = Some (pte_addr e + vpn0 w * 4096 + w mod 2 ^ 12, take_bit 10 e)"
    using node new [OF vpn_bounds(3) [of w]] sl(1,2) split_flags(1) [OF f] True unfolding translate_cases
    by (auto simp: bind_eq_Some_conv split: if_splits)
  moreover have "translate s root w = Some (pte_addr e + w mod 2 ^ 21, take_bit 10 e)"
    unfolding translate_cases using True t e by (auto simp: tbl_def split: if_splits)
  ultimately show ?thesis unfolding mod_superpage by simp
next
  case False
  have er: "ent (pmem s') root (vpn2 w) = ent (pmem s) root (vpn2 w)"
    using ent [of Root root "vpn2 w"] pt_wf_inj [OF w t, of Root] by auto
  have et: "ent (pmem s') u (vpn1 w) = ent (pmem s) u (vpn1 w)" if "tbl (pmem s) root (vpn2 w) = Some u" for u
    using ent [of "N1 (vpn2 w)" u "vpn1 w"] that pt_wf_inj [OF w t, of "N1 (vpn2 w)"] False by auto
  have eu: "ent (pmem s') u (vpn0 w) = ent (pmem s) u (vpn0 w)"
    if "tbl (pmem s) root (vpn2 w) = Some q" "tbl (pmem s) q (vpn1 w) = Some u" for q u
    using ent [of "N0 (vpn2 w) (vpn1 w)" u "vpn0 w"] that pt_wf_inj [OF w t, of "N0 (vpn2 w) (vpn1 w)"] by auto
  show ?thesis unfolding translate_def Let_def er using et eu by (auto simp: tbl_def)
qed

text \<open>
  Splitting a superpage. \<^verbatim>\<open>split_superpage\<close> on a 2 MiB leaf that is aligned to its size (as Sv39
  requires) never panics and changes the translation (address and permission bits) of no virtual
  address; on success the region is translated by a leaf table, and it fails only when RAM is
  exhausted.
\<close>

theorem split_superpage_translation:
  assumes i: "buddy_inv s A" "phys_ok s" and w: "pt_wf (pmem s) root A"
    and t: "node_at (pmem s) root (N1 (vpn2 v)) = Some t" and e: "e = ent (pmem s) t (vpn1 v)"
    and leaf: "pte_valid e" "pte_leaf e" and al: "2 ^ 21 dvd pte_addr e"
  shows "\<exists>r s' A'. split_superpage s root v = Some (r, s') \<and> buddy_inv s' A' \<and> A \<subseteq> A' \<and> pt_wf (pmem s') root A' \<and>
     (\<forall>w. translate s' root w = translate s root w) \<and>
     (r = Ok () \<longrightarrow> node_at (pmem s') root (N0 (vpn2 v) (vpn1 v)) \<noteq> None) \<and>
     (r = Err () \<longrightarrow> free_page_count s' = Some 0)"
proof -
  have t1: "tbl (pmem s) root (vpn2 v) = Some t" using t by simp
  have none: "tbl (pmem s) t (vpn1 v) = None" using leaf e by (simp add: tbl_def)
  obtain r s1 where a: "alloc_pages s 0 = Some (r, s1)"
    using buddy.alloc_ok [OF i(1), of 0] by (auto simp: alloc_pages_def)
  have unf: "split_superpage s root v =
      qmark (ok_or () (alloc_pages s 0)) (\<lambda>sub s2. do {
        s3 \<leftarrow> zero_page s2 sub;
        s4 \<leftarrow> split_fill s3 sub (pte_addr e) (e AND NOT (push_bit PTE_PPN_SHIFT PTE_PPN_MASK)) 0 512;
        Some (Ok (), pte_write s4 t (vpn1 v) (pte sub PTE_V)) })"
    using leaf e by (simp add: split_superpage_def ensure_table_present [OF t1] pte_read_ent Let_def)
  show ?thesis
  proof (cases r)
    case None
    then have x: "pt_ext s A s1 A root" using pt_ext_nomem [OF i(1) w] a by simp
    have o: "\<forall>b\<in>A. \<forall>x\<in>region b. pmem s1 x = pmem s x"
      using buddy.alloc_ok [OF i(1), of 0] a by (auto simp: alloc_pages_def)
    have "translate s1 root w = translate s root w" for w
      by (rule translate_frame) (use o pt_wf_owned [OF w] in \<open>unfold same_on_def, blast\<close>)
    moreover have "free_page_count s1 = Some 0" by (rule alloc_none_full [OF i(1)]) (use a None in simp)
    ultimately show ?thesis using pt_extD(1,3) [OF x] a None unfolding unf
      by (intro exI [of _ "Err ()"] exI [of _ s1] exI [of _ A]) simp
  next
    case (Some p)
    obtain s2 where s2: "zero_page s1 p = Some s2" "buddy_inv s2 (insert (p, 0) A)" "(p, 0) \<notin> A"
      "\<forall>b\<in>A. \<forall>x\<in>region b. pmem s2 x = pmem s x"
      using alloc_zero_page [OF i(1)] a Some by blast
    have g2: "same_geom s s2" using alloc_geom [OF i(1)] a s2(1)
      by (auto simp: alloc_pages_def zero_page_def same_geom_def bind_eq_Some_conv)
    define f where "f = e AND NOT (push_bit 10 PTE_PPN_MASK)"
    note lim = split_leaf(3) [OF leaf(1) al f_def, of 0, simplified]
    obtain s4 where s4: "split_fill s2 p (pte_addr e) f 0 512 = Some s4" "buddy_inv s4 (insert (p, 0) A)" "same_geom s2 s4"
      "\<forall>k<512. ent (pmem s4) p k = pte (pte_addr e + k * 4096) f"
      "\<forall>b\<in>insert (p, 0) A. b \<noteq> (p, 0) \<longrightarrow> (\<forall>x\<in>region b. pmem s4 x = pmem s2 x)"
      using split_fill_ok [OF s2(2), of p "pte_addr e" 0 512 f] lim by auto
    let ?s = "pte_write s4 t (vpn1 v) (pte p PTE_V)"
    have fr: "same_on (pmem s) (pmem s4) b" if "node_at (pmem s) root y = Some b" for y b
      using s2(3,4) s4(5) pt_wf_owned [OF w that] unfolding same_on_def by (metis insertCI prod.inject)
    have n4: "node_at (pmem s4) root = node_at (pmem s) root" by (rule ext) (rule node_at_frame [OF fr])
    have w4: "pt_wf (pmem s4) root A" using w unfolding pt_wf_def n4 .
    have ph: "phys_ok s4" using i(2) g2 s4(3) by (simp add: phys_ok_def same_geom_def)
    have pp: "pte_addr (pte p PTE_V) = p" using owned_page [OF s4(2), of p] ph by (intro pte_addr_pte) auto
    have t4: "node_at (pmem s4) root (N1 (vpn2 v)) = Some t" using t unfolding n4 .
    have no4: "tbl (pmem s4) t (vpn1 v) = None" using none tbl_same [OF fr [OF t]] by simp
    note ll = link_leaf_table [OF w4 buddy_inv_apart [OF s4(2)] t4 vpn_bounds(2) no4 s2(3) pte_table pp]
    have ent: "ent (pmem ?s) b n = ent (pmem s) b n" if "node_at (pmem s) root y = Some b" "n < 512" "\<not> (b = t \<and> n = vpn1 v)" for y b n
      using ll(3) [of y b n] that ent_same [OF fr [OF that(1)] that(2)] unfolding n4 by simp
    have tr: "translate ?s root w = translate s root w" for w
      by (rule relink_translate [OF w t e leaf al f_def, of _ p]) (use ll(1,2) s4(4) ent in simp_all)
    have "split_superpage s root v = Some (Ok (), ?s)"
      unfolding unf using a Some s2(1) s4(1) by (simp add: f_def)
    moreover have "pt_wf (pmem ?s) root (insert (p, 0) A)" by (rule link_wf [OF w4 _ s2(3)]) (use ll(1) in simp)
    moreover have "buddy_inv ?s (insert (p, 0) A)"
      by (rule pte_write_inv [OF s4(2) _ vpn_bounds(2)]) (use pt_wf_owned [OF w t] in simp)
    moreover have "node_at (pmem ?s) root (N0 (vpn2 v) (vpn1 v)) \<noteq> None" using ll(1) by simp
    ultimately show ?thesis using tr by blast
  qed
qed

text \<open>A 2 MiB leaf at virtual address 0x40000000 in the concrete address space.\<close>

lemma demo_superpage:
  obtains s root A t e where "buddy_inv s A" "phys_ok s" "pt_wf (pmem s) root A"
    "node_at (pmem s) root (N1 (vpn2 0x40000000)) = Some t" "e = ent (pmem s) t (vpn1 0x40000000)"
    "pte_valid e" "pte_leaf e" "pte_addr e = 0x80000000"
proof -
  obtain s root p where d: "buddy_inv s {(p, 0), (root, 0)}" "phys_ok s" "as_wf s root {(p, 0), (root, 0)}" "p \<noteq> root"
    "\<forall>j<512. ent (pmem s) root j = 0" "\<forall>j<512. ent (pmem s) p j = 0"
    by (rule demo_space) (rule that; assumption)
  define e where "e = pte 0x80000000 PTE_LEAF_RW"
  let ?s1 = "pte_write s root 1 (pte p PTE_V)"
  let ?s2 = "pte_write ?s1 p 0 e"
  have e: "pte_valid e" "pte_leaf e" "pte_addr e = 0x80000000"
    unfolding e_def by (auto simp: pte_valid_bit pte_leaf_bit pte_flag_bits PTE_LEAF_RW_def PTE_V_def PTE_R_def
        PTE_W_def PTE_A_def PTE_D_def bit_or_iff intro!: pte_addr_pte)
  have i1: "buddy_inv ?s1 {(p, 0), (root, 0)}" by (rule pte_write_inv [OF d(1)]) auto
  have i2: "buddy_inv ?s2 {(p, 0), (root, 0)}" by (rule pte_write_inv [OF i1]) auto
  have sep: "region (root, 0) \<inter> region (p, 0) = {}"
    by (rule apartD [OF buddy_inv_apart [OF d(1)]]) (use d(4) in auto)
  have r: "ent (pmem ?s2) root j = (if j = 1 then pte p PTE_V else 0)" if "j < 512" for j
    using ent_store64 [of p root 0 j] ent_store64 [of root root 1 j] sep d(4,5) that by (auto simp: Int_commute)
  have q: "ent (pmem ?s2) p j = (if j = 0 then e else 0)" if "j < 512" for j
    using ent_store64 [of p p 0 j] ent_store64 [of root p 1 j] sep d(4,6) that by auto
  have pp: "pte_addr (pte p PTE_V) = p" using owned_page [OF d(1) _ d(2), of p] by (intro pte_addr_pte) auto
  have tr: "tbl (pmem ?s2) root j = (if j = 1 then Some p else None)" if "j < 512" for j
    unfolding tbl_def r [OF that] using pp by simp
  have tp: "tbl (pmem ?s2) p j = None" if "j < 512" for j using q [OF that] e by (simp add: tbl_def)
  have nodes: "node_at (pmem ?s2) root y = (if y = Root then Some root else if y = N1 1 then Some p else None)" for y
    using tr tp by (cases y) (auto simp del: pte_write_pmem split: if_splits)
  have "pt_wf (pmem ?s2) root {(p, 0), (root, 0)}"
    unfolding pt_wf_def nodes using d(4) by (auto split: if_splits)
  moreover have "phys_ok ?s2" using d(2) by (simp add: phys_ok_def pte_write_def)
  moreover have "vpn2 0x40000000 = 1" "vpn1 0x40000000 = 0" by (simp_all add: vpn2_def vpn1_def)
  ultimately show ?thesis
    using i2 e q [of 0] nodes [of "N1 1"] by (intro that [of ?s2 "{(p, 0), (root, 0)}" root p e]) (simp_all del: pte_write_pmem node_at.simps)
qed

theorem split_superpage_translation_witness:
  "\<exists>s root r s'. split_superpage s root 0x40000000 = Some (r, s') \<and>
     fst (the (translate s root 0x40001234)) = 0x80001234 \<and>
     fst (the (translate s' root 0x40001234)) = 0x80001234"
proof -
  obtain s root A t e where d: "buddy_inv s A" "phys_ok s" "pt_wf (pmem s) root A"
    "node_at (pmem s) root (N1 (vpn2 0x40000000)) = Some t" "e = ent (pmem s) t (vpn1 0x40000000)"
    "pte_valid e" "pte_leaf e" "pte_addr e = 0x80000000" by (rule demo_superpage) (rule that; assumption)
  have al: "2 ^ 21 dvd pte_addr e" unfolding d(8) by simp
  obtain r s' where s': "split_superpage s root 0x40000000 = Some (r, s')" "\<forall>w. translate s' root w = translate s root w"
    using split_superpage_translation [OF d(1-7) al] by blast
  have "vpn2 0x40001234 = vpn2 0x40000000" "vpn1 0x40001234 = vpn1 0x40000000" by (simp_all add: vpn2_def vpn1_def)
  then have "translate s root 0x40001234 = Some (0x80001234, take_bit 10 e)"
    unfolding translate_cases using d(4-8) by (auto simp: tbl_def split: if_splits)
  then have "fst (the (translate s root 0x40001234)) = 0x80001234"
    "fst (the (translate s' root 0x40001234)) = 0x80001234" using s'(2) by simp_all
  then show ?thesis using s'(1) by blast
qed

end
