(* ===== verification/Process.thy ===== *)
theory Process
  imports Mmu
begin

text \<open>
  Model of the kernel's object tables and of src/kernel/src/process.rs (process table and capability
  slots), src/kernel/src/services.rs, src/kernel/src/device.rs, src/kernel/src/shm.rs and
  src/kernel/src/pages.rs. These modules call one another (\<^verbatim>\<open>cap_revoke\<close> and \<^verbatim>\<open>destroy\<close> of
  process.rs call shm.rs and pages.rs, which read and write the process table), so they share the
  record \<open>kernel\<close>. Its field \<open>k_sie\<close> is the interrupt enable bit of the running hart:
  \<^verbatim>\<open>irq_save\<close>/\<^verbatim>\<open>irq_restore\<close> pairs leave it as it was and are not written out; the one early return
  that skips the restore is.
\<close>

section \<open>Error codes and capabilities\<close>

definition SYS_ERR_EINVAL :: usize where "SYS_ERR_EINVAL = USIZE_MAX"
definition SYS_ERR_EACCES :: usize where "SYS_ERR_EACCES = USIZE_MAX - 1"
definition SYS_ERR_ENOENT :: usize where "SYS_ERR_ENOENT = USIZE_MAX - 2"
definition SYS_ERR_ENOMEM :: usize where "SYS_ERR_ENOMEM = USIZE_MAX - 3"
definition SYS_ERR_EEXIST :: usize where "SYS_ERR_EEXIST = USIZE_MAX - 6"
definition SYS_ERR_ENOSYS :: usize where "SYS_ERR_ENOSYS = USIZE_MAX"

definition MAX_PROCESSES :: nat where [simp]: "MAX_PROCESSES = 32"
definition MAX_CAPS :: nat where [simp]: "MAX_CAPS = 8"
definition MAX_SHMS :: nat where [simp]: "MAX_SHMS = 16"
definition MAX_PAGE_RECORDS :: nat where [simp]: "MAX_PAGE_RECORDS = 64"
definition MAX_DEVICES :: nat where [simp]: "MAX_DEVICES = 8"
definition MAX_SERVICES :: nat where [simp]: "MAX_SERVICES = 8"
definition SHM_VA :: usize where [simp]: "SHM_VA = 0x50000000"
definition SHM_LEN :: usize where [simp]: "SHM_LEN = 4096"
definition MAP_FLAGS :: u64 where "MAP_FLAGS = 0xC7"
definition DEVICE_FLAGS :: u64 where "DEVICE_FLAGS = 0xC7"

datatype cap = Proc nat | Shm nat | Page nat

datatype cap_error = InvalidSlot | NotFound | WrongType | ShmNotFound | PageNotFound

fun cap_errno :: "cap_error \<Rightarrow> usize" where
  "cap_errno InvalidSlot = SYS_ERR_EINVAL"
| "cap_errno WrongType = SYS_ERR_EINVAL"
| "cap_errno NotFound = SYS_ERR_EACCES"
| "cap_errno ShmNotFound = SYS_ERR_ENOENT"
| "cap_errno PageNotFound = SYS_ERR_ENOENT"

section \<open>State\<close>

record process =
  p_id :: usize
  p_root :: usize
  p_caps :: "cap option list"

record shared_page =
  sh_id :: usize
  sh_paddr :: usize
  sh_owners :: "(nat \<times> nat) list"

record page_record =
  pr_id :: usize
  pr_paddr :: usize
  pr_owner :: nat
  pr_map_va :: "usize option"

record service_entry =
  se_id :: nat
  se_pid :: nat

text \<open>A slot table: a vector and the queue of slots that can be reused.\<close>

record 'a slot_table =
  st_slots :: "'a list"
  st_free :: "nat list"

record kernel =
  k_mm :: mm
  k_sie :: bool
  k_procs :: "process slot_table"
  k_shms :: "shared_page slot_table"
  k_pages :: "page_record slot_table"
  k_devices :: "(nat \<times> usize) option list"
  k_services :: "service_entry option list"

type_synonym ('a, 'e) k_result = "(('a, 'e) result \<times> kernel) outcome"

definition kernel_static :: "mm \<Rightarrow> kernel" where
  "kernel_static m = \<lparr>k_mm = m, k_sie = False, k_procs = \<lparr>st_slots = [], st_free = []\<rparr>,
     k_shms = \<lparr>st_slots = [], st_free = []\<rparr>, k_pages = \<lparr>st_slots = [], st_free = []\<rparr>,
     k_devices = replicate MAX_DEVICES None, k_services = replicate MAX_SERVICES None\<rparr>"

text \<open>
  Taking a slot, the code \<^verbatim>\<open>create\<close>, \<^verbatim>\<open>mmap_share\<close> and \<^verbatim>\<open>alloc\<close> share: the oldest free slot, or a
  new one at the end; \<open>mk\<close> builds the entry for the index taken.
\<close>

definition take_slot :: "'a slot_table \<Rightarrow> (nat \<Rightarrow> 'a) \<Rightarrow> (nat \<times> 'a slot_table) outcome" where
  "take_slot t mk =
     (case st_free t of
        idx # rest \<Rightarrow>
          (if idx < length (st_slots t)
           then Some (idx, t\<lparr>st_slots := (st_slots t)[idx := mk idx], st_free := rest\<rparr>) else None)
      | [] \<Rightarrow> (let idx = length (st_slots t) in Some (idx, t\<lparr>st_slots := st_slots t @ [mk idx]\<rparr>)))"

text \<open>\<^verbatim>\<open>slots.get(i).filter(|e| e.id == i)\<close>\<close>

definition get_slot :: "('a \<Rightarrow> usize) \<Rightarrow> 'a slot_table \<Rightarrow> nat \<Rightarrow> 'a option" where
  "get_slot ident t i =
     (if i < length (st_slots t) \<and> ident (st_slots t ! i) = i then Some (st_slots t ! i) else None)"

definition put_slot :: "'a slot_table \<Rightarrow> nat \<Rightarrow> 'a \<Rightarrow> 'a slot_table" where
  "put_slot t i x = t\<lparr>st_slots := (st_slots t)[i := x]\<rparr>"

section \<open>Process table and capability slots\<close>

definition get_proc :: "kernel \<Rightarrow> nat \<Rightarrow> process option" where
  "get_proc k pid = get_slot p_id (k_procs k) pid"

definition put_proc :: "kernel \<Rightarrow> nat \<Rightarrow> process \<Rightarrow> kernel" where
  "put_proc k pid p = k\<lparr>k_procs := put_slot (k_procs k) pid p\<rparr>"

definition create :: "layout \<Rightarrow> kernel \<Rightarrow> (nat, unit) k_result" where
  "create ly k =
     (let live = length (st_slots (k_procs k)) - length (st_free (k_procs k)) in
      if MAX_PROCESSES \<le> live then Some (Err (), k)
      else do {
        (r, m) \<leftarrow> create_user_root ly (k_mm k);
        let k1 = k\<lparr>k_mm := m\<rparr>;
        (case r of
           Err _ \<Rightarrow> Some (Err (), k1)
         | Ok root \<Rightarrow> do {
             (pid, t) \<leftarrow> take_slot (k_procs k1)
               (\<lambda>idx. \<lparr>p_id = idx, p_root = root, p_caps = replicate MAX_CAPS None\<rparr>);
             Some (Ok pid, k1\<lparr>k_procs := t\<rparr>) }) })"

definition root_of :: "kernel \<Rightarrow> nat \<Rightarrow> usize outcome" where
  "root_of k pid = (case get_proc k pid of Some p \<Rightarrow> Some (p_root p) | None \<Rightarrow> None)"

definition grant_typed_cap :: "kernel \<Rightarrow> nat \<Rightarrow> nat \<Rightarrow> cap \<Rightarrow> (unit, cap_error) result \<times> kernel" where
  "grant_typed_cap k pid slot c =
     (if MAX_CAPS \<le> slot then (Err InvalidSlot, k)
      else (case get_proc k pid of
          Some p \<Rightarrow> (Ok (), put_proc k pid (p\<lparr>p_caps := (p_caps p)[slot := Some c]\<rparr>))
        | None \<Rightarrow> (Err NotFound, k)))"

definition grant_cap :: "kernel \<Rightarrow> nat \<Rightarrow> nat \<Rightarrow> nat \<Rightarrow> (unit, cap_error) result \<times> kernel" where
  "grant_cap k pid slot target_pid = grant_typed_cap k pid slot (Proc target_pid)"

definition grant_shm_cap :: "kernel \<Rightarrow> nat \<Rightarrow> nat \<Rightarrow> nat \<Rightarrow> (unit, cap_error) result \<times> kernel" where
  "grant_shm_cap k pid slot shm_id = grant_typed_cap k pid slot (Shm shm_id)"

definition cap_target :: "kernel \<Rightarrow> nat \<Rightarrow> nat \<Rightarrow> (cap, cap_error) result" where
  "cap_target k pid slot =
     (if MAX_CAPS \<le> slot then Err InvalidSlot
      else (case get_proc k pid of
          Some p \<Rightarrow> (case p_caps p ! slot of Some c \<Rightarrow> Ok c | None \<Rightarrow> Err NotFound)
        | None \<Rightarrow> Err NotFound))"

definition cap_duplicate :: "kernel \<Rightarrow> nat \<Rightarrow> nat \<Rightarrow> nat \<Rightarrow> (unit, cap_error) result \<times> kernel" where
  "cap_duplicate k pid from to =
     (if MAX_CAPS \<le> from \<or> MAX_CAPS \<le> to then (Err InvalidSlot, k)
      else (case get_proc k pid of
          Some p \<Rightarrow>
            (case p_caps p ! from of
               Some c \<Rightarrow>
                 (case c of
                    Page _ \<Rightarrow> (Err WrongType, k)
                  | _ \<Rightarrow> (Ok (), put_proc k pid (p\<lparr>p_caps := (p_caps p)[to := Some c]\<rparr>)))
             | None \<Rightarrow> (Err NotFound, k))
        | None \<Rightarrow> (Err NotFound, k)))"

definition clear_cap :: "kernel \<Rightarrow> nat \<Rightarrow> nat \<Rightarrow> (unit, cap_error) result \<times> kernel" where
  "clear_cap k pid slot =
     (if MAX_CAPS \<le> slot then (Err InvalidSlot, k)
      else (case get_proc k pid of
          Some p \<Rightarrow> (Ok (), put_proc k pid (p\<lparr>p_caps := (p_caps p)[slot := None]\<rparr>))
        | None \<Rightarrow> (Err NotFound, k)))"

definition pid_root :: "kernel \<Rightarrow> nat \<Rightarrow> usize option" where
  "pid_root k pid = map_option p_root (get_proc k pid)"

section \<open>Services\<close>

definition register_locked :: "kernel \<Rightarrow> nat \<Rightarrow> nat \<Rightarrow> (unit, usize) result \<times> kernel" where
  "register_locked k pid svc =
     (if svc = 0 \<or> MAX_SERVICES \<le> svc then (Err SYS_ERR_EINVAL, k)
      else (case k_services k ! svc of
          Some _ \<Rightarrow> (Err SYS_ERR_EEXIST, k)
        | None \<Rightarrow> (Ok (), k\<lparr>k_services := (k_services k)[svc := Some \<lparr>se_id = svc, se_pid = pid\<rparr>]\<rparr>)))"

definition unregister_all_locked :: "kernel \<Rightarrow> nat \<Rightarrow> kernel" where
  "unregister_all_locked k pid =
     k\<lparr>k_services := map (\<lambda>s. case s of Some e \<Rightarrow> if se_pid e = pid then None else Some e | None \<Rightarrow> None)
       (k_services k)\<rparr>"

definition register_service :: "kernel \<Rightarrow> nat \<Rightarrow> nat \<Rightarrow> (unit, usize) result \<times> kernel" where
  "register_service k pid svc =
     (case get_proc k pid of
        None \<Rightarrow> (Err SYS_ERR_EACCES, k)
      | Some _ \<Rightarrow> register_locked k pid svc)"

definition lookup_service :: "kernel \<Rightarrow> nat \<Rightarrow> nat option" where
  "lookup_service k svc =
     (if svc < length (k_services k) then
        (case k_services k ! svc of
           Some e \<Rightarrow> if se_id e = svc then Some (se_pid e) else None
         | None \<Rightarrow> None)
      else None)"

definition connect :: "kernel \<Rightarrow> nat \<Rightarrow> nat \<Rightarrow> nat \<Rightarrow> nat \<Rightarrow> (unit, usize) result \<times> kernel" where
  "connect k caller svc client_slot server_slot =
     (case lookup_service k svc of
        None \<Rightarrow> (Err SYS_ERR_ENOENT, k)
      | Some server_pid \<Rightarrow>
          if server_pid = caller then (Err SYS_ERR_EACCES, k)
          else if MAX_CAPS \<le> client_slot \<or> MAX_CAPS \<le> server_slot then (Err SYS_ERR_EINVAL, k)
          else (case grant_cap k caller client_slot server_pid of
              (Err e, k1) \<Rightarrow> (Err (cap_errno e), k1)
            | (Ok _, k1) \<Rightarrow>
                (case grant_cap k1 server_pid server_slot caller of
                   (Err e, k2) \<Rightarrow> (Err (cap_errno e), snd (clear_cap k2 caller client_slot))
                 | (Ok _, k2) \<Rightarrow> (Ok (), k2))))"

section \<open>Devices\<close>

definition device_map :: "layout \<Rightarrow> kernel \<Rightarrow> nat \<Rightarrow> nat \<Rightarrow> usize \<Rightarrow> (unit, usize) k_result" where
  "device_map ly k caller dev_id va =
     (if dev_id \<noteq> 0 then Some (Err SYS_ERR_EINVAL, k)
      else
        (let paddr = ly_uart_base ly in
         if USER_VA_LIMIT \<le> va \<or> va mod 4096 \<noteq> 0 \<or> paddr mod 4096 \<noteq> 0 then Some (Err SYS_ERR_EINVAL, k)
         else (case pid_root k caller of
             None \<Rightarrow> Some (Err SYS_ERR_EACCES, k)
           | Some root \<Rightarrow>
               (case k_devices k ! dev_id of
                  Some (owner, owner_va) \<Rightarrow>
                    if owner \<noteq> caller then Some (Err SYS_ERR_EEXIST, k)
                    else if owner_va \<noteq> va then Some (Err SYS_ERR_EINVAL, k)
                    else Some (Ok (), k)
                | None \<Rightarrow> do {
                    (r, m) \<leftarrow> map_device_page (k_mm k) root va paddr DEVICE_FLAGS;
                    let k1 = k\<lparr>k_mm := m\<rparr>;
                    (case r of
                       Ok _ \<Rightarrow> Some (Ok (), k1\<lparr>k_devices := (k_devices k1)[dev_id := Some (caller, va)]\<rparr>)
                     | Err _ \<Rightarrow> Some (Err SYS_ERR_EINVAL, k1)) }))))"

definition release_all :: "kernel \<Rightarrow> nat \<Rightarrow> kernel" where
  "release_all k pid =
     k\<lparr>k_devices := map (\<lambda>s. case s of Some (owner, va) \<Rightarrow> if owner = pid then None else Some (owner, va)
         | None \<Rightarrow> None) (k_devices k)\<rparr>"

end
