(* ===== verification/Objects.thy ===== *)
theory Objects
  imports Process
begin

text \<open>
  Model of src/kernel/src/shm.rs and src/kernel/src/pages.rs, and of the two operations of
  src/kernel/src/process.rs that depend on them: \<^verbatim>\<open>cap_revoke\<close> and \<^verbatim>\<open>destroy\<close>. The TLB shootdown is
  not modelled.
\<close>

section \<open>Effects on memory\<close>

text \<open>\<^verbatim>\<open>unmap_4k(..).ok()\<close> and \<^verbatim>\<open>free_pages(..).ok()\<close>: the result is dropped, a panic is not.\<close>

definition unmap_ok :: "kernel \<Rightarrow> usize \<Rightarrow> usize \<Rightarrow> kernel outcome" where
  "unmap_ok k root va = do { (_, m) \<leftarrow> unmap_4k (k_mm k) root va; Some (k\<lparr>k_mm := m\<rparr>) }"

definition free_pages_ok :: "kernel \<Rightarrow> usize \<Rightarrow> kernel outcome" where
  "free_pages_ok k paddr = do { (_, m) \<leftarrow> free_pages (k_mm k) paddr; Some (k\<lparr>k_mm := m\<rparr>) }"

section \<open>Shared pages\<close>

definition get_shm :: "kernel \<Rightarrow> nat \<Rightarrow> shared_page option" where
  "get_shm k sid = get_slot sh_id (k_shms k) sid"

fun shm_revoke_owners :: "kernel \<Rightarrow> (nat \<times> nat) list \<Rightarrow> kernel outcome" where
  "shm_revoke_owners k [] = Some k"
| "shm_revoke_owners k ((owner_pid, owner_slot) # rest) = do {
     k1 \<leftarrow> (case pid_root k owner_pid of Some root \<Rightarrow> unmap_ok k root SHM_VA | None \<Rightarrow> Some k);
     shm_revoke_owners (snd (clear_cap k1 owner_pid owner_slot)) rest }"

definition shm_revoke :: "kernel \<Rightarrow> nat \<Rightarrow> (unit, unit) k_result" where
  "shm_revoke k sid =
     (case get_shm k sid of
        None \<Rightarrow> Some (Err (), k)
      | Some sp \<Rightarrow> do {
          let k1 = k\<lparr>k_shms := \<lparr>st_slots = (st_slots (k_shms k))[sid := sp\<lparr>sh_id := USIZE_MAX\<rparr>],
                                st_free = st_free (k_shms k) @ [sid]\<rparr>\<rparr>;
          k2 \<leftarrow> shm_revoke_owners k1 (sh_owners sp);
          (r, m) \<leftarrow> free_pages (k_mm k2) (sh_paddr sp);
          Some (r, k2\<lparr>k_mm := m\<rparr>) })"

definition shm_paddr :: "kernel \<Rightarrow> nat \<Rightarrow> usize option" where
  "shm_paddr k sid = map_option sh_paddr (get_shm k sid)"

text \<open>Steps 3 to 6 of \<^verbatim>\<open>mmap_share\<close>, after the checks.\<close>

definition mmap_share_commit ::
  "kernel \<Rightarrow> nat \<Rightarrow> nat \<Rightarrow> nat \<Rightarrow> nat \<Rightarrow> usize \<Rightarrow> (nat, usize) k_result" where
  "mmap_share_commit k caller a_slot peer b_slot paddr = do {
     (sid, t) \<leftarrow> take_slot (k_shms k)
       (\<lambda>idx. \<lparr>sh_id = idx, sh_paddr = paddr, sh_owners = [(caller, a_slot), (peer, b_slot)]\<rparr>);
     let k1 = k\<lparr>k_shms := t\<rparr>;
     (case grant_shm_cap k1 caller a_slot sid of
        (Err _, k2) \<Rightarrow> do { (_, k3) \<leftarrow> shm_revoke k2 sid; Some (Err SYS_ERR_ENOMEM, k3) }
      | (Ok _, k2) \<Rightarrow>
          (case grant_shm_cap k2 peer b_slot sid of
             (Err _, k3) \<Rightarrow> do { (_, k4) \<leftarrow> shm_revoke k3 sid; Some (Err SYS_ERR_ENOMEM, k4) }
           | (Ok _, k3) \<Rightarrow> Some (Ok sid, k3))) }"

definition mmap_share_map ::
  "kernel \<Rightarrow> nat \<Rightarrow> nat \<Rightarrow> nat \<Rightarrow> nat \<Rightarrow> usize \<Rightarrow> usize \<Rightarrow> (nat, usize) k_result" where
  "mmap_share_map k caller a_slot peer b_slot root_a root_b = do {
     (r, m) \<leftarrow> alloc_pages_zeroed (k_mm k) 0;
     let k = k\<lparr>k_mm := m\<rparr>;
     (case r of
        None \<Rightarrow> Some (Err SYS_ERR_ENOMEM, k)
      | Some paddr \<Rightarrow> do {
          (ra, m) \<leftarrow> map_user_page (k_mm k) root_a SHM_VA paddr MAP_FLAGS;
          let k = k\<lparr>k_mm := m\<rparr>;
          if \<not> is_ok ra then do { k \<leftarrow> free_pages_ok k paddr; Some (Err SYS_ERR_EINVAL, k) }
          else do {
            (rb, m) \<leftarrow> map_user_page (k_mm k) root_b SHM_VA paddr MAP_FLAGS;
            let k = k\<lparr>k_mm := m\<rparr>;
            if \<not> is_ok rb then do {
              k \<leftarrow> unmap_ok k root_a SHM_VA;
              k \<leftarrow> free_pages_ok k paddr;
              Some (Err SYS_ERR_EINVAL, k) }
            else if MAX_SHMS \<le> length (st_slots (k_shms k)) then do {
              k \<leftarrow> unmap_ok k root_a SHM_VA;
              k \<leftarrow> unmap_ok k root_b SHM_VA;
              k \<leftarrow> free_pages_ok k paddr;
              Some (Err SYS_ERR_ENOMEM, k) }
            else mmap_share_commit k caller a_slot peer b_slot paddr } }) }"

definition mmap_share :: "kernel \<Rightarrow> nat \<Rightarrow> nat \<Rightarrow> nat \<Rightarrow> usize \<Rightarrow> (nat, usize) k_result" where
  "mmap_share k caller a_slot b_slot len =
     (if len \<noteq> SHM_LEN then Some (Err SYS_ERR_EINVAL, k)
      else (case cap_target k caller a_slot of
          Ok (Shm _) \<Rightarrow> Some (Err SYS_ERR_EINVAL, k)
        | Ok (Page _) \<Rightarrow> Some (Err SYS_ERR_EINVAL, k)
        | Err e \<Rightarrow> Some (Err (cap_errno e), k)
        | Ok (Proc peer) \<Rightarrow>
            if MAX_CAPS \<le> b_slot then Some (Err SYS_ERR_EINVAL, k)
            else (case pid_root k peer of
                None \<Rightarrow> Some (Err SYS_ERR_EACCES, k)
              | Some root_b \<Rightarrow>
                  (case pid_root k caller of
                     None \<Rightarrow> Some (Err SYS_ERR_EACCES, k)
                   | Some root_a \<Rightarrow> mmap_share_map k caller a_slot peer b_slot root_a root_b))))"

section \<open>Page capabilities\<close>

definition get_page :: "kernel \<Rightarrow> nat \<Rightarrow> page_record option" where
  "get_page k i = get_slot pr_id (k_pages k) i"

definition pages_alloc :: "kernel \<Rightarrow> nat \<Rightarrow> (nat, usize) k_result" where
  "pages_alloc k owner = do {
     (r, m) \<leftarrow> alloc_pages (k_mm k) 0;
     let k = k\<lparr>k_mm := m\<rparr>;
     (case r of
        None \<Rightarrow> Some (Err SYS_ERR_ENOMEM, k)
      | Some paddr \<Rightarrow>
          if MAX_PAGE_RECORDS \<le> length (st_slots (k_pages k)) then do {
            k \<leftarrow> free_pages_ok k paddr;
            Some (Err SYS_ERR_ENOMEM, k) }
          else do {
            (i, t) \<leftarrow> take_slot (k_pages k)
              (\<lambda>idx. \<lparr>pr_id = idx, pr_paddr = paddr, pr_owner = owner, pr_map_va = None\<rparr>);
            Some (Ok i, k\<lparr>k_pages := t\<rparr>) }) }"

definition pages_revoke :: "kernel \<Rightarrow> nat \<Rightarrow> (unit, unit) k_result" where
  "pages_revoke k i =
     (case get_page k i of
        None \<Rightarrow> Some (Err (), k)
      | Some rec \<Rightarrow> do {
          let k = k\<lparr>k_pages := \<lparr>st_slots = (st_slots (k_pages k))[i := rec\<lparr>pr_id := USIZE_MAX, pr_map_va := None\<rparr>],
                               st_free = st_free (k_pages k) @ [i]\<rparr>\<rparr>;
          k \<leftarrow> (case pr_map_va rec of
                  Some va \<Rightarrow> (case pid_root k (pr_owner rec) of Some root \<Rightarrow> unmap_ok k root va | None \<Rightarrow> Some k)
                | None \<Rightarrow> Some k);
          (r, m) \<leftarrow> free_pages (k_mm k) (pr_paddr rec);
          Some (r, k\<lparr>k_mm := m\<rparr>) })"

definition pages_grant :: "kernel \<Rightarrow> nat \<Rightarrow> nat \<Rightarrow> (unit, unit) k_result" where
  "pages_grant k i to_pid =
     (case get_page k i of
        None \<Rightarrow> Some (Err (), k)
      | Some rec \<Rightarrow> do {
          let k = k\<lparr>k_pages := put_slot (k_pages k) i (rec\<lparr>pr_map_va := None, pr_owner := to_pid\<rparr>)\<rparr>;
          k \<leftarrow> (case pr_map_va rec of
                  Some va \<Rightarrow> (case pid_root k (pr_owner rec) of Some root \<Rightarrow> unmap_ok k root va | None \<Rightarrow> Some k)
                | None \<Rightarrow> Some k);
          Some (Ok (), k) })"

definition mem_grant_move :: "kernel \<Rightarrow> nat \<Rightarrow> nat \<Rightarrow> nat \<Rightarrow> nat \<Rightarrow> nat \<Rightarrow> (unit, usize) k_result" where
  "mem_grant_move k caller src_slot i peer dst_slot = do {
     (r, k) \<leftarrow> pages_grant k i peer;
     (case r of
        Err _ \<Rightarrow> Some (Err SYS_ERR_ENOENT, k)
      | Ok _ \<Rightarrow>
          (case grant_typed_cap k peer dst_slot (Page i) of
             (Err _, k) \<Rightarrow> do { (_, k) \<leftarrow> pages_grant k i caller; Some (Err SYS_ERR_EEXIST, k) }
           | (Ok _, k) \<Rightarrow> Some (Ok (), snd (clear_cap k caller src_slot)))) }"

definition mem_grant :: "kernel \<Rightarrow> nat \<Rightarrow> nat \<Rightarrow> nat \<Rightarrow> nat \<Rightarrow> (unit, usize) k_result" where
  "mem_grant k caller src_slot peer_slot dst_slot =
     (case cap_target k caller src_slot of
        Err e \<Rightarrow> Some (Err (cap_errno e), k)
      | Ok (Proc _) \<Rightarrow> Some (Err (cap_errno WrongType), k)
      | Ok (Shm _) \<Rightarrow> Some (Err (cap_errno WrongType), k)
      | Ok (Page i) \<Rightarrow>
          (case cap_target k caller peer_slot of
             Err e \<Rightarrow> Some (Err (cap_errno e), k)
           | Ok (Shm _) \<Rightarrow> Some (Err (cap_errno WrongType), k)
           | Ok (Page _) \<Rightarrow> Some (Err (cap_errno WrongType), k)
           | Ok (Proc peer) \<Rightarrow>
               if pid_root k peer = None then Some (Err SYS_ERR_EACCES, k)
               else if MAX_CAPS \<le> dst_slot then Some (Err SYS_ERR_EINVAL, k)
               else (case cap_target k peer dst_slot of
                   Ok _ \<Rightarrow> Some (Err SYS_ERR_EEXIST, k)
                 | Err InvalidSlot \<Rightarrow> Some (Err SYS_ERR_EINVAL, k)
                 | Err _ \<Rightarrow> mem_grant_move k caller src_slot i peer dst_slot)))"

definition page_is_mapped :: "kernel \<Rightarrow> nat \<Rightarrow> bool" where
  "page_is_mapped k i = (case get_page k i of Some r \<Rightarrow> pr_map_va r \<noteq> None | None \<Rightarrow> False)"

definition page_paddr :: "kernel \<Rightarrow> nat \<Rightarrow> usize option" where
  "page_paddr k i = map_option pr_paddr (get_page k i)"

definition pages_map :: "kernel \<Rightarrow> nat \<Rightarrow> usize \<Rightarrow> (unit, unit) result \<times> kernel" where
  "pages_map k i va =
     (case get_page k i of
        Some r \<Rightarrow>
          if pr_map_va r \<noteq> None then (Err (), k)
          else (Ok (), k\<lparr>k_pages := put_slot (k_pages k) i (r\<lparr>pr_map_va := Some va\<rparr>)\<rparr>)
      | None \<Rightarrow> (Err (), k))"

definition mem_map_page :: "kernel \<Rightarrow> nat \<Rightarrow> usize \<Rightarrow> usize \<Rightarrow> usize \<Rightarrow> (unit, usize) k_result" where
  "mem_map_page k i root va paddr = do {
     (r, m) \<leftarrow> map_user_page (k_mm k) root va paddr MAP_FLAGS;
     let k = k\<lparr>k_mm := m\<rparr>;
     (case r of
        Err _ \<Rightarrow> Some (Err SYS_ERR_EINVAL, k)
      | Ok _ \<Rightarrow>
          (case pages_map k i va of
             (Ok _, k) \<Rightarrow> Some (Ok (), k)
           | (Err _, k) \<Rightarrow> do { k \<leftarrow> unmap_ok k root va; Some (Err SYS_ERR_EEXIST, k) })) }"

definition mem_map :: "kernel \<Rightarrow> nat \<Rightarrow> nat \<Rightarrow> usize \<Rightarrow> (unit, usize) k_result" where
  "mem_map k caller slot va =
     (if va mod PAGE_SIZE \<noteq> 0 \<or> USER_VA_LIMIT \<le> va then Some (Err SYS_ERR_EINVAL, k)
      else (case cap_target k caller slot of
          Err e \<Rightarrow> Some (Err (cap_errno e), k)
        | Ok (Proc _) \<Rightarrow> Some (Err (cap_errno WrongType), k)
        | Ok (Shm _) \<Rightarrow> Some (Err (cap_errno WrongType), k)
        | Ok (Page i) \<Rightarrow>
            if page_is_mapped k i then Some (Err SYS_ERR_EEXIST, k)
            else (case page_paddr k i of
                None \<Rightarrow> Some (Err SYS_ERR_ENOENT, k)
              | Some paddr \<Rightarrow>
                  (case pid_root k caller of
                     None \<Rightarrow> Some (Err SYS_ERR_EACCES, k)
                   | Some root \<Rightarrow> mem_map_page k i root va paddr))))"

section \<open>Revocation and process teardown\<close>

definition map_err :: "'f \<Rightarrow> ('a, 'e) result \<Rightarrow> ('a, 'f) result" where
  "map_err f r = (case r of Ok a \<Rightarrow> Ok a | Err _ \<Rightarrow> Err f)"

definition cap_revoke :: "kernel \<Rightarrow> nat \<Rightarrow> nat \<Rightarrow> (unit, cap_error) k_result" where
  "cap_revoke k pid slot =
     (if MAX_CAPS \<le> slot then Some (Err InvalidSlot, k)
      else (case cap_target k pid slot of
          Err e \<Rightarrow> Some (Err e, k)
        | Ok (Shm i) \<Rightarrow> do { (r, k) \<leftarrow> shm_revoke k i; Some (map_err ShmNotFound r, k) }
        | Ok (Proc _) \<Rightarrow> Some (clear_cap k pid slot)
        | Ok (Page i) \<Rightarrow> do {
            (r, k) \<leftarrow> pages_revoke k i;
            (case r of
               Err _ \<Rightarrow> Some (Err PageNotFound, k)
             | Ok _ \<Rightarrow> Some (clear_cap k pid slot)) }))"

fun shm_ids :: "cap option list \<Rightarrow> nat list" where
  "shm_ids [] = []"
| "shm_ids (Some (Shm i) # cs) = i # shm_ids cs"
| "shm_ids (_ # cs) = shm_ids cs"

fun page_ids :: "cap option list \<Rightarrow> nat list" where
  "page_ids [] = []"
| "page_ids (Some (Page i) # cs) = i # page_ids cs"
| "page_ids (_ # cs) = page_ids cs"

fun revoke_shms :: "kernel \<Rightarrow> nat list \<Rightarrow> kernel outcome" where
  "revoke_shms k [] = Some k"
| "revoke_shms k (i # is) = do { (_, k) \<leftarrow> shm_revoke k i; revoke_shms k is }"

fun revoke_pages :: "kernel \<Rightarrow> nat list \<Rightarrow> kernel outcome" where
  "revoke_pages k [] = Some k"
| "revoke_pages k (i # is) = do { (_, k) \<leftarrow> pages_revoke k i; revoke_pages k is }"

text \<open>
  The second step of \<^verbatim>\<open>destroy\<close>: invalidate the slot, release devices and services, queue the slot
  for reuse.
\<close>

definition retire :: "kernel \<Rightarrow> nat \<Rightarrow> process \<Rightarrow> kernel" where
  "retire k pid p =
     (let k1 = put_proc k pid (p\<lparr>p_id := USIZE_MAX, p_caps := replicate MAX_CAPS None\<rparr>);
          k2 = unregister_all_locked (release_all k1 pid) pid
      in k2\<lparr>k_procs := (k_procs k2)\<lparr>st_free := st_free (k_procs k2) @ [pid]\<rparr>\<rparr>)"

definition destroy :: "kernel \<Rightarrow> nat \<Rightarrow> kernel outcome" where
  "destroy k pid =
     (case get_proc k pid of
        None \<Rightarrow> Some (k\<lparr>k_sie := False\<rparr>)
      | Some p0 \<Rightarrow> do {
          k \<leftarrow> revoke_shms k (shm_ids (p_caps p0));
          k \<leftarrow> revoke_pages k (page_ids (p_caps p0));
          (case get_proc k pid of
             None \<Rightarrow> Some k
           | Some p \<Rightarrow> do {
               let k = retire k pid p;
               m \<leftarrow> destroy_root (k_mm k) (p_root p);
               Some (k\<lparr>k_mm := m\<rparr>) }) })"

end
