(* ===== verification/Slot_Spec.thy ===== *)
theory Slot_Spec
  imports Objects
begin

text \<open>
  The contract of the kernel's slot tables (processes, shared pages, page records): a live entry
  carries its own index, a dead one carries \<^verbatim>\<open>usize::MAX\<close>, and the reuse queue holds exactly the
  dead slots, each once. The locale is interpreted on the three tables.
\<close>

definition slot_wf :: "('a \<Rightarrow> usize) \<Rightarrow> 'a slot_table \<Rightarrow> bool" where
  "slot_wf ident t \<longleftrightarrow>
     distinct (st_free t) \<and> set (st_free t) \<subseteq> {..<length (st_slots t)} \<and>
     length (st_slots t) < USIZE_MAX \<and>
     (\<forall>i<length (st_slots t). ident (st_slots t ! i) = (if i \<in> set (st_free t) then USIZE_MAX else i))"

definition slot_kill :: "'a slot_table \<Rightarrow> nat \<Rightarrow> 'a \<Rightarrow> 'a slot_table" where
  "slot_kill t i x = \<lparr>st_slots = (st_slots t)[i := x], st_free = st_free t @ [i]\<rparr>"

text \<open>The number of live entries.\<close>

definition live_count :: "'a slot_table \<Rightarrow> nat" where
  "live_count t = length (st_slots t) - length (st_free t)"

lemma get_slot_iff:
  assumes "slot_wf ident t"
  shows "get_slot ident t i = (if i < length (st_slots t) \<and> i \<notin> set (st_free t) then Some (st_slots t ! i) else None)"
proof (cases "i < length (st_slots t)")
  case True
  then have "ident (st_slots t ! i) = (if i \<in> set (st_free t) then USIZE_MAX else i)" "i < USIZE_MAX"
    using assms unfolding slot_wf_def by auto
  then show ?thesis using True by (auto simp: get_slot_def)
qed (simp add: get_slot_def)

lemma live_count_card:
  assumes "slot_wf ident t"
  shows "live_count t = card {i. get_slot ident t i \<noteq> None}"
proof -
  have "{i. get_slot ident t i \<noteq> None} = {..<length (st_slots t)} - set (st_free t)"
    by (auto simp: get_slot_iff [OF assms])
  moreover have "card ({..<length (st_slots t)} - set (st_free t)) = length (st_slots t) - length (st_free t)"
    using assms unfolding slot_wf_def by (simp add: card_Diff_subset distinct_card)
  ultimately show ?thesis by (simp add: live_count_def)
qed

locale slot_registry =
  fixes ident :: "'a \<Rightarrow> usize" and dead :: "'a \<Rightarrow> 'a"
  assumes ident_dead: "ident (dead x) = USIZE_MAX"
begin

lemma wf_empty: "slot_wf ident \<lparr>st_slots = [], st_free = []\<rparr>"
  by (simp add: slot_wf_def)

lemma take_ok:
  assumes w: "slot_wf ident t" and mk: "\<And>i. ident (mk i) = i" and n: "Suc (length (st_slots t)) < USIZE_MAX"
  shows "\<exists>i t'. take_slot t mk = Some (i, t') \<and> slot_wf ident t' \<and> get_slot ident t i = None \<and>
    get_slot ident t' i = Some (mk i) \<and> (\<forall>j. j \<noteq> i \<longrightarrow> get_slot ident t' j = get_slot ident t j) \<and>
    live_count t' = Suc (live_count t)"
proof (cases "st_free t")
  case Nil
  let ?t = "t\<lparr>st_slots := st_slots t @ [mk (length (st_slots t))]\<rparr>"
  have w': "slot_wf ident ?t"
    using w n mk Nil unfolding slot_wf_def by (auto simp: nth_append less_Suc_eq)
  show ?thesis
    using Nil w w' mk by (auto simp: take_slot_def Let_def get_slot_iff nth_append live_count_def)
next
  case (Cons i rest)
  let ?t = "t\<lparr>st_slots := (st_slots t)[i := mk i], st_free := rest\<rparr>"
  have i: "i < length (st_slots t)" "i \<notin> set rest" using w Cons by (auto simp: slot_wf_def)
  have w': "slot_wf ident ?t"
    using w mk Cons i unfolding slot_wf_def by (auto simp: nth_list_update)
  have "length (st_free t) \<le> length (st_slots t)"
    using w unfolding slot_wf_def by (metis card_lessThan card_mono distinct_card finite_lessThan)
  then have "live_count ?t = Suc (live_count t)" using Cons by (simp add: live_count_def)
  then show ?thesis
    using Cons w w' i by (auto simp: take_slot_def get_slot_iff nth_list_update)
qed

lemma kill_ok:
  assumes w: "slot_wf ident t" and x: "get_slot ident t i = Some x"
  shows "slot_wf ident (slot_kill t i (dead x))" and "get_slot ident (slot_kill t i (dead x)) i = None"
    and "\<And>j. j \<noteq> i \<Longrightarrow> get_slot ident (slot_kill t i (dead x)) j = get_slot ident t j"
proof -
  have i: "i < length (st_slots t)" "i \<notin> set (st_free t)" using x by (auto simp: get_slot_iff [OF w] split: if_splits)
  show w': "slot_wf ident (slot_kill t i (dead x))"
    using w i ident_dead unfolding slot_wf_def slot_kill_def by (auto simp: nth_list_update)
  show "get_slot ident (slot_kill t i (dead x)) i = None"
    unfolding get_slot_iff [OF w'] using i by (simp add: slot_kill_def)
  show "get_slot ident (slot_kill t i (dead x)) j = get_slot ident t j" if "j \<noteq> i" for j
    unfolding get_slot_iff [OF w'] get_slot_iff [OF w] using that by (simp add: slot_kill_def)
qed

lemma put_ok:
  assumes w: "slot_wf ident t" and x: "get_slot ident t i = Some x" and y: "ident y = i"
  shows "slot_wf ident (put_slot t i y)" and "get_slot ident (put_slot t i y) i = Some y"
    and "\<And>j. j \<noteq> i \<Longrightarrow> get_slot ident (put_slot t i y) j = get_slot ident t j"
proof -
  have i: "i < length (st_slots t)" "i \<notin> set (st_free t)" using x by (auto simp: get_slot_iff [OF w] split: if_splits)
  show w': "slot_wf ident (put_slot t i y)"
    using w i y unfolding slot_wf_def put_slot_def by (auto simp: nth_list_update)
  show "get_slot ident (put_slot t i y) i = Some y"
    unfolding get_slot_iff [OF w'] using i by (simp add: put_slot_def)
  show "get_slot ident (put_slot t i y) j = get_slot ident t j" if "j \<noteq> i" for j
    unfolding get_slot_iff [OF w'] get_slot_iff [OF w] using that by (simp add: put_slot_def)
qed

end

definition dead_process :: "process \<Rightarrow> process" where
  "dead_process p = p\<lparr>p_id := USIZE_MAX, p_caps := replicate MAX_CAPS None\<rparr>"

definition dead_shm :: "shared_page \<Rightarrow> shared_page" where
  "dead_shm s = s\<lparr>sh_id := USIZE_MAX\<rparr>"

definition dead_page :: "page_record \<Rightarrow> page_record" where
  "dead_page r = r\<lparr>pr_id := USIZE_MAX, pr_map_va := None\<rparr>"

interpretation procs: slot_registry p_id dead_process
  by unfold_locales (simp add: dead_process_def)

interpretation shms: slot_registry sh_id dead_shm
  by unfold_locales (simp add: dead_shm_def)

interpretation pages: slot_registry pr_id dead_page
  by unfold_locales (simp add: dead_page_def)

lemma get_slot_ident: "get_slot ident t i = Some x \<Longrightarrow> ident x = i"
  by (auto simp: get_slot_def split: if_splits)

end
