(* ===== verification/Objects_Inv.thy ===== *)
theory Objects_Inv
  imports Slot_Spec
begin

text \<open>
  The invariant of the kernel's object tables and its preservation by every operation on them:
  the slot tables are well-formed and within their limits, every capability table has its fixed
  size, and services and device claims always belong to live processes.
\<close>

definition k_wf :: "kernel \<Rightarrow> bool" where
  "k_wf k \<longleftrightarrow>
     slot_wf p_id (k_procs k) \<and> slot_wf sh_id (k_shms k) \<and> slot_wf pr_id (k_pages k) \<and>
     length (st_slots (k_procs k)) \<le> MAX_PROCESSES \<and>
     length (st_slots (k_shms k)) \<le> MAX_SHMS \<and> length (st_slots (k_pages k)) \<le> MAX_PAGE_RECORDS \<and>
     (\<forall>pid p. get_proc k pid = Some p \<longrightarrow> length (p_caps p) = MAX_CAPS) \<and>
     length (k_devices k) = MAX_DEVICES \<and> length (k_services k) = MAX_SERVICES \<and>
     (\<forall>i e. i < MAX_SERVICES \<longrightarrow> k_services k ! i = Some e \<longrightarrow> se_id e = i \<and> get_proc k (se_pid e) \<noteq> None) \<and>
     (\<forall>d pid va. d < MAX_DEVICES \<longrightarrow> k_devices k ! d = Some (pid, va) \<longrightarrow> get_proc k pid \<noteq> None)"

section \<open>Frame rules\<close>

lemma bind_pairE:
  assumes "Option.bind x f = Some y"
  obtains r s where "x = Some (r, s)" "f (r, s) = Some y"
  using assms by (cases x) auto

lemma get_proc_frame [simp]:
  "get_proc (k\<lparr>k_mm := m\<rparr>) = get_proc k" "get_proc (k\<lparr>k_sie := b\<rparr>) = get_proc k"
  "get_proc (k\<lparr>k_shms := sh\<rparr>) = get_proc k" "get_proc (k\<lparr>k_pages := pg\<rparr>) = get_proc k"
  "get_proc (k\<lparr>k_devices := d\<rparr>) = get_proc k" "get_proc (k\<lparr>k_services := sv\<rparr>) = get_proc k"
  by (simp_all add: get_proc_def fun_eq_iff)

lemma k_wf_frame [simp]: "k_wf (k\<lparr>k_mm := m\<rparr>) = k_wf k" "k_wf (k\<lparr>k_sie := b\<rparr>) = k_wf k"
  by (simp_all add: k_wf_def)

lemma k_wfD:
  assumes "k_wf k"
  shows "slot_wf p_id (k_procs k)" "slot_wf sh_id (k_shms k)" "slot_wf pr_id (k_pages k)"
    "length (st_slots (k_procs k)) \<le> 32" "length (st_slots (k_shms k)) \<le> 16" "length (st_slots (k_pages k)) \<le> 64"
    "get_proc k pid = Some p \<Longrightarrow> length (p_caps p) = 8" "length (k_devices k) = 8" "length (k_services k) = 8"
  using assms unfolding k_wf_def by simp_all

lemma k_wf_shms: "k_wf k \<Longrightarrow> slot_wf sh_id t \<Longrightarrow> length (st_slots t) \<le> 16 \<Longrightarrow> k_wf (k\<lparr>k_shms := t\<rparr>)"
  unfolding k_wf_def by simp

lemma k_wf_pages: "k_wf k \<Longrightarrow> slot_wf pr_id t \<Longrightarrow> length (st_slots t) \<le> 64 \<Longrightarrow> k_wf (k\<lparr>k_pages := t\<rparr>)"
  unfolding k_wf_def by simp

section \<open>Capability slots\<close>

lemma get_proc_put:
  assumes "k_wf k" "get_proc k pid = Some p" "p_id q = pid"
  shows "get_proc (put_proc k pid q) i = (if i = pid then Some q else get_proc k i)"
  using procs.put_ok [OF k_wfD(1) [OF assms(1)], of pid p q] assms(2,3)
  by (auto simp: get_proc_def put_proc_def)

lemma k_wf_put_caps:
  assumes w: "k_wf k" and p: "get_proc k pid = Some p" and n: "length cs = 8"
  shows "k_wf (put_proc k pid (p\<lparr>p_caps := cs\<rparr>))"
proof -
  let ?k = "put_proc k pid (p\<lparr>p_caps := cs\<rparr>)"
  have i: "p_id p = pid" using p by (auto simp: get_proc_def dest: get_slot_ident)
  have g: "get_proc ?k j = (if j = pid then Some (p\<lparr>p_caps := cs\<rparr>) else get_proc k j)" for j
    by (rule get_proc_put [OF w p]) (simp add: i)
  have "slot_wf p_id (k_procs ?k)" unfolding put_proc_def
    using procs.put_ok(1) [OF k_wfD(1) [OF w], of pid p "p\<lparr>p_caps := cs\<rparr>"] p i by (simp add: get_proc_def)
  moreover have "length (st_slots (k_procs ?k)) = length (st_slots (k_procs k))"
    by (simp add: put_proc_def put_slot_def)
  moreover have "k_shms ?k = k_shms k" "k_pages ?k = k_pages k" "k_devices ?k = k_devices k" "k_services ?k = k_services k"
    by (simp_all add: put_proc_def)
  ultimately show ?thesis using w n p unfolding k_wf_def g by simp
qed

lemma grant_typed_cap_wf: "k_wf k \<Longrightarrow> k_wf (snd (grant_typed_cap k pid slot c))"
  by (auto simp: grant_typed_cap_def k_wfD(7) intro!: k_wf_put_caps split: option.splits)

lemma clear_cap_wf: "k_wf k \<Longrightarrow> k_wf (snd (clear_cap k pid slot))"
  by (auto simp: clear_cap_def k_wfD(7) intro!: k_wf_put_caps split: option.splits)

lemma cap_duplicate_wf: "k_wf k \<Longrightarrow> k_wf (snd (cap_duplicate k pid i j))"
  by (auto simp: cap_duplicate_def k_wfD(7) intro!: k_wf_put_caps split: option.splits cap.splits)

text \<open>What the slot operations do to the capability a process holds in a slot.\<close>

definition cap_at :: "kernel \<Rightarrow> nat \<Rightarrow> nat \<Rightarrow> cap option" where
  "cap_at k pid slot =
     (if slot < MAX_CAPS then Option.bind (get_proc k pid) (\<lambda>p. p_caps p ! slot) else None)"

lemma cap_target_cap_at:
  "cap_target k pid slot =
     (if MAX_CAPS \<le> slot then Err InvalidSlot
      else case cap_at k pid slot of Some c \<Rightarrow> Ok c | None \<Rightarrow> Err NotFound)"
  by (auto simp: cap_target_def cap_at_def split: option.splits)

lemma cap_at_put_caps:
  assumes "k_wf k" "get_proc k pid = Some p"
  shows "cap_at (put_proc k pid (p\<lparr>p_caps := (p_caps p)[slot := c]\<rparr>)) i j =
    (if i = pid \<and> j = slot \<and> slot < 8 then c else cap_at k i j)"
proof -
  have "p_id p = pid" using assms(2) by (auto simp: get_proc_def dest: get_slot_ident)
  then show ?thesis
    using get_proc_put [OF assms, of "p\<lparr>p_caps := (p_caps p)[slot := c]\<rparr>" i] k_wfD(7) [OF assms] assms(2)
    by (auto simp: cap_at_def)
qed

lemma grant_typed_cap_cases:
  assumes "k_wf k"
  shows "(\<exists>k'. grant_typed_cap k pid slot c = (Ok (), k') \<and> slot < 8 \<and> get_proc k pid \<noteq> None \<and>
       (\<forall>i j. cap_at k' i j = (if i = pid \<and> j = slot then Some c else cap_at k i j))) \<or>
     (\<exists>e. grant_typed_cap k pid slot c = (Err e, k) \<and> (8 \<le> slot \<or> get_proc k pid = None))"
  using cap_at_put_caps [OF assms] by (auto simp: grant_typed_cap_def split: option.splits)

lemma clear_cap_at:
  assumes "k_wf k"
  shows "cap_at (snd (clear_cap k pid slot)) i j = (if i = pid \<and> j = slot then None else cap_at k i j)"
proof (cases "get_proc k pid")
  case None
  then show ?thesis by (auto simp: clear_cap_def cap_at_def)
next
  case (Some p)
  then show ?thesis using cap_at_put_caps [OF assms Some, of slot None]
    by (auto simp: clear_cap_def) (auto simp: cap_at_def)
qed

section \<open>Operations preserve the invariant\<close>

text \<open>A process table update that keeps every live process alive keeps the ownership part.\<close>

lemma k_wf_procs:
  assumes w: "k_wf k" and t: "slot_wf p_id t" "length (st_slots t) \<le> 32"
    and live: "\<And>j. get_proc k j \<noteq> None \<Longrightarrow> get_proc (k\<lparr>k_procs := t\<rparr>) j \<noteq> None"
    and caps: "\<And>j p. get_proc (k\<lparr>k_procs := t\<rparr>) j = Some p \<Longrightarrow> length (p_caps p) = 8"
  shows "k_wf (k\<lparr>k_procs := t\<rparr>)"
  using w t live caps unfolding k_wf_def by simp

lemma take_slot_len: "take_slot t mk = Some (i, t') \<Longrightarrow> length (st_slots t') \<le> max (length (st_slots t)) (Suc (live_count t))"
  by (auto simp: take_slot_def live_count_def Let_def split: list.splits if_splits)

lemma create_procs_ok:
  assumes w: "k_wf k" and live: "live_count (k_procs k) < 32"
  obtains pid t where "take_slot (k_procs k) (\<lambda>idx. \<lparr>p_id = idx, p_root = root, p_caps = replicate MAX_CAPS None\<rparr>) = Some (pid, t)"
    "k_wf (k\<lparr>k_procs := t\<rparr>)" "get_proc k pid = None"
    "get_proc (k\<lparr>k_procs := t\<rparr>) = (get_proc k)(pid \<mapsto> \<lparr>p_id = pid, p_root = root, p_caps = replicate 8 None\<rparr>)"
proof -
  let ?mk = "\<lambda>idx. \<lparr>p_id = idx, p_root = root, p_caps = replicate MAX_CAPS None\<rparr>"
  obtain i t where t: "take_slot (k_procs k) ?mk = Some (i, t)" "slot_wf p_id t" "get_slot p_id (k_procs k) i = None"
    "get_slot p_id t i = Some (?mk i)" "\<forall>j. j \<noteq> i \<longrightarrow> get_slot p_id t j = get_slot p_id (k_procs k) j"
    using procs.take_ok [OF k_wfD(1) [OF w], of ?mk] k_wfD(4) [OF w] by auto
  have g: "get_proc (k\<lparr>k_procs := t\<rparr>) = (get_proc k)(i \<mapsto> ?mk i)"
    using t(4,5) by (auto simp: get_proc_def fun_eq_iff)
  have "length (st_slots t) \<le> 32" using take_slot_len [OF t(1)] k_wfD(4) [OF w] live by simp
  then have "k_wf (k\<lparr>k_procs := t\<rparr>)"
    by (intro k_wf_procs [OF w t(2)]) (auto simp: g k_wfD(7) [OF w] split: if_splits)
  then show ?thesis using that [OF t(1) _ _ ] t(3) g by (simp add: get_proc_def)
qed

lemma create_wf:
  assumes "k_wf k" "create ly k = Some (r, k')"
  shows "k_wf k'"
proof (cases "MAX_PROCESSES \<le> live_count (k_procs k)")
  case True
  then show ?thesis using assms by (simp add: create_def live_count_def)
next
  case False
  then obtain q m where m: "create_user_root ly (k_mm k) = Some (q, m)"
    "r = Err () \<and> q = Err () \<and> k' = k\<lparr>k_mm := m\<rparr> \<or>
     (\<exists>root pid t. q = Ok root \<and> r = Ok pid \<and> k' = k\<lparr>k_mm := m, k_procs := t\<rparr> \<and>
       take_slot (k_procs k) (\<lambda>idx. \<lparr>p_id = idx, p_root = root, p_caps = replicate MAX_CAPS None\<rparr>) = Some (pid, t))"
    using assms(2)
    by (auto simp: create_def live_count_def Let_def elim!: bind_pairE split: result.split_asm)
  from m(2) show ?thesis
  proof (elim disjE exE conjE)
    fix root pid t
    assume k': "k' = k\<lparr>k_mm := m, k_procs := t\<rparr>"
      and t: "take_slot (k_procs k) (\<lambda>idx. \<lparr>p_id = idx, p_root = root, p_caps = replicate MAX_CAPS None\<rparr>) = Some (pid, t)"
    have w: "k_wf (k\<lparr>k_mm := m\<rparr>)" using assms(1) by simp
    show ?thesis unfolding k' by (rule create_procs_ok [OF w, of root]) (use False t in auto)
  qed (use assms(1) in simp)
qed

lemma register_service_wf:
  assumes "k_wf k"
  shows "k_wf (snd (register_service k pid svc))"
proof (cases "get_proc k pid = None \<or> svc = 0 \<or> 8 \<le> svc \<or> k_services k ! svc \<noteq> None")
  case True
  then show ?thesis using assms
    by (auto simp: register_service_def register_locked_def split: option.splits)
next
  case False
  then have "snd (register_service k pid svc) = k\<lparr>k_services := (k_services k)[svc := Some \<lparr>se_id = svc, se_pid = pid\<rparr>]\<rparr>"
    by (auto simp: register_service_def register_locked_def)
  then show ?thesis using assms False unfolding k_wf_def by (auto simp: nth_list_update)
qed

lemma connect_wf:
  assumes "k_wf k"
  shows "k_wf (snd (connect k caller svc cs ss))"
proof -
  have g: "k_wf k \<Longrightarrow> grant_cap k pid slot tgt = (r, k') \<Longrightarrow> k_wf k'" for k pid slot tgt r k'
    using grant_typed_cap_wf [of k pid slot "Proc tgt"] by (simp add: grant_cap_def)
  show ?thesis using assms
    by (auto simp: connect_def dest: g intro: clear_cap_wf split: option.splits prod.splits result.splits)
qed

lemma device_map_wf:
  assumes w: "k_wf k" and e: "device_map ly k caller d va = Some (r, k')"
  shows "k_wf k'"
proof -
  consider "k' = k" | m where "k' = k\<lparr>k_mm := m\<rparr>"
    | m p where "d = 0" "k' = k\<lparr>k_mm := m, k_devices := (k_devices k)[d := Some (caller, va)]\<rparr>" "get_proc k caller = Some p"
    using e by (auto simp: device_map_def Let_def pid_root_def elim!: bind_pairE
        split: if_splits option.split_asm result.split_asm)
  then show ?thesis
  proof cases
    case 3
    then show ?thesis using w unfolding k_wf_def by (auto simp: nth_list_update split: if_splits)
  qed (use w in simp_all)
qed

section \<open>Shared pages and page records\<close>

text \<open>Every state an operation may end in satisfies a predicate; the rules follow the code's structure.\<close>

definition keeps :: "(kernel \<Rightarrow> bool) \<Rightarrow> ('r \<times> kernel) outcome \<Rightarrow> bool" where
  "keeps I x \<longleftrightarrow> (\<forall>r k. x = Some (r, k) \<longrightarrow> I k)"

lemma keepsD: "keeps I x \<Longrightarrow> x = Some (r, k) \<Longrightarrow> I k"
  by (simp add: keeps_def)

lemma keeps_Some [simp]: "keeps I (Some (r, k)) = I k"
  by (simp add: keeps_def)

lemma keeps_bind: "(\<And>a. x = Some a \<Longrightarrow> keeps I (f a)) \<Longrightarrow> keeps I (Option.bind x f)"
  by (cases x) (auto simp: keeps_def)

lemma keeps_prod: "(\<And>u v. a = (u, v) \<Longrightarrow> keeps I (f u v)) \<Longrightarrow> keeps I (case a of (u, v) \<Rightarrow> f u v)"
  by (cases a) simp

lemma keeps_if: "(c \<Longrightarrow> keeps I x) \<Longrightarrow> (\<not> c \<Longrightarrow> keeps I y) \<Longrightarrow> keeps I (if c then x else y)"
  by simp

lemma keeps_option:
  "(a = None \<Longrightarrow> keeps I x) \<Longrightarrow> (\<And>v. a = Some v \<Longrightarrow> keeps I (f v)) \<Longrightarrow> keeps I (case a of None \<Rightarrow> x | Some v \<Rightarrow> f v)"
  by (cases a) simp_all

lemma keeps_result:
  "(\<And>v. a = Ok v \<Longrightarrow> keeps I (f v)) \<Longrightarrow> (\<And>e. a = Err e \<Longrightarrow> keeps I (g e)) \<Longrightarrow> keeps I (case a of Ok v \<Rightarrow> f v | Err e \<Rightarrow> g e)"
  by (cases a) simp_all

lemma keeps_cap:
  "(\<And>i. c = Proc i \<Longrightarrow> keeps I (f i)) \<Longrightarrow> (\<And>i. c = Shm i \<Longrightarrow> keeps I (g i)) \<Longrightarrow> (\<And>i. c = Page i \<Longrightarrow> keeps I (h i)) \<Longrightarrow>
   keeps I (case c of Proc i \<Rightarrow> f i | Shm i \<Rightarrow> g i | Page i \<Rightarrow> h i)"
  by (cases c) simp_all

lemmas keeps_rules = keeps_bind keeps_prod keeps_if keeps_option keeps_result keeps_cap

lemma unmap_ok_frame: "unmap_ok k root va = Some k' \<Longrightarrow> \<exists>m. k' = k\<lparr>k_mm := m\<rparr>"
  by (auto simp: unmap_ok_def elim!: bind_pairE)

lemma free_pages_ok_frame: "free_pages_ok k a = Some k' \<Longrightarrow> \<exists>m. k' = k\<lparr>k_mm := m\<rparr>"
  by (auto simp: free_pages_ok_def elim!: bind_pairE)

lemma unmap_ok_wf: "k_wf k \<Longrightarrow> unmap_ok k root va = Some k' \<Longrightarrow> k_wf k'"
  by (auto dest: unmap_ok_frame)

lemma free_pages_ok_wf: "k_wf k \<Longrightarrow> free_pages_ok k a = Some k' \<Longrightarrow> k_wf k'"
  by (auto dest: free_pages_ok_frame)

lemma shm_revoke_owners_wf:
  "k_wf k \<Longrightarrow> shm_revoke_owners k os = Some k' \<Longrightarrow> k_wf k'"
proof (induction k os rule: shm_revoke_owners.induct)
  case (2 k pid slot rest)
  obtain k1 where k1: "(case pid_root k pid of Some root \<Rightarrow> unmap_ok k root SHM_VA | None \<Rightarrow> Some k) = Some k1"
    "shm_revoke_owners (snd (clear_cap k1 pid slot)) rest = Some k'"
    using 2(3) by (auto simp: Option.bind_eq_Some_conv)
  have "k_wf k1" using 2(2) k1(1) by (auto split: option.splits dest: unmap_ok_wf)
  then show ?case using 2(1) [OF k1(1) clear_cap_wf k1(2)] by simp
qed simp

lemma k_wf_kill_shm:
  assumes "k_wf k" "get_shm k sid = Some sp"
  shows "k_wf (k\<lparr>k_shms := slot_kill (k_shms k) sid (dead_shm sp)\<rparr>)"
  using shms.kill_ok(1) [OF k_wfD(2) [OF assms(1)], of sid sp] assms
  by (auto simp: get_shm_def slot_kill_def k_wfD(5) intro!: k_wf_shms)

lemma k_wf_kill_page:
  assumes "k_wf k" "get_page k i = Some r"
  shows "k_wf (k\<lparr>k_pages := slot_kill (k_pages k) i (dead_page r)\<rparr>)"
  using pages.kill_ok(1) [OF k_wfD(3) [OF assms(1)], of i r] assms
  by (auto simp: get_page_def slot_kill_def k_wfD(6) intro!: k_wf_pages)

lemma k_wf_put_page:
  assumes "k_wf k" "get_page k i = Some r" "pr_id r' = i"
  shows "k_wf (k\<lparr>k_pages := put_slot (k_pages k) i r'\<rparr>)"
  using pages.put_ok(1) [OF k_wfD(3) [OF assms(1)], of i r r'] assms
  by (auto simp: get_page_def put_slot_def k_wfD(6) intro!: k_wf_pages)

lemma shm_revoke_wf:
  assumes w: "k_wf k" and e: "shm_revoke k sid = Some (r, k')"
  shows "k_wf k'"
proof (cases "get_shm k sid")
  case None
  then show ?thesis using assms by (simp add: shm_revoke_def)
next
  case (Some sp)
  then obtain k2 m where "shm_revoke_owners (k\<lparr>k_shms := slot_kill (k_shms k) sid (dead_shm sp)\<rparr>) (sh_owners sp) = Some k2"
    "k' = k2\<lparr>k_mm := m\<rparr>"
    using e by (auto simp: shm_revoke_def slot_kill_def dead_shm_def Option.bind_eq_Some_conv)
  then show ?thesis using shm_revoke_owners_wf [OF k_wf_kill_shm [OF w Some]] by auto
qed

lemma take_shm_wf:
  assumes w: "k_wf k" and n: "length (st_slots (k_shms k)) < 16" and mk: "\<And>i. sh_id (mk i) = i"
    and t: "take_slot (k_shms k) mk = Some (i, t)"
  shows "k_wf (k\<lparr>k_shms := t\<rparr>)"
proof -
  have "slot_wf sh_id t" using shms.take_ok [OF k_wfD(2) [OF w], of mk] mk n t by auto
  moreover have "length (st_slots t) \<le> 16" using take_slot_len [OF t] n by (simp add: live_count_def)
  ultimately show ?thesis by (rule k_wf_shms [OF w])
qed

lemma take_page_wf:
  assumes w: "k_wf k" and n: "length (st_slots (k_pages k)) < 64" and mk: "\<And>i. pr_id (mk i) = i"
    and t: "take_slot (k_pages k) mk = Some (i, t)"
  shows "k_wf (k\<lparr>k_pages := t\<rparr>)"
proof -
  have "slot_wf pr_id t" using pages.take_ok [OF k_wfD(3) [OF w], of mk] mk n t by auto
  moreover have "length (st_slots t) \<le> 64" using take_slot_len [OF t] n by (simp add: live_count_def)
  ultimately show ?thesis by (rule k_wf_pages [OF w])
qed

lemma grant_shm_cap_wf: "k_wf k \<Longrightarrow> grant_shm_cap k pid slot sid = (r, k') \<Longrightarrow> k_wf k'"
  using grant_typed_cap_wf [of k pid slot "Shm sid"] by (simp add: grant_shm_cap_def)

lemma mmap_share_commit_wf:
  assumes w: "k_wf k" and n: "length (st_slots (k_shms k)) < 16"
    and e: "mmap_share_commit k caller a peer b paddr = Some (r, k')"
  shows "k_wf k'"
proof -
  obtain sid t where t: "take_slot (k_shms k)
       (\<lambda>idx. \<lparr>sh_id = idx, sh_paddr = paddr, sh_owners = [(caller, a), (peer, b)]\<rparr>) = Some (sid, t)"
    using e by (auto simp: mmap_share_commit_def elim!: bind_pairE)
  have "k_wf (k\<lparr>k_shms := t\<rparr>)" by (rule take_shm_wf [OF w n _ t]) simp
  then show ?thesis using e
    by (auto simp: mmap_share_commit_def t Let_def elim!: bind_pairE split: prod.split_asm result.split_asm)
      (meson grant_shm_cap_wf shm_revoke_wf)+
qed

lemma mmap_share_map_wf:
  assumes w: "k_wf k" and e: "mmap_share_map k caller a peer b ra rb = Some (r, k')"
  shows "k_wf k'"
proof -
  have "keeps k_wf (mmap_share_map k caller a peer b ra rb)"
    unfolding mmap_share_map_def Let_def
    by (intro keeps_rules)
      (auto simp: w keeps_def intro: mmap_share_commit_wf [rotated 2] dest!: unmap_ok_frame free_pages_ok_frame)
  then show ?thesis using e by (rule keepsD)
qed

lemma mmap_share_wf: "k_wf k \<Longrightarrow> mmap_share k caller a b len = Some (r, k') \<Longrightarrow> k_wf k'"
  by (auto simp: mmap_share_def dest: mmap_share_map_wf
      split: if_splits option.split_asm result.split_asm cap.split_asm)

lemma pages_alloc_wf:
  assumes w: "k_wf k"
  shows "keeps k_wf (pages_alloc k owner)"
  unfolding pages_alloc_def Let_def
  by (intro keeps_rules) (auto simp: w dest!: free_pages_ok_frame intro: take_page_wf [rotated 3])

lemma pages_revoke_wf:
  assumes w: "k_wf k"
  shows "keeps k_wf (pages_revoke k i)"
proof (cases "get_page k i")
  case (Some r)
  have "k_wf (k\<lparr>k_pages := slot_kill (k_pages k) i (dead_page r)\<rparr>)" by (rule k_wf_kill_page [OF w Some])
  then show ?thesis unfolding pages_revoke_def Some Let_def slot_kill_def dead_page_def
    by (simp only: option.case) (intro keeps_rules, auto dest!: unmap_ok_frame split: option.split_asm)
qed (simp add: pages_revoke_def w)

lemma pages_grant_wf:
  assumes w: "k_wf k"
  shows "keeps k_wf (pages_grant k i to)"
proof (cases "get_page k i")
  case (Some r)
  have "pr_id r = i" using Some by (auto simp: get_page_def dest: get_slot_ident)
  then have "k_wf (k\<lparr>k_pages := put_slot (k_pages k) i (r\<lparr>pr_map_va := None, pr_owner := to\<rparr>)\<rparr>)"
    by (intro k_wf_put_page [OF w Some]) simp
  then show ?thesis unfolding pages_grant_def Some Let_def
    by (simp only: option.case) (intro keeps_rules, auto dest!: unmap_ok_frame split: option.split_asm)
qed (simp add: pages_grant_def w)

lemma mem_grant_move_wf:
  assumes w: "k_wf k"
  shows "keeps k_wf (mem_grant_move k caller src i peer dst)"
proof -
  have g: "k_wf k \<Longrightarrow> grant_typed_cap k pid slot c = (r, k') \<Longrightarrow> k_wf k'" for k pid slot c r k'
    using grant_typed_cap_wf [of k pid slot c] by simp
  show ?thesis unfolding mem_grant_move_def
    by (intro keeps_rules)
      (auto dest!: keepsD [OF pages_grant_wf [OF w]] dest: g keepsD [OF pages_grant_wf] intro!: clear_cap_wf)
qed

lemma mem_grant_wf:
  assumes w: "k_wf k"
  shows "keeps k_wf (mem_grant k caller src peer_slot dst)"
  unfolding mem_grant_def
  by (intro keeps_rules) (auto simp: w mem_grant_move_wf split: cap_error.split)

lemma mem_map_page_wf:
  assumes w: "k_wf k"
  shows "keeps k_wf (mem_map_page k i root va paddr)"
proof -
  have p: "pages_map k i va = (r, k') \<Longrightarrow> k_wf k \<Longrightarrow> k_wf k'" for k r k'
    by (auto simp: pages_map_def intro!: k_wf_put_page split: option.split_asm if_splits)
      (auto simp: get_page_def dest: get_slot_ident)
  show ?thesis unfolding mem_map_page_def Let_def
    by (intro keeps_rules) (auto simp: w dest!: p unmap_ok_frame)
qed

lemma mem_map_wf:
  assumes w: "k_wf k"
  shows "keeps k_wf (mem_map k caller slot va)"
  unfolding mem_map_def by (intro keeps_rules) (auto simp: w mem_map_page_wf)

section \<open>Revocation and teardown\<close>

lemma cap_revoke_wf:
  assumes w: "k_wf k"
  shows "keeps k_wf (cap_revoke k pid slot)"
proof -
  have c: "keeps k_wf (Some (clear_cap k pid slot))" if "k_wf k" for k
    using clear_cap_wf [OF that, of pid slot] by (cases "clear_cap k pid slot") simp
  note r = shm_revoke_wf [OF w] keepsD [OF pages_revoke_wf [OF w]]
  show ?thesis unfolding cap_revoke_def
    by (intro keeps_rules) (auto simp: w intro!: c dest: r)
qed

lemma revoke_shms_wf: "k_wf k \<Longrightarrow> revoke_shms k is = Some k' \<Longrightarrow> k_wf k'"
  by (induction k "is" rule: revoke_shms.induct) (auto elim!: bind_pairE dest: shm_revoke_wf)

lemma revoke_pages_wf: "k_wf k \<Longrightarrow> revoke_pages k is = Some k' \<Longrightarrow> k_wf k'"
  by (induction k "is" rule: revoke_pages.induct) (auto elim!: bind_pairE dest: keepsD [OF pages_revoke_wf])

lemma retire_tables:
  "k_procs (retire k pid p) = slot_kill (k_procs k) pid (dead_process p)"
  "k_shms (retire k pid p) = k_shms k" "k_pages (retire k pid p) = k_pages k" "k_mm (retire k pid p) = k_mm k"
  "k_devices (retire k pid p) = k_devices (release_all k pid)"
  "k_services (retire k pid p) = k_services (unregister_all_locked k pid)"
  by (simp_all add: retire_def Let_def slot_kill_def put_proc_def put_slot_def dead_process_def
      unregister_all_locked_def release_all_def)

lemma retire_get_proc:
  assumes "k_wf k" "get_proc k pid = Some p"
  shows "get_proc (retire k pid p) = (get_proc k)(pid := None)"
  using procs.kill_ok(2,3) [OF k_wfD(1) [OF assms(1)], of pid p] assms(2)
  by (auto simp: get_proc_def fun_eq_iff retire_tables)

lemma retire_services:
  assumes "i < 8" "k_wf k"
  shows "k_services (retire k pid p) ! i = (if \<exists>e. k_services k ! i = Some e \<and> se_pid e = pid then None else k_services k ! i)"
  using assms k_wfD(9) [of k] by (auto simp: retire_tables unregister_all_locked_def split: option.splits)

lemma retire_devices:
  assumes "i < 8" "k_wf k"
  shows "k_devices (retire k pid p) ! i = (if \<exists>va. k_devices k ! i = Some (pid, va) then None else k_devices k ! i)"
  using assms k_wfD(8) [of k] by (auto simp: retire_tables release_all_def split: option.splits)

lemma retire_wf:
  assumes w: "k_wf k" and p: "get_proc k pid = Some p"
  shows "k_wf (retire k pid p)"
proof -
  let ?k = "retire k pid p"
  have "slot_wf p_id (k_procs ?k)" unfolding retire_tables
    using procs.kill_ok(1) [OF k_wfD(1) [OF w], of pid p] p by (simp add: get_proc_def)
  moreover have "length (st_slots (k_procs ?k)) = length (st_slots (k_procs k))" by (simp add: retire_tables slot_kill_def)
  moreover have "length (k_devices ?k) = length (k_devices k)" "length (k_services ?k) = length (k_services k)"
    by (simp_all add: retire_tables release_all_def unregister_all_locked_def)
  moreover have "se_id e = i \<and> get_proc ?k (se_pid e) \<noteq> None" if "i < 8" "k_services ?k ! i = Some e" for i e
    using that w retire_services [OF that(1) w, of pid p] unfolding k_wf_def retire_get_proc [OF w p]
    by (auto split: if_splits)
  moreover have "get_proc ?k ow \<noteq> None" if "i < 8" "k_devices ?k ! i = Some (ow, va)" for i ow va
    using that w retire_devices [OF that(1) w, of pid p] unfolding k_wf_def retire_get_proc [OF w p]
    by (auto split: if_splits)
  ultimately show ?thesis using w unfolding k_wf_def
    by (simp add: retire_tables(2,3) retire_get_proc [OF w p] del: not_None_eq)
qed

lemma destroy_wf:
  assumes w: "k_wf k" and e: "destroy k pid = Some k'"
  shows "k_wf k'"
proof (cases "get_proc k pid")
  case None
  then show ?thesis using assms by (auto simp: destroy_def)
next
  case (Some p)
  obtain k1 k2 where k: "revoke_shms k (shm_ids (p_caps p)) = Some k1" "revoke_pages k1 (page_ids (p_caps p)) = Some k2"
    "(case get_proc k2 pid of None \<Rightarrow> Some k2 | Some p \<Rightarrow> do {
        m \<leftarrow> destroy_root (k_mm (retire k2 pid p)) (p_root p); Some ((retire k2 pid p)\<lparr>k_mm := m\<rparr>) }) = Some k'"
    using e unfolding destroy_def Some Let_def by (auto simp: Option.bind_eq_Some_conv)
  have w2: "k_wf k2" using revoke_pages_wf [OF revoke_shms_wf [OF w k(1)] k(2)] .
  then show ?thesis using k(3) retire_wf [OF w2]
    by (auto simp: Option.bind_eq_Some_conv split: option.split_asm)
qed

section \<open>Reachable kernels\<close>

text \<open>One call of the object tables' interface, whatever it returns.\<close>

inductive kstep :: "layout \<Rightarrow> kernel \<Rightarrow> kernel \<Rightarrow> bool" for ly where
  create: "create ly k = Some (r, k') \<Longrightarrow> kstep ly k k'"
| destroy: "destroy k pid = Some k' \<Longrightarrow> kstep ly k k'"
| grant: "kstep ly k (snd (grant_cap k pid slot target))"
| duplicate: "kstep ly k (snd (cap_duplicate k pid i j))"
| revoke: "cap_revoke k pid slot = Some (r, k') \<Longrightarrow> kstep ly k k'"
| register: "kstep ly k (snd (register_service k pid svc))"
| connect: "kstep ly k (snd (connect k pid svc i j))"
| device: "device_map ly k pid d va = Some (r, k') \<Longrightarrow> kstep ly k k'"
| share: "mmap_share k pid i j len = Some (r, k') \<Longrightarrow> kstep ly k k'"
| alloc_page: "pages_alloc k pid = Some (r, k') \<Longrightarrow> kstep ly k k'"
| grant_page: "kstep ly k (snd (grant_typed_cap k pid slot (Page i)))"
| revoke_page: "pages_revoke k i = Some (r, k') \<Longrightarrow> kstep ly k k'"
| give: "mem_grant k pid i j l = Some (r, k') \<Longrightarrow> kstep ly k k'"
| map_page: "mem_map k pid i va = Some (r, k') \<Longrightarrow> kstep ly k k'"
| memory: "kstep ly k (k\<lparr>k_mm := m\<rparr>)"

inductive_cases kstepE: "kstep ly k k'"

lemma kstep_wf: "kstep ly k k' \<Longrightarrow> k_wf k \<Longrightarrow> k_wf k'"
proof (induction rule: kstep.induct)
  case (grant k pid slot target)
  then show ?case using grant_typed_cap_wf by (simp add: grant_cap_def)
qed (blast intro: create_wf destroy_wf cap_duplicate_wf register_service_wf connect_wf grant_typed_cap_wf device_map_wf
    mmap_share_wf keepsD [OF cap_revoke_wf] keepsD [OF pages_alloc_wf] keepsD [OF pages_revoke_wf]
    keepsD [OF mem_grant_wf] keepsD [OF mem_map_wf] k_wf_frame(1) [THEN iffD2])+

lemma kernel_static_wf: "k_wf (kernel_static m)"
  by (simp add: k_wf_def kernel_static_def procs.wf_empty shms.wf_empty pages.wf_empty get_proc_def get_slot_def
      nth_Cons' replicate_Suc)

definition kreach :: "layout \<Rightarrow> kernel \<Rightarrow> bool" where
  "kreach ly k \<longleftrightarrow> (\<exists>m. (kstep ly)\<^sup>*\<^sup>* (kernel_static m) k)"

lemma kreach_wf: "kreach ly k \<Longrightarrow> k_wf k"
proof -
  have "(kstep ly)\<^sup>*\<^sup>* k0 k \<Longrightarrow> k_wf k0 \<Longrightarrow> k_wf k" for k0
    by (induction rule: rtranclp_induct) (auto dest: kstep_wf)
  then show "kreach ly k \<Longrightarrow> k_wf k" by (auto simp: kreach_def kernel_static_wf)
qed

end
