(* ===== verification/Objects_Main.thy ===== *)
theory Objects_Main
  imports Objects_Inv Mmu_Main
begin

text \<open>
  The properties of the kernel's object tables: the invariant of every reachable kernel, process
  creation, the atomic service connection, the exclusive transfer of page capabilities,
  and two defects of the tables' reuse.
\<close>

section \<open>Reachable kernels\<close>

lemma slot_free_dead: "slot_wf f t \<Longrightarrow> i \<in> set (st_free t) \<Longrightarrow> get_slot f t i = None"
  by (simp add: get_slot_iff)

lemma slot_free_distinct: "slot_wf f t \<Longrightarrow> distinct (st_free t)"
  by (simp add: slot_wf_def)

text \<open>
  C15. The object tables of every kernel reachable from boot by calls of the process, capability,
  service, device, shared page and page interfaces: at most 32 processes are live; a slot in a reuse
  queue is dead and queued once; capability tables have 8 slots; the process a service lookup
  returns is live; a device belongs to a live process.
\<close>

theorem kreach_objects:
  assumes "kreach ly k"
  shows "card {pid. get_proc k pid \<noteq> None} \<le> MAX_PROCESSES \<and>
    distinct (st_free (k_procs k)) \<and> distinct (st_free (k_shms k)) \<and> distinct (st_free (k_pages k)) \<and>
    (\<forall>i\<in>set (st_free (k_procs k)). get_proc k i = None) \<and>
    (\<forall>i\<in>set (st_free (k_shms k)). get_shm k i = None) \<and>
    (\<forall>i\<in>set (st_free (k_pages k)). get_page k i = None) \<and>
    (\<forall>pid p. get_proc k pid = Some p \<longrightarrow> length (p_caps p) = MAX_CAPS) \<and>
    (\<forall>svc pid. lookup_service k svc = Some pid \<longrightarrow> get_proc k pid \<noteq> None) \<and>
    (\<forall>d<MAX_DEVICES. \<forall>pid va. k_devices k ! d = Some (pid, va) \<longrightarrow> get_proc k pid \<noteq> None)"
proof -
  note w = kreach_wf [OF assms]
  have "live_count (k_procs k) \<le> 32" using k_wfD(4) [OF w] by (simp add: live_count_def)
  then have n: "card {pid. get_proc k pid \<noteq> None} \<le> MAX_PROCESSES"
    using live_count_card [OF k_wfD(1) [OF w]] by (simp add: get_proc_def del: not_None_eq)
  have svc: "get_proc k pid \<noteq> None" if "lookup_service k svc = Some pid" for svc pid
    using that w k_wfD(9) [OF w] unfolding k_wf_def lookup_service_def by (auto split: if_splits option.split_asm)
  have dev: "get_proc k pid \<noteq> None" if "d < MAX_DEVICES" "k_devices k ! d = Some (pid, va)" for d pid va
    using that w unfolding k_wf_def by blast
  show ?thesis
    using n svc dev k_wfD(7) [OF w] k_wfD(1-3) [OF w, THEN slot_free_dead] k_wfD(1-3) [OF w, THEN slot_free_distinct]
    by (simp add: get_proc_def get_shm_def get_page_def del: not_None_eq)
qed

theorem kreach_objects_witness:
  "\<exists>ly k. kreach ly k \<and> card {pid. get_proc k pid \<noteq> None} \<le> 32"
proof -
  have "kreach ly (kernel_static demo_mm)" for ly by (auto simp: kreach_def)
  then show ?thesis using kreach_objects by force
qed

section \<open>Creating a process\<close>

text \<open>
  C16. \<^verbatim>\<open>create\<close>. Below 32 live processes it fails only if no address space can be built, and then
  the tables are unchanged. Otherwise the pid it returns was dead, the new process has the new root
  and no capabilities, provides no service and owns no device, and no other process changes. With
  32 live processes it fails and changes nothing.
\<close>

theorem create_spec:
  assumes w: "k_wf k"
  shows "(MAX_PROCESSES \<le> live_count (k_procs k) \<longrightarrow> create ly k = Some (Err (), k)) \<and>
    (live_count (k_procs k) < MAX_PROCESSES \<longrightarrow>
      (case create_user_root ly (k_mm k) of
         None \<Rightarrow> create ly k = None
       | Some (Err _, m) \<Rightarrow> create ly k = Some (Err (), k\<lparr>k_mm := m\<rparr>)
       | Some (Ok root, m) \<Rightarrow> (\<exists>pid k'. create ly k = Some (Ok pid, k') \<and> k_wf k' \<and> k_mm k' = m \<and>
           get_proc k pid = None \<and>
           get_proc k' = (get_proc k)(pid \<mapsto> \<lparr>p_id = pid, p_root = root, p_caps = replicate MAX_CAPS None\<rparr>) \<and>
           (\<forall>svc. lookup_service k' svc \<noteq> Some pid) \<and>
           (\<forall>d<MAX_DEVICES. \<forall>va. k_devices k' ! d \<noteq> Some (pid, va)))))"
proof (intro conjI impI)
  assume "MAX_PROCESSES \<le> live_count (k_procs k)"
  then show "create ly k = Some (Err (), k)" by (simp add: create_def live_count_def)
next
  assume n: "live_count (k_procs k) < MAX_PROCESSES"
  then have c: "create ly k = do {
      (r, m) \<leftarrow> create_user_root ly (k_mm k);
      let k1 = k\<lparr>k_mm := m\<rparr>;
      (case r of Err _ \<Rightarrow> Some (Err (), k1)
       | Ok root \<Rightarrow> do {
           (pid, t) \<leftarrow> take_slot (k_procs k1) (\<lambda>idx. \<lparr>p_id = idx, p_root = root, p_caps = replicate MAX_CAPS None\<rparr>);
           Some (Ok pid, k1\<lparr>k_procs := t\<rparr>) }) }"
    unfolding create_def live_count_def Let_def by simp
  have ok: "\<exists>pid k'. create ly k = Some (Ok pid, k') \<and> k_wf k' \<and> k_mm k' = m \<and>
           get_proc k pid = None \<and>
           get_proc k' = (get_proc k)(pid \<mapsto> \<lparr>p_id = pid, p_root = root, p_caps = replicate MAX_CAPS None\<rparr>) \<and>
           (\<forall>svc. lookup_service k' svc \<noteq> Some pid) \<and>
           (\<forall>d<MAX_DEVICES. \<forall>va. k_devices k' ! d \<noteq> Some (pid, va))"
    if r: "create_user_root ly (k_mm k) = Some (Ok root, m)" for root m
  proof (rule create_procs_ok [of "k\<lparr>k_mm := m\<rparr>" root])
    fix pid t assume t: "take_slot (k_procs (k\<lparr>k_mm := m\<rparr>)) (\<lambda>idx. \<lparr>p_id = idx, p_root = root, p_caps = replicate MAX_CAPS None\<rparr>) = Some (pid, t)"
      "k_wf (k\<lparr>k_mm := m, k_procs := t\<rparr>)" "get_proc (k\<lparr>k_mm := m\<rparr>) pid = None"
      "get_proc (k\<lparr>k_mm := m, k_procs := t\<rparr>) = (get_proc (k\<lparr>k_mm := m\<rparr>))(pid \<mapsto> \<lparr>p_id = pid, p_root = root, p_caps = replicate 8 None\<rparr>)"
    let ?k = "k\<lparr>k_mm := m, k_procs := t\<rparr>"
    have "create ly k = Some (Ok pid, ?k)" using c r t(1) by simp
    moreover have "lookup_service ?k svc \<noteq> Some pid" for svc
      using w t(3) k_wfD(9) [OF w] unfolding k_wf_def lookup_service_def by (auto split: if_splits option.split_asm)
    moreover have "k_devices ?k ! d \<noteq> Some (pid, va)" if "d < MAX_DEVICES" for d va
      using w t(3) that unfolding k_wf_def by auto
    ultimately show ?thesis using t by auto
  qed (use w n in simp_all)
  show "case create_user_root ly (k_mm k) of
         None \<Rightarrow> create ly k = None
       | Some (Err _, m) \<Rightarrow> create ly k = Some (Err (), k\<lparr>k_mm := m\<rparr>)
       | Some (Ok root, m) \<Rightarrow> (\<exists>pid k'. create ly k = Some (Ok pid, k') \<and> k_wf k' \<and> k_mm k' = m \<and>
           get_proc k pid = None \<and>
           get_proc k' = (get_proc k)(pid \<mapsto> \<lparr>p_id = pid, p_root = root, p_caps = replicate MAX_CAPS None\<rparr>) \<and>
           (\<forall>svc. lookup_service k' svc \<noteq> Some pid) \<and>
           (\<forall>d<MAX_DEVICES. \<forall>va. k_devices k' ! d \<noteq> Some (pid, va)))"
  proof (cases "create_user_root ly (k_mm k)")
    case None
    then show ?thesis using c by simp
  next
    case (Some x)
    obtain r m where x: "x = (r, m)" by (cases x)
    show ?thesis
    proof (cases r)
      case (Ok root)
      then show ?thesis using ok Some x by simp
    next
      case (Err u)
      then show ?thesis using c Some x by simp
    qed
  qed
qed

text \<open>The memory map of the QEMU virt board, with a kernel image of 512 KiB.\<close>

definition demo_layout :: layout where
  "demo_layout = \<lparr>ly_ram_start = 0x80000000, ly_ram_end = 0x88000000, ly_kernel_start = 0x80200000,
     ly_text_start = 0x80200000, ly_rodata_start = 0x80240000, ly_data_start = 0x80250000, ly_kernel_end = 0x80280000,
     ly_stack_guard = 0x80260000, ly_trap_base = 0x80268000, ly_trap_top = 0x80270000,
     ly_idle_base = 0x80270000, ly_idle_top = 0x80278000, ly_uart_base = 0x10000000\<rparr>"

theorem create_spec_witness:
  "case create_user_root demo_layout (k_mm (kernel_static demo_mm)) of
     None \<Rightarrow> create demo_layout (kernel_static demo_mm) = None
   | Some (Err _, m) \<Rightarrow> create demo_layout (kernel_static demo_mm) = Some (Err (), (kernel_static demo_mm)\<lparr>k_mm := m\<rparr>)
   | Some (Ok root, m) \<Rightarrow> (\<exists>pid k'. create demo_layout (kernel_static demo_mm) = Some (Ok pid, k') \<and> pid_root k' pid = Some root)"
proof -
  have "live_count (k_procs (kernel_static demo_mm)) < MAX_PROCESSES" by (simp add: live_count_def kernel_static_def)
  then show ?thesis using create_spec [OF kernel_static_wf, of demo_mm demo_layout]
    by (auto simp: pid_root_def split: option.splits result.splits)
qed

section \<open>Retiring a process\<close>

lemma retire_cap_at:
  assumes "k_wf k" "get_proc k pid = Some p"
  shows "cap_at (retire k pid p) i j = (if i = pid then None else cap_at k i j)"
  unfolding cap_at_def retire_get_proc [OF assms] by simp

lemma lookup_retire:
  assumes w: "k_wf k" and p: "get_proc k pid = Some p"
  shows "lookup_service (retire k pid p) svc = (if lookup_service k svc = Some pid then None else lookup_service k svc)"
proof (cases "svc < 8")
  case True
  have "se_id e = svc" if "k_services k ! svc = Some e" for e using that w True unfolding k_wf_def by auto
  then show ?thesis using True k_wfD(9) [OF w] k_wfD(9) [OF retire_wf [OF w p]] retire_services [OF True w, of pid p]
    by (auto simp: lookup_service_def split: option.split)
next
  case False
  then show ?thesis using k_wfD(9) [OF w] k_wfD(9) [OF retire_wf [OF w p]] by (simp add: lookup_service_def)
qed

text \<open>The teardown of a process that holds no shared page and no page capability.\<close>

lemma destroy_eq:
  assumes p: "get_proc k pid = Some p" and c: "shm_ids (p_caps p) = []" "page_ids (p_caps p) = []"
    and m: "buddy_inv (k_mm k) A" "phys_ok (k_mm k)" "as_wf (k_mm k) (p_root p) A"
  obtains m' where "destroy k pid = Some ((retire k pid p)\<lparr>k_mm := m'\<rparr>)"
    "rest (k_mm k) m' (A - owned (k_mm k) (p_root p))"
  using destroy_root_ok [OF m] p c that by (auto simp: destroy_def retire_tables Let_def)

section \<open>Service connections\<close>

lemma grant_cap_frame:
  assumes w: "k_wf k" and e: "grant_typed_cap k pid slot c = (r, k')"
  shows "get_proc k' i = None \<longleftrightarrow> get_proc k i = None"
proof (cases "get_proc k pid")
  case (Some p)
  then have "p_id p = pid" by (auto simp: get_proc_def dest: get_slot_ident)
  then show ?thesis using get_proc_put [OF w Some, of "p\<lparr>p_caps := (p_caps p)[slot := Some c]\<rparr>" i] e Some
    by (auto simp: grant_typed_cap_def split: if_splits)
qed (use e in \<open>auto simp: grant_typed_cap_def split: if_splits\<close>)

text \<open>
  \<^verbatim>\<open>connect\<close> is atomic. It succeeds exactly if the service is registered by another process, both
  slots exist and the caller is live; then the client slot names the server and the server slot
  names the caller, and no other slot changes. Otherwise nothing changes at all: the rollback for a
  failing second grant is never needed.
\<close>

theorem connect_atomic:
  assumes w: "k_wf k"
  shows "(\<exists>k' server. connect k caller svc cs ss = (Ok (), k') \<and> lookup_service k svc = Some server \<and> server \<noteq> caller \<and>
       cs < MAX_CAPS \<and> ss < MAX_CAPS \<and> get_proc k caller \<noteq> None \<and> get_proc k server \<noteq> None \<and>
       (\<forall>i j. cap_at k' i j = (if i = caller \<and> j = cs then Some (Proc server)
          else if i = server \<and> j = ss then Some (Proc caller) else cap_at k i j))) \<or>
    (\<exists>e. connect k caller svc cs ss = (Err e, k) \<and>
       (lookup_service k svc = None \<or> lookup_service k svc = Some caller \<or> MAX_CAPS \<le> cs \<or> MAX_CAPS \<le> ss \<or> get_proc k caller = None))"
proof (cases "lookup_service k svc = None \<or> lookup_service k svc = Some caller \<or> MAX_CAPS \<le> cs \<or> MAX_CAPS \<le> ss \<or> get_proc k caller = None")
  case True
  then show ?thesis by (auto simp: connect_def grant_cap_def grant_typed_cap_def split: option.split)
next
  case False
  then obtain server where s: "lookup_service k svc = Some server" "server \<noteq> caller" by auto
  have live: "get_proc k server \<noteq> None"
    using s(1) w k_wfD(9) [OF w] unfolding k_wf_def lookup_service_def by (auto split: if_splits option.split_asm)
  obtain k1 where k1: "grant_typed_cap k caller cs (Proc server) = (Ok (), k1)"
    "\<forall>i j. cap_at k1 i j = (if i = caller \<and> j = cs then Some (Proc server) else cap_at k i j)"
    using grant_typed_cap_cases [OF w, of caller cs "Proc server"] False by auto
  have w1: "k_wf k1" using grant_typed_cap_wf [OF w, of caller cs "Proc server"] k1(1) by simp
  have "get_proc k1 server \<noteq> None" unfolding grant_cap_frame [OF w k1(1)] by (rule live)
  then obtain k2 where k2: "grant_typed_cap k1 server ss (Proc caller) = (Ok (), k2)"
    "\<forall>i j. cap_at k2 i j = (if i = server \<and> j = ss then Some (Proc caller) else cap_at k1 i j)"
    using grant_typed_cap_cases [OF w1, of server ss "Proc caller"] False by auto
  have "connect k caller svc cs ss = (Ok (), k2)" using False s k1(1) k2(1) by (simp add: connect_def grant_cap_def)
  then show ?thesis using False s live k1(2) k2(2) by auto
qed

text \<open>A kernel with two processes, 0 and 1, and service 1 provided by process 1.\<close>

definition demo_kernel :: kernel where
  "demo_kernel = (kernel_static demo_mm)
     \<lparr>k_procs := \<lparr>st_slots = [\<lparr>p_id = 0, p_root = 0, p_caps = replicate MAX_CAPS None\<rparr>,
                              \<lparr>p_id = 1, p_root = 0, p_caps = replicate MAX_CAPS None\<rparr>], st_free = []\<rparr>,
      k_services := [None, Some \<lparr>se_id = 1, se_pid = 1\<rparr>, None, None, None, None, None, None]\<rparr>"

lemma demo_get_proc:
  "get_proc demo_kernel i = (if i < 2 then Some \<lparr>p_id = i, p_root = 0, p_caps = replicate MAX_CAPS None\<rparr> else None)"
  by (auto simp: demo_kernel_def get_proc_def get_slot_def less_Suc_eq numeral_2_eq_2)

lemma demo_kernel_wf: "k_wf demo_kernel"
proof -
  have "k_services demo_kernel ! i = (if i = 1 then Some \<lparr>se_id = 1, se_pid = 1\<rparr> else None)" if "i < 8" for i
    using that by (auto simp: demo_kernel_def less_Suc_eq numeral_eq_Suc)
  moreover have "slot_wf p_id (k_procs demo_kernel)"
    by (auto simp: demo_kernel_def slot_wf_def less_Suc_eq)
  moreover have "length (st_slots (k_procs demo_kernel)) = 2" "length (k_services demo_kernel) = 8"
    "k_shms demo_kernel = k_shms (kernel_static demo_mm)" "k_pages demo_kernel = k_pages (kernel_static demo_mm)"
    "k_devices demo_kernel = replicate 8 None"
    by (simp_all add: demo_kernel_def kernel_static_def)
  ultimately show ?thesis using k_wfD [OF kernel_static_wf [of demo_mm]]
    unfolding k_wf_def by (simp add: demo_get_proc)
qed

theorem connect_atomic_witness:
  "\<exists>k'. connect demo_kernel 0 1 3 5 = (Ok (), k') \<and> cap_at k' 0 3 = Some (Proc 1) \<and> cap_at k' 1 5 = Some (Proc 0)"
proof -
  have "lookup_service demo_kernel 1 = Some 1" "get_proc demo_kernel 0 \<noteq> None"
    by (simp_all add: demo_get_proc) (simp add: demo_kernel_def lookup_service_def)
  then show ?thesis using connect_atomic [OF demo_kernel_wf, of 0 1 3 5] by auto
qed

section \<open>Transfer of page capabilities\<close>

lemma cap_at_frame [simp]:
  "cap_at (k\<lparr>k_mm := m\<rparr>) = cap_at k" "cap_at (k\<lparr>k_pages := pg\<rparr>) = cap_at k" "cap_at (k\<lparr>k_shms := sh\<rparr>) = cap_at k"
  by (simp_all add: cap_at_def fun_eq_iff)

lemma pages_grant_ok:
  assumes w: "k_wf k" and e: "pages_grant k i to = Some (r, k')"
  shows "k_wf k' \<and> cap_at k' = cap_at k \<and> get_proc k' = get_proc k \<and>
    (get_page k i = None \<longrightarrow> r = Err () \<and> k' = k) \<and>
    (\<forall>rec. get_page k i = Some rec \<longrightarrow> r = Ok () \<and>
       get_page k' = (get_page k)(i \<mapsto> rec\<lparr>pr_owner := to, pr_map_va := None\<rparr>))"
proof (cases "get_page k i")
  case None
  then show ?thesis using e w by (simp add: pages_grant_def)
next
  case (Some rec)
  let ?r = "rec\<lparr>pr_map_va := None, pr_owner := to\<rparr>"
  let ?k = "k\<lparr>k_pages := put_slot (k_pages k) i ?r\<rparr>"
  obtain m where k': "k' = ?k\<lparr>k_mm := m\<rparr>" "r = Ok ()"
    using e Some unfolding pages_grant_def Let_def
    by (auto simp: Option.bind_eq_Some_conv dest!: unmap_ok_frame split: option.split_asm)
      (metis kernel.surjective kernel.update_convs(1))+
  have "pr_id rec = i" using Some by (auto simp: get_page_def dest: get_slot_ident)
  then have "get_page ?k j = (if j = i then Some ?r else get_page k j)" for j
    using pages.put_ok(2,3) [OF k_wfD(3) [OF w], of i rec ?r] Some by (auto simp: get_page_def)
  moreover have "get_page k' = get_page ?k" by (simp add: k' get_page_def fun_eq_iff)
  moreover have "k_wf k'" using keepsD [OF pages_grant_wf [OF w] e] .
  ultimately show ?thesis using Some k' by (auto simp: fun_eq_iff)
qed

lemma clear_cap_page [simp]: "k_pages (snd (clear_cap k pid slot)) = k_pages k"
  by (auto simp: clear_cap_def put_proc_def split: option.split)

lemma grant_typed_cap_page: "grant_typed_cap k pid slot c = (r, k') \<Longrightarrow> k_pages k' = k_pages k"
  by (auto simp: grant_typed_cap_def put_proc_def split: option.split_asm if_splits)

lemma mem_grant_cases:
  assumes "mem_grant k caller src peer_slot dst = Some (r, k')"
  obtains e where "r = Err e" "k' = k"
  | i peer where "cap_at k caller src = Some (Page i)" "cap_at k caller peer_slot = Some (Proc peer)"
    "get_proc k peer \<noteq> None" "dst < 8" "cap_at k peer dst = None" "mem_grant_move k caller src i peer dst = Some (r, k')"
  using assms unfolding mem_grant_def cap_target_cap_at pid_root_def
  by (auto split: if_splits option.split_asm cap.split_asm)

lemma mem_grant_move_ok:
  assumes w: "k_wf k" and peer: "get_proc k peer \<noteq> None" "dst < 8"
    and e: "mem_grant_move k caller src i peer dst = Some (r, k')"
  obtains rec where "r = Ok ()" "get_page k i = Some rec"
    "get_page k' = (get_page k)(i \<mapsto> rec\<lparr>pr_owner := peer, pr_map_va := None\<rparr>)"
    "\<forall>p s. cap_at k' p s = (if p = caller \<and> s = src then None
       else if p = peer \<and> s = dst then Some (Page i) else cap_at k p s)"
  | e where "r = Err e" "cap_at k' = cap_at k"
proof -
  obtain q k1 where k1: "pages_grant k i peer = Some (q, k1)"
    using e by (auto simp: mem_grant_move_def elim!: bind_pairE)
  note g = pages_grant_ok [OF w k1]
  show ?thesis
  proof (cases "get_page k i")
    case None
    then have "r = Err SYS_ERR_ENOENT" "k' = k" using g e k1 by (auto simp: mem_grant_move_def)
    then show ?thesis using that(2) by simp
  next
    case (Some rec)
    obtain k2 where k2: "grant_typed_cap k1 peer dst (Page i) = (Ok (), k2)"
      "\<forall>p s. cap_at k2 p s = (if p = peer \<and> s = dst then Some (Page i) else cap_at k1 p s)"
      using grant_typed_cap_cases [of k1 peer dst "Page i"] g peer by auto
    have w2: "k_wf k2" using grant_typed_cap_wf [of k1 peer dst "Page i"] k2(1) g by simp
    have k': "r = Ok ()" "k' = snd (clear_cap k2 caller src)"
      using e g k1 k2(1) Some by (auto simp: mem_grant_move_def)
    have "get_page k' = get_page k1" using grant_typed_cap_page [OF k2(1)] by (simp add: k' get_page_def fun_eq_iff)
    then show ?thesis using k' g Some k2(2) clear_cap_at [OF w2, of caller src] by (intro that(1) [of rec]) auto
  qed
qed

lemma move_unique:
  assumes m: "\<forall>p s. h' p s = (if p = a \<and> s = b then None else if p = c \<and> s = d then Some x else h p s)"
    and src: "h a b = Some x" "h c d = None" and u: "\<exists>!q. h (fst q) (snd q) = Some x"
  shows "\<exists>!q. h' (fst q) (snd q) = Some x"
proof (rule ex1I [of _ "(c, d)"])
  show "h' (fst (c, d)) (snd (c, d)) = Some x" using m src by auto
  fix q assume q: "h' (fst q) (snd q) = Some x"
  show "q = (c, d)"
  proof (rule ccontr)
    assume "q \<noteq> (c, d)"
    then have "h (fst q) (snd q) = Some x" "q \<noteq> (a, b)" using q m by (auto simp: prod_eq_iff split: if_splits)
    then show False using u src(1) by (metis fst_conv snd_conv)
  qed
qed

text \<open>
  C19. \<^verbatim>\<open>mem_grant\<close> moves a page capability. When it succeeds the caller's slot held a page capability
  and is empty afterwards, the peer's slot was empty and holds that capability, no other slot of any
  process changes, the page belongs to the peer and is recorded as unmapped. So a page that one slot
  names is still named by exactly one slot. When it fails no capability moves.
\<close>

theorem mem_grant_moves:
  assumes w: "k_wf k" and e: "mem_grant k caller src peer_slot dst = Some (r, k')"
  shows "(r = Ok () \<longrightarrow> (\<exists>i peer rec. cap_at k caller src = Some (Page i) \<and> cap_at k caller peer_slot = Some (Proc peer) \<and>
       cap_at k peer dst = None \<and> get_page k i = Some rec \<and>
       (\<forall>p s. cap_at k' p s = (if p = caller \<and> s = src then None
          else if p = peer \<and> s = dst then Some (Page i) else cap_at k p s)) \<and>
       get_page k' = (get_page k)(i \<mapsto> rec\<lparr>pr_owner := peer, pr_map_va := None\<rparr>) \<and>
       ((\<exists>!q. cap_at k (fst q) (snd q) = Some (Page i)) \<longrightarrow> (\<exists>!q. cap_at k' (fst q) (snd q) = Some (Page i))))) \<and>
    (r \<noteq> Ok () \<longrightarrow> cap_at k' = cap_at k)"
  using e
proof (cases rule: mem_grant_cases)
  case (2 i peer)
  show ?thesis
  proof (cases rule: mem_grant_move_ok [OF w 2(3,4,6)])
    case (1 rec)
    have "(\<exists>!q. cap_at k (fst q) (snd q) = Some (Page i)) \<longrightarrow> (\<exists>!q. cap_at k' (fst q) (snd q) = Some (Page i))"
      using move_unique [OF 1(4) 2(1,5)] by blast
    then show ?thesis using 1 2(1,2,5) by blast
  qed simp
qed simp

text \<open>Process 0 holds page 0 in slot 0 and a capability for process 1 in slot 1.\<close>

definition demo_pages :: kernel where
  "demo_pages = snd (grant_cap (snd (grant_typed_cap
     (demo_kernel\<lparr>k_pages := \<lparr>st_slots = [\<lparr>pr_id = 0, pr_paddr = 0x80000000, pr_owner = 0, pr_map_va = None\<rparr>], st_free = []\<rparr>\<rparr>)
     0 0 (Page 0))) 0 1 1)"

lemma demo_pages_wf: "k_wf demo_pages"
  unfolding demo_pages_def grant_cap_def
  by (intro grant_typed_cap_wf k_wf_pages demo_kernel_wf) (simp_all add: slot_wf_def)

theorem mem_grant_moves_witness:
  "\<exists>k'. mem_grant demo_pages 0 0 1 7 = Some (Ok (), k') \<and> cap_at k' 0 0 = None \<and> cap_at k' 1 7 = Some (Page 0)"
proof -
  have d: "\<exists>k'. mem_grant demo_pages 0 0 1 7 = Some (Ok (), k')" "cap_at demo_pages 0 0 = Some (Page 0)"
    "cap_at demo_pages 0 1 = Some (Proc 1)"
    by (simp_all add: demo_pages_def demo_kernel_def grant_cap_def grant_typed_cap_def get_proc_def get_slot_def put_proc_def
        put_slot_def mem_grant_def cap_target_def pid_root_def mem_grant_move_def pages_grant_def get_page_def clear_cap_def
        cap_at_def nth_list_update)
  then obtain k' where k': "mem_grant demo_pages 0 0 1 7 = Some (Ok (), k')" by blast
  from mem_grant_moves [OF demo_pages_wf k', THEN conjunct1, THEN mp, OF refl]
  obtain i peer where i: "cap_at demo_pages 0 0 = Some (Page i)" "cap_at demo_pages 0 1 = Some (Proc peer)"
    "\<forall>p s. cap_at k' p s = (if p = 0 \<and> s = 0 then None else if p = peer \<and> s = 7 then Some (Page i) else cap_at demo_pages p s)"
    by (elim exE conjE) (rule that; assumption)
  have "i = 0" "peer = 1" using i(1,2) d(2,3) by simp_all
  then have "cap_at k' 0 0 = None" "cap_at k' 1 7 = Some (Page 0)" using i(3) by simp_all
  then show ?thesis using k' by blast
qed

section \<open>Defects of slot reuse\<close>

lemma clear_cap_shms [simp]: "k_shms (snd (clear_cap k pid slot)) = k_shms k"
  by (auto simp: clear_cap_def put_proc_def split: option.split)

lemma unmap_ok_shms: "unmap_ok k root va = Some k' \<Longrightarrow> k_shms k' = k_shms k"
  by (auto dest: unmap_ok_frame)

lemma shm_revoke_owners_shms: "shm_revoke_owners k os = Some k' \<Longrightarrow> k_shms k' = k_shms k"
  by (induction k os rule: shm_revoke_owners.induct)
    (auto simp: Option.bind_eq_Some_conv unmap_ok_shms split: option.split_asm)

text \<open>
  Revoked shared pages and page records are never reused once their tables reached full length:
  \<^verbatim>\<open>mmap_share\<close> and \<^verbatim>\<open>alloc\<close> compare the length of the slot vector, which never shrinks, with the limit
  before they look at the queue of free slots. So after 16 shared pages (64 page records) have ever
  existed side by side no further one can be created, even if all of them are revoked.
\<close>

theorem full_tables_never_reused:
  "(MAX_SHMS \<le> length (st_slots (k_shms k)) \<longrightarrow> (\<forall>caller a b len sid k'. mmap_share k caller a b len \<noteq> Some (Ok sid, k'))) \<and>
   (MAX_PAGE_RECORDS \<le> length (st_slots (k_pages k)) \<longrightarrow> (\<forall>owner i k'. pages_alloc k owner \<noteq> Some (Ok i, k'))) \<and>
   (\<forall>sid r k'. shm_revoke k sid = Some (r, k') \<longrightarrow> length (st_slots (k_shms k')) = length (st_slots (k_shms k)))"
proof (intro conjI impI allI)
  fix caller a b len sid k'
  assume n: "MAX_SHMS \<le> length (st_slots (k_shms k))"
  have "mmap_share_map k caller a peer b ra rb \<noteq> Some (Ok sid, k')" for peer ra rb
    using n by (auto simp: mmap_share_map_def Let_def Option.bind_eq_Some_conv split: option.split_asm if_splits)
  then show "mmap_share k caller a b len \<noteq> Some (Ok sid, k')"
    by (auto simp: mmap_share_def split: result.split cap.split option.split)
next
  fix owner i k'
  assume "MAX_PAGE_RECORDS \<le> length (st_slots (k_pages k))"
  then show "pages_alloc k owner \<noteq> Some (Ok i, k')"
    by (auto simp: pages_alloc_def Let_def Option.bind_eq_Some_conv split: option.split_asm)
next
  fix sid r k'
  assume "shm_revoke k sid = Some (r, k')"
  then show "length (st_slots (k_shms k')) = length (st_slots (k_shms k))"
    by (auto simp: shm_revoke_def Let_def Option.bind_eq_Some_conv dest!: shm_revoke_owners_shms split: option.split_asm)
qed

definition demo_full :: kernel where
  "demo_full = demo_kernel
     \<lparr>k_shms := \<lparr>st_slots = replicate 16 \<lparr>sh_id = USIZE_MAX, sh_paddr = 0, sh_owners = []\<rparr>, st_free = [0..<16]\<rparr>\<rparr>"

theorem full_tables_never_reused_witness:
  "live_count (k_shms demo_full) = 0 \<and> (\<forall>caller a b len sid k'. mmap_share demo_full caller a b len \<noteq> Some (Ok sid, k'))"
  using full_tables_never_reused [of demo_full] by (simp add: demo_full_def live_count_def)

text \<open>
  A process capability outlives its process. \<^verbatim>\<open>destroy\<close> clears no capability that names the dead
  pid, and the reuse queue gives that pid to a later \<^verbatim>\<open>create\<close>: the old capability then designates
  the new process.
\<close>

theorem stale_proc_cap:
  assumes w: "k_wf k" and p: "get_proc k pid = Some p"
    and c: "shm_ids (p_caps p) = []" "page_ids (p_caps p) = []"
    and m: "buddy_inv (k_mm k) A" "phys_ok (k_mm k)" "as_wf (k_mm k) (p_root p) A"
    and held: "cap_at k holder slot = Some (Proc pid)" "holder \<noteq> pid" and q: "st_free (k_procs k) = []"
  shows "\<exists>k'. destroy k pid = Some k' \<and> get_proc k' pid = None \<and> cap_at k' holder slot = Some (Proc pid) \<and>
    (\<forall>ly new k''. create ly k' = Some (Ok new, k'') \<longrightarrow>
       new = pid \<and> get_proc k'' pid \<noteq> None \<and> cap_target k'' holder slot = Ok (Proc pid))"
proof -
  obtain m' where m': "destroy k pid = Some ((retire k pid p)\<lparr>k_mm := m'\<rparr>)" by (rule destroy_eq [OF p c m])
  let ?k = "(retire k pid p)\<lparr>k_mm := m'\<rparr>"
  have held': "cap_at ?k holder slot = Some (Proc pid)" using held retire_cap_at [OF w p] by simp
  have reuse: "new = pid \<and> get_proc k'' pid \<noteq> None \<and> cap_target k'' holder slot = Ok (Proc pid)"
    if e: "create ly ?k = Some (Ok new, k'')" for ly new k''
  proof -
    have f: "st_free (k_procs ?k) = [pid]" using q by (simp add: retire_tables slot_kill_def)
    obtain root m t where t: "k'' = ?k\<lparr>k_mm := m, k_procs := t\<rparr>"
      "take_slot (k_procs ?k) (\<lambda>idx. \<lparr>p_id = idx, p_root = root, p_caps = replicate MAX_CAPS None\<rparr>) = Some (new, t)"
      using e by (auto simp: create_def Let_def elim!: bind_pairE split: result.split_asm if_splits)
    have pid: "new = pid" "t = (k_procs ?k)\<lparr>st_slots := (st_slots (k_procs ?k))[pid := \<lparr>p_id = pid, p_root = root, p_caps = replicate MAX_CAPS None\<rparr>], st_free := []\<rparr>"
      "pid < length (st_slots (k_procs ?k))"
      using t(2) f unfolding take_slot_def by (auto split: if_splits)
    have g: "get_proc k'' j = (if j = pid then Some \<lparr>p_id = pid, p_root = root, p_caps = replicate MAX_CAPS None\<rparr> else get_proc ?k j)" for j
      using pid by (auto simp: t(1) get_proc_def get_slot_def)
    then have "cap_at k'' holder slot = cap_at ?k holder slot" using held(2) by (simp add: cap_at_def)
    then show ?thesis using pid(1) g held' by (auto simp: cap_target_cap_at) (auto simp: cap_at_def split: if_splits)
  qed
  show ?thesis using m' held' reuse retire_get_proc [OF w p] by (intro exI [of _ ?k]) auto
qed

theorem stale_proc_cap_witness:
  "\<exists>k k'. k_wf k \<and> destroy k 0 = Some k' \<and> get_proc k' 0 = None \<and> cap_at k' 1 2 = Some (Proc 0)"
proof -
  obtain s root p where d: "buddy_inv s {(p, 0), (root, 0)}" "phys_ok s" "as_wf s root {(p, 0), (root, 0)}"
    by (rule demo_space) (rule that; assumption)
  let ?p = "\<lparr>p_id = 0, p_root = root, p_caps = replicate 8 None\<rparr>"
  let ?kd = "(put_proc demo_kernel 0 ?p)\<lparr>k_mm := s\<rparr>"
  let ?k = "snd (grant_cap ?kd 1 2 0)"
  have g0: "get_proc ?kd i = (if i = 0 then Some ?p else get_proc demo_kernel i)" for i
    using get_proc_put [OF demo_kernel_wf, of 0 _ ?p] by (simp add: demo_get_proc)
  have "slot_wf p_id (k_procs ?kd)"
    using procs.put_ok(1) [OF k_wfD(1) [OF demo_kernel_wf], of 0 _ ?p] demo_get_proc [of 0]
    by (simp add: put_proc_def get_proc_def)
  then have w0: "k_wf ?kd"
    using demo_kernel_wf unfolding k_wf_def g0 by (auto simp: put_proc_def put_slot_def demo_get_proc)
  then have w: "k_wf ?k" using grant_typed_cap_wf [OF w0] by (simp add: grant_cap_def)
  obtain k1 where k1: "grant_typed_cap ?kd 1 2 (Proc 0) = (Ok (), k1)"
    "\<forall>i j. cap_at k1 i j = (if i = 1 \<and> j = 2 then Some (Proc 0) else cap_at ?kd i j)"
    using grant_typed_cap_cases [OF w0, of 1 2 "Proc 0"] g0 by (auto simp: demo_get_proc)
  have "get_proc ?k 0 = Some ?p"
    using get_proc_put [OF w0, of 1] g0 by (simp add: grant_cap_def grant_typed_cap_def demo_get_proc)
  moreover have "shm_ids (p_caps ?p) = []" "page_ids (p_caps ?p) = []" by (simp_all add: numeral_eq_Suc)
  moreover have "k_mm ?k = s" "st_free (k_procs ?k) = []"
    by (simp_all add: grant_cap_def grant_typed_cap_def get_proc_def get_slot_def put_proc_def put_slot_def demo_kernel_def)
  moreover have "cap_at ?k 1 2 = Some (Proc 0)" using k1 by (simp add: grant_cap_def)
  ultimately obtain k' where "destroy ?k 0 = Some k'" "get_proc k' 0 = None" "cap_at k' 1 2 = Some (Proc 0)"
    using stale_proc_cap [OF w, of 0 ?p "{(p, 0), (root, 0)}" 1 2] d by auto
  then show ?thesis using w by blast
qed

end
