(* ===== verification/User.thy ===== *)
theory User
  imports Prelude
begin

text \<open>
  Model of src/user/src/lib.rs, the library of the user programs, and of the way a user program is seen
  from outside.

  A user program meets the rest of the system in its system calls and its volatile memory accesses. It
  is a value of the datatype \<open>uprog\<close>: a tree of these interactions, in which the answer of each
  interaction selects the continuation. Nothing is assumed of the answers, so what holds of a program on every path
  holds whatever the kernel and the other programs do. \<open>UStop\<close> is a program that makes no further
  interaction (\<^verbatim>\<open>loop { spin_loop() }\<close> after the exit call and in the panic handler), \<open>UPoll a bits\<close> is
  the loop that reads the byte at \<open>a\<close> until one of \<open>bits\<close> is set. A loop that serves requests for ever
  is given by its body; \<open>uloop\<close> iterates it. A message is a list of five words, the registers
  after a call are a list of six. The helpers take their continuation as last argument.
\<close>

section \<open>Programs\<close>

datatype 'a uprog =
    URet 'a
  | UStop
  | UCall usize "usize list" "usize list \<Rightarrow> 'a uprog"
  | ULoad usize "byte \<Rightarrow> 'a uprog"
  | UStore usize byte "'a uprog"
  | UPoll usize byte "'a uprog"

primrec ubind :: "'a uprog \<Rightarrow> ('a \<Rightarrow> 'b uprog) \<Rightarrow> 'b uprog" where
  "ubind (URet a) f = f a"
| "ubind UStop f = UStop"
| "ubind (UCall n args k) f = UCall n args (\<lambda>r. ubind (k r) f)"
| "ubind (ULoad a k) f = ULoad a (\<lambda>b. ubind (k b) f)"
| "ubind (UStore a b p) f = UStore a b (ubind p f)"
| "ubind (UPoll a bits p) f = UPoll a bits (ubind p f)"

text \<open>\<open>n\<close> rounds of a loop with body \<open>f\<close>.\<close>

primrec uloop :: "('a \<Rightarrow> 'a uprog) \<Rightarrow> nat \<Rightarrow> 'a \<Rightarrow> 'a uprog" where
  "uloop f 0 a = URet a"
| "uloop f (Suc n) a = ubind (f a) (uloop f n)"

section \<open>Constants\<close>

definition SYS_EXIT :: usize where [simp]: "SYS_EXIT = 1"
definition SYS_IPC_SEND :: usize where [simp]: "SYS_IPC_SEND = 3"
definition SYS_IPC_RECV :: usize where [simp]: "SYS_IPC_RECV = 4"
definition SYS_SHM_MAP :: usize where [simp]: "SYS_SHM_MAP = 5"
definition SYS_CAP_DUP :: usize where [simp]: "SYS_CAP_DUP = 7"
definition SYS_SERVICE_REGISTER :: usize where [simp]: "SYS_SERVICE_REGISTER = 10"
definition SYS_SERVICE_CONNECT :: usize where [simp]: "SYS_SERVICE_CONNECT = 11"
definition SYS_MAP_DEVICE :: usize where [simp]: "SYS_MAP_DEVICE = 12"
definition SYS_MEM_GRANT :: usize where [simp]: "SYS_MEM_GRANT = 13"
definition SYS_MEM_MAP :: usize where [simp]: "SYS_MEM_MAP = 14"

definition SERVER_ACCEPT_SLOT :: usize where [simp]: "SERVER_ACCEPT_SLOT = 0"
definition SERVER_SHM_SLOT :: usize where [simp]: "SERVER_SHM_SLOT = 1"
definition CLIENT_IPC_SLOT :: usize where [simp]: "CLIENT_IPC_SLOT = 2"
definition CLIENT_SHM_SLOT :: usize where [simp]: "CLIENT_SHM_SLOT = 3"
definition CLIENT_PAGE_SLOT :: usize where [simp]: "CLIENT_PAGE_SLOT = 3"
definition SERVER_POOL_START :: usize where [simp]: "SERVER_POOL_START = 1"
definition SERVER_POOL_END :: usize where [simp]: "SERVER_POOL_END = 4"
definition UART_MMIO_VA :: usize where [simp]: "UART_MMIO_VA = 0x60000000"
definition UART_SERVICE_ID :: usize where [simp]: "UART_SERVICE_ID = 1"
definition MEMORY_SERVICE_ID :: usize where [simp]: "MEMORY_SERVICE_ID = 2"
definition USER_SHM_VA :: usize where [simp]: "USER_SHM_VA = 0x50000000"
definition USER_SHM_LEN :: usize where [simp]: "USER_SHM_LEN = 4096"
definition MEM_VA :: usize where [simp]: "MEM_VA = 0x70000000"
definition RAMFS_SERVICE_ID :: usize where [simp]: "RAMFS_SERVICE_ID = 3"
definition RAMFS_VA :: usize where [simp]: "RAMFS_VA = 0x74000000"
definition RAMFS_FILE_PAGE_START :: usize where [simp]: "RAMFS_FILE_PAGE_START = 3"
definition NAME_MAX :: usize where [simp]: "NAME_MAX = 24"
definition MAX_FILES :: usize where [simp]: "MAX_FILES = 4"

definition OP_WRITE :: usize where [simp]: "OP_WRITE = 1"
definition OP_READ :: usize where [simp]: "OP_READ = 2"
definition OP_PING :: usize where [simp]: "OP_PING = 3"
definition OP_ALLOC :: usize where [simp]: "OP_ALLOC = 4"
definition OP_FREE :: usize where [simp]: "OP_FREE = 5"
definition OP_FS_OPEN :: usize where [simp]: "OP_FS_OPEN = 6"
definition OP_FS_READ :: usize where [simp]: "OP_FS_READ = 7"
definition OP_FS_WRITE :: usize where [simp]: "OP_FS_WRITE = 8"
definition OP_FS_CLOSE :: usize where [simp]: "OP_FS_CLOSE = 9"
definition OP_FS_UNLINK :: usize where [simp]: "OP_FS_UNLINK = 10"
definition OP_REPLY_FLAG :: usize where [simp]: "OP_REPLY_FLAG = 0x80"
definition PROTO_ERR :: usize where "PROTO_ERR = USIZE_MAX"
definition ERR_ENOMEM :: usize where "ERR_ENOMEM = USIZE_MAX - 3"
definition USER_ERR_EINVAL :: usize where "USER_ERR_EINVAL = USIZE_MAX"
definition USER_ERR_EBADF :: usize where "USER_ERR_EBADF = USIZE_MAX - 4"
definition USER_ERR_EEXIST :: usize where "USER_ERR_EEXIST = USIZE_MAX - 6"

section \<open>System calls\<close>

definition syscall ::
  "usize \<Rightarrow> usize \<Rightarrow> usize \<Rightarrow> usize \<Rightarrow> usize \<Rightarrow> usize \<Rightarrow> usize \<Rightarrow> (usize \<Rightarrow> 'a uprog) \<Rightarrow> 'a uprog" where
  "syscall num a0 a1 a2 a3 a4 a5 k = UCall num [a0, a1, a2, a3, a4, a5] (\<lambda>r. k (r ! 0))"

definition sys_exit :: "'a uprog" where
  "sys_exit = syscall SYS_EXIT 0 0 0 0 0 0 (\<lambda>_. UStop)"

definition sys_ipc_send :: "usize \<Rightarrow> usize list \<Rightarrow> (usize \<Rightarrow> 'a uprog) \<Rightarrow> 'a uprog" where
  "sys_ipc_send slot msg k = syscall SYS_IPC_SEND slot (msg ! 0) (msg ! 1) (msg ! 2) (msg ! 3) (msg ! 4) k"

definition sys_ipc_recv :: "usize \<Rightarrow> (usize list \<Rightarrow> 'a uprog) \<Rightarrow> 'a uprog" where
  "sys_ipc_recv slot k = UCall SYS_IPC_RECV [slot] k"

definition sys_shm_map :: "usize \<Rightarrow> usize \<Rightarrow> usize \<Rightarrow> (usize \<Rightarrow> 'a uprog) \<Rightarrow> 'a uprog" where
  "sys_shm_map a_slot b_slot len k = syscall SYS_SHM_MAP a_slot b_slot len 0 0 0 k"

definition sys_cap_dup :: "usize \<Rightarrow> usize \<Rightarrow> (usize \<Rightarrow> 'a uprog) \<Rightarrow> 'a uprog" where
  "sys_cap_dup src dst k = syscall SYS_CAP_DUP src dst 0 0 0 0 k"

definition sys_service_register :: "usize \<Rightarrow> (usize \<Rightarrow> 'a uprog) \<Rightarrow> 'a uprog" where
  "sys_service_register svc k = syscall SYS_SERVICE_REGISTER svc 0 0 0 0 0 k"

definition sys_service_connect :: "usize \<Rightarrow> usize \<Rightarrow> usize \<Rightarrow> (usize \<Rightarrow> 'a uprog) \<Rightarrow> 'a uprog" where
  "sys_service_connect svc client_slot server_slot k =
     syscall SYS_SERVICE_CONNECT svc client_slot server_slot 0 0 0 k"

definition sys_map_device :: "usize \<Rightarrow> usize \<Rightarrow> (usize \<Rightarrow> 'a uprog) \<Rightarrow> 'a uprog" where
  "sys_map_device dev va k = syscall SYS_MAP_DEVICE dev va 0 0 0 0 k"

definition sys_mem_grant :: "usize \<Rightarrow> usize \<Rightarrow> usize \<Rightarrow> (usize \<Rightarrow> 'a uprog) \<Rightarrow> 'a uprog" where
  "sys_mem_grant src_slot peer_slot dst_slot k = syscall SYS_MEM_GRANT src_slot peer_slot dst_slot 0 0 0 k"

definition sys_mem_map :: "usize \<Rightarrow> usize \<Rightarrow> (usize \<Rightarrow> 'a uprog) \<Rightarrow> 'a uprog" where
  "sys_mem_map slot va k = syscall SYS_MEM_MAP slot va 0 0 0 0 k"

lemmas syscall_defs = syscall_def sys_exit_def sys_ipc_send_def sys_ipc_recv_def sys_shm_map_def sys_cap_dup_def
  sys_service_register_def sys_service_connect_def sys_map_device_def sys_mem_grant_def sys_mem_map_def

section \<open>File names in messages\<close>

text \<open>The word of the bytes \<open>bs\<close>, of which the first one stands at bit position \<open>8 * j\<close>.\<close>

fun or_bytes :: "byte list \<Rightarrow> nat \<Rightarrow> usize \<Rightarrow> usize" where
  "or_bytes [] j w = w"
| "or_bytes (b # bs) j w = or_bytes bs (Suc j) (w OR push_bit (j * 8) (unat b))"

definition name_word :: "byte list \<Rightarrow> nat \<Rightarrow> nat \<Rightarrow> usize" where
  "name_word name n i =
     (let base = i * 8 in
      if base < n then or_bytes (take (min (base + 8) n - base) (drop base name)) 0 0 else 0)"

definition name_to_words :: "byte list \<Rightarrow> usize list \<times> usize" where
  "name_to_words name = (let n = min (length name) NAME_MAX in ([name_word name n 0, name_word name n 1, name_word name n 2], n))"

definition name_from_words :: "usize list \<Rightarrow> byte list" where
  "name_from_words words =
     concat (map (\<lambda>w. map (\<lambda>j. of_nat (drop_bit (j * 8) w AND 0xff)) [0..<8]) words)"

section \<open>Copies and the client of the serial server\<close>

text \<open>The copy loop of the servers: \<open>n\<close> bytes from \<open>src + i\<close> to \<open>dst + i\<close>.\<close>

fun copy_bytes :: "usize \<Rightarrow> usize \<Rightarrow> nat \<Rightarrow> nat \<Rightarrow> 'a uprog \<Rightarrow> 'a uprog" where
  "copy_bytes src dst i 0 p = p"
| "copy_bytes src dst i (Suc n) p = ULoad (src + i) (\<lambda>b. UStore (dst + i) b (copy_bytes src dst (Suc i) n p))"

fun store_bytes :: "usize \<Rightarrow> byte list \<Rightarrow> 'a uprog \<Rightarrow> 'a uprog" where
  "store_bytes a [] p = p"
| "store_bytes a (b # bs) p = UStore a b (store_bytes (a + 1) bs p)"

fun load_bytes :: "usize \<Rightarrow> nat \<Rightarrow> (byte list \<Rightarrow> 'a uprog) \<Rightarrow> 'a uprog" where
  "load_bytes a 0 k = k []"
| "load_bytes a (Suc n) k = ULoad a (\<lambda>b. load_bytes (a + 1) n (\<lambda>bs. k (b # bs)))"

definition uart_init :: "usize uprog" where
  "uart_init =
     sys_service_connect UART_SERVICE_ID CLIENT_IPC_SLOT SERVER_ACCEPT_SLOT (\<lambda>rc.
       if rc \<noteq> 0 then URet rc
       else sys_cap_dup CLIENT_IPC_SLOT CLIENT_SHM_SLOT (\<lambda>rc.
         if rc \<noteq> 0 then URet rc
         else sys_shm_map CLIENT_SHM_SLOT SERVER_SHM_SLOT USER_SHM_LEN URet))"

text \<open>A \<^verbatim>\<open>usize as isize\<close> cast.\<close>

definition isize :: "usize \<Rightarrow> int" where
  "isize v = (if v < 2 ^ 63 then int v else int v - 2 ^ 64)"

definition uart_write :: "byte list \<Rightarrow> int uprog" where
  "uart_write bytes =
     (let n = min (length bytes) USER_SHM_LEN in
      store_bytes USER_SHM_VA (take n bytes)
        (sys_ipc_send CLIENT_IPC_SLOT [OP_WRITE, n, 0, 0, 0] (\<lambda>rc.
           if rc \<noteq> 0 then URet (- 1)
           else sys_ipc_recv CLIENT_IPC_SLOT (\<lambda>r.
             if r ! 0 \<noteq> 0 then URet (isize (r ! 0))
             else if isize (r ! 2) \<noteq> 0 then URet (isize (r ! 2))
             else URet (isize (r ! 3))))))"

text \<open>The result and the bytes written to the front of the buffer.\<close>

definition uart_read :: "nat \<Rightarrow> (int \<times> byte list) uprog" where
  "uart_read buf_len =
     (let mx = min buf_len USER_SHM_LEN in
      sys_ipc_send CLIENT_IPC_SLOT [OP_READ, mx, 0, 0, 0] (\<lambda>rc.
        if rc \<noteq> 0 then URet (- 1, [])
        else sys_ipc_recv CLIENT_IPC_SLOT (\<lambda>r.
          if r ! 0 \<noteq> 0 then URet (isize (r ! 0), [])
          else if isize (r ! 2) \<noteq> 0 then URet (isize (r ! 2), [])
          else (let n = min (r ! 3) buf_len in
            load_bytes USER_SHM_VA n (\<lambda>bs. URet (int n, bs))))))"

end
