(* ===== verification/Servers.thy ===== *)
theory Servers
  imports User
begin

text \<open>
  Model of the user programs in src/user/src/bin: the memory server, the serial server and the file
  server with its two clients. A server is its start-up program and the body of its service loop, a
  function from the local state of the loop to a program that ends with the next one.
\<close>

section \<open>Memory server\<close>

text \<open>\<open>alloc_page\<close> and \<open>free_slot\<close> go through the slots \<open>i\<close> of the pool from the first one.\<close>

fun alloc_page_from :: "usize list \<Rightarrow> bool list \<Rightarrow> usize \<Rightarrow> ((unit, usize) result \<times> bool list) uprog" where
  "alloc_page_from [] pool client_dst = URet (Err ERR_ENOMEM, pool)"
| "alloc_page_from (i # is) pool client_dst =
     (if pool ! (i - SERVER_POOL_START)
      then sys_mem_grant i SERVER_ACCEPT_SLOT client_dst (\<lambda>rc.
        if rc \<noteq> 0 then URet (Err rc, pool) else URet (Ok (), pool[i - SERVER_POOL_START := False]))
      else alloc_page_from is pool client_dst)"

definition alloc_page :: "bool list \<Rightarrow> usize \<Rightarrow> ((unit, usize) result \<times> bool list) uprog" where
  "alloc_page = alloc_page_from [SERVER_POOL_START..<SERVER_POOL_END + 1]"

fun free_slot_from :: "usize list \<Rightarrow> bool list \<Rightarrow> usize option \<times> bool list" where
  "free_slot_from [] pool = (None, pool)"
| "free_slot_from (i # is) pool =
     (if \<not> pool ! (i - SERVER_POOL_START) then (Some i, pool[i - SERVER_POOL_START := True])
      else free_slot_from is pool)"

definition free_slot :: "bool list \<Rightarrow> usize option \<times> bool list" where
  "free_slot = free_slot_from [SERVER_POOL_START..<SERVER_POOL_END + 1]"

definition memory_op :: "bool list \<Rightarrow> usize \<Rightarrow> usize \<Rightarrow> (usize list \<times> bool list) uprog" where
  "memory_op pool op arg1 =
     (if op = OP_ALLOC then
        ubind (alloc_page pool arg1) (\<lambda>(r, pool).
          URet ([op OR OP_REPLY_FLAG, case r of Ok _ \<Rightarrow> 0 | Err e \<Rightarrow> e, 0, 0, 0], pool))
      else if op = OP_FREE then
        (case free_slot pool of
           (Some recv_slot, pool) \<Rightarrow> URet ([op OR OP_REPLY_FLAG, 0, recv_slot, 0, 0], pool)
         | (None, pool) \<Rightarrow> URet ([op OR OP_REPLY_FLAG, ERR_ENOMEM, 0, 0, 0], pool))
      else URet ([op OR OP_REPLY_FLAG, PROTO_ERR, 0, 0, 0], pool))"

definition memory_server_start :: "bool list uprog" where
  "memory_server_start =
     sys_service_register MEMORY_SERVICE_ID (\<lambda>rc. if rc \<noteq> 0 then sys_exit else URet (replicate 4 True))"

definition memory_server_body :: "bool list \<Rightarrow> bool list uprog" where
  "memory_server_body pool_full =
     sys_ipc_recv SERVER_ACCEPT_SLOT (\<lambda>r.
       if r ! 0 \<noteq> 0 then URet pool_full
       else ubind (memory_op pool_full (r ! 1) (r ! 2)) (\<lambda>(reply, pool_full).
         sys_ipc_send SERVER_ACCEPT_SLOT reply (\<lambda>_. URet pool_full)))"

section \<open>Serial server\<close>

definition RBR_THR :: usize where [simp]: "RBR_THR = 0"
definition LSR :: usize where [simp]: "LSR = 5"
definition LSR_THRE :: byte where [simp]: "LSR_THRE = 0x20"
definition LSR_DR :: byte where [simp]: "LSR_DR = 1"

definition uart_tx_raw :: "byte \<Rightarrow> 'a uprog \<Rightarrow> 'a uprog" where
  "uart_tx_raw b p = UPoll (UART_MMIO_VA + LSR) LSR_THRE (UStore (UART_MMIO_VA + RBR_THR) b p)"

definition uart_tx :: "byte \<Rightarrow> 'a uprog \<Rightarrow> 'a uprog" where
  "uart_tx b p = (if b = 10 then uart_tx_raw 13 (uart_tx_raw b p) else uart_tx_raw b p)"

definition uart_rx_ready :: "(bool \<Rightarrow> 'a uprog) \<Rightarrow> 'a uprog" where
  "uart_rx_ready k = ULoad (UART_MMIO_VA + LSR) (\<lambda>lsr. k (lsr AND LSR_DR \<noteq> 0))"

definition uart_rx :: "(byte \<Rightarrow> 'a uprog) \<Rightarrow> 'a uprog" where
  "uart_rx k = ULoad (UART_MMIO_VA + RBR_THR) k"

text \<open>The loops of the operations: \<open>m\<close> bytes are left, the next one has index \<open>i\<close>.\<close>

fun write_loop :: "nat \<Rightarrow> nat \<Rightarrow> 'a uprog \<Rightarrow> 'a uprog" where
  "write_loop i 0 p = p"
| "write_loop i (Suc m) p = ULoad (USER_SHM_VA + i) (\<lambda>b. uart_tx b (write_loop (Suc i) m p))"

fun read_loop :: "nat \<Rightarrow> nat \<Rightarrow> (usize \<Rightarrow> 'a uprog) \<Rightarrow> 'a uprog" where
  "read_loop n 0 k = k n"
| "read_loop n (Suc m) k =
     uart_rx_ready (\<lambda>ready.
       if ready then uart_rx (\<lambda>b. UStore (USER_SHM_VA + n) b (read_loop (Suc n) m k)) else k n)"

definition uart_op :: "usize \<Rightarrow> usize \<Rightarrow> (usize list) uprog" where
  "uart_op op arg1 =
     (if op = OP_WRITE then
        (let n = min arg1 USER_SHM_LEN in write_loop 0 n (URet [op OR OP_REPLY_FLAG, 0, n, 0, 0]))
      else if op = OP_READ then
        read_loop 0 (min arg1 USER_SHM_LEN) (\<lambda>n. URet [op OR OP_REPLY_FLAG, 0, n, 0, 0])
      else if op = OP_PING then URet [op OR OP_REPLY_FLAG, 0, 0, 0, 0]
      else URet [op OR OP_REPLY_FLAG, PROTO_ERR, 0, 0, 0])"

definition uart_server_start :: "unit uprog" where
  "uart_server_start =
     sys_map_device 0 UART_MMIO_VA (\<lambda>rc. if rc \<noteq> 0 then sys_exit
       else sys_service_register UART_SERVICE_ID (\<lambda>rc. if rc \<noteq> 0 then sys_exit else URet ()))"

definition uart_server_body :: "unit \<Rightarrow> unit uprog" where
  "uart_server_body u =
     sys_ipc_recv SERVER_ACCEPT_SLOT (\<lambda>r.
       if r ! 0 \<noteq> 0 then URet ()
       else ubind (uart_op (r ! 1) (r ! 2)) (\<lambda>reply. sys_ipc_send SERVER_ACCEPT_SLOT reply (\<lambda>_. URet ())))"

section \<open>File server\<close>

datatype file_state = FileFree | FileOpen | FileClosed

record file_entry =
  fe_state :: file_state
  fe_name :: "byte list"
  fe_name_len :: usize
  fe_size :: usize

type_synonym file_table = "file_entry list"

definition file_entry_free :: file_entry where
  "file_entry_free = \<lparr>fe_state = FileFree, fe_name = replicate NAME_MAX 0, fe_name_len = 0, fe_size = 0\<rparr>"

definition fs_reply :: "usize \<Rightarrow> usize \<Rightarrow> usize \<Rightarrow> usize list" where
  "fs_reply op st v = [op OR OP_REPLY_FLAG, st, v, 0, 0]"

definition file_page :: "usize \<Rightarrow> usize" where
  "file_page fd = RAMFS_VA + fd * 4096"

definition alloc_file_page :: "usize \<Rightarrow> (unit, usize) result uprog" where
  "alloc_file_page fd =
     (let page_slot = RAMFS_FILE_PAGE_START + fd in
      sys_ipc_send CLIENT_IPC_SLOT [OP_ALLOC, page_slot, 0, 0, 0] (\<lambda>rc.
        if rc \<noteq> 0 then URet (Err ERR_ENOMEM)
        else sys_ipc_recv CLIENT_IPC_SLOT (\<lambda>r.
          if r ! 0 \<noteq> 0 \<or> r ! 1 \<noteq> OP_ALLOC OR OP_REPLY_FLAG \<or> r ! 2 \<noteq> 0 then URet (Err ERR_ENOMEM)
          else sys_mem_map page_slot (file_page fd) (\<lambda>rc.
            if rc \<noteq> 0 then URet (Err ERR_ENOMEM) else URet (Ok ())))))"

definition same_name :: "file_entry \<Rightarrow> usize \<Rightarrow> byte list \<Rightarrow> bool" where
  "same_name e name_len name \<longleftrightarrow> fe_name_len e = name_len \<and> take name_len (fe_name e) = take name_len name"

definition fs_create :: "file_table \<Rightarrow> usize \<Rightarrow> byte list \<Rightarrow> (usize list \<times> file_table) uprog" where
  "fs_create table name_len name =
     (case find (\<lambda>fd. fe_state (table ! fd) = FileFree) [0..<MAX_FILES] of
        Some fd \<Rightarrow>
          ubind (alloc_file_page fd) (\<lambda>r. URet (case r of
              Ok _ \<Rightarrow> (fs_reply OP_FS_OPEN 0 fd,
                table[fd := \<lparr>fe_state = FileOpen, fe_name = name, fe_name_len = name_len, fe_size = 0\<rparr>])
            | Err e \<Rightarrow> (fs_reply OP_FS_OPEN e 0, table)))
      | None \<Rightarrow> URet (fs_reply OP_FS_OPEN ERR_ENOMEM 0, table))"

definition fs_open :: "file_table \<Rightarrow> usize \<Rightarrow> usize \<Rightarrow> usize \<Rightarrow> usize \<Rightarrow> (usize list \<times> file_table) uprog" where
  "fs_open table name_len w0 w1 w2 =
     (if name_len = 0 \<or> name_len > NAME_MAX then URet (fs_reply OP_FS_OPEN USER_ERR_EINVAL 0, table)
      else (let name = name_from_words [w0, w1, w2] in
        case find (\<lambda>fd. same_name (table ! fd) name_len name) [0..<MAX_FILES] of
          Some fd \<Rightarrow> URet (case fe_state (table ! fd) of
              FileOpen \<Rightarrow> (fs_reply OP_FS_OPEN USER_ERR_EEXIST 0, table)
            | FileClosed \<Rightarrow> (fs_reply OP_FS_OPEN 0 fd, table[fd := (table ! fd)\<lparr>fe_state := FileOpen\<rparr>])
            | FileFree \<Rightarrow> (fs_reply OP_FS_OPEN PROTO_ERR 0, table))
        | None \<Rightarrow> fs_create table name_len name))"

text \<open>\<^verbatim>\<open>table.get_mut(fd)\<close> with a test of the entry's state.\<close>

definition entry :: "file_table \<Rightarrow> usize \<Rightarrow> (file_state \<Rightarrow> bool) \<Rightarrow> file_entry option" where
  "entry table fd ok = (if fd < length table \<and> ok (fe_state (table ! fd)) then Some (table ! fd) else None)"

definition fs_read :: "file_table \<Rightarrow> usize \<Rightarrow> usize \<Rightarrow> usize \<Rightarrow> (usize list \<times> file_table) uprog" where
  "fs_read table fd offset len =
     (case entry table fd (\<lambda>st. st = FileOpen) of
        None \<Rightarrow> URet (fs_reply OP_FS_READ USER_ERR_EBADF 0, table)
      | Some e \<Rightarrow>
          if fe_size e \<le> offset then URet (fs_reply OP_FS_READ 0 0, table)
          else (let n = min len (fe_size e - offset) in
            copy_bytes (file_page fd + offset) USER_SHM_VA 0 n (URet (fs_reply OP_FS_READ 0 n, table))))"

definition fs_write :: "file_table \<Rightarrow> usize \<Rightarrow> usize \<Rightarrow> usize \<Rightarrow> (usize list \<times> file_table) uprog" where
  "fs_write table fd offset len =
     (case entry table fd (\<lambda>st. st = FileOpen) of
        None \<Rightarrow> URet (fs_reply OP_FS_WRITE USER_ERR_EBADF 0, table)
      | Some e \<Rightarrow>
          (case uadd offset len of
             Some e_end \<Rightarrow>
               if offset < 4096 \<and> e_end \<le> 4096 then
                 copy_bytes USER_SHM_VA (file_page fd + offset) 0 len
                   (URet (fs_reply OP_FS_WRITE 0 len, table[fd := e\<lparr>fe_size := max (fe_size e) e_end\<rparr>]))
               else URet (fs_reply OP_FS_WRITE USER_ERR_EINVAL 0, table)
           | None \<Rightarrow> URet (fs_reply OP_FS_WRITE USER_ERR_EINVAL 0, table)))"

definition fs_close :: "file_table \<Rightarrow> usize \<Rightarrow> usize list \<times> file_table" where
  "fs_close table fd =
     (case entry table fd (\<lambda>st. st = FileOpen) of
        None \<Rightarrow> (fs_reply OP_FS_CLOSE USER_ERR_EBADF 0, table)
      | Some e \<Rightarrow> (fs_reply OP_FS_CLOSE 0 0, table[fd := e\<lparr>fe_state := FileClosed\<rparr>]))"

definition fs_unlink :: "file_table \<Rightarrow> usize \<Rightarrow> (usize list \<times> file_table) uprog" where
  "fs_unlink table fd =
     (case entry table fd (\<lambda>st. st \<noteq> FileFree) of
        None \<Rightarrow> URet (fs_reply OP_FS_UNLINK USER_ERR_EBADF 0, table)
      | Some e \<Rightarrow>
          (let page_slot = RAMFS_FILE_PAGE_START + fd; failed = URet (fs_reply OP_FS_UNLINK ERR_ENOMEM 0, table) in
           sys_ipc_send CLIENT_IPC_SLOT [OP_FREE, page_slot, 0, 0, 0] (\<lambda>rc.
             if rc \<noteq> 0 then failed
             else sys_ipc_recv CLIENT_IPC_SLOT (\<lambda>r.
               if r ! 0 \<noteq> 0 \<or> r ! 1 \<noteq> OP_FREE OR OP_REPLY_FLAG \<or> r ! 2 \<noteq> 0 then failed
               else sys_mem_grant page_slot CLIENT_IPC_SLOT (r ! 3) (\<lambda>rc.
                 if rc \<noteq> 0 then failed
                 else URet (fs_reply OP_FS_UNLINK 0 0, table[fd := file_entry_free]))))))"

definition ramfs_op :: "file_table \<Rightarrow> usize list \<Rightarrow> (usize list \<times> file_table) uprog" where
  "ramfs_op table r =
     (let op = r ! 1 in
      if op = OP_FS_OPEN then fs_open table (r ! 2) (r ! 3) (r ! 4) (r ! 5)
      else if op = OP_FS_READ then fs_read table (r ! 2) (r ! 3) (r ! 4)
      else if op = OP_FS_WRITE then fs_write table (r ! 2) (r ! 3) (r ! 4)
      else if op = OP_FS_CLOSE then URet (fs_close table (r ! 2))
      else if op = OP_FS_UNLINK then fs_unlink table (r ! 2)
      else URet ([op OR OP_REPLY_FLAG, PROTO_ERR, 0, 0, 0], table))"

definition ramfs_server_start :: "file_table uprog" where
  "ramfs_server_start =
     sys_service_register RAMFS_SERVICE_ID (\<lambda>rc. if rc \<noteq> 0 then sys_exit
       else sys_service_connect MEMORY_SERVICE_ID CLIENT_IPC_SLOT SERVER_ACCEPT_SLOT (\<lambda>rc.
         if rc \<noteq> 0 then sys_exit else URet (replicate MAX_FILES file_entry_free)))"

definition ramfs_server_body :: "file_table \<Rightarrow> file_table uprog" where
  "ramfs_server_body table =
     sys_ipc_recv SERVER_ACCEPT_SLOT (\<lambda>r.
       if r ! 0 \<noteq> 0 then URet table
       else ubind (ramfs_op table r) (\<lambda>(reply, table). sys_ipc_send SERVER_ACCEPT_SLOT reply (\<lambda>_. URet table)))"

end
