(* ===== verification/User_Logic.thy ===== *)
theory User_Logic
  imports Servers
begin

text \<open>
  Two ways to reason about user programs. \<open>usafe\<close> speaks about every path of a program, whatever the
  answers are: its memory accesses, its system calls and its results. \<open>urun\<close> runs a program in a
  \<open>world\<close> that answers its interactions; \<open>None\<close> is a page fault or a call that never returns, and the
  result \<open>None\<close> of a run that ended is a program that stopped.

  The locale \<open>user_memory\<close> is the contract of the memory a program sees: a load returns the byte of
  the view, a store to a writable address changes this one byte. It is interpreted on the page tables
  of the kernel model.
\<close>

named_theorems usafe_simps "evaluation of usafe on the library functions"

section \<open>All paths\<close>

primrec usafe :: "(usize \<Rightarrow> bool) \<Rightarrow> (usize \<Rightarrow> usize list \<Rightarrow> bool) \<Rightarrow> ('a \<Rightarrow> bool) \<Rightarrow> 'a uprog \<Rightarrow> bool" where
  "usafe acc call Q (URet a) = Q a"
| "usafe acc call Q UStop = True"
| "usafe acc call Q (UCall n args k) = (call n args \<and> (\<forall>r. usafe acc call Q (k r)))"
| "usafe acc call Q (ULoad a k) = (acc a \<and> (\<forall>b. usafe acc call Q (k b)))"
| "usafe acc call Q (UStore a b p) = (acc a \<and> usafe acc call Q p)"
| "usafe acc call Q (UPoll a bits p) = (acc a \<and> usafe acc call Q p)"

lemma usafe_ubind [simp]: "usafe acc call Q (ubind p f) = usafe acc call (\<lambda>a. usafe acc call Q (f a)) p"
  by (induction p) simp_all

lemma usafe_mono:
  assumes "usafe acc call Q p" "\<And>a. acc a \<Longrightarrow> acc' a" "\<And>n args. call n args \<Longrightarrow> call' n args" "\<And>a. Q a \<Longrightarrow> Q' a"
  shows "usafe acc' call' Q' p"
  using assms(1) by (induction p) (auto intro: assms(2-4))

lemma usafe_uloop:
  assumes "\<And>a. I a \<Longrightarrow> usafe acc call I (f a)" "I a"
  shows "usafe acc call I (uloop f n a)"
  using assms(2)
proof (induction n arbitrary: a)
  case (Suc n)
  have "usafe acc call (\<lambda>a. usafe acc call I (uloop f n a)) (f a)"
    by (rule usafe_mono [OF assms(1) [OF Suc.prems]]) (use Suc.IH in auto)
  then show ?case by simp
qed simp

lemma usafe_copy_bytes [usafe_simps]:
  "usafe acc call Q (copy_bytes src dst i n p) \<longleftrightarrow>
     (\<forall>j. i \<le> j \<and> j < i + n \<longrightarrow> acc (src + j) \<and> acc (dst + j)) \<and> usafe acc call Q p"
  by (induction src dst i n p rule: copy_bytes.induct) (auto simp: le_less_Suc_eq dest: le_neq_implies_less)

section \<open>Runs\<close>

record 's world =
  w_call :: "usize \<Rightarrow> usize list \<Rightarrow> 's \<Rightarrow> (usize list \<times> 's) option"
  w_load :: "usize \<Rightarrow> 's \<Rightarrow> (byte \<times> 's) option"
  w_store :: "usize \<Rightarrow> byte \<Rightarrow> 's \<Rightarrow> 's option"
  w_poll :: "usize \<Rightarrow> byte \<Rightarrow> 's \<Rightarrow> 's option"

primrec urun :: "'s world \<Rightarrow> 'a uprog \<Rightarrow> 's \<Rightarrow> ('a option \<times> 's) option" where
  "urun w (URet a) s = Some (Some a, s)"
| "urun w UStop s = Some (None, s)"
| "urun w (UCall n args k) s = (case w_call w n args s of None \<Rightarrow> None | Some (r, s) \<Rightarrow> urun w (k r) s)"
| "urun w (ULoad a k) s = (case w_load w a s of None \<Rightarrow> None | Some (b, s) \<Rightarrow> urun w (k b) s)"
| "urun w (UStore a b p) s = (case w_store w a b s of None \<Rightarrow> None | Some s \<Rightarrow> urun w p s)"
| "urun w (UPoll a bits p) s = (case w_poll w a bits s of None \<Rightarrow> None | Some s \<Rightarrow> urun w p s)"

lemma urun_ubind [simp]:
  "urun w (ubind p f) s =
     (case urun w p s of None \<Rightarrow> None | Some (None, s) \<Rightarrow> Some (None, s) | Some (Some a, s) \<Rightarrow> urun w (f a) s)"
  by (induction p arbitrary: s) (auto split: option.split)

text \<open>What holds on all paths holds of the result of a run.\<close>

lemma usafe_urun: "usafe acc call Q p \<Longrightarrow> urun w p s = Some (Some a, s') \<Longrightarrow> Q a"
  by (induction p arbitrary: s) (auto split: option.split_asm)

section \<open>Memory\<close>

text \<open>A window of writable memory and the bytes in it.\<close>

definition window :: "(usize \<Rightarrow> bool) \<Rightarrow> usize \<Rightarrow> nat \<Rightarrow> bool" where
  "window wr a n \<longleftrightarrow> (\<forall>i<n. wr (a + i))"

definition bytes_at :: "(usize \<Rightarrow> byte option) \<Rightarrow> usize \<Rightarrow> nat \<Rightarrow> byte list" where
  "bytes_at view a n = map (\<lambda>i. the (view (a + i))) [0..<n]"

lemma bytes_at_length [simp]: "length (bytes_at view a n) = n"
  by (simp add: bytes_at_def)

lemma bytes_at_nth [simp]: "i < n \<Longrightarrow> bytes_at view a n ! i = the (view (a + i))"
  by (simp add: bytes_at_def)

locale user_memory =
  fixes w :: "'s world" and inv :: "'s \<Rightarrow> bool" and view :: "'s \<Rightarrow> usize \<Rightarrow> byte option" and wr :: "'s \<Rightarrow> usize \<Rightarrow> bool"
  assumes load: "inv s \<Longrightarrow> w_load w a s = map_option (\<lambda>b. (b, s)) (view s a)"
    and store: "inv s \<Longrightarrow> wr s a \<Longrightarrow> \<exists>s'. w_store w a b s = Some s' \<and> inv s' \<and> view s' = (view s)(a \<mapsto> b) \<and> wr s' = wr s"
    and wr_view: "inv s \<Longrightarrow> wr s a \<Longrightarrow> view s a \<noteq> None"
begin

text \<open>A copy between disjoint windows, from byte \<open>i\<close> on.\<close>

lemma copy_from:
  assumes s: "inv s" "window (wr s) src (i + n)" "window (wr s) dst (i + n)"
    and d: "\<And>x y. x < i + n \<Longrightarrow> y < i + n \<Longrightarrow> src + x \<noteq> dst + y"
  shows "\<exists>s'. urun w (copy_bytes src dst i n p) s = urun w p s' \<and> inv s' \<and> wr s' = wr s \<and>
    (\<forall>a. view s' a = (if dst + i \<le> a \<and> a < dst + i + n then view s (src + (a - dst)) else view s a))"
  using s d
proof (induction src dst i n p arbitrary: s rule: copy_bytes.induct)
  case (2 src dst i n p)
  obtain b where b: "view s (src + i) = Some b" using 2(2,3) wr_view [of s "src + i"] by (auto simp: window_def)
  obtain s1 where s1: "w_store w (dst + i) b s = Some s1" "inv s1" "view s1 = (view s)(dst + i \<mapsto> b)" "wr s1 = wr s"
    using store [OF 2(2), of "dst + i" b] 2(4) by (auto simp: window_def)
  have win: "window (wr s1) src (Suc i + n)" "window (wr s1) dst (Suc i + n)" using 2(3,4) s1(4) by (simp_all add: window_def)
  have "\<And>x y. x < Suc i + n \<Longrightarrow> y < Suc i + n \<Longrightarrow> src + x \<noteq> dst + y" using 2(5) by simp
  then obtain s' where s': "urun w (copy_bytes src dst (Suc i) n p) s1 = urun w p s'" "inv s'" "wr s' = wr s1"
    "\<forall>a. view s' a = (if dst + Suc i \<le> a \<and> a < dst + Suc i + n then view s1 (src + (a - dst)) else view s1 a)"
    using 2(1) [OF s1(2) win] by blast
  have "view s' a = (if dst + i \<le> a \<and> a < dst + i + Suc n then view s (src + (a - dst)) else view s a)" for a
  proof -
    have "src + (a - dst) \<noteq> dst + i" if "dst + i \<le> a" "a < dst + i + Suc n" using 2(5) [of "a - dst" i] that by auto
    then show ?thesis using s'(4) s1(3) b by auto
  qed
  then show ?case using s' s1 b by (intro exI [of _ s']) (simp add: load [OF 2(2)])
next
  case (1 src dst i p)
  then show ?case by (intro exI [of _ s]) auto
qed

lemma copy_run:
  assumes "inv s" "window (wr s) src n" "window (wr s) dst n" "src + n \<le> dst \<or> dst + n \<le> src"
  obtains s' where "urun w (copy_bytes src dst 0 n p) s = urun w p s'" "inv s'" "wr s' = wr s"
    "\<And>a. \<not> (dst \<le> a \<and> a < dst + n) \<Longrightarrow> view s' a = view s a" "bytes_at (view s') dst n = bytes_at (view s) src n"
proof -
  have d: "src + x \<noteq> dst + y" if "x < n" "y < n" for x y using assms(4) that by auto
  have "\<exists>s'. urun w (copy_bytes src dst 0 n p) s = urun w p s' \<and> inv s' \<and> wr s' = wr s \<and>
    (\<forall>a. view s' a = (if dst + 0 \<le> a \<and> a < dst + 0 + n then view s (src + (a - dst)) else view s a))"
    by (rule copy_from) (use assms d in simp_all)
  then obtain s' where s': "urun w (copy_bytes src dst 0 n p) s = urun w p s'" "inv s'" "wr s' = wr s"
    "\<forall>a. view s' a = (if dst + 0 \<le> a \<and> a < dst + 0 + n then view s (src + (a - dst)) else view s a)" by blast
  have "bytes_at (view s') dst n = bytes_at (view s) src n" using s'(4) by (auto simp: bytes_at_def)
  then show ?thesis using s' by (intro that [of s']) auto
qed

end

end
