(* ===== verification/Ramfs_Inv.thy ===== *)
theory Ramfs_Inv
  imports User_Logic
begin

text \<open>
  The file server on all paths: the invariant of the file table, the memory it touches and the system
  calls it makes, whatever the kernel, the memory server and the client answer.
\<close>

definition entry_ok :: "file_entry \<Rightarrow> bool" where
  "entry_ok e \<longleftrightarrow> length (fe_name e) = 24 \<and> fe_size e \<le> 4096 \<and>
     (if fe_state e = FileFree then e = file_entry_free else 1 \<le> fe_name_len e \<and> fe_name_len e \<le> 24)"

text \<open>Two files never have the same name.\<close>

definition table_ok :: "file_table \<Rightarrow> bool" where
  "table_ok t \<longleftrightarrow> length t = 4 \<and> (\<forall>i<4. entry_ok (t ! i)) \<and>
     (\<forall>i<4. \<forall>j<4. i \<noteq> j \<longrightarrow> fe_state (t ! i) \<noteq> FileFree \<longrightarrow> fe_state (t ! j) \<noteq> FileFree \<longrightarrow>
        \<not> same_name (t ! j) (fe_name_len (t ! i)) (fe_name (t ! i)))"

definition in_page :: "usize \<Rightarrow> usize \<Rightarrow> bool" where
  "in_page p a \<longleftrightarrow> p \<le> a \<and> a < p + 4096"

text \<open>The window shared with the client, and the pages of open files.\<close>

definition ramfs_access :: "file_table \<Rightarrow> usize \<Rightarrow> bool" where
  "ramfs_access t a \<longleftrightarrow> in_page USER_SHM_VA a \<or> (\<exists>fd<4. fe_state (t ! fd) = FileOpen \<and> in_page (file_page fd) a)"

text \<open>
  Messages on the two connections, a page mapped for an entry that is free, a page returned for one
  that is not.
\<close>

definition ramfs_call :: "file_table \<Rightarrow> usize \<Rightarrow> usize list \<Rightarrow> bool" where
  "ramfs_call t n args \<longleftrightarrow>
     (n = SYS_IPC_SEND \<or> n = SYS_IPC_RECV) \<and> args ! 0 \<in> {SERVER_ACCEPT_SLOT, CLIENT_IPC_SLOT} \<or>
     n = SYS_MEM_MAP \<and> (\<exists>fd<4. fe_state (t ! fd) = FileFree \<and> args ! 0 = 3 + fd \<and> args ! 1 = file_page fd) \<or>
     n = SYS_MEM_GRANT \<and> (\<exists>fd<4. fe_state (t ! fd) \<noteq> FileFree \<and> args ! 0 = 3 + fd \<and> args ! 1 = CLIENT_IPC_SLOT)"

lemma table_okD:
  assumes "table_ok t"
  shows "length t = 4" "i < 4 \<Longrightarrow> entry_ok (t ! i)"
    "i < 4 \<Longrightarrow> j < 4 \<Longrightarrow> i \<noteq> j \<Longrightarrow> fe_state (t ! i) \<noteq> FileFree \<Longrightarrow> fe_state (t ! j) \<noteq> FileFree \<Longrightarrow>
      \<not> same_name (t ! j) (fe_name_len (t ! i)) (fe_name (t ! i))"
  using assms unfolding table_ok_def by blast+

lemma name_from_words_length [simp]: "length (name_from_words [a, b, c]) = 24"
  by (simp add: name_from_words_def)

lemma entry_free_ok: "entry_ok file_entry_free"
  by (simp add: entry_ok_def file_entry_free_def)

lemma same_name_sym: "same_name e (fe_name_len f) (fe_name f) \<longleftrightarrow> same_name f (fe_name_len e) (fe_name e)"
  by (auto simp: same_name_def)

text \<open>Replacing one entry.\<close>

lemma table_ok_update:
  assumes t: "table_ok t" and fd: "fd < 4" and e: "entry_ok e"
    and n: "\<And>j. fe_state e \<noteq> FileFree \<Longrightarrow> j < 4 \<Longrightarrow> j \<noteq> fd \<Longrightarrow> fe_state (t ! j) \<noteq> FileFree \<Longrightarrow>
      \<not> same_name (t ! j) (fe_name_len e) (fe_name e)"
  shows "table_ok (t[fd := e])"
  using table_okD [OF t] fd e n same_name_sym unfolding table_ok_def by (auto simp: nth_list_update)

lemma table_ok_change:
  assumes t: "table_ok t" "fd < 4" "entry_ok e" and s: "fe_state (t ! fd) \<noteq> FileFree"
    "fe_name_len e = fe_name_len (t ! fd)" "fe_name e = fe_name (t ! fd)"
  shows "table_ok (t[fd := e])"
  by (rule table_ok_update [OF t]) (use table_okD(3) [OF t(1,2)] s in auto)

lemma find_upt_Some: "find P [0..<n] = Some i \<Longrightarrow> i < n \<and> P i \<and> (\<forall>j<i. \<not> P j)"
  by (auto simp: find_Some_iff)

lemma find_upt_None: "find P [0..<n] = None \<Longrightarrow> i < n \<Longrightarrow> \<not> P i"
  by (auto simp: find_None_iff)

lemma entry_SomeD: "entry t fd ok = Some e \<Longrightarrow> fd < length t \<and> ok (fe_state (t ! fd)) \<and> e = t ! fd"
  by (auto simp: entry_def split: if_splits)

section \<open>The operations\<close>

text \<open>The result of an operation is a message and a table that is well-formed.\<close>

abbreviation (input) ramfs_safe where
  "ramfs_safe t p \<equiv> usafe (ramfs_access t) (ramfs_call t) (\<lambda>r. table_ok (snd r)) p"

lemma alloc_file_page_safe:
  assumes "fd < 4" "fe_state (t ! fd) = FileFree" "\<And>r. Q r"
  shows "usafe (ramfs_access t) (ramfs_call t) Q (alloc_file_page fd)"
  using assms by (auto simp: alloc_file_page_def Let_def syscall_defs ramfs_call_def)

lemma fs_create_safe:
  assumes t: "table_ok t" and n: "1 \<le> name_len" "name_len \<le> 24" "length name = 24"
    and new: "\<And>j. j < 4 \<Longrightarrow> \<not> same_name (t ! j) name_len name"
  shows "ramfs_safe t (fs_create t name_len name)"
proof (cases "find (\<lambda>fd. fe_state (t ! fd) = FileFree) [0..<MAX_FILES]")
  case (Some fd)
  then have fd: "fd < 4" "fe_state (t ! fd) = FileFree" by (auto dest: find_upt_Some)
  have "table_ok (t[fd := \<lparr>fe_state = FileOpen, fe_name = name, fe_name_len = name_len, fe_size = 0\<rparr>])"
    by (rule table_ok_update [OF t fd(1)]) (use n new in \<open>auto simp: entry_ok_def\<close>)
  then have "ramfs_safe t (ubind (alloc_file_page fd) (\<lambda>r. URet (case r of
              Ok _ \<Rightarrow> (fs_reply OP_FS_OPEN 0 fd,
                t[fd := \<lparr>fe_state = FileOpen, fe_name = name, fe_name_len = name_len, fe_size = 0\<rparr>])
            | Err e \<Rightarrow> (fs_reply OP_FS_OPEN e 0, t))))"
    using t unfolding usafe_ubind by (intro alloc_file_page_safe [OF fd]) (auto split: result.split)
  then show ?thesis using Some by (simp add: fs_create_def)
qed (use t in \<open>simp add: fs_create_def\<close>)

lemma fs_open_safe:
  assumes t: "table_ok t"
  shows "ramfs_safe t (fs_open t name_len w0 w1 w2)"
proof (cases "name_len = 0 \<or> name_len > NAME_MAX")
  case False
  let ?name = "name_from_words [w0, w1, w2]"
  show ?thesis
  proof (cases "find (\<lambda>fd. same_name (t ! fd) name_len ?name) [0..<MAX_FILES]")
    case None
    have "ramfs_safe t (fs_create t name_len ?name)"
      by (rule fs_create_safe [OF t]) (use False find_upt_None [OF None] in simp_all)
    then show ?thesis using False None by (simp add: fs_open_def)
  next
    case (Some fd)
    then have fd: "fd < 4" by (auto dest: find_upt_Some)
    have "table_ok (t[fd := (t ! fd)\<lparr>fe_state := FileOpen\<rparr>])" if "fe_state (t ! fd) = FileClosed"
      by (rule table_ok_change [OF t fd]) (use table_okD(2) [OF t fd] that in \<open>auto simp: entry_ok_def\<close>)
    then show ?thesis using False Some t by (auto simp: fs_open_def split: file_state.split)
  qed
qed (use t in \<open>auto simp: fs_open_def\<close>)

lemma open_page_access:
  assumes "fd < 4" "fe_state (t ! fd) = FileOpen" "a < 4096"
  shows "ramfs_access t (file_page fd + a)"
  using assms by (auto simp: ramfs_access_def in_page_def)

lemma shm_access: "a < 4096 \<Longrightarrow> ramfs_access t (USER_SHM_VA + a)"
  by (simp add: ramfs_access_def in_page_def)

lemma fs_read_safe:
  assumes t: "table_ok t"
  shows "ramfs_safe t (fs_read t fd offset len)"
proof (cases "entry t fd (\<lambda>st. st = FileOpen)")
  case (Some e)
  have fd: "fd < 4" "fe_state (t ! fd) = FileOpen" "e = t ! fd" using entry_SomeD [OF Some] table_okD(1) [OF t] by auto
  have "fe_size e \<le> 4096" using table_okD(2) [OF t fd(1)] fd(3) by (simp add: entry_ok_def)
  then have "ramfs_access t (file_page fd + offset + j)" "ramfs_access t (USER_SHM_VA + j)"
    if "j < min len (fe_size e - offset)" for j
  proof -
    have j: "offset + j < 4096" "j < 4096" using that \<open>fe_size e \<le> 4096\<close> by auto
    show "ramfs_access t (file_page fd + offset + j)" using open_page_access [OF fd(1,2) j(1)] by (simp add: add.assoc)
    show "ramfs_access t (USER_SHM_VA + j)" by (rule shm_access [OF j(2)])
  qed
  then show ?thesis using Some t by (simp add: fs_read_def Let_def usafe_simps del: USER_SHM_VA_def)
qed (use t in \<open>simp add: fs_read_def\<close>)

lemma fs_write_safe:
  assumes t: "table_ok t"
  shows "ramfs_safe t (fs_write t fd offset len)"
proof (cases "entry t fd (\<lambda>st. st = FileOpen)")
  case (Some e)
  have fd: "fd < 4" "fe_state (t ! fd) = FileOpen" "e = t ! fd" using entry_SomeD [OF Some] table_okD(1) [OF t] by auto
  have e: "entry_ok e" using table_okD(2) [OF t fd(1)] fd(3) by simp
  show ?thesis
  proof (cases "offset < 4096 \<and> offset + len \<le> 4096")
    case True
    have "ramfs_access t (file_page fd + offset + j)" "ramfs_access t (USER_SHM_VA + j)" if "j < len" for j
      using True that open_page_access [OF fd(1,2), of "offset + j"] shm_access [of j] by (simp_all add: add.assoc)
    moreover have "table_ok (t[fd := e\<lparr>fe_size := max (fe_size e) (offset + len)\<rparr>])"
      by (rule table_ok_change [OF t fd(1)]) (use e fd True in \<open>auto simp: entry_ok_def\<close>)
    ultimately show ?thesis using Some True
      by (simp add: fs_write_def uadd_def usafe_simps del: USER_SHM_VA_def)
  qed (use Some t in \<open>auto simp: fs_write_def uadd_def\<close>)
qed (use t in \<open>simp add: fs_write_def\<close>)

lemma fs_close_safe:
  assumes t: "table_ok t"
  shows "table_ok (snd (fs_close t fd))"
proof (cases "entry t fd (\<lambda>st. st = FileOpen)")
  case (Some e)
  have fd: "fd < 4" "fe_state (t ! fd) = FileOpen" "e = t ! fd" using entry_SomeD [OF Some] table_okD(1) [OF t] by auto
  have "table_ok (t[fd := e\<lparr>fe_state := FileClosed\<rparr>])"
    by (rule table_ok_change [OF t fd(1)]) (use fd table_okD(2) [OF t fd(1)] in \<open>auto simp: entry_ok_def\<close>)
  then show ?thesis using Some by (simp add: fs_close_def)
qed (use t in \<open>simp add: fs_close_def\<close>)

lemma fs_unlink_safe:
  assumes t: "table_ok t"
  shows "ramfs_safe t (fs_unlink t fd)"
proof (cases "entry t fd (\<lambda>st. st \<noteq> FileFree)")
  case (Some e)
  have fd: "fd < 4" "fe_state (t ! fd) \<noteq> FileFree" using entry_SomeD [OF Some] table_okD(1) [OF t] by auto
  have "table_ok (t[fd := file_entry_free])"
    by (rule table_ok_update [OF t fd(1) entry_free_ok]) (simp add: file_entry_free_def)
  then show ?thesis using Some t fd by (auto simp: fs_unlink_def Let_def syscall_defs ramfs_call_def)
qed (use t in \<open>simp add: fs_unlink_def\<close>)

lemma ramfs_op_safe: "table_ok t \<Longrightarrow> ramfs_safe t (ramfs_op t r)"
  by (simp add: ramfs_op_def Let_def fs_open_safe fs_read_safe fs_write_safe fs_close_safe fs_unlink_safe)

lemma ramfs_server_body_safe:
  assumes t: "table_ok t"
  shows "usafe (ramfs_access t) (ramfs_call t) table_ok (ramfs_server_body t)"
proof -
  have "usafe (ramfs_access t) (ramfs_call t) (\<lambda>a. usafe (ramfs_access t) (ramfs_call t) table_ok
      (case a of (reply, table) \<Rightarrow> sys_ipc_send SERVER_ACCEPT_SLOT reply (\<lambda>_. URet table))) (ramfs_op t r)" for r
    by (rule usafe_mono [OF ramfs_op_safe [OF t]]) (auto simp: syscall_defs ramfs_call_def)
  then show ?thesis using t by (simp add: ramfs_server_body_def sys_ipc_recv_def ramfs_call_def del: SERVER_ACCEPT_SLOT_def)
qed

lemma table_init_ok: "table_ok (replicate MAX_FILES file_entry_free)"
  by (simp add: table_ok_def entry_free_ok) (simp add: file_entry_free_def)

end
