(* ===== verification/Ramfs_Data.thy ===== *)
theory Ramfs_Data
  imports Ramfs_Inv
begin

text \<open>
  The data path of the file server: names in messages, and reading and writing files. The abstract file
  is a list of bytes. The lemmas are proved for any memory that satisfies the contract \<open>user_memory\<close>.
\<close>

section \<open>Names\<close>

lemma bit_or_bytes:
  "bit (or_bytes bs j w) k \<longleftrightarrow>
     bit w k \<or> (8 * j \<le> k \<and> k < 8 * (j + length bs) \<and> bit (bs ! ((k - 8 * j) div 8)) (k mod 8))"
proof (induction bs j w rule: or_bytes.induct)
  case (2 b bs j w)
  have b: "bit (push_bit (j * 8) (unat b)) k \<longleftrightarrow> 8 * j \<le> k \<and> k < 8 * Suc j \<and> bit b (k mod 8)"
  proof (cases "8 * j \<le> k \<and> k < 8 * Suc j")
    case True
    then obtain r where "k = 8 * j + r" "r < 8" using le_Suc_ex [of "8 * j" k] by auto
    then have "k mod 8 = k - 8 * j" by simp
    then show ?thesis using True by (simp add: bit_push_bit_iff bit_unsigned_iff mult.commute)
  next
    case False
    then have "\<not> bit b (k - 8 * j)" if "8 * j \<le> k" using that by (auto dest: bit_imp_le_length)
    then show ?thesis using False by (auto simp: bit_push_bit_iff bit_unsigned_iff mult.commute)
  qed
  have ih: "bit (or_bytes (b # bs) j w) k \<longleftrightarrow> (bit w k \<or> 8 * j \<le> k \<and> k < 8 * Suc j \<and> bit b (k mod 8)) \<or>
      8 * Suc j \<le> k \<and> k < 8 * (Suc j + length bs) \<and> bit (bs ! ((k - 8 * Suc j) div 8)) (k mod 8)"
    unfolding or_bytes.simps 2 bit_or_iff b by simp
  consider "k < 8 * j" | "8 * j \<le> k" "k < 8 * Suc j" | "8 * Suc j \<le> k" by linarith
  then show ?case
  proof cases
    case 3
    then have "(k - 8 * j) div 8 = Suc ((k - 8 * Suc j) div 8)" by (simp add: le_div_geq)
    then show ?thesis unfolding ih using 3 by simp
  qed (unfold ih, simp_all)
qed auto

lemma or_bytes_byte:
  assumes "j < 8" "length bs \<le> 8"
  shows "(of_nat (drop_bit (j * 8) (or_bytes bs 0 0) AND 0xff) :: byte) = (if j < length bs then bs ! j else 0)"
proof (rule bit_word_eqI)
  fix k :: nat assume k: "k < LENGTH(8)"
  have m: "(0xff :: nat) = mask 8" by (simp add: mask_eq_exp_minus_1)
  have "(j * 8 + k) div 8 = j" "(j * 8 + k) mod 8 = k" using k by simp_all
  then have "bit (or_bytes bs 0 0) (j * 8 + k) \<longleftrightarrow> j < length bs \<and> bit (bs ! j) k"
    using k by (auto simp: bit_or_bytes)
  then show "bit (of_nat (drop_bit (j * 8) (or_bytes bs 0 0) AND 0xff) :: byte) k = bit (if j < length bs then bs ! j else 0 :: byte) k"
    using k unfolding m by (simp add: bit_of_nat_iff bit_and_iff bit_drop_bit_eq bit_mask_iff)
qed

lemma name_word_bytes:
  assumes "n \<le> length name"
  shows "map (\<lambda>j. of_nat (drop_bit (j * 8) (name_word name n i) AND 0xff)) [0..<8] =
    map (\<lambda>j. if i * 8 + j < n then name ! (i * 8 + j) else (0 :: byte)) [0..<8]"
proof (rule map_cong [OF refl])
  fix j assume "j \<in> set [0..<8]"
  then have j: "j < 8" by simp
  let ?bs = "take (min (i * 8 + 8) n - i * 8) (drop (i * 8) name)"
  have l: "length ?bs = min (i * 8 + 8) n - i * 8" using assms by simp
  show "of_nat (drop_bit (j * 8) (name_word name n i) AND 0xff) = (if i * 8 + j < n then name ! (i * 8 + j) else (0 :: byte))"
    using or_bytes_byte [OF j, of ?bs] l j assms by (auto simp: name_word_def Let_def)
qed

lemma name_roundtrip:
  "name_from_words (fst (name_to_words name)) = take 24 name @ replicate (24 - length name) 0"
proof (rule nth_equalityI)
  let ?n = "min (length name) 24"
  have e: "name_from_words (fst (name_to_words name)) =
      map (\<lambda>j. if j < ?n then name ! j else 0) ([0..<8] @ map (\<lambda>j. 8 + j) [0..<8] @ map (\<lambda>j. 16 + j) [0..<8])"
    using name_word_bytes [of ?n name]
    by (simp only: name_from_words_def name_to_words_def Let_def NAME_MAX_def fst_conv list.map concat.simps) (simp add: comp_def del: upt_rec_numeral)
  also have "[0..<8] @ map (\<lambda>j. 8 + j) [0..<8] @ map (\<lambda>j. 16 + j) [0..<8] = [0..<24::nat]"
    by code_simp
  finally have e: "name_from_words (fst (name_to_words name)) = map (\<lambda>j. if j < ?n then name ! j else 0) [0..<24]" .
  show "length (name_from_words (fst (name_to_words name))) = length (take 24 name @ replicate (24 - length name) (0 :: byte))"
    unfolding e by simp
  show "name_from_words (fst (name_to_words name)) ! i = (take 24 name @ replicate (24 - length name) 0) ! i"
    if "i < length (name_from_words (fst (name_to_words name)))" for i
    using that unfolding e by (auto simp: nth_append)
qed

section \<open>Files\<close>

text \<open>Bytes between the end of the file and the written range are whatever the page holds there.\<close>

definition file_write :: "byte list \<Rightarrow> nat \<Rightarrow> byte list \<Rightarrow> (nat \<Rightarrow> byte) \<Rightarrow> byte list" where
  "file_write f off data gap =
     map (\<lambda>i. if off \<le> i \<and> i < off + length data then data ! (i - off) else if i < length f then f ! i else gap i)
       [0..<max (length f) (off + length data)]"

definition file_read :: "byte list \<Rightarrow> nat \<Rightarrow> nat \<Rightarrow> byte list" where
  "file_read f off len = take len (drop off f)"

lemma file_write_inside:
  assumes "off \<le> length f"
  shows "file_write f off data gap = take off f @ data @ drop (off + length data) f"
proof (rule nth_equalityI)
  fix i assume "i < length (file_write f off data gap)"
  then have i: "i < max (length f) (off + length data)" by (simp add: file_write_def)
  consider "i < off" | "off \<le> i" "i < off + length data" | "off + length data \<le> i" "i < length f"
    using i by linarith
  then show "file_write f off data gap ! i = (take off f @ data @ drop (off + length data) f) ! i"
    by cases (use assms i in \<open>auto simp: file_write_def nth_append\<close>)
qed (use assms in \<open>auto simp: file_write_def\<close>)

lemma file_read_write:
  "file_read (file_write f off data gap) off (length data) = data"
  by (rule nth_equalityI) (auto simp: file_read_def file_write_def)

text \<open>The contents of the file \<open>fd\<close> in the memory of the server.\<close>

definition content :: "(usize \<Rightarrow> byte option) \<Rightarrow> file_table \<Rightarrow> usize \<Rightarrow> byte list" where
  "content view t fd = bytes_at view (file_page fd) (fe_size (t ! fd))"

lemma bytes_at_cong: "(\<And>i. i < n \<Longrightarrow> v (a + i) = v' (a + i)) \<Longrightarrow> bytes_at v a n = bytes_at v' a n"
  by (auto simp: bytes_at_def)

lemma file_page_apart:
  "fd < 4 \<Longrightarrow> x < 4096 \<Longrightarrow> y < 4096 \<Longrightarrow> USER_SHM_VA + x \<noteq> file_page fd + y"
  "fd \<noteq> fd' \<Longrightarrow> x < 4096 \<Longrightarrow> y < 4096 \<Longrightarrow> file_page fd + x \<noteq> file_page fd' + y"
proof -
  show "file_page fd + x \<noteq> file_page fd' + y" if "fd \<noteq> fd'" "x < 4096" "y < 4096"
  proof
    assume "file_page fd + x = file_page fd' + y"
    then have "(fd * 4096 + x) div 4096 = (fd' * 4096 + y) div 4096" by (simp add: file_page_def)
    then show False using that by simp
  qed
qed (simp add: file_page_def)

context user_memory
begin

lemma fs_write_run:
  assumes s: "inv s" and t: "table_ok t" and fd: "fd < 4" "fe_state (t ! fd) = FileOpen"
    and win: "window (wr s) USER_SHM_VA 4096" "window (wr s) (file_page fd) 4096"
    and l: "offset < 4096" "offset + len \<le> 4096"
  obtains s' t' where "urun w (fs_write t fd offset len) s = Some (Some (fs_reply OP_FS_WRITE 0 len, t'), s')"
    "inv s'" "wr s' = wr s" "t' = t[fd := (t ! fd)\<lparr>fe_size := max (fe_size (t ! fd)) (offset + len)\<rparr>]"
    "content (view s') t' fd = file_write (content (view s) t fd) offset (bytes_at (view s) USER_SHM_VA len)
       (\<lambda>i. the (view s (file_page fd + i)))"
    "\<And>fd'. fd' < 4 \<Longrightarrow> fd' \<noteq> fd \<Longrightarrow> content (view s') t' fd' = content (view s) t fd'"
    "\<And>i. i < 4096 \<Longrightarrow> view s' (USER_SHM_VA + i) = view s (USER_SHM_VA + i)"
proof -
  let ?e = "t ! fd" and ?p = "file_page fd"
  let ?t = "t[fd := ?e\<lparr>fe_size := max (fe_size ?e) (offset + len)\<rparr>]"
  have size: "fe_size (t ! f) \<le> 4096" if "f < 4" for f using table_okD(2) [OF t that] by (simp add: entry_ok_def)
  have len: "length t = 4" by (rule table_okD(1) [OF t])
  have d: "USER_SHM_VA + len \<le> ?p + offset \<or> ?p + offset + len \<le> USER_SHM_VA" using l by (simp add: file_page_def)
  have w1: "window (wr s) USER_SHM_VA len" "window (wr s) (?p + offset) len"
    using win l by (auto simp: window_def add.assoc)
  obtain s' where s': "urun w (copy_bytes USER_SHM_VA (?p + offset) 0 len (URet (fs_reply OP_FS_WRITE 0 len, ?t))) s =
      urun w (URet (fs_reply OP_FS_WRITE 0 len, ?t)) s'" "inv s'" "wr s' = wr s"
    "\<And>a. \<not> (?p + offset \<le> a \<and> a < ?p + offset + len) \<Longrightarrow> view s' a = view s a"
    "bytes_at (view s') (?p + offset) len = bytes_at (view s) USER_SHM_VA len"
    by (rule copy_run [OF s w1 d]) (rule that; assumption)
  have run: "urun w (fs_write t fd offset len) s = Some (Some (fs_reply OP_FS_WRITE 0 len, ?t), s')"
    using s'(1) fd l len by (simp add: fs_write_def entry_def uadd_def)
  have new: "the (view s' (?p + i)) = bytes_at (view s) USER_SHM_VA len ! (i - offset)" if "offset \<le> i" "i < offset + len" for i
    using arg_cong [OF s'(5), of "\<lambda>xs. xs ! (i - offset)"] that by (simp add: bytes_at_nth)
  have old: "view s' (?p + i) = view s (?p + i)" if "\<not> (offset \<le> i \<and> i < offset + len)" for i
    by (rule s'(4)) (use that in auto)
  have "content (view s') ?t fd = file_write (content (view s) t fd) offset (bytes_at (view s) USER_SHM_VA len) (\<lambda>i. the (view s (?p + i)))"
    by (rule nth_equalityI) (use fd len new old in \<open>auto simp: content_def file_write_def\<close>)
  moreover have "content (view s') ?t f = content (view s) t f" if "f < 4" "f \<noteq> fd" for f
  proof -
    have "view s' (file_page f + i) = view s (file_page f + i)" if "i < fe_size (t ! f)" for i
    proof (rule s'(4), rule notI)
      assume a: "?p + offset \<le> file_page f + i \<and> file_page f + i < ?p + offset + len"
      then have "file_page f + i = ?p + (file_page f + i - ?p)" "file_page f + i - ?p < 4096" using l by auto
      then show False using file_page_apart(2) [OF \<open>f \<noteq> fd\<close>, of i "file_page f + i - ?p"] that size [OF \<open>f < 4\<close>] by linarith
    qed
    then show ?thesis using that by (simp add: content_def bytes_at_def)
  qed
  moreover have "view s' (USER_SHM_VA + i) = view s (USER_SHM_VA + i)" if "i < 4096" for i
    by (rule s'(4)) (use that in \<open>simp add: file_page_def\<close>)
  ultimately show ?thesis using run s' by (intro that [of ?t s']) simp_all
qed

lemma fs_read_run:
  assumes s: "inv s" and t: "table_ok t" and fd: "fd < 4" "fe_state (t ! fd) = FileOpen"
    and win: "window (wr s) USER_SHM_VA 4096" "window (wr s) (file_page fd) 4096"
  obtains s' n where "urun w (fs_read t fd offset len) s = Some (Some (fs_reply OP_FS_READ 0 n, t), s')"
    "inv s'" "wr s' = wr s" "n = length (file_read (content (view s) t fd) offset len)"
    "bytes_at (view s') USER_SHM_VA n = file_read (content (view s) t fd) offset len"
    "\<And>fd'. fd' < 4 \<Longrightarrow> content (view s') t fd' = content (view s) t fd'"
    "\<And>a. \<not> (USER_SHM_VA \<le> a \<and> a < USER_SHM_VA + n) \<Longrightarrow> view s' a = view s a"
proof -
  let ?e = "t ! fd" and ?p = "file_page fd"
  have size: "fe_size (t ! f) \<le> 4096" if "f < 4" for f using table_okD(2) [OF t that] by (simp add: entry_ok_def)
  have len: "length t = 4" by (rule table_okD(1) [OF t])
  show ?thesis
  proof (cases "fe_size ?e \<le> offset")
    case True
    then show ?thesis using fd len s
      by (intro that [of 0 s]) (simp_all add: fs_read_def entry_def file_read_def content_def bytes_at_def)
  next
    case False
    let ?n = "min len (fe_size ?e - offset)"
    have n: "offset + ?n \<le> 4096" using size [OF fd(1)] False by auto
    have d: "?p + offset + ?n \<le> USER_SHM_VA \<or> USER_SHM_VA + ?n \<le> ?p + offset" using n by (simp add: file_page_def)
    have w1: "window (wr s) (?p + offset) ?n" "window (wr s) USER_SHM_VA ?n"
      using win n by (auto simp: window_def add.assoc)
    obtain s' where s': "urun w (copy_bytes (?p + offset) USER_SHM_VA 0 ?n (URet (fs_reply OP_FS_READ 0 ?n, t))) s =
        urun w (URet (fs_reply OP_FS_READ 0 ?n, t)) s'" "inv s'" "wr s' = wr s"
      "\<And>a. \<not> (USER_SHM_VA \<le> a \<and> a < USER_SHM_VA + ?n) \<Longrightarrow> view s' a = view s a"
      "bytes_at (view s') USER_SHM_VA ?n = bytes_at (view s) (?p + offset) ?n"
      by (rule copy_run [OF s w1 d]) (rule that; assumption)
    have run: "urun w (fs_read t fd offset len) s = Some (Some (fs_reply OP_FS_READ 0 ?n, t), s')"
      using s'(1) fd len False by (simp add: fs_read_def entry_def Let_def)
    have fr: "file_read (content (view s) t fd) offset len = bytes_at (view s) (?p + offset) ?n"
      by (rule nth_equalityI) (use False in \<open>auto simp: file_read_def content_def add.assoc\<close>)
    have "content (view s') t f = content (view s) t f" if "f < 4" for f
      unfolding content_def
      by (rule bytes_at_cong, rule s'(4)) (use size [OF that] n in \<open>auto simp: file_page_def\<close>)
    then show ?thesis using run s' fr by (intro that [of ?n s']) simp_all
  qed
qed

end

end
