(* ===== verification/User_Mem.thy ===== *)
theory User_Mem
  imports Ramfs_Data Objects_Main
begin

text \<open>
  The memory of a user process on the kernel model. An access of the process goes through its page
  table: a leaf with the user bit and the permission, to a page of RAM. (An access to a device page is
  not an access to memory; there are no user pages in the upper half of the address space.) For a
  well-formed address space this memory satisfies the contract \<open>user_memory\<close>: no two addresses name
  the same byte, and no store reaches a page table.
\<close>

definition user_access :: "mm \<Rightarrow> usize \<Rightarrow> u64 \<Rightarrow> usize \<Rightarrow> usize option" where
  "user_access s root perm v =
     (if v < USER_VA_LIMIT then
        (case translate s root v of
           Some (pa, fl) \<Rightarrow> if pte_user fl \<and> fl AND perm \<noteq> 0 \<and> in_ram s (pa - v mod 4096) then Some pa else None
         | None \<Rightarrow> None)
      else None)"

text \<open>A well-formed address space in which user pages are 4 KiB pages.\<close>

definition small_leaves :: "mm \<Rightarrow> usize \<Rightarrow> bool" where
  "small_leaves s root \<longleftrightarrow>
     (\<forall>v<2 ^ 39. pte_user (leaf_pte s root v) \<longrightarrow> node_at (pmem s) root (N0 (vpn2 v) (vpn1 v)) \<noteq> None)"

definition space_ok :: "mm \<Rightarrow> usize \<Rightarrow> (nat \<times> nat) set \<Rightarrow> bool" where
  "space_ok s root A \<longleftrightarrow> buddy_inv s A \<and> as_wf s root A \<and> small_leaves s root"

definition put_byte :: "mm \<Rightarrow> usize \<Rightarrow> byte \<Rightarrow> mm" where
  "put_byte s pa b = s\<lparr>pmem := (pmem s)(pa := b)\<rparr>"

abbreviation leaf_of :: "usize \<Rightarrow> item" where
  "leaf_of v \<equiv> Leaf (vpn2 v) (vpn1 v) (vpn0 v)"

lemma put_byte_pmem [simp]: "pmem (put_byte s pa b) = (pmem s)(pa := b)"
  by (simp add: put_byte_def)

lemma put_byte_in_ram [simp]: "in_ram (put_byte s pa b) a = in_ram s a"
  by (simp add: put_byte_def in_ram_def)

lemma user_bit_take: "pte_user (take_bit 10 e) = pte_user e"
  by (simp add: pte_user_bit bit_take_bit_iff)

lemma space_okD:
  assumes "space_ok s root A"
  shows "buddy_inv s A" "as_wf s root A" "apart A" "pt_wf (pmem s) root A" "small_leaves s root"
  using assms buddy_inv_apart as_wf_pt_wf unfolding space_ok_def by auto

lemma pte_user_0 [simp]: "\<not> pte_user 0"
  by (simp add: pte_user_bit)

text \<open>An access and the page behind it, in terms of the leaf entry.\<close>

definition ram_leaf :: "mm \<Rightarrow> u64 \<Rightarrow> bool" where
  "ram_leaf s e \<longleftrightarrow> pte_valid e \<and> pte_user e \<and> in_ram s (pte_addr e)"

lemma access_leaf_pte:
  assumes k: "space_ok s root A"
  shows "user_access s root perm v =
    (let e = leaf_pte s root v in
     if v < 2 ^ 38 \<and> ram_leaf s e \<and> take_bit 10 e AND perm \<noteq> 0 then Some (pte_addr e + v mod 4096) else None)"
proof (cases "v < 2 ^ 38")
  case v: True
  show ?thesis
  proof (cases "node_at (pmem s) root (N0 (vpn2 v) (vpn1 v))")
    case None
    then have "\<not> pte_user (leaf_pte s root v)" using space_okD(5) [OF k, unfolded small_leaves_def, rule_format, of v] v by auto
    moreover have "tbl (pmem s) root (vpn2 v) = None \<or> (\<exists>t. tbl (pmem s) root (vpn2 v) = Some t \<and> tbl (pmem s) t (vpn1 v) = None)"
      using None by (cases "tbl (pmem s) root (vpn2 v)") auto
    ultimately show ?thesis
      by (auto simp: user_access_def translate_cases leaf_pte_pt_leaf pt_leaf_cases ram_leaf_def user_bit_take Let_def
          split: if_splits)
  next
    case (Some u)
    then obtain t where t: "tbl (pmem s) root (vpn2 v) = Some t" "tbl (pmem s) t (vpn1 v) = Some u"
      by (auto simp: bind_eq_Some_conv)
    have l: "leaf_pte s root v = (if pte_valid (ent (pmem s) u (vpn0 v)) then ent (pmem s) u (vpn0 v) else 0)"
      using pt_leaf_N0 [OF Some, of "vpn0 v"] by (simp add: leaf_pte_pt_leaf)
    show ?thesis using v t by (auto simp: user_access_def translate_cases l ram_leaf_def user_bit_take Let_def)
  qed
qed (simp add: user_access_def)

lemma own_leaf_pte:
  assumes k: "small_leaves s root" and v: "v < 2 ^ 39"
  shows "own_at s root (leaf_of v) = (let e = leaf_pte s root v in if ram_leaf s e then Some (pte_addr e) else None)"
proof (cases "node_at (pmem s) root (N0 (vpn2 v) (vpn1 v))")
  case None
  then have "\<not> pte_user (leaf_pte s root v)" using k v by (auto simp: small_leaves_def)
  then show ?thesis using None by (simp add: ram_leaf_def Let_def del: node_at.simps)
next
  case (Some u)
  then show ?thesis using pt_leaf_N0 [OF Some, of "vpn0 v"]
    by (auto simp: leaf_pte_pt_leaf ram_leaf_def user_leaf_def Let_def simp del: node_at.simps)
qed

lemma access_leaf:
  assumes k: "space_ok s root A" and a: "user_access s root perm v = Some pa"
  obtains p where "own_at s root (leaf_of v) = Some p" "pa = p + v mod 4096" "(p, 0) \<in> A" "v < 2 ^ 38"
proof -
  let ?p = "pte_addr (leaf_pte s root v)"
  have l: "ram_leaf s (leaf_pte s root v)" "pa = ?p + v mod 4096" "v < 2 ^ 38"
    using a by (auto simp: access_leaf_pte [OF k] Let_def split: if_splits)
  then have o: "own_at s root (leaf_of v) = Some ?p" using own_leaf_pte [OF space_okD(5) [OF k], of v] by (simp add: Let_def)
  show ?thesis using that [OF o l(2) as_wfD(1) [OF space_okD(2) [OF k] o] l(3)] .
qed

lemma access_inj:
  assumes k: "space_ok s root A" and a: "user_access s root perm v = Some pa" "user_access s root perm' v' = Some pa"
  shows "v = v'"
proof -
  obtain p where p: "own_at s root (leaf_of v) = Some p" "pa = p + v mod 4096" "(p, 0) \<in> A" "v < 2 ^ 38"
    by (rule access_leaf [OF k a(1)])
  obtain p' where p': "own_at s root (leaf_of v') = Some p'" "pa = p' + v' mod 4096" "(p', 0) \<in> A" "v' < 2 ^ 38"
    by (rule access_leaf [OF k a(2)])
  have "apart A" "as_wf s root A" using k buddy_inv_apart by (auto simp: space_ok_def)
  have "pa \<in> region (p, 0)" "pa \<in> region (p', 0)" using p(2) p'(2) by simp_all
  then have eq: "p = p'" using apartD [OF \<open>apart A\<close> p(3) p'(3)] by auto
  then have "leaf_of v = leaf_of v'" using as_wfD(2) [OF \<open>as_wf s root A\<close>] p(1) p'(1) by blast
  then have "v div 4096 = v' div 4096" using vpn_eq_iff [of v v'] p(4) p'(4) by auto
  moreover have "v mod 4096 = v' mod 4096" using p(2) p'(2) eq by simp
  ultimately show ?thesis by (metis div_mult_mod_eq)
qed

text \<open>A store changes no translation.\<close>

lemma put_byte_space:
  assumes k: "space_ok s root A" and p: "own_at s root (Leaf i j l) = Some p" "pa \<in> region (p, 0)"
  shows "space_ok (put_byte s pa b) root A" and "translate (put_byte s pa b) root v = translate s root v"
    and "own_at (put_byte s pa b) root x = own_at s root x" and "leaf_pte (put_byte s pa b) root v = leaf_pte s root v"
proof -
  let ?s = "put_byte s pa b"
  have w: "buddy_inv s A" "as_wf s root A" and ap: "apart A" using k buddy_inv_apart by (auto simp: space_ok_def)
  have pA: "(p, 0) \<in> A" by (rule as_wfD(1) [OF w(2) p(1)])
  have same: "same_on (pmem s) (pmem ?s) a" if "node_at (pmem s) root x = Some a" for x a
  proof -
    have "own_at s root (Node x) = Some a" using that by simp
    from as_wfD(1) [OF w(2) this] as_wfD(2) [OF w(2) this] p(1) have "(a, 0) \<in> A" "a \<noteq> p" by blast+
    then have "region (a, 0) \<inter> region (p, 0) = {}" by (intro apartD [OF ap _ pA]) auto
    then show ?thesis using p(2) by (auto simp: same_on_def)
  qed
  then show tr: "translate ?s root v = translate s root v" for v by (rule translate_frame)
  have node: "node_at (pmem ?s) root y = node_at (pmem s) root y" for y by (rule node_at_frame [OF same])
  show leaf: "leaf_pte ?s root v = leaf_pte s root v" for v
    unfolding leaf_pte_pt_leaf by (rule pt_leaf_frame [OF same]) simp_all
  show own: "own_at ?s root x = own_at s root x" for x
  proof (cases x)
    case (Leaf i j l)
    have "user_leaf ?s u l = user_leaf s u l" if "node_at (pmem s) root (N0 i j) = Some u" "l < 512" for u
      using ent_same [OF same [OF that(1)] that(2)] by (simp add: user_leaf_def)
    then show ?thesis using Leaf node by (auto simp del: node_at.simps intro: Option.bind_cong)
  qed (use node in \<open>simp del: node_at.simps\<close>)
  have "buddy_inv ?s A" unfolding put_byte_def
    by (rule buddy.inv_store [OF w(1)]) (use pA p(2) in auto)
  then show "space_ok ?s root A" using k node by (simp add: space_ok_def small_leaves_def as_wf_def own leaf del: node_at.simps)
qed

lemma put_byte_access:
  assumes k: "space_ok s root A" and a: "user_access s root perm v = Some pa"
  shows "space_ok (put_byte s pa b) root A" and "user_access (put_byte s pa b) root = user_access s root"
    and "own_at (put_byte s pa b) root x = own_at s root x" and "leaf_pte (put_byte s pa b) root w = leaf_pte s root w"
proof -
  obtain p where p: "own_at s root (leaf_of v) = Some p" "pa = p + v mod 4096" "(p, 0) \<in> A" "v < 2 ^ 38"
    by (rule access_leaf [OF k a])
  have r: "pa \<in> region (p, 0)" using p(2) by simp
  show "space_ok (put_byte s pa b) root A" by (rule put_byte_space(1) [OF k p(1) r])
  show "own_at (put_byte s pa b) root x = own_at s root x" "leaf_pte (put_byte s pa b) root w = leaf_pte s root w"
    by (rule put_byte_space(3,4) [OF k p(1) r])+
  show "user_access (put_byte s pa b) root = user_access s root"
    by (intro ext) (simp add: user_access_def put_byte_space(2) [OF k p(1) r] split: option.split)
qed

section \<open>Processes\<close>

definition proc_access :: "nat \<Rightarrow> kernel \<Rightarrow> u64 \<Rightarrow> usize \<Rightarrow> usize option" where
  "proc_access pid k perm v = (case pid_root k pid of Some root \<Rightarrow> user_access (k_mm k) root perm v | None \<Rightarrow> None)"

definition user_load :: "nat \<Rightarrow> usize \<Rightarrow> kernel \<Rightarrow> byte option" where
  "user_load pid a k = map_option (pmem (k_mm k)) (proc_access pid k PTE_R a)"

definition user_store :: "nat \<Rightarrow> usize \<Rightarrow> byte \<Rightarrow> kernel \<Rightarrow> kernel option" where
  "user_store pid a b k = map_option (\<lambda>pa. k\<lparr>k_mm := put_byte (k_mm k) pa b\<rparr>) (proc_access pid k PTE_W a)"

text \<open>
  A world whose state is a kernel and what else \<open>call\<close> needs. Polling needs a device, which the memory
  does not have.
\<close>

definition kernel_world ::
  "(usize \<Rightarrow> usize list \<Rightarrow> kernel \<times> 'x \<Rightarrow> (usize list \<times> kernel \<times> 'x) option) \<Rightarrow> nat \<Rightarrow> (kernel \<times> 'x) world" where
  "kernel_world call pid =
     \<lparr>w_call = call, w_load = (\<lambda>a (k, x). map_option (\<lambda>b. (b, k, x)) (user_load pid a k)),
      w_store = (\<lambda>a b (k, x). map_option (\<lambda>k. (k, x)) (user_store pid a b k)), w_poll = (\<lambda>_ _ _. None)\<rparr>"

definition proc_ok :: "nat \<Rightarrow> kernel \<Rightarrow> bool" where
  "proc_ok pid k \<longleftrightarrow> (\<exists>root A. pid_root k pid = Some root \<and> space_ok (k_mm k) root A)"

definition user_writable :: "nat \<Rightarrow> kernel \<Rightarrow> usize \<Rightarrow> bool" where
  "user_writable pid k a \<longleftrightarrow> proc_access pid k PTE_R a \<noteq> None \<and> proc_access pid k PTE_W a \<noteq> None"

lemma access_same: "user_access s root perm v = Some pa \<Longrightarrow> user_access s root perm' v = Some pa' \<Longrightarrow> pa = pa'"
  by (auto simp: user_access_def split: if_splits option.split_asm)

lemma pid_root_mm [simp]: "pid_root (k\<lparr>k_mm := m\<rparr>) pid = pid_root k pid"
  by (simp add: pid_root_def get_proc_def)

abbreviation user_view :: "nat \<Rightarrow> kernel \<Rightarrow> usize \<Rightarrow> byte option" where
  "user_view pid k \<equiv> (\<lambda>a. user_load pid a k)"

lemma user_store_ok:
  assumes k: "proc_ok pid k" and wr: "user_writable pid k a"
  obtains k' where "user_store pid a b k = Some k'" "proc_ok pid k'" "user_view pid k' = (user_view pid k)(a \<mapsto> b)"
    "user_writable pid k' = user_writable pid k"
proof -
  obtain root A where r: "pid_root k pid = Some root" "space_ok (k_mm k) root A" using k by (auto simp: proc_ok_def)
  obtain pa pa' where "user_access (k_mm k) root PTE_W a = Some pa" "user_access (k_mm k) root PTE_R a = Some pa'"
    using wr r(1) by (auto simp: user_writable_def proc_access_def)
  then have pa: "user_access (k_mm k) root PTE_W a = Some pa" "user_access (k_mm k) root PTE_R a = Some pa"
    using access_same [of "k_mm k" root PTE_W a pa PTE_R pa'] by simp_all
  define k' where "k' = k\<lparr>k_mm := put_byte (k_mm k) pa b\<rparr>"
  then have mm: "k_mm k' = put_byte (k_mm k) pa b" "pid_root k' pid = pid_root k pid" by simp_all
  note put = put_byte_access [OF r(2) pa(1), of b]
  have acc: "proc_access pid k' = proc_access pid k"
    using r(1) put(2) by (simp add: proc_access_def fun_eq_iff mm)
  have "user_view pid k' = (user_view pid k)(a \<mapsto> b)"
  proof
    fix v
    show "user_load pid v k' = ((user_view pid k)(a \<mapsto> b)) v"
    proof (cases "proc_access pid k PTE_R v")
      case (Some q)
      then have q: "user_access (k_mm k) root PTE_R v = Some q" using r(1) by (simp add: proc_access_def)
      have "q = pa \<longleftrightarrow> v = a"
      proof
        show "v = a" if "q = pa" by (rule access_inj [OF r(2) _ pa(2)]) (use q that in simp)
      qed (use q pa(2) in simp)
      then show ?thesis using Some by (auto simp: user_load_def acc mm)
    next
      case None
      then have "v \<noteq> a" using pa(2) r(1) by (auto simp: proc_access_def)
      then show ?thesis using None by (simp add: user_load_def acc mm)
    qed
  qed
  moreover have "proc_ok pid k'" using r(1) put(1) by (auto simp: proc_ok_def mm)
  moreover have "user_writable pid k' = user_writable pid k" by (simp add: user_writable_def acc fun_eq_iff)
  moreover have "user_store pid a b k = Some k'"
    using pa(1) r(1) by (simp add: user_store_def proc_access_def k'_def)
  ultimately show ?thesis by (intro that)
qed

interpretation kmem: user_memory "kernel_world call pid" "\<lambda>s. proc_ok pid (fst s)" "\<lambda>s. user_view pid (fst s)"
  "\<lambda>s. user_writable pid (fst s)" for call pid
proof unfold_locales
  fix s :: "kernel \<times> 'a" and a b
  obtain k x where s: "s = (k, x)" by (cases s)
  show "w_load (kernel_world call pid) a s = map_option (\<lambda>b. (b, s)) (user_load pid a (fst s))"
    by (simp add: kernel_world_def s)
  show "user_writable pid (fst s) a \<Longrightarrow> user_load pid a (fst s) \<noteq> None"
    by (simp add: user_writable_def user_load_def)
  assume "proc_ok pid (fst s)" "user_writable pid (fst s) a"
  then obtain k' where "user_store pid a b k = Some k'" "proc_ok pid k'" "user_view pid k' = (user_view pid k)(a \<mapsto> b)"
    "user_writable pid k' = user_writable pid k" unfolding s fst_conv by (rule user_store_ok)
  then show "\<exists>s'. w_store (kernel_world call pid) a b s = Some s' \<and> proc_ok pid (fst s') \<and>
      user_view pid (fst s') = (user_view pid (fst s))(a \<mapsto> b) \<and> user_writable pid (fst s') = user_writable pid (fst s)"
    by (intro exI [of _ "(k', x)"]) (simp add: kernel_world_def s)
qed

end
