(* ===== verification/Kernel_Map.thy ===== *)
theory Kernel_Map
  imports Mmu_Main
begin

text \<open>
  The kernel's own mapping, which \<^verbatim>\<open>mmu::init\<close> builds in the first page table and \<^verbatim>\<open>create_user_root\<close> in
  the table of every process. The invariant \<open>kmap\<close> holds of every entry of the table tree while the
  mapping grows: a leaf maps its own address, is not for user mode, and executable pages lie in the
  kernel text and are not writable.
\<close>

section \<open>Addresses\<close>

text \<open>The first address of the virtual page with the given table indices.\<close>

definition page_va :: "nat \<Rightarrow> nat \<Rightarrow> nat \<Rightarrow> usize" where
  "page_va i j k = i * 2 ^ 30 + j * 2 ^ 21 + k * 2 ^ 12"

lemma page_va_vpn:
  assumes "v < 2 ^ 39"
  shows "page_va (vpn2 v) (vpn1 v) (vpn0 v) = v - v mod 4096" "page_va (vpn2 v) (vpn1 v) 0 = v - v mod 2 ^ 21"
proof -
  have i: "v div 2 ^ 30 = vpn2 v" using assms by (simp add: vpn2_def)
  have j: "v div 2 ^ 21 = vpn2 v * 512 + vpn1 v"
    using div_mult_mod_eq [of "v div 2 ^ 21" 512] i by (simp add: vpn1_def div_mult2_eq [symmetric])
  have k: "v div 2 ^ 12 = (vpn2 v * 512 + vpn1 v) * 512 + vpn0 v"
    using div_mult_mod_eq [of "v div 2 ^ 12" 512] j by (simp add: vpn0_def div_mult2_eq [symmetric])
  show "page_va (vpn2 v) (vpn1 v) (vpn0 v) = v - v mod 4096"
    using k minus_mod_eq_mult_div [of v 4096] by (simp add: page_va_def)
  show "page_va (vpn2 v) (vpn1 v) 0 = v - v mod 2 ^ 21"
    using j minus_mod_eq_mult_div [of v "2 ^ 21"] by (simp add: page_va_def)
qed

lemma pte_round: "pte v f = pte (v - v mod 4096) f"
proof -
  have "v - v mod 4096 = push_bit 12 (drop_bit 12 v)"
    by (simp add: push_bit_eq_mult drop_bit_eq_div minus_mod_eq_mult_div mult.commute)
  then have "ppn v = ppn (v - v mod 4096)"
    unfolding ppn_def by (intro bit_word_eqI) (auto simp: bit_and_iff bit_drop_bit_eq bit_u64_of_nat bit_push_bit_iff)
  then show ?thesis by (simp add: pte_def)
qed

section \<open>The invariant\<close>

definition kleaf :: "usize \<Rightarrow> usize \<Rightarrow> usize \<Rightarrow> u64 \<Rightarrow> bool" where
  "kleaf tx rx va e \<longleftrightarrow> pte_addr e = va \<and> \<not> pte_user e \<and> (bit e 3 \<longrightarrow> \<not> bit e 2 \<and> tx \<le> va \<and> va < rx)"

fun kent :: "usize \<Rightarrow> usize \<Rightarrow> node \<Rightarrow> nat \<Rightarrow> u64 \<Rightarrow> bool" where
  "kent tx rx Root j e \<longleftrightarrow> (pte_valid e \<longrightarrow> \<not> pte_leaf e)"
| "kent tx rx (N1 i) j e \<longleftrightarrow> (pte_valid e \<longrightarrow> pte_leaf e \<longrightarrow> kleaf tx rx (page_va i j 0) e \<and> \<not> bit e 3)"
| "kent tx rx (N0 i k) j e \<longleftrightarrow> (pte_valid e \<longrightarrow> kleaf tx rx (page_va i k j) e)"

definition kmap :: "usize \<Rightarrow> usize \<Rightarrow> mm \<Rightarrow> (nat \<times> nat) set \<Rightarrow> usize \<Rightarrow> bool" where
  "kmap tx rx s A root \<longleftrightarrow> buddy_inv s A \<and> phys_ok s \<and> pt_wf (pmem s) root A \<and>
     (\<forall>x a j. node_at (pmem s) root x = Some a \<longrightarrow> j < 512 \<longrightarrow> kent tx rx x j (ent (pmem s) a j))"

lemma kmapD:
  assumes "kmap tx rx s A root"
  shows "buddy_inv s A" "phys_ok s" "pt_wf (pmem s) root A"
    "node_at (pmem s) root x = Some a \<Longrightarrow> j < 512 \<Longrightarrow> kent tx rx x j (ent (pmem s) a j)"
  using assms unfolding kmap_def by blast+

lemma kent_invalid: "\<not> pte_valid e \<Longrightarrow> kent tx rx x j e"
  by (cases x) auto

text \<open>What the invariant means for the translation.\<close>

lemma kmap_translate:
  assumes k: "kmap tx rx s A root" and v: "v < 2 ^ 39" and t: "translate s root v = Some (pa, fl)"
  shows "pa = v" "\<not> pte_user fl" "bit fl 3 \<Longrightarrow> \<not> bit fl 2 \<and> tx \<le> v - v mod 4096 \<and> v - v mod 4096 < rx"
proof -
  note n = kmapD(4) [OF k]
  have root: "\<not> (pte_valid (ent (pmem s) root (vpn2 v)) \<and> pte_leaf (ent (pmem s) root (vpn2 v)))" using n [of Root root "vpn2 v"] by simp
  then obtain l1 where l1: "tbl (pmem s) root (vpn2 v) = Some l1"
    using t unfolding translate_cases tbl_def by (auto split: if_splits)
  then have n1: "node_at (pmem s) root (N1 (vpn2 v)) = Some l1" by simp
  have "pa = v \<and> \<not> pte_user fl \<and> (bit fl 3 \<longrightarrow> \<not> bit fl 2 \<and> tx \<le> v - v mod 4096 \<and> v - v mod 4096 < rx)"
  proof (cases "tbl (pmem s) l1 (vpn1 v)")
    case None
    let ?e = "ent (pmem s) l1 (vpn1 v)"
    have e: "pte_valid ?e" "pa = pte_addr ?e + v mod 2 ^ 21" "fl = take_bit 10 ?e"
      using t None l1 unfolding translate_cases by (auto split: if_splits)
    have "pte_leaf ?e" using None e(1) by (auto simp: tbl_def split: if_splits)
    then have "kleaf tx rx (v - v mod 2 ^ 21) ?e" "\<not> bit ?e 3" using n [OF n1, of "vpn1 v"] e(1) page_va_vpn(2) [OF v] by simp_all
    then show ?thesis using e mod_less_eq_dividend [of v "2 ^ 21"] by (auto simp: kleaf_def pte_user_bit bit_take_bit_iff)
  next
    case (Some l0)
    let ?e = "ent (pmem s) l0 (vpn0 v)"
    have e: "pte_valid ?e" "pa = pte_addr ?e + v mod 2 ^ 12" "fl = take_bit 10 ?e"
      using t Some l1 unfolding translate_cases by (auto split: if_splits)
    have "node_at (pmem s) root (N0 (vpn2 v) (vpn1 v)) = Some l0" using l1 Some by simp
    from n [OF this, of "vpn0 v"] have "kleaf tx rx (v - v mod 4096) ?e" using e(1) page_va_vpn(1) [OF v] by simp
    then show ?thesis using e mod_less_eq_dividend [of v 4096] by (auto simp: kleaf_def pte_user_bit bit_take_bit_iff)
  qed
  then show "pa = v" "\<not> pte_user fl" "bit fl 3 \<Longrightarrow> \<not> bit fl 2 \<and> tx \<le> v - v mod 4096 \<and> v - v mod 4096 < rx" by blast+
qed

section \<open>Single writes\<close>

text \<open>An entry that is not a table pointer.\<close>

lemma kmap_write:
  assumes k: "kmap tx rx s A root" and x: "node_at (pmem s) root x = Some a" and j: "j < 512"
    and e: "kent tx rx x j e" "(\<exists>i l. x = N0 i l) \<or> \<not> pte_valid e \<or> pte_leaf e"
  shows "kmap tx rx (pte_write s a j e) A root"
proof -
  note d = kmapD [OF k]
  note ap = buddy_inv_apart [OF d(1)]
  let ?m = "store64 (pmem s) (a + 8 * j) e"
  have ent: "ent ?m b n = (if a = b \<and> j = n then e else ent (pmem s) b n)" if "node_at (pmem s) root y = Some b" "n < 512" for y b n
    by (rule ent_store64 [OF nodes_sep [OF d(3) ap x that(1)] j that(2)])
  have inj: "y = x" if "node_at (pmem s) root y = Some a" for y by (rule pt_wf_inj [OF d(3) that x])
  have tb: "tbl (pmem s) b n = Some c" if y: "node_at (pmem s) root y = Some b" "\<forall>i l. y \<noteq> N0 i l" "n < 512" "tbl ?m b n = Some c" for y b n c
  proof (cases "a = b \<and> j = n")
    case True
    then have "x = y" using inj y(1) by auto
    then show ?thesis using e(2) y(2,4) ent [OF y(1,3)] True by (auto simp: tbl_def split: if_splits)
  next
    case False
    then show ?thesis using y(4) ent [OF y(1,3)] by (auto simp: tbl_def split: if_splits)
  qed
  have sub: "node_at (pmem s) root y = Some b" if nd: "node_at ?m root y = Some b" for y b
  proof (cases y)
    case (N1 i)
    then show ?thesis using nd tb [of Root root i b] by (auto split: if_splits)
  next
    case (N0 i l)
    then obtain t where t: "i < 512" "l < 512" "tbl ?m root i = Some t" "tbl ?m t l = Some b"
      using nd by (auto simp: bind_eq_Some_conv split: if_splits)
    have "tbl (pmem s) root i = Some t" using tb [of Root root i t] t by simp
    then show ?thesis using tb [of "N1 i" t l b] t N0 by simp
  qed (use nd in simp)
  have "kent tx rx y n (ent ?m b n)" if "node_at ?m root y = Some b" "n < 512" for y b n
    using ent [OF sub [OF that(1)] that(2)] d(4) [OF sub [OF that(1)] that(2)] inj [of y] sub [OF that(1)] e(1) by auto
  moreover have "pt_wf ?m root A" using d(3) sub unfolding pt_wf_def by blast
  moreover have "buddy_inv (pte_write s a j e) A" by (rule pte_write_inv [OF d(1) pt_wf_owned [OF d(3) x] j])
  moreover have "phys_ok (pte_write s a j e)" using d(2) by (simp add: phys_ok_def pte_write_def)
  ultimately show ?thesis unfolding kmap_def by simp
qed

text \<open>Memory outside the tables may change.\<close>

lemma kmap_frame:
  assumes k: "kmap tx rx s A root" and s': "buddy_inv s' A'" "A \<subseteq> A'" "same_geom s s'" "\<forall>b\<in>A. \<forall>x\<in>region b. pmem s' x = pmem s x"
  shows "kmap tx rx s' A' root" "node_at (pmem s') root = node_at (pmem s) root"
    "node_at (pmem s) root x = Some a \<Longrightarrow> j < 512 \<Longrightarrow> ent (pmem s') a j = ent (pmem s) a j"
proof -
  note d = kmapD [OF k]
  have f: "same_on (pmem s) (pmem s') b" if "node_at (pmem s) root y = Some b" for y b
    using s'(4) pt_wf_owned [OF d(3) that] by (auto simp: same_on_def)
  show n: "node_at (pmem s') root = node_at (pmem s) root" by (rule ext) (rule node_at_frame [OF f])
  show e: "ent (pmem s') a j = ent (pmem s) a j" if "node_at (pmem s) root x = Some a" "j < 512" for x a j
    by (rule ent_same [OF f [OF that(1)] that(2)])
  have "pt_wf (pmem s') root A'" using d(3) s'(2) unfolding pt_wf_def n by blast
  moreover have "phys_ok s'" using d(2) same_geom_phys [OF s'(3)] by simp
  ultimately show "kmap tx rx s' A' root" using s'(1) d(4) e unfolding kmap_def n by metis
qed

lemma kmap_ensure:
  assumes k: "kmap tx rx s A root" and x: "node_at (pmem s) root x = Some t" "x = Root \<or> x = N1 i0" and j: "j < 512"
    and r: "ensure_table s t j = Some (Ok u, s')"
  obtains A' where "kmap tx rx s' A' root" "node_at (pmem s') root (child x j) = Some u"
proof (cases "pte_valid (ent (pmem s) t j)")
  case True
  then have s': "s' = s" "tbl (pmem s) t j = Some u" using r by (auto simp: ensure_table_def pte_read_ent tbl_def Let_def split: if_splits)
  then have "node_at (pmem s) root (child x j) = Some u" using x j by (auto split: if_splits)
  then show ?thesis using that k s' by blast
next
  case False
  note d = kmapD [OF k]
  obtain s1 s2 where a: "alloc_pages s 0 = Some (Some u, s1)" "zero_page s1 u = Some s2" "s' = pte_write s2 t j (pte u PTE_V)"
    using r False by (auto simp: ensure_table_def pte_read_ent qmark_eq_Some ok_or_def bind_eq_Some_conv split: option.split_asm)
  obtain s2' where z: "zero_page s1 u = Some s2'" "buddy_inv s2' (insert (u, 0) A)" "(u, 0) \<notin> A"
    "\<forall>b\<in>A. \<forall>x\<in>region b. pmem s2' x = pmem s x" "\<forall>j<512. ent (pmem s2') u j = 0" using alloc_zero_page [OF d(1) a(1)] by blast
  then have s2: "buddy_inv s2 (insert (u, 0) A)" "\<forall>b\<in>A. \<forall>x\<in>region b. pmem s2 x = pmem s x" "\<forall>j<512. ent (pmem s2) u j = 0"
    using a(2) by auto
  have g: "same_geom s s2" using alloc_geom [OF d(1)] a(1,2)
    by (auto simp: alloc_pages_def zero_page_def same_geom_def bind_eq_Some_conv)
  note fr = kmap_frame [OF k s2(1) subset_insertI g s2(2)]
  note d2 = kmapD [OF fr(1)]
  have u: "pte_addr (pte u PTE_V) = u" using owned_page [OF s2(1), of u] d2(2) by (intro pte_addr_pte) auto
  have w: "pt_wf (pmem s2) root A" using d(3) unfolding pt_wf_def fr(2) .
  note ap = buddy_inv_apart [OF s2(1)]
  have t2: "node_at (pmem s2) root x = Some t" using x(1) fr(2) by simp
  have e: "\<not> pte_valid (ent (pmem s2) t j)" using fr(3) [OF x(1) j] False by simp
  have link: "node_at (pmem s') root = (node_at (pmem s2) root)(child x j := Some u)"
    using link_node(1) [OF w ap t2 x(2) j e z(3)] s2(3) u a(3) by simp
  have wf: "pt_wf (pmem s') root (insert (u, 0) A)" by (rule link_wf [OF w link z(3)])
  have tu: "(t, 0) \<in> A" by (rule pt_wf_owned [OF d(3) x(1)])
  have "buddy_inv s' (insert (u, 0) A)" unfolding a(3) by (rule pte_write_inv [OF s2(1) _ j]) (use tu in simp)
  moreover have "phys_ok s'" using d2(2) a(3) by (simp add: phys_ok_def pte_write_def)
  moreover have "kent tx rx y n (ent (pmem s') b n)" if y: "node_at (pmem s') root y = Some b" "n < 512" for y b n
  proof (cases "y = child x j")
    case True
    have "t \<noteq> u" using z(3) tu by auto
    then have "region (t, 0) \<inter> region (u, 0) = {}" by (intro apartD [OF ap]) (use tu in auto)
    then have "ent (pmem s') u n = 0"
      using ent_store64 [OF disjI2 j y(2), of t u "pmem s2"] s2(3) y(2) \<open>t \<noteq> u\<close> by (simp add: a(3))
    then show ?thesis using y(1) True link by (simp add: kent_invalid)
  next
    case False
    then have y2: "node_at (pmem s2) root y = Some b" using y(1) link by simp
    have "ent (pmem s') b n = (if t = b \<and> j = n then pte u PTE_V else ent (pmem s2) b n)"
      unfolding a(3) pte_write_pmem by (rule ent_store64 [OF nodes_sep [OF w _ t2 y2] j y(2)]) (use ap in \<open>auto simp: apart_def\<close>)
    moreover have "y = x" if "t = b" using pt_wf_inj [OF w y2] t2 that by blast
    ultimately show ?thesis using d2(4) [OF y2 y(2)] x(2) by auto
  qed
  ultimately have "kmap tx rx s' (insert (u, 0) A) root" using wf unfolding kmap_def by blast
  then show ?thesis using that link by simp
qed

section \<open>The mapping operations\<close>

lemma map_4k_kmap:
  assumes k: "kmap tx rx s A root" and v: "v < 2 ^ 39" and f: "kleaf tx rx (v - v mod 4096) (pte v f)"
    and m: "map_4k s root v v f = Some (Ok (), s')"
  obtains A' where "kmap tx rx s' A' root"
proof -
  obtain l1 s1 l0 s2 where e: "ensure_table s root (vpn2 v) = Some (Ok l1, s1)" "ensure_table s1 l1 (vpn1 v) = Some (Ok l0, s2)"
    "s' = pte_write s2 l0 (vpn0 v) (pte v f)" using m by (auto simp: map_4k_def qmark_eq_Some)
  obtain A1 where 1: "kmap tx rx s1 A1 root" "node_at (pmem s1) root (N1 (vpn2 v)) = Some l1"
    using kmap_ensure [OF k, of Root root "vpn2 v" "vpn2 v" l1 s1 thesis] e(1) by auto
  obtain A2 where 2: "kmap tx rx s2 A2 root" "node_at (pmem s2) root (N0 (vpn2 v) (vpn1 v)) = Some l0"
    using kmap_ensure [OF 1, of "vpn2 v" "vpn1 v" l0 s2 thesis] e(2) by auto
  have "kmap tx rx s' A2 root"
    unfolding e(3) by (rule kmap_write [OF 2]) (use f page_va_vpn(1) [OF v] in simp_all)
  then show ?thesis by (rule that)
qed

lemma map_super_kmap:
  assumes k: "kmap tx rx s A root" and v: "v < 2 ^ 39" "v mod 2 ^ 21 = 0" and f: "kleaf tx rx v (pte v f)" "\<not> bit f 3" "pte_leaf (pte v f)"
    and m: "map_super s root v v f = Some (Ok (), s')"
  obtains A' where "kmap tx rx s' A' root"
proof -
  obtain l1 s1 where e: "ensure_table s root (vpn2 v) = Some (Ok l1, s1)" "s' = pte_write s1 l1 (vpn1 v) (pte v f)"
    using m by (auto simp: map_super_def qmark_eq_Some)
  obtain A1 where 1: "kmap tx rx s1 A1 root" "node_at (pmem s1) root (N1 (vpn2 v)) = Some l1"
    using kmap_ensure [OF k, of Root root "vpn2 v" "vpn2 v" l1 s1 thesis] e(1) by auto
  have "page_va (vpn2 v) (vpn1 v) 0 = v" using page_va_vpn(2) [OF v(1)] v(2) by simp
  moreover have "\<not> bit (pte v f) 3" using f(2) by (simp add: pte_flag_bits)
  ultimately have "kmap tx rx s' A1 root"
    unfolding e(2) by (intro kmap_write [OF 1]) (use f in simp_all)
  then show ?thesis by (rule that)
qed

lemma unmap_4k_kmap:
  assumes k: "kmap tx rx s A root" and m: "unmap_4k s root v = Some (Ok (), s')"
  obtains A' where "kmap tx rx s' A' root"
proof (cases "leaf_pte s root v = 0")
  case True
  then show ?thesis using m k that by (simp add: unmap_4k_def)
next
  case False
  then obtain l1 s1 l0 s2 where e: "ensure_table s root (vpn2 v) = Some (Ok l1, s1)" "ensure_table s1 l1 (vpn1 v) = Some (Ok l0, s2)"
    "s' = pte_write s2 l0 (vpn0 v) 0" using m by (auto simp: unmap_4k_def qmark_eq_Some)
  obtain A1 where 1: "kmap tx rx s1 A1 root" "node_at (pmem s1) root (N1 (vpn2 v)) = Some l1"
    using kmap_ensure [OF k, of Root root "vpn2 v" "vpn2 v" l1 s1 thesis] e(1) by auto
  obtain A2 where 2: "kmap tx rx s2 A2 root" "node_at (pmem s2) root (N0 (vpn2 v) (vpn1 v)) = Some l0"
    using kmap_ensure [OF 1, of "vpn2 v" "vpn1 v" l0 s2 thesis] e(2) by auto
  have "kmap tx rx s' A2 root" unfolding e(3) by (rule kmap_write [OF 2]) simp_all
  then show ?thesis by (rule that)
qed

lemma expect_ok_Some: "expect_ok r = Some (a, s) \<longleftrightarrow> r = Some (Ok a, s)"
  by (auto simp: expect_ok_def bind_eq_Some_conv split: result.split_asm)

lemma map_region_4k_kmap:
  assumes "kmap tx rx s A root" "map_region_4k_from s root v e f = Some s'" "e \<le> 2 ^ 39" "v mod 4096 = 0"
    and f: "\<And>w. v \<le> w \<Longrightarrow> w < e \<Longrightarrow> w mod 4096 = 0 \<Longrightarrow> kleaf tx rx w (pte w f)"
  shows "\<exists>A'. kmap tx rx s' A' root"
  using assms
proof (induction s root v e f arbitrary: A rule: map_region_4k_from.induct)
  case (1 s root v e f)
  show ?case
  proof (cases "v < e")
    case True
    obtain s1 where s1: "map_4k s root v v f = Some (Ok (), s1)" "uadd v 4096 = Some (v + 4096)"
      "map_region_4k_from s1 root (v + 4096) e f = Some s'"
      using 1(3) True by (subst (asm) map_region_4k_from.simps) (auto simp: bind_eq_Some_conv expect_ok_Some uadd_eq_Some)
    obtain A1 where "kmap tx rx s1 A1 root"
      by (rule map_4k_kmap [OF 1(2) _ _ s1(1)]) (use True 1(4,5) 1(6) [of v] in auto)
    then show ?thesis
      using 1(1) [OF True, of "((), s1)" "()" s1 "v + 4096" A1] s1 1(4-6) by (simp add: expect_ok_Some)
  next
    case False
    then show ?thesis using 1(2,3) by (subst (asm) map_region_4k_from.simps) auto
  qed
qed

lemma map_supers_kmap:
  assumes "kmap tx rx s A root" "map_supers s root v e f = Some s'" "e \<le> 2 ^ 39" "v mod 2 ^ 21 = 0"
    and f: "\<And>w. w < e \<Longrightarrow> w mod 2 ^ 21 = 0 \<Longrightarrow> kleaf tx rx w (pte w f) \<and> \<not> bit f 3 \<and> pte_leaf (pte w f)"
  shows "\<exists>A'. kmap tx rx s' A' root"
  using assms
proof (induction s root v e f arbitrary: A rule: map_supers.induct)
  case (1 s root v e f)
  show ?case
  proof (cases "v < e")
    case True
    obtain s1 where s1: "map_super s root v v f = Some (Ok (), s1)" "uadd v SUPER_PAGE = Some (v + SUPER_PAGE)"
      "map_supers s1 root (v + SUPER_PAGE) e f = Some s'"
      using 1(3) True by (subst (asm) map_supers.simps) (auto simp: bind_eq_Some_conv expect_ok_Some uadd_eq_Some)
    obtain A1 where "kmap tx rx s1 A1 root"
      by (rule map_super_kmap [OF 1(2) _ 1(5) _ _ _ s1(1)]) (use True 1(4,5) 1(6) [of v] in auto)
    moreover have "(v + SUPER_PAGE) mod 2 ^ 21 = 0" using 1(5) by (simp add: SUPER_PAGE_def mod_add_left_eq [symmetric])
    ultimately show ?thesis
      using 1(1) [OF True, of "((), s1)" "()" s1 "v + SUPER_PAGE" A1] s1 1(4,6) by (simp add: expect_ok_Some)
  next
    case False
    then show ?thesis using 1(2,3) by (subst (asm) map_supers.simps) auto
  qed
qed

section \<open>Guard pages\<close>

text \<open>What was unmapped stays unmapped, and the page \<open>v\<close> is unmapped now.\<close>

lemma unmap_4k_clear:
  assumes k: "kmap tx rx s A root" and v: "v < 2 ^ 39" and m: "unmap_4k s root v = Some (Ok (), s')" and w: "w < 2 ^ 39"
  shows "leaf_pte s' root w = (if w div 4096 = v div 4096 then 0 else leaf_pte s root w)"
  using unmap_4k_spec [OF kmapD(1,3) [OF k] v] m w by auto

definition unmaps :: "usize \<Rightarrow> mm \<Rightarrow> mm \<Rightarrow> (usize \<Rightarrow> bool) \<Rightarrow> bool" where
  "unmaps root s s' P \<longleftrightarrow> (\<forall>w<2 ^ 39. (P w \<longrightarrow> leaf_pte s' root w = 0) \<and> (leaf_pte s root w = 0 \<longrightarrow> leaf_pte s' root w = 0))"

lemma unmaps_trans: "unmaps root s s1 P \<Longrightarrow> unmaps root s1 s2 Q \<Longrightarrow> unmaps root s s2 (\<lambda>w. P w \<or> Q w)"
  by (auto simp: unmaps_def)

lemma unmaps_mono: "unmaps root s s' P \<Longrightarrow> (\<And>w. Q w \<Longrightarrow> P w) \<Longrightarrow> unmaps root s s' Q"
  by (auto simp: unmaps_def)

lemma guard_slot_kmap:
  assumes "kmap tx rx s A root" "unmap_guard_slot s root p e = Some s'" "e \<le> 2 ^ 39" "p mod 4096 = 0"
  shows "\<exists>A'. kmap tx rx s' A' root \<and> unmaps root s s' (\<lambda>w. p \<le> w \<and> w < e)"
  using assms
proof (induction s root p e arbitrary: A rule: unmap_guard_slot.induct)
  case (1 s root p e)
  show ?case
  proof (cases "p < e")
    case True
    obtain s1 where s1: "unmap_4k s root p = Some (Ok (), s1)" "uadd p 4096 = Some (p + 4096)"
      "unmap_guard_slot s1 root (p + 4096) e = Some s'"
      using 1(3) True by (subst (asm) unmap_guard_slot.simps) (auto simp: bind_eq_Some_conv expect_ok_Some uadd_eq_Some)
    obtain A1 where k1: "kmap tx rx s1 A1 root" by (rule unmap_4k_kmap [OF 1(2) s1(1)])
    obtain A' where A': "kmap tx rx s' A' root" "unmaps root s1 s' (\<lambda>w. p + 4096 \<le> w \<and> w < e)"
      using 1(1) [OF True, of "((), s1)" "()" s1 "p + 4096" A1] s1 1(4,5) k1 by (auto simp: expect_ok_Some)
    have p: "p < 2 ^ 39" using True 1(4) by simp
    have "unmaps root s s1 (\<lambda>w. p \<le> w \<and> w < p + 4096)"
      unfolding unmaps_def
    proof (intro allI impI)
      fix w :: nat assume w: "w < 2 ^ 39"
      obtain q where q: "p = 4096 * q" using 1(5) by auto
      have "w div 4096 = p div 4096" if "p \<le> w" "w < p + 4096"
        using that unfolding q by (intro div_nat_eqI) simp_all
      then show "(p \<le> w \<and> w < p + 4096 \<longrightarrow> leaf_pte s1 root w = 0) \<and> (leaf_pte s root w = 0 \<longrightarrow> leaf_pte s1 root w = 0)"
        using unmap_4k_clear [OF 1(2) p s1(1) w] by auto
    qed
    from unmaps_trans [OF this A'(2)] have "unmaps root s s' (\<lambda>w. p \<le> w \<and> w < e)" by (rule unmaps_mono) auto
    then show ?thesis using A'(1) by blast
  next
    case False
    then show ?thesis using 1(2,3) by (subst (asm) unmap_guard_slot.simps) (auto simp: unmaps_def)
  qed
qed

definition guard_zone :: "usize \<Rightarrow> usize \<Rightarrow> usize \<Rightarrow> bool" where
  "guard_zone base hi w \<longleftrightarrow> base \<le> w \<and> (\<exists>i. base + i * TRAP_STRIDE < hi \<and> base + i * TRAP_STRIDE \<le> w \<and> w < base + i * TRAP_STRIDE + TRAP_GUARD)"

lemma guard_pages_kmap:
  assumes "kmap tx rx s A root" "unmap_guard_pages s root p hi = Some s'" "hi + TRAP_GUARD \<le> 2 ^ 39" "p mod 4096 = 0"
  shows "\<exists>A'. kmap tx rx s' A' root \<and> unmaps root s s' (guard_zone p hi)"
  using assms
proof (induction s root p hi arbitrary: A rule: unmap_guard_pages.induct)
  case (1 s root p hi)
  show ?case
  proof (cases "p < hi")
    case True
    obtain s1 where s1: "uadd p TRAP_GUARD = Some (p + TRAP_GUARD)" "unmap_guard_slot s root p (p + TRAP_GUARD) = Some s1"
      "uadd p TRAP_STRIDE = Some (p + TRAP_STRIDE)" "unmap_guard_pages s1 root (p + TRAP_STRIDE) hi = Some s'"
      using 1(3) True by (subst (asm) unmap_guard_pages.simps) (auto simp: bind_eq_Some_conv uadd_eq_Some)
    obtain A1 where k1: "kmap tx rx s1 A1 root" "unmaps root s s1 (\<lambda>w. p \<le> w \<and> w < p + TRAP_GUARD)"
      using guard_slot_kmap [OF 1(2) s1(2)] True 1(4,5) by auto
    have al: "(p + TRAP_STRIDE) mod 4096 = 0" using 1(5) by (simp add: mod_add_left_eq [symmetric])
    obtain A' where A': "kmap tx rx s' A' root" "unmaps root s1 s' (guard_zone (p + TRAP_STRIDE) hi)"
      using 1(1) [OF True, of "p + TRAP_GUARD" s1 "p + TRAP_STRIDE" A1] s1 1(4) k1(1) al by auto
    have "(p \<le> w \<and> w < p + TRAP_GUARD) \<or> guard_zone (p + TRAP_STRIDE) hi w" if g: "guard_zone p hi w" for w
    proof -
      obtain i where i: "p + i * TRAP_STRIDE < hi" "p + i * TRAP_STRIDE \<le> w" "w < p + i * TRAP_STRIDE + TRAP_GUARD" using g by (auto simp: guard_zone_def)
      show ?thesis using i g by (cases i) (auto simp: guard_zone_def algebra_simps intro!: exI [of _ "i - 1"])
    qed
    then have "unmaps root s s' (guard_zone p hi)" by (rule unmaps_mono [OF unmaps_trans [OF k1(2) A'(2)]])
    then show ?thesis using A'(1) by blast
  next
    case False
    then show ?thesis using 1(2,3) by (subst (asm) unmap_guard_pages.simps) (auto simp: unmaps_def guard_zone_def)
  qed
qed

text \<open>Mapping a page changes no other page.\<close>

lemma map_4k_other:
  assumes k: "kmap tx rx s A root" and v: "v < 2 ^ 39" and m: "map_4k s root v v f = Some (Ok (), s')"
    and w: "w < 2 ^ 39" "w div 4096 \<noteq> v div 4096"
  shows "leaf_pte s' root w = leaf_pte s root w"
proof -
  note d = kmapD [OF k]
  obtain l1 s1 l0 s2 where e: "ensure_table s root (vpn2 v) = Some (Ok l1, s1)" "ensure_table s1 l1 (vpn1 v) = Some (Ok l0, s2)"
    "s' = pte_write s2 l0 (vpn0 v) (pte v f)" using m by (auto simp: map_4k_def qmark_eq_Some)
  obtain A1 where 1: "pt_ext s A s1 A1 root" "node_at (pmem s1) root (N1 (vpn2 v)) = Some l1"
    by (rule ensure_table_ok [OF d(1-3), of Root root "vpn2 v" "vpn2 v"]) (use e(1) in auto)
  have p1: "phys_ok s1" using same_geom_phys [OF pt_extD(4) [OF 1(1)]] d(2) by simp
  obtain A2 where 2: "pt_ext s1 A1 s2 A2 root" "node_at (pmem s2) root (N0 (vpn2 v) (vpn1 v)) = Some l0"
    by (rule ensure_table_ok [OF pt_extD(1) [OF 1(1)] p1 pt_extD(3) [OF 1(1)] 1(2), of "vpn2 v" "vpn1 v"]) (use e(2) in auto)
  show ?thesis using leaf_setI [OF pt_ext_trans [OF 1(1) 2(1)] 2(2) v, of "pte v f"] w unfolding e(3) leaf_set_def by simp
qed

section \<open>The kernel region\<close>

text \<open>The order of the sections, as the linker script has it, inside RAM.\<close>

definition layout_ok :: "layout \<Rightarrow> bool" where
  "layout_ok ly \<longleftrightarrow> ly_kernel_start ly \<le> ly_text_start ly \<and> ly_text_start ly \<le> ly_rodata_start ly \<and>
     ly_rodata_start ly \<le> ly_data_start ly \<and> ly_data_start ly \<le> ly_kernel_end ly \<and> ly_kernel_end ly \<le> ly_ram_end ly \<and>
     ly_ram_end ly \<le> 2 ^ 38 \<and> ly_uart_base ly < 2 ^ 39 \<and> ly_stack_guard ly \<le> ly_ram_end ly \<and>
     ly_trap_top ly \<le> ly_ram_end ly \<and> ly_idle_top ly \<le> ly_ram_end ly \<and>
     ly_trap_base ly mod 4096 = 0 \<and> ly_idle_base ly mod 4096 = 0"

definition guard_page :: "layout \<Rightarrow> usize \<Rightarrow> bool" where
  "guard_page ly w \<longleftrightarrow> w div 4096 = ly_stack_guard ly div 4096 \<or>
     guard_zone (ly_trap_base ly) (ly_trap_top ly) w \<or> guard_zone (ly_idle_base ly) (ly_idle_top ly) w"

lemma leaf_flags:
  assumes "w mod 4096 = 0" "w < 2 ^ 39"
  shows "kleaf tx rx w (pte w PTE_LEAF_RW)" "kleaf tx rx w (pte w PTE_LEAF_R)"
    "tx \<le> w \<Longrightarrow> w < rx \<Longrightarrow> kleaf tx rx w (pte w PTE_LEAF_RX)"
    "\<not> bit PTE_LEAF_RW 3" "\<not> bit PTE_LEAF_R 3" "pte_leaf (pte w PTE_LEAF_RW)" "pte_leaf (pte w PTE_LEAF_R)"
proof -
  note fl = PTE_LEAF_RW_def PTE_LEAF_R_def PTE_LEAF_RX_def PTE_V_def PTE_R_def PTE_W_def PTE_X_def PTE_A_def PTE_D_def
  have t: "take_bit 10 PTE_LEAF_RW = PTE_LEAF_RW" "take_bit 10 PTE_LEAF_R = PTE_LEAF_R" "take_bit 10 PTE_LEAF_RX = PTE_LEAF_RX"
    by (simp_all add: fl)
  have a: "pte_addr (pte w f) = w" if "take_bit 10 f = f" for f using pte_addr_pte [OF assms(1) _ that] assms(2) by simp
  have b: "bit PTE_LEAF_RW 4 = False" "bit PTE_LEAF_R 4 = False" "bit PTE_LEAF_RX 4 = False" "bit PTE_LEAF_RW 3 = False"
    "bit PTE_LEAF_R 3 = False" "bit PTE_LEAF_RX 2 = False" "bit PTE_LEAF_RW 1" "bit PTE_LEAF_R 1"
    by (simp_all add: fl bit_or_iff bit_numeral_rec)
  show "kleaf tx rx w (pte w PTE_LEAF_RW)" "kleaf tx rx w (pte w PTE_LEAF_R)"
    "tx \<le> w \<Longrightarrow> w < rx \<Longrightarrow> kleaf tx rx w (pte w PTE_LEAF_RX)"
    using a [OF t(1)] a [OF t(2)] a [OF t(3)] b by (simp_all add: kleaf_def pte_user_bit pte_flag_bits)
  show "\<not> bit PTE_LEAF_RW 3" "\<not> bit PTE_LEAF_R 3" "pte_leaf (pte w PTE_LEAF_RW)" "pte_leaf (pte w PTE_LEAF_R)"
    using b by (simp_all add: pte_leaf_bit pte_flag_bits)
qed

lemma region_kmap:
  assumes "kmap tx rx s A root" "map_region_4k s root v e f = Some s'" "e \<le> 2 ^ 39"
    and "\<And>w. v \<le> w \<Longrightarrow> w < e \<Longrightarrow> w mod 4096 = 0 \<Longrightarrow> kleaf tx rx w (pte w f)"
  obtains A' where "kmap tx rx s' A' root"
proof -
  have "map_region_4k_from s root v e f = Some s'" "v mod 4096 = 0"
    using assms(2) by (auto simp: map_region_4k_def require_def split: if_splits)
  from map_region_4k_kmap [OF assms(1) this(1) assms(3) this(2) assms(4)] show ?thesis using that by blast
qed

lemma supers_kmap:
  assumes "kmap tx rx s A root" "map_supers s root v e f = Some s'" "e \<le> 2 ^ 39" "v mod 2 ^ 21 = 0" "f = PTE_LEAF_R \<or> f = PTE_LEAF_RW"
  obtains A' where "kmap tx rx s' A' root"
proof -
  have "kleaf tx rx w (pte w f) \<and> \<not> bit f 3 \<and> pte_leaf (pte w f)" if "w < e" "w mod 2 ^ 21 = 0" for w
  proof -
    have "w mod 4096 = 0" using that(2) mod_mod_cancel [of 4096 "2 ^ 21" w] by simp
    then show ?thesis using leaf_flags [of w] that(1) assms(3,5) by auto
  qed
  from map_supers_kmap [OF assms(1-4) this] show ?thesis using that by blast
qed

lemma super_end:
  assumes "k \<le> r" "r mod SUPER_PAGE = 0"
  shows "div_ceil k SUPER_PAGE * SUPER_PAGE \<le> r"
proof -
  obtain q where q: "r = SUPER_PAGE * q" using assms(2) by (auto simp: mod_eq_0_iff_dvd)
  have "div_ceil k SUPER_PAGE \<le> q" using assms(1) unfolding q div_ceil_def SUPER_PAGE_def by auto
  then show ?thesis unfolding q by simp
qed

lemma map_kernel_region_kmap:
  assumes k: "kmap (ly_text_start ly) (ly_rodata_start ly) s A root" and ly: "layout_ok ly"
    and m: "map_kernel_region ly s root = Some s'"
  shows "\<exists>A'. kmap (ly_text_start ly) (ly_rodata_start ly) s' A' root \<and>
    (\<forall>w<2 ^ 39. guard_page ly w \<and> w div 4096 \<noteq> ly_uart_base ly div 4096 \<longrightarrow> leaf_pte s' root w = 0)"
proof -
  let ?tx = "ly_text_start ly" and ?rx = "ly_rodata_start ly" and ?se = "div_ceil (ly_kernel_end ly) SUPER_PAGE * SUPER_PAGE"
  obtain s1 s2 s3 s4 s5 s6 s7 s8 s9 s10 where
    al: "ly_ram_start ly mod SUPER_PAGE = 0" "ly_ram_end ly mod SUPER_PAGE = 0" and
    st: "map_supers s root (ly_ram_start ly) (ly_kernel_start ly) PTE_LEAF_R = Some s1"
      "map_region_4k s1 root (ly_kernel_start ly) ?tx PTE_LEAF_RW = Some s2"
      "map_region_4k s2 root ?tx ?rx PTE_LEAF_RX = Some s3"
      "map_region_4k s3 root ?rx (ly_data_start ly) PTE_LEAF_R = Some s4"
      "map_region_4k s4 root (ly_data_start ly) (ly_kernel_end ly) PTE_LEAF_RW = Some s5"
      "(if ly_kernel_end ly < ?se then map_region_4k s5 root (ly_kernel_end ly) ?se PTE_LEAF_RW else Some s5) = Some s6"
      "map_supers s6 root ?se (ly_ram_end ly) PTE_LEAF_RW = Some s7" "unmap_4k s7 root (ly_stack_guard ly) = Some (Ok (), s8)"
      "unmap_guard_pages s8 root (ly_trap_base ly) (ly_trap_top ly) = Some s9"
      "unmap_guard_pages s9 root (ly_idle_base ly) (ly_idle_top ly) = Some s10"
      "map_4k s10 root (ly_uart_base ly) (ly_uart_base ly) PTE_LEAF_RW = Some (Ok (), s')"
    using m by (auto simp: map_kernel_region_def bind_eq_Some_conv umul_eq_Some expect_ok_Some simp del: SUPER_PAGE_def split del: if_split)
  note L = ly [unfolded layout_ok_def]
  have se: "?se \<le> ly_ram_end ly" by (rule super_end) (use L al in auto)
  note flags = leaf_flags(1-3) [where tx = ?tx and rx = ?rx]
  obtain A1 where k1: "kmap ?tx ?rx s1 A1 root" by (rule supers_kmap [OF k st(1)]) (use L al in auto)
  obtain A2 where k2: "kmap ?tx ?rx s2 A2 root" by (rule region_kmap [OF k1 st(2)]) (use L flags in auto)
  obtain A3 where k3: "kmap ?tx ?rx s3 A3 root" by (rule region_kmap [OF k2 st(3)]) (use L flags in auto)
  obtain A4 where k4: "kmap ?tx ?rx s4 A4 root" by (rule region_kmap [OF k3 st(4)]) (use L flags in auto)
  obtain A5 where k5: "kmap ?tx ?rx s5 A5 root" by (rule region_kmap [OF k4 st(5)]) (use L flags in auto)
  obtain A6 where k6: "kmap ?tx ?rx s6 A6 root"
  proof (cases "ly_kernel_end ly < ?se")
    case True
    show ?thesis by (rule region_kmap [OF k5 _ _ _ that]) (use True st(6) se L flags in auto)
  qed (use st(6) k5 that in auto)
  obtain A7 where k7: "kmap ?tx ?rx s7 A7 root" by (rule supers_kmap [OF k6 st(7)]) (use L in auto)
  obtain A8 where k8: "kmap ?tx ?rx s8 A8 root" by (rule unmap_4k_kmap [OF k7 st(8)])
  obtain A9 where k9: "kmap ?tx ?rx s9 A9 root" "unmaps root s8 s9 (guard_zone (ly_trap_base ly) (ly_trap_top ly))"
    using guard_pages_kmap [OF k8 st(9)] L by auto
  obtain A10 where k10: "kmap ?tx ?rx s10 A10 root" "unmaps root s9 s10 (guard_zone (ly_idle_base ly) (ly_idle_top ly))"
    using guard_pages_kmap [OF k9(1) st(10)] L by auto
  have uart: "kleaf ?tx ?rx (ly_uart_base ly - ly_uart_base ly mod 4096) (pte (ly_uart_base ly) PTE_LEAF_RW)"
    using flags(1) [of "ly_uart_base ly - ly_uart_base ly mod 4096"] L pte_round [of "ly_uart_base ly"] by auto
  obtain A' where k': "kmap ?tx ?rx s' A' root" by (rule map_4k_kmap [OF k10(1) _ uart st(11)]) (use L in auto)
  have "leaf_pte s' root w = 0" if w: "w < 2 ^ 39" "guard_page ly w" "w div 4096 \<noteq> ly_uart_base ly div 4096" for w
  proof -
    have "leaf_pte s8 root w = 0" if "w div 4096 = ly_stack_guard ly div 4096"
      using unmap_4k_clear [OF k7 _ st(8) w(1)] that L by auto
    then have "leaf_pte s10 root w = 0" using w(1,2) k9(2) k10(2) unfolding unmaps_def guard_page_def by blast
    then show ?thesis using map_4k_other [OF k10(1) _ st(11) w(1,3)] L by auto
  qed
  then show ?thesis using k' by blast
qed

section \<open>Protection\<close>

lemma fresh_kmap:
  assumes i: "buddy_inv s A" "phys_ok s" and a: "alloc_pages s 0 = Some (Some p, s1)" "zero_page s1 p = Some s2"
  shows "kmap tx rx s2 (insert (p, 0) A) p"
proof -
  have s2: "buddy_inv s2 (insert (p, 0) A)" "same_geom s s2" "as_wf s2 p (insert (p, 0) A)" "\<forall>j<512. ent (pmem s2) p j = 0"
    using fresh_root [OF i(1) a(1)] a(2) by auto
  have "tbl (pmem s2) p j = None" if "j < 512" for j using s2(4) that by (simp add: tbl_def)
  then have "node_at (pmem s2) p x = (if x = Root then Some p else None)" for x by (cases x) auto
  then have "kent tx rx x j (ent (pmem s2) a j)" if "node_at (pmem s2) p x = Some a" "j < 512" for x a j
    using that s2(4) by (auto simp: kent_invalid split: if_splits)
  then show ?thesis using s2(1) as_wf_pt_wf [OF s2(3)] same_geom_phys [OF s2(2)] i(2) unfolding kmap_def by blast
qed

text \<open>
  C14. The kernel mapping. The page table of \<^verbatim>\<open>mmu::init\<close>, and that of a new process, maps every address it
  maps to itself and never for user mode. A page that can be executed lies in the text of the kernel and
  cannot be written. The guard page of the boot stack and the guard zones of the trap and idle
  stacks are not mapped (unless the serial port is there).
\<close>

theorem kernel_map_protected:
  assumes i: "buddy_inv s A" "phys_ok s" and ly: "layout_ok ly"
    and m: "mmu_init ly s = Some (root, satp, s') \<or> create_user_root ly s = Some (Ok root, s')"
  shows "\<exists>A'. buddy_inv s' A' \<and> pt_wf (pmem s') root A' \<and>
    (\<forall>v<2 ^ 39. \<forall>pa fl. translate s' root v = Some (pa, fl) \<longrightarrow> pa = v \<and> \<not> pte_user fl \<and>
       (fl AND PTE_X \<noteq> 0 \<longrightarrow> fl AND PTE_W = 0 \<and> ly_text_start ly \<le> v \<and> v - v mod 4096 < ly_rodata_start ly)) \<and>
    (\<forall>v<2 ^ 39. guard_page ly v \<and> v div 4096 \<noteq> ly_uart_base ly div 4096 \<longrightarrow> \<not> is_mapped s' root v)"
proof -
  obtain s1 s2 where a: "alloc_pages s 0 = Some (Some root, s1)" "zero_page s1 root = Some s2" "map_kernel_region ly s2 root = Some s'"
    using m by (auto simp: mmu_init_def create_user_root_def bind_eq_Some_conv expect_ok_Some qmark_eq_Some ok_or_def split: option.split_asm)
  obtain A' where A': "kmap (ly_text_start ly) (ly_rodata_start ly) s' A' root"
    "\<forall>w<2 ^ 39. guard_page ly w \<and> w div 4096 \<noteq> ly_uart_base ly div 4096 \<longrightarrow> leaf_pte s' root w = 0"
    using map_kernel_region_kmap [OF fresh_kmap [OF i a(1,2)] ly a(3)] by blast
  have bits: "PTE_X = 2 ^ 3" "PTE_W = 2 ^ 2" by (simp_all add: PTE_X_def PTE_W_def)
  have "pa = v \<and> \<not> pte_user fl \<and> (fl AND PTE_X \<noteq> 0 \<longrightarrow> fl AND PTE_W = 0 \<and> ly_text_start ly \<le> v \<and> v - v mod 4096 < ly_rodata_start ly)"
    if "v < 2 ^ 39" "translate s' root v = Some (pa, fl)" for v pa fl
    using kmap_translate [OF A'(1) that] and_bit_test [of fl 3] and_bit_test [of fl 2] unfolding bits by auto
  moreover have "\<not> is_mapped s' root v" if "v < 2 ^ 39" "guard_page ly v" "v div 4096 \<noteq> ly_uart_base ly div 4096" for v
    using A'(2) that by (simp add: is_mapped_def)
  ultimately show ?thesis using kmapD(1,3) [OF A'(1)] by blast
qed

section \<open>A concrete kernel\<close>

lemma take_zero_page:
  assumes r: "buddy_rel s F B R" "x \<in> F"
  obtains i cur s1 s2 where "alloc_pages s 0 = Some (Some (page_addr s i), s1)" "zero_page s1 (page_addr s i) = Some s2"
    "buddy_rel s2 (F - {(i, cur)} \<union> {(i + 2 ^ c, c) | c. c < cur}) (insert (i, 0) B) R" "(i, cur) \<in> F"
    "(page_addr s i, 0) \<notin> block_region s ` B" "same_geom s s2" "\<forall>j<512. ent (pmem s2) (page_addr s i) j = 0"
    "\<forall>b\<in>block_region s ` B. \<forall>x\<in>region b. pmem s2 x = pmem s x"
proof -
  have inv: "buddy_inv s (block_region s ` B)" using r by (auto simp: buddy_inv_def)
  obtain y q where y: "(y, q) \<in> F" using r(2) by (cases x) simp
  obtain i cur s1 F' where a: "alloc s 0 = Some (Some (page_addr s i), s1)" "(i, cur) \<in> F"
    "buddy_rel s1 F' (insert (i, 0) B) R" "F' = F - {(i, cur)} \<union> {(i + 2 ^ c, c) | c. 0 \<le> c \<and> c < cur}"
    by (rule alloc_some_relE [OF r(1) le0 y le0]) (rule that; assumption)
  let ?p = "page_addr s i"
  have g: "same_geom s s1" by (rule alloc_geom [OF inv a(1)])
  obtain s2 where s2: "zero_page s1 ?p = Some s2" "same_geom s s2" "\<forall>j<512. ent (pmem s2) ?p j = 0"
    "(?p, 0) \<notin> block_region s ` B" "\<forall>b\<in>block_region s ` B. \<forall>x\<in>region b. pmem s2 x = pmem s x"
    using fresh_root [OF inv, of ?p s1] a(1) by (auto simp: alloc_pages_def)
  have out: "pmem s2 x = pmem s1 x" if "x \<notin> region (?p, 0)" for x
    using s2(1) that by (auto simp: zero_page_def zero_words_eq bind_eq_Some_conv)
  have "buddy_rel (s1\<lparr>pmem := pmem s2\<rparr>) F' (insert (i, 0) B) R"
    by (rule buddy_rel_store [OF a(3)]) (use out g in \<open>auto simp: block_region_def page_addr_def same_geom_def\<close>)
  moreover have "s1\<lparr>pmem := pmem s2\<rparr> = s2" using s2(1) by (auto simp: zero_page_def bind_eq_Some_conv)
  ultimately show ?thesis using that [of i s1 s2 cur] a s2 by (simp add: alloc_pages_def)
qed


lemma ensure_table_alloc:
  assumes r: "buddy_rel s F B R" "x \<in> F" and t: "(t, 0) \<in> block_region s ` B" "k < 512" "\<not> pte_valid (ent (pmem s) t k)"
  obtains p i cur s' where "ensure_table s t k = Some (Ok p, s')" "(i, cur) \<in> F"
    "buddy_rel s' (F - {(i, cur)} \<union> {(i + 2 ^ c, c) | c. c < cur}) (insert (i, 0) B) R"
    "(p, 0) \<in> block_region s' ` insert (i, 0) B" "\<forall>j<512. ent (pmem s') p j = 0"
proof -
  obtain i cur s1 s2 where a: "alloc_pages s 0 = Some (Some (page_addr s i), s1)" "zero_page s1 (page_addr s i) = Some s2"
    "buddy_rel s2 (F - {(i, cur)} \<union> {(i + 2 ^ c, c) | c. c < cur}) (insert (i, 0) B) R" "(i, cur) \<in> F"
    "(page_addr s i, 0) \<notin> block_region s ` B" "same_geom s s2" "\<forall>j<512. ent (pmem s2) (page_addr s i) j = 0"
    by (rule take_zero_page [OF r]) (rule that; assumption)
  let ?p = "page_addr s i"
  let ?s = "pte_write s2 t k (pte ?p PTE_V)"
  have reg: "block_region s2 = block_region s" by (rule same_geom_region [OF a(6)])
  have p: "block_region s (i, 0) = (?p, 0)" by (simp add: block_region_def)
  have inv: "buddy_inv s2 (block_region s2 ` insert (i, 0) B)" using a(3) by (auto simp: buddy_inv_def)
  have t2: "(t, 0) \<in> block_region s2 ` insert (i, 0) B" using t(1) reg by simp
  have "t \<noteq> ?p" using t(1) a(5) by auto
  then have sep: "region (t, 0) \<inter> region (?p, 0) = {}"
    by (intro apartD [OF buddy_inv_apart [OF inv] t2]) (use reg p in auto)
  have "ent (pmem ?s) ?p j = 0" if "j < 512" for j
    unfolding pte_write_pmem using ent_store64 [OF disjI2 [OF sep] t(2) that] a(7) that \<open>t \<noteq> ?p\<close> by simp
  moreover have "buddy_rel ?s (F - {(i, cur)} \<union> {(i + 2 ^ c, c) | c. c < cur}) (insert (i, 0) B) R"
    unfolding pte_write_def
  proof (rule buddy_rel_store [OF a(3)])
    fix y assume "y \<notin> (\<Union>b\<in>block_region s2 ` insert (i, 0) B. region b)"
    then have "y \<notin> region (t, 0)" using t2 by blast
    then show "store64 (pmem s2) (t + 8 * k) (pte ?p PTE_V) y = pmem s2 y" by (intro store64_other) (use t(2) in auto)
  qed
  moreover have "ensure_table s t k = Some (Ok ?p, ?s)" using t(3) a(1,2) by (simp add: ensure_table_def pte_read_ent)
  moreover have "block_region ?s = block_region s2" by (rule same_geom_region) (simp add: same_geom_def pte_write_def)
  then have "(?p, 0) \<in> block_region ?s ` insert (i, 0) B" using reg p by auto
  ultimately show ?thesis using that a(4) by blast
qed

definition demo_layout :: layout where
  "demo_layout = \<lparr>ly_ram_start = 0x80000000, ly_ram_end = 0x80000000, ly_kernel_start = 0x80000000, ly_text_start = 0x80000000,
     ly_rodata_start = 0x80000000, ly_data_start = 0x80000000, ly_kernel_end = 0x80000000, ly_stack_guard = 0x80000000,
     ly_trap_base = 0x80000000, ly_trap_top = 0x80000000, ly_idle_base = 0x80000000, ly_idle_top = 0x80000000,
     ly_uart_base = 0x10000000\<rparr>"

theorem kernel_map_protected_witness:
  "\<exists>root satp s' A. mmu_init demo_layout demo_mm = Some (root, satp, s') \<and> buddy_inv s' A \<and> \<not> is_mapped s' root 0x80000000"
proof -
  let ?F = "\<lambda>F i cur. F - {(i, cur)} \<union> {(i + 2 ^ c, c) | c. c < cur}"
  obtain i cur s1 s2 where a: "alloc_pages demo_mm 0 = Some (Some (page_addr demo_mm i), s1)" "zero_page s1 (page_addr demo_mm i) = Some s2"
    "buddy_rel s2 (?F {(0, 12)} i cur) {(i, 0)} {}" "(i, cur) \<in> {(0, 12)}" "same_geom demo_mm s2" "\<forall>j<512. ent (pmem s2) (page_addr demo_mm i) j = 0"
    by (rule take_zero_page [OF demo_rel insertI1]) (rule that; assumption)
  define root where "root = page_addr demo_mm i"
  note a = a [folded root_def]
  have F: "?F {(0, 12)} i cur = {(2 ^ c, c) | c. c < 12}" using a(4) by auto
  have root: "(root, 0) \<in> block_region s2 ` {(i, 0)}"
    using a(5) by (simp add: root_def block_region_def page_addr_def same_geom_def)
  have one: "(1, 0) \<in> {(2 ^ c, c) |c. c < (12::nat)}" by (auto intro!: exI [of _ 0])
  have n1: "\<not> pte_valid (ent (pmem s2) root (vpn2 0x10000000))" using a(6) by simp
  obtain t1 j1 c1 s3 where t1: "ensure_table s2 root (vpn2 0x10000000) = Some (Ok t1, s3)" "(j1, c1) \<in> {(2 ^ c, c) | c. c < 12}"
    "buddy_rel s3 (?F {(2 ^ c, c) | c. c < 12} j1 c1) {(j1, 0), (i, 0)} {}" "(t1, 0) \<in> block_region s3 ` {(j1, 0), (i, 0)}"
    "\<forall>j<512. ent (pmem s3) t1 j = 0"
    by (rule ensure_table_alloc [OF a(3) [unfolded F] one root vpn_bounds(1) n1]) (rule that; assumption)
  obtain x where x: "x \<in> ?F {(2 ^ c, c) | c. c < 12} j1 c1"
  proof (cases "(j1, c1) = (1, 0)")
    case True
    then show ?thesis by (intro that [of "(2, 1)"]) (auto intro!: exI [of _ "1::nat"])
  qed (use that [of "(1, 0)"] in \<open>auto intro!: exI [of _ "0::nat"]\<close>)
  have n2: "\<not> pte_valid (ent (pmem s3) t1 (vpn1 0x10000000))" using t1(5) by simp
  obtain t0 s4 where t0: "ensure_table s3 t1 (vpn1 0x10000000) = Some (Ok t0, s4)"
    by (rule ensure_table_alloc [OF t1(3) x t1(4) vpn_bounds(2) n2]) (rule that; assumption)
  let ?s = "pte_write s4 t0 (vpn0 0x10000000) (pte 0x10000000 PTE_LEAF_RW)"
  have "map_4k s2 root 0x10000000 0x10000000 PTE_LEAF_RW = Some (Ok (), ?s)" using t1(1) t0 by (simp add: map_4k_def)
  moreover have "leaf_pte s2 root 0x80000000 = 0" using a(6) by (simp add: leaf_pte_pt_leaf pt_leaf_def)
  ultimately have "map_kernel_region demo_layout s2 root = Some ?s"
    by (simp add: map_kernel_region_def demo_layout_def map_supers.simps map_region_4k_def map_region_4k_from.simps umul_def div_ceil_def
        unmap_4k_def unmap_guard_pages.simps)
  then have run: "mmu_init demo_layout demo_mm = Some (root, satp_of root, ?s)" using a(1,2) by (simp add: mmu_init_def)
  have "buddy_inv demo_mm {}" using demo_rel by (auto simp: buddy_inv_def)
  moreover have "phys_ok demo_mm" by (simp add: phys_ok_def demo_mm_def)
  moreover have "layout_ok demo_layout" by (simp add: layout_ok_def demo_layout_def)
  moreover have "guard_page demo_layout 0x80000000" "ly_uart_base demo_layout = 0x10000000" by (simp_all add: guard_page_def demo_layout_def)
  ultimately obtain A where "buddy_inv ?s A" "\<not> is_mapped ?s root 0x80000000"
    using kernel_map_protected [OF _ _ _ disjI1 [OF run]] by (fastforce dest: spec [of _ "0x80000000 :: nat"])
  then show ?thesis using run by blast
qed

end
