(* ===== verification/User_Space.thy ===== *)
theory User_Space
  imports User_Mem Kernel_Map
begin

text \<open>
  How the calls \<^verbatim>\<open>mem_map\<close> and \<^verbatim>\<open>mem_grant\<close> change the memory a process sees: one page appears or
  disappears, and every other page stays as it is.
\<close>

section \<open>One leaf entry\<close>

lemma leaf_page_va:
  assumes "i < 512" "j < 512" "k < 512"
  shows "page_va i j k < 2 ^ 39" "leaf_of (page_va i j k) = Leaf i j k"
proof -
  have e: "page_va i j k div 2 ^ 30 = i" "page_va i j k div 2 ^ 21 = i * 512 + j" "page_va i j k div 2 ^ 12 = (i * 512 + j) * 512 + k"
    using assms by (simp_all add: page_va_def)
  show "page_va i j k < 2 ^ 39" using assms by (simp add: page_va_def)
  show "leaf_of (page_va i j k) = Leaf i j k" unfolding vpn2_def vpn1_def vpn0_def e
    using assms mod_mult_self3 [of "i * 512 + j" 512 k] mod_mult_self3 [of i 512 j] by (simp only: item.inject mod_less)
qed

lemma own_LeafE:
  assumes "own_at s root (Leaf i j k) = Some a"
  obtains w where "w < 2 ^ 39" "Leaf i j k = leaf_of w"
proof -
  have "i < 512" "j < 512" "k < 512" using assms by (auto split: if_splits simp: bind_eq_Some_conv)
  then show ?thesis using leaf_page_va that by metis
qed

text \<open>
  The table tree may grow and the leaf of one page may change (when \<open>c\<close> holds) to an entry for a page
  that is handed out and not used by the address space.
\<close>

lemma space_change:
  assumes k: "space_ok s root A"
    and s': "buddy_inv s' A'" "A \<subseteq> A'" "pt_wf (pmem s') root A'" "same_geom s s'"
    and keep: "\<And>b x. b \<in> A \<Longrightarrow> (\<And>x. node_at (pmem s) root x \<noteq> Some (fst b)) \<Longrightarrow> node_at (pmem s') root x \<noteq> Some (fst b)"
    and nodes: "\<And>x a. node_at (pmem s) root x = Some a \<Longrightarrow> node_at (pmem s') root x = Some a"
    and leaf: "\<And>w. w < 2 ^ 39 \<Longrightarrow> leaf_pte s' root w = (if c \<and> w div 4096 = v div 4096 then e else leaf_pte s root w)"
    and v: "v < 2 ^ 39" "c \<Longrightarrow> node_at (pmem s') root (N0 (vpn2 v) (vpn1 v)) \<noteq> None"
    and e: "c \<Longrightarrow> pte_user e \<Longrightarrow> (pte_addr e, 0) \<in> A \<and> (\<forall>x. own_at s root x \<noteq> Some (pte_addr e))"
  shows "space_ok s' root A'"
proof -
  note d = space_okD [OF k]
  have ram: "ram_leaf s' x = ram_leaf s x" for x using s'(4) by (simp add: ram_leaf_def in_ram_def same_geom_def)
  have page: "w div 4096 = v div 4096 \<longleftrightarrow> leaf_of w = leaf_of v" if "w < 2 ^ 39" for w
    using vpn_eq_iff [OF that v(1)] by auto
  have sm: "small_leaves s' root" unfolding small_leaves_def
  proof (intro allI impI)
    fix w :: nat assume w: "w < 2 ^ 39" "pte_user (leaf_pte s' root w)"
    show "node_at (pmem s') root (N0 (vpn2 w) (vpn1 w)) \<noteq> None"
    proof (cases "c \<and> w div 4096 = v div 4096")
      case True
      then show ?thesis using v(2) page [OF w(1)] by simp
    next
      case False
      then have "pte_user (leaf_pte s root w)" using w(2) unfolding leaf [OF w(1)] by (simp only: if_False)
      then show ?thesis using d(5) w(1) nodes unfolding small_leaves_def by fastforce
    qed
  qed
  have own: "own_at s' root (leaf_of w) =
      (if c \<and> leaf_of w = leaf_of v then if ram_leaf s e then Some (pte_addr e) else None else own_at s root (leaf_of w))"
    if "w < 2 ^ 39" for w
    using own_leaf_pte [OF sm that] own_leaf_pte [OF d(5) that] page [OF that]
    unfolding leaf [OF that] ram Let_def by auto
  have old: "(a, 0) \<in> A \<and> (\<forall>x. node_at (pmem s) root x \<noteq> Some a)" if "own_at s' root (Leaf i j l) = Some a" for i j l a
  proof -
    obtain w where w: "w < 2 ^ 39" "Leaf i j l = leaf_of w" by (rule own_LeafE [OF \<open>own_at s' root (Leaf i j l) = Some a\<close>])
    show ?thesis
    proof (cases "c \<and> leaf_of w = leaf_of v")
      case True
      then have "a = pte_addr e" "pte_user e" using that own [OF w(1)] w(2) by (auto simp: ram_leaf_def split: if_splits)
      then show ?thesis using e True own_at.simps(1) by metis
    next
      case False
      then have "own_at s root (leaf_of w) = Some a" using that own [OF w(1)] unfolding w(2) by (simp only: if_False)
      then show ?thesis using as_wfD [OF d(2)] own_at.simps(1) item.distinct(1) by metis
    qed
  qed
  have "as_wf s' root A'" unfolding as_wf_def
  proof (intro conjI allI impI)
    show in': "(a, 0) \<in> A'" if "own_at s' root x = Some a" for x a
      using that s'(2) old pt_wf_owned [OF s'(3)] by (cases x) auto
    fix x y a assume xy: "own_at s' root x = Some a" "own_at s' root y = Some a"
    have nl: False if "own_at s' root (Node n) = Some a" "own_at s' root (Leaf i j l) = Some a" for n i j l
      using that keep [of "(a, 0)" n] old [OF that(2)] by simp
    show "x = y"
    proof (cases x; cases y)
      fix i j l i' j' l' assume l: "x = Leaf i j l" "y = Leaf i' j' l'"
      obtain w where w: "w < 2 ^ 39" "x = leaf_of w" using own_LeafE xy(1) l(1) by metis
      obtain w' where w': "w' < 2 ^ 39" "y = leaf_of w'" using own_LeafE xy(2) l(2) by metis
      have u: "own_at s root z \<noteq> Some a" if "c" "ram_leaf s e" "a = pte_addr e" for z
        using e that by (simp add: ram_leaf_def)
      note ox = own [OF w(1), folded w(2)] and oy = own [OF w'(1), folded w'(2)]
      show "x = y"
      proof (rule ccontr)
        assume n: "x \<noteq> y"
        have "own_at s root x = Some a \<or> c \<and> x = leaf_of v \<and> ram_leaf s e \<and> a = pte_addr e"
          using ox xy(1) by (auto simp del: own_at.simps split: if_splits)
        moreover have "own_at s root y = Some a \<or> c \<and> y = leaf_of v \<and> ram_leaf s e \<and> a = pte_addr e"
          using oy xy(2) by (auto simp del: own_at.simps split: if_splits)
        ultimately show False using n u as_wfD(2) [OF d(2)] by blast
      qed
    qed (use xy nl pt_wf_inj [OF s'(3)] in auto)
  qed
  then show ?thesis using s'(1) sm by (simp add: space_ok_def)
qed

section \<open>Mapping and unmapping\<close>

definition leaf_change ::
  "mm \<Rightarrow> (nat \<times> nat) set \<Rightarrow> mm \<Rightarrow> (nat \<times> nat) set \<Rightarrow> usize \<Rightarrow> bool \<Rightarrow> usize \<Rightarrow> u64 \<Rightarrow> bool" where
  "leaf_change s A s' A' root c v e \<longleftrightarrow> space_ok s' root A' \<and> A \<subseteq> A' \<and> same_geom s s' \<and>
     (\<forall>w<2 ^ 39. leaf_pte s' root w = (if c \<and> w div 4096 = v div 4096 then e else leaf_pte s root w)) \<and>
     (\<forall>b\<in>A. (\<forall>x. node_at (pmem s) root x \<noteq> Some (fst b)) \<longrightarrow>
        (\<forall>x\<in>region b. pmem s' x = pmem s x) \<and> (\<forall>x. node_at (pmem s') root x \<noteq> Some (fst b)))"

lemma leaf_changeD:
  assumes "leaf_change s A s' A' root c v e"
  shows "space_ok s' root A'" "A \<subseteq> A'" "same_geom s s'"
    and "\<And>w. w < 2 ^ 39 \<Longrightarrow> leaf_pte s' root w = (if c \<and> w div 4096 = v div 4096 then e else leaf_pte s root w)"
    and "\<And>b x. b \<in> A \<Longrightarrow> (\<And>x. node_at (pmem s) root x \<noteq> Some (fst b)) \<Longrightarrow> x \<in> region b \<Longrightarrow> pmem s' x = pmem s x"
    and "\<And>b x. b \<in> A \<Longrightarrow> (\<And>x. node_at (pmem s) root x \<noteq> Some (fst b)) \<Longrightarrow> node_at (pmem s') root x \<noteq> Some (fst b)"
  using assms unfolding leaf_change_def by blast+

lemma leaf_set_change:
  assumes k: "space_ok s root A" and v: "v < 2 ^ 39" and l: "leaf_set s A s' A' root v e"
    and e: "pte_user e \<Longrightarrow> (pte_addr e, 0) \<in> A \<and> (\<forall>x. own_at s root x \<noteq> Some (pte_addr e))"
  shows "leaf_change s A s' A' root True v e"
proof -
  note l = l [unfolded leaf_set_def]
  have "space_ok s' root A'"
    by (rule space_change [OF k, where v = v and c = True and e = e]) (use l v e in \<open>simp_all del: node_at.simps\<close>)
  then show ?thesis using l unfolding leaf_change_def by (simp del: node_at.simps)
qed

lemma pt_ext_change:
  assumes k: "space_ok s root A" and x: "pt_ext s A s' A' root"
  shows "leaf_change s A s' A' root False v e"
proof -
  note d = pt_extD [OF x]
  have l: "leaf_pte s' root w = leaf_pte s root w" for w
    unfolding leaf_pte_pt_leaf by (rule d(5)) simp_all
  have "space_ok s' root A'"
    by (rule space_change [OF k d(1-4), where v = 0 and c = False and e = e])
      (use l d(6) fresh_node_apart [OF x] in \<open>simp_all del: node_at.simps\<close>)
  then show ?thesis using l d(2,4,8) fresh_node_apart [OF x] unfolding leaf_change_def by (simp del: node_at.simps)
qed

lemma map_page_change:
  assumes k: "space_ok s root A" "phys_ok s" and v: "v < 2 ^ 38"
    and p: "(p, 0) \<in> A" "\<And>x. own_at s root x \<noteq> Some p" and f: "take_bit 10 f = f" "pte_valid f"
  obtains (ok) s' A' where "map_user_page s root v p f = Some (Ok (), s')" "\<not> is_mapped s root v"
      "leaf_change s A s' A' root True v (pte p (f OR PTE_U))"
    | (err) s' A' where "map_user_page s root v p f = Some (Err (), s')" "leaf_change s A s' A' root False v 0"
      "is_mapped s root v \<or> free_page_count s' = Some 0"
proof -
  note d = space_okD [OF k(1)]
  note o = owned_page [OF d(1) p(1) k(2)]
  have fU: "take_bit 10 (f OR PTE_U) = f OR PTE_U" using f(1) by (simp add: take_bit_or PTE_U_def)
  have val: "pte_valid (pte p (f OR PTE_U))"
    using f(2) by (auto simp: pte_valid_bit pte_flag_bits bit_or_iff)
  have addr: "pte_addr (pte p (f OR PTE_U)) = p" by (rule pte_addr_pte [OF o(1,2) fU])
  have eq: "map_user_page s root v p f = map_user_leaf s root v p f"
    using v o by (simp add: map_user_page_def)
  have v39: "v < 2 ^ 39" using v by simp
  show ?thesis
  proof (rule map_user_leaf_ok [OF d(1) k(2) d(4) v39, of p f])
    fix s' A' assume m: "map_user_leaf s root v p f = Some (Ok (), s')" "\<not> is_mapped s root v"
      and l: "leaf_set s A s' A' root v (if pte_valid (pte p (f OR PTE_U)) then pte p (f OR PTE_U) else 0)"
    have "leaf_change s A s' A' root True v (pte p (f OR PTE_U))"
      by (rule leaf_set_change [OF k(1) v39]) (use l val p addr in simp_all)
    then show ?thesis using ok m eq by simp
  next
    fix s' A' assume m: "map_user_leaf s root v p f = Some (Err (), s')" "pt_ext s A s' A' root"
      "is_mapped s root v \<or> free_page_count s' = Some 0"
    then show ?thesis using eq pt_ext_change [OF k(1) m(2)] by (intro err [of s' A']) simp_all
  qed
qed

lemma unmap_page_change:
  assumes k: "space_ok s root A" and v: "v < 2 ^ 39" and u: "pte_user (leaf_pte s root v)"
  obtains s' where "unmap_4k s root v = Some (Ok (), s')" "leaf_change s A s' A root True v 0"
proof -
  note d = space_okD [OF k]
  obtain n where n: "node_at (pmem s) root (N0 (vpn2 v) (vpn1 v)) = Some n"
    using d(5) v u unfolding small_leaves_def by blast
  have l: "leaf_pte s root v \<noteq> 0" using u by auto
  obtain s' where s': "unmap_4k s root v = Some (Ok (), s')" "leaf_set s A s' A root v 0"
    using unmap_4k_node [OF d(1,4) v l n] by blast
  have "leaf_change s A s' A root True v 0" by (rule leaf_set_change [OF k v s'(2)]) simp
  then show ?thesis using that s'(1) by blast
qed

text \<open>The memory seen through the address space, after a change.\<close>

lemma ram_leaf_geom: "same_geom s s' \<Longrightarrow> ram_leaf s' e = ram_leaf s e"
  by (simp add: ram_leaf_def in_ram_def same_geom_def)

lemma change_own:
  assumes k: "space_ok s root A" and l: "leaf_change s A s' A' root c v e" and v: "v < 2 ^ 39"
    and a: "own_at s' root x = Some a" "(a, 0) \<in> A"
  shows "(\<exists>y. own_at s root y = Some a \<and> \<not> (c \<and> y = leaf_of v)) \<or> c \<and> ram_leaf s e \<and> a = pte_addr e"
proof (cases x)
  case (Node n)
  then obtain m where "node_at (pmem s) root m = Some a" using leaf_changeD(6) [OF l a(2), of n] a(1) by auto
  then have "own_at s root (Node m) = Some a" by simp
  then show ?thesis by blast
next
  case (Leaf i j t)
  note d = leaf_changeD [OF l]
  obtain w where w: "w < 2 ^ 39" "x = leaf_of w" using own_LeafE [of s' root i j t a] a(1) Leaf by metis
  have o: "ram_leaf s (leaf_pte s' root w)" "a = pte_addr (leaf_pte s' root w)"
    using a(1) unfolding w(2) own_leaf_pte [OF space_okD(5) [OF d(1)] w(1)] ram_leaf_geom [OF d(3)] Let_def
    by (auto split: if_splits)
  have page: "w div 4096 = v div 4096 \<longleftrightarrow> x = leaf_of v" using vpn_eq_iff [OF w(1) v] w(2) by auto
  show ?thesis
  proof (cases "c \<and> w div 4096 = v div 4096")
    case True
    then have "leaf_pte s' root w = e" using d(4) [OF w(1)] by simp
    then show ?thesis using o True by simp
  next
    case False
    then have "leaf_pte s' root w = leaf_pte s root w" unfolding d(4) [OF w(1)] by (simp only: if_False)
    then have "own_at s root x = Some a"
      using o unfolding w(2) own_leaf_pte [OF space_okD(5) [OF k] w(1)] Let_def by simp
    then show ?thesis using False page by blast
  qed
qed

lemma change_access:
  assumes k: "space_ok s root A" and l: "leaf_change s A s' A' root c v e" and w: "\<not> (c \<and> w div 4096 = v div 4096)"
  shows "user_access s' root perm w = user_access s root perm w"
proof (cases "w < 2 ^ 38")
  case True
  note d = leaf_changeD [OF l]
  have "leaf_pte s' root w = leaf_pte s root w" using d(4) [of w] w True by auto
  then show ?thesis unfolding access_leaf_pte [OF d(1)] access_leaf_pte [OF k] ram_leaf_geom [OF d(3)] by simp
qed (simp add: user_access_def)

lemma change_bytes:
  assumes k: "space_ok s root A" and l: "leaf_change s A s' A' root c v e" and a: "user_access s root perm w = Some pa"
  shows "pmem s' pa = pmem s pa"
proof -
  obtain p where p: "own_at s root (leaf_of w) = Some p" "pa = p + w mod 4096" "(p, 0) \<in> A" "w < 2 ^ 38"
    by (rule access_leaf [OF k a])
  have "node_at (pmem s) root x \<noteq> Some p" for x
    using as_wfD(2) [OF space_okD(2) [OF k] p(1), of "Node x"] by auto
  then show ?thesis using leaf_changeD(5) [OF l p(3), of pa] p(2) by simp
qed

lemma change_view:
  assumes k: "pid_root k pid = Some root" "space_ok (k_mm k) root A"
    and k': "pid_root k' pid = Some root" "leaf_change (k_mm k) A (k_mm k') A' root c v e"
    and w: "\<not> (c \<and> w div 4096 = v div 4096)"
  shows "user_load pid w k' = user_load pid w k" "user_writable pid k' w = user_writable pid k w"
proof -
  have "proc_access pid k' perm w = proc_access pid k perm w" for perm
    using k(1) k'(1) change_access [OF k(2) k'(2) w] by (simp add: proc_access_def)
  moreover have "pmem (k_mm k') pa = pmem (k_mm k) pa" if "proc_access pid k PTE_R w = Some pa" for pa
    using that k(1) change_bytes [OF k(2) k'(2)] by (simp add: proc_access_def)
  ultimately show "user_load pid w k' = user_load pid w k" "user_writable pid k' w = user_writable pid k w"
    by (auto simp: user_load_def user_writable_def intro: option.map_cong)
qed

text \<open>A leaf of \<^verbatim>\<open>mem_map\<close> is readable and writable memory.\<close>

definition rw_leaf :: "usize \<Rightarrow> u64" where
  "rw_leaf p = pte p (MAP_FLAGS OR PTE_U)"

lemma rw_leaf_bits:
  assumes "p mod 4096 = 0" "p < 2 ^ 56"
  shows "pte_addr (rw_leaf p) = p" "pte_valid (rw_leaf p)" "pte_user (rw_leaf p)"
    "take_bit 10 (rw_leaf p) AND PTE_R \<noteq> 0" "take_bit 10 (rw_leaf p) AND PTE_W \<noteq> 0"
proof -
  have f: "take_bit 10 (MAP_FLAGS OR PTE_U) = MAP_FLAGS OR PTE_U" by (simp add: MAP_FLAGS_def PTE_U_def)
  show "pte_addr (rw_leaf p) = p" unfolding rw_leaf_def by (rule pte_addr_pte [OF assms f])
  have b: "bit (rw_leaf p) n \<longleftrightarrow> bit (MAP_FLAGS OR PTE_U) n" if "n < 10" for n
    using that by (simp add: rw_leaf_def pte_flag_bits)
  show "pte_valid (rw_leaf p)" "pte_user (rw_leaf p)"
    by (simp_all add: pte_valid_bit pte_user_bit b MAP_FLAGS_def PTE_U_def bit_numeral_rec)
  have "PTE_R = 2 ^ 1" "PTE_W = 2 ^ 2" by (simp_all add: PTE_R_def PTE_W_def)
  then show "take_bit 10 (rw_leaf p) AND PTE_R \<noteq> 0" "take_bit 10 (rw_leaf p) AND PTE_W \<noteq> 0"
    using and_bit_test [of "take_bit 10 (rw_leaf p)" 1] and_bit_test [of "take_bit 10 (rw_leaf p)" 2]
    by (simp_all add: bit_take_bit_iff b MAP_FLAGS_def PTE_U_def bit_numeral_rec)
qed

lemma rw_leaf_window:
  assumes k: "pid_root k pid = Some root" "space_ok (k_mm k) root A" "phys_ok (k_mm k)"
    and p: "(p, 0) \<in> A" and v: "v mod 4096 = 0" "v + 4096 \<le> 2 ^ 38" "leaf_pte (k_mm k) root v = rw_leaf p"
  shows "window (user_writable pid k) v 4096"
proof -
  note o = owned_page [OF space_okD(1) [OF k(2)] p k(3)]
  note r = rw_leaf_bits [OF o(1,2)]
  have ram: "ram_leaf (k_mm k) (rw_leaf p)"
    using o(3) page_in_range_eq [OF k(3), of p] r by (simp add: ram_leaf_def)
  have "user_writable pid k (v + i)" if i: "i < 4096" for i
  proof -
    obtain q where "v = 4096 * q" using v(1) by auto
    then have e: "(v + i) div 4096 = v div 4096" using i by simp
    have "leaf_pte (k_mm k) root (v + i) = rw_leaf p"
      using vpn_eq_iff [of "v + i" v] e i v(2,3) by (simp add: leaf_pte_pt_leaf)
    then show ?thesis using k(1) ram r(4,5) v(2) i
      by (simp add: user_writable_def proc_access_def access_leaf_pte [OF k(2)] Let_def)
  qed
  then show ?thesis by (simp add: window_def)
qed

end
