(* ===== verification/Page_Calls.thy ===== *)
theory Page_Calls
  imports User_Space
begin

text \<open>
  The calls \<^verbatim>\<open>mem_grant\<close> and \<^verbatim>\<open>mem_map\<close> when their preconditions hold: they return, and what they do to
  capabilities, page records, address spaces and memory.
\<close>

lemma put_caps_frame:
  assumes "k_wf k" "get_proc k pid = Some p"
  shows "k_mm (put_proc k pid (p\<lparr>p_caps := cs\<rparr>)) = k_mm k" "pid_root (put_proc k pid (p\<lparr>p_caps := cs\<rparr>)) i = pid_root k i"
proof -
  have "p_id p = pid" using assms(2) by (auto simp: get_proc_def dest: get_slot_ident)
  then show "pid_root (put_proc k pid (p\<lparr>p_caps := cs\<rparr>)) i = pid_root k i"
    using get_proc_put [OF assms, of "p\<lparr>p_caps := cs\<rparr>" i] assms(2) by (simp add: pid_root_def)
qed (simp add: put_proc_def)

lemma grant_typed_cap_mm:
  assumes "k_wf k" "grant_typed_cap k pid slot c = (r, k')"
  shows "k_mm k' = k_mm k" "pid_root k' i = pid_root k i"
  using assms put_caps_frame by (auto simp: grant_typed_cap_def split: option.split_asm if_splits)

lemma clear_cap_mm:
  assumes "k_wf k"
  shows "k_mm (snd (clear_cap k pid slot)) = k_mm k" "pid_root (snd (clear_cap k pid slot)) i = pid_root k i"
  using assms put_caps_frame by (auto simp: clear_cap_def split: option.split)

lemma get_page_mm [simp]: "get_page (k\<lparr>k_mm := m\<rparr>) = get_page k"
  by (simp add: get_page_def fun_eq_iff)

text \<open>The memory after the unmapping that goes with a grant.\<close>

definition grant_unmap :: "kernel \<Rightarrow> page_record \<Rightarrow> mm option" where
  "grant_unmap k rec =
     (case pr_map_va rec of
        Some va \<Rightarrow> (case pid_root k (pr_owner rec) of Some root \<Rightarrow> map_option snd (unmap_4k (k_mm k) root va) | None \<Rightarrow> Some (k_mm k))
      | None \<Rightarrow> Some (k_mm k))"

lemma pages_grant_eq:
  assumes "get_page k q = Some rec" "grant_unmap k rec = Some m"
  shows "pages_grant k q d =
    Some (Ok (), k\<lparr>k_pages := put_slot (k_pages k) q (rec\<lparr>pr_map_va := None, pr_owner := d\<rparr>), k_mm := m\<rparr>)"
proof -
  let ?k = "k\<lparr>k_pages := put_slot (k_pages k) q (rec\<lparr>pr_map_va := None, pr_owner := d\<rparr>)\<rparr>"
  have r: "pid_root ?k i = pid_root k i" for i by (simp add: pid_root_def get_proc_def)
  show ?thesis using assms
    by (auto simp: pages_grant_def grant_unmap_def r unmap_ok_def split: option.splits)
qed

lemma mem_grant_runs:
  assumes w: "k_wf k" and c: "cap_at k c src = Some (Page q)" "cap_at k c ps = Some (Proc d)"
    and d: "get_proc k d \<noteq> None" "dst < 8" "cap_at k d dst = None"
    and p: "get_page k q = Some rec" "grant_unmap k rec = Some m"
  obtains k' where "mem_grant k c src ps dst = Some (Ok (), k')" "k_wf k'" "k_mm k' = m" "\<And>i. pid_root k' i = pid_root k i"
    "get_page k' = (get_page k)(q \<mapsto> rec\<lparr>pr_owner := d, pr_map_va := None\<rparr>)"
    "\<And>i s. cap_at k' i s = (if i = c \<and> s = src then None else if i = d \<and> s = dst then Some (Page q) else cap_at k i s)"
proof -
  obtain k1 where k1: "pages_grant k q d = Some (Ok (), k1)" "k_mm k1 = m" "\<And>i. pid_root k1 i = pid_root k i"
    using pages_grant_eq [OF p, of d] by (simp add: pid_root_def get_proc_def)
  note g = pages_grant_ok [OF w k1(1)]
  have sl: "src < 8" "ps < 8" using c by (auto simp: cap_at_def split: if_splits)
  obtain k2 where k2: "grant_typed_cap k1 d dst (Page q) = (Ok (), k2)"
    using grant_typed_cap_cases [of k1 d dst "Page q"] g d by auto
  have w2: "k_wf k2" using grant_typed_cap_wf [of k1 d dst "Page q"] k2 g by simp
  let ?k = "snd (clear_cap k2 c src)"
  have mv: "mem_grant_move k c src q d dst = Some (Ok (), ?k)" using k1(1) k2 by (simp add: mem_grant_move_def)
  have run: "mem_grant k c src ps dst = Some (Ok (), ?k)"
    using c d sl mv by (simp add: mem_grant_def cap_target_cap_at pid_root_def)
  have mm: "k_mm ?k = m" "\<And>i. pid_root ?k i = pid_root k i"
    using clear_cap_mm [OF w2] grant_typed_cap_mm [OF _ k2] g k1 by auto
  show ?thesis
  proof (cases rule: mem_grant_move_ok [OF w d(1,2) mv])
    case (1 rec')
    then show ?thesis using that [OF run keepsD [OF mem_grant_wf [OF w] run] mm] p(1) by auto
  qed simp
qed

lemma mem_grant_occupied:
  assumes c: "cap_at k c src = Some (Page q)" "cap_at k c ps = Some (Proc d)"
    and d: "get_proc k d \<noteq> None" "dst < 8" "cap_at k d dst \<noteq> None"
  shows "mem_grant k c src ps dst = Some (Err SYS_ERR_EEXIST, k)"
proof -
  have sl: "src < 8" "ps < 8" using c by (auto simp: cap_at_def split: if_splits)
  then show ?thesis using c d by (auto simp: mem_grant_def cap_target_cap_at pid_root_def)
qed

lemma pages_map_mapped:
  assumes w: "k_wf k" and p: "get_page k q = Some rec" "pr_map_va rec = None"
  obtains k' where "pages_map k q va = (Ok (), k')" "k_wf k'" "k_mm k' = k_mm k" "\<And>i. pid_root k' i = pid_root k i"
    "get_page k' = (get_page k)(q \<mapsto> rec\<lparr>pr_map_va := Some va\<rparr>)" "cap_at k' = cap_at k"
proof -
  let ?r = "rec\<lparr>pr_map_va := Some va\<rparr>"
  let ?k = "k\<lparr>k_pages := put_slot (k_pages k) q ?r\<rparr>"
  have i: "pr_id rec = q" using p(1) by (auto simp: get_page_def dest: get_slot_ident)
  have "get_page ?k j = (if j = q then Some ?r else get_page k j)" for j
    using pages.put_ok(2,3) [OF k_wfD(3) [OF w], of q rec ?r] p(1) i by (auto simp: get_page_def)
  then have g: "get_page ?k = (get_page k)(q \<mapsto> ?r)" by (auto simp: fun_eq_iff)
  have wf: "k_wf ?k" by (rule k_wf_put_page [OF w p(1)]) (simp add: i)
  have m: "pages_map k q va = (Ok (), ?k)" using p by (simp add: pages_map_def)
  show ?thesis using that [OF m wf _ _ g] by (simp add: pid_root_def get_proc_def)
qed

lemma mem_map_runs:
  assumes w: "k_wf k" and c: "cap_at k c slot = Some (Page q)" and r: "pid_root k c = Some root"
    and s: "space_ok (k_mm k) root A" "phys_ok (k_mm k)" and v: "va mod 4096 = 0" "va < 2 ^ 38" "leaf_pte (k_mm k) root va = 0"
    and p: "get_page k q = Some rec" "pr_map_va rec = None" "(pr_paddr rec, 0) \<in> A" "\<And>x. own_at (k_mm k) root x \<noteq> Some (pr_paddr rec)"
  obtains (ok) k' A' where "mem_map k c slot va = Some (Ok (), k')" "k_wf k'" "\<And>i. pid_root k' i = pid_root k i"
      "get_page k' = (get_page k)(q \<mapsto> rec\<lparr>pr_map_va := Some va\<rparr>)" "cap_at k' = cap_at k"
      "leaf_change (k_mm k) A (k_mm k') A' root True va (rw_leaf (pr_paddr rec))"
  | (err) k' A' where "mem_map k c slot va = Some (Err SYS_ERR_EINVAL, k')" "k_wf k'" "\<And>i. pid_root k' i = pid_root k i"
      "get_page k' = get_page k" "cap_at k' = cap_at k" "leaf_change (k_mm k) A (k_mm k') A' root False va 0"
      "free_page_count (k_mm k') = Some 0"
proof -
  have sl: "slot < 8" using c by (auto simp: cap_at_def split: if_splits)
  have f: "take_bit 10 MAP_FLAGS = MAP_FLAGS" "pte_valid MAP_FLAGS" by (simp_all add: MAP_FLAGS_def pte_valid_def PTE_V_def)
  have um: "\<not> is_mapped (k_mm k) root va" using v(3) by (simp add: is_mapped_def)
  have eq: "mem_map k c slot va = mem_map_page k q root va (pr_paddr rec)"
    using c r v sl p by (simp add: mem_map_def cap_target_cap_at page_is_mapped_def page_paddr_def)
  show ?thesis
  proof (rule map_page_change [OF s v(2) p(3,4) f])
    fix s' A' assume m: "map_user_page (k_mm k) root va (pr_paddr rec) MAP_FLAGS = Some (Ok (), s')"
      "leaf_change (k_mm k) A s' A' root True va (pte (pr_paddr rec) (MAP_FLAGS OR PTE_U))"
    have w1: "k_wf (k\<lparr>k_mm := s'\<rparr>)" and p1: "get_page (k\<lparr>k_mm := s'\<rparr>) q = Some rec" using w p by simp_all
    obtain k' where k': "pages_map (k\<lparr>k_mm := s'\<rparr>) q va = (Ok (), k')" "k_wf k'" "k_mm k' = s'" "\<And>i. pid_root k' i = pid_root k i"
      "get_page k' = (get_page k)(q \<mapsto> rec\<lparr>pr_map_va := Some va\<rparr>)" "cap_at k' = cap_at k"
      by (rule pages_map_mapped [OF w1 p1 p(2), of va]) simp
    have "mem_map k c slot va = Some (Ok (), k')" unfolding eq mem_map_page_def using m(1) k'(1) by simp
    then show ?thesis using ok k' m(2) unfolding rw_leaf_def by blast
  next
    fix s' A' assume m: "map_user_page (k_mm k) root va (pr_paddr rec) MAP_FLAGS = Some (Err (), s')"
      "leaf_change (k_mm k) A s' A' root False va 0" "is_mapped (k_mm k) root va \<or> free_page_count s' = Some 0"
    have "mem_map k c slot va = Some (Err SYS_ERR_EINVAL, k\<lparr>k_mm := s'\<rparr>)" unfolding eq mem_map_page_def using m(1) by simp
    then show ?thesis using err [of "k\<lparr>k_mm := s'\<rparr>" A'] w m(2,3) um by simp
  qed
qed

end
