(* ===== verification/Revoke.thy ===== *)
theory Revoke
  imports Page_Calls
begin

text \<open>
  Several address spaces over one allocator: what happens to all of them when one of them is unmapped
  from, and when a page is released that none of them uses; and what revoking shared pages and page
  capabilities does to the kernel objects, to every address space and to the page allocator.
\<close>

section \<open>Address spaces side by side\<close>

text \<open>Every address space is in order, and the tables of one are not in use by another.\<close>

definition spaces :: "mm \<Rightarrow> usize set \<Rightarrow> (nat \<times> nat) set \<Rightarrow> bool" where
  "spaces m R A \<longleftrightarrow> phys_ok m \<and> buddy_inv m A \<and> (\<forall>r\<in>R. space_ok m r A) \<and>
     (\<forall>r\<in>R. \<forall>r'\<in>R. r \<noteq> r' \<longrightarrow> (\<forall>n x a. node_at (pmem m) r n = Some a \<longrightarrow> own_at m r' x \<noteq> Some a))"

lemma spacesD:
  assumes "spaces m R A"
  shows "phys_ok m" "buddy_inv m A" "\<And>r. r \<in> R \<Longrightarrow> space_ok m r A"
    "\<And>r r' n x a. r \<in> R \<Longrightarrow> r' \<in> R \<Longrightarrow> r \<noteq> r' \<Longrightarrow> node_at (pmem m) r n = Some a \<Longrightarrow> own_at m r' x \<noteq> Some a"
  using assms unfolding spaces_def by blast+

text \<open>An address space depends on its table pages only.\<close>

lemma tables_frame:
  assumes same: "\<And>n a. node_at (pmem m) r n = Some a \<Longrightarrow> same_on (pmem m) (pmem m') a" and g: "same_geom m m'"
  shows "node_at (pmem m') r n = node_at (pmem m) r n" "leaf_pte m' r v = leaf_pte m r v" "own_at m' r x = own_at m r x"
proof -
  show node: "node_at (pmem m') r n = node_at (pmem m) r n" for n by (rule node_at_frame [OF same])
  show "leaf_pte m' r v = leaf_pte m r v" unfolding leaf_pte_pt_leaf by (rule pt_leaf_frame [OF same]) simp_all
  show "own_at m' r x = own_at m r x"
  proof (cases x)
    case (Leaf i j l)
    have "user_leaf m' u l = user_leaf m u l" if "node_at (pmem m) r (N0 i j) = Some u" "l < 512" for u
      using ent_same [OF same [OF that(1)] that(2)] g by (simp add: user_leaf_def in_ram_def same_geom_def)
    then show ?thesis using Leaf node by (auto simp del: node_at.simps intro: Option.bind_cong)
  qed (use node in \<open>simp del: node_at.simps\<close>)
qed

lemma space_frame:
  assumes k: "space_ok m r A" and same: "\<And>n a. node_at (pmem m) r n = Some a \<Longrightarrow> same_on (pmem m) (pmem m') a"
    and m': "same_geom m m'" "buddy_inv m' A'" and own: "\<And>x a. own_at m r x = Some a \<Longrightarrow> (a, 0) \<in> A'"
  shows "space_ok m' r A'"
proof -
  note f = tables_frame [OF same m'(1)]
  have "own_at m' r = own_at m r" by (rule ext) (rule f(3))
  then have "as_wf m' r A'" using own as_wfD(2) [OF space_okD(2) [OF k]] unfolding as_wf_def by simp
  moreover have "small_leaves m' r" using space_okD(5) [OF k] by (simp add: small_leaves_def f del: node_at.simps)
  ultimately show ?thesis using m'(2) by (simp add: space_ok_def)
qed

section \<open>Losing leaf entries\<close>

text \<open>
  From \<open>m\<close> to \<open>m'\<close> the address spaces \<open>R\<close> lose the leaf entries \<open>Z\<close> and nothing else, and pages that are
  no tables of theirs and still handed out keep their contents.
\<close>

definition drops ::
  "mm \<Rightarrow> (nat \<times> nat) set \<Rightarrow> mm \<Rightarrow> (nat \<times> nat) set \<Rightarrow> usize set \<Rightarrow> (usize \<times> item) set \<Rightarrow> bool" where
  "drops m A m' A' R Z \<longleftrightarrow> spaces m' R A' \<and> A' \<subseteq> A \<and> same_geom m m' \<and> (\<forall>(r, x)\<in>Z. \<exists>v. x = leaf_of v) \<and>
     (\<forall>r\<in>R. \<forall>n. node_at (pmem m') r n = node_at (pmem m) r n) \<and>
     (\<forall>r\<in>R. \<forall>w<2 ^ 39. leaf_pte m' r w = (if (r, leaf_of w) \<in> Z then 0 else leaf_pte m r w)) \<and>
     (\<forall>b\<in>A'. (\<forall>r\<in>R. \<forall>n. node_at (pmem m) r n \<noteq> Some (fst b)) \<longrightarrow> (\<forall>x\<in>region b. pmem m' x = pmem m x))"

lemma dropsD:
  assumes "drops m A m' A' R Z"
  shows "spaces m' R A'" "A' \<subseteq> A" "same_geom m m'" "\<And>r x. (r, x) \<in> Z \<Longrightarrow> \<exists>v. x = leaf_of v"
    "\<And>r n. r \<in> R \<Longrightarrow> node_at (pmem m') r n = node_at (pmem m) r n"
    "\<And>r w. r \<in> R \<Longrightarrow> w < 2 ^ 39 \<Longrightarrow> leaf_pte m' r w = (if (r, leaf_of w) \<in> Z then 0 else leaf_pte m r w)"
    "\<And>b x. b \<in> A' \<Longrightarrow> (\<And>r n. r \<in> R \<Longrightarrow> node_at (pmem m) r n \<noteq> Some (fst b)) \<Longrightarrow> x \<in> region b \<Longrightarrow> pmem m' x = pmem m x"
  using assms unfolding drops_def by blast+

lemma drops_refl: "spaces m R A \<Longrightarrow> drops m A m A R {}"
  by (simp add: drops_def same_geom_def)

lemma drops_trans:
  assumes a: "drops m A m1 A1 R Z" and b: "drops m1 A1 m2 A2 R Z'"
  shows "drops m A m2 A2 R (Z \<union> Z')"
proof -
  note a = dropsD [OF a] and b = dropsD [OF b]
  have "same_geom m m2" using a(3) b(3) by (simp add: same_geom_def)
  moreover have "pmem m2 x = pmem m x"
    if "c \<in> A2" "\<forall>r\<in>R. \<forall>n. node_at (pmem m) r n \<noteq> Some (fst c)" "x \<in> region c" for c x
    using b(7) [OF that(1) _ that(3)] a(7) [of c x] that a(5) b(2) by auto
  ultimately show ?thesis unfolding drops_def using a(2,4,5,6) b(1,2,4,5,6) by auto
qed

lemma drops_own:
  assumes s: "spaces m R A" and d: "drops m A m' A' R Z" and r: "r \<in> R"
  shows "own_at m' r x = (if (r, x) \<in> Z then None else own_at m r x)"
proof (cases x)
  case (Node n)
  then show ?thesis using dropsD(4,5) [OF d] r by (auto simp del: node_at.simps)
next
  case (Leaf i j l)
  note sm = space_okD(5) [OF spacesD(3) [OF s r]] space_okD(5) [OF spacesD(3) [OF dropsD(1) [OF d] r]]
  show ?thesis
  proof (cases "i < 512 \<and> j < 512 \<and> l < 512")
    case True
    then obtain w where w: "w < 2 ^ 39" "x = leaf_of w" using leaf_page_va Leaf by metis
    have "\<not> ram_leaf m 0" by (simp add: ram_leaf_def)
    then show ?thesis
      unfolding w(2) own_leaf_pte [OF sm(1) w(1)] own_leaf_pte [OF sm(2) w(1)] ram_leaf_geom [OF dropsD(3) [OF d]]
      using dropsD(6) [OF d r w(1)] by (simp add: Let_def)
  qed (use Leaf in \<open>auto split: if_splits\<close>)
qed

lemma unmap_nodes:
  assumes k: "space_ok s root A" and v: "v < 2 ^ 39" and u: "pte_user (leaf_pte s root v)"
  obtains s' where "unmap_4k s root v = Some (Ok (), s')" "leaf_change s A s' A root True v 0"
    "\<And>n a. node_at (pmem s) root n = Some a \<Longrightarrow> node_at (pmem s') root n = Some a"
proof -
  note d = space_okD [OF k]
  obtain n where n: "node_at (pmem s) root (N0 (vpn2 v) (vpn1 v)) = Some n"
    using d(5) v u unfolding small_leaves_def by blast
  have l: "leaf_pte s root v \<noteq> 0" using u by auto
  obtain s' where s': "unmap_4k s root v = Some (Ok (), s')" "leaf_set s A s' A root v 0"
    using unmap_4k_node [OF d(1,4) v l n] by blast
  have "leaf_change s A s' A root True v 0" by (rule leaf_set_change [OF k v s'(2)]) simp
  then show ?thesis using that s'(1) s'(2) [unfolded leaf_set_def] by blast
qed

text \<open>Where no page is handed out in between, tables that stay are all the tables there are.\<close>

lemma nodes_same:
  assumes c: "leaf_change s A s' A root c v e"
    and keep: "\<And>n a. node_at (pmem s) root n = Some a \<Longrightarrow> node_at (pmem s') root n = Some a"
  shows "node_at (pmem s') root n = node_at (pmem s) root n"
proof (cases "node_at (pmem s') root n")
  case None
  then show ?thesis using keep by (metis not_Some_eq)
next
  case (Some a)
  note w = space_okD(4) [OF leaf_changeD(1) [OF c]]
  obtain y where y: "node_at (pmem s) root y = Some a"
    using leaf_changeD(6) [OF c pt_wf_owned [OF w Some]] Some by (metis fst_conv)
  have "n = y" by (rule pt_wf_inj [OF w Some keep [OF y]])
  then show ?thesis using Some y by simp
qed

lemma unmap_drops:
  assumes s: "spaces m R A" and r: "r \<in> R" and v: "v < 2 ^ 39" and u: "pte_user (leaf_pte m r v)"
  obtains m' where "unmap_4k m r v = Some (Ok (), m')" "drops m A m' A R {(r, leaf_of v)}"
proof -
  note s = spacesD [OF s]
  obtain m' where m': "unmap_4k m r v = Some (Ok (), m')" "leaf_change m A m' A r True v 0"
    "\<And>n a. node_at (pmem m) r n = Some a \<Longrightarrow> node_at (pmem m') r n = Some a"
    by (rule unmap_nodes [OF s(3) [OF r] v u]) (rule that; assumption)
  note c = leaf_changeD [OF m'(2)]
  have inv: "buddy_inv m' A" by (rule space_okD(1) [OF c(1)])
  have node_r: "node_at (pmem m') r n = node_at (pmem m) r n" for n
    by (rule nodes_same [OF m'(2,3)])
  have same: "same_on (pmem m) (pmem m') a" if "r' \<in> R" "r' \<noteq> r" "node_at (pmem m) r' n = Some a" for r' n a
  proof -
    have o: "own_at m r' (Node n) = Some a" using that(3) by simp
    then have "(a, 0) \<in> A" by (rule as_wfD(1) [OF space_okD(2) [OF s(3) [OF that(1)]]])
    moreover have "node_at (pmem m) r y \<noteq> Some a" for y using s(4) [OF r that(1) that(2) [symmetric], of y a "Node n"] o by blast
    ultimately show ?thesis using c(5) by (simp add: same_on_def)
  qed
  have f: "node_at (pmem m') r' n = node_at (pmem m) r' n" "leaf_pte m' r' w = leaf_pte m r' w" "own_at m' r' x = own_at m r' x"
    if "r' \<in> R" "r' \<noteq> r" for r' n w x
    by (use tables_frame [of m r' m'] same [OF that] c(3) in \<open>simp_all del: node_at.simps own_at.simps\<close>)
  have sp: "space_ok m' r' A" if "r' \<in> R" for r'
  proof (cases "r' = r")
    case False
    show ?thesis by (rule space_frame [OF s(3) [OF that] same [OF that False] c(3) inv as_wfD(1) [OF space_okD(2) [OF s(3) [OF that]]]])
  qed (use c(1) in simp)
  have node: "node_at (pmem m') r' n = node_at (pmem m) r' n" if "r' \<in> R" for r' n
    using f(1) [OF that] node_r by (cases "r' = r") (simp_all del: node_at.simps)
  have leaf: "leaf_pte m' r' w = (if (r', leaf_of w) \<in> {(r, leaf_of v)} then 0 else leaf_pte m r' w)" if "r' \<in> R" "w < 2 ^ 39" for r' w
    using f(2) [OF that(1)] c(4) [OF that(2)] vpn_eq_iff [OF that(2) v] by (cases "r' = r") auto
  have own: "\<exists>y. own_at m r' y = Some a" if "r' \<in> R" "own_at m' r' x = Some a" for r' x a
  proof (cases "r' = r")
    case True
    have "(a, 0) \<in> A" using that sp as_wfD(1) [OF space_okD(2)] by blast
    then show ?thesis using change_own [OF s(3) [OF r] m'(2) v] that True by (auto simp: ram_leaf_def)
  next
    case False
    then show ?thesis using f(3) [OF that(1)] that(2) by auto
  qed
  have "own_at m' r' x \<noteq> Some a" if "q \<in> R" "r' \<in> R" "q \<noteq> r'" "node_at (pmem m') q n = Some a" for q r' n x a
    using own [OF that(2)] s(4) [OF that(1-3)] that(4) node [OF that(1)] by metis
  then have "spaces m' R A" unfolding spaces_def using same_geom_phys [OF c(3)] s(1) inv sp by blast
  then have "drops m A m' A R {(r, leaf_of v)}" unfolding drops_def using c(3,5) r node leaf by (auto simp del: node_at.simps)
  then show ?thesis using that m'(1) by blast
qed

text \<open>Releasing pages that none of the address spaces uses.\<close>

lemma rest_drops:
  assumes s: "spaces m R0 A" and R: "R \<subseteq> R0" and m': "rest m m' A'" "A' \<subseteq> A"
    and own: "\<And>r x a. r \<in> R \<Longrightarrow> own_at m r x = Some a \<Longrightarrow> (a, 0) \<in> A'"
  shows "drops m A m' A' R {}"
proof -
  note s = spacesD [OF s]
  have e: "buddy_inv m' A'" "same_geom m m'" "\<And>b x. b \<in> A' \<Longrightarrow> x \<in> region b \<Longrightarrow> pmem m' x = pmem m x"
    using m'(1) unfolding rest_def by blast+
  have same: "same_on (pmem m) (pmem m') a" if "r \<in> R" "node_at (pmem m) r n = Some a" for r n a
    using own [OF that(1), of "Node n"] that(2) e(3) by (simp add: same_on_def)
  have f: "node_at (pmem m') r n = node_at (pmem m) r n" "leaf_pte m' r w = leaf_pte m r w" "own_at m' r x = own_at m r x"
    if "r \<in> R" for r n w x
    by (use tables_frame [of m r m'] same [OF that] e(2) in \<open>simp_all del: node_at.simps own_at.simps\<close>)
  have "space_ok m' r A'" if "r \<in> R" for r
    by (rule space_frame [OF s(3) same [OF that] e(2,1) own [OF that]]) (use that R in auto)
  moreover have "own_at m' r' x \<noteq> Some a" if "r \<in> R" "r' \<in> R" "r \<noteq> r'" "node_at (pmem m') r n = Some a" for r r' n x a
    using s(4) [of r r' n a x] that f(1) [OF that(1)] f(3) [OF that(2)] R by (auto simp del: node_at.simps own_at.simps)
  ultimately have "spaces m' R A'" unfolding spaces_def
    using same_geom_phys [OF e(2)] s(1) e(1) by blast
  then show ?thesis unfolding drops_def using m'(2) e(2,3) f(1,2) by (auto simp del: node_at.simps)
qed

lemma free_drops:
  assumes s: "spaces m R A" and a: "(a, 0) \<in> A" and n: "\<And>r x. r \<in> R \<Longrightarrow> own_at m r x \<noteq> Some a"
  obtains m' where "free_pages m a = Some (Ok (), m')" "drops m A m' (A - {(a, 0)}) R {}"
proof -
  obtain m' where m': "free m a = Some (Ok (), m')" "buddy_inv m' (A - {(a, 0)})"
    "\<forall>b\<in>A - {(a, 0)}. \<forall>x\<in>region b. pmem m' x = pmem m x"
    using buddy.free_ok [OF spacesD(2) [OF s] a] by blast
  have f: "rest m m' (A - {(a, 0)})" using m' free_geom [OF spacesD(2) [OF s] a m'(1)] by (simp add: rest_def)
  have "drops m A m' (A - {(a, 0)}) R {}"
    by (rule rest_drops [OF s order_refl f]) (use n as_wfD(1) [OF space_okD(2) [OF spacesD(3) [OF s]]] in blast)+
  then show ?thesis using that m'(1) by (simp add: free_pages_def)
qed

section \<open>The address spaces of a kernel state\<close>

definition roots :: "kernel \<Rightarrow> usize set" where
  "roots k = {r. \<exists>i. pid_root k i = Some r}"

text \<open>Every live process has an address space of its own.\<close>

definition own_spaces :: "kernel \<Rightarrow> (nat \<times> nat) set \<Rightarrow> bool" where
  "own_spaces k A \<longleftrightarrow> spaces (k_mm k) (roots k) A \<and> (\<forall>i j r. pid_root k i = Some r \<longrightarrow> pid_root k j = Some r \<longrightarrow> i = j)"

lemma rootsI [intro]: "pid_root k i = Some r \<Longrightarrow> r \<in> roots k"
  by (auto simp: roots_def)

text \<open>Where the page of a record is mapped, by the record.\<close>

definition owner_maps :: "kernel \<Rightarrow> (nat \<times> nat) list \<Rightarrow> (usize \<times> item) set" where
  "owner_maps k os = {(r, leaf_of SHM_VA) | r. \<exists>(i, s)\<in>set os. pid_root k i = Some r}"

definition page_maps :: "kernel \<Rightarrow> page_record \<Rightarrow> (usize \<times> item) set" where
  "page_maps k rec = {(r, leaf_of va) | r va. pr_map_va rec = Some va \<and> pid_root k (pr_owner rec) = Some r}"

text \<open>A page handed out that is in use exactly where \<open>Z\<close> says.\<close>

definition page_at :: "mm \<Rightarrow> usize set \<Rightarrow> (nat \<times> nat) set \<Rightarrow> usize \<Rightarrow> (usize \<times> item) set \<Rightarrow> bool" where
  "page_at m R A a Z \<longleftrightarrow> (a, 0) \<in> A \<and> (\<forall>r\<in>R. \<forall>x. own_at m r x = Some a \<longleftrightarrow> (r, x) \<in> Z)"

definition shm_ok :: "kernel \<Rightarrow> (nat \<times> nat) set \<Rightarrow> shared_page \<Rightarrow> bool" where
  "shm_ok k A sp \<longleftrightarrow> distinct (map fst (sh_owners sp)) \<and>
     page_at (k_mm k) (roots k) A (sh_paddr sp) (owner_maps k (sh_owners sp))"

definition page_ok :: "kernel \<Rightarrow> (nat \<times> nat) set \<Rightarrow> page_record \<Rightarrow> bool" where
  "page_ok k A rec \<longleftrightarrow> (\<forall>va. pr_map_va rec = Some va \<longrightarrow> va < 2 ^ 39) \<and>
     page_at (k_mm k) (roots k) A (pr_paddr rec) (page_maps k rec)"

lemma page_at_own: "page_at m R A a Z \<Longrightarrow> r \<in> R \<Longrightarrow> (r, x) \<in> Z \<Longrightarrow> own_at m r x = Some a"
  by (simp add: page_at_def del: own_at.simps)

text \<open>
  From \<open>k\<close> to \<open>k'\<close> the address spaces lose the entries \<open>Z\<close> and the processes the capabilities in the slots
  \<open>C\<close>; processes, services and devices stay.
\<close>

definition revoked ::
  "kernel \<Rightarrow> (nat \<times> nat) set \<Rightarrow> kernel \<Rightarrow> (nat \<times> nat) set \<Rightarrow> (usize \<times> item) set \<Rightarrow> (nat \<times> nat) set \<Rightarrow> bool" where
  "revoked k A k' A' Z C \<longleftrightarrow> k_wf k' \<and> (\<forall>i. pid_root k' i = pid_root k i) \<and> k_services k' = k_services k \<and>
     k_devices k' = k_devices k \<and> drops (k_mm k) A (k_mm k') A' (roots k) Z \<and>
     (\<forall>i j. cap_at k' i j = (if (i, j) \<in> C then None else cap_at k i j))"

lemma revokedD:
  assumes "revoked k A k' A' Z C"
  shows "k_wf k'" "\<And>i. pid_root k' i = pid_root k i" "k_services k' = k_services k" "k_devices k' = k_devices k"
    "drops (k_mm k) A (k_mm k') A' (roots k) Z" "\<And>i j. cap_at k' i j = (if (i, j) \<in> C then None else cap_at k i j)"
    "roots k' = roots k"
  using assms unfolding revoked_def roots_def by auto

lemma revoked_trans:
  assumes a: "revoked k A k1 A1 Z C" and b: "revoked k1 A1 k2 A2 Z' C'"
  shows "revoked k A k2 A2 (Z \<union> Z') (C \<union> C')"
  using drops_trans [OF revokedD(5) [OF a] revokedD(5) [OF b, unfolded revokedD(7) [OF a]]] revokedD [OF a] revokedD [OF b]
  unfolding revoked_def by auto

lemma revoked_spaces:
  assumes "own_spaces k A" "revoked k A k' A' Z C"
  shows "own_spaces k' A'"
  using assms dropsD(1) [OF revokedD(5) [OF assms(2)]] by (simp add: own_spaces_def revokedD(2,7) [OF assms(2)])

text \<open>A record whose page is not among those released stays in order.\<close>

lemma page_at_drops:
  assumes s: "spaces m R A" and d: "drops m A m' A' R Z'" and p: "page_at m R A a Z"
    and a: "(a, 0) \<in> A'" "\<And>r x. r \<in> R \<Longrightarrow> (r, x) \<in> Z' \<Longrightarrow> own_at m r x \<noteq> Some a"
  shows "page_at m' R A' a Z"
  using p a drops_own [OF s d] unfolding page_at_def by (auto simp del: own_at.simps)

section \<open>Single steps\<close>

lemma cap_at_mm [simp]: "cap_at (k\<lparr>k_mm := m\<rparr>) = cap_at k"
  by (simp add: cap_at_def fun_eq_iff)

lemma drops_revoked:
  assumes "k_wf k" "drops (k_mm k) A m A' (roots k) Z"
  shows "revoked k A (k\<lparr>k_mm := m\<rparr>) A' Z {}"
  using assms by (simp add: revoked_def)

lemma unmap_revoked:
  assumes w: "k_wf k" and s: "own_spaces k A" and r: "pid_root k i = Some r" and v: "v < 2 ^ 39" "pte_user (leaf_pte (k_mm k) r v)"
  obtains m where "unmap_ok k r v = Some (k\<lparr>k_mm := m\<rparr>)" "revoked k A (k\<lparr>k_mm := m\<rparr>) A {(r, leaf_of v)} {}"
proof -
  have sp: "spaces (k_mm k) (roots k) A" using s by (simp add: own_spaces_def)
  obtain m where m: "unmap_4k (k_mm k) r v = Some (Ok (), m)" "drops (k_mm k) A m A (roots k) {(r, leaf_of v)}"
    by (rule unmap_drops [OF sp rootsI [OF r] v])
  then show ?thesis using that [of m] drops_revoked [OF w m(2)] by (simp add: unmap_ok_def)
qed

lemma clear_revoked:
  assumes w: "k_wf k" and s: "own_spaces k A"
  shows "revoked k A (snd (clear_cap k i j)) A {} {(i, j)}"
proof -
  have "k_services (snd (clear_cap k i j)) = k_services k" "k_devices (snd (clear_cap k i j)) = k_devices k"
    by (auto simp: clear_cap_def put_proc_def split: option.split)
  moreover have "drops (k_mm k) A (k_mm k) A (roots k) {}" using s by (simp add: own_spaces_def drops_refl)
  ultimately show ?thesis using clear_cap_wf [OF w] clear_cap_mm [OF w] clear_cap_at [OF w] by (simp add: revoked_def)
qed

lemma free_revoked:
  assumes w: "k_wf k" and s: "own_spaces k A" and a: "(a, 0) \<in> A" "\<And>r x. r \<in> roots k \<Longrightarrow> own_at (k_mm k) r x \<noteq> Some a"
  obtains m where "free_pages (k_mm k) a = Some (Ok (), m)" "revoked k A (k\<lparr>k_mm := m\<rparr>) (A - {(a, 0)}) {} {}"
proof -
  have sp: "spaces (k_mm k) (roots k) A" using s by (simp add: own_spaces_def)
  obtain m where m: "free_pages (k_mm k) a = Some (Ok (), m)" "drops (k_mm k) A m (A - {(a, 0)}) (roots k) {}"
    by (rule free_drops [OF sp a])
  then show ?thesis using that [of m] drops_revoked [OF w m(2)] by simp
qed

text \<open>An entry that owns a page is a user entry.\<close>

lemma own_user:
  assumes "own_spaces k A" "pid_root k i = Some r" "v < 2 ^ 39" "own_at (k_mm k) r (leaf_of v) = Some a"
  shows "pte_user (leaf_pte (k_mm k) r v)"
proof -
  have "space_ok (k_mm k) r A" using assms(1,2) spacesD(3) unfolding own_spaces_def by blast
  then show ?thesis using assms(4) own_leaf_pte [OF space_okD(5) assms(3), of "k_mm k" r A]
    by (auto simp: Let_def ram_leaf_def split: if_splits)
qed

section \<open>Shared pages\<close>

lemma shm_revoke_owners_ok:
  assumes "k_wf k" "own_spaces k A" "distinct (map fst os)"
    and "\<And>i j r. (i, j) \<in> set os \<Longrightarrow> pid_root k i = Some r \<Longrightarrow> pte_user (leaf_pte (k_mm k) r SHM_VA)"
  shows "\<exists>k'. shm_revoke_owners k os = Some k' \<and> revoked k A k' A (owner_maps k os) (set os) \<and>
    k_shms k' = k_shms k \<and> k_pages k' = k_pages k"
  using assms
proof (induction os arbitrary: k)
  case Nil
  have "revoked k A k A {} {}" using Nil by (simp add: revoked_def own_spaces_def drops_refl)
  then show ?case by (simp add: owner_maps_def)
next
  case (Cons o1 os)
  obtain i j where o1: "o1 = (i, j)" by (cases o1)
  let ?Z = "owner_maps k [(i, j)]"
  have v: "SHM_VA < 2 ^ 39" by simp
  obtain k1 where k1: "(case pid_root k i of Some root \<Rightarrow> unmap_ok k root SHM_VA | None \<Rightarrow> Some k) = Some k1"
    "revoked k A k1 A ?Z {}" "k_shms k1 = k_shms k" "k_pages k1 = k_pages k"
  proof (cases "pid_root k i")
    case None
    have "revoked k A k A {} {}" using Cons.prems by (simp add: revoked_def own_spaces_def drops_refl)
    then show ?thesis using None that [of k] by (simp add: owner_maps_def)
  next
    case (Some r)
    obtain m where "unmap_ok k r SHM_VA = Some (k\<lparr>k_mm := m\<rparr>)" "revoked k A (k\<lparr>k_mm := m\<rparr>) A {(r, leaf_of SHM_VA)} {}"
      by (rule unmap_revoked [OF Cons.prems(1,2) Some v]) (use Cons.prems(4) o1 Some in auto)
    then show ?thesis using Some that [of "k\<lparr>k_mm := m\<rparr>"] by (simp add: owner_maps_def)
  qed
  let ?k = "snd (clear_cap k1 i j)"
  have s1: "own_spaces k1 A" by (rule revoked_spaces [OF Cons.prems(2) k1(2)])
  have r: "revoked k A ?k A ?Z {(i, j)}"
    using revoked_trans [OF k1(2) clear_revoked [OF revokedD(1) [OF k1(2)] s1, of i j]] by simp
  have "\<exists>k'. shm_revoke_owners ?k os = Some k' \<and> revoked ?k A k' A (owner_maps ?k os) (set os) \<and>
    k_shms k' = k_shms ?k \<and> k_pages k' = k_pages ?k"
  proof (rule Cons.IH [OF revokedD(1) [OF r] revoked_spaces [OF Cons.prems(2) r]])
    fix i' j' r' assume o: "(i', j') \<in> set os" "pid_root ?k i' = Some r'"
    then have "i' \<noteq> i" "pid_root k i' = Some r'" using Cons.prems(3) o1 revokedD(2) [OF r] by force+
    then have "(r', leaf_of SHM_VA) \<notin> ?Z" using Cons.prems(2) by (auto simp: owner_maps_def own_spaces_def)
    then have "leaf_pte (k_mm ?k) r' SHM_VA = leaf_pte (k_mm k) r' SHM_VA"
      using dropsD(6) [OF revokedD(5) [OF r] rootsI [OF \<open>pid_root k i' = Some r'\<close>] v] by (simp only: if_False)
    then show "pte_user (leaf_pte (k_mm ?k) r' SHM_VA)"
      using Cons.prems(4) [of i' j' r'] o \<open>pid_root k i' = Some r'\<close> by simp
  qed (use Cons.prems(3) in simp)
  then obtain k' where k': "shm_revoke_owners ?k os = Some k'" "revoked ?k A k' A (owner_maps ?k os) (set os)"
    "k_shms k' = k_shms ?k" "k_pages k' = k_pages ?k" by blast
  have "?Z \<union> owner_maps ?k os = owner_maps k (o1 # os)" using revokedD(2) [OF r] by (auto simp: owner_maps_def o1)
  then have "revoked k A k' A (owner_maps k (o1 # os)) (set (o1 # os))" using revoked_trans [OF r k'(2)] o1 by simp
  then show ?case using k1 k' o1 by auto
qed

lemma shm_revoke_ok:
  assumes w: "k_wf k" and s: "own_spaces k A" and g: "get_shm k sid = Some sp" and ok: "shm_ok k A sp"
  obtains k' where "shm_revoke k sid = Some (Ok (), k')"
    "revoked k A k' (A - {(sh_paddr sp, 0)}) (owner_maps k (sh_owners sp)) (set (sh_owners sp))"
    "get_shm k' = (get_shm k)(sid := None)" "get_page k' = get_page k"
proof -
  let ?k = "k\<lparr>k_shms := slot_kill (k_shms k) sid (dead_shm sp)\<rparr>" and ?Z = "owner_maps k (sh_owners sp)"
  have f: "pid_root ?k = pid_root k" "cap_at ?k = cap_at k" by (simp_all add: pid_root_def cap_at_def get_proc_def fun_eq_iff)
  then have rt: "roots ?k = roots k" "owner_maps ?k = owner_maps k" by (simp_all add: roots_def owner_maps_def fun_eq_iff)
  have s1: "own_spaces ?k A" using s by (simp add: own_spaces_def f rt)
  have w1: "k_wf ?k" by (rule k_wf_kill_shm [OF w g])
  have at: "(sh_paddr sp, 0) \<in> A" "\<And>r x. r \<in> roots k \<Longrightarrow> own_at (k_mm k) r x = Some (sh_paddr sp) \<longleftrightarrow> (r, x) \<in> ?Z"
    and d: "distinct (map fst (sh_owners sp))" using ok by (auto simp: shm_ok_def page_at_def)
  have u: "pte_user (leaf_pte (k_mm ?k) r SHM_VA)" if "(i, j) \<in> set (sh_owners sp)" "pid_root ?k i = Some r" for i j r
  proof -
    have r: "pid_root k i = Some r" using that(2) f by simp
    then have "(r, leaf_of SHM_VA) \<in> ?Z" using that(1) by (auto simp: owner_maps_def)
    then have "own_at (k_mm k) r (leaf_of SHM_VA) = Some (sh_paddr sp)" using at(2) rootsI [OF r] by blast
    then show ?thesis using own_user [OF s r, of SHM_VA] by simp
  qed
  have "\<exists>k2. shm_revoke_owners ?k (sh_owners sp) = Some k2 \<and> revoked ?k A k2 A (owner_maps ?k (sh_owners sp)) (set (sh_owners sp)) \<and>
    k_shms k2 = k_shms ?k \<and> k_pages k2 = k_pages ?k"
    by (rule shm_revoke_owners_ok [OF w1 s1 d]) (rule u)
  then obtain k2 where k2: "shm_revoke_owners ?k (sh_owners sp) = Some k2" "revoked ?k A k2 A (owner_maps ?k (sh_owners sp)) (set (sh_owners sp))"
    "k_shms k2 = k_shms ?k" "k_pages k2 = k_pages ?k" by blast
  have r2: "revoked k A k2 A ?Z (set (sh_owners sp))" using k2(2) unfolding revoked_def f rt by simp
  have sp: "spaces (k_mm k) (roots k) A" using s by (simp add: own_spaces_def)
  have n: "own_at (k_mm k2) r x \<noteq> Some (sh_paddr sp)" if "r \<in> roots k2" for r x
    using that at(2) [of r x] drops_own [OF sp revokedD(5) [OF r2], of r x] revokedD(7) [OF r2] by auto
  obtain m where m: "free_pages (k_mm k2) (sh_paddr sp) = Some (Ok (), m)" "revoked k2 A (k2\<lparr>k_mm := m\<rparr>) (A - {(sh_paddr sp, 0)}) {} {}"
    by (rule free_revoked [OF revokedD(1) [OF r2] revoked_spaces [OF s r2] at(1) n])
  have run: "shm_revoke k sid = Some (Ok (), k2\<lparr>k_mm := m\<rparr>)"
    using g k2(1) m(1) by (simp add: shm_revoke_def slot_kill_def dead_shm_def)
  have "get_shm ?k j = (if j = sid then None else get_shm k j)" for j
    using shms.kill_ok(2,3) [OF k_wfD(2) [OF w], of sid sp] g by (simp add: get_shm_def)
  then have "get_shm (k2\<lparr>k_mm := m\<rparr>) = (get_shm k)(sid := None)" using k2(3) by (auto simp: get_shm_def fun_eq_iff)
  moreover have "get_page (k2\<lparr>k_mm := m\<rparr>) = get_page k" using k2(4) by (simp add: get_page_def fun_eq_iff)
  ultimately show ?thesis using that [OF run] revoked_trans [OF r2 m(2)] by simp
qed

text \<open>All shared pages whose ids are in \<open>I\<close>: their frames, where they are mapped, and the slots of their owners.\<close>

definition shm_frames :: "kernel \<Rightarrow> nat set \<Rightarrow> (nat \<times> nat) set" where
  "shm_frames k I = {(sh_paddr sp, 0) | i sp. i \<in> I \<and> get_shm k i = Some sp}"

definition shm_maps :: "kernel \<Rightarrow> nat set \<Rightarrow> (usize \<times> item) set" where
  "shm_maps k I = \<Union> {owner_maps k (sh_owners sp) | i sp. i \<in> I \<and> get_shm k i = Some sp}"

definition shm_slots :: "kernel \<Rightarrow> nat set \<Rightarrow> (nat \<times> nat) set" where
  "shm_slots k I = \<Union> {set (sh_owners sp) | i sp. i \<in> I \<and> get_shm k i = Some sp}"

lemma shm_ok_keeps:
  assumes s: "own_spaces k A" and r: "revoked k A k' A' Z C" and ok: "shm_ok k A sp" and a: "(sh_paddr sp, 0) \<in> A'"
    and z: "\<And>r x. r \<in> roots k \<Longrightarrow> (r, x) \<in> Z \<Longrightarrow> own_at (k_mm k) r x \<noteq> Some (sh_paddr sp)"
  shows "shm_ok k' A' sp"
proof -
  have "owner_maps k' = owner_maps k" using revokedD(2) [OF r] by (simp add: owner_maps_def fun_eq_iff)
  moreover have "spaces (k_mm k) (roots k) A" using s by (simp add: own_spaces_def)
  ultimately show ?thesis using ok page_at_drops [OF _ revokedD(5) [OF r] _ a z] by (simp add: shm_ok_def revokedD(7) [OF r])
qed

lemma revoke_shms_ok:
  assumes "k_wf k" "own_spaces k A" "\<And>i sp. i \<in> set is \<Longrightarrow> get_shm k i = Some sp \<Longrightarrow> shm_ok k A sp"
    and "\<And>i j sp sp'. i \<in> set is \<Longrightarrow> j \<in> set is \<Longrightarrow> get_shm k i = Some sp \<Longrightarrow> get_shm k j = Some sp' \<Longrightarrow>
      sh_paddr sp = sh_paddr sp' \<Longrightarrow> i = j"
  shows "\<exists>k'. revoke_shms k is = Some k' \<and>
    revoked k A k' (A - shm_frames k (set is)) (shm_maps k (set is)) (shm_slots k (set is)) \<and>
    get_shm k' = (\<lambda>i. if i \<in> set is then None else get_shm k i) \<and> get_page k' = get_page k"
  using assms
proof (induction "is" arbitrary: k A)
  case Nil
  have "revoked k A k A {} {}" using Nil by (simp add: revoked_def own_spaces_def drops_refl)
  then show ?case by (simp add: shm_frames_def shm_maps_def shm_slots_def)
next
  case (Cons i "is")
  show ?case
  proof (cases "get_shm k i")
    case None
    then have e: "shm_frames k (set (i # is)) = shm_frames k (set is)" "shm_maps k (set (i # is)) = shm_maps k (set is)"
      "shm_slots k (set (i # is)) = shm_slots k (set is)"
      by (auto simp: shm_frames_def shm_maps_def shm_slots_def)
    have run: "revoke_shms k (i # is) = revoke_shms k is" using None by (simp add: shm_revoke_def)
    have live: "(\<lambda>j. if j \<in> set (i # is) then None else get_shm k j) = (\<lambda>j. if j \<in> set is then None else get_shm k j)"
      using None by auto
    show ?thesis unfolding e run live by (rule Cons.IH [OF Cons.prems(1,2)]) (use Cons.prems(3,4) in auto)
  next
    case (Some sp)
    let ?Z = "owner_maps k (sh_owners sp)" and ?A = "A - {(sh_paddr sp, 0)}"
    have ok: "shm_ok k A sp" using Cons.prems(3) [of i sp] Some by simp
    obtain k1 where k1: "shm_revoke k i = Some (Ok (), k1)" "revoked k A k1 ?A ?Z (set (sh_owners sp))"
      "get_shm k1 = (get_shm k)(i := None)" "get_page k1 = get_page k"
      by (rule shm_revoke_ok [OF Cons.prems(1,2) Some ok])
    have om: "owner_maps k1 = owner_maps k" using revokedD(2) [OF k1(2)] by (simp add: owner_maps_def fun_eq_iff)
    have "\<exists>k'. revoke_shms k1 is = Some k' \<and>
      revoked k1 ?A k' (?A - shm_frames k1 (set is)) (shm_maps k1 (set is)) (shm_slots k1 (set is)) \<and>
      get_shm k' = (\<lambda>i. if i \<in> set is then None else get_shm k1 i) \<and> get_page k' = get_page k1"
    proof (rule Cons.IH [OF revokedD(1) [OF k1(2)] revoked_spaces [OF Cons.prems(2) k1(2)]])
      fix j sp' assume j: "j \<in> set is" "get_shm k1 j = Some sp'"
      then have g: "j \<noteq> i" "get_shm k j = Some sp'" using k1(3) by (auto split: if_splits)
      then have ne: "sh_paddr sp' \<noteq> sh_paddr sp" and ok': "shm_ok k A sp'" using Cons.prems(3,4) Some j(1) by (metis list.set_intros)+
      have own: "own_at (k_mm k) r x \<noteq> Some (sh_paddr sp')" if "r \<in> roots k" "(r, x) \<in> ?Z" for r x
        using ok page_at_own [OF _ that] ne by (auto simp: shm_ok_def simp del: own_at.simps)
      show "shm_ok k1 ?A sp'"
        by (rule shm_ok_keeps [OF Cons.prems(2) k1(2) ok' _ own]) (use ok' ne in \<open>auto simp: shm_ok_def page_at_def\<close>)
    next
      fix j j' sp1 sp2
      assume "j \<in> set is" "j' \<in> set is" "get_shm k1 j = Some sp1" "get_shm k1 j' = Some sp2" "sh_paddr sp1 = sh_paddr sp2"
      then show "j = j'" using Cons.prems(4) [of j j' sp1 sp2] k1(3) by (auto split: if_splits)
    qed
    then obtain k' where k': "revoke_shms k1 is = Some k'"
      "revoked k1 ?A k' (?A - shm_frames k1 (set is)) (shm_maps k1 (set is)) (shm_slots k1 (set is))"
      "get_shm k' = (\<lambda>i. if i \<in> set is then None else get_shm k1 i)" "get_page k' = get_page k1" by blast
    have e: "A - shm_frames k (set (i # is)) = ?A - shm_frames k1 (set is)" "shm_maps k (set (i # is)) = ?Z \<union> shm_maps k1 (set is)"
      "shm_slots k (set (i # is)) = set (sh_owners sp) \<union> shm_slots k1 (set is)"
      unfolding shm_frames_def shm_maps_def shm_slots_def om k1(3) using Some by (fastforce split: if_splits)+
    have "revoke_shms k (i # is) = Some k'" using k1(1) k'(1) by simp
    then show ?thesis using revoked_trans [OF k1(2) k'(2)] k1(3,4) k'(3,4) unfolding e by auto
  qed
qed

section \<open>Page capabilities\<close>

lemma pages_revoke_ok:
  assumes w: "k_wf k" and s: "own_spaces k A" and g: "get_page k i = Some rec" and ok: "page_ok k A rec"
  obtains k' where "pages_revoke k i = Some (Ok (), k')" "revoked k A k' (A - {(pr_paddr rec, 0)}) (page_maps k rec) {}"
    "get_page k' = (get_page k)(i := None)" "get_shm k' = get_shm k"
proof -
  let ?k = "k\<lparr>k_pages := slot_kill (k_pages k) i (dead_page rec)\<rparr>" and ?Z = "page_maps k rec"
  have f: "pid_root ?k = pid_root k" "cap_at ?k = cap_at k" by (simp_all add: pid_root_def cap_at_def get_proc_def fun_eq_iff)
  then have rt: "roots ?k = roots k" "page_maps ?k = page_maps k" by (simp_all add: roots_def page_maps_def fun_eq_iff)
  have s1: "own_spaces ?k A" using s by (simp add: own_spaces_def f rt)
  have w1: "k_wf ?k" by (rule k_wf_kill_page [OF w g])
  have at: "(pr_paddr rec, 0) \<in> A" "\<And>r x. r \<in> roots k \<Longrightarrow> own_at (k_mm k) r x = Some (pr_paddr rec) \<longleftrightarrow> (r, x) \<in> ?Z"
    and va: "\<And>v. pr_map_va rec = Some v \<Longrightarrow> v < 2 ^ 39" using ok by (auto simp: page_ok_def page_at_def)
  obtain m1 where m1: "(case pr_map_va rec of
      Some v \<Rightarrow> (case pid_root ?k (pr_owner rec) of Some root \<Rightarrow> unmap_ok ?k root v | None \<Rightarrow> Some ?k)
    | None \<Rightarrow> Some ?k) = Some (?k\<lparr>k_mm := m1\<rparr>)" "revoked ?k A (?k\<lparr>k_mm := m1\<rparr>) A ?Z {}"
  proof (cases "\<exists>v r. pr_map_va rec = Some v \<and> pid_root k (pr_owner rec) = Some r")
    case False
    then have "?Z = {}" by (auto simp: page_maps_def)
    moreover have "revoked ?k A (?k\<lparr>k_mm := k_mm ?k\<rparr>) A {} {}"
      using w1 s1 by (simp add: revoked_def own_spaces_def drops_refl)
    ultimately show ?thesis using False that [of "k_mm ?k"] f by (auto split: option.split)
  next
    case True
    then obtain v r where v: "pr_map_va rec = Some v" "pid_root k (pr_owner rec) = Some r" by blast
    then have Z: "?Z = {(r, leaf_of v)}" by (auto simp: page_maps_def)
    then have u: "pte_user (leaf_pte (k_mm k) r v)" using at(2) [OF rootsI [OF v(2)]] own_user [OF s v(2) va [OF v(1)]] by blast
    have r: "pid_root ?k (pr_owner rec) = Some r" using v(2) f by simp
    obtain m1 where "unmap_ok ?k r v = Some (?k\<lparr>k_mm := m1\<rparr>)" "revoked ?k A (?k\<lparr>k_mm := m1\<rparr>) A {(r, leaf_of v)} {}"
      by (rule unmap_revoked [OF w1 s1 r va [OF v(1)]]) (use u in simp)
    then show ?thesis using v(1) r that [of m1] unfolding Z by simp
  qed
  let ?k2 = "?k\<lparr>k_mm := m1\<rparr>"
  have r2: "revoked k A ?k2 A ?Z {}" using m1(2) unfolding revoked_def f rt by simp
  have sp: "spaces (k_mm k) (roots k) A" using s by (simp add: own_spaces_def)
  have n: "own_at (k_mm ?k2) r x \<noteq> Some (pr_paddr rec)" if "r \<in> roots ?k2" for r x
    using that at(2) [of r x] drops_own [OF sp revokedD(5) [OF r2], of r x] revokedD(7) [OF r2] by auto
  obtain m where m: "free_pages (k_mm ?k2) (pr_paddr rec) = Some (Ok (), m)" "revoked ?k2 A (?k2\<lparr>k_mm := m\<rparr>) (A - {(pr_paddr rec, 0)}) {} {}"
    by (rule free_revoked [OF revokedD(1) [OF r2] revoked_spaces [OF s r2] at(1) n])
  have run: "pages_revoke k i = Some (Ok (), ?k2\<lparr>k_mm := m\<rparr>)"
    unfolding pages_revoke_def g option.case slot_kill_def [symmetric] dead_page_def [symmetric] Let_def m1(1) using m(1) by simp
  have "get_page ?k j = (if j = i then None else get_page k j)" for j
    using pages.kill_ok(2,3) [OF k_wfD(3) [OF w], of i rec] g by (simp add: get_page_def)
  then have "get_page (?k2\<lparr>k_mm := m\<rparr>) = (get_page k)(i := None)" by (auto simp: get_page_def fun_eq_iff)
  moreover have "get_shm (?k2\<lparr>k_mm := m\<rparr>) = get_shm k" by (simp add: get_shm_def fun_eq_iff)
  ultimately show ?thesis using that [OF run] revoked_trans [OF r2 m(2)] by simp
qed

definition page_frames :: "kernel \<Rightarrow> nat set \<Rightarrow> (nat \<times> nat) set" where
  "page_frames k I = {(pr_paddr rec, 0) | i rec. i \<in> I \<and> get_page k i = Some rec}"

definition pages_maps :: "kernel \<Rightarrow> nat set \<Rightarrow> (usize \<times> item) set" where
  "pages_maps k I = \<Union> {page_maps k rec | i rec. i \<in> I \<and> get_page k i = Some rec}"

lemma page_ok_keeps:
  assumes s: "own_spaces k A" and r: "revoked k A k' A' Z C" and ok: "page_ok k A rec" and a: "(pr_paddr rec, 0) \<in> A'"
    and z: "\<And>r x. r \<in> roots k \<Longrightarrow> (r, x) \<in> Z \<Longrightarrow> own_at (k_mm k) r x \<noteq> Some (pr_paddr rec)"
  shows "page_ok k' A' rec"
proof -
  have "page_maps k' = page_maps k" using revokedD(2) [OF r] by (simp add: page_maps_def fun_eq_iff)
  moreover have "spaces (k_mm k) (roots k) A" using s by (simp add: own_spaces_def)
  ultimately show ?thesis using ok page_at_drops [OF _ revokedD(5) [OF r] _ a z] by (simp add: page_ok_def revokedD(7) [OF r])
qed

lemma revoke_pages_ok:
  assumes "k_wf k" "own_spaces k A" "\<And>i rec. i \<in> set is \<Longrightarrow> get_page k i = Some rec \<Longrightarrow> page_ok k A rec"
    and "\<And>i j rec rec'. i \<in> set is \<Longrightarrow> j \<in> set is \<Longrightarrow> get_page k i = Some rec \<Longrightarrow> get_page k j = Some rec' \<Longrightarrow>
      pr_paddr rec = pr_paddr rec' \<Longrightarrow> i = j"
  shows "\<exists>k'. revoke_pages k is = Some k' \<and> revoked k A k' (A - page_frames k (set is)) (pages_maps k (set is)) {} \<and>
    get_page k' = (\<lambda>i. if i \<in> set is then None else get_page k i) \<and> get_shm k' = get_shm k"
  using assms
proof (induction "is" arbitrary: k A)
  case Nil
  have "revoked k A k A {} {}" using Nil by (simp add: revoked_def own_spaces_def drops_refl)
  then show ?case by (simp add: page_frames_def pages_maps_def)
next
  case (Cons i "is")
  show ?case
  proof (cases "get_page k i")
    case None
    then have e: "page_frames k (set (i # is)) = page_frames k (set is)" "pages_maps k (set (i # is)) = pages_maps k (set is)"
      by (auto simp: page_frames_def pages_maps_def)
    have run: "revoke_pages k (i # is) = revoke_pages k is" using None by (simp add: pages_revoke_def)
    have live: "(\<lambda>j. if j \<in> set (i # is) then None else get_page k j) = (\<lambda>j. if j \<in> set is then None else get_page k j)"
      using None by auto
    show ?thesis unfolding e run live by (rule Cons.IH [OF Cons.prems(1,2)]) (use Cons.prems(3,4) in auto)
  next
    case (Some rec)
    let ?Z = "page_maps k rec" and ?A = "A - {(pr_paddr rec, 0)}"
    have ok: "page_ok k A rec" using Cons.prems(3) [of i rec] Some by simp
    obtain k1 where k1: "pages_revoke k i = Some (Ok (), k1)" "revoked k A k1 ?A ?Z {}"
      "get_page k1 = (get_page k)(i := None)" "get_shm k1 = get_shm k"
      by (rule pages_revoke_ok [OF Cons.prems(1,2) Some ok])
    have om: "page_maps k1 = page_maps k" using revokedD(2) [OF k1(2)] by (simp add: page_maps_def fun_eq_iff)
    have "\<exists>k'. revoke_pages k1 is = Some k' \<and> revoked k1 ?A k' (?A - page_frames k1 (set is)) (pages_maps k1 (set is)) {} \<and>
      get_page k' = (\<lambda>i. if i \<in> set is then None else get_page k1 i) \<and> get_shm k' = get_shm k1"
    proof (rule Cons.IH [OF revokedD(1) [OF k1(2)] revoked_spaces [OF Cons.prems(2) k1(2)]])
      fix j rec' assume j: "j \<in> set is" "get_page k1 j = Some rec'"
      then have g: "j \<noteq> i" "get_page k j = Some rec'" using k1(3) by (auto split: if_splits)
      then have ne: "pr_paddr rec' \<noteq> pr_paddr rec" and ok': "page_ok k A rec'" using Cons.prems(3,4) Some j(1) by (metis list.set_intros)+
      have own: "own_at (k_mm k) r x \<noteq> Some (pr_paddr rec')" if "r \<in> roots k" "(r, x) \<in> ?Z" for r x
        using ok page_at_own [OF _ that] ne by (auto simp: page_ok_def simp del: own_at.simps)
      show "page_ok k1 ?A rec'"
        by (rule page_ok_keeps [OF Cons.prems(2) k1(2) ok' _ own]) (use ok' ne in \<open>auto simp: page_ok_def page_at_def\<close>)
    next
      fix j j' r1 r2
      assume "j \<in> set is" "j' \<in> set is" "get_page k1 j = Some r1" "get_page k1 j' = Some r2" "pr_paddr r1 = pr_paddr r2"
      then show "j = j'" using Cons.prems(4) [of j j' r1 r2] k1(3) by (auto split: if_splits)
    qed
    then obtain k' where k': "revoke_pages k1 is = Some k'"
      "revoked k1 ?A k' (?A - page_frames k1 (set is)) (pages_maps k1 (set is)) {}"
      "get_page k' = (\<lambda>i. if i \<in> set is then None else get_page k1 i)" "get_shm k' = get_shm k1" by blast
    have e: "A - page_frames k (set (i # is)) = ?A - page_frames k1 (set is)" "pages_maps k (set (i # is)) = ?Z \<union> pages_maps k1 (set is)"
      unfolding page_frames_def pages_maps_def om k1(3) using Some by (fastforce split: if_splits)+
    have "revoke_pages k (i # is) = Some k'" using k1(1) k'(1) by simp
    then show ?thesis using revoked_trans [OF k1(2) k'(2)] k1(3,4) k'(3,4) unfolding e by auto
  qed
qed

end
