(* ===== verification/Sched.thy ===== *)
theory Sched
  imports Mmu
begin

text \<open>
  Model of src/kernel/src/sched.rs: threads, per-hart ready queues, priority donation (the priority
  inheritance of the IPC), blocking and waking, preemption, and the requests harts send one another.

  The record \<open>sched\<close> is the static \<^verbatim>\<open>SCHED\<close> together with the atomics \<^verbatim>\<open>THREAD_KILL_REQUEST\<close>,
  \<^verbatim>\<open>REMOTE_REQ\<close> and \<^verbatim>\<open>FAULT_KILL_COUNT\<close> and the satp register of every hart. All operations run with the
  scheduler lock held and interrupts disabled, so each is one atomic step; the running hart is the
  argument \<open>h\<close>. A trap frame is the list of its 36 words. Function addresses and the kernel's root
  table are fields of the record \<open>image\<close>. What the processor does at \<^verbatim>\<open>context_switch\<close> is visible here as
  the saved context of the old thread (argument \<open>regs\<close>, its registers at that point) and the returned
  \<open>switch_target\<close>. Memory for kernel stacks is the argument \<open>stack\<close> (the address \<^verbatim>\<open>alloc_free_stack\<close>
  returned). The wait for other harts, log output and the wfi instruction are not modelled.
\<close>

section \<open>Constants and data\<close>

definition SLICE_TICKS :: nat where [simp]: "SLICE_TICKS = 10"
definition MAX_THREADS :: nat where [simp]: "MAX_THREADS = 64"
definition MAX_HARTS :: nat where [simp]: "MAX_HARTS = 4"
definition PRIO_LEVELS :: nat where [simp]: "PRIO_LEVELS = 3"
definition PRIO_LOW :: nat where [simp]: "PRIO_LOW = 2"
definition MAX_DONATIONS :: nat where [simp]: "MAX_DONATIONS = MAX_THREADS"
definition MSG_WORDS :: nat where [simp]: "MSG_WORDS = 5"
definition FRAME_WORDS :: nat where [simp]: "FRAME_WORDS = 36"
definition FRAME_SSTATUS :: nat where [simp]: "FRAME_SSTATUS = 32"
definition FRAME_SEPC :: nat where [simp]: "FRAME_SEPC = 33"
definition X_SP :: nat where [simp]: "X_SP = 1"
definition X_GP :: nat where [simp]: "X_GP = 2"
definition X_S0 :: nat where [simp]: "X_S0 = 7"
definition X_S1 :: nat where [simp]: "X_S1 = 8"
definition X_A0 :: nat where [simp]: "X_A0 = 9"
definition X_A1 :: nat where [simp]: "X_A1 = 10"
definition X_S2 :: nat where [simp]: "X_S2 = 17"
definition THREAD_STACK_SIZE :: usize where [simp]: "THREAD_STACK_SIZE = 16 * 1024"
definition STACK_GUARD_SIZE :: usize where [simp]: "STACK_GUARD_SIZE = 4096"
definition REMOTE_TLB_FLUSH :: u64 where "REMOTE_TLB_FLUSH = 1"
definition REMOTE_FORCE_KILL :: u64 where "REMOTE_FORCE_KILL = 2"

datatype thread_state = Ready | Running | Blocked | Exited

type_synonym frame = "usize list"
type_synonym msg = "usize list"

datatype ipc_wake = WakeMsg msg | WakeErr usize

record thread_ctx =
  c_ra :: usize
  c_sp :: usize
  c_s :: "usize list"

record thread =
  t_prio :: nat
  t_state :: thread_state
  t_ctx :: thread_ctx
  t_frame :: frame
  t_frame_valid :: bool
  t_ctx_valid :: bool
  t_woken :: bool
  t_ipc_msg :: "msg option"
  t_ipc_wake :: "ipc_wake option"
  t_proc :: "nat option"
  t_hart :: nat
  t_root :: usize
  t_entry :: usize
  t_stack :: "usize option"

record donation =
  d_donor :: nat
  d_peer :: nat
  d_prio :: nat

record sched =
  sc_threads :: "thread list"
  sc_ready :: "nat \<Rightarrow> nat \<Rightarrow> nat list"
  sc_donations :: "donation list"
  sc_current :: "nat \<Rightarrow> nat"
  sc_idle :: "nat \<Rightarrow> nat"
  sc_ticks :: "nat \<Rightarrow> nat"
  sc_free :: "nat list"
  sc_reaper :: "usize list"
  sc_kill_req :: "nat \<Rightarrow> bool"
  sc_remote_req :: "nat \<Rightarrow> u64"
  sc_fault_kills :: nat
  sc_satp :: "nat \<Rightarrow> usize"

text \<open>Addresses the linker and the boot code fix.\<close>

record image =
  im_thread_entry :: usize
  im_idle_entry :: usize
  im_user_stub :: usize
  im_gp :: usize
  im_kernel_root :: usize

text \<open>\<^verbatim>\<open>SwitchTarget\<close>: the thread left, the thread entered and the way it is resumed.\<close>

record switch_target =
  st_old :: nat
  st_next :: nat
  st_use_frame :: bool
  st_next_root :: usize

definition sched_static :: sched where
  "sched_static = \<lparr>sc_threads = [], sc_ready = (\<lambda>_ _. []), sc_donations = [], sc_current = (\<lambda>_. 0), sc_idle = (\<lambda>_. 0),
     sc_ticks = (\<lambda>_. 0), sc_free = [], sc_reaper = [], sc_kill_req = (\<lambda>_. False), sc_remote_req = (\<lambda>_. 0),
     sc_fault_kills = 0, sc_satp = (\<lambda>_. 0)\<rparr>"

section \<open>Access\<close>

abbreviation nthreads :: "sched \<Rightarrow> nat" where "nthreads s \<equiv> length (sc_threads s)"
abbreviation thr :: "sched \<Rightarrow> nat \<Rightarrow> thread" where "thr s i \<equiv> sc_threads s ! i"

text \<open>\<^verbatim>\<open>self.threads[i]\<close> is only reached under a bounds check: \<open>None\<close> is the panic.\<close>

definition thread_at :: "sched \<Rightarrow> nat \<Rightarrow> thread outcome" where
  "thread_at s i = (if i < nthreads s then Some (thr s i) else None)"

definition upd_thread :: "sched \<Rightarrow> nat \<Rightarrow> (thread \<Rightarrow> thread) \<Rightarrow> sched" where
  "upd_thread s i f = s\<lparr>sc_threads := (sc_threads s)[i := f (thr s i)]\<rparr>"

definition set_ready :: "sched \<Rightarrow> nat \<Rightarrow> nat \<Rightarrow> nat list \<Rightarrow> sched" where
  "set_ready s h p q = s\<lparr>sc_ready := (sc_ready s)(h := (sc_ready s h)(p := q))\<rparr>"

definition set_current :: "sched \<Rightarrow> nat \<Rightarrow> nat \<Rightarrow> sched" where
  "set_current s h i = s\<lparr>sc_current := (sc_current s)(h := i)\<rparr>"

definition set_ticks :: "sched \<Rightarrow> nat \<Rightarrow> nat \<Rightarrow> sched" where
  "set_ticks s h n = s\<lparr>sc_ticks := (sc_ticks s)(h := n)\<rparr>"

definition set_kill_req :: "sched \<Rightarrow> nat \<Rightarrow> bool \<Rightarrow> sched" where
  "set_kill_req s i b = s\<lparr>sc_kill_req := (sc_kill_req s)(i := b)\<rparr>"

definition set_satp :: "sched \<Rightarrow> nat \<Rightarrow> usize \<Rightarrow> sched" where
  "set_satp s h root = s\<lparr>sc_satp := (sc_satp s)(h := switch_root (sc_satp s h) root)\<rparr>"

section \<open>Effective priority and ready queues\<close>

definition eff_prio :: "sched \<Rightarrow> nat \<Rightarrow> nat" where
  "eff_prio s i =
     (case t_proc (thr s i) of
        None \<Rightarrow> t_prio (thr s i)
      | Some p \<Rightarrow> foldl (\<lambda>a d. if d_peer d = p \<and> d_prio d < a then d_prio d else a) (t_prio (thr s i)) (sc_donations s))"

definition enqueue :: "sched \<Rightarrow> nat \<Rightarrow> sched outcome" where
  "enqueue s i = do {
     t \<leftarrow> thread_at s i;
     let p = eff_prio s i;
     let h = t_hart t;
     require (h < MAX_HARTS \<and> p < PRIO_LEVELS);
     Some (upd_thread (set_ready s h p (sc_ready s h p @ [i])) i (\<lambda>t. t\<lparr>t_state := Ready\<rparr>)) }"

definition eligible :: "bool \<Rightarrow> thread \<Rightarrow> bool" where
  "eligible need_ctx t \<longleftrightarrow>
     (if need_ctx then t_ctx_valid t \<or> t_frame_valid t
      else t_frame_valid t \<or> (t_ctx_valid t \<and> t_woken t))"

text \<open>One level of \<^verbatim>\<open>pick_next\<close>: at most \<open>n\<close> candidates are looked at.\<close>

fun pick_level :: "sched \<Rightarrow> nat \<Rightarrow> bool \<Rightarrow> nat \<Rightarrow> nat \<Rightarrow> (nat option \<times> sched) outcome" where
  "pick_level s h need_ctx level 0 = Some (None, s)"
| "pick_level s h need_ctx level (Suc n) =
     (case sc_ready s h level of
        [] \<Rightarrow> Some (None, s)
      | i # q \<Rightarrow> do {
          t \<leftarrow> thread_at s i;
          let s1 = set_ready s h level q;
          if t_state t \<noteq> Ready then do {
            require (t_state t = Exited);
            pick_level s1 h need_ctx level n }
          else if eligible need_ctx t then Some (Some i, upd_thread s1 i (\<lambda>t. t\<lparr>t_state := Running\<rparr>))
          else pick_level (set_ready s1 h level (q @ [i])) h need_ctx level n })"

fun pick_levels :: "sched \<Rightarrow> nat \<Rightarrow> bool \<Rightarrow> nat list \<Rightarrow> (nat option \<times> sched) outcome" where
  "pick_levels s h need_ctx [] = Some (None, s)"
| "pick_levels s h need_ctx (l # ls) = do {
     (r, s1) \<leftarrow> pick_level s h need_ctx l (length (sc_ready s h l));
     (case r of Some i \<Rightarrow> Some (Some i, s1) | None \<Rightarrow> pick_levels s1 h need_ctx ls) }"

definition pick_next :: "sched \<Rightarrow> nat \<Rightarrow> bool \<Rightarrow> (nat \<times> sched) outcome" where
  "pick_next s h need_ctx = do {
     (r, s1) \<leftarrow> pick_levels s h need_ctx [0..<PRIO_LEVELS];
     (case r of
        Some i \<Rightarrow> Some (i, s1)
      | None \<Rightarrow> do {
          c \<leftarrow> thread_at s1 (sc_current s1 h);
          Some (if t_state c = Exited \<or> t_state c \<noteq> Running then sc_idle s1 h else sc_current s1 h, s1) }) }"

definition remove_from_ready :: "sched \<Rightarrow> nat \<Rightarrow> sched outcome" where
  "remove_from_ready s i = do {
     t \<leftarrow> thread_at s i;
     let h = t_hart t;
     (case find (\<lambda>p. i \<in> set (sc_ready s h p)) [0..<PRIO_LEVELS] of
        Some p \<Rightarrow> Some (set_ready s h p (remove1 i (sc_ready s h p)))
      | None \<Rightarrow> Some s) }"

section \<open>Priority donation\<close>

definition all_queues :: "(nat \<times> nat) list" where
  "all_queues = List.product [0..<MAX_HARTS] [0..<PRIO_LEVELS]"

definition in_proc :: "sched \<Rightarrow> nat \<Rightarrow> nat \<Rightarrow> bool" where
  "in_proc s p i \<longleftrightarrow> t_proc (thr s i) = Some p"

fun enqueue_all :: "sched \<Rightarrow> nat list \<Rightarrow> sched outcome" where
  "enqueue_all s [] = Some s"
| "enqueue_all s (i # is) = do { s1 \<leftarrow> enqueue s i; enqueue_all s1 is }"

definition requeue_proc_threads :: "sched \<Rightarrow> nat \<Rightarrow> sched outcome" where
  "requeue_proc_threads s p =
     (let buf = concat (map (\<lambda>(h, l). filter (in_proc s p) (sc_ready s h l)) all_queues);
          s1 = s\<lparr>sc_ready := (\<lambda>h l. filter (\<lambda>i. \<not> in_proc s p i) (sc_ready s h l))\<rparr>
      in do {
        require (\<forall>(h, l)\<in>set all_queues. \<forall>i\<in>set (sc_ready s h l). i < nthreads s);
        enqueue_all s1 (take MAX_THREADS buf) })"

fun put_donation :: "donation list \<Rightarrow> donation \<Rightarrow> donation list" where
  "put_donation [] d = []"
| "put_donation (e # ds) d = (if d_donor e = d_donor d then d # ds else e # put_donation ds d)"

definition register_donation :: "sched \<Rightarrow> nat \<Rightarrow> nat \<Rightarrow> sched outcome" where
  "register_donation s donor peer = do {
     _ \<leftarrow> thread_at s donor;
     let d = \<lparr>d_donor = donor, d_peer = peer, d_prio = eff_prio s donor\<rparr>;
     let ds = (if \<exists>e\<in>set (sc_donations s). d_donor e = donor then put_donation (sc_donations s) d
               else if length (sc_donations s) < MAX_DONATIONS then sc_donations s @ [d]
               else sc_donations s);
     requeue_proc_threads (s\<lparr>sc_donations := ds\<rparr>) peer }"

fun requeue_procs :: "sched \<Rightarrow> nat list \<Rightarrow> sched outcome" where
  "requeue_procs s [] = Some s"
| "requeue_procs s (p # ps) = do { s1 \<leftarrow> requeue_proc_threads s p; requeue_procs s1 ps }"

text \<open>The \<^verbatim>\<open>affected\<close> buffers: first occurrences in order, at most 64.\<close>

fun uniq :: "nat list \<Rightarrow> nat list \<Rightarrow> nat list" where
  "uniq acc [] = acc"
| "uniq acc (x # xs) = (if length acc < MAX_THREADS \<and> x \<notin> set acc then uniq (acc @ [x]) xs else uniq acc xs)"

definition revoke_donations :: "sched \<Rightarrow> nat \<Rightarrow> sched outcome" where
  "revoke_donations s donor =
     (let gone = filter (\<lambda>d. d_donor d = donor) (sc_donations s)
      in requeue_procs (s\<lparr>sc_donations := filter (\<lambda>d. d_donor d \<noteq> donor) (sc_donations s)\<rparr>) (uniq [] (map d_peer gone)))"

definition revoke_donations_of :: "sched \<Rightarrow> nat list \<Rightarrow> nat option \<Rightarrow> sched outcome" where
  "revoke_donations_of s tids skip =
     (let gone = filter (\<lambda>d. d_donor d \<in> set tids) (sc_donations s)
      in requeue_procs (s\<lparr>sc_donations := filter (\<lambda>d. d_donor d \<notin> set tids) (sc_donations s)\<rparr>)
           (filter (\<lambda>p. Some p \<noteq> skip) (uniq [] (map d_peer gone))))"

fun requeue_donors :: "sched \<Rightarrow> nat \<Rightarrow> nat list \<Rightarrow> sched outcome" where
  "requeue_donors s p [] = Some s"
| "requeue_donors s p (i # is) = do {
     t \<leftarrow> thread_at s i;
     s1 \<leftarrow> (case t_proc t of Some q \<Rightarrow> if q \<noteq> p then requeue_proc_threads s q else Some s | None \<Rightarrow> Some s);
     requeue_donors s1 p is }"

definition revoke_donations_for_proc :: "sched \<Rightarrow> nat \<Rightarrow> sched outcome" where
  "revoke_donations_for_proc s p =
     (let gone = filter (\<lambda>d. d_peer d = p) (sc_donations s)
      in requeue_donors (s\<lparr>sc_donations := filter (\<lambda>d. d_peer d \<noteq> p) (sc_donations s)\<rparr>) p (uniq [] (map d_donor gone)))"

section \<open>Preemption\<close>

definition expand_ctx_to_frame :: "image \<Rightarrow> sched \<Rightarrow> nat \<Rightarrow> sched" where
  "expand_ctx_to_frame im s i =
     (let c = t_ctx (thr s i);
          f = (((((replicate FRAME_WORDS 0)[FRAME_SEPC := c_ra c])[FRAME_SSTATUS := 2 ^ 5 + 2 ^ 8])[X_SP := c_sp c])[X_GP := im_gp im]);
          f = (f[X_S0 := c_s c ! 0])[X_S1 := c_s c ! 1];
          f = take X_S2 f @ take 10 (drop 2 (c_s c)) @ drop (X_S2 + 10) f
      in upd_thread s i (\<lambda>t. t\<lparr>t_frame := f, t_frame_valid := True, t_ctx_valid := False, t_woken := False\<rparr>))"

definition preemptable :: "sched \<Rightarrow> nat \<Rightarrow> bool" where
  "preemptable s i \<longleftrightarrow> t_state (thr s i) = Ready \<and> eligible False (thr s i)"

text \<open>Is there a thread to preempt for on one of the levels below \<open>n\<close>?\<close>

definition other_preemptable :: "sched \<Rightarrow> nat \<Rightarrow> nat \<Rightarrow> bool" where
  "other_preemptable s h n \<longleftrightarrow> (\<exists>l\<in>set [0..<n]. \<exists>i\<in>set (sc_ready s h l). i \<noteq> sc_current s h \<and> preemptable s i)"

text \<open>Resume the chosen thread from its frame: the common end of \<^verbatim>\<open>on_tick\<close> and \<^verbatim>\<open>force_kill_current\<close>.\<close>

definition enter_frame :: "image \<Rightarrow> sched \<Rightarrow> nat \<Rightarrow> nat \<Rightarrow> sched outcome" where
  "enter_frame im s h i = do {
     t \<leftarrow> thread_at (set_current s h i) i;
     let s1 = (if t_frame_valid t then set_current s h i else expand_ctx_to_frame im (set_current s h i) i);
     Some (set_satp s1 h (t_root t)) }"

text \<open>
  The result of \<^verbatim>\<open>on_tick\<close>: \<open>None\<close> if the interrupted frame is resumed, \<open>Some i\<close> if the frame of
  thread \<open>i\<close> is.
\<close>

definition on_tick :: "image \<Rightarrow> sched \<Rightarrow> nat \<Rightarrow> frame \<Rightarrow> (nat option \<times> sched) outcome" where
  "on_tick im s h frame = do {
     let s = set_ticks s h ((sc_ticks s h + 1) mod USIZE_LIMIT);
     let cur = sc_current s h;
     _ \<leftarrow> thread_at s cur;
     if sc_ticks s h < SLICE_TICKS \<and> \<not> other_preemptable s h (eff_prio s cur) then Some (None, s)
     else do {
       let s = set_ticks s h 0;
       if \<not> other_preemptable s h PRIO_LEVELS then Some (None, s)
       else do {
         let s = upd_thread s cur (\<lambda>t. t\<lparr>t_frame := frame, t_frame_valid := True, t_ctx_valid := False, t_state := Ready\<rparr>);
         s \<leftarrow> enqueue s cur;
         (next, s) \<leftarrow> pick_next s h False;
         if next = cur then do {
           s \<leftarrow> remove_from_ready s cur;
           Some (None, upd_thread s cur (\<lambda>t. t\<lparr>t_state := Running, t_frame_valid := True, t_ctx_valid := False\<rparr>)) }
         else do { s \<leftarrow> enter_frame im s h next; Some (Some next, s) } } } }"

text \<open>Hand a thread's stack to the reaper (\<^verbatim>\<open>stack.take()\<close> and \<^verbatim>\<open>reaper.push_back\<close>).\<close>

definition reap_stack :: "sched \<Rightarrow> nat \<Rightarrow> sched" where
  "reap_stack s i =
     (case t_stack (thr s i) of
        Some p \<Rightarrow> (upd_thread s i (\<lambda>t. t\<lparr>t_stack := None\<rparr>))\<lparr>sc_reaper := sc_reaper s @ [p]\<rparr>
      | None \<Rightarrow> s)"

definition push_free :: "sched \<Rightarrow> nat \<Rightarrow> sched" where
  "push_free s i = s\<lparr>sc_free := sc_free s @ [i]\<rparr>"

definition force_kill_current :: "image \<Rightarrow> sched \<Rightarrow> nat \<Rightarrow> (nat option \<times> sched) outcome" where
  "force_kill_current im s h = do {
     let cur = sc_current s h;
     require (cur < MAX_THREADS);
     if \<not> sc_kill_req s cur then Some (None, s)
     else do {
       _ \<leftarrow> thread_at s cur;
       let s = upd_thread (reap_stack s cur) cur
         (\<lambda>t. t\<lparr>t_state := Exited, t_frame_valid := False, t_ctx_valid := False, t_woken := False\<rparr>);
       let s = set_ticks (set_kill_req (push_free s cur) cur False) h 0;
       (next, s) \<leftarrow> pick_next s h False;
       s \<leftarrow> enter_frame im s h next;
       Some (Some next, s) } }"

section \<open>Creating threads\<close>

definition stack_sp :: "usize \<Rightarrow> usize" where
  "stack_sp ptr = (ptr + THREAD_STACK_SIZE + STACK_GUARD_SIZE) div 16 * 16"

definition kernel_frame :: "usize \<Rightarrow> usize \<Rightarrow> usize \<Rightarrow> frame" where
  "kernel_frame pc sp gp =
     ((((replicate FRAME_WORDS 0)[FRAME_SEPC := pc])[FRAME_SSTATUS := 2 ^ 5 + 2 ^ 8])[1 := sp])[2 := gp]"

definition kernel_thread :: "image \<Rightarrow> nat \<Rightarrow> usize \<Rightarrow> usize \<Rightarrow> nat \<Rightarrow> thread" where
  "kernel_thread im h stack entry prio =
     (let sp = stack_sp stack in
      \<lparr>t_prio = min prio (PRIO_LEVELS - 1), t_state = Ready,
       t_ctx = \<lparr>c_ra = im_thread_entry im, c_sp = sp, c_s = replicate 12 0\<rparr>,
       t_frame = kernel_frame (im_thread_entry im) sp (im_gp im),
       t_frame_valid = True, t_ctx_valid = True, t_woken = False, t_ipc_msg = None, t_ipc_wake = None,
       t_proc = None, t_hart = h, t_root = im_kernel_root im, t_entry = entry, t_stack = Some stack\<rparr>)"

definition user_thread :: "image \<Rightarrow> nat \<Rightarrow> nat \<Rightarrow> usize \<Rightarrow> usize \<Rightarrow> usize \<Rightarrow> nat \<Rightarrow> usize \<Rightarrow> usize \<Rightarrow> thread" where
  "user_thread im h pid root entry_pc stack_top prio argc argv =
     \<lparr>t_prio = min prio (PRIO_LEVELS - 1), t_state = Ready,
      t_ctx = \<lparr>c_ra = entry_pc, c_sp = stack_top, c_s = replicate 12 0\<rparr>,
      t_frame = ((((((replicate FRAME_WORDS 0)[FRAME_SEPC := entry_pc])[FRAME_SSTATUS := 2 ^ 5])[1 := stack_top])[2 := 0])
                  [X_A0 := argc])[X_A1 := argv],
      t_frame_valid = True, t_ctx_valid = False, t_woken = False, t_ipc_msg = None, t_ipc_wake = None,
      t_proc = Some pid, t_hart = h, t_root = root, t_entry = im_user_stub im, t_stack = None\<rparr>"

text \<open>The slot selection and the insertion \<^verbatim>\<open>spawn\<close> and \<^verbatim>\<open>spawn_user\<close> share.\<close>

definition insert_thread :: "sched \<Rightarrow> thread \<Rightarrow> (nat \<times> sched) outcome" where
  "insert_thread s t = do {
     (i, s) \<leftarrow> (case sc_free s of
         i # rest \<Rightarrow> Some (i, s\<lparr>sc_free := rest\<rparr>)
       | [] \<Rightarrow> do { require (nthreads s < MAX_THREADS); Some (nthreads s, s) });
     require (i < MAX_THREADS);
     let s = set_kill_req s i False;
     s \<leftarrow> (if i < nthreads s then Some (s\<lparr>sc_threads := (sc_threads s)[i := t]\<rparr>)
           else Some (s\<lparr>sc_threads := sc_threads s @ [t]\<rparr>));
     s \<leftarrow> enqueue s i;
     Some (i, s) }"

definition spawn :: "image \<Rightarrow> sched \<Rightarrow> nat \<Rightarrow> usize \<Rightarrow> usize \<Rightarrow> nat \<Rightarrow> (nat \<times> sched) outcome" where
  "spawn im s h stack entry prio = insert_thread s (kernel_thread im h stack entry prio)"

definition spawn_user ::
  "image \<Rightarrow> sched \<Rightarrow> nat \<Rightarrow> nat \<Rightarrow> usize \<Rightarrow> usize \<Rightarrow> usize \<Rightarrow> nat \<Rightarrow> usize \<Rightarrow> usize \<Rightarrow> (nat \<times> sched) outcome" where
  "spawn_user im s h pid root entry_pc stack_top prio argc argv =
     insert_thread s (user_thread im h pid root entry_pc stack_top prio argc argv)"

definition spawn_owned :: "image \<Rightarrow> sched \<Rightarrow> nat \<Rightarrow> usize \<Rightarrow> usize \<Rightarrow> nat \<Rightarrow> nat \<Rightarrow> (nat \<times> sched) outcome" where
  "spawn_owned im s h stack entry prio pid = do {
     (i, s) \<leftarrow> spawn im s h stack entry prio;
     let s = upd_thread s i (\<lambda>t. t\<lparr>t_proc := Some pid\<rparr>);
     s \<leftarrow> (if \<exists>d\<in>set (sc_donations s). d_peer d = pid then requeue_proc_threads s pid else Some s);
     Some (i, s) }"

text \<open>\<^verbatim>\<open>init\<close>: one idle thread per hart; \<open>stacks h\<close> is the stack allocated for hart \<open>h\<close>.\<close>

definition idle_thread :: "image \<Rightarrow> nat \<Rightarrow> usize \<Rightarrow> thread" where
  "idle_thread im h stack =
     \<lparr>t_prio = PRIO_LOW, t_state = Running,
      t_ctx = \<lparr>c_ra = im_idle_entry im, c_sp = stack_sp stack, c_s = replicate 12 0\<rparr>,
      t_frame = ((replicate FRAME_WORDS 0)[FRAME_SEPC := im_idle_entry im])[FRAME_SSTATUS := 2 ^ 5 + 2 ^ 8],
      t_frame_valid = False, t_ctx_valid = True, t_woken = False, t_ipc_msg = None, t_ipc_wake = None,
      t_proc = None, t_hart = h, t_root = im_kernel_root im, t_entry = im_idle_entry im, t_stack = Some stack\<rparr>"

fun init_harts :: "image \<Rightarrow> (nat \<Rightarrow> usize) \<Rightarrow> sched \<Rightarrow> nat list \<Rightarrow> sched" where
  "init_harts im stacks s [] = s"
| "init_harts im stacks s (h # hs) =
     (let i = nthreads s;
          s = s\<lparr>sc_threads := sc_threads s @ [idle_thread im h (stacks h)]\<rparr>
      in init_harts im stacks ((set_current s h i)\<lparr>sc_idle := (sc_idle s)(h := i)\<rparr>) hs)"

definition sched_init :: "image \<Rightarrow> (nat \<Rightarrow> usize) \<Rightarrow> sched \<Rightarrow> sched" where
  "sched_init im stacks s = init_harts im stacks s [0..<MAX_HARTS]"

text \<open>The first instructions of a new kernel thread (\<^verbatim>\<open>thread_entry\<close>); the result is the function called.\<close>

definition thread_entry :: "sched \<Rightarrow> nat \<Rightarrow> (usize \<times> sched) outcome" where
  "thread_entry s h = do {
     let i = sc_current s h;
     t \<leftarrow> thread_at s i;
     Some (t_entry t, upd_thread s i (\<lambda>t. t\<lparr>t_frame_valid := False\<rparr>)) }"

section \<open>Switching\<close>

definition switch_target_of :: "sched \<Rightarrow> nat \<Rightarrow> nat \<Rightarrow> switch_target outcome" where
  "switch_target_of s cur next = do {
     t \<leftarrow> thread_at s next;
     _ \<leftarrow> thread_at s cur;
     Some \<lparr>st_old = cur, st_next = next, st_use_frame = (\<not> t_ctx_valid t), st_next_root = t_root t\<rparr> }"

text \<open>
  \<^verbatim>\<open>do_switch\<close>: satp changes to the root of the next thread and the registers of the old one are saved in its
  context (both \<^verbatim>\<open>context_switch\<close> and \<^verbatim>\<open>frame_restore\<close> do this).
\<close>

definition do_switch :: "sched \<Rightarrow> nat \<Rightarrow> thread_ctx \<Rightarrow> switch_target \<Rightarrow> sched" where
  "do_switch s h regs t = upd_thread (set_satp s h (st_next_root t)) (st_old t) (\<lambda>x. x\<lparr>t_ctx := regs\<rparr>)"

text \<open>Pick the next thread cooperatively and switch: the common end of all voluntary switches.\<close>

definition reschedule :: "sched \<Rightarrow> nat \<Rightarrow> nat \<Rightarrow> thread_ctx \<Rightarrow> (switch_target \<times> sched) outcome" where
  "reschedule s h cur regs = do {
     let s = set_ticks s h 0;
     (next, s) \<leftarrow> pick_next s h True;
     let s = set_current s h next;
     t \<leftarrow> switch_target_of s cur next;
     Some (t, do_switch s h regs t) }"

definition drain_reaper :: "sched \<Rightarrow> usize list \<times> sched" where
  "drain_reaper s = (sc_reaper s, s\<lparr>sc_reaper := []\<rparr>)"

definition yield :: "sched \<Rightarrow> nat \<Rightarrow> thread_ctx \<Rightarrow> (switch_target \<times> sched) outcome" where
  "yield s h regs = do {
     let cur = sc_current s h;
     _ \<leftarrow> thread_at s cur;
     let s = upd_thread s cur (\<lambda>t. t\<lparr>t_frame_valid := False, t_ctx_valid := True\<rparr>);
     s \<leftarrow> enqueue (snd (drain_reaper s)) cur;
     reschedule s h cur regs }"

section \<open>Blocking and waking\<close>

text \<open>\<open>None\<close> in the result: the thread did not block because a wake-up was already there.\<close>

definition block_current :: "sched \<Rightarrow> nat \<Rightarrow> thread_ctx \<Rightarrow> (switch_target option \<times> sched) outcome" where
  "block_current s h regs = do {
     let cur = sc_current s h;
     t \<leftarrow> thread_at s cur;
     if t_ipc_wake t \<noteq> None then do {
       s \<leftarrow> revoke_donations (upd_thread s cur (\<lambda>t. t\<lparr>t_ipc_wake := None, t_state := Running\<rparr>)) cur;
       Some (None, s) }
     else if t_state t = Ready then do {
       s \<leftarrow> remove_from_ready s cur;
       Some (None, upd_thread s cur (\<lambda>t. t\<lparr>t_state := Running, t_woken := False\<rparr>)) }
     else if t_woken t then
       Some (None, upd_thread s cur (\<lambda>t. t\<lparr>t_woken := False, t_state := Running\<rparr>))
     else do {
       let s = upd_thread s cur (\<lambda>t. t\<lparr>t_state := Blocked, t_frame_valid := False, t_ctx_valid := True\<rparr>);
       (t, s) \<leftarrow> reschedule s h cur regs;
       Some (Some t, s) } }"

text \<open>The rest of \<^verbatim>\<open>block_current\<close>, run when the thread is resumed.\<close>

definition block_resume :: "sched \<Rightarrow> nat \<Rightarrow> sched outcome" where
  "block_resume s h = do {
     let cur = sc_current s h;
     s \<leftarrow> remove_from_ready s cur;
     Some (upd_thread s cur (\<lambda>t. t\<lparr>t_woken := False\<rparr>)) }"

text \<open>Does \<^verbatim>\<open>ipi_wake_cross_hart\<close> send an interrupt to the thread's hart?\<close>

definition ipi_needed :: "sched \<Rightarrow> nat \<Rightarrow> nat \<Rightarrow> bool" where
  "ipi_needed s i my_hart =
     (let tgt = t_hart (thr s i) in tgt \<noteq> my_hart \<and> sc_current s tgt = sc_idle s tgt)"

text \<open>The first component: the hart an inter-processor interrupt is sent to.\<close>

definition ipi_wake_cross_hart :: "sched \<Rightarrow> nat \<Rightarrow> nat \<Rightarrow> nat option" where
  "ipi_wake_cross_hart s i my_hart = (if ipi_needed s i my_hart then Some (t_hart (thr s i)) else None)"

definition wake :: "sched \<Rightarrow> nat \<Rightarrow> nat \<Rightarrow> (nat option \<times> sched) outcome" where
  "wake s my_hart i =
     (if i < nthreads s then
        (let s = upd_thread s i (\<lambda>t. t\<lparr>t_woken := True\<rparr>) in
         if t_state (thr s i) = Blocked then do {
           s \<leftarrow> enqueue s i;
           Some (ipi_wake_cross_hart s i my_hart, s) }
         else Some (None, s))
      else Some (None, s))"

text \<open>The message padded to five words (\<^verbatim>\<open>buf\<close>).\<close>

definition msg_buf :: "msg option \<Rightarrow> msg" where
  "msg_buf m = (case m of Some w \<Rightarrow> take MSG_WORDS (w @ replicate MSG_WORDS 0) | None \<Rightarrow> replicate MSG_WORDS 0)"

fun write_words :: "frame \<Rightarrow> nat \<Rightarrow> msg \<Rightarrow> frame outcome" where
  "write_words f i [] = Some f"
| "write_words f i (w # ws) = (if i < length f then write_words (f[i := w]) (Suc i) ws else None)"

definition advance_sepc :: "frame \<Rightarrow> frame outcome" where
  "advance_sepc f = do { pc \<leftarrow> uadd (f ! FRAME_SEPC) 4; Some (f[FRAME_SEPC := pc]) }"

definition ipc_wake_with_msg :: "sched \<Rightarrow> nat \<Rightarrow> nat \<Rightarrow> msg option \<Rightarrow> (nat option \<times> sched) outcome" where
  "ipc_wake_with_msg s my_hart i m = do {
     t \<leftarrow> thread_at s i;
     if t_state t \<noteq> Blocked then
       Some (None, upd_thread s i (\<lambda>t. t\<lparr>t_ipc_msg := Some (msg_buf m), t_ipc_wake := Some (WakeMsg (msg_buf m))\<rparr>))
     else do {
       let f = (t_frame t)[X_A0 := 0];
       f \<leftarrow> (case m of Some w \<Rightarrow> write_words f X_A1 w | None \<Rightarrow> Some f);
       f \<leftarrow> advance_sepc f;
       let s = upd_thread s i (\<lambda>t. t\<lparr>t_frame := f, t_ipc_msg := map_option (\<lambda>w. msg_buf (Some w)) m, t_ipc_wake := None\<rparr>);
       s \<leftarrow> enqueue s i;
       let ipi = ipi_wake_cross_hart s i my_hart;
       s \<leftarrow> revoke_donations s i;
       Some (ipi, s) } }"

definition ipc_wake_with_err :: "sched \<Rightarrow> nat \<Rightarrow> nat \<Rightarrow> usize \<Rightarrow> (nat option \<times> sched) outcome" where
  "ipc_wake_with_err s my_hart i code = do {
     t \<leftarrow> thread_at s i;
     if t_state t \<noteq> Blocked then
       Some (None, upd_thread s i (\<lambda>t. t\<lparr>t_ipc_msg := Some (replicate MSG_WORDS code), t_ipc_wake := Some (WakeErr code)\<rparr>))
     else do {
       f \<leftarrow> advance_sepc ((t_frame t)[X_A0 := code]);
       let s = upd_thread s i (\<lambda>t. t\<lparr>t_frame := f, t_ipc_msg := Some (replicate MSG_WORDS code), t_ipc_wake := None\<rparr>);
       s \<leftarrow> enqueue s i;
       let ipi = ipi_wake_cross_hart s i my_hart;
       s \<leftarrow> revoke_donations s i;
       Some (ipi, s) } }"

definition take_ipc_msg :: "sched \<Rightarrow> nat \<Rightarrow> (msg option \<times> sched) outcome" where
  "take_ipc_msg s h = do {
     t \<leftarrow> thread_at s (sc_current s h);
     Some (t_ipc_msg t, upd_thread s (sc_current s h) (\<lambda>t. t\<lparr>t_ipc_msg := None\<rparr>)) }"

definition current_id :: "sched \<Rightarrow> nat \<Rightarrow> nat" where
  "current_id s h = sc_current s h"

definition current_proc :: "sched \<Rightarrow> nat \<Rightarrow> nat outcome" where
  "current_proc s h = do { t \<leftarrow> thread_at s (sc_current s h); t_proc t }"

definition donate_on_block :: "sched \<Rightarrow> nat \<Rightarrow> nat \<Rightarrow> sched outcome" where
  "donate_on_block s donor peer = register_donation s donor peer"

text \<open>Apply a wake-up that came before the thread blocked to its live frame.\<close>

definition apply_wake :: "frame \<Rightarrow> ipc_wake \<Rightarrow> frame outcome" where
  "apply_wake f w = do {
     f \<leftarrow> (case w of
         WakeMsg m \<Rightarrow> write_words (f[X_A0 := 0]) X_A1 m
       | WakeErr code \<Rightarrow> Some (f[X_A0 := code]));
     advance_sepc f }"

text \<open>\<open>Inl f\<close>: it did not block and the thread goes on with the live frame \<open>f\<close>. \<open>Inr t\<close>: it switched.\<close>

definition block_user_from_trap ::
  "sched \<Rightarrow> nat \<Rightarrow> frame \<Rightarrow> thread_ctx \<Rightarrow> ((frame + switch_target) \<times> sched) outcome" where
  "block_user_from_trap s h frame regs = do {
     let cur = sc_current s h;
     t \<leftarrow> thread_at s cur;
     (case t_ipc_wake t of
        Some w \<Rightarrow> do {
          s \<leftarrow> revoke_donations (upd_thread s cur (\<lambda>t. t\<lparr>t_ipc_wake := None, t_state := Running\<rparr>)) cur;
          f \<leftarrow> apply_wake frame w;
          Some (Inl f, s) }
      | None \<Rightarrow> do {
          let s = upd_thread s cur
            (\<lambda>t. t\<lparr>t_frame := frame, t_frame_valid := True, t_ctx_valid := False, t_woken := False, t_state := Blocked\<rparr>);
          (t, s) \<leftarrow> reschedule s h cur regs;
          Some (Inr t, s) }) }"

section \<open>Leaving\<close>

definition exit_thread :: "sched \<Rightarrow> nat \<Rightarrow> thread_ctx \<Rightarrow> (switch_target \<times> sched) outcome" where
  "exit_thread s h regs = do {
     let cur = sc_current s h;
     _ \<leftarrow> thread_at s cur;
     let s = upd_thread (reap_stack s cur) cur (\<lambda>t. t\<lparr>t_state := Exited, t_frame_valid := False, t_ctx_valid := True\<rparr>);
     reschedule (push_free s cur) h cur regs }"

text \<open>The same from a trap: only the reset of sscratch differs, which is not part of this state.\<close>

definition exit_from_trap :: "sched \<Rightarrow> nat \<Rightarrow> thread_ctx \<Rightarrow> (switch_target \<times> sched) outcome" where
  "exit_from_trap s h regs = exit_thread s h regs"

definition set_affinity :: "sched \<Rightarrow> nat \<Rightarrow> nat \<Rightarrow> sched outcome" where
  "set_affinity s i hart = do {
     t \<leftarrow> thread_at s i;
     let h = min hart (MAX_HARTS - 1);
     (case t_state t of
        Ready \<Rightarrow>
          if t_hart t \<noteq> h then do {
            s \<leftarrow> remove_from_ready s i;
            enqueue (upd_thread s i (\<lambda>t. t\<lparr>t_hart := h\<rparr>)) i }
          else Some s
      | Blocked \<Rightarrow> Some (upd_thread s i (\<lambda>t. t\<lparr>t_hart := h\<rparr>))
      | _ \<Rightarrow> None) }"

definition is_blocked :: "sched \<Rightarrow> nat \<Rightarrow> bool" where
  "is_blocked s i \<longleftrightarrow> i < nthreads s \<and> t_state (thr s i) = Blocked"

text \<open>One round of \<^verbatim>\<open>secondary_idle\<close>; \<open>None\<close>: nothing is ready and the hart waits for an interrupt.\<close>

definition secondary_idle_round :: "sched \<Rightarrow> nat \<Rightarrow> thread_ctx \<Rightarrow> (switch_target option \<times> sched) outcome" where
  "secondary_idle_round s h regs = do {
     let cur = sc_current s h;
     require (cur = sc_idle s h);
     let s = set_ticks s h 0;
     (next, s) \<leftarrow> pick_next s h True;
     if next = cur then Some (None, s)
     else do {
       let s = set_current s h next;
       t \<leftarrow> switch_target_of s cur next;
       Some (Some t, do_switch s h regs t) } }"

section \<open>Requests to other harts\<close>

definition send_remote_req :: "sched \<Rightarrow> nat \<Rightarrow> u64 \<Rightarrow> sched outcome" where
  "send_remote_req s h bits = do {
     require (h < MAX_HARTS);
     Some (s\<lparr>sc_remote_req := (sc_remote_req s)(h := sc_remote_req s h OR bits)\<rparr>) }"

definition take_remote_request :: "sched \<Rightarrow> nat \<Rightarrow> (u64 \<times> sched) outcome" where
  "take_remote_request s h = do {
     require (h < MAX_HARTS);
     Some (sc_remote_req s h, s\<lparr>sc_remote_req := (sc_remote_req s)(h := 0)\<rparr>) }"

text \<open>The requests \<^verbatim>\<open>tlb_shootdown_remote\<close> posts; \<open>online\<close> is the mask of harts that are up.\<close>

definition tlb_shootdown_remote :: "sched \<Rightarrow> nat \<Rightarrow> nat \<Rightarrow> (nat \<Rightarrow> bool) \<Rightarrow> sched" where
  "tlb_shootdown_remote s self_h cpu_count online =
     s\<lparr>sc_remote_req := (\<lambda>h. if h < min cpu_count MAX_HARTS \<and> h \<noteq> self_h \<and> online h
        then sc_remote_req s h OR REMOTE_TLB_FLUSH else sc_remote_req s h)\<rparr>"

section \<open>The scheduler's part of killing a process\<close>

text \<open>Step 2 of \<^verbatim>\<open>kill_process\<close> for the threads of the process other than the running one.\<close>

fun kill_victims :: "sched \<Rightarrow> nat list \<Rightarrow> (nat \<times> nat) list \<times> sched" where
  "kill_victims s [] = ([], s)"
| "kill_victims s (i # is) =
     (if t_state (thr s i) = Running then
        (let (force, s') = kill_victims (set_kill_req s i True) is in ((i, t_hart (thr s i)) # force, s'))
      else kill_victims (push_free (upd_thread (reap_stack s i) i
        (\<lambda>t. t\<lparr>t_state := Exited, t_frame_valid := False, t_ctx_valid := False\<rparr>)) i) is)"

definition kill_threads :: "sched \<Rightarrow> nat \<Rightarrow> nat \<Rightarrow> (bool \<times> (nat \<times> nat) list \<times> sched) outcome" where
  "kill_threads s h pid = do {
     let cur = sc_current s h;
     c \<leftarrow> thread_at s cur;
     let victims = take MAX_THREADS (filter (\<lambda>i. in_proc s pid i \<and> i \<noteq> cur) [0..<nthreads s]);
     let s = s\<lparr>sc_ready := (\<lambda>h p. filter (\<lambda>i. i \<notin> set victims) (sc_ready s h p))\<rparr>;
     let (force, s) = kill_victims s victims;
     s \<leftarrow> revoke_donations_for_proc s pid;
     require (length victims < MAX_THREADS);
     s \<leftarrow> revoke_donations_of s (victims @ [cur]) (Some pid);
     Some (t_proc c = Some pid, force, s) }"

fun send_force :: "sched \<Rightarrow> (nat \<times> nat) list \<Rightarrow> sched outcome" where
  "send_force s [] = Some s"
| "send_force s ((i, h) # fs) = do { s1 \<leftarrow> send_remote_req s h REMOTE_FORCE_KILL; send_force s1 fs }"

end
