(* ===== verification/Ipc.thy ===== *)
theory Ipc
  imports Objects Sched
begin

text \<open>
  Model of src/kernel/src/ipc.rs and of the process termination in sched.rs that uses it.

  \<open>system\<close> puts the kernel's parts side by side: the object tables and memory (\<open>kernel\<close>), the scheduler, and
  the static \<^verbatim>\<open>IPC\<close>. A call takes the running hart \<open>h\<close>. \<open>extract\<close> is the position of the first match together
  with its removal. \<^verbatim>\<open>kill_process\<close> is split at the wait for other harts: \<open>kill_begin\<close> before it,
  \<open>kill_finish\<close> after it. Interrupts sent to other harts are dropped here; which hart gets one
  is a result of the scheduler's operations.
\<close>

section \<open>Data\<close>

definition IPC_ACCEPT_ANY :: usize where "IPC_ACCEPT_ANY = USIZE_MAX"

datatype send_block = SendDone | SendNoPeer

datatype recv_block = RecvDone msg | RecvNoPeer

record pending_send =
  ps_tid :: nat
  ps_pid :: nat
  ps_dst :: nat
  ps_msg :: msg

record pending_recv =
  pr_tid :: nat
  pr_pid :: nat
  pr_src :: nat

record ipc_state =
  ip_sends :: "pending_send list"
  ip_recvs :: "pending_recv list"

definition ipc_static :: ipc_state where
  "ipc_static = \<lparr>ip_sends = [], ip_recvs = []\<rparr>"

record system =
  sy_kernel :: kernel
  sy_sched :: sched
  sy_ipc :: ipc_state

section \<open>Send and receive\<close>

text \<open>The receiver a message goes to: one that waits for this sender first, then one that accepts any.\<close>

definition match_recv :: "pending_recv list \<Rightarrow> nat \<Rightarrow> nat \<Rightarrow> (pending_recv list \<times> pending_recv \<times> pending_recv list) option" where
  "match_recv rs pid dst =
     (case List.extract (\<lambda>r. pr_pid r = dst \<and> pr_src r = pid) rs of
        Some x \<Rightarrow> Some x
      | None \<Rightarrow> List.extract (\<lambda>r. pr_pid r = dst \<and> pr_src r = IPC_ACCEPT_ANY) rs)"

definition match_send :: "pending_send list \<Rightarrow> nat \<Rightarrow> nat \<Rightarrow> (pending_send list \<times> pending_send \<times> pending_send list) option" where
  "match_send ss src pid = List.extract (\<lambda>x. ps_pid x = src \<and> ps_dst x = pid) ss"

definition ipc_send :: "system \<Rightarrow> nat \<Rightarrow> nat \<Rightarrow> nat \<Rightarrow> msg \<Rightarrow> ((send_block, usize) result \<times> system) outcome" where
  "ipc_send y h pid slot m =
     (case cap_target (sy_kernel y) pid slot of
        Err e \<Rightarrow> Some (Err (cap_errno e), y)
      | Ok (Shm _) \<Rightarrow> Some (Err (cap_errno WrongType), y)
      | Ok (Page _) \<Rightarrow> Some (Err (cap_errno WrongType), y)
      | Ok (Proc dst) \<Rightarrow>
          (let tid = current_id (sy_sched y) h; ipc = sy_ipc y in
           case match_recv (ip_recvs ipc) pid dst of
             Some (xs, r, zs) \<Rightarrow> do {
               (_, s) \<leftarrow> ipc_wake_with_msg (sy_sched y) h (pr_tid r) (Some m);
               Some (Ok SendDone, y\<lparr>sy_sched := s, sy_ipc := ipc\<lparr>ip_recvs := xs @ zs\<rparr>\<rparr>) }
           | None \<Rightarrow> do {
               let ipc = ipc\<lparr>ip_sends := ip_sends ipc @ [\<lparr>ps_tid = tid, ps_pid = pid, ps_dst = dst, ps_msg = m\<rparr>]\<rparr>;
               s \<leftarrow> donate_on_block (sy_sched y) tid dst;
               Some (Ok SendNoPeer, y\<lparr>sy_sched := s, sy_ipc := ipc\<rparr>) }))"

text \<open>The peer a receiver asks for: the resolution of its slot.\<close>

definition recv_source :: "kernel \<Rightarrow> nat \<Rightarrow> nat \<Rightarrow> (nat, usize) result" where
  "recv_source k pid slot =
     (case cap_target k pid slot of
        Ok (Proc p) \<Rightarrow> Ok p
      | Ok (Shm _) \<Rightarrow> Err (cap_errno WrongType)
      | Ok (Page _) \<Rightarrow> Err (cap_errno WrongType)
      | Err NotFound \<Rightarrow> Ok IPC_ACCEPT_ANY
      | Err e \<Rightarrow> Err (cap_errno e))"

definition ipc_recv :: "system \<Rightarrow> nat \<Rightarrow> nat \<Rightarrow> nat \<Rightarrow> ((recv_block, usize) result \<times> system) outcome" where
  "ipc_recv y h pid slot =
     (case recv_source (sy_kernel y) pid slot of
        Err e \<Rightarrow> Some (Err e, y)
      | Ok src \<Rightarrow>
          (let tid = current_id (sy_sched y) h; ipc = sy_ipc y in
           case match_send (ip_sends ipc) src pid of
             Some (xs, x, zs) \<Rightarrow> do {
               (_, s) \<leftarrow> ipc_wake_with_msg (sy_sched y) h (ps_tid x) None;
               Some (Ok (RecvDone (ps_msg x)), y\<lparr>sy_sched := s, sy_ipc := ipc\<lparr>ip_sends := xs @ zs\<rparr>\<rparr>) }
           | None \<Rightarrow> do {
               let ipc = ipc\<lparr>ip_recvs := ip_recvs ipc @ [\<lparr>pr_tid = tid, pr_pid = pid, pr_src = src\<rparr>]\<rparr>;
               s \<leftarrow> (if src \<noteq> IPC_ACCEPT_ANY then donate_on_block (sy_sched y) tid src else Some (sy_sched y));
               Some (Ok RecvNoPeer, y\<lparr>sy_sched := s, sy_ipc := ipc\<rparr>) }))"

section \<open>The end of a process\<close>

fun wake_all_err :: "sched \<Rightarrow> nat \<Rightarrow> nat list \<Rightarrow> usize \<Rightarrow> sched outcome" where
  "wake_all_err s h [] code = Some s"
| "wake_all_err s h (i # is) code = do { (_, s1) \<leftarrow> ipc_wake_with_err s h i code; wake_all_err s1 h is code }"

text \<open>The threads of surviving partners (\<^verbatim>\<open>wake_err\<close>), and the queues without the process.\<close>

definition purge_partners :: "ipc_state \<Rightarrow> nat \<Rightarrow> nat list" where
  "purge_partners ipc pid =
     map pr_tid (filter (\<lambda>r. pr_src r = pid \<and> pr_pid r \<noteq> pid) (ip_recvs ipc)) @
     map ps_tid (filter (\<lambda>x. ps_dst x = pid \<and> ps_pid x \<noteq> pid) (ip_sends ipc))"

definition purge_queues :: "ipc_state \<Rightarrow> nat \<Rightarrow> ipc_state" where
  "purge_queues ipc pid =
     \<lparr>ip_sends = filter (\<lambda>x. ps_pid x \<noteq> pid) (filter (\<lambda>x. ps_dst x \<noteq> pid) (ip_sends ipc)),
      ip_recvs = filter (\<lambda>r. pr_pid r \<noteq> pid) (filter (\<lambda>r. pr_src r \<noteq> pid) (ip_recvs ipc))\<rparr>"

definition purge_process :: "system \<Rightarrow> nat \<Rightarrow> nat \<Rightarrow> system outcome" where
  "purge_process y h pid = do {
     s \<leftarrow> wake_all_err (sy_sched y) h (purge_partners (sy_ipc y) pid) SYS_ERR_ENOENT;
     Some (y\<lparr>sy_sched := s, sy_ipc := purge_queues (sy_ipc y) pid\<rparr>) }"

text \<open>Steps 1 to 3 of \<^verbatim>\<open>kill_process\<close>. The results are \<^verbatim>\<open>cur_in_pid\<close> and the threads to wait for.\<close>

definition kill_begin :: "system \<Rightarrow> nat \<Rightarrow> nat \<Rightarrow> (bool \<times> (nat \<times> nat) list \<times> system) outcome" where
  "kill_begin y h pid = do {
     let y = y\<lparr>sy_sched := (sy_sched y)\<lparr>sc_fault_kills := sc_fault_kills (sy_sched y) + 1\<rparr>\<rparr>;
     y \<leftarrow> purge_process y h pid;
     (b, force, s) \<leftarrow> kill_threads (sy_sched y) h pid;
     s \<leftarrow> send_force s force;
     Some (b, force, y\<lparr>sy_sched := s\<rparr>) }"

text \<open>Steps 5 and 6: leave the dying address space, then destroy the process.\<close>

definition kill_finish :: "image \<Rightarrow> system \<Rightarrow> nat \<Rightarrow> nat \<Rightarrow> system outcome" where
  "kill_finish im y h pid = do {
     let s = set_satp (sy_sched y) h (im_kernel_root im);
     k \<leftarrow> destroy (sy_kernel y) pid;
     Some (y\<lparr>sy_kernel := k, sy_sched := s\<rparr>) }"

end
