(* ===== verification/Syscall.thy ===== *)
theory Syscall
  imports Ipc
begin

text \<open>
  Model of src/kernel/src/syscall.rs (the dispatch of a user ecall) and of the trap entry in
  src/kernel/src/arch/riscv64.rs: \<^verbatim>\<open>hartid\<close>, the timer, \<^verbatim>\<open>trap_handler\<close>.

  The live trap frame is the argument \<open>frame\<close> and, changed, part of the result. \<open>machine\<close> adds to the
  \<open>system\<close> the tick counter of logger.rs, the timer deadlines and the number of TLB flushes of each
  hart. \<open>ly\<close> is the memory layout; \<open>now\<close> and \<open>interval\<close> are the time register and the timer interval;
  \<open>regs\<close> are the registers at a context switch. \<open>others\<close> is what the other harts do to the system while
  \<^verbatim>\<open>kill_process\<close> waits for them. Programming the timer comparator and clearing sip.SSIP are not state of
  the model.
\<close>

section \<open>System calls\<close>

definition SYSCALL_EXIT :: usize where [simp]: "SYSCALL_EXIT = 1"
definition SYSCALL_GET_TICKS :: usize where [simp]: "SYSCALL_GET_TICKS = 2"
definition SYSCALL_IPC_SEND :: usize where [simp]: "SYSCALL_IPC_SEND = 3"
definition SYSCALL_IPC_RECV :: usize where [simp]: "SYSCALL_IPC_RECV = 4"
definition SYSCALL_SHM_MAP :: usize where [simp]: "SYSCALL_SHM_MAP = 5"
definition SYSCALL_CAP_REVOKE :: usize where [simp]: "SYSCALL_CAP_REVOKE = 6"
definition SYSCALL_CAP_DUP :: usize where [simp]: "SYSCALL_CAP_DUP = 7"
definition SYSCALL_SERVICE_REGISTER :: usize where [simp]: "SYSCALL_SERVICE_REGISTER = 10"
definition SYSCALL_SERVICE_CONNECT :: usize where [simp]: "SYSCALL_SERVICE_CONNECT = 11"
definition SYSCALL_MAP_DEVICE :: usize where [simp]: "SYSCALL_MAP_DEVICE = 12"
definition SYSCALL_MEM_GRANT :: usize where [simp]: "SYSCALL_MEM_GRANT = 13"
definition SYSCALL_MEM_MAP :: usize where [simp]: "SYSCALL_MEM_MAP = 14"

definition X_A2 :: nat where [simp]: "X_A2 = 11"
definition X_A3 :: nat where [simp]: "X_A3 = 12"
definition X_A4 :: nat where [simp]: "X_A4 = 13"
definition X_A5 :: nat where [simp]: "X_A5 = 14"
definition X_A7 :: nat where [simp]: "X_A7 = 16"

text \<open>\<open>SysExit\<close> is the result \<^verbatim>\<open>true\<close>; \<open>SysBlocked\<close>: the call switched to another thread.\<close>

datatype sys_result = SysExit | SysReturn frame | SysBlocked switch_target

definition sys_ret :: "frame \<Rightarrow> usize \<Rightarrow> frame outcome" where
  "sys_ret frame v = advance_sepc (frame[X_A0 := v])"

text \<open>The end of a call that changed the object tables.\<close>

definition sys_done :: "system \<Rightarrow> frame \<Rightarrow> kernel \<Rightarrow> usize \<Rightarrow> (sys_result \<times> system) outcome" where
  "sys_done y frame k v = do { f \<leftarrow> sys_ret frame v; Some (SysReturn f, y\<lparr>sy_kernel := k\<rparr>) }"

definition status :: "(unit, usize) result \<Rightarrow> usize" where
  "status r = (case r of Ok _ \<Rightarrow> 0 | Err code \<Rightarrow> code)"

definition cap_status :: "(unit, cap_error) result \<Rightarrow> usize" where
  "cap_status r = (case r of Ok _ \<Rightarrow> 0 | Err e \<Rightarrow> cap_errno e)"

definition sys_block :: "system \<Rightarrow> nat \<Rightarrow> frame \<Rightarrow> thread_ctx \<Rightarrow> (sys_result \<times> system) outcome" where
  "sys_block y h frame regs = do {
     (r, s) \<leftarrow> block_user_from_trap (sy_sched y) h frame regs;
     Some (case r of Inl f \<Rightarrow> SysReturn f | Inr t \<Rightarrow> SysBlocked t, y\<lparr>sy_sched := s\<rparr>) }"

definition sys_send :: "system \<Rightarrow> nat \<Rightarrow> frame \<Rightarrow> thread_ctx \<Rightarrow> (sys_result \<times> system) outcome" where
  "sys_send y h frame regs = do {
     pid \<leftarrow> current_proc (sy_sched y) h;
     (r, y) \<leftarrow> ipc_send y h pid (frame ! X_A0) [frame ! X_A1, frame ! X_A2, frame ! X_A3, frame ! X_A4, frame ! X_A5];
     (case r of
        Ok SendDone \<Rightarrow> do { f \<leftarrow> sys_ret frame 0; Some (SysReturn f, y) }
      | Ok SendNoPeer \<Rightarrow> sys_block y h frame regs
      | Err code \<Rightarrow> do { f \<leftarrow> sys_ret frame code; Some (SysReturn f, y) }) }"

definition sys_recv :: "system \<Rightarrow> nat \<Rightarrow> frame \<Rightarrow> thread_ctx \<Rightarrow> (sys_result \<times> system) outcome" where
  "sys_recv y h frame regs = do {
     pid \<leftarrow> current_proc (sy_sched y) h;
     (r, y) \<leftarrow> ipc_recv y h pid (frame ! X_A0);
     (case r of
        Ok (RecvDone m) \<Rightarrow> do {
          f \<leftarrow> write_words (frame[X_A0 := 0]) X_A1 m;
          f \<leftarrow> advance_sepc f;
          Some (SysReturn f, y) }
      | Ok RecvNoPeer \<Rightarrow> sys_block y h frame regs
      | Err code \<Rightarrow> do { f \<leftarrow> sys_ret frame code; Some (SysReturn f, y) }) }"

definition handle :: "layout \<Rightarrow> system \<Rightarrow> nat \<Rightarrow> frame \<Rightarrow> thread_ctx \<Rightarrow> nat \<Rightarrow> (sys_result \<times> system) outcome" where
  "handle ly y h frame regs ticks =
     (let k = sy_kernel y; a0 = frame ! X_A0; a1 = frame ! X_A1; a2 = frame ! X_A2; a7 = frame ! X_A7;
          pid = current_proc (sy_sched y) h
      in
      if a7 = SYSCALL_EXIT then Some (SysExit, y)
      else if a7 = SYSCALL_GET_TICKS then do { f \<leftarrow> sys_ret frame ticks; Some (SysReturn f, y) }
      else if a7 = SYSCALL_IPC_SEND then sys_send y h frame regs
      else if a7 = SYSCALL_IPC_RECV then sys_recv y h frame regs
      else if a7 = SYSCALL_SHM_MAP then do {
        p \<leftarrow> pid;
        (r, k) \<leftarrow> mmap_share k p a0 a1 a2;
        sys_done y frame k (case r of Ok shm \<Rightarrow> shm | Err code \<Rightarrow> code) }
      else if a7 = SYSCALL_CAP_REVOKE then do {
        p \<leftarrow> pid;
        (r, k) \<leftarrow> cap_revoke k p a0;
        sys_done y frame k (cap_status r) }
      else if a7 = SYSCALL_CAP_DUP then do {
        p \<leftarrow> pid;
        let (r, k) = cap_duplicate k p a0 a1;
        sys_done y frame k (cap_status r) }
      else if a7 = SYSCALL_SERVICE_REGISTER then do {
        p \<leftarrow> pid;
        let (r, k) = register_service k p a0;
        sys_done y frame k (status r) }
      else if a7 = SYSCALL_SERVICE_CONNECT then do {
        p \<leftarrow> pid;
        let (r, k) = connect k p a0 a1 a2;
        sys_done y frame k (status r) }
      else if a7 = SYSCALL_MAP_DEVICE then do {
        p \<leftarrow> pid;
        (r, k) \<leftarrow> device_map ly k p a0 a1;
        sys_done y frame k (status r) }
      else if a7 = SYSCALL_MEM_GRANT then do {
        p \<leftarrow> pid;
        (r, k) \<leftarrow> mem_grant k p a0 a1 a2;
        sys_done y frame k (status r) }
      else if a7 = SYSCALL_MEM_MAP then do {
        p \<leftarrow> pid;
        (r, k) \<leftarrow> mem_map k p a0 a1;
        sys_done y frame k (status r) }
      else do { f \<leftarrow> sys_ret frame SYS_ERR_ENOSYS; Some (SysReturn f, y) })"

section \<open>Traps\<close>

definition INTERRUPT_BIT :: usize where [simp]: "INTERRUPT_BIT = 2 ^ 63"
definition CAUSE_SUPERVISOR_TIMER :: usize where [simp]: "CAUSE_SUPERVISOR_TIMER = 5"
definition CAUSE_SUPERVISOR_SOFTWARE :: usize where [simp]: "CAUSE_SUPERVISOR_SOFTWARE = 1"
definition CAUSE_ECALL_FROM_U :: usize where [simp]: "CAUSE_ECALL_FROM_U = 8"

definition hart_trap_top :: "usize \<Rightarrow> nat \<Rightarrow> usize" where
  "hart_trap_top base h = base + (h + 1) * TRAP_STRIDE"

text \<open>The hart number from the sscratch register: the arithmetic is modulo \<open>2 ^ 64\<close>.\<close>

definition hartid :: "usize \<Rightarrow> usize \<Rightarrow> nat" where
  "hartid base sscratch =
     (let off = (sscratch + (USIZE_LIMIT - base)) mod USIZE_LIMIT; h = off div 2 ^ 15
      in if off mod 2 ^ 15 = 0 then (h + (USIZE_LIMIT - 1)) mod USIZE_LIMIT else h)"

definition trap_frame_ok :: "usize \<Rightarrow> nat \<Rightarrow> usize \<Rightarrow> bool" where
  "trap_frame_ok base h f =
     (let bottom = base + h * TRAP_STRIDE; top = bottom + TRAP_STRIDE; n = FRAME_WORDS * 8
      in \<not> (top < bottom \<or> top - bottom < n \<or> f < bottom \<or> f > top - n \<or> f mod 16 \<noteq> 0))"

definition timer_next :: "usize \<Rightarrow> usize \<Rightarrow> usize \<Rightarrow> usize" where
  "timer_next deadline interval now =
     (let ideal = (deadline + interval) mod USIZE_LIMIT
      in if ideal < now then (now + interval) mod USIZE_LIMIT else ideal)"

record machine =
  mc_sys :: system
  mc_ticks :: nat
  mc_deadline :: "nat \<Rightarrow> usize"
  mc_flushes :: "nat \<Rightarrow> nat"

text \<open>
  \<open>TrapReturn f\<close>: return through the interrupted frame, now \<open>f\<close>; \<open>TrapFrame i\<close>: return through the frame of
  thread \<open>i\<close>; \<open>TrapSwitch t\<close>: the thread was left by a switch; \<open>TrapHalt\<close>: the hart stops.
\<close>

datatype trap_result = TrapReturn frame | TrapFrame nat | TrapSwitch switch_target | TrapHalt

definition spp :: "frame \<Rightarrow> bool" where
  "spp frame \<longleftrightarrow> frame ! FRAME_SSTATUS div 2 ^ 8 mod 2 \<noteq> 0"

definition trap_timer :: "image \<Rightarrow> machine \<Rightarrow> nat \<Rightarrow> frame \<Rightarrow> usize \<Rightarrow> usize \<Rightarrow> (trap_result \<times> machine) outcome" where
  "trap_timer im mc h frame interval now = do {
     let mc = mc\<lparr>mc_ticks := (mc_ticks mc + 1) mod 2 ^ 64,
                mc_deadline := (mc_deadline mc)(h := timer_next (mc_deadline mc h) interval now)\<rparr>;
     (r, s) \<leftarrow> on_tick im (sy_sched (mc_sys mc)) h frame;
     Some (case r of None \<Rightarrow> TrapReturn frame | Some i \<Rightarrow> TrapFrame i, mc\<lparr>mc_sys := (mc_sys mc)\<lparr>sy_sched := s\<rparr>\<rparr>) }"

definition trap_software :: "image \<Rightarrow> machine \<Rightarrow> nat \<Rightarrow> frame \<Rightarrow> (trap_result \<times> machine) outcome" where
  "trap_software im mc h frame = do {
     (req, s) \<leftarrow> take_remote_request (sy_sched (mc_sys mc)) h;
     let mc = mc\<lparr>mc_sys := (mc_sys mc)\<lparr>sy_sched := s\<rparr>\<rparr>;
     let mc = (if req AND REMOTE_TLB_FLUSH \<noteq> 0 then mc\<lparr>mc_flushes := (mc_flushes mc)(h := mc_flushes mc h + 1)\<rparr> else mc);
     if req AND REMOTE_FORCE_KILL \<noteq> 0 then do {
       (r, s) \<leftarrow> force_kill_current im (sy_sched (mc_sys mc)) h;
       Some (case r of None \<Rightarrow> TrapReturn frame | Some i \<Rightarrow> TrapFrame i, mc\<lparr>mc_sys := (mc_sys mc)\<lparr>sy_sched := s\<rparr>\<rparr>) }
     else Some (TrapReturn frame, mc) }"

definition exit_system :: "system \<Rightarrow> nat \<Rightarrow> thread_ctx \<Rightarrow> (trap_result \<times> system) outcome" where
  "exit_system y h regs = do {
     (t, s) \<leftarrow> exit_from_trap (sy_sched y) h regs;
     Some (TrapSwitch t, y\<lparr>sy_sched := s\<rparr>) }"

definition kill_current_process :: "image \<Rightarrow> (system \<Rightarrow> system) \<Rightarrow> system \<Rightarrow> nat \<Rightarrow> thread_ctx \<Rightarrow> (trap_result \<times> system) outcome" where
  "kill_current_process im others y h regs = do {
     pid \<leftarrow> current_proc (sy_sched y) h;
     (cur_in_pid, force, y) \<leftarrow> kill_begin y h pid;
     y \<leftarrow> kill_finish im (if force \<noteq> [] then others y else y) h pid;
     if \<not> cur_in_pid then Some (TrapHalt, y) else exit_system y h regs }"

definition trap_handler ::
  "layout \<Rightarrow> image \<Rightarrow> (system \<Rightarrow> system) \<Rightarrow> machine \<Rightarrow> nat \<Rightarrow> usize \<Rightarrow> usize \<Rightarrow> usize \<Rightarrow> frame \<Rightarrow> thread_ctx \<Rightarrow> usize \<Rightarrow> usize
   \<Rightarrow> (trap_result \<times> machine) outcome" where
  "trap_handler ly im others mc h base fptr scause frame regs interval now =
     (if \<not> trap_frame_ok base h fptr then Some (TrapHalt, mc)
      else if INTERRUPT_BIT \<le> scause then
        (if scause mod INTERRUPT_BIT = CAUSE_SUPERVISOR_TIMER then trap_timer im mc h frame interval now
         else if scause mod INTERRUPT_BIT = CAUSE_SUPERVISOR_SOFTWARE then trap_software im mc h frame
         else Some (TrapHalt, mc))
      else if scause = CAUSE_ECALL_FROM_U then
        (if spp frame then Some (TrapHalt, mc)
         else do {
           (r, y) \<leftarrow> handle ly (mc_sys mc) h frame regs (mc_ticks mc);
           (r, y) \<leftarrow> (case r of
               SysExit \<Rightarrow> exit_system y h regs
             | SysReturn f \<Rightarrow> Some (TrapReturn f, y)
             | SysBlocked t \<Rightarrow> Some (TrapSwitch t, y));
           Some (r, mc\<lparr>mc_sys := y\<rparr>) })
      else if \<not> spp frame then do {
        (r, y) \<leftarrow> kill_current_process im others (mc_sys mc) h regs;
        Some (r, mc\<lparr>mc_sys := y\<rparr>) }
      else Some (TrapHalt, mc))"

end
