(* ===== verification/File_Service.thy ===== *)
theory File_Service
  imports Page_Calls Syscall
begin

text \<open>
  The file server, the memory server and the kernel together. \<open>kcall\<close> is what a system call that does
  not block does for a process (\<open>handle_kcall\<close>: this is what the dispatcher of the kernel does). A
  message to the other server is a rendezvous: a send of the file server to the memory server runs one
  round of the memory server on the message, and its reply is what the next receive returns.
\<close>

section \<open>System calls of a process\<close>

definition kcall :: "layout \<Rightarrow> nat \<Rightarrow> usize \<Rightarrow> usize list \<Rightarrow> kernel \<Rightarrow> (usize \<times> kernel) option" where
  "kcall ly pid n args k =
     (if n = SYS_SHM_MAP then
        map_option (\<lambda>(r, k). (case r of Ok shm \<Rightarrow> shm | Err code \<Rightarrow> code, k)) (mmap_share k pid (args ! 0) (args ! 1) (args ! 2))
      else if n = SYS_CAP_DUP then (case cap_duplicate k pid (args ! 0) (args ! 1) of (r, k) \<Rightarrow> Some (cap_status r, k))
      else if n = SYS_SERVICE_REGISTER then (case register_service k pid (args ! 0) of (r, k) \<Rightarrow> Some (status r, k))
      else if n = SYS_SERVICE_CONNECT then
        (case connect k pid (args ! 0) (args ! 1) (args ! 2) of (r, k) \<Rightarrow> Some (status r, k))
      else if n = SYS_MAP_DEVICE then map_option (\<lambda>(r, k). (status r, k)) (device_map ly k pid (args ! 0) (args ! 1))
      else if n = SYS_MEM_GRANT then
        map_option (\<lambda>(r, k). (status r, k)) (mem_grant k pid (args ! 0) (args ! 1) (args ! 2))
      else if n = SYS_MEM_MAP then map_option (\<lambda>(r, k). (status r, k)) (mem_map k pid (args ! 0) (args ! 1))
      else Some (SYS_ERR_ENOSYS, k))"

lemma handle_kcall:
  assumes "current_proc (sy_sched y) h = Some pid"
    and "frame ! X_A7 \<in> {SYS_SHM_MAP, SYS_CAP_DUP, SYS_SERVICE_REGISTER, SYS_SERVICE_CONNECT, SYS_MAP_DEVICE, SYS_MEM_GRANT, SYS_MEM_MAP}"
  shows "handle ly y h frame regs ticks =
    (case kcall ly pid (frame ! X_A7) [frame ! X_A0, frame ! X_A1, frame ! X_A2] (sy_kernel y) of
       Some (v, k) \<Rightarrow> sys_done y frame k v | None \<Rightarrow> None)"
  using assms(2)
  by (elim insertE emptyE) (simp_all add: handle_def kcall_def Let_def assms(1) split: option.split prod.split)

section \<open>One round of the memory server\<close>

text \<open>The message to receive, and the reply.\<close>

definition ms_call ::
  "layout \<Rightarrow> nat \<Rightarrow> usize \<Rightarrow> usize list \<Rightarrow> kernel \<times> msg option \<times> msg option \<Rightarrow>
   (usize list \<times> kernel \<times> msg option \<times> msg option) option" where
  "ms_call ly ms n args = (\<lambda>(k, inbox, outbox).
     if n = SYS_IPC_RECV then (case inbox of Some m \<Rightarrow> Some (0 # m, k, None, outbox) | None \<Rightarrow> None)
     else if n = SYS_IPC_SEND then
       (case cap_target k ms (args ! 0) of
          Ok (Proc _) \<Rightarrow> Some ([0], k, inbox, Some (tl args))
        | Ok _ \<Rightarrow> Some ([cap_errno WrongType], k, inbox, outbox)
        | Err e \<Rightarrow> Some ([cap_errno e], k, inbox, outbox))
     else map_option (\<lambda>(v, k). ([v], k, inbox, outbox)) (kcall ly ms n args k))"

definition ms_round :: "layout \<Rightarrow> nat \<Rightarrow> bool list \<Rightarrow> msg \<Rightarrow> kernel \<Rightarrow> (msg \<times> bool list \<times> kernel) option" where
  "ms_round ly ms pool m k =
     (case urun (kernel_world (ms_call ly ms) ms) (memory_server_body pool) (k, Some m, None) of
        Some (Some pool, k, _, Some reply) \<Rightarrow> Some (reply, pool, k)
      | _ \<Rightarrow> None)"

section \<open>The world of the file server\<close>

text \<open>The state of the memory server, and the reply of its last round.\<close>

definition fs_call ::
  "layout \<Rightarrow> nat \<Rightarrow> nat \<Rightarrow> usize \<Rightarrow> usize list \<Rightarrow> kernel \<times> bool list \<times> msg option \<Rightarrow>
   (usize list \<times> kernel \<times> bool list \<times> msg option) option" where
  "fs_call ly fs ms n args = (\<lambda>(k, pool, inbox).
     if n = SYS_IPC_RECV then (case inbox of Some m \<Rightarrow> Some (0 # m, k, pool, None) | None \<Rightarrow> None)
     else if n = SYS_IPC_SEND then
       (case cap_target k fs (args ! 0) of
          Ok (Proc p) \<Rightarrow>
            if p = ms \<and> cap_target k ms SERVER_ACCEPT_SLOT = Ok (Proc fs) then
              map_option (\<lambda>(reply, pool, k). ([0], k, pool, Some reply)) (ms_round ly ms pool (tl args) k)
            else None
        | Ok _ \<Rightarrow> Some ([cap_errno WrongType], k, pool, inbox)
        | Err e \<Rightarrow> Some ([cap_errno e], k, pool, inbox))
     else map_option (\<lambda>(v, k). ([v], k, pool, inbox)) (kcall ly fs n args k))"

abbreviation fs_world :: "layout \<Rightarrow> nat \<Rightarrow> nat \<Rightarrow> (kernel \<times> bool list \<times> msg option) world" where
  "fs_world ly fs ms \<equiv> kernel_world (fs_call ly fs ms) fs"

lemma kernel_world_call [simp]: "w_call (kernel_world call pid) = call"
  by (simp add: kernel_world_def)

section \<open>Requests to the memory server\<close>

lemma alloc_page_find:
  "alloc_page_from is pool dst =
     (case find (\<lambda>i. pool ! (i - SERVER_POOL_START)) is of
        None \<Rightarrow> URet (Err ERR_ENOMEM, pool)
      | Some i \<Rightarrow> sys_mem_grant i SERVER_ACCEPT_SLOT dst (\<lambda>rc.
          if rc \<noteq> 0 then URet (Err rc, pool) else URet (Ok (), pool[i - SERVER_POOL_START := False])))"
  by (induction "is" pool dst rule: alloc_page_from.induct) simp_all

lemma free_slot_find:
  "free_slot_from is pool =
     (case find (\<lambda>i. \<not> pool ! (i - SERVER_POOL_START)) is of None \<Rightarrow> (None, pool) | Some i \<Rightarrow> (Some i, pool[i - SERVER_POOL_START := True]))"
  by (induction "is" pool rule: free_slot_from.induct) simp_all

text \<open>Slot \<open>i + 1\<close> of the memory server is position \<open>i\<close> of the pool.\<close>

lemma find_map_Suc: "find P (map Suc xs) = map_option Suc (find (\<lambda>i. P (Suc i)) xs)"
  by (induction xs) simp_all

lemma find_pool:
  "find P [SERVER_POOL_START..<SERVER_POOL_END + 1] = map_option Suc (find (\<lambda>i. P (Suc i)) [0..<4])"
proof -
  have "[SERVER_POOL_START..<SERVER_POOL_END + 1] = map Suc [0..<4]" by (simp add: map_Suc_upt)
  then show ?thesis by (simp only: find_map_Suc)
qed

lemma alloc_page_eq:
  "alloc_page pool dst =
     (case find (\<lambda>i. pool ! i) [0..<4] of
        None \<Rightarrow> URet (Err ERR_ENOMEM, pool)
      | Some i \<Rightarrow> sys_mem_grant (Suc i) 0 dst (\<lambda>rc.
          if rc \<noteq> 0 then URet (Err rc, pool) else URet (Ok (), pool[i := False])))"
  unfolding alloc_page_def alloc_page_find find_pool
  by (cases "find (\<lambda>i. pool ! i) [0..<4]") (simp_all cong: if_cong del: upt_rec_numeral)

lemma free_slot_eq:
  "free_slot pool =
     (case find (\<lambda>i. \<not> pool ! i) [0..<4] of None \<Rightarrow> (None, pool) | Some i \<Rightarrow> (Some (Suc i), pool[i := True]))"
  unfolding free_slot_def free_slot_find find_pool
  by (cases "find (\<lambda>i. \<not> pool ! i) [0..<4]") (simp_all del: upt_rec_numeral)

lemma ms_round_alloc:
  assumes a: "cap_at k ms 0 = Some (Proc c)"
  shows "find (\<lambda>i. pool ! i) [0..<4] = None \<Longrightarrow>
      ms_round ly ms pool [OP_ALLOC, dst, 0, 0, 0] k = Some ([132, ERR_ENOMEM, 0, 0, 0], pool, k)"
    and "find (\<lambda>i. pool ! i) [0..<4] = Some i \<Longrightarrow> mem_grant k ms (Suc i) 0 dst = Some (Ok (), k') \<Longrightarrow>
      cap_at k' ms 0 = Some (Proc c) \<Longrightarrow>
      ms_round ly ms pool [OP_ALLOC, dst, 0, 0, 0] k = Some ([132, 0, 0, 0, 0], pool[i := False], k')"
    and "find (\<lambda>i. pool ! i) [0..<4] = Some i \<Longrightarrow> mem_grant k ms (Suc i) 0 dst = Some (Err e, k) \<Longrightarrow> e \<noteq> 0 \<Longrightarrow>
      ms_round ly ms pool [OP_ALLOC, dst, 0, 0, 0] k = Some ([132, e, 0, 0, 0], pool, k)"
proof -
  note d = ms_round_def memory_server_body_def memory_op_def alloc_page_eq syscall_defs
    ms_call_def kcall_def cap_target_cap_at
  show "ms_round ly ms pool [OP_ALLOC, dst, 0, 0, 0] k = Some ([132, ERR_ENOMEM, 0, 0, 0], pool, k)"
    if "find (\<lambda>i. pool ! i) [0..<4] = None" using that a by (simp add: d del: upt_rec_numeral)
  show "ms_round ly ms pool [OP_ALLOC, dst, 0, 0, 0] k = Some ([132, 0, 0, 0, 0], pool[i := False], k')"
    if "find (\<lambda>i. pool ! i) [0..<4] = Some i" "mem_grant k ms (Suc i) 0 dst = Some (Ok (), k')" "cap_at k' ms 0 = Some (Proc c)"
    using that a by (simp add: d status_def del: upt_rec_numeral)
  show "ms_round ly ms pool [OP_ALLOC, dst, 0, 0, 0] k = Some ([132, e, 0, 0, 0], pool, k)"
    if "find (\<lambda>i. pool ! i) [0..<4] = Some i" "mem_grant k ms (Suc i) 0 dst = Some (Err e, k)" "e \<noteq> 0"
    using that a by (simp add: d status_def del: upt_rec_numeral)
qed

lemma ms_round_free:
  assumes a: "cap_at k ms 0 = Some (Proc c)"
  shows "find (\<lambda>i. \<not> pool ! i) [0..<4] = Some i \<Longrightarrow>
      ms_round ly ms pool [OP_FREE, src, 0, 0, 0] k = Some ([133, 0, Suc i, 0, 0], pool[i := True], k)"
proof -
  note d = ms_round_def memory_server_body_def memory_op_def free_slot_eq syscall_defs
    ms_call_def kcall_def cap_target_cap_at
  show "ms_round ly ms pool [OP_FREE, src, 0, 0, 0] k = Some ([133, 0, Suc i, 0, 0], pool[i := True], k)"
    if "find (\<lambda>i. \<not> pool ! i) [0..<4] = Some i" using that a by (simp add: d del: upt_rec_numeral)
qed

end
