(* ===== verification/File_Inv.thy ===== *)
theory File_Inv
  imports File_Service
begin

text \<open>
  The invariant of the file service: connections, the pool of the memory server, the pages of files.
  \<open>M\<close> is the set of files that have a page, \<open>A\<close> the blocks handed out by the page allocator, \<open>root\<close> the page table
  of the file server.
\<close>

section \<open>The invariant\<close>

text \<open>A page of process \<open>pid\<close> that is not mapped and not in use by the address space \<open>root\<close>.\<close>

definition loose :: "kernel \<Rightarrow> nat \<Rightarrow> usize \<Rightarrow> (nat \<times> nat) set \<Rightarrow> nat \<Rightarrow> bool" where
  "loose k pid root A q \<longleftrightarrow> (\<exists>rec. get_page k q = Some rec \<and> pr_owner rec = pid \<and> pr_map_va rec = None \<and> (pr_paddr rec, 0) \<in> A \<and>
     (\<forall>x. own_at (k_mm k) root x \<noteq> Some (pr_paddr rec)))"

definition holds_file :: "kernel \<Rightarrow> nat \<Rightarrow> usize \<Rightarrow> (nat \<times> nat) set \<Rightarrow> nat \<Rightarrow> nat \<Rightarrow> bool" where
  "holds_file k fs root A fd q \<longleftrightarrow> (\<exists>rec. get_page k q = Some rec \<and> pr_owner rec = fs \<and> pr_map_va rec = Some (file_page fd) \<and>
     (pr_paddr rec, 0) \<in> A \<and> leaf_pte (k_mm k) root (file_page fd) = rw_leaf (pr_paddr rec))"

definition pool_ok :: "kernel \<Rightarrow> nat \<Rightarrow> usize \<Rightarrow> (nat \<times> nat) set \<Rightarrow> bool list \<Rightarrow> bool" where
  "pool_ok k ms root A pool \<longleftrightarrow> length pool = 4 \<and>
     (\<forall>i<4. if pool ! i then \<exists>q. cap_at k ms (Suc i) = Some (Page q) \<and> loose k ms root A q else cap_at k ms (Suc i) = None)"

definition files_ok :: "kernel \<Rightarrow> nat \<Rightarrow> usize \<Rightarrow> (nat \<times> nat) set \<Rightarrow> nat set \<Rightarrow> bool" where
  "files_ok k fs root A M \<longleftrightarrow> (\<forall>fd<4.
     if fd \<in> M then \<exists>q. cap_at k fs (3 + fd) = Some (Page q) \<and> holds_file k fs root A fd q
     else leaf_pte (k_mm k) root (file_page fd) = 0 \<and>
       (\<forall>c. cap_at k fs (3 + fd) = Some c \<longrightarrow> (\<exists>q. c = Page q \<and> loose k fs root A q)))"

definition pages_unique :: "kernel \<Rightarrow> bool" where
  "pages_unique k \<longleftrightarrow>
     (\<forall>p s p' s' q. cap_at k p s = Some (Page q) \<longrightarrow> cap_at k p' s' = Some (Page q) \<longrightarrow> p = p' \<and> s = s') \<and>
     (\<forall>i j ri rj. get_page k i = Some ri \<longrightarrow> get_page k j = Some rj \<longrightarrow> pr_paddr ri = pr_paddr rj \<longrightarrow> i = j)"

text \<open>The pages of the pool and of the file slots are at most four.\<close>

definition page_count :: "kernel \<Rightarrow> nat \<Rightarrow> bool list \<Rightarrow> nat" where
  "page_count k fs pool = (\<Sum>i<4. of_bool (pool ! i) + of_bool (cap_at k fs (3 + i) \<noteq> None))"

definition service_ok :: "nat \<Rightarrow> nat \<Rightarrow> usize \<Rightarrow> (nat \<times> nat) set \<Rightarrow> nat set \<Rightarrow> kernel \<Rightarrow> bool list \<Rightarrow> bool" where
  "service_ok fs ms root A M k pool \<longleftrightarrow>
     k_wf k \<and> fs \<noteq> ms \<and> pid_root k fs = Some root \<and> pid_root k ms \<noteq> None \<and>
     cap_at k fs 2 = Some (Proc ms) \<and> cap_at k ms 0 = Some (Proc fs) \<and>
     space_ok (k_mm k) root A \<and> phys_ok (k_mm k) \<and> window (user_writable fs k) USER_SHM_VA 4096 \<and>
     pages_unique k \<and> pool_ok k ms root A pool \<and> files_ok k fs root A M \<and> page_count k fs pool \<le> 4"

lemma service_okD:
  assumes "service_ok fs ms root A M k pool"
  shows "k_wf k" "fs \<noteq> ms" "pid_root k fs = Some root" "pid_root k ms \<noteq> None"
    "cap_at k fs 2 = Some (Proc ms)" "cap_at k ms 0 = Some (Proc fs)"
    "space_ok (k_mm k) root A" "phys_ok (k_mm k)" "window (user_writable fs k) USER_SHM_VA 4096"
    "pages_unique k" "pool_ok k ms root A pool" "files_ok k fs root A M" "page_count k fs pool \<le> 4"
  using assms unfolding service_ok_def by - (elim conjE, assumption)+

lemma service_okI:
  assumes "k_wf k" "fs \<noteq> ms" "pid_root k fs = Some root" "pid_root k ms \<noteq> None"
    "cap_at k fs 2 = Some (Proc ms)" "cap_at k ms 0 = Some (Proc fs)"
    "space_ok (k_mm k) root A" "phys_ok (k_mm k)" "window (user_writable fs k) USER_SHM_VA 4096"
    "pages_unique k" "pool_ok k ms root A pool" "files_ok k fs root A M" "page_count k fs pool \<le> 4"
  shows "service_ok fs ms root A M k pool"
  using assms unfolding service_ok_def by blast

lemma file_page_props:
  assumes "fd < 4"
  shows "file_page fd mod 4096 = 0" "file_page fd + 4096 \<le> 2 ^ 38" "file_page fd < 2 ^ 38" "file_page fd < 2 ^ 39"
    "file_page fd div 4096 = 0x74000 + fd"
proof -
  have e: "file_page fd = 4096 * (0x74000 + fd)" by (simp add: file_page_def)
  show "file_page fd mod 4096 = 0" "file_page fd div 4096 = 0x74000 + fd" unfolding e by simp_all
  show "file_page fd + 4096 \<le> 2 ^ 38" "file_page fd < 2 ^ 38" "file_page fd < 2 ^ 39" using assms by (simp_all add: file_page_def)
qed

lemma pool_okD:
  assumes "pool_ok k ms root A pool" "i < 4"
  shows "length pool = 4" "pool ! i \<Longrightarrow> \<exists>q. cap_at k ms (Suc i) = Some (Page q) \<and> loose k ms root A q"
    "\<not> pool ! i \<Longrightarrow> cap_at k ms (Suc i) = None"
  using assms unfolding pool_ok_def by auto

lemma files_okD:
  assumes "files_ok k fs root A M" "fd < 4"
  shows "fd \<in> M \<Longrightarrow> \<exists>q. cap_at k fs (3 + fd) = Some (Page q) \<and> holds_file k fs root A fd q"
    "fd \<notin> M \<Longrightarrow> leaf_pte (k_mm k) root (file_page fd) = 0"
    "fd \<notin> M \<Longrightarrow> cap_at k fs (3 + fd) = Some c \<Longrightarrow> \<exists>q. c = Page q \<and> loose k fs root A q"
  using assms unfolding files_ok_def by auto

section \<open>Memory accesses keep the invariant\<close>

lemma user_store_service:
  assumes s: "service_ok fs ms root A M k pool" and st: "user_store fs a b k = Some k'"
  shows "service_ok fs ms root A M k' pool"
proof -
  note d = service_okD [OF s]
  obtain pa where pa: "user_access (k_mm k) root PTE_W a = Some pa" and k': "k' = k\<lparr>k_mm := put_byte (k_mm k) pa b\<rparr>"
    using st d(3) by (auto simp: user_store_def proc_access_def)
  note p = put_byte_access [OF d(7) pa]
  have wr: "user_writable fs k' = user_writable fs k"
    using d(3) p(2) by (auto simp: user_writable_def proc_access_def k' fun_eq_iff)
  have lo: "loose k' pid root A q = loose k pid root A q" for pid q by (simp add: loose_def k' p(3))
  have ho: "holds_file k' fs root A fd q = holds_file k fs root A fd q" for fd q by (simp add: holds_file_def k' p(4))
  have "pool_ok k' ms root A pool" using d(11) unfolding pool_ok_def lo by (simp add: k')
  moreover have "files_ok k' fs root A M" using d(12) unfolding files_ok_def lo ho by (simp add: k' p(4))
  ultimately show ?thesis
    by (intro service_okI) (use d p(1) wr in \<open>simp_all add: k' pages_unique_def page_count_def phys_ok_def put_byte_def\<close>)
qed

text \<open>A program that makes no call keeps what every store keeps.\<close>

lemma urun_stores:
  assumes "usafe acc (\<lambda>_ _. False) Q p" "urun (kernel_world call pid) p (k, x) = Some (r, k', x')" "I k"
    and I: "\<And>k k' a b. I k \<Longrightarrow> user_store pid a b k = Some k' \<Longrightarrow> I k'"
  shows "x' = x \<and> I k'"
  using assms(1-3)
proof (induction p arbitrary: k)
  case (UStore a b p)
  then show ?case by (auto simp: kernel_world_def split: option.split_asm dest: I)
qed (auto simp: kernel_world_def split: option.split_asm)

end
