(* ===== verification/File_Demo.thy ===== *)
theory File_Demo
  imports File_Inv Kernel_Map
begin

text \<open>
  A concrete state of the file service: the page allocator hands out pages, three of them are the page
  tables of the file server, one is the window shared with the client, one is in the pool of the memory server.
\<close>

section \<open>Pages\<close>

definition blank_pages :: "mm \<Rightarrow> usize list \<Rightarrow> (nat \<times> nat) set \<Rightarrow> bool" where
  "blank_pages s ps F \<longleftrightarrow> same_geom demo_mm s \<and> distinct ps \<and> (\<forall>p\<in>set ps. \<forall>j<512. ent (pmem s) p j = 0) \<and>
     (\<exists>B. buddy_rel s F B {} \<and> block_region s ` B = (\<lambda>p. (p, 0)) ` set ps)"

lemma blank_pages_more:
  assumes z: "blank_pages s ps F" and x: "x \<in> F"
  obtains i cur p s2 where "blank_pages s2 (p # ps) (F - {(i, cur)} \<union> {(i + 2 ^ c, c) | c. c < cur})" "(i, cur) \<in> F"
proof -
  obtain B where B: "buddy_rel s F B {}" "block_region s ` B = (\<lambda>p. (p, 0)) ` set ps" using z by (auto simp: blank_pages_def)
  let ?p = "page_addr s"
  obtain i cur s1 s2 where s2: "buddy_rel s2 (F - {(i, cur)} \<union> {(i + 2 ^ c, c) | c. c < cur}) (insert (i, 0) B) {}" "(i, cur) \<in> F"
    "(?p i, 0) \<notin> block_region s ` B" "same_geom s s2" "\<forall>j<512. ent (pmem s2) (?p i) j = 0"
    "\<forall>b\<in>block_region s ` B. \<forall>x\<in>region b. pmem s2 x = pmem s x"
    by (rule take_zero_page [OF B(1) x]) (rule that; assumption)
  have "ent (pmem s2) p j = ent (pmem s) p j" if "p \<in> set ps" "j < 512" for p j
    by (rule ent_same [OF _ that(2)]) (use s2(6) that(1) in \<open>auto simp: same_on_def B(2)\<close>)
  then have zero: "\<forall>p\<in>set (?p i # ps). \<forall>j<512. ent (pmem s2) p j = 0" using z s2(5) by (simp add: blank_pages_def)
  have reg: "block_region s2 ` insert (i, 0) B = (\<lambda>p. (p, 0)) ` set (?p i # ps)"
    using B(2) by (simp add: same_geom_region [OF s2(4)]) (simp add: block_region_def)
  have geom: "same_geom demo_mm s2" using z s2(4) by (simp add: blank_pages_def same_geom_def)
  have dist: "distinct (?p i # ps)" using z s2(3) unfolding B(2) blank_pages_def by auto
  have "blank_pages s2 (?p i # ps) (F - {(i, cur)} \<union> {(i + 2 ^ c, c) | c. c < cur})"
    unfolding blank_pages_def using geom dist zero reg s2(1) by (intro conjI exI)
  then show ?thesis using that s2(2) by blast
qed

text \<open>Up to twelve pages from the allocator with one free block of 4096 pages.\<close>

lemma demo_pages_n:
  assumes "n < 12"
  shows "\<exists>s ps F. blank_pages s ps F \<and> length ps = Suc n \<and> finite F \<and> card F + n \<ge> 12"
  using assms
proof (induction n)
  case 0
  have "blank_pages demo_mm [] {(0, 12)}" using demo_rel by (auto simp: blank_pages_def same_geom_def)
  note z = this
  obtain i cur p s where s: "blank_pages s [p] ({(0, 12)} - {(i, cur)} \<union> {(i + 2 ^ c, c) | c. c < cur})" "(i, cur) \<in> {(0, 12)}"
    by (rule blank_pages_more [OF z insertI1]) (rule that; assumption)
  have F: "{(0, 12)} - {(i, cur)} \<union> {(i + 2 ^ c, c) | c. c < cur} = (\<lambda>c. (2 ^ c, c)) ` {..<12}" using s(2) by auto
  have "card ((\<lambda>c. (2 ^ c :: nat, c)) ` {..<12 :: nat}) = 12" by (subst card_image) (auto simp: inj_on_def)
  then show ?case using s(1) unfolding F by (intro exI [of _ s] exI [of _ "[p]"] exI [of _ "(\<lambda>c. (2 ^ c, c)) ` {..<12}"]) simp
next
  case (Suc n)
  then obtain s ps F where s: "blank_pages s ps F" "length ps = Suc n" "finite F" "card F + n \<ge> 12" by auto
  then obtain x where "x \<in> F" using Suc.prems by (metis add_0 card.empty equals0I not_less Suc_lessD)
  obtain i cur p s2 where s2: "blank_pages s2 (p # ps) (F - {(i, cur)} \<union> {(i + 2 ^ c, c) | c. c < cur})" "(i, cur) \<in> F"
    by (rule blank_pages_more [OF s(1) \<open>x \<in> F\<close>]) (rule that; assumption)
  have "card (F - {(i, cur)}) = card F - 1" using s2(2) s(3) by simp
  moreover have "card (F - {(i, cur)}) \<le> card (F - {(i, cur)} \<union> {(i + 2 ^ c, c) | c. c < cur})" by (rule card_mono) (use s(3) in auto)
  moreover have "finite (F - {(i, cur)} \<union> {(i + 2 ^ c, c) | c. c < cur})" using s(3) by simp
  ultimately show ?case using s(2,4) s2(1)
    by (intro exI [of _ s2] exI [of _ "p # ps"] exI [of _ "F - {(i, cur)} \<union> {(i + 2 ^ c, c) | c. c < cur}"]) simp
qed

section \<open>An address space with one page\<close>

text \<open>The page \<open>p\<close> is mapped at the shared window, through the tables \<open>t1\<close> and \<open>t0\<close>.\<close>

definition window_tables :: "mm \<Rightarrow> usize \<Rightarrow> usize \<Rightarrow> usize \<Rightarrow> usize \<Rightarrow> bool" where
  "window_tables s root t1 t0 p \<longleftrightarrow> (\<forall>j<512. ent (pmem s) root j = (if j = 1 then pte t1 PTE_V else 0) \<and>
     ent (pmem s) t1 j = (if j = 128 then pte t0 PTE_V else 0) \<and> ent (pmem s) t0 j = (if j = 0 then rw_leaf p else 0))"

definition put_window :: "mm \<Rightarrow> usize \<Rightarrow> usize \<Rightarrow> usize \<Rightarrow> usize \<Rightarrow> mm" where
  "put_window s root t1 t0 p =
     pte_write (pte_write (pte_write s root 1 (pte t1 PTE_V)) t1 128 (pte t0 PTE_V)) t0 0 (rw_leaf p)"

lemma put_window_ok:
  assumes i: "buddy_inv s A" and A: "(root, 0) \<in> A" "(t1, 0) \<in> A" "(t0, 0) \<in> A" "distinct [root, t1, t0]"
    and z: "\<forall>x\<in>{root, t1, t0}. \<forall>j<512. ent (pmem s) x j = 0"
  shows "buddy_inv (put_window s root t1 t0 p) A" "window_tables (put_window s root t1 t0 p) root t1 t0 p"
    "\<And>x j. (x, 0) \<in> A \<Longrightarrow> x \<notin> {root, t1, t0} \<Longrightarrow> j < 512 \<Longrightarrow> ent (pmem (put_window s root t1 t0 p)) x j = ent (pmem s) x j"
proof -
  show "buddy_inv (put_window s root t1 t0 p) A" unfolding put_window_def by (intro pte_write_inv i) (simp_all add: A)
  have sep: "x = y \<or> region (x, 0) \<inter> region (y, 0) = {}" if "(x, 0) \<in> A" "(y, 0) \<in> A" for x y
    using apartD [OF buddy_inv_apart [OF i] that] by auto
  have ent: "ent (pmem (put_window s root t1 t0 p)) x j = (if x = t0 \<and> j = 0 then rw_leaf p else if x = t1 \<and> j = 128 then pte t0 PTE_V
      else if x = root \<and> j = 1 then pte t1 PTE_V else ent (pmem s) x j)" if x: "(x, 0) \<in> A" "j < 512" for x j
    unfolding put_window_def pte_write_pmem
    using ent_store64 [OF sep [OF A(3) x(1)], of 0 j] ent_store64 [OF sep [OF A(2) x(1)], of 128 j]
      ent_store64 [OF sep [OF A(1) x(1)], of 1 j] x(2) by auto
  show "window_tables (put_window s root t1 t0 p) root t1 t0 p" using ent A z by (auto simp: window_tables_def)
  show "ent (pmem (put_window s root t1 t0 p)) x j = ent (pmem s) x j" if "(x, 0) \<in> A" "x \<notin> {root, t1, t0}" "j < 512" for x j
    using ent [OF that(1,3)] that(2) by auto
qed

lemma window_space:
  assumes A: "(root, 0) \<in> A" "(t1, 0) \<in> A" "(t0, 0) \<in> A" "(p, 0) \<in> A" "distinct [root, t1, t0, p]" and i: "buddy_inv s A" "phys_ok s"
    and e: "window_tables s root t1 t0 p"
  shows "space_ok s root A" "leaf_pte s root v = (if vpn2 v = 1 \<and> vpn1 v = 128 \<and> vpn0 v = 0 then rw_leaf p else 0)"
    "own_at s root x = Some a \<longleftrightarrow> x = Node Root \<and> a = root \<or> x = Node (N1 1) \<and> a = t1 \<or> x = Node (N0 1 128) \<and> a = t0 \<or>
      x = Leaf 1 128 0 \<and> a = p"
proof -
  have e: "\<forall>j<512. ent (pmem s) root j = (if j = 1 then pte t1 PTE_V else 0)"
      "\<forall>j<512. ent (pmem s) t1 j = (if j = 128 then pte t0 PTE_V else 0)"
      "\<forall>j<512. ent (pmem s) t0 j = (if j = 0 then rw_leaf p else 0)" using e by (simp_all add: window_tables_def)
  have pages: "a mod 4096 = 0" "a < 2 ^ 56" "in_ram s a" if "(a, 0) \<in> A" for a
    using owned_page [OF i(1) that i(2)] page_in_range_eq [OF i(2), of a] by simp_all
  have t: "pte_addr (pte t1 PTE_V) = t1" "pte_addr (pte t0 PTE_V) = t0" using pages by (intro pte_addr_pte; simp add: A)+
  note l = rw_leaf_bits [OF pages(1,2), of p] and ram = pages(3) [of p]
  have leaf: "pte_addr (rw_leaf p) = p" "pte_valid (rw_leaf p)" "pte_user (rw_leaf p)" "in_ram s p" using l ram by (simp_all add: A)
  have tb: "tbl (pmem s) root j = (if j = 1 then Some t1 else None)" "tbl (pmem s) t1 j = (if j = 128 then Some t0 else None)"
    if "j < 512" for j using e that t by (simp_all add: tbl_def)
  have node: "node_at (pmem s) root y = (if y = Root then Some root else if y = N1 1 then Some t1 else if y = N0 1 128 then Some t0 else None)" for y
    using tb by (cases y) (auto split: if_splits)
  have own: "own_at s root x = (case x of Node y \<Rightarrow> node_at (pmem s) root y | Leaf i j k \<Rightarrow> if i = 1 \<and> j = 128 \<and> k = 0 then Some p else None)" for x
    using e(3) leaf by (cases x) (auto simp: node user_leaf_def Let_def simp del: node_at.simps)
  show lp: "leaf_pte s root v = (if vpn2 v = 1 \<and> vpn1 v = 128 \<and> vpn0 v = 0 then rw_leaf p else 0)" for v
    using e leaf by (auto simp: leaf_pte_pt_leaf pt_leaf_cases tb)
  have "as_wf s root A"
    unfolding as_wf_def own node using A by (auto split: item.splits if_splits)
  moreover have "small_leaves s root" unfolding small_leaves_def lp node by auto
  ultimately show "space_ok s root A" using i(1) by (simp add: space_ok_def)
  show "own_at s root x = Some a \<longleftrightarrow> x = Node Root \<and> a = root \<or> x = Node (N1 1) \<and> a = t1 \<or> x = Node (N0 1 128) \<and> a = t0 \<or>
      x = Leaf 1 128 0 \<and> a = p"
    unfolding own node by (auto split: item.splits if_splits)
qed

lemma blank_pages_inv:
  assumes "blank_pages s ps F"
  shows "buddy_inv s ((\<lambda>p. (p, 0)) ` set ps)" "distinct ps" "phys_ok s" "\<And>p j. p \<in> set ps \<Longrightarrow> j < 512 \<Longrightarrow> ent (pmem s) p j = 0"
  using assms by (auto simp: blank_pages_def buddy_inv_def phys_ok_def same_geom_def demo_mm_def) metis

lemma put_window_phys: "phys_ok (put_window s root t1 t0 p) = phys_ok s"
  by (simp add: put_window_def phys_ok_def pte_write_def)

text \<open>Besides the tables and the page \<open>p\<close> there is a page \<open>q\<close> that is not used.\<close>

lemma demo_window:
  obtains s root t1 t0 p q A where "A = {(root, 0), (t1, 0), (t0, 0), (p, 0), (q, 0)}" "distinct [root, t1, t0, p, q]"
    "buddy_inv s A" "phys_ok s" "window_tables s root t1 t0 p"
proof -
  obtain s ps F where z: "blank_pages s ps F" "length ps = Suc 4" using demo_pages_n [of 4] by auto
  then obtain root t1 t0 p q where ps: "ps = [root, t1, t0, p, q]" by (auto simp: length_Suc_conv numeral_eq_Suc)
  note b = blank_pages_inv [OF z(1)]
  let ?s = "put_window s root t1 t0 p" and ?A = "(\<lambda>p. (p, 0)) ` set ps"
  have "buddy_inv ?s ?A" "window_tables ?s root t1 t0 p" using b(2,4) by (intro put_window_ok [OF b(1)]; simp add: ps)+
  moreover have "phys_ok ?s" using b(3) by (simp add: put_window_phys)
  ultimately show ?thesis using b(2) by (intro that [of ?A root t1 t0 p q ?s]) (simp_all add: ps)
qed

section \<open>The service\<close>

text \<open>Process 0 is the file server, process 1 the memory server; page 0 is in slot 1 of the memory server.\<close>

definition demo_service :: "mm \<Rightarrow> usize \<Rightarrow> usize \<Rightarrow> kernel" where
  "demo_service s root q = (kernel_static s)
     \<lparr>k_procs := \<lparr>st_slots = [\<lparr>p_id = 0, p_root = root, p_caps = [None, None, Some (Proc 1), None, None, None, None, None]\<rparr>,
                              \<lparr>p_id = 1, p_root = 0, p_caps = [Some (Proc 0), Some (Page 0), None, None, None, None, None, None]\<rparr>],
                   st_free = []\<rparr>,
      k_pages := \<lparr>st_slots = [\<lparr>pr_id = 0, pr_paddr = q, pr_owner = 1, pr_map_va = None\<rparr>], st_free = []\<rparr>\<rparr>"

lemma demo_service_proc:
  "get_proc (demo_service s root q) pid =
     (if pid = 0 then Some \<lparr>p_id = 0, p_root = root, p_caps = [None, None, Some (Proc 1), None, None, None, None, None]\<rparr>
      else if pid = 1 then Some \<lparr>p_id = 1, p_root = 0, p_caps = [Some (Proc 0), Some (Page 0), None, None, None, None, None, None]\<rparr>
      else None)"
  by (auto simp: demo_service_def get_proc_def get_slot_def less_Suc_eq)

lemma demo_service_page:
  "get_page (demo_service s root q) i = (if i = 0 then Some \<lparr>pr_id = 0, pr_paddr = q, pr_owner = 1, pr_map_va = None\<rparr> else None)"
  by (auto simp: demo_service_def get_page_def get_slot_def)

lemma demo_service_cap:
  "cap_at (demo_service s root q) pid slot =
     (if pid = 0 \<and> slot = 2 then Some (Proc 1) else if pid = 1 \<and> slot = 0 then Some (Proc 0)
      else if pid = 1 \<and> slot = 1 then Some (Page 0) else None)"
  by (auto simp: cap_at_def demo_service_proc less_Suc_eq numeral_eq_Suc)

lemma demo_service_wf: "k_wf (demo_service s root q)"
proof -
  have "slot_wf p_id (k_procs (demo_service s root q))" "slot_wf pr_id (k_pages (demo_service s root q))"
    "slot_wf sh_id (k_shms (demo_service s root q))"
    by (auto simp: demo_service_def kernel_static_def slot_wf_def less_Suc_eq)
  then show ?thesis unfolding k_wf_def by (auto simp: demo_service_proc) (simp_all add: demo_service_def kernel_static_def)
qed

lemma demo_service_ok:
  obtains s root q A where "service_ok 0 1 root A {} (demo_service s root q) [True, False, False, False]"
proof -
  obtain s root t1 t0 p q A where d: "A = {(root, 0), (t1, 0), (t0, 0), (p, 0), (q, 0)}" "distinct [root, t1, t0, p, q]"
    "buddy_inv s A" "phys_ok s" "window_tables s root t1 t0 p" by (rule demo_window) (rule that; assumption)
  have sp: "space_ok s root A" "leaf_pte s root v = (if vpn2 v = 1 \<and> vpn1 v = 128 \<and> vpn0 v = 0 then rw_leaf p else 0)"
    "own_at s root x \<noteq> Some q" for v x
    using window_space [OF _ _ _ _ _ d(3-5)] d(1,2) by (auto simp del: own_at.simps)
  let ?k = "demo_service s root q"
  have mm: "k_mm ?k = s" by (simp add: demo_service_def kernel_static_def)
  have root: "pid_root ?k 0 = Some root" by (simp add: pid_root_def demo_service_proc)
  have pA: "(p, 0) \<in> A" "(q, 0) \<in> A" using d(1) by simp_all
  have "vpn2 USER_SHM_VA = 1" "vpn1 USER_SHM_VA = 128" "vpn0 USER_SHM_VA = 0" by (simp_all add: vpn2_def vpn1_def vpn0_def)
  then have win: "window (user_writable 0 ?k) USER_SHM_VA 4096"
    using sp d(4) pA(1) by (intro rw_leaf_window [OF root, where p = p]) (simp_all add: mm)
  have uniq: "pages_unique ?k" unfolding pages_unique_def demo_service_cap demo_service_page by (auto split: if_splits)
  have pool: "pool_ok ?k 1 root A [True, False, False, False]"
    using sp(3) pA(2) by (auto simp: pool_ok_def demo_service_cap loose_def demo_service_page mm less_Suc_eq numeral_eq_Suc)
  have "leaf_pte s root (file_page fd) = 0" if "fd < 4" for fd
  proof -
    have "fd \<in> {0, 1, 2, 3}" using that by auto
    then have "vpn1 (file_page fd) \<noteq> 128" by (auto simp: file_page_def vpn1_def)
    then show ?thesis by (simp add: sp(2))
  qed
  then have files: "files_ok ?k 0 root A {}" by (simp add: files_ok_def mm demo_service_cap)
  have "page_count ?k 0 [True, False, False, False] \<le> 4" by (simp add: page_count_def demo_service_cap numeral_eq_Suc)
  then show ?thesis using root win uniq pool files sp(1) d(4)
    by (intro that [of root A s q] service_okI) (simp_all add: demo_service_wf demo_service_cap mm pid_root_def demo_service_proc)
qed

end
