(* ===== verification/Destroy_Main.thy ===== *)
theory Destroy_Main
  imports Revoke File_Demo
begin

text \<open>
  The teardown of a process with everything it holds: shared pages, page capabilities, services,
  devices and its address space.
\<close>

section \<open>What a process holds\<close>

definition held_shms :: "process \<Rightarrow> nat set" where
  "held_shms p = set (shm_ids (p_caps p))"

definition held_pages :: "process \<Rightarrow> nat set" where
  "held_pages p = set (page_ids (p_caps p))"

definition held_frames :: "kernel \<Rightarrow> process \<Rightarrow> (nat \<times> nat) set" where
  "held_frames k p = shm_frames k (held_shms p) \<union> page_frames k (held_pages p)"

text \<open>
  The records a process holds capabilities for are in order: each has a page of its own, mapped where the
  record says and nowhere else, and a page capability is held by the owner the record names.
\<close>

definition holdings_ok :: "kernel \<Rightarrow> (nat \<times> nat) set \<Rightarrow> nat \<Rightarrow> process \<Rightarrow> bool" where
  "holdings_ok k A pid p \<longleftrightarrow>
     (\<forall>i\<in>held_shms p. \<forall>sp. get_shm k i = Some sp \<longrightarrow> shm_ok k A sp) \<and>
     (\<forall>i\<in>held_pages p. \<forall>rec. get_page k i = Some rec \<longrightarrow> page_ok k A rec \<and> pr_owner rec = pid) \<and>
     inj_on (shm_paddr k) {i \<in> held_shms p. get_shm k i \<noteq> None} \<and>
     inj_on (page_paddr k) {i \<in> held_pages p. get_page k i \<noteq> None} \<and>
     shm_frames k (held_shms p) \<inter> page_frames k (held_pages p) = {}"

lemma holdingsD:
  assumes "holdings_ok k A pid p"
  shows "\<And>i sp. i \<in> held_shms p \<Longrightarrow> get_shm k i = Some sp \<Longrightarrow> shm_ok k A sp"
    "\<And>i rec. i \<in> held_pages p \<Longrightarrow> get_page k i = Some rec \<Longrightarrow> page_ok k A rec"
    "\<And>i rec. i \<in> held_pages p \<Longrightarrow> get_page k i = Some rec \<Longrightarrow> pr_owner rec = pid"
    "\<And>i j sp sp'. i \<in> held_shms p \<Longrightarrow> j \<in> held_shms p \<Longrightarrow> get_shm k i = Some sp \<Longrightarrow> get_shm k j = Some sp' \<Longrightarrow>
      sh_paddr sp = sh_paddr sp' \<Longrightarrow> i = j"
    "\<And>i j rec rec'. i \<in> held_pages p \<Longrightarrow> j \<in> held_pages p \<Longrightarrow> get_page k i = Some rec \<Longrightarrow> get_page k j = Some rec' \<Longrightarrow>
      pr_paddr rec = pr_paddr rec' \<Longrightarrow> i = j"
    "shm_frames k (held_shms p) \<inter> page_frames k (held_pages p) = {}"
  using assms unfolding holdings_ok_def inj_on_def shm_paddr_def page_paddr_def by auto

lemma shm_maps_own:
  assumes h: "holdings_ok k A pid p" and r: "r \<in> roots k" and z: "(r, x) \<in> shm_maps k (held_shms p)"
  shows "\<exists>a. own_at (k_mm k) r x = Some a \<and> (a, 0) \<in> shm_frames k (held_shms p)"
proof -
  obtain i sp where i: "i \<in> held_shms p" "get_shm k i = Some sp" "(r, x) \<in> owner_maps k (sh_owners sp)"
    using z by (auto simp: shm_maps_def)
  have "own_at (k_mm k) r x = Some (sh_paddr sp)"
    by (rule page_at_own [where A = A, OF _ r i(3)]) (use holdingsD(1) [OF h i(1,2)] in \<open>simp add: shm_ok_def\<close>)
  then show ?thesis using i(1,2) by (auto simp: shm_frames_def simp del: own_at.simps)
qed

lemma pages_maps_own:
  assumes h: "holdings_ok k A pid p" and r: "r \<in> roots k" and z: "(r, x) \<in> pages_maps k (held_pages p)"
  shows "\<exists>a. own_at (k_mm k) r x = Some a \<and> (a, 0) \<in> page_frames k (held_pages p)" "pid_root k pid = Some r"
proof -
  obtain i rec where i: "i \<in> held_pages p" "get_page k i = Some rec" "(r, x) \<in> page_maps k rec"
    using z by (auto simp: pages_maps_def)
  have "own_at (k_mm k) r x = Some (pr_paddr rec)"
    by (rule page_at_own [where A = A, OF _ r i(3)]) (use holdingsD(2) [OF h i(1,2)] in \<open>simp add: page_ok_def\<close>)
  then show "\<exists>a. own_at (k_mm k) r x = Some a \<and> (a, 0) \<in> page_frames k (held_pages p)"
    using i(1,2) by (auto simp: page_frames_def simp del: own_at.simps)
  show "pid_root k pid = Some r" using i(3) holdingsD(3) [OF h i(1,2)] by (auto simp: page_maps_def)
qed

text \<open>The two loops of \<^verbatim>\<open>destroy\<close>.\<close>

lemma revoke_held:
  assumes w: "k_wf k" and s: "own_spaces k A" and h: "holdings_ok k A pid p"
  obtains k1 k2 where "revoke_shms k (shm_ids (p_caps p)) = Some k1" "revoke_pages k1 (page_ids (p_caps p)) = Some k2"
    "revoked k A k2 (A - held_frames k p) (shm_maps k (held_shms p) \<union> pages_maps k (held_pages p)) (shm_slots k (held_shms p))"
    "get_shm k2 = (\<lambda>i. if i \<in> held_shms p then None else get_shm k i)"
    "get_page k2 = (\<lambda>i. if i \<in> held_pages p then None else get_page k i)"
proof -
  let ?S = "held_shms p" and ?P = "held_pages p" and ?A = "A - shm_frames k (held_shms p)"
  note h' = holdingsD [OF h]
  have "\<exists>k1. revoke_shms k (shm_ids (p_caps p)) = Some k1 \<and> revoked k A k1 ?A (shm_maps k ?S) (shm_slots k ?S) \<and>
    get_shm k1 = (\<lambda>i. if i \<in> ?S then None else get_shm k i) \<and> get_page k1 = get_page k"
    unfolding held_shms_def by (rule revoke_shms_ok [OF w s h'(1,4) [unfolded held_shms_def]])
  then obtain k1 where k1: "revoke_shms k (shm_ids (p_caps p)) = Some k1" "revoked k A k1 ?A (shm_maps k ?S) (shm_slots k ?S)"
    "get_shm k1 = (\<lambda>i. if i \<in> ?S then None else get_shm k i)" "get_page k1 = get_page k" by blast
  have m: "page_maps k1 = page_maps k" using revokedD(2) [OF k1(2)] by (simp add: page_maps_def fun_eq_iff)
  have e: "page_frames k1 ?P = page_frames k ?P" "pages_maps k1 ?P = pages_maps k ?P"
    by (simp_all add: page_frames_def pages_maps_def k1(4) m)
  have ok: "page_ok k1 ?A rec" if "i \<in> ?P" "get_page k i = Some rec" for i rec
  proof (rule page_ok_keeps [OF s k1(2) h'(2) [OF that]])
    have f: "(pr_paddr rec, 0) \<in> page_frames k ?P" using that by (auto simp: page_frames_def)
    then show "(pr_paddr rec, 0) \<in> ?A" using h'(6) h'(2) [OF that] by (auto simp: page_ok_def page_at_def)
    show "own_at (k_mm k) r x \<noteq> Some (pr_paddr rec)" if "r \<in> roots k" "(r, x) \<in> shm_maps k ?S" for r x
      using shm_maps_own [OF h that] f h'(6) by auto
  qed
  have "\<exists>k2. revoke_pages k1 (page_ids (p_caps p)) = Some k2 \<and>
    revoked k1 ?A k2 (?A - page_frames k1 ?P) (pages_maps k1 ?P) {} \<and>
    get_page k2 = (\<lambda>i. if i \<in> ?P then None else get_page k1 i) \<and> get_shm k2 = get_shm k1"
    unfolding held_pages_def
    by (rule revoke_pages_ok [OF revokedD(1) [OF k1(2)] revoked_spaces [OF s k1(2)]])
      (use ok h'(5) k1(4) in \<open>auto simp: held_pages_def\<close>)
  then obtain k2 where k2: "revoke_pages k1 (page_ids (p_caps p)) = Some k2"
    "revoked k1 ?A k2 (?A - page_frames k ?P) (pages_maps k ?P) {}"
    "get_page k2 = (\<lambda>i. if i \<in> ?P then None else get_page k i)" "get_shm k2 = get_shm k1" unfolding e k1(4) by blast
  have "?A - page_frames k ?P = A - held_frames k p" by (auto simp: held_frames_def)
  then show ?thesis using that [OF k1(1) k2(1)] revoked_trans [OF k1(2) k2(2)] k1(3) k2(3,4) by simp
qed

section \<open>The address space\<close>

text \<open>
  A page of the dying process is in use by another process only if it is one of the pages that the
  revocations release.
\<close>

definition apart_of :: "kernel \<Rightarrow> nat \<Rightarrow> process \<Rightarrow> bool" where
  "apart_of k pid p \<longleftrightarrow> (\<forall>i r x y a. i \<noteq> pid \<longrightarrow> pid_root k i = Some r \<longrightarrow> own_at (k_mm k) r x = Some a \<longrightarrow>
     own_at (k_mm k) (p_root p) y = Some a \<longrightarrow> (a, 0) \<in> held_frames k p)"

lemma held_maps_own:
  assumes "holdings_ok k A pid p" "r \<in> roots k" "(r, x) \<in> shm_maps k (held_shms p) \<union> pages_maps k (held_pages p)"
  shows "\<exists>a. own_at (k_mm k) r x = Some a \<and> (a, 0) \<in> held_frames k p"
  using shm_maps_own [OF assms(1,2)] pages_maps_own(1) [OF assms(1,2)] assms(3) unfolding held_frames_def by blast

lemma own_after:
  assumes s: "own_spaces k A" and h: "holdings_ok k A pid p" and r: "r \<in> roots k"
    and v: "revoked k A k2 (A - held_frames k p) (shm_maps k (held_shms p) \<union> pages_maps k (held_pages p)) C"
  shows "own_at (k_mm k2) r x = Some a \<longleftrightarrow> own_at (k_mm k) r x = Some a \<and> (a, 0) \<notin> held_frames k p"
proof -
  have sp: "spaces (k_mm k) (roots k) A" using s by (simp add: own_spaces_def)
  note o = drops_own [OF sp revokedD(5) [OF v] r]
  have "space_ok (k_mm k2) r (A - held_frames k p)" using spacesD(3) [OF dropsD(1) [OF revokedD(5) [OF v]] r] .
  then have "(a, 0) \<notin> held_frames k p" if "own_at (k_mm k2) r x = Some a" using as_wfD(1) [OF space_okD(2)] that by blast
  then show ?thesis using o [of x] held_maps_own [OF h r, of x] by (auto simp del: own_at.simps split: if_splits)
qed

lemma destroy_held_root:
  assumes s: "own_spaces k A" and p: "pid_root k pid = Some (p_root p)" and h: "holdings_ok k A pid p" and a: "apart_of k pid p"
    and v: "revoked k A k2 (A - held_frames k p) (shm_maps k (held_shms p) \<union> pages_maps k (held_pages p)) C"
  obtains m where "destroy_root (k_mm k2) (p_root p) = Some m"
    "rest (k_mm k2) m (A - held_frames k p - owned (k_mm k) (p_root p))"
    "drops (k_mm k2) (A - held_frames k p) m (A - held_frames k p - owned (k_mm k) (p_root p)) (roots k - {p_root p}) {}"
proof -
  let ?r = "p_root p" and ?A = "A - held_frames k p"
  have r: "?r \<in> roots k" by (rule rootsI [OF p])
  note own = own_after [OF s h _ v]
  have sp: "spaces (k_mm k2) (roots k) ?A" by (rule dropsD(1) [OF revokedD(5) [OF v]])
  note d = spacesD(1,2) [OF sp] space_okD(2) [OF spacesD(3) [OF sp r]]
  have e: "?A - owned (k_mm k2) ?r = ?A - owned (k_mm k) ?r"
    using own [OF r] by (auto simp: owned_def simp del: own_at.simps)
  obtain m where m: "destroy_root (k_mm k2) ?r = Some m" "rest (k_mm k2) m (?A - owned (k_mm k) ?r)"
    using destroy_root_ok [OF d(2,1,3)] unfolding e by blast
  have "(b, 0) \<in> ?A - owned (k_mm k) ?r" if q: "q \<in> roots k - {?r}" "own_at (k_mm k2) q x = Some b" for q x b
  proof -
    have qk: "own_at (k_mm k) q x = Some b" "(b, 0) \<notin> held_frames k p" using own [of q x b] q by auto
    obtain i where i: "pid_root k i = Some q" "i \<noteq> pid" using q(1) p unfolding roots_def by force
    have "(b, 0) \<in> ?A" using q spacesD(3) [OF sp] as_wfD(1) [OF space_okD(2)] by blast
    moreover have "(b, 0) \<notin> owned (k_mm k) ?r" using a i qk unfolding apart_of_def owned_def by blast
    ultimately show ?thesis by blast
  qed
  then have "drops (k_mm k2) ?A m (?A - owned (k_mm k) ?r) (roots k - {?r}) {}"
    by (intro rest_drops [OF sp _ m(2)]) auto
  then show ?thesis using that m by blast
qed

text \<open>What the other processes see of their address spaces.\<close>

lemma shm_maps_iff:
  "(r, x) \<in> shm_maps k S \<longleftrightarrow> x = leaf_of SHM_VA \<and> (\<exists>i j. (i, j) \<in> shm_slots k S \<and> pid_root k i = Some r)"
proof -
  have "(r, x) \<in> shm_maps k S \<longleftrightarrow> (\<exists>q sp. q \<in> S \<and> get_shm k q = Some sp \<and> (r, x) \<in> owner_maps k (sh_owners sp))"
    unfolding shm_maps_def by blast
  moreover have "(i, j) \<in> shm_slots k S \<longleftrightarrow> (\<exists>q sp. q \<in> S \<and> get_shm k q = Some sp \<and> (i, j) \<in> set (sh_owners sp))" for i j
    unfolding shm_slots_def by blast
  ultimately show ?thesis unfolding owner_maps_def by (simp add: split_def) (metis fst_conv prod.collapse)
qed

lemma leaf_after:
  assumes s: "own_spaces k A" and p: "pid_root k pid = Some (p_root p)" and h: "holdings_ok k A pid p"
    and v: "revoked k A k2 (A - held_frames k p) (shm_maps k (held_shms p) \<union> pages_maps k (held_pages p)) C"
    and m: "drops (k_mm k2) A2 m A' (roots k - {p_root p}) {}"
    and i: "i \<noteq> pid" "pid_root k i = Some r" and u: "u < 2 ^ 39"
  shows "leaf_pte m r u =
    (if u div 4096 = SHM_VA div 4096 \<and> i \<in> fst ` shm_slots k (held_shms p) then 0 else leaf_pte (k_mm k) r u)"
proof -
  let ?S = "held_shms p"
  have inj: "i' = j" if "pid_root k i' = Some q" "pid_root k j = Some q" for i' j q using s that by (auto simp: own_spaces_def)
  have r: "r \<in> roots k" "r \<in> roots k - {p_root p}" using i p inj by blast+
  have "(r, leaf_of u) \<notin> pages_maps k (held_pages p)" using pages_maps_own(2) [OF h r(1)] inj i by blast
  moreover have "(r, leaf_of u) \<in> shm_maps k ?S \<longleftrightarrow> leaf_of u = leaf_of SHM_VA \<and> i \<in> fst ` shm_slots k ?S"
    unfolding shm_maps_iff using i(2) inj by (metis fst_conv imageE image_eqI prod.collapse)
  moreover have "leaf_of u = leaf_of SHM_VA \<longleftrightarrow> u div 4096 = SHM_VA div 4096" using vpn_eq_iff [OF u, of SHM_VA] by auto
  ultimately have z: "(r, leaf_of u) \<in> shm_maps k ?S \<union> pages_maps k (held_pages p) \<longleftrightarrow>
    u div 4096 = SHM_VA div 4096 \<and> i \<in> fst ` shm_slots k ?S" by blast
  show ?thesis using dropsD(6) [OF m r(2) u] dropsD(6) [OF revokedD(5) [OF v] r(1) u, unfolded z] by (simp only: empty_iff if_False)
qed

section \<open>The whole teardown\<close>

text \<open>
  C17. \<^verbatim>\<open>destroy\<close> of a live process, with the shared pages and page capabilities it holds. Let every
  live process have an address space of its own, let the records the process holds capabilities for be
  in order and let no other process use a page of the dying one but those records' pages. Then
  \<^verbatim>\<open>destroy\<close> returns. Exactly this process dies, every shared page and every page record it holds a
  capability for is gone and all others stay, its services and devices are released and no others. The
  slots of the owners of its shared pages are empty, every other capability of another process stays
  (those that name the dead process included). The page allocator gets back exactly the frames of the
  held records and what the address space owns. The other address spaces stay in order and lose
  nothing but the shared window of a page they shared, and every page still handed out that is not a table of
  theirs keeps its contents.
\<close>

theorem destroy_spec:
  assumes w: "k_wf k" and p: "get_proc k pid = Some p" and s: "own_spaces k A"
    and h: "holdings_ok k A pid p" and a: "apart_of k pid p"
  shows "\<exists>k' A'. destroy k pid = Some k' \<and> k_wf k' \<and> A' = A - held_frames k p - owned (k_mm k) (p_root p) \<and>
    buddy_inv (k_mm k') A' \<and> own_spaces k' A' \<and>
    (\<forall>i. pid_root k' i = (if i = pid then None else pid_root k i)) \<and>
    (\<forall>i. get_shm k' i = (if i \<in> set (shm_ids (p_caps p)) then None else get_shm k i)) \<and>
    (\<forall>i. get_page k' i = (if i \<in> set (page_ids (p_caps p)) then None else get_page k i)) \<and>
    (\<forall>i j. cap_at k' i j = (if i = pid \<or> (i, j) \<in> shm_slots k (held_shms p) then None else cap_at k i j)) \<and>
    (\<forall>svc. lookup_service k' svc = (if lookup_service k svc = Some pid then None else lookup_service k svc)) \<and>
    (\<forall>d<MAX_DEVICES. k_devices k' ! d = (if \<exists>va. k_devices k ! d = Some (pid, va) then None else k_devices k ! d)) \<and>
    (\<forall>i r v. i \<noteq> pid \<longrightarrow> pid_root k i = Some r \<longrightarrow> v < 2 ^ 39 \<longrightarrow> leaf_pte (k_mm k') r v =
      (if v div 4096 = SHM_VA div 4096 \<and> i \<in> fst ` shm_slots k (held_shms p) then 0 else leaf_pte (k_mm k) r v)) \<and>
    (\<forall>b\<in>A'. (\<forall>r\<in>roots k. \<forall>n. node_at (pmem (k_mm k)) r n \<noteq> Some (fst b)) \<longrightarrow>
      (\<forall>x\<in>region b. pmem (k_mm k') x = pmem (k_mm k) x))"
proof -
  let ?S = "held_shms p" and ?P = "held_pages p" and ?F = "held_frames k p" and ?r = "p_root p"
  let ?Z = "shm_maps k ?S \<union> pages_maps k ?P" and ?A = "A - held_frames k p - owned (k_mm k) (p_root p)"
  have root: "pid_root k pid = Some ?r" using p by (simp add: pid_root_def)
  obtain k1 k2 where k1: "revoke_shms k (shm_ids (p_caps p)) = Some k1" and k2: "revoke_pages k1 (page_ids (p_caps p)) = Some k2"
    and v: "revoked k A k2 (A - ?F) ?Z (shm_slots k ?S)" and g: "get_shm k2 = (\<lambda>i. if i \<in> ?S then None else get_shm k i)"
      "get_page k2 = (\<lambda>i. if i \<in> ?P then None else get_page k i)" by (rule revoke_held [OF w s h])
  note v' = revokedD [OF v]
  obtain p2 where p2: "get_proc k2 pid = Some p2" "p_root p2 = ?r" using v'(2) [of pid] root by (auto simp: pid_root_def)
  obtain m where m: "destroy_root (k_mm k2) ?r = Some m" "rest (k_mm k2) m ?A" "drops (k_mm k2) (A - ?F) m ?A (roots k - {?r}) {}"
    by (rule destroy_held_root [OF s root h a v])
  let ?k = "(retire k2 pid p2)\<lparr>k_mm := m\<rparr>"
  have run: "destroy k pid = Some ?k" using p k1 k2 p2 m(1) by (simp add: destroy_def retire_tables Let_def)
  have pr: "pid_root ?k i = (if i = pid then None else pid_root k i)" for i
    using retire_get_proc [OF v'(1) p2(1)] v'(2) [of i] by (simp add: pid_root_def)
  have inj: "i = j" if "pid_root k i = Some q" "pid_root k j = Some q" for i j q using s that by (auto simp: own_spaces_def)
  have "roots ?k = roots k - {?r}" using root inj unfolding roots_def pr by (auto split: if_splits) (metis option.inject)+
  then have sp: "own_spaces ?k ?A" using dropsD(1) [OF m(3)] inj unfolding own_spaces_def pr by (auto split: if_splits)
  note leaf = leaf_after [OF s root h v m(3)]
  have mem: "pmem (k_mm ?k) x = pmem (k_mm k) x"
    if "b \<in> ?A" "\<forall>r\<in>roots k. \<forall>n. node_at (pmem (k_mm k)) r n \<noteq> Some (fst b)" "x \<in> region b" for b x
    using m(2) dropsD(7) [OF v'(5), of b x] that by (simp add: rest_def)
  have "lookup_service ?k svc = lookup_service (retire k2 pid p2) svc" "lookup_service k2 svc = lookup_service k svc" for svc
    using v'(3) by (simp_all add: lookup_service_def)
  then have svc: "lookup_service ?k svc = (if lookup_service k svc = Some pid then None else lookup_service k svc)" for svc
    using lookup_retire [OF v'(1) p2(1), of svc] by simp
  have dev: "k_devices ?k ! d = (if \<exists>va. k_devices k ! d = Some (pid, va) then None else k_devices k ! d)" if "d < MAX_DEVICES" for d
    using retire_devices [OF _ v'(1), of d pid p2] that v'(4) by simp
  have cap: "cap_at ?k i j = (if i = pid \<or> (i, j) \<in> shm_slots k ?S then None else cap_at k i j)" for i j
    using retire_cap_at [OF v'(1) p2(1), of i j] v'(6) [of i j] by simp
  have "get_shm ?k = get_shm k2" "get_page ?k = get_page k2" by (simp_all add: get_shm_def get_page_def retire_tables fun_eq_iff)
  then show ?thesis
    using run retire_wf [OF v'(1) p2(1)] sp pr g leaf mem svc dev cap m(2) unfolding held_shms_def held_pages_def
    by (intro exI [of _ ?k] exI [of _ ?A]) (simp add: rest_def del: node_at.simps)
qed

section \<open>Two processes with a shared page\<close>

text \<open>Processes 0 and 1 share the page \<open>p\<close>, and process 0 holds the page \<open>q\<close>.\<close>

definition demo_shared :: "mm \<Rightarrow> usize \<Rightarrow> usize \<Rightarrow> usize \<Rightarrow> usize \<Rightarrow> kernel" where
  "demo_shared s r0 r1 p q = (kernel_static s)
     \<lparr>k_procs := \<lparr>st_slots = [\<lparr>p_id = 0, p_root = r0, p_caps = [Some (Shm 0), Some (Page 0), None, None, None, None, None, None]\<rparr>,
                              \<lparr>p_id = 1, p_root = r1, p_caps = [Some (Shm 0), Some (Proc 0), None, None, None, None, None, None]\<rparr>],
                   st_free = []\<rparr>,
      k_shms := \<lparr>st_slots = [\<lparr>sh_id = 0, sh_paddr = p, sh_owners = [(0, 0), (1, 0)]\<rparr>], st_free = []\<rparr>,
      k_pages := \<lparr>st_slots = [\<lparr>pr_id = 0, pr_paddr = q, pr_owner = 0, pr_map_va = None\<rparr>], st_free = []\<rparr>\<rparr>"

lemma demo_shared_tables:
  "get_proc (demo_shared s r0 r1 p q) i =
     (if i = 0 then Some \<lparr>p_id = 0, p_root = r0, p_caps = [Some (Shm 0), Some (Page 0), None, None, None, None, None, None]\<rparr>
      else if i = 1 then Some \<lparr>p_id = 1, p_root = r1, p_caps = [Some (Shm 0), Some (Proc 0), None, None, None, None, None, None]\<rparr>
      else None)"
  "get_shm (demo_shared s r0 r1 p q) i = (if i = 0 then Some \<lparr>sh_id = 0, sh_paddr = p, sh_owners = [(0, 0), (1, 0)]\<rparr> else None)"
  "get_page (demo_shared s r0 r1 p q) i =
     (if i = 0 then Some \<lparr>pr_id = 0, pr_paddr = q, pr_owner = 0, pr_map_va = None\<rparr> else None)"
  "k_mm (demo_shared s r0 r1 p q) = s"
  by (auto simp: demo_shared_def kernel_static_def get_proc_def get_shm_def get_page_def get_slot_def less_Suc_eq)

lemma demo_shared_wf: "k_wf (demo_shared s r0 r1 p q)"
proof -
  have "slot_wf p_id (k_procs (demo_shared s r0 r1 p q))" "slot_wf pr_id (k_pages (demo_shared s r0 r1 p q))"
    "slot_wf sh_id (k_shms (demo_shared s r0 r1 p q))"
    by (auto simp: demo_shared_def kernel_static_def slot_wf_def less_Suc_eq)
  then show ?thesis unfolding k_wf_def by (auto simp: demo_shared_tables) (simp_all add: demo_shared_def kernel_static_def)
qed

text \<open>Two address spaces with the page \<open>p\<close> in the shared window.\<close>

definition two_windows :: "mm \<Rightarrow> usize list \<Rightarrow> usize list \<Rightarrow> usize \<Rightarrow> usize \<Rightarrow> bool" where
  "two_windows s us vs p q \<longleftrightarrow> (\<exists>r0 t1 t0 r1 u1 u0. us = [r0, t1, t0] \<and> vs = [r1, u1, u0] \<and> distinct (us @ vs @ [p, q]) \<and>
     buddy_inv s ((\<lambda>p. (p, 0)) ` set (us @ vs @ [p, q])) \<and> phys_ok s \<and> window_tables s r0 t1 t0 p \<and> window_tables s r1 u1 u0 p)"

lemma two_windows_ex: "\<exists>s us vs p q. two_windows s us vs p q"
proof -
  obtain s ps F where z: "blank_pages s ps F" "length ps = Suc 7" using demo_pages_n [of 7] by auto
  then obtain r0 t1 t0 r1 u1 u0 p q where ps: "ps = [r0, t1, t0] @ [r1, u1, u0] @ [p, q]"
    by (auto simp: length_Suc_conv numeral_eq_Suc)
  note b = blank_pages_inv [OF z(1)]
  let ?s1 = "put_window s r0 t1 t0 p" and ?A = "(\<lambda>p. (p, 0)) ` set ps"
  let ?s2 = "put_window ?s1 r1 u1 u0 p"
  have z1: "\<forall>x\<in>{r0, t1, t0}. \<forall>j<512. ent (pmem s) x j = 0" using b(4) by (simp add: ps)
  have s1: "buddy_inv ?s1 ?A" "window_tables ?s1 r0 t1 t0 p"
    "\<And>x j. (x, 0) \<in> ?A \<Longrightarrow> x \<notin> {r0, t1, t0} \<Longrightarrow> j < 512 \<Longrightarrow> ent (pmem ?s1) x j = ent (pmem s) x j"
    by (rule put_window_ok [OF b(1) _ _ _ _ z1]; use b(2) in \<open>simp add: ps\<close>)+
  have z2: "\<forall>x\<in>{r1, u1, u0}. \<forall>j<512. ent (pmem ?s1) x j = 0" using s1(3) b(2,4) by (auto simp: ps)
  have s2: "buddy_inv ?s2 ?A" "window_tables ?s2 r1 u1 u0 p"
    "\<And>x j. (x, 0) \<in> ?A \<Longrightarrow> x \<notin> {r1, u1, u0} \<Longrightarrow> j < 512 \<Longrightarrow> ent (pmem ?s2) x j = ent (pmem ?s1) x j"
    by (rule put_window_ok [OF s1(1) _ _ _ _ z2]; use b(2) in \<open>simp add: ps\<close>)+
  have "window_tables ?s2 r0 t1 t0 p" using s1(2) s2(3) b(2) by (simp add: window_tables_def ps)
  then have "two_windows ?s2 [r0, t1, t0] [r1, u1, u0] p q"
    using s2(1,2) b(2,3) unfolding two_windows_def by (simp add: ps put_window_phys)
  then show ?thesis by blast
qed

lemma shm_leaf: "leaf_of SHM_VA = Leaf 1 128 0"
  by (simp add: vpn2_def vpn1_def vpn0_def)

lemma demo_shared_roots:
  "pid_root (demo_shared s r0 r1 p q) i = (if i = 0 then Some r0 else if i = 1 then Some r1 else None)"
  "roots (demo_shared s r0 r1 p q) = {r0, r1}"
proof -
  show pr: "pid_root (demo_shared s r0 r1 p q) i = (if i = 0 then Some r0 else if i = 1 then Some r1 else None)" for i
    by (simp add: pid_root_def demo_shared_tables)
  show "roots (demo_shared s r0 r1 p q) = {r0, r1}" unfolding roots_def pr by (auto split: if_splits)
qed

lemma demo_shared_ok:
  assumes t: "two_windows s [r0, t1, t0] [r1, u1, u0] p q" and k: "k = demo_shared s r0 r1 p q"
    and A: "A = (\<lambda>p. (p, 0)) ` {r0, t1, t0, r1, u1, u0, p, q}" and p0: "get_proc k 0 = Some p0"
  shows "own_spaces k A" "holdings_ok k A 0 p0" "apart_of k 0 p0"
    "A - held_frames k p0 - owned (k_mm k) (p_root p0) = {(r1, 0), (u1, 0), (u0, 0)}"
proof -
  have d: "distinct [r0, t1, t0, r1, u1, u0, p, q]" and i: "buddy_inv s A" "phys_ok s"
    and w: "window_tables s r0 t1 t0 p" "window_tables s r1 u1 u0 p" using t by (auto simp: two_windows_def A)
  have s0: "space_ok s r0 A" "\<And>x a. own_at s r0 x = Some a \<longleftrightarrow> x = Node Root \<and> a = r0 \<or> x = Node (N1 1) \<and> a = t1 \<or>
      x = Node (N0 1 128) \<and> a = t0 \<or> x = Leaf 1 128 0 \<and> a = p"
    by (rule window_space [OF _ _ _ _ _ i w(1)]; use d in \<open>simp add: A\<close>)+
  have s1: "space_ok s r1 A" "\<And>x a. own_at s r1 x = Some a \<longleftrightarrow> x = Node Root \<and> a = r1 \<or> x = Node (N1 1) \<and> a = u1 \<or>
      x = Node (N0 1 128) \<and> a = u0 \<or> x = Leaf 1 128 0 \<and> a = p"
    by (rule window_space [OF _ _ _ _ _ i w(2)]; use d in \<open>simp add: A\<close>)+
  have node: "node_at (pmem s) r n = Some a \<longleftrightarrow> own_at s r (Node n) = Some a" for r n a by simp
  have "spaces s {r0, r1} A" unfolding spaces_def node using i s0(1) s1(1) d
    by (auto simp: s0(2) s1(2) simp del: own_at.simps)
  then show "own_spaces k A" using d by (auto simp: own_spaces_def k demo_shared_roots demo_shared_tables split: if_splits)
  have p0: "p_caps p0 = [Some (Shm 0), Some (Page 0), None, None, None, None, None, None]" "p_root p0 = r0"
    using p0 by (auto simp: k demo_shared_tables)
  then have held: "held_shms p0 = {0}" "held_pages p0 = {0}" by (simp_all add: held_shms_def held_pages_def)
  have f: "shm_frames k {0} = {(p, 0)}" "page_frames k {0} = {(q, 0)}"
    by (auto simp: shm_frames_def page_frames_def k demo_shared_tables)
  have mm: "k_mm k = s" "roots k = {r0, r1}" by (simp_all add: k demo_shared_tables demo_shared_roots)
  have om: "owner_maps k [(0, 0), (1, 0)] = {(r0, Leaf 1 128 0), (r1, Leaf 1 128 0)}"
    unfolding owner_maps_def shm_leaf k by (auto simp: demo_shared_roots)
  have "shm_ok k A \<lparr>sh_id = 0, sh_paddr = p, sh_owners = [(0, 0), (1, 0)]\<rparr>"
    using d by (simp add: shm_ok_def page_at_def om [unfolded One_nat_def] mm s0(2) s1(2) A del: own_at.simps) blast
  moreover have "page_ok k A \<lparr>pr_id = 0, pr_paddr = q, pr_owner = 0, pr_map_va = None\<rparr>"
    using d by (simp add: page_ok_def page_at_def page_maps_def mm s0(2) s1(2) A del: own_at.simps) blast
  ultimately show "holdings_ok k A 0 p0"
    using d by (auto simp: holdings_ok_def held f inj_on_def) (auto simp: k demo_shared_tables)
  have hf: "held_frames k p0 = {(p, 0), (q, 0)}" by (auto simp: held_frames_def held f)
  show "apart_of k 0 p0" unfolding apart_of_def hf p0(2)
    using d by (auto simp: k demo_shared_roots demo_shared_tables s0(2) s1(2) simp del: own_at.simps split: if_splits)
  have "owned (k_mm k) (p_root p0) = {(r0, 0), (t1, 0), (t0, 0), (p, 0)}"
    unfolding owned_def p0(2) k demo_shared_tables s0(2) by auto
  then show "A - held_frames k p0 - owned (k_mm k) (p_root p0) = {(r1, 0), (u1, 0), (u0, 0)}"
    using d by (auto simp: hf A)
qed

theorem destroy_spec_witness:
  "\<exists>k k' A. k_wf k \<and> cap_at k 0 0 = Some (Shm 0) \<and> cap_at k 1 0 = Some (Shm 0) \<and> cap_at k 0 1 = Some (Page 0) \<and>
     get_shm k 0 \<noteq> None \<and> get_page k 0 \<noteq> None \<and> destroy k 0 = Some k' \<and> pid_root k' 0 = None \<and> pid_root k' 1 \<noteq> None \<and>
     get_shm k' 0 = None \<and> get_page k' 0 = None \<and> cap_at k' 1 0 = None \<and> cap_at k' 1 1 = Some (Proc 0) \<and>
     buddy_inv (k_mm k') A \<and> card A = 3"
proof -
  obtain s us vs p q where tw: "two_windows s us vs p q" using two_windows_ex by blast
  then obtain r0 t1 t0 r1 u1 u0 where uv: "us = [r0, t1, t0]" "vs = [r1, u1, u0]" "distinct [r1, u1, u0]" by (auto simp: two_windows_def)
  define k where "k = demo_shared s r0 r1 p q"
  define A where "A = (\<lambda>p. (p, 0::nat)) ` {r0, t1, t0, r1, u1, u0, p, q}"
  obtain p0 where p0: "get_proc k 0 = Some p0" "p_caps p0 = [Some (Shm 0), Some (Page 0), None, None, None, None, None, None]"
    by (simp add: k_def demo_shared_tables)
  note ok = demo_shared_ok [OF tw [unfolded uv(1,2)] k_def A_def p0(1)]
  have w: "k_wf k" by (simp add: k_def demo_shared_wf)
  obtain k' where k': "destroy k 0 = Some k'" "buddy_inv (k_mm k') {(r1, 0), (u1, 0), (u0, 0)}"
    "\<And>i. pid_root k' i = (if i = 0 then None else pid_root k i)"
    "\<And>i. get_shm k' i = (if i \<in> set (shm_ids (p_caps p0)) then None else get_shm k i)"
    "\<And>i. get_page k' i = (if i \<in> set (page_ids (p_caps p0)) then None else get_page k i)"
    "\<And>i j. cap_at k' i j = (if i = 0 \<or> (i, j) \<in> shm_slots k (held_shms p0) then None else cap_at k i j)"
    using destroy_spec [OF w p0(1) ok(1-3)] unfolding ok(4) by (elim exE conjE) (rule that; blast)
  have sl: "shm_slots k (held_shms p0) = {(0, 0), (1, 0)}"
    by (auto simp: shm_slots_def held_shms_def p0(2) k_def demo_shared_tables)
  have cap: "cap_at k 0 0 = Some (Shm 0)" "cap_at k 1 0 = Some (Shm 0)" "cap_at k 0 1 = Some (Page 0)" "cap_at k 1 1 = Some (Proc 0)"
    by (simp_all add: cap_at_def k_def demo_shared_tables)
  have g: "get_shm k 0 \<noteq> None" "get_page k 0 \<noteq> None" "pid_root k 1 = Some r1" by (simp_all add: k_def demo_shared_tables demo_shared_roots)
  have "card {(r1, 0::nat), (u1, 0), (u0, 0)} = 3" using uv(3) by simp
  then show ?thesis using w cap g k' p0(2) sl
    by (intro exI [of _ k] exI [of _ k'] exI [of _ "{(r1, 0), (u1, 0), (u0, 0)}"]) simp
qed

end
