(* ===== verification/Sched_Inv.thy ===== *)
theory Sched_Inv
  imports Sched
begin

text \<open>
  The invariant of the scheduler. Its heart is that the ready queues are determined by the threads: a
  thread is queued exactly once if it is Ready, on its own hart, at the level of its effective
  priority, and not at all otherwise.
\<close>

section \<open>Updates\<close>

lemma upd_thread_simps [simp]:
  "length (sc_threads (upd_thread s i f)) = length (sc_threads s)"
  "sc_ready (upd_thread s i f) = sc_ready s" "sc_donations (upd_thread s i f) = sc_donations s"
  "sc_current (upd_thread s i f) = sc_current s" "sc_idle (upd_thread s i f) = sc_idle s"
  "sc_free (upd_thread s i f) = sc_free s" "sc_kill_req (upd_thread s i f) = sc_kill_req s"
  "sc_ticks (upd_thread s i f) = sc_ticks s" "sc_satp (upd_thread s i f) = sc_satp s"
  "sc_reaper (upd_thread s i f) = sc_reaper s" "sc_remote_req (upd_thread s i f) = sc_remote_req s"
  by (simp_all add: upd_thread_def)

lemma thr_upd_thread: "j < nthreads s \<Longrightarrow> thr (upd_thread s i f) j = (if j = i then f (thr s i) else thr s j)"
  by (simp add: upd_thread_def nth_list_update)

lemma set_ready_simps [simp]:
  "sc_threads (set_ready s h p q) = sc_threads s" "sc_donations (set_ready s h p q) = sc_donations s"
  "sc_current (set_ready s h p q) = sc_current s" "sc_idle (set_ready s h p q) = sc_idle s"
  "sc_free (set_ready s h p q) = sc_free s" "sc_kill_req (set_ready s h p q) = sc_kill_req s"
  "sc_ready (set_ready s h p q) h' p' = (if h' = h \<and> p' = p then q else sc_ready s h' p')"
  by (simp_all add: set_ready_def)

lemma set_ready_id: "set_ready s h p (sc_ready s h p) = s"
  by (simp add: set_ready_def)

lemma set_ready_again: "set_ready (set_ready s h p q) h p q' = set_ready s h p q'"
  by (simp add: set_ready_def)

lemma set_simps [simp]:
  "sc_threads (set_current s h i) = sc_threads s" "sc_ready (set_current s h i) = sc_ready s"
  "sc_donations (set_current s h i) = sc_donations s" "sc_idle (set_current s h i) = sc_idle s"
  "sc_free (set_current s h i) = sc_free s" "sc_current (set_current s h i) = (sc_current s)(h := i)"
  "sc_threads (set_ticks s h n) = sc_threads s" "sc_ready (set_ticks s h n) = sc_ready s"
  "sc_donations (set_ticks s h n) = sc_donations s" "sc_idle (set_ticks s h n) = sc_idle s"
  "sc_free (set_ticks s h n) = sc_free s" "sc_current (set_ticks s h n) = sc_current s"
  "sc_threads (set_satp s h r) = sc_threads s" "sc_ready (set_satp s h r) = sc_ready s"
  "sc_donations (set_satp s h r) = sc_donations s" "sc_idle (set_satp s h r) = sc_idle s"
  "sc_free (set_satp s h r) = sc_free s" "sc_current (set_satp s h r) = sc_current s"
  "sc_threads (set_kill_req s i b) = sc_threads s" "sc_ready (set_kill_req s i b) = sc_ready s"
  "sc_donations (set_kill_req s i b) = sc_donations s" "sc_idle (set_kill_req s i b) = sc_idle s"
  "sc_free (set_kill_req s i b) = sc_free s" "sc_current (set_kill_req s i b) = sc_current s"
  by (simp_all add: set_current_def set_ticks_def set_satp_def set_kill_req_def)

lemma thread_at_Some [simp]: "i < nthreads s \<Longrightarrow> thread_at s i = Some (thr s i)"
  by (simp add: thread_at_def)

lemma thread_at_eq_Some: "thread_at s i = Some t \<longleftrightarrow> i < nthreads s \<and> t = thr s i"
  by (auto simp: thread_at_def)

section \<open>Effective priority\<close>

lemma fold_prio:
  "foldl (\<lambda>a d. if d_peer d = p \<and> d_prio d < a then d_prio d else a) a ds
   = Min (insert a (d_prio ` {d \<in> set ds. d_peer d = p}))"
proof (induction ds arbitrary: a)
  case (Cons d ds)
  have s: "{e \<in> set (d # ds). d_peer e = p} = (if d_peer d = p then insert d {e \<in> set ds. d_peer e = p} else {e \<in> set ds. d_peer e = p})"
    by auto
  have m: "Min (insert a (insert b T)) = Min (insert (min a b) T)" if "finite T" for a b and T :: "nat set"
    using that by (cases "T = {}") (simp_all add: min.assoc)
  have c: "(if d_peer d = p \<and> d_prio d < a then d_prio d else a) = (if d_peer d = p then min a (d_prio d) else a)" by auto
  have "Min (insert a (insert (d_prio d) (d_prio ` {e \<in> set ds. d_peer e = p}))) =
      Min (insert (min a (d_prio d)) (d_prio ` {e \<in> set ds. d_peer e = p}))" by (rule m) simp
  then show ?case unfolding foldl_Cons Cons.IH s c by (simp del: Min_insert)
qed simp

lemma eff_prio_Min:
  "eff_prio s i = (case t_proc (thr s i) of None \<Rightarrow> t_prio (thr s i)
     | Some p \<Rightarrow> Min (insert (t_prio (thr s i)) (d_prio ` {d \<in> set (sc_donations s). d_peer d = p})))"
  by (simp add: eff_prio_def fold_prio split: option.split)

lemma eff_prio_le: "eff_prio s i \<le> t_prio (thr s i)"
  by (auto simp: eff_prio_Min split: option.split)

lemma eff_prio_cong:
  assumes "t_prio (thr s' i) = t_prio (thr s i)" "t_proc (thr s' i) = t_proc (thr s i)" "sc_donations s' = sc_donations s"
  shows "eff_prio s' i = eff_prio s i"
  using assms by (auto simp: eff_prio_def split: option.split)

section \<open>The invariant\<close>

text \<open>The queues hold the Ready threads outside \<open>D\<close>, thread \<open>i\<close> at level \<open>lev i\<close>.\<close>

definition q_ok :: "sched \<Rightarrow> (nat \<Rightarrow> nat) \<Rightarrow> nat set \<Rightarrow> bool" where
  "q_ok s lev D \<longleftrightarrow>
     (\<forall>h p. distinct (sc_ready s h p)) \<and>
     (\<forall>h p i. i \<in> set (sc_ready s h p) \<longleftrightarrow>
        i < nthreads s \<and> t_state (thr s i) = Ready \<and> i \<notin> D \<and> t_hart (thr s i) = h \<and> lev i = p)"

definition thread_ok :: "thread \<Rightarrow> bool" where
  "thread_ok t \<longleftrightarrow> t_prio t < PRIO_LEVELS \<and> t_hart t < MAX_HARTS \<and> length (t_frame t) = FRAME_WORDS \<and>
     length (c_s (t_ctx t)) = 12 \<and>
     (t_state t = Ready \<or> t_state t = Blocked \<longrightarrow> t_ctx_valid t \<or> t_frame_valid t)"

definition t_ok :: "sched \<Rightarrow> bool" where
  "t_ok s \<longleftrightarrow> nthreads s \<le> MAX_THREADS \<and> (\<forall>i<nthreads s. thread_ok (thr s i))"

definition cur_ok :: "sched \<Rightarrow> nat \<Rightarrow> bool" where
  "cur_ok s h \<longleftrightarrow> sc_current s h < nthreads s \<and> t_state (thr s (sc_current s h)) = Running \<and> t_hart (thr s (sc_current s h)) = h"

definition idle_ok :: "sched \<Rightarrow> bool" where
  "idle_ok s \<longleftrightarrow> (\<forall>h<MAX_HARTS. sc_idle s h < nthreads s \<and> t_hart (thr s (sc_idle s h)) = h \<and>
     t_proc (thr s (sc_idle s h)) = None \<and>
     (t_state (thr s (sc_idle s h)) = Running \<or> t_state (thr s (sc_idle s h)) = Ready))"

text \<open>Only the current threads and the idle threads are Running.\<close>

definition run_ok :: "sched \<Rightarrow> bool" where
  "run_ok s \<longleftrightarrow> (\<forall>i<nthreads s. t_state (thr s i) = Running \<longrightarrow> (\<exists>h<MAX_HARTS. i = sc_current s h \<or> i = sc_idle s h))"

definition free_ok :: "sched \<Rightarrow> bool" where
  "free_ok s \<longleftrightarrow> distinct (sc_free s) \<and> (\<forall>i. i \<in> set (sc_free s) \<longleftrightarrow> i < nthreads s \<and> t_state (thr s i) = Exited)"

definition rest_ok :: "sched \<Rightarrow> bool" where
  "rest_ok s \<longleftrightarrow> t_ok s \<and> idle_ok s \<and> run_ok s \<and> free_ok s \<and> (\<forall>h<MAX_HARTS. cur_ok s h)"

definition don_ok :: "donation list \<Rightarrow> nat \<Rightarrow> bool" where
  "don_ok ds n \<longleftrightarrow> length ds \<le> MAX_DONATIONS \<and> (\<forall>d\<in>set ds. d_donor d < n)"

definition sched_wf :: "sched \<Rightarrow> bool" where
  "sched_wf s \<longleftrightarrow> q_ok s (eff_prio s) {} \<and> don_ok (sc_donations s) (nthreads s) \<and> rest_ok s"

lemma sched_wfD:
  assumes "sched_wf s"
  shows "q_ok s (eff_prio s) {}" "don_ok (sc_donations s) (nthreads s)" "rest_ok s" "t_ok s" "idle_ok s" "run_ok s" "free_ok s"
    "h < 4 \<Longrightarrow> cur_ok s h"
  using assms by (auto simp: sched_wf_def rest_ok_def)

lemma don_okD: "don_ok ds n \<Longrightarrow> length ds \<le> 64" "don_ok ds n \<Longrightarrow> d \<in> set ds \<Longrightarrow> d_donor d < n"
  by (simp_all add: don_ok_def)

lemma don_ok_filter: "don_ok ds n \<Longrightarrow> don_ok (filter P ds) n"
  unfolding don_ok_def by (auto intro: le_trans [OF length_filter_le])

lemma rest_ok_cong:
  assumes "sc_threads s' = sc_threads s" "sc_current s' = sc_current s" "sc_idle s' = sc_idle s" "sc_free s' = sc_free s"
  shows "rest_ok s' = rest_ok s"
  unfolding rest_ok_def t_ok_def idle_ok_def run_ok_def free_ok_def cur_ok_def assms ..

lemma q_ok_cong:
  assumes "nthreads s' = nthreads s" "sc_ready s' = sc_ready s"
    "\<And>i. i < nthreads s \<Longrightarrow> i \<notin> D \<Longrightarrow> t_state (thr s' i) = t_state (thr s i) \<and> t_hart (thr s' i) = t_hart (thr s i) \<and>
       (t_state (thr s i) = Ready \<longrightarrow> lev' i = lev i)"
  shows "q_ok s' lev' D = q_ok s lev D"
proof -
  have "(i < nthreads s \<and> t_state (thr s' i) = Ready \<and> i \<notin> D \<and> t_hart (thr s' i) = h \<and> lev' i = p) =
    (i < nthreads s \<and> t_state (thr s i) = Ready \<and> i \<notin> D \<and> t_hart (thr s i) = h \<and> lev i = p)" for i h p
    using assms(3) [of i] by (cases "i < nthreads s \<and> i \<notin> D") auto
  then show ?thesis unfolding q_ok_def assms(1,2) by simp
qed

lemma q_okD:
  assumes "q_ok s lev D" "i \<in> set (sc_ready s h p)"
  shows "i < nthreads s" "t_state (thr s i) = Ready" "i \<notin> D" "t_hart (thr s i) = h" "lev i = p"
  using assms unfolding q_ok_def by blast+

lemma thread_okD:
  assumes "t_ok s" "i < nthreads s"
  shows "t_prio (thr s i) < 3" "t_hart (thr s i) < 4" "length (t_frame (thr s i)) = 36"
    "t_state (thr s i) = Ready \<or> t_state (thr s i) = Blocked \<Longrightarrow> t_ctx_valid (thr s i) \<or> t_frame_valid (thr s i)"
    "eff_prio s i < 3" "i < 64" "length (c_s (t_ctx (thr s i))) = 12"
  using assms eff_prio_le [of s i] unfolding t_ok_def thread_ok_def by (auto simp: Suc_le_eq)

section \<open>Enqueuing\<close>

definition enqueued :: "sched \<Rightarrow> nat \<Rightarrow> sched" where
  "enqueued s i = upd_thread (set_ready s (t_hart (thr s i)) (eff_prio s i)
     (sc_ready s (t_hart (thr s i)) (eff_prio s i) @ [i])) i (\<lambda>t. t\<lparr>t_state := Ready\<rparr>)"

lemma enqueue_eq:
  assumes "i < nthreads s" "t_hart (thr s i) < 4" "eff_prio s i < 3"
  shows "enqueue s i = Some (enqueued s i)"
  using assms by (simp add: enqueue_def enqueued_def Let_def)

lemma enqueued_simps [simp]:
  "length (sc_threads (enqueued s i)) = length (sc_threads s)" "sc_donations (enqueued s i) = sc_donations s"
  "sc_current (enqueued s i) = sc_current s" "sc_idle (enqueued s i) = sc_idle s" "sc_free (enqueued s i) = sc_free s"
  "sc_kill_req (enqueued s i) = sc_kill_req s"
  by (simp_all add: enqueued_def)

lemma thr_enqueued: "j < nthreads s \<Longrightarrow> thr (enqueued s i) j = (if j = i then (thr s i)\<lparr>t_state := Ready\<rparr> else thr s j)"
  by (simp add: enqueued_def thr_upd_thread)

lemma eff_prio_enqueued: "j < nthreads s \<Longrightarrow> eff_prio (enqueued s i) j = eff_prio s j"
  by (rule eff_prio_cong) (simp_all add: thr_enqueued)

lemma enqueued_q_ok:
  assumes q: "q_ok s lev D" and i: "i < nthreads s" "t_state (thr s i) \<noteq> Ready \<or> i \<in> D" "lev i = eff_prio s i"
  shows "q_ok (enqueued s i) lev (D - {i})"
proof -
  have ni: "i \<notin> set (sc_ready s h p)" for h p using q i(2) unfolding q_ok_def by blast
  have r: "sc_ready (enqueued s i) h p = (if h = t_hart (thr s i) \<and> p = eff_prio s i then sc_ready s h p @ [i] else sc_ready s h p)" for h p
    by (simp add: enqueued_def)
  have "distinct (sc_ready (enqueued s i) h p)" for h p using q ni unfolding r q_ok_def by simp
  moreover have "j \<in> set (sc_ready (enqueued s i) h p) \<longleftrightarrow>
      j < nthreads s \<and> t_state (thr (enqueued s i) j) = Ready \<and> j \<notin> D - {i} \<and> t_hart (thr (enqueued s i) j) = h \<and> lev j = p" for h p j
  proof (cases "j = i")
    case True
    then show ?thesis using i ni by (auto simp: r thr_enqueued)
  next
    case False
    then have "j \<in> set (sc_ready (enqueued s i) h p) \<longleftrightarrow> j \<in> set (sc_ready s h p)" by (simp add: r)
    also have "\<dots> \<longleftrightarrow> j < nthreads s \<and> t_state (thr s j) = Ready \<and> j \<notin> D \<and> t_hart (thr s j) = h \<and> lev j = p"
      using q unfolding q_ok_def by blast
    finally show ?thesis using False by (auto simp: thr_enqueued)
  qed
  ultimately show ?thesis unfolding q_ok_def by simp
qed

section \<open>Picking\<close>

definition picked :: "sched \<Rightarrow> nat \<Rightarrow> nat \<Rightarrow> nat list \<Rightarrow> nat \<Rightarrow> sched" where
  "picked s h p q i = upd_thread (set_ready s h p q) i (\<lambda>t. t\<lparr>t_state := Running\<rparr>)"

definition queue_live :: "sched \<Rightarrow> nat \<Rightarrow> bool" where
  "queue_live s h \<longleftrightarrow> (\<forall>p. \<forall>i\<in>set (sc_ready s h p). i < nthreads s \<and> t_state (thr s i) = Ready)"

definition none_eligible :: "sched \<Rightarrow> bool \<Rightarrow> nat list \<Rightarrow> bool" where
  "none_eligible s c q \<longleftrightarrow> (\<forall>i\<in>set q. \<not> eligible c (thr s i))"

lemma queue_liveD: "queue_live s h \<Longrightarrow> i \<in> set (sc_ready s h p) \<Longrightarrow> i < nthreads s \<and> t_state (thr s i) = Ready"
  unfolding queue_live_def by blast

lemma pick_level_skip:
  assumes "sc_ready s h l = x # q" "x < nthreads s" "t_state (thr s x) = Ready" "\<not> eligible c (thr s x)"
  shows "pick_level s h c l (Suc n) = pick_level (set_ready s h l (q @ [x])) h c l n"
  using assms by (simp add: Let_def set_ready_again)

lemma pick_level_some:
  assumes "sc_ready s h l = xs @ i # ys" "\<forall>j\<in>set (xs @ [i]). j < nthreads s \<and> t_state (thr s j) = Ready"
    "none_eligible s c xs" "eligible c (thr s i)"
  shows "pick_level s h c l (Suc (length xs + n)) = Some (Some i, picked s h l (ys @ xs) i)"
  using assms
proof (induction xs arbitrary: s ys n)
  case Nil
  then show ?case by (simp add: picked_def Let_def)
next
  case (Cons x xs)
  let ?s = "set_ready s h l ((xs @ i # ys) @ [x])"
  have "pick_level s h c l (Suc (length (x # xs) + n)) = pick_level ?s h c l (Suc (length xs + n))"
    using pick_level_skip [of s h l x "xs @ i # ys" c "Suc (length xs + n)"] Cons.prems by (simp add: none_eligible_def)
  also have "\<dots> = Some (Some i, picked ?s h l ((ys @ [x]) @ xs) i)"
    by (rule Cons.IH) (use Cons.prems in \<open>auto simp: none_eligible_def\<close>)
  finally show ?case by (simp add: picked_def set_ready_again)
qed

lemma pick_level_none:
  assumes "sc_ready s h l = xs @ ys" "\<forall>j\<in>set xs. j < nthreads s \<and> t_state (thr s j) = Ready" "none_eligible s c xs"
  shows "pick_level s h c l (length xs) = Some (None, set_ready s h l (ys @ xs))"
  using assms
proof (induction xs arbitrary: s ys)
  case Nil
  then show ?case by (metis append_Nil append_Nil2 list.size(3) pick_level.simps(1) set_ready_id)
next
  case (Cons x xs)
  let ?s = "set_ready s h l ((xs @ ys) @ [x])"
  have "pick_level s h c l (length (x # xs)) = pick_level ?s h c l (length xs)"
    using pick_level_skip [of s h l x "xs @ ys" c "length xs"] Cons.prems by (simp add: none_eligible_def)
  also have "\<dots> = Some (None, set_ready ?s h l ((ys @ [x]) @ xs))"
    by (rule Cons.IH) (use Cons.prems in \<open>auto simp: none_eligible_def\<close>)
  finally show ?case by (simp add: set_ready_again)
qed

lemma pick_level_all:
  assumes "queue_live s h" "none_eligible s c (sc_ready s h l)"
  shows "pick_level s h c l (length (sc_ready s h l)) = Some (None, s)"
  using pick_level_none [of s h l "sc_ready s h l" "[]" c] assms by (simp add: queue_live_def set_ready_id)

lemma pick_levels_some:
  assumes l: "queue_live s h" and i: "sc_ready s h p = xs @ i # ys" "none_eligible s c xs" "eligible c (thr s i)"
    and p: "p \<in> set ls" "\<forall>l\<in>set (takeWhile (\<lambda>l. l \<noteq> p) ls). none_eligible s c (sc_ready s h l)"
  shows "pick_levels s h c ls = Some (Some i, picked s h p (ys @ xs) i)"
  using p
proof (induction ls)
  case (Cons l ls)
  show ?case
  proof (cases "l = p")
    case True
    have "pick_level s h c p (Suc (length xs + length ys)) = Some (Some i, picked s h p (ys @ xs) i)"
      by (rule pick_level_some [OF i(1) _ i(2,3)]) (use queue_liveD [OF l, of _ p] i(1) in auto)
    then show ?thesis using i(1) True by simp
  next
    case False
    then have "pick_level s h c l (length (sc_ready s h l)) = Some (None, s)"
      using Cons.prems by (intro pick_level_all [OF l]) simp
    then show ?thesis using Cons False by simp
  qed
qed simp

lemma pick_levels_none:
  assumes "queue_live s h" "\<forall>l\<in>set ls. none_eligible s c (sc_ready s h l)"
  shows "pick_levels s h c ls = Some (None, s)"
  using assms(2) by (induction ls) (simp_all add: pick_level_all [OF assms(1)])

lemma pick_next_some:
  assumes l: "queue_live s h" and i: "sc_ready s h p = xs @ i # ys" "none_eligible s c xs" "eligible c (thr s i)"
    and p: "p < 3" "\<forall>l<p. none_eligible s c (sc_ready s h l)"
  shows "pick_next s h c = Some (i, picked s h p (ys @ xs) i)"
proof -
  have t: "takeWhile (\<lambda>l. l \<noteq> p) [0..<3] = [0..<p]"
    using p(1) by (auto simp: less_Suc_eq numeral_3_eq_3)
  have "pick_levels s h c [0..<3] = Some (Some i, picked s h p (ys @ xs) i)"
    by (rule pick_levels_some [OF l i]) (use p t in \<open>simp_all del: upt_rec_numeral\<close>)
  then show ?thesis by (simp add: pick_next_def del: upt_rec_numeral)
qed

lemma pick_next_none:
  assumes l: "queue_live s h" and p: "\<forall>l<3. none_eligible s c (sc_ready s h l)" and c: "sc_current s h < nthreads s"
  shows "pick_next s h c = Some (if t_state (thr s (sc_current s h)) \<noteq> Running then sc_idle s h else sc_current s h, s)"
proof -
  have "pick_levels s h c [0..<3] = Some (None, s)" by (rule pick_levels_none [OF l]) (use p in \<open>simp del: upt_rec_numeral\<close>)
  then show ?thesis using c by (simp add: pick_next_def del: upt_rec_numeral)
qed

text \<open>The two cases of \<^verbatim>\<open>pick_next\<close> on a well-formed hart: the first eligible thread of the best level, or none.\<close>

lemma pick_next_cases:
  assumes l: "queue_live s h"
  obtains p xs i ys where "p < 3" "sc_ready s h p = xs @ i # ys" "none_eligible s c xs" "eligible c (thr s i)"
    "\<forall>l<p. none_eligible s c (sc_ready s h l)" "pick_next s h c = Some (i, picked s h p (ys @ xs) i)"
  | "\<forall>l<3. none_eligible s c (sc_ready s h l)"
proof (cases "\<exists>p<3. \<not> none_eligible s c (sc_ready s h p)")
  case True
  define p where "p = (LEAST p. p < 3 \<and> \<not> none_eligible s c (sc_ready s h p))"
  have p: "p < 3 \<and> \<not> none_eligible s c (sc_ready s h p)" using True unfolding p_def by (rule LeastI_ex)
  have low: "none_eligible s c (sc_ready s h l)" if "l < p" for l
    using not_less_Least [of l "\<lambda>p. p < 3 \<and> \<not> none_eligible s c (sc_ready s h p)"] that p unfolding p_def by auto
  have "\<exists>i\<in>set (sc_ready s h p). eligible c (thr s i)" using p by (auto simp: none_eligible_def)
  then obtain xs i ys where "sc_ready s h p = xs @ i # ys" "eligible c (thr s i)" "\<forall>j\<in>set xs. \<not> eligible c (thr s j)"
    by (rule split_list_first_propE)
  moreover then have "none_eligible s c xs" by (simp add: none_eligible_def)
  ultimately show ?thesis using that(1) p low pick_next_some [OF l] by blast
qed (use that(2) in blast)

lemma q_ok_live: "q_ok s lev D \<Longrightarrow> queue_live s h"
  by (auto simp: queue_live_def dest: q_okD)

lemma picked_q_ok:
  assumes q: "q_ok s lev D" and i: "sc_ready s h p = xs @ i # ys"
  shows "q_ok (picked s h p (ys @ xs) i) lev D"
proof -
  have m: "i < nthreads s" "t_state (thr s i) = Ready" "t_hart (thr s i) = h" "lev i = p" "i \<notin> D"
    using q_okD [OF q, of i h p] i by auto
  have r: "sc_ready (picked s h p (ys @ xs) i) h' p' = (if h' = h \<and> p' = p then ys @ xs else sc_ready s h' p')" for h' p'
    by (simp add: picked_def)
  have t: "thr (picked s h p (ys @ xs) i) j = (if j = i then (thr s i)\<lparr>t_state := Running\<rparr> else thr s j)" if "j < nthreads s" for j
    using that by (simp add: picked_def thr_upd_thread)
  have d: "distinct (xs @ i # ys)" using q i unfolding q_ok_def by metis
  have "distinct (sc_ready (picked s h p (ys @ xs) i) h' p')" for h' p'
    using q d unfolding r q_ok_def by auto
  moreover have "j \<in> set (sc_ready (picked s h p (ys @ xs) i) h' p') \<longleftrightarrow> j \<in> set (sc_ready s h' p') \<and> j \<noteq> i" for j h' p'
  proof (cases "h' = h \<and> p' = p")
    case True
    then show ?thesis using d i unfolding r by auto
  next
    case False
    then have "i \<notin> set (sc_ready s h' p')" using q_okD(4,5) [OF q, of i h' p'] m by auto
    then show ?thesis using False unfolding r by auto
  qed
  moreover have "j \<in> set (sc_ready s h' p') \<and> j \<noteq> i \<longleftrightarrow>
      j < nthreads s \<and> t_state (thr (picked s h p (ys @ xs) i) j) = Ready \<and> j \<notin> D \<and>
      t_hart (thr (picked s h p (ys @ xs) i) j) = h' \<and> lev j = p'" for j h' p'
  proof -
    have e: "j \<in> set (sc_ready s h' p') \<longleftrightarrow> j < nthreads s \<and> t_state (thr s j) = Ready \<and> j \<notin> D \<and> t_hart (thr s j) = h' \<and> lev j = p'"
      using q unfolding q_ok_def by blast
    show ?thesis
    proof (cases "j < nthreads s")
      case True
      show ?thesis unfolding e t [OF True] using True by simp
    qed (simp add: e)
  qed
  moreover have "nthreads (picked s h p (ys @ xs) i) = nthreads s" by (simp add: picked_def)
  ultimately show ?thesis unfolding q_ok_def by simp
qed

section \<open>Requeuing\<close>

text \<open>Two states with the same threads and donations, and what enqueuing Ready threads changes.\<close>

definition same_but_queues :: "sched \<Rightarrow> sched \<Rightarrow> bool" where
  "same_but_queues s s' \<longleftrightarrow> s' = s\<lparr>sc_ready := sc_ready s'\<rparr>"

lemma same_but_queuesD:
  assumes "same_but_queues s s'"
  shows "sc_threads s' = sc_threads s" "sc_donations s' = sc_donations s" "sc_current s' = sc_current s"
    "sc_idle s' = sc_idle s" "sc_free s' = sc_free s" "sc_kill_req s' = sc_kill_req s" "sc_ticks s' = sc_ticks s"
    "sc_reaper s' = sc_reaper s" "sc_satp s' = sc_satp s" "sc_remote_req s' = sc_remote_req s" "eff_prio s' = eff_prio s"
proof -
  have e: "s' = s\<lparr>sc_ready := sc_ready s'\<rparr>" using assms by (simp add: same_but_queues_def)
  show "sc_threads s' = sc_threads s" "sc_donations s' = sc_donations s" "sc_current s' = sc_current s"
    "sc_idle s' = sc_idle s" "sc_free s' = sc_free s" "sc_kill_req s' = sc_kill_req s" "sc_ticks s' = sc_ticks s"
    "sc_reaper s' = sc_reaper s" "sc_satp s' = sc_satp s" "sc_remote_req s' = sc_remote_req s"
    by (subst e, simp)+
  then show "eff_prio s' = eff_prio s" by (intro ext eff_prio_cong) simp_all
qed

lemma same_but_queues_refl [simp]: "same_but_queues s s" "same_but_queues s (s\<lparr>sc_ready := q\<rparr>)"
  by (simp_all add: same_but_queues_def)

lemma same_but_queues_trans: "same_but_queues s t \<Longrightarrow> same_but_queues t u \<Longrightarrow> same_but_queues s u"
  unfolding same_but_queues_def by (metis sched.update_convs(2) sched.surjective)

lemma enqueued_same:
  assumes "i < nthreads s" "t_state (thr s i) = Ready"
  shows "same_but_queues s (enqueued s i)"
proof -
  have "(sc_threads s)[i := (thr s i)\<lparr>t_state := Ready\<rparr>] = sc_threads s"
    using assms by (metis list_update_id thread.surjective thread.update_convs(2))
  then show ?thesis by (simp add: same_but_queues_def enqueued_def upd_thread_def set_ready_def)
qed

lemma enqueue_all_ok:
  assumes "q_ok s lev D" "set is \<subseteq> D" "distinct is" "t_ok s"
    "\<forall>i\<in>set is. i < nthreads s \<and> t_state (thr s i) = Ready \<and> lev i = eff_prio s i"
  shows "\<exists>s'. enqueue_all s is = Some s' \<and> same_but_queues s s' \<and> q_ok s' lev (D - set is)"
  using assms
proof (induction "is" arbitrary: s D)
  case (Cons i "is")
  have i: "i < nthreads s" "t_state (thr s i) = Ready" "i \<in> D" "lev i = eff_prio s i" using Cons.prems by auto
  have e: "enqueue s i = Some (enqueued s i)" by (rule enqueue_eq) (use i thread_okD [OF Cons.prems(4)] in auto)
  note sm = enqueued_same [OF i(1,2)]
  note d = same_but_queuesD [OF sm]
  have "q_ok (enqueued s i) lev (D - {i})"
    using enqueued_q_ok [OF Cons.prems(1) i(1)] i(3,4) by simp
  moreover have "t_ok (enqueued s i)" using Cons.prems(4) d(1) by (simp add: t_ok_def)
  ultimately obtain s' where s': "enqueue_all (enqueued s i) is = Some s'" "same_but_queues (enqueued s i) s'"
    "q_ok s' lev (D - {i} - set is)"
    using Cons.IH [of "enqueued s i" "D - {i}"] Cons.prems d(1,11) by auto
  have "enqueue_all s (i # is) = Some s'" using e s'(1) by simp
  moreover have "D - {i} - set is = D - set (i # is)" by auto
  ultimately show ?case using same_but_queues_trans [OF sm s'(2)] s'(3) by metis
qed simp

lemma filter_q_ok:
  assumes q: "q_ok s lev D" and r: "sc_ready s' = (\<lambda>h p. filter (\<lambda>i. \<not> P i) (sc_ready s h p))" "sc_threads s' = sc_threads s"
  shows "q_ok s' lev (D \<union> {i. P i})"
proof -
  have e: "i \<in> set (sc_ready s h p) \<longleftrightarrow> i < nthreads s \<and> t_state (thr s i) = Ready \<and> i \<notin> D \<and> t_hart (thr s i) = h \<and> lev i = p" for i h p
    using q unfolding q_ok_def by blast
  have "distinct (sc_ready s h p)" for h p using q by (simp add: q_ok_def)
  then show ?thesis unfolding q_ok_def r by (auto simp: e)
qed

lemma concat_queues:
  assumes q: "q_ok s lev D" and t: "t_ok s" and lev: "\<forall>i<nthreads s. lev i < 3"
  shows "distinct (concat (map (\<lambda>(h, l). filter P (sc_ready s h l)) all_queues))"
    and "set (concat (map (\<lambda>(h, l). filter P (sc_ready s h l)) all_queues)) =
      {i. i < nthreads s \<and> t_state (thr s i) = Ready \<and> i \<notin> D \<and> P i}"
proof -
  have d: "distinct (concat (map (\<lambda>(h, l). filter P (sc_ready s h l)) qs))" if "distinct qs" for qs
    using that
  proof (induction qs)
    case (Cons x qs)
    obtain h l where x: "x = (h, l)" by (cases x)
    have "set (sc_ready s h l) \<inter> set (sc_ready s h' l') = {}" if "(h', l') \<in> set qs" for h' l'
    proof -
      have "(h', l') \<noteq> (h, l)" using Cons.prems that x by auto
      then show ?thesis using q_okD(4,5) [OF q] by (metis disjoint_iff)
    qed
    then have "set (filter P (sc_ready s h l)) \<inter> set (concat (map (\<lambda>(h, l). filter P (sc_ready s h l)) qs)) = {}"
      by fastforce
    moreover have "distinct (sc_ready s h l)" using q by (simp add: q_ok_def)
    ultimately show ?case using Cons x by simp
  qed simp
  show "distinct (concat (map (\<lambda>(h, l). filter P (sc_ready s h l)) all_queues))"
    by (rule d) (simp add: all_queues_def distinct_product del: upt_rec_numeral)
  have "i \<in> set (concat (map (\<lambda>(h, l). filter P (sc_ready s h l)) all_queues)) \<longleftrightarrow>
      (\<exists>h<4. \<exists>l<3. i \<in> set (sc_ready s h l) \<and> P i)" for i
    by (force simp: all_queues_def simp del: upt_rec_numeral)
  also have "\<dots> i \<longleftrightarrow> i < nthreads s \<and> t_state (thr s i) = Ready \<and> i \<notin> D \<and> P i" for i
    using q thread_okD(2) [OF t] lev unfolding q_ok_def by metis
  finally show "set (concat (map (\<lambda>(h, l). filter P (sc_ready s h l)) all_queues)) =
      {i. i < nthreads s \<and> t_state (thr s i) = Ready \<and> i \<notin> D \<and> P i}" by blast
qed

text \<open>Requeuing moves the Ready threads of a process to the level of their effective priority.\<close>

lemma requeue_ok:
  assumes q: "q_ok s lev {}" and t: "t_ok s" and lev: "\<forall>i<nthreads s. lev i < 3"
  shows "\<exists>s'. requeue_proc_threads s p = Some s' \<and> same_but_queues s s' \<and>
    q_ok s' (\<lambda>i. if t_proc (thr s i) = Some p then eff_prio s i else lev i) {}"
proof -
  define buf where "buf = concat (map (\<lambda>(h, l). filter (in_proc s p) (sc_ready s h l)) all_queues)"
  let ?s = "s\<lparr>sc_ready := (\<lambda>h l. filter (\<lambda>i. \<not> in_proc s p i) (sc_ready s h l))\<rparr>"
  let ?D = "{i. in_proc s p i}"
  let ?lev = "\<lambda>i. if t_proc (thr s i) = Some p then eff_prio s i else lev i"
  note b = concat_queues [OF q t lev, of "in_proc s p", folded buf_def]
  have "length buf = card (set buf)" using b(1) by (metis distinct_card)
  also have "\<dots> \<le> card {..<nthreads s}" unfolding b(2) by (rule card_mono) auto
  finally have n: "length buf \<le> 64" using t by (simp add: t_ok_def)
  have e: "eff_prio ?s = eff_prio s" by (intro ext eff_prio_cong) simp_all
  have "q_ok ?s lev ?D" using filter_q_ok [OF q, of ?s "in_proc s p"] by simp
  moreover have "q_ok ?s ?lev ?D = q_ok ?s lev ?D"
    by (rule q_ok_cong) (simp_all add: in_proc_def)
  ultimately have q2: "q_ok ?s ?lev ?D" by simp
  have t2: "t_ok ?s" using t by (simp add: t_ok_def)
  have "\<forall>i\<in>set buf. i < nthreads ?s \<and> t_state (thr ?s i) = Ready \<and> ?lev i = eff_prio ?s i"
    using b(2) e by (auto simp: in_proc_def)
  then obtain s' where s': "enqueue_all ?s buf = Some s'" "same_but_queues ?s s'" "q_ok s' ?lev (?D - set buf)"
    using enqueue_all_ok [OF q2 _ b(1) t2] b(2) by auto
  have "q_ok s' ?lev {}"
  proof -
    have "i \<notin> ?D - set buf" if "i < nthreads s'" "t_state (thr s' i) = Ready" for i
      using that b(2) same_but_queuesD(1) [OF s'(2)] by (simp add: in_proc_def)
    then show ?thesis using s'(3) unfolding q_ok_def by blast
  qed
  moreover have "\<forall>(h, l)\<in>set all_queues. \<forall>i\<in>set (sc_ready s h l). i < nthreads s" using q_okD(1) [OF q] by auto
  moreover have "same_but_queues s s'"
    using s'(2) same_but_queues_refl(2) [of s] by (rule same_but_queues_trans [rotated])
  ultimately show ?thesis using s'(1) n by (auto simp: requeue_proc_threads_def Let_def buf_def [symmetric])
qed

lemma requeue_procs_ok:
  assumes "q_ok s lev {}" "t_ok s" "\<forall>i<nthreads s. lev i < 3"
  shows "\<exists>s'. requeue_procs s ps = Some s' \<and> same_but_queues s s' \<and>
    q_ok s' (\<lambda>i. if t_proc (thr s i) \<in> Some ` set ps then eff_prio s i else lev i) {}"
  using assms
proof (induction ps arbitrary: s lev)
  case (Cons p ps)
  let ?lev = "\<lambda>i. if t_proc (thr s i) = Some p then eff_prio s i else lev i"
  obtain s1 where s1: "requeue_proc_threads s p = Some s1" "same_but_queues s s1" "q_ok s1 ?lev {}"
    using requeue_ok [OF Cons.prems] by blast
  note d = same_but_queuesD [OF s1(2)]
  have "t_ok s1" "\<forall>i<nthreads s1. ?lev i < 3"
    using Cons.prems(2,3) d(1) thread_okD(5) [OF Cons.prems(2)] by (auto simp: t_ok_def)
  then obtain s' where s': "requeue_procs s1 ps = Some s'" "same_but_queues s1 s'"
    "q_ok s' (\<lambda>i. if t_proc (thr s1 i) \<in> Some ` set ps then eff_prio s1 i else ?lev i) {}"
    using Cons.IH [OF s1(3)] by blast
  moreover have "(\<lambda>i. if t_proc (thr s1 i) \<in> Some ` set ps then eff_prio s1 i else ?lev i) =
      (\<lambda>i. if t_proc (thr s i) \<in> Some ` set (p # ps) then eff_prio s i else lev i)"
    unfolding d(1,11) by auto
  ultimately show ?case using s1(1) same_but_queues_trans [OF s1(2) s'(2)] by auto
next
  case Nil
  then show ?case by simp
qed

lemma uniq_set: "length acc + length xs \<le> 64 \<Longrightarrow> set (uniq acc xs) = set acc \<union> set xs"
proof (induction acc xs rule: uniq.induct)
  case (2 acc x xs)
  then show ?case by (cases "x \<in> set acc") auto
qed simp

text \<open>A change of the donations is repaired by requeuing the processes it affects.\<close>

lemma donations_repair:
  assumes w: "sched_wf s" and n: "don_ok ds (nthreads s)"
    and a: "\<And>i. i < nthreads s \<Longrightarrow> t_state (thr s i) = Ready \<Longrightarrow> t_proc (thr s i) \<notin> Some ` set ps \<Longrightarrow> eff_prio (s\<lparr>sc_donations := ds\<rparr>) i = eff_prio s i"
  shows "\<exists>s'. requeue_procs (s\<lparr>sc_donations := ds\<rparr>) ps = Some s' \<and> same_but_queues (s\<lparr>sc_donations := ds\<rparr>) s' \<and> sched_wf s'"
proof -
  let ?s = "s\<lparr>sc_donations := ds\<rparr>"
  have q: "q_ok ?s (eff_prio s) {}" using sched_wfD(1) [OF w] q_ok_cong [of ?s s "{}" "eff_prio s" "eff_prio s"] by simp
  have t: "t_ok ?s" using sched_wfD(4) [OF w] by (simp add: t_ok_def)
  obtain s' where s': "requeue_procs ?s ps = Some s'" "same_but_queues ?s s'"
    "q_ok s' (\<lambda>i. if t_proc (thr ?s i) \<in> Some ` set ps then eff_prio ?s i else eff_prio s i) {}"
    using requeue_procs_ok [OF q t] thread_okD(5) [OF sched_wfD(4) [OF w]] by auto
  note d = same_but_queuesD [OF s'(2)]
  have "q_ok s' (eff_prio s') {} = q_ok s' (\<lambda>i. if t_proc (thr ?s i) \<in> Some ` set ps then eff_prio ?s i else eff_prio s i) {}"
    by (rule q_ok_cong) (use a d(1,11) in auto)
  then have "q_ok s' (eff_prio s') {}" using s'(3) by simp
  moreover have "rest_ok s'" using sched_wfD(3) [OF w] rest_ok_cong [of s' s] d(1,3,4,5) by simp
  ultimately show ?thesis using s'(1,2) n d(1,2) by (auto simp: sched_wf_def)
qed

section \<open>Donations\<close>

lemma eff_prio_donations:
  assumes "\<And>p. t_proc (thr s i) = Some p \<Longrightarrow>
      d_prio ` {d \<in> set ds. d_peer d = p} = d_prio ` {d \<in> set (sc_donations s). d_peer d = p}"
  shows "eff_prio (s\<lparr>sc_donations := ds\<rparr>) i = eff_prio s i"
  using assms unfolding eff_prio_Min by (auto split: option.split)

lemma requeue_procs_single: "requeue_procs s [p] = requeue_proc_threads s p"
  by (cases "requeue_proc_threads s p") simp_all

lemma put_donation_set:
  assumes "\<exists>e\<in>set ds. d_donor e = d_donor d" "\<forall>e\<in>set ds. d_donor e = d_donor d \<longrightarrow> d_peer e = d_peer d" "p \<noteq> d_peer d"
  shows "{e \<in> set (put_donation ds d). d_peer e = p} = {e \<in> set ds. d_peer e = p}"
  using assms by (induction ds) auto

lemma put_donation_length: "length (put_donation ds d) = length ds"
  by (induction ds) simp_all

lemma put_donation_subset: "set (put_donation ds d) \<subseteq> insert d (set ds)"
  by (induction ds) auto

text \<open>Each thread waits for one peer at a time: an existing donation of the donor has the same peer.\<close>

lemma register_donation_ok:
  assumes w: "sched_wf s" and i: "donor < nthreads s"
    and one: "\<forall>e\<in>set (sc_donations s). d_donor e = donor \<longrightarrow> d_peer e = peer"
  shows "\<exists>s' ds. register_donation s donor peer = Some s' \<and> same_but_queues (s\<lparr>sc_donations := ds\<rparr>) s' \<and> sched_wf s' \<and>
    (length (sc_donations s) < 64 \<longrightarrow> (\<exists>e\<in>set ds. d_donor e = donor \<and> d_peer e = peer \<and> d_prio e = eff_prio s donor)) \<and>
    (\<forall>e\<in>set ds. e \<in> set (sc_donations s) \<or> d_donor e = donor)"
proof -
  let ?d = "\<lparr>d_donor = donor, d_peer = peer, d_prio = eff_prio s donor\<rparr>"
  define ds where "ds = (if \<exists>e\<in>set (sc_donations s). d_donor e = donor then put_donation (sc_donations s) ?d
     else if length (sc_donations s) < MAX_DONATIONS then sc_donations s @ [?d] else sc_donations s)"
  have n: "don_ok ds (nthreads s)"
    using sched_wfD(2) [OF w] put_donation_subset [of "sc_donations s" ?d] i by (auto simp: ds_def don_ok_def put_donation_length)
  have "{e \<in> set ds. d_peer e = p} = {e \<in> set (sc_donations s). d_peer e = p}" if "p \<noteq> peer" for p
    using put_donation_set [of "sc_donations s" ?d p] that one by (auto simp: ds_def)
  then have a: "eff_prio (s\<lparr>sc_donations := ds\<rparr>) j = eff_prio s j" if "t_proc (thr s j) \<notin> Some ` set [peer]" for j
    by (intro eff_prio_donations) (use that in auto)
  have m: "?d \<in> set (put_donation l ?d)" if "\<exists>e\<in>set l. d_donor e = donor" for l
    using that by (induction l) auto
  have "\<exists>e\<in>set ds. d_donor e = donor \<and> d_peer e = peer \<and> d_prio e = eff_prio s donor" if "length (sc_donations s) < 64"
    by (rule bexI [of _ ?d]) (use that m in \<open>auto simp: ds_def\<close>)
  moreover have "\<forall>e\<in>set ds. e \<in> set (sc_donations s) \<or> d_donor e = donor"
    using put_donation_subset [of "sc_donations s" ?d] by (auto simp: ds_def)
  moreover have "register_donation s donor peer = requeue_procs (s\<lparr>sc_donations := ds\<rparr>) [peer]"
    using i unfolding requeue_procs_single by (simp add: register_donation_def ds_def Let_def)
  ultimately show ?thesis using donations_repair [OF w n a, of "[peer]"] by metis
qed

lemma revoke_ok:
  assumes w: "sched_wf s"
    and skip: "\<And>i p. i < nthreads s \<Longrightarrow> t_state (thr s i) = Ready \<Longrightarrow> t_proc (thr s i) = Some p \<Longrightarrow> P p"
  shows "\<exists>s'. requeue_procs (s\<lparr>sc_donations := filter (\<lambda>d. \<not> G d) (sc_donations s)\<rparr>)
      (filter P (uniq [] (map d_peer (filter G (sc_donations s))))) = Some s' \<and>
    same_but_queues (s\<lparr>sc_donations := filter (\<lambda>d. \<not> G d) (sc_donations s)\<rparr>) s' \<and> sched_wf s'"
proof (rule donations_repair [OF w])
  show "don_ok (filter (\<lambda>d. \<not> G d) (sc_donations s)) (nthreads s)" by (rule don_ok_filter [OF sched_wfD(2) [OF w]])
  have u: "set (uniq [] (map d_peer (filter G (sc_donations s)))) = d_peer ` {d \<in> set (sc_donations s). G d}"
    using uniq_set [of "[]" "map d_peer (filter G (sc_donations s))"]
      le_trans [OF length_filter_le don_okD(1) [OF sched_wfD(2) [OF w]], of G] by auto
  fix i assume i: "i < nthreads s" "t_state (thr s i) = Ready"
    "t_proc (thr s i) \<notin> Some ` set (filter P (uniq [] (map d_peer (filter G (sc_donations s)))))"
  show "eff_prio (s\<lparr>sc_donations := filter (\<lambda>d. \<not> G d) (sc_donations s)\<rparr>) i = eff_prio s i"
  proof (rule eff_prio_donations)
    fix p assume p: "t_proc (thr s i) = Some p"
    have "p \<notin> d_peer ` {d \<in> set (sc_donations s). G d}" using i(3) p skip [OF i(1,2) p] u by auto
    then have "{d \<in> set (filter (\<lambda>d. \<not> G d) (sc_donations s)). d_peer d = p} = {d \<in> set (sc_donations s). d_peer d = p}" by auto
    then show "d_prio ` {d \<in> set (filter (\<lambda>d. \<not> G d) (sc_donations s)). d_peer d = p} = d_prio ` {d \<in> set (sc_donations s). d_peer d = p}"
      by simp
  qed
qed

lemma revoke_donations_ok:
  assumes w: "sched_wf s"
  shows "\<exists>s'. revoke_donations s i = Some s' \<and>
    same_but_queues (s\<lparr>sc_donations := filter (\<lambda>d. d_donor d \<noteq> i) (sc_donations s)\<rparr>) s' \<and> sched_wf s'"
  using revoke_ok [OF w, of "\<lambda>_. True" "\<lambda>d. d_donor d = i"] by (simp add: revoke_donations_def)

section \<open>Changing one thread\<close>

lemma eff_prio_upd:
  assumes "j < nthreads s" "t_prio (f (thr s i)) = t_prio (thr s i)" "t_proc (f (thr s i)) = t_proc (thr s i)"
  shows "eff_prio (upd_thread s i f) j = eff_prio s j"
  by (rule eff_prio_cong) (use assms in \<open>auto simp: thr_upd_thread\<close>)

lemma q_ok_upd:
  assumes q: "q_ok s (eff_prio s) {}" and i: "i < nthreads s"
    and f: "t_prio (f (thr s i)) = t_prio (thr s i)" "t_proc (f (thr s i)) = t_proc (thr s i)"
    and st: "t_state (thr s i) \<noteq> Ready \<and> t_state (f (thr s i)) \<noteq> Ready \<or>
      t_state (f (thr s i)) = t_state (thr s i) \<and> t_hart (f (thr s i)) = t_hart (thr s i)"
  shows "q_ok (upd_thread s i f) (eff_prio (upd_thread s i f)) {}"
proof -
  have "(j < nthreads s \<and> t_state (thr (upd_thread s i f) j) = Ready \<and> t_hart (thr (upd_thread s i f) j) = h \<and> eff_prio (upd_thread s i f) j = p) =
     (j < nthreads s \<and> t_state (thr s j) = Ready \<and> t_hart (thr s j) = h \<and> eff_prio s j = p)" for j h p
    using st eff_prio_upd [of j s f i] f thr_upd_thread [of j s i f] by (cases "j < nthreads s"; cases "j = i") auto
  then show ?thesis using q unfolding q_ok_def by simp
qed

lemma t_ok_upd: "t_ok s \<Longrightarrow> thread_ok (f (thr s i)) \<Longrightarrow> t_ok (upd_thread s i f)"
  by (auto simp: t_ok_def thr_upd_thread)

lemma idle_ok_upd:
  assumes "idle_ok s" "(\<forall>h<4. i \<noteq> sc_idle s h) \<or> t_hart (f (thr s i)) = t_hart (thr s i) \<and> t_proc (f (thr s i)) = t_proc (thr s i) \<and>
     (t_state (f (thr s i)) = Running \<or> t_state (f (thr s i)) = Ready)"
  shows "idle_ok (upd_thread s i f)"
  using assms unfolding idle_ok_def by (auto simp: thr_upd_thread)

lemma run_ok_upd:
  assumes "run_ok s" "t_state (f (thr s i)) = Running \<longrightarrow> t_state (thr s i) = Running"
  shows "run_ok (upd_thread s i f)"
  using assms unfolding run_ok_def by (auto simp: thr_upd_thread)

lemma free_ok_upd:
  assumes "free_ok s" "t_state (f (thr s i)) = Exited \<longleftrightarrow> t_state (thr s i) = Exited"
  shows "free_ok (upd_thread s i f)"
proof -
  have "(j < nthreads s \<and> t_state (thr (upd_thread s i f) j) = Exited) = (j < nthreads s \<and> t_state (thr s j) = Exited)" for j
    using assms(2) by (cases "j < nthreads s"; cases "j = i") (simp_all add: thr_upd_thread)
  then show ?thesis using assms(1) by (simp add: free_ok_def)
qed

lemma cur_ok_upd:
  assumes "cur_ok s h" "i \<noteq> sc_current s h \<or> t_state (f (thr s i)) = Running \<and> t_hart (f (thr s i)) = t_hart (thr s i)"
  shows "cur_ok (upd_thread s i f) h"
  using assms unfolding cur_ok_def by (auto simp: thr_upd_thread)

text \<open>An update that keeps state, hart, process and priority, and the resume data of a waiting thread.\<close>

lemma sched_wf_upd:
  assumes w: "sched_wf s" and i: "i < nthreads s"
    and f: "t_prio (f (thr s i)) = t_prio (thr s i)" "t_proc (f (thr s i)) = t_proc (thr s i)"
      "t_state (f (thr s i)) = t_state (thr s i)" "t_hart (f (thr s i)) = t_hart (thr s i)" "thread_ok (f (thr s i))"
  shows "sched_wf (upd_thread s i f)"
proof -
  have "idle_ok (upd_thread s i f)" unfolding idle_ok_def
    using sched_wfD(5) [OF w] f by (auto simp: idle_ok_def thr_upd_thread)
  moreover have "cur_ok (upd_thread s i f) h" if "h < 4" for h
    using sched_wfD(8) [OF w that] f by (auto simp: cur_ok_def thr_upd_thread)
  ultimately show ?thesis
    using q_ok_upd [OF sched_wfD(1) [OF w] i, of f] t_ok_upd [OF sched_wfD(4) [OF w], of f i] run_ok_upd [OF sched_wfD(6) [OF w], of f i]
      free_ok_upd [OF sched_wfD(7) [OF w], of f i] sched_wfD(2) [OF w] f
    by (simp add: sched_wf_def rest_ok_def)
qed

lemma sched_wf_cong:
  assumes "sc_threads s' = sc_threads s" "sc_current s' = sc_current s" "sc_idle s' = sc_idle s" "sc_free s' = sc_free s"
    "sc_ready s' = sc_ready s" "sc_donations s' = sc_donations s"
  shows "sched_wf s' = sched_wf s"
proof -
  have "eff_prio s' = eff_prio s" by (intro ext eff_prio_cong) (simp_all add: assms)
  then show ?thesis unfolding sched_wf_def rest_ok_cong [OF assms(1-4)] q_ok_def assms by simp
qed

lemma sched_wf_set [simp]:
  "sched_wf (set_ticks s h n) = sched_wf s" "sched_wf (set_satp s h r) = sched_wf s" "sched_wf (set_kill_req s i b) = sched_wf s"
  by (rule sched_wf_cong; simp)+

end
