(* ===== verification/Sched_Ops.thy ===== *)
theory Sched_Ops
  imports Sched_Inv
begin

text \<open>
  Every operation of the scheduler returns (no panic) on a well-formed state and keeps it
  well-formed. \<open>pre_wf s h\<close> describes the state in the middle of an operation on hart \<open>h\<close>, when its
  current thread has stopped running (or is the idle thread) and the next one is not chosen yet.
\<close>

definition pre_wf :: "sched \<Rightarrow> nat \<Rightarrow> bool" where
  "pre_wf s h \<longleftrightarrow> h < MAX_HARTS \<and> q_ok s (eff_prio s) {} \<and> don_ok (sc_donations s) (nthreads s) \<and> t_ok s \<and> idle_ok s \<and>
     run_ok s \<and> free_ok s \<and> (\<forall>h'<MAX_HARTS. h' \<noteq> h \<longrightarrow> cur_ok s h') \<and>
     sc_current s h < nthreads s \<and> (t_state (thr s (sc_current s h)) \<noteq> Running \<or> sc_current s h = sc_idle s h)"

lemma pre_wfD:
  assumes "pre_wf s h"
  shows "h < 4" "q_ok s (eff_prio s) {}" "don_ok (sc_donations s) (nthreads s)" "t_ok s" "idle_ok s" "run_ok s" "free_ok s"
    "h' < 4 \<Longrightarrow> h' \<noteq> h \<Longrightarrow> cur_ok s h'" "sc_current s h < nthreads s" "t_state (thr s (sc_current s h)) \<noteq> Running \<or> sc_current s h = sc_idle s h"
  using assms by (auto simp: pre_wf_def)

lemma pre_wf_ticks [simp]: "pre_wf (set_ticks s g n) h = pre_wf s h"
proof -
  have "eff_prio (set_ticks s g n) = eff_prio s" by (intro ext eff_prio_cong) simp_all
  then show ?thesis
    by (simp add: pre_wf_def q_ok_def t_ok_def idle_ok_def run_ok_def free_ok_def cur_ok_def)
qed

section \<open>Choosing the next thread\<close>

lemma picked_simps [simp]:
  "length (sc_threads (picked s h p q i)) = length (sc_threads s)" "sc_donations (picked s h p q i) = sc_donations s"
  "sc_current (picked s h p q i) = sc_current s" "sc_idle (picked s h p q i) = sc_idle s" "sc_free (picked s h p q i) = sc_free s"
  by (simp_all add: picked_def)

lemma thr_picked: "j < nthreads s \<Longrightarrow> thr (picked s h p q i) j = (if j = i then (thr s i)\<lparr>t_state := Running\<rparr> else thr s j)"
  by (simp add: picked_def thr_upd_thread)

lemma eff_prio_picked: "j < nthreads s \<Longrightarrow> eff_prio (picked s h p q i) j = eff_prio s j"
  by (rule eff_prio_cong) (simp_all add: thr_picked)

lemma picked_wf:
  assumes w: "pre_wf s h" and i: "sc_ready s h p = xs @ i # ys"
  shows "sched_wf (set_current (picked s h p (ys @ xs) i) h i)"
proof -
  let ?s = "set_current (picked s h p (ys @ xs) i) h i"
  note m = q_okD [OF pre_wfD(2) [OF w], of i h p]
  have m: "i < nthreads s" "t_state (thr s i) = Ready" "t_hart (thr s i) = h" using m i by auto
  have t: "thr ?s j = (if j = i then (thr s i)\<lparr>t_state := Running\<rparr> else thr s j)" if "j < nthreads s" for j
    using that by (simp add: thr_picked)
  have "q_ok (picked s h p (ys @ xs) i) (eff_prio s) {}" by (rule picked_q_ok [OF pre_wfD(2) [OF w] i])
  moreover have "q_ok ?s (eff_prio ?s) {} = q_ok (picked s h p (ys @ xs) i) (eff_prio s) {}"
    by (rule q_ok_cong) (simp_all add: eff_prio_picked eff_prio_cong [of ?s _ "picked s h p (ys @ xs) i"])
  ultimately have "q_ok ?s (eff_prio ?s) {}" by simp
  moreover have "t_ok ?s" unfolding t_ok_def
    using pre_wfD(4) [OF w] t by (auto simp: t_ok_def thread_ok_def)
  moreover have "idle_ok ?s" unfolding idle_ok_def
    using pre_wfD(5) [OF w] t by (auto simp: idle_ok_def)
  moreover have "run_ok ?s" unfolding run_ok_def
  proof (intro allI impI)
    fix j assume j: "j < nthreads ?s" "t_state (thr ?s j) = Running"
    show "\<exists>g<MAX_HARTS. j = sc_current ?s g \<or> j = sc_idle ?s g"
    proof (cases "j = i")
      case True
      then show ?thesis using pre_wfD(1) [OF w] by auto
    next
      case False
      then obtain g where "g < 4" "j = sc_current s g \<or> j = sc_idle s g" "t_state (thr s j) = Running"
        using j t pre_wfD(6) [OF w] unfolding run_ok_def by auto
      then show ?thesis using pre_wfD(10) [OF w] by (cases "g = h") auto
    qed
  qed
  moreover have "free_ok ?s"
  proof -
    have "(j < nthreads s \<and> t_state (thr ?s j) = Exited) = (j < nthreads s \<and> t_state (thr s j) = Exited)" for j
      using t m(2) by (cases "j < nthreads s") auto
    then show ?thesis using pre_wfD(7) [OF w] by (simp add: free_ok_def)
  qed
  moreover have "cur_ok ?s g" if "g < 4" for g
  proof (cases "g = h")
    case True
    then show ?thesis using m t by (simp add: cur_ok_def)
  next
    case False
    then show ?thesis using pre_wfD(8) [OF w that] m(2) t by (auto simp: cur_ok_def)
  qed
  ultimately show ?thesis using pre_wfD(3) [OF w] by (simp add: sched_wf_def rest_ok_def)
qed

lemma idle_wf:
  assumes w: "pre_wf s h" and r: "t_state (thr s (sc_idle s h)) = Running"
  shows "sched_wf (set_current s h (sc_idle s h))"
proof -
  let ?i = "sc_idle s h" and ?s = "set_current s h (sc_idle s h)"
  have i: "?i < nthreads s" "t_hart (thr s ?i) = h"
    using pre_wfD(1,5) [OF w] by (auto simp: idle_ok_def)
  have ef: "eff_prio ?s = eff_prio s" by (intro ext eff_prio_cong) simp_all
  have "run_ok ?s" unfolding run_ok_def
  proof (intro allI impI)
    fix j assume j: "j < nthreads ?s" "t_state (thr ?s j) = Running"
    then obtain g where "g < 4" "j = sc_current s g \<or> j = sc_idle s g" using pre_wfD(6) [OF w] unfolding run_ok_def by auto
    then show "\<exists>g<MAX_HARTS. j = sc_current ?s g \<or> j = sc_idle ?s g" using pre_wfD(10) [OF w] j by (cases "g = h") auto
  qed
  moreover have "cur_ok ?s g" if "g < 4" for g
    using pre_wfD(8) [OF w that] i r by (cases "g = h") (simp_all add: cur_ok_def)
  ultimately show ?thesis
    using pre_wfD(2-5,7) [OF w] ef by (simp add: sched_wf_def rest_ok_def q_ok_def t_ok_def idle_ok_def free_ok_def)
qed

lemma idle_running:
  assumes w: "pre_wf s h" and e: "\<forall>p<3. sc_ready s h p = []"
  shows "t_state (thr s (sc_idle s h)) = Running"
proof -
  let ?i = "sc_idle s h"
  have i: "?i < nthreads s" "t_hart (thr s ?i) = h" "t_state (thr s ?i) = Running \<or> t_state (thr s ?i) = Ready"
    using pre_wfD(1,5) [OF w] by (auto simp: idle_ok_def)
  have "t_state (thr s ?i) \<noteq> Ready"
  proof
    assume "t_state (thr s ?i) = Ready"
    then have "?i \<in> set (sc_ready s h (eff_prio s ?i))" using pre_wfD(2) [OF w] i unfolding q_ok_def by blast
    then show False using e thread_okD(5) [OF pre_wfD(4) [OF w] i(1)] by auto
  qed
  then show ?thesis using i(3) by simp
qed

lemma none_eligible_empty:
  assumes "q_ok s lev D" "t_ok s" "none_eligible s True (sc_ready s h p)"
  shows "sc_ready s h p = []"
proof (rule ccontr)
  assume "sc_ready s h p \<noteq> []"
  then obtain i where i: "i \<in> set (sc_ready s h p)" by (meson last_in_set)
  note m = q_okD [OF assms(1) i]
  show False using thread_okD(4) [OF assms(2) m(1)] m(2) assms(3) i by (auto simp: none_eligible_def eligible_def)
qed

text \<open>
  The cooperative choice: the head of the best queue that is not empty, or the idle thread if all
  queues of the hart are empty.
\<close>

definition next_coop :: "sched \<Rightarrow> nat \<Rightarrow> nat \<Rightarrow> bool" where
  "next_coop s h i \<longleftrightarrow>
     (\<exists>p<3. \<exists>ys. sc_ready s h p = i # ys \<and> (\<forall>l<p. sc_ready s h l = [])) \<or> (\<forall>p<3. sc_ready s h p = []) \<and> i = sc_idle s h"

lemma pick_coop:
  assumes w: "pre_wf s h"
  obtains i s1 where "pick_next s h True = Some (i, s1)" "next_coop s h i" "sched_wf (set_current s1 h i)"
    "i < nthreads s" "sc_threads s1 = (sc_threads s)[i := (thr s i)\<lparr>t_state := Running\<rparr>] \<or> sc_threads s1 = sc_threads s"
    "sc_current s1 = sc_current s" "sc_satp s1 = sc_satp s" "nthreads s1 = nthreads s" "sc_reaper s1 = sc_reaper s" "sc_donations s1 = sc_donations s" "sc_idle s1 = sc_idle s"
proof (cases rule: pick_next_cases [OF q_ok_live [OF pre_wfD(2) [OF w]], of h True])
  case (1 p xs i ys)
  have el: "sc_ready s h l = []" if "l < p" for l
    by (rule none_eligible_empty [OF pre_wfD(2,4) [OF w]]) (use 1(5) that in blast)
  have xs: "xs = []"
  proof (rule ccontr)
    assume "xs \<noteq> []"
    then obtain j where j: "j \<in> set xs" by (meson last_in_set)
    note m = q_okD [OF pre_wfD(2) [OF w], of j h p]
    show False using thread_okD(4) [OF pre_wfD(4) [OF w] m(1)] m(2) 1(2,3) j by (auto simp: none_eligible_def eligible_def)
  qed
  have "i < nthreads s" using q_okD(1) [OF pre_wfD(2) [OF w], of i h p] 1(2) by simp
  moreover have "sc_threads (picked s h p (ys @ xs) i) = (sc_threads s)[i := (thr s i)\<lparr>t_state := Running\<rparr>]"
    by (simp add: picked_def upd_thread_def)
  moreover have "next_coop s h i" unfolding next_coop_def using 1(1,2) xs el by auto
  moreover have "sc_satp (picked s h p (ys @ xs) i) = sc_satp s" "sc_reaper (picked s h p (ys @ xs) i) = sc_reaper s"
    by (simp_all add: picked_def set_ready_def)
  ultimately show ?thesis using that 1(6) picked_wf [OF w 1(2)] by simp
next
  case 2
  have e: "sc_ready s h p = []" if "p < 3" for p
    by (rule none_eligible_empty [OF pre_wfD(2,4) [OF w]]) (use 2 that in blast)
  have "pick_next s h True = Some (sc_idle s h, s)"
    using pick_next_none [OF q_ok_live [OF pre_wfD(2) [OF w]] 2 pre_wfD(9) [OF w]] pre_wfD(10) [OF w] by auto
  moreover have "next_coop s h (sc_idle s h)" using e by (simp add: next_coop_def)
  moreover have "sc_idle s h < nthreads s" using pre_wfD(1,5) [OF w] by (simp add: idle_ok_def)
  ultimately show ?thesis using that idle_wf [OF w idle_running [OF w]] e by blast
qed

lemma reschedule_ok:
  assumes w: "pre_wf s h" and regs: "length (c_s regs) = 12"
  obtains t s' where "reschedule s h (sc_current s h) regs = Some (t, s')" "sched_wf s'" "next_coop s h (sc_current s' h)"
    "st_next t = sc_current s' h" "st_old t = sc_current s h"
    "sc_satp s' h = satp_of (t_root (thr s (sc_current s' h)))" "\<forall>g. g \<noteq> h \<longrightarrow> sc_current s' g = sc_current s g"
    "st_use_frame t = (\<not> t_ctx_valid (thr s (sc_current s' h)))" "nthreads s' = nthreads s"
    "\<And>j. j < nthreads s \<Longrightarrow> j \<noteq> sc_current s' h \<Longrightarrow> thr s' j = (if j = sc_current s h then (thr s j)\<lparr>t_ctx := regs\<rparr> else thr s j)"
    "t_ctx (thr s' (sc_current s h)) = regs" "sc_reaper s' = sc_reaper s" "sc_donations s' = sc_donations s" "sc_idle s' = sc_idle s"
proof -
  let ?c = "sc_current s h"
  let ?s = "set_ticks s h 0"
  have w2: "pre_wf ?s h" using w by simp
  obtain i s1 where p: "pick_next ?s h True = Some (i, s1)" "next_coop ?s h i" "sched_wf (set_current s1 h i)"
    "i < nthreads ?s" "sc_threads s1 = (sc_threads ?s)[i := (thr ?s i)\<lparr>t_state := Running\<rparr>] \<or> sc_threads s1 = sc_threads ?s"
    "sc_current s1 = sc_current ?s" "sc_satp s1 = sc_satp ?s" "nthreads s1 = nthreads ?s" "sc_reaper s1 = sc_reaper ?s" "sc_donations s1 = sc_donations ?s" "sc_idle s1 = sc_idle ?s"
    by (rule pick_coop [OF w2]) (rule that; assumption)
  have c: "?c < nthreads s" by (rule pre_wfD(9) [OF w])
  have n: "i < nthreads s" "nthreads s1 = nthreads s" using p(4,8) by simp_all
  have r: "t_root (thr s1 i) = t_root (thr s i)" "t_ctx_valid (thr s1 i) = t_ctx_valid (thr s i)" using p(5) n by auto
  define t where "t = \<lparr>st_old = ?c, st_next = i, st_use_frame = (\<not> t_ctx_valid (thr s i)), st_next_root = t_root (thr s i)\<rparr>"
  let ?u = "do_switch (set_current s1 h i) h regs t"
  have e: "reschedule s h ?c regs = Some (t, ?u)"
    using p(1) n c r by (simp add: reschedule_def switch_target_of_def Let_def t_def)
  have "sched_wf ?u"
  proof -
    let ?v = "set_satp (set_current s1 h i) h (st_next_root t)"
    have v: "sched_wf ?v" using p(3) by simp
    have "thread_ok (thr ?v ?c)" using sched_wfD(4) [OF v] c n by (simp add: t_ok_def)
    then have "thread_ok ((thr ?v ?c)\<lparr>t_ctx := regs\<rparr>)" using regs by (simp add: thread_ok_def)
    then have "sched_wf (upd_thread ?v ?c (\<lambda>x. x\<lparr>t_ctx := regs\<rparr>))"
      by (intro sched_wf_upd [OF v]) (use c n in simp_all)
    then show ?thesis by (simp add: do_switch_def t_def)
  qed
  moreover have cur: "sc_current ?u = (sc_current s)(h := i)" using p(6) by (simp add: do_switch_def)
  moreover have "sc_satp ?u h = satp_of (t_root (thr s i))"
    by (simp add: do_switch_def set_satp_def switch_root_def Let_def t_def)
  moreover have "next_coop s h i" using p(2) by (simp add: next_coop_def)
  moreover have "nthreads ?u = nthreads s" using n by (simp add: do_switch_def)
  moreover have "thr ?u j = (if j = ?c then (thr s j)\<lparr>t_ctx := regs\<rparr> else thr s j)" if "j < nthreads s" "j \<noteq> i" for j
    using p(5) that n by (auto simp: do_switch_def t_def thr_upd_thread)
  moreover have "t_ctx (thr ?u ?c) = regs" using c n by (simp add: do_switch_def t_def thr_upd_thread)
  moreover have "sc_reaper ?u = sc_reaper s" using p(9) by (simp add: do_switch_def set_satp_def set_current_def set_ticks_def)
  moreover have "sc_donations ?u = sc_donations s" "sc_idle ?u = sc_idle s" using p(10,11) by (simp_all add: do_switch_def)
  ultimately show ?thesis by (intro that [OF e]) (simp_all add: t_def)
qed

section \<open>Stopping the current thread\<close>

lemma cur_okD:
  assumes "sched_wf s" "h < 4"
  shows "sc_current s h < nthreads s" "t_state (thr s (sc_current s h)) = Running" "t_hart (thr s (sc_current s h)) = h"
  using sched_wfD(8) [OF assms] by (simp_all add: cur_ok_def)

lemma idle_okD:
  assumes "sched_wf s" "h < 4"
  shows "sc_idle s h < nthreads s" "t_hart (thr s (sc_idle s h)) = h" "t_proc (thr s (sc_idle s h)) = None"
  using sched_wfD(5) [OF assms(1)] assms(2) by (auto simp: idle_ok_def)

lemma cur_not_idle:
  assumes "sched_wf s" "h < 4" "sc_current s h \<noteq> sc_idle s h" "g < 4"
  shows "sc_current s h \<noteq> sc_idle s g"
  using cur_okD(3) [OF assms(1,2)] idle_okD(2) [OF assms(1,4)] assms(3) by metis

lemma cur_inj:
  assumes "sched_wf s" "h < 4" "g < 4" "g \<noteq> h"
  shows "sc_current s g \<noteq> sc_current s h"
  using cur_okD(3) [OF assms(1,2)] cur_okD(3) [OF assms(1,3)] assms(4) by metis

lemma blocked_pre_wf:
  assumes w: "sched_wf s" and h: "h < 4" and n: "sc_current s h \<noteq> sc_idle s h"
    and f: "t_prio (f (thr s (sc_current s h))) = t_prio (thr s (sc_current s h))"
      "t_proc (f (thr s (sc_current s h))) = t_proc (thr s (sc_current s h))"
      "t_state (f (thr s (sc_current s h))) = Blocked" "thread_ok (f (thr s (sc_current s h)))"
  shows "pre_wf (upd_thread s (sc_current s h) f) h"
proof -
  let ?c = "sc_current s h"
  note c = cur_okD [OF w h]
  have "q_ok (upd_thread s ?c f) (eff_prio (upd_thread s ?c f)) {}"
    by (rule q_ok_upd [OF sched_wfD(1) [OF w] c(1)]) (use c f in simp_all)
  moreover have "idle_ok (upd_thread s ?c f)"
    by (rule idle_ok_upd [OF sched_wfD(5) [OF w]]) (use cur_not_idle [OF w h n] in blast)
  moreover have "run_ok (upd_thread s ?c f)" by (rule run_ok_upd [OF sched_wfD(6) [OF w]]) (use c in blast)
  moreover have "free_ok (upd_thread s ?c f)" by (rule free_ok_upd [OF sched_wfD(7) [OF w]]) (use c f in simp)
  moreover have "cur_ok (upd_thread s ?c f) g" if "g < 4" "g \<noteq> h" for g
    by (rule cur_ok_upd [OF sched_wfD(8) [OF w that(1)]]) (use cur_inj [OF w h that] in simp)
  ultimately show ?thesis
    using h c f sched_wfD(2) [OF w] t_ok_upd [OF sched_wfD(4) [OF w], of f ?c] by (simp add: pre_wf_def thr_upd_thread)
qed

lemma push_free_ok [simp]:
  "q_ok (push_free s i) lev D = q_ok s lev D" "t_ok (push_free s i) = t_ok s" "idle_ok (push_free s i) = idle_ok s"
  "run_ok (push_free s i) = run_ok s" "cur_ok (push_free s i) h = cur_ok s h" "sc_threads (push_free s i) = sc_threads s"
  "sc_current (push_free s i) = sc_current s" "sc_donations (push_free s i) = sc_donations s"
  "sc_idle (push_free s i) = sc_idle s" "sc_ready (push_free s i) = sc_ready s"
  by (simp_all add: push_free_def q_ok_def t_ok_def idle_ok_def run_ok_def cur_ok_def)

text \<open>The current thread leaves for good: Exited, its slot queued for reuse.\<close>

lemma reap_simps [simp]:
  "length (sc_threads (reap_stack s i)) = length (sc_threads s)" "sc_ready (reap_stack s i) = sc_ready s"
  "sc_donations (reap_stack s i) = sc_donations s" "sc_current (reap_stack s i) = sc_current s"
  "sc_idle (reap_stack s i) = sc_idle s" "sc_free (reap_stack s i) = sc_free s"
  by (simp_all add: reap_stack_def split: option.split)

lemma thr_reap: "j < nthreads s \<Longrightarrow> thr (reap_stack s i) j = (if j = i then (thr s i)\<lparr>t_stack := None\<rparr> else thr s j)"
  by (cases "t_stack (thr s i)") (auto simp: reap_stack_def thr_upd_thread intro: thread.equality)

lemma reap_wf: "sched_wf s \<Longrightarrow> i < nthreads s \<Longrightarrow> sched_wf (reap_stack s i)"
proof -
  assume w: "sched_wf s" and i: "i < nthreads s"
  let ?u = "upd_thread s i (\<lambda>t. t\<lparr>t_stack := None\<rparr>)"
  have "sched_wf ?u" by (rule sched_wf_upd [OF w i]) (use sched_wfD(4) [OF w] i in \<open>auto simp: t_ok_def thread_ok_def\<close>)
  moreover have "sched_wf (?u\<lparr>sc_reaper := r\<rparr>) = sched_wf ?u" for r by (rule sched_wf_cong) simp_all
  ultimately show ?thesis using w by (simp add: reap_stack_def split: option.split)
qed

lemma exited_pre_wf:
  assumes w: "sched_wf s" and h: "h < 4" and n: "sc_current s h \<noteq> sc_idle s h"
    and f: "t_prio (f (thr s (sc_current s h))) = t_prio (thr s (sc_current s h))"
      "t_proc (f (thr s (sc_current s h))) = t_proc (thr s (sc_current s h))"
      "t_state (f (thr s (sc_current s h))) = Exited" "thread_ok (f (thr s (sc_current s h)))"
  shows "pre_wf (push_free (upd_thread s (sc_current s h) f) (sc_current s h)) h"
proof -
  let ?c = "sc_current s h" and ?s = "upd_thread s (sc_current s h) f"
  note c = cur_okD [OF w h]
  have q: "q_ok ?s (eff_prio ?s) {}"
    by (rule q_ok_upd [OF sched_wfD(1) [OF w] c(1)]) (use c f in simp_all)
  have i: "idle_ok ?s" by (rule idle_ok_upd [OF sched_wfD(5) [OF w]]) (use cur_not_idle [OF w h n] in blast)
  have r: "run_ok ?s" by (rule run_ok_upd [OF sched_wfD(6) [OF w]]) (use c in blast)
  have k: "cur_ok ?s g" if "g < 4" "g \<noteq> h" for g
    by (rule cur_ok_upd [OF sched_wfD(8) [OF w that(1)]]) (use cur_inj [OF w h that] in simp)
  have e: "eff_prio (push_free ?s ?c) = eff_prio ?s" by (intro ext eff_prio_cong) simp_all
  have "free_ok (push_free ?s ?c)"
  proof -
    have fr: "j \<in> set (sc_free s) \<longleftrightarrow> j < nthreads s \<and> t_state (thr s j) = Exited" for j
      using sched_wfD(7) [OF w] by (simp add: free_ok_def)
    have "?c \<notin> set (sc_free s)" using c by (simp add: fr)
    moreover have "(j < nthreads s \<and> t_state (thr ?s j) = Exited) = (j \<in> set (sc_free s) \<or> j = ?c)" for j
      using c f(3) by (cases "j = ?c"; cases "j < nthreads s") (simp_all add: thr_upd_thread fr)
    moreover have "distinct (sc_free s)" using sched_wfD(7) [OF w] by (simp add: free_ok_def)
    ultimately show ?thesis by (simp add: free_ok_def push_free_def disj_commute)
  qed
  then show ?thesis
    using q i r k e h c f sched_wfD(2) [OF w] t_ok_upd [OF sched_wfD(4) [OF w], of f ?c]
    by (simp add: pre_wf_def thr_upd_thread)
qed

text \<open>The current thread goes back to its queue.\<close>

lemma requeued_pre_wf:
  assumes w: "sched_wf s" and h: "h < 4"
    and v: "t_ctx_valid (thr s (sc_current s h)) \<or> t_frame_valid (thr s (sc_current s h))"
  shows "enqueue s (sc_current s h) = Some (enqueued s (sc_current s h)) \<and> pre_wf (enqueued s (sc_current s h)) h"
proof -
  let ?c = "sc_current s h" and ?s = "enqueued s (sc_current s h)"
  note c = cur_okD [OF w h]
  note t = thread_okD [OF sched_wfD(4) [OF w] c(1)]
  have "q_ok ?s (eff_prio s) ({} - {?c})" by (rule enqueued_q_ok [OF sched_wfD(1) [OF w] c(1)]) (use c in simp_all)
  moreover have "q_ok ?s (eff_prio ?s) {} = q_ok ?s (eff_prio s) {}"
    by (rule q_ok_cong) (simp_all add: eff_prio_enqueued)
  ultimately have "q_ok ?s (eff_prio ?s) {}" by simp
  moreover have "t_ok ?s" unfolding t_ok_def
    using sched_wfD(4) [OF w] v by (auto simp: t_ok_def thread_ok_def thr_enqueued)
  moreover have "idle_ok ?s" unfolding idle_ok_def using sched_wfD(5) [OF w] by (auto simp: idle_ok_def thr_enqueued)
  moreover have "run_ok ?s" unfolding run_ok_def using sched_wfD(6) [OF w] by (auto simp: run_ok_def thr_enqueued)
  moreover have "free_ok ?s"
  proof -
    have "(j < nthreads s \<and> t_state (thr ?s j) = Exited) = (j < nthreads s \<and> t_state (thr s j) = Exited)" for j
      using c by (cases "j < nthreads s") (auto simp: thr_enqueued)
    then show ?thesis using sched_wfD(7) [OF w] by (simp add: free_ok_def)
  qed
  moreover have "cur_ok ?s g" if "g < 4" "g \<noteq> h" for g
    using sched_wfD(8) [OF w that(1)] cur_inj [OF w h that] by (auto simp: cur_ok_def thr_enqueued)
  moreover have "enqueue s ?c = Some ?s" by (rule enqueue_eq) (use c t in auto)
  ultimately show ?thesis using h c sched_wfD(2) [OF w] by (simp add: pre_wf_def thr_enqueued)
qed

section \<open>Voluntary switches\<close>

lemma cur_upd_wf:
  assumes "sched_wf s" "h < 4" "t_prio (f (thr s (sc_current s h))) = t_prio (thr s (sc_current s h))"
    "t_proc (f (thr s (sc_current s h))) = t_proc (thr s (sc_current s h))"
    "t_state (f (thr s (sc_current s h))) = Running" "t_hart (f (thr s (sc_current s h))) = h"
    "length (t_frame (f (thr s (sc_current s h)))) = 36" "length (c_s (t_ctx (f (thr s (sc_current s h))))) = 12"
  shows "sched_wf (upd_thread s (sc_current s h) f)"
  by (rule sched_wf_upd [OF assms(1) cur_okD(1) [OF assms(1,2)]])
    (use assms(3-8) cur_okD [OF assms(1,2)] thread_okD [OF sched_wfD(4) [OF assms(1)] cur_okD(1) [OF assms(1,2)]] assms(3)
     in \<open>simp_all add: thread_ok_def\<close>)

lemma yield_ok:
  assumes w: "sched_wf s" and h: "h < 4" and regs: "length (c_s regs) = 12"
  obtains t s' v where "yield s h regs = Some (t, s')" "sched_wf s'" "next_coop v h (sc_current s' h)"
    "sc_ready v h = (sc_ready s h)(eff_prio s (sc_current s h) := sc_ready s h (eff_prio s (sc_current s h)) @ [sc_current s h])"
    "sc_satp s' h = satp_of (t_root (thr s (sc_current s' h)))" "t_ctx (thr s' (sc_current s h)) = regs" "sc_reaper s' = []"
    "st_next t = sc_current s' h" "nthreads s' = nthreads s"
proof -
  let ?c = "sc_current s h"
  let ?u = "upd_thread s ?c (\<lambda>t. t\<lparr>t_frame_valid := False, t_ctx_valid := True\<rparr>)"
  let ?v = "?u\<lparr>sc_reaper := []\<rparr>"
  note c = cur_okD [OF w h]
  have "sched_wf ?u" by (rule cur_upd_wf [OF w h]) (use c thread_okD(3,7) [OF sched_wfD(4) [OF w] c(1)] in simp_all)
  then have v: "sched_wf ?v" using sched_wf_cong [of ?v ?u] by simp
  have p: "enqueue ?v ?c = Some (enqueued ?v ?c)" "pre_wf (enqueued ?v ?c) h"
    using requeued_pre_wf [OF v h] c by (simp_all add: thr_upd_thread)
  obtain t s' where r: "reschedule (enqueued ?v ?c) h (sc_current (enqueued ?v ?c) h) regs = Some (t, s')" "sched_wf s'"
    "next_coop (enqueued ?v ?c) h (sc_current s' h)" "sc_satp s' h = satp_of (t_root (thr (enqueued ?v ?c) (sc_current s' h)))"
    "t_ctx (thr s' (sc_current (enqueued ?v ?c) h)) = regs" "sc_reaper s' = sc_reaper (enqueued ?v ?c)" "st_next t = sc_current s' h"
    "nthreads s' = nthreads (enqueued ?v ?c)"
    by (rule reschedule_ok [OF p(2) regs]) (rule that; assumption)
  have ef: "eff_prio ?v ?c = eff_prio s ?c" by (rule eff_prio_cong) (use c in \<open>simp_all add: thr_upd_thread\<close>)
  have q: "sc_ready (enqueued ?v ?c) h = (sc_ready s h)(eff_prio s ?c := sc_ready s h (eff_prio s ?c) @ [?c])"
    unfolding enqueued_def ef using c by (simp add: set_ready_def thr_upd_thread)
  have "sc_current s' h < nthreads s" using cur_okD(1) [OF r(2) h] r(8) by simp
  then have "t_root (thr (enqueued ?v ?c) (sc_current s' h)) = t_root (thr s (sc_current s' h))"
    by (simp add: thr_enqueued thr_upd_thread)
  moreover have "sc_reaper (enqueued ?v ?c) = []" by (simp add: enqueued_def upd_thread_def set_ready_def)
  ultimately show ?thesis using that [of t s' "enqueued ?v ?c"] r q p(1) c by (simp add: yield_def drain_reaper_def Let_def)
qed

lemma exit_ok:
  assumes w: "sched_wf s" and h: "h < 4" and n: "sc_current s h \<noteq> sc_idle s h" and regs: "length (c_s regs) = 12"
  obtains t s' where "exit_thread s h regs = Some (t, s')" "sched_wf s'"
proof -
  let ?c = "sc_current s h" and ?r = "reap_stack s (sc_current s h)"
  let ?f = "\<lambda>t. t\<lparr>t_state := Exited, t_frame_valid := False, t_ctx_valid := True\<rparr>"
  note c = cur_okD [OF w h]
  have r: "sched_wf ?r" by (rule reap_wf [OF w c(1)])
  have "pre_wf (push_free (upd_thread ?r (sc_current ?r h) ?f) (sc_current ?r h)) h"
    by (rule exited_pre_wf [OF r h]) (use n thread_okD [OF sched_wfD(4) [OF w] c(1)] c(1) in \<open>simp_all add: thread_ok_def thr_reap\<close>)
  then have p: "pre_wf (push_free (upd_thread ?r ?c ?f) ?c) h" by simp
  obtain t s' where "reschedule (push_free (upd_thread ?r ?c ?f) ?c) h (sc_current (push_free (upd_thread ?r ?c ?f) ?c) h) regs = Some (t, s')"
    "sched_wf s'" by (rule reschedule_ok [OF p regs])
  then show ?thesis using that c by (simp add: exit_thread_def Let_def push_free_def)
qed

lemma block_current_ok:
  assumes w: "sched_wf s" and h: "h < 4" and n: "sc_current s h \<noteq> sc_idle s h" and regs: "length (c_s regs) = 12"
  obtains t s' where "block_current s h regs = Some (t, s')" "sched_wf s'"
proof -
  let ?c = "sc_current s h"
  note c = cur_okD [OF w h]
  note fl = thread_okD(3,7) [OF sched_wfD(4) [OF w] c(1)]
  consider "t_ipc_wake (thr s ?c) \<noteq> None" | "t_ipc_wake (thr s ?c) = None" "t_woken (thr s ?c)"
    | "t_ipc_wake (thr s ?c) = None" "\<not> t_woken (thr s ?c)" by blast
  then show ?thesis
  proof cases
    case 1
    let ?u = "upd_thread s ?c (\<lambda>t. t\<lparr>t_ipc_wake := None, t_state := Running\<rparr>)"
    have "sched_wf ?u" by (rule cur_upd_wf [OF w h]) (use c fl in simp_all)
    then obtain s' where "revoke_donations ?u ?c = Some s'" "sched_wf s'" using revoke_donations_ok by blast
    then show ?thesis using that [of None] 1 c by (simp add: block_current_def Let_def)
  next
    case 2
    let ?u = "upd_thread s ?c (\<lambda>t. t\<lparr>t_woken := False, t_state := Running\<rparr>)"
    have "sched_wf ?u" by (rule cur_upd_wf [OF w h]) (use c fl in simp_all)
    then show ?thesis using that [of None] 2 c by (simp add: block_current_def Let_def)
  next
    case 3
    let ?u = "upd_thread s ?c (\<lambda>t. t\<lparr>t_state := Blocked, t_frame_valid := False, t_ctx_valid := True\<rparr>)"
    have p: "pre_wf ?u h"
      by (rule blocked_pre_wf [OF w h n]) (use thread_okD [OF sched_wfD(4) [OF w] c(1)] in \<open>simp_all add: thread_ok_def\<close>)
    obtain t s' where "reschedule ?u h (sc_current ?u h) regs = Some (t, s')" "sched_wf s'" by (rule reschedule_ok [OF p regs])
    then show ?thesis using that [of "Some t"] 3 c by (simp add: block_current_def Let_def)
  qed
qed

lemma block_user_ok:
  assumes w: "sched_wf s" and h: "h < 4" and n: "sc_current s h \<noteq> sc_idle s h" and regs: "length (c_s regs) = 12"
    and fr: "length frame = 36" and none: "t_ipc_wake (thr s (sc_current s h)) = None"
  obtains t s' where "block_user_from_trap s h frame regs = Some (Inr t, s')" "sched_wf s'" "nthreads s' = nthreads s"
    "thr s' (sc_current s h) = (thr s (sc_current s h))\<lparr>t_frame := frame, t_frame_valid := True, t_ctx_valid := False,
       t_woken := False, t_state := Blocked, t_ctx := regs\<rparr>"
    "\<And>j. j < nthreads s \<Longrightarrow> j \<noteq> sc_current s h \<Longrightarrow> j \<noteq> sc_current s' h \<Longrightarrow> thr s' j = thr s j"
    "\<forall>g. g \<noteq> h \<longrightarrow> sc_current s' g = sc_current s g" "sc_donations s' = sc_donations s" "sc_idle s' = sc_idle s"
proof -
  let ?c = "sc_current s h"
  let ?u = "upd_thread s ?c
    (\<lambda>t. t\<lparr>t_frame := frame, t_frame_valid := True, t_ctx_valid := False, t_woken := False, t_state := Blocked\<rparr>)"
  note c = cur_okD [OF w h]
  have p: "pre_wf ?u h"
    by (rule blocked_pre_wf [OF w h n]) (use thread_okD [OF sched_wfD(4) [OF w] c(1)] fr in \<open>simp_all add: thread_ok_def\<close>)
  obtain t s' where r: "reschedule ?u h (sc_current ?u h) regs = Some (t, s')" "sched_wf s'" "next_coop ?u h (sc_current s' h)"
    "nthreads s' = nthreads ?u"
    "\<And>j. j < nthreads ?u \<Longrightarrow> j \<noteq> sc_current s' h \<Longrightarrow> thr s' j = (if j = sc_current ?u h then (thr ?u j)\<lparr>t_ctx := regs\<rparr> else thr ?u j)"
    "\<forall>g. g \<noteq> h \<longrightarrow> sc_current s' g = sc_current ?u g" "sc_donations s' = sc_donations ?u" "sc_idle s' = sc_idle ?u"
    by (rule reschedule_ok [OF p regs]) (rule that; assumption)
  have cu: "thr ?u ?c = (thr s ?c)\<lparr>t_frame := frame, t_frame_valid := True, t_ctx_valid := False, t_woken := False, t_state := Blocked\<rparr>"
    using c by (simp add: thr_upd_thread)
  have "?c \<noteq> sc_current s' h"
  proof
    assume "?c = sc_current s' h"
    then have "\<exists>l. ?c \<in> set (sc_ready ?u h l)" 
      using r(3) n unfolding next_coop_def by (metis list.set_intros(1) upd_thread_simps(2,5))
    then show False using q_okD(2) [OF pre_wfD(2) [OF p], of ?c h] cu by auto
  qed
  then have "thr s' ?c = (thr s ?c)\<lparr>t_frame := frame, t_frame_valid := True, t_ctx_valid := False, t_woken := False, t_state := Blocked, t_ctx := regs\<rparr>"
    using r(5) [of ?c] c cu by simp
  moreover have "thr s' j = thr s j" if "j < nthreads s" "j \<noteq> ?c" "j \<noteq> sc_current s' h" for j
    using r(5) [of j] that by (simp add: thr_upd_thread)
  ultimately show ?thesis using r(1,2,4,6-8) none c by (intro that [of t s']) (simp_all add: block_user_from_trap_def Let_def)
qed

section \<open>Waking\<close>

lemma ready_wf:
  assumes w: "sched_wf s" and i: "i < nthreads s" "t_state (thr s i) = Blocked"
  shows "enqueue s i = Some (enqueued s i) \<and> sched_wf (enqueued s i)"
proof -
  let ?s = "enqueued s i"
  note t = thread_okD [OF sched_wfD(4) [OF w] i(1)]
  have "q_ok ?s (eff_prio s) ({} - {i})" by (rule enqueued_q_ok [OF sched_wfD(1) [OF w] i(1)]) (use i in simp_all)
  moreover have "q_ok ?s (eff_prio ?s) {} = q_ok ?s (eff_prio s) {}"
    by (rule q_ok_cong) (simp_all add: eff_prio_enqueued)
  ultimately have "q_ok ?s (eff_prio ?s) {}" by simp
  moreover have "t_ok ?s" unfolding t_ok_def
    using sched_wfD(4) [OF w] i t(4) by (auto simp: t_ok_def thread_ok_def thr_enqueued)
  moreover have "idle_ok ?s" unfolding idle_ok_def using sched_wfD(5) [OF w] by (auto simp: idle_ok_def thr_enqueued)
  moreover have "run_ok ?s" unfolding run_ok_def using sched_wfD(6) [OF w] by (auto simp: run_ok_def thr_enqueued)
  moreover have "free_ok ?s"
  proof -
    have "(j < nthreads s \<and> t_state (thr ?s j) = Exited) = (j < nthreads s \<and> t_state (thr s j) = Exited)" for j
      using i by (cases "j < nthreads s") (auto simp: thr_enqueued)
    then show ?thesis using sched_wfD(7) [OF w] by (simp add: free_ok_def)
  qed
  moreover have "cur_ok ?s g" if "g < 4" for g
    using sched_wfD(8) [OF w that] i by (auto simp: cur_ok_def thr_enqueued)
  moreover have "enqueue s i = Some ?s" by (rule enqueue_eq) (use i t in auto)
  ultimately show ?thesis using sched_wfD(2) [OF w] by (simp add: sched_wf_def rest_ok_def)
qed

lemma upd_wf:
  assumes "sched_wf s" "i < nthreads s" "t_prio (f (thr s i)) = t_prio (thr s i)" "t_proc (f (thr s i)) = t_proc (thr s i)"
    "t_state (f (thr s i)) = t_state (thr s i)" "t_hart (f (thr s i)) = t_hart (thr s i)"
    "length (t_frame (f (thr s i))) = 36" "length (c_s (t_ctx (f (thr s i)))) = 12"
    "t_ctx_valid (f (thr s i)) = t_ctx_valid (thr s i)" "t_frame_valid (f (thr s i)) = t_frame_valid (thr s i)"
  shows "sched_wf (upd_thread s i f)"
  by (rule sched_wf_upd [OF assms(1,2)]) (use assms(3-10) thread_okD [OF sched_wfD(4) [OF assms(1)] assms(2)] in \<open>simp_all add: thread_ok_def\<close>)

lemma wake_ok:
  assumes w: "sched_wf s"
  shows "\<exists>r s'. wake s g i = Some (r, s') \<and> sched_wf s'"
proof (cases "i < nthreads s")
  case True
  let ?u = "upd_thread s i (\<lambda>t. t\<lparr>t_woken := True\<rparr>)"
  have u: "sched_wf ?u" by (rule upd_wf [OF w True]) (use thread_okD [OF sched_wfD(4) [OF w] True] in simp_all)
  show ?thesis
  proof (cases "t_state (thr s i) = Blocked")
    case b: True
    then have "enqueue ?u i = Some (enqueued ?u i) \<and> sched_wf (enqueued ?u i)"
      by (intro ready_wf [OF u]) (use True in \<open>simp_all add: thr_upd_thread\<close>)
    then show ?thesis using True b by (simp add: wake_def thr_upd_thread Let_def)
  qed (use True u in \<open>simp add: wake_def thr_upd_thread Let_def\<close>)
qed (use w in \<open>simp add: wake_def\<close>)

lemma write_words_ok:
  "i + length ws \<le> length f \<Longrightarrow>
   \<exists>g. write_words f i ws = Some g \<and> length g = length f \<and>
     (\<forall>k<length f. g ! k = (if i \<le> k \<and> k < i + length ws then ws ! (k - i) else f ! k))"
proof (induction f i ws rule: write_words.induct)
  case (2 f i w ws)
  then obtain g where g: "write_words (f[i := w]) (Suc i) ws = Some g" "length g = length f"
    "\<forall>k<length f. g ! k = (if Suc i \<le> k \<and> k < Suc i + length ws then ws ! (k - Suc i) else f[i := w] ! k)"
    by auto
  have "g ! k = (if i \<le> k \<and> k < i + length (w # ws) then (w # ws) ! (k - i) else f ! k)" if "k < length f" for k
    using g(3) that by (cases "k = i") (auto simp: nth_Cons')
  then show ?case using g(1,2) 2(2) by auto
qed simp

lemma advance_sepc_ok:
  assumes "f ! 33 + 4 < 2 ^ 64"
  shows "advance_sepc f = Some (f[33 := f ! 33 + 4])"
  using assms by (simp add: advance_sepc_def uadd_def)

text \<open>Waking an IPC thread, as long as its saved program counter does not overflow.\<close>

definition frame_pc_ok :: "sched \<Rightarrow> nat \<Rightarrow> bool" where
  "frame_pc_ok s i \<longleftrightarrow> t_frame (thr s i) ! FRAME_SEPC + 4 < USIZE_LIMIT"

definition msg_frame :: "frame \<Rightarrow> usize \<Rightarrow> msg option \<Rightarrow> frame" where
  "msg_frame f code m =
     (let g = f[X_A0 := code]; g = (case m of Some w \<Rightarrow> take 10 g @ w @ drop (10 + length w) g | None \<Rightarrow> g)
      in g[FRAME_SEPC := f ! FRAME_SEPC + 4])"

lemma write_words_eq:
  assumes "i + length ws \<le> length f"
  shows "write_words f i ws = Some (take i f @ ws @ drop (i + length ws) f)"
proof -
  obtain g where g: "write_words f i ws = Some g" "length g = length f"
    "\<forall>k<length f. g ! k = (if i \<le> k \<and> k < i + length ws then ws ! (k - i) else f ! k)"
    using write_words_ok [OF assms] by blast
  have "g = take i f @ ws @ drop (i + length ws) f"
    by (rule nth_equalityI) (use g(2,3) assms in \<open>auto simp: nth_append\<close>)
  then show ?thesis using g(1) by simp
qed

lemma msg_frame_eq:
  assumes "length f = 36" "f ! 33 + 4 < 2 ^ 64" "\<forall>w. m = Some w \<longrightarrow> length w \<le> 5"
  shows "do { g \<leftarrow> (case m of Some w \<Rightarrow> write_words (f[X_A0 := code]) X_A1 w | None \<Rightarrow> Some (f[X_A0 := code])); advance_sepc g }
    = Some (msg_frame f code m)"
proof (cases m)
  case None
  then show ?thesis using assms advance_sepc_ok [of "f[9 := code]"] by (simp add: msg_frame_def)
next
  case (Some w)
  let ?g = "take 10 (f[9 := code]) @ w @ drop (10 + length w) (f[9 := code])"
  have n: "length w \<le> 5" using assms(3) Some by simp
  have "write_words (f[9 := code]) 10 w = Some ?g" by (rule write_words_eq) (use assms(1) n in simp)
  moreover have "?g ! 33 = f ! 33" using assms(1) n by (simp add: nth_append)
  then have "advance_sepc ?g = Some (?g[33 := f ! 33 + 4])" using advance_sepc_ok [of ?g] assms(2) by simp
  ultimately show ?thesis using Some by (simp add: msg_frame_def)
qed

lemma msg_frame_length: "length f = 36 \<Longrightarrow> \<forall>w. m = Some w \<longrightarrow> length w \<le> 5 \<Longrightarrow> length (msg_frame f code m) = 36"
  by (auto simp: msg_frame_def Let_def split: option.split)

text \<open>The part the two IPC wake-ups share: new frame and message, back to the queue, donations withdrawn.\<close>

lemma ipc_wake_tail:
  assumes w: "sched_wf s" and i: "i < nthreads s" "t_state (thr s i) = Blocked" and f: "length fr = 36"
  shows "\<exists>s'. do { s \<leftarrow> enqueue (upd_thread s i (\<lambda>t. t\<lparr>t_frame := fr, t_ipc_msg := m, t_ipc_wake := None\<rparr>)) i;
        let ipi = ipi_wake_cross_hart s i g; s \<leftarrow> revoke_donations s i; Some (ipi, s) } =
      Some (ipi_wake_cross_hart (enqueued (upd_thread s i (\<lambda>t. t\<lparr>t_frame := fr, t_ipc_msg := m, t_ipc_wake := None\<rparr>)) i) i g, s') \<and>
    sched_wf s' \<and> thr s' i = (thr s i)\<lparr>t_state := Ready, t_frame := fr, t_ipc_msg := m, t_ipc_wake := None\<rparr> \<and>
    (\<forall>j<nthreads s. j \<noteq> i \<longrightarrow> thr s' j = thr s j) \<and> nthreads s' = nthreads s \<and>
    sc_donations s' = filter (\<lambda>d. d_donor d \<noteq> i) (sc_donations s) \<and> sc_current s' = sc_current s"
proof -
  let ?u = "upd_thread s i (\<lambda>t. t\<lparr>t_frame := fr, t_ipc_msg := m, t_ipc_wake := None\<rparr>)"
  have "sched_wf ?u" by (rule upd_wf [OF w i(1)]) (use f thread_okD [OF sched_wfD(4) [OF w] i(1)] in simp_all)
  then have e: "enqueue ?u i = Some (enqueued ?u i)" "sched_wf (enqueued ?u i)"
    using ready_wf [of ?u i] i by (simp_all add: thr_upd_thread)
  obtain s' where s': "revoke_donations (enqueued ?u i) i = Some s'" "sched_wf s'"
    "same_but_queues ((enqueued ?u i)\<lparr>sc_donations := filter (\<lambda>d. d_donor d \<noteq> i) (sc_donations (enqueued ?u i))\<rparr>) s'"
    using revoke_donations_ok [OF e(2)] by blast
  note d = same_but_queuesD [OF s'(3)]
  show ?thesis using e(1) s'(1,2) d(1-3) i
    by (intro exI [of _ s']) (simp add: thr_enqueued thr_upd_thread)
qed

end
