(* ===== verification/Sched_Life.thy ===== *)
theory Sched_Life
  imports Sched_Ops
begin

text \<open>
  The operations that create, wake, move and kill threads keep the scheduler well-formed, and the
  start state is well-formed.
\<close>

section \<open>Waking an IPC thread\<close>

lemma ipc_wake_with_msg_ok:
  assumes w: "sched_wf s" and i: "i < nthreads s" and m: "\<forall>x. m = Some x \<longrightarrow> length x \<le> 5"
    and pc: "t_state (thr s i) = Blocked \<longrightarrow> frame_pc_ok s i"
  obtains r s' where "ipc_wake_with_msg s g i m = Some (r, s')" "sched_wf s'"
    "nthreads s' = nthreads s" "sc_current s' = sc_current s"
    "t_state (thr s i) = Blocked \<Longrightarrow> thr s' i = (thr s i)\<lparr>t_state := Ready, t_frame := msg_frame (t_frame (thr s i)) 0 m,
       t_ipc_msg := map_option (\<lambda>x. msg_buf (Some x)) m, t_ipc_wake := None\<rparr>"
    "t_state (thr s i) \<noteq> Blocked \<Longrightarrow> thr s' i = (thr s i)\<lparr>t_ipc_msg := Some (msg_buf m), t_ipc_wake := Some (WakeMsg (msg_buf m))\<rparr>"
    "\<forall>j<nthreads s. j \<noteq> i \<longrightarrow> thr s' j = thr s j"
    "t_state (thr s i) = Blocked \<Longrightarrow> sc_donations s' = filter (\<lambda>d. d_donor d \<noteq> i) (sc_donations s)"
proof (cases "t_state (thr s i) = Blocked")
  case True
  note t = thread_okD [OF sched_wfD(4) [OF w] i]
  let ?f = "msg_frame (t_frame (thr s i)) 0 m" and ?m = "map_option (\<lambda>x. msg_buf (Some x)) m"
  have f: "do { g \<leftarrow> (case m of Some x \<Rightarrow> write_words ((t_frame (thr s i))[X_A0 := 0]) X_A1 x | None \<Rightarrow> Some ((t_frame (thr s i))[X_A0 := 0]));
      advance_sepc g } = Some ?f"
    by (rule msg_frame_eq) (use t(3) m pc True in \<open>simp_all add: frame_pc_ok_def\<close>)
  obtain s' where s': "do { s \<leftarrow> enqueue (upd_thread s i (\<lambda>t. t\<lparr>t_frame := ?f, t_ipc_msg := ?m, t_ipc_wake := None\<rparr>)) i;
        let ipi = ipi_wake_cross_hart s i g; s \<leftarrow> revoke_donations s i; Some (ipi, s) } =
      Some (ipi_wake_cross_hart (enqueued (upd_thread s i (\<lambda>t. t\<lparr>t_frame := ?f, t_ipc_msg := ?m, t_ipc_wake := None\<rparr>)) i) i g, s')"
    "sched_wf s'" "thr s' i = (thr s i)\<lparr>t_state := Ready, t_frame := ?f, t_ipc_msg := ?m, t_ipc_wake := None\<rparr>"
    "\<forall>j<nthreads s. j \<noteq> i \<longrightarrow> thr s' j = thr s j" "nthreads s' = nthreads s"
    "sc_donations s' = filter (\<lambda>d. d_donor d \<noteq> i) (sc_donations s)" "sc_current s' = sc_current s"
    using ipc_wake_tail [OF w i True msg_frame_length [OF t(3) m]] by blast
  have "ipc_wake_with_msg s g i m =
     do { f \<leftarrow> (do { g \<leftarrow> (case m of Some x \<Rightarrow> write_words ((t_frame (thr s i))[X_A0 := 0]) X_A1 x | None \<Rightarrow> Some ((t_frame (thr s i))[X_A0 := 0]));
            advance_sepc g });
          s \<leftarrow> enqueue (upd_thread s i (\<lambda>t. t\<lparr>t_frame := f, t_ipc_msg := ?m, t_ipc_wake := None\<rparr>)) i;
          let ipi = ipi_wake_cross_hart s i g; s \<leftarrow> revoke_donations s i; Some (ipi, s) }"
    using i True by (cases m) (simp_all add: ipc_wake_with_msg_def Let_def bind_assoc)
  then show ?thesis using f s' True by (intro that [of _ s']) simp_all
next
  case False
  let ?u = "upd_thread s i (\<lambda>t. t\<lparr>t_ipc_msg := Some (msg_buf m), t_ipc_wake := Some (WakeMsg (msg_buf m))\<rparr>)"
  have "sched_wf ?u" by (rule upd_wf [OF w i]) (use thread_okD [OF sched_wfD(4) [OF w] i] in simp_all)
  moreover have "ipc_wake_with_msg s g i m = Some (None, ?u)" using i False by (simp add: ipc_wake_with_msg_def)
  ultimately show ?thesis using False i by (intro that [of None ?u]) (simp_all add: thr_upd_thread)
qed

lemma ipc_wake_with_err_ok:
  assumes w: "sched_wf s" and i: "i < nthreads s" and pc: "t_state (thr s i) = Blocked \<longrightarrow> frame_pc_ok s i"
  obtains r s' where "ipc_wake_with_err s g i code = Some (r, s')" "sched_wf s'"
    "nthreads s' = nthreads s" "sc_current s' = sc_current s"
    "t_state (thr s i) = Blocked \<Longrightarrow> thr s' i = (thr s i)\<lparr>t_state := Ready, t_frame := msg_frame (t_frame (thr s i)) code None,
       t_ipc_msg := Some (replicate MSG_WORDS code), t_ipc_wake := None\<rparr>"
    "t_state (thr s i) \<noteq> Blocked \<Longrightarrow> thr s' i = (thr s i)\<lparr>t_ipc_msg := Some (replicate MSG_WORDS code), t_ipc_wake := Some (WakeErr code)\<rparr>"
    "\<forall>j<nthreads s. j \<noteq> i \<longrightarrow> thr s' j = thr s j"
    "t_state (thr s i) = Blocked \<Longrightarrow> sc_donations s' = filter (\<lambda>d. d_donor d \<noteq> i) (sc_donations s)"
proof (cases "t_state (thr s i) = Blocked")
  case True
  note t = thread_okD [OF sched_wfD(4) [OF w] i]
  let ?f = "msg_frame (t_frame (thr s i)) code None" and ?m = "Some (replicate MSG_WORDS code)"
  have f: "advance_sepc ((t_frame (thr s i))[X_A0 := code]) = Some ?f"
    using msg_frame_eq [of "t_frame (thr s i)" None code] t(3) pc True by (simp add: frame_pc_ok_def)
  obtain s' where s': "do { s \<leftarrow> enqueue (upd_thread s i (\<lambda>t. t\<lparr>t_frame := ?f, t_ipc_msg := ?m, t_ipc_wake := None\<rparr>)) i;
        let ipi = ipi_wake_cross_hart s i g; s \<leftarrow> revoke_donations s i; Some (ipi, s) } =
      Some (ipi_wake_cross_hart (enqueued (upd_thread s i (\<lambda>t. t\<lparr>t_frame := ?f, t_ipc_msg := ?m, t_ipc_wake := None\<rparr>)) i) i g, s')"
    "sched_wf s'" "thr s' i = (thr s i)\<lparr>t_state := Ready, t_frame := ?f, t_ipc_msg := ?m, t_ipc_wake := None\<rparr>"
    "\<forall>j<nthreads s. j \<noteq> i \<longrightarrow> thr s' j = thr s j" "nthreads s' = nthreads s"
    "sc_donations s' = filter (\<lambda>d. d_donor d \<noteq> i) (sc_donations s)" "sc_current s' = sc_current s"
    using ipc_wake_tail [OF w i True, of ?f ?m g] msg_frame_length [OF t(3), of None code] by auto
  have "ipc_wake_with_err s g i code = do { f \<leftarrow> advance_sepc ((t_frame (thr s i))[X_A0 := code]);
          s \<leftarrow> enqueue (upd_thread s i (\<lambda>t. t\<lparr>t_frame := f, t_ipc_msg := ?m, t_ipc_wake := None\<rparr>)) i;
          let ipi = ipi_wake_cross_hart s i g; s \<leftarrow> revoke_donations s i; Some (ipi, s) }"
    using i True by (simp add: ipc_wake_with_err_def Let_def)
  then show ?thesis using f s' True by (intro that [of _ s']) simp_all
next
  case False
  let ?u = "upd_thread s i (\<lambda>t. t\<lparr>t_ipc_msg := Some (replicate MSG_WORDS code), t_ipc_wake := Some (WakeErr code)\<rparr>)"
  have "sched_wf ?u" by (rule upd_wf [OF w i]) (use thread_okD [OF sched_wfD(4) [OF w] i] in simp_all)
  moreover have "ipc_wake_with_err s g i code = Some (None, ?u)" using i False by (simp add: ipc_wake_with_err_def)
  ultimately show ?thesis using False i by (intro that [of None ?u]) (simp_all add: thr_upd_thread)
qed

section \<open>New threads\<close>

text \<open>A Ready thread placed in a slot no live thread uses.\<close>

lemma placed_wf:
  assumes w: "sched_wf s" and i: "i < nthreads s \<and> t_state (thr s i) = Exited \<or> i = nthreads s" "i < 64"
    and n: "nthreads u = max (nthreads s) (Suc i)"
    and th: "\<And>j. j < nthreads u \<Longrightarrow> thr u j = (if j = i then t else thr s j)"
    and same: "sc_ready u = sc_ready s" "sc_donations u = sc_donations s" "sc_current u = sc_current s" "sc_idle u = sc_idle s"
    and fr: "distinct (sc_free u)" "\<And>j. j \<in> set (sc_free u) \<longleftrightarrow> j \<in> set (sc_free s) \<and> j \<noteq> i"
    and t: "thread_ok t" "t_state t = Ready"
  shows "enqueue u i = Some (enqueued u i) \<and> sched_wf (enqueued u i)"
proof -
  have iu: "i < nthreads u" using n by simp
  have eff: "eff_prio u j = eff_prio s j" if "j < nthreads s" "j \<noteq> i" for j
    by (rule eff_prio_cong) (use th [of j] that n same in simp_all)
  have tu: "t_ok u" unfolding t_ok_def using sched_wfD(4) [OF w] th n i t by (auto simp: t_ok_def)
  have ready: "j \<in> set (sc_ready s h p) \<longleftrightarrow> j < nthreads s \<and> t_state (thr s j) = Ready \<and> t_hart (thr s j) = h \<and> eff_prio s j = p" for j h p
    using sched_wfD(1) [OF w] unfolding q_ok_def by blast
  have "j \<in> set (sc_ready s h p) \<longleftrightarrow>
      j < nthreads u \<and> t_state (thr u j) = Ready \<and> j \<notin> {i} \<and> t_hart (thr u j) = h \<and> eff_prio u j = p" for j h p
  proof (cases "j = i")
    case True
    then show ?thesis using i ready by auto
  next
    case False
    then show ?thesis using th [of j] eff [of j] n i(1) ready by (cases "j < nthreads s") auto
  qed
  then have "q_ok u (eff_prio u) {i}" using sched_wfD(1) [OF w] unfolding q_ok_def same by blast
  then have "q_ok (enqueued u i) (eff_prio u) ({i} - {i})" by (intro enqueued_q_ok) (use iu in simp_all)
  moreover have "q_ok (enqueued u i) (eff_prio (enqueued u i)) {} = q_ok (enqueued u i) (eff_prio u) {}"
    by (rule q_ok_cong) (simp_all add: eff_prio_enqueued)
  ultimately have q: "q_ok (enqueued u i) (eff_prio (enqueued u i)) {}" by simp
  have tu2: "thr (enqueued u i) j = (if j = i then t else thr s j)" if "j < nthreads u" for j
  proof -
    have "t\<lparr>t_state := Ready\<rparr> = t" using t(2) by (metis thread.surjective thread.update_convs(2))
    then show ?thesis using that th by (simp add: thr_enqueued)
  qed
  have live: "sc_current s g \<noteq> i" "sc_idle s g \<noteq> i" "sc_current s g < nthreads u" "sc_idle s g < nthreads u" if "g < 4" for g
    using cur_okD [OF w that] sched_wfD(5) [OF w] i(1) n that by (auto simp: idle_ok_def)
  have "t_ok (enqueued u i)" using tu t tu2 n i(2) th by (auto simp: t_ok_def)
  moreover have "idle_ok (enqueued u i)"
    using sched_wfD(5) [OF w] live tu2 same by (simp add: idle_ok_def)
  moreover have "run_ok (enqueued u i)" unfolding run_ok_def
    using sched_wfD(6) [OF w] tu2 same t(2) n i(1) by (auto simp: run_ok_def)
  moreover have "free_ok (enqueued u i)"
  proof -
    have "j \<in> set (sc_free u) \<longleftrightarrow> j < nthreads u \<and> t_state (thr (enqueued u i) j) = Exited" for j
    proof (cases "j = i")
      case False
      have "j \<in> set (sc_free s) \<longleftrightarrow> j < nthreads s \<and> t_state (thr s j) = Exited" using sched_wfD(7) [OF w] by (simp add: free_ok_def)
      moreover have "j < nthreads u \<longleftrightarrow> j < nthreads s" using n i(1) False by auto
      ultimately show ?thesis using fr(2) [of j] tu2 [of j] False by (cases "j < nthreads s") simp_all
    qed (use fr(2) tu2 iu t(2) in simp)
    then show ?thesis using fr(1) by (simp add: free_ok_def)
  qed
  moreover have "cur_ok (enqueued u i) g" if "g < 4" for g
    using cur_okD [OF w that] live [OF that] tu2 same by (simp add: cur_ok_def)
  moreover have "enqueue u i = Some (enqueued u i)" by (rule enqueue_eq) (use iu thread_okD [OF tu iu] in simp_all)
  moreover have "don_ok (sc_donations u) (nthreads u)" using sched_wfD(2) [OF w] same(2) n by (auto simp: don_ok_def)
  ultimately show ?thesis using q by (simp add: sched_wf_def rest_ok_def)
qed

text \<open>
  A new thread gets a slot that no live thread uses; this fails only with 64 live threads.
\<close>

lemma insert_thread_ok:
  assumes w: "sched_wf s" and room: "sc_free s \<noteq> [] \<or> nthreads s < 64" and t: "thread_ok t" "t_state t = Ready"
  obtains i s' where "insert_thread s t = Some (i, s')" "sched_wf s'" "i < nthreads s'" "thr s' i = t"
    "i < nthreads s \<Longrightarrow> t_state (thr s i) = Exited" "nthreads s' = max (nthreads s) (Suc i)"
    "\<forall>j<nthreads s. j \<noteq> i \<longrightarrow> thr s' j = thr s j" "sc_current s' = sc_current s" "sc_donations s' = sc_donations s"
    "\<not> sc_kill_req s' i" "sc_idle s' = sc_idle s"
proof -
  have fr: "distinct (sc_free s)" "\<And>j. j \<in> set (sc_free s) \<longleftrightarrow> j < nthreads s \<and> t_state (thr s j) = Exited"
    using sched_wfD(7) [OF w] by (auto simp: free_ok_def)
  define i where "i = (case sc_free s of x # _ \<Rightarrow> x | [] \<Rightarrow> nthreads s)"
  define u where "u = (set_kill_req s i False)\<lparr>sc_free := tl (sc_free s),
     sc_threads := (if i < nthreads s then (sc_threads s)[i := t] else sc_threads s @ [t])\<rparr>"
  have i: "i < nthreads s \<and> t_state (thr s i) = Exited \<or> i = nthreads s \<and> sc_free s = []" "i < 64"
    using fr(2) [of i] room sched_wfD(4) [OF w] by (auto simp: i_def t_ok_def split: list.splits)
  have n: "nthreads u = max (nthreads s) (Suc i)" using i by (auto simp: u_def)
  have th: "thr u j = (if j = i then t else thr s j)" if "j < nthreads u" for j
    using that i by (auto simp: u_def nth_append nth_list_update split: if_splits)
  have f: "distinct (tl (sc_free s))" "\<And>j. j \<in> set (tl (sc_free s)) \<longleftrightarrow> j \<in> set (sc_free s) \<and> j \<noteq> i"
    using fr(1) i(1) by (auto simp: i_def distinct_tl split: list.splits)
  have e: "enqueue u i = Some (enqueued u i)" "sched_wf (enqueued u i)"
  proof -
    have "i < nthreads s \<and> t_state (thr s i) = Exited \<or> i = nthreads s" using i(1) by blast
    then have "enqueue u i = Some (enqueued u i) \<and> sched_wf (enqueued u i)"
      by (rule placed_wf [OF w _ i(2) n th _ _ _ _ _ _ t]) (use f in \<open>simp_all add: u_def\<close>)
    then show "enqueue u i = Some (enqueued u i)" "sched_wf (enqueued u i)" by simp_all
  qed
  have "insert_thread s t = Some (i, enqueued u i)"
  proof (cases "sc_free s")
    case Nil
    then have "i = nthreads s" by (simp add: i_def)
    moreover have "u = (set_kill_req s i False)\<lparr>sc_threads := sc_threads s @ [t]\<rparr>" using calculation Nil by (simp add: u_def set_kill_req_def)
    ultimately show ?thesis using Nil i(2) e(1) by (simp add: insert_thread_def Let_def)
  next
    case (Cons x xs)
    then have "i = x" "i < nthreads s" using i by (simp_all add: i_def)
    moreover have "u = (set_kill_req (s\<lparr>sc_free := xs\<rparr>) i False)\<lparr>sc_threads := (sc_threads s)[i := t]\<rparr>"
      using calculation Cons by (simp add: u_def set_kill_req_def)
    ultimately show ?thesis using Cons i(2) e(1) by (simp add: insert_thread_def Let_def)
  qed
  moreover have "thr (enqueued u i) j = (if j = i then t else thr s j)" if "j < nthreads u" for j
  proof -
    have "t\<lparr>t_state := Ready\<rparr> = t" using t(2) by (metis thread.surjective thread.update_convs(2))
    then show ?thesis using that th by (simp add: thr_enqueued)
  qed
  ultimately show ?thesis using e(2) n i(1)
    by (intro that [of i "enqueued u i"]) (auto simp: u_def set_kill_req_def)
qed

lemma kernel_thread_ok: "h < 4 \<Longrightarrow> thread_ok (kernel_thread im h stack entry prio)"
  by (simp add: kernel_thread_def thread_ok_def kernel_frame_def Let_def)

lemma user_thread_ok: "h < 4 \<Longrightarrow> thread_ok (user_thread im h pid root pc st prio a b)"
  by (simp add: user_thread_def thread_ok_def)

end
