(* ===== verification/Sched_Preempt.thy ===== *)
theory Sched_Preempt
  imports Sched_Life
begin

text \<open>
  Preemption, migration between harts, threads owned by a process and the killing of a process keep
  the scheduler well-formed; so does the start.
\<close>

section \<open>Taking a thread out of its queue\<close>

lemma remove_from_ready_none:
  assumes w: "q_ok s lev D" and i: "i < nthreads s" "t_state (thr s i) \<noteq> Ready"
  shows "remove_from_ready s i = Some s"
proof -
  have "\<not> i \<in> set (sc_ready s h p)" for h p using q_okD(2) [OF w] i by blast
  then have "find (\<lambda>p. i \<in> set (sc_ready s h p)) [0..<PRIO_LEVELS] = None" for h
    unfolding find_None_iff by blast
  then show ?thesis using i by (simp add: remove_from_ready_def Let_def del: PRIO_LEVELS_def)
qed

lemma find_unique:
  assumes "x \<in> set xs" "\<And>y. P y \<longleftrightarrow> y = x"
  shows "find P xs = Some x"
  using assms by (induction xs) auto

lemma remove_from_ready_some:
  assumes w: "sched_wf s" and i: "i < nthreads s" "t_state (thr s i) = Ready"
  shows "remove_from_ready s i = Some (set_ready s (t_hart (thr s i)) (eff_prio s i)
    (remove1 i (sc_ready s (t_hart (thr s i)) (eff_prio s i))))"
proof -
  have "i \<in> set (sc_ready s (t_hart (thr s i)) p) \<longleftrightarrow> p = eff_prio s i" for p
    using sched_wfD(1) [OF w] i unfolding q_ok_def by auto
  moreover have "eff_prio s i \<in> set [0..<PRIO_LEVELS]" using thread_okD(5) [OF sched_wfD(4) [OF w] i(1)] by (simp del: upt_rec_numeral)
  ultimately have "find (\<lambda>p. i \<in> set (sc_ready s (t_hart (thr s i)) p)) [0..<PRIO_LEVELS] = Some (eff_prio s i)"
    by (intro find_unique) auto
  then show ?thesis using i by (simp add: remove_from_ready_def Let_def del: PRIO_LEVELS_def)
qed

lemma removed_q_ok:
  assumes q: "q_ok s lev {}" and i: "i < nthreads s" "t_state (thr s i) = Ready"
  shows "q_ok (set_ready s (t_hart (thr s i)) (lev i) (remove1 i (sc_ready s (t_hart (thr s i)) (lev i)))) lev {i}"
proof -
  let ?h = "t_hart (thr s i)" and ?s = "set_ready s (t_hart (thr s i)) (lev i) (remove1 i (sc_ready s (t_hart (thr s i)) (lev i)))"
  have m: "j \<in> set (sc_ready s h p) \<longleftrightarrow> j < nthreads s \<and> t_state (thr s j) = Ready \<and> t_hart (thr s j) = h \<and> lev j = p" for j h p
    using q unfolding q_ok_def by blast
  have d: "distinct (sc_ready s h p)" for h p using q by (simp add: q_ok_def)
  have "j \<in> set (sc_ready ?s h p) \<longleftrightarrow> j \<in> set (sc_ready s h p) \<and> j \<noteq> i" for j h p
    using d m [of i h p] by (auto simp: set_remove1_eq)
  moreover have "distinct (sc_ready ?s h p)" for h p using d by (simp add: distinct_remove1)
  ultimately show ?thesis using m unfolding q_ok_def by auto
qed

lemma set_affinity_ok:
  assumes w: "sched_wf s" and i: "i < nthreads s" "t_state (thr s i) = Ready \<or> t_state (thr s i) = Blocked"
    and idle: "\<forall>h<4. i \<noteq> sc_idle s h"
  obtains s' where "set_affinity s i hart = Some s'" "sched_wf s'" "t_hart (thr s' i) = min hart 3"
    "t_state (thr s' i) = t_state (thr s i)"
proof -
  let ?h = "min hart 3"
  note t = thread_okD [OF sched_wfD(4) [OF w] i(1)]
  have cur: "i \<noteq> sc_current s g" if "g < 4" for g using cur_okD(2) [OF w that] i(2) by auto
  have common: "t_ok (upd_thread s i (\<lambda>t. t\<lparr>t_hart := ?h\<rparr>))" "idle_ok (upd_thread s i (\<lambda>t. t\<lparr>t_hart := ?h\<rparr>))"
    "run_ok (upd_thread s i (\<lambda>t. t\<lparr>t_hart := ?h\<rparr>))" "free_ok (upd_thread s i (\<lambda>t. t\<lparr>t_hart := ?h\<rparr>))"
    "g < 4 \<Longrightarrow> cur_ok (upd_thread s i (\<lambda>t. t\<lparr>t_hart := ?h\<rparr>)) g" for g
    using t_ok_upd [OF sched_wfD(4) [OF w], of "\<lambda>t. t\<lparr>t_hart := ?h\<rparr>" i]
      idle_ok_upd [OF sched_wfD(5) [OF w], of i] run_ok_upd [OF sched_wfD(6) [OF w], of "\<lambda>t. t\<lparr>t_hart := ?h\<rparr>" i]
      free_ok_upd [OF sched_wfD(7) [OF w], of "\<lambda>t. t\<lparr>t_hart := ?h\<rparr>" i] cur_ok_upd [OF sched_wfD(8) [OF w], of g i] cur [of g]
      idle t i(2) by (simp_all add: thread_ok_def)
  show ?thesis
  proof (cases "t_state (thr s i) = Blocked")
    case True
    let ?u = "upd_thread s i (\<lambda>t. t\<lparr>t_hart := ?h\<rparr>)"
    have "q_ok ?u (eff_prio ?u) {}" by (rule q_ok_upd [OF sched_wfD(1) [OF w] i(1)]) (use True in simp_all)
    then have "sched_wf ?u" using common sched_wfD(2) [OF w] by (simp add: sched_wf_def rest_ok_def)
    then show ?thesis using that [of ?u] True i(1) by (simp add: set_affinity_def Let_def thr_upd_thread)
  next
    case False
    then have r: "t_state (thr s i) = Ready" using i(2) by simp
    let ?v = "set_ready s (t_hart (thr s i)) (eff_prio s i) (remove1 i (sc_ready s (t_hart (thr s i)) (eff_prio s i)))"
    let ?u = "upd_thread ?v i (\<lambda>t. t\<lparr>t_hart := ?h\<rparr>)"
    have th: "sc_threads ?u = sc_threads (upd_thread s i (\<lambda>t. t\<lparr>t_hart := ?h\<rparr>))" by (simp add: upd_thread_def)
    have tu: "thr ?u j = (if j = i then (thr s i)\<lparr>t_hart := ?h\<rparr> else thr s j)" if "j < nthreads s" for j
      using that by (simp add: thr_upd_thread)
    have e: "eff_prio ?u j = eff_prio s j" if "j < nthreads s" for j
      by (rule eff_prio_cong) (use tu [OF that] in \<open>simp_all\<close>)
    have "q_ok ?v (eff_prio s) {i}" by (rule removed_q_ok [OF sched_wfD(1) [OF w] i(1) r])
    moreover have "q_ok ?u (eff_prio ?u) {i} = q_ok ?v (eff_prio s) {i}"
      by (rule q_ok_cong) (use tu e in simp_all)
    ultimately have "q_ok (enqueued ?u i) (eff_prio ?u) ({i} - {i})"
      by (intro enqueued_q_ok) (use i(1) in simp_all)
    moreover have "q_ok (enqueued ?u i) (eff_prio (enqueued ?u i)) {} = q_ok (enqueued ?u i) (eff_prio ?u) {}"
      by (rule q_ok_cong) (simp_all add: eff_prio_enqueued)
    ultimately have q: "q_ok (enqueued ?u i) (eff_prio (enqueued ?u i)) {}" by simp
    have sm: "same_but_queues ?u (enqueued ?u i)" by (rule enqueued_same) (use i(1) r tu in simp_all)
    note d = same_but_queuesD [OF sm]
    have "rest_ok (enqueued ?u i) = rest_ok (upd_thread s i (\<lambda>t. t\<lparr>t_hart := ?h\<rparr>))"
      by (rule rest_ok_cong) (use th d in simp_all)
    then have "rest_ok (enqueued ?u i)" using common by (simp add: rest_ok_def)
    then have wu: "sched_wf (enqueued ?u i)" using q sched_wfD(2) [OF w] by (simp add: sched_wf_def)
    have en: "enqueue ?u i = Some (enqueued ?u i)" by (rule enqueue_eq) (use i(1) tu e t(5) in simp_all)
    show ?thesis
    proof (cases "t_hart (thr s i) = ?h")
      case True
      then show ?thesis using that [of s] w i(1) r by (simp add: set_affinity_def Let_def)
    next
      case False
      have "set_affinity s i hart = Some (enqueued ?u i)"
        using remove_from_ready_some [OF w i(1) r] False i(1) r en by (simp add: set_affinity_def Let_def)
      then show ?thesis using that wu i(1) d(1) tu [OF i(1)] r by simp
    qed
  qed
qed

section \<open>Preemption\<close>

lemma enqueued_upd_state:
  assumes "i < nthreads s" "\<And>t. g t = (f t)\<lparr>t_state := Ready\<rparr>" "\<And>t. t_prio (f t) = t_prio t" "\<And>t. t_proc (f t) = t_proc t" "\<And>t. t_hart (f t) = t_hart t"
  shows "enqueue (upd_thread s i g) i = enqueue (upd_thread s i f) i"
proof -
  have "eff_prio (upd_thread s i g) i = eff_prio (upd_thread s i f) i"
    by (rule eff_prio_cong) (use assms in \<open>simp_all add: thr_upd_thread\<close>)
  then show ?thesis using assms by (simp add: enqueue_def thread_at_def Let_def thr_upd_thread upd_thread_def set_ready_def)
qed

lemma expand_frame_length: "length c = 12 \<Longrightarrow> length (t_frame (thr (expand_ctx_to_frame im s i) i)) = 36" if "i < nthreads s" "c = c_s (t_ctx (thr s i))"
  using that by (simp add: expand_ctx_to_frame_def Let_def thr_upd_thread)

lemma enter_frame_ok:
  assumes w: "sched_wf (set_current s h i)" and i: "i < nthreads s" "t_state (thr s i) = Running" and h: "h < 4"
  obtains s' where "enter_frame im s h i = Some s'" "sched_wf s'" "sc_current s' = (sc_current s)(h := i)"
    "sc_satp s' h = satp_of (t_root (thr s i))" "t_frame_valid (thr s' i)" "nthreads s' = nthreads s"
    "t_frame_valid (thr s i) \<Longrightarrow> t_frame (thr s' i) = t_frame (thr s i)" "sc_ready s' = sc_ready s"
proof -
  let ?s = "set_current s h i"
  let ?u = "if t_frame_valid (thr s i) then ?s else expand_ctx_to_frame im ?s i"
  note t = thread_okD [OF sched_wfD(4) [OF w], of i]
  have "sched_wf (expand_ctx_to_frame im ?s i)"
    unfolding expand_ctx_to_frame_def Let_def
    by (rule sched_wf_upd [OF w]) (use t i in \<open>simp_all add: thread_ok_def\<close>)
  then have "sched_wf ?u" using w by simp
  moreover have "enter_frame im s h i = Some (set_satp ?u h (t_root (thr s i)))"
    using i by (simp add: enter_frame_def)
  moreover have "sc_satp (set_satp ?u h (t_root (thr s i))) h = satp_of (t_root (thr s i))"
    by (simp add: set_satp_def switch_root_def Let_def)
  moreover have "nthreads ?u = nthreads s" "sc_current ?u = (sc_current s)(h := i)" "t_frame_valid (thr ?u i)" "sc_ready ?u = sc_ready s"
    using i by (simp_all add: expand_ctx_to_frame_def Let_def thr_upd_thread)
  ultimately show ?thesis by (intro that [of "set_satp ?u h (t_root (thr s i))"]) simp_all
qed

text \<open>
  The choice at a tick: the first thread of the best level that can be resumed from its frame or was
  woken with a saved context.
\<close>

definition next_preempt :: "sched \<Rightarrow> nat \<Rightarrow> nat \<Rightarrow> bool" where
  "next_preempt s h i \<longleftrightarrow> (\<exists>p<3. \<exists>xs ys. sc_ready s h p = xs @ i # ys \<and> none_eligible s False xs \<and> eligible False (thr s i) \<and>
     (\<forall>l<p. none_eligible s False (sc_ready s h l)))"

lemma on_tick_preempt_ok:
  assumes w: "sched_wf s" and h: "h < 4" and fr: "length frame = 36"
    and go: "\<not> (sc_ticks u h < SLICE_TICKS \<and> \<not> other_preemptable u h (eff_prio u (sc_current u h)))"
      "other_preemptable (set_ticks u h 0) h PRIO_LEVELS"
    and u: "u = set_ticks s h ((sc_ticks s h + 1) mod USIZE_LIMIT)"
  obtains v r s' where "on_tick im s h frame = Some (r, s')" "sched_wf s'" "next_preempt v h (sc_current s' h)"
    "sc_ready v = (sc_ready s)(h := (sc_ready s h)(eff_prio s (sc_current s h) := sc_ready s h (eff_prio s (sc_current s h)) @ [sc_current s h]))"
    "\<And>j. j < nthreads s \<Longrightarrow> thr v j = (if j = sc_current s h then (thr s j)\<lparr>t_frame := frame, t_frame_valid := True, t_ctx_valid := False, t_state := Ready\<rparr> else thr s j)"
    "r = (if sc_current s' h = sc_current s h then None else Some (sc_current s' h))"
    "\<forall>g. g \<noteq> h \<longrightarrow> sc_current s' g = sc_current s g"
    "r \<noteq> None \<Longrightarrow> sc_satp s' h = satp_of (t_root (thr s (sc_current s' h))) \<and> t_frame (thr s' (sc_current s h)) = frame"
    "sc_current s' h < nthreads s"
proof -
  let ?c = "sc_current s h"
  note c = cur_okD [OF w h]
  note t = thread_okD [OF sched_wfD(4) [OF w] c(1)]
  let ?f = "\<lambda>t. t\<lparr>t_frame := frame, t_frame_valid := True, t_ctx_valid := False\<rparr>"
  let ?g = "\<lambda>t. t\<lparr>t_frame := frame, t_frame_valid := True, t_ctx_valid := False, t_state := Ready\<rparr>"
  have g1: "(sc_ticks u h < SLICE_TICKS \<and> \<not> other_preemptable u h (eff_prio u (sc_current u h))) = False" using go(1) by blast
  have g2: "other_preemptable (set_ticks u h 0) h PRIO_LEVELS = True" using go(2) by blast
  have uc: "sc_current u = sc_current s" "sc_threads u = sc_threads s" by (simp_all add: u)
  define s0 where "s0 = set_ticks u h 0"
  have s0: "sched_wf s0" "sc_current s0 = sc_current s" "sc_threads s0 = sc_threads s" "sc_ready s0 = sc_ready s" "sc_satp s0 = sc_satp s"
    using w by (simp_all add: s0_def u, simp_all add: set_ticks_def)
  have c0: "?c < nthreads s0" "sc_current s0 h = ?c" using c s0 by simp_all
  have wf: "sched_wf (upd_thread s0 ?c ?f)"
    using cur_upd_wf [OF s0(1) h, of ?f] c t fr unfolding s0(2) by (simp add: s0(3))
  define v where "v = enqueued (upd_thread s0 ?c ?f) ?c"
  have p: "enqueue (upd_thread s0 ?c ?f) ?c = Some v" "pre_wf v h"
    using requeued_pre_wf [OF wf h] c0 unfolding v_def by (simp_all add: thr_upd_thread)
  have eq: "enqueue (upd_thread s0 ?c ?g) ?c = Some v"
    using enqueued_upd_state [of ?c s0 ?g ?f] c0 p(1) by simp
  have ef: "eff_prio (upd_thread s0 ?c ?f) ?c = eff_prio s ?c"
    by (rule eff_prio_cong) (use c0 s0(3) in \<open>simp_all add: thr_upd_thread s0_def u\<close>)
  have tv: "thr v j = (if j = ?c then ?g (thr s j) else thr s j)" if "j < nthreads s" for j
    using that s0(3) by (simp add: v_def thr_enqueued thr_upd_thread)
  have nv: "nthreads v = nthreads s" "sc_current v = sc_current s" "sc_satp v = sc_satp s"
    using s0 by (simp_all add: v_def, simp add: enqueued_def upd_thread_def set_ready_def)
  have rv: "sc_ready v = (sc_ready s)(h := (sc_ready s h)(eff_prio s ?c := sc_ready s h (eff_prio s ?c) @ [?c]))"
    unfolding v_def enqueued_def ef using c c0 s0(3,4) by (simp add: set_ready_def thr_upd_thread)
  have in_q: "?c \<in> set (sc_ready v h (eff_prio s ?c))" using rv by simp
  have el: "eligible False (thr v ?c)" using tv [OF c(1)] by (simp add: eligible_def)
  show ?thesis
  proof (cases rule: pick_next_cases [OF q_ok_live [OF pre_wfD(2) [OF p(2)]], of h False])
    case (1 q xs i ys)
    let ?k = "picked v h q (ys @ xs) i"
    have wk: "sched_wf (set_current ?k h i)" by (rule picked_wf [OF p(2) 1(2)])
    have i: "i < nthreads v" using q_okD(1) [OF pre_wfD(2) [OF p(2)], of i h q] 1(2) by simp
    have nx: "next_preempt v h i" unfolding next_preempt_def using 1 by blast
    have tk: "thr ?k j = (if j = i then (thr v i)\<lparr>t_state := Running\<rparr> else thr v j)" if "j < nthreads v" for j
      using that by (rule thr_picked)
    have e: "on_tick im s h frame = (if i = ?c then do {
           s \<leftarrow> remove_from_ready ?k ?c;
           Some (None, upd_thread s ?c (\<lambda>t. t\<lparr>t_state := Running, t_frame_valid := True, t_ctx_valid := False\<rparr>)) }
         else do { s \<leftarrow> enter_frame im ?k h i; Some (Some i, s) })"
      unfolding on_tick_def Let_def u [symmetric] g1 g2 if_False not_True_eq_False unfolding s0_def [symmetric]
      using c c0 uc eq 1(6) by simp
    show ?thesis
    proof (cases "i = ?c")
      case True
      have same: "set_current ?k h i = ?k" using nv(2) True by (simp add: set_current_def)
      then have wk2: "sched_wf ?k" using wk by simp
      have "remove_from_ready ?k ?c = Some ?k"
        by (rule remove_from_ready_none [OF sched_wfD(1) [OF wk2]]) (use True i tk nv in simp_all)
      then have e2: "on_tick im s h frame = Some (None, upd_thread ?k ?c (\<lambda>t. t\<lparr>t_state := Running, t_frame_valid := True, t_ctx_valid := False\<rparr>))"
        using e True by simp
      have "sched_wf (upd_thread ?k (sc_current ?k h) (\<lambda>t. t\<lparr>t_state := Running, t_frame_valid := True, t_ctx_valid := False\<rparr>))"
        by (rule cur_upd_wf [OF wk2 h]) (use cur_okD [OF wk2 h] thread_okD [OF sched_wfD(4) [OF wk2] cur_okD(1) [OF wk2 h]] in simp_all)
      then show ?thesis using e2 nx True nv rv tv c(1) by (intro that [OF e2, of v]) simp_all
    next
      case False
      obtain s' where s': "enter_frame im ?k h i = Some s'" "sched_wf s'" "sc_current s' = (sc_current ?k)(h := i)"
        "sc_satp s' h = satp_of (t_root (thr ?k i))" "nthreads s' = nthreads ?k"
        by (rule enter_frame_ok [OF wk _ _ h]) (use i tk in simp_all)
      have "thr s' ?c = thr ?k ?c"
        using s'(1) False i c(1) nv(1)
        by (auto simp: enter_frame_def expand_ctx_to_frame_def Let_def thr_upd_thread)
      then have "t_frame (thr s' ?c) = frame" using tk [of ?c] tv [OF c(1)] nv(1) c(1) False by simp
      moreover have "t_root (thr ?k i) = t_root (thr s i)" using tk [OF i] tv i nv(1) False by simp
      ultimately show ?thesis using e s' nx False nv rv tv i
        by (intro that [of "Some i" s' v]) simp_all
    qed
  next
    case 2
    have "eff_prio s ?c < 3" by (rule t(5))
    then have "\<not> eligible False (thr v ?c)" using 2 in_q by (auto simp: none_eligible_def)
    then show ?thesis using el by contradiction
  qed
qed

lemma on_tick_ok:
  assumes w: "sched_wf s" and h: "h < 4" and fr: "length frame = 36"
  obtains r s' where "on_tick im s h frame = Some (r, s')" "sched_wf s'"
proof -
  define u where "u = set_ticks s h ((sc_ticks s h + 1) mod USIZE_LIMIT)"
  note c = cur_okD [OF w h]
  have wu: "sched_wf u" "sc_current u h < nthreads u" using w c(1) by (simp_all add: u_def)
  consider "sc_ticks u h < SLICE_TICKS \<and> \<not> other_preemptable u h (eff_prio u (sc_current u h))"
    | "\<not> (sc_ticks u h < SLICE_TICKS \<and> \<not> other_preemptable u h (eff_prio u (sc_current u h)))" "\<not> other_preemptable (set_ticks u h 0) h PRIO_LEVELS"
    | "\<not> (sc_ticks u h < SLICE_TICKS \<and> \<not> other_preemptable u h (eff_prio u (sc_current u h)))" "other_preemptable (set_ticks u h 0) h PRIO_LEVELS"
    by blast
  then show ?thesis
  proof cases
    case 1
    then have "on_tick im s h frame = Some (None, u)" using wu unfolding on_tick_def Let_def u_def [symmetric] by simp
    then show ?thesis using that wu(1) by blast
  next
    case 2
    then have g: "(sc_ticks u h < SLICE_TICKS \<and> \<not> other_preemptable u h (eff_prio u (sc_current u h))) = False"
      "other_preemptable (set_ticks u h 0) h PRIO_LEVELS = False" by blast+
    have "on_tick im s h frame = Some (None, set_ticks u h 0)"
      unfolding on_tick_def Let_def u_def [symmetric] g if_False using wu by simp
    then show ?thesis using that wu(1) by simp
  next
    case 3
    show ?thesis by (rule on_tick_preempt_ok [OF w h fr 3 u_def]) (rule that)
  qed
qed

end
