(* ===== verification/Sched_Kill.thy ===== *)
theory Sched_Kill
  imports Sched_Preempt
begin

text \<open>
  Threads owned by a process, forced termination, the scheduler's part of killing a process, the
  idle loop of the secondary harts, and the start state.
\<close>

section \<open>Small steps\<close>

lemma pre_wf_cong:
  assumes "sc_threads s' = sc_threads s" "sc_current s' = sc_current s" "sc_idle s' = sc_idle s" "sc_free s' = sc_free s"
    "sc_ready s' = sc_ready s" "sc_donations s' = sc_donations s"
  shows "pre_wf s' h = pre_wf s h"
proof -
  have "eff_prio s' = eff_prio s" by (intro ext eff_prio_cong) (simp_all add: assms)
  then show ?thesis unfolding pre_wf_def q_ok_def t_ok_def idle_ok_def run_ok_def free_ok_def cur_ok_def assms by simp
qed

lemma set_current_same: "sc_current s h = i \<Longrightarrow> set_current s h i = s"
  by (auto simp: set_current_def)

lemma pre_wf_kill_req [simp]: "pre_wf (set_kill_req s i b) h = pre_wf s h"
  by (rule pre_wf_cong) simp_all

lemma thread_entry_ok:
  assumes w: "sched_wf s" and h: "h < 4"
  obtains f s' where "thread_entry s h = Some (f, s')" "sched_wf s'"
proof -
  note c = cur_okD [OF w h]
  have "sched_wf (upd_thread s (sc_current s h) (\<lambda>t. t\<lparr>t_frame_valid := False\<rparr>))"
    by (rule cur_upd_wf [OF w h]) (use c thread_okD [OF sched_wfD(4) [OF w] c(1)] in simp_all)
  then show ?thesis using that c by (simp add: thread_entry_def Let_def)
qed

lemma take_ipc_msg_ok:
  assumes w: "sched_wf s" and h: "h < 4"
  obtains s' where "take_ipc_msg s h = Some (t_ipc_msg (thr s (sc_current s h)), s')" "sched_wf s'"
    "t_ipc_msg (thr s' (sc_current s h)) = None"
proof -
  note c = cur_okD [OF w h]
  have "sched_wf (upd_thread s (sc_current s h) (\<lambda>t. t\<lparr>t_ipc_msg := None\<rparr>))"
    by (rule cur_upd_wf [OF w h]) (use c thread_okD [OF sched_wfD(4) [OF w] c(1)] in simp_all)
  then show ?thesis using that c by (simp add: take_ipc_msg_def thr_upd_thread)
qed

lemma block_resume_ok:
  assumes w: "sched_wf s" and h: "h < 4"
  obtains s' where "block_resume s h = Some s'" "sched_wf s'" "\<not> t_woken (thr s' (sc_current s h))"
proof -
  note c = cur_okD [OF w h]
  have "sched_wf (upd_thread s (sc_current s h) (\<lambda>t. t\<lparr>t_woken := False\<rparr>))"
    by (rule cur_upd_wf [OF w h]) (use c thread_okD [OF sched_wfD(4) [OF w] c(1)] in simp_all)
  moreover have "remove_from_ready s (sc_current s h) = Some s"
    by (rule remove_from_ready_none [OF sched_wfD(1) [OF w]]) (use c in simp_all)
  ultimately show ?thesis using that c by (simp add: block_resume_def Let_def thr_upd_thread)
qed

lemma secondary_idle_ok:
  assumes w: "sched_wf s" and h: "h < 4" and c: "sc_current s h = sc_idle s h" and regs: "length (c_s regs) = 12"
  obtains r s' where "secondary_idle_round s h regs = Some (r, s')" "sched_wf s'"
    "r = None \<longleftrightarrow> sc_current s' h = sc_idle s h" "next_coop s h (sc_current s' h)"
proof -
  let ?s = "set_ticks s h 0"
  have p: "pre_wf ?s h" using h c cur_okD [OF w h] sched_wfD [OF w] unfolding pre_wf_ticks by (simp add: pre_wf_def)
  obtain i s1 where i: "pick_next ?s h True = Some (i, s1)" "next_coop ?s h i" "sched_wf (set_current s1 h i)"
    "i < nthreads ?s" "sc_current s1 = sc_current ?s" "nthreads s1 = nthreads ?s"
    by (rule pick_coop [OF p]) (rule that; assumption)
  have nc: "next_coop s h i" using i(2) by (simp add: next_coop_def)
  show ?thesis
  proof (cases "i = sc_idle s h")
    case True
    then have e: "set_current s1 h i = s1" using i(5) c by (intro set_current_same) simp
    then show ?thesis using that [of None s1] i nc True c by (simp add: secondary_idle_round_def Let_def)
  next
    case False
    let ?t = "\<lparr>st_old = sc_idle s h, st_next = i, st_use_frame = (\<not> t_ctx_valid (thr s1 i)), st_next_root = t_root (thr s1 i)\<rparr>"
    let ?v = "set_satp (set_current s1 h i) h (st_next_root ?t)"
    have v: "sched_wf ?v" using i(3) by simp
    have id: "sc_idle s h < nthreads ?v" using idle_okD(1) [OF w h] i(6) by simp
    have "sched_wf (do_switch (set_current s1 h i) h regs ?t)"
      unfolding do_switch_def
      by (rule sched_wf_upd [OF v]) (use id thread_okD [OF sched_wfD(4) [OF v] id] sched_wfD(4) [OF v] regs in \<open>auto simp: thread_ok_def t_ok_def\<close>)
    moreover have "secondary_idle_round s h regs = Some (Some ?t, do_switch (set_current s1 h i) h regs ?t)"
      using i id False c by (simp add: secondary_idle_round_def Let_def switch_target_of_def)
    moreover have "sc_current (do_switch (set_current s1 h i) h regs ?t) h = i" by (simp add: do_switch_def)
    ultimately show ?thesis using that nc False by simp
  qed
qed

section \<open>Threads of a process\<close>

lemma spawn_owned_ok:
  assumes w: "sched_wf s" and h: "h < 4" and room: "sc_free s \<noteq> [] \<or> nthreads s < 64"
  obtains i s' where "spawn_owned im s h stack entry prio pid = Some (i, s')" "sched_wf s'"
    "thr s' i = (kernel_thread im h stack entry prio)\<lparr>t_proc := Some pid\<rparr>" "i < nthreads s'"
proof -
  let ?t = "kernel_thread im h stack entry prio"
  have k: "t_state ?t = Ready" "t_proc ?t = None" "t_prio ?t < 3" by (simp_all add: kernel_thread_def Let_def)
  obtain i s1 where i: "insert_thread s ?t = Some (i, s1)" "sched_wf s1" "i < nthreads s1" "thr s1 i = ?t"
    "i < nthreads s \<Longrightarrow> t_state (thr s i) = Exited" "sc_idle s1 = sc_idle s"
    by (rule insert_thread_ok [OF w room kernel_thread_ok [OF h] k(1)]) (rule that; assumption)
  define u where "u = upd_thread s1 i (\<lambda>t. t\<lparr>t_proc := Some pid\<rparr>)"
  have th: "thr u j = (if j = i then ?t\<lparr>t_proc := Some pid\<rparr> else thr s1 j)" if "j < nthreads s1" for j
    using that i(4) by (simp add: u_def thr_upd_thread)
  have st: "t_state (thr u j) = t_state (thr s1 j)" "t_hart (thr u j) = t_hart (thr s1 j)" if "j < nthreads s1" for j
    using th [OF that] i(4) by simp_all
  have eff: "eff_prio u j = eff_prio s1 j" if "j < nthreads s1" "j \<noteq> i" for j
    by (rule eff_prio_cong) (use th that in \<open>simp_all add: u_def\<close>)
  have q: "q_ok u (eff_prio s1) {}"
    using sched_wfD(1) [OF i(2)] q_ok_cong [of u s1 "{}" "eff_prio s1" "eff_prio s1"] st by (simp add: u_def)
  have t: "t_ok u" unfolding u_def by (rule t_ok_upd [OF sched_wfD(4) [OF i(2)]])
    (use sched_wfD(4) [OF i(2)] i(3) in \<open>auto simp: t_ok_def thread_ok_def\<close>)
  have ni: "\<forall>g<4. i \<noteq> sc_idle s1 g"
    using sched_wfD(5) [OF w] i(5,6) by (auto simp: idle_ok_def)
  have rest: "rest_ok u" unfolding rest_ok_def
  proof (intro conjI allI impI)
    show "idle_ok u" unfolding u_def by (rule idle_ok_upd [OF sched_wfD(5) [OF i(2)]]) (use ni in blast)
    show "run_ok u" unfolding u_def by (rule run_ok_upd [OF sched_wfD(6) [OF i(2)]]) simp
    show "free_ok u" unfolding u_def by (rule free_ok_upd [OF sched_wfD(7) [OF i(2)]]) simp
    show "cur_ok u g" if "g < MAX_HARTS" for g
      using that sched_wfD(8) [OF i(2), of g] st by (simp add: cur_ok_def u_def)
  qed (rule t)
  have sp: "spawn_owned im s h stack entry prio pid =
      do { s' \<leftarrow> (if \<exists>d\<in>set (sc_donations u). d_peer d = pid then requeue_proc_threads u pid else Some u); Some (i, s') }"
    using i(1) by (simp add: spawn_owned_def spawn_def u_def Let_def)
  show ?thesis
  proof (cases "\<exists>d\<in>set (sc_donations u). d_peer d = pid")
    case True
    obtain s' where s': "requeue_proc_threads u pid = Some s'" "same_but_queues u s'"
      "q_ok s' (\<lambda>i. if t_proc (thr u i) = Some pid then eff_prio u i else eff_prio s1 i) {}"
      using requeue_ok [OF q t] thread_okD(5) [OF sched_wfD(4) [OF i(2)]] by (auto simp: u_def)
    note d = same_but_queuesD [OF s'(2)]
    have "q_ok s' (eff_prio s') {} = q_ok s' (\<lambda>i. if t_proc (thr u i) = Some pid then eff_prio u i else eff_prio s1 i) {}"
    proof (rule q_ok_cong)
      fix j assume "j < nthreads s'" "j \<notin> {}"
      then have "j < nthreads s1" using d(1) by (simp add: u_def)
      then show "t_state (thr s' j) = t_state (thr s' j) \<and> t_hart (thr s' j) = t_hart (thr s' j) \<and>
         (t_state (thr s' j) = Ready \<longrightarrow> eff_prio s' j = (if t_proc (thr u j) = Some pid then eff_prio u j else eff_prio s1 j))"
        using d(11) eff [of j] th [of j] by (cases "j = i") auto
    qed simp_all
    then have "q_ok s' (eff_prio s') {}" using s'(3) by simp
    moreover have "rest_ok s'" using rest rest_ok_cong [of s' u] d(1,3,4,5) by simp
    ultimately have "sched_wf s'" using sched_wfD(2) [OF i(2)] d(1,2) by (simp add: sched_wf_def u_def)
    then show ?thesis using that sp s'(1) True d(1) i(3) th by (simp add: u_def)
  next
    case False
    have none: "{d \<in> set (sc_donations u). d_peer d = pid} = {}" using False by blast
    have "eff_prio u i = t_prio ?t" using th [OF i(3)] by (simp add: eff_prio_Min none)
    moreover have "eff_prio s1 i = t_prio ?t" using i(4) k(2) by (simp add: eff_prio_def)
    ultimately have "eff_prio u j = eff_prio s1 j" if "j < nthreads s1" for j using eff that by (cases "j = i") auto
    then have "q_ok u (eff_prio u) {} = q_ok u (eff_prio s1) {}" by (intro q_ok_cong) (simp_all add: u_def)
    then have "sched_wf u" using q rest sched_wfD(2) [OF i(2)] by (simp add: sched_wf_def u_def)
    then show ?thesis using that sp False i(3) th by (simp add: u_def)
  qed
qed

section \<open>Forced termination\<close>

lemma none_preemptable:
  assumes "\<forall>l<3. none_eligible v False (sc_ready v h l)" "sc_ready v h = sc_ready s h" "\<forall>l<3. \<forall>i\<in>set (sc_ready s h l). i < nthreads s"
    "\<And>i. i < nthreads s \<Longrightarrow> i \<noteq> sc_current s h \<Longrightarrow> thr v i = thr s i"
  shows "\<not> other_preemptable s h PRIO_LEVELS"
proof
  assume "other_preemptable s h PRIO_LEVELS"
  then obtain l i where i: "l < 3" "i \<in> set (sc_ready s h l)" "i \<noteq> sc_current s h" "eligible False (thr s i)"
    by (auto simp: other_preemptable_def preemptable_def simp del: upt_rec_numeral)
  then have "thr v i = thr s i" using assms(3,4) by blast
  then show False using i assms(1,2) by (metis none_eligible_def)
qed

lemma force_kill_ok:
  assumes w: "sched_wf s" and h: "h < 4" and k: "sc_kill_req s (sc_current s h)"
    and n: "sc_current s h \<noteq> sc_idle s h"
    and idle: "t_state (thr s (sc_idle s h)) = Running \<or> other_preemptable s h PRIO_LEVELS"
  obtains i s' where "force_kill_current im s h = Some (Some i, s')" "sched_wf s'" "sc_current s' h = i"
    "t_state (thr s' (sc_current s h)) = Exited" "\<not> sc_kill_req s' (sc_current s h)" "sc_satp s' h = satp_of (t_root (thr s i))"
proof -
  let ?c = "sc_current s h" and ?r = "reap_stack s (sc_current s h)"
  let ?f = "\<lambda>t. t\<lparr>t_state := Exited, t_frame_valid := False, t_ctx_valid := False, t_woken := False\<rparr>"
  note c = cur_okD [OF w h]
  have r: "sched_wf ?r" by (rule reap_wf [OF w c(1)])
  have "pre_wf (push_free (upd_thread ?r (sc_current ?r h) ?f) (sc_current ?r h)) h"
    by (rule exited_pre_wf [OF r h]) (use n thread_okD [OF sched_wfD(4) [OF w] c(1)] c(1) in \<open>simp_all add: thread_ok_def thr_reap\<close>)
  then have p0: "pre_wf (push_free (upd_thread ?r ?c ?f) ?c) h" by simp
  define v where "v = set_ticks (set_kill_req (push_free (upd_thread ?r ?c ?f) ?c) ?c False) h 0"
  have p: "pre_wf v h" using p0 by (simp add: v_def)
  have tv: "thr v j = (if j = ?c then ?f ((thr s j)\<lparr>t_stack := None\<rparr>) else thr s j)" if "j < nthreads s" for j
    using that by (simp add: v_def thr_upd_thread thr_reap)
  have nv: "nthreads v = nthreads s" "sc_current v = sc_current s" "sc_idle v = sc_idle s" "\<not> sc_kill_req v ?c"
    by (simp_all add: v_def, simp add: set_ticks_def set_kill_req_def)
  obtain i q where i: "pick_next v h False = Some (i, q)" "sched_wf (set_current q h i)" "i < nthreads s" "nthreads q = nthreads s"
    "t_state (thr q i) = Running" "i \<noteq> ?c" "thr q ?c = thr v ?c" "sc_kill_req q = sc_kill_req v" "t_root (thr q i) = t_root (thr s i)"
  proof (cases rule: pick_next_cases [OF q_ok_live [OF pre_wfD(2) [OF p]], of h False])
    case (1 l xs i ys)
    note m = q_okD [OF pre_wfD(2) [OF p], of i h l]
    have i: "i < nthreads v" "t_state (thr v i) = Ready" using m 1(2) by simp_all
    then have "i \<noteq> ?c" using tv c(1) by auto
    then show ?thesis using that [OF 1(6) picked_wf [OF p 1(2)]] i c(1) nv tv [of i]
      by (simp add: thr_picked) (simp add: picked_def upd_thread_def set_ready_def)
  next
    case 2
    have idle: "t_state (thr s (sc_idle s h)) = Running"
      using idle none_preemptable [OF 2, of s] tv q_okD(1) [OF sched_wfD(1) [OF w]] by (auto simp: v_def)
    have "pick_next v h False = Some (sc_idle s h, v)"
      using pick_next_none [OF q_ok_live [OF pre_wfD(2) [OF p]] 2 pre_wfD(9) [OF p]] tv [OF c(1)] nv by simp
    moreover have "sched_wf (set_current v h (sc_idle s h))"
      using idle_wf [OF p] tv [of "sc_idle s h"] nv idle idle_okD(1) [OF w h] n by simp
    ultimately show ?thesis using that [of "sc_idle s h" v] tv [of "sc_idle s h"] nv idle idle_okD(1) [OF w h] n by simp
  qed
  obtain s' where s': "enter_frame im q h i = Some s'" "sched_wf s'" "sc_current s' = (sc_current q)(h := i)" "sc_satp s' h = satp_of (t_root (thr q i))"
    by (rule enter_frame_ok [OF i(2)]) (use i h in simp_all)
  have c64: "?c < 64" by (rule thread_okD(6) [OF sched_wfD(4) [OF w] c(1)])
  have "force_kill_current im s h = Some (Some i, s')"
    using k c c64 i(1) s'(1) by (simp add: force_kill_current_def Let_def v_def)
  moreover have "thr s' ?c = thr q ?c" "sc_kill_req s' = sc_kill_req q"
    using s'(1) i(3,4,6) c(1) by (auto simp: enter_frame_def expand_ctx_to_frame_def Let_def thr_upd_thread set_satp_def set_current_def)
  ultimately show ?thesis using that s' i tv [OF c(1)] nv by simp
qed

text \<open>
  If no thread of the hart can be resumed from a frame and the idle thread has yielded, the idle thread
  becomes the current one although it stays queued.
\<close>

lemma force_kill_idle:
  assumes w: "sched_wf s" and h: "h < 4" and k: "sc_kill_req s (sc_current s h)"
    and idle: "t_state (thr s (sc_idle s h)) = Ready" "\<not> other_preemptable s h PRIO_LEVELS"
    and e: "force_kill_current im s h = Some (r, s')"
  shows "sc_current s' h = sc_idle s h" "t_state (thr s' (sc_idle s h)) = Ready"
proof -
  let ?c = "sc_current s h"
  let ?f = "\<lambda>t. t\<lparr>t_state := Exited, t_frame_valid := False, t_ctx_valid := False, t_woken := False\<rparr>"
  note c = cur_okD [OF w h]
  have n: "?c \<noteq> sc_idle s h" using c(2) idle(1) by auto
  define v where "v = set_ticks (set_kill_req (push_free (upd_thread (reap_stack s ?c) ?c ?f) ?c) ?c False) h 0"
  have tv: "thr v j = (if j = ?c then ?f ((thr s j)\<lparr>t_stack := None\<rparr>) else thr s j)" if "j < nthreads s" for j
    using that by (simp add: v_def thr_upd_thread thr_reap)
  have nv: "nthreads v = nthreads s" "sc_current v = sc_current s" "sc_idle v = sc_idle s" "sc_ready v = sc_ready s"
    by (simp_all add: v_def)
  have m: "i < nthreads s" "t_state (thr s i) = Ready" "i \<noteq> ?c" if "i \<in> set (sc_ready s g p)" for i g p
    using q_okD(1,2) [OF sched_wfD(1) [OF w] that] c(2) by auto
  have live: "queue_live v h" using m tv unfolding queue_live_def nv by auto
  have none: "\<forall>l<3. none_eligible v False (sc_ready v h l)"
    using idle(2) m tv by (auto simp: none_eligible_def nv other_preemptable_def preemptable_def simp del: upt_rec_numeral)
  have pk: "pick_next v h False = Some (sc_idle s h, v)"
    using pick_next_none [OF live none] tv [OF c(1)] nv c(1) by simp
  have "force_kill_current im s h = do { s' \<leftarrow> enter_frame im v h (sc_idle s h); Some (Some (sc_idle s h), s') }"
    using k c thread_okD(6) [OF sched_wfD(4) [OF w] c(1)] pk by (simp add: force_kill_current_def Let_def v_def)
  then have "enter_frame im v h (sc_idle s h) = Some s'" using e by (cases "enter_frame im v h (sc_idle s h)") simp_all
  moreover have "sc_idle s h < nthreads s" by (rule idle_okD(1) [OF w h])
  ultimately show "sc_current s' h = sc_idle s h" "t_state (thr s' (sc_idle s h)) = Ready"
    using tv [of "sc_idle s h"] nv(1) n idle(1)
    by (auto simp: enter_frame_def expand_ctx_to_frame_def Let_def thr_upd_thread)
qed

section \<open>Killing the threads of a process\<close>

definition killed :: "thread \<Rightarrow> thread" where
  "killed t = t\<lparr>t_stack := None, t_state := Exited, t_frame_valid := False, t_ctx_valid := False\<rparr>"

lemma kill_victims_eq:
  assumes "distinct is" "\<forall>i\<in>set is. i < nthreads s"
  shows "fst (kill_victims s is) = map (\<lambda>i. (i, t_hart (thr s i))) (filter (\<lambda>i. t_state (thr s i) = Running) is) \<and>
    (let s' = snd (kill_victims s is) in
      nthreads s' = nthreads s \<and> sc_ready s' = sc_ready s \<and> sc_donations s' = sc_donations s \<and> sc_current s' = sc_current s \<and>
      sc_idle s' = sc_idle s \<and> sc_free s' = sc_free s @ filter (\<lambda>i. t_state (thr s i) \<noteq> Running) is \<and>
      sc_kill_req s' = (\<lambda>i. sc_kill_req s i \<or> i \<in> set is \<and> t_state (thr s i) = Running) \<and>
      (\<forall>j<nthreads s. thr s' j = (if j \<in> set is \<and> t_state (thr s j) \<noteq> Running then killed (thr s j) else thr s j)))"
  using assms
proof (induction "is" arbitrary: s)
  case (Cons i "is")
  show ?case
  proof (cases "t_state (thr s i) = Running")
    case True
    let ?s = "set_kill_req s i True"
    have "distinct is" "\<forall>i\<in>set is. i < nthreads ?s" using Cons.prems by simp_all
    note IH = Cons.IH [OF this]
    have kr: "sc_kill_req ?s = (sc_kill_req s)(i := True)" by (simp add: set_kill_req_def)
    have e: "kill_victims s (i # is) = ((i, t_hart (thr s i)) # fst (kill_victims ?s is), snd (kill_victims ?s is))"
      using True by (simp add: Let_def split: prod.split)
    show ?thesis unfolding e using IH True unfolding kr by (auto simp: Let_def)
  next
    case False
    let ?f = "\<lambda>t. t\<lparr>t_state := Exited, t_frame_valid := False, t_ctx_valid := False\<rparr>"
    define k where "k = push_free (upd_thread (reap_stack s i) i ?f) i"
    have i: "i < nthreads s" "i \<notin> set is" "distinct is" "\<forall>i\<in>set is. i < nthreads k" using Cons.prems by (simp_all add: k_def)
    note IH = Cons.IH [OF i(3,4)]
    have th: "thr k j = (if j = i then killed (thr s j) else thr s j)" if "j < nthreads s" for j
      using that by (simp add: k_def thr_upd_thread thr_reap killed_def)
    have o: "nthreads k = nthreads s" "sc_ready k = sc_ready s" "sc_donations k = sc_donations s" "sc_current k = sc_current s"
      "sc_idle k = sc_idle s" "sc_free k = sc_free s @ [i]" "sc_kill_req k = sc_kill_req s"
      by (simp_all add: k_def push_free_def reap_stack_def split: option.split)
    have run: "t_state (thr k j) = t_state (thr s j)" "thr k j = thr s j" if "j \<in> set is" for j
      using that i(2) Cons.prems th [of j] by auto
    have fl: "filter (\<lambda>i. t_state (thr k i) = Running) is = filter (\<lambda>i. t_state (thr s i) = Running) is"
      "filter (\<lambda>i. t_state (thr k i) \<noteq> Running) is = filter (\<lambda>i. t_state (thr s i) \<noteq> Running) is"
      by (rule filter_cong; simp add: run)+
    have mp: "map (\<lambda>i. (i, t_hart (thr k i))) (filter (\<lambda>i. t_state (thr s i) = Running) is) =
        map (\<lambda>i. (i, t_hart (thr s i))) (filter (\<lambda>i. t_state (thr s i) = Running) is)"
      by (rule map_cong) (simp_all add: run)
    have kr: "(\<lambda>j. sc_kill_req s j \<or> j \<in> set is \<and> t_state (thr k j) = Running) = (\<lambda>j. sc_kill_req s j \<or> j \<in> set (i # is) \<and> t_state (thr s j) = Running)"
      using run False by auto
    have tt: "(if j \<in> set is \<and> t_state (thr k j) \<noteq> Running then killed (thr k j) else thr k j) =
        (if j \<in> set (i # is) \<and> t_state (thr s j) \<noteq> Running then killed (thr s j) else thr s j)" if "j < nthreads s" for j
      using th [OF that] run [of j] False i(2) by auto
    have e: "kill_victims s (i # is) = kill_victims k is" using False by (simp add: k_def)
    show ?thesis unfolding e using IH tt unfolding o fl mp kr using False by (simp add: Let_def)
  qed
qed simp

end
