(* ===== verification/Sched_Spec.thy ===== *)
theory Sched_Spec
  imports Main
begin

text \<open>
  The two contracts of the scheduler: its ready queues, and waking for the IPC.
\<close>

section \<open>Ready queues\<close>

text \<open>
  The contract of the ready queues of one hart, as a client of the scheduler sees them: a few levels of
  waiting threads, and an operation that takes the next one. The law says which one that is; the order
  in which a whole backlog is served follows from it.
\<close>

text \<open>Take the next element up to \<open>n\<close> times.\<close>

fun serve :: "('s \<Rightarrow> ('a \<times> 's) option) \<Rightarrow> nat \<Rightarrow> 's \<Rightarrow> ('a list \<times> 's) option" where
  "serve pick 0 s = Some ([], s)"
| "serve pick (Suc n) s =
     (case pick s of
        None \<Rightarrow> None
      | Some (x, s1) \<Rightarrow> (case serve pick n s1 of None \<Rightarrow> None | Some (xs, s2) \<Rightarrow> Some (x # xs, s2)))"

definition backlog :: "nat \<Rightarrow> (nat \<Rightarrow> 'a list) \<Rightarrow> 'a list" where
  "backlog n q = concat (map q [0..<n])"

lemma backlog_Cons:
  assumes "p < n" "q p = x # xs" "\<forall>l<p. q l = []"
  shows "backlog n q = x # backlog n (q(p := xs))"
proof -
  have split: "[0..<n] = [0..<p] @ p # [Suc p..<n]" 
    using assms(1) upt_add_eq_append [of 0 p "n - p"] by (simp add: upt_conv_Cons)
  have lo: "concat (map q [0..<p]) = []" "concat (map (q(p := xs)) [0..<p]) = []" using assms(3) by auto
  have hi: "map (q(p := xs)) [Suc p..<n] = map q [Suc p..<n]" by (rule map_cong) auto
  have "backlog n q = concat (map q [0..<p]) @ q p @ concat (map q [Suc p..<n])" by (simp add: backlog_def split)
  moreover have "backlog n (q(p := xs)) = concat (map (q(p := xs)) [0..<p]) @ xs @ concat (map (q(p := xs)) [Suc p..<n])"
    by (simp add: backlog_def split)
  ultimately show ?thesis using assms(2) lo hi by simp
qed

lemma backlog_empty: "backlog n q = [] \<longleftrightarrow> (\<forall>p<n. q p = [])"
  by (auto simp: backlog_def)

text \<open>The first element with a property is on the best level that has one.\<close>

lemma backlog_first:
  assumes "p < n" "q p = xs @ x # ys" "\<forall>y\<in>set xs. \<not> P y" "\<forall>l<p. \<forall>y\<in>set (q l). \<not> P y" "P x"
  shows "hd (filter P (backlog n q)) = x"
proof -
  have split: "[0..<n] = [0..<p] @ p # [Suc p..<n]"
    using assms(1) upt_add_eq_append [of 0 p "n - p"] by (simp add: upt_conv_Cons)
  have "filter P (concat (map q [0..<p])) = []" using assms(4) by (auto simp: filter_empty_conv)
  moreover have "filter P xs = []" using assms(3) by (simp add: filter_empty_conv)
  moreover have "backlog n q = concat (map q [0..<p]) @ (xs @ x # ys) @ concat (map q [Suc p..<n])"
    by (simp add: backlog_def split assms(2))
  ultimately show ?thesis using assms(5) by simp
qed

locale level_queue =
  fixes levels :: nat
    and inv :: "'s \<Rightarrow> bool"
    and queue :: "'s \<Rightarrow> nat \<Rightarrow> 'a list"
    and pick :: "'s \<Rightarrow> ('a \<times> 's) option"
  assumes pick_head: "inv s \<Longrightarrow> p < levels \<Longrightarrow> queue s p = x # xs \<Longrightarrow> \<forall>l<p. queue s l = [] \<Longrightarrow>
      \<exists>s'. pick s = Some (x, s') \<and> inv s' \<and> queue s' = (queue s)(p := xs)"
begin

lemma pick_backlog:
  assumes "inv s" "backlog levels (queue s) = x # rest"
  shows "\<exists>s'. pick s = Some (x, s') \<and> inv s' \<and> backlog levels (queue s') = rest"
proof -
  have ne: "\<exists>p. p < levels \<and> queue s p \<noteq> []" using assms(2) backlog_empty [of levels "queue s"] by auto
  define p where "p = (LEAST p. p < levels \<and> queue s p \<noteq> [])"
  have p: "p < levels" "queue s p \<noteq> []" using LeastI_ex [OF ne] by (simp_all add: p_def)
  have low: "queue s l = []" if "l < p" for l
    using not_less_Least [of l "\<lambda>p. p < levels \<and> queue s p \<noteq> []"] that p(1) by (simp add: p_def)
  obtain y ys where y: "queue s p = y # ys" using p(2) by (cases "queue s p") simp_all
  have low: "\<forall>l<p. queue s l = []" using low by blast
  have b: "backlog levels (queue s) = y # backlog levels ((queue s)(p := ys))" by (rule backlog_Cons [OF p(1) y low])
  obtain s' where "pick s = Some (y, s')" "inv s'" "queue s' = (queue s)(p := ys)"
    using pick_head [OF assms(1) p(1) y low] by blast
  then show ?thesis using b assms(2) by simp
qed

text \<open>A backlog is served completely, level by level, and first come first served within a level.\<close>

lemma serve_backlog:
  assumes "inv s" "n \<le> length (backlog levels (queue s))"
  shows "\<exists>s'. serve pick n s = Some (take n (backlog levels (queue s)), s') \<and> inv s' \<and>
    backlog levels (queue s') = drop n (backlog levels (queue s))"
  using assms
proof (induction n arbitrary: s)
  case (Suc n)
  then obtain x rest where b: "backlog levels (queue s) = x # rest" by (cases "backlog levels (queue s)") auto
  obtain s1 where s1: "pick s = Some (x, s1)" "inv s1" "backlog levels (queue s1) = rest"
    using pick_backlog [OF Suc.prems(1) b] by blast
  then show ?case using Suc.IH [OF s1(2)] Suc.prems(2) b by auto
qed simp

end

section \<open>Waking\<close>

text \<open>
  What the IPC relies on when it wakes threads: waking a thread that exists returns, keeps the
  scheduler's invariant, and every thread that existed still does. Waking a whole list follows.
\<close>

fun wake_list :: "('s \<Rightarrow> 't \<Rightarrow> 's option) \<Rightarrow> 's \<Rightarrow> 't list \<Rightarrow> 's option" where
  "wake_list f s [] = Some s"
| "wake_list f s (t # ts) = (case f s t of None \<Rightarrow> None | Some s1 \<Rightarrow> wake_list f s1 ts)"

locale waker =
  fixes inv :: "'s \<Rightarrow> bool"
    and exists_in :: "'s \<Rightarrow> 't \<Rightarrow> bool"
    and waiting :: "'s \<Rightarrow> 't \<Rightarrow> bool"
    and wake_one :: "'s \<Rightarrow> 't \<Rightarrow> 's option"
  assumes wake_law: "inv s \<Longrightarrow> exists_in s t \<Longrightarrow> \<exists>s'. wake_one s t = Some s' \<and> inv s' \<and> \<not> waiting s' t \<and>
      (\<forall>u. exists_in s u \<longrightarrow> exists_in s' u) \<and> (\<forall>u. exists_in s u \<longrightarrow> u \<noteq> t \<longrightarrow> waiting s' u = waiting s u)"
begin

lemma wake_list_ok:
  assumes "inv s" "\<forall>t\<in>set ts. exists_in s t"
  shows "\<exists>s'. wake_list wake_one s ts = Some s' \<and> inv s' \<and> (\<forall>u. exists_in s u \<longrightarrow> exists_in s' u) \<and>
    (\<forall>u. exists_in s u \<longrightarrow> waiting s' u = (waiting s u \<and> u \<notin> set ts))"
  using assms
proof (induction ts arbitrary: s)
  case (Cons t ts)
  then obtain s1 where s1: "wake_one s t = Some s1" "inv s1" "\<not> waiting s1 t" "\<forall>u. exists_in s u \<longrightarrow> exists_in s1 u"
    "\<forall>u. exists_in s u \<longrightarrow> u \<noteq> t \<longrightarrow> waiting s1 u = waiting s u"
    using wake_law [of s t] by auto
  obtain s' where s': "wake_list wake_one s1 ts = Some s'" "inv s'" "\<forall>u. exists_in s1 u \<longrightarrow> exists_in s' u"
    "\<forall>u. exists_in s1 u \<longrightarrow> waiting s' u = (waiting s1 u \<and> u \<notin> set ts)"
    using Cons.IH [OF s1(2)] Cons.prems s1(4) by auto
  have "waiting s' u = (waiting s u \<and> u \<notin> set (t # ts))" if "exists_in s u" for u
    using s'(4) s1(3-5) that by (cases "u = t") auto
  then show ?case using s1(1,4) s'(1-3) by auto
qed simp

end

end
