(* ===== verification/Sched_Reach.thy ===== *)
theory Sched_Reach
  imports Sched_Kill Sched_Spec
begin

text \<open>
  The scheduler's part of killing a process, the state after \<^verbatim>\<open>init\<close>, and the contract of the ready queues.
\<close>

section \<open>Killing the threads of a process\<close>

lemma requeue_donors_eq:
  assumes "q_ok s lev {}" "t_ok s" "\<forall>i<nthreads s. lev i < 3" "\<forall>i\<in>set is. i < nthreads s"
  shows "requeue_donors s p is = requeue_procs s (filter (\<lambda>q. q \<noteq> p) (List.map_filter (\<lambda>i. t_proc (thr s i)) is))"
  using assms
proof (induction "is" arbitrary: s lev)
  case (Cons i "is")
  have i: "i < nthreads s" using Cons.prems by simp
  show ?case
  proof (cases "t_proc (thr s i)")
    case None
    then show ?thesis using Cons i by (simp add: map_filter_simps)
  next
    case (Some q)
    show ?thesis
    proof (cases "q = p")
      case True
      then show ?thesis using Some Cons i by (simp add: map_filter_simps)
    next
      case False
      obtain s1 where s1: "requeue_proc_threads s q = Some s1" "same_but_queues s s1"
        "q_ok s1 (\<lambda>i. if t_proc (thr s i) = Some q then eff_prio s i else lev i) {}"
        using requeue_ok [OF Cons.prems(1-3)] by blast
      note d = same_but_queuesD [OF s1(2)]
      have "requeue_donors s1 p is = requeue_procs s1 (filter (\<lambda>q. q \<noteq> p) (List.map_filter (\<lambda>i. t_proc (thr s1 i)) is))"
        by (rule Cons.IH [OF s1(3)]) (use Cons.prems(2-4) d(1) thread_okD(5) [OF Cons.prems(2)] in \<open>auto simp: t_ok_def\<close>)
      then show ?thesis using Some False i s1(1) d(1) by (simp add: map_filter_simps)
    qed
  qed
qed (simp add: map_filter_simps)

lemma revoke_for_proc_ok:
  assumes w: "sched_wf s" and none: "\<And>i. i < nthreads s \<Longrightarrow> t_state (thr s i) = Ready \<Longrightarrow> t_proc (thr s i) \<noteq> Some p"
  shows "\<exists>s'. revoke_donations_for_proc s p = Some s' \<and>
    same_but_queues (s\<lparr>sc_donations := filter (\<lambda>d. d_peer d \<noteq> p) (sc_donations s)\<rparr>) s' \<and> sched_wf s'"
proof -
  let ?u = "s\<lparr>sc_donations := filter (\<lambda>d. d_peer d \<noteq> p) (sc_donations s)\<rparr>"
  let ?is = "uniq [] (map d_donor (filter (\<lambda>d. d_peer d = p) (sc_donations s)))"
  let ?ps = "filter (\<lambda>q. q \<noteq> p) (List.map_filter (\<lambda>i. t_proc (thr ?u i)) ?is)"
  have n: "length (filter (\<lambda>d. d_peer d = p) (sc_donations s)) \<le> 64"
    by (rule le_trans [OF length_filter_le don_okD(1) [OF sched_wfD(2) [OF w]]])
  have u: "set ?is = d_donor ` {d \<in> set (sc_donations s). d_peer d = p}"
    using uniq_set [of "[]" "map d_donor (filter (\<lambda>d. d_peer d = p) (sc_donations s))"] n by auto
  have q: "q_ok ?u (eff_prio s) {}" using sched_wfD(1) [OF w] q_ok_cong [of ?u s "{}" "eff_prio s" "eff_prio s"] by simp
  have t: "t_ok ?u" using sched_wfD(4) [OF w] by (simp add: t_ok_def)
  have "requeue_donors ?u p ?is = requeue_procs ?u ?ps"
    by (rule requeue_donors_eq [OF q t])
      (use thread_okD(5) [OF sched_wfD(4) [OF w]] don_okD(2) [OF sched_wfD(2) [OF w]] u in auto)
  then have e: "revoke_donations_for_proc s p = requeue_procs ?u ?ps" by (simp add: revoke_donations_for_proc_def)
  have "eff_prio ?u i = eff_prio s i" if "i < nthreads s" "t_state (thr s i) = Ready" for i
  proof (rule eff_prio_donations)
    fix r assume "t_proc (thr s i) = Some r"
    then have "r \<noteq> p" using none [OF that] by auto
    then have "{d \<in> set (filter (\<lambda>d. d_peer d \<noteq> p) (sc_donations s)). d_peer d = r} = {d \<in> set (sc_donations s). d_peer d = r}" by auto
    then show "d_prio ` {d \<in> set (filter (\<lambda>d. d_peer d \<noteq> p) (sc_donations s)). d_peer d = r} = d_prio ` {d \<in> set (sc_donations s). d_peer d = r}"
      by simp
  qed
  then show ?thesis unfolding e by (intro donations_repair [OF w don_ok_filter [OF sched_wfD(2) [OF w]]]) blast
qed

definition victims :: "sched \<Rightarrow> nat \<Rightarrow> nat \<Rightarrow> nat list" where
  "victims s h pid = filter (\<lambda>i. in_proc s pid i \<and> i \<noteq> sc_current s h) [0..<nthreads s]"

lemma victims_short: "sched_wf s \<Longrightarrow> h < 4 \<Longrightarrow> length (victims s h pid) < 64"
proof -
  assume w: "sched_wf s" and h: "h < 4"
  have "length (victims s h pid) < length [0..<nthreads s]" unfolding victims_def
    by (rule length_filter_less [of "sc_current s h"]) (use cur_okD(1) [OF w h] in simp_all)
  then show ?thesis using sched_wfD(4) [OF w] by (simp add: t_ok_def)
qed

text \<open>
  The threads of the process become Exited. Up to the queue of free slots the state is well-formed; that
  queue gets every stopped thread, also one that had exited before and is in it already.
\<close>

definition fresh_victims :: "sched \<Rightarrow> nat \<Rightarrow> nat \<Rightarrow> nat list" where
  "fresh_victims s h pid = filter (\<lambda>i. t_state (thr s i) \<noteq> Running \<and> t_state (thr s i) \<noteq> Exited) (victims s h pid)"

lemma victims_wf:
  assumes w: "sched_wf s" and h: "h < 4"
    and s1: "s1 = s\<lparr>sc_ready := (\<lambda>h p. filter (\<lambda>i. i \<notin> set (victims s h' pid)) (sc_ready s h p))\<rparr>" and hh: "h' = h"
  shows "sched_wf ((snd (kill_victims s1 (victims s h pid)))\<lparr>sc_free := sc_free s @ fresh_victims s h pid\<rparr>)"
proof -
  define vs where "vs = victims s h pid"
  define s2 where "s2 = (snd (kill_victims s1 vs))\<lparr>sc_free := sc_free s @ fresh_victims s h pid\<rparr>"
  have vs: "distinct vs" "\<And>i. i \<in> set vs \<longleftrightarrow> i < nthreads s \<and> t_proc (thr s i) = Some pid \<and> i \<noteq> sc_current s h"
    by (auto simp: vs_def victims_def in_proc_def)
  have s1s: "sc_threads s1 = sc_threads s" "sc_donations s1 = sc_donations s" "sc_current s1 = sc_current s" "sc_idle s1 = sc_idle s" "sc_free s1 = sc_free s"
    by (simp_all add: s1)
  have k: "nthreads s2 = nthreads s" "sc_ready s2 = sc_ready s1" "sc_donations s2 = sc_donations s" "sc_current s2 = sc_current s" "sc_idle s2 = sc_idle s"
    "sc_free s2 = sc_free s @ fresh_victims s h pid"
    "\<And>j. j < nthreads s \<Longrightarrow> thr s2 j = (if j \<in> set vs \<and> t_state (thr s j) \<noteq> Running then killed (thr s j) else thr s j)"
    using kill_victims_eq [OF vs(1), of s1] vs(2) s1s unfolding s2_def by (simp_all add: Let_def)
  have kd: "t_prio (thr s2 j) = t_prio (thr s j)" "t_proc (thr s2 j) = t_proc (thr s j)" "t_hart (thr s2 j) = t_hart (thr s j)" if "j < nthreads s" for j
    using k(7) [OF that] by (simp_all add: killed_def)
  have ef: "eff_prio s2 j = eff_prio s j" if "j < nthreads s" for j
    by (rule eff_prio_cong) (use kd [OF that] k in simp_all)
  have "q_ok s1 (eff_prio s) ({} \<union> {i. i \<in> set vs})"
    by (rule filter_q_ok [OF sched_wfD(1) [OF w]]) (simp_all add: s1 vs_def hh)
  then have q1: "q_ok s1 (eff_prio s) (set vs)" by simp
  have nr: "t_state (thr s2 j) \<noteq> Ready" if "j \<in> set vs" for j
    using k(7) [of j] that vs(2) [of j] by (auto simp: killed_def)
  have q2: "q_ok s2 (eff_prio s2) (set vs) = q_ok s1 (eff_prio s) (set vs)"
    by (rule q_ok_cong) (use k(1,2,7) s1s ef in simp_all)
  have "q_ok s2 (eff_prio s2) {}"
    using q1 q2 nr unfolding q_ok_def by blast
  moreover have "t_ok s2" unfolding t_ok_def
    using sched_wfD(4) [OF w] k(1,7) by (auto simp: t_ok_def thread_ok_def killed_def)
  moreover have "idle_ok s2" unfolding idle_ok_def
  proof (intro allI impI)
    fix g :: nat assume g: "g < MAX_HARTS"
    then have "sc_idle s g \<notin> set vs" using idle_okD(3) [OF w, of g] vs(2) [of "sc_idle s g"] by simp
    then show "sc_idle s2 g < nthreads s2 \<and> t_hart (thr s2 (sc_idle s2 g)) = g \<and> t_proc (thr s2 (sc_idle s2 g)) = None \<and>
        (t_state (thr s2 (sc_idle s2 g)) = Running \<or> t_state (thr s2 (sc_idle s2 g)) = Ready)"
      using sched_wfD(5) [OF w] g k by (simp add: idle_ok_def)
  qed
  moreover have "run_ok s2" unfolding run_ok_def
    using sched_wfD(6) [OF w] k by (auto simp: run_ok_def killed_def split: if_splits)
  moreover have "free_ok s2"
  proof -
    have f: "j \<in> set (sc_free s) \<longleftrightarrow> j < nthreads s \<and> t_state (thr s j) = Exited" "distinct (sc_free s)" for j
      using sched_wfD(7) [OF w] by (simp_all add: free_ok_def)
    have "j \<in> set (sc_free s2) \<longleftrightarrow> j < nthreads s2 \<and> t_state (thr s2 j) = Exited" for j
      using f(1) [of j] vs(2) [of j] k(7) [of j] k(1,6)
      by (cases "j < nthreads s") (auto simp: killed_def fresh_victims_def vs_def)
    moreover have "distinct (sc_free s2)"
      using f vs(1) unfolding k(6) fresh_victims_def vs_def by auto
    ultimately show ?thesis by (simp add: free_ok_def)
  qed
  moreover have "cur_ok s2 g" if "g < 4" for g
    using cur_okD [OF w that] k by (simp add: cur_ok_def)
  ultimately show ?thesis using sched_wfD(2) [OF w] k(1,3) by (simp add: sched_wf_def rest_ok_def vs_def [symmetric] s2_def)
qed

text \<open>Requeuing does not look at the free slots.\<close>

abbreviation with_free :: "nat list \<Rightarrow> sched \<Rightarrow> sched" where
  "with_free f s \<equiv> s\<lparr>sc_free := f\<rparr>"

lemma thread_at_free [simp]: "thread_at (with_free f s) i = thread_at s i"
  by (simp add: thread_at_def)

lemma with_free_id: "with_free (sc_free s) s = s"
  by (cases s) simp

lemma eff_prio_free [simp]: "eff_prio (with_free f s) i = eff_prio s i"
  by (rule eff_prio_cong) simp_all

lemma in_proc_free [simp]: "in_proc (with_free f s) = in_proc s"
  by (simp add: in_proc_def fun_eq_iff)

lemma enqueue_free: "enqueue (with_free f s) i = map_option (with_free f) (enqueue s i)"
  by (simp add: enqueue_def Let_def upd_thread_def set_ready_def require_def split: Option.bind_split)

lemma enqueue_all_free: "enqueue_all (with_free f s) is = map_option (with_free f) (enqueue_all s is)"
  by (induction "is" arbitrary: s) (auto simp: enqueue_free split: Option.bind_split)

lemma requeue_free: "requeue_proc_threads (with_free f s) p = map_option (with_free f) (requeue_proc_threads s p)"
proof -
  have e: "(with_free f s)\<lparr>sc_ready := q\<rparr> = with_free f (s\<lparr>sc_ready := q\<rparr>)" for q by simp
  show ?thesis
    unfolding requeue_proc_threads_def Let_def e enqueue_all_free by (simp add: require_def)
qed

lemma requeue_procs_free: "requeue_procs (with_free f s) ps = map_option (with_free f) (requeue_procs s ps)"
  by (induction ps arbitrary: s) (auto simp: requeue_free split: Option.bind_split)

lemma requeue_donors_free: "requeue_donors (with_free f s) p is = map_option (with_free f) (requeue_donors s p is)"
  by (induction "is" arbitrary: s) (auto simp: requeue_free split: Option.bind_split option.split)

lemma revoke_free:
  "revoke_donations_for_proc (with_free f s) p = map_option (with_free f) (revoke_donations_for_proc s p)"
  "revoke_donations_of (with_free f s) ts skip = map_option (with_free f) (revoke_donations_of s ts skip)"
proof -
  have e: "(with_free f s)\<lparr>sc_donations := d\<rparr> = with_free f (s\<lparr>sc_donations := d\<rparr>)" for d by simp
  show "revoke_donations_for_proc (with_free f s) p = map_option (with_free f) (revoke_donations_for_proc s p)"
    "revoke_donations_of (with_free f s) ts skip = map_option (with_free f) (revoke_donations_of s ts skip)"
    unfolding revoke_donations_for_proc_def revoke_donations_of_def Let_def
    by (simp_all add: e requeue_donors_free requeue_procs_free)
qed

text \<open>
  \<^verbatim>\<open>kill_process\<close> keeps the invariant exactly if no thread of the process had exited before.
\<close>

lemma kill_threads_ok:
  assumes w: "sched_wf s" and h: "h < 4"
  obtains s' where "kill_threads s h pid = Some (t_proc (thr s (sc_current s h)) = Some pid,
      map (\<lambda>i. (i, t_hart (thr s i))) (filter (\<lambda>i. t_state (thr s i) = Running) (victims s h pid)), s')"
    "sched_wf (s'\<lparr>sc_free := sc_free s @ fresh_victims s h pid\<rparr>)" "nthreads s' = nthreads s" "sc_current s' = sc_current s"
    "\<And>j. j < nthreads s \<Longrightarrow> thr s' j = (if j \<in> set (victims s h pid) \<and> t_state (thr s j) \<noteq> Running then killed (thr s j) else thr s j)"
    "sc_donations s' = filter (\<lambda>d. d_peer d \<noteq> pid \<and> d_donor d \<notin> set (victims s h pid @ [sc_current s h])) (sc_donations s)"
    "sc_kill_req s' = (\<lambda>i. sc_kill_req s i \<or> i \<in> set (victims s h pid) \<and> t_state (thr s i) = Running)"
    "sc_free s' = sc_free s @ filter (\<lambda>i. t_state (thr s i) \<noteq> Running) (victims s h pid)" "sc_idle s' = sc_idle s"
proof -
  define vs where "vs = victims s h pid"
  define s1 where "s1 = s\<lparr>sc_ready := (\<lambda>h p. filter (\<lambda>i. i \<notin> set vs) (sc_ready s h p))\<rparr>"
  define s2 where "s2 = snd (kill_victims s1 vs)"
  define v2 where "v2 = with_free (sc_free s @ fresh_victims s h pid) s2"
  note c = cur_okD [OF w h]
  have vs: "distinct vs" "\<And>i. i \<in> set vs \<longleftrightarrow> i < nthreads s \<and> t_proc (thr s i) = Some pid \<and> i \<noteq> sc_current s h"
    by (auto simp: vs_def victims_def in_proc_def)
  have s1s: "sc_threads s1 = sc_threads s" "sc_donations s1 = sc_donations s" "sc_current s1 = sc_current s" "sc_kill_req s1 = sc_kill_req s"
    "sc_free s1 = sc_free s" "sc_idle s1 = sc_idle s"
    by (simp_all add: s1_def)
  have k: "fst (kill_victims s1 vs) = map (\<lambda>i. (i, t_hart (thr s i))) (filter (\<lambda>i. t_state (thr s i) = Running) vs)"
    "nthreads s2 = nthreads s" "sc_donations s2 = sc_donations s" "sc_current s2 = sc_current s"
    "\<And>j. j < nthreads s \<Longrightarrow> thr s2 j = (if j \<in> set vs \<and> t_state (thr s j) \<noteq> Running then killed (thr s j) else thr s j)"
    "sc_kill_req s2 = (\<lambda>i. sc_kill_req s i \<or> i \<in> set vs \<and> t_state (thr s i) = Running)"
    "sc_free s2 = sc_free s @ filter (\<lambda>i. t_state (thr s i) \<noteq> Running) vs" "sc_idle s2 = sc_idle s"
    using kill_victims_eq [OF vs(1), of s1] vs(2) s1s unfolding s2_def by (simp_all add: Let_def)
  have w2: "sched_wf v2" unfolding v2_def s2_def vs_def
    by (rule victims_wf [OF w h _ refl]) (simp_all add: s1_def vs_def)
  have v2: "nthreads v2 = nthreads s" "sc_donations v2 = sc_donations s" "\<And>j. thr v2 j = thr s2 j" "s2 = with_free (sc_free s2) v2"
    using k by (simp_all add: v2_def)
  have none: "t_proc (thr v2 i) \<noteq> Some pid" if "i < nthreads v2" "t_state (thr v2 i) = Ready" for i
    using that k(4,5) vs(2) [of i] c unfolding v2(1,3) by (auto simp: killed_def split: if_splits)
  obtain s3 where s3: "revoke_donations_for_proc v2 pid = Some s3" "sched_wf s3"
    "same_but_queues (v2\<lparr>sc_donations := filter (\<lambda>d. d_peer d \<noteq> pid) (sc_donations v2)\<rparr>) s3"
    using revoke_for_proc_ok [OF w2 none] by blast
  note d3 = same_but_queuesD [OF s3(3)]
  have skip: "Some p \<noteq> Some pid" if "i < nthreads s3" "t_state (thr s3 i) = Ready" "t_proc (thr s3 i) = Some p" for i p
    using that none d3(1) by auto
  let ?t = "vs @ [sc_current s h]"
  obtain s4 where s4: "revoke_donations_of s3 ?t (Some pid) = Some s4"
    "same_but_queues (s3\<lparr>sc_donations := filter (\<lambda>d. \<not> d_donor d \<in> set ?t) (sc_donations s3)\<rparr>) s4" "sched_wf s4"
    using revoke_ok [of s3 "\<lambda>p. Some p \<noteq> Some pid" "\<lambda>d. d_donor d \<in> set ?t"] s3(2) skip
    unfolding revoke_donations_of_def Let_def by blast
  note d4 = same_but_queuesD [OF s4(2)]
  let ?s = "with_free (sc_free s2) s4"
  have r: "revoke_donations_for_proc s2 pid = Some (with_free (sc_free s2) s3)"
    "revoke_donations_of (with_free (sc_free s2) s3) ?t (Some pid) = Some ?s"
    using revoke_free(1) [of "sc_free s2" v2 pid] revoke_free(2) [of "sc_free s2" s3 ?t "Some pid"] s3(1) s4(1) v2(4) by simp_all
  have sh: "length vs < 64" unfolding vs_def by (rule victims_short [OF w h])
  have "filter (\<lambda>i. in_proc s pid i \<and> i \<noteq> sc_current s h) [0..<nthreads s] = vs" by (simp add: vs_def victims_def)
  then have kill: "kill_threads s h pid = Some (t_proc (thr s (sc_current s h)) = Some pid, fst (kill_victims s1 vs), ?s)"
    using c sh r by (simp add: kill_threads_def Let_def s1_def [symmetric] s2_def split_def)
  have "sc_free s4 = sc_free s @ fresh_victims s h pid" using d4(5) d3(5) by (simp add: v2_def)
  then have "?s\<lparr>sc_free := sc_free s @ fresh_victims s h pid\<rparr> = s4" by simp
  moreover have "sc_donations s4 = filter (\<lambda>d. d_peer d \<noteq> pid \<and> d_donor d \<notin> set ?t) (sc_donations s)"
    using d4(2) d3(2) v2(2) by (simp add: conj_commute)
  moreover have "sc_threads s4 = sc_threads s2" "sc_current s4 = sc_current s2" "sc_kill_req s4 = sc_kill_req s2" "sc_idle s4 = sc_idle s2"
    using d4 d3 by (simp_all add: v2_def)
  ultimately show ?thesis using kill k s4(3) by (intro that [unfolded vs_def [symmetric], of ?s]) simp_all
qed

lemma fresh_all: "(\<And>i. i \<in> set (victims s h pid) \<Longrightarrow> t_state (thr s i) \<noteq> Exited) \<Longrightarrow>
    fresh_victims s h pid = filter (\<lambda>i. t_state (thr s i) \<noteq> Running) (victims s h pid)"
  unfolding fresh_victims_def by (rule filter_cong) auto

lemma kill_wf_iff:
  assumes w: "sched_wf s" and h: "h < 4" and k: "kill_threads s h pid = Some (b, force, s')"
  shows "sched_wf s' \<longleftrightarrow> (\<forall>i\<in>set (victims s h pid). t_state (thr s i) \<noteq> Exited)"
    and "distinct (sc_free s') \<longleftrightarrow> (\<forall>i\<in>set (victims s h pid). t_state (thr s i) \<noteq> Exited)"
proof -
  obtain u where u: "kill_threads s h pid = Some (t_proc (thr s (sc_current s h)) = Some pid,
      map (\<lambda>i. (i, t_hart (thr s i))) (filter (\<lambda>i. t_state (thr s i) = Running) (victims s h pid)), u)"
    "sched_wf (u\<lparr>sc_free := sc_free s @ fresh_victims s h pid\<rparr>)"
    "sc_free u = sc_free s @ filter (\<lambda>i. t_state (thr s i) \<noteq> Running) (victims s h pid)"
    by (rule kill_threads_ok [OF w h]) (rule that; assumption)
  have e: "u = s'" using u(1) k by simp
  have f: "distinct (sc_free s)" "\<And>i. i \<in> set (sc_free s) \<longleftrightarrow> i < nthreads s \<and> t_state (thr s i) = Exited"
    using sched_wfD(7) [OF w] by (simp_all add: free_ok_def)
  show d: "distinct (sc_free s') \<longleftrightarrow> (\<forall>i\<in>set (victims s h pid). t_state (thr s i) \<noteq> Exited)"
    using f u(3) unfolding e by (auto simp: victims_def)
  have "sched_wf s'" if a: "\<forall>i\<in>set (victims s h pid). t_state (thr s i) \<noteq> Exited"
  proof -
    have "sc_free s @ fresh_victims s h pid = sc_free s'" using fresh_all [of s h pid] a u(3) e by simp
    then show ?thesis using u(2) e by (metis with_free_id)
  qed
  moreover have "distinct (sc_free s')" if "sched_wf s'" using sched_wfD(7) [OF that] by (simp add: free_ok_def)
  ultimately show "sched_wf s' \<longleftrightarrow> (\<forall>i\<in>set (victims s h pid). t_state (thr s i) \<noteq> Exited)" using d by blast
qed

section \<open>The start\<close>

lemma all_less_4: "(\<forall>i<4. P i) \<longleftrightarrow> P 0 \<and> P 1 \<and> P 2 \<and> P (3::nat)"
  by (auto simp: numeral_eq_Suc less_Suc_eq)

lemma sched_init_wf: "sched_wf (sched_init im stacks sched_static)"
proof -
  let ?s = "sched_init im stacks sched_static"
  have e: "[0..<MAX_HARTS] = [0, 1, 2, 3]" by (simp add: upt_rec)
  have th: "sc_threads ?s = map (\<lambda>h. idle_thread im h (stacks h)) [0, 1, 2, 3]"
    unfolding sched_init_def e by (simp add: sched_static_def set_current_def)
  have cur: "sc_current ?s = (\<lambda>h. if h < 4 then h else 0)" "sc_idle ?s = (\<lambda>h. if h < 4 then h else 0)"
    unfolding sched_init_def e by (auto simp: sched_static_def set_current_def)
  have rest: "sc_ready ?s = (\<lambda>_ _. [])" "sc_donations ?s = []" "sc_free ?s = []"
    unfolding sched_init_def e by (simp_all add: sched_static_def set_current_def)
  have nth: "thr ?s h = idle_thread im h (stacks h)" if "h < 4" for h
    using that by (auto simp: th numeral_eq_Suc less_Suc_eq)
  have n: "nthreads ?s = 4" by (simp add: th)
  have run: "t_state (thr ?s i) = Running" "t_hart (thr ?s i) = i" "t_proc (thr ?s i) = None" "thread_ok (thr ?s i)" if "i < 4" for i
    using that by (simp_all add: nth idle_thread_def thread_ok_def)
  have "q_ok ?s (eff_prio ?s) {}" using run n by (auto simp: q_ok_def rest)
  moreover have "t_ok ?s" using run n by (simp add: t_ok_def)
  moreover have "idle_ok ?s" using run n by (simp add: idle_ok_def cur)
  moreover have "run_ok ?s" using n by (auto simp: run_ok_def cur)
  moreover have "free_ok ?s" using run n by (auto simp: free_ok_def rest)
  moreover have "cur_ok ?s h" if "h < 4" for h using that run n by (simp add: cur_ok_def cur)
  ultimately show ?thesis using n by (simp add: sched_wf_def rest_ok_def rest don_ok_def)
qed

section \<open>The ready queues meet their contract\<close>

definition hart_ok :: "sched \<Rightarrow> bool" where
  "hart_ok s \<longleftrightarrow> t_ok s \<and> (\<exists>lev. q_ok s lev {})"

lemma picked_t_ok: "t_ok s \<Longrightarrow> i < nthreads s \<Longrightarrow> t_ok (picked s h p q i)"
  unfolding t_ok_def by (auto simp: thr_picked thread_ok_def)

lemma pick_head_law:
  assumes "hart_ok s" "p < 3" "sc_ready s h p = i # xs" "\<forall>l<p. sc_ready s h l = []"
  shows "\<exists>s'. pick_next s h True = Some (i, s') \<and> hart_ok s' \<and> sc_ready s' h = (sc_ready s h)(p := xs)"
proof -
  obtain lev where q: "q_ok s lev {}" and t: "t_ok s" using assms(1) by (auto simp: hart_ok_def)
  note m = q_okD [OF q, of i h p]
  have i: "i < nthreads s" "t_state (thr s i) = Ready" using m assms(3) by simp_all
  have "eligible True (thr s i)" using thread_okD(4) [OF t i(1)] i(2) by (auto simp: eligible_def)
  then have e: "pick_next s h True = Some (i, picked s h p (xs @ []) i)"
    using assms(3,4) by (intro pick_next_some [OF q_ok_live [OF q] _ _ _ assms(2)]) (simp_all add: none_eligible_def)
  moreover have "q_ok (picked s h p (xs @ []) i) lev {}" by (rule picked_q_ok [OF q]) (simp add: assms(3))
  moreover have "sc_ready (picked s h p (xs @ []) i) h = (sc_ready s h)(p := xs)"
    by (simp add: picked_def set_ready_def)
  ultimately show ?thesis using picked_t_ok [OF t i(1)] unfolding hart_ok_def by blast
qed

interpretation rq: level_queue 3 hart_ok "\<lambda>s. sc_ready s h" "\<lambda>s. pick_next s h True" for h
  by unfold_locales (rule pick_head_law)

end
