(* ===== verification/Sched_Events.thy ===== *)
theory Sched_Events
  imports Sched_Reach
begin

text \<open>
  Runs of the scheduler as sequences of calls, the states reachable by them, and which calls keep the
  invariant.
\<close>

section \<open>Calls\<close>

text \<open>
  The operations of the scheduler as events: the entry points of sched.rs with their arguments. \<open>regs\<close> and
  \<open>frame\<close> are what the processor or the trap handler saves, \<open>h\<close> is the running hart.
\<close>

datatype sched_event =
    EYield nat thread_ctx
  | EExit nat thread_ctx
  | EBlock nat thread_ctx
  | EResume nat
  | EBlockUser nat frame thread_ctx
  | EWake nat nat
  | EMsg nat nat "msg option"
  | EErr nat nat usize
  | ETake nat
  | ESpawn nat usize usize nat
  | ESpawnUser nat nat usize usize usize nat usize usize
  | ESpawnOwned nat usize usize nat nat
  | EEntry nat
  | ETick nat frame
  | EForceKill nat
  | EIdle nat thread_ctx
  | EAffinity nat nat
  | EDonate nat nat
  | EKill nat nat
  | ERequest nat u64
  | ETakeRequest nat
  | EShootdown nat nat "nat \<Rightarrow> bool"
  | EDrain

fun sched_exec :: "image \<Rightarrow> sched_event \<Rightarrow> sched \<Rightarrow> sched outcome" where
  "sched_exec im (EYield h regs) s = map_option snd (yield s h regs)"
| "sched_exec im (EExit h regs) s = map_option snd (exit_thread s h regs)"
| "sched_exec im (EBlock h regs) s = map_option snd (block_current s h regs)"
| "sched_exec im (EResume h) s = block_resume s h"
| "sched_exec im (EBlockUser h frame regs) s = map_option snd (block_user_from_trap s h frame regs)"
| "sched_exec im (EWake h i) s = map_option snd (wake s h i)"
| "sched_exec im (EMsg h i m) s = map_option snd (ipc_wake_with_msg s h i m)"
| "sched_exec im (EErr h i code) s = map_option snd (ipc_wake_with_err s h i code)"
| "sched_exec im (ETake h) s = map_option snd (take_ipc_msg s h)"
| "sched_exec im (ESpawn h stack entry prio) s = map_option snd (spawn im s h stack entry prio)"
| "sched_exec im (ESpawnUser h pid root pc st prio argc argv) s = map_option snd (spawn_user im s h pid root pc st prio argc argv)"
| "sched_exec im (ESpawnOwned h stack entry prio pid) s = map_option snd (spawn_owned im s h stack entry prio pid)"
| "sched_exec im (EEntry h) s = map_option snd (thread_entry s h)"
| "sched_exec im (ETick h frame) s = map_option snd (on_tick im s h frame)"
| "sched_exec im (EForceKill h) s = map_option snd (force_kill_current im s h)"
| "sched_exec im (EIdle h regs) s = map_option snd (secondary_idle_round s h regs)"
| "sched_exec im (EAffinity i hart) s = set_affinity s i hart"
| "sched_exec im (EDonate i p) s = donate_on_block s i p"
| "sched_exec im (EKill h pid) s = map_option (\<lambda>(_, _, s'). s') (kill_threads s h pid)"
| "sched_exec im (ERequest h bits) s = send_remote_req s h bits"
| "sched_exec im (ETakeRequest h) s = map_option snd (take_remote_request s h)"
| "sched_exec im (EShootdown h n online) s = Some (tlb_shootdown_remote s h n online)"
| "sched_exec im EDrain s = Some (snd (drain_reaper s))"

text \<open>
  Which calls occur: hart numbers and the lengths of register arrays, frames and messages are those of their
  types, and the idle threads neither block nor exit nor move (the comments of the field \<^verbatim>\<open>idle\<close> and of
  \<^verbatim>\<open>drain_reaper\<close>). Nothing else is asked of a call.
\<close>

fun call_ok :: "sched_event \<Rightarrow> sched \<Rightarrow> bool" where
  "call_ok (EYield h regs) s \<longleftrightarrow> h < MAX_HARTS \<and> length (c_s regs) = 12"
| "call_ok (EExit h regs) s \<longleftrightarrow> h < MAX_HARTS \<and> length (c_s regs) = 12 \<and> sc_current s h \<noteq> sc_idle s h"
| "call_ok (EBlock h regs) s \<longleftrightarrow> h < MAX_HARTS \<and> length (c_s regs) = 12 \<and> sc_current s h \<noteq> sc_idle s h"
| "call_ok (EBlockUser h frame regs) s \<longleftrightarrow>
     h < MAX_HARTS \<and> length (c_s regs) = 12 \<and> length frame = FRAME_WORDS \<and> sc_current s h \<noteq> sc_idle s h"
| "call_ok (EMsg h i m) s \<longleftrightarrow> (case m of Some x \<Rightarrow> length x \<le> MSG_WORDS | None \<Rightarrow> True)"
| "call_ok (ETick h frame) s \<longleftrightarrow> h < MAX_HARTS \<and> length frame = FRAME_WORDS"
| "call_ok (EIdle h regs) s \<longleftrightarrow> h < MAX_HARTS \<and> length (c_s regs) = 12"
| "call_ok (EAffinity i hart) s \<longleftrightarrow> (\<forall>h\<in>set [0..<MAX_HARTS]. i \<noteq> sc_idle s h)"
| "call_ok (EResume h) s \<longleftrightarrow> h < MAX_HARTS"
| "call_ok (ETake h) s \<longleftrightarrow> h < MAX_HARTS"
| "call_ok (ESpawn h stack entry prio) s \<longleftrightarrow> h < MAX_HARTS"
| "call_ok (ESpawnUser h pid root pc st prio argc argv) s \<longleftrightarrow> h < MAX_HARTS"
| "call_ok (ESpawnOwned h stack entry prio pid) s \<longleftrightarrow> h < MAX_HARTS"
| "call_ok (EEntry h) s \<longleftrightarrow> h < MAX_HARTS"
| "call_ok (EForceKill h) s \<longleftrightarrow> h < MAX_HARTS"
| "call_ok (EKill h pid) s \<longleftrightarrow> h < MAX_HARTS"
| "call_ok _ _ \<longleftrightarrow> True"

text \<open>
  Three calls that break the invariant (each a defect of the code): killing a process with a thread that has
  exited before (\<^verbatim>\<open>kill_process\<close> puts its slot into the queue of free slots again); a donation that replaces one
  to another process and so changes the effective priority of a Ready thread there
  (\<^verbatim>\<open>register_donation\<close> requeues the new peer only); a forced kill when no thread can be resumed from a frame
  and the idle thread is queued (\<^verbatim>\<open>force_kill_current\<close> runs it and leaves it in the queue).
\<close>

definition donated :: "sched \<Rightarrow> nat \<Rightarrow> nat \<Rightarrow> donation list" where
  "donated s i p =
     (let d = \<lparr>d_donor = i, d_peer = p, d_prio = eff_prio s i\<rparr> in
      if \<exists>e\<in>set (sc_donations s). d_donor e = i then put_donation (sc_donations s) d
      else if length (sc_donations s) < MAX_DONATIONS then sc_donations s @ [d] else sc_donations s)"

fun breaks :: "sched_event \<Rightarrow> sched \<Rightarrow> bool" where
  "breaks (EKill h pid) s \<longleftrightarrow> (\<exists>i\<in>set (victims s h pid). t_state (thr s i) = Exited)"
| "breaks (EDonate i p) s \<longleftrightarrow> (\<exists>j\<in>set [0..<nthreads s]. t_state (thr s j) = Ready \<and> \<not> in_proc s p j \<and>
     eff_prio (s\<lparr>sc_donations := donated s i p\<rparr>) j \<noteq> eff_prio s j)"
| "breaks (EForceKill h) s \<longleftrightarrow> sc_kill_req s (sc_current s h) \<and> t_state (thr s (sc_idle s h)) = Ready \<and>
     \<not> other_preemptable s h PRIO_LEVELS"
| "breaks _ _ \<longleftrightarrow> False"

inductive sched_reach :: "image \<Rightarrow> sched \<Rightarrow> bool" for im where
  start: "sched_reach im (sched_init im stacks sched_static)"
| step: "sched_reach im s \<Longrightarrow> call_ok e s \<Longrightarrow> \<not> breaks e s \<Longrightarrow> sched_exec im e s = Some s' \<Longrightarrow> sched_reach im s'"

section \<open>Kill requests and idle threads\<close>

text \<open>
  No operation changes the idle threads, and a kill request is set only for threads of a process: an
  idle thread never has one.
\<close>

definition quiet :: "sched \<Rightarrow> (nat \<Rightarrow> nat) \<times> (nat \<Rightarrow> bool)" where
  "quiet s = (sc_idle s, sc_kill_req s)"

definition idle_safe :: "sched \<Rightarrow> bool" where
  "idle_safe s \<longleftrightarrow> (\<forall>h<4. \<not> sc_kill_req s (sc_idle s h))"

lemma quiet_simps [simp]:
  "quiet (upd_thread s i f) = quiet s" "quiet (set_ready s h p q) = quiet s" "quiet (set_current s h i) = quiet s"
  "quiet (set_ticks s h n) = quiet s" "quiet (set_satp s h r) = quiet s" "quiet (push_free s i) = quiet s"
  "quiet (reap_stack s i) = quiet s" "quiet (s\<lparr>sc_ready := rq\<rparr>) = quiet s" "quiet (s\<lparr>sc_donations := ds\<rparr>) = quiet s"
  "quiet (s\<lparr>sc_remote_req := rr\<rparr>) = quiet s" "quiet (s\<lparr>sc_reaper := rp\<rparr>) = quiet s"
  by (simp_all add: quiet_def upd_thread_def set_ready_def set_current_def set_ticks_def set_satp_def push_free_def reap_stack_def
      split: option.split)

lemma quiet_enqueue: "enqueue s i = Some s' \<Longrightarrow> quiet s' = quiet s"
  by (auto simp: enqueue_def Let_def bind_eq_Some_conv)

lemma quiet_enqueue_all: "enqueue_all s is = Some s' \<Longrightarrow> quiet s' = quiet s"
  by (induction "is" arbitrary: s) (auto simp: bind_eq_Some_conv dest: quiet_enqueue)

lemma quiet_requeue: "requeue_proc_threads s p = Some s' \<Longrightarrow> quiet s' = quiet s"
  by (auto simp: requeue_proc_threads_def Let_def bind_eq_Some_conv dest!: quiet_enqueue_all)

lemma quiet_requeue_procs: "requeue_procs s ps = Some s' \<Longrightarrow> quiet s' = quiet s"
  by (induction ps arbitrary: s) (auto simp: bind_eq_Some_conv dest: quiet_requeue)

lemma quiet_revoke: "revoke_donations s i = Some s' \<Longrightarrow> quiet s' = quiet s"
  by (auto simp: revoke_donations_def Let_def dest!: quiet_requeue_procs)

lemma quiet_donate: "donate_on_block s i p = Some s' \<Longrightarrow> quiet s' = quiet s"
  by (auto simp: donate_on_block_def register_donation_def Let_def bind_eq_Some_conv dest!: quiet_requeue)

lemma quiet_remove: "remove_from_ready s i = Some s' \<Longrightarrow> quiet s' = quiet s"
  by (auto simp: remove_from_ready_def Let_def bind_eq_Some_conv split: option.splits)

lemma quiet_pick_level: "pick_level s h c l n = Some (r, s') \<Longrightarrow> quiet s' = quiet s"
  by (induction s h c l n rule: pick_level.induct) (auto simp: Let_def bind_eq_Some_conv split: list.splits if_splits)

lemma quiet_pick_levels: "pick_levels s h c ls = Some (r, s') \<Longrightarrow> quiet s' = quiet s"
  by (induction ls arbitrary: s) (auto simp: bind_eq_Some_conv split: option.splits dest!: quiet_pick_level)

lemma quiet_pick_next: "pick_next s h c = Some (i, s') \<Longrightarrow> quiet s' = quiet s"
  by (auto simp: pick_next_def bind_eq_Some_conv split: option.splits dest!: quiet_pick_levels simp del: upt_rec_numeral)

lemma quiet_reschedule: "reschedule s h cur regs = Some (t, s') \<Longrightarrow> quiet s' = quiet s"
  by (auto simp: reschedule_def do_switch_def Let_def bind_eq_Some_conv dest!: quiet_pick_next)

lemma quiet_enter: "enter_frame im s h i = Some s' \<Longrightarrow> quiet s' = quiet s"
  by (auto simp: enter_frame_def expand_ctx_to_frame_def Let_def bind_eq_Some_conv)

lemmas quiet_dests = quiet_enqueue quiet_requeue quiet_revoke quiet_donate quiet_remove quiet_pick_next quiet_reschedule quiet_enter

lemma idle_safe_quiet: "quiet s' = quiet s \<Longrightarrow> idle_safe s \<Longrightarrow> idle_safe s'"
  by (simp add: quiet_def idle_safe_def)

lemma kill_req_frame [simp]: "sc_kill_req (push_free s i) = sc_kill_req s" "sc_kill_req (reap_stack s i) = sc_kill_req s"
  by (simp_all add: push_free_def reap_stack_def split: option.split)

lemma quiet_kill_req: "quiet (set_kill_req s i b) = (sc_idle s, (sc_kill_req s)(i := b))"
  by (simp add: quiet_def set_kill_req_def)

lemma quiet_insert:
  assumes "insert_thread s t = Some (i, s')"
  shows "quiet s' = (sc_idle s, (sc_kill_req s)(i := False))"
  using assms
  by (auto simp: insert_thread_def Let_def bind_eq_Some_conv split: list.splits if_splits dest!: quiet_enqueue)
    (simp_all add: quiet_def set_kill_req_def)

lemma idle_safe_cleared: "quiet s' = (sc_idle s, (sc_kill_req s)(i := False)) \<Longrightarrow> idle_safe s \<Longrightarrow> idle_safe s'"
  by (simp add: idle_safe_def quiet_def)

lemmas idle_safe_insert = idle_safe_cleared [OF quiet_insert]

lemma exec_idle_safe:
  assumes x: "sched_exec im e s = Some s'" and w: "sched_wf s" "call_ok e s" and k: "idle_safe s"
  shows "idle_safe s'"
proof (cases e)
  case (ESpawn h stack entry prio)
  then show ?thesis using x k by (auto simp: spawn_def dest: idle_safe_insert)
next
  case (ESpawnUser h pid root pc st prio argc argv)
  then show ?thesis using x k by (auto simp: spawn_user_def dest: idle_safe_insert)
next
  case (ESpawnOwned h stack entry prio pid)
  then obtain i s1 where s1: "insert_thread s (kernel_thread im h stack entry prio) = Some (i, s1)" "quiet s' = quiet s1"
    using x by (auto simp: spawn_owned_def spawn_def Let_def bind_eq_Some_conv split: if_splits dest!: quiet_requeue)
  show ?thesis by (rule idle_safe_quiet [OF s1(2) idle_safe_insert [OF s1(1) k]])
next
  case (EForceKill h)
  have "s' = s \<or> quiet s' = (sc_idle s, (sc_kill_req s)(sc_current s h := False))"
    using x EForceKill
    by (auto simp: force_kill_current_def Let_def bind_eq_Some_conv quiet_kill_req split: if_splits dest!: quiet_dests)
  then show ?thesis using k idle_safe_cleared by blast
next
  case (EKill h pid)
  then have h: "h < 4" using w(2) by simp
  obtain u where u: "kill_threads s h pid = Some (t_proc (thr s (sc_current s h)) = Some pid,
      map (\<lambda>i. (i, t_hart (thr s i))) (filter (\<lambda>i. t_state (thr s i) = Running) (victims s h pid)), u)"
    "sc_kill_req u = (\<lambda>i. sc_kill_req s i \<or> i \<in> set (victims s h pid) \<and> t_state (thr s i) = Running)" "sc_idle u = sc_idle s"
    by (rule kill_threads_ok [OF w(1) h]) (rule that; assumption)
  have "sc_idle s g \<notin> set (victims s h pid)" if "g < 4" for g
    using idle_okD(3) [OF w(1) that] by (simp add: victims_def in_proc_def)
  moreover have "s' = u" using x u(1) EKill by simp
  ultimately show ?thesis using k u(2,3) by (simp add: idle_safe_def)
qed (rule idle_safe_quiet [OF _ k]; use x in \<open>auto simp: yield_def drain_reaper_def exit_thread_def block_current_def block_resume_def
    block_user_from_trap_def wake_def ipc_wake_with_msg_def ipc_wake_with_err_def take_ipc_msg_def thread_entry_def on_tick_def
    secondary_idle_round_def do_switch_def set_affinity_def send_remote_req_def take_remote_request_def tlb_shootdown_remote_def
    Let_def bind_eq_Some_conv split: if_splits option.splits thread_state.splits dest!: quiet_dests\<close>)+

section \<open>Calls that keep the invariant\<close>

lemma block_user_wf:
  assumes w: "sched_wf s" and h: "h < 4" and n: "sc_current s h \<noteq> sc_idle s h" and regs: "length (c_s regs) = 12"
    and fr: "length frame = 36" and r: "block_user_from_trap s h frame regs = Some (r, s')"
  shows "sched_wf s'"
proof (cases "t_ipc_wake (thr s (sc_current s h))")
  case None
  obtain t u where "block_user_from_trap s h frame regs = Some (Inr t, u)" "sched_wf u"
    by (rule block_user_ok [OF w h n regs fr None])
  then show ?thesis using r by simp
next
  case (Some k)
  let ?u = "upd_thread s (sc_current s h) (\<lambda>t. t\<lparr>t_ipc_wake := None, t_state := Running\<rparr>)"
  note c = cur_okD [OF w h]
  have "sched_wf ?u" by (rule cur_upd_wf [OF w h]) (use c thread_okD [OF sched_wfD(4) [OF w] c(1)] in simp_all)
  then obtain v where "revoke_donations ?u (sc_current s h) = Some v" "sched_wf v" using revoke_donations_ok by blast
  then show ?thesis using r Some c by (auto simp: block_user_from_trap_def Let_def bind_eq_Some_conv)
qed

lemma insert_thread_wf:
  assumes w: "sched_wf s" and t: "thread_ok t" "t_state t = Ready" and e: "insert_thread s t = Some (i, s')"
  shows "sched_wf s'"
proof -
  have "sc_free s \<noteq> [] \<or> nthreads s < 64" using e by (auto simp: insert_thread_def bind_eq_Some_conv split: list.splits)
  from insert_thread_ok [OF w this t] show ?thesis using e by auto
qed

lemma q_ok_levels:
  assumes "q_ok s lev D"
  shows "q_ok s lev' D \<longleftrightarrow> (\<forall>i<nthreads s. t_state (thr s i) = Ready \<and> i \<notin> D \<longrightarrow> lev' i = lev i)"
proof
  assume q: "q_ok s lev' D"
  show "\<forall>i<nthreads s. t_state (thr s i) = Ready \<and> i \<notin> D \<longrightarrow> lev' i = lev i"
  proof (intro allI impI)
    fix i assume i: "i < nthreads s" "t_state (thr s i) = Ready \<and> i \<notin> D"
    then have "i \<in> set (sc_ready s (t_hart (thr s i)) (lev i))" using assms by (simp add: q_ok_def)
    then show "lev' i = lev i" by (rule q_okD(5) [OF q])
  qed
next
  assume "\<forall>i<nthreads s. t_state (thr s i) = Ready \<and> i \<notin> D \<longrightarrow> lev' i = lev i"
  then have "q_ok s lev' D = q_ok s lev D" by (intro q_ok_cong) simp_all
  then show "q_ok s lev' D" using assms by simp
qed

lemma donate_levels:
  assumes w: "sched_wf s" and e: "donate_on_block s i p = Some s'"
  shows "q_ok s' (eff_prio s') {} \<longleftrightarrow> \<not> breaks (EDonate i p) s" "sched_wf s' \<longleftrightarrow> \<not> breaks (EDonate i p) s"
proof -
  let ?u = "s\<lparr>sc_donations := donated s i p\<rparr>"
  let ?lev = "\<lambda>j. if t_proc (thr ?u j) \<in> Some ` set [p] then eff_prio ?u j else eff_prio s j"
  have i: "i < nthreads s" and r: "requeue_procs ?u [p] = Some s'"
    using e unfolding requeue_procs_single
    by (auto simp: donate_on_block_def register_donation_def donated_def Let_def thread_at_eq_Some bind_eq_Some_conv)
  have n: "don_ok (donated s i p) (nthreads s)"
    using sched_wfD(2) [OF w] put_donation_subset [of "sc_donations s" "\<lparr>d_donor = i, d_peer = p, d_prio = eff_prio s i\<rparr>"] i
    by (auto simp: donated_def Let_def don_ok_def put_donation_length)
  have q: "q_ok ?u (eff_prio s) {}" using sched_wfD(1) [OF w] q_ok_cong [of ?u s "{}" "eff_prio s" "eff_prio s"] by simp
  have t: "t_ok ?u" using sched_wfD(4) [OF w] by (simp add: t_ok_def)
  have "\<forall>j<nthreads ?u. eff_prio s j < 3" using thread_okD(5) [OF sched_wfD(4) [OF w]] by simp
  from requeue_procs_ok [OF q t this, of "[p]"] have s': "same_but_queues ?u s'" "q_ok s' ?lev {}" unfolding r by simp_all
  note d = same_but_queuesD [OF s'(1)]
  have lv: "eff_prio s' j = ?lev j \<longleftrightarrow> in_proc s p j \<or> eff_prio ?u j = eff_prio s j" for j
    unfolding d(11) by (auto simp: in_proc_def)
  show *: "q_ok s' (eff_prio s') {} \<longleftrightarrow> \<not> breaks (EDonate i p) s"
    unfolding q_ok_levels [OF s'(2)] lv using d(1) by (auto simp del: upt_rec_numeral)
  have "rest_ok s'" using sched_wfD(3) [OF w] rest_ok_cong [of s' s] d(1,3,4,5) by simp
  then show "sched_wf s' \<longleftrightarrow> \<not> breaks (EDonate i p) s" using * n d(1,2) by (simp add: sched_wf_def)
qed

lemma force_kill_wf:
  assumes w: "sched_wf s" "idle_safe s" and h: "h < 4" and b: "\<not> breaks (EForceKill h) s" and e: "force_kill_current im s h = Some (r, s')"
  shows "sched_wf s'"
proof (cases "sc_kill_req s (sc_current s h)")
  case True
  have n: "sc_current s h \<noteq> sc_idle s h" using True w(2) h by (auto simp: idle_safe_def)
  have "t_state (thr s (sc_idle s h)) = Running \<or> other_preemptable s h PRIO_LEVELS"
    using b True sched_wfD(5) [OF w(1)] h by (auto simp: idle_ok_def)
  from force_kill_ok [OF w(1) h True n this, of im] show ?thesis using e by auto
next
  case False
  then show ?thesis using e w(1) by (auto simp: force_kill_current_def Let_def bind_eq_Some_conv)
qed

lemma msg_wf:
  assumes w: "sched_wf s" and m: "\<forall>x. m = Some x \<longrightarrow> length x \<le> 5" and e: "ipc_wake_with_msg s h i m = Some (r, s')"
  shows "sched_wf s'"
proof -
  have i: "i < nthreads s" using e by (auto simp: ipc_wake_with_msg_def thread_at_eq_Some bind_eq_Some_conv)
  have "t_state (thr s i) = Blocked \<longrightarrow> frame_pc_ok s i"
  proof
    assume b: "t_state (thr s i) = Blocked"
    let ?f = "(t_frame (thr s i))[X_A0 := 0]"
    obtain f g where f: "(case m of Some w \<Rightarrow> write_words ?f X_A1 w | None \<Rightarrow> Some ?f) = Some f" "advance_sepc f = Some g"
      using e i b by (auto simp: ipc_wake_with_msg_def bind_eq_Some_conv Let_def split: option.splits)
    have l: "length ?f = 36" using thread_okD(3) [OF sched_wfD(4) [OF w] i] by simp
    have "f ! 33 = t_frame (thr s i) ! 33"
    proof (cases m)
      case (Some x)
      then have "length x \<le> 5" using m by simp
      then show ?thesis using f(1) write_words_ok [of 10 x ?f] l Some by auto
    qed (use f(1) in auto)
    then show "frame_pc_ok s i" using f(2) by (auto simp: frame_pc_ok_def advance_sepc_def bind_eq_Some_conv uadd_def split: if_splits)
  qed
  then obtain r2 u where "ipc_wake_with_msg s h i m = Some (r2, u)" "sched_wf u" by (rule ipc_wake_with_msg_ok [OF w i m])
  then show ?thesis using e by simp
qed

lemma err_wf:
  assumes w: "sched_wf s" and e: "ipc_wake_with_err s h i code = Some (r, s')"
  shows "sched_wf s'"
proof -
  have i: "i < nthreads s" using e by (auto simp: ipc_wake_with_err_def thread_at_eq_Some bind_eq_Some_conv)
  have "t_state (thr s i) = Blocked \<longrightarrow> frame_pc_ok s i"
    using e i by (auto simp: ipc_wake_with_err_def frame_pc_ok_def advance_sepc_def bind_eq_Some_conv uadd_def split: if_splits)
  then obtain r2 u where "ipc_wake_with_err s h i code = Some (r2, u)" "sched_wf u" by (rule ipc_wake_with_err_ok [OF w i])
  then show ?thesis using e by simp
qed

lemma spawn_wf:
  assumes w: "sched_wf s" and h: "h < 4"
  shows "spawn im s h stack entry prio = Some (i, s') \<Longrightarrow> sched_wf s'"
    and "spawn_user im s h pid root pc st prio argc argv = Some (i, s') \<Longrightarrow> sched_wf s'"
    and "spawn_owned im s h stack entry prio pid = Some (i, s') \<Longrightarrow> sched_wf s'"
proof -
  show "sched_wf s'" if "spawn im s h stack entry prio = Some (i, s')"
    using insert_thread_wf [OF w kernel_thread_ok [OF h]] that by (simp add: spawn_def kernel_thread_def Let_def)
  show "sched_wf s'" if "spawn_user im s h pid root pc st prio argc argv = Some (i, s')"
    using insert_thread_wf [OF w user_thread_ok [OF h]] that by (simp add: spawn_user_def user_thread_def)
  assume e: "spawn_owned im s h stack entry prio pid = Some (i, s')"
  then have "sc_free s \<noteq> [] \<or> nthreads s < 64"
    by (auto simp: spawn_owned_def spawn_def insert_thread_def bind_eq_Some_conv split: list.splits)
  then obtain j u where "spawn_owned im s h stack entry prio pid = Some (j, u)" "sched_wf u" by (rule spawn_owned_ok [OF w h])
  then show "sched_wf s'" using e by simp
qed

lemma affinity_wf:
  assumes w: "sched_wf s" and n: "\<forall>g<4. i \<noteq> sc_idle s g" and e: "set_affinity s i hart = Some s'"
  shows "sched_wf s'"
proof -
  have i: "i < nthreads s" "t_state (thr s i) = Ready \<or> t_state (thr s i) = Blocked"
    using e by (auto simp: set_affinity_def thread_at_eq_Some bind_eq_Some_conv Let_def split: thread_state.splits)
  obtain u where "set_affinity s i hart = Some u" "sched_wf u" by (rule set_affinity_ok [OF w i n])
  then show ?thesis using e by simp
qed

lemma idle_round_wf:
  assumes w: "sched_wf s" and h: "h < 4" "length (c_s regs) = 12" and e: "secondary_idle_round s h regs = Some (b, s')"
  shows "sched_wf s'"
proof -
  have "sc_current s h = sc_idle s h" using e by (auto simp: secondary_idle_round_def Let_def bind_eq_Some_conv)
  then obtain r u where "secondary_idle_round s h regs = Some (r, u)" "sched_wf u" by (rule secondary_idle_ok [OF w h(1) _ h(2)])
  then show ?thesis using e by simp
qed

lemma exec_wf:
  assumes w: "sched_wf s" "idle_safe s" and c: "call_ok e s" and b: "\<not> breaks e s" and x: "sched_exec im e s = Some s'"
  shows "sched_wf s'"
proof (cases e)
  case (EYield h regs)
  then have h: "h < 4" "length (c_s regs) = 12" using c by simp_all
  obtain t u where "yield s h regs = Some (t, u)" "sched_wf u" by (rule yield_ok [OF w(1) h])
  then show ?thesis using EYield x by simp
next
  case (EExit h regs)
  then have h: "h < 4" "sc_current s h \<noteq> sc_idle s h" "length (c_s regs) = 12" using c by simp_all
  obtain t u where "exit_thread s h regs = Some (t, u)" "sched_wf u" by (rule exit_ok [OF w(1) h])
  then show ?thesis using EExit x by simp
next
  case (EBlock h regs)
  then have h: "h < 4" "sc_current s h \<noteq> sc_idle s h" "length (c_s regs) = 12" using c by simp_all
  obtain t u where "block_current s h regs = Some (t, u)" "sched_wf u" by (rule block_current_ok [OF w(1) h])
  then show ?thesis using EBlock x by simp
next
  case (EResume h)
  then have h: "h < 4" using c by simp_all
  obtain u where "block_resume s h = Some u" "sched_wf u" by (rule block_resume_ok [OF w(1) h])
  then show ?thesis using EResume x by simp
next
  case (EBlockUser h frame regs)
  then show ?thesis using c x block_user_wf [OF w(1), of h regs frame] by auto
next
  case (EWake h i)
  then show ?thesis using x wake_ok [OF w(1), of h i] by auto
next
  case (EMsg h i m)
  then show ?thesis using c x msg_wf [OF w(1), of m h i] by (auto split: option.splits)
next
  case (EErr h i code)
  then show ?thesis using x err_wf [OF w(1)] by auto
next
  case (ETake h)
  then have h: "h < 4" using c by simp_all
  obtain u where "take_ipc_msg s h = Some (t_ipc_msg (thr s (sc_current s h)), u)" "sched_wf u" by (rule take_ipc_msg_ok [OF w(1) h])
  then show ?thesis using ETake x by simp
next
  case (EEntry h)
  then have h: "h < 4" using c by simp_all
  obtain t u where "thread_entry s h = Some (t, u)" "sched_wf u" by (rule thread_entry_ok [OF w(1) h])
  then show ?thesis using EEntry x by simp
next
  case (ETick h frame)
  then have h: "h < 4" "length frame = 36" using c by simp_all
  obtain t u where "on_tick im s h frame = Some (t, u)" "sched_wf u" by (rule on_tick_ok [OF w(1) h])
  then show ?thesis using ETick x by simp
next
  case (EForceKill h)
  then show ?thesis using c b x force_kill_wf [OF w, of h im] by auto
next
  case (EIdle h regs)
  then show ?thesis using c x idle_round_wf [OF w(1)] by auto
next
  case (EAffinity i hart)
  then show ?thesis using c x affinity_wf [OF w(1), of i hart s'] by (auto simp del: upt_rec_numeral)
next
  case (EDonate i p)
  then show ?thesis using b x donate_levels(2) [OF w(1), of i p s'] by (simp del: breaks.simps)
next
  case (EKill h pid)
  then show ?thesis using c b x kill_wf_iff(1) [OF w(1), of h pid] by auto
next
  case (ERequest h bits)
  then show ?thesis using w(1) x sched_wf_cong [of s' s] by (auto simp: send_remote_req_def bind_eq_Some_conv)
next
  case (ETakeRequest h)
  then show ?thesis using w(1) x sched_wf_cong [of s' s] by (auto simp: take_remote_request_def bind_eq_Some_conv)
next
  case (EShootdown h n online)
  then show ?thesis using w(1) x sched_wf_cong [of s' s] by (auto simp: tlb_shootdown_remote_def)
next
  case EDrain
  then show ?thesis using w(1) x sched_wf_cong [of s' s] by (auto simp: drain_reaper_def)
qed (use spawn_wf [OF w(1)] c x in auto)

lemma sched_reach_wf: "sched_reach im s \<Longrightarrow> sched_wf s \<and> idle_safe s"
proof (induction rule: sched_reach.induct)
  case (start stacks)
  have "sc_kill_req (init_harts im stacks s hs) = sc_kill_req s" for s hs
    by (induction hs arbitrary: s) (simp_all add: Let_def set_current_def)
  then show ?case using sched_init_wf by (simp add: idle_safe_def sched_init_def sched_static_def)
next
  case (step s e s')
  then show ?case using exec_wf exec_idle_safe by blast
qed

section \<open>Calls that break it\<close>

text \<open>What the scheduler promises, spelt out.\<close>

definition sched_inv :: "sched \<Rightarrow> bool" where
  "sched_inv s \<longleftrightarrow> nthreads s \<le> MAX_THREADS \<and>
    (\<forall>h p. distinct (sc_ready s h p)) \<and>
    (\<forall>h p i. i \<in> set (sc_ready s h p) \<longleftrightarrow>
       i < nthreads s \<and> t_state (thr s i) = Ready \<and> t_hart (thr s i) = h \<and> eff_prio s i = p) \<and>
    (\<forall>h<MAX_HARTS. sc_current s h < nthreads s \<and> t_state (thr s (sc_current s h)) = Running \<and> t_hart (thr s (sc_current s h)) = h) \<and>
    inj_on (sc_current s) {..<MAX_HARTS} \<and>
    distinct (sc_free s) \<and> (\<forall>i. i \<in> set (sc_free s) \<longleftrightarrow> i < nthreads s \<and> t_state (thr s i) = Exited)"

lemma sched_wf_inv:
  assumes w: "sched_wf s"
  shows "sched_inv s"
proof -
  have "inj_on (sc_current s) {..<MAX_HARTS}" using cur_inj [OF w] by (auto intro!: inj_onI)
  then show ?thesis using sched_wfD [OF w] cur_okD [OF w] by (simp add: sched_inv_def q_ok_def t_ok_def free_ok_def)
qed

lemma sched_invD:
  assumes "sched_inv s"
  shows "q_ok s (eff_prio s) {}" "h < 4 \<Longrightarrow> t_state (thr s (sc_current s h)) = Running" "distinct (sc_free s)"
  using assms by (simp_all add: sched_inv_def q_ok_def)

lemma breaks_inv:
  assumes w: "sched_wf s" and c: "call_ok e s" and b: "breaks e s" and x: "sched_exec im e s = Some s'"
  shows "\<not> sched_inv s'"
proof
  assume i: "sched_inv s'"
  show False
  proof (cases e)
    case (EDonate i p)
    then show ?thesis using donate_levels(1) [OF w, of i p s'] b x sched_invD(1) [OF i] by (simp del: breaks.simps)
  next
    case (EKill h pid)
    then obtain b f where k: "kill_threads s h pid = Some (b, f, s')" and h: "h < 4" using x c by auto
    show ?thesis using kill_wf_iff(2) [OF w h k] b EKill sched_invD(3) [OF i] by auto
  next
    case (EForceKill h)
    then have h: "h < 4" and k: "sc_kill_req s (sc_current s h)" "t_state (thr s (sc_idle s h)) = Ready" "\<not> other_preemptable s h PRIO_LEVELS"
      using c b by simp_all
    obtain r where "force_kill_current im s h = Some (r, s')" using x EForceKill by auto
    note f = force_kill_idle [OF w h k this]
    show ?thesis using f sched_invD(2) [OF i h] by simp
  qed (use b in simp_all)
qed

end
