(* ===== verification/Sched_Main.thy ===== *)
theory Sched_Main
  imports Sched_Events
begin

text \<open>
  The properties of the scheduler: the invariant of every reachable state, the order in which threads
  run, priority donation, wake-ups that are not lost, preemption, thread creation, the killing of a
  process, and a defect of the slot reuse.
\<close>

section \<open>A small system\<close>

definition demo_image :: image where
  "demo_image = \<lparr>im_thread_entry = 100, im_idle_entry = 200, im_user_stub = 300, im_gp = 400, im_kernel_root = 4096\<rparr>"

definition demo_boot :: sched where
  "demo_boot = sched_init demo_image (\<lambda>h. 65536 * h) sched_static"

definition demo_regs :: thread_ctx where
  "demo_regs = \<lparr>c_ra = 1, c_sp = 2, c_s = replicate 12 0\<rparr>"

definition demo_user :: thread where
  "demo_user = user_thread demo_image 0 7 8192 65536 131072 1 0 0"

lemma demo_boot_wf: "sched_wf demo_boot"
  by (simp add: demo_boot_def sched_init_wf)

lemma demo_boot_threads:
  "sc_threads demo_boot = map (\<lambda>h. idle_thread demo_image h (65536 * h)) [0, 1, 2, 3]"
  "sc_current demo_boot = (\<lambda>h. if h < 4 then h else 0)" "sc_idle demo_boot = (\<lambda>h. if h < 4 then h else 0)"
  "sc_ready demo_boot = (\<lambda>_ _. [])" "sc_donations demo_boot = []" "sc_free demo_boot = []" "sc_ticks demo_boot = (\<lambda>_. 0)"
proof -
  have e: "[0..<MAX_HARTS] = [0, 1, 2, 3]" by (simp add: upt_rec)
  show "sc_threads demo_boot = map (\<lambda>h. idle_thread demo_image h (65536 * h)) [0, 1, 2, 3]"
    "sc_current demo_boot = (\<lambda>h. if h < 4 then h else 0)" "sc_idle demo_boot = (\<lambda>h. if h < 4 then h else 0)"
    "sc_ready demo_boot = (\<lambda>_ _. [])" "sc_donations demo_boot = []" "sc_free demo_boot = []" "sc_ticks demo_boot = (\<lambda>_. 0)"
    unfolding demo_boot_def sched_init_def e by (auto simp: sched_static_def set_current_def)
qed

text \<open>The boot state with one user thread, waiting (\<open>demo_one\<close>) or running on hart 0 (\<open>demo_run\<close>).\<close>

definition demo_one :: sched where
  "demo_one = snd (the (spawn_user demo_image demo_boot 0 7 8192 65536 131072 1 0 0))"

definition demo_run :: sched where
  "demo_run = set_current (picked demo_one 0 1 [] 4) 0 4"

lemma demo_spawn:
  "spawn_user demo_image demo_boot 0 7 8192 65536 131072 1 0 0 = Some (4, demo_one)"
  "sched_wf demo_one" "nthreads demo_one = 5" "thr demo_one 4 = demo_user" "sc_current demo_one = sc_current demo_boot"
  "sc_idle demo_one = sc_idle demo_boot" "sc_donations demo_one = []" "\<forall>j<4. thr demo_one j = thr demo_boot j" "sc_free demo_one = []"
proof -
  have t: "thread_ok demo_user" "t_state demo_user = Ready" by (simp_all add: demo_user_def user_thread_ok, simp add: user_thread_def)
  have n: "nthreads demo_boot = 4" by (simp add: demo_boot_threads)
  obtain i s' where s': "insert_thread demo_boot demo_user = Some (i, s')" "sched_wf s'" "i < nthreads s'" "thr s' i = demo_user"
    "i < nthreads demo_boot \<Longrightarrow> t_state (thr demo_boot i) = Exited" "nthreads s' = max (nthreads demo_boot) (Suc i)"
    "sc_current s' = sc_current demo_boot" "sc_idle s' = sc_idle demo_boot" "sc_donations s' = sc_donations demo_boot"
    "\<forall>j<nthreads demo_boot. j \<noteq> i \<longrightarrow> thr s' j = thr demo_boot j"
    by (rule insert_thread_ok [OF demo_boot_wf _ t]) (use n in simp, rule that)
  have i4: "i = 4" using s'(1) n by (auto simp: insert_thread_def demo_boot_threads(6) bind_eq_Some_conv Let_def)
  have "sc_free s' = []"
    using s'(1) n by (auto simp: insert_thread_def demo_boot_threads(6) bind_eq_Some_conv Let_def enqueue_def set_kill_req_def upd_thread_def set_ready_def)
  moreover have "spawn_user demo_image demo_boot 0 7 8192 65536 131072 1 0 0 = Some (i, s')"
    using s'(1) by (simp add: spawn_user_def demo_user_def)
  moreover from this have "demo_one = s'" by (simp add: demo_one_def)
  ultimately show "spawn_user demo_image demo_boot 0 7 8192 65536 131072 1 0 0 = Some (4, demo_one)"
    "sched_wf demo_one" "nthreads demo_one = 5" "thr demo_one 4 = demo_user" "sc_current demo_one = sc_current demo_boot"
    "sc_idle demo_one = sc_idle demo_boot" "sc_donations demo_one = []" "\<forall>j<4. thr demo_one j = thr demo_boot j" "sc_free demo_one = []"
    using s' n i4 by (simp_all add: demo_boot_threads(5))
qed

section \<open>Reachable states\<close>

text \<open>
  C22. The scheduler in every state reachable from \<^verbatim>\<open>init\<close> by calls on any harts, none of which is one of the three
  defective ones of \<open>breaks\<close>: at most 64 threads exist; a thread is in the ready queue of hart \<open>h\<close> at level
  \<open>p\<close> exactly if it is Ready, belongs to hart \<open>h\<close> and has effective priority \<open>p\<close>, and then once; every hart
  runs a thread of its own, no thread runs on two harts; the slots for reuse are the exited threads, each
  once (\<open>sched_inv\<close>). In such a state the next call keeps all this if and only if it is not one of the three.
\<close>

theorem sched_reach_inv:
  assumes "sched_reach im s"
  shows "sched_inv s \<and> (\<forall>e s'. call_ok e s \<longrightarrow> sched_exec im e s = Some s' \<longrightarrow> (sched_inv s' \<longleftrightarrow> \<not> breaks e s))"
proof -
  have w: "sched_wf s" "idle_safe s" using sched_reach_wf [OF assms] by simp_all
  have "sched_inv s' \<longleftrightarrow> \<not> breaks e s" if "call_ok e s" "sched_exec im e s = Some s'" for e s'
    using exec_wf [OF w that(1) _ that(2)] breaks_inv [OF w(1) that(1) _ that(2)] sched_wf_inv by blast
  then show ?thesis using sched_wf_inv [OF w(1)] by blast
qed

theorem sched_reach_inv_witness:
  "sched_reach demo_image demo_one \<and> sched_inv demo_one \<and>
    (\<exists>t s'. yield demo_one 0 demo_regs = Some (t, s') \<and> sched_inv s')"
proof -
  have b: "sched_reach demo_image demo_boot" unfolding demo_boot_def by (rule sched_reach.start)
  have x: "sched_exec demo_image (ESpawnUser 0 7 8192 65536 131072 1 0 0) demo_boot = Some demo_one"
    unfolding sched_exec.simps demo_spawn(1) by simp
  have r: "sched_reach demo_image demo_one" by (rule sched_reach.step [OF b _ _ x]) simp_all
  obtain t s' where y: "yield demo_one 0 demo_regs = Some (t, s')"
    by (rule yield_ok [OF demo_spawn(2), of 0 demo_regs]) (simp_all add: demo_regs_def)
  then have "sched_inv s'"
    using sched_reach_inv [OF r] by (auto dest!: spec [of _ "EYield 0 demo_regs"] simp: demo_regs_def)
  then show ?thesis using r y sched_reach_inv [OF r] by blast
qed

section \<open>The order of execution\<close>

text \<open>
  C23. Cooperative scheduling serves the ready threads of a hart level by level, and first come first
  served within a level: picking \<open>n\<close> times returns the first \<open>n\<close> threads of the three queues in a row, and
  leaves the others.
\<close>

theorem dispatch_order:
  assumes "sched_wf s" "n \<le> length (backlog 3 (sc_ready s h))"
  shows "\<exists>s'. serve (\<lambda>s. pick_next s h True) n s = Some (take n (backlog 3 (sc_ready s h)), s') \<and>
    backlog 3 (sc_ready s' h) = drop n (backlog 3 (sc_ready s h))"
proof -
  have "hart_ok s" using sched_wfD(1,4) [OF assms(1)] by (auto simp: hart_ok_def)
  then show ?thesis using rq.serve_backlog [of s n h] assms(2) by blast
qed

lemma next_coop_hd:
  assumes "next_coop s h i" "backlog 3 (sc_ready s h) \<noteq> []"
  shows "i = hd (backlog 3 (sc_ready s h))"
  using assms backlog_Cons [of _ 3 "sc_ready s h"] backlog_empty [of 3 "sc_ready s h"] unfolding next_coop_def by fastforce

lemma set_eq_empty: "(\<And>x. x \<notin> set xs) \<Longrightarrow> xs = []"
  by (cases xs) auto

lemma distinct_single: "distinct xs \<Longrightarrow> set xs = {x} \<Longrightarrow> xs = [x]"
  by (cases xs; cases "tl xs") auto

lemma demo_one_ready: "backlog 3 (sc_ready demo_one 0) = [4]" "sc_ready demo_one 0 1 = [4]"
proof -
  have r: "i \<in> set (sc_ready demo_one 0 p) \<longleftrightarrow> i < 5 \<and> t_state (thr demo_one i) = Ready \<and> t_hart (thr demo_one i) = 0 \<and> eff_prio demo_one i = p" for i p
    using sched_wfD(1) [OF demo_spawn(2)] demo_spawn(3) by (simp add: q_ok_def)
  have run: "t_state (thr demo_one i) = Running" if "i < 4" for i
    using cur_okD(2) [OF demo_spawn(2), of i] that demo_spawn(5) by (simp add: demo_boot_threads)
  have "t_state demo_user = Ready" "t_hart demo_user = 0" "t_proc demo_user = Some 7" "t_prio demo_user = 1"
    by (simp_all add: demo_user_def user_thread_def)
  then have u: "t_state (thr demo_one 4) = Ready" "t_hart (thr demo_one 4) = 0" "eff_prio demo_one 4 = 1"
    by (simp_all add: demo_spawn eff_prio_def)
  have m: "i \<in> set (sc_ready demo_one 0 p) \<longleftrightarrow> i = 4 \<and> p = 1" for i p
  proof (cases "i < 4")
    case True
    then show ?thesis using r [of i p] run [OF True] by simp
  next
    case False
    then have "i < 5 \<longleftrightarrow> i = 4" by auto
    then show ?thesis using r [of i p] u by auto
  qed
  have d: "distinct (sc_ready demo_one 0 p)" for p using sched_wfD(1) [OF demo_spawn(2)] by (simp add: q_ok_def)
  have "sc_ready demo_one 0 0 = []" "sc_ready demo_one 0 2 = []"
    using m [of _ 0] m [of _ 2] by (auto intro!: set_eq_empty)
  moreover show "sc_ready demo_one 0 1 = [4]"
  proof -
    have "set (sc_ready demo_one 0 1) = {4}" using m [of _ 1] by auto
    then show ?thesis using d [of 1] by (rule distinct_single [rotated])
  qed
  ultimately show "backlog 3 (sc_ready demo_one 0) = [4]" by (simp add: backlog_def upt_rec numeral_2_eq_2)
qed

lemma demo_running:
  "sched_wf demo_run" "sc_current demo_run 0 = 4" "sc_idle demo_run 0 = 0" "t_ipc_wake (thr demo_run 4) = None" "nthreads demo_run = 5"
  "t_proc (thr demo_run 4) = Some 7" "t_state (thr demo_run 4) = Running"
proof -
  have "pre_wf demo_one 0"
    using sched_wfD [OF demo_spawn(2)] cur_okD [OF demo_spawn(2), of 0] demo_spawn(5,6)
    by (simp add: pre_wf_def demo_boot_threads)
  then have "sched_wf (set_current (picked demo_one 0 1 ([] @ []) 4) 0 4)"
    by (rule picked_wf) (simp add: demo_one_ready(2) [simplified])
  then show "sched_wf demo_run" by (simp add: demo_run_def)
  show "sc_current demo_run 0 = 4" "sc_idle demo_run 0 = 0" "t_ipc_wake (thr demo_run 4) = None" "nthreads demo_run = 5"
    "t_proc (thr demo_run 4) = Some 7" "t_state (thr demo_run 4) = Running"
    by (simp_all add: demo_run_def thr_picked demo_spawn demo_boot_threads, simp_all add: demo_user_def user_thread_def)
qed

theorem dispatch_order_witness:
  "\<exists>s'. serve (\<lambda>s. pick_next s 0 True) 1 demo_one = Some ([4], s') \<and> backlog 3 (sc_ready s' 0) = []"
  using dispatch_order [OF demo_spawn(2), of 1 0] by (simp add: demo_one_ready)

text \<open>
  \<^verbatim>\<open>yield_\<close> returns on every well-formed state: the calling thread goes to the end of its level, the
  first thread in dispatch order runs next in its own address space, the registers of the caller are
  saved, and the stacks of exited threads are released.
\<close>

theorem yield_spec:
  assumes "sched_wf s" "h < MAX_HARTS" "length (c_s regs) = 12"
  shows "\<exists>t s'. yield s h regs = Some (t, s') \<and> sched_wf s' \<and>
    sc_current s' h = hd (backlog 3 ((sc_ready s h)(eff_prio s (sc_current s h) := sc_ready s h (eff_prio s (sc_current s h)) @ [sc_current s h]))) \<and>
    st_next t = sc_current s' h \<and> sc_satp s' h = satp_of (t_root (thr s (sc_current s' h))) \<and>
    t_ctx (thr s' (sc_current s h)) = regs \<and> sc_reaper s' = []"
proof -
  have h: "h < 4" using assms(2) by simp
  obtain t s' v where y: "yield s h regs = Some (t, s')" "sched_wf s'" "next_coop v h (sc_current s' h)"
    "sc_ready v h = (sc_ready s h)(eff_prio s (sc_current s h) := sc_ready s h (eff_prio s (sc_current s h)) @ [sc_current s h])"
    "sc_satp s' h = satp_of (t_root (thr s (sc_current s' h)))" "t_ctx (thr s' (sc_current s h)) = regs" "sc_reaper s' = []"
    "st_next t = sc_current s' h"
    by (rule yield_ok [OF assms(1) h assms(3)]) (rule that; assumption)
  have "eff_prio s (sc_current s h) < 3" by (rule thread_okD(5) [OF sched_wfD(4) [OF assms(1)] cur_okD(1) [OF assms(1) h]])
  then have "backlog 3 (sc_ready v h) \<noteq> []" unfolding backlog_empty y(4) by auto
  then show ?thesis using y next_coop_hd [OF y(3)] by simp
qed

theorem yield_spec_witness:
  "\<exists>t s'. yield demo_one 0 demo_regs = Some (t, s') \<and> sched_wf s' \<and> sc_reaper s' = []"
  using yield_spec [OF demo_spawn(2), of 0 demo_regs] by (auto simp: demo_regs_def)

section \<open>Priority donation\<close>

lemma eff_prio_append:
  "eff_prio (s\<lparr>sc_donations := sc_donations s @ [d]\<rparr>) i =
     (if in_proc s (d_peer d) i then min (eff_prio s i) (d_prio d) else eff_prio s i)"
  by (auto simp: eff_prio_def in_proc_def min_def split: option.split)

lemma register_new:
  assumes w: "sched_wf s" and i: "i < nthreads s" and new: "\<forall>e\<in>set (sc_donations s). d_donor e \<noteq> i"
    and room: "length (sc_donations s) < 64"
  shows "\<exists>s'. register_donation s i p = Some s' \<and>
    same_but_queues (s\<lparr>sc_donations := sc_donations s @ [\<lparr>d_donor = i, d_peer = p, d_prio = eff_prio s i\<rparr>]\<rparr>) s' \<and> sched_wf s'"
proof -
  let ?d = "\<lparr>d_donor = i, d_peer = p, d_prio = eff_prio s i\<rparr>"
  have "\<exists>s'. requeue_procs (s\<lparr>sc_donations := sc_donations s @ [?d]\<rparr>) [p] = Some s' \<and>
      same_but_queues (s\<lparr>sc_donations := sc_donations s @ [?d]\<rparr>) s' \<and> sched_wf s'"
    by (rule donations_repair [OF w]) (use sched_wfD(2) [OF w] i room in \<open>auto simp: don_ok_def eff_prio_append in_proc_def\<close>)
  moreover have "register_donation s i p = requeue_procs (s\<lparr>sc_donations := sc_donations s @ [?d]\<rparr>) [p]"
    using i new room unfolding requeue_procs_single by (auto simp: register_donation_def Let_def)
  ultimately show ?thesis by simp
qed

text \<open>
  C25. Priority inheritance. When thread \<open>i\<close> starts to wait for process \<open>p\<close>, every thread of \<open>p\<close> has at least
  the effective priority of \<open>i\<close> (lower numbers are better) and no other thread changes; the ready queues
  follow, by well-formedness. Withdrawing the donation gives every thread back its old effective priority.
\<close>

theorem donation_roundtrip:
  assumes "sched_wf s" "i < nthreads s" "\<forall>e\<in>set (sc_donations s). d_donor e \<noteq> i" "length (sc_donations s) < MAX_DONATIONS"
  shows "\<exists>s1 s2. donate_on_block s i p = Some s1 \<and> revoke_donations s1 i = Some s2 \<and> sched_wf s1 \<and> sched_wf s2 \<and>
    sc_threads s1 = sc_threads s \<and> sc_threads s2 = sc_threads s \<and>
    (\<forall>j. eff_prio s1 j = (if in_proc s p j then min (eff_prio s j) (eff_prio s i) else eff_prio s j)) \<and>
    (\<forall>j. eff_prio s2 j = eff_prio s j) \<and> sc_donations s2 = sc_donations s"
proof -
  let ?d = "\<lparr>d_donor = i, d_peer = p, d_prio = eff_prio s i\<rparr>"
  obtain s1 where s1: "register_donation s i p = Some s1" "sched_wf s1"
    "same_but_queues (s\<lparr>sc_donations := sc_donations s @ [?d]\<rparr>) s1"
    using register_new [OF assms(1-3)] assms(4) by auto
  note d1 = same_but_queuesD [OF s1(3)]
  obtain s2 where s2: "revoke_donations s1 i = Some s2" "sched_wf s2"
    "same_but_queues (s1\<lparr>sc_donations := filter (\<lambda>d. d_donor d \<noteq> i) (sc_donations s1)\<rparr>) s2"
    using revoke_donations_ok [OF s1(2)] by blast
  note d2 = same_but_queuesD [OF s2(3)]
  have "filter (\<lambda>d. d_donor d \<noteq> i) (sc_donations s) = sc_donations s" using assms(3) by (simp add: filter_id_conv)
  then have ds: "sc_donations s2 = sc_donations s" using d1(2) d2(2) by simp
  have "eff_prio s2 j = eff_prio s j" for j by (rule eff_prio_cong) (use ds d1(1) d2(1) in simp_all)
  moreover have "eff_prio s1 j = (if in_proc s p j then min (eff_prio s j) (eff_prio s i) else eff_prio s j)" for j
    using d1(11) eff_prio_append [of s ?d j] by simp
  ultimately show ?thesis using s1(1,2) s2(1,2) ds d1(1) d2(1) by (simp add: donate_on_block_def)
qed

theorem donation_roundtrip_witness:
  "\<exists>s1 s2. donate_on_block demo_one 4 9 = Some s1 \<and> revoke_donations s1 4 = Some s2 \<and> sched_wf s2"
  using donation_roundtrip [OF demo_spawn(2), of 4 9] by (auto simp: demo_spawn)

section \<open>Wake-ups are not lost\<close>

lemma apply_wake_eq:
  assumes "length f = 36" "f ! 33 + 4 < 2 ^ 64" "length m = 5"
  shows "apply_wake f (WakeMsg m) = Some (msg_frame f 0 (Some m))"
  using msg_frame_eq [of f "Some m" 0] assms by (simp add: apply_wake_def)

text \<open>
  C26. A message that reaches a receiver before it has blocked is not lost: the receiver does not block, and
  the frame it returns to user mode with is the very frame it would have been resumed with had the
  message come after it had blocked. That frame has status 0 and the five words in a0 to a5, a
  program counter behind the ecall, and is otherwise unchanged.
\<close>

theorem ipc_wake_not_lost:
  assumes "sched_wf s" "h < MAX_HARTS" "sc_current s h \<noteq> sc_idle s h" "t_ipc_wake (thr s (sc_current s h)) = None"
    "length frame = FRAME_WORDS" "frame ! FRAME_SEPC + 4 < USIZE_LIMIT" "length m = MSG_WORDS" "length (c_s regs) = 12"
  shows "\<exists>s1 s2 t1 t2 r t f. ipc_wake_with_msg s g (sc_current s h) (Some m) = Some (None, s1) \<and>
    block_user_from_trap s1 h frame regs = Some (Inl f, s2) \<and> sched_wf s2 \<and> sc_current s2 h = sc_current s h \<and>
    block_user_from_trap s h frame regs = Some (Inr t, t1) \<and>
    ipc_wake_with_msg t1 g (sc_current s h) (Some m) = Some (r, t2) \<and> sched_wf t2 \<and>
    t_state (thr t2 (sc_current s h)) = Ready \<and> t_frame_valid (thr t2 (sc_current s h)) \<and>
    t_frame (thr t2 (sc_current s h)) = f \<and>
    f = (take X_A0 frame @ 0 # m @ drop (X_A1 + MSG_WORDS) frame)[FRAME_SEPC := frame ! FRAME_SEPC + 4]"
proof -
  let ?c = "sc_current s h"
  have h: "h < 4" and fl: "length frame = 36" and pc: "frame ! 33 + 4 < 2 ^ 64" and ml: "length m = 5"
    using assms(2,5,6,7) by simp_all
  note c = cur_okD [OF assms(1) h]
  let ?f = "msg_frame frame 0 (Some m)"
  have mb: "msg_buf (Some m) = m" using ml by (simp add: msg_buf_def)
  have ft: "?f = (take X_A0 frame @ 0 # m @ drop (X_A1 + MSG_WORDS) frame)[FRAME_SEPC := frame ! FRAME_SEPC + 4]"
  proof -
    have "take 10 frame = take 9 frame @ [frame ! 9]" using fl take_Suc_conv_app_nth [of 9 frame] by simp
    then have "take 10 (frame[9 := 0]) = take 9 frame @ [0]" using fl by (simp add: take_update_swap list_update_append)
    then show ?thesis using fl ml by (simp add: msg_frame_def Let_def)
  qed
  have m5: "\<forall>x. Some m = Some x \<longrightarrow> length x \<le> 5" using ml by simp
  let ?s1 = "upd_thread s ?c (\<lambda>t. t\<lparr>t_ipc_msg := Some m, t_ipc_wake := Some (WakeMsg m)\<rparr>)"
  have a1: "ipc_wake_with_msg s g ?c (Some m) = Some (None, ?s1)" using c mb by (simp add: ipc_wake_with_msg_def)
  have w1: "sched_wf ?s1" by (rule upd_wf [OF assms(1) c(1)]) (use thread_okD [OF sched_wfD(4) [OF assms(1)] c(1)] in simp_all)
  let ?u = "upd_thread ?s1 ?c (\<lambda>t. t\<lparr>t_ipc_wake := None, t_state := Running\<rparr>)"
  have "sched_wf (upd_thread ?s1 (sc_current ?s1 h) (\<lambda>t. t\<lparr>t_ipc_wake := None, t_state := Running\<rparr>))"
    by (rule cur_upd_wf [OF w1 h]) (use cur_okD [OF w1 h] thread_okD [OF sched_wfD(4) [OF w1] cur_okD(1) [OF w1 h]] in simp_all)
  then have wu: "sched_wf ?u" by simp
  obtain s2 where s2: "revoke_donations ?u ?c = Some s2" "sched_wf s2" "same_but_queues (?u\<lparr>sc_donations := filter (\<lambda>d. d_donor d \<noteq> ?c) (sc_donations ?u)\<rparr>) s2"
    using revoke_donations_ok [OF wu] by blast
  have a2: "block_user_from_trap ?s1 h frame regs = Some (Inl ?f, s2)"
    using c s2(1) apply_wake_eq [OF fl pc ml] by (simp add: block_user_from_trap_def Let_def thr_upd_thread)
  have a3: "sc_current s2 h = ?c" using same_but_queuesD(3) [OF s2(3)] by simp
  obtain t t1 where t1: "block_user_from_trap s h frame regs = Some (Inr t, t1)" "sched_wf t1" "nthreads t1 = nthreads s"
    "thr t1 ?c = (thr s ?c)\<lparr>t_frame := frame, t_frame_valid := True, t_ctx_valid := False, t_woken := False, t_state := Blocked, t_ctx := regs\<rparr>"
    by (rule block_user_ok [OF assms(1) h assms(3,8) fl assms(4)])
  have b: "t_state (thr t1 ?c) = Blocked" "frame_pc_ok t1 ?c" using t1(4) pc by (simp_all add: frame_pc_ok_def)
  have ct: "?c < nthreads t1" and bp: "t_state (thr t1 ?c) = Blocked \<longrightarrow> frame_pc_ok t1 ?c" using c(1) t1(3) b by simp_all
  obtain r t2 where t2: "ipc_wake_with_msg t1 g ?c (Some m) = Some (r, t2)" "sched_wf t2"
    "t_state (thr t1 ?c) = Blocked \<Longrightarrow> thr t2 ?c = (thr t1 ?c)\<lparr>t_state := Ready, t_frame := msg_frame (t_frame (thr t1 ?c)) 0 (Some m),
       t_ipc_msg := map_option (\<lambda>x. msg_buf (Some x)) (Some m), t_ipc_wake := None\<rparr>"
    by (rule ipc_wake_with_msg_ok [OF t1(2) ct m5 bp]) (rule that; assumption)
  then show ?thesis using a1 a2 s2(2) a3 t1(1,4) t2 b(1) ft
    by (intro exI [of _ ?s1] exI [of _ s2] exI [of _ t1] exI [of _ t2] exI [of _ r] exI [of _ t] exI [of _ ?f]) simp
qed

theorem ipc_wake_not_lost_witness:
  "\<exists>s1 s2 f. ipc_wake_with_msg demo_run 1 4 (Some [1, 2, 3, 4, 5]) = Some (None, s1) \<and>
    block_user_from_trap s1 0 (replicate 36 0) demo_regs = Some (Inl f, s2) \<and>
    f = (replicate 9 0 @ 0 # [1, 2, 3, 4, 5] @ replicate 21 0)[33 := 4]"
  using ipc_wake_not_lost [OF demo_running(1), of 0 "replicate 36 0" "[1, 2, 3, 4, 5]" demo_regs 1]
  by (auto simp: demo_running demo_regs_def)

end
