(* ===== verification/Sched_Threads.thy ===== *)
theory Sched_Threads
  imports Sched_Main
begin

text \<open>
  Preemption, the life of threads, and the termination of a process.
\<close>

section \<open>The timer tick\<close>

lemma preemptable_ticks [simp]:
  "other_preemptable (set_ticks s h n) g k = other_preemptable s g k" "eff_prio (set_ticks s h n) i = eff_prio s i"
  by (simp_all add: other_preemptable_def preemptable_def) (rule eff_prio_cong; simp)

lemma on_tick_idle:
  assumes w: "sched_wf s" and h: "h < 4"
    and k: "(sc_ticks s h + 1) mod USIZE_LIMIT < SLICE_TICKS \<and> \<not> other_preemptable s h (eff_prio s (sc_current s h)) \<or> \<not> other_preemptable s h PRIO_LEVELS"
  shows "\<exists>n. on_tick im s h frame = Some (None, set_ticks s h n)"
proof -
  define u where "u = set_ticks s h ((sc_ticks s h + 1) mod USIZE_LIMIT)"
  have u: "sc_current u h < nthreads u" "sc_ticks u h = (sc_ticks s h + 1) mod USIZE_LIMIT" "eff_prio u (sc_current u h) = eff_prio s (sc_current s h)"
    "other_preemptable u h n = other_preemptable s h n" "set_ticks u h n = set_ticks s h n" for n
    using cur_okD(1) [OF w h] by (simp_all add: u_def, simp_all add: set_ticks_def)
  consider "(sc_ticks u h < SLICE_TICKS \<and> \<not> other_preemptable u h (eff_prio u (sc_current u h))) = True"
    | "(sc_ticks u h < SLICE_TICKS \<and> \<not> other_preemptable u h (eff_prio u (sc_current u h))) = False"
      "other_preemptable (set_ticks u h 0) h PRIO_LEVELS = False"
    using k unfolding u preemptable_ticks by argo
  then show ?thesis
  proof cases
    case 1
    have "on_tick im s h frame = Some (None, u)"
      unfolding on_tick_def Let_def u_def [symmetric] 1 if_True using u(1) by simp
    then show ?thesis unfolding u_def by blast
  next
    case 2
    have "on_tick im s h frame = Some (None, set_ticks u h 0)"
      unfolding on_tick_def Let_def u_def [symmetric] 2 if_False using u(1) by simp
    then show ?thesis unfolding u(5) by blast
  qed
qed

lemma next_preempt_hd:
  assumes "next_preempt v h i"
  shows "i = hd (filter (\<lambda>j. eligible False (thr v j)) (backlog 3 (sc_ready v h)))"
proof -
  obtain p xs ys where p: "p < 3" "sc_ready v h p = xs @ i # ys" "none_eligible v False xs" "eligible False (thr v i)"
    "\<forall>l<p. none_eligible v False (sc_ready v h l)" using assms by (auto simp: next_preempt_def)
  show ?thesis by (rule backlog_first [where q = "sc_ready v h" and p = p and xs = xs and ys = ys, symmetric]) (use p in \<open>auto simp: none_eligible_def\<close>)
qed

text \<open>
  C27. A timer tick. The running thread goes on if its time slice of ten ticks is not used up and no resumable
  thread of a better effective priority waits, or if no resumable thread waits at all. Otherwise it
  joins the end of its level with the interrupted frame saved, and the first resumable thread in
  dispatch order runs in its own address space. If a resumable thread of a better priority waits,
  the thread that runs next has a better priority, at once.
\<close>

theorem on_tick_spec:
  assumes "sched_wf s" "h < MAX_HARTS" "length frame = FRAME_WORDS"
  shows "\<exists>r s'. on_tick im s h frame = Some (r, s') \<and> sched_wf s' \<and>
    (if (sc_ticks s h + 1) mod USIZE_LIMIT < SLICE_TICKS \<and> \<not> other_preemptable s h (eff_prio s (sc_current s h)) \<or>
        \<not> other_preemptable s h PRIO_LEVELS
     then r = None \<and> sc_current s' = sc_current s \<and> sc_threads s' = sc_threads s \<and> sc_ready s' = sc_ready s
     else sc_current s' h = hd (filter (\<lambda>i. i = sc_current s h \<or> eligible False (thr s i))
         (backlog 3 ((sc_ready s h)(eff_prio s (sc_current s h) := sc_ready s h (eff_prio s (sc_current s h)) @ [sc_current s h])))) \<and>
       r = (if sc_current s' h = sc_current s h then None else Some (sc_current s' h)) \<and>
       (r \<noteq> None \<longrightarrow> sc_satp s' h = satp_of (t_root (thr s (sc_current s' h))) \<and> t_frame (thr s' (sc_current s h)) = frame) \<and>
       (other_preemptable s h (eff_prio s (sc_current s h)) \<longrightarrow> eff_prio s (sc_current s' h) < eff_prio s (sc_current s h)))"
proof (cases "(sc_ticks s h + 1) mod USIZE_LIMIT < SLICE_TICKS \<and> \<not> other_preemptable s h (eff_prio s (sc_current s h)) \<or>
    \<not> other_preemptable s h PRIO_LEVELS")
  case True
  have h: "h < 4" using assms(2) by simp
  obtain n where n: "on_tick im s h frame = Some (None, set_ticks s h n)" using on_tick_idle [OF assms(1) h True] by blast
  show ?thesis unfolding if_P [OF True] using n assms(1) by simp
next
  case False
  have h: "h < 4" and fr: "length frame = 36" using assms(2,3) by simp_all
  let ?c = "sc_current s h" and ?e = "eff_prio s (sc_current s h)"
  define u where "u = set_ticks s h ((sc_ticks s h + 1) mod USIZE_LIMIT)"
  have tk: "sc_ticks u h = (sc_ticks s h + 1) mod USIZE_LIMIT" "sc_current u = sc_current s" by (simp_all add: u_def, simp add: set_ticks_def)
  have go: "\<not> (sc_ticks u h < SLICE_TICKS \<and> \<not> other_preemptable u h (eff_prio u (sc_current u h)))"
    "other_preemptable (set_ticks u h 0) h PRIO_LEVELS"
    using False unfolding tk unfolding u_def preemptable_ticks by argo+
  obtain v r s' where t: "on_tick im s h frame = Some (r, s')" "sched_wf s'" "next_preempt v h (sc_current s' h)"
    "sc_ready v = (sc_ready s)(h := (sc_ready s h)(?e := sc_ready s h ?e @ [?c]))"
    "\<And>j. j < nthreads s \<Longrightarrow> thr v j = (if j = ?c then (thr s j)\<lparr>t_frame := frame, t_frame_valid := True, t_ctx_valid := False, t_state := Ready\<rparr> else thr s j)"
    "r = (if sc_current s' h = ?c then None else Some (sc_current s' h))"
    "r \<noteq> None \<Longrightarrow> sc_satp s' h = satp_of (t_root (thr s (sc_current s' h))) \<and> t_frame (thr s' ?c) = frame"
    "sc_current s' h < nthreads s"
    by (rule on_tick_preempt_ok [OF assms(1) h fr go u_def, where im = im]) (rule that; assumption)
  note q = sched_wfD(1) [OF assms(1)]
  note c = cur_okD [OF assms(1) h]
  have live: "j < nthreads s" if "j \<in> set (sc_ready v h l)" for j l
    using that q_okD(1) [OF q, of j h l] c(1) unfolding t(4) by (auto split: if_splits)
  have el: "eligible False (thr v j) \<longleftrightarrow> j = ?c \<or> eligible False (thr s j)" if "j < nthreads s" for j
    using t(5) [OF that] by (simp add: eligible_def)
  have "filter (\<lambda>j. eligible False (thr v j)) (backlog 3 (sc_ready v h)) = filter (\<lambda>j. j = ?c \<or> eligible False (thr s j)) (backlog 3 (sc_ready v h))"
    by (rule filter_cong) (use el live in \<open>auto simp: backlog_def\<close>)
  then have hd: "sc_current s' h = hd (filter (\<lambda>j. j = ?c \<or> eligible False (thr s j)) (backlog 3 (sc_ready v h)))"
    using next_preempt_hd [OF t(3)] by simp
  have lt: "eff_prio s (sc_current s' h) < ?e" if better: "other_preemptable s h ?e"
  proof -
    obtain p xs ys where p: "p < 3" "sc_ready v h p = xs @ sc_current s' h # ys" "\<forall>l<p. none_eligible v False (sc_ready v h l)"
      using t(3) by (auto simp: next_preempt_def)
    obtain l i where i: "l < ?e" "i \<in> set (sc_ready s h l)" "i \<noteq> ?c" "preemptable s i"
      using better by (auto simp: other_preemptable_def)
    have "i \<in> set (sc_ready v h l)" "eligible False (thr v i)"
      using i t(4) el q_okD(1) [OF q i(2)] by (auto simp: preemptable_def)
    then have "p \<le> l" using p(3) by (meson none_eligible_def not_less)
    moreover have "sc_current s' h \<in> set (sc_ready s h p)" using p(2) i(1) \<open>p \<le> l\<close> unfolding t(4) by (auto split: if_splits)
    then have "eff_prio s (sc_current s' h) = p" by (rule q_okD(5) [OF q])
    ultimately show ?thesis using i(1) by simp
  qed
  show ?thesis unfolding if_not_P [OF False] using t(1,2,6,7) hd lt unfolding t(4) by (intro exI [of _ r] exI [of _ s']) simp
qed

theorem on_tick_spec_witness:
  "\<exists>r s'. on_tick demo_image demo_one 0 (replicate 36 0) = Some (r, s') \<and> sched_wf s' \<and> sc_current s' 0 = 4"
proof -
  have c: "sc_current demo_one 0 = 0" by (simp add: demo_spawn demo_boot_threads)
  have "t_proc (thr demo_one 0) = None" using idle_okD(3) [OF demo_spawn(2), of 0] by (simp add: demo_spawn demo_boot_threads)
  moreover have "t_prio (thr demo_one 0) = 2"
    using demo_spawn(8) by (simp add: demo_boot_threads idle_thread_def)
  ultimately have e: "eff_prio demo_one 0 = 2" by (simp add: eff_prio_def)
  have p: "preemptable demo_one 4" "eligible False (thr demo_one 4)"
    by (simp_all add: preemptable_def eligible_def demo_spawn demo_user_def user_thread_def)
  have r1: "4 \<in> set (sc_ready demo_one 0 1)" using demo_one_ready(2) by simp
  have op: "other_preemptable demo_one 0 n" if "1 < n" for n
    unfolding other_preemptable_def c
  proof (rule bexI)
    show "\<exists>i\<in>set (sc_ready demo_one 0 1). i \<noteq> 0 \<and> preemptable demo_one i" using p(1) r1 by (intro bexI [of _ 4]) simp_all
    show "1 \<in> set [0..<n]" using that by simp
  qed
  have b: "other_preemptable demo_one 0 (eff_prio demo_one 0)" "other_preemptable demo_one 0 PRIO_LEVELS"
    by (rule op; simp add: e)+
  have none: "sc_ready demo_one 0 0 = []" "sc_ready demo_one 0 2 = []"
    using demo_one_ready by (auto simp: backlog_def upt_rec numeral_2_eq_2 append_eq_Cons_conv)
  have "backlog 3 ((sc_ready demo_one 0)(2 := sc_ready demo_one 0 2 @ [0])) = [4, 0]"
    using demo_one_ready(2) none by (simp add: backlog_def upt_rec numeral_2_eq_2)
  then have "hd (filter (\<lambda>i. i = 0 \<or> eligible False (thr demo_one i)) (backlog 3 ((sc_ready demo_one 0)(2 := sc_ready demo_one 0 2 @ [0])))) = 4"
    using p(2) by simp
  then show ?thesis using on_tick_spec [OF demo_spawn(2), of 0 "replicate 36 0" demo_image] b unfolding c e by auto
qed

section \<open>Creating a thread\<close>

text \<open>
  \<^verbatim>\<open>spawn_user\<close> fails exactly if 64 threads are alive. Otherwise the new thread takes a slot no live thread
  uses, is Ready on the given hart with a user-mode frame that starts at the entry point with the
  given stack and arguments, and no other thread changes.
\<close>

theorem spawn_user_spec:
  assumes "sched_wf s" "h < MAX_HARTS"
  shows "(spawn_user im s h pid root pc sp prio argc argv = None \<longleftrightarrow>
      nthreads s = MAX_THREADS \<and> (\<forall>i<nthreads s. t_state (thr s i) \<noteq> Exited)) \<and>
    (\<forall>i s'. spawn_user im s h pid root pc sp prio argc argv = Some (i, s') \<longrightarrow>
      sched_wf s' \<and> (i < nthreads s \<longrightarrow> t_state (thr s i) = Exited) \<and> thr s' i = user_thread im h pid root pc sp prio argc argv \<and>
      (\<forall>j<nthreads s. j \<noteq> i \<longrightarrow> thr s' j = thr s j) \<and> i \<in> set (sc_ready s' h (eff_prio s' i)) \<and> \<not> sc_kill_req s' i)"
proof -
  let ?t = "user_thread im h pid root pc sp prio argc argv"
  have h: "h < 4" using assms(2) by simp
  have t: "thread_ok ?t" "t_state ?t = Ready" "t_hart ?t = h" using user_thread_ok [OF h] by (simp_all, simp_all add: user_thread_def)
  have n: "nthreads s \<le> 64" using sched_wfD(4) [OF assms(1)] by (simp add: t_ok_def)
  have fr: "i \<in> set (sc_free s) \<longleftrightarrow> i < nthreads s \<and> t_state (thr s i) = Exited" for i
    using sched_wfD(7) [OF assms(1)] by (simp add: free_ok_def)
  have full: "nthreads s = MAX_THREADS \<and> (\<forall>i<nthreads s. t_state (thr s i) \<noteq> Exited) \<longleftrightarrow> \<not> (sc_free s \<noteq> [] \<or> nthreads s < 64)"
    using fr [of "hd (sc_free s)"] fr n by (cases "sc_free s") auto
  show ?thesis
  proof (cases "sc_free s \<noteq> [] \<or> nthreads s < 64")
    case True
    obtain i s' where i: "insert_thread s ?t = Some (i, s')" "sched_wf s'" "i < nthreads s'" "thr s' i = ?t"
      "i < nthreads s \<Longrightarrow> t_state (thr s i) = Exited" "\<forall>j<nthreads s. j \<noteq> i \<longrightarrow> thr s' j = thr s j" "\<not> sc_kill_req s' i"
      by (rule insert_thread_ok [OF assms(1) True t(1,2)]) (rule that; assumption)
    have "i \<in> set (sc_ready s' h (eff_prio s' i))" using sched_wfD(1) [OF i(2)] i(3,4) t unfolding q_ok_def by simp
    then show ?thesis using i full True by (simp add: spawn_user_def)
  next
    case False
    then have "insert_thread s ?t = None" by (simp add: insert_thread_def)
    then show ?thesis using full False by (simp add: spawn_user_def)
  qed
qed

theorem spawn_user_spec_witness:
  "\<exists>s'. spawn_user demo_image demo_boot 0 7 8192 65536 131072 1 0 0 = Some (4, s') \<and> sched_wf s' \<and> \<not> sc_kill_req s' 4"
  using spawn_user_spec [OF demo_boot_wf, of 0 demo_image 7 8192 65536 131072 1 0 0] demo_spawn(1) by simp

section \<open>Terminating a process\<close>

text \<open>
  C29. The scheduler's part of \<^verbatim>\<open>kill_process\<close>: every thread of the process is Exited afterwards, or is the
  caller, or runs on another hart, has its kill request set and is in the list of harts to interrupt.
  Threads of other processes do not change, and no donation by or to the process is left. The
  scheduler stays well-formed exactly if no thread of the process had exited before.
\<close>

theorem kill_threads_spec:
  assumes "sched_wf s" "h < MAX_HARTS"
  shows "\<exists>force s'. kill_threads s h pid = Some (in_proc s pid (sc_current s h), force, s') \<and>
    (sched_wf s' \<longleftrightarrow> (\<forall>i<nthreads s. in_proc s pid i \<longrightarrow> i \<noteq> sc_current s h \<longrightarrow> t_state (thr s i) \<noteq> Exited)) \<and>
    (\<forall>i<nthreads s. in_proc s pid i \<longrightarrow> i = sc_current s h \<or> t_state (thr s' i) = Exited \<or>
       t_state (thr s i) = Running \<and> sc_kill_req s' i \<and> (i, t_hart (thr s i)) \<in> set force) \<and>
    (\<forall>i<nthreads s. \<not> in_proc s pid i \<longrightarrow> thr s' i = thr s i) \<and>
    (\<forall>d\<in>set (sc_donations s'). d_peer d \<noteq> pid \<and> \<not> in_proc s pid (d_donor d))"
proof -
  have h: "h < 4" using assms(2) by simp
  have v: "i \<in> set (victims s h pid) \<longleftrightarrow> i < nthreads s \<and> in_proc s pid i \<and> i \<noteq> sc_current s h" for i
    by (auto simp: victims_def)
  obtain s' where k: "kill_threads s h pid = Some (t_proc (thr s (sc_current s h)) = Some pid,
      map (\<lambda>i. (i, t_hart (thr s i))) (filter (\<lambda>i. t_state (thr s i) = Running) (victims s h pid)), s')"
    "\<And>j. j < nthreads s \<Longrightarrow> thr s' j = (if j \<in> set (victims s h pid) \<and> t_state (thr s j) \<noteq> Running then killed (thr s j) else thr s j)"
    "sc_donations s' = filter (\<lambda>d. d_peer d \<noteq> pid \<and> d_donor d \<notin> set (victims s h pid @ [sc_current s h])) (sc_donations s)"
    "sc_kill_req s' = (\<lambda>i. sc_kill_req s i \<or> i \<in> set (victims s h pid) \<and> t_state (thr s i) = Running)"
    by (rule kill_threads_ok [OF assms(1) h, of pid]) (rule that; assumption)
  have wf: "sched_wf s' \<longleftrightarrow> (\<forall>i<nthreads s. in_proc s pid i \<longrightarrow> i \<noteq> sc_current s h \<longrightarrow> t_state (thr s i) \<noteq> Exited)"
    unfolding kill_wf_iff(1) [OF assms(1) h k(1)] using v by blast
  have "\<not> in_proc s pid (d_donor d)" "d_peer d \<noteq> pid" if "d \<in> set (sc_donations s')" for d
    using that don_okD(2) [OF sched_wfD(2) [OF assms(1)], of d] v [of "d_donor d"] unfolding k(3) by auto
  moreover have "i = sc_current s h \<or> t_state (thr s' i) = Exited \<or> t_state (thr s i) = Running \<and> sc_kill_req s' i \<and>
      (i, t_hart (thr s i)) \<in> set (map (\<lambda>i. (i, t_hart (thr s i))) (filter (\<lambda>i. t_state (thr s i) = Running) (victims s h pid)))"
    if "i < nthreads s" "in_proc s pid i" for i
    using that v [of i] k(2) [OF that(1)] k(4) by (auto simp: killed_def)
  moreover have "thr s' i = thr s i" if "i < nthreads s" "\<not> in_proc s pid i" for i
    using that v [of i] k(2) by simp
  ultimately show ?thesis using k(1) wf unfolding in_proc_def [of s pid "sc_current s h"] by blast
qed

theorem kill_threads_spec_witness:
  "\<exists>force s'. kill_threads demo_run 1 7 = Some (in_proc demo_run 7 (sc_current demo_run 1), force, s') \<and> sched_wf s'"
proof -
  have "t_state (thr demo_run i) \<noteq> Exited" if "i < nthreads demo_run" "in_proc demo_run 7 i" for i
  proof (cases "i = 4")
    case True
    then show ?thesis using demo_running(7) by simp
  next
    case False
    then have i: "i < 4" using that(1) demo_running(5) by simp
    then have "thr demo_run i = thr demo_boot i" using demo_spawn(3,8) by (simp add: demo_run_def thr_picked)
    moreover have "t_proc (thr demo_boot i) = None"
      using idle_okD(3) [OF demo_boot_wf, of i] i by (simp add: demo_boot_threads(3))
    ultimately show ?thesis using that(2) by (simp add: in_proc_def)
  qed
  then show ?thesis using kill_threads_spec [OF demo_running(1), of 1 7] by auto
qed

text \<open>
  A thread stopped on another hart: \<^verbatim>\<open>force_kill_current\<close> ends the thread whose kill request is set, clears
  the request and runs another thread in that thread's address space, if the hart's idle thread is
  not waiting in a ready queue.
\<close>

theorem force_kill_spec:
  assumes "sched_wf s" "h < MAX_HARTS" "sc_kill_req s (sc_current s h)" "sc_current s h \<noteq> sc_idle s h"
    "t_state (thr s (sc_idle s h)) = Running"
  shows "\<exists>i s'. force_kill_current im s h = Some (Some i, s') \<and> sched_wf s' \<and> sc_current s' h = i \<and> i \<noteq> sc_current s h \<and>
    t_state (thr s' (sc_current s h)) = Exited \<and> \<not> sc_kill_req s' (sc_current s h) \<and> sc_satp s' h = satp_of (t_root (thr s i))"
proof -
  have h: "h < 4" using assms(2) by simp
  obtain i s' where f: "force_kill_current im s h = Some (Some i, s')" "sched_wf s'" "sc_current s' h = i"
    "t_state (thr s' (sc_current s h)) = Exited" "\<not> sc_kill_req s' (sc_current s h)" "sc_satp s' h = satp_of (t_root (thr s i))"
    by (rule force_kill_ok [OF assms(1) h assms(3,4) disjI1 [OF assms(5)]])
  then show ?thesis using cur_okD(2) [OF f(2) h] by auto
qed

theorem force_kill_spec_witness:
  "\<exists>i s'. force_kill_current demo_image (set_kill_req demo_run 4 True) 0 = Some (Some i, s') \<and> t_state (thr s' 4) = Exited"
proof -
  let ?s = "set_kill_req demo_run 4 True"
  have "t_state (thr demo_run 0) = Running"
    using demo_spawn(3,8) by (simp add: demo_run_def thr_picked demo_boot_threads idle_thread_def)
  then have "t_state (thr ?s (sc_idle ?s 0)) = Running" by (simp add: demo_running)
  moreover have "sc_kill_req ?s (sc_current ?s 0)" by (simp add: demo_running set_kill_req_def)
  moreover have "sched_wf ?s" by (simp add: demo_running)
  ultimately show ?thesis using force_kill_spec [of ?s 0 demo_image] by (auto simp: demo_running)
qed

section \<open>A defect: a slot reused twice\<close>

lemma kill_no_donations:
  assumes "sc_donations s = []" "sc_current s h < nthreads s" "victims s h pid = [i]" "t_state (thr s i) \<noteq> Running"
  shows "kill_threads s h pid = Some (in_proc s pid (sc_current s h), [],
    push_free (upd_thread (reap_stack (s\<lparr>sc_ready := (\<lambda>h p. filter (\<lambda>j. j \<noteq> i) (sc_ready s h p))\<rparr>) i) i
      (\<lambda>t. t\<lparr>t_state := Exited, t_frame_valid := False, t_ctx_valid := False\<rparr>)) i)"
  using assms
  by (simp add: kill_threads_def Let_def victims_def in_proc_def revoke_donations_for_proc_def revoke_donations_of_def push_free_def)

lemma insert_reused:
  assumes "sc_free s = i # rest" "i < nthreads s" "i < 64" "h < 4"
  shows "spawn im s h stack entry prio = Some (i, enqueued ((set_kill_req (s\<lparr>sc_free := rest\<rparr>) i False)\<lparr>
    sc_threads := (sc_threads s)[i := kernel_thread im h stack entry prio]\<rparr>) i)"
proof -
  let ?t = "kernel_thread im h stack entry prio"
  let ?u = "(set_kill_req (s\<lparr>sc_free := rest\<rparr>) i False)\<lparr>sc_threads := (sc_threads s)[i := ?t]\<rparr>"
  have "t_hart ?t = h" "t_prio ?t < 3" by (simp_all add: kernel_thread_def Let_def)
  then have "enqueue ?u i = Some (enqueued ?u i)"
    using assms eff_prio_le [of ?u i] by (intro enqueue_eq) simp_all
  then show ?thesis using assms by (simp add: spawn_def insert_thread_def set_kill_req_def Let_def)
qed

text \<open>
  C31. A defect. \<^verbatim>\<open>kill_process\<close> also collects threads of the process that have exited before: it pushes their slot
  onto the reuse queue a second time. If \<open>i\<close> is such a thread (here the only one of its process and
  the only free slot), the next two threads that are created both get slot \<open>i\<close>: the second replaces
  the first, which never runs, and the ready queue holds \<open>i\<close> twice.
\<close>

theorem exited_slot_reused_twice:
  assumes "sched_wf s" "h < MAX_HARTS" "sc_donations s = []" "sc_free s = [i]" "in_proc s pid i"
    "\<And>j. j < nthreads s \<Longrightarrow> in_proc s pid j \<Longrightarrow> j = i"
  shows "\<exists>s1 s2 s3. kill_threads s h pid = Some (False, [], s1) \<and> sc_free s1 = [i, i] \<and>
    spawn im s1 h stack1 entry1 prio = Some (i, s2) \<and> spawn im s2 h stack2 entry2 prio = Some (i, s3) \<and>
    thr s3 i = kernel_thread im h stack2 entry2 prio \<and> length (filter (\<lambda>j. j = i) (sc_ready s3 h (min prio 2))) = 2"
proof -
  have h: "h < 4" using assms(2) by simp
  note c = cur_okD [OF assms(1) h]
  have i: "i < nthreads s" "t_state (thr s i) = Exited" using sched_wfD(7) [OF assms(1)] assms(4) by (auto simp: free_ok_def)
  have i64: "i < 64" by (rule thread_okD(6) [OF sched_wfD(4) [OF assms(1)] i(1)])
  have ic: "i \<noteq> sc_current s h" using c(2) i(2) by auto
  have "x = i" if "x \<in> set (victims s h pid)" for x using that assms(6) by (simp add: victims_def)
  moreover have "i \<in> set (victims s h pid)" using i(1) assms(5) ic by (simp add: victims_def)
  ultimately have "set (victims s h pid) = {i}" by blast
  then have v: "victims s h pid = [i]" by (intro distinct_single) (simp_all add: victims_def)
  have nc: "\<not> in_proc s pid (sc_current s h)" using assms(6) [OF c(1)] ic by auto
  have ni: "i \<notin> set (sc_ready s g p)" for g p using q_okD(2) [OF sched_wfD(1) [OF assms(1)], of i g p] i(2) by auto
  define s1 where "s1 = push_free (upd_thread (reap_stack (s\<lparr>sc_ready := (\<lambda>h p. filter (\<lambda>j. j \<noteq> i) (sc_ready s h p))\<rparr>) i) i
      (\<lambda>t. t\<lparr>t_state := Exited, t_frame_valid := False, t_ctx_valid := False\<rparr>)) i"
  have k: "kill_threads s h pid = Some (False, [], s1)"
    using kill_no_donations [OF assms(3) c(1) v] i(2) nc by (simp add: s1_def)
  have f1: "sc_free s1 = [i, i]" "nthreads s1 = nthreads s" "sc_ready s1 g p = filter (\<lambda>j. j \<noteq> i) (sc_ready s g p)" for g p
    using assms(4) by (simp_all add: s1_def push_free_def)
  let ?t = "\<lambda>st en. kernel_thread im h st en prio"
  have kt: "t_hart (?t st en) = h" "t_proc (?t st en) = None" "t_prio (?t st en) = min prio 2" "(?t st en)\<lparr>t_state := Ready\<rparr> = ?t st en" for st en
    by (simp_all add: kernel_thread_def Let_def)
  define u1 where "u1 = (set_kill_req (s1\<lparr>sc_free := [i]\<rparr>) i False)\<lparr>sc_threads := (sc_threads s1)[i := ?t stack1 entry1]\<rparr>"
  have e1: "spawn im s1 h stack1 entry1 prio = Some (i, enqueued u1 i)"
    unfolding u1_def by (rule insert_reused) (use f1 i i64 h in simp_all)
  have p1: "eff_prio u1 i = min prio 2" "t_hart (thr u1 i) = h" using i(1) f1(2) kt by (simp_all add: u1_def eff_prio_def)
  have f2: "sc_free (enqueued u1 i) = [i]" "nthreads (enqueued u1 i) = nthreads s"
    "sc_ready (enqueued u1 i) h (min prio 2) = filter (\<lambda>j. j \<noteq> i) (sc_ready s h (min prio 2)) @ [i]"
    using f1 p1 by (simp_all add: u1_def, simp add: enqueued_def u1_def)
  define u2 where "u2 = (set_kill_req ((enqueued u1 i)\<lparr>sc_free := []\<rparr>) i False)\<lparr>sc_threads := (sc_threads (enqueued u1 i))[i := ?t stack2 entry2]\<rparr>"
  have e2: "spawn im (enqueued u1 i) h stack2 entry2 prio = Some (i, enqueued u2 i)"
    unfolding u2_def by (rule insert_reused) (use f2 i i64 h in simp_all)
  have p2: "eff_prio u2 i = min prio 2" "t_hart (thr u2 i) = h" using i(1) f2(2) kt by (simp_all add: u2_def eff_prio_def)
  have "sc_ready (enqueued u2 i) h (min prio 2) = filter (\<lambda>j. j \<noteq> i) (sc_ready s h (min prio 2)) @ [i, i]"
    using f2 p2 by (simp add: enqueued_def u2_def)
  moreover have "filter (\<lambda>j. j = i) (filter (\<lambda>j. j \<noteq> i) xs) = []" for xs by (simp add: filter_empty_conv)
  moreover have "thr (enqueued u2 i) i = ?t stack2 entry2" using i(1) f2(2) kt by (simp add: thr_enqueued u2_def)
  ultimately show ?thesis using k f1(1) e1 e2 by (intro exI [of _ s1] exI [of _ "enqueued u1 i"] exI [of _ "enqueued u2 i"]) simp
qed

text \<open>The user thread of the small system has exited on hart 0.\<close>

definition demo_dead :: sched where
  "demo_dead = set_current (push_free (upd_thread demo_run 4 (\<lambda>t. t\<lparr>t_state := Exited\<rparr>)) 4) 0 0"

lemma demo_dead_facts:
  "sched_wf demo_dead" "sc_donations demo_dead = []" "sc_free demo_dead = [4]" "in_proc demo_dead 7 4"
  "j < nthreads demo_dead \<Longrightarrow> in_proc demo_dead 7 j \<Longrightarrow> j = 4"
proof -
  let ?f = "\<lambda>t. t\<lparr>t_state := Exited\<rparr>" and ?s = "push_free (upd_thread demo_run 4 (\<lambda>t. t\<lparr>t_state := Exited\<rparr>)) 4"
  have old: "thr demo_run i = thr demo_boot i" if "i < 4" for i
    using that demo_spawn(3,8) by (simp add: demo_run_def thr_picked)
  have "pre_wf (push_free (upd_thread demo_run (sc_current demo_run 0) ?f) (sc_current demo_run 0)) 0"
    by (rule exited_pre_wf [OF demo_running(1)])
      (use demo_running(2,3,5) thread_okD [OF sched_wfD(4) [OF demo_running(1)], of 4] in \<open>simp_all add: thread_ok_def\<close>)
  then have p: "pre_wf ?s 0" by (simp add: demo_running)
  have "t_state (thr ?s (sc_idle ?s 0)) = Running"
    using old [of 0] demo_running(3,5) by (simp add: thr_upd_thread demo_boot_threads idle_thread_def)
  from idle_wf [OF p this] show "sched_wf demo_dead" by (simp add: demo_dead_def demo_running)
  show "sc_donations demo_dead = []" "sc_free demo_dead = [4]"
    using demo_spawn(7,9) by (simp_all add: demo_dead_def demo_run_def, simp add: push_free_def)
  show "in_proc demo_dead 7 4" using demo_running by (simp add: demo_dead_def in_proc_def thr_upd_thread)
  show "j = 4" if j: "j < nthreads demo_dead" "in_proc demo_dead 7 j"
  proof (rule ccontr)
    assume "j \<noteq> 4"
    then have j4: "j < 4" using j(1) demo_running(5) by (simp add: demo_dead_def)
    have "t_proc (thr demo_boot j) = None" using idle_okD(3) [OF demo_boot_wf, of j] j4 by (simp add: demo_boot_threads(3))
    then show False using j old [OF j4] j4 demo_running(5) by (simp add: demo_dead_def in_proc_def thr_upd_thread)
  qed
qed

theorem exited_slot_reused_twice_witness:
  "\<exists>s1 s2 s3. kill_threads demo_dead 1 7 = Some (False, [], s1) \<and> sc_free s1 = [4, 4] \<and>
    spawn demo_image s1 1 0 0 1 = Some (4, s2) \<and> spawn demo_image s2 1 0 0 1 = Some (4, s3)"
  using exited_slot_reused_twice [OF demo_dead_facts(1), of 1 4 7 demo_image 0 0 1 0 0] demo_dead_facts by auto

section \<open>From a saved context to a trap frame\<close>

text \<open>The registers a return through a trap frame loads: program counter, stack pointer, s0 to s11.\<close>

definition frame_ctx :: "frame \<Rightarrow> thread_ctx" where
  "frame_ctx f = \<lparr>c_ra = f ! FRAME_SEPC, c_sp = f ! X_SP, c_s = f ! X_S0 # f ! X_S1 # take 10 (drop X_S2 f)\<rparr>"

text \<open>
  \<^verbatim>\<open>expand_ctx_to_frame\<close> loses nothing: returning through the frame it builds loads exactly the registers of the saved
  context, in supervisor mode with the kernel's global pointer; the frame has its 36 words, and the
  thread is resumed from it and not from the context.
\<close>

theorem expand_ctx_roundtrip:
  assumes "i < nthreads s" "length (c_s (t_ctx (thr s i))) = 12"
  shows "frame_ctx (t_frame (thr (expand_ctx_to_frame im s i) i)) = t_ctx (thr s i) \<and>
    length (t_frame (thr (expand_ctx_to_frame im s i) i)) = FRAME_WORDS \<and>
    t_frame (thr (expand_ctx_to_frame im s i) i) ! FRAME_SSTATUS = 0x120 \<and>
    t_frame (thr (expand_ctx_to_frame im s i) i) ! X_GP = im_gp im \<and>
    t_frame_valid (thr (expand_ctx_to_frame im s i) i) \<and> \<not> t_ctx_valid (thr (expand_ctx_to_frame im s i) i)"
proof -
  obtain x0 x1 rest where c: "c_s (t_ctx (thr s i)) = x0 # x1 # rest" "length rest = 10"
    using assms(2) by (cases "c_s (t_ctx (thr s i))"; cases "tl (c_s (t_ctx (thr s i)))") auto
  show ?thesis
    using assms c by (simp add: expand_ctx_to_frame_def Let_def thr_upd_thread frame_ctx_def nth_append)
qed

theorem expand_ctx_roundtrip_witness:
  "frame_ctx (t_frame (thr (expand_ctx_to_frame demo_image demo_boot 2) 2)) = t_ctx (thr demo_boot 2)"
  using expand_ctx_roundtrip [of 2 demo_boot demo_image] by (simp add: demo_boot_threads idle_thread_def)

end
