(* ===== verification/Ipc_Inv.thy ===== *)
theory Ipc_Inv
  imports Ipc Sched_Spec Sched_Threads
begin

text \<open>
  The invariant of the IPC: the threads in the pending queues exist, messages have five words, and no
  pending send has a receiver that waits for it.
\<close>

section \<open>Searching the queues\<close>

lemma match_recv_None:
  "match_recv rs pid dst = None \<longleftrightarrow> (\<forall>r\<in>set rs. pr_pid r = dst \<longrightarrow> pr_src r \<noteq> pid \<and> pr_src r \<noteq> IPC_ACCEPT_ANY)"
  by (auto simp: match_recv_def extract_None_iff extract_Some_iff split: option.splits)

lemma match_recv_Nil [simp]: "match_recv [] pid dst = None"
  by (simp add: match_recv_None)

lemma match_recv_Some:
  assumes "match_recv rs pid dst = Some (xs, r, zs)"
  shows "rs = xs @ r # zs" "pr_pid r = dst" "pr_src r = pid \<or> pr_src r = IPC_ACCEPT_ANY"
  using assms by (auto simp: match_recv_def extract_Some_iff split: option.splits)

lemma match_send_None: "match_send ss src pid = None \<longleftrightarrow> (\<forall>x\<in>set ss. ps_pid x = src \<longrightarrow> ps_dst x \<noteq> pid)"
  by (auto simp: match_send_def extract_None_iff)

lemma match_send_Some:
  assumes "match_send ss src pid = Some (xs, x, zs)"
  shows "ss = xs @ x # zs" "ps_pid x = src" "ps_dst x = pid"
  using assms by (auto simp: match_send_def extract_Some_iff)

section \<open>The invariant\<close>

definition blocked_pc_ok :: "sched \<Rightarrow> bool" where
  "blocked_pc_ok s \<longleftrightarrow> (\<forall>i<nthreads s. t_state (thr s i) = Blocked \<longrightarrow> frame_pc_ok s i)"

definition no_match :: "ipc_state \<Rightarrow> bool" where
  "no_match ipc \<longleftrightarrow> (\<forall>x\<in>set (ip_sends ipc). \<forall>r\<in>set (ip_recvs ipc). \<not> (pr_pid r = ps_dst x \<and> pr_src r = ps_pid x))"

definition tids_ok :: "ipc_state \<Rightarrow> nat \<Rightarrow> bool" where
  "tids_ok ipc n \<longleftrightarrow> (\<forall>x\<in>set (ip_sends ipc). ps_tid x < n \<and> length (ps_msg x) = MSG_WORDS) \<and> (\<forall>r\<in>set (ip_recvs ipc). pr_tid r < n)"

definition ipc_wf :: "system \<Rightarrow> bool" where
  "ipc_wf y \<longleftrightarrow> sched_wf (sy_sched y) \<and> blocked_pc_ok (sy_sched y) \<and> tids_ok (sy_ipc y) (nthreads (sy_sched y)) \<and> no_match (sy_ipc y)"

lemma ipc_wfD:
  assumes "ipc_wf y"
  shows "sched_wf (sy_sched y)" "blocked_pc_ok (sy_sched y)" "tids_ok (sy_ipc y) (nthreads (sy_sched y))" "no_match (sy_ipc y)"
  using assms by (simp_all add: ipc_wf_def)

lemma blocked_pc_okD: "blocked_pc_ok s \<Longrightarrow> i < nthreads s \<Longrightarrow> t_state (thr s i) = Blocked \<longrightarrow> frame_pc_ok s i"
  by (simp add: blocked_pc_ok_def)

text \<open>A wake-up leaves every other thread alone, and the woken one is not Blocked.\<close>

lemma blocked_pc_ok_wake:
  assumes "blocked_pc_ok s" "nthreads s' = nthreads s" "t_state (thr s' i) \<noteq> Blocked"
    "\<forall>j<nthreads s. j \<noteq> i \<longrightarrow> thr s' j = thr s j"
  shows "blocked_pc_ok s'"
  unfolding blocked_pc_ok_def
proof (intro allI impI)
  fix j assume j: "j < nthreads s'" "t_state (thr s' j) = Blocked"
  then have "j \<noteq> i" "j < nthreads s" using assms(2,3) by auto
  then have "thr s' j = thr s j" using assms(4) by simp
  then show "frame_pc_ok s' j" using assms(1) j \<open>j < nthreads s\<close> by (simp add: blocked_pc_ok_def frame_pc_ok_def)
qed

lemma wake_err_law:
  assumes "sched_wf s \<and> blocked_pc_ok s" "i < nthreads s"
  shows "\<exists>s'. map_option snd (ipc_wake_with_err s h i code) = Some s' \<and> (sched_wf s' \<and> blocked_pc_ok s') \<and>
    t_state (thr s' i) \<noteq> Blocked \<and> (\<forall>j. j < nthreads s \<longrightarrow> j < nthreads s') \<and>
    (\<forall>j. j < nthreads s \<longrightarrow> j \<noteq> i \<longrightarrow> (t_state (thr s' j) = Blocked) = (t_state (thr s j) = Blocked))"
proof -
  have w: "sched_wf s" "blocked_pc_ok s" using assms(1) by simp_all
  obtain r s' where s': "ipc_wake_with_err s h i code = Some (r, s')" "sched_wf s'" "nthreads s' = nthreads s"
    "t_state (thr s i) = Blocked \<Longrightarrow> thr s' i = (thr s i)\<lparr>t_state := Ready, t_frame := msg_frame (t_frame (thr s i)) code None,
       t_ipc_msg := Some (replicate MSG_WORDS code), t_ipc_wake := None\<rparr>"
    "t_state (thr s i) \<noteq> Blocked \<Longrightarrow> thr s' i = (thr s i)\<lparr>t_ipc_msg := Some (replicate MSG_WORDS code), t_ipc_wake := Some (WakeErr code)\<rparr>"
    "\<forall>j<nthreads s. j \<noteq> i \<longrightarrow> thr s' j = thr s j"
    by (rule ipc_wake_with_err_ok [OF w(1) assms(2) blocked_pc_okD [OF w(2) assms(2)]]) (rule that; assumption)
  have nb: "t_state (thr s' i) \<noteq> Blocked" using s'(4,5) by (cases "t_state (thr s i) = Blocked") simp_all
  then show ?thesis using s' blocked_pc_ok_wake [OF w(2) s'(3) nb s'(6)] by simp
qed

interpretation err: waker "\<lambda>s. sched_wf s \<and> blocked_pc_ok s" "\<lambda>s i. i < nthreads s" "\<lambda>s i. t_state (thr s i) = Blocked"
    "\<lambda>s i. map_option snd (ipc_wake_with_err s h i code)" for h code
  by unfold_locales (rule wake_err_law)

lemma wake_all_err_list: "wake_all_err s h is code = wake_list (\<lambda>s i. map_option snd (ipc_wake_with_err s h i code)) s is"
  by (induction "is" arbitrary: s) (auto split: option.splits bind_splits)

lemma deliver_ok:
  assumes w: "sched_wf s" "blocked_pc_ok s" and i: "i < nthreads s" and m: "\<forall>x. m = Some x \<longrightarrow> length x = 5"
  obtains r s' where "ipc_wake_with_msg s h i m = Some (r, s')" "sched_wf s'" "blocked_pc_ok s'" "nthreads s' = nthreads s" "sc_current s' = sc_current s"
    "t_state (thr s i) = Blocked \<Longrightarrow> t_state (thr s' i) = Ready \<and> t_frame (thr s' i) = msg_frame (t_frame (thr s i)) 0 m"
    "t_state (thr s i) \<noteq> Blocked \<Longrightarrow> t_state (thr s' i) = t_state (thr s i) \<and> t_ipc_wake (thr s' i) = Some (WakeMsg (msg_buf m))"
    "\<forall>j<nthreads s. j \<noteq> i \<longrightarrow> thr s' j = thr s j"
    "t_state (thr s i) = Blocked \<Longrightarrow> sc_donations s' = filter (\<lambda>d. d_donor d \<noteq> i) (sc_donations s)"
proof -
  have m5: "\<forall>x. m = Some x \<longrightarrow> length x \<le> 5" using m by auto
  obtain r s' where s': "ipc_wake_with_msg s h i m = Some (r, s')" "sched_wf s'"
    "nthreads s' = nthreads s" "sc_current s' = sc_current s"
    "t_state (thr s i) = Blocked \<Longrightarrow> thr s' i = (thr s i)\<lparr>t_state := Ready, t_frame := msg_frame (t_frame (thr s i)) 0 m,
       t_ipc_msg := map_option (\<lambda>x. msg_buf (Some x)) m, t_ipc_wake := None\<rparr>"
    "t_state (thr s i) \<noteq> Blocked \<Longrightarrow> thr s' i = (thr s i)\<lparr>t_ipc_msg := Some (msg_buf m), t_ipc_wake := Some (WakeMsg (msg_buf m))\<rparr>"
    "\<forall>j<nthreads s. j \<noteq> i \<longrightarrow> thr s' j = thr s j"
    "t_state (thr s i) = Blocked \<Longrightarrow> sc_donations s' = filter (\<lambda>d. d_donor d \<noteq> i) (sc_donations s)"
    by (rule ipc_wake_with_msg_ok [OF w(1) i m5 blocked_pc_okD [OF w(2) i]]) (rule that; assumption)
  have nb: "t_state (thr s' i) \<noteq> Blocked" using s'(5,6) by (cases "t_state (thr s i) = Blocked") simp_all
  show ?thesis using s' blocked_pc_ok_wake [OF w(2) s'(3) nb s'(7)] by (intro that) simp_all
qed

end
