(* ===== verification/Ipc_Main.thy ===== *)
theory Ipc_Main
  imports Ipc_Inv Objects_Main
begin

text \<open>
  The properties of the IPC: what send does on every branch, that no matching pair waits, what happens
  to the partners of a process that dies, and a listening receiver that overlooks a waiting sender.
\<close>

section \<open>Sending\<close>

lemma donate_ok:
  assumes w: "sched_wf s" "blocked_pc_ok s" and i: "i < nthreads s" and none: "\<forall>d\<in>set (sc_donations s). d_donor d \<noteq> i"
  shows "\<exists>s'. donate_on_block s i p = Some s' \<and> sched_wf s' \<and> blocked_pc_ok s' \<and> sc_threads s' = sc_threads s \<and> sc_current s' = sc_current s \<and>
    sc_idle s' = sc_idle s \<and> (\<forall>d\<in>set (sc_donations s'). d \<in> set (sc_donations s) \<or> d_donor d = i)"
proof -
  obtain s' ds where s': "register_donation s i p = Some s'" "same_but_queues (s\<lparr>sc_donations := ds\<rparr>) s'" "sched_wf s'"
    "\<forall>d\<in>set ds. d \<in> set (sc_donations s) \<or> d_donor d = i"
    using register_donation_ok [OF w(1) i, of p] none by auto
  note d = same_but_queuesD [OF s'(2)]
  have "blocked_pc_ok s'" using w(2) d(1) by (simp add: blocked_pc_ok_def frame_pc_ok_def)
  then show ?thesis using s' d(1-4) by (simp add: donate_on_block_def)
qed

lemma donate_new:
  assumes w: "sched_wf s" and i: "i < nthreads s" and none: "\<forall>d\<in>set (sc_donations s). d_donor d \<noteq> i"
  shows "\<exists>s'. donate_on_block s i p = Some s' \<and> sched_wf s' \<and> sc_threads s' = sc_threads s \<and>
    sc_donations s' = (if length (sc_donations s) < 64
      then sc_donations s @ [\<lparr>d_donor = i, d_peer = p, d_prio = eff_prio s i\<rparr>] else sc_donations s) \<and>
    (length (sc_donations s) < 64 \<longrightarrow>
      (\<forall>j. eff_prio s' j = (if in_proc s p j then min (eff_prio s j) (eff_prio s i) else eff_prio s j)))"
proof (cases "length (sc_donations s) < 64")
  case True
  let ?d = "\<lparr>d_donor = i, d_peer = p, d_prio = eff_prio s i\<rparr>"
  obtain s' where s': "register_donation s i p = Some s'" "same_but_queues (s\<lparr>sc_donations := sc_donations s @ [?d]\<rparr>) s'" "sched_wf s'"
    using register_new [OF w i none True] by blast
  note d = same_but_queuesD [OF s'(2)]
  have "eff_prio s' j = (if in_proc s p j then min (eff_prio s j) (eff_prio s i) else eff_prio s j)" for j
    using d(11) eff_prio_append [of s ?d j] by simp
  then show ?thesis using s'(1,3) d(1,2) True by (simp add: donate_on_block_def)
next
  case False
  have "register_donation s i p = requeue_procs (s\<lparr>sc_donations := sc_donations s\<rparr>) [p]"
    using i none False unfolding requeue_procs_single by (auto simp: register_donation_def Let_def)
  moreover obtain s' where s': "requeue_procs (s\<lparr>sc_donations := sc_donations s\<rparr>) [p] = Some s'"
    "same_but_queues (s\<lparr>sc_donations := sc_donations s\<rparr>) s'" "sched_wf s'"
    using donations_repair [OF w sched_wfD(2) [OF w], of "[p]"] by auto
  ultimately show ?thesis using same_but_queuesD(1,2) [OF s'(2)] False by (simp add: donate_on_block_def)
qed

text \<open>
  C33. \<^verbatim>\<open>send\<close> on every branch. Without a process capability in the slot it returns the error and changes nothing.
  If a receiver waits for this sender, or else one that accepts any, the first such receiver leaves
  the queue and gets the message: in its saved frame if it is blocked, as a pending wake-up if not.
  A blocked receiver also takes back its donations. Otherwise the message is queued, no thread changes, and
  the caller donates: the donation, at its effective priority, is appended to the table of 64, and every
  thread of the destination gets the better of its own and the caller's effective priority, no other thread
  changes its own; if the table is full there is no donation. The result is always well-formed.
\<close>

theorem ipc_send_spec:
  assumes "ipc_wf y" "h < MAX_HARTS" "length m = MSG_WORDS"
    "\<forall>d\<in>set (sc_donations (sy_sched y)). d_donor d \<noteq> sc_current (sy_sched y) h"
  shows "\<exists>res y'. ipc_send y h pid slot m = Some (res, y') \<and> ipc_wf y' \<and> sy_kernel y' = sy_kernel y \<and>
    (case cap_target (sy_kernel y) pid slot of
       Err e \<Rightarrow> res = Err (cap_errno e) \<and> y' = y
     | Ok (Shm _) \<Rightarrow> res = Err SYS_ERR_EINVAL \<and> y' = y
     | Ok (Page _) \<Rightarrow> res = Err SYS_ERR_EINVAL \<and> y' = y
     | Ok (Proc dst) \<Rightarrow>
         (case match_recv (ip_recvs (sy_ipc y)) pid dst of
            Some (xs, r, zs) \<Rightarrow> res = Ok SendDone \<and> sy_ipc y' = (sy_ipc y)\<lparr>ip_recvs := xs @ zs\<rparr> \<and>
              (if t_state (thr (sy_sched y) (pr_tid r)) = Blocked
               then t_state (thr (sy_sched y') (pr_tid r)) = Ready \<and>
                 t_frame (thr (sy_sched y') (pr_tid r)) = msg_frame (t_frame (thr (sy_sched y) (pr_tid r))) 0 (Some m) \<and>
                 sc_donations (sy_sched y') = filter (\<lambda>d. d_donor d \<noteq> pr_tid r) (sc_donations (sy_sched y))
               else t_ipc_wake (thr (sy_sched y') (pr_tid r)) = Some (WakeMsg m)) \<and>
              (\<forall>j<nthreads (sy_sched y). j \<noteq> pr_tid r \<longrightarrow> thr (sy_sched y') j = thr (sy_sched y) j)
          | None \<Rightarrow> res = Ok SendNoPeer \<and> sc_threads (sy_sched y') = sc_threads (sy_sched y) \<and>
              sy_ipc y' = (sy_ipc y)\<lparr>ip_sends := ip_sends (sy_ipc y) @
                [\<lparr>ps_tid = sc_current (sy_sched y) h, ps_pid = pid, ps_dst = dst, ps_msg = m\<rparr>]\<rparr> \<and>
              (if length (sc_donations (sy_sched y)) < MAX_DONATIONS
               then sc_donations (sy_sched y') = sc_donations (sy_sched y) @
                   [\<lparr>d_donor = sc_current (sy_sched y) h, d_peer = dst, d_prio = eff_prio (sy_sched y) (sc_current (sy_sched y) h)\<rparr>] \<and>
                 (\<forall>j. eff_prio (sy_sched y') j = (if in_proc (sy_sched y) dst j
                    then min (eff_prio (sy_sched y) j) (eff_prio (sy_sched y) (sc_current (sy_sched y) h)) else eff_prio (sy_sched y) j))
               else sc_donations (sy_sched y') = sc_donations (sy_sched y))))"
proof -
  note w = ipc_wfD [OF assms(1)]
  have h: "h < 4" and m5: "length m = 5" using assms(2,3) by simp_all
  have mb: "msg_buf (Some m) = m" using m5 by (simp add: msg_buf_def)
  note c = cur_okD [OF w(1) h]
  show ?thesis
  proof (cases "\<exists>dst. cap_target (sy_kernel y) pid slot = Ok (Proc dst)")
    case False
    then show ?thesis using assms(1)
      by (cases "cap_target (sy_kernel y) pid slot") (auto simp: ipc_send_def split: cap.splits)
  next
    case True
    then obtain dst where dst: "cap_target (sy_kernel y) pid slot = Ok (Proc dst)" by blast
    show ?thesis
    proof (cases "match_recv (ip_recvs (sy_ipc y)) pid dst")
      case None
      let ?c = "sc_current (sy_sched y) h"
      obtain s' where s': "donate_on_block (sy_sched y) ?c dst = Some s'" "sched_wf s'" "blocked_pc_ok s'"
        "sc_threads s' = sc_threads (sy_sched y)" using donate_ok [OF w(1,2) c(1) assms(4)] by blast
      have dn: "if length (sc_donations (sy_sched y)) < MAX_DONATIONS
          then sc_donations s' = sc_donations (sy_sched y) @ [\<lparr>d_donor = ?c, d_peer = dst, d_prio = eff_prio (sy_sched y) ?c\<rparr>] \<and>
            (\<forall>j. eff_prio s' j = (if in_proc (sy_sched y) dst j then min (eff_prio (sy_sched y) j) (eff_prio (sy_sched y) ?c) else eff_prio (sy_sched y) j))
          else sc_donations s' = sc_donations (sy_sched y)"
        using donate_new [OF w(1) c(1) assms(4), of dst] s'(1) by (auto split: if_splits)
      let ?x = "\<lparr>ps_tid = sc_current (sy_sched y) h, ps_pid = pid, ps_dst = dst, ps_msg = m\<rparr>"
      have "no_match ((sy_ipc y)\<lparr>ip_sends := ip_sends (sy_ipc y) @ [?x]\<rparr>)"
        using w(4) None by (auto simp: no_match_def match_recv_None)
      moreover have "tids_ok ((sy_ipc y)\<lparr>ip_sends := ip_sends (sy_ipc y) @ [?x]\<rparr>) (nthreads s')"
        using w(3) s'(4) c(1) m5 by (auto simp: tids_ok_def)
      ultimately show ?thesis using None dst s' dn by (simp add: ipc_send_def Let_def current_id_def ipc_wf_def)
    next
      case (Some t)
      obtain xs r zs where t: "t = (xs, r, zs)" by (cases t)
      note mt = match_recv_Some [OF Some [unfolded t]]
      have i: "pr_tid r < nthreads (sy_sched y)" using w(3) mt(1) by (simp add: tids_ok_def)
      have mx: "\<forall>x. Some m = Some x \<longrightarrow> length x = 5" using m5 by simp
      obtain b s' where s': "ipc_wake_with_msg (sy_sched y) h (pr_tid r) (Some m) = Some (b, s')" "sched_wf s'" "blocked_pc_ok s'"
        "nthreads s' = nthreads (sy_sched y)"
        "t_state (thr (sy_sched y) (pr_tid r)) = Blocked \<Longrightarrow> t_state (thr s' (pr_tid r)) = Ready \<and> t_frame (thr s' (pr_tid r)) = msg_frame (t_frame (thr (sy_sched y) (pr_tid r))) 0 (Some m)"
        "t_state (thr (sy_sched y) (pr_tid r)) \<noteq> Blocked \<Longrightarrow> t_state (thr s' (pr_tid r)) = t_state (thr (sy_sched y) (pr_tid r)) \<and> t_ipc_wake (thr s' (pr_tid r)) = Some (WakeMsg (msg_buf (Some m)))"
        "\<forall>j<nthreads (sy_sched y). j \<noteq> pr_tid r \<longrightarrow> thr s' j = thr (sy_sched y) j"
        "t_state (thr (sy_sched y) (pr_tid r)) = Blocked \<Longrightarrow> sc_donations s' = filter (\<lambda>d. d_donor d \<noteq> pr_tid r) (sc_donations (sy_sched y))"
        by (rule deliver_ok [OF w(1,2) i mx]) (rule that; assumption)
      have "no_match ((sy_ipc y)\<lparr>ip_recvs := xs @ zs\<rparr>)" "tids_ok ((sy_ipc y)\<lparr>ip_recvs := xs @ zs\<rparr>) (nthreads s')"
        using w(3,4) mt(1) s'(4) by (auto simp: no_match_def tids_ok_def)
      then show ?thesis using Some t dst s' mb by (simp add: ipc_send_def Let_def ipc_wf_def)
    qed
  qed
qed

text \<open>Process 2 with a capability for process 3 in slot 0, on the small system.\<close>

definition demo_caps :: kernel where
  "demo_caps = (kernel_static demo_mm)\<lparr>k_procs := \<lparr>st_slots =
     [\<lparr>p_id = 9, p_root = 0, p_caps = replicate 8 None\<rparr>, \<lparr>p_id = 9, p_root = 0, p_caps = replicate 8 None\<rparr>,
      \<lparr>p_id = 2, p_root = 0, p_caps = Some (Proc 3) # replicate 7 None\<rparr>],
     st_free = []\<rparr>\<rparr>"

definition demo_system :: system where
  "demo_system = \<lparr>sy_kernel = demo_caps, sy_sched = demo_run, sy_ipc = ipc_static\<rparr>"

lemma demo_system_wf: "ipc_wf demo_system" "\<forall>d\<in>set (sc_donations (sy_sched demo_system)). d_donor d \<noteq> sc_current (sy_sched demo_system) 0"
proof -
  have st: "t_state (thr demo_run i) = Running" if "i < 5" for i
  proof (cases "i = 4")
    case False
    then have i: "i < 4" using that by simp
    then have "thr demo_run i = thr demo_boot i" using demo_spawn(3,8) by (simp add: demo_run_def thr_picked)
    then show ?thesis using cur_okD(2) [OF demo_boot_wf, of i] i by (simp add: demo_boot_threads(2))
  qed (use demo_running in simp)
  then have "blocked_pc_ok demo_run" by (simp add: blocked_pc_ok_def demo_running)
  then show "ipc_wf demo_system" using demo_running by (simp add: ipc_wf_def demo_system_def ipc_static_def no_match_def tids_ok_def)
  show "\<forall>d\<in>set (sc_donations (sy_sched demo_system)). d_donor d \<noteq> sc_current (sy_sched demo_system) 0"
    using demo_spawn(7) by (simp add: demo_system_def demo_run_def)
qed

lemma demo_cap: "cap_target demo_caps 2 0 = Ok (Proc 3)" "cap_target demo_caps 2 3 = Err NotFound"
  by (simp_all add: demo_caps_def cap_target_def get_proc_def get_slot_def kernel_static_def)

theorem ipc_send_spec_witness:
  "\<exists>y'. ipc_send demo_system 0 2 0 [1, 2, 3, 4, 5] = Some (Ok SendNoPeer, y') \<and> ipc_wf y' \<and> length (ip_sends (sy_ipc y')) = 1 \<and>
     map d_peer (sc_donations (sy_sched y')) = [3]"
proof -
  have "sc_donations demo_run = []" using demo_spawn(7) by (simp add: demo_run_def)
  then show ?thesis using ipc_send_spec [OF demo_system_wf(1), of 0 "[1, 2, 3, 4, 5]" 2 0] demo_system_wf(2)
    by (auto simp: demo_system_def demo_cap ipc_static_def)
qed

section \<open>No matching pair waits\<close>

text \<open>IPC calls of any harts, interleaved with arbitrary changes of the scheduler and the object tables.\<close>

inductive ipc_reach :: "system \<Rightarrow> bool" where
  ipc_start: "sy_ipc y = ipc_static \<Longrightarrow> ipc_reach y"
| ipc_sent: "ipc_reach y \<Longrightarrow> ipc_send y h pid slot m = Some (r, y') \<Longrightarrow> ipc_reach y'"
| ipc_received: "ipc_reach y \<Longrightarrow> ipc_recv y h pid slot = Some (b, y') \<Longrightarrow> ipc_reach y'"
| ipc_purged: "ipc_reach y \<Longrightarrow> purge_process y h pid = Some y' \<Longrightarrow> ipc_reach y'"
| ipc_other: "ipc_reach y \<Longrightarrow> sy_ipc y' = sy_ipc y \<Longrightarrow> ipc_reach y'"

lemma ipc_send_cases:
  assumes "ipc_send y h pid slot m = Some (r, y')"
  obtains e where "r = Err e" "y' = y"
  | dst xs z zs s where "match_recv (ip_recvs (sy_ipc y)) pid dst = Some (xs, z, zs)"
      "y' = y\<lparr>sy_sched := s, sy_ipc := (sy_ipc y)\<lparr>ip_recvs := xs @ zs\<rparr>\<rparr>"
  | dst s where "match_recv (ip_recvs (sy_ipc y)) pid dst = None"
      "y' = y\<lparr>sy_sched := s, sy_ipc := (sy_ipc y)\<lparr>ip_sends := ip_sends (sy_ipc y) @
         [\<lparr>ps_tid = current_id (sy_sched y) h, ps_pid = pid, ps_dst = dst, ps_msg = m\<rparr>]\<rparr>\<rparr>"
proof (cases "\<exists>dst. cap_target (sy_kernel y) pid slot = Ok (Proc dst)")
  case False
  then have "\<exists>e. r = Err e \<and> y' = y"
    using assms by (cases "cap_target (sy_kernel y) pid slot") (auto simp: ipc_send_def split: cap.splits)
  then show ?thesis using that(1) by blast
next
  case True
  then obtain dst where dst: "cap_target (sy_kernel y) pid slot = Ok (Proc dst)" by blast
  show ?thesis
  proof (cases "match_recv (ip_recvs (sy_ipc y)) pid dst")
    case None
    have "do { s \<leftarrow> donate_on_block (sy_sched y) (current_id (sy_sched y) h) dst;
        Some (Ok SendNoPeer, y\<lparr>sy_sched := s, sy_ipc := (sy_ipc y)\<lparr>ip_sends := ip_sends (sy_ipc y) @
         [\<lparr>ps_tid = current_id (sy_sched y) h, ps_pid = pid, ps_dst = dst, ps_msg = m\<rparr>]\<rparr>\<rparr>) } = Some (r, y')"
      using assms dst None by (simp add: ipc_send_def Let_def)
    then show ?thesis using that(3) [OF None] unfolding bind_eq_Some_conv by auto
  next
    case (Some t)
    obtain xs z zs where t: "t = (xs, z, zs)" by (cases t)
    have "do { (_, s) \<leftarrow> ipc_wake_with_msg (sy_sched y) h (pr_tid z) (Some m);
        Some (Ok SendDone, y\<lparr>sy_sched := s, sy_ipc := (sy_ipc y)\<lparr>ip_recvs := xs @ zs\<rparr>\<rparr>) } = Some (r, y')"
      using assms dst Some t by (simp add: ipc_send_def Let_def)
    then show ?thesis using that(2) [OF Some [unfolded t]] unfolding bind_eq_Some_conv by auto
  qed
qed

lemma send_no_match:
  assumes "no_match (sy_ipc y)" "ipc_send y h pid slot m = Some (r, y')"
  shows "no_match (sy_ipc y')"
  using assms(2)
proof (cases rule: ipc_send_cases)
  case (2 dst xs z zs s)
  then show ?thesis using assms(1) match_recv_Some(1) [OF 2(1)] by (auto simp: no_match_def)
next
  case (3 dst s)
  then show ?thesis using assms(1) by (auto simp: no_match_def match_recv_None)
qed (use assms(1) in simp)

lemma ipc_recv_cases:
  assumes "ipc_recv y h pid slot = Some (b, y')"
  obtains e where "recv_source (sy_kernel y) pid slot = Err e" "b = Err e" "y' = y"
  | src xs x zs s where "recv_source (sy_kernel y) pid slot = Ok src" "match_send (ip_sends (sy_ipc y)) src pid = Some (xs, x, zs)"
      "b = Ok (RecvDone (ps_msg x))" "y' = y\<lparr>sy_sched := s, sy_ipc := (sy_ipc y)\<lparr>ip_sends := xs @ zs\<rparr>\<rparr>"
  | src s where "recv_source (sy_kernel y) pid slot = Ok src" "match_send (ip_sends (sy_ipc y)) src pid = None" "b = Ok RecvNoPeer"
      "y' = y\<lparr>sy_sched := s, sy_ipc := (sy_ipc y)\<lparr>ip_recvs := ip_recvs (sy_ipc y) @
         [\<lparr>pr_tid = current_id (sy_sched y) h, pr_pid = pid, pr_src = src\<rparr>]\<rparr>\<rparr>"
      "src = IPC_ACCEPT_ANY \<Longrightarrow> s = sy_sched y"
proof (cases "recv_source (sy_kernel y) pid slot")
  case (Err e)
  then have "b = Err e" "y' = y" using assms by (simp_all add: ipc_recv_def)
  then show ?thesis using that(1) [OF Err] by blast
next
  case (Ok src)
  show ?thesis
  proof (cases "match_send (ip_sends (sy_ipc y)) src pid")
    case None
    let ?i = "(sy_ipc y)\<lparr>ip_recvs := ip_recvs (sy_ipc y) @ [\<lparr>pr_tid = current_id (sy_sched y) h, pr_pid = pid, pr_src = src\<rparr>]\<rparr>"
    have "do { s \<leftarrow> (if src \<noteq> IPC_ACCEPT_ANY then donate_on_block (sy_sched y) (current_id (sy_sched y) h) src else Some (sy_sched y));
        Some (Ok RecvNoPeer, y\<lparr>sy_sched := s, sy_ipc := ?i\<rparr>) } = Some (b, y')"
      using assms Ok None by (simp add: ipc_recv_def Let_def)
    then obtain s where "b = Ok RecvNoPeer" "y' = y\<lparr>sy_sched := s, sy_ipc := ?i\<rparr>" "src = IPC_ACCEPT_ANY \<Longrightarrow> s = sy_sched y"
      by (cases "src = IPC_ACCEPT_ANY") (simp, unfold bind_eq_Some_conv, auto)
    then show ?thesis using that(3) [OF Ok None] by blast
  next
    case (Some t)
    obtain xs x zs where t: "t = (xs, x, zs)" by (cases t)
    have "do { (_, s) \<leftarrow> ipc_wake_with_msg (sy_sched y) h (ps_tid x) None;
        Some (Ok (RecvDone (ps_msg x)), y\<lparr>sy_sched := s, sy_ipc := (sy_ipc y)\<lparr>ip_sends := xs @ zs\<rparr>\<rparr>) } = Some (b, y')"
      using assms Ok Some t by (simp add: ipc_recv_def Let_def)
    then obtain s where "b = Ok (RecvDone (ps_msg x))" "y' = y\<lparr>sy_sched := s, sy_ipc := (sy_ipc y)\<lparr>ip_sends := xs @ zs\<rparr>\<rparr>"
      unfolding bind_eq_Some_conv by auto
    then show ?thesis using that(2) [OF Ok Some [unfolded t]] by blast
  qed
qed

lemma recv_no_match:
  assumes "no_match (sy_ipc y)" "ipc_recv y h pid slot = Some (b, y')"
  shows "no_match (sy_ipc y')"
  using assms(2)
proof (cases rule: ipc_recv_cases)
  case (2 src xs x zs s)
  then show ?thesis using assms(1) match_send_Some(1) [OF 2(2)] by (auto simp: no_match_def)
next
  case (3 src s)
  then show ?thesis using assms(1) by (auto simp: no_match_def match_send_None)
qed (use assms(1) in simp)

text \<open>
  C34. In every state that IPC calls can reach, in any interleaving with the rest of the kernel, no queued message
  has a receiver that waits for its sender: such a pair has met.
\<close>

theorem ipc_pairs_meet:
  assumes "ipc_reach y" "x \<in> set (ip_sends (sy_ipc y))" "r \<in> set (ip_recvs (sy_ipc y))"
  shows "\<not> (pr_pid r = ps_dst x \<and> pr_src r = ps_pid x)"
proof -
  have "no_match (sy_ipc y)" using assms(1)
  proof (induction rule: ipc_reach.induct)
    case (ipc_start y)
    then show ?case by (simp add: ipc_static_def no_match_def)
  next
    case (ipc_purged y h pid y')
    then show ?case by (auto simp: purge_process_def bind_eq_Some_conv no_match_def purge_queues_def)
  qed (auto intro: send_no_match recv_no_match)
  then show ?thesis using assms(2,3) by (simp add: no_match_def)
qed

text \<open>Two processes wait for different partners.\<close>

definition demo_waiting :: ipc_state where
  "demo_waiting = \<lparr>ip_sends = [\<lparr>ps_tid = 4, ps_pid = 2, ps_dst = 3, ps_msg = replicate 5 0\<rparr>],
     ip_recvs = [\<lparr>pr_tid = 4, pr_pid = 2, pr_src = IPC_ACCEPT_ANY\<rparr>]\<rparr>"

lemma demo_waiting_reach: "\<exists>y. ipc_reach y \<and> sy_ipc y = demo_waiting"
proof -
  let ?m = "replicate 5 0 :: msg"
  obtain y1 where y1: "ipc_send demo_system 0 2 0 ?m = Some (Ok SendNoPeer, y1)" "ipc_wf y1"
    "sy_ipc y1 = ipc_static\<lparr>ip_sends := [\<lparr>ps_tid = 4, ps_pid = 2, ps_dst = 3, ps_msg = ?m\<rparr>]\<rparr>" "sy_kernel y1 = demo_caps"
    "sc_current (sy_sched y1) 0 = 4"
  proof -
    obtain s' where s': "donate_on_block demo_run 4 3 = Some s'" "sc_current s' = sc_current demo_run"
      using donate_ok [OF ipc_wfD(1,2) [OF demo_system_wf(1)], of 4 3] demo_system_wf(2) by (auto simp: demo_system_def demo_running)
    then show ?thesis using ipc_send_spec [OF demo_system_wf(1), of 0 ?m 2 0] demo_system_wf(2) that
      by (auto simp: demo_system_def demo_cap ipc_static_def ipc_send_def Let_def current_id_def demo_running)
  qed
  have r0: "ipc_reach demo_system" by (rule ipc_start) (simp add: demo_system_def)
  have src: "recv_source demo_caps 2 3 = Ok IPC_ACCEPT_ANY" by (simp add: recv_source_def demo_cap)
  have "match_send (ip_sends (sy_ipc y1)) IPC_ACCEPT_ANY 2 = None" by (simp add: match_send_None y1(3) IPC_ACCEPT_ANY_def USIZE_MAX_def)
  then have "ipc_recv y1 0 2 3 = Some (Ok RecvNoPeer, y1\<lparr>sy_ipc := (sy_ipc y1)\<lparr>ip_recvs := ip_recvs (sy_ipc y1) @ [\<lparr>pr_tid = 4, pr_pid = 2, pr_src = IPC_ACCEPT_ANY\<rparr>]\<rparr>\<rparr>)"
    using y1(4,5) src by (simp add: ipc_recv_def Let_def current_id_def)
  from ipc_received [OF ipc_sent [OF r0 y1(1)] this] show ?thesis
    by (intro exI conjI) (assumption, simp add: y1(3) demo_waiting_def ipc_static_def)
qed

theorem ipc_pairs_meet_witness:
  "\<exists>y x r. ipc_reach y \<and> x \<in> set (ip_sends (sy_ipc y)) \<and> r \<in> set (ip_recvs (sy_ipc y)) \<and> \<not> (pr_pid r = ps_dst x \<and> pr_src r = ps_pid x)"
proof -
  obtain y where y: "ipc_reach y" "sy_ipc y = demo_waiting" using demo_waiting_reach by blast
  have m: "\<lparr>ps_tid = 4, ps_pid = 2, ps_dst = 3, ps_msg = replicate 5 0\<rparr> \<in> set (ip_sends (sy_ipc y))"
    "\<lparr>pr_tid = 4, pr_pid = 2, pr_src = IPC_ACCEPT_ANY\<rparr> \<in> set (ip_recvs (sy_ipc y))"
    using y(2) by (simp_all add: demo_waiting_def)
  show ?thesis using ipc_pairs_meet [OF y(1) m] y(1) m by blast
qed

section \<open>A listener overlooks a waiting sender\<close>

text \<open>
  C35. A receive on an empty slot is documented to accept a message from any process that may send to the
  caller. It never takes a queued message: even if a message for the caller waits, the call queues
  the caller as well, the message stays where it is, and sender and receiver both wait.
\<close>

theorem accept_any_overlooks_sender:
  assumes "cap_target (sy_kernel y) pid slot = Err NotFound" "x \<in> set (ip_sends (sy_ipc y))" "ps_dst x = pid"
    "\<forall>z\<in>set (ip_sends (sy_ipc y)). ps_pid z < IPC_ACCEPT_ANY"
  shows "ipc_recv y h pid slot = Some (Ok RecvNoPeer, y\<lparr>sy_ipc := (sy_ipc y)\<lparr>ip_recvs := ip_recvs (sy_ipc y) @
      [\<lparr>pr_tid = sc_current (sy_sched y) h, pr_pid = pid, pr_src = IPC_ACCEPT_ANY\<rparr>]\<rparr>\<rparr>)"
proof -
  have "match_send (ip_sends (sy_ipc y)) IPC_ACCEPT_ANY pid = None" using assms(4) by (auto simp: match_send_None)
  then show ?thesis using assms(1) by (simp add: ipc_recv_def recv_source_def Let_def current_id_def)
qed

theorem accept_any_overlooks_sender_witness:
  "\<exists>y'. ipc_recv (demo_system\<lparr>sy_ipc := ipc_static\<lparr>ip_sends := [\<lparr>ps_tid = 3, ps_pid = 5, ps_dst = 2, ps_msg = [1, 2, 3, 4, 5]\<rparr>]\<rparr>\<rparr>) 0 2 3
     = Some (Ok RecvNoPeer, y') \<and> length (ip_sends (sy_ipc y')) = 1 \<and> length (ip_recvs (sy_ipc y')) = 1"
proof -
  let ?x = "\<lparr>ps_tid = 3, ps_pid = 5, ps_dst = 2, ps_msg = [1, 2, 3, 4, 5]\<rparr>"
  let ?y = "demo_system\<lparr>sy_ipc := ipc_static\<lparr>ip_sends := [?x]\<rparr>\<rparr>"
  have a: "cap_target (sy_kernel ?y) 2 3 = Err NotFound" "?x \<in> set (ip_sends (sy_ipc ?y))" "ps_dst ?x = 2"
    "\<forall>z\<in>set (ip_sends (sy_ipc ?y)). ps_pid z < IPC_ACCEPT_ANY"
    by (simp_all add: demo_system_def demo_cap IPC_ACCEPT_ANY_def USIZE_MAX_def)
  show ?thesis using accept_any_overlooks_sender [OF a, of 0] by (simp add: ipc_static_def)
qed

section \<open>The partners of a dead process\<close>

text \<open>
  \<^verbatim>\<open>purge_process\<close> returns on a well-formed system; no queued message or receiver of the process, or
  waiting for it, is left, every other entry stays in its order, and every thread of a surviving
  process that waited for it is no longer blocked. Threads that did not wait for it stay as they were.
\<close>

theorem purge_process_spec:
  assumes "ipc_wf y"
  shows "\<exists>y'. purge_process y h pid = Some y' \<and> ipc_wf y' \<and> sy_kernel y' = sy_kernel y \<and>
    ip_sends (sy_ipc y') = filter (\<lambda>x. ps_pid x \<noteq> pid \<and> ps_dst x \<noteq> pid) (ip_sends (sy_ipc y)) \<and>
    ip_recvs (sy_ipc y') = filter (\<lambda>r. pr_pid r \<noteq> pid \<and> pr_src r \<noteq> pid) (ip_recvs (sy_ipc y)) \<and>
    (\<forall>i<nthreads (sy_sched y). (t_state (thr (sy_sched y') i) = Blocked) =
       (t_state (thr (sy_sched y) i) = Blocked \<and>
        \<not> (\<exists>r\<in>set (ip_recvs (sy_ipc y)). pr_tid r = i \<and> pr_src r = pid \<and> pr_pid r \<noteq> pid) \<and>
        \<not> (\<exists>x\<in>set (ip_sends (sy_ipc y)). ps_tid x = i \<and> ps_dst x = pid \<and> ps_pid x \<noteq> pid)))"
proof -
  note w = ipc_wfD [OF assms]
  let ?ps = "purge_partners (sy_ipc y) pid"
  have p: "i \<in> set ?ps \<longleftrightarrow> (\<exists>r\<in>set (ip_recvs (sy_ipc y)). pr_tid r = i \<and> pr_src r = pid \<and> pr_pid r \<noteq> pid) \<or>
      (\<exists>x\<in>set (ip_sends (sy_ipc y)). ps_tid x = i \<and> ps_dst x = pid \<and> ps_pid x \<noteq> pid)" for i
    by (auto simp: purge_partners_def)
  have "\<forall>i\<in>set ?ps. i < nthreads (sy_sched y)" using w(3) p by (auto simp: tids_ok_def)
  then obtain s' where s': "wake_all_err (sy_sched y) h ?ps SYS_ERR_ENOENT = Some s'" "sched_wf s'" "blocked_pc_ok s'"
    "\<forall>i. i < nthreads (sy_sched y) \<longrightarrow> i < nthreads s'"
    "\<forall>i. i < nthreads (sy_sched y) \<longrightarrow> (t_state (thr s' i) = Blocked) = (t_state (thr (sy_sched y) i) = Blocked \<and> i \<notin> set ?ps)"
    using err.wake_list_ok [of "sy_sched y" ?ps h SYS_ERR_ENOENT] w(1,2) unfolding wake_all_err_list by blast
  have q: "ip_sends (purge_queues (sy_ipc y) pid) = filter (\<lambda>x. ps_pid x \<noteq> pid \<and> ps_dst x \<noteq> pid) (ip_sends (sy_ipc y))"
    "ip_recvs (purge_queues (sy_ipc y) pid) = filter (\<lambda>r. pr_pid r \<noteq> pid \<and> pr_src r \<noteq> pid) (ip_recvs (sy_ipc y))"
    by (simp_all add: purge_queues_def conj_commute)
  have "tids_ok (purge_queues (sy_ipc y) pid) (nthreads s')" "no_match (purge_queues (sy_ipc y) pid)"
    using w(3,4) s'(4) by (auto simp: tids_ok_def no_match_def q)
  then show ?thesis using s' p q by (simp add: purge_process_def ipc_wf_def)
qed

theorem purge_process_spec_witness:
  "\<exists>y'. purge_process demo_system 0 2 = Some y' \<and> ipc_wf y' \<and> ip_sends (sy_ipc y') = []"
  using purge_process_spec [OF demo_system_wf(1), of 0 2] by (auto simp: demo_system_def ipc_static_def)

end
