(* ===== verification/Syscall_Main.thy ===== *)
theory Syscall_Main
  imports Syscall Ipc_Main
begin

text \<open>
  Properties of the system call path: a message arrives the same way whoever comes first, and a system
  call changes no register of the caller it does not own. Also the arithmetic of the trap entry.
\<close>

section \<open>The trap entry\<close>

text \<open>
  The hart number computed from sscratch is right both for the top of the hart's trap stack and for a
  frame inside it.
\<close>

lemma hartid_right:
  assumes "h < MAX_HARTS" "base + MAX_HARTS * TRAP_STRIDE < USIZE_LIMIT" "base + h * TRAP_STRIDE < p" "p \<le> hart_trap_top base h"
  shows "hartid base p = h"
proof -
  define d where "d = p - base - h * 2 ^ 15"
  have d: "p = base + h * 2 ^ 15 + d" "0 < d" "d \<le> 2 ^ 15" using assms(3,4) by (auto simp: hart_trap_top_def d_def)
  have lim: "h * 2 ^ 15 + d < USIZE_LIMIT" using assms(2) d(1,3) assms(1) by simp
  have "base \<le> USIZE_LIMIT" using assms(2) by simp
  then have "p + (USIZE_LIMIT - base) = h * 2 ^ 15 + d + USIZE_LIMIT" using d(1) by (simp del: USIZE_LIMIT_def)
  then have "(p + (USIZE_LIMIT - base)) mod USIZE_LIMIT = (h * 2 ^ 15 + d) mod USIZE_LIMIT"
    by (simp del: USIZE_LIMIT_def)
  also have "\<dots> = h * 2 ^ 15 + d" using lim by (rule mod_less)
  finally have off: "(p + (USIZE_LIMIT - base)) mod USIZE_LIMIT = h * 2 ^ 15 + d" .
  show ?thesis
  proof (cases "d = 2 ^ 15")
    case True
    then show ?thesis using assms(1) unfolding hartid_def off Let_def by simp
  next
    case False
    then have "d < 2 ^ 15" using d(3) by simp
    then show ?thesis using d(2) unfolding hartid_def off Let_def by simp
  qed
qed

lemma trap_frame_in_slot:
  assumes "trap_frame_ok base h f"
  shows "base + h * TRAP_STRIDE \<le> f" "f + FRAME_WORDS * 8 \<le> hart_trap_top base h" "f mod 16 = 0"
  using assms by (auto simp: trap_frame_ok_def hart_trap_top_def Let_def)

text \<open>The next deadline is never in the past, up to the wrap-around of the clock.\<close>

lemma timer_next_future:
  assumes "now + interval < USIZE_LIMIT" "deadline + interval < USIZE_LIMIT"
  shows "now \<le> timer_next deadline interval now" "timer_next deadline interval now \<le> max now deadline + interval"
  using assms by (auto simp: timer_next_def Let_def)

section \<open>Frames\<close>

lemma sys_ret_eq:
  assumes "length f = 36" "f ! 33 + 4 < 2 ^ 64"
  shows "sys_ret f v = Some (msg_frame f v None)"
  using msg_frame_eq [of f None v] assms by (simp add: sys_ret_def)

text \<open>What a return from a system call may change: the status and message registers, and the program counter moves on.\<close>

definition ret_frame :: "frame \<Rightarrow> frame \<Rightarrow> bool" where
  "ret_frame f g \<longleftrightarrow> length g = length f \<and> g ! FRAME_SEPC = f ! FRAME_SEPC + 4 \<and>
     (\<forall>i<length f. i \<noteq> FRAME_SEPC \<longrightarrow> i < X_A0 \<or> X_A5 < i \<longrightarrow> g ! i = f ! i)"

lemma sys_ret_frame:
  assumes "sys_ret f v = Some g" "length f = 36"
  shows "ret_frame f g"
  using assms by (auto simp: sys_ret_def advance_sepc_def uadd_def ret_frame_def split: if_splits)

lemma write_ret_frame:
  assumes "write_words (f[X_A0 := v]) X_A1 m = Some f1" "advance_sepc f1 = Some g" "length f = 36" "length m \<le> 5"
  shows "ret_frame f g"
proof -
  have "write_words (f[9 := v]) 10 m = Some (take 10 (f[9 := v]) @ m @ drop (10 + length m) (f[9 := v]))"
    by (rule write_words_eq) (use assms in simp)
  then have f1: "f1 = take 10 (f[9 := v]) @ m @ drop (10 + length m) (f[9 := v])" using assms(1) by simp
  have n: "length f1 = 36" using assms(3,4) by (simp add: f1)
  have same: "f1 ! i = f ! i" if "i < 36" "i < 9 \<or> 14 < i" for i
    using that assms(3,4) by (auto simp: f1 nth_append)
  have "g = f1[33 := f1 ! 33 + 4]" using assms(2) by (auto simp: advance_sepc_def uadd_def split: if_splits)
  then show ?thesis using n same assms(3) by (auto simp: ret_frame_def nth_list_update)
qed

lemma apply_wake_frame:
  assumes "apply_wake f w = Some g" "length f = 36" "\<And>m. w = WakeMsg m \<Longrightarrow> length m \<le> 5"
  shows "ret_frame f g"
proof (cases w)
  case (WakeMsg m)
  then obtain f1 where "write_words (f[X_A0 := 0]) X_A1 m = Some f1" "advance_sepc f1 = Some g"
    using assms(1) by (auto simp: apply_wake_def bind_eq_Some_conv)
  then show ?thesis using write_ret_frame assms(2,3) WakeMsg by blast
next
  case (WakeErr code)
  then have "sys_ret f code = Some g" using assms(1) by (simp add: apply_wake_def sys_ret_def)
  then show ?thesis using assms(2) by (rule sys_ret_frame)
qed

section \<open>Blocking in a system call\<close>

lemma sys_block_ok:
  assumes y: "ipc_wf y" and h: "h < 4" and n: "sc_current (sy_sched y) h \<noteq> sc_idle (sy_sched y) h"
    and w: "t_ipc_wake (thr (sy_sched y) (sc_current (sy_sched y) h)) = None"
    and f: "length frame = 36" "frame ! 33 + 4 < 2 ^ 64" and regs: "length (c_s regs) = 12"
  obtains t s' where "sys_block y h frame regs = Some (SysBlocked t, y\<lparr>sy_sched := s'\<rparr>)" "ipc_wf (y\<lparr>sy_sched := s'\<rparr>)"
    "nthreads s' = nthreads (sy_sched y)"
    "t_state (thr s' (sc_current (sy_sched y) h)) = Blocked" "t_frame (thr s' (sc_current (sy_sched y) h)) = frame"
    "\<forall>g<4. g \<noteq> h \<longrightarrow> sc_current s' g = sc_current (sy_sched y) g \<and> thr s' (sc_current (sy_sched y) g) = thr (sy_sched y) (sc_current (sy_sched y) g)"
    "sc_donations s' = sc_donations (sy_sched y)" "sc_idle s' = sc_idle (sy_sched y)"
proof -
  note iw = ipc_wfD [OF y]
  let ?s = "sy_sched y"
  obtain t s' where b: "block_user_from_trap ?s h frame regs = Some (Inr t, s')" "sched_wf s'" "nthreads s' = nthreads ?s"
    "thr s' (sc_current ?s h) = (thr ?s (sc_current ?s h))\<lparr>t_frame := frame, t_frame_valid := True, t_ctx_valid := False,
       t_woken := False, t_state := Blocked, t_ctx := regs\<rparr>"
    "\<And>j. j < nthreads ?s \<Longrightarrow> j \<noteq> sc_current ?s h \<Longrightarrow> j \<noteq> sc_current s' h \<Longrightarrow> thr s' j = thr ?s j"
    "\<forall>g. g \<noteq> h \<longrightarrow> sc_current s' g = sc_current ?s g" "sc_donations s' = sc_donations ?s" "sc_idle s' = sc_idle ?s"
    by (rule block_user_ok [OF iw(1) h n regs f(1) w]) (rule that; assumption)
  have other: "sc_current s' g = sc_current ?s g \<and> thr s' (sc_current ?s g) = thr ?s (sc_current ?s g)" if "g < 4" "g \<noteq> h" for g
  proof -
    have g: "sc_current s' g = sc_current ?s g" using b(6) that(2) by blast
    have "sc_current ?s g \<noteq> sc_current s' h" using cur_inj [OF b(2) h that] g by simp
    then show ?thesis using b(5) [of "sc_current ?s g"] cur_okD(1) [OF iw(1) that(1)] cur_inj [OF iw(1) h that] g by simp
  qed
  have "blocked_pc_ok s'" unfolding blocked_pc_ok_def
  proof (intro allI impI)
    fix j assume j: "j < nthreads s'" "t_state (thr s' j) = Blocked"
    have "j \<noteq> sc_current s' h" using cur_okD(2) [OF b(2) h] j(2) by auto
    then show "frame_pc_ok s' j"
      using b(3-5) f(2) j iw(2) by (cases "j = sc_current ?s h") (auto simp: frame_pc_ok_def blocked_pc_ok_def)
  qed
  then have "ipc_wf (y\<lparr>sy_sched := s'\<rparr>)" using iw b(2,3) by (simp add: ipc_wf_def)
  then show ?thesis using that [of t s'] b other by (simp add: sys_block_def)
qed

lemma extract_last: "\<forall>x\<in>set xs. \<not> P x \<Longrightarrow> P x \<Longrightarrow> List.extract P (xs @ [x]) = Some (xs, x, [])"
  by (simp add: extract_Some_iff)

text \<open>The receiver's side of an encounter.\<close>

definition msg_of :: "frame \<Rightarrow> msg" where
  "msg_of f = [f ! X_A1, f ! X_A2, f ! X_A3, f ! X_A4, f ! X_A5]"

text \<open>
  A sender on hart \<open>hs\<close> and a receiver on hart \<open>hr\<close> are about to call into the kernel: user threads of the
  processes \<open>ps\<close> and \<open>pr\<close>, each with a capability for the other, and no earlier message or receiver
  of the two is queued.
\<close>

definition meeting :: "system \<Rightarrow> nat \<Rightarrow> nat \<Rightarrow> nat \<Rightarrow> nat \<Rightarrow> frame \<Rightarrow> frame \<Rightarrow> bool" where
  "meeting y hs hr ps pr fs fr \<longleftrightarrow>
     (let s = sy_sched y in
      ipc_wf y \<and> hs < MAX_HARTS \<and> hr < MAX_HARTS \<and> hs \<noteq> hr \<and>
      (\<forall>(h, p)\<in>{(hs, ps), (hr, pr)}. sc_current s h \<noteq> sc_idle s h \<and> t_proc (thr s (sc_current s h)) = Some p \<and>
         t_ipc_wake (thr s (sc_current s h)) = None \<and> (\<forall>d\<in>set (sc_donations s). d_donor d \<noteq> sc_current s h)) \<and>
      cap_target (sy_kernel y) ps (fs ! X_A0) = Ok (Proc pr) \<and> cap_target (sy_kernel y) pr (fr ! X_A0) = Ok (Proc ps) \<and>
      ps \<noteq> IPC_ACCEPT_ANY \<and> match_recv (ip_recvs (sy_ipc y)) ps pr = None \<and> match_send (ip_sends (sy_ipc y)) ps pr = None \<and>
      (\<forall>f\<in>{fs, fr}. length f = FRAME_WORDS \<and> f ! FRAME_SEPC + 4 < USIZE_LIMIT) \<and>
      fs ! X_A7 = SYSCALL_IPC_SEND \<and> fr ! X_A7 = SYSCALL_IPC_RECV)"

lemma meetingD:
  assumes "meeting y hs hr ps pr fs fr"
  shows "ipc_wf y" "hs < 4" "hr < 4" "hs \<noteq> hr"
    "sc_current (sy_sched y) hs \<noteq> sc_idle (sy_sched y) hs" "sc_current (sy_sched y) hr \<noteq> sc_idle (sy_sched y) hr"
    "t_proc (thr (sy_sched y) (sc_current (sy_sched y) hs)) = Some ps" "t_proc (thr (sy_sched y) (sc_current (sy_sched y) hr)) = Some pr"
    "t_ipc_wake (thr (sy_sched y) (sc_current (sy_sched y) hs)) = None" "t_ipc_wake (thr (sy_sched y) (sc_current (sy_sched y) hr)) = None"
    "\<forall>d\<in>set (sc_donations (sy_sched y)). d_donor d \<noteq> sc_current (sy_sched y) hs"
    "\<forall>d\<in>set (sc_donations (sy_sched y)). d_donor d \<noteq> sc_current (sy_sched y) hr"
    "cap_target (sy_kernel y) ps (fs ! X_A0) = Ok (Proc pr)" "cap_target (sy_kernel y) pr (fr ! X_A0) = Ok (Proc ps)" "ps \<noteq> IPC_ACCEPT_ANY"
    "match_recv (ip_recvs (sy_ipc y)) ps pr = None" "match_send (ip_sends (sy_ipc y)) ps pr = None"
    "length fs = 36" "fs ! 33 + 4 < 2 ^ 64" "length fr = 36" "fr ! 33 + 4 < 2 ^ 64" "fs ! X_A7 = 3" "fr ! X_A7 = 4"
  using assms unfolding meeting_def Let_def by simp_all

lemma current_proc_eq: "sc_current s h < nthreads s \<Longrightarrow> t_proc (thr s (sc_current s h)) = Some p \<Longrightarrow> current_proc s h = Some p"
  by (simp add: current_proc_def)

text \<open>The first of the two donates its priority, is queued and blocks; the other's hart is not affected.\<close>

lemma wait_ok:
  assumes y: "ipc_wf y" and h: "h < 4" and n: "sc_current (sy_sched y) h \<noteq> sc_idle (sy_sched y) h"
    and w: "t_ipc_wake (thr (sy_sched y) (sc_current (sy_sched y) h)) = None"
    and don: "\<forall>d\<in>set (sc_donations (sy_sched y)). d_donor d \<noteq> sc_current (sy_sched y) h"
    and f: "length frame = 36" "frame ! 33 + 4 < 2 ^ 64" and regs: "length (c_s regs) = 12"
    and ipc: "tids_ok ipc (nthreads (sy_sched y))" "no_match ipc"
  obtains t s1 s2 where "donate_on_block (sy_sched y) (sc_current (sy_sched y) h) p = Some s1"
    "sys_block (y\<lparr>sy_sched := s1, sy_ipc := ipc\<rparr>) h frame regs = Some (SysBlocked t, y\<lparr>sy_sched := s2, sy_ipc := ipc\<rparr>)"
    "ipc_wf (y\<lparr>sy_sched := s2, sy_ipc := ipc\<rparr>)" "nthreads s2 = nthreads (sy_sched y)"
    "t_state (thr s2 (sc_current (sy_sched y) h)) = Blocked" "t_frame (thr s2 (sc_current (sy_sched y) h)) = frame"
    "\<And>g. g < 4 \<Longrightarrow> g \<noteq> h \<Longrightarrow> sc_current s2 g = sc_current (sy_sched y) g \<and> thr s2 (sc_current (sy_sched y) g) = thr (sy_sched y) (sc_current (sy_sched y) g)"
    "\<And>g. g < 4 \<Longrightarrow> g \<noteq> h \<Longrightarrow> \<forall>d\<in>set (sc_donations (sy_sched y)). d_donor d \<noteq> sc_current (sy_sched y) g \<Longrightarrow>
       \<forall>d\<in>set (sc_donations s2). d_donor d \<noteq> sc_current (sy_sched y) g"
proof -
  note iw = ipc_wfD [OF y]
  let ?s = "sy_sched y"
  have c: "sc_current ?s h < nthreads ?s" by (rule cur_okD(1) [OF iw(1) h])
  obtain s1 where s1: "donate_on_block ?s (sc_current ?s h) p = Some s1" "sched_wf s1" "blocked_pc_ok s1" "sc_threads s1 = sc_threads ?s"
    "sc_current s1 = sc_current ?s" "sc_idle s1 = sc_idle ?s" "\<forall>d\<in>set (sc_donations s1). d \<in> set (sc_donations ?s) \<or> d_donor d = sc_current ?s h"
    using donate_ok [OF iw(1,2) c don] by blast
  let ?y = "y\<lparr>sy_sched := s1, sy_ipc := ipc\<rparr>"
  have y1: "ipc_wf ?y" using s1 ipc by (simp add: ipc_wf_def)
  have n1: "sc_current (sy_sched ?y) h \<noteq> sc_idle (sy_sched ?y) h" and w1: "t_ipc_wake (thr (sy_sched ?y) (sc_current (sy_sched ?y) h)) = None"
    using n w s1 by simp_all
  obtain t s2 where b: "sys_block ?y h frame regs = Some (SysBlocked t, ?y\<lparr>sy_sched := s2\<rparr>)" "ipc_wf (?y\<lparr>sy_sched := s2\<rparr>)"
    "nthreads s2 = nthreads (sy_sched ?y)" "t_state (thr s2 (sc_current (sy_sched ?y) h)) = Blocked" "t_frame (thr s2 (sc_current (sy_sched ?y) h)) = frame"
    "\<forall>g<4. g \<noteq> h \<longrightarrow> sc_current s2 g = sc_current (sy_sched ?y) g \<and> thr s2 (sc_current (sy_sched ?y) g) = thr (sy_sched ?y) (sc_current (sy_sched ?y) g)"
    "sc_donations s2 = sc_donations (sy_sched ?y)"
    by (rule sys_block_ok [OF y1 h n1 w1 f regs]) (rule that; assumption)
  have dn: "\<forall>d\<in>set (sc_donations s2). d_donor d \<noteq> sc_current ?s g"
    if "g < 4" "g \<noteq> h" "\<forall>d\<in>set (sc_donations ?s). d_donor d \<noteq> sc_current ?s g" for g
    using b(7) s1(7) that(3) cur_inj [OF iw(1) h that(1,2)] by auto
  have eq: "?y\<lparr>sy_sched := s2\<rparr> = y\<lparr>sy_sched := s2, sy_ipc := ipc\<rparr>" by (rule system.equality) simp_all
  show ?thesis by (rule that [of s1 t s2, OF s1(1) b(1,2) [unfolded eq]]) (use s1(4,5) b(3-) dn in simp_all)
qed

lemma match_recv_last:
  assumes "match_recv rs pid dst = None" "pr_pid r = dst" "pr_src r = pid"
  shows "match_recv (rs @ [r]) pid dst = Some (rs, r, [])"
proof -
  have "List.extract (\<lambda>r. pr_pid r = dst \<and> pr_src r = pid) (rs @ [r]) = Some (rs, r, [])"
    by (rule extract_last) (use assms in \<open>auto simp: match_recv_None\<close>)
  then show ?thesis by (simp add: match_recv_def)
qed

lemma match_send_last:
  assumes "match_send ss src pid = None" "ps_pid x = src" "ps_dst x = pid"
  shows "match_send (ss @ [x]) src pid = Some (ss, x, [])"
  unfolding match_send_def by (rule extract_last) (use assms in \<open>auto simp: match_send_None\<close>)

lemma msg_of_length: "length (msg_of f) = 5"
  by (simp add: msg_of_def)

lemma receiver_first:
  assumes m: "meeting y hs hr ps pr fs fr" and regs: "length (c_s rr) = 12"
  shows "\<exists>t y1 y2. handle ly y hr fr rr tk = Some (SysBlocked t, y1) \<and>
    handle ly y1 hs fs rs tk = Some (SysReturn (msg_frame fs 0 None), y2) \<and> ipc_wf y2 \<and>
    t_state (thr (sy_sched y2) (sc_current (sy_sched y) hr)) = Ready \<and>
    t_frame (thr (sy_sched y2) (sc_current (sy_sched y) hr)) = msg_frame fr 0 (Some (msg_of fs)) \<and> sy_ipc y2 = sy_ipc y"
proof -
  note d = meetingD [OF m]
  note iw = ipc_wfD [OF d(1)]
  let ?s = "sy_sched y"
  let ?cr = "sc_current ?s hr" and ?cs = "sc_current ?s hs"
  have cr: "?cr < nthreads ?s" by (rule cur_okD(1) [OF iw(1) d(3)])
  have cs: "?cs < nthreads ?s" by (rule cur_okD(1) [OF iw(1) d(2)])
  let ?r = "\<lparr>pr_tid = ?cr, pr_pid = pr, pr_src = ps\<rparr>"
  let ?i = "(sy_ipc y)\<lparr>ip_recvs := ip_recvs (sy_ipc y) @ [?r]\<rparr>"
  have i: "tids_ok ?i (nthreads ?s)" "no_match ?i" using iw(3,4) cr d(17) by (auto simp: tids_ok_def no_match_def match_send_None)
  obtain t s1 s2 where w: "donate_on_block ?s ?cr ps = Some s1"
    "sys_block (y\<lparr>sy_sched := s1, sy_ipc := ?i\<rparr>) hr fr rr = Some (SysBlocked t, y\<lparr>sy_sched := s2, sy_ipc := ?i\<rparr>)"
    "ipc_wf (y\<lparr>sy_sched := s2, sy_ipc := ?i\<rparr>)" "nthreads s2 = nthreads ?s" "t_state (thr s2 ?cr) = Blocked" "t_frame (thr s2 ?cr) = fr"
    "sc_current s2 hs = ?cs" "thr s2 ?cs = thr ?s ?cs"
    using wait_ok [OF d(1,3,6,10,12,20,21) regs i, of ps] d(2,4) by metis
  let ?y = "y\<lparr>sy_sched := s2, sy_ipc := ?i\<rparr>"
  have p1: "current_proc ?s hr = Some pr" by (rule current_proc_eq [OF cr d(8)])
  have "ipc_recv y hr pr (fr ! 9) = Some (Ok RecvNoPeer, y\<lparr>sy_sched := s1, sy_ipc := ?i\<rparr>)"
    using d(14,15,17) w(1) by (simp add: ipc_recv_def recv_source_def Let_def current_id_def)
  then have h1: "handle ly y hr fr rr tk = Some (SysBlocked t, ?y)"
    using d(23) p1 w(2) by (simp add: handle_def Let_def sys_recv_def)
  note iw2 = ipc_wfD [OF w(3)]
  have p2: "current_proc s2 hs = Some ps" by (rule current_proc_eq) (use w(4,7,8) cs d(7) in simp_all)
  have mx: "\<forall>x. Some (msg_of fs) = Some x \<longrightarrow> length x = 5" by (simp add: msg_of_length)
  have cr2: "?cr < nthreads s2" using w(4) cr by simp
  obtain b s3 where s3: "ipc_wake_with_msg s2 hs ?cr (Some (msg_of fs)) = Some (b, s3)" "sched_wf s3" "blocked_pc_ok s3" "nthreads s3 = nthreads s2"
    "t_state (thr s2 ?cr) = Blocked \<Longrightarrow> t_state (thr s3 ?cr) = Ready \<and> t_frame (thr s3 ?cr) = msg_frame (t_frame (thr s2 ?cr)) 0 (Some (msg_of fs))"
    using deliver_ok [OF iw2(1,2) _ mx, of ?cr hs] cr2 by (simp, metis)
  have mr: "match_recv (ip_recvs ?i) ps pr = Some (ip_recvs (sy_ipc y), ?r, [])"
    using match_recv_last [OF d(16), of ?r] by simp
  have "ipc_send ?y hs ps (fs ! 9) (msg_of fs) = Some (Ok SendDone, y\<lparr>sy_sched := s3, sy_ipc := sy_ipc y\<rparr>)"
    using d(13) mr s3(1) by (simp add: ipc_send_def Let_def)
  then have h2: "handle ly ?y hs fs rs tk = Some (SysReturn (msg_frame fs 0 None), y\<lparr>sy_sched := s3, sy_ipc := sy_ipc y\<rparr>)"
    using d(22) p2 sys_ret_eq [OF d(18,19)] by (simp add: handle_def Let_def sys_send_def msg_of_def)
  have "ipc_wf (y\<lparr>sy_sched := s3, sy_ipc := sy_ipc y\<rparr>)" using s3(2-4) w(4) iw by (simp add: ipc_wf_def)
  then show ?thesis using h1 h2 s3(5) w(5,6)
    by (intro exI [of _ t] exI [of _ ?y] exI [of _ "y\<lparr>sy_sched := s3, sy_ipc := sy_ipc y\<rparr>"]) simp
qed

lemma sender_first:
  assumes m: "meeting y hs hr ps pr fs fr" and regs: "length (c_s rs) = 12"
  shows "\<exists>t y1 y2. handle ly y hs fs rs tk = Some (SysBlocked t, y1) \<and>
    handle ly y1 hr fr rr tk = Some (SysReturn (msg_frame fr 0 (Some (msg_of fs))), y2) \<and> ipc_wf y2 \<and>
    t_state (thr (sy_sched y2) (sc_current (sy_sched y) hs)) = Ready \<and>
    t_frame (thr (sy_sched y2) (sc_current (sy_sched y) hs)) = msg_frame fs 0 None \<and> sy_ipc y2 = sy_ipc y"
proof -
  note d = meetingD [OF m]
  note iw = ipc_wfD [OF d(1)]
  let ?s = "sy_sched y"
  let ?cr = "sc_current ?s hr" and ?cs = "sc_current ?s hs"
  have cr: "?cr < nthreads ?s" by (rule cur_okD(1) [OF iw(1) d(3)])
  have cs: "?cs < nthreads ?s" by (rule cur_okD(1) [OF iw(1) d(2)])
  let ?x = "\<lparr>ps_tid = ?cs, ps_pid = ps, ps_dst = pr, ps_msg = msg_of fs\<rparr>"
  let ?i = "(sy_ipc y)\<lparr>ip_sends := ip_sends (sy_ipc y) @ [?x]\<rparr>"
  have i: "tids_ok ?i (nthreads ?s)" "no_match ?i"
    using iw(3,4) cs d(16) by (auto simp: tids_ok_def no_match_def match_recv_None msg_of_length)
  obtain t s1 s2 where w: "donate_on_block ?s ?cs pr = Some s1"
    "sys_block (y\<lparr>sy_sched := s1, sy_ipc := ?i\<rparr>) hs fs rs = Some (SysBlocked t, y\<lparr>sy_sched := s2, sy_ipc := ?i\<rparr>)"
    "ipc_wf (y\<lparr>sy_sched := s2, sy_ipc := ?i\<rparr>)" "nthreads s2 = nthreads ?s" "t_state (thr s2 ?cs) = Blocked" "t_frame (thr s2 ?cs) = fs"
    "sc_current s2 hr = ?cr" "thr s2 ?cr = thr ?s ?cr"
    using wait_ok [OF d(1,2,5,9,11,18,19) regs i, of pr] d(3,4) by metis
  let ?y = "y\<lparr>sy_sched := s2, sy_ipc := ?i\<rparr>"
  have p1: "current_proc ?s hs = Some ps" by (rule current_proc_eq [OF cs d(7)])
  have "ipc_send y hs ps (fs ! 9) (msg_of fs) = Some (Ok SendNoPeer, y\<lparr>sy_sched := s1, sy_ipc := ?i\<rparr>)"
    using d(13,16) w(1) by (simp add: ipc_send_def Let_def current_id_def)
  then have h1: "handle ly y hs fs rs tk = Some (SysBlocked t, ?y)"
    using d(22) p1 w(2) by (simp add: handle_def Let_def sys_send_def msg_of_def)
  note iw2 = ipc_wfD [OF w(3)]
  have p2: "current_proc s2 hr = Some pr" by (rule current_proc_eq) (use w(4,7,8) cr d(8) in simp_all)
  have mx: "\<forall>x. (None :: msg option) = Some x \<longrightarrow> length x = 5" by simp
  have cs2: "?cs < nthreads s2" using w(4) cs by simp
  obtain b s3 where s3: "ipc_wake_with_msg s2 hr ?cs None = Some (b, s3)" "sched_wf s3" "blocked_pc_ok s3" "nthreads s3 = nthreads s2"
    "t_state (thr s2 ?cs) = Blocked \<Longrightarrow> t_state (thr s3 ?cs) = Ready \<and> t_frame (thr s3 ?cs) = msg_frame (t_frame (thr s2 ?cs)) 0 None"
    using deliver_ok [OF iw2(1,2) _ mx, of ?cs hr] cs2 by (simp, metis)
  have ms: "match_send (ip_sends ?i) ps pr = Some (ip_sends (sy_ipc y), ?x, [])"
    using match_send_last [OF d(17), of ?x] by simp
  have "ipc_recv ?y hr pr (fr ! 9) = Some (Ok (RecvDone (msg_of fs)), y\<lparr>sy_sched := s3, sy_ipc := sy_ipc y\<rparr>)"
    using d(14) ms s3(1) by (simp add: ipc_recv_def recv_source_def Let_def)
  moreover have "do { f \<leftarrow> write_words (fr[9 := 0]) 10 (msg_of fs); f \<leftarrow> advance_sepc f; Some (SysReturn f, z) } =
      Some (SysReturn (msg_frame fr 0 (Some (msg_of fs))), z)" for z :: system
    using msg_frame_eq [OF d(20,21), of "Some (msg_of fs)" 0] by (auto simp: msg_of_length bind_eq_Some_conv)
  ultimately have h2: "handle ly ?y hr fr rr tk = Some (SysReturn (msg_frame fr 0 (Some (msg_of fs))), y\<lparr>sy_sched := s3, sy_ipc := sy_ipc y\<rparr>)"
    using d(23) p2 by (simp add: handle_def Let_def sys_recv_def)
  have "ipc_wf (y\<lparr>sy_sched := s3, sy_ipc := sy_ipc y\<rparr>)" using s3(2-4) w(4) iw by (simp add: ipc_wf_def)
  then show ?thesis using h1 h2 s3(5) w(5,6)
    by (intro exI [of _ t] exI [of _ ?y] exI [of _ "y\<lparr>sy_sched := s3, sy_ipc := sy_ipc y\<rparr>"]) simp
qed

text \<open>
  C37. A rendezvous does not depend on who comes first. Two processes with capabilities for each other call send
  and receive on two harts. In either order the first call blocks and the second returns; the sender
  returns to user mode with the same frame in both orders, and so does the receiver: status 0 and,
  for the receiver, the five words of the sender's registers. No trace is left in the queues.
\<close>

theorem rendezvous:
  assumes "meeting y hs hr ps pr fs fr" "length (c_s rs) = 12" "length (c_s rr) = 12"
  shows "\<exists>gs gr t y1 y2 u z1 z2.
    handle ly y hr fr rr tk = Some (SysBlocked t, y1) \<and> handle ly y1 hs fs rs tk = Some (SysReturn gs, y2) \<and>
    t_state (thr (sy_sched y2) (sc_current (sy_sched y) hr)) = Ready \<and> t_frame (thr (sy_sched y2) (sc_current (sy_sched y) hr)) = gr \<and>
    handle ly y hs fs rs tk = Some (SysBlocked u, z1) \<and> handle ly z1 hr fr rr tk = Some (SysReturn gr, z2) \<and>
    t_state (thr (sy_sched z2) (sc_current (sy_sched y) hs)) = Ready \<and> t_frame (thr (sy_sched z2) (sc_current (sy_sched y) hs)) = gs \<and>
    gs ! X_A0 = 0 \<and> gr ! X_A0 = 0 \<and> take 5 (drop X_A1 gr) = take 5 (drop X_A1 fs) \<and>
    ipc_wf y2 \<and> ipc_wf z2 \<and> sy_ipc y2 = sy_ipc y \<and> sy_ipc z2 = sy_ipc y"
proof -
  note d = meetingD [OF assms(1)]
  have "take 5 (drop 10 (msg_frame fr 0 (Some (msg_of fs)))) = msg_of fs"
    using d(20) by (simp add: msg_frame_def Let_def msg_of_def drop_update_swap)
  moreover have "take 5 (drop 10 fs) = msg_of fs"
    by (rule nth_equalityI) (use d(18) in \<open>auto simp: msg_of_def nth_Cons' less_Suc_eq numeral_eq_Suc\<close>)
  moreover have "msg_frame fs 0 None ! 9 = 0" "msg_frame fr 0 (Some (msg_of fs)) ! 9 = 0"
    using d(18,20) by (simp_all add: msg_frame_def Let_def nth_append)
  ultimately show ?thesis
    using receiver_first [OF assms(1,3), of ly tk rs] sender_first [OF assms(1,2), of ly tk rr] by (simp, metis)
qed

text \<open>Two user threads that run on harts 0 and 1.\<close>

lemma run_ready:
  assumes w: "sched_wf s" and h: "h < 4" "sc_current s h = sc_idle s h" and i: "i < nthreads s" "t_state (thr s i) = Ready" "t_hart (thr s i) = h"
  shows "\<exists>s'. sched_wf s' \<and> sc_current s' = (sc_current s)(h := i) \<and> sc_idle s' = sc_idle s \<and> sc_donations s' = sc_donations s \<and>
    nthreads s' = nthreads s \<and> (\<forall>j<nthreads s. thr s' j = (if j = i then (thr s i)\<lparr>t_state := Running\<rparr> else thr s j))"
proof -
  have p: "pre_wf s h" using h cur_okD [OF w h(1)] sched_wfD [OF w] by (simp add: pre_wf_def)
  have "i \<in> set (sc_ready s h (eff_prio s i))" using sched_wfD(1) [OF w] i unfolding q_ok_def by blast
  then obtain xs ys where q: "sc_ready s h (eff_prio s i) = xs @ i # ys" by (meson split_list)
  show ?thesis using picked_wf [OF p q] by (intro exI [of _ "set_current (picked s h (eff_prio s i) (ys @ xs) i) h i"]) (simp add: thr_picked)
qed

definition demo_pair :: kernel where
  "demo_pair = (kernel_static demo_mm)\<lparr>k_procs := \<lparr>st_slots =
     map (\<lambda>i. \<lparr>p_id = (if i < 7 then 99 else i), p_root = 0, p_caps = Some (Proc (if i = 7 then 8 else 7)) # replicate 7 None\<rparr>) [0..<9],
     st_free = []\<rparr>\<rparr>"

definition demo_send_frame :: frame where "demo_send_frame = (replicate 36 0)[16 := 3]"
definition demo_recv_frame :: frame where "demo_recv_frame = (replicate 36 0)[16 := 4]"

lemma demo_meeting: "\<exists>s. meeting \<lparr>sy_kernel = demo_pair, sy_sched = s, sy_ipc = ipc_static\<rparr> 0 1 7 8 demo_send_frame demo_recv_frame"
proof -
  have rt: "t_state (thr demo_run j) = Running" if "j < 5" for j
    using ipc_wfD(1) [OF demo_system_wf(1)] demo_running(5,7) cur_okD(2) [OF demo_boot_wf, of j] that demo_spawn(3,8)
    by (cases "j = 4") (simp_all add: demo_run_def thr_picked demo_boot_threads(2))
  let ?t = "user_thread demo_image 1 8 12288 65536 131072 1 0 0"
  have t: "thread_ok ?t" "t_state ?t = Ready" using user_thread_ok [of 1] by (simp_all, simp add: user_thread_def)
  have room: "sc_free demo_run \<noteq> [] \<or> nthreads demo_run < 64" using demo_running(5) by simp
  obtain i s1 where s1: "sched_wf s1" "i < nthreads s1" "thr s1 i = ?t" "insert_thread demo_run ?t = Some (i, s1)"
    "nthreads s1 = max (nthreads demo_run) (Suc i)" "\<forall>j<nthreads demo_run. j \<noteq> i \<longrightarrow> thr s1 j = thr demo_run j"
    "sc_current s1 = sc_current demo_run" "sc_donations s1 = sc_donations demo_run" "sc_idle s1 = sc_idle demo_run"
    by (rule insert_thread_ok [OF demo_running(1) room t]) (rule that; assumption)
  have "sc_free demo_run = []" using demo_spawn(9) by (simp add: demo_run_def)
  then have i5: "i = 5" using s1(4) demo_running(5) by (auto simp: insert_thread_def bind_eq_Some_conv Let_def)
  have n6: "nthreads s1 = 6" using s1(5) i5 demo_running(5) by simp
  have cur: "sc_current demo_run 1 = 1" "sc_idle demo_run 1 = 1" "sc_current demo_run 0 = 4" "sc_idle demo_run 0 = 0"
    using demo_running(2,3) by (simp_all add: demo_run_def demo_spawn demo_boot_threads)
  have tt: "t_hart ?t = 1" "t_proc ?t = Some 8" "t_ipc_wake ?t = None" by (simp_all add: user_thread_def)
  obtain s2 where s2: "sched_wf s2" "sc_current s2 = (sc_current s1)(1 := i)" "sc_idle s2 = sc_idle s1" "sc_donations s2 = sc_donations s1"
    "nthreads s2 = nthreads s1" "\<forall>j<nthreads s1. thr s2 j = (if j = i then (thr s1 i)\<lparr>t_state := Running\<rparr> else thr s1 j)"
    using run_ready [OF s1(1), of 1 i] s1(2,3,7,9) cur t(2) tt(1) by auto
  have don: "sc_donations s2 = []" using s2(4) s1(8) demo_spawn(7) by (simp add: demo_run_def)
  have old: "thr s2 j = thr demo_run j" if "j < 5" for j using s1(6) s2(6) i5 n6 demo_running(5) that by simp
  have new: "thr s2 5 = ?t\<lparr>t_state := Running\<rparr>" using s1(3) s2(6) i5 n6 by simp
  have run: "t_state (thr s2 j) = Running" if "j < 6" for j
    using old [of j] new rt [of j] that by (cases "j = 5") simp_all
  have "blocked_pc_ok s2" using run s2(5) n6 by (simp add: blocked_pc_ok_def)
  then have iw: "ipc_wf \<lparr>sy_kernel = demo_pair, sy_sched = s2, sy_ipc = ipc_static\<rparr>"
    using s2(1) by (simp add: ipc_wf_def ipc_static_def no_match_def tids_ok_def)
  have c2: "sc_current s2 0 = 4" "sc_current s2 1 = 5" "sc_idle s2 0 = 0" "sc_idle s2 1 = 1"
    using s2(2,3) s1(7,9) cur i5 by simp_all
  have th: "t_proc (thr s2 4) = Some 7" "t_ipc_wake (thr s2 4) = None" "t_proc (thr s2 5) = Some 8" "t_ipc_wake (thr s2 5) = None"
    using old [of 4] new tt demo_running by simp_all
  have caps: "cap_target demo_pair 7 0 = Ok (Proc 8)" "cap_target demo_pair 8 0 = Ok (Proc 7)"
    by (simp_all add: demo_pair_def cap_target_def get_proc_def get_slot_def)
  show ?thesis unfolding meeting_def Let_def
    using iw c2 th caps don
    by (intro exI [of _ s2]) (simp add: demo_send_frame_def demo_recv_frame_def ipc_static_def IPC_ACCEPT_ANY_def USIZE_MAX_def match_send_None)
qed

theorem rendezvous_witness:
  "\<exists>y gr t y1 y2 gs. meeting y 0 1 7 8 demo_send_frame demo_recv_frame \<and>
    handle demo_layout y 1 demo_recv_frame demo_regs 0 = Some (SysBlocked t, y1) \<and> handle demo_layout y1 0 demo_send_frame demo_regs 0 = Some (SysReturn gs, y2) \<and>
    t_frame (thr (sy_sched y2) (sc_current (sy_sched y) 1)) = gr \<and> gr ! X_A0 = 0"
proof -
  obtain s where m: "meeting \<lparr>sy_kernel = demo_pair, sy_sched = s, sy_ipc = ipc_static\<rparr> 0 1 7 8 demo_send_frame demo_recv_frame"
    using demo_meeting by blast
  show ?thesis using m rendezvous [OF m, of demo_regs demo_regs demo_layout 0] by (auto simp: demo_regs_def)
qed

section \<open>The registers of the caller\<close>

lemma sys_done_frame: "sys_done y frame k v = Some (SysReturn f, y') \<Longrightarrow> length frame = 36 \<Longrightarrow> ret_frame frame f"
  by (auto simp: sys_done_def bind_eq_Some_conv dest: sys_ret_frame)

lemma sys_block_frame:
  assumes "sys_block y h frame regs = Some (SysReturn f, y')" "length frame = 36"
    "\<And>m. t_ipc_wake (thr (sy_sched y) (sc_current (sy_sched y) h)) = Some (WakeMsg m) \<Longrightarrow> length m \<le> 5"
  shows "ret_frame frame f"
proof -
  obtain b s where b: "block_user_from_trap (sy_sched y) h frame regs = Some (b, s)"
    "(case b of Inl f \<Rightarrow> SysReturn f | Inr t \<Rightarrow> SysBlocked t) = SysReturn f"
    using assms(1) by (auto simp: sys_block_def bind_eq_Some_conv)
  then have "b = Inl f" by (cases b) simp_all
  with b(1) obtain w where "t_ipc_wake (thr (sy_sched y) (sc_current (sy_sched y) h)) = Some w" "apply_wake frame w = Some f"
    by (auto simp: block_user_from_trap_def Let_def bind_eq_Some_conv thread_at_eq_Some split: option.splits)
  then show ?thesis using apply_wake_frame assms(2,3) by blast
qed

lemma send_keeps_threads:
  assumes y: "ipc_wf y" and h: "h < 4" and don: "\<forall>d\<in>set (sc_donations (sy_sched y)). d_donor d \<noteq> sc_current (sy_sched y) h"
    and s: "ipc_send y h pid slot m = Some (Ok SendNoPeer, y')"
  shows "sc_threads (sy_sched y') = sc_threads (sy_sched y) \<and> sc_current (sy_sched y') = sc_current (sy_sched y)"
proof -
  note iw = ipc_wfD [OF y]
  have c: "sc_current (sy_sched y) h < nthreads (sy_sched y)" by (rule cur_okD(1) [OF iw(1) h])
  obtain dst where dst: "cap_target (sy_kernel y) pid slot = Ok (Proc dst)"
    using s by (auto simp: ipc_send_def split: result.splits cap.splits)
  have "match_recv (ip_recvs (sy_ipc y)) pid dst = None"
    using s dst by (auto simp: ipc_send_def Let_def bind_eq_Some_conv split: option.splits)
  then obtain u where "donate_on_block (sy_sched y) (sc_current (sy_sched y) h) dst = Some u" "sy_sched y' = u"
    using s dst by (auto simp: ipc_send_def Let_def bind_eq_Some_conv current_id_def)
  then show ?thesis using donate_ok [OF iw(1,2) c don, of dst] by auto
qed

lemma recv_keeps_threads:
  assumes y: "ipc_wf y" and h: "h < 4" and don: "\<forall>d\<in>set (sc_donations (sy_sched y)). d_donor d \<noteq> sc_current (sy_sched y) h"
    and s: "ipc_recv y h pid slot = Some (Ok RecvNoPeer, y')"
  shows "sc_threads (sy_sched y') = sc_threads (sy_sched y) \<and> sc_current (sy_sched y') = sc_current (sy_sched y)"
proof -
  note iw = ipc_wfD [OF y]
  have c: "sc_current (sy_sched y) h < nthreads (sy_sched y)" by (rule cur_okD(1) [OF iw(1) h])
  obtain src where src: "recv_source (sy_kernel y) pid slot = Ok src" using s by (auto simp: ipc_recv_def split: result.splits)
  have m: "match_send (ip_sends (sy_ipc y)) src pid = None"
    using s src by (auto simp: ipc_recv_def Let_def bind_eq_Some_conv split: option.splits)
  show ?thesis
  proof (cases "src = IPC_ACCEPT_ANY")
    case True
    then show ?thesis using s src m by (auto simp: ipc_recv_def Let_def)
  next
    case False
    then obtain u where "donate_on_block (sy_sched y) (sc_current (sy_sched y) h) src = Some u" "sy_sched y' = u"
      using s src m by (auto simp: ipc_recv_def Let_def bind_eq_Some_conv current_id_def)
    then show ?thesis using donate_ok [OF iw(1,2) c don, of src] by auto
  qed
qed

lemma sys_send_frame:
  assumes y: "ipc_wf y" and h: "h < 4" and don: "\<forall>d\<in>set (sc_donations (sy_sched y)). d_donor d \<noteq> sc_current (sy_sched y) h"
    and w: "\<And>m. t_ipc_wake (thr (sy_sched y) (sc_current (sy_sched y) h)) = Some (WakeMsg m) \<Longrightarrow> length m \<le> 5"
    and s: "sys_send y h frame regs = Some (SysReturn f, y')" and f: "length frame = 36"
  shows "ret_frame frame f"
proof -
  obtain pid r y1 where r: "ipc_send y h pid (frame ! X_A0) [frame ! X_A1, frame ! X_A2, frame ! X_A3, frame ! X_A4, frame ! X_A5] = Some (r, y1)"
    "(case r of Ok SendDone \<Rightarrow> do { f \<leftarrow> sys_ret frame 0; Some (SysReturn f, y1) }
      | Ok SendNoPeer \<Rightarrow> sys_block y1 h frame regs
      | Err code \<Rightarrow> do { f \<leftarrow> sys_ret frame code; Some (SysReturn f, y1) }) = Some (SysReturn f, y')"
    using s unfolding sys_send_def bind_eq_Some_conv by auto
  show ?thesis
  proof (cases "r = Ok SendNoPeer")
    case True
    have "sc_threads (sy_sched y1) = sc_threads (sy_sched y) \<and> sc_current (sy_sched y1) = sc_current (sy_sched y)"
      by (rule send_keeps_threads [OF y h don r(1) [unfolded True]])
    then show ?thesis using r(2) True sys_block_frame [of y1 h frame regs f y'] f w by simp
  next
    case False
    then have "\<exists>v. sys_ret frame v = Some f"
      using r(2) by (auto simp: bind_eq_Some_conv split: result.splits send_block.splits)
    then show ?thesis using sys_ret_frame f by blast
  qed
qed

lemma sys_recv_frame:
  assumes y: "ipc_wf y" and h: "h < 4" and don: "\<forall>d\<in>set (sc_donations (sy_sched y)). d_donor d \<noteq> sc_current (sy_sched y) h"
    and w: "\<And>m. t_ipc_wake (thr (sy_sched y) (sc_current (sy_sched y) h)) = Some (WakeMsg m) \<Longrightarrow> length m \<le> 5"
    and s: "sys_recv y h frame regs = Some (SysReturn f, y')" and f: "length frame = 36"
  shows "ret_frame frame f"
proof -
  obtain pid r y1 where r: "ipc_recv y h pid (frame ! X_A0) = Some (r, y1)"
    "(case r of Ok (RecvDone m) \<Rightarrow> do { f \<leftarrow> write_words (frame[X_A0 := 0]) X_A1 m; f \<leftarrow> advance_sepc f; Some (SysReturn f, y1) }
      | Ok RecvNoPeer \<Rightarrow> sys_block y1 h frame regs
      | Err code \<Rightarrow> do { f \<leftarrow> sys_ret frame code; Some (SysReturn f, y1) }) = Some (SysReturn f, y')"
    using s unfolding sys_recv_def bind_eq_Some_conv by auto
  show ?thesis
  proof (cases r)
    case (Err e)
    then show ?thesis using r(2) sys_ret_frame f by (auto simp: bind_eq_Some_conv)
  next
    case (Ok b)
    show ?thesis
    proof (cases b)
      case (RecvDone m)
      then obtain f1 where w1: "write_words (frame[X_A0 := 0]) X_A1 m = Some f1" "advance_sepc f1 = Some f"
        using r(2) Ok by (auto simp: bind_eq_Some_conv)
      have "\<exists>x\<in>set (ip_sends (sy_ipc y)). m = ps_msg x" using r(1)
      proof (cases rule: ipc_recv_cases)
        case (2 src xs x zs s)
        then show ?thesis using Ok RecvDone match_send_Some(1) [OF 2(2)] by auto
      qed (use Ok RecvDone in simp_all)
      then have "length m \<le> 5" using ipc_wfD(3) [OF y] by (auto simp: tids_ok_def)
      then show ?thesis using write_ret_frame [OF w1] f by simp
    next
      case RecvNoPeer
      have "sc_threads (sy_sched y1) = sc_threads (sy_sched y) \<and> sc_current (sy_sched y1) = sc_current (sy_sched y)"
        by (rule recv_keeps_threads [OF y h don r(1) [unfolded Ok RecvNoPeer]])
      then show ?thesis using r(2) Ok RecvNoPeer sys_block_frame [of y1 h frame regs f y'] f w by simp
    qed
  qed
qed

lemma bind_Some_D: "do { x \<leftarrow> m; g x } = Some r \<Longrightarrow> \<exists>x. m = Some x \<and> g x = Some r"
  by (simp add: bind_eq_Some_conv)

text \<open>
  C38. The register discipline of system calls. When a system call returns to the caller, whatever its number and
  outcome, the frame has its size, the program counter is behind the ecall instruction, and only the
  argument registers a0 to a5 may differ from the caller's.
\<close>

theorem syscall_registers:
  assumes "ipc_wf y" "h < MAX_HARTS" "\<forall>d\<in>set (sc_donations (sy_sched y)). d_donor d \<noteq> sc_current (sy_sched y) h"
    "\<And>m. t_ipc_wake (thr (sy_sched y) (sc_current (sy_sched y) h)) = Some (WakeMsg m) \<Longrightarrow> length m \<le> MSG_WORDS"
    "length frame = FRAME_WORDS" "handle ly y h frame regs ticks = Some (SysReturn f, y')"
  shows "length f = FRAME_WORDS \<and> f ! FRAME_SEPC = frame ! FRAME_SEPC + 4 \<and>
    (\<forall>i<FRAME_WORDS. i \<noteq> FRAME_SEPC \<longrightarrow> i < X_A0 \<or> X_A5 < i \<longrightarrow> f ! i = frame ! i)"
proof -
  have h: "h < 4" and fl: "length frame = 36" using assms(2,5) by simp_all
  have w: "\<And>m. t_ipc_wake (thr (sy_sched y) (sc_current (sy_sched y) h)) = Some (WakeMsg m) \<Longrightarrow> length m \<le> 5" using assms(4) by simp
  have send: "sys_send y h frame regs = Some (SysReturn f, y') \<Longrightarrow> ret_frame frame f"
    by (rule sys_send_frame [OF assms(1) h assms(3) w _ fl])
  have recv: "sys_recv y h frame regs = Some (SysReturn f, y') \<Longrightarrow> ret_frame frame f"
    by (rule sys_recv_frame [OF assms(1) h assms(3) w _ fl])
  have ret: "sys_ret frame v = Some f \<Longrightarrow> ret_frame frame f" for v by (rule sys_ret_frame [OF _ fl])
  have dn: "sys_done y frame k v = Some (SysReturn f, y') \<Longrightarrow> ret_frame frame f" for k v
    by (rule sys_done_frame [OF _ fl])
  have "ret_frame frame f"
    using assms(6) unfolding handle_def Let_def
    by (auto split: if_splits prod.splits dest!: bind_Some_D send recv dn dest: ret)
  then show ?thesis using fl by (simp add: ret_frame_def)
qed

theorem syscall_registers_witness:
  "\<exists>f y'. handle demo_layout demo_system 0 ((replicate 36 7)[16 := 9]) demo_regs 0 = Some (SysReturn f, y') \<and> f ! 33 = 11 \<and> f ! 20 = 7"
proof -
  let ?fr = "(replicate 36 (7::nat))[16 := 9]"
  obtain f where e: "handle demo_layout demo_system 0 ?fr demo_regs 0 = Some (SysReturn f, demo_system)"
    using sys_ret_eq [of ?fr SYS_ERR_ENOSYS] by (simp add: handle_def Let_def)
  have "t_ipc_wake (thr (sy_sched demo_system) (sc_current (sy_sched demo_system) 0)) = None"
    by (simp add: demo_system_def demo_running)
  then show ?thesis using syscall_registers [OF demo_system_wf(1) _ demo_system_wf(2) _ _ e] e by auto
qed

end
