(* ===== verification/Elf.thy ===== *)
theory Elf
  imports Process
begin

text \<open>
  Model of src/kernel/src/elf.rs: the loader of user programs.

  A file is a list of bytes; an index outside it panics. \<^verbatim>\<open>parse\<close> is a pure function. \<^verbatim>\<open>load\<close> works on
  physical memory through the page allocator and the page tables, and keeps in \<open>mapped\<close> the pairs
  (virtual page, physical page) it has mapped, for the rollback. The programs embedded in the
  kernel image are arguments.
\<close>

section \<open>Constants and data\<close>

definition USER_STACK_TOP :: usize where "USER_STACK_TOP = USER_VA_LIMIT - 0x10000"
definition USER_STACK_PAGES :: nat where [simp]: "USER_STACK_PAGES = 8"
definition MAX_ARGS :: nat where [simp]: "MAX_ARGS = 16"

datatype elf_error =
    Truncated | BadMagic | Not64 | NotExec | NotRiscv | BadSegment | Overlap | AddressTooHigh
  | NoMemory | MapFailed | BadProcess

record segment =
  seg_vaddr :: usize
  seg_offset :: usize
  seg_filesz :: usize
  seg_memsz :: usize
  seg_flags :: nat

record elf_info =
  ei_entry :: usize
  ei_segments :: "segment list"

record loaded_elf =
  le_entry :: usize
  le_stack_top :: usize
  le_argc :: nat
  le_argv :: usize

type_synonym bytes = "byte list"

text \<open>\<^verbatim>\<open>v & !(a - 1)\<close> for a power of two \<open>a\<close>; see \<open>align_down_mask\<close> below.\<close>

definition align_down :: "usize \<Rightarrow> usize \<Rightarrow> usize" where
  "align_down v a = v div a * a"

definition align_up :: "usize \<Rightarrow> usize \<Rightarrow> usize outcome" where
  "align_up v a = do { x \<leftarrow> uadd v a; y \<leftarrow> usub x 1; Some (align_down y a) }"

section \<open>Parsing\<close>

definition byte_at :: "bytes \<Rightarrow> usize \<Rightarrow> byte outcome" where
  "byte_at b i = (if i < length b then Some (b ! i) else None)"

text \<open>\<^verbatim>\<open>from_le_bytes\<close> of the \<open>n\<close> bytes at \<open>off\<close>.\<close>

fun read_le :: "bytes \<Rightarrow> usize \<Rightarrow> nat \<Rightarrow> nat outcome" where
  "read_le b off 0 = Some 0"
| "read_le b off (Suc n) = do { x \<leftarrow> byte_at b off; r \<leftarrow> read_le b (Suc off) n; Some (unat x + 256 * r) }"

definition parse_header :: "bytes \<Rightarrow> (usize \<times> usize \<times> usize, elf_error) result outcome" where
  "parse_header b =
     (if length b < 64 then Some (Err Truncated)
      else if take 4 b \<noteq> [0x7f, 0x45, 0x4c, 0x46] then Some (Err BadMagic)
      else do {
        ei_class \<leftarrow> byte_at b 4;
        if ei_class \<noteq> 2 then Some (Err Not64) else do {
        etype \<leftarrow> read_le b 16 2;
        if etype \<noteq> 2 then Some (Err NotExec) else do {
        machine \<leftarrow> read_le b 18 2;
        if machine \<noteq> 243 then Some (Err NotRiscv) else do {
        entry \<leftarrow> read_le b 24 8;
        phoff \<leftarrow> read_le b 32 8;
        phnum \<leftarrow> read_le b 56 2;
        if 0 < phnum then
          (case umul phnum 56 of
             None \<Rightarrow> Some (Err Truncated)
           | Some ph_bytes \<Rightarrow>
               (case uadd phoff ph_bytes of
                  None \<Rightarrow> Some (Err Truncated)
                | Some e \<Rightarrow> if length b < e then Some (Err Truncated) else Some (Ok (entry, phoff, phnum))))
        else if length b < phoff then Some (Err Truncated)
        else Some (Ok (entry, phoff, phnum)) }}}})"

text \<open>One program header at \<open>off\<close>: \<open>Ok None\<close> for a header that is not \<^verbatim>\<open>PT_LOAD\<close>.\<close>

definition parse_phdr :: "bytes \<Rightarrow> usize \<Rightarrow> (segment option, elf_error) result outcome" where
  "parse_phdr b off = do {
     p_type \<leftarrow> read_le b off 4;
     if p_type \<noteq> 1 then Some (Ok None) else do {
     flags \<leftarrow> read_le b (off + 4) 4;
     p_offset \<leftarrow> read_le b (off + 8) 8;
     p_vaddr \<leftarrow> read_le b (off + 16) 8;
     p_filesz \<leftarrow> read_le b (off + 32) 8;
     p_memsz \<leftarrow> read_le b (off + 40) 8;
     if USER_VA_LIMIT \<le> p_vaddr then Some (Err AddressTooHigh)
     else if (case uadd p_vaddr p_memsz of None \<Rightarrow> True | Some e \<Rightarrow> USER_VA_LIMIT < e) then Some (Err AddressTooHigh)
     else if p_memsz < p_filesz then Some (Err BadSegment)
     else if (case uadd p_offset p_filesz of None \<Rightarrow> True | Some e \<Rightarrow> length b < e) then Some (Err Truncated)
     else if p_vaddr mod 4096 \<noteq> p_offset mod 4096 then Some (Err BadSegment)
     else Some (Ok (Some \<lparr>seg_vaddr = p_vaddr, seg_offset = p_offset, seg_filesz = p_filesz,
                          seg_memsz = p_memsz, seg_flags = flags\<rparr>)) }}"

text \<open>The loop over the program header table, for the remaining indices.\<close>

fun parse_phdrs :: "bytes \<Rightarrow> usize \<Rightarrow> nat list \<Rightarrow> segment list \<Rightarrow> (segment list, elf_error) result outcome" where
  "parse_phdrs b phoff [] segments = Some (Ok segments)"
| "parse_phdrs b phoff (i # is) segments = do {
     m \<leftarrow> umul i 56;
     off \<leftarrow> uadd phoff m;
     r \<leftarrow> parse_phdr b off;
     case r of
       Err e \<Rightarrow> Some (Err e)
     | Ok None \<Rightarrow> parse_phdrs b phoff is segments
     | Ok (Some sg) \<Rightarrow> parse_phdrs b phoff is (segments @ [sg]) }"

fun check_overlap :: "segment list \<Rightarrow> (unit, elf_error) result outcome" where
  "check_overlap (a # b # r) = do {
     x \<leftarrow> uadd (seg_vaddr a) (seg_memsz a);
     a_end \<leftarrow> align_up x PAGE_SIZE;
     if align_down (seg_vaddr b) PAGE_SIZE < a_end then Some (Err Overlap) else check_overlap (b # r) }"
| "check_overlap _ = Some (Ok ())"

definition parse :: "bytes \<Rightarrow> (elf_info, elf_error) result outcome" where
  "parse b = do {
     h \<leftarrow> parse_header b;
     case h of
       Err e \<Rightarrow> Some (Err e)
     | Ok (entry, phoff, phnum) \<Rightarrow> do {
         r \<leftarrow> parse_phdrs b phoff [0..<phnum] [];
         case r of
           Err e \<Rightarrow> Some (Err e)
         | Ok segs \<Rightarrow> do {
             let segments = sort_key seg_vaddr segs;
             c \<leftarrow> check_overlap segments;
             case c of
               Err e \<Rightarrow> Some (Err e)
             | Ok _ \<Rightarrow> Some (Ok \<lparr>ei_entry = entry, ei_segments = segments\<rparr>) }}}"

section \<open>Mapping segments\<close>

type_synonym maps = "(usize \<times> usize) list"
type_synonym 'a load_result = "(('a, elf_error) result \<times> (mm \<times> maps)) outcome"

definition wrapping_add :: "usize \<Rightarrow> usize \<Rightarrow> usize" where
  "wrapping_add a b = (a + b) mod USIZE_LIMIT"

definition wrapping_sub :: "usize \<Rightarrow> usize \<Rightarrow> usize" where
  "wrapping_sub a b = (a + USIZE_LIMIT - b) mod USIZE_LIMIT"

definition segment_flags :: "nat \<Rightarrow> u64" where
  "segment_flags f = (if odd f then 0xCB else if odd (f div 2) then 0xC7 else 0xC3)"

fun write_bytes :: "mem \<Rightarrow> usize \<Rightarrow> byte list \<Rightarrow> mem" where
  "write_bytes m a [] = m"
| "write_bytes m a (x # xs) = write_bytes (m(a := x)) (Suc a) xs"

text \<open>The copy of the file bytes of the page at \<open>va\<close> into the physical page \<open>pa\<close>.\<close>

definition copy_page :: "segment \<Rightarrow> bytes \<Rightarrow> usize \<Rightarrow> usize \<Rightarrow> mm \<Rightarrow> mm outcome" where
  "copy_page sg b va pa s = do {
     let base = wrapping_add (seg_offset sg) (wrapping_sub va (seg_vaddr sg));
     let copy_lo = max base (seg_offset sg);
     e1 \<leftarrow> uadd base PAGE_SIZE;
     e2 \<leftarrow> uadd (seg_offset sg) (seg_filesz sg);
     let copy_hi = min e1 e2;
     if copy_lo < copy_hi then do {
       require (copy_hi \<le> length b);
       d \<leftarrow> usub copy_lo base;
       Some (s\<lparr>pmem := write_bytes (pmem s) (pa + d) (take (copy_hi - copy_lo) (drop copy_lo b))\<rparr>)
     } else Some s }"

definition map_segment_page ::
  "usize \<Rightarrow> segment \<Rightarrow> bytes \<Rightarrow> u64 \<Rightarrow> usize \<Rightarrow> mm \<times> maps \<Rightarrow> unit load_result" where
  "map_segment_page root sg b flags va = (\<lambda>(s, mapped).
     if is_mapped s root va then Some (Err Overlap, s, mapped)
     else do {
       (p, s1) \<leftarrow> alloc_pages_zeroed s 0;
       case p of
         None \<Rightarrow> Some (Err NoMemory, s1, mapped)
       | Some pa \<Rightarrow> do {
           s2 \<leftarrow> copy_page sg b va pa s1;
           (r, s3) \<leftarrow> map_user_page s2 root va pa flags;
           case r of
             Err _ \<Rightarrow> do { (_, s4) \<leftarrow> free_pages s3 pa; Some (Err MapFailed, s4, mapped) }
           | Ok _ \<Rightarrow> Some (Ok (), s3, mapped @ [(va, pa)]) }})"

function map_segment_from ::
  "usize \<Rightarrow> segment \<Rightarrow> bytes \<Rightarrow> u64 \<Rightarrow> usize \<Rightarrow> usize \<Rightarrow> mm \<times> maps \<Rightarrow> unit load_result" where
  "map_segment_from root sg b flags va e st =
     (if va < e then
        qmark (map_segment_page root sg b flags va st) (\<lambda>_ st1.
          do { va1 \<leftarrow> uadd va PAGE_SIZE; map_segment_from root sg b flags va1 e st1 })
      else Some (Ok (), st))"
  by pat_completeness auto
termination
  by (relation "measure (\<lambda>(root, sg, b, flags, va, e, st). e - va)") (auto simp: uadd_eq_Some PAGE_SIZE_def)

declare map_segment_from.simps [simp del]

definition map_segment :: "usize \<Rightarrow> segment \<Rightarrow> bytes \<Rightarrow> mm \<times> maps \<Rightarrow> unit load_result" where
  "map_segment root sg b st =
     (let start = align_down (seg_vaddr sg) PAGE_SIZE in
      case uadd (seg_vaddr sg) (seg_memsz sg) of
        None \<Rightarrow> Some (Err AddressTooHigh, st)
      | Some x \<Rightarrow> do {
          e \<leftarrow> align_up x PAGE_SIZE;
          map_segment_from root sg b (segment_flags (seg_flags sg)) start e st })"

fun map_segments :: "usize \<Rightarrow> segment list \<Rightarrow> bytes \<Rightarrow> mm \<times> maps \<Rightarrow> unit load_result" where
  "map_segments root [] b st = Some (Ok (), st)"
| "map_segments root (sg # sgs) b st = qmark (map_segment root sg b st) (\<lambda>_ st1. map_segments root sgs b st1)"

fun rollback :: "usize \<Rightarrow> maps \<Rightarrow> mm \<Rightarrow> mm outcome" where
  "rollback root [] s = Some s"
| "rollback root ((va, pa) # mapped) s = do {
     (_, s1) \<leftarrow> unmap_4k s root va;
     (_, s2) \<leftarrow> free_pages s1 pa;
     rollback root mapped s2 }"

section \<open>The initial stack\<close>

definition stack_bottom :: usize where
  "stack_bottom = USER_STACK_TOP - USER_STACK_PAGES * PAGE_SIZE"

fun str_total :: "byte list list \<Rightarrow> usize outcome" where
  "str_total [] = Some 0"
| "str_total (a # as) = do { t \<leftarrow> str_total as; uadd t (length a + 1) }"

text \<open>The loop that maps the stack pages, for the remaining page numbers.\<close>

fun map_stack :: "usize \<Rightarrow> nat list \<Rightarrow> usize list \<Rightarrow> mm \<times> maps \<Rightarrow> usize list load_result" where
  "map_stack root [] stack_pas st = Some (Ok stack_pas, st)"
| "map_stack root (i # is) stack_pas (s, mapped) =
     (let va = stack_bottom + i * PAGE_SIZE in
      if is_mapped s root va then Some (Err Overlap, s, mapped)
      else do {
        (p, s1) \<leftarrow> alloc_pages_zeroed s 0;
        case p of
          None \<Rightarrow> Some (Err NoMemory, s1, mapped)
        | Some pa \<Rightarrow> do {
            (r, s2) \<leftarrow> map_user_page s1 root va pa 0xC7;
            case r of
              Err _ \<Rightarrow> Some (Err MapFailed, s2, mapped)
            | Ok _ \<Rightarrow> map_stack root is (stack_pas @ [pa]) (s2, mapped @ [(va, pa)]) }})"

definition pa_at :: "usize list \<Rightarrow> usize \<Rightarrow> (usize, elf_error) result outcome" where
  "pa_at stack_pas uva = do {
     d \<leftarrow> usub uva stack_bottom;
     let idx = d div PAGE_SIZE;
     if USER_STACK_PAGES \<le> idx then Some (Err BadSegment)
     else do { a \<leftarrow> uadd (stack_pas ! idx) (uva mod PAGE_SIZE); Some (Ok a) }}"

definition put_u8 :: "usize list \<Rightarrow> usize \<Rightarrow> byte \<Rightarrow> mm \<times> maps \<Rightarrow> unit load_result" where
  "put_u8 stack_pas uva v = (\<lambda>(s, mapped). do {
     r \<leftarrow> pa_at stack_pas uva;
     case r of Err e \<Rightarrow> Some (Err e, s, mapped) | Ok a \<Rightarrow> Some (Ok (), s\<lparr>pmem := (pmem s)(a := v)\<rparr>, mapped) })"

definition put_usize :: "usize list \<Rightarrow> usize \<Rightarrow> usize \<Rightarrow> mm \<times> maps \<Rightarrow> unit load_result" where
  "put_usize stack_pas uva v = (\<lambda>(s, mapped). do {
     r \<leftarrow> pa_at stack_pas uva;
     case r of
       Err e \<Rightarrow> Some (Err e, s, mapped)
     | Ok a \<Rightarrow> Some (Ok (), s\<lparr>pmem := store64 (pmem s) a (of_nat v)\<rparr>, mapped) })"

fun put_str :: "usize list \<Rightarrow> usize \<Rightarrow> byte list \<Rightarrow> mm \<times> maps \<Rightarrow> unit load_result" where
  "put_str stack_pas uva [] st = Some (Ok (), st)"
| "put_str stack_pas uva (x # xs) st =
     qmark (put_u8 stack_pas uva x st) (\<lambda>_ st1. put_str stack_pas (Suc uva) xs st1)"

text \<open>The argument strings from \<open>sptr\<close> upwards; the result is \<^verbatim>\<open>arg_starts\<close>.\<close>

fun put_args :: "usize list \<Rightarrow> usize \<Rightarrow> byte list list \<Rightarrow> usize list \<Rightarrow> mm \<times> maps \<Rightarrow> usize list load_result" where
  "put_args stack_pas sptr [] starts st = Some (Ok starts, st)"
| "put_args stack_pas sptr (a # as) starts st =
     qmark (put_str stack_pas sptr a st) (\<lambda>_ st1.
     qmark (put_u8 stack_pas (sptr + length a) 0 st1) (\<lambda>_ st2.
       put_args stack_pas (sptr + (length a + 1)) as (starts @ [sptr]) st2))"

text \<open>The \<^verbatim>\<open>argv\<close> cells from \<open>cell\<close> upwards.\<close>

fun put_argv :: "usize list \<Rightarrow> usize \<Rightarrow> usize list \<Rightarrow> mm \<times> maps \<Rightarrow> unit load_result" where
  "put_argv stack_pas cell [] st = Some (Ok (), st)"
| "put_argv stack_pas cell (v # vs) st =
     qmark (put_usize stack_pas cell v st) (\<lambda>_ st1. put_argv stack_pas (cell + 8) vs st1)"

definition build_user_stack :: "usize \<Rightarrow> byte list list \<Rightarrow> mm \<times> maps \<Rightarrow> (usize \<times> usize) load_result" where
  "build_user_stack root args st =
     (let n = length args in
      if MAX_ARGS < n then Some (Err BadSegment, st)
      else do {
        total \<leftarrow> str_total args;
        if USER_STACK_PAGES * PAGE_SIZE - (n + 2) * 8 - 16 < total then Some (Err BadSegment, st)
        else
          qmark (map_stack root [0..<USER_STACK_PAGES] [] st) (\<lambda>stack_pas st1. do {
            str_room \<leftarrow> usub USER_STACK_TOP total;
            let str_area = align_down str_room 16;
            qmark (put_args stack_pas str_area args [] st1) (\<lambda>arg_starts st2. do {
              argv_room \<leftarrow> usub str_area ((n + 1) * 8);
              let argv_array = align_down argv_room 16;
              if argv_array < stack_bottom + 16 then Some (Err BadSegment, st2)
              else
                qmark (put_argv stack_pas argv_array arg_starts st2) (\<lambda>_ st3.
                qmark (put_usize stack_pas (argv_array + n * 8) 0 st3) (\<lambda>_ st4. do {
                  sp_room \<leftarrow> usub argv_array 8;
                  let sp_final = align_down sp_room 16;
                  qmark (put_usize stack_pas sp_final n st4) (\<lambda>_ st5.
                    Some (Ok (sp_final, argv_array), st5)) })) }) }) })"

section \<open>Loading\<close>

text \<open>\<^verbatim>\<open>load\<close> after \<^verbatim>\<open>parse\<close> and the lookup of the page table of the process.\<close>

definition load_at :: "usize \<Rightarrow> elf_info \<Rightarrow> bytes \<Rightarrow> byte list list \<Rightarrow> mm \<Rightarrow> ((loaded_elf, elf_error) result \<times> mm) outcome" where
  "load_at root info b args s = do {
     (r, s1, mapped) \<leftarrow> map_segments root (ei_segments info) b (s, []);
     case r of
       Err e \<Rightarrow> do { s2 \<leftarrow> rollback root mapped s1; Some (Err e, s2) }
     | Ok _ \<Rightarrow> do {
         (r2, s2, mapped2) \<leftarrow> build_user_stack root args (s1, mapped);
         case r2 of
           Err e \<Rightarrow> do { s3 \<leftarrow> rollback root mapped2 s2; Some (Err e, s3) }
         | Ok (stack_top, argv) \<Rightarrow>
             Some (Ok \<lparr>le_entry = ei_entry info, le_stack_top = stack_top, le_argc = length args, le_argv = argv\<rparr>, s2) }}"

definition load :: "kernel \<Rightarrow> nat \<Rightarrow> bytes \<Rightarrow> byte list list \<Rightarrow> ((loaded_elf, elf_error) result \<times> kernel) outcome" where
  "load k pid b args = do {
     p \<leftarrow> parse b;
     case p of
       Err e \<Rightarrow> Some (Err e, k)
     | Ok info \<Rightarrow>
         (case pid_root k pid of
            None \<Rightarrow> Some (Err BadProcess, k)
          | Some root \<Rightarrow> do { (r, s) \<leftarrow> load_at root info b args (k_mm k); Some (r, k\<lparr>k_mm := s\<rparr>) }) }"

end
