(* ===== verification/Elf_Parse.thy ===== *)
theory Elf_Parse
  imports Elf
begin

text \<open>
  The parser of the loader against a declarative description of the files it accepts. \<open>elf_ok\<close> says
  which files these are, \<open>load_segs\<close> which segments they describe; \<open>before\<close> orders segments whose
  page ranges follow each other.
\<close>

section \<open>Alignment\<close>

lemma align_down_mask:
  assumes "v < USIZE_LIMIT" "k < 64"
  shows "align_down v (2 ^ k) = unat ((of_nat v :: u64) AND NOT (mask k))"
proof -
  have "align_down v (2 ^ k) = push_bit k (drop_bit k v)"
    by (simp add: align_down_def drop_bit_eq_div push_bit_eq_mult)
  moreover have "(of_nat v :: u64) AND NOT (mask k) = of_nat (push_bit k (drop_bit k v))"
    by (rule bit_word_eqI)
      (auto simp: bit_and_iff bit_not_iff bit_mask_iff bit_of_nat_iff bit_push_bit_iff bit_drop_bit_eq)
  moreover have "align_down v (2 ^ k) < USIZE_LIMIT"
    using assms(1) div_times_less_eq_dividend [of v "2 ^ k"] unfolding align_down_def by (rule le_less_trans [rotated])
  ultimately show ?thesis by simp
qed

lemma align_down_le [simp]: "align_down v a \<le> v"
  by (simp add: align_down_def)

lemma align_down_mono: "v \<le> w \<Longrightarrow> align_down v a \<le> align_down w a"
  by (simp add: align_down_def div_le_mono)

lemma align_down_dvd [simp]: "a dvd align_down v a"
  by (simp add: align_down_def)

text \<open>The number of the first page of a range and of the first page after it.\<close>

definition page_no :: "usize \<Rightarrow> nat" where "page_no v = v div 4096"
definition page_lo :: "segment \<Rightarrow> nat" where "page_lo sg = seg_vaddr sg div 4096"
definition page_hi :: "segment \<Rightarrow> nat" where "page_hi sg = (seg_vaddr sg + seg_memsz sg + 4095) div 4096"

definition before :: "segment \<Rightarrow> segment \<Rightarrow> bool" where
  "before a b \<longleftrightarrow> page_hi a \<le> page_lo b"

lemma align_page: "v \<le> USER_VA_LIMIT \<Longrightarrow> align_up v PAGE_SIZE = Some ((v + 4095) div 4096 * 4096)"
  by (simp add: align_up_def align_down_def PAGE_SIZE_def uadd_def usub_def)

section \<open>Fields\<close>

definition field :: "bytes \<Rightarrow> usize \<Rightarrow> nat \<Rightarrow> nat" where
  "field b off n = the (read_le b off n)"

lemma read_le_defined: "off + n \<le> length b \<Longrightarrow> \<exists>v. read_le b off n = Some v \<and> v < 256 ^ n"
proof (induction n arbitrary: off)
  case (Suc n)
  obtain v where v: "read_le b (Suc off) n = Some v" "v < 256 ^ n" using Suc.IH [of "Suc off"] Suc.prems by auto
  have "unat (b ! off) < 256" using unsigned_less [of "b ! off"] by simp
  moreover have "byte_at b off = Some (b ! off)" using Suc.prems by (simp add: byte_at_def)
  moreover have "256 * v + 256 \<le> 256 * 256 ^ n"
    using v(2) mult_le_mono2 [of "Suc v" "256 ^ n" 256] by simp
  ultimately show ?case using v(1) by simp
qed simp

lemma read_le_field: "off + n \<le> length b \<Longrightarrow> read_le b off n = Some (field b off n)"
  using read_le_defined [of off n b] by (auto simp: field_def)

lemma field_less: "off + n \<le> length b \<Longrightarrow> field b off n < 256 ^ n"
  using read_le_defined [of off n b] by (auto simp: field_def)

section \<open>The files accepted\<close>

definition header_ok :: "bytes \<Rightarrow> bool" where
  "header_ok b \<longleftrightarrow> 64 \<le> length b \<and> take 4 b = [0x7f, 0x45, 0x4c, 0x46] \<and> b ! 4 = 2 \<and>
     field b 16 2 = 2 \<and> field b 18 2 = 243 \<and> field b 32 8 + field b 56 2 * 56 \<le> length b"

definition hdr_seg :: "bytes \<Rightarrow> usize \<Rightarrow> segment" where
  "hdr_seg b off = \<lparr>seg_vaddr = field b (off + 16) 8, seg_offset = field b (off + 8) 8,
     seg_filesz = field b (off + 32) 8, seg_memsz = field b (off + 40) 8, seg_flags = field b (off + 4) 4\<rparr>"

definition seg_ok :: "bytes \<Rightarrow> segment \<Rightarrow> bool" where
  "seg_ok b sg \<longleftrightarrow> seg_vaddr sg < USER_VA_LIMIT \<and> seg_vaddr sg + seg_memsz sg \<le> USER_VA_LIMIT \<and>
     seg_filesz sg \<le> seg_memsz sg \<and> seg_offset sg + seg_filesz sg \<le> length b \<and>
     seg_vaddr sg mod 4096 = seg_offset sg mod 4096"

fun loads :: "bytes \<Rightarrow> usize \<Rightarrow> nat list \<Rightarrow> segment list" where
  "loads b phoff [] = []"
| "loads b phoff (i # is) =
     (if field b (phoff + i * 56) 4 = 1 then hdr_seg b (phoff + i * 56) # loads b phoff is else loads b phoff is)"

definition load_segs :: "bytes \<Rightarrow> segment list" where
  "load_segs b = loads b (field b 32 8) [0..<field b 56 2]"

definition elf_ok :: "bytes \<Rightarrow> bool" where
  "elf_ok b \<longleftrightarrow> header_ok b \<and> (\<forall>sg\<in>set (load_segs b). seg_ok b sg) \<and>
     sorted_wrt before (sort_key seg_vaddr (load_segs b))"

section \<open>The parser\<close>

lemma parse_header_ok:
  assumes "length b < USIZE_LIMIT"
  obtains (ok) "header_ok b" "parse_header b = Some (Ok (field b 24 8, field b 32 8, field b 56 2))"
  | (err) e where "\<not> header_ok b" "parse_header b = Some (Err e)"
proof (cases "64 \<le> length b")
  case False
  then show ?thesis by (intro err) (auto simp: header_ok_def parse_header_def)
next
  case True
  then have r: "read_le b 16 2 = Some (field b 16 2)" "read_le b 18 2 = Some (field b 18 2)"
    "read_le b 24 8 = Some (field b 24 8)" "read_le b 32 8 = Some (field b 32 8)" "read_le b 56 2 = Some (field b 56 2)"
    by (simp_all add: read_le_field)
  have c: "byte_at b 4 = Some (b ! 4)" using True by (simp add: byte_at_def)
  have n: "field b 56 2 * 56 < USIZE_LIMIT" using field_less [of 56 2 b] True by simp
  note d = parse_header_def [of b] r c umul_Some [OF n] uadd_def header_ok_def
  show ?thesis
  proof (cases "header_ok b")
    case ok: True
    then show ?thesis using assms by (intro that(1)) (auto simp: d)
  next
    case False
    then have "\<exists>e. parse_header b = Some (Err e)" using True assms by (auto simp: d)
    then show ?thesis using False err by blast
  qed
qed

lemma parse_phdr_ok:
  assumes l: "length b < USIZE_LIMIT" "off + 56 \<le> length b"
  obtains (skip) "field b off 4 \<noteq> 1" "parse_phdr b off = Some (Ok None)"
  | (ok) "field b off 4 = 1" "seg_ok b (hdr_seg b off)" "parse_phdr b off = Some (Ok (Some (hdr_seg b off)))"
  | (err) e where "field b off 4 = 1" "\<not> seg_ok b (hdr_seg b off)" "parse_phdr b off = Some (Err e)"
proof (cases "field b off 4 = 1")
  case False
  then show ?thesis using l by (intro skip) (simp_all add: parse_phdr_def read_le_field)
next
  case True
  have r: "read_le b (off + k) n = Some (field b (off + k) n)" if "k + n \<le> 56" for k n
    using l that by (intro read_le_field) simp
  note d = parse_phdr_def r r [of 0, simplified] True hdr_seg_def seg_ok_def uadd_def
  show ?thesis
  proof (cases "seg_ok b (hdr_seg b off)")
    case t: True
    then show ?thesis using l True by (intro ok) (auto simp: d)
  next
    case False
    then have "\<exists>e. parse_phdr b off = Some (Err e)" using l by (auto simp: d)
    then show ?thesis using True False err by blast
  qed
qed

lemma parse_phdrs_ok:
  assumes "length b < USIZE_LIMIT" "\<forall>i\<in>set is. phoff + i * 56 + 56 \<le> length b"
  shows "if \<forall>sg\<in>set (loads b phoff is). seg_ok b sg then parse_phdrs b phoff is acc = Some (Ok (acc @ loads b phoff is))
    else \<exists>e. parse_phdrs b phoff is acc = Some (Err e)"
  using assms(2)
proof (induction "is" arbitrary: acc)
  case (Cons i "is")
  let ?off = "phoff + i * 56"
  have o: "?off + 56 \<le> length b" and IH: "\<forall>i\<in>set is. phoff + i * 56 + 56 \<le> length b" using Cons.prems by simp_all
  have u: "umul i 56 = Some (i * 56)" "uadd phoff (i * 56) = Some ?off"
    using o assms(1) by (simp_all add: umul_def uadd_def)
  show ?case
  proof (rule parse_phdr_ok [OF assms(1) o], goal_cases)
    case 1
    then show ?thesis using Cons.IH [OF IH, of acc] u by simp
  next
    case 2
    then show ?thesis using Cons.IH [OF IH, of "acc @ [hdr_seg b ?off]"] u by simp
  next
    case (3 e)
    then show ?thesis using u by simp
  qed
qed simp

lemma check_overlap_ok:
  assumes "\<forall>sg\<in>set l. seg_vaddr sg + seg_memsz sg \<le> 2 ^ 38" "sorted (map seg_vaddr l)"
  shows "check_overlap l = Some (if sorted_wrt before l then Ok () else Err Overlap)"
  using assms
proof (induction l rule: check_overlap.induct)
  case (1 a b r)
  have up: "align_up (seg_vaddr a + seg_memsz a) PAGE_SIZE = Some (page_hi a * 4096)"
    using 1(2) unfolding page_hi_def by (intro align_page) simp
  have u: "uadd (seg_vaddr a) (seg_memsz a) = Some (seg_vaddr a + seg_memsz a)"
    using 1(2) by (simp add: uadd_def)
  have dn: "align_down (seg_vaddr b) PAGE_SIZE < page_hi a * 4096 \<longleftrightarrow> \<not> before a b"
    by (auto simp: align_down_def PAGE_SIZE_def before_def page_lo_def)
  show ?case
  proof (cases "before a b")
    case True
    have "before a c" if "c \<in> set r" for c
      using True 1(3) that div_le_mono [of "seg_vaddr b" "seg_vaddr c" 4096]
      by (auto simp: before_def page_lo_def intro: le_trans)
    then have "sorted_wrt before (a # b # r) \<longleftrightarrow> sorted_wrt before (b # r)" using True by auto
    then show ?thesis using True 1(1) [OF u up] 1(2,3) up u dn by simp
  next
    case False
    then show ?thesis using up u dn by simp
  qed
qed simp_all

lemma parse_cases:
  assumes l: "length b < USIZE_LIMIT"
  obtains (ok) "elf_ok b"
      "parse b = Some (Ok \<lparr>ei_entry = field b 24 8, ei_segments = sort_key seg_vaddr (load_segs b)\<rparr>)"
  | (err) e where "\<not> elf_ok b" "parse b = Some (Err e)"
proof (cases rule: parse_header_ok [OF l])
  case (2 e)
  then show ?thesis by (intro err) (auto simp: elf_ok_def parse_def)
next
  case 1
  let ?ss = "sort_key seg_vaddr (load_segs b)"
  have "\<forall>i\<in>set [0..<field b 56 2]. field b 32 8 + i * 56 + 56 \<le> length b"
    using 1(1) by (auto simp: header_ok_def dest: Suc_leI)
  note r = parse_phdrs_ok [OF l this, of "[]", folded load_segs_def, simplified]
  show ?thesis
  proof (cases "\<forall>sg\<in>set (load_segs b). seg_ok b sg")
    case False
    then obtain e where "parse_phdrs b (field b 32 8) [0..<field b 56 2] [] = Some (Err e)" using r by presburger
    then show ?thesis using 1 False by (intro err [of e]) (auto simp: elf_ok_def parse_def)
  next
    case True
    then have "check_overlap ?ss = Some (if sorted_wrt before ?ss then Ok () else Err Overlap)"
      by (intro check_overlap_ok) (auto simp: seg_ok_def)
    moreover have "parse_phdrs b (field b 32 8) [0..<field b 56 2] [] = Some (Ok (load_segs b))" using r True by simp
    ultimately show ?thesis
      using 1 True ok err [of Overlap] by (cases "sorted_wrt before ?ss") (simp_all add: parse_def elf_ok_def)
  qed
qed

lemma before_pages: "before a b \<Longrightarrow> {page_lo a ..< page_hi a} \<inter> {page_lo b ..< page_hi b} = {}"
  by (auto simp: before_def)

end
