(* ===== verification/Elf_Inv.thy ===== *)
theory Elf_Inv
  imports Elf_Parse Mmu_Main
begin

text \<open>
  The invariant of loading a program. \<open>P\<close> gives, for each virtual page mapped so far, the physical
  page behind it, its flags and its contents; \<open>D\<close> are the pages handed out and accounted for, \<open>L\<close>
  those handed out and not mapped. Each operation of the loader is one transition of these ghosts.
\<close>

section \<open>Fresh pages\<close>

lemma zeroed_page:
  assumes i: "buddy_inv s A"
  obtains (none) s1 where "alloc_pages_zeroed s 0 = Some (None, s1)" "buddy_inv s1 A" "same_geom s s1"
      "\<forall>b\<in>A. \<forall>x\<in>region b. pmem s1 x = pmem s x"
  | (some) p s1 where "alloc_pages_zeroed s 0 = Some (Some p, s1)" "buddy_inv s1 (insert (p, 0) A)" "(p, 0) \<notin> A"
      "same_geom s s1" "\<forall>b\<in>A. \<forall>x\<in>region b. pmem s1 x = pmem s x" "\<forall>i<4096. pmem s1 (p + i) = 0"
proof -
  obtain r s1 where a: "alloc_pages s 0 = Some (r, s1)"
    using buddy.alloc_ok [OF i, of 0] by (auto simp: alloc_pages_def)
  show ?thesis
  proof (cases r)
    case None
    then have "buddy_inv s1 A" "\<forall>b\<in>A. \<forall>x\<in>region b. pmem s1 x = pmem s x" "same_geom s s1"
      using buddy.alloc_ok [OF i, of 0] a alloc_geom [OF i] by (auto simp: alloc_pages_def)
    then show ?thesis using None a by (intro none) (auto simp: alloc_pages_zeroed_def)
  next
    case (Some p)
    obtain s2 where s2: "zero_page s1 p = Some s2" "buddy_inv s2 (insert (p, 0) A)" "(p, 0) \<notin> A" "same_geom s s2"
      "\<forall>b\<in>A. \<forall>x\<in>region b. pmem s2 x = pmem s x"
      using fresh_root [OF i] a Some by blast
    have "\<forall>i<4096. pmem s2 (p + i) = 0"
      using s2(1) by (auto simp: zero_page_def zero_words_eq bind_eq_Some_conv)
    moreover have "alloc_pages_zeroed s 0 = Some (Some p, s2)"
      using a Some s2(1) by (simp add: alloc_pages_zeroed_def)
    ultimately show ?thesis using s2 by (intro some)
  qed
qed

section \<open>The invariant\<close>

datatype frame = Frame (fr_pa: usize) (fr_flags: u64) (fr_data: "nat \<Rightarrow> byte")

type_synonym frames = "nat \<Rightarrow> frame option"

text \<open>What the pages in \<open>D\<close> hold: the tables of \<open>root\<close>, the frames \<open>P\<close>, and the pages \<open>A0\<close> of before.\<close>

definition frame_ok :: "mm \<Rightarrow> (nat \<times> nat) set \<Rightarrow> usize \<Rightarrow> mm \<Rightarrow> (nat \<times> nat) set \<Rightarrow> nat \<Rightarrow> frame \<Rightarrow> bool" where
  "frame_ok s0 A0 root s D k fr \<longleftrightarrow>
     k < 2 ^ 26 \<and> (fr_pa fr, 0) \<in> D - A0 \<and> (\<forall>x. node_at (pmem s) root x \<noteq> Some (fr_pa fr)) \<and>
     (\<forall>i<4096. pmem s (fr_pa fr + i) = fr_data fr i) \<and>
     pte_valid (fr_flags fr) \<and> take_bit 10 (fr_flags fr) = fr_flags fr \<and>
     leaf_pte s0 root (k * 4096) = 0 \<and> node_at (pmem s) root (N0 (vpn2 (k * 4096)) (vpn1 (k * 4096))) \<noteq> None"

definition placed ::
  "mm \<Rightarrow> (nat \<times> nat) set \<Rightarrow> usize \<Rightarrow> mm \<Rightarrow> (nat \<times> nat) set \<Rightarrow> (nat \<times> nat) set \<Rightarrow> frames \<Rightarrow> bool" where
  "placed s0 A0 root s D L P \<longleftrightarrow>
     buddy_inv s (D \<union> L) \<and> D \<inter> L = {} \<and> A0 \<subseteq> D \<and> phys_ok s \<and> same_geom s0 s \<and> pt_wf (pmem s) root D \<and>
     (\<forall>k fr. P k = Some fr \<longrightarrow> frame_ok s0 A0 root s D k fr) \<and>
     (\<forall>k k' fr fr'. P k = Some fr \<longrightarrow> P k' = Some fr' \<longrightarrow> fr_pa fr = fr_pa fr' \<longrightarrow> k = k') \<and>
     (\<forall>b\<in>D. b \<in> A0 \<or> (\<exists>k fr. P k = Some fr \<and> b = (fr_pa fr, 0)) \<or>
        snd b = 0 \<and> (\<exists>x. node_at (pmem s) root x = Some (fst b))) \<and>
     (\<forall>b\<in>A0. (\<forall>x. node_at (pmem s0) root x \<noteq> Some (fst b)) \<longrightarrow>
        (\<forall>x\<in>region b. pmem s x = pmem s0 x) \<and> (\<forall>x. node_at (pmem s) root x \<noteq> Some (fst b)))"

text \<open>In addition the address space translates to the frames, and elsewhere as before.\<close>

definition loading ::
  "mm \<Rightarrow> (nat \<times> nat) set \<Rightarrow> usize \<Rightarrow> mm \<Rightarrow> (nat \<times> nat) set \<Rightarrow> (nat \<times> nat) set \<Rightarrow> frames \<Rightarrow> bool" where
  "loading s0 A0 root s D L P \<longleftrightarrow> placed s0 A0 root s D L P \<and>
     (\<forall>w<2 ^ 39. leaf_pte s root w =
        (case P (w div 4096) of Some fr \<Rightarrow> pte (fr_pa fr) (fr_flags fr OR PTE_U) | None \<Rightarrow> leaf_pte s0 root w))"

lemma placedD:
  assumes "placed s0 A0 root s D L P"
  shows "buddy_inv s (D \<union> L)" "D \<inter> L = {}" "A0 \<subseteq> D" "phys_ok s" "same_geom s0 s" "pt_wf (pmem s) root D"
    and "\<And>k fr. P k = Some fr \<Longrightarrow> frame_ok s0 A0 root s D k fr"
    and "\<And>k k' fr fr'. P k = Some fr \<Longrightarrow> P k' = Some fr' \<Longrightarrow> fr_pa fr = fr_pa fr' \<Longrightarrow> k = k'"
    and "\<And>b. b \<in> D \<Longrightarrow> b \<in> A0 \<or> (\<exists>k fr. P k = Some fr \<and> b = (fr_pa fr, 0)) \<or>
        snd b = 0 \<and> (\<exists>x. node_at (pmem s) root x = Some (fst b))"
    and "\<And>b x. b \<in> A0 \<Longrightarrow> (\<And>x. node_at (pmem s0) root x \<noteq> Some (fst b)) \<Longrightarrow> x \<in> region b \<Longrightarrow> pmem s x = pmem s0 x"
    and "\<And>b x. b \<in> A0 \<Longrightarrow> (\<And>x. node_at (pmem s0) root x \<noteq> Some (fst b)) \<Longrightarrow> node_at (pmem s) root x \<noteq> Some (fst b)"
proof -
  show "buddy_inv s (D \<union> L)" "D \<inter> L = {}" "A0 \<subseteq> D" "phys_ok s" "same_geom s0 s" "pt_wf (pmem s) root D"
    using assms unfolding placed_def by - (elim conjE, assumption)+
  note c = assms [unfolded placed_def, THEN conjunct2, THEN conjunct2, THEN conjunct2, THEN conjunct2, THEN conjunct2, THEN conjunct2]
  show "frame_ok s0 A0 root s D k fr" if "P k = Some fr" for k fr
    by (rule c [THEN conjunct1, rule_format, OF that])
  show "k = k'" if "P k = Some fr" "P k' = Some fr'" "fr_pa fr = fr_pa fr'" for k k' fr fr'
    by (rule c [THEN conjunct2, THEN conjunct1, rule_format, OF that])
  show "b \<in> A0 \<or> (\<exists>k fr. P k = Some fr \<and> b = (fr_pa fr, 0)) \<or>
      snd b = 0 \<and> (\<exists>x. node_at (pmem s) root x = Some (fst b))" if "b \<in> D" for b
    by (rule c [THEN conjunct2, THEN conjunct2, THEN conjunct1, rule_format, OF that])
  show "pmem s x = pmem s0 x" if "b \<in> A0" "\<And>x. node_at (pmem s0) root x \<noteq> Some (fst b)" "x \<in> region b" for b x
    using c [THEN conjunct2, THEN conjunct2, THEN conjunct2] that by blast
  show "node_at (pmem s) root x \<noteq> Some (fst b)" if "b \<in> A0" "\<And>x. node_at (pmem s0) root x \<noteq> Some (fst b)" for b x
    using c [THEN conjunct2, THEN conjunct2, THEN conjunct2] that by blast
qed

lemma placedI:
  assumes "buddy_inv s (D \<union> L)" "D \<inter> L = {}" "A0 \<subseteq> D" "phys_ok s" "same_geom s0 s" "pt_wf (pmem s) root D"
    and "\<And>k fr. P k = Some fr \<Longrightarrow> frame_ok s0 A0 root s D k fr"
    and "\<And>k k' fr fr'. P k = Some fr \<Longrightarrow> P k' = Some fr' \<Longrightarrow> fr_pa fr = fr_pa fr' \<Longrightarrow> k = k'"
    and "\<And>b. b \<in> D \<Longrightarrow> b \<in> A0 \<or> (\<exists>k fr. P k = Some fr \<and> b = (fr_pa fr, 0)) \<or>
        snd b = 0 \<and> (\<exists>x. node_at (pmem s) root x = Some (fst b))"
    and "\<And>b x. b \<in> A0 \<Longrightarrow> (\<And>x. node_at (pmem s0) root x \<noteq> Some (fst b)) \<Longrightarrow> x \<in> region b \<Longrightarrow> pmem s x = pmem s0 x"
    and "\<And>b x. b \<in> A0 \<Longrightarrow> (\<And>x. node_at (pmem s0) root x \<noteq> Some (fst b)) \<Longrightarrow> node_at (pmem s) root x \<noteq> Some (fst b)"
  shows "placed s0 A0 root s D L P"
  unfolding placed_def
proof (intro conjI allI impI ballI)
  show "pmem s x = pmem s0 x" if "b \<in> A0" "\<forall>x. node_at (pmem s0) root x \<noteq> Some (fst b)" "x \<in> region b" for b x
    by (rule assms(10) [OF that(1) spec [OF that(2)] that(3)])
  show "node_at (pmem s) root x \<noteq> Some (fst b)" if "b \<in> A0" "\<forall>x. node_at (pmem s0) root x \<noteq> Some (fst b)" for b x
    by (rule assms(11) [OF that(1) spec [OF that(2)]])
qed (simp_all only: assms)

lemma loading_placed: "loading s0 A0 root s D L P \<Longrightarrow> placed s0 A0 root s D L P"
  by (simp add: loading_def)

lemma loading_leaf:
  "loading s0 A0 root s D L P \<Longrightarrow> w < 2 ^ 39 \<Longrightarrow> leaf_pte s root w =
        (case P (w div 4096) of Some fr \<Rightarrow> pte (fr_pa fr) (fr_flags fr OR PTE_U) | None \<Rightarrow> leaf_pte s0 root w)"
  by (simp add: loading_def)

lemma loading_init:
  assumes "buddy_inv s A" "phys_ok s" "pt_wf (pmem s) root A"
  shows "loading s A root s A {} Map.empty"
  using assms by (simp add: loading_def placed_def same_geom_def)

lemma placed_apart:
  assumes "placed s0 A0 root s D L P" "b \<in> D \<union> L" "c \<in> D \<union> L" "b \<noteq> c"
  shows "region b \<inter> region c = {}"
  using buddy.inv_disjoint [OF placedD(1) [OF assms(1)] assms(2-4)] .

lemma leaf_pte_frame:
  assumes "\<And>x a. node_at (pmem s) root x = Some a \<Longrightarrow> same_on (pmem s) (pmem s') a"
  shows "leaf_pte s' root w = leaf_pte s root w"
  unfolding leaf_pte_pt_leaf by (rule pt_leaf_frame [OF assms]) simp_all

text \<open>A change of pages that are not accounted for, or of the set of these pages.\<close>

lemma loading_cong:
  assumes l: "loading s0 A0 root s D L P" and i: "buddy_inv s' (D \<union> L')" "D \<inter> L' = {}" "same_geom s s'"
    and m: "\<And>b x. b \<in> D \<Longrightarrow> x \<in> region b \<Longrightarrow> pmem s' x = pmem s x"
  shows "loading s0 A0 root s' D L' P"
proof -
  note d = placedD [OF loading_placed [OF l]]
  have f: "same_on (pmem s) (pmem s') a" if "node_at (pmem s) root x = Some a" for x a
    using m [OF pt_wf_owned [OF d(6) that]] by (auto simp: same_on_def)
  have n: "node_at (pmem s') root = node_at (pmem s) root" by (rule ext) (rule node_at_frame [OF f])
  have lf: "leaf_pte s' root w = leaf_pte s root w" for w by (rule leaf_pte_frame [OF f])
  have fo: "frame_ok s0 A0 root s' D k fr" if "P k = Some fr" for k fr
    using d(7) [OF that] m [of "(fr_pa fr, 0)"] unfolding frame_ok_def n by auto
  have "placed s0 A0 root s' D L' P"
  proof (rule placedI)
    show "phys_ok s'" using d(4) same_geom_phys [OF i(3)] by simp
    show "same_geom s0 s'" using d(5) i(3) by (simp add: same_geom_def)
    show "pt_wf (pmem s') root D" using d(6) unfolding pt_wf_def n .
    show "pmem s' x = pmem s0 x" if "b \<in> A0" "\<And>x. node_at (pmem s0) root x \<noteq> Some (fst b)" "x \<in> region b" for b x
      using m [OF subsetD [OF d(3) that(1)] that(3)] d(10) [OF that] by simp
    show "node_at (pmem s') root x \<noteq> Some (fst b)" if "b \<in> A0" "\<And>x. node_at (pmem s0) root x \<noteq> Some (fst b)" for b x
      unfolding n by (rule d(11) [OF that])
  qed (unfold n, (rule i d(3) fo d(8,9); assumption?)+)
  then show ?thesis using loading_leaf [OF l] by (simp add: loading_def lf)
qed

lemma loading_alloc:
  assumes l: "loading s0 A0 root s D L P"
  obtains (none) s1 where "alloc_pages_zeroed s 0 = Some (None, s1)" "loading s0 A0 root s1 D L P"
  | (some) p s1 where "alloc_pages_zeroed s 0 = Some (Some p, s1)" "(p, 0) \<notin> D \<union> L"
      "loading s0 A0 root s1 D (insert (p, 0) L) P" "\<forall>i<4096. pmem s1 (p + i) = 0"
proof (rule zeroed_page [OF placedD(1) [OF loading_placed [OF l]]], goal_cases)
  case (1 s1)
  have "loading s0 A0 root s1 D L P" by (rule loading_cong [OF l]) (use 1 placedD(2) [OF loading_placed [OF l]] in auto)
  with 1 show ?thesis by (intro none)
next
  case (2 p s1)
  have "loading s0 A0 root s1 D (insert (p, 0) L) P"
    by (rule loading_cong [OF l]) (use 2 placedD(2) [OF loading_placed [OF l]] in auto)
  with 2 show ?thesis by (intro some)
qed

lemma loading_free:
  assumes l: "loading s0 A0 root s D L P" and p: "(p, 0) \<in> L"
  shows "\<exists>s'. free_pages s p = Some (Ok (), s') \<and> loading s0 A0 root s' D (L - {(p, 0)}) P"
proof -
  note d = placedD [OF loading_placed [OF l]]
  obtain s' where s': "free s p = Some (Ok (), s')" "buddy_inv s' (D \<union> L - {(p, 0)})"
    "\<forall>b\<in>D \<union> L - {(p, 0)}. \<forall>x\<in>region b. pmem s' x = pmem s x"
    using buddy.free_ok [OF d(1), of p 0] p by blast
  have e: "D \<union> L - {(p, 0)} = D \<union> (L - {(p, 0)})" using d(2) p by auto
  have "same_geom s s'" by (rule free_geom [OF d(1) _ s'(1)]) (use p in blast)
  then have "loading s0 A0 root s' D (L - {(p, 0)}) P"
    using s'(2,3) d(2) p unfolding e by (intro loading_cong [OF l]) auto
  then show ?thesis using s'(1) by (simp add: free_pages_def)
qed

text \<open>Writing to a page in \<open>L\<close>.\<close>

lemma loading_fill:
  assumes l: "loading s0 A0 root s D L P" and p: "(p, 0) \<in> L" and m: "\<And>x. x \<notin> region (p, 0) \<Longrightarrow> m x = pmem s x"
  shows "loading s0 A0 root (s\<lparr>pmem := m\<rparr>) D L P"
proof (rule loading_cong [OF l])
  note d = placedD [OF loading_placed [OF l]]
  show "buddy_inv (s\<lparr>pmem := m\<rparr>) (D \<union> L)" by (rule buddy.inv_store [OF d(1)]) (use m p in auto)
  show "pmem (s\<lparr>pmem := m\<rparr>) x = pmem s x" if "b \<in> D" "x \<in> region b" for b x
  proof -
    have "region b \<inter> region (p, 0) = {}" by (rule placed_apart [OF loading_placed [OF l]]) (use that(1) p d(2) in auto)
    then show ?thesis using that(2) m [of x] by (simp del: region.simps) blast
  qed
qed (use placedD(2) [OF loading_placed [OF l]] in \<open>auto simp: same_geom_def\<close>)

text \<open>Writing to a frame.\<close>

lemma loading_put:
  assumes l: "loading s0 A0 root s D L P" and k: "P k = Some fr"
    and m: "\<And>x. x \<notin> region (fr_pa fr, 0) \<Longrightarrow> m x = pmem s x"
  shows "loading s0 A0 root (s\<lparr>pmem := m\<rparr>) D L (P(k \<mapsto> Frame (fr_pa fr) (fr_flags fr) (\<lambda>i. m (fr_pa fr + i))))"
proof -
  note d = placedD [OF loading_placed [OF l]]
  let ?p = "(fr_pa fr, 0)" and ?s = "s\<lparr>pmem := m\<rparr>" and ?fr = "Frame (fr_pa fr) (fr_flags fr) (\<lambda>i. m (fr_pa fr + i))"
  have fk: "frame_ok s0 A0 root s D k fr" by (rule d(7) [OF k])
  then have p: "?p \<in> D" "?p \<notin> A0" "\<forall>x. node_at (pmem s) root x \<noteq> Some (fr_pa fr)" by (auto simp: frame_ok_def)
  have same: "m x = pmem s x" if "b \<in> D" "b \<noteq> ?p" "x \<in> region b" for b x
    using placed_apart [OF loading_placed [OF l], of b ?p] p that m [of x] by blast
  have f: "same_on (pmem s) (pmem ?s) a" if "node_at (pmem s) root x = Some a" for x a
  proof -
    have "a \<noteq> fr_pa fr" using p(3) that by auto
    then show ?thesis using same [OF pt_wf_owned [OF d(6) that]] by (auto simp: same_on_def)
  qed
  have lf: "leaf_pte ?s root w = leaf_pte s root w" for w by (rule leaf_pte_frame [OF f])
  have n: "node_at m root = node_at (pmem s) root" using node_at_frame [OF f] by (intro ext) simp
  then have n': "node_at (pmem ?s) root = node_at (pmem s) root" by simp
  have fo: "frame_ok s0 A0 root ?s D k' fr'" if "P k' = Some fr'" "k' \<noteq> k" for k' fr'
  proof -
    have "fr_pa fr' \<noteq> fr_pa fr" using d(8) [OF that(1) k] that(2) by blast
    then show ?thesis using d(7) [OF that(1)] same [of "(fr_pa fr', 0)"] by (auto simp: frame_ok_def n)
  qed
  have fo': "frame_ok s0 A0 root ?s D k ?fr" using fk by (auto simp: frame_ok_def n)
  have A0: "pmem ?s x = pmem s x" if "b \<in> A0" "x \<in> region b" for b x
    using same [of b x] that d(3) p(2) by auto
  have "placed s0 A0 root ?s D L (P(k \<mapsto> ?fr))"
  proof (rule placedI)
    show "buddy_inv ?s (D \<union> L)" by (rule buddy.inv_store [OF d(1)]) (use m p in auto)
    show "phys_ok ?s" "same_geom s0 ?s" using d(4,5) by (simp_all add: phys_ok_def same_geom_def)
    show "pt_wf (pmem ?s) root D" using d(6) unfolding pt_wf_def by (simp add: n)
    show "frame_ok s0 A0 root ?s D k' fr'" if "(P(k \<mapsto> ?fr)) k' = Some fr'" for k' fr'
      using that fo fo' by (cases "k' = k") auto
    show "k1 = k2" if "(P(k \<mapsto> ?fr)) k1 = Some f1" "(P(k \<mapsto> ?fr)) k2 = Some f2" "fr_pa f1 = fr_pa f2" for k1 k2 f1 f2
      by (rule d(8) [of k1 "if k1 = k then fr else f1" k2 "if k2 = k then fr else f2"])
        (use that k in \<open>auto split: if_splits\<close>)
    show "b \<in> A0 \<or> (\<exists>k' fr'. (P(k \<mapsto> ?fr)) k' = Some fr' \<and> b = (fr_pa fr', 0)) \<or>
        snd b = 0 \<and> (\<exists>x. node_at (pmem ?s) root x = Some (fst b))" if "b \<in> D" for b
    proof -
      have "\<exists>k' fr'. (P(k \<mapsto> ?fr)) k' = Some fr' \<and> b = (fr_pa fr', 0)" if "P k' = Some fr'" "b = (fr_pa fr', 0)" for k' fr'
        using that k by (intro exI [of _ k'] exI [of _ "if k' = k then ?fr else fr'"]) auto
      then show ?thesis using d(9) [OF that] unfolding n' by blast
    qed
    show "pmem ?s x = pmem s0 x" if "b \<in> A0" "\<And>x. node_at (pmem s0) root x \<noteq> Some (fst b)" "x \<in> region b" for b x
      using A0 [OF that(1,3)] d(10) [OF that] by simp
    show "node_at (pmem ?s) root x \<noteq> Some (fst b)" if "b \<in> A0" "\<And>x. node_at (pmem s0) root x \<noteq> Some (fst b)" for b x
      using d(11) [OF that] by (simp add: n)
  qed (rule d(2,3))+
  then show ?thesis using loading_leaf [OF l] k by (auto simp: loading_def lf)
qed

section \<open>Mapping and unmapping\<close>

text \<open>The table pages grow; pages that are not tables keep their contents and do not become tables.\<close>

definition grown :: "mm \<Rightarrow> (nat \<times> nat) set \<Rightarrow> mm \<Rightarrow> (nat \<times> nat) set \<Rightarrow> usize \<Rightarrow> bool" where
  "grown s A s' A' root \<longleftrightarrow> buddy_inv s' A' \<and> A \<subseteq> A' \<and> pt_wf (pmem s') root A' \<and> same_geom s s' \<and>
     (\<forall>b\<in>A. (\<forall>x. node_at (pmem s) root x \<noteq> Some (fst b)) \<longrightarrow>
        (\<forall>x\<in>region b. pmem s' x = pmem s x) \<and> (\<forall>x. node_at (pmem s') root x \<noteq> Some (fst b))) \<and>
     (\<forall>b\<in>A'. b \<in> A \<or> snd b = 0 \<and> (\<exists>x. node_at (pmem s') root x = Some (fst b))) \<and>
     (\<forall>x a. node_at (pmem s) root x = Some a \<longrightarrow> node_at (pmem s') root x = Some a)"

lemma pt_ext_grown: "pt_ext s A s' A' root \<Longrightarrow> grown s A s' A' root"
proof -
  assume e: "pt_ext s A s' A' root"
  note d = pt_extD [OF e]
  have "pmem s' x = pmem s x" "node_at (pmem s') root y \<noteq> Some (fst b)"
    if "b \<in> A" "\<forall>z. node_at (pmem s) root z \<noteq> Some (fst b)" "x \<in> region b" for b x y
    using d(8) [OF that(1) _ that(3)] fresh_node_apart [OF e that(1)] that(2) by auto
  moreover have "fst b \<in> region b" for b by (cases b) simp
  ultimately show ?thesis unfolding grown_def using d(1-4) d(6) d(9) by (intro conjI ballI impI) blast+
qed

lemma leaf_set_grown: "leaf_set s A s' A' root v e \<Longrightarrow> grown s A s' A' root"
  by (simp add: grown_def leaf_set_def)

lemma grown_keep:
  "grown s A s' A' root \<Longrightarrow> b \<in> A \<Longrightarrow> (\<And>x. node_at (pmem s) root x \<noteq> Some (fst b)) \<Longrightarrow> x \<in> region b \<Longrightarrow>
   pmem s' x = pmem s x"
  unfolding grown_def by blast

lemma placed_not_node:
  assumes l: "placed s0 A0 root s D L P" and b: "b \<in> L"
  shows "node_at (pmem s) root x \<noteq> Some (fst b)"
proof
  assume "node_at (pmem s) root x = Some (fst b)"
  then have n: "(fst b, 0) \<in> D" by (rule pt_wf_owned [OF placedD(6) [OF l]])
  then have "b \<noteq> (fst b, 0)" using b placedD(2) [OF l] by auto
  then have "region b \<inter> region (fst b, 0) = {}" using placed_apart [OF l, of b "(fst b, 0)"] n b by simp
  then show False by (cases b) auto
qed

lemma placed_grown:
  assumes l: "placed s0 A0 root s D L P" and g: "grown s (D \<union> L) s' A' root"
  shows "placed s0 A0 root s' (A' - L) L P"
proof -
  note d = placedD [OF l]
  have g1: "buddy_inv s' A'" "D \<union> L \<subseteq> A'" "pt_wf (pmem s') root A'" "same_geom s s'" using g unfolding grown_def by simp_all
  have keep: "pmem s' x = pmem s x" "node_at (pmem s') root y \<noteq> Some (fst b)"
    if "b \<in> D \<union> L" "\<And>z. node_at (pmem s) root z \<noteq> Some (fst b)" "x \<in> region b" for b x y
    using g that unfolding grown_def by blast+
  have stay: "node_at (pmem s') root x \<noteq> Some (fst b)" if "b \<in> D \<union> L" "\<And>z. node_at (pmem s) root z \<noteq> Some (fst b)" for b x
    using keep(2) [OF that, of "fst b"] by (cases b) simp
  have mono: "node_at (pmem s') root x = Some a" if "node_at (pmem s) root x = Some a" for x a
    using g that unfolding grown_def by blast
  have AL: "A' - L \<union> L = A'" using g1(2) by blast
  show ?thesis
  proof (rule placedI)
    show "buddy_inv s' (A' - L \<union> L)" unfolding AL by (rule g1(1))
    show "A0 \<subseteq> A' - L" using d(2,3) g1(2) by blast
    show "phys_ok s'" using d(4) same_geom_phys [OF g1(4)] by simp
    show "same_geom s0 s'" using d(5) g1(4) by (simp add: same_geom_def)
    show "pt_wf (pmem s') root (A' - L)"
    proof -
      have "(a, 0) \<notin> L" if "node_at (pmem s') root x = Some a" for x a
        using stay [OF UnI2 placed_not_node [OF l], of "(a, 0)" x] that by auto
      then show ?thesis using g1(3) unfolding pt_wf_def by blast
    qed
    show "frame_ok s0 A0 root s' (A' - L) k fr" if "P k = Some fr" for k fr
    proof -
      have f: "frame_ok s0 A0 root s D k fr" by (rule d(7) [OF that])
      let ?b = "(fr_pa fr, 0)"
      have b: "?b \<in> D \<union> L" "\<And>z. node_at (pmem s) root z \<noteq> Some (fst ?b)" using f by (auto simp: frame_ok_def)
      have "?b \<in> A' - L" using f g1(2) d(2) by (auto simp: frame_ok_def)
      moreover have "pmem s' (fr_pa fr + i) = fr_data fr i" if "i < 4096" for i
        using f keep(1) [OF b, of "fr_pa fr + i"] that by (simp add: frame_ok_def)
      moreover have "node_at (pmem s') root (N0 (vpn2 (k * 4096)) (vpn1 (k * 4096))) \<noteq> None"
        using f mono unfolding frame_ok_def by blast
      ultimately show ?thesis using f stay [OF b] by (simp add: frame_ok_def del: node_at.simps)
    qed
    show "b \<in> A0 \<or> (\<exists>k fr. P k = Some fr \<and> b = (fr_pa fr, 0)) \<or>
        snd b = 0 \<and> (\<exists>x. node_at (pmem s') root x = Some (fst b))" if "b \<in> A' - L" for b
    proof -
      have "b \<in> D \<or> snd b = 0 \<and> (\<exists>x. node_at (pmem s') root x = Some (fst b))"
        using that g unfolding grown_def by blast
      then show ?thesis using d(9) [of b] mono by blast
    qed
    show "pmem s' x = pmem s0 x" if "b \<in> A0" "\<And>x. node_at (pmem s0) root x \<noteq> Some (fst b)" "x \<in> region b" for b x
      using keep(1) [OF UnI1 [OF subsetD [OF d(3) that(1)]] d(11) [OF that(1,2)] that(3)] d(10) [OF that] by simp
    show "node_at (pmem s') root x \<noteq> Some (fst b)" if "b \<in> A0" "\<And>x. node_at (pmem s0) root x \<noteq> Some (fst b)" for b x
      by (rule stay [OF UnI1 [OF subsetD [OF d(3) that(1)]] d(11) [OF that]])
  qed (use d(8) in auto)
qed

lemma placed_move:
  assumes l: "placed s0 A0 root s D L P" and p: "(p, 0) \<in> L" and k: "k < 2 ^ 26" "P k = None" "leaf_pte s0 root (k * 4096) = 0"
    and f: "pte_valid f" "take_bit 10 f = f" and n: "node_at (pmem s) root (N0 (vpn2 (k * 4096)) (vpn1 (k * 4096))) \<noteq> None"
    and c: "\<And>i. i < 4096 \<Longrightarrow> pmem s (p + i) = c i"
  shows "placed s0 A0 root s (insert (p, 0) D) (L - {(p, 0)}) (P(k \<mapsto> Frame p f c))"
proof -
  note d = placedD [OF l]
  let ?P = "P(k \<mapsto> Frame p f c)"
  have e: "insert (p, 0) D \<union> (L - {(p, 0)}) = D \<union> L" using p by blast
  have fo: "frame_ok s0 A0 root s (insert (p, 0) D) k' fr" if "P k' = Some fr" for k' fr
    using d(7) [OF that] by (auto simp: frame_ok_def)
  have ne: "fr_pa fr \<noteq> p" if "P k' = Some fr" for k' fr
    using d(7) [OF that] p d(2) by (auto simp: frame_ok_def)
  show ?thesis
  proof (rule placedI)
    show "buddy_inv s (insert (p, 0) D \<union> (L - {(p, 0)}))" unfolding e by (rule d(1))
    show "pt_wf (pmem s) root (insert (p, 0) D)" using d(6) by (auto simp: pt_wf_def)
    show "frame_ok s0 A0 root s (insert (p, 0) D) k' fr" if "?P k' = Some fr" for k' fr
    proof (cases "k' = k")
      case True
      then show ?thesis using that p d(2,3) k f n c placed_not_node [OF l p] by (auto simp: frame_ok_def)
    qed (use that fo in simp)
    show "k1 = k2" if "?P k1 = Some f1" "?P k2 = Some f2" "fr_pa f1 = fr_pa f2" for k1 k2 f1 f2
      using that d(8) [of k1 f1 k2 f2] ne [of k1 f1] ne [of k2 f2] by (auto split: if_splits)
    show "b \<in> A0 \<or> (\<exists>k' fr. ?P k' = Some fr \<and> b = (fr_pa fr, 0)) \<or>
        snd b = 0 \<and> (\<exists>x. node_at (pmem s) root x = Some (fst b))" if "b \<in> insert (p, 0) D" for b
    proof (cases "b = (p, 0)")
      case False
      have "\<exists>k' fr. ?P k' = Some fr \<and> b = (fr_pa fr, 0)" if "P k' = Some fr" "b = (fr_pa fr, 0)" for k' fr
        using that k(2) by (intro exI [of _ k'] exI [of _ fr]) auto
      then show ?thesis using d(9) [of b] that False by blast
    qed (auto intro!: exI [of _ k])
  qed (use d in auto)
qed

lemma placed_unmove:
  assumes l: "placed s0 A0 root s D L P" and k: "P k = Some fr"
  shows "placed s0 A0 root s (D - {(fr_pa fr, 0)}) (insert (fr_pa fr, 0) L) (P(k := None))"
proof -
  note d = placedD [OF l]
  let ?p = "(fr_pa fr, 0)"
  have fk: "?p \<in> D" "?p \<notin> A0" "\<And>x. node_at (pmem s) root x \<noteq> Some (fr_pa fr)" using d(7) [OF k] by (auto simp: frame_ok_def)
  have e: "D - {?p} \<union> insert ?p L = D \<union> L" using fk(1) by blast
  show ?thesis
  proof (rule placedI)
    show "buddy_inv s (D - {?p} \<union> insert ?p L)" unfolding e by (rule d(1))
    show "pt_wf (pmem s) root (D - {?p})" using d(6) fk(3) unfolding pt_wf_def by blast
    show "frame_ok s0 A0 root s (D - {?p}) k' fr'" if "(P(k := None)) k' = Some fr'" for k' fr'
    proof -
      have k': "P k' = Some fr'" "k' \<noteq> k" using that by (auto split: if_splits)
      then have "fr_pa fr' \<noteq> fr_pa fr" using d(8) [OF k'(1) k] by blast
      then show ?thesis using d(7) [OF k'(1)] by (auto simp: frame_ok_def)
    qed
    show "k1 = k2" if "(P(k := None)) k1 = Some f1" "(P(k := None)) k2 = Some f2" "fr_pa f1 = fr_pa f2" for k1 k2 f1 f2
      using that d(8) [of k1 f1 k2 f2] by (auto split: if_splits)
    show "b \<in> A0 \<or> (\<exists>k' fr. (P(k := None)) k' = Some fr \<and> b = (fr_pa fr, 0)) \<or>
        snd b = 0 \<and> (\<exists>x. node_at (pmem s) root x = Some (fst b))" if "b \<in> D - {?p}" for b
    proof -
      have "\<exists>k' fr. (P(k := None)) k' = Some fr \<and> b = (fr_pa fr, 0)" if "P k' = Some fr'" "b = (fr_pa fr', 0)" for k' fr'
        using that k \<open>b \<in> D - {?p}\<close> by (intro exI [of _ k'] exI [of _ fr']) auto
      then show ?thesis using d(9) [of b] that by blast
    qed
  qed (use d fk in auto)
qed

lemma loading_map:
  assumes l: "loading s0 A0 root s D L P" and p: "(p, 0) \<in> L" and k: "k < 2 ^ 26" "\<not> is_mapped s root (k * 4096)"
    and f: "pte_valid f" "take_bit 10 f = f"
  obtains (ok) s' D' where "map_user_page s root (k * 4096) p f = Some (Ok (), s')" "P k = None"
      "leaf_pte s0 root (k * 4096) = 0"
      "loading s0 A0 root s' D' (L - {(p, 0)}) (P(k \<mapsto> Frame p f (\<lambda>i. pmem s (p + i))))"
  | (err) s' D' where "map_user_page s root (k * 4096) p f = Some (Err (), s')" "loading s0 A0 root s' D' L P"
proof -
  note pl = loading_placed [OF l]
  note d = placedD [OF pl]
  let ?A = "D \<union> L" and ?v = "k * 4096" and ?e = "pte p (f OR PTE_U)"
  have v: "?v < 2 ^ 38" "?v < 2 ^ 39" using k(1) by simp_all
  have own: "p mod 4096 = 0" "page_in_range s p = Some True" using owned_page [OF d(1) _ d(4), of p] p by auto
  have eq: "map_user_page s root ?v p f = map_user_leaf s root ?v p f"
    using v own by (simp add: map_user_page_def)
  have w: "pt_wf (pmem s) root ?A" using d(6) by (auto simp: pt_wf_def)
  have val: "pte_valid (pte q (g OR PTE_U))" if "pte_valid g" for q g
    using that by (auto simp: pte_valid_bit pte_flag_bits bit_or_iff)
  have unm: "P k = None" "leaf_pte s0 root ?v = 0"
  proof -
    have "\<not> pte_valid (leaf_pte s root ?v)" using k(2) by (simp add: is_mapped_def)
    then show "P k = None" using loading_leaf [OF l v(2)] d(7) [of k] val by (cases "P k") (auto simp: frame_ok_def)
    then have "leaf_pte s0 root ?v = leaf_pte s root ?v" using loading_leaf [OF l v(2)] by simp
    then show "leaf_pte s0 root ?v = 0" using k(2)
      by (auto simp: is_mapped_def leaf_pte_def Let_def split: if_splits)
  qed
  show ?thesis
  proof (rule map_user_leaf_ok [OF d(1,4) w v(2), of p f])
    fix s' A' assume m: "map_user_leaf s root ?v p f = Some (Ok (), s')"
      and ls: "leaf_set s ?A s' A' root ?v (if pte_valid ?e then ?e else 0)"
    let ?P = "P(k \<mapsto> Frame p f (\<lambda>i. pmem s (p + i)))"
    note pg = placed_grown [OF pl leaf_set_grown [OF ls]]
    have n: "node_at (pmem s') root (N0 (vpn2 ?v) (vpn1 ?v)) \<noteq> None" using ls unfolding leaf_set_def by blast
    have "pmem s' (p + i) = pmem s (p + i)" if "i < 4096" for i
      by (rule grown_keep [OF leaf_set_grown [OF ls] _ placed_not_node [OF pl p]]) (use p that in simp_all)
    then have "placed s0 A0 root s' (insert (p, 0) (A' - L)) (L - {(p, 0)}) ?P"
      by (rule placed_move [OF pg p k(1) unm f n])
    moreover have "leaf_pte s' root w = (if w div 4096 = k then ?e else leaf_pte s root w)" if "w < 2 ^ 39" for w
      using ls that val [OF f(1)] unfolding leaf_set_def by simp
    ultimately have "loading s0 A0 root s' (insert (p, 0) (A' - L)) (L - {(p, 0)}) ?P"
      using loading_leaf [OF l] by (simp add: loading_def)
    then show ?thesis using m unm unfolding eq [symmetric] by (intro ok)
  next
    fix s' A' assume m: "map_user_leaf s root ?v p f = Some (Err (), s')" "pt_ext s ?A s' A' root"
    have "leaf_pte s' root w = leaf_pte s root w" for w
      unfolding leaf_pte_pt_leaf using pt_extD(5) [OF m(2)] by simp
    then have "loading s0 A0 root s' (A' - L) L P"
      using placed_grown [OF pl pt_ext_grown [OF m(2)]] loading_leaf [OF l] by (simp add: loading_def)
    then show ?thesis using m(1) unfolding eq [symmetric] by (intro err)
  qed
qed

lemma loading_unmap:
  assumes l: "loading s0 A0 root s D L P" and k: "P k = Some fr"
  shows "\<exists>s' D'. unmap_4k s root (k * 4096) = Some (Ok (), s') \<and>
    loading s0 A0 root s' D' (insert (fr_pa fr, 0) L) (P(k := None))"
proof -
  note pl = loading_placed [OF l]
  note d = placedD [OF pl]
  let ?A = "D \<union> L" and ?v = "k * 4096"
  have fk: "k < 2 ^ 26" "pte_valid (fr_flags fr)" "leaf_pte s0 root ?v = 0"
    "node_at (pmem s) root (N0 (vpn2 ?v) (vpn1 ?v)) \<noteq> None" using d(7) [OF k] by (simp_all add: frame_ok_def)
  then obtain u where u: "node_at (pmem s) root (N0 (vpn2 ?v) (vpn1 ?v)) = Some u" by blast
  have v: "?v < 2 ^ 39" using fk(1) by simp
  have "leaf_pte s root ?v = pte (fr_pa fr) (fr_flags fr OR PTE_U)" using loading_leaf [OF l v] k by simp
  then have "pte_valid (leaf_pte s root ?v)" using fk(2) by (auto simp: pte_valid_bit pte_flag_bits bit_or_iff)
  then have nz: "leaf_pte s root ?v \<noteq> 0" by auto
  have w: "pt_wf (pmem s) root ?A" using d(6) by (auto simp: pt_wf_def)
  obtain s' where s': "unmap_4k s root ?v = Some (Ok (), s')" "leaf_set s ?A s' ?A root ?v 0"
    using unmap_4k_node [OF d(1) w v nz u] by blast
  have "leaf_pte s' root w = (if w div 4096 = k then 0 else leaf_pte s root w)" if "w < 2 ^ 39" for w
    using s'(2) that unfolding leaf_set_def by simp
  moreover have "leaf_pte s0 root w = 0" if "w < 2 ^ 39" "w div 4096 = k" for w
    using fk(3) vpn_eq_iff [OF that(1) v] that(2) by (simp add: leaf_pte_pt_leaf)
  ultimately have "loading s0 A0 root s' (?A - L - {(fr_pa fr, 0)}) (insert (fr_pa fr, 0) L) (P(k := None))"
    using placed_unmove [OF placed_grown [OF pl leaf_set_grown [OF s'(2)]] k] loading_leaf [OF l] by (simp add: loading_def)
  then show ?thesis using s'(1) by blast
qed

section \<open>Rollback\<close>

text \<open>The list \<open>mapped\<close> of the code and the frames \<open>P\<close> say the same.\<close>

definition listed :: "maps \<Rightarrow> frames \<Rightarrow> bool" where
  "listed mapped P \<longleftrightarrow> distinct (map fst mapped) \<and>
     (\<forall>va pa. (va, pa) \<in> set mapped \<longleftrightarrow> (\<exists>k fr. P k = Some fr \<and> va = k * 4096 \<and> pa = fr_pa fr))"

lemma listed_Nil: "listed [] P \<longleftrightarrow> P = Map.empty"
proof -
  have "listed [] P \<longleftrightarrow> (\<forall>k. P k = None)"
    unfolding listed_def by simp (metis not_None_eq)
  then show ?thesis by (simp add: fun_eq_iff)
qed

lemma listed_snoc:
  assumes "listed mapped P" "P k = None"
  shows "listed (mapped @ [(k * 4096, fr_pa fr)]) (P(k \<mapsto> fr))"
  using assms by (fastforce simp: listed_def)

lemma listed_put:
  assumes "listed mapped P" "P k = Some fr" "fr_pa fr' = fr_pa fr"
  shows "listed mapped (P(k \<mapsto> fr'))"
proof -
  have "(\<exists>j x. (P(k \<mapsto> fr')) j = Some x \<and> va = j * 4096 \<and> pa = fr_pa x) \<longleftrightarrow>
      (\<exists>j x. P j = Some x \<and> va = j * 4096 \<and> pa = fr_pa x)" for va pa
    using assms(2,3) by (metis fun_upd_apply option.inject)
  then show ?thesis using assms(1) by (simp add: listed_def)
qed

lemma rollback_ok:
  assumes "loading s0 A0 root s D L P" "listed mapped P"
  shows "\<exists>s' D'. rollback root mapped s = Some s' \<and> loading s0 A0 root s' D' L Map.empty"
  using assms
proof (induction mapped arbitrary: s D P)
  case Nil
  then show ?case by (auto simp: listed_Nil)
next
  case (Cons vp mapped)
  obtain va pa where vp: "vp = (va, pa)" by (cases vp)
  obtain k fr where k: "P k = Some fr" "va = k * 4096" "pa = fr_pa fr"
    using Cons.prems(2) vp unfolding listed_def by (metis list.set_intros(1))
  obtain s1 D1 where s1: "unmap_4k s root va = Some (Ok (), s1)"
    "loading s0 A0 root s1 D1 (insert (pa, 0) L) (P(k := None))"
    using loading_unmap [OF Cons.prems(1) k(1)] k by blast
  have pL: "(pa, 0) \<notin> L"
    using placedD(7) [OF loading_placed [OF Cons.prems(1)] k(1)] placedD(2) [OF loading_placed [OF Cons.prems(1)]] k(3)
    by (auto simp: frame_ok_def)
  obtain s2 where s2: "free_pages s1 pa = Some (Ok (), s2)" "loading s0 A0 root s2 D1 (insert (pa, 0) L - {(pa, 0)}) (P(k := None))"
    using loading_free [OF s1(2), of pa] by blast
  have "(va', pa') \<in> set mapped \<longleftrightarrow> (\<exists>j x. (P(k := None)) j = Some x \<and> va' = j * 4096 \<and> pa' = fr_pa x)" for va' pa'
  proof (cases "va' = va")
    case True
    have "va \<notin> fst ` set mapped" using Cons.prems(2) vp by (simp add: listed_def)
    then have "(va, pa') \<notin> set mapped" by force
    then show ?thesis using True k(2) by auto
  next
    case False
    then have "(va', pa') \<in> set mapped \<longleftrightarrow> (va', pa') \<in> set (vp # mapped)" using vp by simp
    also have "\<dots> \<longleftrightarrow> (\<exists>j x. P j = Some x \<and> va' = j * 4096 \<and> pa' = fr_pa x)" using Cons.prems(2) by (simp only: listed_def)
    also have "\<dots> \<longleftrightarrow> (\<exists>j x. (P(k := None)) j = Some x \<and> va' = j * 4096 \<and> pa' = fr_pa x)" using False k(2) by auto
    finally show ?thesis .
  qed
  then have lm: "listed mapped (P(k := None))" using Cons.prems(2) by (simp add: listed_def)
  have e: "insert (pa, 0) L - {(pa, 0)} = L" using pL by blast
  from Cons.IH [OF s2(2) [unfolded e] lm] show ?case using s1(1) s2(1) vp by simp
qed

end
