(* ===== verification/Elf_Segs.thy ===== *)
theory Elf_Segs
  imports Elf_Inv
begin

text \<open>
  Mapping the segments of a program: every page of a segment gets the bytes of the file that belong
  there and zeros elsewhere.
\<close>

section \<open>Copying a page\<close>

lemma write_bytes_eq:
  "write_bytes m a xs x = (if a \<le> x \<and> x < a + length xs then xs ! (x - a) else m x)"
proof (induction xs arbitrary: m a)
  case (Cons y ys)
  have "(y # ys) ! (x - a) = ys ! (x - Suc a)" if "Suc a \<le> x" using that by (simp add: nth_Cons' Suc_diff_le)
  then show ?case unfolding write_bytes.simps Cons.IH by (auto simp: Suc_le_eq le_less)
qed auto

text \<open>The byte of a segment at a virtual address.\<close>

definition seg_byte :: "bytes \<Rightarrow> segment \<Rightarrow> usize \<Rightarrow> byte" where
  "seg_byte b sg v =
     (if seg_vaddr sg \<le> v \<and> v < seg_vaddr sg + seg_filesz sg then b ! (seg_offset sg + (v - seg_vaddr sg)) else 0)"

lemma page_base:
  assumes "seg_ok b sg" "length b < 2 ^ 63" "page_lo sg \<le> k" "k < 2 ^ 26"
  shows "wrapping_add (seg_offset sg) (wrapping_sub (k * 4096) (seg_vaddr sg)) + seg_vaddr sg = seg_offset sg + k * 4096"
proof (cases "seg_vaddr sg \<le> k * 4096")
  case True
  then have "wrapping_sub (k * 4096) (seg_vaddr sg) = k * 4096 - seg_vaddr sg"
    using assms(4) by (simp add: wrapping_sub_def mod_if)
  moreover have "seg_offset sg + (k * 4096 - seg_vaddr sg) < USIZE_LIMIT"
  proof -
    have "seg_offset sg \<le> length b" using assms(1) by (simp add: seg_ok_def)
    then show ?thesis using assms(2,4) by simp
  qed
  ultimately show ?thesis using True by (simp add: wrapping_add_def)
next
  case False
  define r where "r = seg_vaddr sg mod 4096"
  have "k = seg_vaddr sg div 4096" using False assms(3) by (simp add: page_lo_def)
  then have v: "seg_vaddr sg = k * 4096 + r" by (simp add: r_def)
  have r: "r \<le> seg_offset sg" "r < 4096" using assms(1) by (simp_all add: seg_ok_def r_def)
  have "0 < r" using False v by simp
  then have "wrapping_sub (k * 4096) (seg_vaddr sg) = USIZE_LIMIT - r"
    using v r assms(4) by (simp add: wrapping_sub_def)
  moreover have "(seg_offset sg + (USIZE_LIMIT - r)) mod USIZE_LIMIT = seg_offset sg - r"
  proof -
    have "seg_offset sg + (USIZE_LIMIT - r) = (seg_offset sg - r) + USIZE_LIMIT" using r by simp
    moreover have "seg_offset sg \<le> length b" using assms(1) by (simp add: seg_ok_def)
    then have "seg_offset sg - r < USIZE_LIMIT" using assms(2) by simp
    ultimately show ?thesis by (simp del: USIZE_LIMIT_def)
  qed
  ultimately show ?thesis using v r by (simp add: wrapping_add_def del: USIZE_LIMIT_def)
qed

lemma copy_page_ok:
  assumes ok: "seg_ok b sg" "length b < 2 ^ 63" and k: "page_lo sg \<le> k" "k < 2 ^ 26"
    and z: "\<And>i. i < 4096 \<Longrightarrow> pmem s (pa + i) = 0"
  obtains m where "copy_page sg b (k * 4096) pa s = Some (s\<lparr>pmem := m\<rparr>)"
    "\<And>x. x \<notin> region (pa, 0) \<Longrightarrow> m x = pmem s x" "\<And>i. i < 4096 \<Longrightarrow> m (pa + i) = seg_byte b sg (k * 4096 + i)"
proof -
  define base where "base = wrapping_add (seg_offset sg) (wrapping_sub (k * 4096) (seg_vaddr sg))"
  have base: "base + seg_vaddr sg = seg_offset sg + k * 4096" unfolding base_def by (rule page_base [OF ok k])
  have fit: "seg_offset sg + seg_filesz sg \<le> length b" using ok(1) by (simp add: seg_ok_def)
  have u: "uadd base PAGE_SIZE = Some (base + 4096)"
    "uadd (seg_offset sg) (seg_filesz sg) = Some (seg_offset sg + seg_filesz sg)"
    using ok base k(2) by (simp_all add: uadd_def seg_ok_def PAGE_SIZE_def)
  define lo hi where "lo = max base (seg_offset sg)" and "hi = min (base + 4096) (seg_offset sg + seg_filesz sg)"
  define m where "m = (if lo < hi then write_bytes (pmem s) (pa + (lo - base)) (take (hi - lo) (drop lo b)) else pmem s)"
  have hl: "hi \<le> length b" "base \<le> lo" "hi \<le> base + 4096" using fit by (simp_all add: hi_def lo_def)
  have len: "length (take (hi - lo) (drop lo b)) = hi - lo" using hl by simp
  have "copy_page sg b (k * 4096) pa s = Some (s\<lparr>pmem := m\<rparr>)"
    using hl unfolding copy_page_def base_def [symmetric] Let_def u m_def lo_def [symmetric] bind.simps hi_def [symmetric]
    by (simp add: usub_def)
  moreover have "m x = pmem s x" if "x \<notin> region (pa, 0)" for x
    using that hl unfolding m_def write_bytes_eq len by auto
  moreover have "m (pa + i) = seg_byte b sg (k * 4096 + i)" if i: "i < 4096" for i
  proof -
    have in_iff: "lo \<le> base + i \<and> base + i < hi \<longleftrightarrow>
        seg_vaddr sg \<le> k * 4096 + i \<and> k * 4096 + i < seg_vaddr sg + seg_filesz sg"
      using base i by (auto simp: lo_def hi_def)
    have "m (pa + i) = (if lo \<le> base + i \<and> base + i < hi then b ! (base + i) else 0)"
      using hl z [OF i] unfolding m_def write_bytes_eq len by (auto simp: nth_drop add.commute [of base i])
    moreover have "base + i = seg_offset sg + (k * 4096 + i - seg_vaddr sg)" if "seg_vaddr sg \<le> k * 4096 + i"
      using base that by linarith
    ultimately show ?thesis unfolding in_iff seg_byte_def by auto
  qed
  ultimately show ?thesis by (rule that)
qed

section \<open>The pages of a segment\<close>

definition covers :: "frames \<Rightarrow> bytes \<Rightarrow> segment \<Rightarrow> nat \<Rightarrow> bool" where
  "covers P b sg k \<longleftrightarrow> (\<exists>fr. P k = Some fr \<and> fr_flags fr = segment_flags (seg_flags sg) \<and>
     (\<forall>i<4096. fr_data fr i = seg_byte b sg (k * 4096 + i)))"

lemma segment_flags_ok: "pte_valid (segment_flags f)" "take_bit 10 (segment_flags f) = segment_flags f"
  by (simp_all add: segment_flags_def pte_valid_bit)

lemma map_segment_page_ok:
  assumes l: "loading s0 A0 root s D {} P" "listed mapped P" and so: "seg_ok b sg" "length b < 2 ^ 63"
    and k: "page_lo sg \<le> k" "k < 2 ^ 26"
  obtains (ok) s' D' fr where
      "map_segment_page root sg b (segment_flags (seg_flags sg)) (k * 4096) (s, mapped) =
         Some (Ok (), s', mapped @ [(k * 4096, fr_pa fr)])"
      "P k = None" "loading s0 A0 root s' D' {} (P(k \<mapsto> fr))" "covers (P(k \<mapsto> fr)) b sg k"
  | (err) e s' D' where
      "map_segment_page root sg b (segment_flags (seg_flags sg)) (k * 4096) (s, mapped) = Some (Err e, s', mapped)"
      "loading s0 A0 root s' D' {} P"
proof (cases "is_mapped s root (k * 4096)")
  case True
  then show ?thesis using l(1) by (intro err) (auto simp: map_segment_page_def)
next
  case unm: False
  show ?thesis
  proof (rule loading_alloc [OF l(1)], goal_cases)
    case (1 s1)
    then show ?thesis using unm by (intro err) (auto simp: map_segment_page_def)
  next
    case (2 p s1)
    obtain m where m: "copy_page sg b (k * 4096) p s1 = Some (s1\<lparr>pmem := m\<rparr>)"
      "\<And>x. x \<notin> region (p, 0) \<Longrightarrow> m x = pmem s1 x" "\<And>i. i < 4096 \<Longrightarrow> m (p + i) = seg_byte b sg (k * 4096 + i)"
      by (rule copy_page_ok [OF so k]) (use 2(4) in \<open>auto intro: that\<close>)
    let ?s2 = "s1\<lparr>pmem := m\<rparr>"
    have l2: "loading s0 A0 root ?s2 D {(p, 0)} P" by (rule loading_fill [OF 2(3)]) (use m(2) in auto)
    have v: "k * 4096 < 2 ^ 39" using k(2) by simp
    have unm2: "\<not> is_mapped ?s2 root (k * 4096)"
      using unm loading_leaf [OF l2 v] loading_leaf [OF l(1) v] by (simp add: is_mapped_def)
    show ?thesis
    proof (rule loading_map [OF l2 singletonI k(2) unm2 segment_flags_ok [of "seg_flags sg"]], goal_cases)
      case (1 s3 D')
      let ?fr = "Frame p (segment_flags (seg_flags sg)) (\<lambda>i. m (p + i))"
      have "map_segment_page root sg b (segment_flags (seg_flags sg)) (k * 4096) (s, mapped) =
          Some (Ok (), s3, mapped @ [(k * 4096, fr_pa ?fr)])"
        using unm \<open>alloc_pages_zeroed s 0 = Some (Some p, s1)\<close> m(1) 1(1) by (simp add: map_segment_page_def)
      moreover have "covers (P(k \<mapsto> ?fr)) b sg k" using m(3) by (simp add: covers_def)
      ultimately show ?thesis using 1(2,4) by (intro ok) simp_all
    next
      case (2 s3 D')
      obtain s4 where s4: "free_pages s3 p = Some (Ok (), s4)" "loading s0 A0 root s4 D' ({(p, 0)} - {(p, 0)}) P"
        using loading_free [OF 2(2), of p] by blast
      have "map_segment_page root sg b (segment_flags (seg_flags sg)) (k * 4096) (s, mapped) = Some (Err MapFailed, s4, mapped)"
        using unm \<open>alloc_pages_zeroed s 0 = Some (Some p, s1)\<close> m(1) 2(1) s4(1) by (simp add: map_segment_page_def)
      then show ?thesis using s4(2) by (intro err) simp_all
    qed
  qed
qed

text \<open>The frames \<open>P'\<close> extend \<open>P\<close> on the page numbers \<open>K\<close>, where \<open>P\<close> had none.\<close>

definition extends :: "frames \<Rightarrow> nat set \<Rightarrow> frames \<Rightarrow> bool" where
  "extends P K P' \<longleftrightarrow> (\<forall>k\<in>K. P k = None) \<and> (\<forall>k. k \<notin> K \<longrightarrow> P' k = P k)"

lemma extends_trans:
  assumes "extends P K P1" "extends P1 K' P2" "\<And>k. k \<in> K \<Longrightarrow> P1 k \<noteq> None"
  shows "extends P (K \<union> K') P2"
proof -
  have "P k = None" if "k \<in> K'" for k
    using assms that unfolding extends_def by metis
  moreover have "P k = None" if "k \<in> K" for k using assms(1) that by (simp add: extends_def)
  ultimately show ?thesis using assms(1,2) by (auto simp: extends_def)
qed

lemma extends_one: "P k = None \<Longrightarrow> extends P {k} (P(k \<mapsto> fr))"
  by (simp add: extends_def)

lemma extends_covers: "extends P K P' \<Longrightarrow> covers P b sg k \<Longrightarrow> covers P' b sg k"
proof -
  assume e: "extends P K P'" and c: "covers P b sg k"
  then have "k \<notin> K" unfolding covers_def extends_def by (metis option.distinct(1))
  then have "P' k = P k" using e unfolding extends_def by blast
  then show ?thesis using c by (simp add: covers_def)
qed

lemma map_segment_from_ok:
  assumes l: "loading s0 A0 root s D {} P" "listed mapped P" and so: "seg_ok b sg" "length b < 2 ^ 63"
    and k: "page_lo sg \<le> k" "k \<le> hi" "hi \<le> 2 ^ 26"
  obtains (ok) s' D' P' mapped' where
      "map_segment_from root sg b (segment_flags (seg_flags sg)) (k * 4096) (hi * 4096) (s, mapped) = Some (Ok (), s', mapped')"
      "loading s0 A0 root s' D' {} P'" "listed mapped' P'" "extends P {k..<hi} P'" "\<And>j. j \<in> {k..<hi} \<Longrightarrow> covers P' b sg j"
  | (err) e s' D' P' mapped' where
      "map_segment_from root sg b (segment_flags (seg_flags sg)) (k * 4096) (hi * 4096) (s, mapped) = Some (Err e, s', mapped')"
      "loading s0 A0 root s' D' {} P'" "listed mapped' P'"
  using assms
proof (induction "hi - k" arbitrary: k s D P mapped thesis)
  case 0
  then have "k = hi" by simp
  then show ?case using 0(2) [of s mapped D P] 0(4,5) by (simp add: map_segment_from.simps extends_def)
next
  case (Suc n)
  let ?f = "segment_flags (seg_flags sg)"
  have kh: "k < hi" using Suc(2) by simp
  have k26: "k < 2 ^ 26" using kh Suc(11) by simp
  have u: "uadd (k * 4096) PAGE_SIZE = Some (Suc k * 4096)" using k26 by (simp add: uadd_def PAGE_SIZE_def)
  have unf: "map_segment_from root sg b ?f (k * 4096) (hi * 4096) (s, mapped) =
      qmark (map_segment_page root sg b ?f (k * 4096) (s, mapped)) (\<lambda>_ st1.
        map_segment_from root sg b ?f (Suc k * 4096) (hi * 4096) st1)"
    using kh u by (simp add: map_segment_from.simps [of root sg b ?f "k * 4096"])
  show ?case
  proof (rule map_segment_page_ok [OF Suc(5-9) k26], goal_cases)
    case (1 s1 D1 fr)
    have li: "listed (mapped @ [(k * 4096, fr_pa fr)]) (P(k \<mapsto> fr))" by (rule listed_snoc [OF Suc(6) 1(2)])
    have ih: "n = hi - Suc k" "page_lo sg \<le> Suc k" "Suc k \<le> hi" using Suc(2,9) kh by simp_all
    show ?thesis
    proof (rule Suc(1) [OF ih(1) _ _ 1(3) li Suc(7,8) ih(2,3) Suc(11)], goal_cases)
      case (1 s2 mapped2 D2 P2)
      have "{k..<hi} = {k} \<union> {Suc k..<hi}" using kh by auto
      then have e: "extends P {k..<hi} P2" using extends_trans [OF extends_one [of P k fr, OF \<open>P k = None\<close>] 1(4)] by simp
      have "covers P2 b sg j" if "j \<in> {k..<hi}" for j
        using 1(5) [of j] extends_covers [OF 1(4) \<open>covers (P(k \<mapsto> fr)) b sg k\<close>] that by (cases "j = k") auto
      then show ?thesis using Suc(3) [of s2 mapped2 D2 P2] 1(1-3) e unf \<open>map_segment_page _ _ _ _ _ _ = _\<close> by simp
    next
      case (2 e s2 mapped2 D2 P2)
      then show ?thesis using Suc(4) [of e s2 mapped2 D2 P2] unf \<open>map_segment_page _ _ _ _ _ _ = _\<close> by simp
    qed
  next
    case (2 e s1 D1)
    then show ?thesis using Suc(4) [of e s1 mapped D1 P] Suc(6) unf by simp
  qed
qed

lemma page_hi_le: "seg_ok b sg \<Longrightarrow> page_lo sg \<le> page_hi sg \<and> page_hi sg \<le> 2 ^ 26"
proof -
  assume "seg_ok b sg"
  then have "(seg_vaddr sg + seg_memsz sg + 4095) div 4096 \<le> (2 ^ 38 + 4095) div 4096"
    by (intro div_le_mono) (simp add: seg_ok_def)
  moreover have "seg_vaddr sg div 4096 \<le> (seg_vaddr sg + seg_memsz sg + 4095) div 4096" by (intro div_le_mono) simp
  ultimately show ?thesis by (simp add: page_lo_def page_hi_def)
qed

lemma map_segments_ok:
  assumes "loading s0 A0 root s D {} P" "listed mapped P" "\<forall>sg\<in>set sgs. seg_ok b sg" "length b < 2 ^ 63"
  obtains (ok) s' D' P' mapped' where
      "map_segments root sgs b (s, mapped) = Some (Ok (), s', mapped')"
      "loading s0 A0 root s' D' {} P'" "listed mapped' P'" "extends P (\<Union>sg\<in>set sgs. {page_lo sg ..< page_hi sg}) P'"
      "\<And>sg k. sg \<in> set sgs \<Longrightarrow> k \<in> {page_lo sg ..< page_hi sg} \<Longrightarrow> covers P' b sg k"
  | (err) e s' D' P' mapped' where
      "map_segments root sgs b (s, mapped) = Some (Err e, s', mapped')"
      "loading s0 A0 root s' D' {} P'" "listed mapped' P'"
  using assms
proof (induction sgs arbitrary: s D P mapped thesis)
  case Nil
  then show ?case using Nil(1) [of s mapped D P] by (simp add: extends_def)
next
  case (Cons sg sgs)
  have so: "seg_ok b sg" "\<forall>sg\<in>set sgs. seg_ok b sg" using Cons(6) by simp_all
  have hi: "page_lo sg \<le> page_hi sg" "page_hi sg \<le> 2 ^ 26" using page_hi_le [OF so(1)] by simp_all
  have ms: "map_segment root sg b (s, mapped) =
      map_segment_from root sg b (segment_flags (seg_flags sg)) (page_lo sg * 4096) (page_hi sg * 4096) (s, mapped)"
    using so(1) align_page [of "seg_vaddr sg + seg_memsz sg"]
    by (simp add: map_segment_def Let_def seg_ok_def uadd_def align_down_def page_lo_def page_hi_def PAGE_SIZE_def)
  show ?case
  proof (rule map_segment_from_ok [OF Cons(4,5) so(1) Cons(7) le_refl hi], goal_cases)
    case (1 s1 D1 P1 mapped1)
    show ?thesis
    proof (rule Cons(1) [OF _ _ 1(2,3) so(2) Cons(7)], goal_cases)
      case (1 s2 mapped2 D2 P2)
      have "covers P2 b sg' k" if "sg' \<in> set (sg # sgs)" "k \<in> {page_lo sg' ..< page_hi sg'}" for sg' k
        using that 1(5) extends_covers [OF 1(4)] \<open>\<And>j. j \<in> {page_lo sg..<page_hi sg} \<Longrightarrow> covers P1 b sg j\<close> by auto
      moreover have "extends P ({page_lo sg..<page_hi sg} \<union> (\<Union>sg\<in>set sgs. {page_lo sg ..< page_hi sg})) P2"
        by (rule extends_trans [OF \<open>extends P {page_lo sg..<page_hi sg} P1\<close> 1(4)])
          (use \<open>\<And>j. j \<in> {page_lo sg..<page_hi sg} \<Longrightarrow> covers P1 b sg j\<close> in \<open>auto simp: covers_def\<close>)
      ultimately show ?thesis
        using Cons(2) [of s2 mapped2 D2 P2] 1(1-3) ms \<open>map_segment_from _ _ _ _ _ _ _ = _\<close> by simp
    next
      case (2 e s2 mapped2 D2 P2)
      then show ?thesis using Cons(3) [of e s2 mapped2 D2 P2] ms \<open>map_segment_from _ _ _ _ _ _ _ = _\<close> by simp
    qed
  next
    case (2 e s1 D1 P1 mapped1)
    then show ?thesis using Cons(3) [of e s1 mapped1 D1 P1] ms by simp
  qed
qed

end
