(* ===== verification/Elf_Stack.thy ===== *)
theory Elf_Stack
  imports Elf_Segs
begin

text \<open>
  The initial stack of a program. \<open>M\<close> is the contents of the stack seen at its virtual addresses;
  every write of the loader through \<^verbatim>\<open>pa_at\<close> is a write to \<open>M\<close>.
\<close>

section \<open>The stack pages\<close>

definition sp_page :: nat where "sp_page = 67108840"

lemma stack_bottom_eq: "stack_bottom = sp_page * 4096"
  by (simp add: stack_bottom_def USER_STACK_TOP_def sp_page_def PAGE_SIZE_def)

lemma stack_top_eq: "USER_STACK_TOP = stack_bottom + 32768"
  by (simp add: stack_bottom_def USER_STACK_TOP_def PAGE_SIZE_def)

definition stack_pages :: "frames \<Rightarrow> frames \<Rightarrow> usize list \<Rightarrow> mem \<Rightarrow> bool" where
  "stack_pages P0 P pas M \<longleftrightarrow>
     (\<forall>k. k \<notin> {sp_page ..< sp_page + length pas} \<longrightarrow> P k = P0 k) \<and>
     (\<forall>i<length pas. P0 (sp_page + i) = None \<and> (\<exists>c. P (sp_page + i) = Some (Frame (pas ! i) 0xC7 c) \<and>
        (\<forall>j<4096. c j = M ((sp_page + i) * 4096 + j))))"

definition stack_ok :: "mm \<Rightarrow> (nat \<times> nat) set \<Rightarrow> usize \<Rightarrow> frames \<Rightarrow> usize list \<Rightarrow> mm \<times> maps \<Rightarrow> mem \<Rightarrow> bool" where
  "stack_ok s0 A0 root P0 pas st M \<longleftrightarrow> length pas = 8 \<and>
     (\<exists>D P. loading s0 A0 root (fst st) D {} P \<and> listed (snd st) P \<and> stack_pages P0 P pas M)"

lemma stack_pages_snoc:
  assumes "stack_pages P0 P pas M" "P (sp_page + length pas) = None"
    "\<And>j. j < 4096 \<Longrightarrow> c j = M ((sp_page + length pas) * 4096 + j)"
  shows "stack_pages P0 (P(sp_page + length pas \<mapsto> Frame p 0xC7 c)) (pas @ [p]) M"
proof -
  have "P0 (sp_page + length pas) = None" using assms(1,2) unfolding stack_pages_def by fastforce
  then show ?thesis using assms by (auto simp: stack_pages_def nth_append less_Suc_eq)
qed

lemma map_stack_ok:
  assumes "loading s0 A0 root s D {} P" "listed mapped P" "stack_pages P0 P pas (\<lambda>_. 0)" "length pas \<le> 8"
  obtains (ok) st' pas' where "map_stack root [length pas..<8] pas (s, mapped) = Some (Ok pas', st')"
      "stack_ok s0 A0 root P0 pas' st' (\<lambda>_. 0)"
  | (err) e s' mapped' D' L' P' where "map_stack root [length pas..<8] pas (s, mapped) = Some (Err e, s', mapped')"
      "loading s0 A0 root s' D' L' P'" "listed mapped' P'" "L' = {} \<or> e = MapFailed \<and> (\<exists>p. L' = {(p, 0)})"
  using assms
proof (induction "8 - length pas" arbitrary: pas s D P mapped thesis)
  case 0
  then have "length pas = 8" by simp
  then show ?case using 0(2) [of pas "(s, mapped)"] 0(4-6) by (auto simp: stack_ok_def)
next
  case (Suc n)
  let ?k = "sp_page + length pas"
  have lt: "length pas < 8" using Suc(2) by simp
  then have up: "[length pas..<8] = length pas # [Suc (length pas)..<8]" by (simp add: upt_conv_Cons)
  have va: "stack_bottom + length pas * 4096 = ?k * 4096" by (simp add: stack_bottom_eq)
  have k26: "?k < 2 ^ 26" using lt by (simp add: sp_page_def)
  then have v: "?k * 4096 < 2 ^ 39" by simp
  show ?case
  proof (cases "is_mapped s root (?k * 4096)")
    case True
    then show ?thesis using Suc(4) [of Overlap s mapped D "{}" P] Suc(5,6) by (simp add: up Let_def va)
  next
    case unm: False
    show ?thesis
    proof (rule loading_alloc [OF Suc(5)], goal_cases)
      case (1 s1)
      then show ?thesis using Suc(4) [of NoMemory s1 mapped D "{}" P] Suc(6) unm by (simp add: up Let_def va)
    next
      case (2 p s1)
      have unm1: "\<not> is_mapped s1 root (?k * 4096)"
        using unm loading_leaf [OF 2(3) v] loading_leaf [OF Suc(5) v] by (simp add: is_mapped_def)
      have f: "pte_valid 0xC7" "take_bit 10 (0xC7 :: u64) = 0xC7" by (simp_all add: pte_valid_bit)
      show ?thesis
      proof (rule loading_map [OF 2(3) insertI1 k26 unm1 f], goal_cases)
        case (1 s2 D2)
        let ?P = "P(?k \<mapsto> Frame p 0xC7 (\<lambda>i. pmem s1 (p + i)))"
        have sp: "stack_pages P0 ?P (pas @ [p]) (\<lambda>_. 0)"
          by (rule stack_pages_snoc [OF Suc(7) 1(2)]) (use 2(4) in simp)
        have li: "listed (mapped @ [(?k * 4096, p)]) ?P"
          using listed_snoc [of mapped P ?k "Frame p 0xC7 (\<lambda>i. pmem s1 (p + i))"] Suc(6) 1(2) by simp
        have ld: "loading s0 A0 root s2 D2 {} ?P" using 1(4) by simp
        have st: "map_stack root [length pas..<8] pas (s, mapped) =
            map_stack root [length (pas @ [p])..<8] (pas @ [p]) (s2, mapped @ [(?k * 4096, p)])"
          using unm 2(1) 1(1) by (simp add: up Let_def va)
        have ih: "n = 8 - length (pas @ [p])" "length (pas @ [p]) \<le> 8" using Suc(2) lt by simp_all
        show ?thesis
        proof (rule Suc(1) [OF ih(1) _ _ ld li sp ih(2)], goal_cases)
          case (1 pas' st')
          then show ?thesis using Suc(3) [of pas' st'] by (simp only: st)
        next
          case (2 e s' mapped' D' L' P')
          then show ?thesis using Suc(4) [of e s' mapped' D' L' P'] by (simp only: st)
        qed
      next
        case (2 s2 D2)
        then show ?thesis
          using Suc(4) [of MapFailed s2 mapped D2 "{(p, 0)}" P] Suc(6) unm \<open>alloc_pages_zeroed s 0 = Some (Some p, s1)\<close>
          by (simp add: up Let_def va)
      qed
    qed
  qed
qed

section \<open>Writes\<close>

lemma stack_store:
  assumes l: "stack_ok s0 A0 root P0 pas (s, mapped) M" and i: "i < 8"
    and m: "\<And>x. x \<notin> region (pas ! i, 0) \<Longrightarrow> m x = pmem s x"
    and M: "\<And>j. j < 4096 \<Longrightarrow> pmem s (pas ! i + j) = M ((sp_page + i) * 4096 + j) \<Longrightarrow> m (pas ! i + j) = M' ((sp_page + i) * 4096 + j)"
    and M': "\<And>x. x div 4096 \<noteq> sp_page + i \<Longrightarrow> M' x = M x"
  shows "stack_ok s0 A0 root P0 pas (s\<lparr>pmem := m\<rparr>, mapped) M'"
proof -
  obtain D P where d: "loading s0 A0 root s D {} P" "listed mapped P" "stack_pages P0 P pas M" and len: "length pas = 8"
    using l by (auto simp: stack_ok_def)
  obtain c where c: "P (sp_page + i) = Some (Frame (pas ! i) 0xC7 c)" "\<forall>j<4096. c j = M ((sp_page + i) * 4096 + j)"
    using d(3) i len by (auto simp: stack_pages_def)
  let ?P = "P(sp_page + i \<mapsto> Frame (pas ! i) 0xC7 (\<lambda>j. m (pas ! i + j)))"
  have ld: "loading s0 A0 root (s\<lparr>pmem := m\<rparr>) D {} ?P"
    using loading_put [OF d(1) c(1)] m by simp
  have pm: "pmem s (pas ! i + j) = M ((sp_page + i) * 4096 + j)" if "j < 4096" for j
    using placedD(7) [OF loading_placed [OF d(1)] c(1)] c(2) that by (simp add: frame_ok_def)
  have other: "M' ((sp_page + i') * 4096 + j) = M ((sp_page + i') * 4096 + j)" if "i' \<noteq> i" "j < 4096" for i' j
    by (rule M') (use that in simp)
  have "stack_pages P0 ?P pas M'"
    unfolding stack_pages_def
  proof (intro conjI allI impI)
    fix i' assume i': "i' < length pas"
    show "P0 (sp_page + i') = None" using d(3) i' by (simp add: stack_pages_def)
    show "\<exists>c. ?P (sp_page + i') = Some (Frame (pas ! i') 0xC7 c) \<and> (\<forall>j<4096. c j = M' ((sp_page + i') * 4096 + j))"
    proof (cases "i' = i")
      case True
      then show ?thesis using M pm by simp
    next
      case False
      then show ?thesis using d(3) i' other by (simp add: stack_pages_def)
    qed
  qed (use d(3) i len in \<open>auto simp: stack_pages_def\<close>)
  moreover have "listed mapped ?P" by (rule listed_put [OF d(2) c(1)]) simp
  ultimately show ?thesis using ld len by (auto simp: stack_ok_def)
qed

lemma stack_pa:
  assumes l: "stack_ok s0 A0 root P0 pas (s, mapped) M" and i: "i < 8"
  shows "pas ! i < 2 ^ 56"
proof -
  obtain D P where d: "loading s0 A0 root s D {} P" "stack_pages P0 P pas M" and len: "length pas = 8"
    using l by (auto simp: stack_ok_def)
  note pl = placedD [OF loading_placed [OF d(1)]]
  obtain c where c: "P (sp_page + i) = Some (Frame (pas ! i) 0xC7 c)" using d(2) i len by (auto simp: stack_pages_def)
  have "(pas ! i, 0) \<in> D \<union> {}" using pl(7) [OF c] by (simp add: frame_ok_def)
  then show ?thesis using owned_page(2) [OF pl(1) _ pl(4)] by blast
qed

lemma stack_addr:
  assumes "stack_bottom \<le> v" "v < USER_STACK_TOP"
  obtains i where "i < 8" "v div 4096 = sp_page + i" "v = (sp_page + i) * 4096 + v mod 4096" "(v - stack_bottom) div 4096 = i"
proof
  let ?i = "(v - stack_bottom) div 4096"
  have "v - stack_bottom < 8 * 4096" using assms by (simp add: stack_top_eq)
  then show "?i < 8" by (rule less_mult_imp_div_less)
  have "v = sp_page * 4096 + (v - stack_bottom)" using assms(1) by (simp add: stack_bottom_eq)
  then have "v div 4096 = (sp_page * 4096 + (v - stack_bottom)) div 4096" by simp
  then show *: "v div 4096 = sp_page + ?i" by simp
  show "v = (sp_page + ?i) * 4096 + v mod 4096" unfolding * [symmetric] by simp
qed simp

lemma pa_at_ok:
  assumes l: "stack_ok s0 A0 root P0 pas (s, mapped) M" and v: "stack_bottom \<le> v" "v < USER_STACK_TOP"
    and i: "i < 8" "(v - stack_bottom) div 4096 = i"
  shows "pa_at pas v = Some (Ok (pas ! i + v mod 4096))"
  using stack_pa [OF l i(1)] i v(1) mod_less_divisor [of 4096 v]
  by (simp add: pa_at_def usub_def PAGE_SIZE_def uadd_def del: mod_less_divisor)

lemma put_u8_ok:
  assumes l: "stack_ok s0 A0 root P0 pas st M" and v: "stack_bottom \<le> v" "v < USER_STACK_TOP"
  shows "\<exists>st'. put_u8 pas v x st = Some (Ok (), st') \<and> stack_ok s0 A0 root P0 pas st' (M(v := x))"
proof -
  obtain s mapped where st: "st = (s, mapped)" by (cases st)
  obtain i where i: "i < 8" "v div 4096 = sp_page + i" "v = (sp_page + i) * 4096 + v mod 4096" "(v - stack_bottom) div 4096 = i"
    by (rule stack_addr [OF v]) (rule that; assumption)
  let ?m = "(pmem s)(pas ! i + v mod 4096 := x)"
  have "stack_ok s0 A0 root P0 pas (s\<lparr>pmem := ?m\<rparr>, mapped) (M(v := x))"
  proof (rule stack_store [OF l [unfolded st] i(1)])
    show "?m (pas ! i + j) = (M(v := x)) ((sp_page + i) * 4096 + j)"
      if "j < 4096" "pmem s (pas ! i + j) = M ((sp_page + i) * 4096 + j)" for j
      using that i(3) by (metis add_left_cancel fun_upd_apply)
    show "(M(v := x)) y = M y" if "y div 4096 \<noteq> sp_page + i" for y using that i(2) by auto
  qed auto
  then show ?thesis using pa_at_ok [OF l [unfolded st] v i(1,4)] by (simp add: put_u8_def st)
qed

lemma put_usize_ok:
  assumes l: "stack_ok s0 A0 root P0 pas st M" and v: "stack_bottom \<le> v" "v < USER_STACK_TOP" "8 dvd v"
  shows "\<exists>st'. put_usize pas v x st = Some (Ok (), st') \<and> stack_ok s0 A0 root P0 pas st' (store64 M v (of_nat x))"
proof -
  obtain s mapped where st: "st = (s, mapped)" by (cases st)
  obtain i where i: "i < 8" "v div 4096 = sp_page + i" "v = (sp_page + i) * 4096 + v mod 4096" "(v - stack_bottom) div 4096 = i"
    by (rule stack_addr [OF v(1,2)]) (rule that; assumption)
  define r where "r = v mod 4096"
  have "8 dvd r" using v(3) by (simp add: r_def dvd_mod)
  moreover have "r < 4096" by (simp add: r_def)
  ultimately have r: "r + 8 \<le> 4096" by presburger
  have vr: "v = (sp_page + i) * 4096 + r" using i(3) by (simp add: r_def)
  let ?m = "store64 (pmem s) (pas ! i + r) (of_nat x)"
  have "stack_ok s0 A0 root P0 pas (s\<lparr>pmem := ?m\<rparr>, mapped) (store64 M v (of_nat x))"
  proof (rule stack_store [OF l [unfolded st] i(1)])
    show "?m y = pmem s y" if "y \<notin> region (pas ! i, 0)" for y
      by (rule store64_other) (use that r in auto)
    show "?m (pas ! i + j) = store64 M v (of_nat x) ((sp_page + i) * 4096 + j)"
      if "j < 4096" "pmem s (pas ! i + j) = M ((sp_page + i) * 4096 + j)" for j
      using that(2) unfolding store64_def vr by simp
    show "store64 M v (of_nat x) y = M y" if y: "y div 4096 \<noteq> sp_page + i" for y
    proof (rule store64_other, rule ccontr)
      assume "\<not> (y < v \<or> v + 8 \<le> y)"
      then have "y = (sp_page + i) * 4096 + (y - (sp_page + i) * 4096)" "y - (sp_page + i) * 4096 < 4096" using vr r by linarith+
      then have "y div 4096 = sp_page + i" by (metis add.right_neutral div_less div_mult_self3 zero_neq_numeral)
      then show False using y by simp
    qed
  qed
  then show ?thesis using pa_at_ok [OF l [unfolded st] v(1,2) i(1,4)] by (simp add: put_usize_def st r_def)
qed

section \<open>Strings and pointers\<close>

text \<open>The string \<open>xs\<close>, terminated by a zero byte, at \<open>a\<close>.\<close>

definition cstr :: "mem \<Rightarrow> usize \<Rightarrow> byte list \<Rightarrow> bool" where
  "cstr M a xs \<longleftrightarrow> (\<forall>j<length xs. M (a + j) = xs ! j) \<and> M (a + length xs) = 0"

lemma cstr_cong: "cstr M a xs \<Longrightarrow> (\<And>x. a \<le> x \<Longrightarrow> x \<le> a + length xs \<Longrightarrow> M' x = M x) \<Longrightarrow> cstr M' a xs"
  by (simp add: cstr_def)

lemma put_str_ok:
  assumes "stack_ok s0 A0 root P0 pas st M" "stack_bottom \<le> v" "v + length xs \<le> USER_STACK_TOP"
  shows "\<exists>st'. put_str pas v xs st = Some (Ok (), st') \<and> stack_ok s0 A0 root P0 pas st' (write_bytes M v xs)"
  using assms
proof (induction xs arbitrary: v st M)
  case (Cons x xs)
  obtain st1 where st1: "put_u8 pas v x st = Some (Ok (), st1)" "stack_ok s0 A0 root P0 pas st1 (M(v := x))"
    using put_u8_ok [OF Cons.prems(1,2), of x] Cons.prems(3) by auto
  have "\<exists>st2. put_str pas (Suc v) xs st1 = Some (Ok (), st2) \<and>
      stack_ok s0 A0 root P0 pas st2 (write_bytes (M(v := x)) (Suc v) xs)"
    by (rule Cons.IH [OF st1(2)]) (use Cons.prems(2,3) in simp_all)
  then show ?case using st1(1) by simp
qed auto

fun arg_size :: "byte list list \<Rightarrow> nat" where
  "arg_size [] = 0"
| "arg_size (a # as) = length a + 1 + arg_size as"

lemma str_total_ok: "arg_size args < USIZE_LIMIT \<Longrightarrow> str_total args = Some (arg_size args)"
  by (induction args) (simp_all add: uadd_def ac_simps)

text \<open>Where the strings of \<open>args\<close> start.\<close>

fun arg_starts :: "usize \<Rightarrow> byte list list \<Rightarrow> usize list" where
  "arg_starts v [] = []"
| "arg_starts v (a # as) = v # arg_starts (v + (length a + 1)) as"

lemma length_arg_starts [simp]: "length (arg_starts v args) = length args"
  by (induction args arbitrary: v) simp_all

lemma arg_starts_bounds:
  "i < length args \<Longrightarrow> v \<le> arg_starts v args ! i \<and> arg_starts v args ! i + length (args ! i) < v + arg_size args"
proof (induction args arbitrary: v i)
  case (Cons a as)
  show ?case
  proof (cases i)
    case (Suc j)
    then show ?thesis using Cons.IH [of j "v + (length a + 1)"] Cons.prems by simp
  qed simp
qed simp

lemma put_args_ok:
  assumes "stack_ok s0 A0 root P0 pas st M" "stack_bottom \<le> v" "v + arg_size args \<le> USER_STACK_TOP"
  shows "\<exists>st' M'. put_args pas v args starts st = Some (Ok (starts @ arg_starts v args), st') \<and>
    stack_ok s0 A0 root P0 pas st' M' \<and> (\<forall>x<v. M' x = M x) \<and>
    (\<forall>i<length args. cstr M' (arg_starts v args ! i) (args ! i))"
  using assms
proof (induction args arbitrary: v st M starts)
  case Nil
  then show ?case by auto
next
  case (Cons a as)
  let ?v = "v + (length a + 1)" and ?M = "(write_bytes M v a)(v + length a := 0)"
  obtain st1 where st1: "put_str pas v a st = Some (Ok (), st1)" "stack_ok s0 A0 root P0 pas st1 (write_bytes M v a)"
    using put_str_ok [OF Cons.prems(1,2), of a] Cons.prems(3) by auto
  obtain st2 where st2: "put_u8 pas (v + length a) 0 st1 = Some (Ok (), st2)" "stack_ok s0 A0 root P0 pas st2 ?M"
    using put_u8_ok [OF st1(2), of "v + length a" 0] Cons.prems(2,3) by auto
  obtain st3 M3 where st3: "put_args pas ?v as (starts @ [v]) st2 = Some (Ok ((starts @ [v]) @ arg_starts ?v as), st3)"
    "stack_ok s0 A0 root P0 pas st3 M3" "\<forall>x<?v. M3 x = ?M x" "\<forall>i<length as. cstr M3 (arg_starts ?v as ! i) (as ! i)"
    using Cons.IH [OF st2(2), of ?v "starts @ [v]"] Cons.prems(2,3) by auto
  have "cstr ?M v a" by (simp add: cstr_def write_bytes_eq)
  then have "cstr M3 v a" by (rule cstr_cong) (use st3(3) in auto)
  then have "cstr M3 (arg_starts v (a # as) ! i) ((a # as) ! i)" if "i < length (a # as)" for i
    using st3(4) that by (cases i) auto
  moreover have "M3 x = M x" if "x < v" for x using st3(3) that by (auto simp: write_bytes_eq)
  ultimately show ?case using st1(1) st2(1) st3(1,2) by auto
qed

lemma put_argv_ok:
  assumes "stack_ok s0 A0 root P0 pas st M" "stack_bottom \<le> v" "v + 8 * length vs \<le> USER_STACK_TOP" "8 dvd v"
  shows "\<exists>st' M'. put_argv pas v vs st = Some (Ok (), st') \<and> stack_ok s0 A0 root P0 pas st' M' \<and>
    (\<forall>i<length vs. load64 M' (v + 8 * i) = of_nat (vs ! i)) \<and> (\<forall>x. x < v \<or> v + 8 * length vs \<le> x \<longrightarrow> M' x = M x)"
  using assms
proof (induction vs arbitrary: v st M)
  case Nil
  then show ?case by auto
next
  case (Cons w vs)
  let ?M = "store64 M v (of_nat w)"
  obtain st1 where st1: "put_usize pas v w st = Some (Ok (), st1)" "stack_ok s0 A0 root P0 pas st1 ?M"
    using put_usize_ok [OF Cons.prems(1,2) _ Cons.prems(4), of w] Cons.prems(3) by auto
  obtain st2 M2 where st2: "put_argv pas (v + 8) vs st1 = Some (Ok (), st2)" "stack_ok s0 A0 root P0 pas st2 M2"
    "\<forall>i<length vs. load64 M2 (v + 8 + 8 * i) = of_nat (vs ! i)" "\<forall>x. x < v + 8 \<or> v + 8 + 8 * length vs \<le> x \<longrightarrow> M2 x = ?M x"
    using Cons.IH [OF st1(2), of "v + 8"] Cons.prems(2-4) by auto
  have "load64 M2 v = load64 ?M v" by (rule load64_cong) (use st2(4) in auto)
  then have "load64 M2 (v + 8 * i) = of_nat ((w # vs) ! i)" if "i < length (w # vs)" for i
    using st2(3) that by (cases i) (auto simp: ac_simps)
  moreover have "M2 x = M x" if "x < v \<or> v + 8 * length (w # vs) \<le> x" for x
    using st2(4) that store64_other [of x v M "of_nat w"] by auto
  ultimately show ?case using st1(1) st2(1,2) by auto
qed

section \<open>The finished stack\<close>

text \<open>What the program finds: \<open>argc\<close> at \<open>sp\<close>, the \<open>argv\<close> array with its final null, and the strings.\<close>

definition stack_image :: "mem \<Rightarrow> byte list list \<Rightarrow> usize \<Rightarrow> usize \<Rightarrow> bool" where
  "stack_image M args sp argv \<longleftrightarrow>
     16 dvd sp \<and> 16 dvd argv \<and> stack_bottom \<le> sp \<and> sp + 8 \<le> argv \<and>
     load64 M sp = of_nat (length args) \<and> load64 M (argv + 8 * length args) = 0 \<and>
     (\<forall>i<length args. let a = unat (load64 M (argv + 8 * i)) in
        argv + 8 * (length args + 1) \<le> a \<and> a + length (args ! i) < USER_STACK_TOP \<and> cstr M a (args ! i))"

lemma align16: "16 dvd align_down x 16" "align_down x 16 \<le> x" "x < align_down x 16 + 16"
  by (simp_all add: align_down_def)

lemma build_user_stack_ok:
  assumes l: "loading s0 A0 root s D {} P0" "listed mapped P0" and t: "arg_size args < USIZE_LIMIT"
  obtains (ok) sp argv s' mapped' D' P' pas M where
      "build_user_stack root args (s, mapped) = Some (Ok (sp, argv), s', mapped')"
      "loading s0 A0 root s' D' {} P'" "length pas = 8" "stack_pages P0 P' pas M" "stack_image M args sp argv"
  | (err) e s' mapped' D' L' P' where "build_user_stack root args (s, mapped) = Some (Err e, s', mapped')"
      "loading s0 A0 root s' D' L' P'" "listed mapped' P'" "L' = {} \<or> e = MapFailed \<and> (\<exists>p. L' = {(p, 0)})"
proof -
  let ?n = "length args" and ?t = "arg_size args"
  note tot = str_total_ok [OF t]
  show ?thesis
  proof (cases "?n \<le> 16 \<and> ?t \<le> 8 * 4096 - (?n + 2) * 8 - 16")
    case False
    then have "build_user_stack root args (s, mapped) = Some (Err BadSegment, s, mapped)"
      using tot by (auto simp: build_user_stack_def PAGE_SIZE_def Let_def)
    then show ?thesis using l by (intro err [of BadSegment s mapped D "{}" P0]) simp_all
  next
    case True
    then have n: "?n \<le> 16" and tt: "?t + (?n + 2) * 8 + 16 \<le> 32768" by auto
    define str_area where "str_area = align_down (USER_STACK_TOP - ?t) 16"
    define argv where "argv = align_down (str_area - (?n + 1) * 8) 16"
    define sp where "sp = align_down (argv - 8) 16"
    note al = align16 [of "USER_STACK_TOP - ?t", folded str_area_def] align16 [of "str_area - (?n + 1) * 8", folded argv_def]
      align16 [of "argv - 8", folded sp_def]
    have top: "USER_STACK_TOP = stack_bottom + 32768" by (rule stack_top_eq)
    have sa: "stack_bottom \<le> str_area" "str_area + ?t \<le> USER_STACK_TOP" "(?n + 1) * 8 \<le> str_area"
      using al(1-3) tt n top stack_bottom_eq by (auto simp: sp_page_def)
    have unf: "build_user_stack root args (s, mapped) =
        qmark (map_stack root [0..<8] [] (s, mapped)) (\<lambda>stack_pas st1.
          qmark (put_args stack_pas str_area args [] st1) (\<lambda>starts st2.
            if argv < stack_bottom + 16 then Some (Err BadSegment, st2)
            else qmark (put_argv stack_pas argv starts st2) (\<lambda>_ st3.
              qmark (put_usize stack_pas (argv + ?n * 8) 0 st3) (\<lambda>_ st4. do {
                sp_room \<leftarrow> usub argv 8;
                qmark (put_usize stack_pas (align_down sp_room 16) ?n st4) (\<lambda>_ st5.
                  Some (Ok (align_down sp_room 16, argv), st5)) }))))"
    proof -
      have u: "usub USER_STACK_TOP ?t = Some (USER_STACK_TOP - ?t)" "usub str_area ((?n + 1) * 8) = Some (str_area - (?n + 1) * 8)"
        using tt top sa(3) by (simp_all add: usub_def)
      have c: "\<not> MAX_ARGS < ?n" "\<not> USER_STACK_PAGES * PAGE_SIZE - (?n + 2) * 8 - 16 < ?t" using True by (simp_all add: PAGE_SIZE_def)
      show ?thesis
        unfolding build_user_stack_def Let_def tot bind.simps u str_area_def [symmetric] argv_def [symmetric] if_not_P [OF c(1)]
          if_not_P [OF c(2)] by simp
    qed
    show ?thesis
    proof (rule map_stack_ok [of s0 A0 root s D P0 mapped P0 "[]"], goal_cases)
      case (5 st1 pas)
      obtain st2 M2 where st2: "put_args pas str_area args [] st1 = Some (Ok (arg_starts str_area args), st2)"
        "stack_ok s0 A0 root P0 pas st2 M2" "\<forall>i<?n. cstr M2 (arg_starts str_area args ! i) (args ! i)"
        using put_args_ok [OF 5(2) sa(1,2), of "[]"] by auto
      show ?thesis
      proof (cases "argv < stack_bottom + 16")
        case small: True
        obtain s2 mapped2 where st: "st2 = (s2, mapped2)" by (cases st2)
        obtain D2 P2 where "loading s0 A0 root s2 D2 {} P2" "listed mapped2 P2" using st2(2) st by (auto simp: stack_ok_def)
        then show ?thesis using unf 5(1) st2(1) small st by (intro err [of BadSegment s2 mapped2 D2 "{}" P2]) simp_all
      next
        case False
        have av: "stack_bottom + 16 \<le> argv" "argv + 8 * (?n + 1) \<le> str_area" "8 dvd argv" "8 dvd argv + ?n * 8"
          using False al(4,5) sa(3) by (auto intro: dvd_trans [of 8 16])
        have spb: "sp + 8 \<le> argv" "8 dvd sp" "usub argv 8 = Some (argv - 8)"
          using av(1) al(7,8) by (auto simp: usub_def intro: dvd_trans [of 8 16])
        obtain q where q: "argv = 16 * q" using al(4) by blast
        obtain r where r: "sp = 16 * r" using al(7) by blast
        have "q \<le> r + 1" using al(9) unfolding q r by presburger
        then have spl: "stack_bottom \<le> sp" using av(1) q r by simp
        obtain st3 M3 where st3: "put_argv pas argv (arg_starts str_area args) st2 = Some (Ok (), st3)"
          "stack_ok s0 A0 root P0 pas st3 M3" "\<forall>i<?n. load64 M3 (argv + 8 * i) = of_nat (arg_starts str_area args ! i)"
          "\<forall>x. x < argv \<or> argv + 8 * ?n \<le> x \<longrightarrow> M3 x = M2 x"
          using put_argv_ok [OF st2(2), of argv "arg_starts str_area args"] av sa by auto
        let ?M4 = "store64 M3 (argv + ?n * 8) (of_nat 0)"
        obtain st4 where st4: "put_usize pas (argv + ?n * 8) 0 st3 = Some (Ok (), st4)" "stack_ok s0 A0 root P0 pas st4 ?M4"
          using put_usize_ok [OF st3(2), of "argv + ?n * 8" 0] av sa by auto
        let ?M5 = "store64 ?M4 sp (of_nat ?n)"
        obtain st5 where st5: "put_usize pas sp ?n st4 = Some (Ok (), st5)" "stack_ok s0 A0 root P0 pas st5 ?M5"
          using put_usize_ok [OF st4(2) spl _ spb(2), of ?n] av sa spb by auto
        have M3: "?M5 x = M3 x" if "x < sp \<or> sp + 8 \<le> x" "x < argv + ?n * 8 \<or> argv + ?n * 8 + 8 \<le> x" for x
          using that by (simp add: store64_other)
        have str: "cstr ?M5 (arg_starts str_area args ! i) (args ! i)" if "i < ?n" for i
        proof (rule cstr_cong [OF st2(3) [rule_format, OF that]])
          fix x assume x: "arg_starts str_area args ! i \<le> x"
          then have "str_area \<le> x" using arg_starts_bounds [OF that, of str_area] by simp
          then show "?M5 x = M2 x" using M3 [of x] st3(4) av(2) spb(1) by auto
        qed
        have cell: "load64 ?M5 (argv + 8 * i) = of_nat (arg_starts str_area args ! i)" if "i < ?n" for i
        proof -
          have "load64 ?M5 (argv + 8 * i) = load64 M3 (argv + 8 * i)"
            by (rule load64_cong, rule M3) (use that spb(1) in auto)
          then show ?thesis using st3(3) that by simp
        qed
        have "load64 ?M5 (argv + 8 * ?n) = load64 ?M4 (argv + ?n * 8)"
          using spb(1) by (simp add: mult.commute)
        then have null: "load64 ?M5 (argv + 8 * ?n) = 0" by simp
        have "stack_image ?M5 args sp argv"
          unfolding stack_image_def Let_def
        proof (intro conjI allI impI)
          fix i assume i: "i < ?n"
          have b: "str_area \<le> arg_starts str_area args ! i" "arg_starts str_area args ! i + length (args ! i) < USER_STACK_TOP"
            using arg_starts_bounds [OF i, of str_area] sa(2) by auto
          then have "arg_starts str_area args ! i < USIZE_LIMIT" by (simp add: USER_STACK_TOP_def)
          then have u: "unat (load64 ?M5 (argv + 8 * i)) = arg_starts str_area args ! i" unfolding cell [OF i] by (rule unat_of_nat_u64)
          show "argv + 8 * (?n + 1) \<le> unat (load64 ?M5 (argv + 8 * i))" unfolding u using b(1) av(2) by simp
          show "unat (load64 ?M5 (argv + 8 * i)) + length (args ! i) < USER_STACK_TOP" unfolding u by (rule b(2))
          show "cstr ?M5 (unat (load64 ?M5 (argv + 8 * i))) (args ! i)" unfolding u by (rule str [OF i])
        qed (use al(4,7) spl spb(1) null in simp_all)
        moreover obtain s5 mapped5 where s5: "st5 = (s5, mapped5)" by (cases st5)
        moreover obtain D5 P5 where "length pas = 8" "loading s0 A0 root s5 D5 {} P5" "stack_pages P0 P5 pas ?M5"
          using st5(2) s5 by (auto simp: stack_ok_def)
        moreover have "build_user_stack root args (s, mapped) = Some (Ok (sp, argv), st5)"
          unfolding unf using 5(1) st2(1) False st3(1) st4(1) spb(3) st5(1) by (simp add: sp_def)
        ultimately show ?thesis by (intro ok [of sp argv s5 mapped5 D5 P5 pas ?M5]) simp_all
      qed
    next
      case (6 e s' mapped' D' L' P')
      then show ?thesis using unf by (intro err) simp_all
    qed (use l in \<open>simp_all add: stack_pages_def\<close>)
  qed
qed

end
