(* ===== verification/Elf_Main.thy ===== *)
theory Elf_Main
  imports Elf_Stack
begin

text \<open>
  The properties of the program loader: the files it accepts, and what a loaded program finds in its
  address space, or that a failed load leaves the address space as it was.
\<close>

section \<open>Parsing\<close>

text \<open>
  C39. Parsing. \<^verbatim>\<open>parse\<close> never panics. It accepts exactly the files that have the magic, class, type and
  machine of a RISC-V executable, whose program headers lie inside the file, and whose loadable
  segments each lie in user space, take their bytes from inside the file, are not longer in the file
  than in memory and have matching page offsets, and follow each other on disjoint page ranges when
  sorted by address. It then returns the entry point and all loadable segments, sorted by address.
\<close>

theorem parse_spec:
  assumes "length b < USIZE_LIMIT"
  shows "\<exists>r. parse b = Some r \<and>
    (\<forall>info. r = Ok info \<longleftrightarrow>
       elf_ok b \<and> info = \<lparr>ei_entry = field b 24 8, ei_segments = sort_key seg_vaddr (load_segs b)\<rparr>) \<and>
    (\<forall>info. r = Ok info \<longrightarrow>
       (\<forall>sg\<in>set (ei_segments info). seg_vaddr sg + seg_memsz sg \<le> USER_VA_LIMIT \<and>
          seg_offset sg + seg_filesz sg \<le> length b \<and> seg_filesz sg \<le> seg_memsz sg) \<and>
       (\<forall>i j. i < j \<longrightarrow> j < length (ei_segments info) \<longrightarrow>
          {page_lo (ei_segments info ! i) ..< page_hi (ei_segments info ! i)} \<inter>
          {page_lo (ei_segments info ! j) ..< page_hi (ei_segments info ! j)} = {}))"
proof (rule parse_cases [OF assms])
  let ?info = "\<lparr>ei_entry = field b 24 8, ei_segments = sort_key seg_vaddr (load_segs b)\<rparr>"
  assume o: "elf_ok b" "parse b = Some (Ok ?info)"
  have "{page_lo (ei_segments ?info ! i) ..< page_hi (ei_segments ?info ! i)} \<inter>
      {page_lo (ei_segments ?info ! j) ..< page_hi (ei_segments ?info ! j)} = {}"
    if "i < j" "j < length (ei_segments ?info)" for i j
    by (rule before_pages) (use o(1) that in \<open>auto simp: elf_ok_def sorted_wrt_iff_nth_less\<close>)
  moreover have "seg_vaddr sg + seg_memsz sg \<le> USER_VA_LIMIT \<and> seg_offset sg + seg_filesz sg \<le> length b \<and>
      seg_filesz sg \<le> seg_memsz sg" if "sg \<in> set (ei_segments ?info)" for sg
    using o(1) that by (auto simp: elf_ok_def seg_ok_def)
  ultimately show ?thesis using o by (intro exI [of _ "Ok ?info"]) auto
next
  fix e assume "\<not> elf_ok b" "parse b = Some (Err e)"
  then show ?thesis by (intro exI [of _ "Err e"]) simp
qed

text \<open>A program with one segment: 16 bytes of code at 0x1000, 32 bytes in memory.\<close>

definition demo_elf :: bytes where
  "demo_elf =
     [0x7f, 0x45, 0x4c, 0x46, 2, 1, 1, 0, 0, 0, 0, 0, 0, 0, 0, 0,
      2, 0, 243, 0, 1, 0, 0, 0, 0, 16, 0, 0, 0, 0, 0, 0,
      64, 0, 0, 0, 0, 0, 0, 0, 0, 0, 0, 0, 0, 0, 0, 0,
      0, 0, 0, 0, 64, 0, 56, 0, 1, 0, 0, 0, 0, 0, 0, 0,
      1, 0, 0, 0, 5, 0, 0, 0, 0, 0, 0, 0, 0, 0, 0, 0,
      0, 16, 0, 0, 0, 0, 0, 0, 0, 0, 0, 0, 0, 0, 0, 0,
      16, 0, 0, 0, 0, 0, 0, 0, 32, 0, 0, 0, 0, 0, 0, 0,
      0, 16, 0, 0, 0, 0, 0, 0]"

definition demo_seg :: segment where
  "demo_seg = \<lparr>seg_vaddr = 4096, seg_offset = 0, seg_filesz = 16, seg_memsz = 32, seg_flags = 5\<rparr>"

lemma read_le_numeral:
  "read_le b off (numeral k) = do { x \<leftarrow> byte_at b off; r \<leftarrow> read_le b (off + 1) (pred_numeral k); Some (unat x + 256 * r) }"
  by (simp add: numeral_eq_Suc)

lemma demo_fields:
  "field demo_elf 16 2 = 2" "field demo_elf 18 2 = 243" "field demo_elf 24 8 = 4096" "field demo_elf 32 8 = 64"
  "field demo_elf 56 2 = 1" "field demo_elf 64 4 = 1" "hdr_seg demo_elf 64 = demo_seg"
  by (simp_all add: field_def hdr_seg_def demo_seg_def demo_elf_def byte_at_def read_le_numeral)

lemma demo_ok: "elf_ok demo_elf" "load_segs demo_elf = [demo_seg]"
proof -
  show s: "load_segs demo_elf = [demo_seg]"
    using demo_fields by (simp add: load_segs_def)
  have "header_ok demo_elf"
    using demo_fields by (simp add: header_ok_def) (simp add: demo_elf_def)
  then show "elf_ok demo_elf"
    unfolding elf_ok_def s by (simp add: seg_ok_def demo_seg_def) (simp add: demo_elf_def)
qed

lemma demo_parse: "parse demo_elf = Some (Ok \<lparr>ei_entry = 4096, ei_segments = [demo_seg]\<rparr>)"
proof (rule parse_cases [of demo_elf])
  show "length demo_elf < USIZE_LIMIT" by (simp add: demo_elf_def)
qed (use demo_ok demo_fields(3) in simp_all)

theorem parse_spec_witness:
  "parse demo_elf = Some (Ok \<lparr>ei_entry = 4096, ei_segments = [demo_seg]\<rparr>)"
proof -
  have "length demo_elf < USIZE_LIMIT" by (simp add: demo_elf_def)
  from parse_spec [OF this] show ?thesis using demo_ok demo_fields(3) by auto
qed

section \<open>Loading\<close>

text \<open>The byte a user program reads at a virtual address.\<close>

definition user_byte :: "mm \<Rightarrow> usize \<Rightarrow> usize \<Rightarrow> byte option" where
  "user_byte s root v =
     (let e = leaf_pte s root v in
      if pte_valid e \<and> pte_user e then Some (pmem s (pte_addr e + v mod 4096)) else None)"

definition program_pages :: "segment list \<Rightarrow> nat set" where
  "program_pages sgs = (\<Union>sg\<in>set sgs. {page_lo sg ..< page_hi sg}) \<union> {sp_page ..< sp_page + 8}"

text \<open>
  From \<open>s\<close> to \<open>s'\<close> the program has been loaded: its segments and its stack are in place with the
  permissions of the file, and nothing else has changed in the address space.
\<close>

definition program_loaded ::
  "mm \<Rightarrow> mm \<Rightarrow> usize \<Rightarrow> elf_info \<Rightarrow> bytes \<Rightarrow> byte list list \<Rightarrow> loaded_elf \<Rightarrow> bool" where
  "program_loaded s s' root info b args le \<longleftrightarrow>
     le_entry le = ei_entry info \<and> le_argc le = length args \<and>
     (\<forall>sg\<in>set (ei_segments info). \<forall>v. page_lo sg \<le> v div 4096 \<longrightarrow> v div 4096 < page_hi sg \<longrightarrow>
        user_byte s' root v = Some (seg_byte b sg v) \<and>
        take_bit 10 (leaf_pte s' root v) = segment_flags (seg_flags sg) OR PTE_U) \<and>
     (\<exists>M. (\<forall>v. stack_bottom \<le> v \<longrightarrow> v < USER_STACK_TOP \<longrightarrow>
             user_byte s' root v = Some (M v) \<and> take_bit 10 (leaf_pte s' root v) = 0xC7 OR PTE_U) \<and>
          stack_image M args (le_stack_top le) (le_argv le)) \<and>
     (\<forall>v<2 ^ 39. v div 4096 \<notin> program_pages (ei_segments info) \<longrightarrow> leaf_pte s' root v = leaf_pte s root v)"

lemma take_bit_pte: "take_bit 10 f = f \<Longrightarrow> take_bit 10 (pte p f) = f"
proof (rule bit_word_eqI)
  fix n assume f: "take_bit 10 f = f"
  have "bit f n \<longleftrightarrow> n < 10 \<and> bit f n" by (metis bit_take_bit_iff f)
  then show "bit (take_bit 10 (pte p f)) n \<longleftrightarrow> bit f n" by (auto simp: bit_take_bit_iff bit_pte)
qed

lemma loading_byte:
  assumes l: "loading s0 A0 root s D {} P" and p: "P (v div 4096) = Some fr"
  shows "user_byte s root v = Some (fr_data fr (v mod 4096))" "take_bit 10 (leaf_pte s root v) = fr_flags fr OR PTE_U"
proof -
  note d = placedD [OF loading_placed [OF l]]
  have f: "v div 4096 < 2 ^ 26" "(fr_pa fr, 0) \<in> D" "\<forall>i<4096. pmem s (fr_pa fr + i) = fr_data fr i"
    "pte_valid (fr_flags fr)" "take_bit 10 (fr_flags fr) = fr_flags fr" using d(7) [OF p] by (simp_all add: frame_ok_def)
  have "v < 2 ^ 26 * 4096" using f(1) by (simp add: div_less_iff_less_mult)
  then have v: "v < 2 ^ 39" by simp
  have e: "leaf_pte s root v = pte (fr_pa fr) (fr_flags fr OR PTE_U)" using loading_leaf [OF l v] p by simp
  have fU: "take_bit 10 (fr_flags fr OR PTE_U) = fr_flags fr OR PTE_U" using f(5) by (simp add: take_bit_or PTE_U_def)
  then show "take_bit 10 (leaf_pte s root v) = fr_flags fr OR PTE_U" unfolding e by (rule take_bit_pte)
  have "pte_addr (leaf_pte s root v) = fr_pa fr"
    unfolding e using owned_page [OF d(1) _ d(4), of "fr_pa fr"] f(2) by (intro pte_addr_pte fU) auto
  moreover have "pte_valid (leaf_pte s root v)" "pte_user (leaf_pte s root v)"
    using f(4) by (auto simp: e pte_valid_bit pte_user_bit pte_flag_bits bit_or_iff PTE_U_def)
  ultimately show "user_byte s root v = Some (fr_data fr (v mod 4096))"
    using f(3) by (simp add: user_byte_def Let_def)
qed

lemma program_loadedI:
  assumes l: "loading s0 A0 root s' D {} P'" and P: "extends Map.empty (\<Union>sg\<in>set sgs. {page_lo sg ..< page_hi sg}) P"
    and c: "\<And>sg k. sg \<in> set sgs \<Longrightarrow> k \<in> {page_lo sg ..< page_hi sg} \<Longrightarrow> covers P b sg k"
    and st: "stack_pages P P' pas M" "length pas = 8" and im: "stack_image M args sp argv" and sgs: "ei_segments info = sgs"
  shows "program_loaded s0 s' root info b args
    \<lparr>le_entry = ei_entry info, le_stack_top = sp, le_argc = length args, le_argv = argv\<rparr>"
proof -
  have seg: "user_byte s' root v = Some (seg_byte b sg v) \<and> take_bit 10 (leaf_pte s' root v) = segment_flags (seg_flags sg) OR PTE_U"
    if sg: "sg \<in> set sgs" "page_lo sg \<le> v div 4096" "v div 4096 < page_hi sg" for sg v
  proof -
    obtain fr where fr: "P (v div 4096) = Some fr" "fr_flags fr = segment_flags (seg_flags sg)"
      "\<forall>i<4096. fr_data fr i = seg_byte b sg (v div 4096 * 4096 + i)"
      using c [OF sg(1), of "v div 4096"] sg by (auto simp: covers_def)
    have "v div 4096 \<notin> {sp_page ..< sp_page + length pas}"
    proof
      assume "v div 4096 \<in> {sp_page ..< sp_page + length pas}"
      then have "v div 4096 = sp_page + (v div 4096 - sp_page)" "v div 4096 - sp_page < length pas" by auto
      then have "P (v div 4096) = None" using st(1) unfolding stack_pages_def by metis
      then show False using fr(1) by simp
    qed
    then have "P' (v div 4096) = Some fr" using st(1) fr(1) by (simp add: stack_pages_def)
    then show ?thesis using loading_byte [OF l, of v fr] fr(2,3) by simp
  qed
  have stk: "user_byte s' root v = Some (M v) \<and> take_bit 10 (leaf_pte s' root v) = 0xC7 OR PTE_U"
    if v: "stack_bottom \<le> v" "v < USER_STACK_TOP" for v
  proof -
    obtain i where i: "i < 8" "v div 4096 = sp_page + i" "v = (sp_page + i) * 4096 + v mod 4096"
      by (rule stack_addr [OF v]) (rule that; assumption)
    obtain cc where "P' (sp_page + i) = Some (Frame (pas ! i) 0xC7 cc)" "\<forall>j<4096. cc j = M ((sp_page + i) * 4096 + j)"
      using st i(1) by (auto simp: stack_pages_def)
    then show ?thesis using loading_byte [OF l, of v] i(2,3) by simp
  qed
  have rest: "leaf_pte s' root v = leaf_pte s0 root v" if "v < 2 ^ 39" "v div 4096 \<notin> program_pages sgs" for v
  proof -
    have "P' (v div 4096) = None" using that(2) st P by (simp add: program_pages_def stack_pages_def extends_def)
    then show ?thesis using loading_leaf [OF l that(1)] by simp
  qed
  show ?thesis unfolding program_loaded_def sgs using seg stk im rest by auto
qed

lemma load_at_ok:
  assumes i: "buddy_inv s A" "phys_ok s" "pt_wf (pmem s) root A" and sgs: "\<forall>sg\<in>set (ei_segments info). seg_ok b sg"
    and b: "length b < 2 ^ 63" "arg_size args < USIZE_LIMIT"
  obtains (ok) le s' D where "load_at root info b args s = Some (Ok le, s')" "program_loaded s s' root info b args le"
      "\<exists>P. loading s A root s' D {} P"
  | (err) e s' D L where "load_at root info b args s = Some (Err e, s')" "loading s A root s' D L Map.empty"
      "L = {} \<or> e = MapFailed \<and> (\<exists>p. L = {(p, 0)})"
proof -
  have nil: "listed [] Map.empty" by (simp add: listed_Nil)
  show ?thesis
  proof (rule map_segments_ok [OF loading_init [OF i] nil sgs b(1)], goal_cases)
    case (1 s1 D1 P1 mapped1)
    note seg = 1
    show ?thesis
    proof (rule build_user_stack_ok [OF seg(2,3) b(2)], goal_cases)
      case (1 sp argv s2 mapped2 D2 P2 pas M)
      have "program_loaded s s2 root info b args
          \<lparr>le_entry = ei_entry info, le_stack_top = sp, le_argc = length args, le_argv = argv\<rparr>"
        by (rule program_loadedI [OF 1(2) seg(4,5) 1(4,3,5) refl])
      then show ?thesis using seg(1) 1(1,2) by (intro ok) (auto simp: load_at_def)
    next
      case (2 e s2 mapped2 D2 L P2)
      obtain s3 D3 where "rollback root mapped2 s2 = Some s3" "loading s A root s3 D3 L Map.empty"
        using rollback_ok [OF 2(2,3)] by blast
      then show ?thesis using seg(1) 2(1,4) by (intro err) (auto simp: load_at_def)
    qed
  next
    case (2 e s1 D1 P1 mapped1)
    obtain s2 D2 where "rollback root mapped1 s1 = Some s2" "loading s A root s2 D2 {} Map.empty"
      using rollback_ok [OF 2(2,3)] by blast
    then show ?thesis using 2(1) by (intro err [of e s2 D2 "{}"]) (auto simp: load_at_def)
  qed
qed

text \<open>
  C40. Loading a program. For a process with a well-formed address space \<^verbatim>\<open>load\<close> never panics. On success
  every page of every segment holds the bytes of the file where the segment has them and zeros
  elsewhere, mapped for the user with the permissions of the segment; the 8 stack pages hold the
  argument count at the aligned stack pointer, the null-terminated argument vector and the argument
  strings; no other page changes its translation. On failure no translation has changed and all
  pages taken are returned, apart from page tables that stay part of the address space and from one
  stack page when mapping it failed. In both cases no page of another owner is written.
\<close>

theorem load_spec:
  assumes i: "buddy_inv (k_mm k) A" "phys_ok (k_mm k)" and p: "pid_root k pid = Some root" "pt_wf (pmem (k_mm k)) root A"
    and b: "length b < 2 ^ 63" "arg_size args < USIZE_LIMIT"
  shows "\<exists>r s' A'. load k pid b args = Some (r, k\<lparr>k_mm := s'\<rparr>) \<and> buddy_inv s' A' \<and> A \<subseteq> A' \<and> pt_wf (pmem s') root A' \<and>
    (\<forall>le. r = Ok le \<longrightarrow> (\<exists>info. parse b = Some (Ok info) \<and> program_loaded (k_mm k) s' root info b args le)) \<and>
    (\<forall>e. r = Err e \<longrightarrow> (\<forall>v<2 ^ 39. leaf_pte s' root v = leaf_pte (k_mm k) root v) \<and>
       (\<exists>L. (L = {} \<or> e = MapFailed \<and> (\<exists>q. L = {(q, 0)})) \<and>
          (\<forall>c\<in>A' - A - L. snd c = 0 \<and> (\<exists>x. node_at (pmem s') root x = Some (fst c))))) \<and>
    (\<forall>c\<in>A. (\<forall>x. node_at (pmem (k_mm k)) root x \<noteq> Some (fst c)) \<longrightarrow> (\<forall>x\<in>region c. pmem s' x = pmem (k_mm k) x))"
proof (rule parse_cases [of b])
  show "length b < USIZE_LIMIT" using b(1) by simp
next
  fix e assume "parse b = Some (Err e)"
  then have "load k pid b args = Some (Err e, k\<lparr>k_mm := k_mm k\<rparr>)" by (simp add: load_def)
  then show ?thesis using i(1) p(2) by (intro exI [of _ "Err e"] exI [of _ "k_mm k"] exI [of _ A]) auto
next
  let ?s = "k_mm k"
  let ?info = "\<lparr>ei_entry = field b 24 8, ei_segments = sort_key seg_vaddr (load_segs b)\<rparr>"
  assume e: "elf_ok b" "parse b = Some (Ok ?info)"
  have sg: "\<forall>sg\<in>set (ei_segments ?info). seg_ok b sg" using e(1) by (simp add: elf_ok_def)
  have ld: "load k pid b args = Some (r, k\<lparr>k_mm := s'\<rparr>)" if "load_at root ?info b args ?s = Some (r, s')" for r s'
    using that e(2) p(1) by (simp add: load_def)
  show ?thesis
  proof (rule load_at_ok [OF i p(2) sg b], goal_cases)
    case (1 le s' D)
    then obtain P where l: "loading ?s A root s' D {} P" by blast
    note d = placedD [OF loading_placed [OF l]]
    have m: "\<forall>c\<in>A. (\<forall>x. node_at (pmem ?s) root x \<noteq> Some (fst c)) \<longrightarrow> (\<forall>x\<in>region c. pmem s' x = pmem ?s x)"
      using d(10) by blast
    show ?thesis using ld [OF 1(1)] d(1,3,6) m e(2) 1(2) by (intro exI [of _ "Ok le"] exI [of _ s'] exI [of _ D]) auto
  next
    case (2 er s' D L)
    note d = placedD [OF loading_placed [OF 2(2)]]
    have m: "\<forall>c\<in>A. (\<forall>x. node_at (pmem ?s) root x \<noteq> Some (fst c)) \<longrightarrow> (\<forall>x\<in>region c. pmem s' x = pmem ?s x)"
      using d(10) by blast
    have w: "pt_wf (pmem s') root (D \<union> L)" using d(6) by (auto simp: pt_wf_def)
    have own: "snd c = 0 \<and> (\<exists>x. node_at (pmem s') root x = Some (fst c))" if "c \<in> D \<union> L - A - L" for c
      using d(9) [of c] that by auto
    have lf: "leaf_pte s' root v = leaf_pte ?s root v" if "v < 2 ^ 39" for v using loading_leaf [OF 2(2) that] by simp
    have er: "(\<forall>v<2 ^ 39. leaf_pte s' root v = leaf_pte ?s root v) \<and>
       (\<exists>L. (L = {} \<or> er = MapFailed \<and> (\<exists>q. L = {(q, 0)})) \<and>
          (\<forall>c\<in>D \<union> L' - A - L. snd c = 0 \<and> (\<exists>x. node_at (pmem s') root x = Some (fst c))))" if "L' = L" for L'
      using lf 2(3) own that by blast
    show ?thesis
    proof (intro exI conjI)
      show "load k pid b args = Some (Err er, k\<lparr>k_mm := s'\<rparr>)" by (rule ld [OF 2(1)])
      show "buddy_inv s' (D \<union> L)" by (rule d(1))
      show "A \<subseteq> D \<union> L" using d(3) by blast
      show "pt_wf (pmem s') root (D \<union> L)" by (rule w)
    qed (use m er [OF refl] in simp_all)
  qed
qed

theorem load_spec_witness:
  "\<exists>k root r s'. pid_root k 0 = Some root \<and> load k 0 demo_elf [[0x61], [0x62, 0x63]] = Some (r, k\<lparr>k_mm := s'\<rparr>) \<and>
     (\<forall>le. r = Ok le \<longrightarrow> le_entry le = 4096 \<and> le_argc le = 2 \<and> user_byte s' root 4097 = Some 0x45 \<and>
        user_byte s' root 5000 = Some 0)"
proof -
  obtain s root q where d: "buddy_inv s {(q, 0), (root, 0)}" "phys_ok s" "as_wf s root {(q, 0), (root, 0)}"
    by (rule demo_space) (rule that; assumption)
  define k where "k = (kernel_static s)\<lparr>k_procs := \<lparr>st_slots = [\<lparr>p_id = 0, p_root = root, p_caps = replicate 8 None\<rparr>], st_free = []\<rparr>\<rparr>"
  have k: "k_mm k = s" "pid_root k 0 = Some root"
    by (simp_all add: k_def kernel_static_def pid_root_def get_proc_def get_slot_def)
  have l: "length demo_elf < 2 ^ 63" "arg_size [[0x61], [0x62, 0x63 :: byte]] < USIZE_LIMIT" by (simp_all add: demo_elf_def)
  from load_spec [OF d(1) [folded k(1)] d(2) [folded k(1)] k(2) as_wf_pt_wf [OF d(3) [folded k(1)]] l]
  obtain r s' where r: "load k 0 demo_elf [[0x61], [0x62, 0x63]] = Some (r, k\<lparr>k_mm := s'\<rparr>)"
    "\<forall>le. r = Ok le \<longrightarrow> (\<exists>info. parse demo_elf = Some (Ok info) \<and> program_loaded (k_mm k) s' root info demo_elf [[0x61], [0x62, 0x63]] le)"
    by (elim exE conjE) (rule that; assumption)
  have "le_entry le = 4096 \<and> le_argc le = 2 \<and> user_byte s' root 4097 = Some 0x45 \<and> user_byte s' root 5000 = Some 0" if rl: "r = Ok le" for le
  proof -
    obtain info where info: "parse demo_elf = Some (Ok info)"
      and pr: "program_loaded (k_mm k) s' root info demo_elf [[0x61], [0x62, 0x63]] le" using r(2) rl by blast
    have "info = \<lparr>ei_entry = 4096, ei_segments = [demo_seg]\<rparr>"
      using info demo_parse by simp
    then have seg: "user_byte s' root v = Some (seg_byte demo_elf demo_seg v)" if "page_lo demo_seg \<le> v div 4096" "v div 4096 < page_hi demo_seg" for v
      using pr that by (simp add: program_loaded_def)
    have "user_byte s' root 4097 = Some 0x45" "user_byte s' root 5000 = Some 0"
      using seg [of 4097] seg [of 5000] by (simp_all add: page_lo_def page_hi_def demo_seg_def seg_byte_def demo_elf_def)
    then show ?thesis using pr \<open>info = _\<close> by (simp add: program_loaded_def)
  qed
  then show ?thesis using k(2) r(1) by blast
qed

end
