(* ===== verification/Heap.thy ===== *)
theory Heap
  imports Mem
begin

text \<open>
  Model of src/kernel/src/heap.rs: the kernel heap, slabs of eight size classes for small objects and
  whole page blocks for the others.

  The state is physical memory with its page allocator, the heads of the page chains of the classes
  (0 is the null pointer), the table from pages to classes, and the two cached values of \<^verbatim>\<open>init\<close>. The
  slab headers and the free lists live in memory. \<^verbatim>\<open>SlabHeader\<close> has the field \<^verbatim>\<open>next\<close> at offset 0 and
  \<^verbatim>\<open>free_list\<close> at offset 8; the code uses the fields by name only. The lock around the heap is not part
  of the model: each operation runs under it. An access to the table beyond its length, which the source
  does not check, is the outcome \<open>None\<close>.
\<close>

section \<open>Constants and state\<close>

definition SLAB_SIZES :: "usize list" where "SLAB_SIZES = [16, 32, 64, 128, 256, 512, 1024, 2048]"
definition NOT_SLAB :: nat where "NOT_SLAB = 0xFF"

record heap =
  hp_mm :: mm
  hp_classes :: "usize list"
  hp_page_class :: "nat \<Rightarrow> nat"
  hp_base :: usize
  hp_bytes :: usize

definition heap_static :: "mm \<Rightarrow> heap" where
  "heap_static s = \<lparr>hp_mm = s, hp_classes = replicate (length SLAB_SIZES) 0, hp_page_class = (\<lambda>_. NOT_SLAB),
     hp_base = 0, hp_bytes = 0\<rparr>"

definition heap_init :: "heap \<Rightarrow> heap outcome" where
  "heap_init h = do {
     n \<leftarrow> umul (ba_real_count (hp_mm h)) PAGE_SIZE;
     Some (h\<lparr>hp_base := ba_base (hp_mm h), hp_bytes := n\<rparr>) }"

section \<open>Headers and the page table of classes\<close>

definition slab_next :: "mem \<Rightarrow> usize \<Rightarrow> usize" where
  "slab_next m page = unat (load64 m page)"

definition slab_free_list :: "mem \<Rightarrow> usize \<Rightarrow> usize" where
  "slab_free_list m page = unat (load64 m (page + 8))"

definition slot_next :: "mem \<Rightarrow> usize \<Rightarrow> usize" where
  "slot_next m slot = unat (load64 m slot)"

definition put_word :: "heap \<Rightarrow> usize \<Rightarrow> usize \<Rightarrow> heap" where
  "put_word h a v = h\<lparr>hp_mm := (hp_mm h)\<lparr>pmem := store64 (pmem (hp_mm h)) a (of_nat v)\<rparr>\<rparr>"

definition heap_mem :: "heap \<Rightarrow> mem" where
  "heap_mem h = pmem (hp_mm h)"

definition slab_class_of :: "heap \<Rightarrow> usize \<Rightarrow> nat outcome" where
  "slab_class_of h page = do {
     d \<leftarrow> usub page (hp_base h);
     let page_idx = d div PAGE_SIZE;
     require (page_idx < MAX_PAGES);
     Some (hp_page_class h page_idx) }"

definition slab_class_set :: "heap \<Rightarrow> usize \<Rightarrow> nat \<Rightarrow> heap outcome" where
  "slab_class_set h page cls = do {
     d \<leftarrow> usub page (hp_base h);
     let page_idx = d div PAGE_SIZE;
     require (page_idx < MAX_PAGES);
     Some (h\<lparr>hp_page_class := (hp_page_class h)(page_idx := cls)\<rparr>) }"

fun class_scan :: "usize \<Rightarrow> usize list \<Rightarrow> nat \<Rightarrow> nat option" where
  "class_scan sz [] i = None"
| "class_scan sz (s # ss) i = (if sz \<le> s then Some i else class_scan sz ss (Suc i))"

definition class_index :: "usize \<Rightarrow> nat option" where
  "class_index sz = class_scan (max sz 8) SLAB_SIZES 0"

section \<open>Slabs\<close>

text \<open>The number of free slots is counted up to one more than the capacity.\<close>

function slab_count :: "mem \<Rightarrow> nat \<Rightarrow> usize \<Rightarrow> nat \<Rightarrow> bool" where
  "slab_count m capacity slot n =
     (if slot = USIZE_MAX then n = capacity
      else if capacity < Suc n then False
      else slab_count m capacity (slot_next m slot) (Suc n))"
  by pat_completeness auto
termination
  by (relation "measure (\<lambda>(m, capacity, slot, n). Suc capacity - n)") auto

declare slab_count.simps [simp del]

definition slab_page_empty :: "mem \<Rightarrow> usize \<Rightarrow> nat \<Rightarrow> bool" where
  "slab_page_empty m page idx =
     (let sz = SLAB_SIZES ! idx; capacity = (PAGE_SIZE - sz) div sz
      in slab_count m capacity (slab_free_list m page) 0)"

partial_function (option) sweep_chain :: "nat \<Rightarrow> usize \<Rightarrow> usize \<Rightarrow> heap \<Rightarrow> heap outcome" where
  "sweep_chain idx prev page h =
     (if page = 0 then Some h
      else
        (let nxt = slab_next (heap_mem h) page in
         if slab_page_empty (heap_mem h) page idx then do {
           h1 \<leftarrow> slab_class_set (put_word h prev nxt) page NOT_SLAB;
           (_, m) \<leftarrow> expect_ok (free_pages (hp_mm h1) page);
           sweep_chain idx prev nxt (h1\<lparr>hp_mm := m\<rparr>) }
         else sweep_chain idx page nxt h))"

declare sweep_chain.simps [code]

fun sweep_classes :: "nat list \<Rightarrow> heap \<Rightarrow> heap outcome" where
  "sweep_classes [] h = Some h"
| "sweep_classes (idx # is) h =
     (let head = hp_classes h ! idx in
      if head = 0 then sweep_classes is h
      else do { h1 \<leftarrow> sweep_chain idx head (slab_next (heap_mem h) head) h; sweep_classes is h1 })"

definition sweep_empty_pages :: "heap \<Rightarrow> heap outcome" where
  "sweep_empty_pages h = sweep_classes [0..<length SLAB_SIZES] h"

text \<open>The loop that links the slots of a new page; \<open>prev = 0\<close> before the first slot.\<close>

function slab_link :: "usize \<Rightarrow> usize \<Rightarrow> usize \<Rightarrow> usize \<Rightarrow> mem \<Rightarrow> mem" where
  "slab_link sz e prev slot m =
     (if 0 < sz \<and> slot + sz \<le> e then
        slab_link sz e slot (slot + sz) (if prev \<noteq> 0 then store64 m prev (of_nat slot) else m)
      else if prev \<noteq> 0 then store64 m prev (of_nat USIZE_MAX) else m)"
  by pat_completeness auto
termination
  by (relation "measure (\<lambda>(sz, e, prev, slot, m). e - slot)") auto

declare slab_link.simps [simp del]

definition new_slab :: "heap \<Rightarrow> nat \<Rightarrow> (usize \<times> heap) outcome" where
  "new_slab h idx = do {
     h1 \<leftarrow> sweep_empty_pages h;
     (p, s1) \<leftarrow> alloc_pages (hp_mm h1) 0;
     (case p of
        None \<Rightarrow> None
      | Some page \<Rightarrow> do {
          let sz = SLAB_SIZES ! idx;
          let m1 = slab_link sz (page + PAGE_SIZE) 0 (page + sz) (pmem s1);
          let m2 = store64 m1 page 0;
          let m3 = store64 m2 (page + 8) (of_nat (page + sz));
          h2 \<leftarrow> slab_class_set (h1\<lparr>hp_mm := s1\<lparr>pmem := m3\<rparr>\<rparr>) page idx;
          Some (page, h2) }) }"

text \<open>The first page of a chain with a free slot.\<close>

partial_function (option) slab_find :: "mem \<Rightarrow> usize \<Rightarrow> usize option outcome" where
  "slab_find m page =
     (if page = 0 then Some None
      else if slab_free_list m page \<noteq> USIZE_MAX then Some (Some page)
      else slab_find m (slab_next m page))"

declare slab_find.simps [code]

text \<open>Take the first free slot of a page.\<close>

definition slab_pop :: "heap \<Rightarrow> usize \<Rightarrow> usize \<times> heap" where
  "slab_pop h page =
     (let slot = slab_free_list (heap_mem h) page
      in (slot, put_word h (page + 8) (slot_next (heap_mem h) slot)))"

definition slab_alloc :: "heap \<Rightarrow> nat \<Rightarrow> (usize \<times> heap) outcome" where
  "slab_alloc h idx = do {
     f \<leftarrow> slab_find (heap_mem h) (hp_classes h ! idx);
     (case f of
        Some page \<Rightarrow> Some (slab_pop h page)
      | None \<Rightarrow> do {
          (nh, h1) \<leftarrow> new_slab h idx;
          let h2 = put_word h1 nh (hp_classes h1 ! idx);
          let h3 = h2\<lparr>hp_classes := (hp_classes h2)[idx := nh]\<rparr>;
          Some (slab_pop h3 nh) }) }"

section \<open>Large objects\<close>

text \<open>\<^verbatim>\<open>pages.next_power_of_two().trailing_zeros()\<close>\<close>

definition page_order :: "nat \<Rightarrow> nat" where
  "page_order pages = (if pages \<le> 1 then 0 else Suc (ilog2 (pages - 1)))"

definition page_alloc :: "heap \<Rightarrow> usize \<Rightarrow> usize \<Rightarrow> (usize \<times> heap) outcome" where
  "page_alloc h sz align = do {
     v \<leftarrow> uadd sz 8;
     am \<leftarrow> usub align 1;
     needed \<leftarrow> uadd v am;
     let order = page_order (div_ceil needed PAGE_SIZE);
     require (order \<le> MAX_ORDER);
     (b, s1) \<leftarrow> alloc_pages (hp_mm h) order;
     (case b of
        None \<Rightarrow> None
      | Some block \<Rightarrow> do {
          x \<leftarrow> uadd block 8;
          aligned \<leftarrow> umul (div_ceil x align) align;
          r \<leftarrow> usub aligned 8;
          Some (aligned, put_word (h\<lparr>hp_mm := s1\<rparr>) r block) }) }"

section \<open>Interface\<close>

definition heap_alloc :: "heap \<Rightarrow> usize \<Rightarrow> usize \<Rightarrow> (usize \<times> heap) outcome" where
  "heap_alloc h sz align =
     (if sz = 0 then Some (align, h)
      else
        (case class_index sz of
           Some idx \<Rightarrow> if align \<le> SLAB_SIZES ! idx then slab_alloc h idx else page_alloc h sz align
         | None \<Rightarrow> page_alloc h sz align))"

definition heap_dealloc :: "heap \<Rightarrow> usize \<Rightarrow> usize \<Rightarrow> heap outcome" where
  "heap_dealloc h ptr sz =
     (if sz = 0 then Some h
      else
        (let page = ptr div PAGE_SIZE * PAGE_SIZE in
         if page < hp_base h \<or> hp_bytes h \<le> page - hp_base h then None
         else do {
           cls \<leftarrow> slab_class_of h page;
           if cls \<noteq> NOT_SLAB then do {
             require (cls < length SLAB_SIZES);
             let class_size = SLAB_SIZES ! cls;
             let offset = ptr - page;
             require (\<not> (offset < class_size \<or> offset mod class_size \<noteq> 0 \<or> PAGE_SIZE < offset + class_size));
             let h1 = put_word h ptr (slab_free_list (heap_mem h) page);
             Some (put_word h1 (page + 8) ptr)
           } else do {
             r \<leftarrow> usub ptr 8;
             (_, m) \<leftarrow> expect_ok (free_pages (hp_mm h) (unat (load64 (heap_mem h) r)));
             Some (h\<lparr>hp_mm := m\<rparr>) }}))"

end
