(* ===== verification/Heap_Inv.thy ===== *)
theory Heap_Inv
  imports Heap Mmu_Main
begin

text \<open>
  The invariant of the kernel heap. The slab pages of each class form a linked list in memory, and
  so do the free slots of each slab page; the ghosts \<open>C\<close> and \<open>F\<close> are these lists.
\<close>

section \<open>Linked lists in memory\<close>

text \<open>The links from \<open>x\<close> lead through the addresses \<open>as\<close> to the terminator \<open>t\<close>.\<close>

fun llist :: "mem \<Rightarrow> usize \<Rightarrow> usize \<Rightarrow> usize list \<Rightarrow> bool" where
  "llist m t x [] \<longleftrightarrow> x = t"
| "llist m t x (a # as) \<longleftrightarrow> x = a \<and> a \<noteq> t \<and> llist m t (slot_next m a) as"

lemma slab_next_eq: "slab_next = slot_next"
  by (simp add: fun_eq_iff slab_next_def slot_next_def)

lemma llist_cong:
  "(\<And>a. a \<in> set as \<Longrightarrow> slot_next m' a = slot_next m a) \<Longrightarrow> llist m' t x as = llist m t x as"
  by (induction as arbitrary: x) simp_all

lemma llist_terminator: "llist m t t as \<longleftrightarrow> as = []"
  by (cases as) auto

lemma llist_not_terminator: "llist m t x as \<Longrightarrow> x \<noteq> t \<Longrightarrow> \<exists>as'. as = x # as'"
  by (cases as) auto

lemma slot_next_cong: "(\<And>x. a \<le> x \<Longrightarrow> x < a + 8 \<Longrightarrow> m' x = m x) \<Longrightarrow> slot_next m' a = slot_next m a"
  unfolding slot_next_def using load64_cong [of a m' m] by simp

lemma slot_next_store: "v < USIZE_LIMIT \<Longrightarrow> slot_next (store64 m a (of_nat v)) a = v"
  by (simp add: slot_next_def)

section \<open>Size classes\<close>

abbreviation class_size :: "nat \<Rightarrow> nat" where "class_size i \<equiv> SLAB_SIZES ! i"

lemma class_cases: "i < 8 \<Longrightarrow> i = 0 \<or> i = 1 \<or> i = 2 \<or> i = 3 \<or> i = 4 \<or> i = 5 \<or> i = 6 \<or> i = (7::nat)"
  by linarith

lemma class_size_pow: "i < 8 \<Longrightarrow> class_size i = 2 ^ (i + 4)"
  by (drule class_cases) (auto simp: SLAB_SIZES_def)

lemma length_SLAB_SIZES [simp]: "length SLAB_SIZES = 8"
  by (simp add: SLAB_SIZES_def)

lemma class_size_bounds: "i < 8 \<Longrightarrow> 16 \<le> class_size i \<and> class_size i \<le> 2048 \<and> class_size i dvd 4096 \<and> 8 dvd class_size i"
  by (drule class_cases) (auto simp: SLAB_SIZES_def)

definition capacity :: "nat \<Rightarrow> nat" where
  "capacity i = (4096 - class_size i) div class_size i"

lemma capacity_eq: "i < 8 \<Longrightarrow> (capacity i + 1) * class_size i = 4096 \<and> 0 < capacity i"
  by (drule class_cases) (auto simp: SLAB_SIZES_def capacity_def)

text \<open>The slots of a page, from the second multiple of the size on.\<close>

definition slots :: "nat \<Rightarrow> usize \<Rightarrow> usize list" where
  "slots i p = map (\<lambda>k. p + (k + 1) * class_size i) [0..<capacity i]"

lemma length_slots [simp]: "length (slots i p) = capacity i"
  by (simp add: slots_def)

lemma distinct_slots: "i < 8 \<Longrightarrow> distinct (slots i p)"
  using class_size_bounds [of i] by (auto simp: slots_def distinct_map inj_on_def)

lemma slots_iff:
  "i < 8 \<Longrightarrow> x \<in> set (slots i p) \<longleftrightarrow> (\<exists>k. 1 \<le> k \<and> k \<le> capacity i \<and> x = p + k * class_size i)"
proof
  assume "x \<in> set (slots i p)"
  then obtain j where "j < capacity i" "x = p + (j + 1) * class_size i" by (auto simp: slots_def)
  then show "\<exists>k. 1 \<le> k \<and> k \<le> capacity i \<and> x = p + k * class_size i" by (intro exI [of _ "j + 1"]) simp
next
  assume "\<exists>k. 1 \<le> k \<and> k \<le> capacity i \<and> x = p + k * class_size i"
  then obtain k where "1 \<le> k" "k \<le> capacity i" "x = p + k * class_size i" by blast
  then have "k - 1 < capacity i" "x = p + (k - 1 + 1) * class_size i" by simp_all
  then show "x \<in> set (slots i p)" unfolding slots_def by (simp only: set_map set_upt) (rule image_eqI [of _ _ "k - 1"]; simp)
qed

lemma slot_bounds:
  assumes "i < 8" "x \<in> set (slots i p)"
  shows "p + 16 \<le> x" "x + class_size i \<le> p + 4096"
proof -
  obtain k where k: "1 \<le> k" "k \<le> capacity i" "x = p + k * class_size i" using assms slots_iff by blast
  have "class_size i \<le> k * class_size i" using k(1) mult_le_mono1 [of 1 k "class_size i"] by simp
  then show "p + 16 \<le> x" using k(3) class_size_bounds [OF assms(1)] by linarith
  have "k * class_size i \<le> capacity i * class_size i" using k(2) by (rule mult_le_mono1)
  then show "x + class_size i \<le> p + 4096" using k(3) capacity_eq [OF assms(1)] unfolding add_mult_distrib by linarith
qed

lemma slots_apart:
  assumes "i < 8" "x \<in> set (slots i p)" "y \<in> set (slots i p)" "x \<noteq> y"
  shows "x + class_size i \<le> y \<or> y + class_size i \<le> x"
proof -
  obtain k l where kl: "x = p + k * class_size i" "y = p + l * class_size i" using assms slots_iff by blast
  then have "k < l \<or> l < k" using assms(4) by (metis linorder_neqE_nat)
  then have "(k + 1) * class_size i \<le> l * class_size i \<or> (l + 1) * class_size i \<le> k * class_size i"
    using mult_le_mono1 [of "k + 1" l "class_size i"] mult_le_mono1 [of "l + 1" k "class_size i"] by linarith
  then show ?thesis using kl by (simp add: add_mult_distrib add.commute)
qed

lemma slot_offset:
  assumes "i < 8" "x \<in> set (slots i p)" "4096 dvd p"
  shows "x div 4096 * 4096 = p" "\<not> x - p < class_size i" "(x - p) mod class_size i = 0" "x - p + class_size i \<le> 4096"
proof -
  obtain k where k: "1 \<le> k" "k \<le> capacity i" "x = p + k * class_size i" using assms slots_iff by blast
  have b: "p + 16 \<le> x" "x + class_size i \<le> p + 4096" using slot_bounds [OF assms(1,2)] .
  obtain q where q: "p = 4096 * q" using assms(3) by blast
  have "0 < class_size i" using class_size_bounds [OF assms(1)] by simp
  then have "x div 4096 = q" using b unfolding q by (intro div_nat_eqI) simp_all
  then show "x div 4096 * 4096 = p" by (simp add: q)
  show "\<not> x - p < class_size i" using k by (simp add: not_less)
  show "(x - p) mod class_size i = 0" using k by simp
  show "x - p + class_size i \<le> 4096" using b by simp
qed

lemma slot_aligned:
  assumes "i < 8" "x \<in> set (slots i p)" "4096 dvd p"
  shows "class_size i dvd x"
proof -
  obtain k where k: "x = p + k * class_size i" using assms slots_iff by blast
  have "class_size i dvd p" using class_size_bounds [OF assms(1)] assms(3) by (blast intro: dvd_trans)
  then show ?thesis unfolding k by simp
qed

section \<open>Slab pages\<close>

text \<open>The free list of a page of class \<open>i\<close>.\<close>

definition slab_ok :: "mem \<Rightarrow> nat \<Rightarrow> usize \<Rightarrow> usize list \<Rightarrow> bool" where
  "slab_ok m i p fs \<longleftrightarrow> llist m USIZE_MAX (slab_free_list m p) fs \<and> distinct fs \<and> set fs \<subseteq> set (slots i p)"

lemma slab_ok_cong:
  assumes "i < 8" "\<And>x. p + 8 \<le> x \<Longrightarrow> x < p + 4096 \<Longrightarrow> m' x = m x"
  shows "slab_ok m' i p fs = slab_ok m i p fs"
proof -
  have "slot_next m' a = slot_next m a" if "a \<in> set (slots i p)" for a
    using slot_bounds [OF assms(1) that] class_size_bounds [OF assms(1)]
    by (intro slot_next_cong assms(2)) auto
  then have "llist m' USIZE_MAX x fs = llist m USIZE_MAX x fs" if "set fs \<subseteq> set (slots i p)" for x
    using that by (intro llist_cong) blast
  moreover have "slab_free_list m' p = slab_free_list m p"
    unfolding slab_free_list_def using load64_cong [of "p + 8" m' m] assms(2) by simp
  ultimately show ?thesis by (auto simp: slab_ok_def)
qed

lemma slab_ok_length: "i < 8 \<Longrightarrow> slab_ok m i p fs \<Longrightarrow> length fs \<le> capacity i"
  using card_mono [of "set (slots i p)" "set fs"] distinct_card [of fs] distinct_card [OF distinct_slots [of i p]]
  by (simp add: slab_ok_def)

lemma slab_ok_full: "i < 8 \<Longrightarrow> slab_ok m i p fs \<Longrightarrow> length fs = capacity i \<Longrightarrow> set fs = set (slots i p)"
  using card_subset_eq [of "set (slots i p)" "set fs"] distinct_card [of fs] distinct_card [OF distinct_slots [of i p]]
  by (simp add: slab_ok_def)

lemma slab_count_ok: "llist m USIZE_MAX x fs \<Longrightarrow> n + length fs \<le> c \<Longrightarrow> slab_count m c x n \<longleftrightarrow> n + length fs = c"
proof (induction fs arbitrary: x n)
  case (Cons a fs)
  then show ?case using Cons.IH [of "slot_next m a" "Suc n"] by (simp add: slab_count.simps [of m c a n])
qed (simp add: slab_count.simps)

lemma slab_page_empty_ok:
  assumes "i < 8" "slab_ok m i p fs"
  shows "slab_page_empty m p i \<longleftrightarrow> set fs = set (slots i p)"
proof -
  have "slab_page_empty m p i \<longleftrightarrow> length fs = capacity i"
    using slab_count_ok [of m "slab_free_list m p" fs 0 "capacity i"] slab_ok_length [OF assms] assms(2)
    by (simp add: slab_page_empty_def slab_ok_def capacity_def Let_def PAGE_SIZE_def)
  also have "\<dots> \<longleftrightarrow> set fs = set (slots i p)"
    using slab_ok_full [OF assms] assms(2) distinct_card [of fs] distinct_card [OF distinct_slots [OF assms(1), of p]]
    by (auto simp: slab_ok_def)
  finally show ?thesis .
qed

section \<open>A new slab page\<close>

lemma slab_link_ok:
  assumes "16 \<le> sz" "e + sz \<le> USIZE_LIMIT" "prev + sz = slot" "0 < prev" "slot + n * sz \<le> e" "e < slot + (n + 1) * sz"
  shows "llist (slab_link sz e prev slot m) USIZE_MAX prev (prev # map (\<lambda>k. slot + k * sz) [0..<n]) \<and>
    (\<forall>x. x < prev \<or> e \<le> x \<longrightarrow> slab_link sz e prev slot m x = m x)"
  using assms(3-)
proof (induction n arbitrary: prev slot m)
  case 0
  have "prev < USIZE_MAX" using 0 assms(1,2) by simp
  then show ?case using 0 assms(1)
    using slot_next_store [of USIZE_MAX m prev]
    by (simp add: slab_link.simps [of sz e prev slot] store64_other)
next
  case (Suc n)
  let ?m = "store64 m prev (of_nat slot)"
  let ?m' = "slab_link sz e slot (slot + sz) ?m"
  have eq: "slab_link sz e prev slot m = ?m'"
    using Suc.prems assms(1) by (simp add: slab_link.simps [of sz e prev slot])
  have le: "slot + sz \<le> e" using Suc.prems(3) by simp
  have "llist ?m' USIZE_MAX slot (slot # map (\<lambda>k. slot + sz + k * sz) [0..<n]) \<and> (\<forall>x. x < slot \<or> e \<le> x \<longrightarrow> ?m' x = ?m x)"
    by (rule Suc.IH) (use Suc.prems in \<open>simp_all add: algebra_simps\<close>)
  then have ih: "llist ?m' USIZE_MAX slot (slot # map (\<lambda>k. slot + sz + k * sz) [0..<n])" "\<And>x. x < slot \<or> e \<le> x \<Longrightarrow> ?m' x = ?m x"
    by blast+
  have up: "slot # map (\<lambda>k. slot + sz + k * sz) [0..<n] = map (\<lambda>k. slot + k * sz) [0..<Suc n]"
    by (simp add: upt_conv_Cons map_Suc_upt [symmetric] algebra_simps del: upt_Suc)
  have "slot_next ?m' prev = slot_next ?m prev"
    using ih(2) Suc.prems(1) assms(1) by (intro slot_next_cong) simp
  also have "\<dots> = slot" using le assms by (intro slot_next_store) simp
  finally have "slot_next ?m' prev = slot" .
  moreover have "prev \<noteq> USIZE_MAX" using Suc.prems(1) le assms(1,2) by simp
  moreover have "?m' x = m x" if "x < prev \<or> e \<le> x" for x
  proof -
    have "?m' x = ?m x" using ih(2) Suc.prems(1) that by auto
    also have "\<dots> = m x" using that Suc.prems(1) le assms(1) by (intro store64_other) auto
    finally show ?thesis .
  qed
  ultimately show ?case unfolding eq using ih(1) unfolding up by simp
qed

end
