(* ===== verification/Heap_Core.thy ===== *)
theory Heap_Core
  imports Heap_Inv
begin

text \<open>
  The well-formed heap and how the steps of the slab code change it: taking and returning a slot,
  sweeping empty pages, growing a class.
\<close>

section \<open>The well-formed heap\<close>

definition heap_geom :: "heap \<Rightarrow> bool" where
  "heap_geom h \<longleftrightarrow> hp_base h = ba_base (hp_mm h) \<and> hp_bytes h = ba_real_count (hp_mm h) * 4096 \<and>
     0 < ba_base (hp_mm h) \<and> 4096 dvd ba_base (hp_mm h) \<and> phys_ok (hp_mm h) \<and> ba_real_count (hp_mm h) \<le> MAX_PAGES"

definition slab_pages :: "(nat \<Rightarrow> usize list) \<Rightarrow> usize set" where
  "slab_pages C = (\<Union>i<8. set (C i))"

definition slab_blocks :: "(nat \<Rightarrow> usize list) \<Rightarrow> (nat \<times> nat) set" where
  "slab_blocks C = (\<lambda>p. (p, 0)) ` slab_pages C"

definition page_index :: "heap \<Rightarrow> usize \<Rightarrow> nat" where
  "page_index h p = (p - hp_base h) div 4096"

text \<open>\<open>X\<close> are the blocks of other clients of the page allocator, \<open>B\<close> the blocks of large objects.\<close>

definition heap_core ::
  "heap \<Rightarrow> (nat \<times> nat) set \<Rightarrow> (nat \<times> nat) set \<Rightarrow> (nat \<Rightarrow> usize list) \<Rightarrow> (usize \<Rightarrow> usize list) \<Rightarrow> bool" where
  "heap_core h X B C F \<longleftrightarrow>
     buddy_inv (hp_mm h) (X \<union> B \<union> slab_blocks C) \<and> X \<inter> B = {} \<and> (X \<union> B) \<inter> slab_blocks C = {} \<and>
     heap_geom h \<and> length (hp_classes h) = 8 \<and>
     (\<forall>i<8. llist (heap_mem h) 0 (hp_classes h ! i) (C i)) \<and> (\<forall>i<8. distinct (C i)) \<and>
     (\<forall>i<8. \<forall>j<8. i \<noteq> j \<longrightarrow> set (C i) \<inter> set (C j) = {}) \<and>
     (\<forall>i<8. \<forall>p\<in>set (C i). slab_ok (heap_mem h) i p (F p)) \<and>
     (\<forall>i<8. \<forall>p\<in>set (C i). hp_page_class h (page_index h p) = i) \<and>
     (\<forall>j. hp_page_class h j \<noteq> NOT_SLAB \<longrightarrow> (\<exists>p\<in>slab_pages C. j = page_index h p))"

lemma heap_coreD:
  assumes "heap_core h X B C F"
  shows "buddy_inv (hp_mm h) (X \<union> B \<union> slab_blocks C)" "X \<inter> B = {}" "(X \<union> B) \<inter> slab_blocks C = {}"
    and "heap_geom h" "length (hp_classes h) = 8"
    and "\<And>i. i < 8 \<Longrightarrow> llist (heap_mem h) 0 (hp_classes h ! i) (C i)" "\<And>i. i < 8 \<Longrightarrow> distinct (C i)"
    and "\<And>i j. i < 8 \<Longrightarrow> j < 8 \<Longrightarrow> i \<noteq> j \<Longrightarrow> set (C i) \<inter> set (C j) = {}"
    and "\<And>i p. i < 8 \<Longrightarrow> p \<in> set (C i) \<Longrightarrow> slab_ok (heap_mem h) i p (F p)"
    and "\<And>i p. i < 8 \<Longrightarrow> p \<in> set (C i) \<Longrightarrow> hp_page_class h (page_index h p) = i"
    and "\<And>j. hp_page_class h j \<noteq> NOT_SLAB \<Longrightarrow> \<exists>p\<in>slab_pages C. j = page_index h p"
  using assms unfolding heap_core_def by simp_all

lemma heap_coreI:
  assumes "buddy_inv (hp_mm h) (X \<union> B \<union> slab_blocks C)" "X \<inter> B = {}" "(X \<union> B) \<inter> slab_blocks C = {}"
    and "heap_geom h" "length (hp_classes h) = 8"
    and "\<And>i. i < 8 \<Longrightarrow> llist (heap_mem h) 0 (hp_classes h ! i) (C i)" "\<And>i. i < 8 \<Longrightarrow> distinct (C i)"
    and "\<And>i j. i < 8 \<Longrightarrow> j < 8 \<Longrightarrow> i \<noteq> j \<Longrightarrow> set (C i) \<inter> set (C j) = {}"
    and "\<And>i p. i < 8 \<Longrightarrow> p \<in> set (C i) \<Longrightarrow> slab_ok (heap_mem h) i p (F p)"
    and "\<And>i p. i < 8 \<Longrightarrow> p \<in> set (C i) \<Longrightarrow> hp_page_class h (page_index h p) = i"
    and "\<And>j. hp_page_class h j \<noteq> NOT_SLAB \<Longrightarrow> \<exists>p\<in>slab_pages C. j = page_index h p"
  shows "heap_core h X B C F"
  unfolding heap_core_def by (intro conjI allI impI ballI) (rule assms; assumption)+

lemma slab_pagesI: "i < 8 \<Longrightarrow> p \<in> set (C i) \<Longrightarrow> p \<in> slab_pages C"
  by (auto simp: slab_pages_def)

lemma heap_apart:
  assumes "heap_core h X B C F" "b \<in> X \<union> B \<union> slab_blocks C" "c \<in> X \<union> B \<union> slab_blocks C" "b \<noteq> c"
  shows "region b \<inter> region c = {}"
  by (rule buddy.inv_disjoint [OF heap_coreD(1) [OF assms(1)] assms(2-4)])

lemma block_facts:
  assumes c: "heap_core h X B C F" and b: "(a, k) \<in> X \<union> B \<union> slab_blocks C"
  shows "4096 dvd a" "hp_base h \<le> a" "a + 4096 * 2 ^ k \<le> hp_base h + hp_bytes h" "hp_base h + hp_bytes h \<le> 2 ^ 56"
    "0 < hp_base h" "4096 dvd hp_base h" "hp_bytes h \<le> MAX_PAGES * 4096"
proof -
  note d = heap_coreD [OF c]
  show "4096 dvd a" using buddy.inv_aligned [OF d(1) b] by (auto intro: dvd_trans)
  have r: "region (a, k) \<subseteq> {ba_base (hp_mm h) ..< ba_base (hp_mm h) + ba_real_count (hp_mm h) * PAGE_SIZE}"
    by (rule buddy_inv_region [OF d(1) b])
  have "(0::nat) < 4096 * 2 ^ k" by simp
  then have "a \<in> region (a, k)" "a + 4096 * 2 ^ k - 1 \<in> region (a, k)"
    unfolding region.simps atLeastLessThan_iff by linarith+
  with r have "a \<in> {ba_base (hp_mm h) ..< ba_base (hp_mm h) + ba_real_count (hp_mm h) * PAGE_SIZE}"
    "a + 4096 * 2 ^ k - 1 \<in> {ba_base (hp_mm h) ..< ba_base (hp_mm h) + ba_real_count (hp_mm h) * PAGE_SIZE}" by blast+
  then show "hp_base h \<le> a" "a + 4096 * 2 ^ k \<le> hp_base h + hp_bytes h"
    using d(4) by (auto simp: heap_geom_def PAGE_SIZE_def)
  show "hp_base h + hp_bytes h \<le> 2 ^ 56" "0 < hp_base h" "4096 dvd hp_base h" "hp_bytes h \<le> MAX_PAGES * 4096"
    using d(4) by (simp_all add: heap_geom_def phys_ok_def PAGE_SIZE_def)
qed

lemma page_facts:
  assumes c: "heap_core h X B C F" and p: "p \<in> slab_pages C"
  shows "4096 dvd p" "hp_base h \<le> p" "p + 4096 \<le> hp_base h + hp_bytes h" "0 < p" "p + 4096 \<le> 2 ^ 56"
proof -
  have b: "(p, 0) \<in> X \<union> B \<union> slab_blocks C" using p by (auto simp: slab_blocks_def)
  note f = block_facts [OF c b]
  show "4096 dvd p" "hp_base h \<le> p" "p + 4096 \<le> hp_base h + hp_bytes h" "0 < p" "p + 4096 \<le> 2 ^ 56"
    using f by auto
qed

lemma page_index_inj:
  assumes "4096 dvd hp_base h" "4096 dvd p" "4096 dvd q" "hp_base h \<le> p" "hp_base h \<le> q" "page_index h p = page_index h q"
  shows "p = q"
proof -
  have "4096 dvd p - hp_base h" "4096 dvd q - hp_base h" using assms by (simp_all add: dvd_diff_nat)
  then have "p - hp_base h = q - hp_base h" using assms(6) by (metis dvd_div_eq_cancel page_index_def)
  then show ?thesis using assms(4,5) by simp
qed

lemma page_index_less:
  assumes "hp_base h \<le> p" "p < hp_base h + hp_bytes h" "hp_bytes h \<le> MAX_PAGES * 4096"
  shows "page_index h p < MAX_PAGES"
proof -
  have "p - hp_base h < MAX_PAGES * 4096" using assms by linarith
  then show ?thesis unfolding page_index_def by (rule less_mult_imp_div_less)
qed

lemma class_ops:
  assumes "hp_base h \<le> p" "p < hp_base h + hp_bytes h" "hp_bytes h \<le> MAX_PAGES * 4096"
  shows "slab_class_of h p = Some (hp_page_class h (page_index h p))"
    "slab_class_set h p c = Some (h\<lparr>hp_page_class := (hp_page_class h)(page_index h p := c)\<rparr>)"
  using page_index_less [OF assms] assms(1)
  by (simp_all add: slab_class_of_def slab_class_set_def usub_def page_index_def PAGE_SIZE_def)

section \<open>Slots\<close>

text \<open>A change of memory inside slab pages that keeps the chains.\<close>

lemma core_store:
  assumes c: "heap_core h X B C F" and m: "\<And>x. x \<notin> (\<Union>b\<in>X \<union> B \<union> slab_blocks C. region b) \<Longrightarrow> m x = heap_mem h x"
    and n: "\<And>p. p \<in> slab_pages C \<Longrightarrow> slot_next m p = slot_next (heap_mem h) p"
    and s: "\<And>i p. i < 8 \<Longrightarrow> p \<in> set (C i) \<Longrightarrow> slab_ok m i p (F' p)"
  shows "heap_core (h\<lparr>hp_mm := (hp_mm h)\<lparr>pmem := m\<rparr>\<rparr>) X B C F'"
proof -
  note d = heap_coreD [OF c]
  let ?h = "h\<lparr>hp_mm := (hp_mm h)\<lparr>pmem := m\<rparr>\<rparr>"
  have hm: "heap_mem ?h = m" and pi: "page_index ?h = page_index h"
    by (simp_all add: heap_mem_def page_index_def fun_eq_iff)
  show ?thesis
  proof (rule heap_coreI)
    have "buddy_inv ((hp_mm h)\<lparr>pmem := m\<rparr>) (X \<union> B \<union> slab_blocks C)"
      by (rule buddy.inv_store [OF d(1)]) (use m in \<open>simp add: heap_mem_def\<close>)
    then show "buddy_inv (hp_mm ?h) (X \<union> B \<union> slab_blocks C)" by simp
    show "heap_geom ?h" using d(4) by (simp add: heap_geom_def phys_ok_def)
    show "length (hp_classes ?h) = 8" using d(5) by simp
    show "llist (heap_mem ?h) 0 (hp_classes ?h ! i) (C i)" if "i < 8" for i
      using d(6) [OF that] llist_cong [of "C i" m "heap_mem h"] n slab_pagesI [of i _ C, OF that] by (simp add: hm)
    show "slab_ok (heap_mem ?h) i p (F' p)" if "i < 8" "p \<in> set (C i)" for i p unfolding hm by (rule s [OF that])
    show "hp_page_class ?h (page_index ?h p) = i" if "i < 8" "p \<in> set (C i)" for i p
      using d(10) [OF that] by (simp add: pi)
    show "\<exists>p\<in>slab_pages C. j = page_index ?h p" if "hp_page_class ?h j \<noteq> NOT_SLAB" for j
      using d(11) [of j] that by (simp add: pi)
  qed (rule d(2,3,7,8); assumption)+
qed

text \<open>Memory of slab page \<open>q\<close> outside its link, when only slab page \<open>p\<close> is written.\<close>

lemma other_page_same:
  assumes c: "heap_core h X B C F" and p: "p \<in> slab_pages C" and m: "\<And>x. x \<notin> region (p, 0) \<Longrightarrow> m x = heap_mem h x"
    and b: "b \<in> X \<union> B \<union> slab_blocks C" "b \<noteq> (p, 0)" and x: "x \<in> region b"
  shows "m x = heap_mem h x"
proof -
  have "region b \<inter> region (p, 0) = {}"
    by (rule heap_apart [OF c b(1) _ b(2)]) (use p in \<open>auto simp: slab_blocks_def\<close>)
  then show ?thesis using m x by blast
qed

lemma core_page:
  assumes c: "heap_core h X B C F" and i: "i < 8" "p \<in> set (C i)"
    and m: "\<And>x. x < p + 8 \<or> p + 4096 \<le> x \<Longrightarrow> m x = heap_mem h x" and s: "slab_ok m i p fs"
  shows "heap_core (h\<lparr>hp_mm := (hp_mm h)\<lparr>pmem := m\<rparr>\<rparr>) X B C (F(p := fs))"
proof -
  note d = heap_coreD [OF c]
  have p: "p \<in> slab_pages C" by (rule slab_pagesI [of i p C, OF i])
  have out: "m x = heap_mem h x" if "x \<notin> region (p, 0)" for x using that by (intro m) auto
  have other: "m x = heap_mem h x" if "q \<in> slab_pages C" "q \<noteq> p" "x \<in> region (q, 0)" for q x
    by (rule other_page_same [OF c p out _ _ that(3)]) (use that in \<open>auto simp: slab_blocks_def\<close>)
  show ?thesis
  proof (rule core_store [OF c])
    show "m x = heap_mem h x" if "x \<notin> (\<Union>b\<in>X \<union> B \<union> slab_blocks C. region b)" for x
      by (rule out) (use that p in \<open>auto simp: slab_blocks_def\<close>)
    show "slot_next m q = slot_next (heap_mem h) q" if "q \<in> slab_pages C" for q
    proof (rule slot_next_cong)
      fix x assume x: "q \<le> x" "x < q + 8"
      show "m x = heap_mem h x"
        by (cases "q = p") (use x m in auto, use x other [OF that] in auto)
    qed
    show "slab_ok m j q ((F(p := fs)) q)" if j: "j < 8" "q \<in> set (C j)" for j q
    proof (cases "q = p")
      case True
      then have "j = i" using d(8) [OF j(1) i(1)] j(2) i(2) by blast
      then show ?thesis using True s by simp
    next
      case False
      then show ?thesis
        using slab_ok_cong [OF j(1), of q m "heap_mem h"] other [OF slab_pagesI [of j q C, OF j] False] d(9) [OF j] by simp
    qed
  qed
qed

text \<open>Taking the first free slot of a page, and returning a slot.\<close>

lemma slab_pop_ok:
  assumes c: "heap_core h X B C F" and i: "i < 8" "p \<in> set (C i)" and f: "F p = x # fs"
  obtains h' where "slab_pop h p = (x, h')" "heap_core h' X B C (F(p := fs))" "hp_classes h' = hp_classes h"
    "\<And>y. y < p + 8 \<or> p + 16 \<le> y \<Longrightarrow> heap_mem h' y = heap_mem h y"
proof -
  note d = heap_coreD [OF c]
  have ok: "slab_ok (heap_mem h) i p (x # fs)" using d(9) [OF i] f by simp
  then have xs: "slab_free_list (heap_mem h) p = x" "x \<in> set (slots i p)" "set fs \<subseteq> set (slots i p)"
    "llist (heap_mem h) USIZE_MAX (slot_next (heap_mem h) x) fs" "distinct fs" by (auto simp: slab_ok_def)
  let ?v = "slot_next (heap_mem h) x"
  let ?m = "store64 (heap_mem h) (p + 8) (of_nat ?v)"
  have eq: "slab_pop h p = (x, h\<lparr>hp_mm := (hp_mm h)\<lparr>pmem := ?m\<rparr>\<rparr>)"
    using xs(1) by (simp add: slab_pop_def put_word_def heap_mem_def Let_def)
  have m: "?m y = heap_mem h y" if "y < p + 8 \<or> p + 16 \<le> y" for y by (rule store64_other) (use that in auto)
  have "slot_next ?m a = slot_next (heap_mem h) a" if "a \<in> set fs" for a
    using slot_bounds [OF i(1), of a p] that xs(3) m by (intro slot_next_cong) auto
  then have "llist ?m USIZE_MAX ?v fs" using xs(4) llist_cong [of fs ?m "heap_mem h"] by simp
  moreover have "slab_free_list ?m p = ?v" by (simp add: slab_free_list_def slot_next_def)
  ultimately have "slab_ok ?m i p fs" using xs(3,5) by (simp add: slab_ok_def)
  then have "heap_core (h\<lparr>hp_mm := (hp_mm h)\<lparr>pmem := ?m\<rparr>\<rparr>) X B C (F(p := fs))"
    by (intro core_page [OF c i m]) auto
  then show ?thesis using m by (intro that [OF eq]) (simp_all add: heap_mem_def)
qed

lemma slab_push_ok:
  assumes c: "heap_core h X B C F" and i: "i < 8" "p \<in> set (C i)" and x: "x \<in> set (slots i p)" "x \<notin> set (F p)"
  shows "heap_core (put_word (put_word h x (slab_free_list (heap_mem h) p)) (p + 8) x) X B C (F(p := x # F p))"
proof -
  note d = heap_coreD [OF c]
  have ok: "slab_ok (heap_mem h) i p (F p)" by (rule d(9) [OF i])
  let ?v = "slab_free_list (heap_mem h) p"
  let ?m1 = "store64 (heap_mem h) x (of_nat ?v)"
  let ?m = "store64 ?m1 (p + 8) (of_nat x)"
  have b: "p + 16 \<le> x" "x + class_size i \<le> p + 4096" "16 \<le> class_size i"
    using slot_bounds [OF i(1) x(1)] class_size_bounds [OF i(1)] by simp_all
  have lim: "x < USIZE_LIMIT" using page_facts(5) [OF c slab_pagesI [of i p C, OF i]] b by simp
  have v: "?v < USIZE_LIMIT" unfolding slab_free_list_def by (rule unat_u64_less)
  have m: "?m y = heap_mem h y" if "y < p + 8 \<or> p + 4096 \<le> y" for y
  proof -
    have "?m y = ?m1 y" by (rule store64_other) (use that b in auto)
    also have "\<dots> = heap_mem h y" by (rule store64_other) (use that b in auto)
    finally show ?thesis .
  qed
  have nx: "slot_next ?m x = ?v"
  proof -
    have "slot_next ?m x = slot_next ?m1 x" by (rule slot_next_cong, rule store64_other) (use b in auto)
    then show ?thesis using slot_next_store [OF v] by simp
  qed
  have "slot_next ?m a = slot_next (heap_mem h) a" if a: "a \<in> set (F p)" for a
  proof (rule slot_next_cong)
    fix y assume y: "a \<le> y" "y < a + 8"
    have s: "a \<in> set (slots i p)" "a \<noteq> x" using ok a x(2) by (auto simp: slab_ok_def)
    then have "p + 16 \<le> a" "a + class_size i \<le> x \<or> x + class_size i \<le> a"
      using slot_bounds(1) [OF i(1) s(1)] slots_apart [OF i(1) s(1) x(1)] by simp_all
    then have "?m y = ?m1 y" "?m1 y = heap_mem h y" using y b by (auto intro!: store64_other)
    then show "?m y = heap_mem h y" by simp
  qed
  then have "llist ?m USIZE_MAX ?v (F p)" using ok llist_cong [of "F p" ?m "heap_mem h"] by (simp add: slab_ok_def)
  moreover have "slab_free_list ?m p = x" using lim by (simp add: slab_free_list_def)
  moreover have "x \<noteq> USIZE_MAX" using page_facts(5) [OF c slab_pagesI [of i p C, OF i]] b by simp
  ultimately have "slab_ok ?m i p (x # F p)" using ok x nx by (simp add: slab_ok_def)
  then have "heap_core (h\<lparr>hp_mm := (hp_mm h)\<lparr>pmem := ?m\<rparr>\<rparr>) X B C (F(p := x # F p))"
    by (rule core_page [OF c i m, rotated])
  then show ?thesis by (simp add: put_word_def heap_mem_def)
qed

section \<open>Finding a page\<close>

lemma slab_find_ok:
  "llist m 0 x ps \<Longrightarrow>
   (\<exists>p\<in>set ps. slab_free_list m p \<noteq> USIZE_MAX \<and> slab_find m x = Some (Some p)) \<or>
   slab_find m x = Some None \<and> (\<forall>p\<in>set ps. slab_free_list m p = USIZE_MAX)"
proof (induction ps arbitrary: x)
  case Nil
  then show ?case by (simp add: slab_find.simps [of m 0])
next
  case (Cons p ps)
  then have x: "x = p" "p \<noteq> 0" "llist m 0 (slot_next m p) ps" by simp_all
  show ?case
  proof (cases "slab_free_list m p = USIZE_MAX")
    case True
    then have "slab_find m x = slab_find m (slot_next m p)" using x by (simp add: slab_find.simps [of m p] slab_next_eq)
    then show ?thesis using Cons.IH [OF x(3)] True by auto
  next
    case False
    then show ?thesis using x by (auto simp: slab_find.simps [of m p])
  qed
qed

section \<open>Sweeping empty pages\<close>

text \<open>What a change of the heap keeps: other blocks, and slab pages apart from their links.\<close>

definition kept :: "(nat \<times> nat) set \<Rightarrow> (nat \<Rightarrow> usize list) \<Rightarrow> mem \<Rightarrow> mem \<Rightarrow> bool" where
  "kept Y C m m' \<longleftrightarrow> (\<forall>b\<in>Y. \<forall>x\<in>region b. m' x = m x) \<and>
     (\<forall>p\<in>slab_pages C. \<forall>x. p + 8 \<le> x \<longrightarrow> x < p + 4096 \<longrightarrow> m' x = m x)"

lemma kept_refl: "kept Y C m m"
  by (simp add: kept_def)

lemma kept_trans: "kept Y C m m' \<Longrightarrow> kept Y C' m' m'' \<Longrightarrow> slab_pages C' \<subseteq> slab_pages C \<Longrightarrow> kept Y C' m m''"
  by (auto simp: kept_def subset_iff)

lemma llist_split: "llist m t x (xs @ y # ys) \<Longrightarrow> llist m t y (y # ys)"
  by (induction xs arbitrary: x) auto

text \<open>Unlinking the element after \<open>y\<close>.\<close>

lemma llist_unlink:
  assumes "llist m t x (xs @ y # z # zs)" "distinct (xs @ y # z # zs)" "slot_next m' y = slot_next m z"
    and "\<And>a. a \<in> set (xs @ zs) \<Longrightarrow> slot_next m' a = slot_next m a"
  shows "llist m' t x (xs @ y # zs)"
  using assms
proof (induction xs arbitrary: x)
  case Nil
  then have "llist m t (slot_next m z) zs" "x = y" "y \<noteq> t" by auto
  moreover have "llist m' t (slot_next m z) zs = llist m t (slot_next m z) zs" by (rule llist_cong) (use Nil in auto)
  ultimately show ?case using Nil(3) by simp
qed auto

lemma slab_pages_upd:
  "i < 8 \<Longrightarrow> slab_pages (C(i := l)) = (\<Union>j\<in>{..<8} - {i}. set (C j)) \<union> set l"
  unfolding slab_pages_def by (auto split: if_splits)

lemma core_remove:
  assumes c: "heap_core h X B C F" and i: "i < 8" and l: "C i = pre @ prev # p # rs"
  obtains h1 s' where
    "slab_class_set (put_word h prev (slot_next (heap_mem h) p)) p NOT_SLAB = Some h1"
    "expect_ok (free_pages (hp_mm h1) p) = Some ((), s')"
    "heap_core (h1\<lparr>hp_mm := s'\<rparr>) X B (C(i := pre @ prev # rs)) F"
    "kept (X \<union> B) (C(i := pre @ prev # rs)) (heap_mem h) (pmem s')" "hp_classes h1 = hp_classes h"
proof -
  note d = heap_coreD [OF c]
  let ?C = "C(i := pre @ prev # rs)"
  let ?m1 = "store64 (heap_mem h) prev (of_nat (slot_next (heap_mem h) p))"
  let ?h1 = "put_word h prev (slot_next (heap_mem h) p)"
  let ?tab = "(hp_page_class h)(page_index h p := NOT_SLAB)"
  let ?h2 = "?h1\<lparr>hp_page_class := ?tab\<rparr>"
  have dist: "distinct (pre @ prev # p # rs)" using d(7) [OF i] l by simp
  have pin: "p \<in> set (C i)" "prev \<in> set (C i)" using l by simp_all
  have pp: "p \<in> slab_pages C" "prev \<in> slab_pages C" using slab_pagesI [of i _ C, OF i] pin by blast+
  have sub: "slab_pages ?C = slab_pages C - {p}"
  proof -
    have "p \<notin> set (C j)" if "j < 8" "j \<noteq> i" for j using d(8) [OF that(1) i that(2)] pin by blast
    moreover have "set (C i) = insert p (set (pre @ prev # rs))" "p \<notin> set (pre @ prev # rs)" using l dist by auto
    ultimately show ?thesis
      using slab_pages_upd [OF i, of C "pre @ prev # rs"] slab_pages_upd [OF i, of C "C i"] by auto
  qed
  have blk: "X \<union> B \<union> slab_blocks ?C = X \<union> B \<union> slab_blocks C - {(p, 0)}"
  proof -
    have "(p, 0) \<notin> X \<union> B" using d(3) pp(1) by (auto simp: slab_blocks_def)
    moreover have "slab_blocks ?C = slab_blocks C - {(p, 0)}" unfolding slab_blocks_def sub by auto
    ultimately show ?thesis by blast
  qed
  let ?A = "X \<union> B \<union> slab_blocks C"
  have pb: "(p, 0) \<in> ?A" "(prev, 0) \<in> ?A" using pp by (auto simp: slab_blocks_def)
  note f = block_facts [OF c pb(1)]
  have set: "slab_class_set ?h1 p NOT_SLAB = Some ?h2"
    using class_ops(2) [of ?h1 p NOT_SLAB] f by (simp add: put_word_def page_index_def)
  have m1: "?m1 x = heap_mem h x" if "x < prev \<or> prev + 8 \<le> x" for x by (rule store64_other) (use that in auto)
  have i2: "buddy_inv (hp_mm ?h2) ?A"
  proof -
    have "buddy_inv ((hp_mm h)\<lparr>pmem := ?m1\<rparr>) ?A"
    proof (rule buddy.inv_store [OF d(1)])
      fix x assume "x \<notin> (\<Union>b\<in>?A. region b)"
      then have "x \<notin> region (prev, 0)" using pb(2) by blast
      then show "?m1 x = pmem (hp_mm h) x" using m1 [of x] by (auto simp: heap_mem_def)
    qed
    then show ?thesis by (simp add: put_word_def heap_mem_def)
  qed
  obtain s' where s': "free (hp_mm ?h2) p = Some (Ok (), s')" "buddy_inv s' (?A - {(p, 0)})"
    "\<forall>b\<in>?A - {(p, 0)}. \<forall>x\<in>region b. pmem s' x = pmem (hp_mm ?h2) x"
    using buddy.free_ok [OF i2 pb(1)] by blast
  have g: "same_geom (hp_mm ?h2) s'" by (rule free_geom [OF i2 pb(1) s'(1)])
  have m': "pmem s' x = ?m1 x" if "b \<in> ?A" "b \<noteq> (p, 0)" "x \<in> region b" for b x
    using s'(3) that by (simp add: put_word_def heap_mem_def)
  have mp: "pmem s' x = ?m1 x" if "q \<in> slab_pages ?C" "q \<le> x" "x < q + 4096" for q x
    by (rule m' [of "(q, 0)"]) (use that sub in \<open>auto simp: slab_blocks_def\<close>)
  have far: "prev + 4096 \<le> x \<or> x < prev" if "b \<in> ?A" "b \<noteq> (prev, 0)" "x \<in> region b" for b x
    using heap_apart [OF c that(1) pb(2) that(2)] that(3) by auto
  have farq: "prev + 4096 \<le> x \<or> x < prev" if "q \<in> slab_pages C" "q \<noteq> prev" "q \<le> x" "x < q + 4096" for q x
    by (rule far [of "(q, 0)"]) (use that in \<open>auto simp: slab_blocks_def\<close>)
  have data: "pmem s' x = heap_mem h x" if q: "q \<in> slab_pages ?C" "q + 8 \<le> x" "x < q + 4096" for q x
  proof -
    have "q \<in> slab_pages C" using q(1) unfolding sub by blast
    then have "q = prev \<or> prev + 4096 \<le> x \<or> x < prev" using farq [of q x] q(2,3) by linarith
    then have "x < prev \<or> prev + 8 \<le> x" using q(2) by linarith
    then show ?thesis using mp [of q x] m1 [of x] q by simp
  qed
  have k: "kept (X \<union> B) ?C (heap_mem h) (pmem s')"
    unfolding kept_def
  proof (intro conjI ballI allI impI)
    fix b x assume b: "b \<in> X \<union> B" "x \<in> region b"
    have ne: "b \<noteq> (p, 0)" "b \<noteq> (prev, 0)" using b(1) d(3) pp by (auto simp: slab_blocks_def)
    have bA: "b \<in> ?A" using b(1) by blast
    have "x < prev \<or> prev + 8 \<le> x" using far [OF bA ne(2) b(2)] by linarith
    then show "pmem s' x = heap_mem h x" using m' [OF bA ne(1) b(2)] m1 [of x] by simp
  qed (use data in blast)
  have lnk: "slot_next (pmem s') q = (if q = prev then slot_next (heap_mem h) p else slot_next (heap_mem h) q)"
    if q: "q \<in> slab_pages ?C" for q
  proof -
    have "slot_next (pmem s') q = slot_next ?m1 q" by (rule slot_next_cong) (use mp [OF q] in auto)
    moreover have "slot_next ?m1 q = slot_next (heap_mem h) q" if "q \<noteq> prev"
    proof (rule slot_next_cong)
      fix x assume x: "q \<le> x" "x < q + 8"
      have "q \<in> slab_pages C" using q unfolding sub by blast
      then show "?m1 x = heap_mem h x" using m1 [of x] farq [of q x] x that by linarith
    qed
    moreover have "slot_next ?m1 prev = slot_next (heap_mem h) p"
      by (rule slot_next_store) (unfold slot_next_def, rule unat_u64_less)
    ultimately show ?thesis by simp
  qed
  let ?h3 = "?h2\<lparr>hp_mm := s'\<rparr>"
  have hm: "heap_mem ?h3 = pmem s'" and pi: "page_index ?h3 = page_index h"
    by (simp_all add: heap_mem_def page_index_def put_word_def fun_eq_iff)
  have "heap_core ?h3 X B ?C F"
  proof (rule heap_coreI)
    show "buddy_inv (hp_mm ?h3) (X \<union> B \<union> slab_blocks ?C)" using s'(2) unfolding blk by simp
    show "(X \<union> B) \<inter> slab_blocks ?C = {}" using d(3) unfolding slab_blocks_def sub by auto
    show "heap_geom ?h3" using d(4) g by (simp add: heap_geom_def phys_ok_def same_geom_def put_word_def)
    show "length (hp_classes ?h3) = 8" using d(5) by (simp add: put_word_def)
    show "llist (heap_mem ?h3) 0 (hp_classes ?h3 ! j) (?C j)" if j: "j < 8" for j
    proof (cases "j = i")
      case True
      have "llist (pmem s') 0 (hp_classes h ! i) (pre @ prev # rs)"
      proof (rule llist_unlink [OF d(6) [OF i, unfolded l] dist])
        show "slot_next (pmem s') prev = slot_next (heap_mem h) p" using lnk [of prev] pp(2) sub dist by auto
        show "slot_next (pmem s') a = slot_next (heap_mem h) a" if "a \<in> set (pre @ rs)" for a
        proof -
          have "a \<in> set (?C i)" "a \<noteq> prev" using that dist by auto
          then show ?thesis using lnk [of a] slab_pagesI [of i a ?C, OF i] by simp
        qed
      qed
      then show ?thesis using True unfolding hm by (simp add: put_word_def)
    next
      case False
      have "slot_next (pmem s') a = slot_next (heap_mem h) a" if "a \<in> set (C j)" for a
      proof -
        have "a \<noteq> prev" using d(8) [OF j i False] that pin by blast
        then show ?thesis using lnk [of a] slab_pagesI [of j a ?C, OF j] that False by simp
      qed
      then show ?thesis using d(6) [OF j] llist_cong [of "C j" "pmem s'" "heap_mem h"] False unfolding hm by (simp add: put_word_def)
    qed
    show "distinct (?C j)" if "j < 8" for j using d(7) [OF that] dist by (cases "j = i") auto
    show "set (?C j) \<inter> set (?C j') = {}" if "j < 8" "j' < 8" "j \<noteq> j'" for j j'
      using d(8) [OF that] l by (cases "j = i"; cases "j' = i") auto
    show "slab_ok (heap_mem ?h3) j q (F q)" if j: "j < 8" "q \<in> set (?C j)" for j q
    proof -
      have "q \<in> set (C j)" using j l by (auto split: if_splits)
      moreover have "slab_ok (pmem s') j q (F q) = slab_ok (heap_mem h) j q (F q)"
        by (rule slab_ok_cong [OF j(1)], rule data [of q]) (use slab_pagesI [of j q ?C, OF j] in auto)
      ultimately show ?thesis using d(9) [OF j(1)] by (simp add: hm)
    qed
    show "hp_page_class ?h3 (page_index ?h3 q) = j" if j: "j < 8" "q \<in> set (?C j)" for j q
    proof -
      have q: "q \<in> set (C j)" "q \<in> slab_pages ?C" using j l slab_pagesI [of j q ?C, OF j] by (auto split: if_splits)
      then have "q \<noteq> p" "q \<in> slab_pages C" using sub by auto
      then have "page_index h q \<noteq> page_index h p"
        using page_index_inj [of h q p] f(1,2,6) page_facts(1,2) [OF c, of q] by blast
      then show ?thesis using d(10) [OF j(1) q(1)] unfolding pi by (simp add: put_word_def)
    qed
    show "\<exists>q\<in>slab_pages ?C. j = page_index ?h3 q" if "hp_page_class ?h3 j \<noteq> NOT_SLAB" for j
    proof -
      have j: "j \<noteq> page_index h p" "hp_page_class h j \<noteq> NOT_SLAB" using that by (auto simp: put_word_def split: if_splits)
      then obtain q where "q \<in> slab_pages C" "j = page_index h q" using d(11) by blast
      then show ?thesis using j(1) sub unfolding pi by auto
    qed
  qed (rule d(2))
  moreover have "expect_ok (free_pages (hp_mm ?h2) p) = Some ((), s')" using s'(1) by (simp add: free_pages_def)
  moreover have "hp_classes ?h2 = hp_classes h" by (simp add: put_word_def)
  ultimately show ?thesis using that set k by blast
qed

fun first :: "usize list \<Rightarrow> usize" where
  "first [] = 0"
| "first (p # ps) = p"

lemma llist_first: "llist m 0 x ps \<Longrightarrow> x = first ps"
  by (cases ps) auto

text \<open>The pages that a sweep removes have only free slots.\<close>

definition swept :: "(nat \<Rightarrow> usize list) \<Rightarrow> (nat \<Rightarrow> usize list) \<Rightarrow> (usize \<Rightarrow> usize list) \<Rightarrow> bool" where
  "swept C C' F \<longleftrightarrow> (\<forall>j<8. set (C' j) \<subseteq> set (C j) \<and> (\<forall>p\<in>set (C j) - set (C' j). set (F p) = set (slots j p)))"

lemma swept_refl: "swept C C F"
  by (simp add: swept_def)

lemma swept_trans: "swept C C' F \<Longrightarrow> swept C' C'' F \<Longrightarrow> swept C C'' F"
  unfolding swept_def by (meson DiffD1 DiffD2 DiffI subset_iff)

lemma swept_pages: "swept C C' F \<Longrightarrow> slab_pages C' \<subseteq> slab_pages C"
  unfolding swept_def slab_pages_def by blast

lemma sweep_chain_ok:
  assumes "heap_core h X B C F" "i < 8" "C i = pre @ prev # ps"
  shows "\<exists>h' C'. sweep_chain i prev (first ps) h = Some h' \<and> heap_core h' X B C' F \<and> swept C C' F \<and>
    kept (X \<union> B) C' (heap_mem h) (heap_mem h') \<and> hp_classes h' = hp_classes h"
  using assms
proof (induction ps arbitrary: h C pre prev)
  case Nil
  then show ?case by (intro exI [of _ h] exI [of _ C]) (simp add: sweep_chain.simps swept_refl kept_refl)
next
  case (Cons p rs)
  note d = heap_coreD [OF Cons.prems(1)]
  note i = Cons.prems(2) and l = Cons.prems(3)
  have p: "p \<in> set (C i)" using l by simp
  have ll: "llist (heap_mem h) 0 p (p # rs)"
    using llist_split [of "heap_mem h" 0 "hp_classes h ! i" "pre @ [prev]" p rs] d(6) [OF i] l by simp
  then have p0: "p \<noteq> 0" and nx: "slot_next (heap_mem h) p = first rs" using llist_first by auto
  have emp: "slab_page_empty (heap_mem h) p i \<longleftrightarrow> set (F p) = set (slots i p)"
    by (rule slab_page_empty_ok [OF i d(9) [OF i p]])
  show ?case
  proof (cases "slab_page_empty (heap_mem h) p i")
    case True
    let ?C = "C(i := pre @ prev # rs)"
    obtain h1 s' where r: "slab_class_set (put_word h prev (slot_next (heap_mem h) p)) p NOT_SLAB = Some h1"
      "expect_ok (free_pages (hp_mm h1) p) = Some ((), s')" "heap_core (h1\<lparr>hp_mm := s'\<rparr>) X B ?C F"
      "kept (X \<union> B) ?C (heap_mem h) (pmem s')" "hp_classes h1 = hp_classes h"
      by (rule core_remove [OF Cons.prems]) (rule that; assumption)
    have "\<exists>h' C'. sweep_chain i prev (first rs) (h1\<lparr>hp_mm := s'\<rparr>) = Some h' \<and> heap_core h' X B C' F \<and> swept ?C C' F \<and>
      kept (X \<union> B) C' (heap_mem (h1\<lparr>hp_mm := s'\<rparr>)) (heap_mem h') \<and> hp_classes h' = hp_classes (h1\<lparr>hp_mm := s'\<rparr>)"
      by (rule Cons.IH [OF r(3) i]) simp
    then obtain h' C' where ih: "sweep_chain i prev (first rs) (h1\<lparr>hp_mm := s'\<rparr>) = Some h'" "heap_core h' X B C' F" "swept ?C C' F"
      "kept (X \<union> B) C' (heap_mem (h1\<lparr>hp_mm := s'\<rparr>)) (heap_mem h')" "hp_classes h' = hp_classes (h1\<lparr>hp_mm := s'\<rparr>)"
      by blast
    have sw: "swept C ?C F" using True emp l by (auto simp: swept_def)
    have "sweep_chain i prev (first (p # rs)) h = Some h'"
      using p0 True r(1,2) ih(1) nx by (simp add: sweep_chain.simps [of i prev p] slab_next_eq Let_def)
    moreover have "kept (X \<union> B) C' (heap_mem h) (heap_mem h')"
      by (rule kept_trans [OF r(4) _ swept_pages [OF ih(3)]]) (use ih(4) in \<open>simp add: heap_mem_def\<close>)
    ultimately show ?thesis using ih(2,5) r(5) swept_trans [OF sw ih(3)] by auto
  next
    case False
    obtain h' C' where "sweep_chain i p (first rs) h = Some h'" "heap_core h' X B C' F" "swept C C' F"
      "kept (X \<union> B) C' (heap_mem h) (heap_mem h')" "hp_classes h' = hp_classes h"
      using Cons.IH [OF Cons.prems(1) i, of "pre @ [prev]" p] l by auto
    then show ?thesis using p0 False nx
      by (intro exI [of _ h'] exI [of _ C']) (simp add: sweep_chain.simps [of i prev p] slab_next_eq Let_def)
  qed
qed

lemma sweep_classes_ok:
  assumes "heap_core h X B C F" "set is \<subseteq> {..<8}"
  shows "\<exists>h' C'. sweep_classes is h = Some h' \<and> heap_core h' X B C' F \<and> swept C C' F \<and>
    kept (X \<union> B) C' (heap_mem h) (heap_mem h') \<and> hp_classes h' = hp_classes h"
  using assms
proof (induction "is" arbitrary: h C)
  case Nil
  then show ?case by (auto simp: swept_refl kept_refl)
next
  case (Cons i "is")
  note d = heap_coreD [OF Cons.prems(1)]
  have i: "i < 8" using Cons.prems(2) by simp
  show ?case
  proof (cases "C i")
    case Nil
    then have "hp_classes h ! i = 0" using d(6) [OF i] by simp
    then show ?thesis using Cons.IH [OF Cons.prems(1)] Cons.prems(2) by simp
  next
    case (Cons p rs)
    have ll: "hp_classes h ! i = p" "p \<noteq> 0" "slot_next (heap_mem h) p = first rs"
      using d(6) [OF i] Cons llist_first by auto
    obtain h1 C1 where r: "sweep_chain i p (first rs) h = Some h1" "heap_core h1 X B C1 F" "swept C C1 F"
      "kept (X \<union> B) C1 (heap_mem h) (heap_mem h1)" "hp_classes h1 = hp_classes h"
      using sweep_chain_ok [OF Cons.prems(1) i, of "[]" p rs] Cons by auto
    obtain h' C' where ih: "sweep_classes is h1 = Some h'" "heap_core h' X B C' F" "swept C1 C' F"
      "kept (X \<union> B) C' (heap_mem h1) (heap_mem h')" "hp_classes h' = hp_classes h1"
      using Cons.IH [OF r(2)] Cons.prems(2) by auto
    have "sweep_classes (i # is) h = Some h'" using ll r(1) ih(1) by (simp add: slab_next_eq Let_def)
    then show ?thesis
      using ih(2,5) r(5) swept_trans [OF r(3) ih(3)] kept_trans [OF r(4) ih(4) swept_pages [OF ih(3)]] by auto
  qed
qed

end
