(* ===== verification/Heap_Grow.thy ===== *)
theory Heap_Grow
  imports Heap_Core
begin

text \<open>
  Growing a size class by a fresh page, and the allocation of a slot with all of its steps: search,
  sweep, fresh page, pop.
\<close>

section \<open>A fresh page in a chain\<close>

lemma sweep_empty_pages_ok:
  assumes "heap_core h X B C F"
  obtains h' C' where "sweep_empty_pages h = Some h'" "heap_core h' X B C' F" "swept C C' F"
    "kept (X \<union> B) C' (heap_mem h) (heap_mem h')" "hp_classes h' = hp_classes h"
proof -
  have "set [0..<8] \<subseteq> {..<8::nat}" by auto
  then show thesis using sweep_classes_ok [OF assms, of "[0..<8]"] that by (auto simp: sweep_empty_pages_def)
qed

lemma core_insert:
  assumes c: "heap_core h X B C F" and i: "i < 8" and a: "alloc (hp_mm h) 0 = Some (Some p, s1)"
    and m: "\<And>x. x \<notin> region (p, 0) \<Longrightarrow> m x = pmem s1 x"
    and n: "slot_next m p = hp_classes h ! i" and s: "slab_ok m i p fs"
  defines "h' \<equiv> h\<lparr>hp_mm := s1\<lparr>pmem := m\<rparr>, hp_page_class := (hp_page_class h)(page_index h p := i),
    hp_classes := (hp_classes h)[i := p]\<rparr>"
  shows "heap_core h' X B (C(i := p # C i)) (F(p := fs))" "kept (X \<union> B) C (heap_mem h) m"
    "p \<notin> slab_pages C" "hp_base h \<le> p" "p < hp_base h + hp_bytes h" "hp_bytes h \<le> MAX_PAGES * 4096"
    "\<And>b. b \<in> X \<union> B \<union> slab_blocks C \<Longrightarrow> region b \<inter> region (p, 0) = {}"
proof -
  note d = heap_coreD [OF c]
  let ?A = "X \<union> B \<union> slab_blocks C" and ?C = "C(i := p # C i)"
  have k: "(0::nat) \<le> 12" by simp
  note f = buddy.alloc_fill [OF d(1) k a, of m]
  have n': "(p, 0) \<notin> ?A" using buddy.alloc_ok [OF d(1) k] a by auto
  then show new: "p \<notin> slab_pages C" by (auto simp: slab_blocks_def)
  have g: "same_geom (hp_mm h) s1" by (rule alloc_geom [OF d(1) a])
  show ap: "region b \<inter> region (p, 0) = {}" if "b \<in> ?A" for b by (rule buddy.alloc_fresh(2) [OF d(1) k a that])
  have keep: "m x = heap_mem h x" if "b \<in> ?A" "x \<in> region b" for b x
    using f(2) [OF m that] by (simp add: heap_mem_def)
  have keepq: "m x = heap_mem h x" if "q \<in> slab_pages C" "q \<le> x" "x < q + 4096" for q x
    by (rule keep [of "(q, 0)"]) (use that in \<open>auto simp: slab_blocks_def\<close>)
  show kp: "kept (X \<union> B) C (heap_mem h) m" using keep keepq unfolding kept_def by (intro conjI ballI allI impI) (blast, simp)
  have sp: "slab_pages ?C = insert p (slab_pages C)"
    using slab_pages_upd [OF i, of C "p # C i"] slab_pages_upd [OF i, of C "C i"] by auto
  have blk: "X \<union> B \<union> slab_blocks ?C = insert (p, 0) ?A" unfolding slab_blocks_def sp by auto
  have gs: "heap_geom h'" using d(4) g by (simp add: heap_geom_def phys_ok_def same_geom_def h'_def)
  have r: "region (p, 0) \<subseteq> {ba_base s1 ..< ba_base s1 + ba_real_count s1 * PAGE_SIZE}"
    by (rule buddy_inv_region [OF buddy.alloc_fresh(1) [OF d(1) k a]]) simp
  then have "p \<in> {ba_base s1 ..< ba_base s1 + ba_real_count s1 * PAGE_SIZE}" by auto
  then show pr: "hp_base h \<le> p" "p < hp_base h + hp_bytes h" "hp_bytes h \<le> MAX_PAGES * 4096"
    using d(4) g by (auto simp: heap_geom_def same_geom_def PAGE_SIZE_def)
  have hm: "heap_mem h' = m" and pi: "page_index h' = page_index h"
    by (simp_all add: heap_mem_def page_index_def fun_eq_iff h'_def)
  have al: "4096 dvd p" using buddy.inv_aligned [OF f(1) [OF m], of p 0] by simp
  have p0: "p \<noteq> 0" using pr(1) d(4) by (simp add: heap_geom_def)
  have nq: "slot_next m q = slot_next (heap_mem h) q" if "q \<in> slab_pages C" for q
    by (rule slot_next_cong, rule keepq [OF that]) auto
  have ll: "llist m 0 (hp_classes h ! j) (C j)" if "j < 8" for j
    using d(6) [OF that] llist_cong [of "C j" m "heap_mem h"] nq slab_pagesI [of j _ C, OF that] by simp
  show "heap_core h' X B ?C (F(p := fs))"
  proof (rule heap_coreI)
    show "buddy_inv (hp_mm h') (X \<union> B \<union> slab_blocks ?C)" unfolding blk h'_def using f(1) [OF m] by simp
    show "(X \<union> B) \<inter> slab_blocks ?C = {}" using d(3) n' unfolding slab_blocks_def sp by auto
    show "length (hp_classes h') = 8" using d(5) by (simp add: h'_def)
    show "llist (heap_mem h') 0 (hp_classes h' ! j) (?C j)" if j: "j < 8" for j
      using ll [OF j] n p0 d(5) i unfolding hm by (cases "j = i") (simp_all add: h'_def)
    show "distinct (?C j)" if "j < 8" for j
      using d(7) [OF that] new slab_pagesI [of i p C, OF i] by auto
    show "set (?C j) \<inter> set (?C j') = {}" if "j < 8" "j' < 8" "j \<noteq> j'" for j j'
      using d(8) [OF that] new slab_pagesI [of j p C, OF that(1)] slab_pagesI [of j' p C, OF that(2)] that(3) by auto
    show "slab_ok (heap_mem h') j q ((F(p := fs)) q)" if j: "j < 8" "q \<in> set (?C j)" for j q
    proof (cases "q = p")
      case True
      then have "j = i" using j(2) new slab_pagesI [of j p C, OF j(1)] by (auto split: if_splits)
      then show ?thesis using True s by (simp add: hm)
    next
      case False
      then have q: "q \<in> set (C j)" using j(2) by (auto split: if_splits)
      have "slab_ok m j q (F q) = slab_ok (heap_mem h) j q (F q)"
        by (rule slab_ok_cong [OF j(1)], rule keepq [OF slab_pagesI [of j q C, OF j(1) q]]) auto
      then show ?thesis using False d(9) [OF j(1) q] by (simp add: hm)
    qed
    show "hp_page_class h' (page_index h' q) = j" if j: "j < 8" "q \<in> set (?C j)" for j q
    proof (cases "q = p")
      case True
      then have "j = i" using j(2) new slab_pagesI [of j p C, OF j(1)] by (auto split: if_splits)
      then show ?thesis using True by (simp add: pi) (simp add: h'_def)
    next
      case False
      then have q: "q \<in> set (C j)" using j(2) by (auto split: if_splits)
      have "page_index h q \<noteq> page_index h p"
        using page_index_inj [of h q p] page_facts(1,2) [OF c slab_pagesI [of j q C, OF j(1) q]] al pr(1) d(4) False
        by (auto simp: heap_geom_def)
      then show ?thesis using d(10) [OF j(1) q] by (simp add: pi) (simp add: h'_def)
    qed
    show "\<exists>q\<in>slab_pages ?C. j = page_index h' q" if "hp_page_class h' j \<noteq> NOT_SLAB" for j
      using that d(11) [of j] unfolding pi sp by (cases "j = page_index h p") (auto simp: h'_def)
  qed (rule gs d(2))+
qed

text \<open>The memory of a fresh slab page.\<close>

lemma slab_link_page:
  fixes m0 :: mem
  assumes "i < 8" "0 < p" "p + 8192 \<le> USIZE_LIMIT"
  defines "m \<equiv> slab_link (class_size i) (p + 4096) 0 (p + class_size i) m0"
  shows "llist m USIZE_MAX (p + class_size i) (slots i p)" "\<And>x. x < p + 16 \<or> p + 4096 \<le> x \<Longrightarrow> m x = m0 x"
proof -
  let ?c = "class_size i"
  note b = class_size_bounds [OF assms(1)] and cap = capacity_eq [OF assms(1)]
  have c: "capacity i * ?c + ?c = 4096" using cap by simp
  have m: "m = slab_link ?c (p + 4096) (p + ?c) (p + ?c + ?c) m0"
    unfolding m_def using b by (simp add: slab_link.simps [of ?c "p + 4096" 0 "p + ?c"])
  have pre: "(capacity i - 1) * ?c + ?c = capacity i * ?c" using cap by (cases "capacity i") simp_all
  have *: "llist m USIZE_MAX (p + ?c) ((p + ?c) # map (\<lambda>k. p + ?c + ?c + k * ?c) [0..<capacity i - 1]) \<and>
    (\<forall>x. x < p + ?c \<or> p + 4096 \<le> x \<longrightarrow> m x = m0 x)"
    unfolding m
    by (rule slab_link_ok) (use b c pre assms(2,3) in \<open>simp_all add: add_mult_distrib\<close>)
  have "(p + ?c) # map (\<lambda>k. p + ?c + ?c + k * ?c) [0..<capacity i - 1] = slots i p"
    using cap unfolding slots_def
    by (cases "capacity i") (simp_all add: upt_conv_Cons map_Suc_upt [symmetric] algebra_simps del: upt_Suc)
  then show "llist m USIZE_MAX (p + ?c) (slots i p)" using * by simp
  show "m x = m0 x" if "x < p + 16 \<or> p + 4096 \<le> x" for x
  proof -
    have "x < p + ?c \<or> p + 4096 \<le> x" using that b by linarith
    then show ?thesis using * by blast
  qed
qed

lemma fresh_slab_ok:
  fixes m0 :: mem
  assumes "i < 8" "0 < p" "p + 8192 \<le> USIZE_LIMIT" "nx < USIZE_LIMIT"
  defines "m1 \<equiv> slab_link (class_size i) (p + 4096) 0 (p + class_size i) m0"
  defines "m \<equiv> store64 (store64 (store64 m1 p 0) (p + 8) (of_nat (p + class_size i))) p (of_nat nx)"
  shows "slab_ok m i p (slots i p)" "slot_next m p = nx" "\<And>x. x \<notin> region (p, 0) \<Longrightarrow> m x = m0 x"
proof -
  note l = slab_link_page [OF assms(1-3), where ?m0.0 = m0, folded m1_def]
  note b = class_size_bounds [OF assms(1)]
  have m: "m x = m1 x" if "x < p \<or> p + 16 \<le> x" for x
    unfolding m_def using that by (auto intro!: store64_other simp: store64_other)
  have "slot_next m a = slot_next m1 a" if "a \<in> set (slots i p)" for a
    using slot_bounds(1) [OF assms(1) that] m by (intro slot_next_cong) auto
  then have "llist m USIZE_MAX (p + class_size i) (slots i p)" using l(1) llist_cong [of "slots i p" m m1] by simp
  moreover have "slab_free_list m p = p + class_size i"
  proof -
    have "load64 m (p + 8) = of_nat (p + class_size i)"
      using load64_cong [of "p + 8" m "store64 (store64 m1 p 0) (p + 8) (of_nat (p + class_size i))"]
      unfolding m_def by (simp add: store64_other)
    moreover have "p + class_size i < USIZE_LIMIT" using b assms(3) by linarith
    ultimately show ?thesis unfolding slab_free_list_def by (simp only: unat_of_nat_u64)
  qed
  ultimately show "slab_ok m i p (slots i p)" using distinct_slots [OF assms(1)] by (simp add: slab_ok_def)
  show "slot_next m p = nx" unfolding m_def by (rule slot_next_store [OF assms(4)])
  show "m x = m0 x" if "x \<notin> region (p, 0)" for x using m l(2) that by auto
qed

section \<open>Slots in use\<close>

definition busy :: "(nat \<Rightarrow> usize list) \<Rightarrow> (usize \<Rightarrow> usize list) \<Rightarrow> (nat \<times> usize) set" where
  "busy C F = {(j, x). j < 8 \<and> (\<exists>p\<in>set (C j). x \<in> set (slots j p) \<and> x \<notin> set (F p))}"

lemma busyI: "j < 8 \<Longrightarrow> p \<in> set (C j) \<Longrightarrow> x \<in> set (slots j p) \<Longrightarrow> x \<notin> set (F p) \<Longrightarrow> (j, x) \<in> busy C F"
  by (auto simp: busy_def)

lemma busyE:
  assumes "(j, x) \<in> busy C F"
  obtains p where "j < 8" "p \<in> set (C j)" "x \<in> set (slots j p)" "x \<notin> set (F p)"
  using assms by (auto simp: busy_def)

lemma slot_page_unique:
  assumes c: "heap_core h X B C F" and "i < 8" "j < 8" "p \<in> set (C i)" "q \<in> set (C j)"
    and "x \<in> set (slots i p)" "x \<in> set (slots j q)"
  shows "p = q" "i = j"
proof -
  have "4096 dvd p" "4096 dvd q" using page_facts(1) [OF c] slab_pagesI [of i p C] slab_pagesI [of j q C] assms by blast+
  then show "p = q" using slot_offset(1) [of i x p] slot_offset(1) [of j x q] assms by simp
  then show "i = j" using heap_coreD(8) [OF c assms(2,3)] assms(4,5) by blast
qed

lemma busy_swept: "swept C C' F \<Longrightarrow> busy C' F = busy C F"
  unfolding swept_def busy_def by blast

lemma busy_insert:
  assumes "i < 8" "p \<notin> slab_pages C"
  shows "busy (C(i := p # C i)) (F(p := slots i p)) = busy C F"
  using assms slab_pagesI [of _ p C] by (auto simp: busy_def split: if_splits) (metis fun_upd_other)+

lemma busy_pop:
  assumes c: "heap_core h X B C F" and i: "i < 8" "p \<in> set (C i)" and f: "F p = x # fs"
  shows "busy C (F(p := fs)) = insert (i, x) (busy C F)" "(i, x) \<notin> busy C F" "x \<in> set (slots i p)"
proof -
  have ok: "distinct (x # fs)" "set (x # fs) \<subseteq> set (slots i p)"
    using heap_coreD(9) [OF c i] f by (auto simp: slab_ok_def)
  then show x: "x \<in> set (slots i p)" by simp
  note u = slot_page_unique [OF c]
  show "(i, x) \<notin> busy C F"
  proof
    assume "(i, x) \<in> busy C F"
    then obtain q where q: "q \<in> set (C i)" "x \<in> set (slots i q)" "x \<notin> set (F q)" by (rule busyE)
    have "q = p" by (rule u(1) [OF i(1,1) q(1) i(2) q(2) x])
    then show False using q(3) f by simp
  qed
  show "busy C (F(p := fs)) = insert (i, x) (busy C F)"
  proof (intro equalityI subsetI)
    fix z assume "z \<in> busy C (F(p := fs))"
    moreover obtain j y where z: "z = (j, y)" by (cases z)
    ultimately obtain q where q: "j < 8" "q \<in> set (C j)" "y \<in> set (slots j q)" "y \<notin> set ((F(p := fs)) q)"
      using busyE by blast
    show "z \<in> insert (i, x) (busy C F)"
    proof (cases "y \<in> set (F q)")
      case True
      then have "q = p" "y = x" using q(4) f by (auto split: if_splits)
      then show ?thesis using u(2) [OF q(1) i(1) q(2) i(2) q(3)] x z by simp
    qed (use busyI [of j q C y F, OF q(1-3)] z in simp)
  next
    fix z assume "z \<in> insert (i, x) (busy C F)"
    then consider "z = (i, x)" | j y where "z = (j, y)" "(j, y) \<in> busy C F" by (cases z) auto
    then show "z \<in> busy C (F(p := fs))"
    proof cases
      case 1
      then show ?thesis using busyI [of i p C x "F(p := fs)", OF i x] ok by simp
    next
      case 2
      from 2(2) obtain q where q: "j < 8" "q \<in> set (C j)" "y \<in> set (slots j q)" "y \<notin> set (F q)" by (rule busyE)
      then have "y \<notin> set ((F(p := fs)) q)" using f by auto
      then show ?thesis using busyI [of j q C y "F(p := fs)", OF q(1-3)] 2(1) by simp
    qed
  qed
qed

lemma busy_push:
  assumes c: "heap_core h X B C F" and i: "i < 8" "p \<in> set (C i)" and x: "x \<in> set (slots i p)"
  shows "busy C (F(p := x # F p)) = busy C F - {(i, x)}"
proof -
  note u = slot_page_unique [OF c]
  have "(j, y) \<in> busy C (F(p := x # F p)) \<longleftrightarrow> (j, y) \<in> busy C F \<and> (j, y) \<noteq> (i, x)" for j y
  proof -
    have "y \<notin> set ((F(p := x # F p)) q) \<longleftrightarrow> y \<notin> set (F q) \<and> (j, y) \<noteq> (i, x)"
      if "j < 8" "q \<in> set (C j)" "y \<in> set (slots j q)" for q
      using u [OF that(1) i(1) that(2) i(2) that(3)] x u(1) [OF i(1) i(1) _ i(2) _ x, of q] that by auto
    then show ?thesis unfolding busy_def by blast
  qed
  then show ?thesis by auto
qed

text \<open>Objects in slots are not touched where pages are kept.\<close>

lemma kept_busy:
  assumes "kept Y C m m'" "(j, x) \<in> busy C F" "x \<le> z" "z < x + class_size j"
  shows "m' z = m z"
proof -
  from assms(2) obtain p where p: "j < 8" "p \<in> set (C j)" "x \<in> set (slots j p)" by (rule busyE)
  have "p + 8 \<le> z" "z < p + 4096" using slot_bounds [OF p(1,3)] assms(3,4) by linarith+
  then show ?thesis using assms(1) slab_pagesI [of j p C, OF p(1,2)] by (simp add: kept_def)
qed

text \<open>What an allocation leaves alone: the blocks \<open>Y\<close> and the objects in slots.\<close>

definition undisturbed :: "(nat \<times> nat) set \<Rightarrow> (nat \<times> usize) set \<Rightarrow> mem \<Rightarrow> mem \<Rightarrow> bool" where
  "undisturbed Y S m m' \<longleftrightarrow> (\<forall>b\<in>Y. \<forall>z\<in>region b. m' z = m z) \<and> (\<forall>(j, x)\<in>S. \<forall>z\<in>{x..<x + class_size j}. m' z = m z)"

lemma undisturbed_refl: "undisturbed Y S m m"
  by (simp add: undisturbed_def split: prod.splits)

lemma undisturbed_trans: "undisturbed Y S m m' \<Longrightarrow> undisturbed Y S m' m'' \<Longrightarrow> undisturbed Y S m m''"
  by (fastforce simp: undisturbed_def)

lemma kept_undisturbed: "kept Y C m m' \<Longrightarrow> undisturbed Y (busy C F) m m'"
  using kept_busy [of Y C m m' _ _ F] by (auto simp: undisturbed_def kept_def)

text \<open>A write to the header of a slab page.\<close>

lemma header_undisturbed:
  assumes c: "heap_core h X B C F" and p: "p \<in> slab_pages C"
    and m: "\<And>y. y < p \<or> p + 16 \<le> y \<Longrightarrow> m y = heap_mem h y"
  shows "undisturbed (X \<union> B) (busy C F) (heap_mem h) m"
proof -
  have pb: "(p, 0) \<in> X \<union> B \<union> slab_blocks C" using p by (auto simp: slab_blocks_def)
  have out: "m z = heap_mem h z" if "b \<in> X \<union> B \<union> slab_blocks C" "b \<noteq> (p, 0)" "z \<in> region b" for b z
    by (rule m) (use heap_apart [OF c that(1) pb that(2)] that(3) in auto)
  show ?thesis
    unfolding undisturbed_def
  proof (intro conjI ballI)
    fix b z assume b: "b \<in> X \<union> B" "z \<in> region b"
    then have "b \<noteq> (p, 0)" using heap_coreD(3) [OF c] p by (auto simp: slab_blocks_def)
    then show "m z = heap_mem h z" using out [of b z] b by blast
  next
    fix o' assume "o' \<in> busy C F"
    then obtain j x q where o': "o' = (j, x)" "j < 8" "q \<in> set (C j)" "x \<in> set (slots j q)" by (cases o') (auto elim: busyE)
    have "m z = heap_mem h z" if z: "x \<le> z" "z < x + class_size j" for z
    proof (cases "q = p")
      case True
      then show ?thesis using slot_bounds(1) [OF o'(2,4)] z by (intro m) simp
    next
      case False
      have "q \<le> z" "z < q + 4096" using slot_bounds [OF o'(2,4)] z by linarith+
      then show ?thesis
        by (intro out [of "(q, 0)"]) (use False slab_pagesI [of j q C, OF o'(2,3)] in \<open>auto simp: slab_blocks_def\<close>)
    qed
    then show "case o' of (j, x) \<Rightarrow> \<forall>z\<in>{x..<x + class_size j}. m z = heap_mem h z" using o'(1) by simp
  qed
qed

section \<open>Allocating a slot\<close>

text \<open>The state of a class with a page that was just added by \<^verbatim>\<open>new_slab\<close> and linked by \<^verbatim>\<open>slab_alloc\<close>.\<close>

definition link_slab :: "heap \<Rightarrow> usize \<Rightarrow> nat \<Rightarrow> heap" where
  "link_slab h p i = (let h2 = put_word h p (hp_classes h ! i) in h2\<lparr>hp_classes := (hp_classes h2)[i := p]\<rparr>)"

lemma new_slab_ok:
  assumes c: "heap_core h X B C F" and i: "i < 8"
  obtains (none) h1 s1 where "sweep_empty_pages h = Some h1" "alloc_pages (hp_mm h1) 0 = Some (None, s1)" "new_slab h i = None"
  | (some) p h2 C' where "new_slab h i = Some (p, h2)"
      "heap_core (link_slab h2 p i) X B (C'(i := p # C' i)) (F(p := slots i p))"
      "busy (C'(i := p # C' i)) (F(p := slots i p)) = busy C F"
      "undisturbed (X \<union> B) (busy C F) (heap_mem h) (heap_mem (link_slab h2 p i))"
proof -
  obtain h1 C1 where s: "sweep_empty_pages h = Some h1" "heap_core h1 X B C1 F" "swept C C1 F"
    "kept (X \<union> B) C1 (heap_mem h) (heap_mem h1)" "hp_classes h1 = hp_classes h"
    by (rule sweep_empty_pages_ok [OF c]) (rule that; assumption)
  note d = heap_coreD [OF s(2)]
  obtain r s1 where a: "alloc (hp_mm h1) 0 = Some (r, s1)" using buddy.alloc_ok [OF d(1), of 0] by auto
  show thesis
  proof (cases r)
    case None
    then show ?thesis using s(1) a by (intro none [of h1 s1]) (simp_all add: alloc_pages_def new_slab_def)
  next
    case (Some p)
    let ?m1 = "slab_link (class_size i) (p + 4096) 0 (p + class_size i) (pmem s1)"
    let ?m3 = "store64 (store64 ?m1 p 0) (p + 8) (of_nat (p + class_size i))"
    let ?m = "store64 ?m3 p (of_nat (hp_classes h1 ! i))"
    have al: "alloc (hp_mm h1) 0 = Some (Some p, s1)" using a Some by simp
    have pr: "0 < p" "p + 4096 \<le> 2 ^ 56"
    proof -
      have "buddy_inv s1 (insert (p, 0) (X \<union> B \<union> slab_blocks C1))" using buddy.alloc_fresh(1) [OF d(1) _ al] by simp
      then have "region (p, 0) \<subseteq> {ba_base s1 ..< ba_base s1 + ba_real_count s1 * PAGE_SIZE}" by (rule buddy_inv_region) simp
      moreover have "p \<in> region (p, 0)" "p + 4095 \<in> region (p, 0)" by simp_all
      ultimately have "p \<in> {ba_base s1 ..< ba_base s1 + ba_real_count s1 * PAGE_SIZE}"
        "p + 4095 \<in> {ba_base s1 ..< ba_base s1 + ba_real_count s1 * PAGE_SIZE}" by blast+
      then show "0 < p" "p + 4096 \<le> 2 ^ 56"
        using d(4) alloc_geom [OF d(1) al] by (auto simp: heap_geom_def same_geom_def phys_ok_def)
    qed
    have hd: "hp_classes h1 ! i < USIZE_LIMIT"
    proof (cases "C1 i")
      case Nil
      then show ?thesis using d(6) [OF i] by simp
    next
      case (Cons q qs)
      then have "hp_classes h1 ! i = q" using d(6) [OF i] by simp
      then show ?thesis using page_facts(5) [OF s(2) slab_pagesI [of i q C1, OF i]] Cons by simp
    qed
    have lim: "p + 8192 \<le> USIZE_LIMIT" using pr by simp
    note fr = fresh_slab_ok [OF i pr(1) lim hd, where ?m0.0 = "pmem s1"]
    note ci = core_insert [OF s(2) i al fr(3,2,1)]
    let ?h2 = "h1\<lparr>hp_mm := s1\<lparr>pmem := ?m3\<rparr>, hp_page_class := (hp_page_class h1)(page_index h1 p := i)\<rparr>"
    have n: "new_slab h i = Some (p, ?h2)"
      using s(1) al class_ops(2) [of "h1\<lparr>hp_mm := s1\<lparr>pmem := ?m3\<rparr>\<rparr>" p i] ci(4-6)
      by (simp add: new_slab_def alloc_pages_def PAGE_SIZE_def Let_def page_index_def)
    have l: "link_slab ?h2 p i = h1\<lparr>hp_mm := s1\<lparr>pmem := ?m\<rparr>, hp_page_class := (hp_page_class h1)(page_index h1 p := i),
        hp_classes := (hp_classes h1)[i := p]\<rparr>"
      by (simp add: link_slab_def put_word_def Let_def)
    have b: "busy (C1(i := p # C1 i)) (F(p := slots i p)) = busy C F"
      using busy_insert [of i p C1 F, OF i ci(3)] busy_swept [OF s(3)] by (rule trans)
    have "undisturbed (X \<union> B) (busy C1 F) (heap_mem h) (heap_mem (link_slab ?h2 p i))"
      using kept_undisturbed [OF kept_trans [OF s(4) ci(2)], of F] unfolding l by (simp add: heap_mem_def)
    then have u: "undisturbed (X \<union> B) (busy C F) (heap_mem h) (heap_mem (link_slab ?h2 p i))"
      unfolding busy_swept [OF s(3)] .
    have "heap_core (link_slab ?h2 p i) X B (C1(i := p # C1 i)) (F(p := slots i p))" unfolding l by (rule ci(1))
    then show ?thesis by (rule some [OF n _ b u])
  qed
qed

lemma slab_alloc_ok:
  assumes c: "heap_core h X B C F" and i: "i < 8"
  obtains (none) h1 s1 where "sweep_empty_pages h = Some h1" "alloc_pages (hp_mm h1) 0 = Some (None, s1)"
      "slab_alloc h i = None" "\<forall>p\<in>set (C i). \<forall>x\<in>set (slots i p). (i, x) \<in> busy C F"
  | (some) x h' C' F' where "slab_alloc h i = Some (x, h')" "heap_core h' X B C' F'" "busy C' F' = insert (i, x) (busy C F)"
      "(i, x) \<notin> busy C F" "class_size i dvd x" "undisturbed (X \<union> B) (busy C F) (heap_mem h) (heap_mem h')"
proof -
  have pop: thesis
    if g: "heap_core g X B D G" "busy D G = busy C F" "undisturbed (X \<union> B) (busy C F) (heap_mem h) (heap_mem g)"
      and p: "p \<in> set (D i)" "G p \<noteq> []" and e: "slab_alloc h i = Some (slab_pop g p)" for g D G p
  proof -
    obtain x fs where f: "G p = x # fs" using p(2) by (cases "G p") auto
    obtain h' where h': "slab_pop g p = (x, h')" "heap_core h' X B D (G(p := fs))"
      "\<And>y. y < p + 8 \<or> p + 16 \<le> y \<Longrightarrow> heap_mem h' y = heap_mem g y"
      by (rule slab_pop_ok [OF g(1) i p(1) f]) (rule that; assumption)
    note b = busy_pop [of g X B D G, OF g(1) i p(1) f]
    have u: "undisturbed (X \<union> B) (busy D G) (heap_mem g) (heap_mem h')"
      by (rule header_undisturbed [OF g(1) slab_pagesI [of i p D, OF i p(1)]], rule h'(3)) auto
    show thesis
    proof (rule some [of x h' D "G(p := fs)"])
      show "class_size i dvd x" by (rule slot_aligned [OF i b(3) page_facts(1) [OF g(1) slab_pagesI [of i p D, OF i p(1)]]])
      show "undisturbed (X \<union> B) (busy C F) (heap_mem h) (heap_mem h')"
        by (rule undisturbed_trans [OF g(3)]) (use u g(2) in simp)
    qed (use e h' b(1,2) g(2) in simp_all)
  qed
  note d = heap_coreD [OF c]
  from slab_find_ok [OF d(6) [OF i]] consider
    (found) p where "p \<in> set (C i)" "slab_free_list (heap_mem h) p \<noteq> USIZE_MAX" "slab_find (heap_mem h) (hp_classes h ! i) = Some (Some p)"
  | (full) "slab_find (heap_mem h) (hp_classes h ! i) = Some None" "\<forall>p\<in>set (C i). slab_free_list (heap_mem h) p = USIZE_MAX"
    by blast
  then show thesis
  proof cases
    case found
    have "F p \<noteq> []" using d(9) [OF i found(1)] found(2) by (cases "F p") (auto simp: slab_ok_def)
    then show ?thesis
      by (rule pop [OF c refl undisturbed_refl found(1)]) (use found(3) in \<open>simp add: slab_alloc_def\<close>)
  next
    case full
    show ?thesis
    proof (cases rule: new_slab_ok [OF c i])
      case (1 h1 s1)
      have "\<forall>x\<in>set (slots i p). (i, x) \<in> busy C F" if p: "p \<in> set (C i)" for p
      proof -
        have "F p = []" using d(9) [OF i p] full(2) p llist_terminator by (auto simp: slab_ok_def)
        then show ?thesis using busyI [of i p C _ F, OF i p] by simp
      qed
      then show ?thesis using 1 full(1) by (intro none [OF 1(1,2)]) (simp_all add: slab_alloc_def)
    next
      case (2 p h2 C')
      have "slots i p \<noteq> []" using capacity_eq [OF i] length_slots [of i p] by (metis less_numeral_extra(3) list.size(3))
      moreover have "slab_alloc h i = Some (slab_pop (link_slab h2 p i) p)"
        using full(1) 2(1) by (simp add: slab_alloc_def link_slab_def Let_def)
      ultimately show ?thesis
        by (intro pop [OF 2(2-4), of p]) simp_all
    qed
  qed
qed

end
