(* ===== verification/Heap_Page.thy ===== *)
theory Heap_Page
  imports Heap_Grow
begin

text \<open>
  Large objects of the kernel heap: whole blocks of the page allocator, with the address of the block
  stored in front of the object.
\<close>

section \<open>Sizes\<close>

lemma page_order_ge: "n \<le> 2 ^ page_order n"
proof (cases "n \<le> 1")
  case False
  have "n - 1 < 2 ^ Suc (ilog2 (n - 1))" by (rule ilog2_less)
  then show ?thesis using False by (simp add: page_order_def)
qed (simp add: page_order_def)

lemma page_order_le: "n \<le> 2 ^ k \<Longrightarrow> page_order n \<le> k"
proof (cases "n \<le> 1")
  case False
  assume "n \<le> 2 ^ k"
  then have "2 ^ ilog2 (n - 1) < (2::nat) ^ k" using ilog2_le [of "n - 1"] False by linarith
  then have "ilog2 (n - 1) < k" using power_less_imp_less_exp by fastforce
  then show ?thesis using False by (simp add: page_order_def)
qed (simp add: page_order_def)

lemma page_order_bytes: "n \<le> 4096 * 2 ^ page_order (div_ceil n 4096)"
proof -
  have "n \<le> div_ceil n 4096 * 4096" by (rule div_ceil_mult_ge) simp
  also have "\<dots> \<le> 4096 * 2 ^ page_order (div_ceil n 4096)" using page_order_ge [of "div_ceil n 4096"] by simp
  finally show ?thesis .
qed

lemma page_order_fits: "n \<le> 4096 * 2 ^ k \<Longrightarrow> page_order (div_ceil n 4096) \<le> k"
  by (intro page_order_le div_ceil_least) (simp_all add: mult.commute)

lemma div_ceil_mult_less: "0 < b \<Longrightarrow> div_ceil a b * b < a + b"
  unfolding div_ceil_def using div_times_less_eq_dividend [of "a + b - 1" b] by linarith

section \<open>Blocks\<close>

text \<open>A change of the page allocator that keeps the slab pages.\<close>

lemma core_mm:
  assumes c: "heap_core h X B C F" and i: "buddy_inv s (X \<union> B' \<union> slab_blocks C)" and "X \<inter> B' = {}" "B' \<inter> slab_blocks C = {}"
    and g: "same_geom (hp_mm h) s" and m: "\<And>p x. p \<in> slab_pages C \<Longrightarrow> p \<le> x \<Longrightarrow> x < p + 4096 \<Longrightarrow> pmem s x = heap_mem h x"
  shows "heap_core (h\<lparr>hp_mm := s\<rparr>) X B' C F"
proof (rule heap_coreI)
  note d = heap_coreD [OF c]
  let ?h = "h\<lparr>hp_mm := s\<rparr>"
  have hm: "heap_mem ?h = pmem s" and pi: "page_index ?h = page_index h"
    by (simp_all add: heap_mem_def page_index_def fun_eq_iff)
  show "buddy_inv (hp_mm ?h) (X \<union> B' \<union> slab_blocks C)" using i by simp
  show "(X \<union> B') \<inter> slab_blocks C = {}" using d(3) assms(4) by blast
  show "heap_geom ?h" using d(4) g by (simp add: heap_geom_def phys_ok_def same_geom_def)
  show "length (hp_classes ?h) = 8" using d(5) by simp
  have n: "slot_next (pmem s) p = slot_next (heap_mem h) p" if "p \<in> slab_pages C" for p
    by (rule slot_next_cong, rule m [OF that]) auto
  show "llist (heap_mem ?h) 0 (hp_classes ?h ! j) (C j)" if "j < 8" for j
    using d(6) [OF that] llist_cong [of "C j" "pmem s" "heap_mem h"] n slab_pagesI [of j _ C, OF that] by (simp add: hm)
  show "slab_ok (heap_mem ?h) j p (F p)" if j: "j < 8" "p \<in> set (C j)" for j p
  proof -
    have "slab_ok (pmem s) j p (F p) = slab_ok (heap_mem h) j p (F p)"
      by (rule slab_ok_cong [OF j(1)], rule m [OF slab_pagesI [of j p C, OF j]]) auto
    then show ?thesis using d(9) [OF j] by (simp add: hm)
  qed
  show "hp_page_class ?h (page_index ?h p) = j" if "j < 8" "p \<in> set (C j)" for j p
    using d(10) [OF that] by (simp add: pi)
  show "\<exists>p\<in>slab_pages C. j = page_index ?h p" if "hp_page_class ?h j \<noteq> NOT_SLAB" for j
    using d(11) [of j] that by (simp add: pi)
  show "distinct (C j)" if "j < 8" for j by (rule d(7) [OF that])
  show "set (C j) \<inter> set (C k) = {}" if "j < 8" "k < 8" "j \<noteq> k" for j k by (rule d(8) [OF that])
qed (rule assms(3))

lemma blocks_undisturbed:
  assumes "\<And>b x. b \<in> Y \<union> slab_blocks C \<Longrightarrow> x \<in> region b \<Longrightarrow> m' x = m x"
  shows "undisturbed Y (busy C F) m m'"
proof (rule kept_undisturbed)
  have "m' x = m x" if "p \<in> slab_pages C" "p + 8 \<le> x" "x < p + 4096" for p x
    by (rule assms [of "(p, 0)"]) (use that in \<open>auto simp: slab_blocks_def\<close>)
  then show "kept Y C m m'" using assms unfolding kept_def by blast
qed

lemma core_alloc_block:
  assumes c: "heap_core h X B C F" and k: "k \<le> 12" and a: "alloc (hp_mm h) k = Some (Some b, s1)"
    and m: "\<And>x. x \<notin> region (b, k) \<Longrightarrow> m x = pmem s1 x"
  shows "heap_core (h\<lparr>hp_mm := s1\<lparr>pmem := m\<rparr>\<rparr>) X (insert (b, k) B) C F"
    "undisturbed (X \<union> B) (busy C F) (heap_mem h) m" "(b, k) \<notin> X \<union> B \<union> slab_blocks C"
proof -
  note d = heap_coreD [OF c]
  note f = buddy.alloc_fill [OF d(1) k a m]
  have keep: "m x = heap_mem h x" if "b' \<in> X \<union> B \<union> slab_blocks C" "x \<in> region b'" for b' x
    using f(2) [OF _ that] by (simp add: heap_mem_def)
  show new: "(b, k) \<notin> X \<union> B \<union> slab_blocks C" using buddy.alloc_ok [OF d(1) k] a by auto
  show "undisturbed (X \<union> B) (busy C F) (heap_mem h) m" by (rule blocks_undisturbed) (rule keep; blast)
  show "heap_core (h\<lparr>hp_mm := s1\<lparr>pmem := m\<rparr>\<rparr>) X (insert (b, k) B) C F"
  proof (rule core_mm [OF c])
    show "buddy_inv (s1\<lparr>pmem := m\<rparr>) (X \<union> insert (b, k) B \<union> slab_blocks C)" using f(1) by simp
    show "X \<inter> insert (b, k) B = {}" "insert (b, k) B \<inter> slab_blocks C = {}" using d(2,3) new by auto
    show "same_geom (hp_mm h) (s1\<lparr>pmem := m\<rparr>)" using alloc_geom [OF d(1) a] by (simp add: same_geom_def)
    show "pmem (s1\<lparr>pmem := m\<rparr>) x = heap_mem h x" if "p \<in> slab_pages C" "p \<le> x" "x < p + 4096" for p x
      using keep [of "(p, 0)" x] that by (auto simp: slab_blocks_def)
  qed
qed

lemma core_free_block:
  assumes c: "heap_core h X B C F" and b: "(b, k) \<in> B"
  obtains s' where "free (hp_mm h) b = Some (Ok (), s')" "heap_core (h\<lparr>hp_mm := s'\<rparr>) X (B - {(b, k)}) C F"
    "undisturbed (X \<union> (B - {(b, k)})) (busy C F) (heap_mem h) (pmem s')"
proof -
  note d = heap_coreD [OF c]
  let ?A = "X \<union> B \<union> slab_blocks C"
  have bA: "(b, k) \<in> ?A" using b by blast
  obtain s' where s': "free (hp_mm h) b = Some (Ok (), s')" "buddy_inv s' (?A - {(b, k)})"
    "\<forall>c\<in>?A - {(b, k)}. \<forall>x\<in>region c. pmem s' x = pmem (hp_mm h) x"
    using buddy.free_ok [OF d(1) bA] by blast
  have eq: "?A - {(b, k)} = X \<union> (B - {(b, k)}) \<union> slab_blocks C" using d(2,3) b by blast
  have keep: "pmem s' x = heap_mem h x" if "b' \<in> X \<union> (B - {(b, k)}) \<union> slab_blocks C" "x \<in> region b'" for b' x
    using s'(3) that unfolding eq heap_mem_def by blast
  have "heap_core (h\<lparr>hp_mm := s'\<rparr>) X (B - {(b, k)}) C F"
  proof (rule core_mm [OF c])
    show "buddy_inv s' (X \<union> (B - {(b, k)}) \<union> slab_blocks C)" using s'(2) unfolding eq .
    show "X \<inter> (B - {(b, k)}) = {}" "(B - {(b, k)}) \<inter> slab_blocks C = {}" using d(2,3) by auto
    show "same_geom (hp_mm h) s'" by (rule free_geom [OF d(1) bA s'(1)])
    show "pmem s' x = heap_mem h x" if "p \<in> slab_pages C" "p \<le> x" "x < p + 4096" for p x
      using keep [of "(p, 0)" x] that by (auto simp: slab_blocks_def)
  qed
  moreover have "undisturbed (X \<union> (B - {(b, k)})) (busy C F) (heap_mem h) (pmem s')"
    by (rule blocks_undisturbed) (rule keep; blast)
  ultimately show thesis using s'(1) by (intro that)
qed

section \<open>Allocating a large object\<close>

definition page_bytes :: "usize \<Rightarrow> usize \<Rightarrow> nat" where
  "page_bytes sz al = sz + 8 + (al - 1)"

lemma page_alloc_ok:
  assumes c: "heap_core h X B C F" and al: "0 < al" and sz: "0 < sz"
  defines "k \<equiv> page_order (div_ceil (page_bytes sz al) 4096)"
  obtains (none) "page_alloc h sz al = None" "4096 * 2 ^ 12 < page_bytes sz al \<or> (\<exists>s1. alloc_pages (hp_mm h) k = Some (None, s1))"
  | (some) x h' b where "page_alloc h sz al = Some (x, h')" "heap_core h' X (insert (b, k) B) C F" "(b, k) \<notin> X \<union> B \<union> slab_blocks C"
      "al dvd x" "b + 8 \<le> x" "x + sz \<le> b + 4096 * 2 ^ k" "slot_next (heap_mem h') (x - 8) = b"
      "undisturbed (X \<union> B) (busy C F) (heap_mem h) (heap_mem h')"
proof -
  note d = heap_coreD [OF c]
  let ?n = "page_bytes sz al"
  have nk: "?n \<le> 4096 * 2 ^ k" unfolding k_def by (rule page_order_bytes)
  show thesis
  proof (cases "k \<le> 12")
    case False
    then have "4096 * 2 ^ 12 < ?n" using page_order_fits [of ?n 12] unfolding k_def by linarith
    moreover have "page_alloc h sz al = None"
      using False al unfolding k_def page_bytes_def
      by (auto simp: page_alloc_def uadd_def usub_def PAGE_SIZE_def Let_def)
    ultimately show ?thesis by (intro none) auto
  next
    case True
    have "(2::nat) ^ k \<le> 2 ^ 12" using True by (rule power_increasing) simp
    then have nl: "?n < USIZE_LIMIT" using nk by simp
    have pre: "page_alloc h sz al = do {
        (b, s1) \<leftarrow> alloc_pages (hp_mm h) k;
        (case b of
          None \<Rightarrow> None
        | Some block \<Rightarrow> do {
            x \<leftarrow> uadd block 8;
            aligned \<leftarrow> umul (div_ceil x al) al;
            r \<leftarrow> usub aligned 8;
            Some (aligned, put_word (h\<lparr>hp_mm := s1\<rparr>) r block) }) }"
      using True al nl unfolding k_def page_bytes_def
      by (simp add: page_alloc_def uadd_def usub_def PAGE_SIZE_def Let_def)
    obtain r s1 where a: "alloc (hp_mm h) k = Some (r, s1)" using buddy.alloc_ok [OF d(1) True] by auto
    show ?thesis
    proof (cases r)
      case None
      then show ?thesis using a True by (intro none) (simp_all add: pre alloc_pages_def)
    next
      case (Some b)
      have al': "alloc (hp_mm h) k = Some (Some b, s1)" using a Some by simp
      define x where "x = div_ceil (b + 8) al * al"
      let ?m = "store64 (pmem s1) (x - 8) (of_nat b)"
      have xb: "b + 8 \<le> x" unfolding x_def by (rule div_ceil_mult_ge [OF al])
      have xe: "x + sz \<le> b + 4096 * 2 ^ k"
        using div_ceil_mult_less [OF al, of "b + 8"] nk unfolding x_def [symmetric] page_bytes_def by linarith
      have m: "?m y = pmem s1 y" if "y \<notin> region (b, k)" for y
        by (rule store64_other) (use that xb xe sz in auto)
      note core = core_alloc_block [OF c True al' m]
      have "(b, k) \<in> X \<union> insert (b, k) B \<union> slab_blocks C" by simp
      note bf = block_facts [OF core(1) this]
      have lim: "b + 4096 * 2 ^ k \<le> 2 ^ 56" using bf(3,4) by linarith
      have ops: "uadd b 8 = Some (b + 8)" "umul (div_ceil (b + 8) al) al = Some x" "usub x 8 = Some (x - 8)"
        using xb xe lim unfolding x_def [symmetric] by (auto simp: uadd_def umul_def usub_def x_def [symmetric])
      have e: "page_alloc h sz al = Some (x, h\<lparr>hp_mm := s1\<lparr>pmem := ?m\<rparr>\<rparr>)"
        using True al' ops unfolding pre by (simp add: alloc_pages_def put_word_def)
      have "b < USIZE_LIMIT" using lim by simp
      then have "slot_next ?m (x - 8) = b" by (rule slot_next_store)
      then show ?thesis
        by (intro some [OF e core(1,3) _ xb xe]) (use core(2) in \<open>simp_all add: heap_mem_def x_def\<close>)
    qed
  qed
qed

end
