(* ===== verification/Object_Spec.thy ===== *)
theory Object_Spec
  imports Prelude
begin

text \<open>
  The contract of an object allocator: \<open>inv s L\<close> says that the objects handed out and not yet returned
  are those of \<open>L\<close>, a map from addresses to sizes. A client may write to its own objects.
\<close>

definition extent :: "nat \<Rightarrow> nat \<Rightarrow> nat set" where
  "extent x n = {x ..< x + n}"

locale object_allocator =
  fixes alloc :: "'s \<Rightarrow> nat \<Rightarrow> nat \<Rightarrow> (nat \<times> 's) outcome"
    and dealloc :: "'s \<Rightarrow> nat \<Rightarrow> nat \<Rightarrow> 's outcome"
    and inv :: "'s \<Rightarrow> (nat \<Rightarrow> nat option) \<Rightarrow> bool"
    and contents :: "'s \<Rightarrow> mem"
    and store :: "mem \<Rightarrow> 's \<Rightarrow> 's"
  assumes alloc_ok:
      "inv s L \<Longrightarrow> 0 < sz \<Longrightarrow> al = 2 ^ a \<Longrightarrow> alloc s sz al = Some (x, s') \<Longrightarrow>
       inv s' (L(x \<mapsto> sz)) \<and> L x = None \<and> al dvd x \<and>
       (\<forall>y n. L y = Some n \<longrightarrow> (\<forall>z\<in>extent y n. contents s' z = contents s z))"
    and dealloc_ok:
      "inv s L \<Longrightarrow> L x = Some sz \<Longrightarrow>
       \<exists>s'. dealloc s x sz = Some s' \<and> inv s' (L(x := None)) \<and>
         (\<forall>y n. y \<noteq> x \<longrightarrow> L y = Some n \<longrightarrow> (\<forall>z\<in>extent y n. contents s' z = contents s z))"
    and inv_disjoint:
      "inv s L \<Longrightarrow> L x = Some n \<Longrightarrow> L y = Some k \<Longrightarrow> x \<noteq> y \<Longrightarrow> extent x n \<inter> extent y k = {}"
    and inv_store:
      "inv s L \<Longrightarrow> L x = Some n \<Longrightarrow> (\<And>z. z \<notin> extent x n \<Longrightarrow> m z = contents s z) \<Longrightarrow> inv (store m s) L"
    and contents_store: "contents (store m s) = m"
begin

text \<open>A fresh object is apart from every other one.\<close>

lemma alloc_apart:
  assumes i: "inv s L" and p: "0 < sz" "al = 2 ^ a" and a: "alloc s sz al = Some (x, s')" and y: "L y = Some n"
  shows "extent x sz \<inter> extent y n = {}"
proof -
  note f = alloc_ok [OF i p a]
  then have "x \<noteq> y" using y by auto
  then show ?thesis using inv_disjoint [of s' "L(x \<mapsto> sz)" x sz y n] f y by simp
qed

text \<open>
  Allocate, fill the new object, return it: the objects of others are as before, and so is the set of
  objects.
\<close>

lemma alloc_fill_dealloc:
  assumes i: "inv s L" and p: "0 < sz" "al = 2 ^ a" and a: "alloc s sz al = Some (x, s')"
    and m: "\<And>z. z \<notin> extent x sz \<Longrightarrow> m z = contents s' z"
  shows "\<exists>s''. dealloc (store m s') x sz = Some s'' \<and> inv s'' L \<and>
    (\<forall>y n. L y = Some n \<longrightarrow> (\<forall>z\<in>extent y n. contents s'' z = contents s z))"
proof -
  note f = alloc_ok [OF i p a]
  have "inv (store m s') (L(x \<mapsto> sz))" by (rule inv_store [of s' "L(x \<mapsto> sz)" x sz]) (use f m in simp_all)
  then obtain s'' where s'': "dealloc (store m s') x sz = Some s''" "inv s'' ((L(x \<mapsto> sz))(x := None))"
    "\<forall>y n. y \<noteq> x \<longrightarrow> (L(x \<mapsto> sz)) y = Some n \<longrightarrow> (\<forall>z\<in>extent y n. contents s'' z = contents (store m s') z)"
    using dealloc_ok [of "store m s'" "L(x \<mapsto> sz)" x sz] by auto
  have L: "(L(x \<mapsto> sz))(x := None) = L" using f by auto
  have "contents s'' z = contents s z" if y: "L y = Some n" "z \<in> extent y n" for y n z
  proof -
    have ne: "y \<noteq> x" using y f by auto
    then have "contents s'' z = m z" using s''(3) y contents_store by simp
    also have "\<dots> = contents s' z" using alloc_apart [OF i p a y(1)] y(2) by (intro m) blast
    also have "\<dots> = contents s z" using f y by blast
    finally show ?thesis .
  qed
  then show ?thesis using s''(1,2) unfolding L by blast
qed

end

end
