(* ===== verification/Heap_Objects.thy ===== *)
theory Heap_Objects
  imports Heap_Page Object_Spec
begin

text \<open>
  The objects of the kernel heap. An object is a slot in use or lies in a block of its own; the map
  \<open>L\<close> has the blocks of the large objects.
\<close>

section \<open>Objects\<close>

definition objs ::
  "mem \<Rightarrow> (nat \<Rightarrow> usize list) \<Rightarrow> (usize \<Rightarrow> usize list) \<Rightarrow> (usize \<Rightarrow> (nat \<times> nat) option) \<Rightarrow> (usize \<Rightarrow> usize option) \<Rightarrow> bool" where
  "objs m C F L live \<longleftrightarrow>
     (\<forall>x sz. live x = Some sz \<longrightarrow> 0 < sz \<and>
        (case L x of Some (b, k) \<Rightarrow> x + sz \<le> b + 4096 * 2 ^ k | None \<Rightarrow> \<exists>j. (j, x) \<in> busy C F \<and> sz \<le> class_size j)) \<and>
     (\<forall>x b k. L x = Some (b, k) \<longrightarrow> x \<in> dom live \<and> b + 8 \<le> x \<and> slot_next m (x - 8) = b) \<and>
     inj_on L (dom L) \<and> (\<forall>(j, x)\<in>busy C F. x \<in> dom live)"

definition heap_inv :: "heap \<Rightarrow> (nat \<times> nat) set \<Rightarrow> (usize \<Rightarrow> usize option) \<Rightarrow> bool" where
  "heap_inv h X live \<longleftrightarrow> (\<exists>C F L. heap_core h X (ran L) C F \<and> objs (heap_mem h) C F L live)"

lemma objsD:
  assumes "objs m C F L live"
  shows "\<And>x sz. live x = Some sz \<Longrightarrow> 0 < sz"
    "\<And>x sz b k. live x = Some sz \<Longrightarrow> L x = Some (b, k) \<Longrightarrow> x + sz \<le> b + 4096 * 2 ^ k"
    "\<And>x sz. live x = Some sz \<Longrightarrow> L x = None \<Longrightarrow> \<exists>j. (j, x) \<in> busy C F \<and> sz \<le> class_size j"
    "\<And>x b k. L x = Some (b, k) \<Longrightarrow> x \<in> dom live" "\<And>x b k. L x = Some (b, k) \<Longrightarrow> b + 8 \<le> x"
    "\<And>x b k. L x = Some (b, k) \<Longrightarrow> slot_next m (x - 8) = b"
    "inj_on L (dom L)" "\<And>j x. (j, x) \<in> busy C F \<Longrightarrow> x \<in> dom live"
  using assms unfolding objs_def by fastforce+

lemma obj_cases:
  assumes "objs m C F L live" "live x = Some sz"
  obtains (large) b k where "L x = Some (b, k)" "b + 8 \<le> x" "x + sz \<le> b + 4096 * 2 ^ k" "(b, k) \<in> ran L"
  | (slot) j p where "L x = None" "j < 8" "p \<in> set (C j)" "x \<in> set (slots j p)" "x \<notin> set (F p)" "sz \<le> class_size j"
      "(j, x) \<in> busy C F"
proof (cases "L x")
  case None
  then obtain j where j: "(j, x) \<in> busy C F" "sz \<le> class_size j" using objsD(3) [OF assms] by blast
  from j(1) obtain p where "j < 8" "p \<in> set (C j)" "x \<in> set (slots j p)" "x \<notin> set (F p)" by (rule busyE)
  then show thesis using slot None j by blast
next
  case (Some bk)
  then show thesis
    using large [of "fst bk" "snd bk"] objsD(2) [OF assms, of "fst bk" "snd bk"] objsD(5) [OF assms(1), of x "fst bk" "snd bk"] ranI
    by fastforce
qed

text \<open>The block that holds an object.\<close>

definition home :: "(usize \<Rightarrow> (nat \<times> nat) option) \<Rightarrow> usize \<Rightarrow> nat \<times> nat" where
  "home L x = (case L x of Some b \<Rightarrow> b | None \<Rightarrow> (x div 4096 * 4096, 0))"

lemma obj_home:
  assumes c: "heap_core h X B C F" and o: "objs m C F L live" "live x = Some sz"
  shows "home L x \<in> ran L \<union> slab_blocks C" "extent x sz \<subseteq> region (home L x)" "x \<in> extent x sz"
    "L x = None \<Longrightarrow> home L x \<in> slab_blocks C" "L x \<noteq> None \<Longrightarrow> L x = Some (home L x)"
proof -
  show "x \<in> extent x sz" using objsD(1) [OF o] by (simp add: extent_def)
  have "home L x \<in> ran L \<union> slab_blocks C \<and> extent x sz \<subseteq> region (home L x) \<and> (L x = None \<longrightarrow> home L x \<in> slab_blocks C)"
  proof (cases rule: obj_cases [OF o])
    case (1 b k)
    then show ?thesis by (auto simp: extent_def home_def)
  next
    case (2 j p)
    have p: "p \<in> slab_pages C" by (rule slab_pagesI [of j p C, OF 2(2,3)])
    then have "home L x = (p, 0)" using slot_offset(1) [OF 2(2,4) page_facts(1) [OF c]] 2(1) by (simp add: home_def)
    then show ?thesis using slot_bounds [OF 2(2,4)] 2(6) p by (auto simp: extent_def slab_blocks_def)
  qed
  then show "home L x \<in> ran L \<union> slab_blocks C" "extent x sz \<subseteq> region (home L x)" "L x = None \<Longrightarrow> home L x \<in> slab_blocks C"
    by blast+
  show "L x = Some (home L x)" if "L x \<noteq> None" using that by (auto simp: home_def)
qed

lemma objs_disjoint:
  assumes c: "heap_core h X (ran L) C F" and o: "objs m C F L live"
    and x: "live x = Some n" and y: "live y = Some k" and ne: "x \<noteq> y"
  shows "extent x n \<inter> extent y k = {}"
proof (cases "home L x = home L y")
  case False
  have "region (home L x) \<inter> region (home L y) = {}"
    by (rule heap_apart [OF c _ _ False]) (use obj_home(1) [OF c o x] obj_home(1) [OF c o y] in blast)+
  then show ?thesis using obj_home(2) [OF c o x] obj_home(2) [OF c o y] by blast
next
  case True
  have "L x = None" "L y = None"
  proof -
    have *: "ran L \<inter> slab_blocks C = {}" using heap_coreD(3) [OF c] by blast
    have "\<not> (L x \<noteq> None \<and> L y \<noteq> None)"
      using obj_home(5) [OF c o x] obj_home(5) [OF c o y] True objsD(7) [OF o] ne
      by (metis domIff inj_onD)
    moreover have "L x = None \<longleftrightarrow> L y = None"
      using obj_home(4,5) [OF c o x] obj_home(4,5) [OF c o y] True * ranI [of L] by (metis disjoint_iff)
    ultimately show "L x = None" "L y = None" by blast+
  qed
  note n = this
  from o x obtain i p where p: "i < 8" "p \<in> set (C i)" "x \<in> set (slots i p)" "n \<le> class_size i"
    by (rule obj_cases) (use n in auto)
  from o y obtain j q where q: "j < 8" "q \<in> set (C j)" "y \<in> set (slots j q)" "k \<le> class_size j"
    by (rule obj_cases) (use n in auto)
  have "p = q"
    using True n slot_offset(1) [OF p(1,3) page_facts(1) [OF c slab_pagesI [of i p C, OF p(1,2)]]]
      slot_offset(1) [OF q(1,3) page_facts(1) [OF c slab_pagesI [of j q C, OF q(1,2)]]] by (simp add: home_def)
  moreover from this have "i = j" using heap_coreD(8) [OF c p(1) q(1)] p(2) q(2) by blast
  ultimately have "x + class_size i \<le> y \<or> y + class_size j \<le> x" using slots_apart [OF p(1,3), of y] q(3) ne by blast
  then show ?thesis using p(4) q(4) by (auto simp: extent_def)
qed

text \<open>Every object is apart from the blocks of other clients, and kept where nothing is disturbed.\<close>

lemma objs_apart:
  assumes c: "heap_core h X (ran L) C F" and o: "objs m C F L live" "live x = Some n" and b: "b \<in> X"
  shows "extent x n \<inter> region b = {}"
proof -
  have "home L x \<noteq> b" using obj_home(1) [OF c o] heap_coreD(2,3) [OF c] b by blast
  then have "region (home L x) \<inter> region b = {}" by (intro heap_apart [OF c]) (use obj_home(1) [OF c o] b in blast)+
  then show ?thesis using obj_home(2) [OF c o] by blast
qed

lemma undisturbed_obj:
  assumes u: "undisturbed (X \<union> ran L) (busy C F) m m'" and o: "objs m0 C F L live" "live x = Some n" and z: "z \<in> extent x n"
  shows "m' z = m z"
proof (cases rule: obj_cases [OF o])
  case (1 b k)
  then have "z \<in> region (b, k)" using z by (auto simp: extent_def)
  then show ?thesis using u 1(4) unfolding undisturbed_def by blast
next
  case (2 j p)
  then have "z \<in> {x..<x + class_size j}" using z by (auto simp: extent_def)
  then show ?thesis using u 2(7) unfolding undisturbed_def by fastforce
qed

text \<open>The block addresses in front of large objects are kept as well.\<close>

lemma undisturbed_header:
  assumes u: "undisturbed Y S m m'" and o: "objs m C F L live" "L x = Some (b, k)" and Y: "(b, k) \<in> Y"
  shows "slot_next m' (x - 8) = b"
proof -
  obtain sz where sz: "live x = Some sz" using objsD(4) [OF o] by blast
  have "b + 8 \<le> x" "x + sz \<le> b + 4096 * 2 ^ k" using objsD(5) [OF o] objsD(2) [OF o(1) sz o(2)] .
  then have "slot_next m' (x - 8) = slot_next m (x - 8)"
    using u Y unfolding undisturbed_def by (intro slot_next_cong) auto
  then show ?thesis using objsD(6) [OF o] by simp
qed

section \<open>Changes of the set of objects\<close>

lemma objsI:
  assumes "\<And>x sz. live x = Some sz \<Longrightarrow> 0 < sz"
    "\<And>x sz b k. live x = Some sz \<Longrightarrow> L x = Some (b, k) \<Longrightarrow> x + sz \<le> b + 4096 * 2 ^ k"
    "\<And>x sz. live x = Some sz \<Longrightarrow> L x = None \<Longrightarrow> \<exists>j. (j, x) \<in> busy C F \<and> sz \<le> class_size j"
    "\<And>x b k. L x = Some (b, k) \<Longrightarrow> x \<in> dom live" "\<And>x b k. L x = Some (b, k) \<Longrightarrow> b + 8 \<le> x"
    "\<And>x b k. L x = Some (b, k) \<Longrightarrow> slot_next m (x - 8) = b"
    "inj_on L (dom L)" "\<And>j x. (j, x) \<in> busy C F \<Longrightarrow> x \<in> dom live"
  shows "objs m C F L live"
  unfolding objs_def
proof (intro conjI allI impI ballI)
  show "case L x of Some (b, k) \<Rightarrow> x + sz \<le> b + 4096 * 2 ^ k | None \<Rightarrow> \<exists>j. (j, x) \<in> busy C F \<and> sz \<le> class_size j"
    if "live x = Some sz" for x sz
    using assms(2,3) [OF that] by (cases "L x") auto
  show "case z of (j, x) \<Rightarrow> x \<in> dom live" if "z \<in> busy C F" for z using assms(8) that by (cases z) simp
qed (rule assms; assumption)+

text \<open>An address in a block of a large object is not a slot.\<close>

lemma large_not_busy:
  assumes c: "heap_core h X B C F" and b: "(b, k) \<in> X \<union> B" "x \<in> region (b, k)"
  shows "(j, x) \<notin> busy C F"
proof
  assume "(j, x) \<in> busy C F"
  then obtain p where p: "j < 8" "p \<in> set (C j)" "x \<in> set (slots j p)" by (rule busyE)
  have pb: "(p, 0) \<in> slab_blocks C" using slab_pagesI [of j p C, OF p(1,2)] by (simp add: slab_blocks_def)
  have "(b, k) \<noteq> (p, 0)" using heap_coreD(3) [OF c] b(1) pb by blast
  then have "region (b, k) \<inter> region (p, 0) = {}" using heap_apart [OF c] b(1) pb by blast
  moreover have "x \<in> region (p, 0)" using slot_bounds [OF p(1,3)] class_size_bounds [OF p(1)] by auto
  ultimately show False using b(2) by blast
qed

lemma objs_add_slot:
  assumes o: "objs (heap_mem h) C F L live" and c': "heap_core h' X (ran L) C' F'"
    and b: "busy C' F' = insert (i, x) (busy C F)" "(i, x) \<notin> busy C F"
    and u: "undisturbed (X \<union> ran L) (busy C F) (heap_mem h) (heap_mem h')" and sz: "0 < sz" "sz \<le> class_size i"
  shows "live x = None" "objs (heap_mem h') C' F' L (live(x \<mapsto> sz))"
proof -
  have bx: "(i, x) \<in> busy C' F'" using b(1) by simp
  have nL: "L x = None"
  proof (cases "L x")
    case (Some bk)
    obtain a k where bk: "bk = (a, k)" by (cases bk)
    obtain n where n: "live x = Some n" using objsD(4) [OF o] Some bk by blast
    have "x \<in> region (a, k)" using objsD(1) [OF o n] objsD(2,5) [OF o] n Some bk by fastforce
    moreover have "(a, k) \<in> ran L" using Some bk by (auto intro: ranI)
    ultimately show ?thesis using large_not_busy [OF c', of a k x i] bx by blast
  qed
  show live: "live x = None"
  proof (cases "live x")
    case (Some n)
    obtain j where j: "(j, x) \<in> busy C F" using objsD(3) [OF o Some nL] by blast
    then have "(j, x) \<in> busy C' F'" using b(1) by blast
    with bx obtain p q where "i < 8" "p \<in> set (C' i)" "x \<in> set (slots i p)" "j < 8" "q \<in> set (C' j)" "x \<in> set (slots j q)"
      by (metis busyE)
    then have "i = j" using slot_page_unique(2) [OF c'] by blast
    then show ?thesis using j b(2) by blast
  qed
  show "objs (heap_mem h') C' F' L (live(x \<mapsto> sz))"
  proof (rule objsI)
    fix y n assume y: "(live(x \<mapsto> sz)) y = Some n"
    show "0 < n" using y sz(1) objsD(1) [OF o] by (auto split: if_splits)
    show "y + n \<le> b + 4096 * 2 ^ k" if "L y = Some (b, k)" for b k
      using y nL that objsD(2) [OF o _ that] by (auto split: if_splits)
    show "\<exists>j. (j, y) \<in> busy C' F' \<and> n \<le> class_size j" if "L y = None"
      using y sz(2) b(1) objsD(3) [OF o _ that] by (auto split: if_splits)
  next
    fix y a k assume y: "L y = Some (a, k)"
    show "y \<in> dom (live(x \<mapsto> sz))" using objsD(4) [OF o y] by auto
    show "a + 8 \<le> y" by (rule objsD(5) [OF o y])
    show "slot_next (heap_mem h') (y - 8) = a"
      by (rule undisturbed_header [OF u o y]) (use y in \<open>auto intro: ranI\<close>)
  next
    show "y \<in> dom (live(x \<mapsto> sz))" if "(j, y) \<in> busy C' F'" for j y using that b(1) objsD(8) [OF o] by auto
  qed (rule objsD(7) [OF o])
qed

lemma objs_add_block:
  assumes o: "objs (heap_mem h) C F L live" and c: "heap_core h X (ran L) C F" and c': "heap_core h' X (insert (a, k) (ran L)) C F"
    and n: "(a, k) \<notin> X \<union> ran L \<union> slab_blocks C" and x: "a + 8 \<le> x" "x + sz \<le> a + 4096 * 2 ^ k" "slot_next (heap_mem h') (x - 8) = a"
    and u: "undisturbed (X \<union> ran L) (busy C F) (heap_mem h) (heap_mem h')" and sz: "0 < sz"
  shows "live x = None" "ran (L(x \<mapsto> (a, k))) = insert (a, k) (ran L)" "objs (heap_mem h') C F (L(x \<mapsto> (a, k))) (live(x \<mapsto> sz))"
proof -
  let ?L = "L(x \<mapsto> (a, k))"
  have xr: "x \<in> region (a, k)" using x sz by auto
  show live: "live x = None"
  proof (cases "live x")
    case (Some m)
    note hm = obj_home [OF c o Some]
    have "region (home L x) \<inter> region (a, k) = {}"
      by (rule heap_apart [OF c']) (use hm(1) n in auto)
    then show ?thesis using hm(2,3) xr by blast
  qed
  then have nL: "L x = None" using objsD(4) [OF o] by (cases "L x") fastforce+
  show "ran ?L = insert (a, k) (ran L)" using nL by (rule ran_map_upd)
  show "objs (heap_mem h') C F ?L (live(x \<mapsto> sz))"
  proof (rule objsI)
    fix y m assume y: "(live(x \<mapsto> sz)) y = Some m"
    show "0 < m" using y sz objsD(1) [OF o] by (auto split: if_splits)
    show "y + m \<le> b + 4096 * 2 ^ l" if "?L y = Some (b, l)" for b l
      using y that x(2) objsD(2) [OF o, of y m b l] by (auto split: if_splits)
    show "\<exists>j. (j, y) \<in> busy C F \<and> m \<le> class_size j" if "?L y = None"
      using y that objsD(3) [OF o, of y m] by (auto split: if_splits)
  next
    fix y b l assume y: "?L y = Some (b, l)"
    show "y \<in> dom (live(x \<mapsto> sz))" using y objsD(4) [OF o, of y b l] by (auto split: if_splits)
    show "b + 8 \<le> y" using y x(1) objsD(5) [OF o, of y b l] by (auto split: if_splits)
    show "slot_next (heap_mem h') (y - 8) = b"
    proof (cases "y = x")
      case False
      then have "L y = Some (b, l)" using y by simp
      then show ?thesis by (intro undisturbed_header [OF u o]) (auto intro: ranI)
    qed (use y x(3) in simp)
  next
    have "inj_on L (dom L)" "(a, k) \<notin> ran L" using objsD(7) [OF o] n by blast+
    then show "inj_on ?L (dom ?L)" by (auto simp: inj_on_def ran_def)
    show "y \<in> dom (live(x \<mapsto> sz))" if "(j, y) \<in> busy C F" for j y using objsD(8) [OF o that] by auto
  qed
qed

lemma objs_remove_slot:
  assumes c: "heap_core h X (ran L) C F" and o: "objs (heap_mem h) C F L live" and l: "L x = None"
    and b: "busy C' F' = busy C F - {(i, x)}" "(i, x) \<in> busy C F"
    and m: "\<And>y a k. L y = Some (a, k) \<Longrightarrow> slot_next m (y - 8) = a"
  shows "objs m C' F' L (live(x := None))"
proof -
  have u: "j = i" if "(j, x) \<in> busy C F" for j
    by (rule busyE [OF that], rule busyE [OF b(2)]) (rule slot_page_unique(2) [OF c]; assumption)
  show ?thesis
  proof (rule objsI)
    fix y n assume y: "(live(x := None)) y = Some n"
    show "0 < n" using y objsD(1) [OF o] by (auto split: if_splits)
    show "y + n \<le> b + 4096 * 2 ^ k" if "L y = Some (b, k)" for b k
      using y objsD(2) [OF o _ that] by (auto split: if_splits)
    show "\<exists>j. (j, y) \<in> busy C' F' \<and> n \<le> class_size j" if "L y = None"
      using y b(1) objsD(3) [OF o _ that] by (auto split: if_splits)
  next
    fix y a k assume y: "L y = Some (a, k)"
    show "y \<in> dom (live(x := None))" using objsD(4) [OF o y] y l by auto
    show "a + 8 \<le> y" by (rule objsD(5) [OF o y])
    show "slot_next m (y - 8) = a" by (rule m [OF y])
  next
    show "y \<in> dom (live(x := None))" if "(j, y) \<in> busy C' F'" for j y
    proof -
      have "(j, y) \<in> busy C F" "(j, y) \<noteq> (i, x)" using that b(1) by simp_all
      then show ?thesis using objsD(8) [OF o] u by auto
    qed
  qed (rule objsD(7) [OF o])
qed

lemma objs_remove_block:
  assumes c: "heap_core h X (ran L) C F" and o: "objs (heap_mem h) C F L live" and l: "L x = Some (a, k)"
    and u: "undisturbed (X \<union> (ran L - {(a, k)})) (busy C F) (heap_mem h) m"
  shows "ran (L(x := None)) = ran L - {(a, k)}" "objs m C F (L(x := None)) (live(x := None))"
proof -
  let ?L = "L(x := None)"
  have inj: "y = x" if "L y = Some (a, k)" for y using inj_onD [OF objsD(7) [OF o], of y x] that l by auto
  show "ran ?L = ran L - {(a, k)}"
  proof (intro equalityI subsetI)
    fix b assume "b \<in> ran ?L"
    then obtain y where "y \<noteq> x" "L y = Some b" by (auto simp: ran_def split: if_splits)
    then show "b \<in> ran L - {(a, k)}" using inj [of y] by (auto intro: ranI)
  next
    fix b assume b: "b \<in> ran L - {(a, k)}"
    then obtain y where "L y = Some b" by (auto simp: ran_def)
    then show "b \<in> ran ?L" using b l by (intro ranI [of _ y]) auto
  qed
  obtain sz where sz: "live x = Some sz" using objsD(4) [OF o l] by blast
  have xr: "x \<in> region (a, k)" using objsD(1) [OF o sz] objsD(2) [OF o sz l] objsD(5) [OF o l] by auto
  show "objs m C F ?L (live(x := None))"
  proof (rule objsI)
    fix y n assume y: "(live(x := None)) y = Some n"
    show "0 < n" using y objsD(1) [OF o] by (auto split: if_splits)
    show "y + n \<le> b + 4096 * 2 ^ j" if "?L y = Some (b, j)" for b j
      using y that objsD(2) [OF o, of y n b j] by (auto split: if_splits)
    show "\<exists>j. (j, y) \<in> busy C F \<and> n \<le> class_size j" if "?L y = None"
      using y that objsD(3) [OF o, of y n] by (auto split: if_splits)
  next
    fix y b j assume "?L y = Some (b, j)"
    then have y: "L y = Some (b, j)" "y \<noteq> x" by (auto split: if_splits)
    show "y \<in> dom (live(x := None))" using objsD(4) [OF o y(1)] y(2) by auto
    show "b + 8 \<le> y" by (rule objsD(5) [OF o y(1)])
    have "(b, j) \<noteq> (a, k)" using inj y by blast
    then show "slot_next m (y - 8) = b" by (intro undisturbed_header [OF u o y(1)]) (use y in \<open>auto intro: ranI\<close>)
  next
    show "inj_on ?L (dom ?L)" using objsD(7) [OF o] by (auto simp: inj_on_def)
    show "y \<in> dom (live(x := None))" if "(j, y) \<in> busy C F" for j y
    proof -
      have "(j, x) \<notin> busy C F" by (rule large_not_busy [OF c _ xr]) (use l in \<open>auto intro: ranI\<close>)
      then show ?thesis using objsD(8) [OF o that] that by auto
    qed
  qed
qed

end
