(* ===== verification/Heap_Main.thy ===== *)
theory Heap_Main
  imports Heap_Objects
begin

text \<open>
  The kernel heap as a whole: what \<^verbatim>\<open>init\<close>, \<^verbatim>\<open>alloc\<close> and \<^verbatim>\<open>dealloc\<close> of heap.rs do to the objects in use,
  and the heap as an instance of the contract of an object allocator.
\<close>

section \<open>Returning a slot\<close>

lemma push_undisturbed:
  assumes c: "heap_core h X B C F" and i: "i < 8" "p \<in> set (C i)" "x \<in> set (slots i p)"
    and m: "\<And>y. y < p \<or> p + 16 \<le> y \<Longrightarrow> y < x \<or> x + 8 \<le> y \<Longrightarrow> m y = heap_mem h y"
  shows "undisturbed (X \<union> B) (busy C F - {(i, x)}) (heap_mem h) m"
proof -
  have pp: "p \<in> slab_pages C" by (rule slab_pagesI [of i p C, OF i(1,2)])
  then have pb: "(p, 0) \<in> X \<union> B \<union> slab_blocks C" by (auto simp: slab_blocks_def)
  have xb: "p + 16 \<le> x" "x + 8 \<le> p + 4096" using slot_bounds [OF i(1,3)] class_size_bounds [OF i(1)] by linarith+
  have out: "m z = heap_mem h z" if "b \<in> X \<union> B \<union> slab_blocks C" "b \<noteq> (p, 0)" "z \<in> region b" for b z
  proof -
    have "z < p \<or> p + 4096 \<le> z" using heap_apart [OF c that(1) pb that(2)] that(3) by auto
    then show ?thesis using xb by (intro m) linarith+
  qed
  show ?thesis
    unfolding undisturbed_def
  proof (intro conjI ballI)
    fix b z assume b: "b \<in> X \<union> B" "z \<in> region b"
    then have "b \<noteq> (p, 0)" using heap_coreD(3) [OF c] pp by (auto simp: slab_blocks_def)
    then show "m z = heap_mem h z" using out [of b z] b by blast
  next
    fix w assume w: "w \<in> busy C F - {(i, x)}"
    obtain j y where jy: "w = (j, y)" by (cases w)
    then have "(j, y) \<in> busy C F" "(j, y) \<noteq> (i, x)" using w by auto
    from this(1) obtain q where q: "j < 8" "q \<in> set (C j)" "y \<in> set (slots j q)" by (rule busyE)
    have "m z = heap_mem h z" if z: "y \<le> z" "z < y + class_size j" for z
    proof (cases "q = p")
      case True
      then have ji: "j = i" using heap_coreD(8) [OF c q(1) i(1)] q(2) i(2) by blast
      then have "y \<noteq> x" using \<open>(j, y) \<noteq> (i, x)\<close> by simp
      then have "y + class_size i \<le> x \<or> x + class_size i \<le> y" using slots_apart [OF i(1) _ i(3), of y] q(3) True ji by simp
      then have "z < x \<or> x + 8 \<le> z" using z(1) z(2) [unfolded ji] class_size_bounds [OF i(1)] by linarith
      then show ?thesis using slot_bounds(1) [OF q(1,3)] z True by (intro m) linarith+
    next
      case False
      have "q \<le> z" "z < q + 4096" using slot_bounds [OF q(1,3)] z by linarith+
      then show ?thesis
        by (intro out [of "(q, 0)"]) (use False slab_pagesI [of j q C, OF q(1,2)] in \<open>auto simp: slab_blocks_def\<close>)
    qed
    then show "case w of (j, y) \<Rightarrow> \<forall>z\<in>{y..<y + class_size j}. m z = heap_mem h z" using jy by simp
  qed
qed

lemma dealloc_slot:
  assumes c: "heap_core h X (ran L) C F" and o: "objs (heap_mem h) C F L live" and x: "live x = Some sz" "L x = None"
  obtains h' F' where "heap_dealloc h x sz = Some h'" "heap_core h' X (ran L) C F'" "objs (heap_mem h') C F' L (live(x := None))"
    "undisturbed (X \<union> ran L) (busy C F') (heap_mem h) (heap_mem h')"
proof -
  from o x(1) obtain i p where p: "i < 8" "p \<in> set (C i)" "x \<in> set (slots i p)" "x \<notin> set (F p)" and b: "(i, x) \<in> busy C F"
    by (rule obj_cases) (use x(2) in auto)
  have pp: "p \<in> slab_pages C" by (rule slab_pagesI [of i p C, OF p(1,2)])
  note f = page_facts [OF c pp] and d = heap_coreD [OF c]
  note so = slot_offset [OF p(1,3) f(1)] and sb = slot_bounds [OF p(1,3)]
  let ?h1 = "put_word h x (slab_free_list (heap_mem h) p)"
  let ?h' = "put_word ?h1 (p + 8) x" and ?F = "F(p := x # F p)"
  have cls: "slab_class_of h p = Some i"
    using class_ops(1) [of h p] f(2,3) d(4) d(10) [OF p(1,2)] by (simp add: heap_geom_def)
  have "heap_dealloc h x sz = Some ?h'"
    using objsD(1) [OF o x(1)] so f(2,3) cls p(1)
    by (simp add: heap_dealloc_def PAGE_SIZE_def NOT_SLAB_def Let_def)
  moreover have core: "heap_core ?h' X (ran L) C ?F" by (rule slab_push_ok [OF c p])
  moreover have bz: "busy C ?F = busy C F - {(i, x)}" by (rule busy_push [OF c p(1-3)])
  have m: "heap_mem ?h' y = heap_mem h y" if "y < p \<or> p + 16 \<le> y" "y < x \<or> x + 8 \<le> y" for y
    using that by (auto simp: heap_mem_def put_word_def store64_other)
  have u: "undisturbed (X \<union> ran L) (busy C F - {(i, x)}) (heap_mem h) (heap_mem ?h')"
    by (rule push_undisturbed [OF c p(1-3) m])
  moreover have "objs (heap_mem ?h') C ?F L (live(x := None))"
  proof (rule objs_remove_slot [OF c o x(2) bz b])
    show "slot_next (heap_mem ?h') (y - 8) = a" if "L y = Some (a, k)" for y a k
      by (rule undisturbed_header [OF u o that]) (use that in \<open>auto intro: ranI\<close>)
  qed
  ultimately show thesis using that bz by metis
qed

lemma dealloc_block:
  assumes c: "heap_core h X (ran L) C F" and o: "objs (heap_mem h) C F L live" and x: "live x = Some sz" "L x = Some (b, k)"
  obtains h' where "heap_dealloc h x sz = Some h'" "heap_core h' X (ran (L(x := None))) C F"
    "objs (heap_mem h') C F (L(x := None)) (live(x := None))"
    "undisturbed (X \<union> ran (L(x := None))) (busy C F) (heap_mem h) (heap_mem h')"
proof -
  note d = heap_coreD [OF c]
  have bL: "(b, k) \<in> ran L" using x(2) by (auto intro: ranI)
  then have bA: "(b, k) \<in> X \<union> ran L \<union> slab_blocks C" by blast
  note f = block_facts [OF c bA]
  have xb: "b + 8 \<le> x" "x + sz \<le> b + 4096 * 2 ^ k" "0 < sz"
    using objsD(5) [OF o x(2)] objsD(2) [OF o x] objsD(1) [OF o x(1)] .
  define p where "p = x div 4096 * 4096"
  have pa: "4096 dvd p" "p \<le> x" "x < p + 4096" unfolding p_def using div_mult_mod_eq [of x 4096] mod_less_divisor [of 4096 x] by simp_all
  have "b \<le> p"
  proof -
    obtain q where q: "b = 4096 * q" using f(1) by blast
    then have "q \<le> x div 4096" using xb(1) by (simp add: less_eq_div_iff_mult_less_eq)
    then show ?thesis using q by (simp add: p_def)
  qed
  then have pr: "hp_base h \<le> p" "p < hp_base h + hp_bytes h" using f(2,3) pa xb by linarith+
  have cls: "hp_page_class h (page_index h p) = NOT_SLAB"
  proof (rule ccontr)
    assume "hp_page_class h (page_index h p) \<noteq> NOT_SLAB"
    then obtain q where q: "q \<in> slab_pages C" "page_index h p = page_index h q" using d(11) by blast
    then have "p = q" using page_index_inj [of h p q] f(6) pa(1) pr(1) page_facts(1,2) [OF c q(1)] by blast
    then have qb: "(p, 0) \<in> slab_blocks C" using q(1) by (simp add: slab_blocks_def)
    then have "(b, k) \<noteq> (p, 0)" using d(3) bL by blast
    then have "region (b, k) \<inter> region (p, 0) = {}" using heap_apart [OF c bA] qb by blast
    moreover have "x \<in> region (b, k)" "x \<in> region (p, 0)" using xb pa by auto
    ultimately show False by blast
  qed
  obtain s' where s': "free (hp_mm h) b = Some (Ok (), s')" "heap_core (h\<lparr>hp_mm := s'\<rparr>) X (ran L - {(b, k)}) C F"
    "undisturbed (X \<union> (ran L - {(b, k)})) (busy C F) (heap_mem h) (pmem s')"
    by (rule core_free_block [OF c bL]) (rule that; assumption)
  have "unat (load64 (heap_mem h) (x - 8)) = b" using objsD(6) [OF o x(2)] by (simp add: slot_next_def)
  then have "heap_dealloc h x sz = Some (h\<lparr>hp_mm := s'\<rparr>)"
    using xb pr class_ops(1) [OF pr f(7)] cls s'(1)
    by (simp add: heap_dealloc_def PAGE_SIZE_def p_def [symmetric] free_pages_def usub_def Let_def less_diff_conv2)
  moreover note r = objs_remove_block [OF c o x(2) s'(3)]
  ultimately show thesis using that [of "h\<lparr>hp_mm := s'\<rparr>"] s'(2,3) by (simp add: heap_mem_def)
qed

section \<open>Allocation\<close>

lemma class_scan_Some:
  "class_scan sz ss i0 = Some i \<Longrightarrow> i0 \<le> i \<and> i < i0 + length ss \<and> sz \<le> ss ! (i - i0)"
proof (induction ss arbitrary: i0)
  case (Cons a ss)
  then show ?case
  proof (cases "sz \<le> a")
    case False
    then have "Suc i0 \<le> i" "i < Suc i0 + length ss" "sz \<le> ss ! (i - Suc i0)" using Cons by fastforce+
    then show ?thesis by (simp add: nth_Cons' Suc_diff_Suc)
  qed auto
qed simp

lemma class_index_Some: "class_index sz = Some i \<Longrightarrow> i < 8 \<and> sz \<le> class_size i"
  using class_scan_Some [of "max sz 8" SLAB_SIZES 0 i] by (simp add: class_index_def)

lemma pow2_dvd_class:
  assumes "i < 8" "2 ^ a \<le> class_size i"
  shows "2 ^ a dvd class_size i"
proof -
  have "(2::nat) ^ a \<le> 2 ^ (i + 4)" using assms(2) class_size_pow [OF assms(1)] by simp
  then have "a \<le> i + 4" by (rule power_le_imp_le_exp [rotated]) simp
  then show ?thesis unfolding class_size_pow [OF assms(1)] by (rule le_imp_power_dvd)
qed

text \<open>
  The situations in which an allocation panics: the object exceeds the largest block, or the page
  allocator has no block for it, for a slot even after the empty slab pages were returned.
\<close>

definition block_full :: "heap \<Rightarrow> usize \<Rightarrow> usize \<Rightarrow> bool" where
  "block_full h sz al \<longleftrightarrow> 4096 * 2 ^ 12 < page_bytes sz al \<or>
     (\<exists>s. alloc_pages (hp_mm h) (page_order (div_ceil (page_bytes sz al) 4096)) = Some (None, s))"

definition slab_full :: "heap \<Rightarrow> bool" where
  "slab_full h \<longleftrightarrow> (\<exists>h1 s. sweep_empty_pages h = Some h1 \<and> alloc_pages (hp_mm h1) 0 = Some (None, s))"

definition no_room :: "heap \<Rightarrow> usize \<Rightarrow> usize \<Rightarrow> bool" where
  "no_room h sz al \<longleftrightarrow>
     (if \<exists>i. class_index sz = Some i \<and> al \<le> SLAB_SIZES ! i then slab_full h else block_full h sz al)"

lemma heap_alloc_cases:
  assumes i: "heap_inv h X live" and sz: "0 < sz" and al: "al = 2 ^ a"
  obtains (none) "heap_alloc h sz al = None" "no_room h sz al"
  | (some) x h' where "heap_alloc h sz al = Some (x, h')" "heap_inv h' X (live(x \<mapsto> sz))" "live x = None" "al dvd x"
      "\<forall>y n. live y = Some n \<longrightarrow> (\<forall>z\<in>extent y n. heap_mem h' z = heap_mem h z)"
      "\<forall>b\<in>X. \<forall>z\<in>region b. heap_mem h' z = heap_mem h z"
proof -
  obtain C F L where c: "heap_core h X (ran L) C F" and o: "objs (heap_mem h) C F L live"
    using i unfolding heap_inv_def by blast
  have kept: "\<forall>y n. live y = Some n \<longrightarrow> (\<forall>z\<in>extent y n. m z = heap_mem h z)" "\<forall>b\<in>X. \<forall>z\<in>region b. m z = heap_mem h z"
    if "undisturbed (X \<union> ran L) (busy C F) (heap_mem h) m" for m
    using undisturbed_obj [OF that o] that unfolding undisturbed_def by blast+
  show thesis
  proof (cases "\<exists>i. class_index sz = Some i \<and> al \<le> SLAB_SIZES ! i")
    case True
    then obtain i where ci: "class_index sz = Some i" "al \<le> class_size i" by blast
    have i8: "i < 8" "sz \<le> class_size i" using class_index_Some [OF ci(1)] by blast+
    have e: "heap_alloc h sz al = slab_alloc h i" using sz ci by (simp add: heap_alloc_def)
    show ?thesis
    proof (cases rule: slab_alloc_ok [OF c i8(1)])
      case (1 h1 s1)
      then show ?thesis using True e by (intro none) (auto simp: no_room_def slab_full_def)
    next
      case (2 x h' C' F')
      note n = objs_add_slot [OF o 2(2-4) 2(6) sz i8(2)]
      have "heap_inv h' X (live(x \<mapsto> sz))" unfolding heap_inv_def using 2(2) n(2) by blast
      moreover have "al dvd x" using pow2_dvd_class [OF i8(1), of a] ci(2) al 2(5) by (blast intro: dvd_trans)
      ultimately show ?thesis using e 2(1) n(1) kept [OF 2(6)] by (intro some [of x h']) simp_all
    qed
  next
    case False
    have e: "heap_alloc h sz al = page_alloc h sz al" using sz False by (auto simp: heap_alloc_def split: option.splits)
    have al0: "0 < al" using al by simp
    show ?thesis
    proof (cases rule: page_alloc_ok [OF c al0 sz])
      case 1
      then show ?thesis using False e by (intro none) (auto simp: no_room_def block_full_def)
    next
      case (2 x h' b)
      note n = objs_add_block [OF o c 2(2,3,5,6,7,8) sz]
      have "heap_inv h' X (live(x \<mapsto> sz))" unfolding heap_inv_def using 2(2) n(2,3) by metis
      then show ?thesis using e 2(1,4) n(1) kept [OF 2(8)] by (intro some [of x h']) simp_all
    qed
  qed
qed

section \<open>Deallocation\<close>

lemma heap_dealloc_ok:
  assumes i: "heap_inv h X live" and x: "live x = Some sz"
  obtains h' where "heap_dealloc h x sz = Some h'" "heap_inv h' X (live(x := None))"
    "\<forall>y n. y \<noteq> x \<longrightarrow> live y = Some n \<longrightarrow> (\<forall>z\<in>extent y n. heap_mem h' z = heap_mem h z)"
    "\<forall>b\<in>X. \<forall>z\<in>region b. heap_mem h' z = heap_mem h z"
proof -
  obtain C F L where c: "heap_core h X (ran L) C F" and o: "objs (heap_mem h) C F L live"
    using i unfolding heap_inv_def by blast
  note ret = that
  have fin: thesis
    if e: "heap_dealloc h x sz = Some h'" and c': "heap_core h' X (ran L') C F'" and o': "objs (heap_mem h') C F' L' (live(x := None))"
      and u: "undisturbed (X \<union> ran L') (busy C F') (heap_mem h) (heap_mem h')" for h' L' F'
  proof (rule ret [OF e])
    show "heap_inv h' X (live(x := None))" unfolding heap_inv_def using c' o' by blast
    show "\<forall>y n. y \<noteq> x \<longrightarrow> live y = Some n \<longrightarrow> (\<forall>z\<in>extent y n. heap_mem h' z = heap_mem h z)"
      by (intro allI impI ballI, rule undisturbed_obj [OF u o']) simp_all
    show "\<forall>b\<in>X. \<forall>z\<in>region b. heap_mem h' z = heap_mem h z" using u unfolding undisturbed_def by blast
  qed
  show thesis
  proof (cases "L x")
    case None
    then show ?thesis by (rule dealloc_slot [OF c o x]) (rule fin; assumption)
  next
    case (Some bk)
    obtain b k where "bk = (b, k)" by (cases bk)
    then have "L x = Some (b, k)" using Some by simp
    then show ?thesis by (rule dealloc_block [OF c o x]) (rule fin; assumption)
  qed
qed

section \<open>Writing to an object\<close>

lemma heap_inv_store:
  assumes i: "heap_inv h X live" and x: "live x = Some n" and m: "\<And>z. z \<notin> extent x n \<Longrightarrow> m z = heap_mem h z"
  shows "heap_inv (h\<lparr>hp_mm := (hp_mm h)\<lparr>pmem := m\<rparr>\<rparr>) X live"
proof -
  obtain C F L where c: "heap_core h X (ran L) C F" and o: "objs (heap_mem h) C F L live"
    using i unfolding heap_inv_def by blast
  let ?h = "h\<lparr>hp_mm := (hp_mm h)\<lparr>pmem := m\<rparr>\<rparr>"
  note hm = obj_home [OF c o x]
  have out: "m z = heap_mem h z" if "b \<in> X \<union> ran L \<union> slab_blocks C" "b \<noteq> home L x" "z \<in> region b" for b z
    using heap_apart [OF c that(1) _ that(2)] hm(1,2) that(3) by (intro m) blast
  have page: "slot_next m p = slot_next (heap_mem h) p \<and> slab_ok m i p (F p)" if p: "i < 8" "p \<in> set (C i)" for i p
  proof -
    have pb: "(p, 0) \<in> slab_blocks C" using slab_pagesI [of i p C, OF p] by (simp add: slab_blocks_def)
    have ok: "slab_ok (heap_mem h) i p (F p)" by (rule heap_coreD(9) [OF c p])
    show ?thesis
    proof (cases "home L x = (p, 0)")
      case False
      have eq: "m z = heap_mem h z" if "p \<le> z" "z < p + 4096" for z
        by (rule out [of "(p, 0)"]) (use pb False that in auto)
      have "slot_next m p = slot_next (heap_mem h) p" by (rule slot_next_cong) (use eq in simp)
      moreover have "slab_ok m i p (F p) = slab_ok (heap_mem h) i p (F p)"
        by (rule slab_ok_cong [OF p(1)]) (use eq in simp)
      ultimately show ?thesis using ok by simp
    next
      case True
      have "L x = None" using hm(5) True heap_coreD(3) [OF c] pb by (metis UnCI disjoint_iff ranI)
      with o x obtain j q where q: "j < 8" "q \<in> set (C j)" "x \<in> set (slots j q)" "x \<notin> set (F q)" "n \<le> class_size j"
        by (auto elim: obj_cases)
      have "q = p" using True \<open>L x = None\<close> slot_offset(1) [OF q(1,3) page_facts(1) [OF c slab_pagesI [of j q C, OF q(1,2)]]]
        by (simp add: home_def)
      moreover from this have "j = i" using heap_coreD(8) [OF c q(1) p(1)] q(2) p(2) by blast
      ultimately have q': "x \<in> set (slots i p)" "x \<notin> set (F p)" "n \<le> class_size i" using q by simp_all
      have eq: "m z = heap_mem h z" if "z < x \<or> x + class_size i \<le> z" for z
        by (rule m) (use that q'(3) in \<open>auto simp: extent_def\<close>)
      have xp: "p + 16 \<le> x" by (rule slot_bounds(1) [OF p(1) q'(1)])
      have "slot_next m a = slot_next (heap_mem h) a" if a: "a \<in> set (F p)" for a
      proof (rule slot_next_cong)
        fix z assume z: "a \<le> z" "z < a + 8"
        have "a \<in> set (slots i p)" "a \<noteq> x" using ok a q'(2) by (auto simp: slab_ok_def)
        then have "a + class_size i \<le> x \<or> x + class_size i \<le> a" using slots_apart [OF p(1) _ q'(1)] by blast
        then show "m z = heap_mem h z" using z class_size_bounds [OF p(1)] by (intro eq) linarith
      qed
      then have "llist m USIZE_MAX y (F p) = llist (heap_mem h) USIZE_MAX y (F p)" for y by (rule llist_cong)
      moreover have "slab_free_list m p = slab_free_list (heap_mem h) p"
        unfolding slab_free_list_def using load64_cong [of "p + 8" m "heap_mem h"] eq xp by simp
      moreover have "slot_next m p = slot_next (heap_mem h) p" by (rule slot_next_cong) (use eq xp in simp)
      ultimately show ?thesis using ok by (simp add: slab_ok_def)
    qed
  qed
  have "heap_core ?h X (ran L) C F"
  proof (rule core_store [OF c])
    show "m z = heap_mem h z" if "z \<notin> (\<Union>b\<in>X \<union> ran L \<union> slab_blocks C. region b)" for z
      using that hm(1,2) by (intro m) blast
    show "slot_next m p = slot_next (heap_mem h) p" if "p \<in> slab_pages C" for p
      using that page unfolding slab_pages_def by blast
    show "slab_ok m i p (F p)" if "i < 8" "p \<in> set (C i)" for i p using page [OF that] by blast
  qed
  moreover have "objs m C F L live"
  proof (rule objsI)
    show "slot_next m (y - 8) = b" if y: "L y = Some (b, k)" for y b k
    proof -
      have "slot_next m (y - 8) = slot_next (heap_mem h) (y - 8)"
      proof (rule slot_next_cong)
        fix z assume z: "y - 8 \<le> z" "z < y - 8 + 8"
        obtain l where l: "live y = Some l" using objsD(4) [OF o y] by blast
        have zr: "z \<in> region (b, k)" "z < y" using z objsD(5) [OF o y] objsD(2) [OF o l y] by auto
        show "m z = heap_mem h z"
        proof (cases "x = y")
          case True
          then show ?thesis using zr(2) by (intro m) (simp add: extent_def)
        next
          case False
          have "home L x \<noteq> (b, k)"
            using False hm(4,5) inj_onD [OF objsD(7) [OF o], of x y] y heap_coreD(3) [OF c] ranI [of L y]
            by (metis UnCI disjoint_iff domIff option.distinct(1))
          then show ?thesis by (intro out [OF _ _ zr(1)]) (use y in \<open>auto intro: ranI\<close>)
        qed
      qed
      then show ?thesis using objsD(6) [OF o y] by simp
    qed
  qed (rule objsD [OF o]; assumption)+
  ultimately show ?thesis unfolding heap_inv_def by (auto simp: heap_mem_def)
qed

section \<open>The contract\<close>

interpretation kheap: object_allocator heap_alloc heap_dealloc "\<lambda>h. heap_inv h X" heap_mem
  "\<lambda>m h. h\<lparr>hp_mm := (hp_mm h)\<lparr>pmem := m\<rparr>\<rparr>" for X
proof unfold_locales
  fix h live sz al a x h'
  assume i: "heap_inv h X live" and sz: "0 < sz" and al: "al = 2 ^ a" and e: "heap_alloc h sz al = Some (x, h')"
  show "heap_inv h' X (live(x \<mapsto> sz)) \<and> live x = None \<and> al dvd x \<and>
      (\<forall>y n. live y = Some n \<longrightarrow> (\<forall>z\<in>extent y n. heap_mem h' z = heap_mem h z))"
    by (rule heap_alloc_cases [OF i sz al]) (use e in auto)
next
  fix h live x sz
  assume i: "heap_inv h X live" and x: "live x = Some sz"
  show "\<exists>h'. heap_dealloc h x sz = Some h' \<and> heap_inv h' X (live(x := None)) \<and>
      (\<forall>y n. y \<noteq> x \<longrightarrow> live y = Some n \<longrightarrow> (\<forall>z\<in>extent y n. heap_mem h' z = heap_mem h z))"
    by (rule heap_dealloc_ok [OF i x]) blast
next
  fix h live x n y k
  assume i: "heap_inv h X live" and x: "live x = Some n" "live y = Some k" "x \<noteq> y"
  then show "extent x n \<inter> extent y k = {}" unfolding heap_inv_def using objs_disjoint by blast
next
  fix h live x n and m :: mem
  assume "heap_inv h X live" "live x = Some n" "\<And>z. z \<notin> extent x n \<Longrightarrow> m z = heap_mem h z"
  then show "heap_inv (h\<lparr>hp_mm := (hp_mm h)\<lparr>pmem := m\<rparr>\<rparr>) X live" by (rule heap_inv_store)
qed (simp add: heap_mem_def)

lemma heap_init_ok:
  assumes i: "buddy_inv s X" and g: "0 < ba_base s" "4096 dvd ba_base s" "phys_ok s" "ba_real_count s \<le> MAX_PAGES"
  obtains h where "heap_init (heap_static s) = Some h" "heap_inv h X Map.empty" "hp_mm h = s"
proof -
  let ?h = "(heap_static s)\<lparr>hp_base := ba_base s, hp_bytes := ba_real_count s * 4096\<rparr>"
  have e: "heap_init (heap_static s) = Some ?h"
    using g(4) by (simp add: heap_init_def heap_static_def umul_def PAGE_SIZE_def)
  have "heap_core ?h X (ran Map.empty) (\<lambda>_. []) (\<lambda>_. [])"
  proof (rule heap_coreI)
    show "heap_geom ?h" using g by (simp add: heap_geom_def heap_static_def)
    show "llist (heap_mem ?h) 0 (hp_classes ?h ! i) []" if "i < 8" for i using that by (simp add: heap_static_def)
    show "\<exists>p\<in>slab_pages (\<lambda>_. []). j = page_index ?h p" if "hp_page_class ?h j \<noteq> NOT_SLAB" for j
      using that by (simp add: heap_static_def)
  qed (use i in \<open>simp_all add: heap_static_def slab_blocks_def slab_pages_def\<close>)
  moreover have "objs (heap_mem ?h) (\<lambda>_. []) (\<lambda>_. []) Map.empty Map.empty"
    by (rule objsI) (simp_all add: busy_def)
  ultimately show thesis using that [OF e] unfolding heap_inv_def by (fastforce simp: heap_static_def)
qed

section \<open>Properties\<close>

text \<open>
  C9. Allocation on the kernel heap. From a well-formed heap whose objects in use are \<open>live\<close>, next to
  blocks \<open>X\<close> that other clients hold, an allocation of a positive size and a power of two as alignment
  either panics, and then the object is larger than the largest block or the page allocator has no
  block for it (for a small object, even after empty slab pages were returned to it); or it returns an
  aligned object that overlaps no object in use and no block of \<open>X\<close>. The objects in use are then
  exactly those of before and the new one, the heap is well-formed again, and no byte of an object in
  use or of a block of \<open>X\<close> has changed.
\<close>

theorem heap_alloc_spec:
  assumes "heap_inv h X live" "0 < sz" "al = 2 ^ a"
  shows "case heap_alloc h sz al of
      None \<Rightarrow> no_room h sz al
    | Some (x, h') \<Rightarrow> heap_inv h' X (live(x \<mapsto> sz)) \<and> live x = None \<and> al dvd x \<and>
        (\<forall>b\<in>X. extent x sz \<inter> region b = {}) \<and>
        (\<forall>y n. live y = Some n \<longrightarrow> extent x sz \<inter> extent y n = {} \<and> (\<forall>z\<in>extent y n. heap_mem h' z = heap_mem h z)) \<and>
        (\<forall>b\<in>X. \<forall>z\<in>region b. heap_mem h' z = heap_mem h z)"
proof (cases rule: heap_alloc_cases [OF assms])
  case 1
  then show ?thesis by simp
next
  case (2 x h')
  have "extent x sz \<inter> extent y n = {}" if "live y = Some n" for y n
    by (rule kheap.alloc_apart [OF assms 2(1) that])
  moreover have "extent x sz \<inter> region b = {}" if "b \<in> X" for b
    using 2(2) objs_apart [of h' X _ _ _ _ "live(x \<mapsto> sz)" x sz b] that unfolding heap_inv_def fun_upd_same by blast
  ultimately show ?thesis using 2 by simp
qed

definition demo_heap :: heap where
  "demo_heap = (heap_static demo_mm)\<lparr>hp_base := ba_base demo_mm, hp_bytes := ba_real_count demo_mm * 4096\<rparr>"

lemma demo_heap_inv: "heap_init (heap_static demo_mm) = Some demo_heap" "heap_inv demo_heap {} Map.empty"
proof -
  have d: "buddy_inv demo_mm {}" using demo_rel by (auto simp: buddy_inv_def)
  show e: "heap_init (heap_static demo_mm) = Some demo_heap"
    by (simp add: heap_init_def demo_heap_def heap_static_def umul_def PAGE_SIZE_def demo_mm_def)
  obtain h where "heap_init (heap_static demo_mm) = Some h" "heap_inv h {} Map.empty"
    by (rule heap_init_ok [OF d]) (simp_all add: demo_mm_def phys_ok_def)
  then show "heap_inv demo_heap {} Map.empty" using e by simp
qed

lemma demo_heap_room: "\<not> no_room demo_heap 24 8"
proof -
  have "class_index 24 = Some 1" by (simp add: class_index_def SLAB_SIZES_def)
  then have *: "\<exists>i. class_index 24 = Some i \<and> 8 \<le> SLAB_SIZES ! i" by (simp add: SLAB_SIZES_def)
  have "sweep_empty_pages demo_heap = Some demo_heap"
    by (simp add: sweep_empty_pages_def demo_heap_def heap_static_def upt_rec)
  moreover obtain x s where "alloc (hp_mm demo_heap) 0 = Some (Some x, s)"
  proof (rule alloc_some_relE [OF demo_rel])
    show "0 \<le> MAX_ORDER" "(0, 12) \<in> {(0::nat, 12::nat)}" "0 \<le> (12::nat)" by simp_all
  qed (use that in \<open>simp add: demo_heap_def heap_static_def\<close>)
  ultimately show ?thesis using * by (simp add: no_room_def slab_full_def alloc_pages_def)
qed

lemma heap_alloc_spec_witness:
  "\<exists>x h'. heap_alloc demo_heap 24 8 = Some (x, h') \<and> heap_inv h' {} [x \<mapsto> 24] \<and> 8 dvd x"
  using heap_alloc_spec [OF demo_heap_inv(2), of 24 8 3] demo_heap_room by (auto split: option.splits)

text \<open>
  C32. Deallocation on the kernel heap. Returning an object in use never panics, whether it lies in a
  slot or in a block of its own; afterwards the objects in use are exactly the others, the heap is
  well-formed, and no byte of another object or of a block that another client holds has changed.
\<close>

theorem heap_dealloc_spec:
  assumes "heap_inv h X live" "live x = Some sz"
  shows "\<exists>h'. heap_dealloc h x sz = Some h' \<and> heap_inv h' X (live(x := None)) \<and>
    (\<forall>y n. y \<noteq> x \<longrightarrow> live y = Some n \<longrightarrow> (\<forall>z\<in>extent y n. heap_mem h' z = heap_mem h z)) \<and>
    (\<forall>b\<in>X. \<forall>z\<in>region b. heap_mem h' z = heap_mem h z)"
  by (rule heap_dealloc_ok [OF assms]) blast

lemma heap_dealloc_spec_witness:
  "\<exists>x h h'. heap_alloc demo_heap 24 8 = Some (x, h) \<and> heap_dealloc h x 24 = Some h' \<and> heap_inv h' {} Map.empty"
proof -
  obtain x h where h: "heap_alloc demo_heap 24 8 = Some (x, h)" "heap_inv h {} [x \<mapsto> 24]"
    by (rule heap_alloc_cases [OF demo_heap_inv(2), of 24 8 3]) (use demo_heap_room in auto)
  then show ?thesis using heap_dealloc_spec [OF h(2), of x 24] by auto
qed

text \<open>
  An object that is allocated, filled by its owner and returned leaves the set of objects, and every
  byte of the others, as they were.
\<close>

lemma heap_fill_roundtrip:
  assumes "heap_inv h X live" "0 < sz" "al = 2 ^ a" "heap_alloc h sz al = Some (x, h1)"
    and "\<And>z. z \<notin> extent x sz \<Longrightarrow> m z = heap_mem h1 z"
  shows "\<exists>h'. heap_dealloc (h1\<lparr>hp_mm := (hp_mm h1)\<lparr>pmem := m\<rparr>\<rparr>) x sz = Some h' \<and> heap_inv h' X live \<and>
    (\<forall>y n. live y = Some n \<longrightarrow> (\<forall>z\<in>extent y n. heap_mem h' z = heap_mem h z))"
  by (rule kheap.alloc_fill_dealloc [OF assms])

end
