(* ===== verification/Fdt.thy ===== *)
theory Fdt
  imports Prelude
begin

text \<open>
  Model of src/kernel/src/fdt.rs: the parser of the flattened device tree that the firmware leaves in
  memory.

  The parser reads memory and changes nothing. A node name buffer with its length is the list of its
  bytes; the bytes behind the length are never read. The reserved ranges with their count are a list of
  at most eight pairs. Sums of the address of the blob and an offset into it are written without an
  overflow check: \<^verbatim>\<open>new\<close> makes sure that the end of the blob is below \<^verbatim>\<open>2^56\<close>. Every other addition on
  positions is checked.
\<close>

section \<open>Constants and data\<close>

type_synonym bytes = "byte list"
type_synonym u32 = "32 word"

definition FDT_MAGIC :: u32 where "FDT_MAGIC = 0xD00DFEED"
definition FDT_BEGIN_NODE :: u32 where "FDT_BEGIN_NODE = 1"
definition FDT_END_NODE :: u32 where "FDT_END_NODE = 2"
definition FDT_PROP :: u32 where "FDT_PROP = 3"
definition FDT_NOP :: u32 where "FDT_NOP = 4"
definition FDT_END :: u32 where "FDT_END = 9"

record board_params =
  bp_ram_start :: usize
  bp_ram_size :: usize
  bp_timebase_freq :: usize
  bp_uart_base :: usize
  bp_uart_clock :: usize
  bp_isa_string :: bytes
  bp_cpu_count :: usize
  bp_reserved :: "(usize \<times> usize) list"

definition params_empty :: board_params where
  "params_empty = \<lparr>bp_ram_start = 0, bp_ram_size = 0, bp_timebase_freq = 0, bp_uart_base = 0, bp_uart_clock = 0,
     bp_isa_string = [], bp_cpu_count = 0, bp_reserved = []\<rparr>"

text \<open>The loop of \<^verbatim>\<open>add_reserved\<close>: a merged entry is overwritten by the last one, and the list shrinks.\<close>

function merge_reserved :: "usize \<Rightarrow> usize \<Rightarrow> usize \<Rightarrow> nat \<Rightarrow> (usize \<times> usize) list \<Rightarrow> usize \<times> usize \<times> (usize \<times> usize) list" where
  "merge_reserved addr sz e i rs =
     (if i < length rs then
        (let r_addr = fst (rs ! i); r_end = sat_add r_addr (snd (rs ! i)) in
         if addr < r_end \<and> r_addr < e then
           (let addr' = min addr r_addr; e' = max e r_end
            in merge_reserved addr' (e' - addr') e' i (butlast (rs[i := last rs])))
         else merge_reserved addr sz e (i + 1) rs)
      else (addr, sz, rs))"
  by pat_completeness auto
termination
  by (relation "measure (\<lambda>(addr, sz, e, i, rs). length rs - i)") (auto simp: Let_def)

declare merge_reserved.simps [simp del]

definition add_reserved :: "board_params \<Rightarrow> usize \<Rightarrow> usize \<Rightarrow> board_params" where
  "add_reserved p addr sz =
     (if addr = 0 \<or> sz = 0 then p
      else
        (let (addr', sz', rs) = merge_reserved addr sz (sat_add addr sz) 0 (bp_reserved p)
         in p\<lparr>bp_reserved := (if length rs < 8 then rs @ [(addr', sz')] else rs)\<rparr>))"

record fdt =
  f_addr :: usize
  f_total :: usize
  f_off_struct :: usize
  f_off_strings :: usize
  f_off_rsvmap :: usize
  f_size_struct :: usize
  f_size_strings :: usize

section \<open>Reading\<close>

definition be32 :: "mem \<Rightarrow> usize \<Rightarrow> u32" where
  "be32 m a = push_bit 24 (ucast (m a)) OR push_bit 16 (ucast (m (a + 1))) OR push_bit 8 (ucast (m (a + 2))) OR ucast (m (a + 3))"

text \<open>Two cells, \<^verbatim>\<open>(hi as u64) << 32 | lo as u64\<close>.\<close>

definition cells2 :: "u32 \<Rightarrow> u32 \<Rightarrow> usize" where
  "cells2 hi lo = unat (push_bit 32 (ucast hi) OR ucast lo :: u64)"

definition slice :: "mem \<Rightarrow> usize \<Rightarrow> nat \<Rightarrow> bytes" where
  "slice m a n = map (\<lambda>i. m (a + i)) [0..<n]"

text \<open>The number of bytes before a zero byte, at most \<open>max_len\<close>.\<close>

function cstr_len :: "mem \<Rightarrow> usize \<Rightarrow> nat \<Rightarrow> nat \<Rightarrow> nat" where
  "cstr_len m a max_len n = (if n < max_len then (if m (a + n) = 0 then n else cstr_len m a max_len (n + 1)) else n)"
  by pat_completeness auto
termination
  by (relation "measure (\<lambda>(m, a, max_len, n). max_len - n)") auto

declare cstr_len.simps [simp del]

text \<open>\<^verbatim>\<open>core::str::from_utf8\<close>: the well-formed byte sequences of the Unicode standard.\<close>

definition within :: "byte \<Rightarrow> byte \<Rightarrow> byte \<Rightarrow> bool" where
  "within lo b hi \<longleftrightarrow> lo \<le> b \<and> b \<le> hi"

fun utf8 :: "bytes \<Rightarrow> bool" where
  "utf8 [] = True"
| "utf8 (a # r) =
     (if a < 0x80 then utf8 r
      else if within 0xC2 a 0xDF then (case r of b # r' \<Rightarrow> within 0x80 b 0xBF \<and> utf8 r' | _ \<Rightarrow> False)
      else if within 0xE0 a 0xEF then
        (case r of
           b # c # r' \<Rightarrow> within (if a = 0xE0 then 0xA0 else 0x80) b (if a = 0xED then 0x9F else 0xBF) \<and> within 0x80 c 0xBF \<and> utf8 r'
         | _ \<Rightarrow> False)
      else if within 0xF0 a 0xF4 then
        (case r of
           b # c # d # r' \<Rightarrow> within (if a = 0xF0 then 0x90 else 0x80) b (if a = 0xF4 then 0x8F else 0xBF) \<and>
             within 0x80 c 0xBF \<and> within 0x80 d 0xBF \<and> utf8 r'
         | _ \<Rightarrow> False)
      else False)"

definition header_word :: "mem \<Rightarrow> usize \<Rightarrow> nat \<Rightarrow> usize" where
  "header_word m a off = unat (be32 m (a + off))"

definition fdt_new :: "mem \<Rightarrow> usize \<Rightarrow> fdt option" where
  "fdt_new m a =
     (let max_phys = 2 ^ 56 - 1; beyond = (\<lambda>lim x. case x of None \<Rightarrow> True | Some e \<Rightarrow> lim < e) in
      if a = 0 \<or> a mod 8 \<noteq> 0 then None
      else if beyond max_phys (uadd a 40) then None
      else if be32 m a \<noteq> FDT_MAGIC then None
      else
        (let total = header_word m a 4; off_struct = header_word m a 8; off_strings = header_word m a 12;
             off_rsvmap = header_word m a 16; size_strings = header_word m a 32; size_struct = header_word m a 36 in
         if total < 40 \<or> 16 * 1024 * 1024 < total \<or> beyond max_phys (uadd a total) then None
         else if total < sat_add off_struct size_struct \<or> total < sat_add off_strings size_strings \<or>
           beyond total (uadd off_rsvmap 16) then None
         else Some \<lparr>f_addr = a, f_total = total, f_off_struct = off_struct, f_off_strings = off_strings,
           f_off_rsvmap = off_rsvmap, f_size_struct = size_struct, f_size_strings = size_strings\<rparr>))"

definition read_string :: "mem \<Rightarrow> fdt \<Rightarrow> usize \<Rightarrow> bytes option" where
  "read_string m f off =
     (if f_size_strings f \<le> off then None
      else
        (let start = f_addr f + (f_off_strings f + off); n = cstr_len m start (f_size_strings f - off) 0 in
         if n = 0 then None
         else if utf8 (slice m start n) then Some (slice m start n) else None))"

section \<open>Properties of nodes\<close>

definition ascii :: "string \<Rightarrow> bytes" where
  "ascii s = map of_char s"

definition starts_with :: "bytes \<Rightarrow> bytes \<Rightarrow> bool" where
  "starts_with node p \<longleftrightarrow> take (length p) node = p"

text \<open>\<^verbatim>\<open>node == name || node.starts_with(name@)\<close>\<close>

definition named :: "bytes \<Rightarrow> string \<Rightarrow> bool" where
  "named node s \<longleftrightarrow> node = ascii s \<or> starts_with node (ascii (s @ ''@''))"

definition serial_node :: "bytes \<Rightarrow> bool" where
  "serial_node node \<longleftrightarrow> named node ''uart'' \<or> named node ''serial''"

definition has_window :: "bytes \<Rightarrow> bytes \<Rightarrow> bool" where
  "has_window w b \<longleftrightarrow> (\<exists>i\<in>set [0..<length b + 1 - length w]. take (length w) (drop i b) = w)"

definition hex_digit :: "byte \<Rightarrow> nat option" where
  "hex_digit c =
     (if within 0x30 c 0x39 then Some (unat c - 0x30)
      else if within 0x61 c 0x66 then Some (unat c - 0x61 + 10)
      else if within 0x41 c 0x46 then Some (unat c - 0x41 + 10)
      else None)"

fun parse_digits :: "bytes \<Rightarrow> usize \<Rightarrow> usize option" where
  "parse_digits [] v = Some v"
| "parse_digits (c # cs) v = do { d \<leftarrow> hex_digit c; x \<leftarrow> umul v 16; y \<leftarrow> uadd x d; parse_digits cs y }"

definition parse_hex :: "bytes \<Rightarrow> usize option" where
  "parse_hex s = (if s = [] \<or> 16 < length s then None else parse_digits s 0)"

text \<open>The node name behind its first \<^verbatim>\<open>@\<close>.\<close>

definition unit_address :: "bytes \<Rightarrow> bytes option" where
  "unit_address node = (if 0x40 \<in> set node then Some (tl (dropWhile (\<lambda>c. c \<noteq> 0x40) node)) else None)"

definition handle_memory_reg :: "mem \<Rightarrow> usize \<Rightarrow> nat \<Rightarrow> board_params \<Rightarrow> board_params" where
  "handle_memory_reg m v len p =
     (if 16 \<le> len then p\<lparr>bp_ram_start := cells2 (be32 m v) (be32 m (v + 4)), bp_ram_size := cells2 (be32 m (v + 8)) (be32 m (v + 12))\<rparr>
      else if 8 \<le> len then p\<lparr>bp_ram_start := unat (be32 m v), bp_ram_size := unat (be32 m (v + 4))\<rparr>
      else p)"

definition handle_compatible :: "mem \<Rightarrow> bytes \<Rightarrow> usize \<Rightarrow> nat \<Rightarrow> board_params \<Rightarrow> board_params" where
  "handle_compatible m node v len p =
     (if serial_node node \<and> bp_uart_base p = 0 \<and>
         (has_window (ascii ''ns16550'') (slice m v len) \<or> has_window (ascii ''ns16550a'') (slice m v len)) then
        (case unit_address node of
           None \<Rightarrow> p
         | Some s \<Rightarrow> (case parse_hex s of None \<Rightarrow> p | Some addr \<Rightarrow> p\<lparr>bp_uart_base := addr\<rparr>))
      else p)"

definition handle_uart_reg :: "mem \<Rightarrow> usize \<Rightarrow> nat \<Rightarrow> board_params \<Rightarrow> board_params" where
  "handle_uart_reg m v len p =
     (let addr = (if 8 \<le> len then cells2 (be32 m v) (be32 m (v + 4)) else if 4 \<le> len then unat (be32 m v) else 0)
      in if addr \<noteq> 0 then p\<lparr>bp_uart_base := addr\<rparr> else p)"

definition handle_isa :: "mem \<Rightarrow> usize \<Rightarrow> nat \<Rightarrow> board_params \<Rightarrow> board_params" where
  "handle_isa m v len p0 =
     (let p = p0\<lparr>bp_cpu_count := sat_add (bp_cpu_count p0) 1\<rparr> in
      if bp_isa_string p \<noteq> [] then p
      else if 0 < len \<and> len < 128 then
        (let n = cstr_len m v len 0
         in if 0 < n \<and> utf8 (slice m v n) then p\<lparr>bp_isa_string := slice m v n\<rparr> else p)
      else p)"

definition handle_prop :: "mem \<Rightarrow> fdt \<Rightarrow> bytes \<Rightarrow> usize \<Rightarrow> usize \<Rightarrow> nat \<Rightarrow> board_params \<Rightarrow> board_params" where
  "handle_prop m f node name_off val_start prop_len p =
     (case read_string m f name_off of
        None \<Rightarrow> p
      | Some name \<Rightarrow>
          (let v = f_addr f + val_start in
           if name = ascii ''reg'' \<and> named node ''memory'' then handle_memory_reg m v prop_len p
           else if name = ascii ''timebase-frequency'' \<and> named node ''cpus'' then
             (if 4 \<le> prop_len then p\<lparr>bp_timebase_freq := unat (be32 m v)\<rparr> else p)
           else if name = ascii ''clock-frequency'' \<and> serial_node node \<and> bp_uart_clock p = 0 then
             (if 4 \<le> prop_len then p\<lparr>bp_uart_clock := unat (be32 m v)\<rparr> else p)
           else if name = ascii ''compatible'' then handle_compatible m node v prop_len p
           else if name = ascii ''reg'' \<and> serial_node node \<and> bp_uart_base p = 0 then handle_uart_reg m v prop_len p
           else if name = ascii ''riscv,isa'' \<and> starts_with node (ascii ''cpu@'') then handle_isa m v prop_len p
           else p))"

section \<open>The walk over the structure block\<close>

record walk =
  w_pos :: usize
  w_node :: bytes
  w_stack :: "bytes list"
  w_depth :: nat
  w_exceeded :: bool
  w_params :: board_params

definition walk_start :: "fdt \<Rightarrow> board_params \<Rightarrow> walk" where
  "walk_start f p = \<lparr>w_pos = f_off_struct f, w_node = [], w_stack = replicate 8 [], w_depth = 0, w_exceeded = False, w_params = p\<rparr>"

function read_name :: "mem \<Rightarrow> usize \<Rightarrow> usize \<Rightarrow> usize \<Rightarrow> bytes \<Rightarrow> usize \<times> bytes" where
  "read_name m base e pos node =
     (if pos < e \<and> length node < 63 then
        (let c = m (base + pos) in if c = 0 then (pos, node) else read_name m base e (pos + 1) (node @ [c]))
      else (pos, node))"
  by pat_completeness auto
termination
  by (relation "measure (\<lambda>(m, base, e, pos, node). e - pos)") auto

declare read_name.simps [simp del]

function skip_name :: "mem \<Rightarrow> usize \<Rightarrow> usize \<Rightarrow> usize \<Rightarrow> usize" where
  "skip_name m base e pos = (if pos < e then (if m (base + pos) = 0 then pos + 1 else skip_name m base e (pos + 1)) else pos)"
  by pat_completeness auto
termination
  by (relation "measure (\<lambda>(m, base, e, pos). e - pos)") auto

declare skip_name.simps [simp del]

text \<open>\<^verbatim>\<open>(x + 3) & !3\<close>\<close>

definition pad4 :: "usize \<Rightarrow> usize outcome" where
  "pad4 x = do { y \<leftarrow> uadd x 3; Some (y div 4 * 4) }"

definition begin_node :: "mem \<Rightarrow> fdt \<Rightarrow> usize \<Rightarrow> walk \<Rightarrow> walk outcome" where
  "begin_node m f e w = do {
     let stack = (if w_depth w < 8 then (w_stack w)[w_depth w := w_node w] else w_stack w);
     depth \<leftarrow> uadd (w_depth w) 1;
     let exceeded = (if 8 < depth then True else w_exceeded w);
     let (pos, node) = read_name m (f_addr f) e (w_pos w) [];
     pos' \<leftarrow> (if 63 \<le> length node then Some (skip_name m (f_addr f) e pos) else uadd pos 1);
     pos'' \<leftarrow> pad4 pos';
     Some (w\<lparr>w_pos := pos'', w_node := node, w_stack := stack, w_depth := depth, w_exceeded := exceeded\<rparr>) }"

definition end_node :: "walk \<Rightarrow> walk" where
  "end_node w =
     (let depth = w_depth w - 1
      in w\<lparr>w_depth := depth, w_node := (if depth < 8 then w_stack w ! depth else w_node w), w_exceeded := 8 < depth\<rparr>)"

text \<open>A property; the flag of the result is false when the walk ends here.\<close>

definition prop_token :: "mem \<Rightarrow> fdt \<Rightarrow> usize \<Rightarrow> walk \<Rightarrow> (walk \<times> bool) outcome" where
  "prop_token m f e w = do {
     val_start \<leftarrow> uadd (w_pos w) 8;
     if e < val_start then Some (w, False)
     else do {
       let prop_len = unat (be32 m (f_addr f + w_pos w));
       let name_off = unat (be32 m (f_addr f + w_pos w + 4));
       padded \<leftarrow> pad4 prop_len;
       (case uadd val_start padded of
          None \<Rightarrow> Some (w\<lparr>w_pos := val_start\<rparr>, False)
        | Some pos \<Rightarrow>
            if e < pos then Some (w\<lparr>w_pos := val_start\<rparr>, False)
            else if w_exceeded w then Some (w\<lparr>w_pos := pos\<rparr>, True)
            else Some (w\<lparr>w_pos := pos, w_params := handle_prop m f (w_node w) name_off val_start prop_len (w_params w)\<rparr>, True)) }}"

definition walk_token :: "mem \<Rightarrow> fdt \<Rightarrow> usize \<Rightarrow> u32 \<Rightarrow> walk \<Rightarrow> (walk \<times> bool) outcome" where
  "walk_token m f e token w =
     (if token = FDT_BEGIN_NODE then do { w' \<leftarrow> begin_node m f e w; Some (w', True) }
      else if token = FDT_END_NODE then Some (end_node w, True)
      else if token = FDT_PROP then prop_token m f e w
      else if token = FDT_NOP then Some (w, True)
      else Some (w, False))"

partial_function (option) walk_loop :: "mem \<Rightarrow> fdt \<Rightarrow> usize \<Rightarrow> walk \<Rightarrow> walk outcome" where
  "walk_loop m f e w = do {
     pos \<leftarrow> uadd (w_pos w) 4;
     if pos \<le> e then do {
       (w', go) \<leftarrow> walk_token m f e (be32 m (f_addr f + w_pos w)) (w\<lparr>w_pos := pos\<rparr>);
       if go then walk_loop m f e w' else Some w' }
     else Some w }"

declare walk_loop.simps [code]

partial_function (option) rsvmap_loop :: "mem \<Rightarrow> fdt \<Rightarrow> usize \<Rightarrow> board_params \<Rightarrow> board_params outcome" where
  "rsvmap_loop m f off p =
     (case uadd off 16 of
        None \<Rightarrow> Some p
      | Some off' \<Rightarrow>
          if f_total f < off' then Some p
          else
            (let a = f_addr f + off;
                 addr = cells2 (be32 m a) (be32 m (a + 4));
                 sz = cells2 (be32 m (a + 8)) (be32 m (a + 12))
             in if addr = 0 \<and> sz = 0 then Some p
                else rsvmap_loop m f off' (add_reserved p addr sz)))"

declare rsvmap_loop.simps [code]

definition fdt_parse :: "mem \<Rightarrow> fdt \<Rightarrow> board_params outcome" where
  "fdt_parse m f = do {
     p \<leftarrow> rsvmap_loop m f (f_off_rsvmap f) (add_reserved params_empty (f_addr f) (f_total f));
     let struct_end = min (sat_add (f_off_struct f) (f_size_struct f)) (f_total f);
     w \<leftarrow> walk_loop m f struct_end (walk_start f p);
     Some (w_params w) }"

end
