(* ===== verification/Fdt_Inv.thy ===== *)
theory Fdt_Inv
  imports Fdt
begin

text \<open>
  The device tree parser on arbitrary memory: the reserved ranges stay disjoint, the loops end, and
  nothing outside the blob is read.
\<close>

section \<open>Reserved ranges\<close>

definition rspan :: "usize \<times> usize \<Rightarrow> usize set" where
  "rspan r = {fst r ..< sat_add (fst r) (snd r)}"

definition rspans :: "(usize \<times> usize) list \<Rightarrow> usize set" where
  "rspans rs = (\<Union>r\<in>set rs. rspan r)"

definition apart :: "(usize \<times> usize) list \<Rightarrow> bool" where
  "apart rs \<longleftrightarrow> (\<forall>i<length rs. \<forall>j<length rs. i \<noteq> j \<longrightarrow> rspan (rs ! i) \<inter> rspan (rs ! j) = {})"

text \<open>Overwriting an entry with the last one and dropping the last removes exactly that entry.\<close>

lemma swap_remove:
  assumes "i < length rs"
  defines "rs' \<equiv> butlast (rs[i := last rs])"
  shows "length rs' = length rs - 1" "set rs' \<subseteq> set rs" "rspans rs = rspan (rs ! i) \<union> rspans rs'"
    "apart rs \<Longrightarrow> apart rs'" "\<And>j. j < i \<Longrightarrow> j < length rs' \<Longrightarrow> rs' ! j = rs ! j"
    "apart rs \<Longrightarrow> r \<in> set rs' \<Longrightarrow> rspan r \<inter> rspan (rs ! i) = {}"
proof -
  define f where "f j = (if j = i then length rs - 1 else j)" for j
  show len: "length rs' = length rs - 1" by (simp add: rs'_def)
  have nth: "rs' ! j = rs ! f j" if "j < length rs'" for j
  proof -
    have "last rs = rs ! (length rs - 1)" by (rule last_conv_nth) (use assms(1) in auto)
    then show ?thesis using that len assms(1) by (simp add: rs'_def nth_butlast nth_list_update f_def)
  qed
  have fl: "f j < length rs" "f j \<noteq> i" if "j < length rs'" for j using that len by (auto simp: f_def split: if_splits)
  have inj: "f j = f k \<Longrightarrow> j = k" if "j < length rs'" "k < length rs'" for j k using that len by (auto simp: f_def split: if_splits)
  show sub: "set rs' \<subseteq> set rs" using nth fl by (auto simp: set_conv_nth)
  show "rspans rs = rspan (rs ! i) \<union> rspans rs'"
  proof (intro equalityI subsetI)
    fix x assume "x \<in> rspans rs"
    then obtain k where k: "k < length rs" "x \<in> rspan (rs ! k)" by (auto simp: rspans_def set_conv_nth)
    show "x \<in> rspan (rs ! i) \<union> rspans rs'"
    proof (cases "k = i")
      case False
      define j where "j = (if k = length rs - 1 then i else k)"
      have "j < length rs'" "f j = k" using False k(1) assms(1) len by (auto simp: j_def f_def split: if_splits)
      then have "rs ! k \<in> set rs'" using nth [of j] by (metis nth_mem)
      then show ?thesis using k(2) by (auto simp: rspans_def)
    qed (use k in simp)
  next
    fix x assume "x \<in> rspan (rs ! i) \<union> rspans rs'"
    then show "x \<in> rspans rs" using sub assms(1) nth_mem [of i rs] by (auto simp: rspans_def)
  qed
  show "rs' ! j = rs ! j" if "j < i" "j < length rs'" for j using nth [OF that(2)] that(1) by (simp add: f_def)
  show "apart rs'" if a: "apart rs"
    unfolding apart_def
  proof (intro allI impI)
    fix j k assume jk: "j < length rs'" "k < length rs'" "j \<noteq> k"
    then have "f j \<noteq> f k" using inj by blast
    then show "rspan (rs' ! j) \<inter> rspan (rs' ! k) = {}" using a nth fl jk unfolding apart_def by auto
  qed
  show "rspan r \<inter> rspan (rs ! i) = {}" if a: "apart rs" and r: "r \<in> set rs'"
  proof -
    obtain j where "j < length rs'" "r = rs' ! j" using r by (auto simp: set_conv_nth)
    then show ?thesis using a nth fl assms(1) unfolding apart_def by auto
  qed
qed

lemma interval_union:
  fixes a b c d :: nat
  assumes "a < d" "c < b" "a \<le> b" "c \<le> d"
  shows "{min a c ..< max b d} = {a..<b} \<union> {c..<d}"
  using assms by auto

lemma sat_add_le: "sat_add a b \<le> USIZE_MAX"
  by (simp add: sat_add_def)

lemma sat_add_diff: "a \<le> e \<Longrightarrow> e \<le> USIZE_MAX \<Longrightarrow> sat_add a (e - a) = e"
  by (simp add: sat_add_def)

lemma merge_reserved_ok:
  assumes "e = sat_add addr sz" "addr \<le> USIZE_MAX" "apart rs" "\<forall>r\<in>set rs. fst r \<le> USIZE_MAX"
    and "\<And>j. j < i \<Longrightarrow> j < length rs \<Longrightarrow> rspan (rs ! j) \<inter> {addr..<e} = {}"
    and "merge_reserved addr sz e i rs = (addr', sz', rs')"
  shows "rspan (addr', sz') \<union> rspans rs' = {addr..<e} \<union> rspans rs \<and> apart rs' \<and> set rs' \<subseteq> set rs \<and> addr' \<le> USIZE_MAX \<and>
    (\<forall>r\<in>set rs'. rspan r \<inter> rspan (addr', sz') = {}) \<and> length rs' \<le> length rs \<and>
    (length rs' < length rs \<or> (addr', sz', rs') = (addr, sz, rs))"
  using assms
proof (induction addr sz e i rs rule: merge_reserved.induct)
  case (1 addr sz e i rs)
  show ?case
  proof (cases "i < length rs")
    case False
    then have r: "addr' = addr" "sz' = sz" "rs' = rs" using 1(8) by (simp_all add: merge_reserved.simps [of addr])
    have "rspan r \<inter> rspan (addr, sz) = {}" if "r \<in> set rs" for r
      using that False 1(7) unfolding 1(3) rspan_def [of "(addr, sz)"] by (auto simp: set_conv_nth)
    then show ?thesis using r 1(3,4,5) by (simp add: rspan_def)
  next
    case True
    define ra where "ra = fst (rs ! i)"
    define re where "re = sat_add ra (snd (rs ! i))"
    have ri: "rspan (rs ! i) = {ra..<re}" by (simp add: rspan_def ra_def re_def)
    have rb: "ra \<le> USIZE_MAX" using 1(6) True by (simp add: ra_def)
    have le: "ra \<le> re" "re \<le> USIZE_MAX" "addr \<le> e" "e \<le> USIZE_MAX"
      using rb 1(3,4) sat_add_le by (auto simp: re_def sat_add_def)
    show ?thesis
    proof (cases "addr < re \<and> ra < e")
      case hit: True
      let ?a = "min addr ra" and ?e = "max e re" and ?rs = "butlast (rs[i := last rs])"
      note sr = swap_remove [OF True]
      have un: "{?a..<?e} = {addr..<e} \<union> {ra..<re}" by (rule interval_union) (use hit le in auto)
      have eq: "merge_reserved ?a (?e - ?a) ?e i ?rs = (addr', sz', rs')"
        using 1(8) True hit by (simp add: merge_reserved.simps [of addr] ra_def re_def Let_def)
      have IH: "rspan (addr', sz') \<union> rspans rs' = {?a..<?e} \<union> rspans ?rs \<and> apart rs' \<and> set rs' \<subseteq> set ?rs \<and> addr' \<le> USIZE_MAX \<and>
          (\<forall>r\<in>set rs'. rspan r \<inter> rspan (addr', sz') = {}) \<and> length rs' \<le> length ?rs \<and>
          (length rs' < length ?rs \<or> (addr', sz', rs') = (?a, ?e - ?a, ?rs))"
        unfolding re_def ra_def
      proof (rule 1(1) [OF True refl refl _ refl refl])
        show "addr < sat_add (fst (rs ! i)) (snd (rs ! i)) \<and> fst (rs ! i) < e" using hit by (simp add: ra_def re_def)
        show "max e (sat_add (fst (rs ! i)) (snd (rs ! i))) = sat_add (min addr (fst (rs ! i)))
            (max e (sat_add (fst (rs ! i)) (snd (rs ! i))) - min addr (fst (rs ! i)))"
          unfolding ra_def [symmetric] re_def [symmetric] by (rule sat_add_diff [symmetric]) (use le in auto)
        show "min addr (fst (rs ! i)) \<le> USIZE_MAX" using 1(4) by simp
        show "apart ?rs" by (rule sr(4) [OF 1(5)])
        show "\<forall>r\<in>set ?rs. fst r \<le> USIZE_MAX" using sr(2) 1(6) by blast
        show "rspan (?rs ! j) \<inter> {min addr (fst (rs ! i))..<max e (sat_add (fst (rs ! i)) (snd (rs ! i)))} = {}"
          if "j < i" "j < length ?rs" for j
        proof -
          have "rspan (rs ! j) \<inter> {addr..<e} = {}" by (rule 1(7)) (use that sr(1) in auto)
          moreover have "rspan (rs ! j) \<inter> rspan (rs ! i) = {}" using 1(5) that sr(1) True unfolding apart_def by auto
          ultimately show ?thesis using sr(5) [OF that] un ri unfolding ra_def [symmetric] re_def [symmetric] by auto
        qed
        show "merge_reserved (min addr (fst (rs ! i)))
            (max e (sat_add (fst (rs ! i)) (snd (rs ! i))) - min addr (fst (rs ! i)))
            (max e (sat_add (fst (rs ! i)) (snd (rs ! i)))) i ?rs = (addr', sz', rs')"
          using eq by (simp add: ra_def re_def)
      qed
      have "rspan (addr', sz') \<union> rspans rs' = {addr..<e} \<union> rspans rs" using IH un sr(3) ri by auto
      moreover have "length rs' < length rs"
      proof -
        have "length rs' \<le> length rs - 1" using IH unfolding sr(1) by blast
        then show ?thesis using True by linarith
      qed
      ultimately show ?thesis using IH sr(2) by auto
    next
      case miss: False
      have eqF: "(addr < sat_add (fst (rs ! i)) (snd (rs ! i)) \<and> fst (rs ! i) < e) = False"
        using miss unfolding re_def ra_def by blast
      have dj: "rspan (rs ! i) \<inter> {addr..<e} = {}" using miss unfolding ri by auto
      show ?thesis
      proof (rule 1(2) [OF True refl refl])
        show "\<not> (addr < sat_add (fst (rs ! i)) (snd (rs ! i)) \<and> fst (rs ! i) < e)" unfolding eqF by blast
        show "rspan (rs ! j) \<inter> {addr..<e} = {}" if "j < i + 1" "j < length rs" for j
          using 1(7) [of j] that dj by (cases "j = i") auto
        show "merge_reserved addr sz e (i + 1) rs = (addr', sz', rs')"
          using 1(8) True unfolding merge_reserved.simps [of addr sz e i] Let_def eqF by simp
      qed (rule 1(3,4,5,6))+
    qed
  qed
qed

definition reserved_ok :: "board_params \<Rightarrow> bool" where
  "reserved_ok p \<longleftrightarrow> length (bp_reserved p) \<le> 8 \<and> apart (bp_reserved p) \<and> (\<forall>r\<in>set (bp_reserved p). fst r \<le> USIZE_MAX)"

lemma apart_snoc:
  assumes "apart rs" "\<forall>r\<in>set rs. rspan r \<inter> rspan x = {}"
  shows "apart (rs @ [x])"
  unfolding apart_def
proof (intro allI impI)
  fix i j assume "i < length (rs @ [x])" "j < length (rs @ [x])" "i \<noteq> j"
  then consider "i < length rs" "j < length rs" | "i < length rs" "j = length rs" | "i = length rs" "j < length rs"
    by fastforce
  then show "rspan ((rs @ [x]) ! i) \<inter> rspan ((rs @ [x]) ! j) = {}"
    by cases (use assms \<open>i \<noteq> j\<close> in \<open>auto simp: apart_def nth_append\<close>)
qed

text \<open>
  Adding a range keeps the ranges disjoint and never uncovers an address; the range itself is covered
  unless the list is full and it overlaps nothing.
\<close>

lemma add_reserved_ok:
  assumes "reserved_ok p" "addr \<le> USIZE_MAX"
  shows "reserved_ok (add_reserved p addr sz)" "rspans (bp_reserved p) \<subseteq> rspans (bp_reserved (add_reserved p addr sz))"
    "length (bp_reserved p) < 8 \<Longrightarrow> addr \<noteq> 0 \<Longrightarrow> sz \<noteq> 0 \<Longrightarrow> rspan (addr, sz) \<subseteq> rspans (bp_reserved (add_reserved p addr sz))"
proof -
  let ?rs = "bp_reserved p"
  obtain a' s' rs' where mr: "merge_reserved addr sz (sat_add addr sz) 0 ?rs = (a', s', rs')" by (metis prod_cases3)
  have d: "length ?rs \<le> 8" "apart ?rs" "\<forall>r\<in>set ?rs. fst r \<le> USIZE_MAX" using assms(1) unfolding reserved_ok_def by blast+
  note k = merge_reserved_ok [OF refl assms(2) d(2,3) _ mr]
  have un: "rspan (a', s') \<union> rspans rs' = rspan (addr, sz) \<union> rspans ?rs" using k by (simp add: rspan_def)
  have snoc: "rspans (rs' @ [(a', s')]) = rspan (a', s') \<union> rspans rs'" by (auto simp: rspans_def)
  have e: "bp_reserved (add_reserved p addr sz) =
      (if addr = 0 \<or> sz = 0 then ?rs else if length rs' < 8 then rs' @ [(a', s')] else rs')"
    by (simp add: add_reserved_def mr)
  have full: "rs' = ?rs" if "\<not> length rs' < 8" using k that d(1) by auto
  show "reserved_ok (add_reserved p addr sz)"
    unfolding reserved_ok_def e using k d assms(1) apart_snoc [of rs' "(a', s')"] by (auto simp: reserved_ok_def)
  show "rspans ?rs \<subseteq> rspans (bp_reserved (add_reserved p addr sz))" unfolding e using un snoc full by auto
  show "rspan (addr, sz) \<subseteq> rspans (bp_reserved (add_reserved p addr sz))" if "length ?rs < 8" "addr \<noteq> 0" "sz \<noteq> 0"
    unfolding e using un snoc full that by auto
qed

section \<open>Reading inside the blob\<close>

definition fdt_wf :: "fdt \<Rightarrow> bool" where
  "fdt_wf f \<longleftrightarrow> 0 < f_addr f \<and> f_addr f + f_total f \<le> 2 ^ 56 \<and> 40 \<le> f_total f \<and> f_total f \<le> 2 ^ 24 \<and>
     f_off_struct f + f_size_struct f \<le> f_total f \<and> f_off_strings f + f_size_strings f \<le> f_total f \<and>
     f_off_rsvmap f + 16 \<le> f_total f"

definition same_blob :: "fdt \<Rightarrow> mem \<Rightarrow> mem \<Rightarrow> bool" where
  "same_blob f m m' \<longleftrightarrow> (\<forall>x. f_addr f \<le> x \<longrightarrow> x < f_addr f + f_total f \<longrightarrow> m' x = m x)"

lemma same_blob_at: "same_blob f m m' \<Longrightarrow> i < f_total f \<Longrightarrow> m' (f_addr f + i) = m (f_addr f + i)"
  by (simp add: same_blob_def)

lemma header_word_less: "header_word m a off < 2 ^ 32"
  unfolding header_word_def using unsigned_less [of "be32 m (a + off)"] by simp

lemma fdt_new_wf:
  assumes "fdt_new m a = Some f"
  shows "fdt_wf f" "f_addr f = a" "a + 40 \<le> 2 ^ 56"
proof -
  note h = header_word_less [of m a]
  have "fdt_wf f \<and> f_addr f = a \<and> a + 40 \<le> 2 ^ 56"
    using assms h [of 4] h [of 8] h [of 12] h [of 16] h [of 32] h [of 36]
    by (auto simp: fdt_new_def Let_def fdt_wf_def uadd_def sat_add_def split: if_splits)
  then show "fdt_wf f" "f_addr f = a" "a + 40 \<le> 2 ^ 56" by blast+
qed

lemma be32_cong: "(\<And>x. a \<le> x \<Longrightarrow> x < a + 4 \<Longrightarrow> m' x = m x) \<Longrightarrow> be32 m' a = be32 m a"
  by (simp add: be32_def)

lemma be32_blob: "same_blob f m m' \<Longrightarrow> i + 4 \<le> f_total f \<Longrightarrow> be32 m' (f_addr f + i) = be32 m (f_addr f + i)"
  by (rule be32_cong) (simp add: same_blob_def)

lemma slice_cong: "(\<And>i. i < n \<Longrightarrow> m' (b + i) = m (a + i)) \<Longrightarrow> slice m' b n = slice m a n"
  by (simp add: slice_def)

lemma cstr_len_le: "n \<le> k \<Longrightarrow> cstr_len m a k n \<le> k"
  by (induction m a k n rule: cstr_len.induct) (simp add: cstr_len.simps)

lemma cstr_len_cong: "(\<And>i. i < k \<Longrightarrow> m' (b + i) = m (a + i)) \<Longrightarrow> cstr_len m' b k n = cstr_len m a k n"
proof (induction m a k n rule: cstr_len.induct)
  case (1 m a k n)
  then show ?case using 1 by (simp add: cstr_len.simps [of m' b k n] cstr_len.simps [of m a k n])
qed

lemma read_string_blob:
  assumes "fdt_wf f" "same_blob f m m'"
  shows "read_string m' f off = read_string m f off"
proof (cases "f_size_strings f \<le> off")
  case False
  let ?a = "f_addr f + (f_off_strings f + off)" and ?k = "f_size_strings f - off"
  have eq: "m' (?a + i) = m (?a + i)" if "i < ?k" for i
  proof -
    have "f_off_strings f + off + i < f_total f" using assms(1) that unfolding fdt_wf_def by linarith
    then show ?thesis using same_blob_at [OF assms(2)] by (simp add: add.assoc)
  qed
  have "cstr_len m' ?a ?k 0 = cstr_len m ?a ?k 0" by (rule cstr_len_cong) (rule eq)
  moreover have "slice m' ?a (cstr_len m ?a ?k 0) = slice m ?a (cstr_len m ?a ?k 0)"
    using cstr_len_le [of 0 ?k m ?a] by (intro slice_cong eq) simp
  ultimately show ?thesis by (simp add: read_string_def Let_def)
qed (simp add: read_string_def)

text \<open>A handler reads the value of the property only.\<close>

lemma handlers_cong:
  assumes at: "\<And>i. i < n \<Longrightarrow> m' (b + i) = m (a + i)"
  shows "handle_memory_reg m' b n p = handle_memory_reg m a n p" "handle_compatible m' node b n p = handle_compatible m node a n p"
    "handle_uart_reg m' b n p = handle_uart_reg m a n p" "handle_isa m' b n p = handle_isa m a n p"
    "4 \<le> n \<Longrightarrow> be32 m' b = be32 m a"
proof -
  have w4: "be32 m' (b + k) = be32 m (a + k)" if "k + 4 \<le> n" for k
    using at [of k] at [of "k + 1"] at [of "k + 2"] at [of "k + 3"] that by (simp add: be32_def add.assoc)
  show "be32 m' b = be32 m a" if "4 \<le> n" using w4 [of 0] that by simp
  have sl: "slice m' b k = slice m a k" if "k \<le> n" for k by (rule slice_cong) (use at that in simp)
  show "handle_memory_reg m' b n p = handle_memory_reg m a n p"
    using w4 [of 0] w4 [of 4] w4 [of 8] w4 [of 12] by (simp add: handle_memory_reg_def)
  show "handle_compatible m' node b n p = handle_compatible m node a n p"
    using sl [of n] by (simp add: handle_compatible_def)
  show "handle_uart_reg m' b n p = handle_uart_reg m a n p"
    using w4 [of 0] w4 [of 4] by (simp add: handle_uart_reg_def)
  have "cstr_len m' b n 0 = cstr_len m a n 0" by (rule cstr_len_cong) (rule at)
  moreover have "slice m' b (cstr_len m a n 0) = slice m a (cstr_len m a n 0)" by (rule sl) (simp add: cstr_len_le)
  ultimately show "handle_isa m' b n p = handle_isa m a n p" by (simp add: handle_isa_def Let_def)
qed

lemma handle_prop_blob:
  assumes w: "fdt_wf f" and b: "same_blob f m m'" and v: "v + n \<le> f_total f"
  shows "handle_prop m' f node off v n p = handle_prop m f node off v n p"
proof -
  have at: "m' (f_addr f + v + i) = m (f_addr f + v + i)" if "i < n" for i
    using same_blob_at [OF b, of "v + i"] v that by (simp add: add.assoc)
  note h = handlers_cong [of n m' "f_addr f + v" m "f_addr f + v", OF at]
  have 1: "handle_memory_reg m' (f_addr f + v) n p = handle_memory_reg m (f_addr f + v) n p"
    "handle_compatible m' node (f_addr f + v) n p = handle_compatible m node (f_addr f + v) n p"
    "handle_uart_reg m' (f_addr f + v) n p = handle_uart_reg m (f_addr f + v) n p"
    "handle_isa m' (f_addr f + v) n p = handle_isa m (f_addr f + v) n p"
    by (rule h; assumption)+
  have 5: "(if 4 \<le> n then g (unat (be32 m' (f_addr f + v))) else p) = (if 4 \<le> n then g (unat (be32 m (f_addr f + v))) else p)"
    for g :: "nat \<Rightarrow> board_params" using h(5) by simp
  note 6 = 5 [of "\<lambda>x. p\<lparr>bp_timebase_freq := x\<rparr>"] 5 [of "\<lambda>x. p\<lparr>bp_uart_clock := x\<rparr>"]
  show ?thesis unfolding handle_prop_def read_string_blob [OF w b] Let_def 1 6 by (rule refl)
qed

lemma handle_reserved:
  "bp_reserved (handle_memory_reg m v n p) = bp_reserved p" "bp_reserved (handle_uart_reg m v n p) = bp_reserved p"
  "bp_reserved (handle_isa m v n p) = bp_reserved p" "bp_reserved (handle_compatible m node v n p) = bp_reserved p"
  unfolding handle_memory_reg_def handle_uart_reg_def handle_isa_def Let_def handle_compatible_def
  by (simp_all split: option.split)

lemma handle_prop_reserved: "bp_reserved (handle_prop m f node off v n p) = bp_reserved p"
  unfolding handle_prop_def Let_def
  by (cases "read_string m f off") (simp_all only: option.case if_distrib [of bp_reserved] handle_reserved, simp)

lemma read_name_blob:
  assumes "same_blob f m m'" "e \<le> f_total f"
  shows "read_name m' (f_addr f) e pos node = read_name m (f_addr f) e pos node"
  using assms
proof (induction m "f_addr f" e pos node rule: read_name.induct)
  case (1 m e pos node)
  show ?case
  proof (cases "pos < e \<and> length node < 63 \<and> m (f_addr f + pos) \<noteq> 0")
    case True
    then show ?thesis using 1(1) [OF _ refl] 1(2,3) same_blob_at [OF 1(2), of pos]
      by (simp add: read_name.simps [of m' "f_addr f" e pos] read_name.simps [of m "f_addr f" e pos] Let_def)
  next
    case False
    then show ?thesis using 1(3) same_blob_at [OF 1(2), of pos]
      by (auto simp: read_name.simps [of m' "f_addr f" e pos] read_name.simps [of m "f_addr f" e pos] Let_def)
  qed
qed

lemma read_name_pos:
  assumes "read_name m base e pos node = (pos', node')" "pos \<le> e"
  shows "pos \<le> pos' \<and> pos' \<le> e"
  using assms
proof (induction m base e pos node rule: read_name.induct)
  case (1 m base e pos node)
  show ?case
  proof (cases "pos < e \<and> length node < 63 \<and> m (base + pos) \<noteq> 0")
    case True
    then have "read_name m base e (pos + 1) (node @ [m (base + pos)]) = (pos', node')"
      using 1(2) by (simp add: read_name.simps [of m base e pos] Let_def)
    then have "pos + 1 \<le> pos' \<and> pos' \<le> e" using 1(1) [OF _ refl] True by simp
    then show ?thesis by simp
  next
    case False
    then have "pos' = pos" using 1(2) by (auto simp: read_name.simps [of m base e pos] Let_def split: if_splits)
    then show ?thesis using 1(3) by simp
  qed
qed

lemma skip_name_blob:
  "same_blob f m m' \<Longrightarrow> e \<le> f_total f \<Longrightarrow> skip_name m' (f_addr f) e pos = skip_name m (f_addr f) e pos"
proof (induction m "f_addr f" e pos rule: skip_name.induct)
  case (1 m e pos)
  then show ?case using same_blob_at [OF 1(2), of pos]
    by (simp add: skip_name.simps [of m' "f_addr f" e pos] skip_name.simps [of m "f_addr f" e pos])
qed

lemma skip_name_pos: "pos \<le> e \<Longrightarrow> pos \<le> skip_name m base e pos \<and> skip_name m base e pos \<le> e"
proof (induction m base e pos rule: skip_name.induct)
  case (1 m base e pos)
  show ?case
  proof (cases "pos < e \<and> m (base + pos) \<noteq> 0")
    case True
    then have "pos + 1 \<le> skip_name m base e (pos + 1) \<and> skip_name m base e (pos + 1) \<le> e" using 1(1) by simp
    moreover have "skip_name m base e pos = skip_name m base e (pos + 1)" using True by (simp add: skip_name.simps [of m base e pos])
    ultimately show ?thesis by linarith
  qed (use 1(2) in \<open>auto simp: skip_name.simps [of m base e pos]\<close>)
qed

section \<open>The walk ends inside the blob\<close>

definition walk_ok :: "usize \<Rightarrow> walk \<Rightarrow> bool" where
  "walk_ok e w \<longleftrightarrow> w_pos w \<le> e + 8 \<and> w_depth w \<le> w_pos w"

lemma pad4_ok: "x + 3 < USIZE_LIMIT \<Longrightarrow> \<exists>y. pad4 x = Some y \<and> x \<le> y \<and> y \<le> x + 3"
  unfolding pad4_def by (simp add: uadd_def)

lemma begin_node_ok:
  assumes b: "same_blob f m m'" "fdt_wf f" "e \<le> f_total f" and w: "w_pos w \<le> e" "w_depth w + 4 \<le> w_pos w"
  shows "\<exists>w'. begin_node m f e w = Some w' \<and> begin_node m' f e w = Some w' \<and> w_pos w \<le> w_pos w' \<and> walk_ok e w' \<and>
    w_params w' = w_params w"
proof -
  have lim: "e \<le> 2 ^ 24" using b(2,3) by (simp add: fdt_wf_def)
  obtain pos node where rn: "read_name m (f_addr f) e (w_pos w) [] = (pos, node)" by (cases "read_name m (f_addr f) e (w_pos w) []")
  have pos: "w_pos w \<le> pos" "pos \<le> e" using read_name_pos [OF rn w(1)] by blast+
  define pos' where "pos' = (if 63 \<le> length node then skip_name m (f_addr f) e pos else pos + 1)"
  have pos': "pos \<le> pos'" "pos' \<le> e + 1" using skip_name_pos [OF pos(2), of m "f_addr f"] pos by (auto simp: pos'_def)
  then obtain p2 where p2: "pad4 pos' = Some p2" "pos' \<le> p2" "p2 \<le> pos' + 3" using pad4_ok [of pos'] lim by auto
  have o: "(if 63 \<le> length node then Some (skip_name m (f_addr f) e pos) else uadd pos 1) = Some pos'"
    using pos lim by (simp add: pos'_def uadd_def)
  have dep: "uadd (w_depth w) 1 = Some (w_depth w + 1)" using w lim by (simp add: uadd_def)
  let ?w = "w\<lparr>w_pos := p2, w_node := node, w_stack := (if w_depth w < 8 then (w_stack w)[w_depth w := w_node w] else w_stack w),
    w_depth := w_depth w + 1, w_exceeded := (if 8 < w_depth w + 1 then True else w_exceeded w)\<rparr>"
  have "begin_node m f e w = Some ?w" unfolding begin_node_def dep rn Let_def by (simp only: prod.case Option.bind.simps o p2(1))
  moreover have "begin_node m' f e w = Some ?w"
    unfolding begin_node_def dep read_name_blob [OF b(1,3)] skip_name_blob [OF b(1,3)] rn Let_def
    by (simp only: prod.case Option.bind.simps o p2(1))
  ultimately show ?thesis using pos pos' p2 w by (intro exI [of _ ?w]) (simp add: walk_ok_def)
qed

lemma prop_token_ok:
  assumes b: "same_blob f m m'" "fdt_wf f" "e \<le> f_total f" and w: "w_pos w \<le> e" "w_depth w + 4 \<le> w_pos w"
  shows "\<exists>w' go. prop_token m f e w = Some (w', go) \<and> prop_token m' f e w = Some (w', go) \<and> w_pos w \<le> w_pos w' \<and> walk_ok e w' \<and>
    bp_reserved (w_params w') = bp_reserved (w_params w)"
proof -
  have lim: "e \<le> 2 ^ 24" using b(2,3) by (simp add: fdt_wf_def)
  have v: "uadd (w_pos w) 8 = Some (w_pos w + 8)" using w lim by (simp add: uadd_def)
  show ?thesis
  proof (cases "e < w_pos w + 8")
    case True
    then show ?thesis using w v by (intro exI [of _ w] exI [of _ False]) (simp add: prop_token_def walk_ok_def)
  next
    case False
    let ?l = "unat (be32 m (f_addr f + w_pos w))" and ?o = "unat (be32 m (f_addr f + w_pos w + 4))"
    have r: "be32 m' (f_addr f + w_pos w) = be32 m (f_addr f + w_pos w)" "be32 m' (f_addr f + w_pos w + 4) = be32 m (f_addr f + w_pos w + 4)"
      using be32_blob [OF b(1), of "w_pos w"] be32_blob [OF b(1), of "w_pos w + 4"] False b(3) by (simp_all add: add.assoc)
    have "?l < 2 ^ 32" using unsigned_less [of "be32 m (f_addr f + w_pos w)"] by simp
    then obtain q where q: "pad4 ?l = Some q" "?l \<le> q" "q \<le> ?l + 3" "q < 2 ^ 33" using pad4_ok [of ?l] by fastforce
    have u: "uadd (w_pos w + 8) q = Some (w_pos w + 8 + q)" using q w lim by (simp add: uadd_def)
    let ?stop = "w\<lparr>w_pos := w_pos w + 8\<rparr>"
    let ?go = "(if w_exceeded w then w\<lparr>w_pos := w_pos w + 8 + q\<rparr>
      else w\<lparr>w_pos := w_pos w + 8 + q, w_params := handle_prop m f (w_node w) ?o (w_pos w + 8) ?l (w_params w)\<rparr>)"
    have hp: "handle_prop m' f (w_node w) ?o (w_pos w + 8) ?l (w_params w) = handle_prop m f (w_node w) ?o (w_pos w + 8) ?l (w_params w)"
      if "\<not> e < w_pos w + 8 + q"
      by (rule handle_prop_blob [OF b(2,1)]) (use that q b(3) in linarith)
    have 1: "prop_token m f e w = Some (if e < w_pos w + 8 + q then (?stop, False) else (?go, True))"
      using False v q(1) u by (simp add: prop_token_def Let_def)
    have 2: "prop_token m' f e w = prop_token m f e w"
      unfolding 1 using False v q(1) u hp r by (simp add: prop_token_def Let_def)
    show ?thesis
    proof (cases "e < w_pos w + 8 + q")
      case True
      then show ?thesis using w False 2 unfolding 1
        by (intro exI [of _ ?stop] exI [of _ False]) (simp add: walk_ok_def)
    next
      case F: False
      then show ?thesis using w 2 unfolding 1
        by (intro exI [of _ ?go] exI [of _ True]) (simp add: walk_ok_def handle_prop_reserved)
    qed
  qed
qed

lemma walk_token_ok:
  assumes b: "same_blob f m m'" "fdt_wf f" "e \<le> f_total f" and w: "w_pos w \<le> e" "w_depth w + 4 \<le> w_pos w"
  shows "\<exists>w' go. walk_token m f e t w = Some (w', go) \<and> walk_token m' f e t w = Some (w', go) \<and> w_pos w \<le> w_pos w' \<and> walk_ok e w' \<and>
    bp_reserved (w_params w') = bp_reserved (w_params w)"
proof -
  have "walk_ok e w" "walk_ok e (end_node w)" "w_pos (end_node w) = w_pos w" "w_params (end_node w) = w_params w"
    using w by (simp_all add: walk_ok_def end_node_def Let_def)
  then show ?thesis
    using begin_node_ok [OF b w] prop_token_ok [OF b w] unfolding walk_token_def by auto
qed

lemma walk_loop_ok:
  assumes b: "same_blob f m m'" "fdt_wf f" "e \<le> f_total f" and w: "walk_ok e w"
  shows "\<exists>w'. walk_loop m f e w = Some w' \<and> walk_loop m' f e w = Some w' \<and> bp_reserved (w_params w') = bp_reserved (w_params w)"
  using w
proof (induction "e - w_pos w" arbitrary: w rule: less_induct)
  case less
  have lim: "e \<le> 2 ^ 24" using b(2,3) by (simp add: fdt_wf_def)
  have u: "uadd (w_pos w) 4 = Some (w_pos w + 4)" using less.prems lim by (simp add: uadd_def walk_ok_def)
  show ?case
  proof (cases "w_pos w + 4 \<le> e")
    case False
    then show ?thesis using u by (intro exI [of _ w]) (simp add: walk_loop.simps [of m] walk_loop.simps [of m'])
  next
    case True
    let ?t = "be32 m (f_addr f + w_pos w)" and ?w = "w\<lparr>w_pos := w_pos w + 4\<rparr>"
    have t: "be32 m' (f_addr f + w_pos w) = ?t" by (rule be32_blob [OF b(1)]) (use True b(3) in linarith)
    have "w_pos ?w \<le> e" "w_depth ?w + 4 \<le> w_pos ?w" using True less.prems by (simp_all add: walk_ok_def)
    from walk_token_ok [OF b this, of ?t] obtain w' go where
      s: "walk_token m f e ?t ?w = Some (w', go)" "walk_token m' f e ?t ?w = Some (w', go)" "w_pos w + 4 \<le> w_pos w'" "walk_ok e w'"
        "bp_reserved (w_params w') = bp_reserved (w_params w)" by auto
    have un: "walk_loop n f e w = (if go then walk_loop n f e w' else Some w')" if "n = m \<or> n = m'" for n
      using that s(1,2) u True t by (auto simp: walk_loop.simps [of n f e w])
    show ?thesis
    proof (cases go)
      case True
      have "e - w_pos w' < e - w_pos w" using s(3) \<open>w_pos w + 4 \<le> e\<close> by linarith
      then show ?thesis using less.hyps [OF _ s(4)] un s(5) True by auto
    qed (use un s(5) in auto)
  qed
qed

lemma rsvmap_loop_ok:
  assumes b: "same_blob f m m'" "fdt_wf f" and p: "reserved_ok p" and o: "off \<le> f_total f"
  shows "\<exists>p'. rsvmap_loop m f off p = Some p' \<and> rsvmap_loop m' f off p = Some p' \<and> reserved_ok p' \<and>
    rspans (bp_reserved p) \<subseteq> rspans (bp_reserved p')"
  using p o
proof (induction "f_total f - off" arbitrary: off p rule: less_induct)
  case less
  have "f_total f \<le> 2 ^ 24" using b(2) by (simp add: fdt_wf_def)
  then have u: "uadd off 16 = Some (off + 16)" using less.prems by (simp add: uadd_def)
  let ?a = "f_addr f + off"
  define addr where "addr n = cells2 (be32 n ?a) (be32 n (?a + 4))" for n
  define sz where "sz n = cells2 (be32 n (?a + 8)) (be32 n (?a + 12))" for n
  have un: "rsvmap_loop n f off p = (if f_total f < off + 16 \<or> addr n = 0 \<and> sz n = 0 then Some p
      else rsvmap_loop n f (off + 16) (add_reserved p (addr n) (sz n)))" for n
    unfolding rsvmap_loop.simps [of n f off p] u addr_def sz_def by (simp add: Let_def)
  show ?case
  proof (cases "f_total f < off + 16 \<or> addr m = 0 \<and> sz m = 0")
    case True
    have "addr m' = addr m \<and> sz m' = sz m" if "\<not> f_total f < off + 16"
      using be32_blob [OF b(1), of off] be32_blob [OF b(1), of "off + 4"] be32_blob [OF b(1), of "off + 8"] be32_blob [OF b(1), of "off + 12"] that
      by (simp add: addr_def sz_def add.assoc)
    then show ?thesis using True less.prems(1) un [of m] un [of m'] by auto
  next
    case False
    then have eq: "addr m' = addr m" "sz m' = sz m"
      using be32_blob [OF b(1), of off] be32_blob [OF b(1), of "off + 4"] be32_blob [OF b(1), of "off + 8"] be32_blob [OF b(1), of "off + 12"]
      by (simp_all add: addr_def sz_def add.assoc)
    have "addr m < USIZE_LIMIT" unfolding addr_def cells2_def by (rule unat_u64_less)
    then have "addr m \<le> USIZE_MAX" by simp
    note ar = add_reserved_ok [OF less.prems(1) this, of "sz m"]
    have "f_total f - (off + 16) < f_total f - off" using False by linarith
    from less.hyps [OF this ar(1)] False obtain p' where
      "rsvmap_loop m f (off + 16) (add_reserved p (addr m) (sz m)) = Some p'" "rsvmap_loop m' f (off + 16) (add_reserved p (addr m) (sz m)) = Some p'"
      "reserved_ok p'" "rspans (bp_reserved (add_reserved p (addr m) (sz m))) \<subseteq> rspans (bp_reserved p')" by auto
    then show ?thesis using un [of m] un [of m'] False eq ar(2) by auto
  qed
qed

end
