(* ===== verification/Fdt_Tree.thy ===== *)
theory Fdt_Tree
  imports Fdt_Inv
begin

text \<open>
  Device trees and their flattened form. A tree has an effect on the board parameters that is defined
  by recursion on the tree; the walk over the flattened tree has exactly that effect.
\<close>

section \<open>Trees\<close>

datatype dt_node = Node (dt_name: bytes) (dt_props: "(bytes \<times> bytes) list") (dt_children: "dt_node list")

fun height :: "dt_node \<Rightarrow> nat" where
  "height (Node nm ps cs) = Suc (foldr (\<lambda>c n. max (height c) n) cs 0)"

text \<open>The effect of one property, from its value alone.\<close>

definition value_mem :: "bytes \<Rightarrow> mem" where
  "value_mem v = (\<lambda>i. if i < length v then v ! i else 0)"

definition prop_effect :: "bytes \<Rightarrow> bytes \<times> bytes \<Rightarrow> board_params \<Rightarrow> board_params" where
  "prop_effect node nv p =
     (let name = fst nv; m = value_mem (snd nv); n = length (snd nv) in
      if name = ascii ''reg'' \<and> named node ''memory'' then handle_memory_reg m 0 n p
      else if name = ascii ''timebase-frequency'' \<and> named node ''cpus'' then
        (if 4 \<le> n then p\<lparr>bp_timebase_freq := unat (be32 m 0)\<rparr> else p)
      else if name = ascii ''clock-frequency'' \<and> serial_node node \<and> bp_uart_clock p = 0 then
        (if 4 \<le> n then p\<lparr>bp_uart_clock := unat (be32 m 0)\<rparr> else p)
      else if name = ascii ''compatible'' then handle_compatible m node 0 n p
      else if name = ascii ''reg'' \<and> serial_node node \<and> bp_uart_base p = 0 then handle_uart_reg m 0 n p
      else if name = ascii ''riscv,isa'' \<and> starts_with node (ascii ''cpu@'') then handle_isa m 0 n p
      else p)"

fun tree_effect :: "dt_node \<Rightarrow> board_params \<Rightarrow> board_params" where
  "tree_effect (Node nm ps cs) p = fold tree_effect cs (fold (prop_effect nm) ps p)"

section \<open>The flattened form\<close>

definition be4 :: "u32 \<Rightarrow> bytes" where
  "be4 v = [ucast (drop_bit 24 v), ucast (drop_bit 16 v), ucast (drop_bit 8 v), ucast v]"

definition padded :: "bytes \<Rightarrow> bytes" where
  "padded b = b @ replicate ((4 - length b mod 4) mod 4) 0"

definition flat_prop :: "(bytes \<Rightarrow> nat) \<Rightarrow> bytes \<times> bytes \<Rightarrow> bytes" where
  "flat_prop off nv = be4 FDT_PROP @ be4 (of_nat (length (snd nv))) @ be4 (of_nat (off (fst nv))) @ padded (snd nv)"

fun flat :: "(bytes \<Rightarrow> nat) \<Rightarrow> dt_node \<Rightarrow> bytes" where
  "flat off (Node nm ps cs) =
     be4 FDT_BEGIN_NODE @ padded (nm @ [0]) @ concat (map (flat_prop off) ps) @ concat (map (flat off) cs) @ be4 FDT_END_NODE"

text \<open>\<open>b\<close> stands at address \<open>a\<close>.\<close>

definition holds :: "mem \<Rightarrow> usize \<Rightarrow> bytes \<Rightarrow> bool" where
  "holds m a b \<longleftrightarrow> (\<forall>i<length b. m (a + i) = b ! i)"

lemma holds_append: "holds m a (xs @ ys) \<longleftrightarrow> holds m a xs \<and> holds m (a + length xs) ys"
proof
  assume h: "holds m a (xs @ ys)"
  have "m (a + i) = xs ! i" if "i < length xs" for i using h that by (auto simp: holds_def nth_append)
  moreover have "m (a + length xs + i) = ys ! i" if "i < length ys" for i
    using h that unfolding holds_def by (auto simp: nth_append add.assoc dest: spec [of _ "length xs + i"])
  ultimately show "holds m a xs \<and> holds m (a + length xs) ys" by (simp add: holds_def)
next
  assume h: "holds m a xs \<and> holds m (a + length xs) ys"
  have "m (a + i) = (xs @ ys) ! i" if "i < length xs + length ys" for i
  proof (cases "i < length xs")
    case False
    then have "i - length xs < length ys" "a + i = a + length xs + (i - length xs)" using that by auto
    then show ?thesis using h False unfolding holds_def by (auto simp: nth_append)
  qed (use h in \<open>simp add: holds_def nth_append\<close>)
  then show "holds m a (xs @ ys)" by (simp add: holds_def)
qed

lemma length_be4 [simp]: "length (be4 v) = 4"
  by (simp add: be4_def)

lemma be32_be4: "holds m a (be4 v) \<Longrightarrow> be32 m a = v"
proof -
  assume h: "holds m a (be4 v)"
  have "m a = be4 v ! 0" "m (a + 1) = be4 v ! 1" "m (a + 2) = be4 v ! 2" "m (a + 3) = be4 v ! 3"
    using h unfolding holds_def by (auto dest: spec [of _ 0] spec [of _ "1::nat"] spec [of _ "2::nat"] spec [of _ "3::nat"])
  then have m: "m a = ucast (drop_bit 24 v)" "m (a + 1) = ucast (drop_bit 16 v)" "m (a + 2) = ucast (drop_bit 8 v)" "m (a + 3) = ucast v"
    by (simp_all add: be4_def numeral_2_eq_2 numeral_3_eq_3)
  show ?thesis
  proof (rule bit_word_eqI)
    fix n assume n: "n < LENGTH(32)"
    have b: "bit (ucast (ucast x :: byte) :: u32) k \<longleftrightarrow> k < 8 \<and> bit x k" for x :: u32 and k
      by (auto simp: bit_ucast_iff dest: bit_imp_le_length)
    have "bit (be32 m a) n \<longleftrightarrow> 24 \<le> n \<and> n - 24 < 8 \<and> bit v (24 + (n - 24)) \<or> 16 \<le> n \<and> n - 16 < 8 \<and> bit v (16 + (n - 16)) \<or>
        8 \<le> n \<and> n - 8 < 8 \<and> bit v (8 + (n - 8)) \<or> n < 8 \<and> bit v n"
      unfolding be32_def m using n by (simp only: bit_or_iff bit_push_bit_iff b bit_drop_bit_eq comp_apply possible_bit_word) auto
    moreover have "n < 8 \<or> 8 \<le> n \<and> n < 16 \<or> 16 \<le> n \<and> n < 24 \<or> 24 \<le> n \<and> n < 32" using n by simp linarith
    ultimately show "bit (be32 m a) n = bit v n" by (elim disjE conjE) (simp_all add: less_diff_conv2)
  qed
qed

lemma pad_length: "n + (4 - n mod 4) mod 4 = (n + 3) div 4 * (4::nat)"
proof -
  have r: "n mod 4 = r \<Longrightarrow> r < 4 \<Longrightarrow> n + k = (n + 3) div 4 * 4" if "(r, k) \<in> {(0, 0), (1, 3), (2, 2), (3, 1)}" for r k
    using that by auto presburger+
  have "n mod 4 = 0 \<or> n mod 4 = 1 \<or> n mod 4 = 2 \<or> n mod 4 = 3" by linarith
  then show ?thesis using r [of 0 0] r [of 1 3] r [of 2 2] r [of 3 1] by (elim disjE) simp_all
qed

lemma length_padded: "4 dvd length (padded b)" "length b \<le> length (padded b)" "length (padded b) < length b + 4"
  "length (padded b) = (length b + 3) div 4 * 4"
proof -
  show e: "length (padded b) = (length b + 3) div 4 * 4" by (simp add: padded_def pad_length)
  show "4 dvd length (padded b)" unfolding e by simp
  show "length b \<le> length (padded b)" "length (padded b) < length b + 4"
    using pad_length [of "length b"] by (simp_all add: padded_def)
qed

lemma length_flat_prop: "4 dvd length (flat_prop off nv)"
  using length_padded(1) by (simp add: flat_prop_def)

lemma dvd_length_concat: "(\<And>x. x \<in> set xs \<Longrightarrow> k dvd length (f x)) \<Longrightarrow> k dvd length (concat (map f xs))"
  by (induction xs) auto

lemma length_flat: "4 dvd length (flat off t)"
proof (induction t)
  case (Node nm ps cs)
  have "4 dvd length (concat (map (flat_prop off) ps))" by (rule dvd_length_concat) (rule length_flat_prop)
  moreover have "4 dvd length (concat (map (flat off) cs))" by (rule dvd_length_concat) (rule Node)
  ultimately show ?case using length_padded(1) [of "nm @ [0]"] by simp
qed

section \<open>One property\<close>

lemma handle_prop_effect:
  assumes r: "read_string m f off = Some nm" and h: "holds m (f_addr f + v) val"
  shows "handle_prop m f node off v (length val) p = prop_effect node (nm, val) p"
proof -
  let ?n = "length val"
  have at: "m (f_addr f + v + i) = value_mem val (0 + i)" if "i < ?n" for i using h that by (simp add: holds_def value_mem_def)
  note c = handlers_cong [of ?n m "f_addr f + v" "value_mem val" 0, OF at]
  have 1: "handle_memory_reg m (f_addr f + v) ?n p = handle_memory_reg (value_mem val) 0 ?n p"
    "handle_compatible m node (f_addr f + v) ?n p = handle_compatible (value_mem val) node 0 ?n p"
    "handle_uart_reg m (f_addr f + v) ?n p = handle_uart_reg (value_mem val) 0 ?n p"
    "handle_isa m (f_addr f + v) ?n p = handle_isa (value_mem val) 0 ?n p"
    by (rule c; assumption)+
  have 5: "(if 4 \<le> ?n then g (unat (be32 m (f_addr f + v))) else p) = (if 4 \<le> ?n then g (unat (be32 (value_mem val) 0)) else p)"
    for g :: "nat \<Rightarrow> board_params" using c(5) by simp
  note 6 = 5 [of "\<lambda>x. p\<lparr>bp_timebase_freq := x\<rparr>"] 5 [of "\<lambda>x. p\<lparr>bp_uart_clock := x\<rparr>"]
  show ?thesis unfolding handle_prop_def r option.case prop_effect_def Let_def fst_conv snd_conv 1 6 by (rule refl)
qed

section \<open>The walk\<close>

text \<open>What the parser needs of a tree: short names without zero bytes, and names of properties in the strings block.\<close>

fun tree_ok :: "mem \<Rightarrow> fdt \<Rightarrow> (bytes \<Rightarrow> nat) \<Rightarrow> dt_node \<Rightarrow> bool" where
  "tree_ok m f off (Node nm ps cs) \<longleftrightarrow> length nm < 63 \<and> 0 \<notin> set nm \<and>
     (\<forall>nv\<in>set ps. off (fst nv) < 2 ^ 32 \<and> read_string m f (off (fst nv)) = Some (fst nv)) \<and> (\<forall>c\<in>set cs. tree_ok m f off c)"

lemma walk_step:
  assumes "w_pos w + 4 \<le> e" "e \<le> 2 ^ 24" "holds m (f_addr f + w_pos w) (be4 t)"
  shows "walk_loop m f e w = do { (w', go) \<leftarrow> walk_token m f e t (w\<lparr>w_pos := w_pos w + 4\<rparr>); if go then walk_loop m f e w' else Some w' }"
proof -
  have "uadd (w_pos w) 4 = Some (w_pos w + 4)" using assms(1,2) by (simp add: uadd_def)
  then show ?thesis using assms(1) be32_be4 [OF assms(3)] by (simp add: walk_loop.simps [of m f e w])
qed

lemma walk_prop:
  assumes e: "e \<le> 2 ^ 24" "w_pos w + length (flat_prop off nv) \<le> e" and h: "holds m (f_addr f + w_pos w) (flat_prop off nv)"
    and nv: "off (fst nv) < 2 ^ 32" "read_string m f (off (fst nv)) = Some (fst nv)" and x: "\<not> w_exceeded w"
  shows "walk_loop m f e w =
    walk_loop m f e (w\<lparr>w_pos := w_pos w + length (flat_prop off nv), w_params := prop_effect (w_node w) nv (w_params w)\<rparr>)"
proof -
  let ?a = "f_addr f + w_pos w" and ?l = "length (snd nv)"
  let ?q = "length (padded (snd nv))"
  have len: "length (flat_prop off nv) = 12 + ?q" by (simp add: flat_prop_def)
  have h': "holds m ?a (be4 FDT_PROP)" "holds m (?a + 4) (be4 (of_nat ?l))" "holds m (?a + 8) (be4 (of_nat (off (fst nv))))"
    "holds m (?a + 12) (snd nv)"
    using h by (auto simp: flat_prop_def holds_append padded_def add.assoc)
  have ll: "?l < 2 ^ 32" using e len length_padded(2) [of "snd nv"] by simp
  have b: "unat (be32 m (?a + 4)) = ?l" "unat (be32 m (?a + 8)) = off (fst nv)"
    unfolding be32_be4 [OF h'(2)] be32_be4 [OF h'(3)] using ll nv(1) by (simp_all add: unsigned_of_nat take_bit_nat_eq_self)
  have pd: "pad4 ?l = Some ?q" using ll length_padded(4) [of "snd nv"] by (simp add: pad4_def uadd_def)
  let ?w = "w\<lparr>w_pos := w_pos w + 4\<rparr>"
  have u: "uadd (w_pos w + 4) 8 = Some (w_pos w + 12)" "uadd (w_pos w + 12) ?q = Some (w_pos w + 12 + ?q)" "\<not> e < w_pos w + 12" "\<not> e < w_pos w + 12 + ?q"
    using e len by (simp_all add: uadd_def)
  have hp: "handle_prop m f (w_node w) (off (fst nv)) (w_pos w + 12) ?l (w_params w) = prop_effect (w_node w) nv (w_params w)"
    using handle_prop_effect [OF nv(2), of "w_pos w + 12" "snd nv"] h'(4) by (simp add: add.assoc)
  have "prop_token m f e ?w = Some (w\<lparr>w_pos := w_pos w + 12 + ?q, w_params := prop_effect (w_node w) nv (w_params w)\<rparr>, True)"
    using u b pd x hp by (simp add: prop_token_def Let_def add.assoc)
  then have "walk_token m f e FDT_PROP ?w = Some (w\<lparr>w_pos := w_pos w + 12 + ?q, w_params := prop_effect (w_node w) nv (w_params w)\<rparr>, True)"
    by (simp add: walk_token_def FDT_PROP_def FDT_BEGIN_NODE_def FDT_END_NODE_def)
  then show ?thesis unfolding len using walk_step [OF _ e(1) h'(1)] e len by (simp add: add.assoc)
qed

lemma walk_props:
  assumes "e \<le> 2 ^ 24" "w_pos w + length (concat (map (flat_prop off) ps)) \<le> e"
    and "holds m (f_addr f + w_pos w) (concat (map (flat_prop off) ps))"
    and "\<forall>nv\<in>set ps. off (fst nv) < 2 ^ 32 \<and> read_string m f (off (fst nv)) = Some (fst nv)" "\<not> w_exceeded w"
  shows "walk_loop m f e w =
    walk_loop m f e (w\<lparr>w_pos := w_pos w + length (concat (map (flat_prop off) ps)), w_params := fold (prop_effect (w_node w)) ps (w_params w)\<rparr>)"
  using assms(2-)
proof (induction ps arbitrary: w)
  case (Cons nv ps)
  let ?w = "w\<lparr>w_pos := w_pos w + length (flat_prop off nv), w_params := prop_effect (w_node w) nv (w_params w)\<rparr>"
  have "walk_loop m f e w = walk_loop m f e ?w"
    by (rule walk_prop [OF assms(1)]) (use Cons.prems in \<open>auto simp: holds_append\<close>)
  also have "\<dots> = walk_loop m f e (?w\<lparr>w_pos := w_pos ?w + length (concat (map (flat_prop off) ps)),
      w_params := fold (prop_effect (w_node ?w)) ps (w_params ?w)\<rparr>)"
    by (rule Cons.IH) (use Cons.prems in \<open>auto simp: holds_append add.assoc\<close>)
  finally show ?case by (simp add: add.assoc)
qed simp

lemma read_name_ok:
  "holds m (base + pos) (nm @ [0]) \<Longrightarrow> 0 \<notin> set nm \<Longrightarrow> length node + length nm < 63 \<Longrightarrow> pos + length nm < e \<Longrightarrow>
   read_name m base e pos node = (pos + length nm, node @ nm)"
proof (induction nm arbitrary: pos node)
  case Nil
  then show ?case by (simp add: read_name.simps [of m base e pos] holds_def)
next
  case (Cons c nm)
  have "holds m (base + pos) ([c] @ (nm @ [0]))" using Cons.prems(1) by simp
  then have h: "m (base + pos) = c" "holds m (base + (pos + 1)) (nm @ [0])"
    unfolding holds_append by (auto simp: holds_def)
  then show ?case using Cons.IH [OF h(2), of "node @ [c]"] Cons.prems by (simp add: read_name.simps [of m base e pos])
qed

lemma begin_node_flat:
  assumes e: "e \<le> 2 ^ 24" "w_pos w + length (padded (nm @ [0])) \<le> e" "4 dvd w_pos w" and h: "holds m (f_addr f + w_pos w) (padded (nm @ [0]))"
    and nm: "length nm < 63" "0 \<notin> set nm" and d: "w_depth w < 8" "\<not> w_exceeded w"
  shows "begin_node m f e w = Some (w\<lparr>w_pos := w_pos w + length (padded (nm @ [0])), w_node := nm,
    w_stack := (w_stack w)[w_depth w := w_node w], w_depth := w_depth w + 1, w_exceeded := False\<rparr>)"
proof -
  have "holds m (f_addr f + w_pos w) (nm @ [0])" using h unfolding padded_def holds_append by blast
  moreover have "w_pos w + length nm < e" using e(2) length_padded(2) [of "nm @ [0]"] by simp
  ultimately have rn: "read_name m (f_addr f) e (w_pos w) [] = (w_pos w + length nm, nm)"
    using read_name_ok [of m "f_addr f" "w_pos w" nm "[]" e] nm by simp
  obtain k where k: "w_pos w = 4 * k" using e(3) by blast
  have "(w_pos w + length nm + 1 + 3) div 4 * 4 = w_pos w + (length nm + 1 + 3) div 4 * 4"
    unfolding k using div_mult_self2 [of 4 "length nm + 1 + 3" k] by (simp add: algebra_simps)
  then have p: "pad4 (w_pos w + length nm + 1) = Some (w_pos w + length (padded (nm @ [0])))"
    using length_padded(4) [of "nm @ [0]"] e length_padded(2) [of "nm @ [0]"] by (simp add: pad4_def uadd_def)
  have u: "uadd (w_pos w + length nm) 1 = Some (w_pos w + length nm + 1)" "uadd (w_depth w) 1 = Some (w_depth w + 1)"
    using e d length_padded(2) [of "nm @ [0]"] by (simp_all add: uadd_def)
  show ?thesis unfolding begin_node_def rn u(2) using d nm(1) p u(1) by (simp add: Let_def)
qed

definition after :: "walk \<Rightarrow> usize \<Rightarrow> board_params \<Rightarrow> walk \<Rightarrow> bool" where
  "after w pos p w' \<longleftrightarrow> w_pos w' = pos \<and> w_params w' = p \<and> w_node w' = w_node w \<and> w_depth w' = w_depth w \<and> \<not> w_exceeded w' \<and>
     length (w_stack w') = 8 \<and> take (w_depth w) (w_stack w') = take (w_depth w) (w_stack w)"

lemma height_child: "c \<in> set cs \<Longrightarrow> height c < height (Node nm ps cs)"
proof -
  have "height c \<le> foldr (\<lambda>c n. max (height c) n) cs 0" if "c \<in> set cs" for c using that by (induction cs) auto
  then show "c \<in> set cs \<Longrightarrow> height c < height (Node nm ps cs)" by (simp add: less_Suc_eq_le)
qed

lemma walk_children:
  assumes e: "e \<le> 2 ^ 24"
    and IH: "\<And>c w. c \<in> set cs \<Longrightarrow> tree_ok m f off c \<Longrightarrow> w_pos w + length (flat off c) \<le> e \<Longrightarrow> 4 dvd w_pos w \<Longrightarrow>
      holds m (f_addr f + w_pos w) (flat off c) \<Longrightarrow> w_depth w + height c \<le> 8 \<Longrightarrow> \<not> w_exceeded w \<Longrightarrow> length (w_stack w) = 8 \<Longrightarrow>
      \<exists>w'. walk_loop m f e w = walk_loop m f e w' \<and> after w (w_pos w + length (flat off c)) (tree_effect c (w_params w)) w'"
    and "\<forall>c\<in>set cs. tree_ok m f off c" "w_pos w + length (concat (map (flat off) cs)) \<le> e" "4 dvd w_pos w"
      "holds m (f_addr f + w_pos w) (concat (map (flat off) cs))" "\<forall>c\<in>set cs. w_depth w + height c \<le> 8" "\<not> w_exceeded w" "length (w_stack w) = 8"
  shows "\<exists>w'. walk_loop m f e w = walk_loop m f e w' \<and>
    after w (w_pos w + length (concat (map (flat off) cs))) (fold tree_effect cs (w_params w)) w'"
  using IH assms(3-)
proof (induction cs arbitrary: w)
  case Nil
  then show ?case by (intro exI [of _ w]) (simp add: after_def)
next
  case (Cons c cs)
  have h: "holds m (f_addr f + w_pos w) (flat off c)" "holds m (f_addr f + w_pos w + length (flat off c)) (concat (map (flat off) cs))"
    using Cons.prems(5) by (simp_all add: holds_append)
  obtain w1 where w1: "walk_loop m f e w = walk_loop m f e w1" "after w (w_pos w + length (flat off c)) (tree_effect c (w_params w)) w1"
    using Cons.prems(1) [of c w] Cons.prems(2-) h(1) by auto
  note a = w1(2) [unfolded after_def]
  have "\<exists>w'. walk_loop m f e w1 = walk_loop m f e w' \<and>
      after w1 (w_pos w1 + length (concat (map (flat off) cs))) (fold tree_effect cs (w_params w1)) w'"
  proof (rule Cons.IH)
    show "4 dvd w_pos w1" using a Cons.prems(4) length_flat [of off c] by simp
    show "holds m (f_addr f + w_pos w1) (concat (map (flat off) cs))" using a h(2) by (simp add: add.assoc)
    show "w_pos w1 + length (concat (map (flat off) cs)) \<le> e" using a Cons.prems(3) by simp
    show "\<exists>w'. walk_loop m f e v = walk_loop m f e w' \<and> after v (w_pos v + length (flat off c')) (tree_effect c' (w_params v)) w'"
      if "c' \<in> set cs" "tree_ok m f off c'" "w_pos v + length (flat off c') \<le> e" "4 dvd w_pos v"
        "holds m (f_addr f + w_pos v) (flat off c')" "w_depth v + height c' \<le> 8" "\<not> w_exceeded v" "length (w_stack v) = 8" for c' v
      by (rule Cons.prems(1)) (use that in simp_all)
  qed (use a Cons.prems in simp_all)
  then obtain w2 where w2: "walk_loop m f e w1 = walk_loop m f e w2"
    "after w1 (w_pos w1 + length (concat (map (flat off) cs))) (fold tree_effect cs (w_params w1)) w2" by blast
  have "after w (w_pos w + length (concat (map (flat off) (c # cs)))) (fold tree_effect (c # cs) (w_params w)) w2"
    using a w2(2) unfolding after_def by (simp add: add.assoc)
  then show ?case using w1(1) w2(1) by auto
qed

lemma walk_tree:
  assumes e: "e \<le> 2 ^ 24"
  shows "tree_ok m f off t \<Longrightarrow> w_pos w + length (flat off t) \<le> e \<Longrightarrow> 4 dvd w_pos w \<Longrightarrow>
    holds m (f_addr f + w_pos w) (flat off t) \<Longrightarrow> w_depth w + height t \<le> 8 \<Longrightarrow> \<not> w_exceeded w \<Longrightarrow> length (w_stack w) = 8 \<Longrightarrow>
    \<exists>w'. walk_loop m f e w = walk_loop m f e w' \<and> after w (w_pos w + length (flat off t)) (tree_effect t (w_params w)) w'"
proof (induction t arbitrary: w)
  case (Node nm ps cs)
  let ?n = "length (padded (nm @ [0]))" and ?p = "length (concat (map (flat_prop off) ps))" and ?c = "length (concat (map (flat off) cs))"
  let ?a = "f_addr f + w_pos w"
  have len: "length (flat off (Node nm ps cs)) = 4 + ?n + ?p + ?c + 4" by simp
  have h: "holds m ?a (be4 FDT_BEGIN_NODE)" "holds m (?a + 4) (padded (nm @ [0]))" "holds m (?a + 4 + ?n) (concat (map (flat_prop off) ps))"
    "holds m (?a + 4 + ?n + ?p) (concat (map (flat off) cs))" "holds m (?a + 4 + ?n + ?p + ?c) (be4 FDT_END_NODE)"
    using Node.prems(4) unfolding flat.simps holds_append by (simp_all add: add.assoc)
  have al: "4 dvd ?n" "4 dvd ?p" using length_padded(1) dvd_length_concat [of ps 4 "flat_prop off"] length_flat_prop by blast+
  have ok: "length nm < 63" "0 \<notin> set nm" "\<forall>nv\<in>set ps. off (fst nv) < 2 ^ 32 \<and> read_string m f (off (fst nv)) = Some (fst nv)"
    "\<forall>c\<in>set cs. tree_ok m f off c" using Node.prems(1) by simp_all
  have d: "w_depth w < 8" using Node.prems(5) by simp
  have le: "w_pos w + 4 + ?n + ?p + ?c + 4 \<le> e" using Node.prems(2) unfolding len by linarith
  let ?w1 = "w\<lparr>w_pos := w_pos w + 4 + ?n, w_node := nm, w_stack := (w_stack w)[w_depth w := w_node w], w_depth := w_depth w + 1, w_exceeded := False\<rparr>"
  have "begin_node m f e (w\<lparr>w_pos := w_pos w + 4\<rparr>) = Some ?w1"
    using begin_node_flat [OF e, of "w\<lparr>w_pos := w_pos w + 4\<rparr>" nm m f] le h(2) ok(1,2) d Node.prems(3,6) by (simp add: add.assoc)
  then have 1: "walk_loop m f e w = walk_loop m f e ?w1"
    using walk_step [OF _ e h(1)] le by (simp add: walk_token_def)
  let ?w2 = "?w1\<lparr>w_pos := w_pos ?w1 + ?p, w_params := fold (prop_effect (w_node ?w1)) ps (w_params ?w1)\<rparr>"
  have 2: "walk_loop m f e ?w1 = walk_loop m f e ?w2"
    by (rule walk_props [OF e]) (use le h(3) ok(3) in \<open>simp_all add: add.assoc\<close>)
  have hc: "\<forall>c\<in>set cs. w_depth ?w2 + height c \<le> 8"
    using Node.prems(5) height_child [of _ cs nm ps] by fastforce
  have "\<exists>w'. walk_loop m f e ?w2 = walk_loop m f e w' \<and> after ?w2 (w_pos ?w2 + ?c) (fold tree_effect cs (w_params ?w2)) w'"
  proof (rule walk_children [OF e])
    show "\<exists>w'. walk_loop m f e v = walk_loop m f e w' \<and> after v (w_pos v + length (flat off c)) (tree_effect c (w_params v)) w'"
      if "c \<in> set cs" "tree_ok m f off c" "w_pos v + length (flat off c) \<le> e" "4 dvd w_pos v"
        "holds m (f_addr f + w_pos v) (flat off c)" "w_depth v + height c \<le> 8" "\<not> w_exceeded v" "length (w_stack v) = 8" for c v
      by (rule Node.IH [OF that])
    show "4 dvd w_pos ?w2" using Node.prems(3) al by simp
    show "holds m (f_addr f + w_pos ?w2) (concat (map (flat off) cs))" using h(4) by (simp add: add.assoc)
  qed (use le ok(4) hc Node.prems(7) in simp_all)
  then obtain w3 where 3: "walk_loop m f e ?w2 = walk_loop m f e w3" "after ?w2 (w_pos ?w2 + ?c) (fold tree_effect cs (w_params ?w2)) w3"
    by blast
  note a = 3(2) [unfolded after_def]
  have h5: "holds m (f_addr f + w_pos w3) (be4 FDT_END_NODE)" using h(5) a by (simp add: add.assoc)
  let ?w4 = "end_node (w3\<lparr>w_pos := w_pos w3 + 4\<rparr>)"
  have 4: "walk_loop m f e w3 = walk_loop m f e ?w4"
    using walk_step [OF _ e h5] le a by (simp add: walk_token_def FDT_END_NODE_def FDT_BEGIN_NODE_def)
  have st: "take (w_depth w + 1) (w_stack w3) = take (w_depth w + 1) ((w_stack w)[w_depth w := w_node w])" using a by simp
  then have nd: "w_stack w3 ! w_depth w = w_node w"
    using d Node.prems(7) by (metis less_add_one nth_list_update_eq nth_take)
  have tk: "take (w_depth w) (w_stack w3) = take (w_depth w) (w_stack w)"
  proof -
    have "take (w_depth w) (take (w_depth w + 1) (w_stack w3)) = take (w_depth w) (take (w_depth w + 1) ((w_stack w)[w_depth w := w_node w]))"
      unfolding st by (rule refl)
    then show ?thesis by (simp add: min_def)
  qed
  have "after w (w_pos w + length (flat off (Node nm ps cs))) (tree_effect (Node nm ps cs) (w_params w)) ?w4"
    using a d nd tk unfolding after_def len by (simp add: end_node_def Let_def add.assoc)
  then show ?case using 1 2 3(1) 4 by auto
qed

end
