(* ===== verification/Fdt_Main.thy ===== *)
theory Fdt_Main
  imports Fdt_Tree
begin

text \<open>
  The device tree parser as a whole: it is safe on any memory, and on the encoding of a device tree it
  computes the parameters that the tree states.
\<close>

section \<open>The memory reservation block\<close>

definition be8 :: "usize \<Rightarrow> bytes" where
  "be8 v = be4 (of_nat (v div 2 ^ 32)) @ be4 (of_nat (v mod 2 ^ 32))"

definition flat_rsv :: "(usize \<times> usize) list \<Rightarrow> bytes" where
  "flat_rsv rs = concat (map (\<lambda>r. be8 (fst r) @ be8 (snd r)) rs) @ replicate 16 0"

definition reserve :: "usize \<times> usize \<Rightarrow> board_params \<Rightarrow> board_params" where
  "reserve r p = add_reserved p (fst r) (snd r)"

lemma cells2_eq: "cells2 hi lo = unat hi * 2 ^ 32 + unat lo"
proof -
  have hi: "unat hi < 2 ^ 32" and lo: "unat lo < 2 ^ 32" using unsigned_less [of hi] unsigned_less [of lo] by simp_all
  have "unat (push_bit 32 (ucast hi :: u64)) = take_bit 64 (push_bit 32 (unat hi))"
    using hi by (simp add: unsigned_push_bit_eq unsigned_ucast_eq take_bit_nat_eq_self)
  also have "\<dots> = unat hi * 2 ^ 32" using hi by (simp add: push_bit_eq_mult take_bit_nat_eq_self)
  finally have 1: "unat (push_bit 32 (ucast hi :: u64)) = unat hi * 2 ^ 32" .
  have 2: "unat (ucast lo :: u64) = unat lo" using lo by (simp add: unsigned_ucast_eq take_bit_nat_eq_self)
  have "bit (unat lo) n \<longrightarrow> n < 32" for n using bit_imp_le_length [of lo n] by (simp add: bit_unsigned_iff)
  then have "\<not> bit (unat lo) n" if "32 \<le> n" for n using that leD by blast
  then have "push_bit 32 (unat hi) AND unat lo = 0" by (intro bit_eqI) (auto simp: bit_and_iff bit_push_bit_iff)
  then have "push_bit 32 (unat hi) OR unat lo = unat hi * 2 ^ 32 + unat lo"
    by (simp add: disjunctive_add_eq_or [symmetric] push_bit_eq_mult)
  then show ?thesis unfolding cells2_def unsigned_or_eq 1 2 by (simp add: push_bit_eq_mult)
qed

lemma length_be8 [simp]: "length (be8 v) = 8"
  by (simp add: be8_def)

lemma cells2_be8:
  assumes "holds m a (be8 v)" "v < USIZE_LIMIT"
  shows "cells2 (be32 m a) (be32 m (a + 4)) = v"
proof -
  have h: "be32 m a = of_nat (v div 2 ^ 32)" "be32 m (a + 4) = of_nat (v mod 2 ^ 32)"
    using assms(1) be32_be4 [of m] unfolding be8_def holds_append by simp_all
  have "v div 2 ^ 32 < 2 ^ 32" using assms(2) by (simp add: less_mult_imp_div_less)
  then have "unat (of_nat (v div 2 ^ 32) :: u32) = v div 2 ^ 32" "unat (of_nat (v mod 2 ^ 32) :: u32) = v mod 2 ^ 32"
    by (simp_all add: unsigned_of_nat take_bit_nat_eq_self)
  then show ?thesis unfolding cells2_eq h by (simp only: div_mult_mod_eq)
qed

lemma be32_zero: "holds m a (replicate n 0) \<Longrightarrow> k + 4 \<le> n \<Longrightarrow> be32 m (a + k) = 0"
proof -
  assume h: "holds m a (replicate n 0)" and k: "k + 4 \<le> n"
  have "m (a + k + i) = 0" if "i < 4" for i using h that k by (simp add: holds_def add.assoc)
  from this [of 0] this [of 1] this [of 2] this [of 3] show ?thesis by (simp add: be32_def)
qed

lemma rsvmap_flat:
  assumes f: "fdt_wf f"
  shows "holds m (f_addr f + off) (flat_rsv rs) \<Longrightarrow> off + length (flat_rsv rs) \<le> f_total f \<Longrightarrow>
    \<forall>r\<in>set rs. r \<noteq> (0, 0) \<and> fst r < USIZE_LIMIT \<and> snd r < USIZE_LIMIT \<Longrightarrow>
    rsvmap_loop m f off p = Some (fold reserve rs p)"
proof (induction rs arbitrary: off p)
  case Nil
  have u: "uadd off 16 = Some (off + 16)" using Nil f by (simp add: uadd_def flat_rsv_def fdt_wf_def)
  have "holds m (f_addr f + off) (replicate 16 0)" using Nil(1) by (simp add: flat_rsv_def)
  note z = be32_zero [OF this]
  show ?case using u z [of 0] z [of 4] z [of 8] z [of 12] by (simp add: rsvmap_loop.simps [of m f off p] cells2_eq)
next
  case (Cons r rs)
  have fl: "flat_rsv (r # rs) = be8 (fst r) @ be8 (snd r) @ flat_rsv rs" by (simp add: flat_rsv_def)
  have u: "uadd off 16 = Some (off + 16)" "\<not> f_total f < off + 16" using Cons.prems(2) f unfolding fl by (simp_all add: uadd_def fdt_wf_def)
  have h: "holds m (f_addr f + off) (be8 (fst r))" "holds m (f_addr f + off + 8) (be8 (snd r))" "holds m (f_addr f + (off + 16)) (flat_rsv rs)"
    using Cons.prems(1) unfolding fl holds_append by (simp_all add: add.assoc)
  have c: "cells2 (be32 m (f_addr f + off)) (be32 m (f_addr f + off + 4)) = fst r"
    "cells2 (be32 m (f_addr f + off + 8)) (be32 m (f_addr f + off + 12)) = snd r"
    using cells2_be8 [OF h(1)] cells2_be8 [OF h(2)] Cons.prems(3) by (simp_all add: add.assoc)
  have "rsvmap_loop m f off p = rsvmap_loop m f (off + 16) (reserve r p)"
    using u c Cons.prems(3) by (cases r) (auto simp: rsvmap_loop.simps [of m f off p] reserve_def)
  then show ?case using Cons.IH [OF h(3)] Cons.prems(2,3) unfolding fl by simp
qed

section \<open>A concrete device tree\<close>

text \<open>A blob at 0x1000: one reserved range, and a memory node with 128 MiB at 0x80000000.\<close>

definition demo_tree :: dt_node where
  "demo_tree = Node [] [] [Node (ascii ''memory@80000000'') [(ascii ''reg'', be8 0x80000000 @ be8 0x8000000)] []]"

definition demo_rsv :: "(usize \<times> usize) list" where "demo_rsv = [(0x80000000, 0x40000)]"

definition demo_header :: bytes where
  "demo_header = concat (map be4 [FDT_MAGIC, 144, 72, 140, 40, 17, 16, 0, 4, 68])"

definition demo_struct :: bytes where "demo_struct = flat (\<lambda>_. 0) demo_tree @ be4 FDT_END"

definition demo_blob :: bytes where
  "demo_blob = demo_header @ flat_rsv demo_rsv @ demo_struct @ ascii ''reg'' @ [0]"

definition demo_mem :: mem where
  "demo_mem x = (if 0x1000 \<le> x \<and> x - 0x1000 < length demo_blob then demo_blob ! (x - 0x1000) else 0)"

definition demo_fdt :: fdt where
  "demo_fdt = \<lparr>f_addr = 0x1000, f_total = 144, f_off_struct = 72, f_off_strings = 140, f_off_rsvmap = 40, f_size_struct = 68, f_size_strings = 4\<rparr>"

lemma demo_lengths: "length demo_header = 40" "length (flat_rsv demo_rsv) = 32" "length demo_struct = 68"
  by (simp_all add: demo_header_def flat_rsv_def demo_rsv_def demo_struct_def demo_tree_def flat_prop_def padded_def ascii_def)

lemma demo_holds:
  "holds demo_mem 0x1000 demo_header" "holds demo_mem (0x1000 + 40) (flat_rsv demo_rsv)" "holds demo_mem (0x1000 + 72) demo_struct"
  "holds demo_mem (0x1000 + 140) (ascii ''reg'' @ [0])"
proof -
  have "holds demo_mem 0x1000 demo_blob" by (simp add: holds_def demo_mem_def)
  then show "holds demo_mem 0x1000 demo_header" "holds demo_mem (0x1000 + 40) (flat_rsv demo_rsv)" "holds demo_mem (0x1000 + 72) demo_struct"
    "holds demo_mem (0x1000 + 140) (ascii ''reg'' @ [0])"
    unfolding demo_blob_def holds_append by (simp_all add: demo_lengths)
qed

lemma demo_new: "fdt_new demo_mem 0x1000 = Some demo_fdt"
proof -
  have h: "holds demo_mem 0x1000 (be4 FDT_MAGIC)" "holds demo_mem (0x1000 + 4) (be4 144)" "holds demo_mem (0x1000 + 8) (be4 72)"
    "holds demo_mem (0x1000 + 12) (be4 140)" "holds demo_mem (0x1000 + 16) (be4 40)" "holds demo_mem (0x1000 + 32) (be4 4)"
    "holds demo_mem (0x1000 + 36) (be4 68)"
    using demo_holds(1) unfolding demo_header_def list.map concat.simps holds_append by simp_all
  have "header_word demo_mem 0x1000 4 = 144" "header_word demo_mem 0x1000 8 = 72" "header_word demo_mem 0x1000 12 = 140"
    "header_word demo_mem 0x1000 16 = 40" "header_word demo_mem 0x1000 32 = 4" "header_word demo_mem 0x1000 36 = 68"
    "be32 demo_mem 0x1000 = FDT_MAGIC"
    unfolding header_word_def be32_be4 [OF h(1)] be32_be4 [OF h(2)] be32_be4 [OF h(3)] be32_be4 [OF h(4)] be32_be4 [OF h(5)]
      be32_be4 [OF h(6)] be32_be4 [OF h(7)] by simp_all
  then show ?thesis by (simp add: fdt_new_def uadd_def sat_add_def demo_fdt_def)
qed

lemma demo_string: "read_string demo_mem demo_fdt 0 = Some (ascii ''reg'')"
proof -
  have "demo_mem (0x108C + i) = (ascii ''reg'' @ [0]) ! i" if "i < 4" for i
    using demo_holds(4) that by (simp add: holds_def ascii_def)
  from this [of 0] this [of 1] this [of 2] this [of 3]
  have c: "demo_mem 0x108C = 0x72" "demo_mem 0x108D = 0x65" "demo_mem 0x108E = 0x67" "demo_mem 0x108F = 0"
    by (simp_all add: ascii_def)
  have "cstr_len demo_mem 0x108C 4 0 = 3"
    using c by (simp add: cstr_len.simps)
  then show ?thesis using c by (simp add: read_string_def demo_fdt_def slice_def upt_rec utf8.simps ascii_def)
qed

lemma demo_tree_ok: "tree_ok demo_mem demo_fdt (\<lambda>_. 0) demo_tree" "height demo_tree \<le> 8"
  using demo_string by (simp_all add: demo_tree_def) (simp add: ascii_def)

section \<open>Properties\<close>

text \<open>
  C18. The parser on arbitrary memory. When \<^verbatim>\<open>Fdt::new\<close> accepts the blob at \<open>a\<close>, \<^verbatim>\<open>parse\<close> ends without a
  panic, whatever the bytes are; neither reads a byte outside the blob, so other memory with the same
  blob gives the same result; and the reserved ranges it returns are at most eight, pairwise disjoint,
  and cover the blob itself.
\<close>

theorem fdt_parse_safe:
  assumes "fdt_new m a = Some f"
  shows "\<exists>p. fdt_parse m f = Some p \<and>
    (\<forall>m'. (\<forall>x. a \<le> x \<longrightarrow> x < a + f_total f \<longrightarrow> m' x = m x) \<longrightarrow> fdt_new m' a = Some f \<and> fdt_parse m' f = Some p) \<and>
    length (bp_reserved p) \<le> 8 \<and> apart (bp_reserved p) \<and> {a ..< a + f_total f} \<subseteq> rspans (bp_reserved p)"
proof -
  note wf = fdt_new_wf [OF assms]
  let ?p0 = "add_reserved params_empty (f_addr f) (f_total f)"
  let ?e = "min (sat_add (f_off_struct f) (f_size_struct f)) (f_total f)"
  have r0: "reserved_ok params_empty" by (simp add: reserved_ok_def params_empty_def apart_def)
  have al: "f_addr f \<le> USIZE_MAX" "f_addr f \<noteq> 0" "f_total f \<noteq> 0" "f_addr f + f_total f \<le> USIZE_MAX"
    using wf(1) by (simp_all add: fdt_wf_def)
  note r1 = add_reserved_ok [OF r0 al(1), of "f_total f"]
  have off: "f_off_rsvmap f \<le> f_total f" using wf(1) by (simp add: fdt_wf_def)
  have run: "\<exists>p. fdt_parse m f = Some p \<and> fdt_parse m' f = Some p \<and> reserved_ok p \<and> rspans (bp_reserved ?p0) \<subseteq> rspans (bp_reserved p)"
    if b: "same_blob f m m'" for m'
  proof -
    obtain p where p: "rsvmap_loop m f (f_off_rsvmap f) ?p0 = Some p" "rsvmap_loop m' f (f_off_rsvmap f) ?p0 = Some p" "reserved_ok p"
      "rspans (bp_reserved ?p0) \<subseteq> rspans (bp_reserved p)" using rsvmap_loop_ok [OF b wf(1) r1(1) off] by blast
    have "walk_ok ?e (walk_start f p)" using wf(1) by (simp add: walk_ok_def walk_start_def fdt_wf_def sat_add_def)
    then obtain w where "walk_loop m f ?e (walk_start f p) = Some w" "walk_loop m' f ?e (walk_start f p) = Some w"
      "bp_reserved (w_params w) = bp_reserved p"
      using walk_loop_ok [OF b wf(1), of ?e "walk_start f p"] by (auto simp: walk_start_def)
    then show ?thesis using p by (simp add: fdt_parse_def reserved_ok_def)
  qed
  obtain p where p: "fdt_parse m f = Some p" "reserved_ok p" "rspans (bp_reserved ?p0) \<subseteq> rspans (bp_reserved p)"
    using run [of m] by (auto simp: same_blob_def)
  have "fdt_new m' a = Some f \<and> fdt_parse m' f = Some p" if eq: "\<forall>x. a \<le> x \<longrightarrow> x < a + f_total f \<longrightarrow> m' x = m x" for m'
  proof -
    have b: "same_blob f m m'" using eq wf(2) by (simp add: same_blob_def)
    have "be32 m' (a + i) = be32 m (a + i)" if "i + 4 \<le> 40" for i
      using be32_blob [OF b, of i] wf(1,2) that by (simp add: fdt_wf_def)
    from this [of 0] this [of 4] this [of 8] this [of 12] this [of 16] this [of 32] this [of 36]
    have "fdt_new m' a = fdt_new m a" by (simp add: fdt_new_def header_word_def)
    then show ?thesis using run [OF b] p(1) assms by auto
  qed
  moreover have "{a ..< a + f_total f} \<subseteq> rspans (bp_reserved ?p0)"
    using r1(3) al wf(2) by (simp add: params_empty_def rspan_def sat_add_def)
  ultimately show ?thesis using p unfolding reserved_ok_def by blast
qed

theorem fdt_parse_safe_witness:
  "\<exists>p. fdt_parse demo_mem demo_fdt = Some p \<and> length (bp_reserved p) \<le> 8 \<and> {0x1000 ..< 0x1090} \<subseteq> rspans (bp_reserved p)"
  using fdt_parse_safe [OF demo_new] by (auto simp: demo_fdt_def)

text \<open>
  C20. The parser computes what the device tree says. When the blob holds the encoding of a tree of at
  most eight levels with short names, and of a list of reserved ranges, the result is that of the
  ranges (the blob first) and of the properties of the nodes in document order, each applied under the
  name of its own node.
\<close>

theorem fdt_parse_tree:
  assumes "fdt_new m a = Some f" "tree_ok m f off t" "height t \<le> 8" "4 dvd f_off_struct f"
    and "holds m (a + f_off_struct f) (flat off t @ be4 FDT_END)" "length (flat off t @ be4 FDT_END) \<le> f_size_struct f"
    and "holds m (a + f_off_rsvmap f) (flat_rsv rs)" "f_off_rsvmap f + length (flat_rsv rs) \<le> f_total f"
    and "\<forall>r\<in>set rs. r \<noteq> (0, 0) \<and> fst r < USIZE_LIMIT \<and> snd r < USIZE_LIMIT"
  shows "fdt_parse m f = Some (tree_effect t (fold reserve ((a, f_total f) # rs) params_empty))"
proof -
  note wf = fdt_new_wf [OF assms(1)]
  let ?p = "fold reserve ((a, f_total f) # rs) params_empty"
  define e where "e = min (sat_add (f_off_struct f) (f_size_struct f)) (f_total f)"
  have e: "e = f_off_struct f + f_size_struct f" "e \<le> 2 ^ 24" using wf(1) by (simp_all add: e_def fdt_wf_def sat_add_def)
  have rs: "rsvmap_loop m f (f_off_rsvmap f) (add_reserved params_empty (f_addr f) (f_total f)) = Some ?p"
    using rsvmap_flat [OF wf(1), of m "f_off_rsvmap f" rs] assms(7,8,9) wf(2) by (simp add: reserve_def)
  let ?w = "walk_start f ?p"
  have h: "holds m (f_addr f + w_pos ?w) (flat off t)" "holds m (f_addr f + (w_pos ?w + length (flat off t))) (be4 FDT_END)"
    using assms(5) wf(2) unfolding holds_append by (simp_all add: walk_start_def add.assoc)
  obtain w' where w': "walk_loop m f e ?w = walk_loop m f e w'" "after ?w (w_pos ?w + length (flat off t)) (tree_effect t ?p) w'"
    using walk_tree [OF e(2) assms(2), of ?w] assms(3,4,6) h(1) e(1) by (auto simp: walk_start_def)
  note a' = w'(2) [unfolded after_def]
  have "holds m (f_addr f + w_pos w') (be4 FDT_END)" "w_pos w' + 4 \<le> e" using h(2) a' assms(6) e(1) by (simp_all add: walk_start_def)
  then have "walk_loop m f e w' = Some (w'\<lparr>w_pos := w_pos w' + 4\<rparr>)"
    using walk_step [of w' e m f FDT_END] e(2)
    by (simp add: walk_token_def FDT_END_def FDT_BEGIN_NODE_def FDT_END_NODE_def FDT_PROP_def FDT_NOP_def)
  then show ?thesis using rs w'(1) a' unfolding fdt_parse_def e_def [symmetric] by (simp add: Let_def)
qed

lemma demo_effect: "bp_ram_start (tree_effect demo_tree p) = 0x80000000" "bp_ram_size (tree_effect demo_tree p) = 0x8000000"
proof -
  let ?v = "be8 0x80000000 @ be8 0x8000000"
  have "holds (value_mem ?v) 0 ?v" by (simp add: holds_def value_mem_def)
  then have h: "holds (value_mem ?v) 0 (be8 0x80000000)" "holds (value_mem ?v) 8 (be8 0x8000000)"
    unfolding holds_append by simp_all
  note c = cells2_be8 [OF h(1)] cells2_be8 [OF h(2)]
  have n: "named (ascii ''memory@80000000'') ''memory''" by (simp add: named_def ascii_def starts_with_def)
  have "tree_effect demo_tree p = handle_memory_reg (value_mem ?v) 0 16 p" using n by (simp add: demo_tree_def prop_effect_def)
  then show "bp_ram_start (tree_effect demo_tree p) = 0x80000000" "bp_ram_size (tree_effect demo_tree p) = 0x8000000"
    using c by (simp_all add: handle_memory_reg_def)
qed

theorem fdt_parse_tree_witness:
  "\<exists>p. fdt_parse demo_mem demo_fdt = Some p \<and> bp_ram_start p = 0x80000000 \<and> bp_ram_size p = 0x8000000"
proof -
  have "fdt_parse demo_mem demo_fdt = Some (tree_effect demo_tree (fold reserve ((0x1000, f_total demo_fdt) # demo_rsv) params_empty))"
    by (rule fdt_parse_tree [OF demo_new demo_tree_ok])
      (use demo_holds demo_lengths in \<open>simp_all add: demo_fdt_def demo_struct_def [symmetric]\<close>, simp add: demo_rsv_def)
  then show ?thesis using demo_effect by blast
qed

text \<open>
  Beyond eight levels the names get mixed up: leaving a node of the ninth level keeps its name for the
  node around it, and properties are matched again.
\<close>

lemma ninth_level_name: "w_depth w = 9 \<Longrightarrow> w_node (end_node w) = w_node w \<and> \<not> w_exceeded (end_node w)"
  by (simp add: end_node_def Let_def)

end
