(* ===== verification/Board.thy ===== *)
theory Board
  imports Fdt Mem
begin

text \<open>
  Models of src/kernel/src/board.rs, the board parameters with their defaults, and of
  src/kernel/src/cpu.rs, the choice of the timer from the ISA string. The linker symbols are arguments;
  the log output of cpu.rs is not part of the model.
\<close>

section \<open>Board parameters\<close>

definition DEFAULT_RAM_START :: usize where "DEFAULT_RAM_START = 0x80000000"
definition DEFAULT_RAM_SIZE :: usize where "DEFAULT_RAM_SIZE = 128 * 1024 * 1024"
definition DEFAULT_UART_BASE :: usize where "DEFAULT_UART_BASE = 0x10000000"
definition DEFAULT_UART_CLOCK :: usize where "DEFAULT_UART_CLOCK = 3686400"
definition DEFAULT_TIMER_FREQ :: usize where "DEFAULT_TIMER_FREQ = 10000000"
definition BOARD_SUPER_PAGE :: usize where "BOARD_SUPER_PAGE = 2 * 1024 * 1024"
definition KERNEL_LINK_BASE :: usize where "KERNEL_LINK_BASE = 0x80200000"
definition SV39_MAX_PHYS :: usize where "SV39_MAX_PHYS = 2 ^ 39"

lemmas board_consts = DEFAULT_RAM_START_def DEFAULT_RAM_SIZE_def DEFAULT_UART_BASE_def DEFAULT_UART_CLOCK_def
  DEFAULT_TIMER_FREQ_def BOARD_SUPER_PAGE_def KERNEL_LINK_BASE_def SV39_MAX_PHYS_def

record board =
  bd_ram_start :: usize
  bd_ram_size :: usize
  bd_uart_base :: usize
  bd_uart_clock :: usize
  bd_timer_freq :: usize
  bd_cpu_count :: usize

definition board_static :: board where
  "board_static = \<lparr>bd_ram_start = 0, bd_ram_size = 0, bd_uart_base = 0, bd_uart_clock = 0, bd_timer_freq = 0, bd_cpu_count = 0\<rparr>"

definition board_ram :: "usize \<Rightarrow> board_params \<Rightarrow> usize \<times> usize" where
  "board_ram kernel_end p =
     (let cand_start = (if bp_ram_start p \<noteq> 0 \<and> bp_ram_start p mod BOARD_SUPER_PAGE = 0 then bp_ram_start p else DEFAULT_RAM_START);
          cand_size = (if 1024 * 1024 \<le> bp_ram_size p \<and> bp_ram_size p \<le> MAX_PAGES * 4096 \<and> bp_ram_size p mod BOARD_SUPER_PAGE = 0
            then bp_ram_size p else DEFAULT_RAM_SIZE);
          cand_end = sat_add cand_start cand_size;
          ram_valid = (DEFAULT_RAM_START \<le> cand_start \<and> cand_end mod BOARD_SUPER_PAGE = 0 \<and> cand_end \<le> SV39_MAX_PHYS \<and>
            cand_start \<le> KERNEL_LINK_BASE \<and> kernel_end < cand_end)
      in if ram_valid then (cand_start, cand_size) else (DEFAULT_RAM_START, DEFAULT_RAM_SIZE))"

definition board_init :: "usize \<Rightarrow> usize \<Rightarrow> board_params \<Rightarrow> board outcome" where
  "board_init kernel_start kernel_end p = do {
     require (kernel_start = KERNEL_LINK_BASE);
     let (ram_start, ram_size) = board_ram kernel_end p;
     let ram_end = sat_add ram_start ram_size;
     let uart_base = (if bp_uart_base p \<noteq> 0 \<and> bp_uart_base p mod 4 = 0 \<and> (bp_uart_base p < ram_start \<or> ram_end \<le> bp_uart_base p)
       then bp_uart_base p else DEFAULT_UART_BASE);
     let timer_freq = (if 1000 \<le> bp_timebase_freq p \<and> bp_timebase_freq p \<le> 1000000000 then bp_timebase_freq p else DEFAULT_TIMER_FREQ);
     let uart_clock = (if 1000000 \<le> bp_uart_clock p \<and> bp_uart_clock p \<le> 100000000 then bp_uart_clock p else DEFAULT_UART_CLOCK);
     let cpu_count = (if 1 \<le> bp_cpu_count p then bp_cpu_count p else 1);
     Some \<lparr>bd_ram_start = ram_start, bd_ram_size = ram_size, bd_uart_base = uart_base, bd_uart_clock = uart_clock,
       bd_timer_freq = timer_freq, bd_cpu_count = cpu_count\<rparr> }"

definition cpu_count :: "board \<Rightarrow> usize" where
  "cpu_count b = (if bd_cpu_count b \<noteq> 0 then bd_cpu_count b else 1)"

definition ram_start :: "board \<Rightarrow> usize" where
  "ram_start b = (if bd_ram_start b \<noteq> 0 then bd_ram_start b else DEFAULT_RAM_START)"

definition ram_size :: "board \<Rightarrow> usize" where
  "ram_size b = (if bd_ram_size b \<noteq> 0 then bd_ram_size b else DEFAULT_RAM_SIZE)"

definition ram_end :: "board \<Rightarrow> usize outcome" where
  "ram_end b = uadd (ram_start b) (ram_size b)"

definition uart_base :: "board \<Rightarrow> usize" where
  "uart_base b = (if bd_uart_base b \<noteq> 0 then bd_uart_base b else DEFAULT_UART_BASE)"

definition uart_clock :: "board \<Rightarrow> usize" where
  "uart_clock b = (if bd_uart_clock b \<noteq> 0 then bd_uart_clock b else DEFAULT_UART_CLOCK)"

definition timer_freq :: "board \<Rightarrow> usize" where
  "timer_freq b = (if bd_timer_freq b \<noteq> 0 then bd_timer_freq b else DEFAULT_TIMER_FREQ)"

definition timer_interval :: "board \<Rightarrow> usize" where
  "timer_interval b = timer_freq b div 100"

section \<open>The timer\<close>

definition detect_from_fdt :: "board_params \<Rightarrow> bytes option" where
  "detect_from_fdt p = (if bp_isa_string p = [] then None else Some (bp_isa_string p))"

definition cpu_init :: "board_params \<Rightarrow> bool" where
  "cpu_init p = (case detect_from_fdt p of None \<Rightarrow> False | Some isa \<Rightarrow> has_window (ascii ''sstc'') isa)"

section \<open>Board parameters are sane\<close>

lemma board_ram_ok:
  assumes "board_ram kernel_end p = (rs, rz)"
  shows "DEFAULT_RAM_START \<le> rs" "rs \<le> KERNEL_LINK_BASE" "rs mod BOARD_SUPER_PAGE = 0" "rz mod BOARD_SUPER_PAGE = 0" "0 < rz"
    "rz \<le> MAX_PAGES * 4096" "rs + rz \<le> SV39_MAX_PHYS" "rs + rz < USIZE_LIMIT"
proof -
  have "DEFAULT_RAM_START \<le> rs \<and> rs \<le> KERNEL_LINK_BASE \<and> rs mod BOARD_SUPER_PAGE = 0 \<and> rz mod BOARD_SUPER_PAGE = 0 \<and> 0 < rz \<and>
    rz \<le> MAX_PAGES * 4096 \<and> rs + rz \<le> SV39_MAX_PHYS \<and> rs + rz < USIZE_LIMIT"
    using assms by (auto simp: board_ram_def Let_def board_consts sat_add_def PAGE_SIZE_def split: if_splits)
  then show "DEFAULT_RAM_START \<le> rs" "rs \<le> KERNEL_LINK_BASE" "rs mod BOARD_SUPER_PAGE = 0" "rz mod BOARD_SUPER_PAGE = 0" "0 < rz"
    "rz \<le> MAX_PAGES * 4096" "rs + rz \<le> SV39_MAX_PHYS" "rs + rz < USIZE_LIMIT" by blast+
qed

text \<open>Whatever the device tree says, the board parameters are usable.\<close>

definition board_ok :: "board \<Rightarrow> usize \<Rightarrow> bool" where
  "board_ok b re \<longleftrightarrow> 0x80000000 \<le> ram_start b \<and> ram_start b \<le> 0x80200000 \<and> 0x200000 dvd ram_start b \<and> 0x200000 dvd re \<and>
     ram_start b < re \<and> re \<le> 2 ^ 39 \<and> re - ram_start b \<le> 128 * 1024 * 1024 \<and>
     4 dvd uart_base b \<and> (uart_base b < ram_start b \<or> re \<le> uart_base b) \<and>
     0 < timer_interval b \<and> 1 \<le> cpu_count b \<and> 1000000 \<le> uart_clock b \<and> uart_clock b \<le> 100000000"

lemma board_init_ok:
  obtains b re where "board_init KERNEL_LINK_BASE kernel_end p = Some b" "ram_end b = Some re" "board_ok b re"
proof -
  obtain rs rz where r: "board_ram kernel_end p = (rs, rz)" by (cases "board_ram kernel_end p")
  note o = board_ram_ok [OF r]
  have sum: "sat_add rs rz = rs + rz" using o(8) by (simp add: sat_add_def)
  obtain b where b: "board_init KERNEL_LINK_BASE kernel_end p = Some b" by (simp add: board_init_def r Let_def)
  have f: "bd_ram_start b = rs" "bd_ram_size b = rz" using b by (auto simp: board_init_def r Let_def)
  then have g: "ram_start b = rs" "ram_size b = rz" using o(1,5) by (simp_all add: ram_start_def ram_size_def board_consts)
  have re: "ram_end b = Some (rs + rz)" using o(8) by (simp add: ram_end_def g uadd_def)
  have u: "4 dvd uart_base b \<and> (uart_base b < rs \<or> rs + rz \<le> uart_base b)"
    using b o(1) by (auto simp: board_init_def r Let_def uart_base_def sum board_consts)
  have t: "0 < timer_interval b \<and> 1 \<le> cpu_count b \<and> 1000000 \<le> uart_clock b \<and> uart_clock b \<le> 100000000"
    using b by (auto simp: board_init_def r Let_def timer_interval_def timer_freq_def cpu_count_def uart_clock_def board_consts)
  have d: "0x200000 dvd rs" "0x200000 dvd rs + rz" using o(3,4) by (auto simp: board_consts)
  have "board_ok b (rs + rz)" unfolding board_ok_def g using o u t d by (simp add: board_consts PAGE_SIZE_def)
  then show thesis by (rule that [OF b re])
qed

end
