(* ===== verification/Boot.thy ===== *)
theory Boot
  imports Heap_Main Fdt_Main Board
begin

text \<open>
  The first part of \<^verbatim>\<open>kernel_main\<close> (src/kernel/src/main.rs): device tree, board parameters, physical
  memory. The linker symbols are arguments.
\<close>

definition boot_params :: "mem \<Rightarrow> usize \<Rightarrow> board_params outcome" where
  "boot_params m fdt = (case fdt_new m fdt of None \<Rightarrow> Some params_empty | Some f \<Rightarrow> fdt_parse m f)"

definition boot_memory :: "mem \<Rightarrow> usize \<Rightarrow> usize \<Rightarrow> usize \<Rightarrow> usize \<Rightarrow> (board_params \<times> board \<times> mm) outcome" where
  "boot_memory m fdt kernel_start kernel_end alloc_start = do {
     p \<leftarrow> boot_params m fdt;
     b \<leftarrow> board_init kernel_start kernel_end p;
     re \<leftarrow> ram_end b;
     s \<leftarrow> mem_init (mm_static m) alloc_start re (bp_reserved p);
     Some (p, b, s) }"

lemma boot_params_ok: "\<exists>p. boot_params m fdt = Some p"
proof (cases "fdt_new m fdt")
  case (Some f)
  note wf = fdt_new_wf [OF Some]
  let ?p0 = "add_reserved params_empty (f_addr f) (f_total f)"
  let ?e = "min (sat_add (f_off_struct f) (f_size_struct f)) (f_total f)"
  have b: "same_blob f m m" by (simp add: same_blob_def)
  have "reserved_ok params_empty" by (simp add: reserved_ok_def params_empty_def apart_def)
  then have r: "reserved_ok ?p0" by (rule add_reserved_ok) (use wf(1) in \<open>simp add: fdt_wf_def\<close>)
  obtain p where p: "rsvmap_loop m f (f_off_rsvmap f) ?p0 = Some p"
    using rsvmap_loop_ok [OF b wf(1) r, of "f_off_rsvmap f"] wf(1) by (auto simp: fdt_wf_def)
  have "walk_ok ?e (walk_start f p)" using wf(1) by (simp add: walk_ok_def walk_start_def fdt_wf_def sat_add_def)
  then obtain w where "walk_loop m f ?e (walk_start f p) = Some w"
    using walk_loop_ok [OF b wf(1), of ?e "walk_start f p"] by auto
  then show ?thesis using p Some by (simp add: boot_params_def fdt_parse_def)
qed (simp add: boot_params_def)

text \<open>
  C30. Booting on an arbitrary device tree. Whatever bytes the firmware left in memory and whatever
  address it passes, the kernel gets usable board parameters: RAM of at most 128 MiB that starts at or
  below the kernel image, ends on a 2 MiB boundary inside the physical window, and does not contain the
  UART registers. The allocator is then initialised without a panic, in a well-formed state with
  nothing handed out, exactly when RAM reaches beyond the first 16 MiB boundary at or above the end of
  the image and stacks; otherwise \<^verbatim>\<open>mem::init\<close> panics. \<^verbatim>\<open>heap::init\<close> over any later state of the
  allocator gives a well-formed empty heap.
\<close>

theorem boot_memory_ok:
  assumes "KERNEL_LINK_BASE \<le> alloc_start" "alloc_start \<le> 2 ^ 63" "base = div_ceil alloc_start (2 ^ 24) * 2 ^ 24"
  shows "\<exists>p b re. boot_params m fdt = Some p \<and> board_init KERNEL_LINK_BASE kernel_end p = Some b \<and> ram_end b = Some re \<and> board_ok b re \<and>
    (if base < re
     then \<exists>s. boot_memory m fdt KERNEL_LINK_BASE kernel_end alloc_start = Some (p, b, s) \<and> buddy_inv s {} \<and>
       ba_base s = base \<and> ba_real_count s = (re - base) div PAGE_SIZE \<and>
       (\<forall>s' X. buddy_inv s' X \<longrightarrow> same_geom s s' \<longrightarrow> (\<exists>h. heap_init (heap_static s') = Some h \<and> heap_inv h X Map.empty))
     else boot_memory m fdt KERNEL_LINK_BASE kernel_end alloc_start = None)"
proof -
  obtain p where p: "boot_params m fdt = Some p" using boot_params_ok by blast
  obtain b re where b: "board_init KERNEL_LINK_BASE kernel_end p = Some b" "ram_end b = Some re" "board_ok b re"
    by (rule board_init_ok)
  have e: "boot_memory m fdt KERNEL_LINK_BASE kernel_end alloc_start =
      do { s \<leftarrow> mem_init (mm_static m) alloc_start re (bp_reserved p); Some (p, b, s) }"
    using p b by (simp add: boot_memory_def)
  let ?n = "(re - base) div PAGE_SIZE"
  have base: "alloc_start \<le> base" unfolding assms(3) by (rule div_ceil_mult_ge) simp
  then have lo: "ram_start b \<le> base" using b(3) assms(1) by (simp add: board_ok_def board_consts)
  then have "re - base \<le> 128 * 1024 * 1024" using b(3) unfolding board_ok_def by linarith
  then have n: "?n \<le> MAX_PAGES" by (simp add: PAGE_SIZE_def)
  have al: "4096 dvd base" "0 < base" using base assms by (auto simp: board_consts)
  show ?thesis
  proof (cases "base < re")
    case True
    then obtain s0 where s0: "mem_init (mm_static m) alloc_start re (bp_reserved p) = Some s0"
      using mem_init_ok [OF assms(2,3)] n by blast
    note r = mem_init_rel [OF assms(2) s0 assms(3) refl]
    have g: "buddy_inv s0 {}" "ba_base s0 = base" "ba_real_count s0 = ?n" using r by (auto simp: buddy_inv_def)
    have "\<exists>h. heap_init (heap_static s') = Some h \<and> heap_inv h X Map.empty" if s': "buddy_inv s' X" "same_geom s0 s'" for s' X
    proof -
      have "ba_base s' = base" "ba_real_count s' = ?n" using s'(2) g by (simp_all add: same_geom_def)
      moreover have "base + ?n * PAGE_SIZE \<le> 2 ^ 56"
      proof -
        have "?n * PAGE_SIZE \<le> re - base" by (rule div_times_less_eq_dividend)
        moreover have "re \<le> 2 ^ 39" using b(3) by (simp add: board_ok_def)
        ultimately show ?thesis using True by simp
      qed
      ultimately have g': "0 < ba_base s'" "4096 dvd ba_base s'" "phys_ok s'" "ba_real_count s' \<le> MAX_PAGES"
        using n al by (simp_all add: phys_ok_def)
      show ?thesis by (rule heap_init_ok [OF s'(1) g']) blast
    qed
    then show ?thesis using p b e s0 g True by (intro exI [of _ p] exI [of _ b] exI [of _ re]) auto
  next
    case False
    have "mem_init (mm_static m) alloc_start re (bp_reserved p) = None"
      using mem_init_eq(1) [OF assms(2,3) refl] False by auto
    then show ?thesis using p b e False by auto
  qed
qed

theorem boot_memory_ok_witness:
  "\<exists>p b s. boot_memory (\<lambda>_. 0) 0 KERNEL_LINK_BASE 0x80300000 0x80400000 = Some (p, b, s) \<and> ram_end b = Some 0x88000000 \<and>
     ba_base s = 0x81000000 \<and> ba_real_count s = 0x7000 \<and> buddy_inv s {}"
proof -
  have p: "boot_params (\<lambda>_. 0) 0 = Some params_empty" by (simp add: boot_params_def fdt_new_def)
  obtain b where b: "board_init KERNEL_LINK_BASE 0x80300000 params_empty = Some b" "ram_end b = Some 0x88000000"
    by (simp add: board_init_def board_ram_def params_empty_def board_consts sat_add_def ram_end_def ram_start_def ram_size_def uadd_def Let_def)
  have "KERNEL_LINK_BASE \<le> 0x80400000" "(0x80400000::nat) \<le> 2 ^ 63" "0x81000000 = div_ceil 0x80400000 (2 ^ 24) * 2 ^ 24"
    by (simp_all add: board_consts div_ceil_def)
  from boot_memory_ok [OF this, of "\<lambda>_. 0" 0 "0x80300000"] show ?thesis using p b by (auto simp: PAGE_SIZE_def)
qed

text \<open>
  The check of \<^verbatim>\<open>init_from_fdt\<close> that RAM ends above the image is not enough for the allocator to have pages,
  as its comment says: with 8 MiB of RAM, an image that fits is accepted, and \<^verbatim>\<open>mem::init\<close> panics.
\<close>

theorem small_ram_panics:
  assumes p: "boot_params m fdt = Some p" "bp_ram_start p = 0x80000000" "bp_ram_size p = 0x800000"
    and k: "kernel_end < 0x80800000" "KERNEL_LINK_BASE \<le> alloc_start" "alloc_start \<le> 0x81000000"
  shows "\<exists>b. board_init KERNEL_LINK_BASE kernel_end p = Some b \<and> ram_end b = Some 0x80800000 \<and>
    boot_memory m fdt KERNEL_LINK_BASE kernel_end alloc_start = None"
proof -
  have r: "board_ram kernel_end p = (0x80000000, 0x800000)"
    using p(2,3) k(1) by (simp add: board_ram_def board_consts sat_add_def Let_def PAGE_SIZE_def)
  obtain b where b: "board_init KERNEL_LINK_BASE kernel_end p = Some b" by (simp add: board_init_def r Let_def)
  have re: "ram_end b = Some 0x80800000"
    using b by (auto simp: board_init_def r Let_def ram_end_def ram_start_def ram_size_def uadd_def)
  have "0x80000000 < alloc_start" using k(2) by (simp add: board_consts)
  then have "0x80800000 \<le> div_ceil alloc_start (2 ^ 24) * 2 ^ 24"
    using div_ceil_mult_ge [of "2 ^ 24" alloc_start] by (simp add: div_ceil_def split: if_splits)
  then have "mem_init (mm_static m) alloc_start 0x80800000 (bp_reserved p) = None"
    using mem_init_eq(1) [OF _ refl refl, of alloc_start] k(3) by auto
  then show ?thesis using b re p(1) by (simp add: boot_memory_def)
qed

end
