(* ===== verification/Sync.thy ===== *)
theory Sync
  imports Prelude
begin

text \<open>
  Model of src/kernel/src/sync.rs: spin locks, blocking mutexes and condition variables, as the atomic
  steps of threads on several harts that interleave freely.

  A thread has a program counter inside the operation it runs. Each step is one atomic access: a swap or
  a store of the lock flag, one operation on a waiter queue (which has a spin lock of its own and is used
  for a single operation at a time), a wake-up, or the decision to block. \<^verbatim>\<open>sched::wake\<close> sets the flag
  \<^verbatim>\<open>woken\<close> of a thread and makes it runnable when it is blocked; \<^verbatim>\<open>sched::block_current\<close> consumes the
  flag instead of blocking when it is set, and clears it when the thread is resumed (theory Sched has
  both functions in full, with their other reasons to go on). \<^verbatim>\<open>unlock\<close>, \<^verbatim>\<open>wait\<close> and \<^verbatim>\<open>notify_one\<close> hold the
  guard of the queue until after the wake-up; here taking an entry and the wake-up are two steps, so the model
  has every run of the code and some more. What is shown of all runs holds of the code, and the run that
  loses a wake-up (theory Sync_Main) has nothing between these two steps. The value behind the lock is not part of
  the state: it is accessed between acquiring and releasing only.
\<close>

section \<open>Spin locks\<close>

datatype spin_pc =
    SOut | SSave | SSwap bool | SSpin bool | SIn bool | SRestore bool | TSave | TSwap bool | TFail bool

record spin =
  sp_locked :: bool
  sp_irq :: "nat \<Rightarrow> bool"
  sp_pc :: "nat \<Rightarrow> spin_pc"

definition spin_new :: "(nat \<Rightarrow> bool) \<Rightarrow> spin" where
  "spin_new irq = \<lparr>sp_locked = False, sp_irq = irq, sp_pc = (\<lambda>_. SOut)\<rparr>"

definition irq_save :: "spin \<Rightarrow> nat \<Rightarrow> (bool \<Rightarrow> spin_pc) \<Rightarrow> spin" where
  "irq_save s h pc = s\<lparr>sp_irq := (sp_irq s)(h := False), sp_pc := (sp_pc s)(h := pc (sp_irq s h))\<rparr>"

definition irq_restore :: "spin \<Rightarrow> nat \<Rightarrow> bool \<Rightarrow> spin" where
  "irq_restore s h on = s\<lparr>sp_irq := (if on then (sp_irq s)(h := True) else sp_irq s), sp_pc := (sp_pc s)(h := SOut)\<rparr>"

definition spin_goto :: "spin \<Rightarrow> nat \<Rightarrow> spin_pc \<Rightarrow> spin" where
  "spin_goto s h pc = s\<lparr>sp_pc := (sp_pc s)(h := pc)\<rparr>"

text \<open>One step of \<^verbatim>\<open>lock\<close>, \<^verbatim>\<open>try_lock\<close> or the drop of a guard on hart \<open>h\<close>.\<close>

definition spin_act :: "spin \<Rightarrow> nat \<Rightarrow> spin" where
  "spin_act s h =
     (case sp_pc s h of
        SOut \<Rightarrow> s
      | SSave \<Rightarrow> irq_save s h SSwap
      | SSwap v \<Rightarrow> if sp_locked s then spin_goto s h (SSpin v) else spin_goto (s\<lparr>sp_locked := True\<rparr>) h (SIn v)
      | SSpin v \<Rightarrow> if sp_locked s then s else spin_goto s h (SSwap v)
      | SIn v \<Rightarrow> spin_goto (s\<lparr>sp_locked := False\<rparr>) h (SRestore v)
      | SRestore v \<Rightarrow> irq_restore s h v
      | TSave \<Rightarrow> irq_save s h TSwap
      | TSwap v \<Rightarrow> if sp_locked s then spin_goto s h (TFail v) else spin_goto (s\<lparr>sp_locked := True\<rparr>) h (SIn v)
      | TFail v \<Rightarrow> irq_restore s h v)"

inductive spin_step :: "spin \<Rightarrow> spin \<Rightarrow> bool" where
  call_lock: "sp_pc s h = SOut \<Longrightarrow> spin_step s (spin_goto s h SSave)"
| call_try_lock: "sp_pc s h = SOut \<Longrightarrow> spin_step s (spin_goto s h TSave)"
| act: "spin_step s (spin_act s h)"

section \<open>Mutexes and condition variables\<close>

datatype pc =
    Out | LSwap | LPush | LSwap2 | LPop | LBlock | LSleep | Holding
  | UStore | UPop | UWake "nat option"
  | WPush | WStore | WPop | WWake "nat option" | WBlock | WSleep
  | NPop | NWake "nat option" | NAll | NWakes "nat list"

record mutex =
  mx_locked :: bool
  mx_waiters :: "nat list"
  cv_waiters :: "nat list"
  th_pc :: "nat \<Rightarrow> pc"
  th_woken :: "nat \<Rightarrow> bool"

definition mutex_new :: mutex where
  "mutex_new = \<lparr>mx_locked = False, mx_waiters = [], cv_waiters = [], th_pc = (\<lambda>_. Out), th_woken = (\<lambda>_. False)\<rparr>"

definition goto :: "nat \<Rightarrow> pc \<Rightarrow> mutex \<Rightarrow> mutex" where
  "goto t p s = s\<lparr>th_pc := (th_pc s)(t := p)\<rparr>"

definition wake_thread :: "nat option \<Rightarrow> mutex \<Rightarrow> mutex" where
  "wake_thread w s = (case w of None \<Rightarrow> s | Some t \<Rightarrow> s\<lparr>th_woken := (th_woken s)(t := True)\<rparr>)"

text \<open>\<^verbatim>\<open>pop_front\<close>: the first element if there is one.\<close>

definition front :: "nat list \<Rightarrow> nat option" where
  "front q = (case q of [] \<Rightarrow> None | x # _ \<Rightarrow> Some x)"

text \<open>\<^verbatim>\<open>block_current\<close>: continue at \<open>next\<close> when a wake-up is pending, sleep otherwise.\<close>

definition block_at :: "nat \<Rightarrow> pc \<Rightarrow> pc \<Rightarrow> mutex \<Rightarrow> mutex" where
  "block_at t asleep nxt s =
     (if th_woken s t then goto t nxt (s\<lparr>th_woken := (th_woken s)(t := False)\<rparr>) else goto t asleep s)"

text \<open>A sleeping thread runs only when it was woken; then the flag is cleared.\<close>

definition resume_at :: "nat \<Rightarrow> pc \<Rightarrow> mutex \<Rightarrow> mutex" where
  "resume_at t nxt s = (if th_woken s t then goto t nxt (s\<lparr>th_woken := (th_woken s)(t := False)\<rparr>) else s)"

text \<open>
  One step of thread \<open>t\<close>. \<open>L\<close>: \<^verbatim>\<open>Mutex::lock\<close>, \<open>U\<close>: \<^verbatim>\<open>Mutex::unlock\<close>, \<open>W\<close>: \<^verbatim>\<open>Condvar::wait\<close>, which ends
  in \<^verbatim>\<open>lock\<close>, \<open>N\<close>: \<^verbatim>\<open>notify_one\<close> and \<^verbatim>\<open>notify_all\<close>, which keeps the lock of the queue while it empties it,
  so that the queue is taken in one step.
\<close>

definition mutex_act :: "nat \<Rightarrow> mutex \<Rightarrow> mutex" where
  "mutex_act t s =
     (case th_pc s t of
        Out \<Rightarrow> s
      | LSwap \<Rightarrow> if mx_locked s then goto t LPush s else goto t Holding (s\<lparr>mx_locked := True\<rparr>)
      | LPush \<Rightarrow> goto t LSwap2 (s\<lparr>mx_waiters := mx_waiters s @ [t]\<rparr>)
      | LSwap2 \<Rightarrow> if mx_locked s then goto t LBlock s else goto t LPop (s\<lparr>mx_locked := True\<rparr>)
      | LPop \<Rightarrow> goto t Holding (s\<lparr>mx_waiters := butlast (mx_waiters s)\<rparr>)
      | LBlock \<Rightarrow> block_at t LSleep LSwap s
      | LSleep \<Rightarrow> resume_at t LSwap s
      | Holding \<Rightarrow> s
      | UStore \<Rightarrow> goto t UPop (s\<lparr>mx_locked := False\<rparr>)
      | UPop \<Rightarrow> goto t (UWake (front (mx_waiters s))) (s\<lparr>mx_waiters := tl (mx_waiters s)\<rparr>)
      | UWake w \<Rightarrow> goto t Out (wake_thread w s)
      | WPush \<Rightarrow> goto t WStore (s\<lparr>cv_waiters := cv_waiters s @ [t]\<rparr>)
      | WStore \<Rightarrow> goto t WPop (s\<lparr>mx_locked := False\<rparr>)
      | WPop \<Rightarrow> goto t (WWake (front (mx_waiters s))) (s\<lparr>mx_waiters := tl (mx_waiters s)\<rparr>)
      | WWake w \<Rightarrow> goto t WBlock (wake_thread w s)
      | WBlock \<Rightarrow> block_at t WSleep LSwap s
      | WSleep \<Rightarrow> resume_at t LSwap s
      | NPop \<Rightarrow> goto t (NWake (front (cv_waiters s))) (s\<lparr>cv_waiters := tl (cv_waiters s)\<rparr>)
      | NWake w \<Rightarrow> goto t Out (wake_thread w s)
      | NAll \<Rightarrow> goto t (NWakes (cv_waiters s)) (s\<lparr>cv_waiters := []\<rparr>)
      | NWakes ws \<Rightarrow> (case ws of [] \<Rightarrow> goto t Out s | w # ws' \<Rightarrow> goto t (NWakes ws') (wake_thread (Some w) s)))"

text \<open>The calls a thread may start: from outside, or while it holds the guard.\<close>

inductive mutex_step :: "mutex \<Rightarrow> mutex \<Rightarrow> bool" where
  call_lock: "th_pc s t = Out \<Longrightarrow> mutex_step s (goto t LSwap s)"
| call_unlock: "th_pc s t = Holding \<Longrightarrow> mutex_step s (goto t UStore s)"
| call_wait: "th_pc s t = Holding \<Longrightarrow> mutex_step s (goto t WPush s)"
| call_notify_one: "th_pc s t = Out \<Longrightarrow> mutex_step s (goto t NPop s)"
| call_notify_all: "th_pc s t = Out \<Longrightarrow> mutex_step s (goto t NAll s)"
| act: "mutex_step s (mutex_act t s)"

end
