(* ===== verification/Lock_Spec.thy ===== *)
theory Lock_Spec
  imports Main
begin

text \<open>
  The contract of a lock built on a flag that is set by an atomic swap: a step sets the flag only when it
  was clear, and makes its thread an owner; an owner clears it when it leaves.
\<close>

locale flag_lock =
  fixes locked :: "'s \<Rightarrow> bool" and owners :: "'s \<Rightarrow> nat set" and start :: "'s \<Rightarrow> bool" and step :: "'s \<Rightarrow> 's \<Rightarrow> bool"
  assumes start_free: "start s \<Longrightarrow> \<not> locked s \<and> owners s = {}"
    and step_cases:
      "step s s' \<Longrightarrow>
       locked s' = locked s \<and> owners s' = owners s \<or>
       (\<exists>t. \<not> locked s \<and> locked s' \<and> owners s' = insert t (owners s)) \<or>
       (\<exists>t\<in>owners s. \<not> locked s' \<and> owners s' = owners s - {t})"
begin

lemma exclusive:
  assumes "start s" "step\<^sup>*\<^sup>* s s'"
  shows "(\<forall>t\<in>owners s'. \<forall>u\<in>owners s'. t = u) \<and> (locked s' \<longleftrightarrow> owners s' \<noteq> {})"
  using assms(2)
proof (induction rule: rtranclp_induct)
  case base
  then show ?case using start_free [OF assms(1)] by simp
next
  case (step x y)
  from step_cases [OF step(2)] show ?case
  proof (elim disjE exE bexE conjE)
    fix t assume "\<not> locked x" "locked y" "owners y = insert t (owners x)"
    then show ?thesis using step.IH by auto
  next
    fix t assume "t \<in> owners x" "\<not> locked y" "owners y = owners x - {t}"
    then show ?thesis using step.IH by auto
  qed (use step.IH in simp)
qed

end

end
