(* ===== verification/Sync_Main.thy ===== *)
theory Sync_Main
  imports Sync Lock_Spec
begin

text \<open>
  Mutual exclusion of the locks of sync.rs under every interleaving, and a wake-up that the mutex loses
  when three threads on different harts meet.
\<close>

section \<open>Spin locks\<close>

definition spin_owners :: "spin \<Rightarrow> nat set" where
  "spin_owners s = {h. \<exists>v. sp_pc s h = SIn v}"

fun inside :: "spin_pc \<Rightarrow> bool" where
  "inside (SIn _) = True"
| "inside _ = False"

lemma spin_owners_goto: "spin_owners (spin_goto s h pc) = (if inside pc then insert h (spin_owners s) else spin_owners s - {h})"
  by (cases pc) (auto simp: spin_owners_def spin_goto_def)

lemma spin_owners_upd [simp]: "spin_owners (s\<lparr>sp_locked := b\<rparr>) = spin_owners s" "spin_owners (s\<lparr>sp_irq := i\<rparr>) = spin_owners s"
  by (simp_all add: spin_owners_def)

lemma irq_goto:
  "irq_save s h f = spin_goto (s\<lparr>sp_irq := (sp_irq s)(h := False)\<rparr>) h (f (sp_irq s h))"
  "irq_restore s h v = spin_goto (s\<lparr>sp_irq := (if v then (sp_irq s)(h := True) else sp_irq s)\<rparr>) h SOut"
  by (simp_all add: irq_save_def irq_restore_def spin_goto_def)

lemma spin_locked_goto [simp]: "sp_locked (spin_goto s h pc) = sp_locked s"
  by (simp add: spin_goto_def)

lemma spin_owner_iff: "h \<in> spin_owners s \<longleftrightarrow> inside (sp_pc s h)"
  unfolding spin_owners_def by (cases "sp_pc s h") auto

interpretation spinlock: flag_lock sp_locked spin_owners "\<lambda>s. \<exists>irq. s = spin_new irq" spin_step
proof unfold_locales
  fix s assume "\<exists>irq. s = spin_new irq"
  then show "\<not> sp_locked s \<and> spin_owners s = {}" by (auto simp: spin_new_def spin_owners_def)
next
  fix s s' assume "spin_step s s'"
  then show "sp_locked s' = sp_locked s \<and> spin_owners s' = spin_owners s \<or>
      (\<exists>t. \<not> sp_locked s \<and> sp_locked s' \<and> spin_owners s' = insert t (spin_owners s)) \<or>
      (\<exists>t\<in>spin_owners s. \<not> sp_locked s' \<and> spin_owners s' = spin_owners s - {t})"
  proof cases
    case (act h)
    note o = spin_owner_iff [of h s]
    show ?thesis unfolding act(1)
    proof (cases "sp_pc s h")
      case (SIn v)
      then have "h \<in> spin_owners s" using o by simp
      then show "sp_locked (spin_act s h) = sp_locked s \<and> spin_owners (spin_act s h) = spin_owners s \<or>
          (\<exists>t. \<not> sp_locked s \<and> sp_locked (spin_act s h) \<and> spin_owners (spin_act s h) = insert t (spin_owners s)) \<or>
          (\<exists>t\<in>spin_owners s. \<not> sp_locked (spin_act s h) \<and> spin_owners (spin_act s h) = spin_owners s - {t})"
        using SIn by (auto simp: spin_act_def spin_owners_goto)
    qed (use o in \<open>auto simp: spin_act_def spin_owners_goto irq_goto\<close>)
  qed (auto simp: spin_owners_goto spin_owner_iff)
qed

text \<open>Interrupts of a hart are off from the save on, and the drop of a guard restores them.\<close>

fun quiet :: "spin_pc \<Rightarrow> bool" where
  "quiet SOut = False"
| "quiet SSave = False"
| "quiet TSave = False"
| "quiet _ = True"

lemma spin_quiet_step: "spin_step s s' \<Longrightarrow> (\<And>h. quiet (sp_pc s h) \<Longrightarrow> \<not> sp_irq s h) \<Longrightarrow> quiet (sp_pc s' g) \<Longrightarrow> \<not> sp_irq s' g"
proof (induction rule: spin_step.induct)
  case (act s h)
  then show ?case
    by (cases "sp_pc s h") (auto simp: spin_act_def spin_goto_def irq_save_def irq_restore_def split: if_splits dest: act(1) [of g] act(1) [of h])
qed (auto simp: spin_goto_def split: if_splits)

lemma spin_quiet: "spin_step\<^sup>*\<^sup>* (spin_new irq) s \<Longrightarrow> quiet (sp_pc s h) \<Longrightarrow> \<not> sp_irq s h"
proof (induction arbitrary: h rule: rtranclp_induct)
  case base
  then show ?case by (simp add: spin_new_def)
qed (use spin_quiet_step in blast)

lemma spin_guard_irq:
  assumes "spin_step\<^sup>*\<^sup>* (spin_new irq) s" "sp_pc s h = SIn v"
  shows "\<not> sp_irq s h" "sp_irq (spin_act (spin_act s h) h) h = v"
proof -
  show q: "\<not> sp_irq s h" by (rule spin_quiet [OF assms(1)]) (simp add: assms(2))
  show "sp_irq (spin_act (spin_act s h) h) h = v" using q assms(2) by (simp add: spin_act_def spin_goto_def irq_restore_def)
qed

section \<open>Mutexes\<close>

text \<open>A thread owns the mutex from the swap that set the flag until the store that clears it.\<close>

fun owning :: "pc \<Rightarrow> bool" where
  "owning LPop = True"
| "owning Holding = True"
| "owning UStore = True"
| "owning WPush = True"
| "owning WStore = True"
| "owning _ = False"

definition owners :: "mutex \<Rightarrow> nat set" where
  "owners s = {t. owning (th_pc s t)}"

lemma owners_goto: "owners (goto t p s) = (if owning p then insert t (owners s) else owners s - {t})"
  by (auto simp: owners_def goto_def)

lemma owners_upd [simp]:
  "owners (s\<lparr>mx_locked := b\<rparr>) = owners s" "owners (s\<lparr>mx_waiters := q\<rparr>) = owners s" "owners (s\<lparr>cv_waiters := q\<rparr>) = owners s"
  "owners (s\<lparr>th_woken := k\<rparr>) = owners s" "owners (wake_thread w s) = owners s"
  by (simp_all add: owners_def wake_thread_def split: option.splits)

lemma locked_upd [simp]: "mx_locked (goto t p s) = mx_locked s" "mx_locked (wake_thread w s) = mx_locked s"
  by (simp_all add: goto_def wake_thread_def split: option.splits)

lemma owners_iff: "t \<in> owners s \<longleftrightarrow> owning (th_pc s t)"
  by (simp add: owners_def)

interpretation mutex: flag_lock mx_locked owners "\<lambda>s. s = mutex_new" mutex_step
proof unfold_locales
  fix s assume "s = mutex_new"
  then show "\<not> mx_locked s \<and> owners s = {}" by (simp add: mutex_new_def owners_def)
next
  fix s s' assume "mutex_step s s'"
  then show "mx_locked s' = mx_locked s \<and> owners s' = owners s \<or>
      (\<exists>t. \<not> mx_locked s \<and> mx_locked s' \<and> owners s' = insert t (owners s)) \<or>
      (\<exists>t\<in>owners s. \<not> mx_locked s' \<and> owners s' = owners s - {t})"
  proof cases
    case (act t)
    then show ?thesis using owners_iff [of t s]
      by (cases "th_pc s t") (auto simp: mutex_act_def owners_goto block_at_def resume_at_def split: list.splits)
  qed (auto simp: owners_goto owners_iff)
qed

text \<open>
  C21. Mutual exclusion. However the steps of any number of threads in \<^verbatim>\<open>lock\<close>, \<^verbatim>\<open>unlock\<close>, \<^verbatim>\<open>wait\<close> and
  \<^verbatim>\<open>notify\<close> interleave, at most one thread is between acquiring and releasing the mutex, and the flag is
  set exactly while there is one.
\<close>

theorem mutex_exclusion:
  assumes "mutex_step\<^sup>*\<^sup>* mutex_new s"
  shows "(\<forall>t u. owning (th_pc s t) \<longrightarrow> owning (th_pc s u) \<longrightarrow> t = u) \<and> (mx_locked s \<longleftrightarrow> (\<exists>t. owning (th_pc s t)))"
  using mutex.exclusive [OF refl assms] by (auto simp: owners_def)

section \<open>Runs\<close>

datatype ev = Lock nat | Unlock nat | Act nat

fun exec :: "ev \<Rightarrow> mutex \<Rightarrow> mutex option" where
  "exec (Lock t) s = (if th_pc s t = Out then Some (goto t LSwap s) else None)"
| "exec (Unlock t) s = (if th_pc s t = Holding then Some (goto t UStore s) else None)"
| "exec (Act t) s = Some (mutex_act t s)"

fun run :: "ev list \<Rightarrow> mutex \<Rightarrow> mutex option" where
  "run [] s = Some s"
| "run (e # es) s = (case exec e s of None \<Rightarrow> None | Some s' \<Rightarrow> run es s')"

lemma exec_step: "exec e s = Some s' \<Longrightarrow> mutex_step s s'"
  by (cases e) (auto split: if_splits intro: mutex_step.intros)

lemma run_steps: "run es s = Some s' \<Longrightarrow> mutex_step\<^sup>*\<^sup>* s s'"
proof (induction es arbitrary: s)
  case (Cons e es)
  then obtain s1 where "exec e s = Some s1" "run es s1 = Some s'" by (auto split: option.splits)
  then show ?case using Cons.IH exec_step by (meson converse_rtranclp_into_rtranclp)
qed simp

theorem mutex_exclusion_witness:
  "\<exists>s. run [Lock 0, Act 0, Lock 1, Act 1] mutex_new = Some s \<and> th_pc s 0 = Holding \<and> \<not> owning (th_pc s 1)"
proof -
  obtain s where s: "run [Lock 0, Act 0, Lock 1, Act 1] mutex_new = Some s" "th_pc s 0 = Holding"
    by (simp add: mutex_new_def goto_def mutex_act_def)
  then show ?thesis using mutex_exclusion [OF run_steps [OF s(1)]] by (metis owning.simps(2) zero_neq_one)
qed

section \<open>A lost wake-up\<close>

text \<open>Thread \<open>b\<close> sleeps, and nobody knows about it.\<close>

definition forgotten :: "nat \<Rightarrow> mutex \<Rightarrow> bool" where
  "forgotten b s \<longleftrightarrow> th_pc s b = LSleep \<and> \<not> th_woken s b \<and> b \<notin> set (mx_waiters s) \<and> b \<notin> set (cv_waiters s) \<and>
     (\<forall>t. th_pc s t \<noteq> UWake (Some b) \<and> th_pc s t \<noteq> WWake (Some b) \<and> th_pc s t \<noteq> NWake (Some b) \<and> (\<forall>ws. th_pc s t = NWakes ws \<longrightarrow> b \<notin> set ws))"

lemma front_in: "front q = Some x \<Longrightarrow> x \<in> set q"
  by (cases q) (auto simp: front_def)

lemma forgotten_goto:
  assumes "forgotten b s" "t \<noteq> b" "p \<noteq> UWake (Some b)" "p \<noteq> WWake (Some b)" "p \<noteq> NWake (Some b)" "\<And>ws. p = NWakes ws \<Longrightarrow> b \<notin> set ws"
  shows "forgotten b (goto t p s)"
  using assms unfolding forgotten_def goto_def by simp

lemma forgotten_upd:
  assumes "forgotten b s"
  shows "forgotten b (s\<lparr>mx_locked := l\<rparr>)" "b \<notin> set q \<Longrightarrow> forgotten b (s\<lparr>mx_waiters := q\<rparr>)" "b \<notin> set q \<Longrightarrow> forgotten b (s\<lparr>cv_waiters := q\<rparr>)"
    "\<not> k b \<Longrightarrow> forgotten b (s\<lparr>th_woken := k\<rparr>)" "w \<noteq> Some b \<Longrightarrow> forgotten b (wake_thread w s)"
  using assms unfolding forgotten_def wake_thread_def by (auto split: option.splits)

lemma forgotten_act:
  assumes f: "forgotten b s"
  shows "forgotten b (mutex_act t s)"
proof (cases "t = b")
  case True
  then have "mutex_act t s = s" using f by (simp add: mutex_act_def forgotten_def resume_at_def)
  then show ?thesis using f by simp
next
  case False
  note d = f [unfolded forgotten_def]
  have q: "b \<notin> set (tl (mx_waiters s))" "b \<notin> set (tl (cv_waiters s))" "front (mx_waiters s) \<noteq> Some b" "front (cv_waiters s) \<noteq> Some b"
    "b \<notin> set (butlast (mx_waiters s))"
    using d by (auto dest: front_in list.set_sel(2) in_set_butlastD simp: list.set_sel(2)) (metis list.sel(2) list.set_sel(2))+
  note g = forgotten_goto [OF _ False] forgotten_upd [OF f]
  show ?thesis
  proof (cases "th_pc s t")
    case (NWakes ws)
    then have "b \<notin> set ws" using d by blast
    then show ?thesis using NWakes by (auto simp: mutex_act_def intro!: g f split: list.splits)
  qed (use d q False in \<open>auto simp: mutex_act_def block_at_def resume_at_def intro!: g f\<close>)
qed

lemma forgotten_call:
  assumes "forgotten b s" "th_pc s t \<noteq> LSleep" "p \<in> {LSwap, UStore, WPush, NPop, NAll}"
  shows "forgotten b (goto t p s)"
proof (rule forgotten_goto [OF assms(1)])
  show "t \<noteq> b" using assms(1,2) by (auto simp: forgotten_def)
qed (use assms(3) in auto)

lemma forgotten_step: "mutex_step s s' \<Longrightarrow> forgotten b s \<Longrightarrow> forgotten b s'"
  by (induction rule: mutex_step.induct) (auto intro: forgotten_act forgotten_call)

lemma forgotten_steps: "mutex_step\<^sup>*\<^sup>* s s' \<Longrightarrow> forgotten b s \<Longrightarrow> forgotten b s'"
  by (induction rule: rtranclp_induct) (auto intro: forgotten_step)

definition lost_run :: "ev list" where
  "lost_run = [Lock 0, Act 0, Lock 1, Act 1, Act 1, Lock 2, Act 2, Act 2, Act 2, Act 2,
     Unlock 0, Act 0, Act 1, Act 1, Act 0, Act 0, Unlock 1, Act 1, Act 1, Act 1]"

text \<open>
  C28. The mutex loses a wake-up. While thread 0 holds the mutex, threads 1 and 2 queue up; thread 2
  falls asleep. Thread 0 clears the flag, and thread 1, at its second try, takes the lock and removes
  the last queue entry, which is that of thread 2 and not its own. The run ends with the mutex free, its
  queue empty and no other thread in an operation, and thread 2 sleeps on in every continuation. (A
  comment on this branch calls it unreachable.)
\<close>

theorem mutex_lost_wakeup:
  "\<exists>s. mutex_step\<^sup>*\<^sup>* mutex_new s \<and> \<not> mx_locked s \<and> mx_waiters s = [] \<and> (\<forall>t. t \<noteq> 2 \<longrightarrow> th_pc s t = Out) \<and>
     (\<forall>s'. mutex_step\<^sup>*\<^sup>* s s' \<longrightarrow> th_pc s' 2 = LSleep)"
proof -
  have "\<exists>s. run lost_run mutex_new = Some s \<and> \<not> mx_locked s \<and> mx_waiters s = [] \<and> cv_waiters s = [] \<and> \<not> th_woken s 2 \<and>
      th_pc s 2 = LSleep \<and> (\<forall>t. t \<noteq> 2 \<longrightarrow> th_pc s t = Out)"
    by (simp add: lost_run_def mutex_new_def goto_def mutex_act_def block_at_def wake_thread_def front_def)
  then obtain s where s: "run lost_run mutex_new = Some s" "\<not> mx_locked s" "mx_waiters s = []" "cv_waiters s = []" "\<not> th_woken s 2"
      "th_pc s 2 = LSleep" "\<forall>t. t \<noteq> 2 \<longrightarrow> th_pc s t = Out" by blast
  have "forgotten 2 s" using s unfolding forgotten_def by (metis list.set(1) empty_iff pc.distinct)
  then have "\<forall>s'. mutex_step\<^sup>*\<^sup>* s s' \<longrightarrow> th_pc s' 2 = LSleep" using forgotten_steps unfolding forgotten_def by blast
  then show ?thesis using s run_steps [OF s(1)] by blast
qed

theorem mutex_lost_wakeup_witness:
  "\<exists>s. mutex_step\<^sup>*\<^sup>* mutex_new s \<and> \<not> mx_locked s \<and> th_pc s 2 = LSleep"
  using mutex_lost_wakeup by blast

end
