(* ===== verification/Console.thy ===== *)
theory Console
  imports Board
begin

text \<open>
  Model of src/kernel/src/uart.rs, the serial console of the kernel. The device is an NS16550 at the
  address \<open>u_at\<close>: registers 0 and 1 are the divisor latch while bit 7 of the line control register is
  set, and the transmitter and the interrupt enable register otherwise. What the line status register
  answers is an argument, the sequence \<open>u_lsr\<close>: a transmitter may hang. An access to another
  address has the outcome \<open>None\<close>. Barriers have no effect in the model. The console lock is its flag; saving
  the interrupt state is in theory Sync.
\<close>

section \<open>The device\<close>

record ns16550 =
  u_at :: usize
  u_dll :: byte
  u_dlm :: byte
  u_ier :: byte
  u_fcr :: byte
  u_lcr :: byte
  u_mcr :: byte
  u_sent :: "byte list"
  u_lsr :: "nat \<Rightarrow> byte"
  u_polls :: nat

definition dlab :: "ns16550 \<Rightarrow> bool" where
  "dlab d \<longleftrightarrow> bit (u_lcr d) 7"

definition dev_write :: "ns16550 \<Rightarrow> nat \<Rightarrow> byte \<Rightarrow> ns16550 outcome" where
  "dev_write d reg v =
     (if reg = 0 then Some (if dlab d then d\<lparr>u_dll := v\<rparr> else d\<lparr>u_sent := u_sent d @ [v]\<rparr>)
      else if reg = 1 then Some (if dlab d then d\<lparr>u_dlm := v\<rparr> else d\<lparr>u_ier := v\<rparr>)
      else if reg = 2 then Some (d\<lparr>u_fcr := v\<rparr>)
      else if reg = 3 then Some (d\<lparr>u_lcr := v\<rparr>)
      else if reg = 4 then Some (d\<lparr>u_mcr := v\<rparr>)
      else None)"

section \<open>State\<close>

record console =
  co_reg_base :: usize
  co_locked :: bool
  co_panic :: bool
  co_dropped :: u64
  co_dev :: ns16550

definition console_static :: "ns16550 \<Rightarrow> console" where
  "console_static d = \<lparr>co_reg_base = USIZE_MAX, co_locked = False, co_panic = False, co_dropped = 0, co_dev = d\<rparr>"

definition set_panic_output :: "console \<Rightarrow> console" where
  "set_panic_output c = c\<lparr>co_panic := True\<rparr>"

section \<open>Registers\<close>

definition reg_base :: "board \<Rightarrow> console \<Rightarrow> usize" where
  "reg_base b c = (if co_reg_base c \<noteq> USIZE_MAX then co_reg_base c else uart_base b)"

definition uart_dll :: "board \<Rightarrow> console \<Rightarrow> usize outcome" where "uart_dll b c = uadd (reg_base b c) 0"
definition uart_dlm :: "board \<Rightarrow> console \<Rightarrow> usize outcome" where "uart_dlm b c = uadd (reg_base b c) 1"
definition uart_ier :: "board \<Rightarrow> console \<Rightarrow> usize outcome" where "uart_ier b c = uadd (reg_base b c) 1"
definition uart_fcr :: "board \<Rightarrow> console \<Rightarrow> usize outcome" where "uart_fcr b c = uadd (reg_base b c) 2"
definition uart_lcr :: "board \<Rightarrow> console \<Rightarrow> usize outcome" where "uart_lcr b c = uadd (reg_base b c) 3"
definition uart_mcr :: "board \<Rightarrow> console \<Rightarrow> usize outcome" where "uart_mcr b c = uadd (reg_base b c) 4"
definition uart_lsr :: "board \<Rightarrow> console \<Rightarrow> usize outcome" where "uart_lsr b c = uadd (reg_base b c) 5"

text \<open>The only register that is read is the line status register.\<close>

definition read_u8 :: "console \<Rightarrow> usize \<Rightarrow> (byte \<times> console) outcome" where
  "read_u8 c addr =
     (let d = co_dev c in
      if addr = u_at d + 5 then Some (u_lsr d (u_polls d), c\<lparr>co_dev := d\<lparr>u_polls := Suc (u_polls d)\<rparr>\<rparr>) else None)"

definition write_u8 :: "console \<Rightarrow> usize \<Rightarrow> byte \<Rightarrow> console outcome" where
  "write_u8 c addr v =
     (if u_at (co_dev c) \<le> addr
      then map_option (\<lambda>d. c\<lparr>co_dev := d\<rparr>) (dev_write (co_dev c) (addr - u_at (co_dev c)) v) else None)"

definition is_transmit_empty :: "board \<Rightarrow> console \<Rightarrow> (bool \<times> console) outcome" where
  "is_transmit_empty b c = do {
     a \<leftarrow> uart_lsr b c;
     (v, c) \<leftarrow> read_u8 c a;
     Some (v AND 0x20 \<noteq> 0, c) }"

section \<open>Initialisation\<close>

definition BAUD_RATE :: usize where [simp]: "BAUD_RATE = 115200"

definition uart_divisor :: "board \<Rightarrow> 16 word" where
  "uart_divisor b =
     (let clk = uart_clock b in
      if clk = 0 then 0x0C else of_nat (min (max (clk div (16 * BAUD_RATE)) 1) 0xFFFF))"

definition init_hw :: "board \<Rightarrow> console \<Rightarrow> console outcome" where
  "init_hw b c = do {
     let dll = uart_divisor b;
     a \<leftarrow> uart_lcr b c; c \<leftarrow> write_u8 c a 0x80;
     a \<leftarrow> uart_dll b c; c \<leftarrow> write_u8 c a (ucast (dll AND 0xFF));
     a \<leftarrow> uart_dlm b c; c \<leftarrow> write_u8 c a (ucast (drop_bit 8 dll));
     a \<leftarrow> uart_lcr b c; c \<leftarrow> write_u8 c a 0x03;
     a \<leftarrow> uart_ier b c; c \<leftarrow> write_u8 c a 0x00;
     a \<leftarrow> uart_fcr b c; c \<leftarrow> write_u8 c a 0x07;
     a \<leftarrow> uart_mcr b c; write_u8 c a 0x03 }"

definition console_init :: "board \<Rightarrow> console \<Rightarrow> console outcome" where
  "console_init b c = init_hw b (c\<lparr>co_reg_base := uart_base b\<rparr>)"

definition console_reinit :: "board \<Rightarrow> console \<Rightarrow> console outcome" where
  "console_reinit b c = init_hw b (c\<lparr>co_reg_base := uart_base b\<rparr>)"

section \<open>Output\<close>

definition TX_WAIT_LIMIT :: nat where "TX_WAIT_LIMIT = 0x10000"

definition dropped :: "console \<Rightarrow> u64" where
  "dropped c = co_dropped c"

text \<open>The loop of \<^verbatim>\<open>putc\<close> with \<open>n = TX_WAIT_LIMIT - spins\<close>.\<close>

fun putc_wait :: "board \<Rightarrow> byte \<Rightarrow> nat \<Rightarrow> console \<Rightarrow> console outcome" where
  "putc_wait b v n c = do {
     (ready, c) \<leftarrow> is_transmit_empty b c;
     if ready then write_u8 c (reg_base b c) v
     else (case n of 0 \<Rightarrow> Some (c\<lparr>co_dropped := co_dropped c + 1\<rparr>) | Suc n \<Rightarrow> putc_wait b v n c) }"

declare putc_wait.simps [simp del]

definition putc :: "board \<Rightarrow> console \<Rightarrow> byte \<Rightarrow> console outcome" where
  "putc b c v = putc_wait b v TX_WAIT_LIMIT c"

fun write_bytes_raw :: "board \<Rightarrow> console \<Rightarrow> byte list \<Rightarrow> console outcome" where
  "write_bytes_raw b c [] = Some c"
| "write_bytes_raw b c (v # vs) = do {
     c \<leftarrow> (if v = 10 then putc b c 13 else Some c);
     c \<leftarrow> putc b c v;
     write_bytes_raw b c vs }"

text \<open>\<^verbatim>\<open>try_lock\<close>: the guard is dropped at the end; without the lock the bytes are written all the same.\<close>

definition console_write_bytes :: "board \<Rightarrow> console \<Rightarrow> byte list \<Rightarrow> console outcome" where
  "console_write_bytes b c bytes =
     (if co_panic c then write_bytes_raw b c bytes
      else if co_locked c then write_bytes_raw b c bytes
      else do {
        c \<leftarrow> write_bytes_raw b (c\<lparr>co_locked := True\<rparr>) bytes;
        Some (c\<lparr>co_locked := False\<rparr>) })"

definition write_str :: "board \<Rightarrow> console \<Rightarrow> byte list \<Rightarrow> console outcome" where
  "write_str b c s = console_write_bytes b c s"

text \<open>\<^verbatim>\<open>locked_line\<close> waits for the lock: with the lock taken it has no result of its own.\<close>

definition locked_line :: "console \<Rightarrow> (console \<Rightarrow> console outcome) \<Rightarrow> console outcome" where
  "locked_line c f =
     (if co_panic c then f c
      else if co_locked c then None
      else do {
        c \<leftarrow> f (c\<lparr>co_locked := True\<rparr>);
        Some (c\<lparr>co_locked := False\<rparr>) })"

end
