(* ===== verification/Console_Main.thy ===== *)
theory Console_Main
  imports Console "HOL-Library.Sublist"
begin

text \<open>
  The properties of the console: the device is set up in the right order, and output never hangs and
  never loses a byte without counting it.
\<close>

text \<open>The driver talks to the device, and the device has its transmitter at register 0.\<close>

definition console_ready :: "board \<Rightarrow> console \<Rightarrow> bool" where
  "console_ready b c \<longleftrightarrow> reg_base b c = u_at (co_dev c) \<and> u_at (co_dev c) + 5 < USIZE_LIMIT \<and> \<not> dlab (co_dev c)"

text \<open>After \<open>n\<close> polls the bytes \<open>sent\<close> are on the line and \<open>k\<close> bytes are lost.\<close>

definition wrote :: "console \<Rightarrow> byte list \<Rightarrow> nat \<Rightarrow> nat \<Rightarrow> console" where
  "wrote c sent k n = c\<lparr>co_dropped := co_dropped c + of_nat k,
     co_dev := (co_dev c)\<lparr>u_sent := u_sent (co_dev c) @ sent, u_polls := u_polls (co_dev c) + n\<rparr>\<rparr>"

definition thr_empty :: "console \<Rightarrow> nat \<Rightarrow> bool" where
  "thr_empty c t \<longleftrightarrow> u_lsr (co_dev c) t AND 0x20 \<noteq> 0"

text \<open>The transmitter gets empty before the driver gives up.\<close>

definition responsive :: "console \<Rightarrow> bool" where
  "responsive c \<longleftrightarrow> (\<forall>t. \<exists>k\<le>TX_WAIT_LIMIT. thr_empty c (t + k))"

lemma wrote_ready [simp]: "console_ready b (wrote c sent k n) = console_ready b c"
  by (simp add: console_ready_def wrote_def reg_base_def dlab_def)

lemma wrote_thr [simp]: "thr_empty (wrote c sent k n) = thr_empty c" "responsive (wrote c sent k n) = responsive c"
  by (simp_all add: thr_empty_def wrote_def fun_eq_iff responsive_def)

lemma wrote_wrote [simp]: "wrote (wrote c sent k n) sent' k' n' = wrote c (sent @ sent') (k + k') (n + n')"
  by (simp add: wrote_def add.assoc)

lemma wrote_nothing [simp]: "wrote c [] 0 0 = c"
  by (simp add: wrote_def)

lemma wrote_drop [simp]: "(wrote c sent k n)\<lparr>co_dropped := co_dropped (wrote c sent k n) + 1\<rparr> = wrote c sent (Suc k) n"
  by (simp add: wrote_def)

section \<open>One byte\<close>

lemma poll_run:
  assumes "console_ready b c"
  shows "is_transmit_empty b c = Some (thr_empty c (u_polls (co_dev c)), wrote c [] 0 1)"
  using assms by (simp add: is_transmit_empty_def uart_lsr_def console_ready_def uadd_def read_u8_def Let_def thr_empty_def wrote_def)

lemma send_run:
  assumes "console_ready b c"
  shows "write_u8 c (reg_base b c) v = Some (wrote c [v] 0 0)"
  using assms by (simp add: write_u8_def console_ready_def dev_write_def wrote_def)

lemma putc_wait_run:
  assumes "console_ready b c"
  shows "(\<exists>k\<le>n. putc_wait b v n c = Some (wrote c [v] 0 (Suc k))) \<or>
    (\<forall>k\<le>n. \<not> thr_empty c (u_polls (co_dev c) + k)) \<and> putc_wait b v n c = Some (wrote c [] 1 (Suc n))"
  using assms
proof (induction n arbitrary: c)
  case 0
  have run: "putc_wait b v 0 c = Some (if thr_empty c (u_polls (co_dev c)) then wrote c [v] 0 1 else wrote c [] 1 1)"
    using poll_run [OF 0] send_run [of b "wrote c [] 0 1"] 0 by (subst putc_wait.simps) simp
  then show ?case by (cases "thr_empty c (u_polls (co_dev c))") simp_all
next
  case (Suc n)
  let ?c = "wrote c [] 0 1"
  have run: "putc_wait b v (Suc n) c = (if thr_empty c (u_polls (co_dev c)) then Some (wrote c [v] 0 1) else putc_wait b v n ?c)"
    using poll_run [OF Suc.prems] send_run [of b ?c] Suc.prems by (subst putc_wait.simps) simp
  have polls: "u_polls (co_dev ?c) = Suc (u_polls (co_dev c))" by (simp add: wrote_def)
  show ?case
  proof (cases "thr_empty c (u_polls (co_dev c))")
    case True
    then show ?thesis using run by (intro disjI1 exI [of _ 0]) simp
  next
    case no: False
    have "console_ready b ?c" using Suc.prems by simp
    from Suc.IH [OF this] show ?thesis
    proof
      assume "\<exists>k\<le>n. putc_wait b v n ?c = Some (wrote ?c [v] 0 (Suc k))"
      then obtain k where "k \<le> n" "putc_wait b v n ?c = Some (wrote ?c [v] 0 (Suc k))" by blast
      then show ?thesis using run no by (intro disjI1 exI [of _ "Suc k"]) simp
    next
      assume d: "(\<forall>k\<le>n. \<not> thr_empty ?c (u_polls (co_dev ?c) + k)) \<and> putc_wait b v n ?c = Some (wrote ?c [] 1 (Suc n))"
      have "\<not> thr_empty c (u_polls (co_dev c) + k)" if "k \<le> Suc n" for k
        using d no that polls by (cases k) auto
      then show ?thesis using d run no by (intro disjI2) simp
    qed
  qed
qed

text \<open>At most \<open>TX_WAIT_LIMIT + 1\<close> polls, and the byte is sent or counted.\<close>

lemma putc_run:
  assumes "console_ready b c"
  obtains sent n where "putc b c v = Some (wrote c sent (1 - length sent) n)" "sent = [v] \<or> sent = [] \<and> \<not> responsive c" "n \<le> Suc TX_WAIT_LIMIT"
  using putc_wait_run [OF assms, of TX_WAIT_LIMIT v]
proof
  assume "\<exists>k\<le>TX_WAIT_LIMIT. putc_wait b v TX_WAIT_LIMIT c = Some (wrote c [v] 0 (Suc k))"
  then obtain k where "k \<le> TX_WAIT_LIMIT" "putc_wait b v TX_WAIT_LIMIT c = Some (wrote c [v] 0 (Suc k))" by blast
  then show ?thesis by (intro that [of "[v]" "Suc k"]) (simp_all add: putc_def)
next
  assume "(\<forall>k\<le>TX_WAIT_LIMIT. \<not> thr_empty c (u_polls (co_dev c) + k)) \<and>
    putc_wait b v TX_WAIT_LIMIT c = Some (wrote c [] 1 (Suc TX_WAIT_LIMIT))"
  then show ?thesis by (intro that [of "[]" "Suc TX_WAIT_LIMIT"]) (auto simp: putc_def responsive_def)
qed

section \<open>Many bytes\<close>

text \<open>\<open>out\<close> is what a run over the bytes \<open>vs\<close> may have put on the line.\<close>

definition partial_out :: "console \<Rightarrow> byte list \<Rightarrow> byte list \<Rightarrow> nat \<Rightarrow> bool" where
  "partial_out c vs out n \<longleftrightarrow> subseq out vs \<and> (responsive c \<longrightarrow> out = vs) \<and> n \<le> Suc TX_WAIT_LIMIT * length vs"

lemma partial_out_append:
  assumes "partial_out c vs out n" "partial_out c vs' out' n'"
  shows "partial_out c (vs @ vs') (out @ out') (n + n')"
  using assms by (auto simp: partial_out_def list_emb_append_mono distrib_left)

lemma partial_out_length: "partial_out c vs out n \<Longrightarrow> length out \<le> length vs"
  by (auto simp: partial_out_def dest: list_emb_length)

lemma putc_out:
  assumes "console_ready b c"
  obtains out n where "putc b c v = Some (wrote c out (1 - length out) n)" "partial_out c [v] out n"
proof (rule putc_run [OF assms, of v])
  fix sent n assume p: "putc b c v = Some (wrote c sent (1 - length sent) n)" "sent = [v] \<or> sent = [] \<and> \<not> responsive c" "n \<le> Suc TX_WAIT_LIMIT"
  then have "partial_out c [v] sent n" by (auto simp: partial_out_def)
  then show ?thesis using that p(1) by blast
qed

lemma write_bytes_raw_out:
  assumes "console_ready b c"
  shows "\<exists>out n. write_bytes_raw b c vs = Some (wrote c out (length (crlf vs) - length out) n) \<and> partial_out c (crlf vs) out n"
  using assms
proof (induction vs arbitrary: c)
  case (Cons v vs)
  obtain o1 n1 where p1: "(if v = 10 then putc b c 13 else Some c) = Some (wrote c o1 ((if v = 10 then 1 else 0) - length o1) n1)"
    "partial_out c (if v = 10 then [13] else []) o1 n1"
  proof (cases "v = 10")
    case True
    show ?thesis by (rule putc_out [OF Cons.prems, of 13], rule that) (use True in simp_all)
  qed (use that [of "[]" 0] in \<open>simp add: partial_out_def\<close>)
  let ?k1 = "(if v = 10 then 1 else 0) - length o1"
  let ?c1 = "wrote c o1 ?k1 n1"
  have "console_ready b ?c1" using Cons.prems by simp
  then obtain o2 n2 where p2: "putc b ?c1 v = Some (wrote ?c1 o2 (1 - length o2) n2)" "partial_out ?c1 [v] o2 n2" by (rule putc_out)
  let ?c2 = "wrote ?c1 o2 (1 - length o2) n2"
  have "console_ready b ?c2" using Cons.prems by simp
  from Cons.IH [OF this] obtain o3 n3 where p3: "write_bytes_raw b ?c2 vs = Some (wrote ?c2 o3 (length (crlf vs) - length o3) n3)"
    "partial_out ?c2 (crlf vs) o3 n3" by blast
  have cr: "crlf (v # vs) = (if v = 10 then [13] else []) @ [v] @ crlf vs" by (simp add: crlf_def)
  have out: "partial_out c (crlf (v # vs)) (o1 @ o2 @ o3) (n1 + (n2 + n3))"
    unfolding cr by (intro partial_out_append p1(2)) (use p2(2) p3(2) in \<open>simp_all add: partial_out_def\<close>)
  have k: "?k1 + (1 - length o2) + (length (crlf vs) - length o3) = length (crlf (v # vs)) - length (o1 @ o2 @ o3)"
    using partial_out_length [OF p1(2)] partial_out_length [OF p2(2)] partial_out_length [OF p3(2)] unfolding cr by (auto split: if_splits)
  have "write_bytes_raw b c (v # vs) = Some (wrote c (o1 @ o2 @ o3) (length (crlf (v # vs)) - length (o1 @ o2 @ o3)) (n1 + (n2 + n3)))"
    unfolding k [symmetric] using p1(1) p2(1) p3(1) by (simp add: add.assoc)
  then show ?case using out by blast
qed (auto simp: crlf_def partial_out_def intro!: exI [of _ "[]"] exI [of _ 0])

lemma wrote_lock: "(wrote (c\<lparr>co_locked := l\<rparr>) out k n)\<lparr>co_locked := l'\<rparr> = wrote (c\<lparr>co_locked := l'\<rparr>) out k n"
  by (simp add: wrote_def)

lemma console_write_bytes_out:
  assumes "console_ready b c"
  shows "\<exists>out n. console_write_bytes b c vs = Some (wrote c out (length (crlf vs) - length out) n) \<and> partial_out c (crlf vs) out n"
proof (cases "co_panic c \<or> co_locked c")
  case True
  then show ?thesis using write_bytes_raw_out [OF assms, of vs] by (auto simp: console_write_bytes_def)
next
  case False
  let ?c = "c\<lparr>co_locked := True\<rparr>"
  have "console_ready b ?c" using assms by (auto simp: console_ready_def reg_base_def)
  from write_bytes_raw_out [OF this, of vs] obtain out n where
    o: "write_bytes_raw b ?c vs = Some (wrote ?c out (length (crlf vs) - length out) n)" "partial_out ?c (crlf vs) out n" by blast
  have "partial_out c (crlf vs) out n" using o(2) by (simp add: partial_out_def responsive_def thr_empty_def)
  moreover have unlocked: "c\<lparr>co_locked := False\<rparr> = c" using False by (cases c) simp
  have "console_write_bytes b c vs = Some (wrote c out (length (crlf vs) - length out) n)"
    using o(1) False wrote_lock [where c = c and l' = False, unfolded unlocked] by (simp add: console_write_bytes_def)
  ultimately show ?thesis by blast
qed

section \<open>Initialisation\<close>

lemma uart_divisor_range: "1 \<le> unat (uart_divisor b)" "uart_clock b \<noteq> 0"
proof -
  show "uart_clock b \<noteq> 0" by (simp add: uart_clock_def board_consts)
  then show "1 \<le> unat (uart_divisor b)" by (simp add: uart_divisor_def Let_def unat_of_nat min_def max_def)
qed

lemma console_init_run:
  assumes "u_at (co_dev c) = uart_base b" "uart_base b + 5 < USIZE_LIMIT"
  shows "console_init b c = Some (c\<lparr>co_reg_base := uart_base b, co_dev := (co_dev c)
    \<lparr>u_dll := ucast (uart_divisor b AND 0xFF), u_dlm := ucast (drop_bit 8 (uart_divisor b)), u_lcr := 3, u_ier := 0, u_fcr := 7, u_mcr := 3\<rparr>\<rparr>)"
  using assms
  by (simp add: console_init_def init_hw_def Let_def uart_lcr_def uart_dll_def uart_dlm_def uart_ier_def uart_fcr_def uart_mcr_def
      reg_base_def uadd_def write_u8_def dev_write_def dlab_def bit_numeral_rec)

lemma latch_bytes:
  fixes d :: "16 word"
  shows "unat (ucast (d AND 0xFF) :: byte) + 256 * unat (ucast (drop_bit 8 d) :: byte) = unat d"
proof -
  have m: "(0xFF :: 16 word) = mask 8" by (simp add: mask_eq_exp_minus_1)
  have lt: "unat d < 2 ^ 16" using unsigned_less [of d] by simp
  have "unat (ucast (d AND 0xFF) :: byte) = unat d mod 256" 
    unfolding m take_bit_eq_mask [symmetric] by (simp add: unsigned_ucast_eq unsigned_take_bit_eq) (simp add: take_bit_eq_mod)
  moreover have "unat (ucast (drop_bit 8 d) :: byte) = unat d div 256"
    using lt by (simp add: unsigned_ucast_eq unsigned_drop_bit_eq) (simp add: drop_bit_eq_div take_bit_eq_mod)
  ultimately show ?thesis by simp
qed

text \<open>
  C36. The console. \<^verbatim>\<open>init\<close> sends no byte and leaves the device with the divisor of the board's clock (at
  least 1), 8N1, interrupts off and FIFOs on: the divisor latch is written while it is selected and the other
  registers while it is not. Afterwards output of any bytes returns, whatever the status
  register answers and whether or not the console lock is free: it polls at most 65537 times per character,
  what is sent is a subsequence of the bytes with a carriage return before each line feed, the count
  of dropped characters grows by exactly what is missing, and nothing is missing if the transmitter
  gets empty within the limit. Nothing else changes.
\<close>

theorem console_output:
  assumes "u_at (co_dev c) = uart_base b" "uart_base b + 5 < USIZE_LIMIT"
  shows "\<exists>c1. console_init b c = Some c1 \<and> u_sent (co_dev c1) = u_sent (co_dev c) \<and>
     unat (u_dll (co_dev c1)) + 256 * unat (u_dlm (co_dev c1)) = unat (uart_divisor b) \<and> uart_divisor b \<noteq> 0 \<and>
     u_lcr (co_dev c1) = 3 \<and> u_ier (co_dev c1) = 0 \<and> u_fcr (co_dev c1) = 7 \<and> u_mcr (co_dev c1) = 3 \<and>
     (\<forall>vs. \<exists>out n. console_write_bytes b c1 vs = Some (wrote c1 out (length (crlf vs) - length out) n) \<and>
        subseq out (crlf vs) \<and> n \<le> 65537 * length (crlf vs) \<and> (responsive c1 \<longrightarrow> out = crlf vs))"
proof -
  obtain c1 where c1: "console_init b c = Some c1" "co_dev c1 = (co_dev c)
    \<lparr>u_dll := ucast (uart_divisor b AND 0xFF), u_dlm := ucast (drop_bit 8 (uart_divisor b)), u_lcr := 3, u_ier := 0, u_fcr := 7, u_mcr := 3\<rparr>"
    "co_reg_base c1 = uart_base b" using console_init_run [OF assms] by simp
  have limit: "Suc TX_WAIT_LIMIT = 65537" by (simp add: TX_WAIT_LIMIT_def)
  have "console_ready b c1" using assms by (simp add: console_ready_def reg_base_def c1 dlab_def bit_numeral_rec)
  then have "\<exists>out n. console_write_bytes b c1 vs = Some (wrote c1 out (length (crlf vs) - length out) n) \<and>
        subseq out (crlf vs) \<and> n \<le> 65537 * length (crlf vs) \<and> (responsive c1 \<longrightarrow> out = crlf vs)" for vs
    using console_write_bytes_out [of b c1 vs] unfolding partial_out_def limit by blast
  moreover have "unat (ucast (uart_divisor b AND 0xFF) :: byte) + 256 * unat (ucast (drop_bit 8 (uart_divisor b)) :: byte) = unat (uart_divisor b)"
    by (rule latch_bytes)
  moreover have "uart_divisor b \<noteq> 0" using uart_divisor_range(1) [of b] by auto
  ultimately show ?thesis using c1 by (intro exI [of _ c1]) simp
qed

text \<open>A device that is always ready.\<close>

definition demo_uart :: ns16550 where
  "demo_uart = \<lparr>u_at = 0x10000000, u_dll = 0, u_dlm = 0, u_ier = 0, u_fcr = 0, u_lcr = 0, u_mcr = 0, u_sent = [], u_lsr = (\<lambda>_. 0x60), u_polls = 0\<rparr>"

theorem console_output_witness:
  "\<exists>c1 c2. console_init board_static (console_static demo_uart) = Some c1 \<and> console_write_bytes board_static c1 [104, 10] = Some c2 \<and>
     u_sent (co_dev c2) = [104, 13, 10] \<and> dropped c2 = 0"
proof -
  let ?c = "console_static demo_uart"
  have at: "u_at (co_dev ?c) = uart_base board_static" "uart_base board_static + 5 < USIZE_LIMIT"
    by (simp_all add: console_static_def demo_uart_def uart_base_def board_static_def board_consts)
  obtain c1 where c1: "console_init board_static ?c = Some c1" "u_sent (co_dev c1) = u_sent (co_dev ?c)"
    "\<forall>vs. \<exists>out n. console_write_bytes board_static c1 vs = Some (wrote c1 out (length (crlf vs) - length out) n) \<and>
        subseq out (crlf vs) \<and> n \<le> 65537 * length (crlf vs) \<and> (responsive c1 \<longrightarrow> out = crlf vs)"
    using console_output [OF at] by blast
  have "co_dropped c1 = 0" "u_lsr (co_dev c1) = (\<lambda>_. 0x60)"
    using c1(1) console_init_run [OF at] by (auto simp: console_static_def demo_uart_def)
  moreover then have "responsive c1" by (auto simp: responsive_def thr_empty_def)
  moreover have "crlf [104, 10] = [104, 13, 10]" by (simp add: crlf_def)
  ultimately obtain n where "console_write_bytes board_static c1 [104, 10] = Some (wrote c1 [104, 13, 10] 0 n)"
    using c1(3) [rule_format, of "[104, 10]"] by auto
  then show ?thesis using c1(1,2) \<open>co_dropped c1 = 0\<close>
    by (intro exI [of _ c1] exI [of _ "wrote c1 [104, 13, 10] 0 n"]) (simp add: wrote_def dropped_def console_static_def demo_uart_def)
qed

text \<open>A line under the lock is the same output, when the lock is free.\<close>

lemma locked_line_write:
  "\<not> co_locked c \<Longrightarrow> locked_line c (\<lambda>c. console_write_bytes b c vs) = console_write_bytes b c vs"
  by (simp add: locked_line_def console_write_bytes_def)

end
