(* ===== verification/File_Steps.thy ===== *)
theory File_Steps
  imports File_Inv
begin

text \<open>
  The three changes of the file service: a page moves from the pool to a file slot, it is mapped, it is
  unmapped and moves back. Each keeps the invariant and every other page.
\<close>

section \<open>What a change keeps\<close>

lemma loose_keep:
  assumes s: "space_ok (k_mm k) root A" "pages_unique k" and l: "leaf_change (k_mm k) A (k_mm k') A' root c v e" "v < 2 ^ 39"
    and e: "c \<Longrightarrow> ram_leaf (k_mm k) e \<Longrightarrow> \<exists>rec. get_page k q = Some rec \<and> pte_addr e = pr_paddr rec"
    and p: "get_page k' j = get_page k j" "j \<noteq> q" and o: "loose k pid root A j"
  shows "loose k' pid root A' j"
proof -
  obtain rec where r: "get_page k j = Some rec" "pr_owner rec = pid" "pr_map_va rec = None" "(pr_paddr rec, 0) \<in> A"
    "\<And>x. own_at (k_mm k) root x \<noteq> Some (pr_paddr rec)" using o by (auto simp: loose_def)
  have "own_at (k_mm k') root x \<noteq> Some (pr_paddr rec)" for x
  proof
    assume "own_at (k_mm k') root x = Some (pr_paddr rec)"
    then have "c \<and> ram_leaf (k_mm k) e \<and> pr_paddr rec = pte_addr e"
      using change_own [OF s(1) l] r(4,5) by blast
    then obtain rq where "get_page k q = Some rq" "pr_paddr rec = pr_paddr rq" using e by auto
    then have "j = q" using s(2) r(1) unfolding pages_unique_def by blast
    then show False using p(2) by simp
  qed
  then show ?thesis using r p(1) leaf_changeD(2) [OF l(1)] unfolding loose_def by auto
qed

lemma holds_keep:
  assumes l: "leaf_change (k_mm k) A (k_mm k') A' root c v e" and fd: "fd < 4" "\<not> (c \<and> file_page fd div 4096 = v div 4096)"
    and p: "get_page k' j = get_page k j" and o: "holds_file k fs root A fd j"
  shows "holds_file k' fs root A' fd j"
proof -
  have "leaf_pte (k_mm k') root (file_page fd) = leaf_pte (k_mm k) root (file_page fd)"
    using leaf_changeD(4) [OF l file_page_props(4) [OF fd(1)]] fd(2) by presburger
  then show ?thesis using o p leaf_changeD(2) [OF l] unfolding holds_file_def by auto
qed

lemma leaf_change_refl:
  assumes "space_ok s root A"
  shows "leaf_change s A s A root False v e"
  using assms unfolding leaf_change_def same_geom_def by (simp del: node_at.simps)

lemma shm_window_keep:
  assumes k: "pid_root k fs = Some root" "space_ok (k_mm k) root A" "pid_root k' fs = Some root"
    and l: "leaf_change (k_mm k) A (k_mm k') A' root c (file_page fd) e" and fd: "fd < 4"
    and w: "window (user_writable fs k) USER_SHM_VA 4096"
  shows "window (user_writable fs k') USER_SHM_VA 4096"
proof -
  have "user_writable fs k' (USER_SHM_VA + i) = user_writable fs k (USER_SHM_VA + i)" if "i < 4096" for i
  proof (rule change_view(2) [OF k l])
    have "USER_SHM_VA = 4096 * 0x50000" by simp
    then have "(USER_SHM_VA + i) div 4096 = 0x50000" using that by simp
    then show "\<not> (c \<and> (USER_SHM_VA + i) div 4096 = file_page fd div 4096)" using file_page_props(5) [OF fd] by simp
  qed
  then show ?thesis using w by (simp add: window_def)
qed

section \<open>Counting pages\<close>

lemma sum_upd:
  fixes i :: nat
  shows "i < 4 \<Longrightarrow> (\<Sum>j<4. of_bool (if j = i then b else f j)) + of_bool (f i) = (\<Sum>j<4. of_bool (f j)) + (of_bool b :: nat)"
proof -
  assume i: "i < 4"
  have "(\<Sum>j\<in>{..<4} - {i}. of_bool (if j = i then b else f j)) = (\<Sum>j\<in>{..<4} - {i}. of_bool (f j) :: nat)"
    by (rule sum.cong) auto
  then show ?thesis using i sum.remove [of "{..<4}" i "\<lambda>j. of_bool (if j = i then b else f j) :: nat"]
      sum.remove [of "{..<4}" i "\<lambda>j. of_bool (f j) :: nat"] by simp
qed

lemma page_count_upd:
  assumes "length pool = 4" "i < 4" "fd < 4"
    and "\<And>j. j < 4 \<Longrightarrow> cap_at k' fs (3 + j) = (if j = fd then c else cap_at k fs (3 + j))"
  shows "page_count k' fs (pool[i := b]) + of_bool (pool ! i) + of_bool (cap_at k fs (3 + fd) \<noteq> None) =
    page_count k fs pool + of_bool b + of_bool (c \<noteq> None)"
proof -
  have "(\<Sum>j<4. of_bool (pool[i := b] ! j)) = (\<Sum>j<4. of_bool (if j = i then b else pool ! j) :: nat)"
    by (rule sum.cong) (use assms(1) in \<open>auto simp: nth_list_update\<close>)
  moreover have "(\<Sum>j<4. of_bool (cap_at k' fs (3 + j) \<noteq> None)) = (\<Sum>j<4. of_bool (if j = fd then c \<noteq> None else cap_at k fs (3 + j) \<noteq> None) :: nat)"
    by (rule sum.cong) (use assms(4) in auto)
  ultimately show ?thesis
    using sum_upd [OF assms(2), of b "\<lambda>j. pool ! j"] sum_upd [OF assms(3), of "c \<noteq> None" "\<lambda>j. cap_at k fs (3 + j) \<noteq> None"]
    unfolding page_count_def sum.distrib by linarith
qed

lemma page_count_same:
  assumes "cap_at k' = cap_at k"
  shows "page_count k' fs pool = page_count k fs pool"
  using assms by (simp add: page_count_def)

text \<open>When a file slot holds a page the pool is not full.\<close>

lemma pool_not_full:
  assumes "page_count k fs pool \<le> 4" "fd < 4" "cap_at k fs (3 + fd) \<noteq> None"
  shows "\<exists>i<4. \<not> pool ! i"
proof (rule ccontr)
  assume "\<not> (\<exists>i<4. \<not> pool ! i)"
  then have "(\<Sum>i<4. of_bool (pool ! i)) = (4::nat)" by simp
  moreover have "1 \<le> (\<Sum>i<4. of_bool (cap_at k fs (3 + i) \<noteq> None) :: nat)"
    using member_le_sum [of fd "{..<4}" "\<lambda>i. of_bool (cap_at k fs (3 + i) \<noteq> None) :: nat"] assms(2,3) by simp
  ultimately show False using assms(1) unfolding page_count_def sum.distrib by linarith
qed

section \<open>The changes\<close>

lemma moved_unique:
  assumes u: "pages_unique k" and c: "cap_at k a b = Some (Page q)" and p: "get_page k q = Some rec" "pr_paddr rec' = pr_paddr rec"
    and k': "get_page k' = (get_page k)(q \<mapsto> rec')"
    "\<And>i s. cap_at k' i s = (if i = a \<and> s = b then None else if i = d \<and> s = t then Some (Page q) else cap_at k i s)"
  shows "pages_unique k'"
proof -
  have "i = i' \<and> s = s'" if "cap_at k' i s = Some (Page j)" "cap_at k' i' s' = Some (Page j)" for i s i' s' j
    using that u c unfolding pages_unique_def k'(2) by (auto split: if_splits)
  moreover have "i = j" if "get_page k' i = Some ri" "get_page k' j = Some rj" "pr_paddr ri = pr_paddr rj" for i j ri rj
    using that u p unfolding pages_unique_def k'(1) by (auto split: if_splits)
  ultimately show ?thesis unfolding pages_unique_def by blast
qed

text \<open>A page of the pool moves to the slot of a file.\<close>

lemma take_page:
  assumes s: "service_ok fs ms root A M k pool" and i: "i < 4" "pool ! i" and fd: "fd < 4" "fd \<notin> M" "cap_at k fs (3 + fd) = None"
  obtains k' q where "mem_grant k ms (Suc i) 0 (3 + fd) = Some (Ok (), k')" "service_ok fs ms root A M k' (pool[i := False])"
    "cap_at k' fs (3 + fd) = Some (Page q)" "k_mm k' = k_mm k" "pid_root k' fs = pid_root k fs"
proof -
  note d = service_okD [OF s]
  obtain q rec where q: "cap_at k ms (Suc i) = Some (Page q)" "get_page k q = Some rec" "pr_map_va rec = None"
    "(pr_paddr rec, 0) \<in> A" "\<And>x. own_at (k_mm k) root x \<noteq> Some (pr_paddr rec)"
    using pool_okD(2) [OF d(11) i] by (auto simp: loose_def)
  have len: "length pool = 4" by (rule pool_okD(1) [OF d(11) i(1)])
  have fs: "get_proc k fs \<noteq> None" using d(3) by (auto simp: pid_root_def)
  have g: "grant_unmap k rec = Some (k_mm k)" using q(3) by (simp add: grant_unmap_def)
  have dst: "3 + fd < 8" using fd(1) by simp
  let ?rec = "rec\<lparr>pr_owner := fs, pr_map_va := None\<rparr>"
  obtain k' where k': "mem_grant k ms (Suc i) 0 (3 + fd) = Some (Ok (), k')" "k_wf k'" "k_mm k' = k_mm k"
    "\<And>j. pid_root k' j = pid_root k j" "get_page k' = (get_page k)(q \<mapsto> ?rec)"
    "\<And>j s. cap_at k' j s = (if j = ms \<and> s = Suc i then None else if j = fs \<and> s = 3 + fd then Some (Page q) else cap_at k j s)"
    by (rule mem_grant_runs [OF d(1) q(1) d(6) fs dst fd(3) q(2) g]) (rule that; assumption)
  have only: "j = ms \<and> t = Suc i" if "cap_at k j t = Some (Page q)" for j t
    using d(10) that q(1) unfolding pages_unique_def by blast
  have lo: "loose k' pid root A j" if "loose k pid root A j" "j \<noteq> q" for pid j
    using that q by (auto simp: loose_def k'(3,5))
  have ho: "holds_file k' fs root A f j" if "holds_file k fs root A f j" "cap_at k fs (3 + f) = Some (Page j)" for f j
    using that only [of fs "3 + f"] d(2) by (auto simp: holds_file_def k'(3,5))
  have wr: "user_writable fs k' = user_writable fs k" by (simp add: user_writable_def proc_access_def k'(3,4) fun_eq_iff split: option.split)
  have "pool_ok k' ms root A (pool[i := False])" unfolding pool_ok_def
  proof (intro conjI allI impI)
    fix j :: nat assume j: "j < 4"
    show "if pool[i := False] ! j then \<exists>q. cap_at k' ms (Suc j) = Some (Page q) \<and> loose k' ms root A q else cap_at k' ms (Suc j) = None"
      using pool_okD(2,3) [OF d(11) j] lo only d(2) len i j by (cases "j = i") (fastforce simp: k'(6) nth_list_update)+
  qed (simp add: len)
  moreover have "files_ok k' fs root A M" unfolding files_ok_def
  proof (intro allI impI)
    fix f :: nat assume f: "f < 4"
    show "if f \<in> M then \<exists>q. cap_at k' fs (3 + f) = Some (Page q) \<and> holds_file k' fs root A f q
      else leaf_pte (k_mm k') root (file_page f) = 0 \<and> (\<forall>c. cap_at k' fs (3 + f) = Some c \<longrightarrow> (\<exists>q. c = Page q \<and> loose k' fs root A q))"
    proof (cases "f = fd")
      case True
      have "loose k' fs root A q" using q by (auto simp: loose_def k'(3,5))
      then show ?thesis using True fd files_okD(2) [OF d(12) f] d(2) by (auto simp: k'(3,6))
    next
      case False
      then show ?thesis using files_okD [OF d(12) f] lo ho only d(2) by (fastforce simp: k'(3,6))
    qed
  qed
  moreover have "page_count k' fs (pool[i := False]) \<le> 4"
    using page_count_upd [OF len i(1) fd(1), of k' fs "Some (Page q)" k False] d(2,13) i(2) fd(3) by (simp add: k'(6))
  moreover have "pages_unique k'" by (rule moved_unique [OF d(10) q(1,2) _ k'(5,6)]) simp
  ultimately have "service_ok fs ms root A M k' (pool[i := False])"
    by (intro service_okI) (use d k' wr in auto)
  then show ?thesis using that k' d(2) by simp
qed

text \<open>The page in the slot of a file is mapped, or there is no memory for page tables.\<close>

lemma map_page:
  assumes s: "service_ok fs ms root A M k pool" and fd: "fd < 4" "fd \<notin> M" "cap_at k fs (3 + fd) = Some (Page q)"
  obtains (ok) k' A' where "mem_map k fs (3 + fd) (file_page fd) = Some (Ok (), k')" "service_ok fs ms root A' (insert fd M) k' pool"
      "\<And>w. w div 4096 \<noteq> file_page fd div 4096 \<Longrightarrow> user_load fs w k' = user_load fs w k"
  | (err) k' A' where "mem_map k fs (3 + fd) (file_page fd) = Some (Err SYS_ERR_EINVAL, k')" "service_ok fs ms root A' M k' pool"
      "\<And>w. user_load fs w k' = user_load fs w k" "free_page_count (k_mm k') = Some 0"
proof -
  note d = service_okD [OF s] and pp = file_page_props [OF fd(1)]
  obtain rec where r: "get_page k q = Some rec" "pr_map_va rec = None" "(pr_paddr rec, 0) \<in> A"
    "\<And>x. own_at (k_mm k) root x \<noteq> Some (pr_paddr rec)" "pr_owner rec = fs"
    using files_okD(3) [OF d(12) fd] by (auto simp: loose_def)
  have len: "length pool = 4" by (rule pool_okD(1) [OF d(11), of 0]) simp
  have only: "j = fs \<and> t = 3 + fd" if "cap_at k j t = Some (Page q)" for j t
    using d(10) that fd(3) unfolding pages_unique_def by blast
  note o = owned_page [OF space_okD(1) [OF d(7)] r(3) d(8)]
  show ?thesis
  proof (rule mem_map_runs [OF d(1) fd(3) d(3,7,8) pp(1,3) files_okD(2) [OF d(12) fd(1,2)] r(1-4)])
    fix k' A' assume m: "mem_map k fs (3 + fd) (file_page fd) = Some (Ok (), k')" "k_wf k'" "\<And>i. pid_root k' i = pid_root k i"
      "get_page k' = (get_page k)(q \<mapsto> rec\<lparr>pr_map_va := Some (file_page fd)\<rparr>)" "cap_at k' = cap_at k"
      and l: "leaf_change (k_mm k) A (k_mm k') A' root True (file_page fd) (rw_leaf (pr_paddr rec))"
    have s': "space_ok (k_mm k') root A'" "A \<subseteq> A'" "phys_ok (k_mm k')" and root': "pid_root k' fs = Some root"
      using leaf_changeD(1-3) [OF l] d(3,8) m(3) same_geom_phys by auto
    have lo: "loose k' pid root A' j" if "loose k pid root A j" "j \<noteq> q" for pid j
      by (rule loose_keep [OF d(7,10) l pp(4) _ _ that(2,1)]) (use r(1) rw_leaf_bits(1) [OF o(1,2)] m(4) that in auto)
    have ho: "holds_file k' fs root A' f j" if "holds_file k fs root A f j" "f < 4" "f \<noteq> fd" "j \<noteq> q" for f j
      by (rule holds_keep [OF l that(2) _ _ that(1)]) (use that pp file_page_props(5) [OF that(2)] m(4) in auto)
    have new: "holds_file k' fs root A' fd q"
      using m(4) r s'(2) leaf_changeD(4) [OF l pp(4)] by (auto simp: holds_file_def)
    have zero: "leaf_pte (k_mm k') root (file_page f) = 0" if "f < 4" "f \<notin> M" "f \<noteq> fd" for f
      using leaf_changeD(4) [OF l file_page_props(4) [OF that(1)]] files_okD(2) [OF d(12) that(1,2)] that
        file_page_props(5) [OF that(1)] pp(5) by auto
    have "pool_ok k' ms root A' pool" unfolding pool_ok_def m(5)
    proof (intro conjI allI impI)
      fix j :: nat assume j: "j < 4"
      show "if pool ! j then \<exists>q. cap_at k ms (Suc j) = Some (Page q) \<and> loose k' ms root A' q else cap_at k ms (Suc j) = None"
        using pool_okD(2,3) [OF d(11) j] lo only d(2) by fastforce
    qed (rule len)
    moreover have "files_ok k' fs root A' (insert fd M)" unfolding files_ok_def m(5)
    proof (intro allI impI)
      fix f :: nat assume f: "f < 4"
      show "if f \<in> insert fd M then \<exists>q. cap_at k fs (3 + f) = Some (Page q) \<and> holds_file k' fs root A' f q
        else leaf_pte (k_mm k') root (file_page f) = 0 \<and> (\<forall>c. cap_at k fs (3 + f) = Some c \<longrightarrow> (\<exists>q. c = Page q \<and> loose k' fs root A' q))"
      proof (cases "f = fd")
        case True
        then show ?thesis using new fd(3) by simp
      next
        case f': False
        show ?thesis
        proof (cases "f \<in> M")
          case True
          then obtain j where j: "cap_at k fs (3 + f) = Some (Page j)" "holds_file k fs root A f j"
            using files_okD(1) [OF d(12) f] by blast
          then have "j \<noteq> q" using only [of fs "3 + f"] f' by auto
          then show ?thesis using ho [OF j(2) f f'] j(1) True by simp
        next
          case False
          have "\<exists>j. c = Page j \<and> loose k' fs root A' j" if c: "cap_at k fs (3 + f) = Some c" for c
          proof -
            obtain j where j: "c = Page j" "loose k fs root A j" using files_okD(3) [OF d(12) f False c] by blast
            then have "j \<noteq> q" using only [of fs "3 + f"] c f' by auto
            then show ?thesis using lo j by blast
          qed
          then show ?thesis using False f' zero [OF f False] by simp
        qed
      qed
    qed
    moreover have "pages_unique k'" using d(10) r(1) unfolding pages_unique_def m(4,5) by (auto split: if_splits)
    moreover have "window (user_writable fs k') USER_SHM_VA 4096"
      by (rule shm_window_keep [OF d(3,7) root' l fd(1) d(9)])
    ultimately have "service_ok fs ms root A' (insert fd M) k' pool"
      by (intro service_okI) (use d m s' root' page_count_same [OF m(5)] in auto)
    then show ?thesis using ok m(1) change_view(1) [OF d(3,7) root' l] by blast
  next
    fix k' A' assume m: "mem_map k fs (3 + fd) (file_page fd) = Some (Err SYS_ERR_EINVAL, k')" "k_wf k'"
      "\<And>i. pid_root k' i = pid_root k i" "get_page k' = get_page k" "cap_at k' = cap_at k" "free_page_count (k_mm k') = Some 0"
      and l: "leaf_change (k_mm k) A (k_mm k') A' root False (file_page fd) 0"
    have s': "space_ok (k_mm k') root A'" "phys_ok (k_mm k')" and root': "pid_root k' fs = Some root"
      using leaf_changeD(1-3) [OF l] d(3,8) m(3) same_geom_phys by auto
    have lo: "loose k' pid root A' j" if "loose k pid root A j" for pid j
      by (rule loose_keep [OF d(7,10) l pp(4) _ _ _ that, where q = "Suc j"]) (use m(4) in auto)
    have ho: "holds_file k' fs root A' f j" if "holds_file k fs root A f j" "f < 4" for f j
      by (rule holds_keep [OF l that(2) _ _ that(1)]) (use m(4) in auto)
    have zero: "leaf_pte (k_mm k') root (file_page f) = 0" if "f < 4" "f \<notin> M" for f
      using leaf_changeD(4) [OF l file_page_props(4) [OF that(1)]] files_okD(2) [OF d(12) that] by auto
    have "pool_ok k' ms root A' pool" using d(11) lo unfolding pool_ok_def m(5) by metis
    moreover have "files_ok k' fs root A' M" using d(12) lo ho zero unfolding files_ok_def m(5) by metis
    moreover have "pages_unique k'" using d(10) unfolding pages_unique_def m(4,5) .
    moreover have "window (user_writable fs k') USER_SHM_VA 4096"
      by (rule shm_window_keep [OF d(3,7) root' l fd(1) d(9)])
    ultimately have "service_ok fs ms root A' M k' pool"
      by (intro service_okI) (use d m s' root' page_count_same [OF m(5)] in auto)
    then show ?thesis using err m(1,6) change_view(1) [OF d(3,7) root' l] by blast
  qed
qed

text \<open>The page of a file is unmapped and moves to an empty place of the pool.\<close>

lemma give_page:
  assumes s: "service_ok fs ms root A M k pool" and i: "i < 4" "\<not> pool ! i" and fd: "fd < 4" "fd \<in> M"
  obtains k' where "mem_grant k fs (3 + fd) 2 (Suc i) = Some (Ok (), k')" "service_ok fs ms root A (M - {fd}) k' (pool[i := True])"
    "\<And>w. w div 4096 \<noteq> file_page fd div 4096 \<Longrightarrow> user_load fs w k' = user_load fs w k"
proof -
  note d = service_okD [OF s] and pp = file_page_props [OF fd(1)]
  obtain q rec where q: "cap_at k fs (3 + fd) = Some (Page q)" "get_page k q = Some rec" "pr_owner rec = fs"
    "pr_map_va rec = Some (file_page fd)" "(pr_paddr rec, 0) \<in> A" "leaf_pte (k_mm k) root (file_page fd) = rw_leaf (pr_paddr rec)"
    using files_okD(1) [OF d(12) fd] by (auto simp: holds_file_def)
  have len: "length pool = 4" by (rule pool_okD(1) [OF d(11) i(1)])
  have ms: "get_proc k ms \<noteq> None" using d(4) by (auto simp: pid_root_def)
  note o = owned_page [OF space_okD(1) [OF d(7)] q(5) d(8)] and b = rw_leaf_bits [OF o(1,2)]
  have u: "pte_user (leaf_pte (k_mm k) root (file_page fd))" using q(6) b(3) by simp
  obtain m where m: "unmap_4k (k_mm k) root (file_page fd) = Some (Ok (), m)" "leaf_change (k_mm k) A m A root True (file_page fd) 0"
    by (rule unmap_page_change [OF d(7) pp(4) u])
  have g: "grant_unmap k rec = Some m" using q(3,4) d(3) m(1) by (simp add: grant_unmap_def)
  have dst: "Suc i < 8" "cap_at k ms (Suc i) = None" using i pool_okD(3) [OF d(11) i] by auto
  let ?rec = "rec\<lparr>pr_owner := ms, pr_map_va := None\<rparr>"
  obtain k' where k': "mem_grant k fs (3 + fd) 2 (Suc i) = Some (Ok (), k')" "k_wf k'" "k_mm k' = m"
    "\<And>j. pid_root k' j = pid_root k j" "get_page k' = (get_page k)(q \<mapsto> ?rec)"
    "\<And>j s. cap_at k' j s = (if j = fs \<and> s = 3 + fd then None else if j = ms \<and> s = Suc i then Some (Page q) else cap_at k j s)"
    by (rule mem_grant_runs [OF d(1) q(1) d(5) ms dst q(2) g]) (rule that; assumption)
  have l: "leaf_change (k_mm k) A (k_mm k') A root True (file_page fd) 0" using m(2) k'(3) by simp
  have only: "j = fs \<and> t = 3 + fd" if "cap_at k j t = Some (Page q)" for j t
    using d(10) that q(1) unfolding pages_unique_def by blast
  have s': "space_ok (k_mm k') root A" "phys_ok (k_mm k')" and root': "pid_root k' fs = Some root"
    using leaf_changeD(1,3) [OF l] d(3,8) k'(4) same_geom_phys by auto
  have lo: "loose k' pid root A j" if "loose k pid root A j" "j \<noteq> q" for pid j
    by (rule loose_keep [OF d(7,10) l pp(4) _ _ that(2,1)]) (use k'(5) that in \<open>auto simp: ram_leaf_def\<close>)
  have ho: "holds_file k' fs root A f j" if "holds_file k fs root A f j" "f < 4" "f \<noteq> fd" "j \<noteq> q" for f j
    by (rule holds_keep [OF l that(2) _ _ that(1)]) (use that pp file_page_props(5) [OF that(2)] k'(5) in auto)
  have own: "own_at (k_mm k) root (leaf_of (file_page fd)) = Some (pr_paddr rec)"
    using own_leaf_pte [OF space_okD(5) [OF d(7)] pp(4)] q(6) b o(3) page_in_range_eq [OF d(8), of "pr_paddr rec"]
    by (simp add: ram_leaf_def Let_def)
  have "own_at (k_mm k') root x \<noteq> Some (pr_paddr rec)" for x
    using change_own [OF d(7) l pp(4) _ q(5), of x] as_wfD(2) [OF space_okD(2) [OF d(7)] own] by (auto simp: ram_leaf_def)
  then have new: "loose k' ms root A q" using q(5) by (auto simp: loose_def k'(5))
  have zero: "leaf_pte (k_mm k') root (file_page f) = 0" if "f < 4" "f \<notin> M \<or> f = fd" for f
    using leaf_changeD(4) [OF l file_page_props(4) [OF that(1)]] files_okD(2) [OF d(12) that(1)] that by auto
  have "pool_ok k' ms root A (pool[i := True])" unfolding pool_ok_def
  proof (intro conjI allI impI)
    fix j :: nat assume j: "j < 4"
    show "if pool[i := True] ! j then \<exists>q. cap_at k' ms (Suc j) = Some (Page q) \<and> loose k' ms root A q else cap_at k' ms (Suc j) = None"
      using pool_okD(2,3) [OF d(11) j] lo only new d(2) len i j by (cases "j = i") (fastforce simp: k'(6) nth_list_update)+
  qed (simp add: len)
  moreover have "files_ok k' fs root A (M - {fd})" unfolding files_ok_def
  proof (intro allI impI)
    fix f :: nat assume f: "f < 4"
    show "if f \<in> M - {fd} then \<exists>q. cap_at k' fs (3 + f) = Some (Page q) \<and> holds_file k' fs root A f q
      else leaf_pte (k_mm k') root (file_page f) = 0 \<and> (\<forall>c. cap_at k' fs (3 + f) = Some c \<longrightarrow> (\<exists>q. c = Page q \<and> loose k' fs root A q))"
      using files_okD [OF d(12) f] lo ho only zero [OF f] d(2) f by (cases "f = fd") (fastforce simp: k'(6))+
  qed
  moreover have "page_count k' fs (pool[i := True]) \<le> 4"
    using page_count_upd [OF len i(1) fd(1), of k' fs None k True] d(2,13) i(2) q(1) by (simp add: k'(6))
  moreover have "pages_unique k'" by (rule moved_unique [OF d(10) q(1,2) _ k'(5,6)]) simp
  moreover have "window (user_writable fs k') USER_SHM_VA 4096"
    by (rule shm_window_keep [OF d(3,7) root' l fd(1) d(9)])
  ultimately have "service_ok fs ms root A (M - {fd}) k' (pool[i := True])"
    by (intro service_okI) (use d k' s' root' in auto)
  then show ?thesis using that k'(1) change_view(1) [OF d(3,7) root' l] by blast
qed

section \<open>Running the programs\<close>

text \<open>
  The programs of the file server that talk to the memory server, run on the kernel model: a new file
  gets a page or the request is refused, the page of a file goes back to the pool. Both always return.
\<close>

lemma find_pool_cases:
  obtains "find (\<lambda>i. pool ! i) [0..<4] = None" "\<forall>i<4. \<not> pool ! i"
  | i where "find (\<lambda>i. pool ! i) [0..<4] = Some i" "i < (4 :: nat)" "pool ! i"
proof (cases "find (\<lambda>i. pool ! i) [0..<4 :: nat]")
  case None
  then show ?thesis using that(1) find_upt_None [OF None] by blast
next
  case (Some i)
  then show ?thesis using that(2) find_upt_Some [OF Some] by blast
qed

lemma sys_err_nonzero: "SYS_ERR_EEXIST \<noteq> 0" "SYS_ERR_EINVAL \<noteq> 0" "ERR_ENOMEM \<noteq> 0"
  by (simp_all add: SYS_ERR_EEXIST_def SYS_ERR_EINVAL_def ERR_ENOMEM_def)

lemma service_targets:
  assumes "service_ok fs ms root A M k pool"
  shows "cap_target k fs 2 = Ok (Proc ms)" "cap_target k ms 0 = Ok (Proc fs)"
  using service_okD(5,6) [OF assms] by (simp_all add: cap_target_cap_at)

lemma alloc_file_page_eval:
  assumes t: "cap_target k fs 2 = Ok (Proc ms)" "cap_target k ms 0 = Ok (Proc fs)"
    and r: "ms_round ly ms pool [OP_ALLOC, 3 + fd, 0, 0, 0] k = Some (reply, pool', k')"
  shows "urun (fs_world ly fs ms) (alloc_file_page fd) (k, pool, None) =
    (if reply ! 0 \<noteq> 132 \<or> reply ! 1 \<noteq> 0 then Some (Some (Err ERR_ENOMEM), k', pool', None)
     else (case mem_map k' fs (3 + fd) (file_page fd) of
         Some (x, k'') \<Rightarrow> Some (Some (if status x \<noteq> 0 then Err ERR_ENOMEM else Ok ()), k'', pool', None) | None \<Rightarrow> None))"
  using t r by (simp add: alloc_file_page_def Let_def syscall_defs fs_call_def kcall_def split: option.split)

lemma alloc_file_page_run:
  assumes s: "service_ok fs ms root A M k pool" and fd: "fd < 4" "fd \<notin> M"
  obtains (ok) k' pool' A' where "urun (fs_world ly fs ms) (alloc_file_page fd) (k, pool, None) = Some (Some (Ok ()), k', pool', None)"
      "service_ok fs ms root A' (insert fd M) k' pool'"
      "\<And>w. w div 4096 \<noteq> file_page fd div 4096 \<Longrightarrow> user_load fs w k' = user_load fs w k"
  | (err) k' pool' A' where "urun (fs_world ly fs ms) (alloc_file_page fd) (k, pool, None) = Some (Some (Err ERR_ENOMEM), k', pool', None)"
      "service_ok fs ms root A' M k' pool'" "\<And>w. user_load fs w k' = user_load fs w k"
      "(\<forall>i<4. \<not> pool ! i) \<or> cap_at k fs (3 + fd) \<noteq> None \<or> free_page_count (k_mm k') = Some 0"
proof -
  note d = service_okD [OF s] and t = service_targets [OF s]
  note eval = alloc_file_page_eval [OF t, of ly pool fd]
  show ?thesis
  proof (rule find_pool_cases [of pool])
    assume f: "find (\<lambda>i. pool ! i) [0..<4] = None" "\<forall>i<4. \<not> pool ! i"
    show ?thesis using eval [OF ms_round_alloc(1) [OF d(6) f(1)]] s f(2) sys_err_nonzero by (intro err) auto
  next
    fix i :: nat assume f: "find (\<lambda>i. pool ! i) [0..<4] = Some i" "i < 4" "pool ! i"
    show ?thesis
    proof (cases "cap_at k fs (3 + fd)")
      case (Some c)
      obtain q where q: "cap_at k ms (Suc i) = Some (Page q)" using pool_okD(2) [OF d(11) f(2,3)] by blast
      have p: "get_proc k fs \<noteq> None" using d(3) by (auto simp: pid_root_def)
      have "mem_grant k ms (Suc i) 0 (3 + fd) = Some (Err SYS_ERR_EEXIST, k)"
        by (rule mem_grant_occupied [OF q d(6) p]) (use fd Some in auto)
      then show ?thesis using eval [OF ms_round_alloc(3) [OF d(6) f(1)]] s Some sys_err_nonzero by (intro err) auto
    next
      case None
      obtain k1 q where k1: "mem_grant k ms (Suc i) 0 (3 + fd) = Some (Ok (), k1)" "service_ok fs ms root A M k1 (pool[i := False])"
        "cap_at k1 fs (3 + fd) = Some (Page q)" "k_mm k1 = k_mm k" "pid_root k1 fs = pid_root k fs"
        by (rule take_page [OF s f(2,3) fd None])
      note e = eval [OF ms_round_alloc(2) [OF d(6) f(1) k1(1) service_okD(6) [OF k1(2)]]]
      have v: "user_load fs w k1 = user_load fs w k" for w
        using k1(4,5) by (simp add: user_load_def proc_access_def split: option.split)
      show ?thesis
      proof (rule map_page [OF k1(2) fd k1(3)])
        fix k' A' assume "mem_map k1 fs (3 + fd) (file_page fd) = Some (Ok (), k')"
          "service_ok fs ms root A' (insert fd M) k' (pool[i := False])"
          "\<And>w. w div 4096 \<noteq> file_page fd div 4096 \<Longrightarrow> user_load fs w k' = user_load fs w k1"
        then show ?thesis using e v by (intro ok [of k' "pool[i := False]" A']) (simp_all add: status_def)
      next
        fix k' A' assume "mem_map k1 fs (3 + fd) (file_page fd) = Some (Err SYS_ERR_EINVAL, k')"
          "service_ok fs ms root A' M k' (pool[i := False])" "\<And>w. user_load fs w k' = user_load fs w k1"
          "free_page_count (k_mm k') = Some 0"
        then show ?thesis using e v sys_err_nonzero by (intro err [of k' "pool[i := False]" A']) (simp_all add: status_def)
      qed
    qed
  qed
qed

lemma fs_unlink_run:
  assumes s: "service_ok fs ms root A M k pool" and t: "table_ok t" and fd: "fd < 4" "fd \<in> M" "fe_state (t ! fd) \<noteq> FileFree"
  obtains k' pool' where
    "urun (fs_world ly fs ms) (fs_unlink t fd) (k, pool, None) = Some (Some (fs_reply OP_FS_UNLINK 0 0, t[fd := file_entry_free]), k', pool', None)"
    "service_ok fs ms root A (M - {fd}) k' pool'"
    "\<And>w. w div 4096 \<noteq> file_page fd div 4096 \<Longrightarrow> user_load fs w k' = user_load fs w k"
proof -
  note d = service_okD [OF s] and tg = service_targets [OF s]
  obtain q where q: "cap_at k fs (3 + fd) = Some (Page q)" using files_okD(1) [OF d(12) fd(1,2)] by blast
  then obtain j where "j < 4" "\<not> pool ! j" using pool_not_full [OF d(13) fd(1)] by blast
  then obtain i where f: "find (\<lambda>i. \<not> pool ! i) [0..<4] = Some i" "i < 4" "\<not> pool ! i"
    using find_upt_None [of "\<lambda>i. \<not> pool ! i" 4 j] find_upt_Some [of "\<lambda>i. \<not> pool ! i" 4]
    by (cases "find (\<lambda>i. \<not> pool ! i) [0..<4]") blast+
  obtain k' where k': "mem_grant k fs (3 + fd) 2 (Suc i) = Some (Ok (), k')" "service_ok fs ms root A (M - {fd}) k' (pool[i := True])"
    "\<And>w. w div 4096 \<noteq> file_page fd div 4096 \<Longrightarrow> user_load fs w k' = user_load fs w k"
    by (rule give_page [OF s f(2,3) fd(1,2)]) (rule that; assumption)
  have "urun (fs_world ly fs ms) (fs_unlink t fd) (k, pool, None) =
      Some (Some (fs_reply OP_FS_UNLINK 0 0, t[fd := file_entry_free]), k', pool[i := True], None)"
    using tg ms_round_free [OF d(6) f(1), of ly "3 + fd"] k'(1) fd table_okD(1) [OF t]
    by (simp add: fs_unlink_def entry_def Let_def syscall_defs fs_call_def kcall_def status_def)
  then show ?thesis using that k' by blast
qed

end
