(* ===== verification/Ramfs_Ops.thy ===== *)
theory Ramfs_Ops
  imports File_Steps
begin

text \<open>
  The file service as its clients see it. The abstract state maps a descriptor to a file: whether it is
  open, its name and its bytes. \<open>fs_spec\<close> says which reply, which contents of the shared window and which
  files a request may lead to.
\<close>

section \<open>Specification\<close>

record afile =
  af_open :: bool
  af_name :: "byte list"
  af_data :: "byte list"

type_synonym afs = "nat \<Rightarrow> afile option"

definition open_spec :: "usize \<Rightarrow> byte list \<Rightarrow> afs \<Rightarrow> usize list \<Rightarrow> afs \<Rightarrow> bool" where
  "open_spec len name F reply F' \<longleftrightarrow>
     (if len = 0 \<or> 24 < len then reply = fs_reply OP_FS_OPEN USER_ERR_EINVAL 0 \<and> F' = F
      else (\<exists>fd<4. \<exists>f. F fd = Some f \<and> af_name f = take len name \<and>
            (if af_open f then reply = fs_reply OP_FS_OPEN USER_ERR_EEXIST 0 \<and> F' = F
             else reply = fs_reply OP_FS_OPEN 0 fd \<and> F' = F(fd \<mapsto> f\<lparr>af_open := True\<rparr>))) \<or>
        (\<forall>fd f. F fd = Some f \<longrightarrow> af_name f \<noteq> take len name) \<and>
          (reply = fs_reply OP_FS_OPEN ERR_ENOMEM 0 \<and> F' = F \<or>
           (\<exists>fd<4. F fd = None \<and> reply = fs_reply OP_FS_OPEN 0 fd \<and>
              F' = F(fd \<mapsto> \<lparr>af_open = True, af_name = take len name, af_data = []\<rparr>))))"

definition read_spec :: "usize \<Rightarrow> usize \<Rightarrow> usize \<Rightarrow> byte list \<Rightarrow> afs \<Rightarrow> usize list \<Rightarrow> byte list \<Rightarrow> afs \<Rightarrow> bool" where
  "read_spec fd off len shm F reply shm' F' \<longleftrightarrow> F' = F \<and>
     (if \<exists>f. F fd = Some f \<and> af_open f then
        (let d = file_read (af_data (the (F fd))) off len in
         reply = fs_reply OP_FS_READ 0 (length d) \<and> shm' = d @ drop (length d) shm)
      else reply = fs_reply OP_FS_READ USER_ERR_EBADF 0 \<and> shm' = shm)"

definition write_spec :: "usize \<Rightarrow> usize \<Rightarrow> usize \<Rightarrow> byte list \<Rightarrow> afs \<Rightarrow> usize list \<Rightarrow> afs \<Rightarrow> bool" where
  "write_spec fd off len shm F reply F' \<longleftrightarrow>
     (if \<exists>f. F fd = Some f \<and> af_open f then
        (let f = the (F fd) in
         if off < 4096 \<and> off + len \<le> 4096 then
           reply = fs_reply OP_FS_WRITE 0 len \<and>
           (\<exists>gap. F' = F(fd \<mapsto> f\<lparr>af_data := file_write (af_data f) off (take len shm) gap\<rparr>))
         else reply = fs_reply OP_FS_WRITE USER_ERR_EINVAL 0 \<and> F' = F)
      else reply = fs_reply OP_FS_WRITE USER_ERR_EBADF 0 \<and> F' = F)"

definition close_spec :: "usize \<Rightarrow> afs \<Rightarrow> usize list \<Rightarrow> afs \<Rightarrow> bool" where
  "close_spec fd F reply F' \<longleftrightarrow>
     (if \<exists>f. F fd = Some f \<and> af_open f
      then reply = fs_reply OP_FS_CLOSE 0 0 \<and> F' = F(fd \<mapsto> (the (F fd))\<lparr>af_open := False\<rparr>)
      else reply = fs_reply OP_FS_CLOSE USER_ERR_EBADF 0 \<and> F' = F)"

definition unlink_spec :: "usize \<Rightarrow> afs \<Rightarrow> usize list \<Rightarrow> afs \<Rightarrow> bool" where
  "unlink_spec fd F reply F' \<longleftrightarrow>
     (if F fd \<noteq> None then reply = fs_reply OP_FS_UNLINK 0 0 \<and> F' = F(fd := None)
      else reply = fs_reply OP_FS_UNLINK USER_ERR_EBADF 0 \<and> F' = F)"

text \<open>The request \<open>r\<close> as \<^verbatim>\<open>sys_ipc_recv\<close> returns it, with the operation in \<open>r ! 1\<close>.\<close>

definition fs_spec :: "usize list \<Rightarrow> byte list \<Rightarrow> afs \<Rightarrow> usize list \<Rightarrow> byte list \<Rightarrow> afs \<Rightarrow> bool" where
  "fs_spec r shm F reply shm' F' \<longleftrightarrow>
     (if r ! 1 = OP_FS_OPEN then open_spec (r ! 2) (name_from_words [r ! 3, r ! 4, r ! 5]) F reply F' \<and> shm' = shm
      else if r ! 1 = OP_FS_READ then read_spec (r ! 2) (r ! 3) (r ! 4) shm F reply shm' F'
      else if r ! 1 = OP_FS_WRITE then write_spec (r ! 2) (r ! 3) (r ! 4) shm F reply F' \<and> shm' = shm
      else if r ! 1 = OP_FS_CLOSE then close_spec (r ! 2) F reply F' \<and> shm' = shm
      else if r ! 1 = OP_FS_UNLINK then unlink_spec (r ! 2) F reply F' \<and> shm' = shm
      else reply = [r ! 1 OR OP_REPLY_FLAG, PROTO_ERR, 0, 0, 0] \<and> F' = F \<and> shm' = shm)"

section \<open>Abstraction\<close>

definition afile_of :: "(usize \<Rightarrow> byte option) \<Rightarrow> file_table \<Rightarrow> nat \<Rightarrow> afile" where
  "afile_of view t fd = \<lparr>af_open = (fe_state (t ! fd) = FileOpen), af_name = take (fe_name_len (t ! fd)) (fe_name (t ! fd)),
     af_data = content view t fd\<rparr>"

definition abs_fs :: "(usize \<Rightarrow> byte option) \<Rightarrow> file_table \<Rightarrow> afs" where
  "abs_fs view t fd = (if fd < 4 \<and> fe_state (t ! fd) \<noteq> FileFree then Some (afile_of view t fd) else None)"

definition files :: "file_table \<Rightarrow> nat set" where
  "files t = {fd. fd < 4 \<and> fe_state (t ! fd) \<noteq> FileFree}"

definition shm_window :: "nat \<Rightarrow> kernel \<Rightarrow> byte list" where
  "shm_window fs k = bytes_at (user_view fs k) USER_SHM_VA 4096"

text \<open>Why a new file may be refused.\<close>

definition fs_no_room :: "nat \<Rightarrow> file_table \<Rightarrow> kernel \<Rightarrow> bool list \<Rightarrow> kernel \<Rightarrow> bool" where
  "fs_no_room fs t k pool k' \<longleftrightarrow> (\<forall>fd<4. fe_state (t ! fd) \<noteq> FileFree) \<or> (\<forall>i<4. \<not> pool ! i) \<or>
     (\<exists>fd<4. fe_state (t ! fd) = FileFree \<and> cap_at k fs (3 + fd) \<noteq> None) \<or> free_page_count (k_mm k') = Some 0"

lemma abs_fs_cong:
  assumes "\<And>fd. fd < 4 \<Longrightarrow> fe_state (t ! fd) \<noteq> FileFree \<Longrightarrow> content v' t fd = content v t fd"
  shows "abs_fs v' t = abs_fs v t"
  using assms by (auto simp: abs_fs_def afile_of_def fun_eq_iff)

lemma view_other_page:
  assumes t: "table_ok t" and fd: "fd < 4" and v: "\<And>w. w div 4096 \<noteq> file_page fd div 4096 \<Longrightarrow> v' w = v w"
  shows "f < 4 \<Longrightarrow> f \<noteq> fd \<Longrightarrow> content v' t f = content v t f" "bytes_at v' USER_SHM_VA 4096 = bytes_at v USER_SHM_VA 4096"
proof -
  have page: "(file_page f + i) div 4096 = 0x74000 + f" if "f < 4" "i < 4096" for f i
  proof -
    have "file_page f + i = 4096 * (0x74000 + f) + i" by (simp add: file_page_def)
    then show ?thesis using that by (simp only:) simp
  qed
  show "content v' t f = content v t f" if f: "f < 4" "f \<noteq> fd"
    unfolding content_def
  proof (rule bytes_at_cong, rule v)
    fix i assume "i < fe_size (t ! f)"
    then have "i < 4096" using table_okD(2) [OF t f(1)] by (simp add: entry_ok_def)
    then show "(file_page f + i) div 4096 \<noteq> file_page fd div 4096" using page [OF f(1)] f(2) file_page_props(5) [OF fd] by simp
  qed
  show "bytes_at v' USER_SHM_VA 4096 = bytes_at v USER_SHM_VA 4096"
  proof (rule bytes_at_cong, rule v)
    fix i :: nat assume i: "i < 4096"
    have "USER_SHM_VA + i = 4096 * 0x50000 + i" by simp
    then have "(USER_SHM_VA + i) div 4096 = 0x50000" using i by simp
    then show "(USER_SHM_VA + i) div 4096 \<noteq> file_page fd div 4096" using file_page_props(5) [OF fd] by simp
  qed
qed

lemma file_window:
  assumes s: "service_ok fs ms root A M k pool" and fd: "fd < 4" "fd \<in> M"
  shows "window (user_writable fs k) (file_page fd) 4096"
proof -
  note d = service_okD [OF s]
  obtain rec :: page_record where r: "(pr_paddr rec, 0) \<in> A" "leaf_pte (k_mm k) root (file_page fd) = rw_leaf (pr_paddr rec)"
    using files_okD(1) [OF d(12) fd] unfolding holds_file_def by blast
  show ?thesis by (rule rw_leaf_window [OF d(3,7,8) r(1) file_page_props(1,2) [OF fd(1)] r(2)])
qed

lemma service_proc_ok: "service_ok fs ms root A M k pool \<Longrightarrow> proc_ok fs k"
  using service_okD(3,7) unfolding proc_ok_def by blast

lemma urun_service:
  assumes "usafe acc (\<lambda>_ _. False) Q p" "urun (kernel_world call fs) p (k, x) = Some (r, k', x')" "service_ok fs ms root A M k pool"
  shows "x' = x \<and> service_ok fs ms root A M k' pool"
  by (rule urun_stores [OF assms(1,2), where I = "\<lambda>k. service_ok fs ms root A M k pool"])
    (rule assms(3), rule user_store_service)

section \<open>The operations\<close>

lemma abs_open_iff:
  assumes "table_ok t"
  shows "(\<exists>f. abs_fs v t fd = Some f \<and> af_open f) \<longleftrightarrow> entry t fd (\<lambda>st. st = FileOpen) \<noteq> None"
  using table_okD(1) [OF assms] by (auto simp: abs_fs_def afile_of_def entry_def)

lemma entry_openD:
  assumes "table_ok t" "entry t fd (\<lambda>st. st = FileOpen) = Some e"
  shows "fd < 4" "fe_state (t ! fd) = FileOpen" "e = t ! fd" "fd \<in> files t"
  using entry_SomeD [OF assms(2)] table_okD(1) [OF assms(1)] by (auto simp: files_def)

lemma fs_write_refines:
  assumes s: "service_ok fs ms root A (files t) k pool" and t: "table_ok t"
  obtains reply t' k' where "urun (fs_world ly fs ms) (fs_write t fd off len) (k, pool, None) = Some (Some (reply, t'), k', pool, None)"
    "service_ok fs ms root A (files t') k' pool" "shm_window fs k' = shm_window fs k"
    "write_spec fd off len (shm_window fs k) (abs_fs (user_view fs k) t) reply (abs_fs (user_view fs k') t')"
proof (cases "entry t fd (\<lambda>st. st = FileOpen)")
  case None
  then have "write_spec fd off len (shm_window fs k) (abs_fs (user_view fs k) t) (fs_reply OP_FS_WRITE USER_ERR_EBADF 0) (abs_fs (user_view fs k) t)"
    using abs_open_iff [OF t, of "user_view fs k" fd] by (auto simp: write_spec_def)
  then show ?thesis using s None by (intro that [of "fs_reply OP_FS_WRITE USER_ERR_EBADF 0" t k]) (simp_all add: fs_write_def)
next
  case (Some e)
  note e = entry_openD [OF t Some]
  have op: "\<exists>f. abs_fs (user_view fs k) t fd = Some f \<and> af_open f" using abs_open_iff [OF t] Some by blast
  show ?thesis
  proof (cases "off < 4096 \<and> off + len \<le> 4096")
    case False
    then have "write_spec fd off len (shm_window fs k) (abs_fs (user_view fs k) t) (fs_reply OP_FS_WRITE USER_ERR_EINVAL 0) (abs_fs (user_view fs k) t)"
      using op by (auto simp: write_spec_def Let_def)
    moreover have "fs_write t fd off len = URet (fs_reply OP_FS_WRITE USER_ERR_EINVAL 0, t)"
      using False Some by (auto simp: fs_write_def uadd_def)
    ultimately show ?thesis using s by (intro that [of "fs_reply OP_FS_WRITE USER_ERR_EINVAL 0" t k]) simp_all
  next
    case True
    let ?t = "t[fd := (t ! fd)\<lparr>fe_size := max (fe_size (t ! fd)) (off + len)\<rparr>]"
    have i: "proc_ok fs (fst (k, pool, None :: msg option))" using service_proc_ok [OF s] by simp
    have w: "window (user_writable fs (fst (k, pool, None :: msg option))) USER_SHM_VA 4096"
      "window (user_writable fs (fst (k, pool, None :: msg option))) (file_page fd) 4096"
      using service_okD(9) [OF s] file_window [OF s e(1,4)] by simp_all
    let ?s = "(k, pool, None :: msg option)"
    obtain s' t' where "urun (fs_world ly fs ms) (fs_write t fd off len) ?s = Some (Some (fs_reply OP_FS_WRITE 0 len, t'), s')"
      "t' = ?t" "content (user_view fs (fst s')) t' fd = file_write (content (user_view fs (fst ?s)) t fd) off
         (bytes_at (user_view fs (fst ?s)) USER_SHM_VA len) (\<lambda>i. the (user_load fs (file_page fd + i) (fst ?s)))"
      "\<And>f. f < 4 \<Longrightarrow> f \<noteq> fd \<Longrightarrow> content (user_view fs (fst s')) t' f = content (user_view fs (fst ?s)) t f"
      "\<And>i. i < 4096 \<Longrightarrow> user_load fs (USER_SHM_VA + i) (fst s') = user_load fs (USER_SHM_VA + i) (fst ?s)"
      by (rule kmem.fs_write_run [OF i t e(1,2) w True [THEN conjunct1] True [THEN conjunct2], of "fs_call ly fs ms"])
        (rule that; assumption)
    note run = this [unfolded fst_conv]
    obtain k' x where s': "s' = (k', x)" by (cases s')
    have free: "usafe (\<lambda>_. True) (\<lambda>_ _. False) (\<lambda>_. True) (fs_write t fd off len)"
      using Some by (auto simp: fs_write_def usafe_simps split: option.split)
    have st: "x = (pool, None) \<and> service_ok fs ms root A (files t) k' pool"
      by (rule urun_service [OF free run(1) [unfolded s'] s])
    have len: "length t = 4" by (rule table_okD(1) [OF t])
    have fl: "files ?t = files t" using len e by (auto simp: files_def nth_list_update)
    have shm: "shm_window fs k' = shm_window fs k"
      unfolding shm_window_def by (rule bytes_at_cong) (use run(5) s' in simp)
    have tk: "take len (shm_window fs k) = bytes_at (user_view fs k) USER_SHM_VA len"
      by (rule nth_equalityI) (use True in \<open>simp_all add: shm_window_def\<close>)
    have "abs_fs (user_view fs k') ?t = (abs_fs (user_view fs k) t)(fd \<mapsto> (afile_of (user_view fs k) t fd)
        \<lparr>af_data := file_write (content (user_view fs k) t fd) off (take len (shm_window fs k)) (\<lambda>i. the (user_load fs (file_page fd + i) k))\<rparr>)"
    proof
      fix f
      show "abs_fs (user_view fs k') ?t f = ((abs_fs (user_view fs k) t)(fd \<mapsto> (afile_of (user_view fs k) t fd)
        \<lparr>af_data := file_write (content (user_view fs k) t fd) off (take len (shm_window fs k)) (\<lambda>i. the (user_load fs (file_page fd + i) k))\<rparr>)) f"
        using run(3,4) e len tk unfolding run(2) s' by (auto simp: abs_fs_def afile_of_def)
    qed
    then have "write_spec fd off len (shm_window fs k) (abs_fs (user_view fs k) t) (fs_reply OP_FS_WRITE 0 len) (abs_fs (user_view fs k') ?t)"
      using op True e by (auto simp: write_spec_def Let_def abs_fs_def afile_of_def)
    then show ?thesis using run(1) st shm fl unfolding s' run(2) by (intro that [of "fs_reply OP_FS_WRITE 0 len" ?t k']) simp_all
  qed
qed

lemma fs_read_refines:
  assumes s: "service_ok fs ms root A (files t) k pool" and t: "table_ok t"
  obtains reply k' where "urun (fs_world ly fs ms) (fs_read t fd off len) (k, pool, None) = Some (Some (reply, t), k', pool, None)"
    "service_ok fs ms root A (files t) k' pool"
    "read_spec fd off len (shm_window fs k) (abs_fs (user_view fs k) t) reply (shm_window fs k') (abs_fs (user_view fs k') t)"
proof (cases "entry t fd (\<lambda>st. st = FileOpen)")
  case None
  then have "read_spec fd off len (shm_window fs k) (abs_fs (user_view fs k) t) (fs_reply OP_FS_READ USER_ERR_EBADF 0) (shm_window fs k) (abs_fs (user_view fs k) t)"
    using abs_open_iff [OF t, of "user_view fs k" fd] by (auto simp: read_spec_def)
  then show ?thesis using s None by (intro that [of "fs_reply OP_FS_READ USER_ERR_EBADF 0" k]) (simp_all add: fs_read_def)
next
  case (Some e)
  note e = entry_openD [OF t Some]
  let ?s = "(k, pool, None :: msg option)"
  have i: "proc_ok fs (fst ?s)" using service_proc_ok [OF s] by simp
  have w: "window (user_writable fs (fst ?s)) USER_SHM_VA 4096" "window (user_writable fs (fst ?s)) (file_page fd) 4096"
    using service_okD(9) [OF s] file_window [OF s e(1,4)] by simp_all
  obtain s' n where "urun (fs_world ly fs ms) (fs_read t fd off len) ?s = Some (Some (fs_reply OP_FS_READ 0 n, t), s')"
    "n = length (file_read (content (user_view fs (fst ?s)) t fd) off len)"
    "bytes_at (user_view fs (fst s')) USER_SHM_VA n = file_read (content (user_view fs (fst ?s)) t fd) off len"
    "\<And>f. f < 4 \<Longrightarrow> content (user_view fs (fst s')) t f = content (user_view fs (fst ?s)) t f"
    "\<And>a. \<not> (USER_SHM_VA \<le> a \<and> a < USER_SHM_VA + n) \<Longrightarrow> user_load fs a (fst s') = user_load fs a (fst ?s)"
    by (rule kmem.fs_read_run [OF i t e(1,2) w, of "fs_call ly fs ms"]) (rule that; assumption)
  note run = this [unfolded fst_conv]
  obtain k' x where s': "s' = (k', x)" by (cases s')
  have free: "usafe (\<lambda>_. True) (\<lambda>_ _. False) (\<lambda>_. True) (fs_read t fd off len)"
    using Some by (auto simp: fs_read_def usafe_simps Let_def)
  have st: "x = (pool, None) \<and> service_ok fs ms root A (files t) k' pool"
    by (rule urun_service [OF free run(1) [unfolded s'] s])
  have abs: "abs_fs (user_view fs k') t = abs_fs (user_view fs k) t" by (rule abs_fs_cong) (use run(4) s' in simp)
  let ?d = "file_read (content (user_view fs k) t fd) off len"
  have size: "length (content (user_view fs k) t fd) \<le> 4096"
    using table_okD(2) [OF t e(1)] by (simp add: content_def entry_ok_def)
  have n: "n \<le> 4096" "length ?d = n" using run(2) size by (simp_all add: file_read_def)
  have "shm_window fs k' = ?d @ drop n (shm_window fs k)"
  proof (rule nth_equalityI)
    fix j assume "j < length (shm_window fs k')"
    then have j: "j < 4096" by (simp add: shm_window_def)
    show "shm_window fs k' ! j = (?d @ drop n (shm_window fs k)) ! j"
    proof (cases "j < n")
      case True
      then have "shm_window fs k' ! j = bytes_at (user_view fs k') USER_SHM_VA n ! j" using j by (simp add: shm_window_def)
      also have "\<dots> = ?d ! j" using run(3) s' by simp
      finally show ?thesis using True n(2) by (simp add: nth_append)
    next
      case False
      then have "user_load fs (USER_SHM_VA + j) k' = user_load fs (USER_SHM_VA + j) k" using run(5) [of "USER_SHM_VA + j"] s' by simp
      then show ?thesis using False j n by (simp add: nth_append shm_window_def)
    qed
  qed (use n in \<open>simp add: shm_window_def\<close>)
  moreover have op: "abs_fs (user_view fs k) t fd = Some (afile_of (user_view fs k) t fd)" "af_open (afile_of (user_view fs k) t fd)"
    "af_data (afile_of (user_view fs k) t fd) = content (user_view fs k) t fd"
    using e by (simp_all add: abs_fs_def afile_of_def)
  ultimately have "read_spec fd off len (shm_window fs k) (abs_fs (user_view fs k) t) (fs_reply OP_FS_READ 0 n) (shm_window fs k') (abs_fs (user_view fs k') t)"
    using abs n(2) by (simp add: read_spec_def Let_def)
  then show ?thesis using run(1) st unfolding s' by (intro that [of "fs_reply OP_FS_READ 0 n" k']) simp_all
qed

lemma fs_close_refines:
  assumes t: "table_ok t"
  shows "close_spec fd (abs_fs v t) (fst (fs_close t fd)) (abs_fs v (snd (fs_close t fd)))" "files (snd (fs_close t fd)) = files t"
proof -
  have "close_spec fd (abs_fs v t) (fst (fs_close t fd)) (abs_fs v (snd (fs_close t fd))) \<and> files (snd (fs_close t fd)) = files t"
  proof (cases "entry t fd (\<lambda>st. st = FileOpen)")
    case None
    then show ?thesis using abs_open_iff [OF t, of v fd] by (auto simp: close_spec_def fs_close_def)
  next
    case (Some e)
    note e = entry_openD [OF t Some]
    have op: "\<exists>f. abs_fs v t fd = Some f \<and> af_open f" using abs_open_iff [OF t] Some by blast
    have "abs_fs v (t[fd := e\<lparr>fe_state := FileClosed\<rparr>]) = (abs_fs v t)(fd \<mapsto> (the (abs_fs v t fd))\<lparr>af_open := False\<rparr>)"
      using e table_okD(1) [OF t] by (auto simp: abs_fs_def afile_of_def content_def fun_eq_iff nth_list_update)
    moreover have "files (t[fd := e\<lparr>fe_state := FileClosed\<rparr>]) = files t"
      using e table_okD(1) [OF t] by (auto simp: files_def nth_list_update split: if_splits)
    ultimately show ?thesis using Some op by (auto simp: close_spec_def fs_close_def)
  qed
  then show "close_spec fd (abs_fs v t) (fst (fs_close t fd)) (abs_fs v (snd (fs_close t fd)))" "files (snd (fs_close t fd)) = files t"
    by blast+
qed

lemma fs_unlink_refines:
  assumes s: "service_ok fs ms root A (files t) k pool" and t: "table_ok t"
  obtains reply t' k' pool' where "urun (fs_world ly fs ms) (fs_unlink t fd) (k, pool, None) = Some (Some (reply, t'), k', pool', None)"
    "service_ok fs ms root A (files t') k' pool'" "shm_window fs k' = shm_window fs k"
    "unlink_spec fd (abs_fs (user_view fs k) t) reply (abs_fs (user_view fs k') t')"
proof (cases "fd < 4 \<and> fe_state (t ! fd) \<noteq> FileFree")
  case False
  have "fs_unlink t fd = URet (fs_reply OP_FS_UNLINK USER_ERR_EBADF 0, t)"
    using False table_okD(1) [OF t] by (auto simp: fs_unlink_def entry_def)
  moreover have "unlink_spec fd (abs_fs (user_view fs k) t) (fs_reply OP_FS_UNLINK USER_ERR_EBADF 0) (abs_fs (user_view fs k) t)"
    using False by (auto simp: unlink_spec_def abs_fs_def)
  ultimately show ?thesis using s by (intro that [of "fs_reply OP_FS_UNLINK USER_ERR_EBADF 0" t k pool]) simp_all
next
  case True
  then have fd: "fd < 4" "fd \<in> files t" "fe_state (t ! fd) \<noteq> FileFree" by (auto simp: files_def)
  obtain k' pool' where run:
    "urun (fs_world ly fs ms) (fs_unlink t fd) (k, pool, None) = Some (Some (fs_reply OP_FS_UNLINK 0 0, t[fd := file_entry_free]), k', pool', None)"
    "service_ok fs ms root A (files t - {fd}) k' pool'"
    "\<And>w. w div 4096 \<noteq> file_page fd div 4096 \<Longrightarrow> user_load fs w k' = user_load fs w k"
    by (rule fs_unlink_run [OF s t fd]) (rule that; assumption)
  have other: "content (user_view fs k') t f = content (user_view fs k) t f" if "f < 4" "f \<noteq> fd" for f
    by (rule view_other_page(1) [OF t fd(1) _ that]) (rule run(3))
  have shm: "shm_window fs k' = shm_window fs k"
    unfolding shm_window_def by (rule view_other_page(2) [OF t fd(1)]) (rule run(3))
  let ?t = "t[fd := file_entry_free]"
  have len: "length t = 4" by (rule table_okD(1) [OF t])
  have fl: "files ?t = files t - {fd}" using len fd by (auto simp: files_def nth_list_update file_entry_free_def split: if_splits)
  have "content (user_view fs k') ?t f = content (user_view fs k) t f" if "f < 4" "f \<noteq> fd" for f
    using other [OF that] that by (simp add: content_def)
  then have "abs_fs (user_view fs k') ?t = (abs_fs (user_view fs k) t)(fd := None)"
    using len by (auto simp: abs_fs_def afile_of_def fun_eq_iff file_entry_free_def nth_list_update)
  then have "unlink_spec fd (abs_fs (user_view fs k) t) (fs_reply OP_FS_UNLINK 0 0) (abs_fs (user_view fs k') ?t)"
    using fd by (simp add: unlink_spec_def abs_fs_def)
  then show ?thesis using run(1,2) fl shm by (intro that [of "fs_reply OP_FS_UNLINK 0 0" ?t k' pool']) simp_all
qed

lemma abs_name_iff:
  assumes t: "table_ok t" and fd: "fd < 4" and n: "1 \<le> len" "len \<le> 24" "length name = 24"
  shows "same_name (t ! fd) len name \<longleftrightarrow> (\<exists>f. abs_fs v t fd = Some f \<and> af_name f = take len name)"
proof (cases "fe_state (t ! fd) = FileFree")
  case True
  then have "fe_name_len (t ! fd) = 0" using table_okD(2) [OF t fd] by (simp add: entry_ok_def file_entry_free_def)
  then show ?thesis using True n(1) by (auto simp: same_name_def abs_fs_def)
next
  case False
  then have e: "fe_name_len (t ! fd) \<le> 24" "length (fe_name (t ! fd)) = 24" using table_okD(2) [OF t fd] by (auto simp: entry_ok_def)
  have "fe_name_len (t ! fd) = len" if "take (fe_name_len (t ! fd)) (fe_name (t ! fd)) = take len name"
    using arg_cong [OF that, of length] e n by simp
  then show ?thesis using False fd by (auto simp: same_name_def abs_fs_def afile_of_def)
qed

lemma open_spec_found:
  assumes "1 \<le> len" "len \<le> 24" "fd < 4" "F fd = Some f" "af_name f = take len name"
  shows "af_open f \<Longrightarrow> open_spec len name F (fs_reply OP_FS_OPEN USER_ERR_EEXIST 0) F"
    and "\<not> af_open f \<Longrightarrow> open_spec len name F (fs_reply OP_FS_OPEN 0 fd) (F(fd \<mapsto> f\<lparr>af_open := True\<rparr>))"
proof -
  have n: "\<not> (len = 0 \<or> 24 < len)" using assms(1,2) by simp
  show "open_spec len name F (fs_reply OP_FS_OPEN USER_ERR_EEXIST 0) F" if "af_open f"
    unfolding open_spec_def if_not_P [OF n]
    by (rule disjI1, rule exI [of _ fd], intro conjI exI [of _ f]) (use assms that in simp_all)
  show "open_spec len name F (fs_reply OP_FS_OPEN 0 fd) (F(fd \<mapsto> f\<lparr>af_open := True\<rparr>))" if "\<not> af_open f"
    unfolding open_spec_def if_not_P [OF n]
    by (rule disjI1, rule exI [of _ fd], intro conjI exI [of _ f]) (use assms that in simp_all)
qed

lemma fs_reply_status: "fs_reply op a v = fs_reply op b w \<Longrightarrow> a = b"
  by (simp add: fs_reply_def)

lemma user_err_distinct: "USER_ERR_EINVAL \<noteq> ERR_ENOMEM" "USER_ERR_EEXIST \<noteq> ERR_ENOMEM" "0 \<noteq> ERR_ENOMEM"
  by (simp_all add: USER_ERR_EINVAL_def USER_ERR_EEXIST_def ERR_ENOMEM_def)

lemma fs_create_refines:
  assumes s: "service_ok fs ms root A (files t) k pool" and t: "table_ok t" and n: "1 \<le> len" "len \<le> 24" "length name = 24"
    and new: "\<And>fd. fd < 4 \<Longrightarrow> \<not> same_name (t ! fd) len name"
  obtains reply t' k' pool' A' where
    "urun (fs_world ly fs ms) (fs_create t len name) (k, pool, None) = Some (Some (reply, t'), k', pool', None)"
    "service_ok fs ms root A' (files t') k' pool'" "shm_window fs k' = shm_window fs k"
    "open_spec len name (abs_fs (user_view fs k) t) reply (abs_fs (user_view fs k') t')"
    "reply = fs_reply OP_FS_OPEN ERR_ENOMEM 0 \<longrightarrow> fs_no_room fs t k pool k'"
proof -
  let ?F = "abs_fs (user_view fs k) t"
  have nm: "\<forall>fd f. ?F fd = Some f \<longrightarrow> af_name f \<noteq> take len name"
    using new abs_name_iff [OF t _ n] by (auto simp: abs_fs_def split: if_splits)
  have refused: "open_spec len name ?F (fs_reply OP_FS_OPEN ERR_ENOMEM 0) ?F" using nm n by (simp add: open_spec_def)
  show ?thesis
  proof (cases "find (\<lambda>fd. fe_state (t ! fd) = FileFree) [0..<MAX_FILES]")
    case None
    then have "fs_no_room fs t k pool k" using find_upt_None [OF None] by (auto simp: fs_no_room_def)
    then show ?thesis using s refused None
      by (intro that [of "fs_reply OP_FS_OPEN ERR_ENOMEM 0" t k pool A]) (simp_all add: fs_create_def)
  next
    case (Some fd)
    then have fd: "fd < 4" "fe_state (t ! fd) = FileFree" "fd \<notin> files t" by (auto simp: files_def dest: find_upt_Some)
    show ?thesis
    proof (rule alloc_file_page_run [OF s fd(1,3), of ly])
      fix k' pool' A' assume r: "urun (fs_world ly fs ms) (alloc_file_page fd) (k, pool, None) = Some (Some (Ok ()), k', pool', None)"
        "service_ok fs ms root A' (insert fd (files t)) k' pool'"
        and v: "\<And>w. w div 4096 \<noteq> file_page fd div 4096 \<Longrightarrow> user_load fs w k' = user_load fs w k"
      let ?t = "t[fd := \<lparr>fe_state = FileOpen, fe_name = name, fe_name_len = len, fe_size = 0\<rparr>]"
      have len: "length t = 4" by (rule table_okD(1) [OF t])
      have fl: "files ?t = insert fd (files t)" using len fd by (auto simp: files_def nth_list_update)
      have shm: "shm_window fs k' = shm_window fs k"
        unfolding shm_window_def by (rule view_other_page(2) [OF t fd(1)]) (rule v)
      have "content (user_view fs k') ?t f = content (user_view fs k) t f" if "f < 4" "f \<noteq> fd" for f
      proof -
        have "content (user_view fs k') t f = content (user_view fs k) t f"
          by (rule view_other_page(1) [OF t fd(1) _ that]) (rule v)
        then show ?thesis using that by (simp add: content_def)
      qed
      then have "abs_fs (user_view fs k') ?t = ?F(fd \<mapsto> \<lparr>af_open = True, af_name = take len name, af_data = []\<rparr>)"
        using len fd by (auto simp: abs_fs_def afile_of_def content_def bytes_at_def fun_eq_iff nth_list_update)
      then have "open_spec len name ?F (fs_reply OP_FS_OPEN 0 fd) (abs_fs (user_view fs k') ?t)"
        using nm n fd by (auto simp: open_spec_def abs_fs_def)
      then show ?thesis using r fl shm Some user_err_distinct(3)
        by (intro that [of "fs_reply OP_FS_OPEN 0 fd" ?t k' pool' A']) (auto simp: fs_create_def dest: fs_reply_status)
    next
      fix k' pool' A' assume r: "urun (fs_world ly fs ms) (alloc_file_page fd) (k, pool, None) = Some (Some (Err ERR_ENOMEM), k', pool', None)"
        "service_ok fs ms root A' (files t) k' pool'"
        and v: "\<And>w. user_load fs w k' = user_load fs w k"
        and why: "(\<forall>i<4. \<not> pool ! i) \<or> cap_at k fs (3 + fd) \<noteq> None \<or> free_page_count (k_mm k') = Some 0"
      have "user_view fs k' = user_view fs k" using v by blast
      moreover have "fs_no_room fs t k pool k'" using why fd(1,2) unfolding fs_no_room_def by blast
      ultimately show ?thesis using r refused Some
        by (intro that [of "fs_reply OP_FS_OPEN ERR_ENOMEM 0" t k' pool' A']) (simp_all add: fs_create_def shm_window_def)
    qed
  qed
qed

lemma fs_open_refines:
  assumes s: "service_ok fs ms root A (files t) k pool" and t: "table_ok t"
  obtains reply t' k' pool' A' where
    "urun (fs_world ly fs ms) (fs_open t len w0 w1 w2) (k, pool, None) = Some (Some (reply, t'), k', pool', None)"
    "service_ok fs ms root A' (files t') k' pool'" "shm_window fs k' = shm_window fs k"
    "open_spec len (name_from_words [w0, w1, w2]) (abs_fs (user_view fs k) t) reply (abs_fs (user_view fs k') t')"
    "reply = fs_reply OP_FS_OPEN ERR_ENOMEM 0 \<longrightarrow> fs_no_room fs t k pool k'"
proof (cases "len = 0 \<or> 24 < len")
  case True
  then show ?thesis using s user_err_distinct(1)
    by (intro that [of "fs_reply OP_FS_OPEN USER_ERR_EINVAL 0" t k pool A])
      (auto simp: fs_open_def open_spec_def dest: fs_reply_status)
next
  case False
  let ?name = "name_from_words [w0, w1, w2]"
  have n: "1 \<le> len" "len \<le> 24" "length ?name = 24" using False by auto
  show ?thesis
  proof (cases "find (\<lambda>fd. same_name (t ! fd) len ?name) [0..<MAX_FILES]")
    case None
    then have "fs_open t len w0 w1 w2 = fs_create t len ?name" using False by (simp add: fs_open_def)
    then show ?thesis using fs_create_refines [OF s t n, of ly thesis] find_upt_None [OF None] that by auto
  next
    case (Some fd)
    then have fd: "fd < 4" "same_name (t ! fd) len ?name" by (auto dest: find_upt_Some)
    obtain f where f: "abs_fs (user_view fs k) t fd = Some f" "af_name f = take len ?name"
      using abs_name_iff [OF t fd(1) n] fd(2) by blast
    then have st: "fe_state (t ! fd) \<noteq> FileFree" "f = afile_of (user_view fs k) t fd" by (auto simp: abs_fs_def split: if_splits)
    show ?thesis
    proof (cases "fe_state (t ! fd) = FileOpen")
      case True
      then have "fs_open t len w0 w1 w2 = URet (fs_reply OP_FS_OPEN USER_ERR_EEXIST 0, t)"
        using False Some by (simp add: fs_open_def)
      moreover have "open_spec len ?name (abs_fs (user_view fs k) t) (fs_reply OP_FS_OPEN USER_ERR_EEXIST 0) (abs_fs (user_view fs k) t)"
        by (rule open_spec_found(1) [where F = "abs_fs (user_view fs k) t", OF n(1,2) fd(1) f]) (simp add: True st(2) afile_of_def)
      ultimately show ?thesis using s user_err_distinct(2)
        by (intro that [of "fs_reply OP_FS_OPEN USER_ERR_EEXIST 0" t k pool A]) (auto dest: fs_reply_status)
    next
      case no: False
      let ?t = "t[fd := (t ! fd)\<lparr>fe_state := FileOpen\<rparr>]"
      have c: "fe_state (t ! fd) = FileClosed" using no st(1) by (cases "fe_state (t ! fd)") auto
      have len: "length t = 4" by (rule table_okD(1) [OF t])
      have fl: "files ?t = files t" using len fd c by (auto simp: files_def nth_list_update split: if_splits)
      have "fs_open t len w0 w1 w2 = URet (fs_reply OP_FS_OPEN 0 fd, ?t)" using False Some c by (simp add: fs_open_def)
      moreover have ab: "abs_fs (user_view fs k) ?t = (abs_fs (user_view fs k) t)(fd \<mapsto> f\<lparr>af_open := True\<rparr>)"
        using len fd c st by (auto simp: abs_fs_def afile_of_def content_def fun_eq_iff nth_list_update)
      have "open_spec len ?name (abs_fs (user_view fs k) t) (fs_reply OP_FS_OPEN 0 fd) (abs_fs (user_view fs k) ?t)"
        unfolding ab by (rule open_spec_found(2) [where F = "abs_fs (user_view fs k) t", OF n(1,2) fd(1) f]) (simp add: c st(2) afile_of_def)
      ultimately show ?thesis using s fl user_err_distinct(3)
        by (intro that [of "fs_reply OP_FS_OPEN 0 fd" ?t k pool A]) (auto dest: fs_reply_status)
    qed
  qed
qed

end
