(* ===== verification/Clients.thy ===== *)
theory Clients
  imports Servers
begin

text \<open>
  Model of src/user/src/bin/mem_client.rs and ramfs_client.rs: the programs that exercise the memory
  server and the file server and report success by storing a marker word.
\<close>

definition MARKER_VA :: usize where [simp]: "MARKER_VA = 0x40002000"
definition MAGIC :: usize where [simp]: "MAGIC = 0xFEEDFACE"

text \<open>The bytes \<^verbatim>\<open>hello ramfs\<close> and \<^verbatim>\<open>test.txt\<close>.\<close>

definition PAYLOAD :: "byte list" where
  "PAYLOAD = [0x68, 0x65, 0x6c, 0x6c, 0x6f, 0x20, 0x72, 0x61, 0x6d, 0x66, 0x73]"

definition client_name :: "byte list" where
  "client_name = [0x74, 0x65, 0x73, 0x74, 0x2e, 0x74, 0x78, 0x74]"

text \<open>Volatile accesses to a \<^verbatim>\<open>usize\<close>, little-endian.\<close>

definition store_usize :: "usize \<Rightarrow> usize \<Rightarrow> 'a uprog \<Rightarrow> 'a uprog" where
  "store_usize a v p = store_bytes a (name_from_words [v]) p"

definition load_usize :: "usize \<Rightarrow> (usize \<Rightarrow> 'a uprog) \<Rightarrow> 'a uprog" where
  "load_usize a k = load_bytes a 8 (\<lambda>bs. k (or_bytes bs 0 0))"

section \<open>Client of the memory server\<close>

definition mem_client_return :: "usize \<Rightarrow> unit uprog" where
  "mem_client_return argc =
     sys_ipc_send CLIENT_IPC_SLOT [OP_FREE, CLIENT_PAGE_SLOT, 0, 0, 0] (\<lambda>rc. if rc \<noteq> 0 then sys_exit
       else sys_ipc_recv CLIENT_IPC_SLOT (\<lambda>r.
         if r ! 0 \<noteq> 0 \<or> r ! 1 \<noteq> OP_FREE OR OP_REPLY_FLAG \<or> r ! 2 \<noteq> 0 then sys_exit
         else sys_mem_grant CLIENT_PAGE_SLOT CLIENT_IPC_SLOT (r ! 3) (\<lambda>rc. if rc \<noteq> 0 then sys_exit
           else store_usize MARKER_VA (0xC0DE0000 OR argc) sys_exit)))"

definition mem_client :: "usize \<Rightarrow> unit uprog" where
  "mem_client argc =
     sys_service_connect MEMORY_SERVICE_ID CLIENT_IPC_SLOT SERVER_ACCEPT_SLOT (\<lambda>rc. if rc \<noteq> 0 then sys_exit
       else sys_ipc_send CLIENT_IPC_SLOT [OP_ALLOC, CLIENT_PAGE_SLOT, 0, 0, 0] (\<lambda>rc. if rc \<noteq> 0 then sys_exit
         else sys_ipc_recv CLIENT_IPC_SLOT (\<lambda>r.
           if r ! 0 \<noteq> 0 \<or> r ! 1 \<noteq> OP_ALLOC OR OP_REPLY_FLAG \<or> r ! 2 \<noteq> 0 then sys_exit
           else sys_mem_map CLIENT_PAGE_SLOT MEM_VA (\<lambda>rc. if rc \<noteq> 0 then sys_exit
             else store_usize MEM_VA MAGIC (load_usize MEM_VA (\<lambda>readback.
               if readback \<noteq> MAGIC then sys_exit else mem_client_return argc))))))"

section \<open>Client of the file server\<close>

text \<open>\<open>fs_request\<close> continues with whether the reply satisfies \<open>ok\<close>, \<open>fs_result\<close> with the reply.\<close>

definition fs_request :: "usize \<Rightarrow> usize list \<Rightarrow> (usize list \<Rightarrow> bool) \<Rightarrow> ((unit, unit) result \<Rightarrow> 'a uprog) \<Rightarrow> 'a uprog" where
  "fs_request op args ok k =
     sys_ipc_send CLIENT_IPC_SLOT [op, args ! 0, args ! 1, args ! 2, args ! 3] (\<lambda>rc. if rc \<noteq> 0 then k (Err ())
       else sys_ipc_recv CLIENT_IPC_SLOT (\<lambda>r.
         if r ! 0 \<noteq> 0 \<or> r ! 1 \<noteq> op OR OP_REPLY_FLAG then k (Err ())
         else if ok [r ! 1, r ! 2, r ! 3, r ! 4, r ! 5] then k (Ok ()) else k (Err ())))"

definition fs_result :: "usize \<Rightarrow> usize list \<Rightarrow> (usize list \<Rightarrow> 'a uprog) \<Rightarrow> 'a uprog" where
  "fs_result op args k =
     sys_ipc_send CLIENT_IPC_SLOT [op, args ! 0, args ! 1, args ! 2, args ! 3] (\<lambda>rc. if rc \<noteq> 0 then sys_exit
       else sys_ipc_recv CLIENT_IPC_SLOT (\<lambda>r.
         if r ! 0 \<noteq> 0 \<or> r ! 1 \<noteq> op OR OP_REPLY_FLAG then sys_exit
         else k [r ! 1, r ! 2, r ! 3, r ! 4, r ! 5]))"

text \<open>A request whose failure ends the program.\<close>

definition must :: "usize \<Rightarrow> usize list \<Rightarrow> (usize list \<Rightarrow> bool) \<Rightarrow> 'a uprog \<Rightarrow> 'a uprog" where
  "must op args ok p = fs_request op args ok (\<lambda>r. if \<not> is_ok r then sys_exit else p)"

fun compare_bytes :: "usize \<Rightarrow> byte list \<Rightarrow> 'a uprog \<Rightarrow> 'a uprog" where
  "compare_bytes a [] p = p"
| "compare_bytes a (b # bs) p = ULoad a (\<lambda>got. if got \<noteq> b then sys_exit else compare_bytes (a + 1) bs p)"

definition ramfs_client_data :: "usize \<Rightarrow> usize \<Rightarrow> unit uprog" where
  "ramfs_client_data argc fd =
     (let n = length PAYLOAD in
      store_bytes USER_SHM_VA PAYLOAD
        (must OP_FS_WRITE [fd, 0, n, 0] (\<lambda>r. r ! 1 = 0 \<and> r ! 2 = n)
        (must OP_FS_READ [fd, 0, n, 0] (\<lambda>r. r ! 1 = 0 \<and> r ! 2 = n)
        (compare_bytes USER_SHM_VA PAYLOAD
        (must OP_FS_CLOSE [fd, 0, 0, 0] (\<lambda>r. r ! 1 = 0)
        (must OP_FS_UNLINK [fd, 0, 0, 0] (\<lambda>r. r ! 1 = 0)
        (store_usize MARKER_VA (0xC0DE0000 OR argc) sys_exit)))))))"

definition ramfs_client_files :: "usize \<Rightarrow> unit uprog" where
  "ramfs_client_files argc =
     (let (w, name_len) = name_to_words client_name in
      fs_result OP_FS_OPEN [name_len, w ! 0, w ! 1, w ! 2] (\<lambda>open_reply.
        if open_reply ! 1 \<noteq> 0 then sys_exit
        else (let fd = open_reply ! 2 in
          must OP_FS_READ [fd, 0, 16, 0] (\<lambda>r. r ! 1 = 0 \<and> r ! 2 = 0)
          (must OP_FS_OPEN [name_len, w ! 0, w ! 1, w ! 2] (\<lambda>r. r ! 1 = USER_ERR_EEXIST)
          (must OP_FS_READ [99, 0, 1, 0] (\<lambda>r. r ! 1 = USER_ERR_EBADF)
          (must OP_FS_WRITE [fd, 4095, 2, 0] (\<lambda>r. r ! 1 = USER_ERR_EINVAL)
          (ramfs_client_data argc fd)))))))"

definition ramfs_client :: "usize \<Rightarrow> unit uprog" where
  "ramfs_client argc =
     sys_service_connect RAMFS_SERVICE_ID CLIENT_IPC_SLOT SERVER_ACCEPT_SLOT (\<lambda>rc. if rc \<noteq> 0 then sys_exit
       else sys_cap_dup CLIENT_IPC_SLOT CLIENT_SHM_SLOT (\<lambda>rc. if rc \<noteq> 0 then sys_exit
         else sys_shm_map CLIENT_SHM_SLOT SERVER_SHM_SLOT USER_SHM_LEN (\<lambda>rc. if rc \<noteq> 0 then sys_exit
           else ramfs_client_files argc)))"

end
