(* ===== verification/Ramfs_Main.thy ===== *)
theory Ramfs_Main
  imports Ramfs_Ops File_Demo Clients
begin

text \<open>
  The properties of the file server: what it may touch and call on every path, and the refinement of
  the abstract file service by the server, the memory server and the kernel together.
\<close>

section \<open>Every path\<close>

text \<open>
  C4. The file server on every path, whatever the kernel, the memory server and the clients answer. After
  its start and any number of rounds the table is well-formed: four entries, sizes within a page, names of 1
  to 24 bytes and no two files of the same name. In the round that follows it reads and writes only the window
  shared with the client and the pages of files that are open, it maps a page only for an entry that is
  free, it gives a page back only for an entry that is in use, and its other system calls are sends and
  receives on its two connections.
\<close>

theorem ramfs_server_safe:
  "usafe (\<lambda>_. True) (\<lambda>_ _. True)
     (\<lambda>t. table_ok t \<and> usafe (ramfs_access t) (ramfs_call t) table_ok (ramfs_server_body t))
     (ubind ramfs_server_start (uloop ramfs_server_body n))"
proof -
  let ?I = "\<lambda>t. table_ok t \<and> usafe (ramfs_access t) (ramfs_call t) table_ok (ramfs_server_body t)"
  have step: "usafe (\<lambda>_. True) (\<lambda>_ _. True) ?I (ramfs_server_body t)" if "?I t" for t
    by (rule usafe_mono [OF ramfs_server_body_safe]) (use that ramfs_server_body_safe in auto)
  have "usafe (\<lambda>_. True) (\<lambda>_ _. True) ?I (uloop ramfs_server_body n (replicate MAX_FILES file_entry_free))"
    by (rule usafe_uloop [OF step]) (use table_init_ok ramfs_server_body_safe in auto)
  then show ?thesis by (simp add: ramfs_server_start_def syscall_defs)
qed

section \<open>The service\<close>

lemma open_enomem:
  assumes "open_spec len name F reply F'" "reply ! 1 = ERR_ENOMEM"
  shows "reply = fs_reply OP_FS_OPEN ERR_ENOMEM 0"
  using assms user_err_distinct by (auto simp: open_spec_def fs_reply_def split: if_splits)

text \<open>The table after a run is well-formed.\<close>

lemma ramfs_served:
  assumes "table_ok t" and run: "urun (fs_world ly fs ms) (ramfs_op t r) (k, pool, None) = Some (Some (reply, t'), k', pool', None)"
    and "service_ok fs ms root A' (files t') k' pool'"
    "fs_spec r (shm_window fs k) (abs_fs (user_view fs k) t) reply (shm_window fs k') (abs_fs (user_view fs k') t')"
    "r ! 1 = OP_FS_OPEN \<and> reply ! 1 = ERR_ENOMEM \<longrightarrow> fs_no_room fs t k pool k'"
  shows "\<exists>reply t' k' pool' A'.
     urun (fs_world ly fs ms) (ramfs_op t r) (k, pool, None) = Some (Some (reply, t'), k', pool', None) \<and>
     service_ok fs ms root A' (files t') k' pool' \<and> table_ok t' \<and>
     fs_spec r (shm_window fs k) (abs_fs (user_view fs k) t) reply (shm_window fs k') (abs_fs (user_view fs k') t') \<and>
     (r ! 1 = OP_FS_OPEN \<and> reply ! 1 = ERR_ENOMEM \<longrightarrow> fs_no_room fs t k pool k')"
  using usafe_urun [OF ramfs_op_safe run] assms by fastforce

text \<open>
  C24. The file service. Take the file server, the memory server and the kernel in a state of the
  invariant: the two are connected, the pages of the pool are the memory server's and unmapped, the page of
  every file is mapped at its address in the file server, the window shared with the client is mapped. For
  every request the file server then answers (no page fault, no call that never returns), the invariant
  holds again, and the reply, the bytes in the window and the files are what the abstract service allows: open
  finds a file by its name or makes an empty one, a read returns the bytes of the file, a write
  replaces them, close and unlink do what they say, and no request changes another file. A new file is
  refused only if the table or the pool is exhausted, its slot still holds a page, or the kernel has no page left
  for a page table.
\<close>

theorem ramfs_refines:
  assumes s: "service_ok fs ms root A (files t) k pool" and t: "table_ok t"
  shows "\<exists>reply t' k' pool' A'.
     urun (fs_world ly fs ms) (ramfs_op t r) (k, pool, None) = Some (Some (reply, t'), k', pool', None) \<and>
     service_ok fs ms root A' (files t') k' pool' \<and> table_ok t' \<and>
     fs_spec r (shm_window fs k) (abs_fs (user_view fs k) t) reply (shm_window fs k') (abs_fs (user_view fs k') t') \<and>
     (r ! 1 = OP_FS_OPEN \<and> reply ! 1 = ERR_ENOMEM \<longrightarrow> fs_no_room fs t k pool k')"
proof -
  note run = ramfs_served [OF t, where fs = fs and ms = ms and root = root and k = k and pool = pool and r = r and ly = ly]
  consider "r ! 1 = OP_FS_OPEN" | "r ! 1 = OP_FS_READ" | "r ! 1 = OP_FS_WRITE" | "r ! 1 = OP_FS_CLOSE" | "r ! 1 = OP_FS_UNLINK"
    | "r ! 1 \<notin> {OP_FS_OPEN, OP_FS_READ, OP_FS_WRITE, OP_FS_CLOSE, OP_FS_UNLINK}" by blast
  then show ?thesis
  proof cases
    case 1
    show ?thesis
      by (rule fs_open_refines [OF s t, of ly "r ! 2" "r ! 3" "r ! 4" "r ! 5"], rule run)
        (use 1 open_enomem in \<open>auto simp: ramfs_op_def fs_spec_def\<close>)
  next
    case 2
    show ?thesis
      by (rule fs_read_refines [OF s t, of ly "r ! 2" "r ! 3" "r ! 4"], rule run)
        (use 2 in \<open>auto simp: ramfs_op_def fs_spec_def\<close>)
  next
    case 3
    show ?thesis
      by (rule fs_write_refines [OF s t, of ly "r ! 2" "r ! 3" "r ! 4"], rule run)
        (use 3 in \<open>auto simp: ramfs_op_def fs_spec_def\<close>)
  next
    case 4
    then show ?thesis using fs_close_refines(1) [OF t, of "r ! 2" "user_view fs k"] fs_close_refines(2) [OF t, of "r ! 2"] s
      by (intro run [where reply = "fst (fs_close t (r ! 2))" and t' = "snd (fs_close t (r ! 2))"])
        (simp_all add: ramfs_op_def fs_spec_def)
  next
    case 5
    show ?thesis
      by (rule fs_unlink_refines [OF s t, of ly "r ! 2"], rule run)
        (use 5 in \<open>auto simp: ramfs_op_def fs_spec_def\<close>)
  next
    case 6
    then show ?thesis using s by (intro run) (simp_all add: ramfs_op_def fs_spec_def)
  qed
qed

text \<open>A client opens the file \<open>a\<close> of an empty service that has one page.\<close>

abbreviation empty_table :: file_table where
  "empty_table \<equiv> replicate MAX_FILES file_entry_free"

theorem ramfs_refines_witness:
  "\<exists>root A k. service_ok 0 1 root A (files empty_table) k [True, False, False, False] \<and> table_ok empty_table \<and>
     (\<forall>ly. \<exists>reply t' k' pool' A'.
       urun (fs_world ly 0 1) (ramfs_op empty_table [0, OP_FS_OPEN, 1, 0x61, 0, 0]) (k, [True, False, False, False], None) =
         Some (Some (reply, t'), k', pool', None) \<and>
       service_ok 0 1 root A' (files t') k' pool' \<and>
       ((\<exists>fd<4. reply = fs_reply OP_FS_OPEN 0 fd \<and>
           abs_fs (user_view 0 k') t' = [fd \<mapsto> \<lparr>af_open = True, af_name = [0x61], af_data = []\<rparr>]) \<or>
        reply = fs_reply OP_FS_OPEN ERR_ENOMEM 0 \<and> free_page_count (k_mm k') = Some 0))"
proof -
  obtain s root q A where d: "service_ok 0 1 root A {} (demo_service s root q) [True, False, False, False]" by (rule demo_service_ok)
  let ?k = "demo_service s root q" and ?pool = "[True, False, False, False]" and ?r = "[0, OP_FS_OPEN, 1, 0x61, 0, 0]"
  have free: "fe_state (empty_table ! fd) = FileFree" if "fd < 4" for fd using that by (simp add: file_entry_free_def)
  have files: "files empty_table = {}" using free by (auto simp: files_def)
  have empty: "abs_fs v empty_table = Map.empty" for v using free by (auto simp: abs_fs_def)
  have room: "free_page_count (k_mm k') = Some 0" if "fs_no_room 0 empty_table ?k ?pool k'" for k'
    using that free [of 0] unfolding fs_no_room_def demo_service_cap by (elim disjE) (auto dest: spec [of _ "0::nat"])
  have name: "take 1 (name_from_words [0x61, 0, 0]) = [0x61]" by (simp add: name_from_words_def take_map)
  have "\<exists>reply t' k' pool' A'. urun (fs_world ly 0 1) (ramfs_op empty_table ?r) (?k, ?pool, None) = Some (Some (reply, t'), k', pool', None) \<and>
       service_ok 0 1 root A' (files t') k' pool' \<and>
       ((\<exists>fd<4. reply = fs_reply OP_FS_OPEN 0 fd \<and>
           abs_fs (user_view 0 k') t' = [fd \<mapsto> \<lparr>af_open = True, af_name = [0x61], af_data = []\<rparr>]) \<or>
        reply = fs_reply OP_FS_OPEN ERR_ENOMEM 0 \<and> free_page_count (k_mm k') = Some 0)" for ly
  proof -
    obtain reply t' k' pool' A' where
      r: "urun (fs_world ly 0 1) (ramfs_op empty_table ?r) (?k, ?pool, None) = Some (Some (reply, t'), k', pool', None)"
        "service_ok 0 1 root A' (files t') k' pool'"
        "fs_spec ?r (shm_window 0 ?k) (abs_fs (user_view 0 ?k) empty_table) reply (shm_window 0 k') (abs_fs (user_view 0 k') t')"
        "?r ! 1 = OP_FS_OPEN \<and> reply ! 1 = ERR_ENOMEM \<longrightarrow> fs_no_room 0 empty_table ?k ?pool k'"
      using ramfs_refines [OF d [folded files] table_init_ok, of ly ?r] by (elim exE conjE) (rule that; assumption)
    have "open_spec 1 (name_from_words [0x61, 0, 0]) Map.empty reply (abs_fs (user_view 0 k') t')"
      using r(3) unfolding fs_spec_def empty by (simp add: numeral_eq_Suc)
    then have "reply = fs_reply OP_FS_OPEN ERR_ENOMEM 0 \<or> (\<exists>fd<4. reply = fs_reply OP_FS_OPEN 0 fd \<and>
           abs_fs (user_view 0 k') t' = [fd \<mapsto> \<lparr>af_open = True, af_name = [0x61], af_data = []\<rparr>])"
      unfolding open_spec_def name by auto
    then show ?thesis using r(1,2,4) room [of k'] by (intro exI conjI) (auto simp: fs_reply_def)
  qed
  then show ?thesis using d table_init_ok unfolding files [symmetric] by blast
qed

end
