(* ===== verification/Uart_Main.thy ===== *)
theory Uart_Main
  imports User_Logic
begin

text \<open>
  The serial service: the client functions \<^verbatim>\<open>uart_write\<close> and \<^verbatim>\<open>uart_read\<close> of the user library together with the
  serial server. The window is shared memory of the two. The device is the NS16550 as the server
  uses it: a byte stored in the transmit register goes out on the line, the transmitter gets empty
  after some time, a read of the receive register takes the oldest byte received, and the status register says
  whether there is one. A message is a rendezvous: a send of the client runs one round of the server.
\<close>

section \<open>The line and the window\<close>

record line =
  ln_shm :: "nat \<Rightarrow> byte"
  ln_out :: "byte list"
  ln_in :: "byte list"

definition in_window :: "usize \<Rightarrow> bool" where
  "in_window a \<longleftrightarrow> USER_SHM_VA \<le> a \<and> a < USER_SHM_VA + USER_SHM_LEN"

definition shm_load :: "usize \<Rightarrow> line \<Rightarrow> (byte \<times> line) option" where
  "shm_load a l = (if in_window a then Some (ln_shm l (a - USER_SHM_VA), l) else None)"

definition shm_store :: "usize \<Rightarrow> byte \<Rightarrow> line \<Rightarrow> line option" where
  "shm_store a b l = (if in_window a then Some (l\<lparr>ln_shm := (ln_shm l)(a - USER_SHM_VA := b)\<rparr>) else None)"

definition dev_load :: "usize \<Rightarrow> line \<Rightarrow> (byte \<times> line) option" where
  "dev_load a l =
     (if a = UART_MMIO_VA + LSR then Some (if ln_in l = [] then LSR_THRE else LSR_THRE OR LSR_DR, l)
      else if a = UART_MMIO_VA + RBR_THR then
        (case ln_in l of [] \<Rightarrow> Some (0, l) | b # bs \<Rightarrow> Some (b, l\<lparr>ln_in := bs\<rparr>))
      else shm_load a l)"

definition dev_store :: "usize \<Rightarrow> byte \<Rightarrow> line \<Rightarrow> line option" where
  "dev_store a b l = (if a = UART_MMIO_VA + RBR_THR then Some (l\<lparr>ln_out := ln_out l @ [b]\<rparr>) else shm_store a b l)"

definition dev_poll :: "usize \<Rightarrow> byte \<Rightarrow> line \<Rightarrow> line option" where
  "dev_poll a bits l = (if a = UART_MMIO_VA + LSR \<and> bits AND LSR_THRE \<noteq> 0 then Some l else None)"

section \<open>Client and server\<close>

text \<open>The server receives one message and sends one reply.\<close>

definition server_call :: "usize \<Rightarrow> usize list \<Rightarrow> line \<times> usize list option \<times> usize list option \<Rightarrow> (usize list \<times> line \<times> usize list option \<times> usize list option) option" where
  "server_call n args = (\<lambda>(l, inbox, outbox).
     if n = SYS_IPC_RECV \<and> args ! 0 = SERVER_ACCEPT_SLOT then (case inbox of Some m \<Rightarrow> Some (0 # m, l, None, outbox) | None \<Rightarrow> None)
     else if n = SYS_IPC_SEND \<and> args ! 0 = SERVER_ACCEPT_SLOT then Some ([0], l, inbox, Some (tl args))
     else None)"

definition server_world :: "(line \<times> usize list option \<times> usize list option) world" where
  "server_world = \<lparr>w_call = server_call, w_load = (\<lambda>a (l, x). map_option (\<lambda>(b, l). (b, l, x)) (dev_load a l)),
     w_store = (\<lambda>a b (l, x). map_option (\<lambda>l. (l, x)) (dev_store a b l)),
     w_poll = (\<lambda>a bits (l, x). map_option (\<lambda>l. (l, x)) (dev_poll a bits l))\<rparr>"

definition uart_round :: "usize list \<Rightarrow> line \<Rightarrow> (usize list \<times> line) option" where
  "uart_round m l =
     (case urun server_world (uart_server_body ()) (l, Some m, None) of
        Some (Some _, l, _, Some reply) \<Rightarrow> Some (reply, l)
      | _ \<Rightarrow> None)"

definition client_call :: "usize \<Rightarrow> usize list \<Rightarrow> line \<times> usize list option \<Rightarrow> (usize list \<times> line \<times> usize list option) option" where
  "client_call n args = (\<lambda>(l, inbox).
     if n = SYS_IPC_RECV \<and> args ! 0 = CLIENT_IPC_SLOT then (case inbox of Some m \<Rightarrow> Some (0 # m, l, None) | None \<Rightarrow> None)
     else if n = SYS_IPC_SEND \<and> args ! 0 = CLIENT_IPC_SLOT then
       map_option (\<lambda>(reply, l). ([0], l, Some reply)) (uart_round (tl args) l)
     else None)"

definition client_world :: "(line \<times> usize list option) world" where
  "client_world = \<lparr>w_call = client_call, w_load = (\<lambda>a (l, x). map_option (\<lambda>(b, l). (b, l, x)) (shm_load a l)),
     w_store = (\<lambda>a b (l, x). map_option (\<lambda>l. (l, x)) (shm_store a b l)), w_poll = (\<lambda>_ _ _. None)\<rparr>"

section \<open>The loops\<close>

lemma window_offset: "i < 4096 \<Longrightarrow> in_window (USER_SHM_VA + i)"
  by (simp add: in_window_def)

lemma tx_raw_run [simp]:
  "urun server_world (uart_tx_raw b p) (l, x) = urun server_world p (l\<lparr>ln_out := ln_out l @ [b]\<rparr>, x)"
  by (simp add: uart_tx_raw_def server_world_def dev_poll_def dev_store_def)

lemma write_loop_run:
  "i + m \<le> 4096 \<Longrightarrow> urun server_world (write_loop i m p) (l, x) =
     urun server_world p (l\<lparr>ln_out := ln_out l @ crlf (map (ln_shm l) [i..<i + m])\<rparr>, x)"
proof (induction i m p arbitrary: l rule: write_loop.induct)
  case (2 i m p)
  have "w_load server_world (USER_SHM_VA + i) (l, x) = Some (ln_shm l i, l, x)"
    using 2(2) window_offset [of i] by (simp add: server_world_def dev_load_def shm_load_def)
  then show ?case using 2 by (simp add: uart_tx_def crlf_def upt_conv_Cons del: upt_Suc)
qed (simp add: crlf_def)

lemma store_bytes_run:
  "i + length bs \<le> 4096 \<Longrightarrow> \<exists>l'. urun client_world (store_bytes (USER_SHM_VA + i) bs p) (l, x) = urun client_world p (l', x) \<and>
     ln_out l' = ln_out l \<and> ln_in l' = ln_in l \<and> map (ln_shm l') [i..<i + length bs] = bs \<and> (\<forall>j<i. ln_shm l' j = ln_shm l j)"
proof (induction bs arbitrary: i l)
  case (Cons b bs)
  let ?l = "l\<lparr>ln_shm := (ln_shm l)(i := b)\<rparr>"
  have st: "w_store client_world (USER_SHM_VA + i) b (l, x) = Some (?l, x)"
    using Cons(2) window_offset [of i] by (simp add: client_world_def shm_store_def)
  obtain l' where l': "urun client_world (store_bytes (USER_SHM_VA + Suc i) bs p) (?l, x) = urun client_world p (l', x)"
    "ln_out l' = ln_out ?l" "ln_in l' = ln_in ?l" "map (ln_shm l') [Suc i..<Suc i + length bs] = bs" "\<forall>j<Suc i. ln_shm l' j = ln_shm ?l j"
    using Cons.IH [of "Suc i" ?l] Cons.prems by auto
  have "urun client_world (store_bytes (USER_SHM_VA + i) (b # bs) p) (l, x) = urun client_world p (l', x)"
    using st l'(1) by simp
  moreover have "map (ln_shm l') [i..<i + length (b # bs)] = b # bs" using l'(4,5) by (simp add: upt_conv_Cons del: upt_Suc)
  moreover have "\<forall>j<i. ln_shm l' j = ln_shm l j" using l'(5) by simp
  ultimately show ?case using l'(2,3) by (intro exI [of _ l']) simp
qed auto

lemma read_loop_run:
  "n + m \<le> 4096 \<Longrightarrow> \<exists>l'. urun server_world (read_loop n m k) (l, x) = urun server_world (k (n + min m (length (ln_in l)))) (l', x) \<and>
     ln_out l' = ln_out l \<and> ln_in l' = drop m (ln_in l) \<and>
     map (ln_shm l') [n..<n + min m (length (ln_in l))] = take m (ln_in l) \<and> (\<forall>j<n. ln_shm l' j = ln_shm l j)"
proof (induction n m k arbitrary: l rule: read_loop.induct)
  case (2 n m k)
  have lsr: "w_load server_world (UART_MMIO_VA + LSR) (l, x) = Some (if ln_in l = [] then LSR_THRE else LSR_THRE OR LSR_DR, l, x)"
    by (simp add: server_world_def dev_load_def)
  show ?case
  proof (cases "ln_in l")
    case Nil
    then show ?thesis using lsr by (intro exI [of _ l]) (simp add: uart_rx_ready_def)
  next
    case (Cons b bs)
    let ?l = "l\<lparr>ln_in := bs, ln_shm := (ln_shm l)(n := b)\<rparr>"
    have "w_load server_world (UART_MMIO_VA + RBR_THR) (l, x) = Some (b, l\<lparr>ln_in := bs\<rparr>, x)"
      using Cons by (simp add: server_world_def dev_load_def)
    moreover have "w_store server_world (USER_SHM_VA + n) b (l\<lparr>ln_in := bs\<rparr>, x) = Some (?l, x)"
      using 2(2) window_offset [of n] by (simp add: server_world_def dev_store_def shm_store_def)
    ultimately have run: "urun server_world (read_loop n (Suc m) k) (l, x) = urun server_world (read_loop (Suc n) m k) (?l, x)"
      using lsr Cons by (simp add: uart_rx_ready_def uart_rx_def)
    obtain l' where l': "urun server_world (read_loop (Suc n) m k) (?l, x) = urun server_world (k (Suc n + min m (length bs))) (l', x)"
      "ln_out l' = ln_out l" "ln_in l' = drop m bs" "map (ln_shm l') [Suc n..<Suc n + min m (length bs)] = take m bs"
      "\<forall>j<Suc n. ln_shm l' j = ln_shm ?l j" using 2(1) [of True ?l] 2(2) by auto
    have "map (ln_shm l') [n..<Suc n + min m (length bs)] = b # take m bs" using l'(4,5) by (simp add: upt_conv_Cons del: upt_Suc)
    then show ?thesis using run l' Cons by (intro exI [of _ l']) simp
  qed
qed auto

lemma load_bytes_run:
  "i + n \<le> 4096 \<Longrightarrow> urun client_world (load_bytes (USER_SHM_VA + i) n k) (l, x) = urun client_world (k (map (ln_shm l) [i..<i + n])) (l, x)"
proof (induction n arbitrary: i k)
  case (Suc n)
  have "w_load client_world (USER_SHM_VA + i) (l, x) = Some (ln_shm l i, l, x)"
    using Suc(2) window_offset [of i] by (simp add: client_world_def shm_load_def)
  then show ?case using Suc.IH [of "Suc i"] Suc.prems by (simp add: upt_conv_Cons del: upt_Suc)
qed simp

section \<open>One request\<close>

lemma uart_round_write:
  assumes "n \<le> 4096"
  shows "uart_round [OP_WRITE, n, 0, 0, 0] l =
    Some ([OP_WRITE OR OP_REPLY_FLAG, 0, n, 0, 0], l\<lparr>ln_out := ln_out l @ crlf (map (ln_shm l) [0..<n])\<rparr>)"
proof -
  have "w_call server_world = server_call" by (simp add: server_world_def)
  then show ?thesis using assms
    by (simp add: uart_round_def uart_server_body_def syscall_defs server_call_def uart_op_def write_loop_run)
qed

lemma uart_round_read:
  assumes "m \<le> 4096"
  obtains l' n where "uart_round [OP_READ, m, 0, 0, 0] l = Some ([OP_READ OR OP_REPLY_FLAG, 0, n, 0, 0], l')"
    "n = min m (length (ln_in l))" "ln_out l' = ln_out l" "ln_in l' = drop m (ln_in l)" "map (ln_shm l') [0..<n] = take m (ln_in l)"
proof -
  let ?k = "\<lambda>n. URet [OP_READ OR OP_REPLY_FLAG, 0, n, 0, 0]"
  obtain l' where l': "urun server_world (read_loop 0 m ?k) (l, None, None) = urun server_world (?k (min m (length (ln_in l)))) (l', None, None)"
    "ln_out l' = ln_out l" "ln_in l' = drop m (ln_in l)" "map (ln_shm l') [0..<min m (length (ln_in l))] = take m (ln_in l)"
    using read_loop_run [of 0 m ?k l "(None, None)"] assms by auto
  have "w_call server_world = server_call" by (simp add: server_world_def)
  then have "uart_round [OP_READ, m, 0, 0, 0] l = Some ([OP_READ OR OP_REPLY_FLAG, 0, min m (length (ln_in l)), 0, 0], l')"
    using assms l'(1) by (simp add: uart_round_def uart_server_body_def syscall_defs server_call_def uart_op_def)
  then show ?thesis using that l'(2-4) by blast
qed

section \<open>The service\<close>

text \<open>
  C12. The serial service. \<^verbatim>\<open>uart_write\<close> sends the first 4096 of the given bytes, in order and with a
  carriage return before every line feed, and returns their number. \<^verbatim>\<open>uart_read\<close> returns the bytes that
  have been received, oldest first, up to the length of the buffer and the size of the window, and
  takes them from the line; it does not wait.
\<close>

theorem serial_service:
  "(\<exists>l'. urun client_world (uart_write bytes) (l, None) = Some (Some (int (min (length bytes) 4096)), l', None) \<and>
      ln_out l' = ln_out l @ crlf (take 4096 bytes) \<and> ln_in l' = ln_in l) \<and>
   (\<exists>l'. urun client_world (uart_read buf_len) (l, None) =
        Some (Some (int (min (min buf_len 4096) (length (ln_in l))), take (min buf_len 4096) (ln_in l)), l', None) \<and>
      ln_out l' = ln_out l \<and> ln_in l' = drop (min buf_len 4096) (ln_in l))"
proof
  have call: "w_call client_world = client_call" by (simp add: client_world_def)
  let ?n = "min (length bytes) 4096" and ?m = "min buf_len 4096"
  have tk: "take ?n bytes = take 4096 bytes" by (simp add: min_def)
  let ?p = "sys_ipc_send CLIENT_IPC_SLOT [OP_WRITE, ?n, 0, 0, 0] (\<lambda>rc. if rc \<noteq> 0 then URet (- 1)
           else sys_ipc_recv CLIENT_IPC_SLOT (\<lambda>r. if r ! 0 \<noteq> 0 then URet (isize (r ! 0))
             else if isize (r ! 2) \<noteq> 0 then URet (isize (r ! 2)) else URet (isize (r ! 3))))"
  obtain l' where l': "urun client_world (store_bytes USER_SHM_VA (take ?n bytes) ?p) (l, None) = urun client_world ?p (l', None)"
    "ln_out l' = ln_out l" "ln_in l' = ln_in l" "map (ln_shm l') [0..<?n] = take ?n bytes"
    using store_bytes_run [of 0 "take ?n bytes" ?p l None] by auto
  have "urun client_world ?p (l', None) = Some (Some (int ?n), l'\<lparr>ln_out := ln_out l' @ crlf (take ?n bytes)\<rparr>, None)"
    using uart_round_write [of ?n l'] l'(4) by (simp add: call client_call_def syscall_defs isize_def)
  then show "\<exists>l'. urun client_world (uart_write bytes) (l, None) = Some (Some (int ?n), l', None) \<and>
      ln_out l' = ln_out l @ crlf (take 4096 bytes) \<and> ln_in l' = ln_in l"
    using l' tk by (intro exI [of _ "l'\<lparr>ln_out := ln_out l' @ crlf (take ?n bytes)\<rparr>"]) (simp add: uart_write_def Let_def)
  obtain l'' n where r: "uart_round [OP_READ, ?m, 0, 0, 0] l = Some ([OP_READ OR OP_REPLY_FLAG, 0, n, 0, 0], l'')"
    "n = min ?m (length (ln_in l))" "ln_out l'' = ln_out l" "ln_in l'' = drop ?m (ln_in l)" "map (ln_shm l'') [0..<n] = take ?m (ln_in l)"
    using uart_round_read [of ?m l thesis] by auto
  have "min n buf_len = n" "n \<le> 4096" using r(2) by auto
  then show "\<exists>l'. urun client_world (uart_read buf_len) (l, None) =
        Some (Some (int (min ?m (length (ln_in l))), take ?m (ln_in l)), l', None) \<and>
      ln_out l' = ln_out l \<and> ln_in l' = drop ?m (ln_in l)"
    using r load_bytes_run [of 0 n "\<lambda>bs. URet (int n, bs)" l'' None]
    by (intro exI [of _ l'']) (simp add: uart_read_def Let_def call client_call_def syscall_defs isize_def)
qed

end
