(* ===== verification/Spec2Isabelle.thy ===== *)
theory Spec2Isabelle
  imports Mem_Main Mmu_Main Objects_Main Destroy_Main Sched_Threads Syscall_Main Elf_Main Boot Sync_Main Console_Main Ramfs_Main Uart_Main
begin

text \<open>
  Verification of ignium, a microkernel for RISC-V with Sv39 paging (src/kernel/src, Rust), and of the
  servers that run on it (src/user/src).

  \<^bold>\<open>The program.\<close> At boot \<^verbatim>\<open>kernel_main\<close> (main.rs) parses the device tree (fdt.rs), fixes the board
  parameters (board.rs) and starts the page allocator (mem.rs), the kernel page table (mmu.rs), the heap
  (heap.rs) and the scheduler (sched.rs). Afterwards all work is done in traps: arch/riscv64.rs enters
  the system calls (syscall.rs), which act on processes and capabilities (process.rs), shared pages
  (shm.rs), page capabilities (pages.rs), devices (device.rs), services (services.rs), messages (ipc.rs)
  and threads (sched.rs); elf.rs loads programs into new address spaces; sync.rs has the locks; uart.rs is the
  console of the kernel. The user programs are a memory server, which hands out pages, a file server, which keeps
  each file in such a page, a serial server, and their clients, on a library of system calls (lib.rs).

  \<^bold>\<open>Conventions\<close> (theory Prelude). A \<^verbatim>\<open>usize\<close> is a natural number with checked operations (both build
  profiles panic on overflow), a bit pattern is a word. A computation that may panic returns an option,
  the \<open>outcome\<close>; \<open>None\<close> is the panic, or a loop that does not end. A Rust \<^verbatim>\<open>Result\<close> is the datatype
  \<open>result\<close>. Memory is a function from addresses to bytes. State is passed explicitly, in one record per
  component. Linker symbols, program images and the answers of hardware are arguments.

  \<^bold>\<open>Theories\<close>, with the source files they model and what they prove (C: the numbered properties).

  \<^item> Mem (mem.rs): the buddy allocator with its free lists in memory. Mem_Inv to Mem_Reach have the
    invariant (blocks tile the RAM, lists and metadata agree) and that each operation keeps it. Mem_Main:
    the contract of Alloc_Spec holds (C1, C2), errors (C3), initialisation (C5), all reachable states
    (C6; that nothing is left fragmented by the clients, C7), the page count (C8), a double free (C10).
  \<^item> Mmu (mmu.rs): page tables. Mmu_Inv: the tree of tables of an address space and the pages it owns;
    Mmu_Correct, Mmu_Destroy: each walk and update; Mmu_Main: mapping (C11), unmapping, tear-down
    (C13), splitting a superpage. Kernel_Map: the kernel's own mapping (C14).
  \<^item> Heap (heap.rs): slabs and large objects. Heap_Inv, Heap_Core, Heap_Grow, Heap_Page, Heap_Objects: page
    chains and free lists in memory, slots in use, blocks of large objects. Heap_Main: allocation (C9) and
    deallocation (C32), and that the heap is an instance of the object allocator of Object_Spec.
  \<^item> Process (process.rs) and Objects (shm.rs, pages.rs, device.rs, services.rs): tables and capabilities.
    Slot_Spec is the contract of a slot table. Objects_Main: the invariant of reachable states (C15), process creation
    (C16), moving a page capability (C19). Revoke: several address spaces over one allocator, when one of
    them loses a mapping or a page is released, and revoking shared pages and page capabilities;
    Destroy_Main: the end of a process with all it holds (C17), with two processes that share a page as an example.
  \<^item> Sched (sched.rs): threads, ready queues per hart, donation, preemption, blocking, killing. Sched_Inv,
    Sched_Ops, Sched_Preempt, Sched_Life, Sched_Kill, Sched_Reach: the invariant and when each operation
    keeps it; Sched_Events: the calls as events, the states reached by them, and the three calls that break the
    invariant (\<open>breaks\<close>, defects of the code); Sched_Spec has the contracts of the ready queues and
    of waking. Sched_Main and Sched_Threads: the invariant holds in every state reached without one of these calls, and
    the next call keeps it exactly if it is none of them (C22), dispatch order (C23), donation (C25), wake-ups (C26),
    ticks (C27), killing (C29), a slot reused twice (C31).
  \<^item> Ipc (ipc.rs), Syscall (syscall.rs, parts of arch/riscv64.rs): messages and dispatch. Ipc_Main: \<^verbatim>\<open>send\<close> on every
    branch with its donation (C33), C34, C35; Syscall_Main: C37, C38.
  \<^item> Elf (elf.rs): Elf_Parse, Elf_Inv, Elf_Segs, Elf_Stack; Elf_Main: the files that \<^verbatim>\<open>parse\<close> accepts (C39),
    what \<^verbatim>\<open>load\<close> puts into memory and its rollback, which loses a stack page when mapping it fails (C40).
  \<^item> Fdt (fdt.rs): Fdt_Inv: no read outside the blob, disjoint reserved ranges; Fdt_Tree: trees and their
    encoding; Fdt_Main: C18, C20. Board (board.rs, cpu.rs). Boot (main.rs up to \<^verbatim>\<open>mem::init\<close>): any device
    tree gives a well-formed allocator and heap, or a panic if RAM ends at or below the first 16 MiB boundary
    above the kernel (C30).
  \<^item> Sync (sync.rs): locks as interleaved atomic steps; Lock_Spec is the contract of a lock with a flag.
    Sync_Main: mutual exclusion (C21), a lost wake-up (C28).
  \<^item> Console (uart.rs): the driver with a register model of the device. Console_Main: set-up and bounded
    output (C36).
  \<^item> User (user/src/lib.rs), Servers (memory_server.rs, uart_server.rs, ramfs_server.rs), Clients (mem_client.rs,
    ramfs_client.rs): a user program is a tree of its system calls and memory accesses. User_Logic: properties of
    all paths, runs in a world, and the contract \<open>user_memory\<close> of the memory a program sees. User_Mem interprets
    it on the page tables of the kernel, User_Space and Page_Calls have what \<^verbatim>\<open>mem_map\<close> and \<^verbatim>\<open>mem_grant\<close>
    change in it.
  \<^item> Ramfs_Inv: the file table, the accesses and the calls of the file server on all paths (C4). Ramfs_Data: the copies of
    a read and a write. File_Service: file server, memory server and kernel as one system; File_Inv, File_Steps:
    its invariant and the life of a page between pool and file; Ramfs_Ops: the abstract file
    service; Ramfs_Main: the refinement (C24), for which File_Demo has a concrete state. Uart_Main: serial client
    and server (C12).

  \<^bold>\<open>Loops.\<close> Loops over structures in memory (free lists, slab chains, device tree, queues) are partial
  functions; the properties state that they return. There is no fuel. The service loops of the user programs are
  given by their bodies, which end; waiting for a device register is one interaction of a program.

  \<^bold>\<open>Concurrency.\<close> Each operation that runs under a spin lock with interrupts off is one step; harts
  interleave between operations (Sched_Events, Ipc_Main, Syscall_Main). Sync has the lock operations
  themselves at the grain of single atomic accesses. Memory ordering is sequentially consistent. Between user
  programs a message is a rendezvous: the sender runs on with the reply of one round of the server; that the kernel
  delivers messages in this way is C33 and C37.

  \<^bold>\<open>Not modelled.\<close> Assembly, control registers, TLB and firmware calls (arch/riscv64.S, entry.S, most of
  arch/riscv64.rs, sbi.rs), text formatting and panics (logger.rs, panic.rs), tests
  and benchmarks (tests.rs, the self tests of the modules), the start of secondary harts (main.rs), the greeting
  program (hello.rs, loops over argument strings without a bound). The effect of exhausting the kernel heap inside another component's vector is not
  modelled: vectors grow.

  \<^bold>\<open>Plan.\<close> Several clients of one server at a time, success conditions for \<^verbatim>\<open>load\<close> and \<^verbatim>\<open>mmu::init\<close>.
\<close>

end
